(* ===== verification/ChPrelude.thy ===== *)
theory ChPrelude
  imports Main "HOL-Library.Monad_Syntax"
begin

text \<open>
  Shared vocabulary of the development: the named collections the component proofs draw on,
  the \<^emph>\<open>chains\<close> that describe intrusive linked lists, priority-ordered insertion on
  lists, and the option-monad facts used wherever an operation may not return.

  Convention: an operation of the kernel returns an \<open>option\<close>. The value \<open>None\<close> means that
  control does not come back: \<open>chSysHalt\<close> was entered through a failed check or assertion, a
  loop does not end, or the C code has no defined result there.
\<close>

named_theorems kdefs \<open>definitions of the kernel operations\<close>
named_theorems kframe \<open>which parts of the state an operation leaves alone\<close>

subsection \<open>The option monad\<close>

definition assert_that :: "bool \<Rightarrow> unit option" where
  "assert_that b = (if b then Some () else None)"

lemma assert_that_simps [simp]:
  "assert_that True = Some ()"
  "assert_that False = None"
  "(assert_that b = Some u) = b"
  "(assert_that b = None) = (\<not> b)"
  by (auto simp: assert_that_def)

lemma bind_assert_Some [simp]:
  "(assert_that b \<bind> f = Some r) = (b \<and> f () = Some r)"
  by (auto simp: assert_that_def)

lemma bind_assert_True: "b \<Longrightarrow> (assert_that b \<bind> f) = f ()"
  by (simp add: assert_that_def)

lemma bind_assert_False: "\<not> b \<Longrightarrow> (assert_that b \<bind> f) = None"
  by (simp add: assert_that_def)

lemma bind_Some_eq: "m = Some x \<Longrightarrow> (m \<bind> f) = f x"
  by simp

subsection \<open>Chains: what a linked list looks like in the store\<close>

text \<open>
  \<open>chain f x as y\<close>: following the link field \<open>f\<close> from \<open>x\<close> visits exactly \<open>as\<close> and then
  reaches \<open>y\<close>.
\<close>

primrec chain :: "('n \<Rightarrow> 'n) \<Rightarrow> 'n \<Rightarrow> 'n list \<Rightarrow> 'n \<Rightarrow> bool" where
  "chain f x [] y \<longleftrightarrow> f x = y"
| "chain f x (a # as) y \<longleftrightarrow> f x = a \<and> chain f a as y"

lemma chain_append [simp]:
  "chain f x (as @ b # bs) y \<longleftrightarrow> chain f x as b \<and> chain f b bs y"
  by (induction as arbitrary: x) auto

lemma chain_upd [simp]:
  "u \<noteq> x \<Longrightarrow> u \<notin> set as \<Longrightarrow> chain (f(u := v)) x as y = chain f x as y"
  by (induction as arbitrary: x) auto

lemma chain_cong:
  "(\<And>n. n \<in> set (x # as) \<Longrightarrow> f n = g n) \<Longrightarrow> chain f x as y = chain g x as y"
  by (induction as arbitrary: x) auto

lemma chain_if [simp]:
  "u \<noteq> x \<Longrightarrow> u \<notin> set as \<Longrightarrow> chain (\<lambda>a. if a = u then v else f a) x as y = chain f x as y"
  by (rule chain_cong) auto

lemma chain_first: "chain f x as y \<Longrightarrow> f x = hd (as @ [y])"
  by (cases as) auto

lemma chain_last: "chain f x as y \<Longrightarrow> f (last (x # as)) = y"
  by (induction as arbitrary: x) auto

lemma chain_insert:
  assumes "chain f x (as @ bs) y" and "distinct (x # as @ bs)" and "t \<notin> set (x # as @ bs)"
  shows "chain (f(t := hd (bs @ [y]), last (x # as) := t)) x (as @ t # bs) y"
  using assms
proof (induction as arbitrary: x)
  case Nil
  then show ?case by (cases bs) auto
next
  case (Cons a as)
  have "chain (f(t := hd (bs @ [y]), last (a # as) := t)) a (as @ t # bs) y"
    using Cons.prems by (intro Cons.IH) auto
  moreover have "x \<noteq> last (a # as)" and "x \<noteq> t"
    using Cons.prems(2,3) last_in_set [of "a # as"] by (auto simp del: last.simps)
  ultimately show ?case
    using Cons.prems(1) by (simp add: last_ConsR fun_upd_def del: last.simps chain_append)
qed

lemma chain_delete:
  assumes "chain f x (as @ t # bs) y" and "distinct (x # as @ t # bs)"
  shows "chain (f(last (x # as) := hd (bs @ [y]))) x (as @ bs) y"
  using assms
proof (induction as arbitrary: x)
  case Nil
  then show ?case by (cases bs) auto
next
  case (Cons a as)
  have "chain (f(last (a # as) := hd (bs @ [y]))) a (as @ bs) y"
    using Cons.prems by (intro Cons.IH) auto
  moreover have "x \<noteq> last (a # as)"
    using Cons.prems(2) last_in_set [of "a # as"] by (auto simp del: last.simps)
  ultimately show ?case
    using Cons.prems(1) by (simp add: last_ConsR fun_upd_def del: last.simps chain_append)
qed

lemma last_Cons_rev: "last (x # rev bs) = hd (bs @ [x])"
  by (cases bs) auto

lemma hd_rev_snoc: "hd (rev as @ [x]) = last (x # as)"
  by (cases as rule: rev_cases) auto

subsection \<open>Priority-ordered lists\<close>

text \<open>Highest priority first, and the two insertions of the scheduler.\<close>

abbreviation prio_sorted :: "('t \<Rightarrow> nat) \<Rightarrow> 't list \<Rightarrow> bool" where
  "prio_sorted pr \<equiv> sorted_wrt (\<lambda>a b. pr b \<le> pr a)"

fun prio_insert :: "('t \<Rightarrow> nat) \<Rightarrow> 't \<Rightarrow> 't list \<Rightarrow> 't list" where
  "prio_insert pr t [] = [t]"
| "prio_insert pr t (x # xs) = (if pr t \<le> pr x then x # prio_insert pr t xs else t # x # xs)"

fun prio_insert_ahead :: "('t \<Rightarrow> nat) \<Rightarrow> 't \<Rightarrow> 't list \<Rightarrow> 't list" where
  "prio_insert_ahead pr t [] = [t]"
| "prio_insert_ahead pr t (x # xs) =
     (if pr t < pr x then x # prio_insert_ahead pr t xs else t # x # xs)"

lemma prio_insert_split:
  "prio_insert pr t xs =
     takeWhile (\<lambda>x. pr t \<le> pr x) xs @ t # dropWhile (\<lambda>x. pr t \<le> pr x) xs"
  by (induction xs) auto

lemma prio_insert_ahead_split:
  "prio_insert_ahead pr t xs =
     takeWhile (\<lambda>x. pr t < pr x) xs @ t # dropWhile (\<lambda>x. pr t < pr x) xs"
  by (induction xs) auto

lemma set_prio_insert [simp]: "set (prio_insert pr t xs) = insert t (set xs)"
  by (induction xs) auto

lemma set_prio_insert_ahead [simp]: "set (prio_insert_ahead pr t xs) = insert t (set xs)"
  by (induction xs) auto

lemma prio_insert_not_Nil [simp]: "prio_insert pr t xs \<noteq> []"
  by (cases xs) auto

lemma prio_insert_ahead_not_Nil [simp]: "prio_insert_ahead pr t xs \<noteq> []"
  by (cases xs) auto

lemma length_prio_insert [simp]: "length (prio_insert pr t xs) = Suc (length xs)"
  by (induction xs) auto

lemma distinct_prio_insert [simp]:
  "distinct (prio_insert pr t xs) \<longleftrightarrow> t \<notin> set xs \<and> distinct xs"
  by (induction xs) auto

lemma distinct_prio_insert_ahead [simp]:
  "distinct (prio_insert_ahead pr t xs) \<longleftrightarrow> t \<notin> set xs \<and> distinct xs"
  by (induction xs) auto

lemma prio_sorted_insert:
  "prio_sorted pr xs \<Longrightarrow> prio_sorted pr (prio_insert pr t xs)"
  by (induction xs) auto

lemma prio_sorted_insert_ahead:
  "prio_sorted pr xs \<Longrightarrow> prio_sorted pr (prio_insert_ahead pr t xs)"
  by (induction xs) auto

lemma prio_insert_cong:
  "pr t = pr' t \<Longrightarrow> (\<And>x. x \<in> set xs \<Longrightarrow> pr x = pr' x) \<Longrightarrow>
     prio_insert pr t xs = prio_insert pr' t xs"
  by (induction xs) auto

lemma prio_sorted_cong:
  "(\<And>x. x \<in> set xs \<Longrightarrow> pr x = pr' x) \<Longrightarrow> prio_sorted pr xs = prio_sorted pr' xs"
  by (induction xs) auto

lemma hd_prio_insert:
  "hd (prio_insert pr t xs) = (if xs = [] \<or> pr (hd xs) < pr t then t else hd xs)"
  by (cases xs) auto

lemma prio_sorted_hd_max:
  "prio_sorted pr xs \<Longrightarrow> x \<in> set xs \<Longrightarrow> pr x \<le> pr (hd xs)"
  by (cases xs) auto

lemma prio_sorted_remove: "prio_sorted pr xs \<Longrightarrow> prio_sorted pr (filter P xs)"
  by (induction xs) auto

lemma prio_sorted_tl: "prio_sorted pr xs \<Longrightarrow> prio_sorted pr (tl xs)"
  by (cases xs) auto

lemma filter_neq_id [simp]: "t \<notin> set xs \<Longrightarrow> filter (\<lambda>x. x \<noteq> t) xs = xs"
  by (auto simp: filter_id_conv)

lemma ex_split: "(\<exists>x. P x) \<longleftrightarrow> (\<exists>x. x \<noteq> a \<and> P x) \<or> P a"
  by metis

lemma length_filter_neq:
  "distinct xs \<Longrightarrow> t \<in> set xs \<Longrightarrow> Suc (length (filter (\<lambda>x. x \<noteq> t) xs)) = length xs"
  by (induction xs) auto

text \<open>
  Inserting a sequence of elements one after the other: the result is ordered by priority, and
  elements of the same priority stay in arrival order.
\<close>

definition prio_insert_all :: "('t \<Rightarrow> nat) \<Rightarrow> 't list \<Rightarrow> 't list \<Rightarrow> 't list" where
  "prio_insert_all pr ts xs = fold (prio_insert pr) ts xs"

lemma filter_prio_insert:
  "prio_sorted pr xs \<Longrightarrow> filter (\<lambda>x. pr x = p) (prio_insert pr t xs) =
     filter (\<lambda>x. pr x = p) xs @ (if pr t = p then [t] else [])"
proof (induction xs)
  case Nil
  then show ?case by simp
next
  case (Cons x xs)
  have "filter (\<lambda>y. pr y = pr t) xs = []" if "pr x < pr t"
    using Cons.prems that by (force simp: filter_empty_conv)
  then show ?case using Cons by auto
qed

lemma prio_insert_all_sorted:
  "prio_sorted pr xs \<Longrightarrow> prio_sorted pr (prio_insert_all pr ts xs)"
  unfolding prio_insert_all_def by (induction ts arbitrary: xs) (auto intro: prio_sorted_insert)

lemma prio_insert_all_stable:
  "prio_sorted pr xs \<Longrightarrow> filter (\<lambda>x. pr x = p) (prio_insert_all pr ts xs) =
     filter (\<lambda>x. pr x = p) xs @ filter (\<lambda>x. pr x = p) ts"
  unfolding prio_insert_all_def
  by (induction ts arbitrary: xs) (auto simp: filter_prio_insert prio_sorted_insert)

lemma set_prio_insert_all [simp]: "set (prio_insert_all pr ts xs) = set ts \<union> set xs"
  unfolding prio_insert_all_def by (induction ts arbitrary: xs) auto

lemma length_prio_insert_all [simp]: "length (prio_insert_all pr ts xs) = length ts + length xs"
  unfolding prio_insert_all_def by (induction ts arbitrary: xs) auto

end
