(* ===== verification/ChTypes.thy ===== *)
theory ChTypes
  imports ChPrelude "HOL-Library.Word"
begin

text \<open>
  The data model of the ChibiOS/RT kernel: the scalar types of \<open>chtypes.h\<close>, the constants of
  \<open>chschd.h\<close> and the structures of the kernel headers.

  Objects the C code names by address are named by numbers: a \<open>tid\<close> is a \<open>thread_t *\<close>, and
  semaphores, mutexes, condition variables, thread references, timers and event objects have a
  number each. A \<open>qid\<close> is the address of a thread queue: the ready list, the queue that opens
  a semaphore, a mutex or a condition variable, the message queue and the waiting list inside a
  thread, or a free-standing queue. The intrusive links \<open>p_next\<close>/\<open>p_prev\<close> are the component
  of \<open>ChQueues\<close>; the kernel state keeps the list of threads each queue holds.
\<close>

type_synonym tid = nat
type_synonym tprio_t = nat
type_synonym msg_t = int
type_synonym cnt_t = int
type_synonym systime_t = "32 word"
type_synonym eventmask_t = "32 word"
type_synonym eventflags_t = "32 word"
type_synonym tmode_t = "8 word"

subsection \<open>Constants\<close>

definition MSG_OK :: msg_t where "MSG_OK = 0"
definition MSG_TIMEOUT :: msg_t where "MSG_TIMEOUT = -1"
definition MSG_RESET :: msg_t where "MSG_RESET = -2"

definition NOPRIO :: tprio_t where "NOPRIO = 0"
definition IDLEPRIO :: tprio_t where "IDLEPRIO = 1"
definition LOWPRIO :: tprio_t where "LOWPRIO = 2"
definition NORMALPRIO :: tprio_t where "NORMALPRIO = 64"
definition HIGHPRIO :: tprio_t where "HIGHPRIO = 127"

definition TIME_IMMEDIATE :: systime_t where "TIME_IMMEDIATE = 0"
definition TIME_INFINITE :: systime_t where "TIME_INFINITE = - 1"

lemma msg_consts [simp]:
  "MSG_OK \<noteq> MSG_TIMEOUT" "MSG_TIMEOUT \<noteq> MSG_OK" "MSG_OK \<noteq> MSG_RESET" "MSG_RESET \<noteq> MSG_OK"
  "MSG_TIMEOUT \<noteq> MSG_RESET" "MSG_RESET \<noteq> MSG_TIMEOUT"
  "MSG_TIMEOUT < MSG_OK" "MSG_RESET < MSG_OK" "\<not> MSG_OK < MSG_OK"
  by (simp_all add: MSG_OK_def MSG_TIMEOUT_def MSG_RESET_def)

subsection \<open>Thread states and addresses\<close>

datatype tstate_t =
    CH_STATE_READY | CH_STATE_CURRENT | CH_STATE_WTSTART | CH_STATE_SUSPENDED
  | CH_STATE_QUEUED | CH_STATE_WTSEM | CH_STATE_WTMTX | CH_STATE_WTCOND
  | CH_STATE_SLEEPING | CH_STATE_WTEXIT | CH_STATE_WTOREVT | CH_STATE_WTANDEVT
  | CH_STATE_SNDMSGQ | CH_STATE_SNDMSG | CH_STATE_WTMSG | CH_STATE_FINAL

datatype qid =
    Q_RLIST | Q_SEM nat | Q_MTX nat | Q_COND nat | Q_MSG tid | Q_WAIT tid | Q_THD nat

text \<open>
  The union \<open>p_u\<close> of \<open>struct ch_thread\<close>. Its members \<open>rdymsg\<close> and \<open>exitcode\<close> have the same
  type and share \<open>Rdymsg\<close>; \<open>wtobjp\<close>, \<open>wtsemp\<close> and \<open>wtmtxp\<close> are pointers to structures that
  open with their queue and share \<open>Wtobjp\<close>, the address of that queue.
\<close>

datatype p_union =
    Rdymsg msg_t | Wttrp nat | Wtobjp qid | Ewmask eventmask_t

record thread_t =
  p_prio :: tprio_t
  p_state :: tstate_t
  p_flags :: tmode_t
  p_refs :: nat
  p_u :: p_union
  p_msg :: msg_t
  p_epending :: eventmask_t
  p_mtxlist :: "nat list"
  p_realprio :: tprio_t
  p_name :: "string option"
  p_mpool :: "nat option"

datatype vtfunc_t = Vt_wakeup | Vt_user nat

datatype vtid = Vt_thd tid | Vt_obj nat

record virtual_timer_t =
  vt_delta :: systime_t
  vt_func :: "vtfunc_t option"
  vt_par :: nat

record event_listener_t =
  el_listener :: tid
  el_events :: eventmask_t
  el_flags :: eventflags_t
  el_wflags :: eventflags_t

subsection \<open>The kernel state\<close>

text \<open>
  \<open>ch_system_t\<close> together with the objects the kernel operations reach through pointers, and
  the two registers of the system tick timer (\<open>port_time\<close>, \<open>port_alarm\<close>).
\<close>

record ch_system =
  thd :: "tid \<Rightarrow> thread_t"
  queues :: "qid \<Rightarrow> tid list"
  r_current :: tid
  reglist :: "tid list"
  s_cnt :: "nat \<Rightarrow> cnt_t"
  m_owner :: "nat \<Rightarrow> tid option"
  tref :: "nat \<Rightarrow> tid option"
  vtimer :: "vtid \<Rightarrow> virtual_timer_t"
  vtlist :: "vtid list"
  vtl_delta :: systime_t
  vtl_lasttime :: systime_t
  es_next :: "nat \<Rightarrow> nat list"
  listener :: "nat \<Rightarrow> event_listener_t"
  isr_cnt :: cnt_t
  lock_cnt :: cnt_t
  port_time :: systime_t
  port_alarm :: "systime_t option"

subsection \<open>Signed counters\<close>

text \<open>
  \<open>cnt_t\<close> is a 32-bit signed integer. Leaving its range is undefined behaviour in C, so the
  checked operations have no result there.
\<close>

definition cnt_fits :: "int \<Rightarrow> bool" where
  "cnt_fits n \<longleftrightarrow> - (2 ^ 31) \<le> n \<and> n < 2 ^ 31"

definition cnt_add :: "cnt_t \<Rightarrow> cnt_t \<Rightarrow> cnt_t option" where
  "cnt_add a b = (if cnt_fits (a + b) then Some (a + b) else None)"

lemma cnt_add_fits [simp]: "cnt_fits (a + b) \<Longrightarrow> cnt_add a b = Some (a + b)"
  by (simp add: cnt_add_def)

lemma cnt_fits_small: "- 1000000 \<le> n \<Longrightarrow> n \<le> 1000000 \<Longrightarrow> cnt_fits n"
  by (simp add: cnt_fits_def)

lemma unat32_lt: "unat (x :: 32 word) < 2 ^ 32"
  using unsigned_less [where ?'a = nat and w = x] by simp

lemma unat32_lt' [simp]: "unat (x :: 32 word) < 4294967296"
  using unat32_lt [of x] by simp

subsection \<open>Outcome of an operation that may switch threads\<close>

text \<open>
  An operation of class S may give the processor to another thread. \<open>Done a\<close>: it returned \<open>a\<close>
  to its caller. \<open>Switched\<close>: the calling thread was switched out and the rest of the operation
  runs when that thread is next made current; that rest is a definition of its own, named
  with the suffix \<open>_resume\<close> or \<open>_k\<close>.
\<close>

datatype 'a outcome = Done 'a | Switched

definition andthen ::
  "('a outcome \<times> 's) \<Rightarrow> ('a \<Rightarrow> 's \<Rightarrow> ('b outcome \<times> 's) option) \<Rightarrow> ('b outcome \<times> 's) option" where
  "andthen r f = (case r of (Done a, s) \<Rightarrow> f a s | (Switched, s) \<Rightarrow> Some (Switched, s))"

lemma andthen_simps [simp]:
  "andthen (Done a, s) f = f a s"
  "andthen (Switched, s) f = Some (Switched, s)"
  by (simp_all add: andthen_def)

end
