(* ===== verification/ChQueues.thy ===== *)
theory ChQueues
  imports ChTypes
begin

text \<open>
  The intrusive thread queues of \<open>chschd.c\<close> and \<open>chschd.h\<close> at the level of their pointers.

  A \<open>thread_t *\<close> is the address of a thread or, after the casts the code makes, of a queue
  header. The store holds the fields \<open>p_next\<close>, \<open>p_prev\<close> and \<open>p_prio\<close> of every such node; the
  header of the ready list has the priority field \<open>r_prio\<close>, which \<open>_scheduler_init\<close> sets to
  \<open>NOPRIO\<close>. Every assignment of the C code is one update of the store, in the same order.

  \<open>queues_rep h Q\<close> says that the store \<open>h\<close> holds, for every queue \<open>q\<close>, exactly the threads
  \<open>Q q\<close> in that order, linked in a ring through the header. The operations are shown to
  implement the list operations the rest of the kernel model uses, and the interface is the
  locale \<open>thread_queues\<close>.
\<close>

subsection \<open>The store and the operations\<close>

datatype node = Thd tid | Hdr qid

record qheap =
  p_next :: "node \<Rightarrow> node"
  p_prev :: "node \<Rightarrow> node"
  n_prio :: "node \<Rightarrow> tprio_t"

definition ptr_queue_init :: "qid \<Rightarrow> qheap \<Rightarrow> qheap" where
  "ptr_queue_init q h =
     (let h1 = h\<lparr>p_next := (p_next h)(Hdr q := Hdr q)\<rparr>
      in h1\<lparr>p_prev := (p_prev h1)(Hdr q := Hdr q)\<rparr>)"

definition ptr_queue_isempty :: "qid \<Rightarrow> qheap \<Rightarrow> bool" where
  "ptr_queue_isempty q h \<longleftrightarrow> p_next h (Hdr q) = Hdr q"

definition ptr_queue_notempty :: "qid \<Rightarrow> qheap \<Rightarrow> bool" where
  "ptr_queue_notempty q h \<longleftrightarrow> p_next h (Hdr q) \<noteq> Hdr q"

text \<open>The four assignments that link \<open>tp\<close> in front of \<open>cp\<close>.\<close>

definition ptr_link_before :: "tid \<Rightarrow> node \<Rightarrow> qheap \<Rightarrow> qheap" where
  "ptr_link_before tp cp h =
     (let h1 = h\<lparr>p_next := (p_next h)(Thd tp := cp)\<rparr>;
          h2 = h1\<lparr>p_prev := (p_prev h1)(Thd tp := p_prev h1 cp)\<rparr>;
          h3 = h2\<lparr>p_next := (p_next h2)(p_prev h2 (Thd tp) := Thd tp)\<rparr>
      in h3\<lparr>p_prev := (p_prev h3)(cp := Thd tp)\<rparr>)"

text \<open>
  The search loops. \<open>scan_queue\<close> is the loop of \<open>queue_prio_insert\<close>, which stops at the header
  of its queue; \<open>scan_ready\<close> is the loop of \<open>chSchReadyI\<close> and \<open>scan_ahead\<close> that of
  \<open>chSchDoRescheduleAhead\<close>: both rely on the priority field of the ready list header to stop.
\<close>

partial_function (option) scan_queue :: "qheap \<Rightarrow> qid \<Rightarrow> tprio_t \<Rightarrow> node \<Rightarrow> node option" where
  "scan_queue h q p cp =
     (let cp' = p_next h cp
      in if cp' \<noteq> Hdr q \<and> p \<le> n_prio h cp' then scan_queue h q p cp' else Some cp')"

partial_function (option) scan_ready :: "qheap \<Rightarrow> tprio_t \<Rightarrow> node \<Rightarrow> node option" where
  "scan_ready h p cp =
     (let cp' = p_next h cp in if p \<le> n_prio h cp' then scan_ready h p cp' else Some cp')"

partial_function (option) scan_ahead :: "qheap \<Rightarrow> tprio_t \<Rightarrow> node \<Rightarrow> node option" where
  "scan_ahead h p cp =
     (let cp' = p_next h cp in if p < n_prio h cp' then scan_ahead h p cp' else Some cp')"

definition ptr_queue_prio_insert :: "tid \<Rightarrow> qid \<Rightarrow> qheap \<Rightarrow> qheap option" where
  "ptr_queue_prio_insert tp q h =
     do { cp \<leftarrow> scan_queue h q (n_prio h (Thd tp)) (Hdr q);
          Some (ptr_link_before tp cp h) }"

definition ptr_ready_insert :: "tid \<Rightarrow> qheap \<Rightarrow> qheap option" where
  "ptr_ready_insert tp h =
     do { cp \<leftarrow> scan_ready h (n_prio h (Thd tp)) (Hdr Q_RLIST);
          Some (ptr_link_before tp cp h) }"

definition ptr_ready_insert_ahead :: "tid \<Rightarrow> qheap \<Rightarrow> qheap option" where
  "ptr_ready_insert_ahead tp h =
     do { cp \<leftarrow> scan_ahead h (n_prio h (Thd tp)) (Hdr Q_RLIST);
          Some (ptr_link_before tp cp h) }"

definition ptr_queue_insert :: "tid \<Rightarrow> qid \<Rightarrow> qheap \<Rightarrow> qheap" where
  "ptr_queue_insert tp q h =
     (let h1 = h\<lparr>p_next := (p_next h)(Thd tp := Hdr q)\<rparr>;
          h2 = h1\<lparr>p_prev := (p_prev h1)(Thd tp := p_prev h1 (Hdr q))\<rparr>;
          h3 = h2\<lparr>p_next := (p_next h2)(p_prev h2 (Thd tp) := Thd tp)\<rparr>
      in h3\<lparr>p_prev := (p_prev h3)(Hdr q := Thd tp)\<rparr>)"

definition ptr_queue_fifo_remove :: "qid \<Rightarrow> qheap \<Rightarrow> node \<times> qheap" where
  "ptr_queue_fifo_remove q h =
     (let tp = p_next h (Hdr q);
          h1 = h\<lparr>p_next := (p_next h)(Hdr q := p_next h tp)\<rparr>
      in (tp, h1\<lparr>p_prev := (p_prev h1)(p_next h1 (Hdr q) := Hdr q)\<rparr>))"

definition ptr_queue_lifo_remove :: "qid \<Rightarrow> qheap \<Rightarrow> node \<times> qheap" where
  "ptr_queue_lifo_remove q h =
     (let tp = p_prev h (Hdr q);
          h1 = h\<lparr>p_prev := (p_prev h)(Hdr q := p_prev h tp)\<rparr>
      in (tp, h1\<lparr>p_next := (p_next h1)(p_prev h1 (Hdr q) := Hdr q)\<rparr>))"

definition ptr_queue_dequeue :: "tid \<Rightarrow> qheap \<Rightarrow> qheap" where
  "ptr_queue_dequeue tp h =
     (let h1 = h\<lparr>p_next := (p_next h)(p_prev h (Thd tp) := p_next h (Thd tp))\<rparr>
      in h1\<lparr>p_prev := (p_prev h1)(p_next h1 (Thd tp) := p_prev h1 (Thd tp))\<rparr>)"

text \<open>The singly linked \<open>threads_list_t\<close>.\<close>

definition ptr_list_init :: "qid \<Rightarrow> qheap \<Rightarrow> qheap" where
  "ptr_list_init q h = h\<lparr>p_next := (p_next h)(Hdr q := Hdr q)\<rparr>"

definition ptr_list_isempty :: "qid \<Rightarrow> qheap \<Rightarrow> bool" where
  "ptr_list_isempty q h \<longleftrightarrow> p_next h (Hdr q) = Hdr q"

definition ptr_list_notempty :: "qid \<Rightarrow> qheap \<Rightarrow> bool" where
  "ptr_list_notempty q h \<longleftrightarrow> p_next h (Hdr q) \<noteq> Hdr q"

definition ptr_list_insert :: "tid \<Rightarrow> qid \<Rightarrow> qheap \<Rightarrow> qheap" where
  "ptr_list_insert tp q h =
     (let h1 = h\<lparr>p_next := (p_next h)(Thd tp := p_next h (Hdr q))\<rparr>
      in h1\<lparr>p_next := (p_next h1)(Hdr q := Thd tp)\<rparr>)"

definition ptr_list_remove :: "qid \<Rightarrow> qheap \<Rightarrow> node \<times> qheap" where
  "ptr_list_remove q h =
     (let tp = p_next h (Hdr q)
      in (tp, h\<lparr>p_next := (p_next h)(Hdr q := p_next h tp)\<rparr>))"

subsection \<open>What the store represents\<close>

text \<open>Waiting lists have no backward links.\<close>

fun doubly :: "qid \<Rightarrow> bool" where
  "doubly (Q_WAIT t) = False"
| "doubly q = True"

definition ring :: "qheap \<Rightarrow> qid \<Rightarrow> tid list \<Rightarrow> bool" where
  "ring h q xs \<longleftrightarrow>
     chain (p_next h) (Hdr q) (map Thd xs) (Hdr q) \<and>
     (doubly q \<longrightarrow> chain (p_prev h) (Hdr q) (map Thd (rev xs)) (Hdr q))"

definition apart :: "(qid \<Rightarrow> tid list) \<Rightarrow> bool" where
  "apart Q \<longleftrightarrow> (\<forall>q. distinct (Q q)) \<and> (\<forall>q q' t. t \<in> set (Q q) \<longrightarrow> t \<in> set (Q q') \<longrightarrow> q = q')"

definition queues_rep :: "qheap \<Rightarrow> (qid \<Rightarrow> tid list) \<Rightarrow> bool" where
  "queues_rep h Q \<longleftrightarrow> apart Q \<and> (\<forall>q. ring h q (Q q))"

text \<open>Taking \<open>tp\<close> out of whatever queue holds it.\<close>

definition unqueue :: "tid \<Rightarrow> (qid \<Rightarrow> tid list) \<Rightarrow> qid \<Rightarrow> tid list" where
  "unqueue tp Q = (\<lambda>q. filter (\<lambda>x. x \<noteq> tp) (Q q))"

definition unqueued :: "tid \<Rightarrow> (qid \<Rightarrow> tid list) \<Rightarrow> bool" where
  "unqueued tp Q \<longleftrightarrow> (\<forall>q. tp \<notin> set (Q q))"

lemma apart_distinct: "apart Q \<Longrightarrow> distinct (Q q)"
  by (simp add: apart_def)

lemma apart_same: "apart Q \<Longrightarrow> t \<in> set (Q q) \<Longrightarrow> t \<in> set (Q q') \<Longrightarrow> q = q'"
  by (simp add: apart_def)

lemma apart_insert:
  assumes "apart Q" "unqueued t Q" "set xs = insert t (set (Q q))" "distinct xs"
  shows "apart (Q(q := xs))"
  using assms unfolding apart_def unqueued_def by auto

lemma apart_shrink:
  "apart Q \<Longrightarrow> set xs \<subseteq> set (Q q) \<Longrightarrow> distinct xs \<Longrightarrow> apart (Q(q := xs))"
  unfolding apart_def by auto

lemma apart_unqueue: "apart Q \<Longrightarrow> apart (unqueue t Q)"
  unfolding apart_def unqueue_def by auto

lemma unqueued_unqueue [simp]: "unqueued t (unqueue t Q)"
  by (simp add: unqueued_def unqueue_def)

lemma unqueue_unqueued: "unqueued t Q \<Longrightarrow> unqueue t Q = Q"
  by (rule ext) (auto simp: unqueued_def unqueue_def)

lemma node_simps [simp]:
  "distinct (map Thd xs) = distinct xs"
  "(Thd t \<in> Thd ` A) = (t \<in> A)"
  "Hdr q \<notin> Thd ` A"
  by (auto simp: distinct_map inj_on_def)

lemma ring_upd_other:
  assumes "ring h q' xs" "u \<noteq> Hdr q'" "u \<notin> Thd ` set xs" "w \<noteq> Hdr q'" "w \<notin> Thd ` set xs"
  shows "ring (h\<lparr>p_next := (p_next h)(u := a), p_prev := (p_prev h)(w := b)\<rparr>) q' xs"
  using assms by (auto simp: ring_def)

subsection \<open>Linking and unlinking a node\<close>

text \<open>
  All insertions are one store transformation, \<open>linked\<close>, and all removals another, \<open>unlinked\<close>.
\<close>

definition linked :: "node \<Rightarrow> node \<Rightarrow> node \<Rightarrow> qheap \<Rightarrow> qheap" where
  "linked pn t nx h =
     h\<lparr>p_next := (p_next h)(t := nx, pn := t), p_prev := (p_prev h)(t := pn, nx := t)\<rparr>"

definition unlinked :: "node \<Rightarrow> node \<Rightarrow> qheap \<Rightarrow> qheap" where
  "unlinked pn nx h = h\<lparr>p_next := (p_next h)(pn := nx), p_prev := (p_prev h)(nx := pn)\<rparr>"

lemma n_prio_linked [simp]: "n_prio (linked pn t nx h) = n_prio h"
  by (simp add: linked_def)

lemma n_prio_unlinked [simp]: "n_prio (unlinked pn nx h) = n_prio h"
  by (simp add: unlinked_def)

lemma ring_linked:
  assumes r: "ring h q (as @ bs)" and d: "distinct (as @ bs)" "t \<notin> set (as @ bs)" and q: "doubly q"
    and pn: "pn = last (Hdr q # map Thd as)" and nx: "nx = hd (map Thd bs @ [Hdr q])"
  shows "ring (linked pn (Thd t) nx h) q (as @ t # bs)"
proof -
  have "chain ((p_next h)(Thd t := nx, pn := Thd t)) (Hdr q) (map Thd as @ Thd t # map Thd bs) (Hdr q)"
    unfolding pn nx using r d by (intro chain_insert) (auto simp: ring_def)
  moreover have "chain ((p_prev h)(Thd t := pn, nx := Thd t)) (Hdr q)
      (map Thd (rev bs) @ Thd t # map Thd (rev as)) (Hdr q)"
  proof -
    have "nx = last (Hdr q # map Thd (rev bs))" "pn = hd (map Thd (rev as) @ [Hdr q])"
      using pn nx by (simp_all add: rev_map [symmetric] last_Cons_rev hd_rev_snoc del: last.simps)
    then show ?thesis
      using r d q by (simp only:) (intro chain_insert; auto simp: ring_def)
  qed
  ultimately show ?thesis by (simp add: ring_def linked_def del: chain_append)
qed

lemma ring_unlinked:
  assumes r: "ring h q (as @ t # bs)" and d: "distinct (as @ t # bs)" and q: "doubly q"
    and pn: "pn = last (Hdr q # map Thd as)" and nx: "nx = hd (map Thd bs @ [Hdr q])"
  shows "ring (unlinked pn nx h) q (as @ bs)"
proof -
  have "chain ((p_next h)(pn := nx)) (Hdr q) (map Thd as @ map Thd bs) (Hdr q)"
    unfolding pn nx using r d by (intro chain_delete [where t = "Thd t"]) (auto simp: ring_def)
  moreover have "chain ((p_prev h)(nx := pn)) (Hdr q) (map Thd (rev bs) @ map Thd (rev as)) (Hdr q)"
  proof -
    have "nx = last (Hdr q # map Thd (rev bs))" "pn = hd (map Thd (rev as) @ [Hdr q])"
      using pn nx by (simp_all add: rev_map [symmetric] last_Cons_rev hd_rev_snoc del: last.simps)
    then show ?thesis
      using r d q by (simp only:) (intro chain_delete [where t = "Thd t"]; auto simp: ring_def)
  qed
  ultimately show ?thesis by (simp add: ring_def unlinked_def del: chain_append)
qed

lemma ring_neighbours:
  assumes "ring h q (as @ t # bs)" "doubly q"
  shows "p_next h (Thd t) = hd (map Thd bs @ [Hdr q])"
    and "p_prev h (Thd t) = last (Hdr q # map Thd as)"
proof -
  show "p_next h (Thd t) = hd (map Thd bs @ [Hdr q])"
    using assms by (auto simp: ring_def dest: chain_first)
  have "chain (p_prev h) (Thd t) (map Thd (rev as)) (Hdr q)"
    using assms by (simp add: ring_def)
  then show "p_prev h (Thd t) = last (Hdr q # map Thd as)"
    by (auto simp: rev_map [symmetric] hd_rev_snoc simp del: last.simps dest: chain_first)
qed

lemma ring_before:
  assumes "ring h q (as @ bs)" "doubly q"
  shows "p_prev h (hd (map Thd bs @ [Hdr q])) = last (Hdr q # map Thd as)"
proof (cases bs)
  case Nil
  have "p_prev h (Hdr q) = hd (map Thd (rev as) @ [Hdr q])"
    using assms Nil by (auto simp: ring_def dest: chain_first)
  then show ?thesis
    using Nil by (simp add: rev_map [symmetric] hd_rev_snoc del: last.simps)
next
  case (Cons b bs')
  then show ?thesis using assms ring_neighbours(2) by (simp del: last.simps)
qed

lemma last_node_in: "last (Hdr q # map Thd as) \<in> insert (Hdr q) (Thd ` set as)"
  using last_in_set [of "Hdr q # map Thd as"] by (auto simp del: last.simps)

lemma hd_node_in: "hd (map Thd bs @ [Hdr q]) \<in> insert (Hdr q) (Thd ` set bs)"
  by (cases bs) auto

lemma ring_linked_other:
  assumes "ring h q' ys" "pn \<notin> insert (Hdr q') (Thd ` set ys)" "nx \<notin> insert (Hdr q') (Thd ` set ys)"
    "t \<notin> set ys"
  shows "ring (linked pn (Thd t) nx h) q' ys"
  using assms by (auto simp: ring_def linked_def)

lemma ring_unlinked_other:
  assumes "ring h q' ys" "pn \<notin> insert (Hdr q') (Thd ` set ys)" "nx \<notin> insert (Hdr q') (Thd ` set ys)"
  shows "ring (unlinked pn nx h) q' ys"
  using assms by (auto simp: ring_def unlinked_def)

lemma queues_rep_linked:
  assumes rep: "queues_rep h Q" and Q: "Q q = as @ bs" and t: "unqueued t Q" and q: "doubly q"
    and pn: "pn = last (Hdr q # map Thd as)" and nx: "nx = hd (map Thd bs @ [Hdr q])"
  shows "queues_rep (linked pn (Thd t) nx h) (Q(q := as @ t # bs))"
proof -
  have a: "apart Q" and r: "\<And>q. ring h q (Q q)"
    using rep by (auto simp: queues_rep_def)
  have "apart (Q(q := as @ t # bs))"
    using a t Q apart_distinct [OF a, of q] unfolding unqueued_def
    by (intro apart_insert [OF a t]) (auto simp: Q dest: spec [of _ q])
  moreover have "ring (linked pn (Thd t) nx h) q (as @ t # bs)"
    using r [of q] apart_distinct [OF a, of q] t q pn nx Q
    by (intro ring_linked) (auto simp: unqueued_def dest!: spec [of _ q])
  moreover have "ring (linked pn (Thd t) nx h) q' (Q q')" if "q' \<noteq> q" for q'
  proof (rule ring_linked_other [OF r])
    have "x \<notin> set (Q q')" if "x \<in> set (as @ bs)" for x
      using apart_same [OF a, of x q q'] that \<open>q' \<noteq> q\<close> Q by auto
    then show "pn \<notin> insert (Hdr q') (Thd ` set (Q q'))" "nx \<notin> insert (Hdr q') (Thd ` set (Q q'))"
      using last_node_in [of q as] hd_node_in [of bs q] \<open>q' \<noteq> q\<close> unfolding pn nx by auto
  qed (use t in \<open>simp add: unqueued_def\<close>)
  ultimately show ?thesis by (simp add: queues_rep_def)
qed

lemma queues_rep_unlinked:
  assumes rep: "queues_rep h Q" and Q: "Q q = as @ t # bs" and q: "doubly q"
    and pn: "pn = last (Hdr q # map Thd as)" and nx: "nx = hd (map Thd bs @ [Hdr q])"
  shows "queues_rep (unlinked pn nx h) (Q(q := as @ bs))"
proof -
  have a: "apart Q" and r: "\<And>q. ring h q (Q q)"
    using rep by (auto simp: queues_rep_def)
  have d: "distinct (as @ t # bs)"
    using apart_distinct [OF a, of q] Q by simp
  then have "apart (Q(q := as @ bs))"
    by (intro apart_shrink [OF a]) (auto simp: Q)
  moreover have "ring (unlinked pn nx h) q (as @ bs)"
    using r [of q] d q pn nx Q by (intro ring_unlinked) auto
  moreover have "ring (unlinked pn nx h) q' (Q q')" if "q' \<noteq> q" for q'
  proof (rule ring_unlinked_other [OF r])
    have "x \<notin> set (Q q')" if "x \<in> set (as @ bs)" for x
      using apart_same [OF a, of x q q'] that \<open>q' \<noteq> q\<close> Q by auto
    then show "pn \<notin> insert (Hdr q') (Thd ` set (Q q'))" "nx \<notin> insert (Hdr q') (Thd ` set (Q q'))"
      using last_node_in [of q as] hd_node_in [of bs q] \<open>q' \<noteq> q\<close> unfolding pn nx by auto
  qed
  ultimately show ?thesis by (simp add: queues_rep_def)
qed

subsection \<open>The operations are these transformations\<close>

lemma ptr_link_before_eq:
  "cp \<noteq> Thd tp \<Longrightarrow> ptr_link_before tp cp h = linked (p_prev h cp) (Thd tp) cp h"
  by (simp add: ptr_link_before_def linked_def Let_def)

lemma ptr_queue_insert_eq: "ptr_queue_insert tp q h = linked (p_prev h (Hdr q)) (Thd tp) (Hdr q) h"
  by (simp add: ptr_queue_insert_def linked_def Let_def)

lemma ptr_queue_fifo_remove_eq:
  "ptr_queue_fifo_remove q h =
     (p_next h (Hdr q), unlinked (Hdr q) (p_next h (p_next h (Hdr q))) h)"
  by (simp add: ptr_queue_fifo_remove_def unlinked_def Let_def)

lemma ptr_queue_lifo_remove_eq:
  "ptr_queue_lifo_remove q h =
     (p_prev h (Hdr q), unlinked (p_prev h (p_prev h (Hdr q))) (Hdr q) h)"
  by (simp add: ptr_queue_lifo_remove_def unlinked_def Let_def)

lemma ptr_queue_dequeue_eq:
  "p_prev h (Thd t) \<noteq> Thd t \<Longrightarrow> ptr_queue_dequeue t h = unlinked (p_prev h (Thd t)) (p_next h (Thd t)) h"
  by (simp add: ptr_queue_dequeue_def unlinked_def Let_def)

lemma queues_repD:
  assumes "queues_rep h Q"
  shows "apart Q" and "ring h q (Q q)" and "distinct (Q q)"
  using assms by (auto simp: queues_rep_def apart_def)

text \<open>Linking in front of the node where the search stopped.\<close>

lemma queues_rep_link_before:
  assumes rep: "queues_rep h Q" and Q: "Q q = as @ bs" and t: "unqueued t Q" and q: "doubly q"
  shows "queues_rep (ptr_link_before t (hd (map Thd bs @ [Hdr q])) h) (Q(q := as @ t # bs))"
proof -
  have "hd (map Thd bs @ [Hdr q]) \<noteq> Thd t"
    using t Q hd_node_in [of bs q] by (auto simp: unqueued_def dest!: spec [of _ q])
  then show ?thesis
    using queues_rep_linked [OF rep Q t q refl refl] ring_before [of h q as bs] queues_repD(2) [OF rep, of q] Q q
    by (simp add: ptr_link_before_eq del: last.simps)
qed

lemma ptr_queue_insert_rep:
  assumes "queues_rep h Q" "unqueued t Q" "doubly q"
  shows "queues_rep (ptr_queue_insert t q h) (Q(q := Q q @ [t]))"
  using queues_rep_link_before [of h Q q "Q q" "[]" t] assms
  by (simp add: ptr_queue_insert_eq ptr_link_before_eq)

lemma ptr_queue_fifo_remove_rep:
  assumes rep: "queues_rep h Q" and Q: "Q q = t # xs" and q: "doubly q"
  shows "\<exists>h'. ptr_queue_fifo_remove q h = (Thd t, h') \<and> queues_rep h' (Q(q := xs)) \<and> n_prio h' = n_prio h"
proof -
  have r: "ring h q ([] @ t # xs)" using queues_repD(2) [OF rep, of q] Q by simp
  have "p_next h (Hdr q) = Thd t" using r by (simp add: ring_def)
  then show ?thesis
    using queues_rep_unlinked [OF rep, of q "[]" t xs] Q q ring_neighbours(1) [OF r q]
    by (simp add: ptr_queue_fifo_remove_eq)
qed

lemma ptr_queue_lifo_remove_rep:
  assumes rep: "queues_rep h Q" and Q: "Q q = xs @ [t]" and q: "doubly q"
  shows "\<exists>h'. ptr_queue_lifo_remove q h = (Thd t, h') \<and> queues_rep h' (Q(q := xs)) \<and> n_prio h' = n_prio h"
proof -
  have r: "ring h q (xs @ t # [])" using queues_repD(2) [OF rep, of q] Q by simp
  have "p_prev h (Hdr q) = Thd t" using r q by (simp add: ring_def)
  then show ?thesis
    using queues_rep_unlinked [OF rep, of q xs t "[]"] Q q ring_neighbours(2) [OF r q]
    by (simp add: ptr_queue_lifo_remove_eq)
qed

lemma unqueue_at:
  assumes "apart Q" "Q q = as @ t # bs"
  shows "unqueue t Q = Q(q := as @ bs)"
proof
  fix q'
  show "unqueue t Q q' = (Q(q := as @ bs)) q'"
  proof (cases "q' = q")
    case True
    then show ?thesis
      using assms apart_distinct [OF assms(1), of q] by (auto simp: unqueue_def)
  next
    case False
    then have "t \<notin> set (Q q')"
      using apart_same [OF assms(1), of t q q'] assms(2) by auto
    then show ?thesis using False by (auto simp: unqueue_def)
  qed
qed

lemma ptr_queue_dequeue_rep:
  assumes rep: "queues_rep h Q" and t: "t \<in> set (Q q)" and q: "doubly q"
  shows "queues_rep (ptr_queue_dequeue t h) (unqueue t Q)"
proof -
  obtain as bs where Q: "Q q = as @ t # bs" using t by (auto simp: in_set_conv_decomp)
  have r: "ring h q (as @ t # bs)" using queues_repD(2) [OF rep, of q] Q by simp
  have "t \<notin> set as" using queues_repD(3) [OF rep, of q] Q by simp
  then have "p_prev h (Thd t) \<noteq> Thd t"
    using ring_neighbours(2) [OF r q] last_node_in [of q as] by auto
  then show ?thesis
    using queues_rep_unlinked [OF rep Q q refl refl] ring_neighbours [OF r q]
      unqueue_at [OF queues_repD(1) [OF rep] Q]
    by (simp add: ptr_queue_dequeue_eq del: last.simps)
qed

subsection \<open>The search loops\<close>

lemma scan_queue_stops:
  "chain (p_next h) x (map Thd ys) (Hdr q) \<Longrightarrow>
     scan_queue h q p x = Some (hd (map Thd (dropWhile (\<lambda>y. p \<le> n_prio h (Thd y)) ys) @ [Hdr q]))"
proof (induction ys arbitrary: x)
  case Nil
  then show ?case by (simp add: scan_queue.simps [of h q p x])
next
  case (Cons y ys)
  then show ?case by (simp add: scan_queue.simps [of h q p x])
qed

lemma scan_ready_stops:
  "chain (p_next h) x (map Thd ys) (Hdr q) \<Longrightarrow> n_prio h (Hdr q) < p \<Longrightarrow>
     scan_ready h p x = Some (hd (map Thd (dropWhile (\<lambda>y. p \<le> n_prio h (Thd y)) ys) @ [Hdr q]))"
proof (induction ys arbitrary: x)
  case Nil
  then show ?case by (simp add: scan_ready.simps [of h p x])
next
  case (Cons y ys)
  then show ?case by (simp add: scan_ready.simps [of h p x])
qed

lemma scan_ahead_stops:
  "chain (p_next h) x (map Thd ys) (Hdr q) \<Longrightarrow> n_prio h (Hdr q) \<le> p \<Longrightarrow>
     scan_ahead h p x = Some (hd (map Thd (dropWhile (\<lambda>y. p < n_prio h (Thd y)) ys) @ [Hdr q]))"
proof (induction ys arbitrary: x)
  case Nil
  then show ?case by (simp add: scan_ahead.simps [of h p x])
next
  case (Cons y ys)
  then show ?case by (simp add: scan_ahead.simps [of h p x])
qed

lemma scan_ready_result: "scan_ready h p cp = Some r \<Longrightarrow> n_prio h r < p"
  by (erule scan_ready.raw_induct [rotated, where P = "\<lambda>h p cp r. n_prio h r < p"])
     (auto simp: Let_def split: if_splits)

abbreviation tprio :: "qheap \<Rightarrow> tid \<Rightarrow> tprio_t" where
  "tprio h t \<equiv> n_prio h (Thd t)"

lemma ptr_queue_prio_insert_rep:
  assumes rep: "queues_rep h Q" and t: "unqueued t Q" and q: "doubly q"
  shows "\<exists>h'. ptr_queue_prio_insert t q h = Some h' \<and>
           queues_rep h' (Q(q := prio_insert (tprio h) t (Q q))) \<and> n_prio h' = n_prio h"
proof -
  let ?as = "takeWhile (\<lambda>y. tprio h t \<le> tprio h y) (Q q)"
  let ?bs = "dropWhile (\<lambda>y. tprio h t \<le> tprio h y) (Q q)"
  have "scan_queue h q (tprio h t) (Hdr q) = Some (hd (map Thd ?bs @ [Hdr q]))"
    using queues_repD(2) [OF rep, of q] by (intro scan_queue_stops) (simp add: ring_def)
  moreover have "queues_rep (ptr_link_before t (hd (map Thd ?bs @ [Hdr q])) h) (Q(q := ?as @ t # ?bs))"
    by (rule queues_rep_link_before [OF rep _ t q]) simp
  ultimately show ?thesis
    by (simp add: ptr_queue_prio_insert_def prio_insert_split ptr_link_before_def Let_def)
qed

lemma ptr_ready_insert_rep:
  assumes rep: "queues_rep h Q" and t: "unqueued t Q"
    and hdr: "n_prio h (Hdr Q_RLIST) = NOPRIO" and pos: "NOPRIO < tprio h t"
  shows "\<exists>h'. ptr_ready_insert t h = Some h' \<and>
           queues_rep h' (Q(Q_RLIST := prio_insert (tprio h) t (Q Q_RLIST))) \<and> n_prio h' = n_prio h"
proof -
  let ?as = "takeWhile (\<lambda>y. tprio h t \<le> tprio h y) (Q Q_RLIST)"
  let ?bs = "dropWhile (\<lambda>y. tprio h t \<le> tprio h y) (Q Q_RLIST)"
  have "scan_ready h (tprio h t) (Hdr Q_RLIST) = Some (hd (map Thd ?bs @ [Hdr Q_RLIST]))"
    using queues_repD(2) [OF rep, of Q_RLIST] hdr pos
    by (intro scan_ready_stops) (simp_all add: ring_def)
  moreover have "queues_rep (ptr_link_before t (hd (map Thd ?bs @ [Hdr Q_RLIST])) h)
      (Q(Q_RLIST := ?as @ t # ?bs))"
    by (rule queues_rep_link_before [OF rep _ t]) simp_all
  ultimately show ?thesis
    by (simp add: ptr_ready_insert_def prio_insert_split ptr_link_before_def Let_def)
qed

lemma ptr_ready_insert_ahead_rep:
  assumes rep: "queues_rep h Q" and t: "unqueued t Q" and hdr: "n_prio h (Hdr Q_RLIST) = NOPRIO"
  shows "\<exists>h'. ptr_ready_insert_ahead t h = Some h' \<and>
           queues_rep h' (Q(Q_RLIST := prio_insert_ahead (tprio h) t (Q Q_RLIST))) \<and>
           n_prio h' = n_prio h"
proof -
  let ?as = "takeWhile (\<lambda>y. tprio h t < tprio h y) (Q Q_RLIST)"
  let ?bs = "dropWhile (\<lambda>y. tprio h t < tprio h y) (Q Q_RLIST)"
  have "scan_ahead h (tprio h t) (Hdr Q_RLIST) = Some (hd (map Thd ?bs @ [Hdr Q_RLIST]))"
    using queues_repD(2) [OF rep, of Q_RLIST] hdr
    by (intro scan_ahead_stops) (simp_all add: ring_def NOPRIO_def)
  moreover have "queues_rep (ptr_link_before t (hd (map Thd ?bs @ [Hdr Q_RLIST])) h)
      (Q(Q_RLIST := ?as @ t # ?bs))"
    by (rule queues_rep_link_before [OF rep _ t]) simp_all
  ultimately show ?thesis
    by (simp add: ptr_ready_insert_ahead_def prio_insert_ahead_split ptr_link_before_def Let_def)
qed

subsection \<open>Empty queues, initialisation, waiting lists\<close>

lemma ptr_queue_isempty_rep:
  "queues_rep h Q \<Longrightarrow> ptr_queue_isempty q h \<longleftrightarrow> Q q = []"
  using queues_repD(2) [of h Q q] by (cases "Q q") (auto simp: ptr_queue_isempty_def ring_def)

lemma ptr_queue_notempty_rep:
  "queues_rep h Q \<Longrightarrow> ptr_queue_notempty q h \<longleftrightarrow> Q q \<noteq> []"
  using ptr_queue_isempty_rep [of h Q q] by (auto simp: ptr_queue_isempty_def ptr_queue_notempty_def)

lemma ptr_queue_init_ring:
  "ring (ptr_queue_init q h) q []"
  "ring h q' xs \<Longrightarrow> q' \<noteq> q \<Longrightarrow> ring (ptr_queue_init q h) q' xs"
  by (auto simp: ptr_queue_init_def ring_def Let_def)

lemma ptr_queue_init_rep:
  assumes "queues_rep h Q"
  shows "queues_rep (ptr_queue_init q h) (Q(q := []))"
  using assms ptr_queue_init_ring
  by (auto simp: queues_rep_def intro: apart_shrink)

lemma ptr_list_isempty_rep:
  "queues_rep h Q \<Longrightarrow> ptr_list_isempty q h \<longleftrightarrow> Q q = []"
  using ptr_queue_isempty_rep [of h Q q] by (simp add: ptr_list_isempty_def ptr_queue_isempty_def)

lemma ptr_list_insert_rep:
  assumes rep: "queues_rep h Q" and t: "unqueued t Q" and q: "\<not> doubly q"
  shows "queues_rep (ptr_list_insert t q h) (Q(q := t # Q q))"
proof -
  have a: "apart Q" and r: "\<And>q'. ring h q' (Q q')" and d: "distinct (Q q)"
    using rep by (auto simp: queues_rep_def apart_def)
  have tq: "t \<notin> set (Q q')" for q' using t by (simp add: unqueued_def)
  have "apart (Q(q := t # Q q))"
    using d tq by (intro apart_insert [OF a t]) auto
  moreover have "ring (ptr_list_insert t q h) q (t # Q q)"
    using chain_insert [of "p_next h" "Hdr q" "[]" "map Thd (Q q)" "Hdr q" "Thd t"]
      r [of q] q d tq [of q]
    by (auto simp: ring_def ptr_list_insert_def Let_def dest: chain_first)
  moreover have "ring (ptr_list_insert t q h) q' (Q q')" if "q' \<noteq> q" for q'
    using r [of q'] tq [of q'] that by (auto simp: ring_def ptr_list_insert_def Let_def)
  ultimately show ?thesis by (simp add: queues_rep_def)
qed

lemma ptr_list_remove_rep:
  assumes rep: "queues_rep h Q" and Q: "Q q = t # xs" and q: "\<not> doubly q"
  shows "\<exists>h'. ptr_list_remove q h = (Thd t, h') \<and> queues_rep h' (Q(q := xs)) \<and> n_prio h' = n_prio h"
proof -
  have a: "apart Q" and r: "\<And>q'. ring h q' (Q q')" and d: "distinct (Q q)"
    using rep by (auto simp: queues_rep_def apart_def)
  have "apart (Q(q := xs))" using d Q by (intro apart_shrink [OF a]) auto
  moreover have t: "p_next h (Hdr q) = Thd t" using r [of q] Q by (simp add: ring_def)
  moreover have "ring (h\<lparr>p_next := (p_next h)(Hdr q := p_next h (Thd t))\<rparr>) q xs"
    using chain_delete [of "p_next h" "Hdr q" "[]" "Thd t" "map Thd xs" "Hdr q"] r [of q] q d Q
    by (auto simp: ring_def dest: chain_first)
  moreover have "ring (h\<lparr>p_next := (p_next h)(Hdr q := p_next h (Thd t))\<rparr>) q' (Q q')" if "q' \<noteq> q" for q'
    using r [of q'] that by (auto simp: ring_def)
  ultimately show ?thesis by (simp add: queues_rep_def ptr_list_remove_def Let_def)
qed

subsection \<open>The interface of the thread queues\<close>

text \<open>
  What the kernel relies on: \<open>rel s Q\<close> relates a state to the contents of its queues; the
  operations keep the relation while they change the contents the way the list operations do.
\<close>

fun drain :: "('s \<Rightarrow> ('t \<times> 's) option) \<Rightarrow> nat \<Rightarrow> 's \<Rightarrow> ('t list \<times> 's) option" where
  "drain rm 0 s = Some ([], s)"
| "drain rm (Suc n) s =
     do { (t, s1) \<leftarrow> rm s; (ts, s2) \<leftarrow> drain rm n s1; Some (t # ts, s2) }"

fun insert_seq :: "('t \<Rightarrow> 's \<Rightarrow> 's option) \<Rightarrow> 't list \<Rightarrow> 's \<Rightarrow> 's option" where
  "insert_seq ins [] s = Some s"
| "insert_seq ins (t # ts) s = do { s1 \<leftarrow> ins t s; insert_seq ins ts s1 }"

locale thread_queues =
  fixes rel :: "'s \<Rightarrow> ('q \<Rightarrow> 't list) \<Rightarrow> bool"
    and prio :: "'s \<Rightarrow> 't \<Rightarrow> nat"
    and okq :: "'q \<Rightarrow> bool"
    and ins :: "'t \<Rightarrow> 'q \<Rightarrow> 's \<Rightarrow> 's option"
    and pins :: "'t \<Rightarrow> 'q \<Rightarrow> 's \<Rightarrow> 's option"
    and fifo :: "'q \<Rightarrow> 's \<Rightarrow> ('t \<times> 's) option"
    and lifo :: "'q \<Rightarrow> 's \<Rightarrow> ('t \<times> 's) option"
    and deq :: "'t \<Rightarrow> 's \<Rightarrow> 's option"
  assumes ins_rel: "rel s Q \<Longrightarrow> okq q \<Longrightarrow> (\<And>q. t \<notin> set (Q q)) \<Longrightarrow>
      \<exists>s'. ins t q s = Some s' \<and> rel s' (Q(q := Q q @ [t])) \<and> prio s' = prio s"
    and pins_rel: "rel s Q \<Longrightarrow> okq q \<Longrightarrow> (\<And>q. t \<notin> set (Q q)) \<Longrightarrow>
      \<exists>s'. pins t q s = Some s' \<and> rel s' (Q(q := prio_insert (prio s) t (Q q))) \<and> prio s' = prio s"
    and fifo_rel: "rel s Q \<Longrightarrow> okq q \<Longrightarrow> Q q = t # xs \<Longrightarrow>
      \<exists>s'. fifo q s = Some (t, s') \<and> rel s' (Q(q := xs)) \<and> prio s' = prio s"
    and lifo_rel: "rel s Q \<Longrightarrow> okq q \<Longrightarrow> Q q = xs @ [t] \<Longrightarrow>
      \<exists>s'. lifo q s = Some (t, s') \<and> rel s' (Q(q := xs)) \<and> prio s' = prio s"
    and deq_rel: "rel s Q \<Longrightarrow> okq q \<Longrightarrow> t \<in> set (Q q) \<Longrightarrow>
      \<exists>s'. deq t s = Some s' \<and> rel s' (\<lambda>q. filter (\<lambda>x. x \<noteq> t) (Q q)) \<and> prio s' = prio s"
begin

text \<open>Removing from the front yields the threads in queue order, from the back in reverse.\<close>

lemma drain_fifo:
  "rel s Q \<Longrightarrow> okq q \<Longrightarrow> Q q = xs \<Longrightarrow>
     \<exists>s'. drain (fifo q) (length xs) s = Some (xs, s') \<and> rel s' (Q(q := []))"
proof (induction xs arbitrary: s Q)
  case Nil
  then show ?case by (metis drain.simps(1) fun_upd_triv list.size(3))
next
  case (Cons x xs)
  obtain s1 where s1: "fifo q s = Some (x, s1)" "rel s1 (Q(q := xs))"
    using fifo_rel [OF Cons.prems] by blast
  show ?case
    using Cons.IH [OF s1(2) Cons.prems(2)] s1(1) unfolding fun_upd_upd by auto
qed

lemma drain_lifo:
  "rel s Q \<Longrightarrow> okq q \<Longrightarrow> Q q = rev xs \<Longrightarrow>
     \<exists>s'. drain (lifo q) (length xs) s = Some (xs, s') \<and> rel s' (Q(q := []))"
proof (induction xs arbitrary: s Q)
  case Nil
  then show ?case by (metis drain.simps(1) fun_upd_triv list.size(3) rev.simps(1))
next
  case (Cons x xs)
  obtain s1 where s1: "lifo q s = Some (x, s1)" "rel s1 (Q(q := rev xs))"
    using lifo_rel [OF Cons.prems(1,2), of "rev xs" x] Cons.prems(3) by auto
  show ?case
    using Cons.IH [OF s1(2) Cons.prems(2)] s1(1) unfolding fun_upd_upd by auto
qed

lemma insert_seq_pins:
  "rel s Q \<Longrightarrow> okq q \<Longrightarrow> distinct ts \<Longrightarrow> (\<And>t q'. t \<in> set ts \<Longrightarrow> t \<notin> set (Q q')) \<Longrightarrow>
     \<exists>s'. insert_seq (\<lambda>t. pins t q) ts s = Some s' \<and>
          rel s' (Q(q := prio_insert_all (prio s) ts (Q q))) \<and> prio s' = prio s"
proof (induction ts arbitrary: s Q)
  case Nil
  then show ?case by (simp add: prio_insert_all_def)
next
  case (Cons t ts)
  obtain s1 where s1: "pins t q s = Some s1" "rel s1 (Q(q := prio_insert (prio s) t (Q q)))"
      "prio s1 = prio s"
    using pins_rel [OF Cons.prems(1,2), of t] Cons.prems(4) by auto
  have "\<And>u q'. u \<in> set ts \<Longrightarrow> u \<notin> set ((Q(q := prio_insert (prio s) t (Q q))) q')"
    using Cons.prems(3,4) by auto
  from Cons.IH [OF s1(2) Cons.prems(2) _ this] Cons.prems(3) s1(1,3)
  show ?case unfolding fun_upd_upd by (auto simp: prio_insert_all_def)
qed

text \<open>Priority insertion followed by removal from the front serves the highest priority first.\<close>

lemma prio_service:
  assumes "rel s Q" "okq q" "Q q = []" "distinct ts" "\<And>t q'. t \<in> set ts \<Longrightarrow> t \<notin> set (Q q')"
  shows "\<exists>s' s'' us. insert_seq (\<lambda>t. pins t q) ts s = Some s' \<and>
           drain (fifo q) (length ts) s' = Some (us, s'') \<and> set us = set ts \<and>
           prio_sorted (prio s) us \<and>
           (\<forall>p. filter (\<lambda>x. prio s x = p) us = filter (\<lambda>x. prio s x = p) ts)"
proof -
  let ?us = "prio_insert_all (prio s) ts []"
  obtain s' where s': "insert_seq (\<lambda>t. pins t q) ts s = Some s'" "rel s' (Q(q := ?us))"
    using insert_seq_pins [OF assms(1,2,4,5)] assms(3) by auto
  obtain s'' where "drain (fifo q) (length ?us) s' = Some (?us, s'')"
    using drain_fifo [OF s'(2) assms(2)] by auto
  then show ?thesis
    using s'(1) prio_insert_all_sorted [of "prio s" "[]" ts] prio_insert_all_stable [of "prio s" "[]" _ ts]
    by auto
qed

end

text \<open>The pointer implementation provides it.\<close>

definition as_thread :: "node \<times> qheap \<Rightarrow> (tid \<times> qheap) option" where
  "as_thread r = (case r of (Thd t, h) \<Rightarrow> Some (t, h) | (Hdr q, h) \<Rightarrow> None)"

interpretation ptrq: thread_queues queues_rep tprio doubly
  "\<lambda>t q h. Some (ptr_queue_insert t q h)" ptr_queue_prio_insert
  "\<lambda>q h. as_thread (ptr_queue_fifo_remove q h)" "\<lambda>q h. as_thread (ptr_queue_lifo_remove q h)"
  "\<lambda>t h. Some (ptr_queue_dequeue t h)"
proof (unfold_locales, goal_cases)
  case (1 s Q q t)
  then show ?case
    using ptr_queue_insert_rep [of s Q t q] by (simp add: unqueued_def ptr_queue_insert_eq)
next
  case (2 s Q q t)
  then show ?case
    using ptr_queue_prio_insert_rep [of s Q t q] by (auto simp: unqueued_def)
next
  case (3 s Q q t xs)
  then show ?case
    using ptr_queue_fifo_remove_rep [of s Q q t xs] by (auto simp: as_thread_def)
next
  case (4 s Q q xs t)
  then show ?case
    using ptr_queue_lifo_remove_rep [of s Q q xs t] by (auto simp: as_thread_def)
next
  case (5 s Q q t)
  then show ?case
    using ptr_queue_dequeue_rep [of s Q t q]
    by (auto simp: unqueue_def ptr_queue_dequeue_def Let_def)
qed

subsection \<open>Properties\<close>

text \<open>
  C28. The pointer code of \<open>chSchReadyI\<close> and \<open>chSchDoRescheduleAhead\<close> implements insertion into the
  priority-ordered ready list: its search loop ends, the thread lands behind (respectively ahead
  of) the threads of its own priority, and every ring of every other queue is intact. It is
  required that the header holds \<open>NOPRIO\<close> and, for \<open>chSchReadyI\<close>, that the thread does not.
\<close>

theorem ready_insert_refines:
  assumes "queues_rep h Q" "unqueued t Q" "n_prio h (Hdr Q_RLIST) = NOPRIO" "NOPRIO < tprio h t"
  shows "(\<exists>h'. ptr_ready_insert t h = Some h' \<and> n_prio h' = n_prio h \<and>
            queues_rep h' (Q(Q_RLIST := prio_insert (tprio h) t (Q Q_RLIST)))) \<and>
         (\<exists>h'. ptr_ready_insert_ahead t h = Some h' \<and> n_prio h' = n_prio h \<and>
            queues_rep h' (Q(Q_RLIST := prio_insert_ahead (tprio h) t (Q Q_RLIST))))"
  using ptr_ready_insert_rep [OF assms] ptr_ready_insert_ahead_rep [OF assms(1-3)] by blast

text \<open>A store in which every queue is empty and thread \<open>t\<close> has priority \<open>t + 1\<close>.\<close>

definition heap0 :: qheap where
  "heap0 = \<lparr>p_next = (\<lambda>n. n), p_prev = (\<lambda>n. n), n_prio = (\<lambda>n. case n of Hdr q \<Rightarrow> NOPRIO | Thd t \<Rightarrow> t + 1)\<rparr>"

lemma heap0_rep: "queues_rep heap0 (\<lambda>_. [])" "unqueued t (\<lambda>_. [])"
  by (simp_all add: queues_rep_def apart_def ring_def unqueued_def heap0_def)

lemma heap0_prio: "n_prio heap0 (Hdr q) = NOPRIO" "NOPRIO < tprio heap0 t"
  by (simp_all add: heap0_def NOPRIO_def)

theorem ready_insert_refines_witness:
  "\<exists>h' h''. ptr_ready_insert 5 heap0 = Some h' \<and> queues_rep h' ((\<lambda>_. [])(Q_RLIST := [5])) \<and>
     ptr_ready_insert_ahead 5 heap0 = Some h'' \<and> queues_rep h'' ((\<lambda>_. [])(Q_RLIST := [5]))"
  using ready_insert_refines [OF heap0_rep heap0_prio, of 5] by auto

text \<open>
  Threads put into a queue by \<open>queue_prio_insert\<close> in any order come out of
  \<open>queue_fifo_remove\<close> by descending priority, and in arrival order among equal priorities; both
  loops end and no thread is lost or duplicated.
\<close>

theorem queue_prio_service:
  assumes "queues_rep h Q" "doubly q" "Q q = []" "distinct ts" "\<forall>t \<in> set ts. unqueued t Q"
  shows "\<exists>h1 h2 us. insert_seq (\<lambda>t. ptr_queue_prio_insert t q) ts h = Some h1 \<and>
           drain (\<lambda>h. as_thread (ptr_queue_fifo_remove q h)) (length ts) h1 = Some (us, h2) \<and>
           set us = set ts \<and> prio_sorted (tprio h) us \<and>
           (\<forall>p. filter (\<lambda>x. tprio h x = p) us = filter (\<lambda>x. tprio h x = p) ts)"
proof -
  have "\<And>t q'. t \<in> set ts \<Longrightarrow> t \<notin> set (Q q')" using assms(5) by (auto simp: unqueued_def)
  from ptrq.prio_service [OF assms(1-4) this] show ?thesis by blast
qed

theorem queue_prio_service_witness:
  "\<exists>h1 h2 us. insert_seq (\<lambda>t. ptr_queue_prio_insert t (Q_MTX 0)) [2, 7, 4] heap0 = Some h1 \<and>
     drain (\<lambda>h. as_thread (ptr_queue_fifo_remove (Q_MTX 0) h)) 3 h1 = Some (us, h2) \<and>
     set us = {2, 7, 4} \<and> prio_sorted (tprio heap0) us"
  using queue_prio_service [OF heap0_rep(1), of "Q_MTX 0" "[2, 7, 4]"] heap0_rep(2)
  by (auto simp: numeral_3_eq_3)

text \<open>
  \<open>queue_dequeue\<close> unlinks a thread from the middle of whatever queue it is in, without being
  told which: afterwards that queue holds the other threads in the same order, and every other
  queue is unchanged.
\<close>

theorem queue_dequeue_refines:
  assumes "queues_rep h Q" "t \<in> set (Q q)" "doubly q"
  shows "queues_rep (ptr_queue_dequeue t h) (unqueue t Q) \<and> n_prio (ptr_queue_dequeue t h) = n_prio h"
  using ptrq.deq_rel [OF assms(1,3,2)] by (simp add: unqueue_def ptr_queue_dequeue_def Let_def)

theorem queue_dequeue_refines_witness:
  "\<exists>h1. ptr_ready_insert 5 heap0 = Some h1 \<and> queues_rep (ptr_queue_dequeue 5 h1) (\<lambda>_. [])"
proof -
  obtain h1 where h1: "ptr_ready_insert 5 heap0 = Some h1" "queues_rep h1 ((\<lambda>_. [])(Q_RLIST := [5]))"
    using ptr_ready_insert_rep [OF heap0_rep heap0_prio, of 5] by auto
  have "unqueue 5 ((\<lambda>_. [])(Q_RLIST := [5])) = (\<lambda>_. [])" by (auto simp: unqueue_def)
  then show ?thesis using queue_dequeue_refines [OF h1(2), of 5 Q_RLIST] h1(1) by simp
qed

end
