(* ===== verification/ChDebug.thy ===== *)
theory ChDebug
  imports ChTypes
begin

text \<open>
  The system-state checker of \<open>chdebug.c\<close> and the critical-zone functions of \<open>chsys.h\<close>, as
  built with \<open>CH_DBG_SYSTEM_STATE_CHECK\<close>, \<open>CH_DBG_ENABLE_CHECKS\<close> and \<open>CH_DBG_ENABLE_ASSERTS\<close>:
  a violated check enters \<open>chSysHalt\<close>, which does not return.

  The lemmas give the calling contexts. \<open>class_S k\<close>: a thread inside a critical zone;
  \<open>class_I k\<close>: a critical zone entered from a thread or from an interrupt handler.
\<close>

subsection \<open>The checks\<close>

definition dbg_check_disable :: "ch_system \<Rightarrow> unit option" where
  "dbg_check_disable k = assert_that (\<not> (isr_cnt k \<noteq> 0 \<or> lock_cnt k \<noteq> 0))"

definition dbg_check_suspend :: "ch_system \<Rightarrow> unit option" where
  "dbg_check_suspend k = assert_that (\<not> (isr_cnt k \<noteq> 0 \<or> lock_cnt k \<noteq> 0))"

definition dbg_check_enable :: "ch_system \<Rightarrow> unit option" where
  "dbg_check_enable k = assert_that (\<not> (isr_cnt k \<noteq> 0 \<or> lock_cnt k \<noteq> 0))"

definition dbg_check_lock :: "ch_system \<Rightarrow> ch_system option" where
  "dbg_check_lock k =
     do { assert_that (\<not> (isr_cnt k \<noteq> 0 \<or> lock_cnt k \<noteq> 0)); Some (k\<lparr>lock_cnt := 1\<rparr>) }"

definition dbg_check_unlock :: "ch_system \<Rightarrow> ch_system option" where
  "dbg_check_unlock k =
     do { assert_that (\<not> (isr_cnt k \<noteq> 0 \<or> lock_cnt k \<le> 0)); Some (k\<lparr>lock_cnt := 0\<rparr>) }"

definition dbg_check_lock_from_isr :: "ch_system \<Rightarrow> ch_system option" where
  "dbg_check_lock_from_isr k =
     do { assert_that (\<not> (isr_cnt k \<le> 0 \<or> lock_cnt k \<noteq> 0)); Some (k\<lparr>lock_cnt := 1\<rparr>) }"

definition dbg_check_unlock_from_isr :: "ch_system \<Rightarrow> ch_system option" where
  "dbg_check_unlock_from_isr k =
     do { assert_that (\<not> (isr_cnt k \<le> 0 \<or> lock_cnt k \<le> 0)); Some (k\<lparr>lock_cnt := 0\<rparr>) }"

definition dbg_check_enter_isr :: "ch_system \<Rightarrow> ch_system option" where
  "dbg_check_enter_isr k =
     do { assert_that (\<not> (isr_cnt k < 0 \<or> lock_cnt k \<noteq> 0));
          n \<leftarrow> cnt_add (isr_cnt k) 1;
          Some (k\<lparr>isr_cnt := n\<rparr>) }"

definition dbg_check_leave_isr :: "ch_system \<Rightarrow> ch_system option" where
  "dbg_check_leave_isr k =
     do { assert_that (\<not> (isr_cnt k \<le> 0 \<or> lock_cnt k \<noteq> 0));
          n \<leftarrow> cnt_add (isr_cnt k) (- 1);
          Some (k\<lparr>isr_cnt := n\<rparr>) }"

definition chDbgCheckClassI :: "ch_system \<Rightarrow> unit option" where
  "chDbgCheckClassI k = assert_that (\<not> (isr_cnt k < 0 \<or> lock_cnt k \<le> 0))"

definition chDbgCheckClassS :: "ch_system \<Rightarrow> unit option" where
  "chDbgCheckClassS k = assert_that (\<not> (isr_cnt k \<noteq> 0 \<or> lock_cnt k \<le> 0))"

subsection \<open>Critical zones\<close>

definition chSysDisable :: "ch_system \<Rightarrow> unit option" where
  "chSysDisable k = dbg_check_disable k"

definition chSysSuspend :: "ch_system \<Rightarrow> unit option" where
  "chSysSuspend k = dbg_check_suspend k"

definition chSysEnable :: "ch_system \<Rightarrow> unit option" where
  "chSysEnable k = dbg_check_enable k"

definition chSysLock :: "ch_system \<Rightarrow> ch_system option" where
  "chSysLock k = dbg_check_lock k"

text \<open>Leaving a critical zone asserts that no reschedule is missing.\<close>

definition chSysUnlock :: "ch_system \<Rightarrow> ch_system option" where
  "chSysUnlock k =
     do { k \<leftarrow> dbg_check_unlock k;
          assert_that (queues k Q_RLIST = [] \<or>
            p_prio (thd k (hd (queues k Q_RLIST))) \<le> p_prio (thd k (r_current k)));
          Some k }"

definition chSysLockFromISR :: "ch_system \<Rightarrow> ch_system option" where
  "chSysLockFromISR k = dbg_check_lock_from_isr k"

definition chSysUnlockFromISR :: "ch_system \<Rightarrow> ch_system option" where
  "chSysUnlockFromISR k = dbg_check_unlock_from_isr k"

definition CH_IRQ_PROLOGUE :: "ch_system \<Rightarrow> ch_system option" where
  "CH_IRQ_PROLOGUE k = dbg_check_enter_isr k"

subsection \<open>Calling contexts\<close>

definition class_S :: "ch_system \<Rightarrow> bool" where
  "class_S k \<longleftrightarrow> isr_cnt k = 0 \<and> lock_cnt k = 1"

definition class_I :: "ch_system \<Rightarrow> bool" where
  "class_I k \<longleftrightarrow> 0 \<le> isr_cnt k \<and> lock_cnt k = 1"

definition class_thread :: "ch_system \<Rightarrow> bool" where
  "class_thread k \<longleftrightarrow> isr_cnt k = 0 \<and> lock_cnt k = 0"

definition class_isr :: "ch_system \<Rightarrow> bool" where
  "class_isr k \<longleftrightarrow> 0 < isr_cnt k \<and> lock_cnt k = 0"

lemma class_S_I: "class_S k \<Longrightarrow> class_I k"
  by (simp add: class_S_def class_I_def)

lemma classI_ok [simp]: "class_I k \<Longrightarrow> chDbgCheckClassI k = Some ()"
  by (simp add: class_I_def chDbgCheckClassI_def)

lemma classS_ok [simp]: "class_S k \<Longrightarrow> chDbgCheckClassS k = Some ()"
  by (simp add: class_S_def chDbgCheckClassS_def)

lemma chSysLock_ok: "class_thread k \<Longrightarrow> chSysLock k = Some (k\<lparr>lock_cnt := 1\<rparr>)"
  by (simp add: class_thread_def chSysLock_def dbg_check_lock_def)

lemma chSysLockFromISR_ok: "class_isr k \<Longrightarrow> chSysLockFromISR k = Some (k\<lparr>lock_cnt := 1\<rparr>)"
  by (simp add: class_isr_def chSysLockFromISR_def dbg_check_lock_from_isr_def)

lemma chSysUnlockFromISR_ok:
  "0 < isr_cnt k \<Longrightarrow> lock_cnt k = 1 \<Longrightarrow> chSysUnlockFromISR k = Some (k\<lparr>lock_cnt := 0\<rparr>)"
  by (simp add: chSysUnlockFromISR_def dbg_check_unlock_from_isr_def)

lemma chSysUnlock_ok:
  "class_S k \<Longrightarrow>
   queues k Q_RLIST = [] \<or> p_prio (thd k (hd (queues k Q_RLIST))) \<le> p_prio (thd k (r_current k)) \<Longrightarrow>
   chSysUnlock k = Some (k\<lparr>lock_cnt := 0\<rparr>)"
  by (auto simp: class_S_def chSysUnlock_def dbg_check_unlock_def)

lemma chSysUnlock_missing_reschedule:
  "queues k Q_RLIST \<noteq> [] \<Longrightarrow>
   p_prio (thd k (r_current k)) < p_prio (thd k (hd (queues k Q_RLIST))) \<Longrightarrow>
   chSysUnlock k = None"
  by (auto simp: chSysUnlock_def dbg_check_unlock_def assert_that_def)

end
