(* ===== verification/ChVT.thy ===== *)
theory ChVT
  imports ChDebug
begin

text \<open>
  Virtual timers: \<open>chvt.c\<close> and the non-ticking part of \<open>chvt.h\<close>, in the tickless configuration
  (\<open>CH_CFG_ST_TIMEDELTA = 2\<close>, 32-bit system time), with the alarm interface of the HAL system
  timer driver \<open>st.c\<close> underneath.

  Armed timers form a delta list: \<open>vtlist\<close> is the list in order, \<open>vt_delta\<close> the ticks after the
  previous element (for the first, after \<open>vtl_lasttime\<close>), and \<open>vtl_delta\<close> the delta field of the
  list header. All time arithmetic is modulo \<open>2 ^ 32\<close>.
\<close>

definition CH_CFG_ST_TIMEDELTA :: systime_t where "CH_CFG_ST_TIMEDELTA = 2"

subsection \<open>The alarm of the system timer\<close>

definition stStartAlarm :: "systime_t \<Rightarrow> ch_system \<Rightarrow> ch_system option" where
  "stStartAlarm abstime k =
     do { assert_that (port_alarm k = None); Some (k\<lparr>port_alarm := Some abstime\<rparr>) }"

definition stStopAlarm :: "ch_system \<Rightarrow> ch_system" where
  "stStopAlarm k = k\<lparr>port_alarm := None\<rparr>"

definition stSetAlarm :: "systime_t \<Rightarrow> ch_system \<Rightarrow> ch_system option" where
  "stSetAlarm abstime k =
     do { assert_that (port_alarm k \<noteq> None); Some (k\<lparr>port_alarm := Some abstime\<rparr>) }"

definition stGetAlarm :: "ch_system \<Rightarrow> systime_t option" where
  "stGetAlarm k = port_alarm k"

subsection \<open>Reading the time\<close>

definition chVTGetSystemTimeX :: "ch_system \<Rightarrow> systime_t" where
  "chVTGetSystemTimeX k = port_time k"

definition chVTGetSystemTime :: "ch_system \<Rightarrow> (systime_t \<times> ch_system) option" where
  "chVTGetSystemTime k =
     do { k \<leftarrow> chSysLock k; let systime = chVTGetSystemTimeX k; k \<leftarrow> chSysUnlock k; Some (systime, k) }"

definition chVTTimeElapsedSinceX :: "systime_t \<Rightarrow> ch_system \<Rightarrow> systime_t" where
  "chVTTimeElapsedSinceX start k = chVTGetSystemTimeX k - start"

definition chVTIsTimeWithinX :: "systime_t \<Rightarrow> systime_t \<Rightarrow> systime_t \<Rightarrow> bool" where
  "chVTIsTimeWithinX time start end' \<longleftrightarrow> time - start < end' - start"

definition chVTIsSystemTimeWithinX :: "systime_t \<Rightarrow> systime_t \<Rightarrow> ch_system \<Rightarrow> bool" where
  "chVTIsSystemTimeWithinX start end' k = chVTIsTimeWithinX (chVTGetSystemTimeX k) start end'"

definition chVTIsSystemTimeWithin ::
  "systime_t \<Rightarrow> systime_t \<Rightarrow> ch_system \<Rightarrow> (bool \<times> ch_system) option" where
  "chVTIsSystemTimeWithin start end' k =
     do { (t, k) \<leftarrow> chVTGetSystemTime k; Some (chVTIsTimeWithinX t start end', k) }"

subsection \<open>Arming and disarming\<close>

definition vt_init :: "ch_system \<Rightarrow> ch_system" where
  "vt_init k = k\<lparr>vtlist := [], vtl_delta := - 1, vtl_lasttime := 0\<rparr>"

abbreviation vdelta :: "ch_system \<Rightarrow> vtid \<Rightarrow> systime_t" where
  "vdelta k v \<equiv> vt_delta (vtimer k v)"

definition set_vdelta :: "vtid \<Rightarrow> systime_t \<Rightarrow> ch_system \<Rightarrow> ch_system" where
  "set_vdelta v d k = k\<lparr>vtimer := (vtimer k)(v := (vtimer k v)\<lparr>vt_delta := d\<rparr>)\<rparr>"

definition set_vfunc :: "vtid \<Rightarrow> vtfunc_t option \<Rightarrow> ch_system \<Rightarrow> ch_system" where
  "set_vfunc v f k = k\<lparr>vtimer := (vtimer k)(v := (vtimer k v)\<lparr>vt_func := f\<rparr>)\<rparr>"

definition set_vpar :: "vtid \<Rightarrow> nat \<Rightarrow> ch_system \<Rightarrow> ch_system" where
  "set_vpar v p k = k\<lparr>vtimer := (vtimer k)(v := (vtimer k v)\<lparr>vt_par := p\<rparr>)\<rparr>"

definition chVTObjectInit :: "vtid \<Rightarrow> ch_system \<Rightarrow> ch_system" where
  "chVTObjectInit vtp k = set_vfunc vtp None k"

text \<open>
  The search loop of \<open>chVTDoSetI\<close>: skip the timers that fire earlier, subtracting their deltas.
  At the header the loop ends because its delta is the largest value; otherwise it would run
  round the ring again.
\<close>

fun vt_scan ::
  "(vtid \<Rightarrow> systime_t) \<Rightarrow> systime_t \<Rightarrow> systime_t \<Rightarrow> vtid list \<Rightarrow>
     (vtid list \<times> systime_t \<times> vtid list) option" where
  "vt_scan d hdr delta [] = (if hdr < delta then None else Some ([], delta, []))"
| "vt_scan d hdr delta (p # ps) =
     (if d p < delta
      then do { (as, delta', bs) \<leftarrow> vt_scan d hdr (delta - d p) ps; Some (p # as, delta', bs) }
      else Some ([], delta, p # ps))"

definition chVTDoSetI :: "vtid \<Rightarrow> systime_t \<Rightarrow> vtfunc_t \<Rightarrow> nat \<Rightarrow> ch_system \<Rightarrow> ch_system option" where
  "chVTDoSetI vtp delay vtfunc par k =
     do { chDbgCheckClassI k;
          assert_that (delay \<noteq> TIME_IMMEDIATE);
          let k = set_vfunc vtp (Some vtfunc) (set_vpar vtp par k);
          let now = chVTGetSystemTimeX k;
          let delay = (if delay < CH_CFG_ST_TIMEDELTA then CH_CFG_ST_TIMEDELTA else delay);
          if vtlist k = [] then
            do { let k = set_vdelta vtp delay (k\<lparr>vtl_lasttime := now, vtlist := [vtp]\<rparr>);
                 stStartAlarm (vtl_lasttime k + delay) k }
          else
            do { let delta = now + delay - vtl_lasttime k;
                 k \<leftarrow> (if delta < vdelta k (hd (vtlist k))
                       then stSetAlarm (vtl_lasttime k + delta) k else Some k);
                 (as, delta', bs) \<leftarrow> vt_scan (vdelta k) (vtl_delta k) delta (vtlist k);
                 let k = set_vdelta vtp delta' (k\<lparr>vtlist := as @ vtp # bs\<rparr>);
                 let k = (if bs = [] then k else set_vdelta (hd bs) (vdelta k (hd bs) - delta') k);
                 Some (k\<lparr>vtl_delta := - 1\<rparr>) } }"

definition chVTIsArmedI :: "vtid \<Rightarrow> ch_system \<Rightarrow> bool option" where
  "chVTIsArmedI vtp k = do { chDbgCheckClassI k; Some (vt_func (vtimer k vtp) \<noteq> None) }"

definition vt_after :: "vtid \<Rightarrow> vtid list \<Rightarrow> vtid list" where
  "vt_after v vs = tl (dropWhile (\<lambda>x. x \<noteq> v) vs)"

definition chVTDoResetI :: "vtid \<Rightarrow> ch_system \<Rightarrow> ch_system option" where
  "chVTDoResetI vtp k =
     do { chDbgCheckClassI k;
          assert_that (vt_func (vtimer k vtp) \<noteq> None);
          if vtlist k = [] \<or> hd (vtlist k) \<noteq> vtp then
            do { let nexts = vt_after vtp (vtlist k);
                 let k = set_vfunc vtp None (k\<lparr>vtlist := filter (\<lambda>x. x \<noteq> vtp) (vtlist k)\<rparr>);
                 Some (if nexts = [] then k
                       else set_vdelta (hd nexts) (vdelta k (hd nexts) + vdelta k vtp) k) }
          else
            do { let k = set_vfunc vtp None (k\<lparr>vtlist := tl (vtlist k)\<rparr>);
                 if vtlist k = [] then Some (stStopAlarm k)
                 else
                   do { let first = hd (vtlist k);
                        let k = set_vdelta first (vdelta k first + vdelta k vtp) k;
                        let nowdelta = chVTGetSystemTimeX k - vtl_lasttime k;
                        if nowdelta \<ge> vdelta k first then Some k
                        else
                          do { let delta = vdelta k first - nowdelta;
                               let delta = (if delta < CH_CFG_ST_TIMEDELTA
                                            then CH_CFG_ST_TIMEDELTA else delta);
                               stSetAlarm (vtl_lasttime k + nowdelta + delta) k } } } }"

definition chVTIsArmed :: "vtid \<Rightarrow> ch_system \<Rightarrow> (bool \<times> ch_system) option" where
  "chVTIsArmed vtp k =
     do { k \<leftarrow> chSysLock k; b \<leftarrow> chVTIsArmedI vtp k; k \<leftarrow> chSysUnlock k; Some (b, k) }"

definition chVTResetI :: "vtid \<Rightarrow> ch_system \<Rightarrow> ch_system option" where
  "chVTResetI vtp k =
     do { b \<leftarrow> chVTIsArmedI vtp k; if b then chVTDoResetI vtp k else Some k }"

definition chVTReset :: "vtid \<Rightarrow> ch_system \<Rightarrow> ch_system option" where
  "chVTReset vtp k = do { k \<leftarrow> chSysLock k; k \<leftarrow> chVTResetI vtp k; chSysUnlock k }"

definition chVTSetI :: "vtid \<Rightarrow> systime_t \<Rightarrow> vtfunc_t \<Rightarrow> nat \<Rightarrow> ch_system \<Rightarrow> ch_system option" where
  "chVTSetI vtp delay vtfunc par k =
     do { k \<leftarrow> chVTResetI vtp k; chVTDoSetI vtp delay vtfunc par k }"

definition chVTSet :: "vtid \<Rightarrow> systime_t \<Rightarrow> vtfunc_t \<Rightarrow> nat \<Rightarrow> ch_system \<Rightarrow> ch_system option" where
  "chVTSet vtp delay vtfunc par k =
     do { k \<leftarrow> chSysLock k; k \<leftarrow> chVTSetI vtp delay vtfunc par k; chSysUnlock k }"

subsection \<open>What the delta list means\<close>

text \<open>
  The offset of a timer is the sum of the deltas up to it: the ticks after \<open>vtl_lasttime\<close> at which
  it is due. \<open>vt_remaining\<close> counts from the current time instead; it is what a client sees.
\<close>

fun vt_offsets :: "(vtid \<Rightarrow> systime_t) \<Rightarrow> nat \<Rightarrow> vtid list \<Rightarrow> (vtid \<times> nat) list" where
  "vt_offsets d a [] = []"
| "vt_offsets d a (v # vs) = (v, a + unat (d v)) # vt_offsets d (a + unat (d v)) vs"

definition vt_total :: "(vtid \<Rightarrow> systime_t) \<Rightarrow> vtid list \<Rightarrow> nat" where
  "vt_total d vs = sum_list (map (\<lambda>v. unat (d v)) vs)"

lemma vt_total_simps [simp]:
  "vt_total d [] = 0" "vt_total d (v # vs) = unat (d v) + vt_total d vs"
  "vt_total d (us @ vs) = vt_total d us + vt_total d vs"
  by (simp_all add: vt_total_def)

lemma vt_total_cong: "(\<And>v. v \<in> set vs \<Longrightarrow> d v = d' v) \<Longrightarrow> vt_total d vs = vt_total d' vs"
  by (induction vs) auto

lemma vt_offsets_cong:
  "(\<And>v. v \<in> set vs \<Longrightarrow> d v = d' v) \<Longrightarrow> vt_offsets d a vs = vt_offsets d' a vs"
  by (induction vs arbitrary: a) auto

lemma vt_offsets_append [simp]:
  "vt_offsets d a (us @ vs) = vt_offsets d a us @ vt_offsets d (a + vt_total d us) vs"
  by (induction us arbitrary: a) (auto simp: add.assoc)

lemma map_fst_vt_offsets [simp]: "map fst (vt_offsets d a vs) = vs"
  by (induction vs arbitrary: a) auto

lemma vt_offsets_ge: "(v, n) \<in> set (vt_offsets d a vs) \<Longrightarrow> a \<le> n"
  by (induction vs arbitrary: a) fastforce+

definition vt_elapsed :: "ch_system \<Rightarrow> nat" where
  "vt_elapsed k = unat (port_time k - vtl_lasttime k)"

definition vt_remaining :: "ch_system \<Rightarrow> (vtid \<times> int) list" where
  "vt_remaining k =
     map (\<lambda>(v, n). (v, int n - int (vt_elapsed k))) (vt_offsets (vdelta k) 0 (vtlist k))"

definition vt_ok :: "ch_system \<Rightarrow> bool" where
  "vt_ok k \<longleftrightarrow>
     distinct (vtlist k) \<and> (\<forall>v. v \<in> set (vtlist k) \<longleftrightarrow> vt_func (vtimer k v) \<noteq> None) \<and>
     vtl_delta k = - 1 \<and> (port_alarm k = None \<longleftrightarrow> vtlist k = []) \<and>
     vt_total (vdelta k) (vtlist k) < 2 ^ 32"

lemma vt_okD:
  assumes "vt_ok k"
  shows "distinct (vtlist k)" "v \<in> set (vtlist k) \<longleftrightarrow> vt_func (vtimer k v) \<noteq> None"
    "vtl_delta k = - 1" "port_alarm k = None \<longleftrightarrow> vtlist k = []"
    "vt_total (vdelta k) (vtlist k) < 2 ^ 32"
  using assms by (auto simp: vt_ok_def)

text \<open>The specification of arming: a list ordered by due time; equal due times go in front.\<close>

fun insert_due :: "'v \<Rightarrow> 'n::linorder \<Rightarrow> ('v \<times> 'n) list \<Rightarrow> ('v \<times> 'n) list" where
  "insert_due v n [] = [(v, n)]"
| "insert_due v n ((w, m) # ws) = (if m < n then (w, m) # insert_due v n ws else (v, n) # (w, m) # ws)"

lemma insert_due_append:
  "(\<And>w m. (w, m) \<in> set us \<Longrightarrow> m < n) \<Longrightarrow> (ws = [] \<or> n \<le> snd (hd ws)) \<Longrightarrow>
     insert_due v n (us @ ws) = us @ (v, n) # ws"
proof (induction us)
  case Nil
  then show ?case by (cases ws) auto
next
  case (Cons u us)
  then show ?case by (cases u) auto
qed

lemma insert_due_shift:
  "map (\<lambda>(v, n). (v, int n - c)) (insert_due v n us) =
     insert_due v (int n - c) (map (\<lambda>(v, n). (v, int n - c)) us)"
  by (induction v n us rule: insert_due.induct) auto

subsection \<open>Arming a timer\<close>

lemma unat_diff_le: "(y::'a::len word) \<le> x \<Longrightarrow> unat (x - y) = unat x - unat y"
  by (simp add: unat_sub)

lemma vt_scan_spec:
  "\<exists>as delta' bs. vt_scan d (- 1) delta vs = Some (as, delta', bs) \<and> vs = as @ bs \<and>
     unat delta = vt_total d as + unat delta' \<and> (bs = [] \<or> delta' \<le> d (hd bs)) \<and>
     (\<forall>(v, n) \<in> set (vt_offsets d a as). n < a + unat delta)"
proof (induction vs arbitrary: delta a)
  case Nil
  show ?case by simp
next
  case (Cons p ps)
  show ?case
  proof (cases "d p < delta")
    case False
    then show ?thesis by (intro exI [of _ "[]"]) auto
  next
    case True
    obtain as delta' bs where IH: "vt_scan d (- 1) (delta - d p) ps = Some (as, delta', bs)"
        "ps = as @ bs" "unat (delta - d p) = vt_total d as + unat delta'"
        "bs = [] \<or> delta' \<le> d (hd bs)"
        "\<forall>(v, n) \<in> set (vt_offsets d (a + unat (d p)) as). n < a + unat (d p) + unat (delta - d p)"
      using Cons.IH by blast
    have u: "unat (d p) < unat delta" using True by (simp add: word_less_nat_alt)
    then have "unat (delta - d p) = unat delta - unat (d p)"
      using True by (simp add: unat_diff_le)
    with u IH True show ?thesis by (intro exI [of _ "p # as"]) auto
  qed
qed

lemma vtimer_set_simps [simp]:
  "vdelta (set_vdelta v x k) w = (if w = v then x else vdelta k w)"
  "vt_func (vtimer (set_vdelta v x k) w) = vt_func (vtimer k w)"
  "vt_par (vtimer (set_vdelta v x k) w) = vt_par (vtimer k w)"
  "vtlist (set_vdelta v x k) = vtlist k" "vtl_delta (set_vdelta v x k) = vtl_delta k"
  "vtl_lasttime (set_vdelta v x k) = vtl_lasttime k"
  "port_time (set_vdelta v x k) = port_time k" "port_alarm (set_vdelta v x k) = port_alarm k"
  "vdelta (set_vfunc v f k) w = vdelta k w"
  "vt_func (vtimer (set_vfunc v f k) w) = (if w = v then f else vt_func (vtimer k w))"
  "vt_par (vtimer (set_vfunc v f k) w) = vt_par (vtimer k w)"
  "vtlist (set_vfunc v f k) = vtlist k" "vtl_delta (set_vfunc v f k) = vtl_delta k"
  "vtl_lasttime (set_vfunc v f k) = vtl_lasttime k"
  "port_time (set_vfunc v f k) = port_time k" "port_alarm (set_vfunc v f k) = port_alarm k"
  "vdelta (set_vpar v p k) w = vdelta k w"
  "vt_func (vtimer (set_vpar v p k) w) = vt_func (vtimer k w)"
  "vt_par (vtimer (set_vpar v p k) w) = (if w = v then p else vt_par (vtimer k w))"
  "vtlist (set_vpar v p k) = vtlist k" "vtl_delta (set_vpar v p k) = vtl_delta k"
  "vtl_lasttime (set_vpar v p k) = vtl_lasttime k"
  "port_time (set_vpar v p k) = port_time k" "port_alarm (set_vpar v p k) = port_alarm k"
  by (simp_all add: set_vdelta_def set_vfunc_def set_vpar_def)

text \<open>The part of the state no timer operation touches.\<close>

definition core :: "ch_system \<Rightarrow> ch_system" where
  "core k = k\<lparr>vtimer := (\<lambda>_. \<lparr>vt_delta = 0, vt_func = None, vt_par = 0\<rparr>), vtlist := [],
     vtl_delta := 0, vtl_lasttime := 0, port_alarm := None\<rparr>"

lemma core_simps [simp]:
  "core (set_vdelta v x k) = core k" "core (set_vfunc v f k) = core k" "core (set_vpar v p k) = core k"
  "core (k\<lparr>vtlist := vs\<rparr>) = core k" "core (k\<lparr>vtl_delta := d\<rparr>) = core k"
  "core (k\<lparr>vtl_lasttime := d\<rparr>) = core k" "core (k\<lparr>port_alarm := a\<rparr>) = core k"
  "core (core k) = core k"
  by (simp_all add: core_def set_vdelta_def set_vfunc_def set_vpar_def)

lemma coreD:
  assumes "core k' = core k"
  shows "thd k' = thd k" "queues k' = queues k" "r_current k' = r_current k"
    "reglist k' = reglist k" "s_cnt k' = s_cnt k" "m_owner k' = m_owner k" "tref k' = tref k"
    "es_next k' = es_next k" "listener k' = listener k" "isr_cnt k' = isr_cnt k"
    "lock_cnt k' = lock_cnt k" "port_time k' = port_time k"
  using arg_cong [OF assms, of thd] arg_cong [OF assms, of queues] arg_cong [OF assms, of r_current]
    arg_cong [OF assms, of reglist] arg_cong [OF assms, of s_cnt] arg_cong [OF assms, of m_owner]
    arg_cong [OF assms, of tref] arg_cong [OF assms, of es_next] arg_cong [OF assms, of listener]
    arg_cong [OF assms, of isr_cnt] arg_cong [OF assms, of lock_cnt] arg_cong [OF assms, of port_time]
  by (simp_all add: core_def)

lemma class_core: "core k' = core k \<Longrightarrow> class_I k' = class_I k" "core k' = core k \<Longrightarrow> class_S k' = class_S k"
  using coreD(10,11) [of k' k] by (simp_all add: class_I_def class_S_def)

definition vt_delay :: "systime_t \<Rightarrow> systime_t" where
  "vt_delay delay = (if delay < CH_CFG_ST_TIMEDELTA then CH_CFG_ST_TIMEDELTA else delay)"

lemma vt_remaining_empty: "vtlist k = [] \<Longrightarrow> vt_remaining k = []"
  by (simp add: vt_remaining_def)

lemma vt_offsets_insert:
  fixes d :: "vtid \<Rightarrow> systime_t"
  assumes "distinct (v # as @ bs)" and "bs = [] \<or> x \<le> d (hd bs)"
    and "d' = (\<lambda>w. if bs \<noteq> [] \<and> w = hd bs then d w - x else if w = v then x else d w)"
  shows "vt_offsets d' a (as @ v # bs) =
           vt_offsets d a as @ (v, a + vt_total d as + unat x) # vt_offsets d (a + vt_total d as) bs"
    and "vt_total d' (as @ v # bs) =
           (if bs = [] then vt_total d as + unat x else vt_total d (as @ bs))"
proof -
  have das: "d' w = d w" if "w \<in> set as" for w
    using assms(1) that hd_in_set [of bs] unfolding assms(3) by auto
  have dv: "d' v = x"
    using assms(1) hd_in_set [of bs] unfolding assms(3) by auto
  have dbs: "vt_offsets d' (c + unat x) bs = vt_offsets d c bs \<and>
      unat x + vt_total d' bs = (if bs = [] then unat x else vt_total d bs)" for c
  proof (cases bs)
    case (Cons b bs')
    have "x \<le> d b" using assms(2) Cons by simp
    then have "unat x + unat (d' b) = unat (d b)"
      unfolding assms(3) using Cons by (simp add: unat_diff_le word_le_nat_alt)
    moreover have "\<And>w. w \<in> set bs' \<Longrightarrow> d' w = d w"
      unfolding assms(3) using assms(1) Cons by auto
    ultimately show ?thesis
      using Cons vt_offsets_cong [of bs' d' d] vt_total_cong [of bs' d' d] by (simp add: add.assoc)
  qed simp
  show "vt_offsets d' a (as @ v # bs) =
      vt_offsets d a as @ (v, a + vt_total d as + unat x) # vt_offsets d (a + vt_total d as) bs"
    using vt_offsets_cong [of as d' d a] vt_total_cong [of as d' d] das dv dbs by simp
  show "vt_total d' (as @ v # bs) = (if bs = [] then vt_total d as + unat x else vt_total d (as @ bs))"
    using vt_total_cong [of as d' d] das dv dbs by simp
qed

lemma chVTDoSetI_ok:
  assumes ok: "vt_ok k" and cl: "class_I k" and delay: "delay \<noteq> TIME_IMMEDIATE"
    and v: "vtp \<notin> set (vtlist k)" and nowrap: "vt_elapsed k + unat (vt_delay delay) < 2 ^ 32"
  shows "\<exists>k'. chVTDoSetI vtp delay f p k = Some k' \<and> vt_ok k' \<and> core k' = core k \<and>
           vt_func (vtimer k' vtp) = Some f \<and> vt_par (vtimer k' vtp) = p \<and>
           vt_remaining k' = insert_due vtp (int (unat (vt_delay delay))) (vt_remaining k)"
proof (cases "vtlist k = []")
  case True
  let ?k = "set_vdelta vtp (vt_delay delay)
    ((set_vfunc vtp (Some f) (set_vpar vtp p k))\<lparr>vtl_lasttime := port_time k, vtlist := [vtp],
       port_alarm := Some (port_time k + vt_delay delay)\<rparr>)"
  have "chVTDoSetI vtp delay f p k = Some ?k"
    using True cl delay vt_okD(4) [OF ok]
    by (simp add: chVTDoSetI_def stStartAlarm_def chVTGetSystemTimeX_def vt_delay_def Let_def
        set_vdelta_def set_vfunc_def set_vpar_def)
  moreover have "vt_ok ?k"
    using ok True by (auto simp: vt_ok_def)
  ultimately show ?thesis
    using True by (simp add: vt_remaining_def vt_elapsed_def)
next
  case False
  define k1 where "k1 = set_vfunc vtp (Some f) (set_vpar vtp p k)"
  define delta where "delta = port_time k + vt_delay delay - vtl_lasttime k"
  have delta: "unat delta = vt_elapsed k + unat (vt_delay delay)"
  proof -
    have "delta = (port_time k - vtl_lasttime k) + vt_delay delay" by (simp add: delta_def)
    then show ?thesis using nowrap by (simp add: vt_elapsed_def unat_word_ariths)
  qed
  define k2 where "k2 = (if delta < vdelta k (hd (vtlist k))
      then k1\<lparr>port_alarm := Some (vtl_lasttime k + delta)\<rparr> else k1)"
  have k2: "vdelta k2 = vdelta k" "vtlist k2 = vtlist k" "vtl_delta k2 = - 1"
      "vtl_lasttime k2 = vtl_lasttime k" "port_time k2 = port_time k" "core k2 = core k"
      "port_alarm k2 \<noteq> None" "\<And>w. vt_func (vtimer k2 w) = (if w = vtp then Some f else vt_func (vtimer k w))"
      "vt_par (vtimer k2 vtp) = p"
    using vt_okD [OF ok] False by (auto simp: k2_def k1_def)
  obtain as x bs where sc: "vt_scan (vdelta k) (- 1) delta (vtlist k) = Some (as, x, bs)"
      "vtlist k = as @ bs" "unat delta = vt_total (vdelta k) as + unat x"
      "bs = [] \<or> x \<le> vdelta k (hd bs)"
      "\<forall>(v, n) \<in> set (vt_offsets (vdelta k) 0 as). n < 0 + unat delta"
    using vt_scan_spec by blast
  define k3 where "k3 = set_vdelta vtp x (k2\<lparr>vtlist := as @ vtp # bs\<rparr>)"
  define k' where "k' = (if bs = [] then k3 else set_vdelta (hd bs) (vdelta k3 (hd bs) - x) k3)
      \<lparr>vtl_delta := - 1\<rparr>"
  have eq: "chVTDoSetI vtp delay f p k = Some k'"
  proof -
    have a: "(if delta < vdelta k1 (hd (vtlist k1)) then stSetAlarm (vtl_lasttime k1 + delta) k1
        else Some k1) = Some k2"
      using vt_okD(4) [OF ok] False by (auto simp: k1_def k2_def stSetAlarm_def)
    have d: "port_time k1 + vt_delay delay - vtl_lasttime k1 = delta" "vtlist k1 \<noteq> []"
      using False by (simp_all add: k1_def delta_def)
    show ?thesis
      unfolding chVTDoSetI_def using cl delay sc(1) a d k2
      by (simp add: chVTGetSystemTimeX_def Let_def k1_def [symmetric] vt_delay_def [symmetric])
        (simp add: k'_def k3_def)
  qed
  have dist: "distinct (vtp # as @ bs)" using vt_okD(1) [OF ok] v sc(2) by simp
  have vd: "vdelta k' = (\<lambda>w. if bs \<noteq> [] \<and> w = hd bs then vdelta k w - x
      else if w = vtp then x else vdelta k w)"
    using dist hd_in_set [of bs] fun_cong [OF k2(1)] by (auto simp: k'_def k3_def fun_eq_iff)
  have k': "vtlist k' = as @ vtp # bs" "vtl_lasttime k' = vtl_lasttime k" "port_time k' = port_time k"
      "core k' = core k" "port_alarm k' \<noteq> None" "vtl_delta k' = - 1"
      "\<And>w. vt_func (vtimer k' w) = (if w = vtp then Some f else vt_func (vtimer k w))"
      "vt_par (vtimer k' vtp) = p"
    using k2 by (simp_all add: k'_def k3_def)
  note ins = vt_offsets_insert(1) [OF dist sc(4) vd, of 0] vt_offsets_insert(2) [OF dist sc(4) vd]
  have tot: "vt_total (vdelta k') (vtlist k') < 2 ^ 32"
    using ins(2) vt_okD(5) [OF ok] sc(2,3) unat32_lt [of delta] unfolding k' by (simp split: if_splits)
  have "vt_ok k'"
    using tot dist vt_okD [OF ok] k' sc(2) by (auto simp: vt_ok_def)
  moreover have "vt_offsets (vdelta k') 0 (vtlist k') =
      insert_due vtp (vt_elapsed k + unat (vt_delay delay)) (vt_offsets (vdelta k) 0 (vtlist k))"
  proof -
    have "bs = [] \<or> unat delta \<le> snd (hd (vt_offsets (vdelta k) (vt_total (vdelta k) as) bs))"
      using sc(3,4) by (cases bs) (auto simp: word_le_nat_alt)
    moreover have "vt_offsets (vdelta k) (vt_total (vdelta k) as) bs = [] \<longleftrightarrow> bs = []"
      by (cases bs) auto
    ultimately have "insert_due vtp (unat delta)
        (vt_offsets (vdelta k) 0 as @ vt_offsets (vdelta k) (vt_total (vdelta k) as) bs) =
        vt_offsets (vdelta k) 0 as @ (vtp, unat delta) # vt_offsets (vdelta k) (vt_total (vdelta k) as) bs"
      using sc(5) by (intro insert_due_append) auto
    then show ?thesis
      using ins(1) sc(2,3) k'(1) by (subst delta [symmetric]) simp
  qed
  ultimately show ?thesis
    using eq k' by (simp add: vt_remaining_def insert_due_shift vt_elapsed_def)
qed

subsection \<open>Disarming a timer\<close>

lemma filter_vt_offsets:
  "v \<notin> set vs \<Longrightarrow> filter (\<lambda>(w, n). w \<noteq> v) (vt_offsets d a vs) = vt_offsets d a vs"
  by (induction vs arbitrary: a) auto

lemma vt_offsets_delete:
  fixes d :: "vtid \<Rightarrow> systime_t"
  assumes "distinct (as @ v # bs)" and "vt_total d (as @ v # bs) < 2 ^ 32"
    and "d' = (\<lambda>w. if bs \<noteq> [] \<and> w = hd bs then d w + d v else d w)"
  shows "vt_offsets d' a (as @ bs) = filter (\<lambda>(w, n). w \<noteq> v) (vt_offsets d a (as @ v # bs))"
    and "vt_total d' (as @ bs) \<le> vt_total d (as @ v # bs)"
proof -
  have das: "d' w = d w" if "w \<in> set as" for w
    using assms(1) that hd_in_set [of bs] unfolding assms(3) by auto
  have dbs: "vt_offsets d' c bs = vt_offsets d (c + unat (d v)) bs \<and>
      vt_total d' bs \<le> unat (d v) + vt_total d bs" for c
  proof (cases bs)
    case (Cons b bs')
    have "unat (d b) + unat (d v) < 2 ^ 32" using assms(2) Cons by simp
    then have "unat (d' b) = unat (d v) + unat (d b)"
      unfolding assms(3) using Cons by (simp add: unat_word_ariths)
    moreover have "\<And>w. w \<in> set bs' \<Longrightarrow> d' w = d w"
      unfolding assms(3) using assms(1) Cons by auto
    ultimately show ?thesis
      using Cons vt_offsets_cong [of bs' d' d] vt_total_cong [of bs' d' d] by (simp add: add.assoc)
  qed simp
  show "vt_offsets d' a (as @ bs) = filter (\<lambda>(w, n). w \<noteq> v) (vt_offsets d a (as @ v # bs))"
    using vt_offsets_cong [of as d' d a] vt_total_cong [of as d' d] das dbs assms(1)
    by (simp add: filter_vt_offsets)
  show "vt_total d' (as @ bs) \<le> vt_total d (as @ v # bs)"
    using vt_total_cong [of as d' d] das dbs by (simp add: add.assoc)
qed

lemma vt_after_split: "distinct (as @ v # bs) \<Longrightarrow> vt_after v (as @ v # bs) = bs"
  by (induction as) (auto simp: vt_after_def)

lemma chVTDoResetI_ok:
  assumes ok: "vt_ok k" and cl: "class_I k" and v: "vtp \<in> set (vtlist k)"
  shows "\<exists>k'. chVTDoResetI vtp k = Some k' \<and> vt_ok k' \<and> core k' = core k \<and>
           vt_func (vtimer k' vtp) = None \<and>
           vt_remaining k' = filter (\<lambda>(w, n). w \<noteq> vtp) (vt_remaining k)"
proof -
  obtain as bs where vs: "vtlist k = as @ vtp # bs" using v by (auto simp: in_set_conv_decomp)
  have dist: "distinct (as @ vtp # bs)" using vt_okD(1) [OF ok] vs by simp
  define k1 where "k1 = set_vfunc vtp None (k\<lparr>vtlist := as @ bs\<rparr>)"
  define k2 where "k2 = (if bs = [] then k1 else set_vdelta (hd bs) (vdelta k1 (hd bs) + vdelta k1 vtp) k1)"
  have vd: "vdelta k2 = (\<lambda>w. if bs \<noteq> [] \<and> w = hd bs then vdelta k w + vdelta k vtp else vdelta k w)"
    by (auto simp: k2_def k1_def fun_eq_iff)
  have k2: "vtlist k2 = as @ bs" "vtl_lasttime k2 = vtl_lasttime k" "port_time k2 = port_time k"
      "core k2 = core k" "port_alarm k2 = port_alarm k" "vtl_delta k2 = vtl_delta k"
      "\<And>w. vt_func (vtimer k2 w) = (if w = vtp then None else vt_func (vtimer k w))"
    by (simp_all add: k2_def k1_def)
  have tot: "vt_total (vdelta k) (as @ vtp # bs) < 2 ^ 32" using vt_okD(5) [OF ok] vs by simp
  note del = vt_offsets_delete(1) [OF dist tot vd, of 0] vt_offsets_delete(2) [OF dist tot vd]
  \<comment> \<open>whatever the alarm register ends up holding, as long as it is active exactly when needed\<close>
  have fin: "vt_ok (k2\<lparr>port_alarm := a\<rparr>) \<and> core (k2\<lparr>port_alarm := a\<rparr>) = core k \<and>
      vt_func (vtimer (k2\<lparr>port_alarm := a\<rparr>) vtp) = None \<and>
      vt_remaining (k2\<lparr>port_alarm := a\<rparr>) = filter (\<lambda>(w, n). w \<noteq> vtp) (vt_remaining k)"
    if "a = None \<longleftrightarrow> as @ bs = []" for a
  proof -
    have "vt_ok (k2\<lparr>port_alarm := a\<rparr>)"
      using that del(2) tot dist vt_okD [OF ok] vs by (auto simp: vt_ok_def k2)
    then show ?thesis
      using del(1) by (simp add: vt_remaining_def vt_elapsed_def k2 vs filter_map o_def case_prod_unfold)
  qed
  have func: "vt_func (vtimer k vtp) \<noteq> None" using vt_okD(2) [OF ok] v by blast
  have alarm: "port_alarm k \<noteq> None" using vt_okD(4) [OF ok] vs by simp
  show ?thesis
  proof (cases as)
    case (Cons a as')
    have "chVTDoResetI vtp k = Some (k2\<lparr>port_alarm := port_alarm k\<rparr>)"
    proof -
      have "filter (\<lambda>x. x \<noteq> vtp) (vtlist k) = as @ bs" "vt_after vtp (vtlist k) = bs"
        "hd (vtlist k) \<noteq> vtp"
        using dist vs Cons vt_after_split [OF dist] by auto
      then show ?thesis
        using cl func k2(5) unfolding chVTDoResetI_def
        by (simp add: Let_def k2_def k1_def)
    qed
    then show ?thesis using fin [of "port_alarm k"] alarm Cons by auto
  next
    case Nil
    have h: "hd (vtlist k) = vtp" "tl (vtlist k) = bs" "vtlist k \<noteq> []" using vs Nil by auto
    show ?thesis
    proof (cases "bs = []")
      case True
      have "chVTDoResetI vtp k = Some (k2\<lparr>port_alarm := None\<rparr>)"
        using cl func h True Nil unfolding chVTDoResetI_def
        by (simp add: Let_def k2_def k1_def stStopAlarm_def)
      then show ?thesis using fin [of None] Nil True by auto
    next
      case False
      have "\<exists>a. chVTDoResetI vtp k = Some (k2\<lparr>port_alarm := a\<rparr>) \<and> a \<noteq> None"
      proof (cases "chVTGetSystemTimeX k2 - vtl_lasttime k2 \<ge> vdelta k2 (hd bs)")
        case True
        then have "chVTDoResetI vtp k = Some (k2\<lparr>port_alarm := port_alarm k\<rparr>)"
          using cl func h False Nil k2(5) unfolding chVTDoResetI_def
          by (simp add: Let_def k2_def k1_def chVTGetSystemTimeX_def)
        then show ?thesis using alarm by blast
      next
        case nf: False
        then show ?thesis
          using cl func h False Nil alarm unfolding chVTDoResetI_def
          by (simp add: Let_def k2_def k1_def chVTGetSystemTimeX_def stSetAlarm_def) blast
      qed
      then obtain a where "chVTDoResetI vtp k = Some (k2\<lparr>port_alarm := a\<rparr>)" "a \<noteq> None"
        by blast
      then show ?thesis using fin [of a] Nil False by auto
    qed
  qed
qed

subsection \<open>Properties\<close>

text \<open>A system with one armed timer, due in 50 ticks.\<close>

definition vt_sys0 :: ch_system where
  "vt_sys0 =
     \<lparr>thd = (\<lambda>_. \<lparr>p_prio = NORMALPRIO, p_state = CH_STATE_CURRENT, p_flags = 0, p_refs = 1, p_u = Rdymsg 0,
                 p_msg = 0, p_epending = 0, p_mtxlist = [], p_realprio = NORMALPRIO, p_name = None, p_mpool = None\<rparr>),
      queues = (\<lambda>_. []), r_current = 0, reglist = [0], s_cnt = (\<lambda>_. 0), m_owner = (\<lambda>_. None), tref = (\<lambda>_. None),
      vtimer = (\<lambda>v. if v = Vt_obj 1 then \<lparr>vt_delta = 50, vt_func = Some (Vt_user 0), vt_par = 0\<rparr>
                    else \<lparr>vt_delta = 0, vt_func = None, vt_par = 0\<rparr>),
      vtlist = [Vt_obj 1], vtl_delta = - 1, vtl_lasttime = 7, es_next = (\<lambda>_. []),
      listener = (\<lambda>_. \<lparr>el_listener = 0, el_events = 0, el_flags = 0, el_wflags = 0\<rparr>),
      isr_cnt = 0, lock_cnt = 1, port_time = 17, port_alarm = Some 57\<rparr>"

lemma vt_sys0_facts:
  "vt_ok vt_sys0" "class_I vt_sys0" "vt_elapsed vt_sys0 = 10" "vt_remaining vt_sys0 = [(Vt_obj 1, 40)]"
  "vtlist vt_sys0 = [Vt_obj 1]"
  by (simp_all add: vt_sys0_def vt_ok_def class_I_def vt_elapsed_def vt_remaining_def)

text \<open>
  Arming a timer: \<open>chVTDoSetI\<close> returns, leaves everything but the timers alone, and puts the
  timer into the list at its due time (at least \<open>CH_CFG_ST_TIMEDELTA\<close> ticks ahead), without
  changing the remaining time of any other timer, provided the delay does not run past the
  system time range counted from the last timer event.
\<close>

theorem chVTDoSetI_arms:
  assumes "vt_ok k" "class_I k" "delay \<noteq> TIME_IMMEDIATE" "vtp \<notin> set (vtlist k)"
    and "vt_elapsed k + unat (vt_delay delay) < 2 ^ 32"
  shows "\<exists>k'. chVTDoSetI vtp delay f p k = Some k' \<and> vt_ok k' \<and> core k' = core k \<and>
           vt_func (vtimer k' vtp) = Some f \<and> vt_par (vtimer k' vtp) = p \<and>
           vt_remaining k' = insert_due vtp (int (unat (vt_delay delay))) (vt_remaining k)"
  using assms by (rule chVTDoSetI_ok)

theorem chVTDoSetI_arms_witness:
  "\<exists>k'. chVTDoSetI (Vt_obj 2) 30 (Vt_user 1) 0 vt_sys0 = Some k' \<and> vt_ok k' \<and>
     vt_remaining k' = [(Vt_obj 2, 30), (Vt_obj 1, 40)]"
  using chVTDoSetI_arms [of vt_sys0 30 "Vt_obj 2" "Vt_user 1" 0] vt_sys0_facts
  by (auto simp: TIME_IMMEDIATE_def vt_delay_def CH_CFG_ST_TIMEDELTA_def)

text \<open>
  Disarming a timer: \<open>chVTDoResetI\<close> removes exactly that timer, the remaining time of every
  other timer is unchanged, and the hardware alarm is stopped exactly when no timer is left.
\<close>

theorem chVTDoResetI_disarms:
  assumes "vt_ok k" "class_I k" "vtp \<in> set (vtlist k)"
  shows "\<exists>k'. chVTDoResetI vtp k = Some k' \<and> vt_ok k' \<and> core k' = core k \<and>
           vt_func (vtimer k' vtp) = None \<and>
           vt_remaining k' = filter (\<lambda>(w, n). w \<noteq> vtp) (vt_remaining k)"
  using assms by (rule chVTDoResetI_ok)

theorem chVTDoResetI_disarms_witness:
  "\<exists>k'. chVTDoResetI (Vt_obj 1) vt_sys0 = Some k' \<and> vt_ok k' \<and> vt_remaining k' = []"
  using chVTDoResetI_disarms [of vt_sys0 "Vt_obj 1"] vt_sys0_facts by auto

text \<open>
  The limit of the previous property is real: a delay that runs past the range of the system
  time, counted from the last timer event, wraps in \<open>now + delay - lasttime\<close>, and the timer is
  armed far too early. Here a delay of \<open>2 ^ 32 - 6\<close> ticks, requested 10 ticks after the last
  event, comes out as a timer that was due 6 ticks ago.
\<close>

theorem chVTDoSetI_long_delay_wraps:
  "\<exists>k'. chVTDoSetI (Vt_obj 2) (- 6) (Vt_user 1) 0 vt_sys0 = Some k' \<and>
     vt_remaining k' = [(Vt_obj 2, - 6), (Vt_obj 1, 40)]"
  by (simp add: chVTDoSetI_def vt_sys0_def class_I_def chDbgCheckClassI_def TIME_IMMEDIATE_def
      CH_CFG_ST_TIMEDELTA_def chVTGetSystemTimeX_def stSetAlarm_def Let_def vt_remaining_def vt_elapsed_def
      set_vdelta_def set_vfunc_def set_vpar_def)

end
