(* ===== verification/ChSched.thy ===== *)
theory ChSched
  imports ChQueues ChVT
begin

text \<open>
  The scheduler, \<open>chschd.c\<close> and \<open>chschd.h\<close>, in the configuration of the DSP application
  (\<open>CH_CFG_TIME_QUANTUM = 0\<close>, all debug checks on). The thread queues are the lists of
  \<open>ch_system\<close>; \<open>ChQueues\<close> shows that the pointer code implements these list operations.

  The scheduler invariant \<open>sched_ok\<close> and the four ways in which threads change state (a thread
  is woken, the current thread goes to sleep, it is preempted, a woken thread runs at once) are
  the vocabulary in which every kernel object is verified.
\<close>

subsection \<open>Thread fields and thread queues\<close>

definition upd_thd :: "tid \<Rightarrow> (thread_t \<Rightarrow> thread_t) \<Rightarrow> ch_system \<Rightarrow> ch_system" where
  "upd_thd t f k = k\<lparr>thd := (thd k)(t := f (thd k t))\<rparr>"

abbreviation "set_state t st \<equiv> upd_thd t (\<lambda>x. x\<lparr>p_state := st\<rparr>)"
abbreviation "set_pu t u \<equiv> upd_thd t (\<lambda>x. x\<lparr>p_u := u\<rparr>)"
abbreviation "set_prio t p \<equiv> upd_thd t (\<lambda>x. x\<lparr>p_prio := p\<rparr>)"

abbreviation prio_of :: "ch_system \<Rightarrow> tid \<Rightarrow> tprio_t" where
  "prio_of k t \<equiv> p_prio (thd k t)"

abbreviation state_of :: "ch_system \<Rightarrow> tid \<Rightarrow> tstate_t" where
  "state_of k t \<equiv> p_state (thd k t)"

definition rdymsg_of :: "tid \<Rightarrow> ch_system \<Rightarrow> msg_t option" where
  "rdymsg_of t k = (case p_u (thd k t) of Rdymsg m \<Rightarrow> Some m | _ \<Rightarrow> None)"

definition set_queue :: "qid \<Rightarrow> tid list \<Rightarrow> ch_system \<Rightarrow> ch_system" where
  "set_queue q xs k = k\<lparr>queues := (queues k)(q := xs)\<rparr>"

definition list_init :: "qid \<Rightarrow> ch_system \<Rightarrow> ch_system" where
  "list_init q k = set_queue q [] k"

definition list_isempty :: "qid \<Rightarrow> ch_system \<Rightarrow> bool" where
  "list_isempty q k \<longleftrightarrow> queues k q = []"

definition list_notempty :: "qid \<Rightarrow> ch_system \<Rightarrow> bool" where
  "list_notempty q k \<longleftrightarrow> queues k q \<noteq> []"

definition list_insert :: "tid \<Rightarrow> qid \<Rightarrow> ch_system \<Rightarrow> ch_system" where
  "list_insert tp q k = set_queue q (tp # queues k q) k"

definition list_remove :: "qid \<Rightarrow> ch_system \<Rightarrow> (tid \<times> ch_system) option" where
  "list_remove q k = (case queues k q of [] \<Rightarrow> None | t # ts \<Rightarrow> Some (t, set_queue q ts k))"

definition queue_init :: "qid \<Rightarrow> ch_system \<Rightarrow> ch_system" where
  "queue_init q k = set_queue q [] k"

definition queue_isempty :: "qid \<Rightarrow> ch_system \<Rightarrow> bool" where
  "queue_isempty q k \<longleftrightarrow> queues k q = []"

definition queue_notempty :: "qid \<Rightarrow> ch_system \<Rightarrow> bool" where
  "queue_notempty q k \<longleftrightarrow> queues k q \<noteq> []"

definition queue_insert :: "tid \<Rightarrow> qid \<Rightarrow> ch_system \<Rightarrow> ch_system" where
  "queue_insert tp q k = set_queue q (queues k q @ [tp]) k"

definition queue_prio_insert :: "tid \<Rightarrow> qid \<Rightarrow> ch_system \<Rightarrow> ch_system" where
  "queue_prio_insert tp q k = set_queue q (prio_insert (prio_of k) tp (queues k q)) k"

definition queue_fifo_remove :: "qid \<Rightarrow> ch_system \<Rightarrow> (tid \<times> ch_system) option" where
  "queue_fifo_remove q k = (case queues k q of [] \<Rightarrow> None | t # ts \<Rightarrow> Some (t, set_queue q ts k))"

definition queue_lifo_remove :: "qid \<Rightarrow> ch_system \<Rightarrow> (tid \<times> ch_system) option" where
  "queue_lifo_remove q k =
     (if queues k q = [] then None
      else Some (last (queues k q), set_queue q (butlast (queues k q)) k))"

definition queue_dequeue :: "tid \<Rightarrow> ch_system \<Rightarrow> ch_system" where
  "queue_dequeue tp k = k\<lparr>queues := unqueue tp (queues k)\<rparr>"

subsection \<open>The scheduler operations\<close>

definition scheduler_init :: "ch_system \<Rightarrow> ch_system" where
  "scheduler_init k = (queue_init Q_RLIST k)\<lparr>reglist := []\<rparr>"

text \<open>
  The insertion loop stops at the list header, whose priority is \<open>NOPRIO\<close>; with a thread of
  priority \<open>NOPRIO\<close> it runs round the list for ever.
\<close>

definition chSchReadyI :: "tid \<Rightarrow> ch_system \<Rightarrow> ch_system option" where
  "chSchReadyI tp k =
     do { chDbgCheckClassI k;
          assert_that (state_of k tp \<noteq> CH_STATE_READY \<and> state_of k tp \<noteq> CH_STATE_FINAL);
          let k = set_state tp CH_STATE_READY k;
          assert_that (NOPRIO < prio_of k tp);
          Some (set_queue Q_RLIST (prio_insert (prio_of k) tp (queues k Q_RLIST)) k) }"

definition chSchGoSleepS :: "tstate_t \<Rightarrow> ch_system \<Rightarrow> ch_system option" where
  "chSchGoSleepS newstate k =
     do { chDbgCheckClassS k;
          let otp = r_current k;
          let k = set_state otp newstate k;
          (tp, k) \<leftarrow> queue_fifo_remove Q_RLIST k;
          let k = k\<lparr>r_current := tp\<rparr>;
          Some (set_state (r_current k) CH_STATE_CURRENT k) }"

definition chSemFastSignalI :: "nat \<Rightarrow> ch_system \<Rightarrow> ch_system option" where
  "chSemFastSignalI sp k =
     do { chDbgCheckClassI k;
          n \<leftarrow> cnt_add (s_cnt k sp) 1;
          Some (k\<lparr>s_cnt := (s_cnt k)(sp := n)\<rparr>) }"

text \<open>The timeout callback, called from the tick interrupt.\<close>

definition wakeup :: "tid \<Rightarrow> ch_system \<Rightarrow> ch_system option" where
  "wakeup tp k =
     do { k \<leftarrow> chSysLockFromISR k;
          if state_of k tp = CH_STATE_READY then chSysUnlockFromISR k
          else
            do { k \<leftarrow> (case state_of k tp of
                    CH_STATE_SUSPENDED \<Rightarrow>
                      (case p_u (thd k tp) of
                         Wttrp r \<Rightarrow> Some (k\<lparr>tref := (tref k)(r := None)\<rparr>)
                       | _ \<Rightarrow> None)
                  | CH_STATE_WTSEM \<Rightarrow>
                      (case p_u (thd k tp) of
                         Wtobjp (Q_SEM s) \<Rightarrow>
                           do { k \<leftarrow> chSemFastSignalI s k; Some (queue_dequeue tp k) }
                       | _ \<Rightarrow> None)
                  | CH_STATE_WTCOND \<Rightarrow> Some (queue_dequeue tp k)
                  | CH_STATE_QUEUED \<Rightarrow> Some (queue_dequeue tp k)
                  | _ \<Rightarrow> Some k);
                 let k = set_pu tp (Rdymsg MSG_TIMEOUT) k;
                 k \<leftarrow> chSchReadyI tp k;
                 chSysUnlockFromISR k } }"

definition chSchGoSleepTimeoutS :: "tstate_t \<Rightarrow> systime_t \<Rightarrow> ch_system \<Rightarrow> ch_system option" where
  "chSchGoSleepTimeoutS newstate time k =
     do { chDbgCheckClassS k;
          if TIME_INFINITE \<noteq> time
          then do { k \<leftarrow> chVTDoSetI (Vt_thd (r_current k)) time Vt_wakeup (r_current k) k;
                    chSchGoSleepS newstate k }
          else chSchGoSleepS newstate k }"

text \<open>What \<open>chSchGoSleepTimeoutS\<close> does after the thread runs again.\<close>

definition chSchGoSleepTimeoutS_resume :: "systime_t \<Rightarrow> ch_system \<Rightarrow> (msg_t \<times> ch_system) option" where
  "chSchGoSleepTimeoutS_resume time k =
     do { k \<leftarrow> (if TIME_INFINITE \<noteq> time
                then do { b \<leftarrow> chVTIsArmedI (Vt_thd (r_current k)) k;
                          if b then chVTDoResetI (Vt_thd (r_current k)) k else Some k }
                else Some k);
          m \<leftarrow> rdymsg_of (r_current k) k;
          Some (m, k) }"

definition chSchWakeupS :: "tid \<Rightarrow> msg_t \<Rightarrow> ch_system \<Rightarrow> (unit outcome \<times> ch_system) option" where
  "chSchWakeupS ntp msg k =
     do { chDbgCheckClassS k;
          let k = set_pu ntp (Rdymsg msg) k;
          if prio_of k ntp \<le> prio_of k (r_current k)
          then do { k \<leftarrow> chSchReadyI ntp k; Some (Done (), k) }
          else do { k \<leftarrow> chSchReadyI (r_current k) k;
                    let k = k\<lparr>r_current := ntp\<rparr>;
                    Some (Switched, set_state ntp CH_STATE_CURRENT k) } }"

definition firstprio :: "ch_system \<Rightarrow> tprio_t" where
  "firstprio k = (case queues k Q_RLIST of [] \<Rightarrow> NOPRIO | t # ts \<Rightarrow> prio_of k t)"

definition chSchIsRescRequiredI :: "ch_system \<Rightarrow> bool option" where
  "chSchIsRescRequiredI k =
     do { chDbgCheckClassI k; Some (firstprio k > prio_of k (r_current k)) }"

definition chSchCanYieldS :: "ch_system \<Rightarrow> bool option" where
  "chSchCanYieldS k =
     do { chDbgCheckClassS k; Some (firstprio k \<ge> prio_of k (r_current k)) }"

definition chSchDoRescheduleBehind :: "ch_system \<Rightarrow> ch_system option" where
  "chSchDoRescheduleBehind k =
     do { let otp = r_current k;
          (tp, k) \<leftarrow> queue_fifo_remove Q_RLIST k;
          let k = k\<lparr>r_current := tp\<rparr>;
          let k = set_state (r_current k) CH_STATE_CURRENT k;
          chSchReadyI otp k }"

definition chSchDoRescheduleAhead :: "ch_system \<Rightarrow> ch_system option" where
  "chSchDoRescheduleAhead k =
     do { let otp = r_current k;
          (tp, k) \<leftarrow> queue_fifo_remove Q_RLIST k;
          let k = k\<lparr>r_current := tp\<rparr>;
          let k = set_state (r_current k) CH_STATE_CURRENT k;
          let k = set_state otp CH_STATE_READY k;
          Some (set_queue Q_RLIST (prio_insert_ahead (prio_of k) otp (queues k Q_RLIST)) k) }"

definition chSchRescheduleS :: "ch_system \<Rightarrow> (unit outcome \<times> ch_system) option" where
  "chSchRescheduleS k =
     do { chDbgCheckClassS k;
          b \<leftarrow> chSchIsRescRequiredI k;
          if b then do { k \<leftarrow> chSchDoRescheduleAhead k; Some (Switched, k) } else Some (Done (), k) }"

definition chSchIsPreemptionRequired :: "ch_system \<Rightarrow> bool" where
  "chSchIsPreemptionRequired k \<longleftrightarrow> firstprio k > prio_of k (r_current k)"

definition chSchDoReschedule :: "ch_system \<Rightarrow> ch_system option" where
  "chSchDoReschedule k = chSchDoRescheduleAhead k"

definition chSchDoYieldS :: "ch_system \<Rightarrow> (unit outcome \<times> ch_system) option" where
  "chSchDoYieldS k =
     do { chDbgCheckClassS k;
          b \<leftarrow> chSchCanYieldS k;
          if b then do { k \<leftarrow> chSchDoRescheduleBehind k; Some (Switched, k) } else Some (Done (), k) }"

definition chSchPreemption :: "ch_system \<Rightarrow> (unit outcome \<times> ch_system) option" where
  "chSchPreemption k =
     (if firstprio k \<ge> prio_of k (r_current k)
      then do { k \<leftarrow> chSchDoRescheduleAhead k; Some (Switched, k) }
      else Some (Done (), k))"


subsection \<open>The scheduler invariant\<close>

text \<open>The state of the threads that a queue holds, and the queues kept in priority order.\<close>

fun qstate :: "qid \<Rightarrow> tstate_t" where
  "qstate Q_RLIST = CH_STATE_READY"
| "qstate (Q_SEM s) = CH_STATE_WTSEM"
| "qstate (Q_MTX m) = CH_STATE_WTMTX"
| "qstate (Q_COND c) = CH_STATE_WTCOND"
| "qstate (Q_MSG t) = CH_STATE_SNDMSGQ"
| "qstate (Q_WAIT t) = CH_STATE_WTEXIT"
| "qstate (Q_THD n) = CH_STATE_QUEUED"

fun by_prio :: "qid \<Rightarrow> bool" where
  "by_prio Q_RLIST \<longleftrightarrow> True"
| "by_prio (Q_MTX m) \<longleftrightarrow> True"
| "by_prio (Q_COND c) \<longleftrightarrow> True"
| "by_prio _ \<longleftrightarrow> False"

definition sched_ok :: "ch_system \<Rightarrow> bool" where
  "sched_ok k \<longleftrightarrow>
     apart (queues k) \<and> unqueued (r_current k) (queues k) \<and>
     (\<forall>t. state_of k t = CH_STATE_CURRENT \<longleftrightarrow> t = r_current k) \<and>
     (\<forall>q. \<forall>t \<in> set (queues k q). state_of k t = qstate q) \<and>
     (\<forall>t. state_of k t = CH_STATE_READY \<longrightarrow> t \<in> set (queues k Q_RLIST)) \<and>
     (\<forall>q. by_prio q \<longrightarrow> prio_sorted (prio_of k) (queues k q)) \<and>
     (\<forall>t. NOPRIO < prio_of k t)"

lemma qstate_ready [simp]: "qstate q = CH_STATE_READY \<longleftrightarrow> q = Q_RLIST"
  by (cases q) auto

lemma qstate_not_current [simp]: "qstate q \<noteq> CH_STATE_CURRENT" "CH_STATE_CURRENT \<noteq> qstate q"
  by (cases q; simp)+

lemma qstate_not_final [simp]: "qstate q \<noteq> CH_STATE_FINAL" "CH_STATE_FINAL \<noteq> qstate q"
  by (cases q; simp)+

lemma sched_okD:
  assumes "sched_ok k"
  shows "apart (queues k)" "unqueued (r_current k) (queues k)"
    "state_of k t = CH_STATE_CURRENT \<longleftrightarrow> t = r_current k"
    "t \<in> set (queues k q) \<Longrightarrow> state_of k t = qstate q"
    "state_of k t = CH_STATE_READY \<Longrightarrow> t \<in> set (queues k Q_RLIST)"
    "by_prio q \<Longrightarrow> prio_sorted (prio_of k) (queues k q)" "NOPRIO < prio_of k t"
  using assms unfolding sched_ok_def by blast+

lemma sched_ok_unqueued:
  assumes "sched_ok k" and "\<And>q. state_of k t \<noteq> qstate q"
  shows "unqueued t (queues k)"
  using assms sched_okD(4) [OF assms(1)] unfolding unqueued_def by metis

lemma rlist_head_not_current: "sched_ok k \<Longrightarrow> queues k Q_RLIST = t # ts \<Longrightarrow> t \<noteq> r_current k"
  using sched_okD(2) [of k] by (metis list.set_intros(1) unqueued_def)

lemma thd_sel_simps [simp]:
  "thd (upd_thd t f k) x = (if x = t then f (thd k t) else thd k x)"
  "queues (upd_thd t f k) = queues k" "r_current (upd_thd t f k) = r_current k"
  "reglist (upd_thd t f k) = reglist k" "s_cnt (upd_thd t f k) = s_cnt k"
  "m_owner (upd_thd t f k) = m_owner k" "tref (upd_thd t f k) = tref k"
  "vtimer (upd_thd t f k) = vtimer k" "vtlist (upd_thd t f k) = vtlist k"
  "vtl_delta (upd_thd t f k) = vtl_delta k" "vtl_lasttime (upd_thd t f k) = vtl_lasttime k"
  "es_next (upd_thd t f k) = es_next k" "listener (upd_thd t f k) = listener k"
  "isr_cnt (upd_thd t f k) = isr_cnt k" "lock_cnt (upd_thd t f k) = lock_cnt k"
  "port_time (upd_thd t f k) = port_time k" "port_alarm (upd_thd t f k) = port_alarm k"
  by (simp_all add: upd_thd_def)

lemma set_queue_simps [simp]:
  "queues (set_queue q xs k) = (queues k)(q := xs)"
  "thd (set_queue q xs k) = thd k" "r_current (set_queue q xs k) = r_current k"
  "reglist (set_queue q xs k) = reglist k" "s_cnt (set_queue q xs k) = s_cnt k"
  "m_owner (set_queue q xs k) = m_owner k" "tref (set_queue q xs k) = tref k"
  "vtimer (set_queue q xs k) = vtimer k" "vtlist (set_queue q xs k) = vtlist k"
  "vtl_delta (set_queue q xs k) = vtl_delta k" "vtl_lasttime (set_queue q xs k) = vtl_lasttime k"
  "es_next (set_queue q xs k) = es_next k" "listener (set_queue q xs k) = listener k"
  "isr_cnt (set_queue q xs k) = isr_cnt k" "lock_cnt (set_queue q xs k) = lock_cnt k"
  "port_time (set_queue q xs k) = port_time k" "port_alarm (set_queue q xs k) = port_alarm k"
  by (simp_all add: set_queue_def)

lemma queue_dequeue_simps [simp]:
  "queues (queue_dequeue t k) = unqueue t (queues k)"
  "thd (queue_dequeue t k) = thd k" "r_current (queue_dequeue t k) = r_current k"
  "reglist (queue_dequeue t k) = reglist k" "s_cnt (queue_dequeue t k) = s_cnt k"
  "m_owner (queue_dequeue t k) = m_owner k" "tref (queue_dequeue t k) = tref k"
  "vtimer (queue_dequeue t k) = vtimer k" "vtlist (queue_dequeue t k) = vtlist k"
  "vtl_delta (queue_dequeue t k) = vtl_delta k" "vtl_lasttime (queue_dequeue t k) = vtl_lasttime k"
  "es_next (queue_dequeue t k) = es_next k" "listener (queue_dequeue t k) = listener k"
  "isr_cnt (queue_dequeue t k) = isr_cnt k" "lock_cnt (queue_dequeue t k) = lock_cnt k"
  "port_time (queue_dequeue t k) = port_time k" "port_alarm (queue_dequeue t k) = port_alarm k"
  by (simp_all add: queue_dequeue_def)

lemma class_upd_simps [simp]:
  "class_I (upd_thd t f k) = class_I k" "class_S (upd_thd t f k) = class_S k"
  "class_I (set_queue q xs k) = class_I k" "class_S (set_queue q xs k) = class_S k"
  "class_I (queue_dequeue t k) = class_I k" "class_S (queue_dequeue t k) = class_S k"
  "class_I (k\<lparr>r_current := t\<rparr>) = class_I k" "class_S (k\<lparr>r_current := t\<rparr>) = class_S k"
  "class_I (k\<lparr>s_cnt := c\<rparr>) = class_I k" "class_S (k\<lparr>s_cnt := c\<rparr>) = class_S k"
  "class_I (k\<lparr>m_owner := ow\<rparr>) = class_I k" "class_S (k\<lparr>m_owner := ow\<rparr>) = class_S k"
  "class_I (k\<lparr>tref := r\<rparr>) = class_I k" "class_S (k\<lparr>tref := r\<rparr>) = class_S k"
  by (simp_all add: class_I_def class_S_def)

subsection \<open>The ways a thread changes state\<close>

text \<open>
  \<open>woken t u k\<close>: thread \<open>t\<close> leaves the queue it waits in and becomes ready with wakeup message \<open>u\<close>.
  \<open>sleeping st k\<close>: the current thread enters state \<open>st\<close> and the first ready thread runs.
  \<open>preempted ins k\<close>: the current thread goes back to the ready list by \<open>ins\<close> and the first ready
  thread runs.
\<close>

definition make_ready :: "tid \<Rightarrow> ch_system \<Rightarrow> ch_system" where
  "make_ready t k =
     set_queue Q_RLIST (prio_insert (prio_of k) t (queues k Q_RLIST)) (set_state t CH_STATE_READY k)"

definition woken :: "tid \<Rightarrow> msg_t \<Rightarrow> ch_system \<Rightarrow> ch_system" where
  "woken t u k = make_ready t (set_pu t (Rdymsg u) (queue_dequeue t k))"

definition sleeping :: "tstate_t \<Rightarrow> ch_system \<Rightarrow> ch_system" where
  "sleeping st k =
     (let t = hd (queues k Q_RLIST);
          k = set_queue Q_RLIST (tl (queues k Q_RLIST)) (set_state (r_current k) st k)
      in set_state t CH_STATE_CURRENT (k\<lparr>r_current := t\<rparr>))"

definition preempted ::
  "((tid \<Rightarrow> nat) \<Rightarrow> tid \<Rightarrow> tid list \<Rightarrow> tid list) \<Rightarrow> ch_system \<Rightarrow> ch_system" where
  "preempted ins k =
     (let t = hd (queues k Q_RLIST); c = r_current k
      in set_queue Q_RLIST (ins (prio_of k) c (tl (queues k Q_RLIST)))
           (set_state c CH_STATE_READY (set_state t CH_STATE_CURRENT (k\<lparr>r_current := t\<rparr>))))"

lemma prio_fun_simps [simp]:
  "p_prio (if x = t then (thd k t)\<lparr>p_state := st\<rparr> else thd k x) = prio_of k x"
  "p_prio (if x = t then (thd k t)\<lparr>p_u := u\<rparr> else thd k x) = prio_of k x"
  by auto

lemma chSchReadyI_eq:
  assumes "class_I k" "state_of k t \<noteq> CH_STATE_READY" "state_of k t \<noteq> CH_STATE_FINAL" "NOPRIO < prio_of k t"
  shows "chSchReadyI t k = Some (make_ready t k)"
proof -
  have "(\<lambda>x. p_prio (if x = t then (thd k t)\<lparr>p_state := CH_STATE_READY\<rparr> else thd k x)) = prio_of k"
    by (rule ext) simp
  then show ?thesis using assms by (simp add: chSchReadyI_def make_ready_def Let_def)
qed

lemma prio_upd_fun [simp]:
  "(\<lambda>x. p_prio (if x = t then (thd k t)\<lparr>p_state := st\<rparr> else thd k x)) = prio_of k"
  "(\<lambda>x. p_prio (if x = t then (thd k t)\<lparr>p_u := u\<rparr> else thd k x)) = prio_of k"
  by (rule ext, simp)+

lemma apart_fifo:
  assumes "apart Q" and "Q q = t # ts"
  shows "Q(q := ts) = unqueue t Q"
proof (rule ext)
  fix q'
  have "q' \<noteq> q \<Longrightarrow> t \<notin> set (Q q')" using apart_same [OF assms(1), of t q' q] assms(2) by auto
  moreover have "t \<notin> set ts" using apart_distinct [OF assms(1), of q] assms(2) by simp
  ultimately show "(Q(q := ts)) q' = unqueue t Q q'" using assms(2) by (simp add: unqueue_def)
qed

lemma apart_lifo:
  assumes "apart Q" and "Q q = ts @ [t]"
  shows "Q(q := ts) = unqueue t Q"
proof (rule ext)
  fix q'
  have "q' \<noteq> q \<Longrightarrow> t \<notin> set (Q q')" using apart_same [OF assms(1), of t q' q] assms(2) by auto
  moreover have "t \<notin> set ts" using apart_distinct [OF assms(1), of q] assms(2) by simp
  ultimately show "(Q(q := ts)) q' = unqueue t Q q'" using assms(2) by (simp add: unqueue_def)
qed

lemma set_queue_fifo:
  "sched_ok k \<Longrightarrow> queues k q = t # ts \<Longrightarrow> set_queue q ts k = queue_dequeue t k"
  using apart_fifo [of "queues k" q t ts] by (simp add: sched_ok_def set_queue_def queue_dequeue_def)

lemma set_queue_lifo:
  "sched_ok k \<Longrightarrow> queues k q = ts @ [t] \<Longrightarrow> set_queue q ts k = queue_dequeue t k"
  using apart_lifo [of "queues k" q ts t] by (simp add: sched_ok_def set_queue_def queue_dequeue_def)

lemma woken_simps [simp]:
  "r_current (woken t u k) = r_current k" "s_cnt (woken t u k) = s_cnt k"
  "m_owner (woken t u k) = m_owner k" "tref (woken t u k) = tref k" "reglist (woken t u k) = reglist k"
  "vtimer (woken t u k) = vtimer k" "vtlist (woken t u k) = vtlist k"
  "vtl_delta (woken t u k) = vtl_delta k" "vtl_lasttime (woken t u k) = vtl_lasttime k"
  "es_next (woken t u k) = es_next k" "listener (woken t u k) = listener k"
  "isr_cnt (woken t u k) = isr_cnt k" "lock_cnt (woken t u k) = lock_cnt k"
  "port_time (woken t u k) = port_time k" "port_alarm (woken t u k) = port_alarm k"
  "state_of (woken t u k) x = (if x = t then CH_STATE_READY else state_of k x)"
  "p_u (thd (woken t u k) x) = (if x = t then Rdymsg u else p_u (thd k x))"
  "prio_of (woken t u k) x = prio_of k x" "p_realprio (thd (woken t u k) x) = p_realprio (thd k x)"
  "p_mtxlist (thd (woken t u k) x) = p_mtxlist (thd k x)" "p_msg (thd (woken t u k) x) = p_msg (thd k x)"
  "p_epending (thd (woken t u k) x) = p_epending (thd k x)" "p_refs (thd (woken t u k) x) = p_refs (thd k x)"
  "p_flags (thd (woken t u k) x) = p_flags (thd k x)"
  "queues (woken t u k) = (unqueue t (queues k))
     (Q_RLIST := prio_insert (prio_of k) t (unqueue t (queues k) Q_RLIST))"
  by (simp_all add: woken_def make_ready_def)

lemma class_woken [simp]:
  "class_I (woken t u k) = class_I k" "class_S (woken t u k) = class_S k"
  by (simp_all add: class_I_def class_S_def)

lemma sched_ok_woken:
  assumes ok: "sched_ok k" and t: "t \<noteq> r_current k"
  shows "sched_ok (woken t u k)"
proof -
  have 1: "apart (queues (woken t u k))"
    using sched_okD(1) [OF ok] by (simp add: apart_def unqueue_def) blast
  have 2: "unqueued (r_current k) (queues (woken t u k))"
    using sched_okD(2) [OF ok] t by (simp add: unqueued_def unqueue_def)
  have 3: "by_prio q \<longrightarrow> prio_sorted (prio_of (woken t u k)) (queues (woken t u k) q)" for q
    using sched_okD(6) [OF ok, of q] sched_okD(6) [OF ok, of Q_RLIST]
    by (auto simp: unqueue_def intro!: prio_sorted_insert prio_sorted_remove)
  show ?thesis
    unfolding sched_ok_def
  proof (intro conjI allI, goal_cases)
    case 4
    show ?case using sched_okD(4) [OF ok] by (auto simp: unqueue_def)
  qed (use 1 2 3 t sched_okD [OF ok] in \<open>auto simp: unqueue_def\<close>)
qed

lemma sleeping_simps [simp]:
  "s_cnt (sleeping st k) = s_cnt k" "m_owner (sleeping st k) = m_owner k" "tref (sleeping st k) = tref k"
  "reglist (sleeping st k) = reglist k" "vtimer (sleeping st k) = vtimer k"
  "vtlist (sleeping st k) = vtlist k" "vtl_delta (sleeping st k) = vtl_delta k"
  "vtl_lasttime (sleeping st k) = vtl_lasttime k" "es_next (sleeping st k) = es_next k"
  "listener (sleeping st k) = listener k" "isr_cnt (sleeping st k) = isr_cnt k"
  "lock_cnt (sleeping st k) = lock_cnt k" "port_time (sleeping st k) = port_time k"
  "port_alarm (sleeping st k) = port_alarm k"
  "r_current (sleeping st k) = hd (queues k Q_RLIST)"
  "queues (sleeping st k) = (queues k)(Q_RLIST := tl (queues k Q_RLIST))"
  by (simp_all add: sleeping_def Let_def)

lemma thd_sleeping [simp]:
  "prio_of (sleeping st k) x = prio_of k x" "p_u (thd (sleeping st k) x) = p_u (thd k x)"
  "p_realprio (thd (sleeping st k) x) = p_realprio (thd k x)"
  "p_mtxlist (thd (sleeping st k) x) = p_mtxlist (thd k x)" "p_msg (thd (sleeping st k) x) = p_msg (thd k x)"
  "p_epending (thd (sleeping st k) x) = p_epending (thd k x)" "p_refs (thd (sleeping st k) x) = p_refs (thd k x)"
  "p_flags (thd (sleeping st k) x) = p_flags (thd k x)"
  "state_of (sleeping st k) x =
     (if x = hd (queues k Q_RLIST) then CH_STATE_CURRENT
      else if x = r_current k then st else state_of k x)"
  by (auto simp: sleeping_def Let_def)

lemma chSchGoSleepS_eq:
  assumes "class_S k" and "queues k Q_RLIST \<noteq> []"
  shows "chSchGoSleepS st k = Some (sleeping st k)"
  using assms by (cases "queues k Q_RLIST")
    (simp_all add: chSchGoSleepS_def queue_fifo_remove_def sleeping_def Let_def)

text \<open>
  The state a thread leaves behind when it has put itself into a queue, just before it sleeps:
  its queue is given as a list that adds the thread.
\<close>

lemma sched_ok_sleeping_in:
  assumes ok: "sched_ok k" and r: "queues k Q_RLIST = t # ts" and q: "q \<noteq> Q_RLIST"
    and xs: "set xs = insert (r_current k) (set (queues k q))" "distinct xs"
      "by_prio q \<Longrightarrow> prio_sorted (prio_of k) xs"
    and k': "\<And>x. prio_of k' x = prio_of k x" "\<And>x. state_of k' x = state_of k x"
      "r_current k' = r_current k" "queues k' = (queues k)(q := xs)"
  shows "sched_ok (sleeping (qstate q) k')"
proof -
  note ap = apart_same [OF sched_okD(1) [OF ok]] and di = apart_distinct [OF sched_okD(1) [OF ok]]
  have un: "r_current k \<notin> set (queues k q')" for q' using sched_okD(2) [OF ok] by (auto simp: unqueued_def)
  have tc: "t \<noteq> r_current k" using un [of Q_RLIST] r by auto
  have tq: "t \<in> set (queues k q') \<longleftrightarrow> q' = Q_RLIST" for q' using ap [of t q' Q_RLIST] r by auto
  have tts: "t \<notin> set ts" "distinct ts" using di [of Q_RLIST] r by simp_all
  have Q: "x \<in> set (((queues k)(q := xs, Q_RLIST := ts)) q') \<longleftrightarrow>
      x = r_current k \<and> q' = q \<or> x \<noteq> t \<and> x \<in> set (queues k q')" for x q'
    using xs(1) q r tts tc un tq by auto
  define K where "K = sleeping (qstate q) k'"
  have K: "queues K = (queues k)(q := xs, Q_RLIST := ts)" "r_current K = t" "prio_of K x = prio_of k x"
      "state_of K x = (if x = t then CH_STATE_CURRENT else if x = r_current k then qstate q else state_of k x)"
    for x using k' q r by (simp_all add: K_def)
  have "sched_ok K"
    unfolding sched_ok_def K
  proof (intro conjI allI, goal_cases)
    case 1
    show ?case unfolding apart_def Q using xs(2) tts di ap un by auto
  next
    case 2
    show ?case unfolding unqueued_def Q using tc by simp
  next
    case (4 q')
    show ?case unfolding Ball_def Q using tc un sched_okD(4) [OF ok] by auto
  next
    case (5 x)
    show ?case unfolding Q using sched_okD(5) [OF ok, of x] q by auto
  next
    case (6 q')
    show ?case using sched_okD(6) [OF ok, of q'] sched_okD(6) [OF ok, of Q_RLIST] xs(3) r q by auto
  qed (use sched_okD(3,7) [OF ok] in \<open>auto simp: tc\<close>)
  then show ?thesis by (simp add: K_def)
qed

lemma sched_ok_sleeping:
  assumes ok: "sched_ok k" and r: "queues k Q_RLIST = t # ts"
    and st: "st \<noteq> CH_STATE_READY" "st \<noteq> CH_STATE_CURRENT"
  shows "sched_ok (sleeping st k)"
proof -
  note ap = apart_same [OF sched_okD(1) [OF ok]] and di = apart_distinct [OF sched_okD(1) [OF ok]]
  have un: "r_current k \<notin> set (queues k q')" for q' using sched_okD(2) [OF ok] by (auto simp: unqueued_def)
  have tc: "t \<noteq> r_current k" using un [of Q_RLIST] r by auto
  have tq: "t \<in> set (queues k q') \<longleftrightarrow> q' = Q_RLIST" for q' using ap [of t q' Q_RLIST] r by auto
  have tts: "t \<notin> set ts" "distinct ts" using di [of Q_RLIST] r by simp_all
  have Q: "x \<in> set (((queues k)(Q_RLIST := ts)) q') \<longleftrightarrow> x \<noteq> t \<and> x \<in> set (queues k q')" for x q'
    using r tts tq by auto
  define K where "K = sleeping st k"
  have K: "queues K = (queues k)(Q_RLIST := ts)" "r_current K = t" "prio_of K x = prio_of k x"
      "state_of K x = (if x = t then CH_STATE_CURRENT else if x = r_current k then st else state_of k x)"
    for x using r by (simp_all add: K_def)
  have "sched_ok K"
    unfolding sched_ok_def K
  proof (intro conjI allI, goal_cases)
    case 1
    show ?case unfolding apart_def Q using tts di ap by auto
  next
    case 2
    show ?case unfolding unqueued_def Q by simp
  next
    case (4 q')
    show ?case unfolding Ball_def Q using un sched_okD(4) [OF ok] by auto
  next
    case (5 x)
    show ?case unfolding Q using sched_okD(5) [OF ok, of x] st by auto
  next
    case (6 q')
    show ?case using sched_okD(6) [OF ok, of q'] sched_okD(6) [OF ok, of Q_RLIST] r by auto
  qed (use sched_okD(3,7) [OF ok] st in \<open>auto simp: tc\<close>)
  then show ?thesis by (simp add: K_def)
qed

lemma preempted_simps [simp]:
  "s_cnt (preempted ins k) = s_cnt k" "m_owner (preempted ins k) = m_owner k"
  "tref (preempted ins k) = tref k" "reglist (preempted ins k) = reglist k"
  "vtimer (preempted ins k) = vtimer k" "vtlist (preempted ins k) = vtlist k"
  "vtl_delta (preempted ins k) = vtl_delta k" "vtl_lasttime (preempted ins k) = vtl_lasttime k"
  "es_next (preempted ins k) = es_next k" "listener (preempted ins k) = listener k"
  "isr_cnt (preempted ins k) = isr_cnt k" "lock_cnt (preempted ins k) = lock_cnt k"
  "port_time (preempted ins k) = port_time k" "port_alarm (preempted ins k) = port_alarm k"
  "r_current (preempted ins k) = hd (queues k Q_RLIST)"
  "queues (preempted ins k) =
     (queues k)(Q_RLIST := ins (prio_of k) (r_current k) (tl (queues k Q_RLIST)))"
  "prio_of (preempted ins k) x = prio_of k x" "p_u (thd (preempted ins k) x) = p_u (thd k x)"
  "p_realprio (thd (preempted ins k) x) = p_realprio (thd k x)"
  "p_mtxlist (thd (preempted ins k) x) = p_mtxlist (thd k x)"
  "p_msg (thd (preempted ins k) x) = p_msg (thd k x)"
  "p_epending (thd (preempted ins k) x) = p_epending (thd k x)"
  "p_refs (thd (preempted ins k) x) = p_refs (thd k x)"
  "p_flags (thd (preempted ins k) x) = p_flags (thd k x)"
  "state_of (preempted ins k) x =
     (if x = r_current k then CH_STATE_READY
      else if x = hd (queues k Q_RLIST) then CH_STATE_CURRENT else state_of k x)"
  by (auto simp: preempted_def Let_def)

lemma sched_ok_preempted:
  assumes ok: "sched_ok k" and r: "queues k Q_RLIST = t # ts"
    and ins: "\<And>c. set (ins (prio_of k) c ts) = insert c (set ts)"
      "\<And>c. c \<notin> set ts \<Longrightarrow> distinct ts \<Longrightarrow> distinct (ins (prio_of k) c ts)"
      "\<And>c. prio_sorted (prio_of k) ts \<Longrightarrow> prio_sorted (prio_of k) (ins (prio_of k) c ts)"
  shows "sched_ok (preempted ins k)"
proof -
  note ap = apart_same [OF sched_okD(1) [OF ok]] and di = apart_distinct [OF sched_okD(1) [OF ok]]
  have un: "r_current k \<notin> set (queues k q')" for q' using sched_okD(2) [OF ok] by (auto simp: unqueued_def)
  have tc: "t \<noteq> r_current k" using un [of Q_RLIST] r by auto
  have tq: "t \<in> set (queues k q') \<longleftrightarrow> q' = Q_RLIST" for q' using ap [of t q' Q_RLIST] r by auto
  have tts: "t \<notin> set ts" "distinct ts" "r_current k \<notin> set ts"
    using di [of Q_RLIST] r un [of Q_RLIST] by simp_all
  define K where "K = preempted ins k"
  have K: "queues K = (queues k)(Q_RLIST := ins (prio_of k) (r_current k) ts)" "r_current K = t"
      "prio_of K x = prio_of k x" "state_of K x = (if x = r_current k then CH_STATE_READY
         else if x = t then CH_STATE_CURRENT else state_of k x)"
    for x using r by (simp_all add: K_def)
  have Q: "x \<in> set (queues K q') \<longleftrightarrow> x = r_current k \<and> q' = Q_RLIST \<or> x \<noteq> t \<and> x \<in> set (queues k q')"
    for x q' using r tts tq tc ins(1) un unfolding K by auto
  have D: "distinct (queues K q')" for q' unfolding K using di ins(2) [of "r_current k"] tts by simp
  have "sched_ok K"
    unfolding sched_ok_def K(2-4)
  proof (intro conjI allI, goal_cases)
    case 1
    show ?case unfolding apart_def Q using D ap un by auto
  next
    case 2
    show ?case unfolding unqueued_def Q using tc by simp
  next
    case (4 q')
    show ?case unfolding Ball_def Q using un sched_okD(4) [OF ok] by auto
  next
    case (5 x)
    show ?case unfolding Q using sched_okD(5) [OF ok, of x] by auto
  next
    case (6 q')
    show ?case unfolding K using sched_okD(6) [OF ok, of q'] sched_okD(6) [OF ok, of Q_RLIST] r ins(3) by auto
  qed (use sched_okD(3,7) [OF ok] tc in auto)
  then show ?thesis by (simp add: K_def)
qed

lemma chSchDoRescheduleAhead_eq:
  assumes ok: "sched_ok k" and r: "queues k Q_RLIST = t # ts"
  shows "chSchDoRescheduleAhead k = Some (preempted prio_insert_ahead k)"
proof -
  have "t \<noteq> r_current k" using sched_okD(2) [OF ok] r
    unfolding unqueued_def by (metis list.set_intros(1))
  then show ?thesis using r
    by (simp add: chSchDoRescheduleAhead_def queue_fifo_remove_def preempted_def Let_def set_queue_def upd_thd_def
        fun_upd_twist fun_upd_def cong: if_cong)
qed

lemma chSchDoRescheduleBehind_eq:
  assumes ok: "sched_ok k" and cl: "class_I k" and r: "queues k Q_RLIST = t # ts"
  shows "chSchDoRescheduleBehind k = Some (preempted prio_insert k)"
proof -
  have tc: "t \<noteq> r_current k" using sched_okD(2) [OF ok] r
    unfolding unqueued_def by (metis list.set_intros(1))
  define k1 where "k1 = set_state t CH_STATE_CURRENT ((set_queue Q_RLIST ts k)\<lparr>r_current := t\<rparr>)"
  have "chSchReadyI (r_current k) k1 = Some (make_ready (r_current k) k1)"
    using cl tc sched_okD(3,7) [OF ok, of "r_current k"] by (intro chSchReadyI_eq) (auto simp: k1_def)
  moreover have "make_ready (r_current k) k1 = preempted prio_insert k"
    using tc r by (simp add: make_ready_def k1_def preempted_def Let_def set_queue_def upd_thd_def
        fun_upd_twist fun_upd_def cong: if_cong)
  ultimately show ?thesis
    using r by (simp add: chSchDoRescheduleBehind_def queue_fifo_remove_def Let_def k1_def)
qed

lemma sched_ok_preempted_ahead:
  "sched_ok k \<Longrightarrow> queues k Q_RLIST = t # ts \<Longrightarrow> sched_ok (preempted prio_insert_ahead k)"
  by (rule sched_ok_preempted) (auto intro: prio_sorted_insert_ahead)

lemma sched_ok_preempted_behind:
  "sched_ok k \<Longrightarrow> queues k Q_RLIST = t # ts \<Longrightarrow> sched_ok (preempted prio_insert k)"
  by (rule sched_ok_preempted) (auto intro: prio_sorted_insert)

text \<open>The running thread has the highest priority among the threads that can run.\<close>

definition resched_ok :: "ch_system \<Rightarrow> bool" where
  "resched_ok k \<longleftrightarrow> firstprio k \<le> prio_of k (r_current k)"

lemma resched_ok_iff:
  "resched_ok k \<longleftrightarrow> queues k Q_RLIST = [] \<or> prio_of k (hd (queues k Q_RLIST)) \<le> prio_of k (r_current k)"
  by (auto simp: resched_ok_def firstprio_def NOPRIO_def split: list.splits)

lemma resched_ok_highest:
  assumes "sched_ok k" "resched_ok k" "state_of k t = CH_STATE_READY"
  shows "prio_of k t \<le> prio_of k (r_current k)"
proof -
  have "t \<in> set (queues k Q_RLIST)" using assms(1,3) by (rule sched_okD(5))
  then show ?thesis
    using assms(2) prio_sorted_hd_max [OF sched_okD(6) [OF assms(1), of Q_RLIST], of t]
    by (cases "queues k Q_RLIST") (auto simp: resched_ok_def firstprio_def)
qed

definition rescheduled :: "ch_system \<Rightarrow> unit outcome \<times> ch_system" where
  "rescheduled k =
     (if resched_ok k then (Done (), k) else (Switched, preempted prio_insert_ahead k))"

lemma not_resched_ready: "\<not> resched_ok k \<Longrightarrow> \<exists>t ts. queues k Q_RLIST = t # ts \<and> prio_of k (r_current k) < prio_of k t"
  by (cases "queues k Q_RLIST") (auto simp: resched_ok_def firstprio_def NOPRIO_def)

lemma chSchRescheduleS_eq:
  assumes "sched_ok k" "class_S k"
  shows "chSchRescheduleS k = Some (rescheduled k)"
proof (cases "resched_ok k")
  case True
  then show ?thesis using assms class_S_I [of k]
    by (simp add: chSchRescheduleS_def chSchIsRescRequiredI_def rescheduled_def resched_ok_def not_le)
next
  case False
  then obtain t ts where "queues k Q_RLIST = t # ts" using not_resched_ready by blast
  then show ?thesis using assms class_S_I [of k] False chSchDoRescheduleAhead_eq
    by (auto simp: chSchRescheduleS_def chSchIsRescRequiredI_def rescheduled_def resched_ok_def)
qed

lemma rescheduled_sched_ok:
  assumes "sched_ok k"
  shows "sched_ok (snd (rescheduled k))"
  using assms not_resched_ready [of k] sched_ok_preempted_ahead by (auto simp: rescheduled_def)

lemma rescheduled_resched_ok:
  assumes "sched_ok k"
  shows "resched_ok (snd (rescheduled k))"
proof (cases "resched_ok k")
  case False
  then obtain t ts where r: "queues k Q_RLIST = t # ts" "prio_of k (r_current k) < prio_of k t"
    using not_resched_ready by blast
  have "prio_of k x \<le> prio_of k t" if "x \<in> set ts" for x
    using sched_okD(6) [OF assms, of Q_RLIST] r(1) that by simp
  moreover have "hd (prio_insert_ahead (prio_of k) (r_current k) ts) \<in> insert (r_current k) (set ts)"
    by (metis hd_in_set prio_insert_ahead_not_Nil set_prio_insert_ahead)
  ultimately have "prio_of k (hd (prio_insert_ahead (prio_of k) (r_current k) ts)) \<le> prio_of k t"
    using r(2) by auto
  then show ?thesis using False r
    by (cases "prio_insert_ahead (prio_of k) (r_current k) ts")
      (simp_all add: rescheduled_def resched_ok_def firstprio_def)
qed (simp add: rescheduled_def)

lemma class_rescheduled [simp]: "class_S k \<Longrightarrow> class_S (snd (rescheduled k))"
  by (simp add: rescheduled_def class_S_def)

text \<open>After a reschedule the critical zone can be left.\<close>

lemma chSysUnlock_resched: "class_S k \<Longrightarrow> resched_ok k \<Longrightarrow> chSysUnlock k = Some (k\<lparr>lock_cnt := 0\<rparr>)"
  by (rule chSysUnlock_ok) (auto simp: resched_ok_def firstprio_def split: list.splits)

lemma resched_ok_sleeping:
  assumes "sched_ok k" "queues k Q_RLIST = t # ts" "queues k' Q_RLIST = t # ts" "\<And>x. prio_of k' x = prio_of k x"
  shows "resched_ok (sleeping st k')"
  using sched_okD(6) [OF assms(1), of Q_RLIST] assms(2-)
  by (cases ts) (simp_all add: resched_ok_def firstprio_def NOPRIO_def)

subsection \<open>Waking a thread directly\<close>

definition handover :: "tid \<Rightarrow> msg_t \<Rightarrow> ch_system \<Rightarrow> ch_system" where
  "handover t u k =
     set_state t CH_STATE_CURRENT
       ((make_ready (r_current k) (set_pu t (Rdymsg u) (queue_dequeue t k)))\<lparr>r_current := t\<rparr>)"

definition wakeupS :: "tid \<Rightarrow> msg_t \<Rightarrow> ch_system \<Rightarrow> unit outcome \<times> ch_system" where
  "wakeupS t u k =
     (if prio_of k t \<le> prio_of k (r_current k) then (Done (), woken t u k) else (Switched, handover t u k))"

lemma handover_simps [simp]:
  "s_cnt (handover t u k) = s_cnt k" "m_owner (handover t u k) = m_owner k"
  "tref (handover t u k) = tref k" "reglist (handover t u k) = reglist k"
  "vtimer (handover t u k) = vtimer k" "vtlist (handover t u k) = vtlist k"
  "vtl_delta (handover t u k) = vtl_delta k" "vtl_lasttime (handover t u k) = vtl_lasttime k"
  "es_next (handover t u k) = es_next k" "listener (handover t u k) = listener k"
  "isr_cnt (handover t u k) = isr_cnt k" "lock_cnt (handover t u k) = lock_cnt k"
  "port_time (handover t u k) = port_time k" "port_alarm (handover t u k) = port_alarm k"
  "r_current (handover t u k) = t"
  "queues (handover t u k) = (unqueue t (queues k))
     (Q_RLIST := prio_insert (prio_of k) (r_current k) (unqueue t (queues k) Q_RLIST))"
  "prio_of (handover t u k) x = prio_of k x"
  "p_u (thd (handover t u k) x) = (if x = t then Rdymsg u else p_u (thd k x))"
  "p_realprio (thd (handover t u k) x) = p_realprio (thd k x)"
  "p_mtxlist (thd (handover t u k) x) = p_mtxlist (thd k x)"
  "p_msg (thd (handover t u k) x) = p_msg (thd k x)"
  "p_epending (thd (handover t u k) x) = p_epending (thd k x)"
  "p_refs (thd (handover t u k) x) = p_refs (thd k x)"
  "p_flags (thd (handover t u k) x) = p_flags (thd k x)"
  "state_of (handover t u k) x =
     (if x = t then CH_STATE_CURRENT else if x = r_current k then CH_STATE_READY else state_of k x)"
  by (auto simp: handover_def make_ready_def)

lemma chSchWakeupS_eq:
  assumes ok: "sched_ok k" and cl: "class_S k"
    and t: "t \<noteq> r_current k" "state_of k t \<noteq> CH_STATE_READY" "state_of k t \<noteq> CH_STATE_FINAL"
  shows "chSchWakeupS t u (queue_dequeue t k) = Some (wakeupS t u k)"
proof -
  let ?k = "set_pu t (Rdymsg u) (queue_dequeue t k)"
  have cls: "class_I ?k" using class_S_I [OF cl] by simp
  have "chSchReadyI t ?k = Some (woken t u k)"
    unfolding woken_def using cls t sched_okD(7) [OF ok, of t] by (intro chSchReadyI_eq) auto
  moreover have "chSchReadyI (r_current k) ?k = Some (make_ready (r_current k) ?k)"
    using cls t sched_okD(3,7) [OF ok, of "r_current k"] by (intro chSchReadyI_eq) auto
  ultimately show ?thesis
    using cl t by (simp add: chSchWakeupS_def Let_def wakeupS_def handover_def)
qed

lemma sched_ok_handover:
  assumes ok: "sched_ok k" and t: "t \<noteq> r_current k"
  shows "sched_ok (handover t u k)"
proof -
  note ap = apart_same [OF sched_okD(1) [OF ok]] and di = apart_distinct [OF sched_okD(1) [OF ok]]
  have un: "r_current k \<notin> set (queues k q')" for q' using sched_okD(2) [OF ok] by (auto simp: unqueued_def)
  have Q: "x \<in> set (queues (handover t u k) q) \<longleftrightarrow>
      x = r_current k \<and> q = Q_RLIST \<or> x \<noteq> t \<and> x \<in> set (queues k q)" for x q
    using un t by (auto simp: unqueue_def)
  show ?thesis
    unfolding sched_ok_def
  proof (intro conjI allI, goal_cases)
    case 1
    show ?case unfolding apart_def Q using di ap un by (auto simp: unqueue_def)
  next
    case 2
    show ?case unfolding unqueued_def Q using t by simp
  next
    case (4 q')
    show ?case unfolding Ball_def Q using t un sched_okD(4) [OF ok] by auto
  next
    case (5 x)
    show ?case unfolding Q using sched_okD(5) [OF ok, of x] t by auto
  next
    case (6 q)
    show ?case
      using sched_okD(6) [OF ok, of q] sched_okD(6) [OF ok, of Q_RLIST]
      by (auto simp: unqueue_def intro!: prio_sorted_insert prio_sorted_remove)
  qed (use sched_okD(3,7) [OF ok] in auto)
qed

lemma sched_ok_wakeupS:
  "sched_ok k \<Longrightarrow> t \<noteq> r_current k \<Longrightarrow> sched_ok (snd (wakeupS t u k))"
  using sched_ok_woken sched_ok_handover by (simp add: wakeupS_def)

lemma class_wakeupS [simp]: "class_S (snd (wakeupS t u k)) = class_S k"
  by (simp add: wakeupS_def class_S_def)

subsection \<open>What a waiting thread waits for\<close>

text \<open>
  \<open>wait_ok\<close> ties the state of a thread to the union \<open>p_u\<close> and to the object it waits on; the
  time-out callback and the wakeup functions rely on it.
\<close>

fun obj_wait :: "tstate_t \<Rightarrow> bool" where
  "obj_wait CH_STATE_WTSEM \<longleftrightarrow> True"
| "obj_wait CH_STATE_WTMTX \<longleftrightarrow> True"
| "obj_wait CH_STATE_WTCOND \<longleftrightarrow> True"
| "obj_wait CH_STATE_SNDMSGQ \<longleftrightarrow> True"
| "obj_wait _ \<longleftrightarrow> False"

definition waits_at :: "(qid \<Rightarrow> tid list) \<Rightarrow> (nat \<Rightarrow> tid option) \<Rightarrow> tid \<Rightarrow> tstate_t \<Rightarrow> p_union \<Rightarrow> bool" where
  "waits_at Q R t st u \<longleftrightarrow>
     (obj_wait st \<longrightarrow> (case u of Wtobjp q \<Rightarrow> qstate q = st \<and> t \<in> set (Q q) | _ \<Rightarrow> False)) \<and>
     (st = CH_STATE_SUSPENDED \<longrightarrow> (case u of Wttrp r \<Rightarrow> R r = Some t | _ \<Rightarrow> False)) \<and>
     (st = CH_STATE_WTOREVT \<or> st = CH_STATE_WTANDEVT \<longrightarrow> (case u of Ewmask m \<Rightarrow> True | _ \<Rightarrow> False))"

definition wait_ok :: "ch_system \<Rightarrow> bool" where
  "wait_ok k \<longleftrightarrow>
     (\<forall>t. waits_at (queues k) (tref k) t (state_of k t) (p_u (thd k t))) \<and>
     (\<forall>r t. tref k r = Some t \<longrightarrow> state_of k t = CH_STATE_SUSPENDED \<and> p_u (thd k t) = Wttrp r)"

definition sem_ok :: "ch_system \<Rightarrow> bool" where
  "sem_ok k \<longleftrightarrow> (\<forall>s. length (queues k (Q_SEM s)) = nat (- s_cnt k s))"

definition kernel_ok :: "ch_system \<Rightarrow> bool" where
  "kernel_ok k \<longleftrightarrow> sched_ok k \<and> wait_ok k \<and> sem_ok k"

lemma waits_at_idle [simp]:
  "waits_at Q R t CH_STATE_READY u" "waits_at Q R t CH_STATE_CURRENT u"
  "waits_at Q R t CH_STATE_WTSTART u" "waits_at Q R t CH_STATE_FINAL u"
  "waits_at Q R t CH_STATE_SLEEPING u" "waits_at Q R t CH_STATE_WTEXIT u" 
  "waits_at Q R t CH_STATE_QUEUED u" "waits_at Q R t CH_STATE_SNDMSG u" "waits_at Q R t CH_STATE_WTMSG u"
  by (simp_all add: waits_at_def)

lemma waits_at_mono:
  assumes "waits_at Q R t st u" and "\<And>q. t \<in> set (Q q) \<Longrightarrow> t \<in> set (Q' q)"
    and "\<And>r. R r = Some t \<Longrightarrow> R' r = Some t"
  shows "waits_at Q' R' t st u"
  using assms by (auto simp: waits_at_def split: p_union.splits)

lemmas waits_at_upd = waits_at_mono [where Q = "queues k" and R = "tref k" for k]

lemma wait_okD:
  assumes "wait_ok k"
  shows "waits_at (queues k) (tref k) t (state_of k t) (p_u (thd k t))"
    "tref k r = Some t \<Longrightarrow> state_of k t = CH_STATE_SUSPENDED \<and> p_u (thd k t) = Wttrp r"
  using assms by (auto simp: wait_ok_def)

lemma kernel_okD: assumes "kernel_ok k" shows "sched_ok k" "wait_ok k" "sem_ok k"
  using assms by (simp_all add: kernel_ok_def)

text \<open>Waking \<open>t\<close> is sound as soon as every other thread waits as it should.\<close>

definition wait_ok_but :: "tid \<Rightarrow> ch_system \<Rightarrow> bool" where
  "wait_ok_but t k \<longleftrightarrow>
     (\<forall>x. x \<noteq> t \<longrightarrow> waits_at (queues k) (tref k) x (state_of k x) (p_u (thd k x))) \<and>
     (\<forall>r x. tref k r = Some x \<longrightarrow> x \<noteq> t \<and> state_of k x = CH_STATE_SUSPENDED \<and> p_u (thd k x) = Wttrp r)"

lemma wait_ok_but: "wait_ok k \<Longrightarrow> state_of k t \<noteq> CH_STATE_SUSPENDED \<Longrightarrow> wait_ok_but t k"
  by (auto simp: wait_ok_but_def wait_ok_def)

lemma wait_ok_but_suspended:
  assumes "wait_ok k" and "tref k r = Some t"
  shows "wait_ok_but t (k\<lparr>tref := (tref k)(r := None)\<rparr>)"
proof -
  have t: "p_u (thd k t) = Wttrp r" using wait_okD(2) [OF assms] by simp
  have "waits_at (queues k) ((tref k)(r := None)) x (state_of k x) (p_u (thd k x))" if "x \<noteq> t" for x
    by (rule waits_at_upd [of k]) (use wait_okD(1) [OF assms(1)] assms(2) that in auto)
  moreover have "x \<noteq> t" if "tref k q = Some x" "q \<noteq> r" for q x
    using wait_okD(2) [OF assms(1) that(1)] that t by auto
  ultimately show ?thesis using wait_okD(2) [OF assms(1)] by (auto simp: wait_ok_but_def)
qed

lemma wait_ok_woken:
  assumes "wait_ok_but t k"
  shows "wait_ok (woken t u k)"
proof -
  have "waits_at (queues (woken t u k)) (tref k) x (state_of k x) (p_u (thd k x))" if "x \<noteq> t" for x
    by (rule waits_at_upd [of k]) (use assms that in \<open>auto simp: wait_ok_but_def unqueue_def\<close>)
  then show ?thesis using assms by (auto simp: wait_ok_def wait_ok_but_def)
qed

lemma wait_ok_handover:
  assumes "wait_ok_but t k" and "state_of k (r_current k) \<noteq> CH_STATE_SUSPENDED"
  shows "wait_ok (handover t u k)"
proof -
  have "waits_at (queues (handover t u k)) (tref k) x (state_of k x) (p_u (thd k x))" if "x \<noteq> t" for x
    by (rule waits_at_upd [of k]) (use assms that in \<open>auto simp: wait_ok_but_def unqueue_def\<close>)
  then show ?thesis using assms by (auto simp: wait_ok_def wait_ok_but_def)
qed

lemma wait_ok_wakeupS:
  "sched_ok k \<Longrightarrow> wait_ok_but t k \<Longrightarrow> wait_ok (snd (wakeupS t u k))"
  using wait_ok_woken wait_ok_handover sched_okD(3) [of k "r_current k"] by (auto simp: wakeupS_def)

lemma wait_ok_preempted:
  assumes "wait_ok k" "sched_ok k" "queues k Q_RLIST = t # ts"
    "\<And>c. set (ins (prio_of k) c ts) = insert c (set ts)"
  shows "wait_ok (preempted ins k)"
proof -
  have "waits_at (queues (preempted ins k)) (tref k) x (state_of k x) (p_u (thd k x))" if "x \<noteq> t" for x
    by (rule waits_at_upd [of k]) (use assms that in \<open>auto simp: wait_ok_def\<close>)
  moreover have "state_of k t = CH_STATE_READY" "state_of k (r_current k) = CH_STATE_CURRENT"
    using sched_okD(4) [OF assms(2), of t Q_RLIST] sched_okD(3) [OF assms(2)] assms(3) by auto
  ultimately show ?thesis using assms by (auto simp: wait_ok_def)
qed

lemma wait_ok_rescheduled: "wait_ok k \<Longrightarrow> sched_ok k \<Longrightarrow> wait_ok (snd (rescheduled k))"
  using not_resched_ready [of k] wait_ok_preempted by (auto simp: rescheduled_def)

lemma wait_ok_sleeping:
  assumes "\<And>x. x \<noteq> r_current k \<Longrightarrow> waits_at (queues k) (tref k) x (state_of k x) (p_u (thd k x))"
    and "waits_at (queues k) (tref k) (r_current k) st (p_u (thd k (r_current k)))"
    and "\<And>r x. tref k r = Some x \<Longrightarrow>
      (if x = r_current k then st else state_of k x) = CH_STATE_SUSPENDED \<and> p_u (thd k x) = Wttrp r"
    and "queues k Q_RLIST = t # ts" "t \<noteq> r_current k" "state_of k t = CH_STATE_READY"
  shows "wait_ok (sleeping st k)"
proof -
  have "waits_at (queues (sleeping st k)) (tref k) x (if x = r_current k then st else state_of k x)
      (p_u (thd k x))" if "x \<noteq> t" for x
    by (rule waits_at_upd [of k]) (use assms(1,2,4-) that in auto)
  moreover have "x \<noteq> t" if "tref k r = Some x" for r x
    using assms(3) [OF that] assms(5,6) by auto
  ultimately show ?thesis using assms(3-) by (auto simp: wait_ok_def split: if_splits)
qed

lemma sem_ok_simps [simp]:
  "sem_ok (woken t u k) = sem_ok (queue_dequeue t k)"
  "sem_ok (handover t u k) = sem_ok (queue_dequeue t k)"
  "sem_ok (sleeping st k) = sem_ok k" "sem_ok (preempted ins k) = sem_ok k"
  "sem_ok (snd (rescheduled k)) = sem_ok k"
  "sem_ok (snd (wakeupS t u k)) = sem_ok (queue_dequeue t k)"
  by (auto simp: sem_ok_def wakeupS_def rescheduled_def)

lemma sem_ok_dequeue: "sem_ok k \<Longrightarrow> (\<And>s. t \<notin> set (queues k (Q_SEM s))) \<Longrightarrow> sem_ok (queue_dequeue t k)"
  by (simp add: sem_ok_def unqueue_def)

lemma not_sem_queue: "sched_ok k \<Longrightarrow> state_of k t \<noteq> CH_STATE_WTSEM \<Longrightarrow> t \<notin> set (queues k (Q_SEM s))"
  using sched_okD(4) [of k t "Q_SEM s"] by auto

lemma kernel_ok_rescheduled: "kernel_ok k \<Longrightarrow> kernel_ok (snd (rescheduled k))"
  by (simp add: kernel_ok_def rescheduled_sched_ok wait_ok_rescheduled)

lemma kernel_ok_woken:
  assumes "sched_ok k" "wait_ok_but t k" "t \<noteq> r_current k" "sem_ok (queue_dequeue t k)"
  shows "kernel_ok (woken t u k)"
  using assms sched_ok_woken wait_ok_woken by (simp add: kernel_ok_def)

lemma kernel_ok_wakeupS:
  assumes "sched_ok k" "wait_ok_but t k" "t \<noteq> r_current k" "sem_ok (queue_dequeue t k)"
  shows "kernel_ok (snd (wakeupS t u k))"
  using assms sched_ok_wakeupS wait_ok_wakeupS by (simp add: kernel_ok_def)

subsection \<open>Going to sleep, with and without a time-out\<close>

lemma kernel_ok_core: "core k' = core k \<Longrightarrow> kernel_ok k' = kernel_ok k"
  by (simp add: kernel_ok_def sched_ok_def wait_ok_def sem_ok_def coreD(1-7) [of k' k])

lemma kernel_ok_cong:
  assumes "\<And>x. state_of k' x = state_of k x" "\<And>x. p_u (thd k' x) = p_u (thd k x) \<or> state_of k x = CH_STATE_READY"
    "\<And>x. prio_of k' x = prio_of k x" "queues k' = queues k" "r_current k' = r_current k" "tref k' = tref k"
    "s_cnt k' = s_cnt k" "kernel_ok k"
  shows "kernel_ok k'"
proof -
  have "waits_at (queues k) (tref k) x (state_of k x) (p_u (thd k' x))" for x
    using assms(2) [of x] wait_okD(1) [OF kernel_okD(2) [OF assms(8)], of x] by auto
  moreover have "p_u (thd k' x) = p_u (thd k x)" if "state_of k x = CH_STATE_SUSPENDED" for x
    using assms(2) [of x] that by auto
  ultimately have "wait_ok k'"
    using wait_okD(2) [OF kernel_okD(2) [OF assms(8)]] by (auto simp: wait_ok_def assms)
  then show ?thesis
    using assms(8) by (simp add: kernel_ok_def sched_ok_def sem_ok_def assms(1,3-7))
qed

lemma kernel_ok_lock_cnt [simp]:
  "kernel_ok (k\<lparr>lock_cnt := n\<rparr>) = kernel_ok k" "sched_ok (k\<lparr>lock_cnt := n\<rparr>) = sched_ok k"
  "resched_ok (k\<lparr>lock_cnt := n\<rparr>) = resched_ok k"
  by (simp_all add: kernel_ok_def sched_ok_def wait_ok_def sem_ok_def resched_ok_def firstprio_def
      split: list.splits)

lemma vt_ok_simps [simp]:
  "vt_ok (upd_thd t f k) = vt_ok k" "vt_ok (set_queue q xs k) = vt_ok k"
  "vt_ok (queue_dequeue t k) = vt_ok k" "vt_ok (woken t u k) = vt_ok k"
  "vt_ok (sleeping st k) = vt_ok k" "vt_ok (preempted ins k) = vt_ok k"
  "vt_ok (handover t u k) = vt_ok k" "vt_ok (k\<lparr>tref := R\<rparr>) = vt_ok k" "vt_ok (k\<lparr>s_cnt := c\<rparr>) = vt_ok k"
  "vt_ok (k\<lparr>lock_cnt := n\<rparr>) = vt_ok k" "vt_ok (k\<lparr>m_owner := ow\<rparr>) = vt_ok k"
  "vt_remaining (upd_thd t f k) = vt_remaining k" "vt_remaining (set_queue q xs k) = vt_remaining k"
  "vt_remaining (sleeping st k) = vt_remaining k" "vt_remaining (k\<lparr>s_cnt := c\<rparr>) = vt_remaining k"
  "vt_remaining (k\<lparr>tref := R\<rparr>) = vt_remaining k"
  by (simp_all add: vt_ok_def vt_remaining_def vt_elapsed_def)

text \<open>
  The conditions under which the current thread can block: it is inside a critical zone, some
  other thread is ready (the idle thread always is), and, for a finite time-out, its timer is
  free and the time-out fits in the system time ahead of the oldest timer.
\<close>

definition can_sleep :: "systime_t \<Rightarrow> ch_system \<Rightarrow> bool" where
  "can_sleep time k \<longleftrightarrow>
     class_S k \<and> queues k Q_RLIST \<noteq> [] \<and>
     (time \<noteq> TIME_INFINITE \<longrightarrow>
        time \<noteq> TIME_IMMEDIATE \<and> vt_ok k \<and> Vt_thd (r_current k) \<notin> set (vtlist k) \<and>
        vt_elapsed k + unat (vt_delay time) < 2 ^ 32)"

text \<open>\<open>k1\<close> is \<open>k\<close> with the time-out of the current thread armed.\<close>

definition timed :: "systime_t \<Rightarrow> ch_system \<Rightarrow> ch_system \<Rightarrow> bool" where
  "timed time k k1 \<longleftrightarrow>
     core k1 = core k \<and>
     (if time = TIME_INFINITE then k1 = k
      else vt_ok k1 \<and> vt_func (vtimer k1 (Vt_thd (r_current k))) = Some Vt_wakeup \<and>
        vt_par (vtimer k1 (Vt_thd (r_current k))) = r_current k \<and>
        vt_remaining k1 =
          insert_due (Vt_thd (r_current k)) (int (unat (vt_delay time))) (vt_remaining k))"

lemma can_sleep_simps [simp]:
  "can_sleep time (upd_thd t f k) = can_sleep time k"
  "q \<noteq> Q_RLIST \<Longrightarrow> can_sleep time (set_queue q xs k) = can_sleep time k"
  "can_sleep time (k\<lparr>tref := R\<rparr>) = can_sleep time k" "can_sleep time (k\<lparr>s_cnt := c\<rparr>) = can_sleep time k"
  by (simp_all add: can_sleep_def vt_elapsed_def)

lemma can_sleep_class: "can_sleep time k \<Longrightarrow> class_S k"
  by (simp add: can_sleep_def)

lemma chSchGoSleepTimeoutS_ok:
  assumes "can_sleep time k"
  shows "\<exists>k1. chSchGoSleepTimeoutS st time k = Some (sleeping st k1) \<and> timed time k k1"
proof (cases "time = TIME_INFINITE")
  case True
  then show ?thesis using assms
    by (auto simp: can_sleep_def chSchGoSleepTimeoutS_def chSchGoSleepS_eq timed_def)
next
  case False
  then obtain k1 where k1: "chVTDoSetI (Vt_thd (r_current k)) time Vt_wakeup (r_current k) k = Some k1"
      "vt_ok k1" "core k1 = core k" "vt_func (vtimer k1 (Vt_thd (r_current k))) = Some Vt_wakeup"
      "vt_par (vtimer k1 (Vt_thd (r_current k))) = r_current k"
      "vt_remaining k1 = insert_due (Vt_thd (r_current k)) (int (unat (vt_delay time))) (vt_remaining k)"
    using assms chVTDoSetI_ok [of k time "Vt_thd (r_current k)" Vt_wakeup "r_current k"]
    by (auto simp: can_sleep_def class_S_I)
  then have "chSchGoSleepS st k1 = Some (sleeping st k1)"
    using assms coreD(2) [OF k1(3)] class_core [OF k1(3)]
    by (intro chSchGoSleepS_eq) (auto simp: can_sleep_def)
  then show ?thesis using assms k1 False
    by (auto simp: can_sleep_def chSchGoSleepTimeoutS_def timed_def)
qed

text \<open>The current thread leaves the processor and every invariant holds again.\<close>

lemma kernel_ok_sleeping_in:
  assumes ok: "kernel_ok k" and ne: "queues k Q_RLIST \<noteq> []" and q: "q \<noteq> Q_RLIST" "obj_wait (qstate q)"
    and xs: "set xs = insert (r_current k) (set (queues k q))" "distinct xs"
      "by_prio q \<Longrightarrow> prio_sorted (prio_of k) xs"
    and k1: "core k1 = core (set_queue q xs (set_pu (r_current k) (Wtobjp q) k')) "
    and k': "\<And>x. prio_of k' x = prio_of k x" "\<And>x. state_of k' x = state_of k x"
      "\<And>x. p_u (thd k' x) = p_u (thd k x)" "tref k' = tref k"
      "r_current k' = r_current k" "queues k' = queues k"
    and sem: "sem_ok k1"
  shows "kernel_ok (sleeping (qstate q) k1)"
proof -
  obtain t ts where r: "queues k Q_RLIST = t # ts" using ne by (cases "queues k Q_RLIST") auto
  have c1: "\<And>x. prio_of k1 x = prio_of k x" "\<And>x. state_of k1 x = state_of k x"
      "r_current k1 = r_current k" "queues k1 = (queues k)(q := xs)" "tref k1 = tref k"
      "\<And>x. p_u (thd k1 x) = (if x = r_current k then Wtobjp q else p_u (thd k x))"
    using k' by (simp_all add: coreD(1-7) [OF k1])
  note s = kernel_okD(1) [OF ok] and w = kernel_okD(2) [OF ok]
  have t: "state_of k t = CH_STATE_READY" "t \<noteq> r_current k"
    using sched_okD(4) [OF s, of t Q_RLIST] sched_okD(3) [OF s, of t] r by auto
  have "waits_at (queues k1) (tref k1) x (state_of k x) (p_u (thd k x))" for x
    by (rule waits_at_upd [of k]) (use wait_okD(1) [OF w, of x] xs(1) c1 in auto)
  moreover have "state_of k (r_current k) \<noteq> CH_STATE_SUSPENDED" using sched_okD(3) [OF s, of "r_current k"] by simp
  moreover have "waits_at (queues k1) (tref k1) (r_current k1) (qstate q) (p_u (thd k1 (r_current k1)))"
    using c1 xs(1) q by (auto simp: waits_at_def)
  ultimately have "wait_ok (sleeping (qstate q) k1)"
    using r t c1 q wait_okD(2) [OF w] by (intro wait_ok_sleeping [where t = t and ts = ts]) auto
  then show ?thesis
    using sched_ok_sleeping_in [OF s r q(1) xs c1(1-4)] sem by (simp add: kernel_ok_def)
qed

text \<open>The same for a thread that waits in no queue, or in a queue its union does not name.\<close>

lemma kernel_ok_sleeping:
  assumes ok: "kernel_ok k" and ne: "queues k Q_RLIST \<noteq> []"
    and st: "st \<noteq> CH_STATE_READY" "st \<noteq> CH_STATE_CURRENT"
    and k1: "\<And>x. prio_of k1 x = prio_of k x" "\<And>x. state_of k1 x = state_of k x"
      "r_current k1 = r_current k" "s_cnt k1 = s_cnt k"
      "\<And>x. x \<noteq> r_current k \<Longrightarrow> p_u (thd k1 x) = p_u (thd k x)"
    and Q: "queues k1 = queues k \<or>
      (\<exists>q xs. queues k1 = (queues k)(q := xs) \<and> qstate q = st \<and> \<not> by_prio q \<and> (\<forall>s. q \<noteq> Q_SEM s) \<and>
        distinct xs \<and> set xs = insert (r_current k) (set (queues k q)))"
    and w: "waits_at (queues k1) (tref k1) (r_current k) st (p_u (thd k1 (r_current k)))"
    and R: "tref k1 = tref k \<or> (\<exists>r. tref k r = None \<and> tref k1 = (tref k)(r := Some (r_current k)) \<and>
      st = CH_STATE_SUSPENDED \<and> p_u (thd k1 (r_current k)) = Wttrp r)"
  shows "kernel_ok (sleeping st k1)"
proof -
  obtain t ts where r: "queues k Q_RLIST = t # ts" using ne by (cases "queues k Q_RLIST") auto
  note s = kernel_okD(1) [OF ok] and w0 = kernel_okD(2) [OF ok]
  have t: "state_of k t = CH_STATE_READY" "t \<noteq> r_current k"
    using sched_okD(4) [OF s, of t Q_RLIST] sched_okD(3) [OF s, of t] r by auto
  have rl: "queues k1 Q_RLIST = t # ts" using Q r st by auto
  have "waits_at (queues k1) (tref k1) x (state_of k x) (p_u (thd k x))" if "x \<noteq> r_current k" for x
    by (rule waits_at_upd [of k]) (use wait_okD(1) [OF w0, of x] Q R that in auto)
  moreover have "state_of k (r_current k) \<noteq> CH_STATE_SUSPENDED" using sched_okD(3) [OF s, of "r_current k"] by simp
  then have "(if x = r_current k then st else state_of k x) = CH_STATE_SUSPENDED \<and> p_u (thd k1 x) = Wttrp r"
    if "tref k1 r = Some x" for x r
    using R wait_okD(2) [OF w0, of r x] that k1(5) [of x] by (auto split: if_splits)
  ultimately have "wait_ok (sleeping st k1)"
    using rl t k1(5) w unfolding k1(3) [symmetric] k1(2) [symmetric]
    by (intro wait_ok_sleeping [where t = t and ts = ts]) (simp_all add: k1(2,3))
  moreover have "sched_ok (sleeping st k1)"
    using Q
  proof
    assume "queues k1 = queues k"
    then have "sched_ok k1" using s k1 by (simp add: sched_ok_def)
    then show ?thesis using rl st by (rule sched_ok_sleeping)
  next
    assume "\<exists>q xs. queues k1 = (queues k)(q := xs) \<and> qstate q = st \<and> \<not> by_prio q \<and> (\<forall>s. q \<noteq> Q_SEM s) \<and>
        distinct xs \<and> set xs = insert (r_current k) (set (queues k q))"
    then obtain q xs where "queues k1 = (queues k)(q := xs)" "qstate q = st" "\<not> by_prio q"
        "distinct xs" "set xs = insert (r_current k) (set (queues k q))" by blast
    then show ?thesis using sched_ok_sleeping_in [OF s r, of q xs k1] k1 st(1) by auto
  qed
  moreover have "sem_ok k1" using kernel_okD(3) [OF ok] Q k1(4) by (auto simp: sem_ok_def)
  ultimately show ?thesis by (simp add: kernel_ok_def)
qed

subsection \<open>The time-out callback\<close>

fun timed_wait :: "tstate_t \<Rightarrow> bool" where
  "timed_wait CH_STATE_SUSPENDED \<longleftrightarrow> True"
| "timed_wait CH_STATE_WTSEM \<longleftrightarrow> True"
| "timed_wait CH_STATE_WTCOND \<longleftrightarrow> True"
| "timed_wait CH_STATE_QUEUED \<longleftrightarrow> True"
| "timed_wait CH_STATE_SLEEPING \<longleftrightarrow> True"
| "timed_wait CH_STATE_WTOREVT \<longleftrightarrow> True"
| "timed_wait CH_STATE_WTANDEVT \<longleftrightarrow> True"
| "timed_wait _ \<longleftrightarrow> False"

text \<open>What a time-out does to the object the thread was waiting on.\<close>

definition timeout_obj :: "tid \<Rightarrow> ch_system \<Rightarrow> ch_system" where
  "timeout_obj t k =
     (case p_u (thd k t) of
        Wttrp r \<Rightarrow> if state_of k t = CH_STATE_SUSPENDED then k\<lparr>tref := (tref k)(r := None)\<rparr> else k
      | Wtobjp (Q_SEM s) \<Rightarrow>
          if state_of k t = CH_STATE_WTSEM then k\<lparr>s_cnt := (s_cnt k)(s := s_cnt k s + 1)\<rparr> else k
      | _ \<Rightarrow> k)"

lemma queue_dequeue_unqueued: "unqueued t (queues k) \<Longrightarrow> queue_dequeue t k = k"
  by (simp add: queue_dequeue_def unqueue_unqueued)

lemma timed_wait_unqueued:
  assumes "sched_ok k" "timed_wait (state_of k t)"
    "state_of k t \<noteq> CH_STATE_WTSEM" "state_of k t \<noteq> CH_STATE_WTCOND" "state_of k t \<noteq> CH_STATE_QUEUED"
  shows "unqueue t (queues k) = queues k"
proof (rule unqueue_unqueued, rule sched_ok_unqueued [OF assms(1)])
  fix q show "state_of k t \<noteq> qstate q" using assms(2-) by (cases q; cases "state_of k t"; simp)
qed

text \<open>Taking a thread away from the object it waits on leaves everything in order for waking it.\<close>

lemma sem_waiter:
  assumes "kernel_ok k" "state_of k t = CH_STATE_WTSEM"
  obtains i where "p_u (thd k t) = Wtobjp (Q_SEM i)" "t \<in> set (queues k (Q_SEM i))" "s_cnt k i < 0"
proof -
  obtain q where "p_u (thd k t) = Wtobjp q" "qstate q = CH_STATE_WTSEM" "t \<in> set (queues k q)"
    using wait_okD(1) [OF kernel_okD(2) [OF assms(1)], of t] assms(2)
    by (auto simp: waits_at_def split: p_union.splits)
  then obtain i where i: "p_u (thd k t) = Wtobjp (Q_SEM i)" "t \<in> set (queues k (Q_SEM i))"
    by (cases q) auto
  moreover have "s_cnt k i < 0"
    using kernel_okD(3) [OF assms(1)] length_pos_if_in_set [OF i(2)] unfolding sem_ok_def
    by (metis neg_0_less_iff_less zero_less_nat_eq)
  ultimately show thesis by (rule that)
qed

lemma suspended_ref:
  assumes "wait_ok k" "state_of k t = CH_STATE_SUSPENDED"
  obtains r where "p_u (thd k t) = Wttrp r" "tref k r = Some t"
  using wait_okD(1) [OF assms(1), of t] assms(2) by (auto simp: waits_at_def split: p_union.splits)

lemma timeout_obj_sem:
  assumes ok: "kernel_ok k" and t: "state_of k t = CH_STATE_WTSEM"
  shows "sem_ok (queue_dequeue t (timeout_obj t k))" "wait_ok_but t (timeout_obj t k)" "sched_ok (timeout_obj t k)"
proof -
  note s = kernel_okD(1) [OF ok]
  obtain i where i: "p_u (thd k t) = Wtobjp (Q_SEM i)" "t \<in> set (queues k (Q_SEM i))" "s_cnt k i < 0"
    using sem_waiter [OF ok t] .
  have e: "timeout_obj t k = k\<lparr>s_cnt := (s_cnt k)(i := s_cnt k i + 1)\<rparr>"
    using t i by (simp add: timeout_obj_def)
  have len: "length (queues k (Q_SEM j)) = nat (- s_cnt k j)" for j
    using kernel_okD(3) [OF ok] by (simp add: sem_ok_def)
  have "Suc (length (filter (\<lambda>x. x \<noteq> t) (queues k (Q_SEM i)))) = length (queues k (Q_SEM i))"
    using i(2) apart_distinct [OF sched_okD(1) [OF s], of "Q_SEM i"] by (intro length_filter_neq)
  moreover have "j \<noteq> i \<Longrightarrow> t \<notin> set (queues k (Q_SEM j))" for j
    using apart_same [OF sched_okD(1) [OF s], of t "Q_SEM j" "Q_SEM i"] i by auto
  ultimately show "sem_ok (queue_dequeue t (timeout_obj t k))"
    using len i(3) unfolding e by (auto simp: sem_ok_def unqueue_def)
  show "sched_ok (timeout_obj t k)" using s by (simp add: e sched_ok_def)
  show "wait_ok_but t (timeout_obj t k)"
    using wait_ok_but [OF kernel_okD(2) [OF ok], of t] t by (simp add: e wait_ok_but_def)
qed

lemma timeout_obj_ok:
  assumes ok: "kernel_ok k" and t: "timed_wait (state_of k t)"
  shows "sem_ok (queue_dequeue t (timeout_obj t k))" "wait_ok_but t (timeout_obj t k)" "sched_ok (timeout_obj t k)"
proof -
  note s = kernel_okD(1) [OF ok] and w = kernel_okD(2) [OF ok] and se = kernel_okD(3) [OF ok]
  have "sem_ok (queue_dequeue t (timeout_obj t k)) \<and> wait_ok_but t (timeout_obj t k) \<and>
      sched_ok (timeout_obj t k)" if ns: "state_of k t \<noteq> CH_STATE_WTSEM"
  proof (cases "state_of k t = CH_STATE_SUSPENDED")
    case True
    then obtain r where r: "p_u (thd k t) = Wttrp r" "tref k r = Some t" using suspended_ref [OF w] by blast
    have e: "timeout_obj t k = k\<lparr>tref := (tref k)(r := None)\<rparr>" using True r by (simp add: timeout_obj_def)
    have "sched_ok (k\<lparr>tref := (tref k)(r := None)\<rparr>)" using s by (simp add: sched_ok_def)
    moreover have "sem_ok (queue_dequeue t (k\<lparr>tref := (tref k)(r := None)\<rparr>))"
      using se not_sem_queue [OF s ns] by (simp add: sem_ok_def unqueue_def)
    ultimately show ?thesis using wait_ok_but_suspended [OF w r(2)] by (simp add: e)
  next
    case False
    then have "timeout_obj t k = k"
      using ns by (auto simp: timeout_obj_def split: p_union.splits qid.splits)
    moreover have "sem_ok (queue_dequeue t k)"
      using sem_ok_dequeue [OF se] not_sem_queue [OF s ns] by blast
    ultimately show ?thesis using wait_ok_but [OF w False] s by simp
  qed
  then show "sem_ok (queue_dequeue t (timeout_obj t k))" "wait_ok_but t (timeout_obj t k)"
      "sched_ok (timeout_obj t k)"
    using timeout_obj_sem [OF ok, of t] by blast+
qed

lemma timeout_obj_same [simp]:
  "thd (timeout_obj t k) = thd k" "r_current (timeout_obj t k) = r_current k"
  "queues (timeout_obj t k) = queues k" "isr_cnt (timeout_obj t k) = isr_cnt k"
  "lock_cnt (timeout_obj t k) = lock_cnt k"
  by (auto simp: timeout_obj_def split: p_union.splits qid.splits)

lemma timed_wait_not_current: "sched_ok k \<Longrightarrow> timed_wait (state_of k t) \<Longrightarrow> t \<noteq> r_current k"
  using sched_okD(3) [of k t] by auto

lemma kernel_ok_timeout:
  assumes ok: "kernel_ok k" and t: "timed_wait (state_of k t)"
  shows "kernel_ok (woken t u (timeout_obj t k))" "kernel_ok (snd (wakeupS t u (timeout_obj t k)))"
  using timeout_obj_ok [OF assms] timed_wait_not_current [OF kernel_okD(1) [OF ok] t]
  by (simp_all add: kernel_ok_woken kernel_ok_wakeupS)

lemma cnt_fits_neg: "n < 0 \<Longrightarrow> - (2 ^ 31) \<le> n \<Longrightarrow> cnt_fits (n + 1)"
  by (simp add: cnt_fits_def)

definition cnts_fit :: "ch_system \<Rightarrow> bool" where
  "cnts_fit k \<longleftrightarrow> (\<forall>s. cnt_fits (s_cnt k s))"

lemma wakeup_ready: "class_isr k \<Longrightarrow> state_of k t = CH_STATE_READY \<Longrightarrow> wakeup t k = Some (k\<lparr>lock_cnt := 0\<rparr>)"
  by (simp add: wakeup_def chSysLockFromISR_ok chSysUnlockFromISR_ok class_isr_def)

text \<open>The \<open>switch\<close> statement of \<open>wakeup\<close> on a thread that waits with a time-out.\<close>

lemma wakeup_switch:
  assumes ok: "kernel_ok k" and cf: "cnts_fit k" and cl: "class_I k" and t: "timed_wait (state_of k t)"
  shows "(case state_of k t of
            CH_STATE_SUSPENDED \<Rightarrow>
              (case p_u (thd k t) of
                 Wttrp r \<Rightarrow> Some (k\<lparr>tref := (tref k)(r := None)\<rparr>) | _ \<Rightarrow> None)
          | CH_STATE_WTSEM \<Rightarrow>
              (case p_u (thd k t) of
                 Wtobjp (Q_SEM s) \<Rightarrow>
                   do { k \<leftarrow> chSemFastSignalI s k; Some (queue_dequeue t k) }
               | _ \<Rightarrow> None)
          | CH_STATE_WTCOND \<Rightarrow> Some (queue_dequeue t k)
          | CH_STATE_QUEUED \<Rightarrow> Some (queue_dequeue t k)
          | _ \<Rightarrow> Some k) = Some (queue_dequeue t (timeout_obj t k))"
proof -
  note s = kernel_okD(1) [OF ok]
  consider (sem) "state_of k t = CH_STATE_WTSEM" | (sus) "state_of k t = CH_STATE_SUSPENDED"
    | (other) "state_of k t \<noteq> CH_STATE_SUSPENDED" "state_of k t \<noteq> CH_STATE_WTSEM" by blast
  then show ?thesis
  proof cases
    case sem
    then obtain i where i: "p_u (thd k t) = Wtobjp (Q_SEM i)" "s_cnt k i < 0" using sem_waiter [OF ok] by metis
    then have "cnt_add (s_cnt k i) 1 = Some (s_cnt k i + 1)"
      using cf unfolding cnts_fit_def by (intro cnt_add_fits cnt_fits_neg) (auto simp: cnt_fits_def)
    then show ?thesis using i sem cl by (simp add: chSemFastSignalI_def timeout_obj_def)
  next
    case sus
    then obtain r where r: "p_u (thd k t) = Wttrp r" using suspended_ref [OF kernel_okD(2) [OF ok]] by metis
    have "queue_dequeue t (timeout_obj t k) = timeout_obj t k"
      using timed_wait_unqueued [OF s t] sus by (simp add: queue_dequeue_def timeout_obj_def r)
    then show ?thesis using sus r by (simp add: timeout_obj_def)
  next
    case other
    then have "timeout_obj t k = k"
      by (auto simp: timeout_obj_def split: p_union.splits qid.splits)
    moreover have "queue_dequeue t k = k" if "state_of k t \<noteq> CH_STATE_WTCOND" "state_of k t \<noteq> CH_STATE_QUEUED"
      using timed_wait_unqueued [OF s t other(2) that] by (simp add: queue_dequeue_def)
    ultimately show ?thesis using other t by (cases "state_of k t") auto
  qed
qed

lemma wakeup_timeout:
  assumes ok: "kernel_ok k" and cf: "cnts_fit k" and cl: "class_isr k" and t: "timed_wait (state_of k t)"
  shows "wakeup t k = Some (woken t MSG_TIMEOUT (timeout_obj t k))"
proof -
  define k0 where "k0 = k\<lparr>lock_cnt := 1\<rparr>"
  have st: "state_of k0 t \<noteq> CH_STATE_READY" "state_of k0 t \<noteq> CH_STATE_FINAL" using t by (auto simp: k0_def)
  have I: "class_I k0" using cl by (simp add: k0_def class_I_def class_isr_def)
  have "class_I (timeout_obj t k0)" using I by (simp add: class_I_def)
  then have "chSchReadyI t (set_pu t (Rdymsg MSG_TIMEOUT) (queue_dequeue t (timeout_obj t k0))) =
      Some (woken t MSG_TIMEOUT (timeout_obj t k0))"
    unfolding woken_def using st sched_okD(7) [OF kernel_okD(1) [OF ok], of t]
    by (intro chSchReadyI_eq) (auto simp: k0_def)
  moreover have "(woken t MSG_TIMEOUT (timeout_obj t k0))\<lparr>lock_cnt := 0\<rparr> = woken t MSG_TIMEOUT (timeout_obj t k)"
    using cl by (simp add: k0_def timeout_obj_def woken_def make_ready_def upd_thd_def set_queue_def
        queue_dequeue_def class_isr_def split: p_union.splits qid.splits)
  moreover have "isr_cnt k0 > 0" "lock_cnt k0 = 1" using cl by (simp_all add: k0_def class_isr_def)
  moreover have "kernel_ok k0" "cnts_fit k0" "timed_wait (state_of k0 t)"
    using ok cf t by (simp_all add: k0_def cnts_fit_def)
  note wakeup_switch [OF this(1,2) I this(3)]
  ultimately show ?thesis
    using st cl unfolding wakeup_def
    by (simp add: chSysLockFromISR_ok k0_def [symmetric] Let_def chSysUnlockFromISR_ok)
qed

subsection \<open>Waking several threads\<close>

definition woken_all :: "msg_t \<Rightarrow> tid list \<Rightarrow> ch_system \<Rightarrow> ch_system" where
  "woken_all u ts k = fold (\<lambda>t. woken t u) ts k"

lemma woken_all_Nil [simp]: "woken_all u [] k = k"
  by (simp add: woken_all_def)

lemma woken_all_Cons: "woken_all u (t # ts) k = woken_all u ts (woken t u k)"
  by (simp add: woken_all_def)

lemma woken_all_simps [simp]:
  "r_current (woken_all u ts k) = r_current k" "s_cnt (woken_all u ts k) = s_cnt k"
  "m_owner (woken_all u ts k) = m_owner k" "tref (woken_all u ts k) = tref k"
  "reglist (woken_all u ts k) = reglist k" "vtimer (woken_all u ts k) = vtimer k"
  "vtlist (woken_all u ts k) = vtlist k" "es_next (woken_all u ts k) = es_next k"
  "listener (woken_all u ts k) = listener k" "isr_cnt (woken_all u ts k) = isr_cnt k"
  "lock_cnt (woken_all u ts k) = lock_cnt k" "port_time (woken_all u ts k) = port_time k"
  "state_of (woken_all u ts k) x = (if x \<in> set ts then CH_STATE_READY else state_of k x)"
  "p_u (thd (woken_all u ts k) x) = (if x \<in> set ts then Rdymsg u else p_u (thd k x))"
  "prio_of (woken_all u ts k) x = prio_of k x"
  "p_realprio (thd (woken_all u ts k) x) = p_realprio (thd k x)"
  "p_mtxlist (thd (woken_all u ts k) x) = p_mtxlist (thd k x)"
  "p_epending (thd (woken_all u ts k) x) = p_epending (thd k x)"
  "p_msg (thd (woken_all u ts k) x) = p_msg (thd k x)"
  "class_I (woken_all u ts k) = class_I k" "class_S (woken_all u ts k) = class_S k"
  "vt_ok (woken_all u ts k) = vt_ok k"
  unfolding woken_all_def by (induction ts arbitrary: k) auto

lemma queues_woken_all:
  "q \<noteq> Q_RLIST \<Longrightarrow> queues (woken_all u ts k) q = filter (\<lambda>x. x \<notin> set ts) (queues k q)"
  unfolding woken_all_def
  by (induction ts arbitrary: k) (auto simp: unqueue_def conj_commute intro!: filter_cong)

lemma rlist_woken_all:
  "set ts \<inter> set (queues k Q_RLIST) = {} \<Longrightarrow> distinct ts \<Longrightarrow>
     queues (woken_all u ts k) Q_RLIST = prio_insert_all (prio_of k) ts (queues k Q_RLIST)"
  unfolding woken_all_def prio_insert_all_def
  by (induction ts arbitrary: k) (auto simp: unqueue_def)

lemma sched_ok_woken_all:
  "sched_ok k \<Longrightarrow> r_current k \<notin> set ts \<Longrightarrow> sched_ok (woken_all u ts k)"
  unfolding woken_all_def by (induction ts arbitrary: k) (auto simp: sched_ok_woken)

lemma wait_ok_woken_all:
  "wait_ok k \<Longrightarrow> (\<And>t. t \<in> set ts \<Longrightarrow> state_of k t \<noteq> CH_STATE_SUSPENDED) \<Longrightarrow> wait_ok (woken_all u ts k)"
  unfolding woken_all_def by (induction ts arbitrary: k) (auto simp: wait_ok_woken wait_ok_but)

lemma kernel_ok_woken_all:
  assumes "kernel_ok k" and "\<And>t. t \<in> set ts \<Longrightarrow>
      t \<noteq> r_current k \<and> state_of k t \<noteq> CH_STATE_SUSPENDED \<and> state_of k t \<noteq> CH_STATE_WTSEM"
  shows "kernel_ok (woken_all u ts k)"
proof -
  have "filter (\<lambda>x. x \<notin> set ts) (queues k (Q_SEM s)) = queues k (Q_SEM s)" for s
    using assms(2) not_sem_queue [OF kernel_okD(1) [OF assms(1)]]
    by (auto simp: filter_id_conv)
  then have "sem_ok (woken_all u ts k)"
    using kernel_okD(3) [OF assms(1)] by (simp add: sem_ok_def queues_woken_all)
  then show ?thesis
    using assms sched_ok_woken_all wait_ok_woken_all by (auto simp: kernel_ok_def)
qed

subsection \<open>Operations of class I and their thread-level forms\<close>

text \<open>
  Most kernel services come in two forms: one to be called inside a critical zone, and one that
  enters the zone, calls the first, reschedules and leaves. The locale states what the first owes
  to the kernel and derives what the second gives to its caller.
\<close>

definition lock_resched :: "(ch_system \<Rightarrow> ch_system option) \<Rightarrow> ch_system \<Rightarrow> (unit outcome \<times> ch_system) option" where
  "lock_resched op k =
     do { k \<leftarrow> chSysLock k; k \<leftarrow> op k; r \<leftarrow> chSchRescheduleS k;
          andthen r (\<lambda>_ k. do { k \<leftarrow> chSysUnlock k; Some (Done (), k) }) }"

definition unlocked :: "'a outcome \<times> ch_system \<Rightarrow> 'a outcome \<times> ch_system" where
  "unlocked r = (case r of (Done a, k) \<Rightarrow> (Done a, k\<lparr>lock_cnt := 0\<rparr>) | (Switched, k) \<Rightarrow> (Switched, k))"

lemma unlocked_simps [simp]:
  "unlocked (Done a, k) = (Done a, k\<lparr>lock_cnt := 0\<rparr>)" "unlocked (Switched, k) = (Switched, k)"
  by (simp_all add: unlocked_def)

definition runnable :: "ch_system \<Rightarrow> tid \<Rightarrow> bool" where
  "runnable k t \<longleftrightarrow> state_of k t = CH_STATE_READY \<or> state_of k t = CH_STATE_CURRENT"

lemma rescheduled_same [simp]:
  fixes k
  defines "k' \<equiv> snd (unlocked (rescheduled k))"
  shows "p_u (thd k' t) = p_u (thd k t)" "prio_of k' t = prio_of k t" "s_cnt k' = s_cnt k"
    "m_owner k' = m_owner k" "tref k' = tref k" "reglist k' = reglist k" "es_next k' = es_next k"
    "listener k' = listener k" "vtlist k' = vtlist k" "vtimer k' = vtimer k"
    "q \<noteq> Q_RLIST \<Longrightarrow> queues k' q = queues k q" "rdymsg_of t k' = rdymsg_of t k"
    "p_realprio (thd k' t) = p_realprio (thd k t)" "p_mtxlist (thd k' t) = p_mtxlist (thd k t)"
    "p_epending (thd k' t) = p_epending (thd k t)" "p_msg (thd k' t) = p_msg (thd k t)"
    "runnable k t \<Longrightarrow> runnable k' t"
  unfolding k'_def by (auto simp: rescheduled_def rdymsg_of_def runnable_def)

locale class_I_op =
  fixes opI :: "ch_system \<Rightarrow> ch_system option"
    and pre :: "ch_system \<Rightarrow> bool"
  assumes opI_ok: "kernel_ok k \<Longrightarrow> class_I k \<Longrightarrow> pre k \<Longrightarrow>
      \<exists>k'. opI k = Some k' \<and> kernel_ok k' \<and> isr_cnt k' = isr_cnt k \<and> lock_cnt k' = lock_cnt k \<and>
           r_current k' = r_current k"
begin

lemma opI_returns:
  assumes "kernel_ok k" "class_I k" "pre k"
  shows "\<exists>k'. opI k = Some k' \<and> kernel_ok k' \<and> class_I k' \<and> r_current k' = r_current k"
  using opI_ok [OF assms] assms(2) by (auto simp: class_I_def)

lemma from_thread:
  assumes "kernel_ok k" "class_thread k" "pre (k\<lparr>lock_cnt := 1\<rparr>)"
  shows "\<exists>k1. opI (k\<lparr>lock_cnt := 1\<rparr>) = Some k1 \<and>
           lock_resched opI k = Some (unlocked (rescheduled k1)) \<and>
           kernel_ok (snd (unlocked (rescheduled k1))) \<and> resched_ok (snd (unlocked (rescheduled k1)))"
proof -
  obtain k1 where k1: "opI (k\<lparr>lock_cnt := 1\<rparr>) = Some k1" "kernel_ok k1" "isr_cnt k1 = isr_cnt k" "lock_cnt k1 = 1"
    using opI_ok [of "k\<lparr>lock_cnt := 1\<rparr>"] assms by (auto simp: class_I_def class_thread_def)
  have S: "class_S k1" using k1 assms(2) by (simp add: class_S_def class_thread_def)
  note ok = kernel_ok_rescheduled [OF k1(2)] rescheduled_resched_ok [OF kernel_okD(1) [OF k1(2)]]
  have "lock_resched opI k = Some (unlocked (rescheduled k1))"
    using k1(1) chSchRescheduleS_eq [OF kernel_okD(1) [OF k1(2)] S] chSysUnlock_resched [OF S]
    by (simp add: lock_resched_def chSysLock_ok [OF assms(2)] rescheduled_def)
  then show ?thesis using k1(1) ok by (auto simp: rescheduled_def)
qed

lemma from_isr:
  assumes "kernel_ok k" "class_isr k" "pre (k\<lparr>lock_cnt := 1\<rparr>)"
  shows "\<exists>k'. do { k \<leftarrow> chSysLockFromISR k; k \<leftarrow> opI k; chSysUnlockFromISR k } = Some k' \<and>
           kernel_ok k' \<and> class_isr k' \<and> r_current k' = r_current k"
proof -
  obtain k1 where k1: "opI (k\<lparr>lock_cnt := 1\<rparr>) = Some k1" "kernel_ok k1" "isr_cnt k1 = isr_cnt k" "lock_cnt k1 = 1"
      "r_current k1 = r_current k"
    using opI_ok [of "k\<lparr>lock_cnt := 1\<rparr>"] assms by (auto simp: class_I_def class_isr_def)
  then show ?thesis
    using assms(2) by (simp add: chSysLockFromISR_ok chSysUnlockFromISR_ok class_isr_def)
qed

end



subsection \<open>A running system\<close>

text \<open>
  The state just after start-up: the main thread 0 runs at \<open>NORMALPRIO\<close>, the idle thread 1 is
  ready, no other thread has been started.
\<close>

definition thread0 :: "tprio_t \<Rightarrow> tstate_t \<Rightarrow> thread_t" where
  "thread0 p st =
     \<lparr>p_prio = p, p_state = st, p_flags = 0, p_refs = 1, p_u = Rdymsg 0, p_msg = 0, p_epending = 0,
      p_mtxlist = [], p_realprio = p, p_name = None, p_mpool = None\<rparr>"

definition sys0 :: ch_system where
  "sys0 =
     \<lparr>thd = (\<lambda>t. if t = 0 then thread0 NORMALPRIO CH_STATE_CURRENT
                 else if t = 1 then thread0 IDLEPRIO CH_STATE_READY
                 else thread0 (NORMALPRIO + 1) CH_STATE_WTSTART),
      queues = (\<lambda>q. if q = Q_RLIST then [1] else []),
      r_current = 0, reglist = [0, 1], s_cnt = (\<lambda>_. 0), m_owner = (\<lambda>_. None), tref = (\<lambda>_. None),
      vtimer = (\<lambda>_. \<lparr>vt_delta = 0, vt_func = None, vt_par = 0\<rparr>), vtlist = [], vtl_delta = - 1,
      vtl_lasttime = 0, es_next = (\<lambda>_. []),
      listener = (\<lambda>_. \<lparr>el_listener = 0, el_events = 0, el_flags = 0, el_wflags = 0\<rparr>),
      isr_cnt = 0, lock_cnt = 0, port_time = 0, port_alarm = None\<rparr>"

lemma sys0_kernel_ok: "kernel_ok sys0"
proof -
  have "sched_ok sys0"
    unfolding sched_ok_def apart_def unqueued_def
    by (auto simp: sys0_def thread0_def NORMALPRIO_def IDLEPRIO_def NOPRIO_def)
  moreover have "wait_ok sys0" by (simp add: wait_ok_def sys0_def thread0_def)
  moreover have "sem_ok sys0" by (simp add: sem_ok_def sys0_def)
  ultimately show ?thesis by (simp add: kernel_ok_def)
qed

lemma sys0_facts:
  "class_thread sys0" "resched_ok sys0" "vt_ok sys0" "cnts_fit sys0"
  by (auto simp: sys0_def class_thread_def resched_ok_iff thread0_def NORMALPRIO_def IDLEPRIO_def vt_ok_def
      cnts_fit_def cnt_fits_def)

subsection \<open>Properties\<close>

text \<open>
  C5. A reschedule always returns and leaves the kernel consistent with a highest-priority thread
  running; it switches threads only if a ready thread has a strictly higher priority, and then the
  preempted thread is the first of its priority in the ready list.
\<close>

theorem chSchRescheduleS_highest:
  assumes "kernel_ok k" "class_S k"
  shows "\<exists>out k'. chSchRescheduleS k = Some (out, k') \<and> kernel_ok k' \<and>
           (\<forall>t. state_of k' t = CH_STATE_READY \<longrightarrow> prio_of k' t \<le> prio_of k' (r_current k')) \<and>
           (if \<exists>t. state_of k t = CH_STATE_READY \<and> prio_of k (r_current k) < prio_of k t
            then out = Switched \<and> state_of k' (r_current k) = CH_STATE_READY \<and>
                 (\<exists>as bs. queues k' Q_RLIST = as @ r_current k # bs \<and>
                    (\<forall>t \<in> set as. prio_of k (r_current k) < prio_of k t))
            else out = Done () \<and> k' = k)"
proof (intro exI conjI)
  note s = kernel_okD(1) [OF assms(1)]
  have iff: "(\<exists>t. state_of k t = CH_STATE_READY \<and> prio_of k (r_current k) < prio_of k t) \<longleftrightarrow> \<not> resched_ok k"
  proof
    assume "\<not> resched_ok k"
    then obtain t ts where "queues k Q_RLIST = t # ts" "prio_of k (r_current k) < prio_of k t"
      using not_resched_ready by blast
    then show "\<exists>t. state_of k t = CH_STATE_READY \<and> prio_of k (r_current k) < prio_of k t"
      using sched_okD(4) [OF s, of t Q_RLIST] by auto
  qed (use resched_ok_highest [OF s] in force)
  show "chSchRescheduleS k = Some (fst (rescheduled k), snd (rescheduled k))"
    using chSchRescheduleS_eq [OF s assms(2)] by simp
  show "kernel_ok (snd (rescheduled k))" using assms(1) by (rule kernel_ok_rescheduled)
  show "\<forall>t. state_of (snd (rescheduled k)) t = CH_STATE_READY \<longrightarrow>
      prio_of (snd (rescheduled k)) t \<le> prio_of (snd (rescheduled k)) (r_current (snd (rescheduled k)))"
    using resched_ok_highest [OF rescheduled_sched_ok [OF s] rescheduled_resched_ok [OF s]] by blast
  show "if \<exists>t. state_of k t = CH_STATE_READY \<and> prio_of k (r_current k) < prio_of k t
      then fst (rescheduled k) = Switched \<and> state_of (snd (rescheduled k)) (r_current k) = CH_STATE_READY \<and>
           (\<exists>as bs. queues (snd (rescheduled k)) Q_RLIST = as @ r_current k # bs \<and>
              (\<forall>t \<in> set as. prio_of k (r_current k) < prio_of k t))
      else fst (rescheduled k) = Done () \<and> snd (rescheduled k) = k"
    unfolding iff by (auto simp: rescheduled_def prio_insert_ahead_split dest: set_takeWhileD)
qed

text \<open>The freshly started system with a third thread ready above the main thread.\<close>

definition sys1 :: ch_system where
  "sys1 = woken 2 0 (sys0\<lparr>lock_cnt := 1\<rparr>)"

lemma sys1_facts:
  "kernel_ok sys1" "class_S sys1" "state_of sys1 2 = CH_STATE_READY" "prio_of sys1 (r_current sys1) < prio_of sys1 2"
proof -
  let ?k = "sys0\<lparr>lock_cnt := 1\<rparr>"
  have k: "kernel_ok ?k" using sys0_kernel_ok by simp
  have st: "state_of ?k 2 = CH_STATE_WTSTART" "2 \<noteq> r_current ?k" by (simp_all add: sys0_def thread0_def)
  show "kernel_ok sys1" unfolding sys1_def
    using kernel_okD [OF k] st not_sem_queue [OF kernel_okD(1) [OF k], of 2]
    by (intro kernel_ok_woken wait_ok_but sem_ok_dequeue) auto
qed (simp_all add: sys1_def class_S_def, simp_all add: sys0_def thread0_def)

theorem chSchRescheduleS_highest_witness:
  "\<exists>k'. chSchRescheduleS sys1 = Some (Switched, k') \<and> kernel_ok k'"
  using chSchRescheduleS_highest [OF sys1_facts(1,2)] sys1_facts(3,4) by (metis (no_types, lifting))

text \<open>
  The time-out callback, run from the tick interrupt on a thread that is waiting with a
  time-out, always returns, keeps the kernel invariant and makes the thread ready with message
  \<open>MSG_TIMEOUT\<close>, whatever it was waiting on; no other thread changes state and no queue keeps the
  thread.
\<close>

theorem wakeup_on_timeout:
  assumes "kernel_ok k" "cnts_fit k" "class_isr k" "timed_wait (state_of k t)"
  shows "\<exists>k'. wakeup t k = Some k' \<and> kernel_ok k' \<and> class_isr k' \<and>
           (\<forall>x. state_of k' x = (if x = t then CH_STATE_READY else state_of k x)) \<and>
           rdymsg_of t k' = Some MSG_TIMEOUT \<and> (\<forall>q. t \<in> set (queues k' q) \<longleftrightarrow> q = Q_RLIST)"
proof (intro exI conjI)
  show "wakeup t k = Some (woken t MSG_TIMEOUT (timeout_obj t k))" using assms by (rule wakeup_timeout)
  show "kernel_ok (woken t MSG_TIMEOUT (timeout_obj t k))" using assms(1,4) by (rule kernel_ok_timeout)
  show "class_isr (woken t MSG_TIMEOUT (timeout_obj t k))" using assms(3) by (simp add: class_isr_def)
qed (auto simp: rdymsg_of_def unqueue_def)

text \<open>The main thread sleeps and the idle thread runs.\<close>

definition sys_asleep :: ch_system where
  "sys_asleep = (sleeping CH_STATE_SLEEPING sys0)\<lparr>isr_cnt := 1\<rparr>"

lemma sys_asleep_facts:
  "kernel_ok sys_asleep" "cnts_fit sys_asleep" "class_isr sys_asleep" "state_of sys_asleep 0 = CH_STATE_SLEEPING"
proof -
  have "kernel_ok (sleeping CH_STATE_SLEEPING sys0)"
    by (rule kernel_ok_sleeping [OF sys0_kernel_ok]) (simp_all add: sys0_def)
  then show "kernel_ok sys_asleep"
    by (simp add: sys_asleep_def kernel_ok_def sched_ok_def wait_ok_def sem_ok_def)
  show "cnts_fit sys_asleep" using sys0_facts by (simp add: sys_asleep_def cnts_fit_def)
qed (simp_all add: sys_asleep_def class_isr_def, simp_all add: sys0_def)

theorem wakeup_on_timeout_witness:
  "\<exists>k'. wakeup 0 sys_asleep = Some k' \<and> kernel_ok k' \<and> state_of k' 0 = CH_STATE_READY \<and>
     rdymsg_of 0 k' = Some MSG_TIMEOUT"
  using wakeup_on_timeout [OF sys_asleep_facts(1-3), of 0] sys_asleep_facts(4) by auto

lemma chSchDoYieldS_eq:
  assumes ok: "kernel_ok k" and cl: "class_S k"
  defines "y \<equiv> queues k Q_RLIST \<noteq> [] \<and> prio_of k (r_current k) \<le> prio_of k (hd (queues k Q_RLIST))"
  shows "chSchDoYieldS k = Some (if y then (Switched, preempted prio_insert k) else (Done (), k))"
    "y \<Longrightarrow> kernel_ok (preempted prio_insert k)"
proof -
  note s = kernel_okD(1) [OF ok]
  have "chSchDoYieldS k = Some (Switched, preempted prio_insert k) \<and> kernel_ok (preempted prio_insert k)" if y
  proof -
    have "queues k Q_RLIST \<noteq> []" using that by (simp add: y_def)
    then obtain t ts where r: "queues k Q_RLIST = t # ts" by (cases "queues k Q_RLIST") auto
    have "kernel_ok (preempted prio_insert k)"
      using sched_ok_preempted_behind [OF s r] wait_ok_preempted [OF kernel_okD(2) [OF ok] s r, of prio_insert]
        kernel_okD(3) [OF ok] by (simp add: kernel_ok_def)
    then show ?thesis using that r cl chSchDoRescheduleBehind_eq [OF s class_S_I [OF cl] r]
      by (simp add: y_def chSchDoYieldS_def chSchCanYieldS_def firstprio_def)
  qed
  moreover have "chSchDoYieldS k = Some (Done (), k)" if "\<not> y"
  proof -
    have "firstprio k < prio_of k (r_current k)"
      using that sched_okD(7) [OF s, of "r_current k"] by (cases "queues k Q_RLIST") (auto simp: y_def firstprio_def)
    then show ?thesis using cl by (simp add: chSchDoYieldS_def chSchCanYieldS_def not_le)
  qed
  ultimately show "chSchDoYieldS k = Some (if y then (Switched, preempted prio_insert k) else (Done (), k))"
    "y \<Longrightarrow> kernel_ok (preempted prio_insert k)" by auto
qed

text \<open>
  Yielding gives round-robin service: if a ready thread has the caller's priority (or a higher
  one) the first of them runs and the caller is put behind every ready thread of its own priority;
  otherwise nothing changes. The kernel invariant holds afterwards.
\<close>

theorem chSchDoYieldS_round_robin:
  assumes ok: "kernel_ok k" and cl: "class_S k"
  shows "if queues k Q_RLIST \<noteq> [] \<and> prio_of k (r_current k) \<le> prio_of k (hd (queues k Q_RLIST))
         then \<exists>k' as bs. chSchDoYieldS k = Some (Switched, k') \<and> kernel_ok k' \<and>
                r_current k' = hd (queues k Q_RLIST) \<and> queues k' Q_RLIST = as @ r_current k # bs \<and>
                (\<forall>t \<in> set as. prio_of k (r_current k) \<le> prio_of k t) \<and>
                (\<forall>t \<in> set bs. prio_of k t < prio_of k (r_current k))
         else chSchDoYieldS k = Some (Done (), k)"
proof (cases "queues k Q_RLIST \<noteq> [] \<and> prio_of k (r_current k) \<le> prio_of k (hd (queues k Q_RLIST))")
  case True
  then obtain t ts where r: "queues k Q_RLIST = t # ts" by (cases "queues k Q_RLIST") auto
  note s = kernel_okD(1) [OF ok] and y = chSchDoYieldS_eq [OF ok cl]
  have "chSchDoYieldS k = Some (Switched, preempted prio_insert k)" "kernel_ok (preempted prio_insert k)"
    using y True by simp_all
  moreover have "prio_sorted (prio_of k) ts" using sched_okD(6) [OF s, of Q_RLIST] r by simp
  then have "\<forall>x \<in> set (dropWhile (\<lambda>x. prio_of k (r_current k) \<le> prio_of k x) ts).
      prio_of k x < prio_of k (r_current k)"
  proof (induction ts)
    case (Cons y ys)
    then show ?case by (auto simp: not_le intro: le_less_trans)
  qed simp
  moreover have "\<forall>x \<in> set (takeWhile (\<lambda>x. prio_of k (r_current k) \<le> prio_of k x) ts).
      prio_of k (r_current k) \<le> prio_of k x" by (auto dest: set_takeWhileD)
  ultimately show ?thesis
    using True r by (auto simp: prio_insert_split)
next
  case False
  then show ?thesis unfolding chSchDoYieldS_eq(1) [OF ok cl] if_not_P [OF False] by simp
qed

theorem chSchDoYieldS_round_robin_witness:
  "\<exists>k'. chSchDoYieldS sys1 = Some (Switched, k') \<and> kernel_ok k' \<and> r_current k' = 2"
proof -
  have "hd (queues sys1 Q_RLIST) = 2" "queues sys1 Q_RLIST \<noteq> []"
    by (simp_all add: sys1_def, simp_all add: sys0_def thread0_def unqueue_def hd_prio_insert IDLEPRIO_def NORMALPRIO_def)
  then show ?thesis using chSchDoYieldS_round_robin [OF sys1_facts(1,2)] sys1_facts(4) by (auto simp: less_imp_le)
qed

text \<open>
  The two forms of the preemption code that the ports use do not agree. When the first ready
  thread has exactly the priority of the running one, \<open>chSchIsPreemptionRequired\<close> says that no
  preemption is needed, but the inline form \<open>chSchPreemption\<close> switches to that thread.
\<close>

theorem preemption_forms_disagree:
  "\<exists>k k'. kernel_ok k \<and> \<not> chSchIsPreemptionRequired k \<and> chSchPreemption k = Some (Switched, k') \<and>
     r_current k' \<noteq> r_current k"
proof -
  define k where "k = set_prio 0 (NORMALPRIO + 1) sys1"
  have q: "queues k Q_RLIST = [2, 1]" "r_current k = 0" "prio_of k 0 = 65" "prio_of k 2 = 65" "prio_of k 1 = 1"
    by (simp_all add: k_def sys1_def, simp_all add: sys0_def thread0_def unqueue_def IDLEPRIO_def NORMALPRIO_def)
  have "sched_ok k"
  proof -
    have p: "prio_of k x = (if x = 0 then 65 else prio_of sys1 x)" "state_of k x = state_of sys1 x" for x
      by (simp_all add: k_def NORMALPRIO_def)
    have "queues k = queues sys1" "r_current k = r_current sys1" by (simp_all add: k_def)
    moreover have "prio_sorted (prio_of k) (queues k qu)" if "by_prio qu" for qu
    proof -
      have "0 \<notin> set (queues sys1 qu)"
        using sched_okD(2) [OF kernel_okD(1) [OF sys1_facts(1)]] q(2) unfolding unqueued_def by (simp add: k_def)
      then have "prio_sorted (prio_of k) (queues sys1 qu) = prio_sorted (prio_of sys1) (queues sys1 qu)"
        using p(1) by (intro prio_sorted_cong) auto
      then show ?thesis using sched_okD(6) [OF kernel_okD(1) [OF sys1_facts(1)] that] by (simp add: k_def)
    qed
    ultimately show ?thesis
      using kernel_okD(1) [OF sys1_facts(1)] p unfolding sched_ok_def by (auto simp: NOPRIO_def)
  qed
  moreover have "wait_ok k" "sem_ok k"
    using kernel_okD(2,3) [OF sys1_facts(1)] by (simp_all add: k_def wait_ok_def sem_ok_def)
  ultimately have "kernel_ok k" by (simp add: kernel_ok_def)
  moreover have "\<not> chSchIsPreemptionRequired k" using q by (simp add: chSchIsPreemptionRequired_def firstprio_def)
  moreover have "chSchPreemption k = Some (Switched, preempted prio_insert_ahead k)"
    using q chSchDoRescheduleAhead_eq [OF \<open>sched_ok k\<close>] by (simp add: chSchPreemption_def firstprio_def)
  ultimately show ?thesis using q by (metis list.sel(1) preempted_simps(15) zero_neq_numeral)
qed

end
