(* ===== verification/ChSem.thy ===== *)
theory ChSem
  imports ChSched
begin

text \<open>
  Counting semaphores (\<open>chsem.c\<close>, \<open>chsem.h\<close>) and binary semaphores (\<open>chbsem.h\<close>).

  A semaphore is a number \<open>s\<close>: \<open>s_cnt k s\<close> is its counter, \<open>queues k (Q_SEM s)\<close> its queue, served in
  arrival order (\<open>CH_CFG_USE_SEMAPHORES_PRIORITY\<close> is off). The invariant \<open>sem_ok\<close> of \<open>ChSched\<close> says
  that a negative counter counts the waiting threads.
\<close>

subsection \<open>The operations\<close>

definition chSemObjectInit :: "nat \<Rightarrow> cnt_t \<Rightarrow> ch_system \<Rightarrow> ch_system option" where
  "chSemObjectInit sp n k =
     do { assert_that (n \<ge> 0);
          let k = queue_init (Q_SEM sp) k;
          Some (k\<lparr>s_cnt := (s_cnt k)(sp := n)\<rparr>) }"

definition sem_consistent :: "nat \<Rightarrow> ch_system \<Rightarrow> bool" where
  "sem_consistent sp k \<longleftrightarrow>
     s_cnt k sp \<ge> 0 \<and> queue_isempty (Q_SEM sp) k \<or> s_cnt k sp < 0 \<and> queue_notempty (Q_SEM sp) k"

definition set_cnt :: "nat \<Rightarrow> cnt_t \<Rightarrow> ch_system \<Rightarrow> ch_system" where
  "set_cnt sp n k = k\<lparr>s_cnt := (s_cnt k)(sp := n)\<rparr>"

text \<open>The loop \<open>while (++cnt <= 0) ...\<close> of \<open>chSemResetI\<close>.\<close>

function sem_reset_loop :: "nat \<Rightarrow> cnt_t \<Rightarrow> ch_system \<Rightarrow> ch_system option" where
  "sem_reset_loop sp cnt k =
     do { cnt \<leftarrow> cnt_add cnt 1;
          if cnt \<le> 0
          then do { (tp, k) \<leftarrow> queue_lifo_remove (Q_SEM sp) k;
                    k \<leftarrow> chSchReadyI tp k;
                    sem_reset_loop sp cnt (set_pu tp (Rdymsg MSG_RESET) k) }
          else Some k }"
  by pat_completeness auto
termination
  by (relation "measure (\<lambda>(sp, cnt, k). nat (1 - cnt))") (auto simp: cnt_add_def split: if_splits)

declare sem_reset_loop.simps [simp del]

definition chSemResetI :: "nat \<Rightarrow> cnt_t \<Rightarrow> ch_system \<Rightarrow> ch_system option" where
  "chSemResetI sp n k =
     do { chDbgCheckClassI k;
          assert_that (n \<ge> 0);
          assert_that (sem_consistent sp k);
          let cnt = s_cnt k sp;
          let k = set_cnt sp n k;
          sem_reset_loop sp cnt k }"

definition chSemReset :: "nat \<Rightarrow> cnt_t \<Rightarrow> ch_system \<Rightarrow> (unit outcome \<times> ch_system) option" where
  "chSemReset sp n k =
     do { k \<leftarrow> chSysLock k; k \<leftarrow> chSemResetI sp n k; r \<leftarrow> chSchRescheduleS k;
          andthen r (\<lambda>_ k. do { k \<leftarrow> chSysUnlock k; Some (Done (), k) }) }"

text \<open>
  Waiting. When the thread is switched out, \<open>chSemWaitS_resume\<close> is what runs when it is next made
  current: it returns the wakeup message.
\<close>

definition chSemWaitS :: "nat \<Rightarrow> ch_system \<Rightarrow> (msg_t outcome \<times> ch_system) option" where
  "chSemWaitS sp k =
     do { chDbgCheckClassS k;
          assert_that (sem_consistent sp k);
          n \<leftarrow> cnt_add (s_cnt k sp) (- 1);
          let k = set_cnt sp n k;
          if s_cnt k sp < 0
          then do { let k = set_pu (r_current k) (Wtobjp (Q_SEM sp)) k;
                    let k = queue_insert (r_current k) (Q_SEM sp) k;
                    k \<leftarrow> chSchGoSleepS CH_STATE_WTSEM k;
                    Some (Switched, k) }
          else Some (Done MSG_OK, k) }"

definition chSemWaitS_resume :: "ch_system \<Rightarrow> (msg_t \<times> ch_system) option" where
  "chSemWaitS_resume k = do { m \<leftarrow> rdymsg_of (r_current k) k; Some (m, k) }"

definition chSemWait :: "nat \<Rightarrow> ch_system \<Rightarrow> (msg_t outcome \<times> ch_system) option" where
  "chSemWait sp k =
     do { k \<leftarrow> chSysLock k; r \<leftarrow> chSemWaitS sp k;
          andthen r (\<lambda>msg k. do { k \<leftarrow> chSysUnlock k; Some (Done msg, k) }) }"

definition chSemWaitTimeoutS :: "nat \<Rightarrow> systime_t \<Rightarrow> ch_system \<Rightarrow> (msg_t outcome \<times> ch_system) option" where
  "chSemWaitTimeoutS sp time k =
     do { chDbgCheckClassS k;
          assert_that (sem_consistent sp k);
          n \<leftarrow> cnt_add (s_cnt k sp) (- 1);
          let k = set_cnt sp n k;
          if s_cnt k sp < 0
          then (if TIME_IMMEDIATE = time
                then do { n \<leftarrow> cnt_add (s_cnt k sp) 1; Some (Done MSG_TIMEOUT, set_cnt sp n k) }
                else do { let k = set_pu (r_current k) (Wtobjp (Q_SEM sp)) k;
                          let k = queue_insert (r_current k) (Q_SEM sp) k;
                          k \<leftarrow> chSchGoSleepTimeoutS CH_STATE_WTSEM time k;
                          Some (Switched, k) })
          else Some (Done MSG_OK, k) }"

definition chSemWaitTimeout :: "nat \<Rightarrow> systime_t \<Rightarrow> ch_system \<Rightarrow> (msg_t outcome \<times> ch_system) option" where
  "chSemWaitTimeout sp time k =
     do { k \<leftarrow> chSysLock k; r \<leftarrow> chSemWaitTimeoutS sp time k;
          andthen r (\<lambda>msg k. do { k \<leftarrow> chSysUnlock k; Some (Done msg, k) }) }"

definition chSemSignal :: "nat \<Rightarrow> ch_system \<Rightarrow> (unit outcome \<times> ch_system) option" where
  "chSemSignal sp k =
     do { assert_that (sem_consistent sp k);
          k \<leftarrow> chSysLock k;
          n \<leftarrow> cnt_add (s_cnt k sp) 1;
          let k = set_cnt sp n k;
          r \<leftarrow> (if s_cnt k sp \<le> 0
                then do { (tp, k) \<leftarrow> queue_fifo_remove (Q_SEM sp) k; chSchWakeupS tp MSG_OK k }
                else Some (Done (), k));
          andthen r (\<lambda>_ k. do { k \<leftarrow> chSysUnlock k; Some (Done (), k) }) }"

definition chSemSignalI :: "nat \<Rightarrow> ch_system \<Rightarrow> ch_system option" where
  "chSemSignalI sp k =
     do { chDbgCheckClassI k;
          assert_that (sem_consistent sp k);
          n \<leftarrow> cnt_add (s_cnt k sp) 1;
          let k = set_cnt sp n k;
          if s_cnt k sp \<le> 0
          then do { (tp, k) \<leftarrow> queue_fifo_remove (Q_SEM sp) k;
                    let k = set_pu tp (Rdymsg MSG_OK) k;
                    chSchReadyI tp k }
          else Some k }"

text \<open>The loop \<open>while (n > 0) ...\<close> of \<open>chSemAddCounterI\<close>.\<close>

function sem_add_loop :: "nat \<Rightarrow> cnt_t \<Rightarrow> ch_system \<Rightarrow> ch_system option" where
  "sem_add_loop sp n k =
     (if n > 0
      then do { c \<leftarrow> cnt_add (s_cnt k sp) 1;
                let k = set_cnt sp c k;
                k \<leftarrow> (if s_cnt k sp \<le> 0
                      then do { (tp, k) \<leftarrow> queue_fifo_remove (Q_SEM sp) k;
                                k \<leftarrow> chSchReadyI tp k;
                                Some (set_pu tp (Rdymsg MSG_OK) k) }
                      else Some k);
                sem_add_loop sp (n - 1) k }
      else Some k)"
  by pat_completeness auto
termination by (relation "measure (\<lambda>(sp, n, k). nat n)") auto

declare sem_add_loop.simps [simp del]

definition chSemAddCounterI :: "nat \<Rightarrow> cnt_t \<Rightarrow> ch_system \<Rightarrow> ch_system option" where
  "chSemAddCounterI sp n k =
     do { chDbgCheckClassI k;
          assert_that (n > 0);
          assert_that (sem_consistent sp k);
          sem_add_loop sp n k }"

definition chSemSignalWait :: "nat \<Rightarrow> nat \<Rightarrow> ch_system \<Rightarrow> (msg_t outcome \<times> ch_system) option" where
  "chSemSignalWait sps spw k =
     do { assert_that (sem_consistent sps k);
          assert_that (sem_consistent spw k);
          k \<leftarrow> chSysLock k;
          n \<leftarrow> cnt_add (s_cnt k sps) 1;
          let k = set_cnt sps n k;
          k \<leftarrow> (if s_cnt k sps \<le> 0
                then do { (tp, k) \<leftarrow> queue_fifo_remove (Q_SEM sps) k;
                          k \<leftarrow> chSchReadyI tp k;
                          Some (set_pu tp (Rdymsg MSG_OK) k) }
                else Some k);
          n \<leftarrow> cnt_add (s_cnt k spw) (- 1);
          let k = set_cnt spw n k;
          if s_cnt k spw < 0
          then do { let ctp = r_current k;
                    let k = queue_insert ctp (Q_SEM spw) k;
                    let k = set_pu ctp (Wtobjp (Q_SEM spw)) k;
                    k \<leftarrow> chSchGoSleepS CH_STATE_WTSEM k;
                    Some (Switched, k) }
          else do { r \<leftarrow> chSchRescheduleS k;
                    andthen r (\<lambda>_ k. do { k \<leftarrow> chSysUnlock k; Some (Done MSG_OK, k) }) } }"

definition chSemFastWaitI :: "nat \<Rightarrow> ch_system \<Rightarrow> ch_system option" where
  "chSemFastWaitI sp k =
     do { chDbgCheckClassI k; n \<leftarrow> cnt_add (s_cnt k sp) (- 1); Some (set_cnt sp n k) }"

definition chSemGetCounterI :: "nat \<Rightarrow> ch_system \<Rightarrow> cnt_t option" where
  "chSemGetCounterI sp k = do { chDbgCheckClassI k; Some (s_cnt k sp) }"

subsection \<open>Binary semaphores\<close>

definition chBSemObjectInit :: "nat \<Rightarrow> bool \<Rightarrow> ch_system \<Rightarrow> ch_system option" where
  "chBSemObjectInit bsp taken k = chSemObjectInit bsp (if taken then 0 else 1) k"

definition chBSemWait :: "nat \<Rightarrow> ch_system \<Rightarrow> (msg_t outcome \<times> ch_system) option" where
  "chBSemWait bsp k = chSemWait bsp k"

definition chBSemWaitS :: "nat \<Rightarrow> ch_system \<Rightarrow> (msg_t outcome \<times> ch_system) option" where
  "chBSemWaitS bsp k = do { chDbgCheckClassS k; chSemWaitS bsp k }"

definition chBSemWaitTimeoutS :: "nat \<Rightarrow> systime_t \<Rightarrow> ch_system \<Rightarrow> (msg_t outcome \<times> ch_system) option" where
  "chBSemWaitTimeoutS bsp time k = do { chDbgCheckClassS k; chSemWaitTimeoutS bsp time k }"

definition chBSemWaitTimeout :: "nat \<Rightarrow> systime_t \<Rightarrow> ch_system \<Rightarrow> (msg_t outcome \<times> ch_system) option" where
  "chBSemWaitTimeout bsp time k = chSemWaitTimeout bsp time k"

definition chBSemResetI :: "nat \<Rightarrow> bool \<Rightarrow> ch_system \<Rightarrow> ch_system option" where
  "chBSemResetI bsp taken k =
     do { chDbgCheckClassI k; chSemResetI bsp (if taken then 0 else 1) k }"

definition chBSemReset :: "nat \<Rightarrow> bool \<Rightarrow> ch_system \<Rightarrow> (unit outcome \<times> ch_system) option" where
  "chBSemReset bsp taken k = chSemReset bsp (if taken then 0 else 1) k"

definition chBSemSignalI :: "nat \<Rightarrow> ch_system \<Rightarrow> ch_system option" where
  "chBSemSignalI bsp k =
     do { chDbgCheckClassI k; if s_cnt k bsp < 1 then chSemSignalI bsp k else Some k }"

definition chBSemSignal :: "nat \<Rightarrow> ch_system \<Rightarrow> (unit outcome \<times> ch_system) option" where
  "chBSemSignal bsp k =
     do { k \<leftarrow> chSysLock k; k \<leftarrow> chBSemSignalI bsp k; r \<leftarrow> chSchRescheduleS k;
          andthen r (\<lambda>_ k. do { k \<leftarrow> chSysUnlock k; Some (Done (), k) }) }"

definition chBSemGetStateI :: "nat \<Rightarrow> ch_system \<Rightarrow> bool option" where
  "chBSemGetStateI bsp k = do { chDbgCheckClassI k; Some (if s_cnt k bsp > 0 then False else True) }"

subsection \<open>What the operations do\<close>

lemma set_cnt_simps [simp]:
  "s_cnt (set_cnt s n k) = (s_cnt k)(s := n)" "thd (set_cnt s n k) = thd k"
  "queues (set_cnt s n k) = queues k" "r_current (set_cnt s n k) = r_current k"
  "tref (set_cnt s n k) = tref k" "isr_cnt (set_cnt s n k) = isr_cnt k" "lock_cnt (set_cnt s n k) = lock_cnt k"
  "class_I (set_cnt s n k) = class_I k" "class_S (set_cnt s n k) = class_S k"
  "sched_ok (set_cnt s n k) = sched_ok k" "wait_ok (set_cnt s n k) = wait_ok k"
  "wait_ok_but t (set_cnt s n k) = wait_ok_but t k" "can_sleep time (set_cnt s n k) = can_sleep time k"
  "vt_ok (set_cnt s n k) = vt_ok k" "vt_remaining (set_cnt s n k) = vt_remaining k"
  by (simp_all add: set_cnt_def class_I_def class_S_def sched_ok_def wait_ok_def wait_ok_but_def can_sleep_def
      vt_ok_def vt_elapsed_def vt_remaining_def)

lemma sem_ok_consistent: "sem_ok k \<Longrightarrow> sem_consistent s k"
  by (auto simp: sem_ok_def sem_consistent_def queue_isempty_def queue_notempty_def dest: spec [of _ s])

lemma sem_ok_queue: "sem_ok k \<Longrightarrow> queues k (Q_SEM s) = [] \<longleftrightarrow> 0 \<le> s_cnt k s"
  by (metis length_0_conv nat_eq_iff neg_0_le_iff_le neg_le_0_iff_le nat_0_iff sem_ok_def)

lemma sem_head:
  assumes "kernel_ok k" "queues k (Q_SEM s) = t # ts"
  shows "state_of k t = CH_STATE_WTSEM" "timeout_obj t k = set_cnt s (s_cnt k s + 1) k" "s_cnt k s < 0"
    "t \<noteq> r_current k"
proof -
  show st: "state_of k t = CH_STATE_WTSEM"
    using sched_okD(4) [OF kernel_okD(1) [OF assms(1)], of t "Q_SEM s"] assms(2) by simp
  obtain i where i: "p_u (thd k t) = Wtobjp (Q_SEM i)" "t \<in> set (queues k (Q_SEM i))" "s_cnt k i < 0"
    using sem_waiter [OF assms(1) st] .
  have "i = s" using apart_same [OF sched_okD(1) [OF kernel_okD(1) [OF assms(1)]], of t "Q_SEM i" "Q_SEM s"]
      i assms(2) by simp
  then show "timeout_obj t k = set_cnt s (s_cnt k s + 1) k" "s_cnt k s < 0"
    using st i by (simp_all add: timeout_obj_def set_cnt_def)
  show "t \<noteq> r_current k" using timed_wait_not_current [OF kernel_okD(1) [OF assms(1)], of t] st by simp
qed

text \<open>A signal: the counter goes up, and the thread that has waited longest is woken.\<close>

definition sem_signalled :: "nat \<Rightarrow> ch_system \<Rightarrow> ch_system" where
  "sem_signalled s k =
     (case queues k (Q_SEM s) of
        [] \<Rightarrow> set_cnt s (s_cnt k s + 1) k
      | t # ts \<Rightarrow> woken t MSG_OK (set_cnt s (s_cnt k s + 1) k))"

lemma sem_signalled_ok:
  assumes "kernel_ok k"
  shows "kernel_ok (sem_signalled s k)"
proof (cases "queues k (Q_SEM s)")
  case Nil
  then have "0 \<le> s_cnt k s" using sem_ok_queue [OF kernel_okD(3) [OF assms]] by blast
  then show ?thesis using assms Nil by (auto simp: sem_signalled_def kernel_ok_def sem_ok_def)
next
  case (Cons t ts)
  then show ?thesis
    using kernel_ok_timeout(1) [OF assms, of t MSG_OK] sem_head [OF assms Cons] by (simp add: sem_signalled_def)
qed

lemma sem_signalled_simps [simp]:
  "isr_cnt (sem_signalled s k) = isr_cnt k" "lock_cnt (sem_signalled s k) = lock_cnt k"
  "r_current (sem_signalled s k) = r_current k" "s_cnt (sem_signalled s k) = (s_cnt k)(s := s_cnt k s + 1)"
  "class_I (sem_signalled s k) = class_I k" "class_S (sem_signalled s k) = class_S k"
  by (simp_all add: sem_signalled_def class_I_def class_S_def split: list.splits)

lemma make_ready_then_pu:
  "set_pu t (Rdymsg u) (make_ready t (queue_dequeue t k)) = woken t u k"
proof -
  have swap: "x\<lparr>p_state := a, p_u := b\<rparr> = x\<lparr>p_u := b, p_state := a\<rparr>" for x :: thread_t and a b by simp
  show ?thesis
    by (rule ch_system.equality)
      (simp_all add: woken_def make_ready_def upd_thd_def set_queue_def queue_dequeue_def swap)
qed

lemma ready_then_pu:
  assumes "sched_ok k" "class_I k" "state_of k t \<noteq> CH_STATE_READY" "state_of k t \<noteq> CH_STATE_FINAL"
  shows "do { k \<leftarrow> chSchReadyI t (queue_dequeue t k); f (set_pu t (Rdymsg u) k) } = f (woken t u k)"
  using chSchReadyI_eq [of "queue_dequeue t k" t] assms sched_okD(7) [OF assms(1), of t]
  by (simp add: make_ready_then_pu)

lemma pu_then_ready:
  assumes "sched_ok k" "class_I k" "state_of k t \<noteq> CH_STATE_READY" "state_of k t \<noteq> CH_STATE_FINAL"
  shows "chSchReadyI t (set_pu t (Rdymsg u) (queue_dequeue t k)) = Some (woken t u k)"
  unfolding woken_def using assms sched_okD(7) [OF assms(1), of t] by (intro chSchReadyI_eq) auto

lemma fifo_remove_sem:
  assumes "kernel_ok k" "queues k (Q_SEM s) = t # ts"
  shows "queue_fifo_remove (Q_SEM s) (set_cnt s n k) = Some (t, queue_dequeue t (set_cnt s n k))"
  using set_queue_fifo [of "set_cnt s n k" "Q_SEM s" t ts] kernel_okD(1) [OF assms(1)] assms(2)
  by (simp add: queue_fifo_remove_def)

lemma chSemSignalI_eq:
  assumes ok: "kernel_ok k" and "class_I k" "cnt_fits (s_cnt k s + 1)"
  shows "chSemSignalI s k = Some (sem_signalled s k)"
proof (cases "queues k (Q_SEM s)")
  case Nil
  then have "0 \<le> s_cnt k s" using sem_ok_queue [OF kernel_okD(3) [OF ok]] by blast
  then show ?thesis
    using assms Nil sem_ok_consistent [OF kernel_okD(3) [OF ok]]
    by (simp add: chSemSignalI_def sem_signalled_def Let_def)
next
  case (Cons t ts)
  note h = sem_head [OF ok Cons]
  have "chSchReadyI t (set_pu t (Rdymsg MSG_OK) (queue_dequeue t (set_cnt s (s_cnt k s + 1) k))) =
      Some (woken t MSG_OK (set_cnt s (s_cnt k s + 1) k))"
    using kernel_okD(1) [OF ok] assms(2) h(1) by (intro pu_then_ready) auto
  then show ?thesis
    using assms h Cons sem_ok_consistent [OF kernel_okD(3) [OF ok]] fifo_remove_sem [OF ok Cons]
    by (simp add: chSemSignalI_def sem_signalled_def Let_def)
qed

text \<open>The same step as \<open>chSemAddCounterI\<close> and \<open>chSemSignalWait\<close> write it.\<close>

lemma signal_step:
  assumes "kernel_ok k" "class_I k"
  shows "(if s_cnt k s + 1 \<le> 0
       then do { (tp, k) \<leftarrow> queue_fifo_remove (Q_SEM s) (set_cnt s (s_cnt k s + 1) k);
                 k \<leftarrow> chSchReadyI tp k;
                 Some (set_pu tp (Rdymsg MSG_OK) k) }
       else Some (set_cnt s (s_cnt k s + 1) k)) = Some (sem_signalled s k)"
proof (cases "queues k (Q_SEM s)")
  case Nil
  then show ?thesis using sem_ok_queue [OF kernel_okD(3) [OF assms(1)], of s]
    by (simp add: sem_signalled_def)
next
  case (Cons t ts)
  then show ?thesis
    using sem_head [OF assms(1) Cons] fifo_remove_sem [OF assms(1) Cons] assms(2)
      ready_then_pu [of "set_cnt s (s_cnt k s + 1) k" t Some MSG_OK] kernel_okD(1) [OF assms(1)]
    by (simp add: sem_signalled_def)
qed

text \<open>Adding \<open>n\<close> to the counter is \<open>n\<close> signals in a row.\<close>

lemma sem_add_loop_eq:
  assumes "kernel_ok k" "class_I k" "0 \<le> s_cnt k s + n \<longrightarrow> cnt_fits (s_cnt k s + n)" "cnt_fits (s_cnt k s)"
  shows "sem_add_loop s n k = Some ((sem_signalled s ^^ nat n) k)"
  using assms
proof (induction "nat n" arbitrary: n k)
  case 0
  then show ?case by (subst sem_add_loop.simps) simp
next
  case (Suc m)
  then have n: "n > 0" "nat n = Suc (nat (n - 1))" by simp_all
  have fit: "cnt_fits (s_cnt k s + 1)"
    using Suc.prems(3,4) n by (cases "0 \<le> s_cnt k s + n") (auto simp: cnt_fits_def)
  have "sem_add_loop s (n - 1) (sem_signalled s k) = Some ((sem_signalled s ^^ nat (n - 1)) (sem_signalled s k))"
    using Suc.prems Suc.hyps n fit by (intro Suc.hyps(1)) (auto simp: sem_signalled_ok)
  then show ?case
    using n fit signal_step [OF Suc.prems(1,2), of s] unfolding n(2) by (subst sem_add_loop.simps) (simp add: Let_def funpow_swap1)
qed

lemma chSemAddCounterI_eq:
  assumes "kernel_ok k" "class_I k" "cnt_fits (s_cnt k s)" "0 < n" "cnt_fits (s_cnt k s + n)"
  shows "chSemAddCounterI s n k = Some ((sem_signalled s ^^ nat n) k)"
  using assms sem_add_loop_eq [of k s n] sem_ok_consistent [OF kernel_okD(3) [OF assms(1)]]
  by (simp add: chSemAddCounterI_def)

lemma funpow_signalled_ok: "kernel_ok k \<Longrightarrow> kernel_ok ((sem_signalled s ^^ n) k)"
  by (induction n) (simp_all add: sem_signalled_ok)

text \<open>Waiting on a semaphore with no units: the caller joins the queue and sleeps.\<close>

definition sem_enqueued :: "nat \<Rightarrow> ch_system \<Rightarrow> ch_system" where
  "sem_enqueued s k =
     set_queue (Q_SEM s) (queues k (Q_SEM s) @ [r_current k])
       (set_pu (r_current k) (Wtobjp (Q_SEM s)) (set_cnt s (s_cnt k s - 1) k))"

lemma sem_enqueued_simps [simp]:
  "r_current (sem_enqueued s k) = r_current k" "can_sleep time (sem_enqueued s k) = can_sleep time k"
  "class_S (sem_enqueued s k) = class_S k" "tref (sem_enqueued s k) = tref k"
  "s_cnt (sem_enqueued s k) = (s_cnt k)(s := s_cnt k s - 1)"
  "queues (sem_enqueued s k) = (queues k)(Q_SEM s := queues k (Q_SEM s) @ [r_current k])"
  "vt_remaining (sem_enqueued s k) = vt_remaining k"
  by (simp_all add: sem_enqueued_def)

lemma kernel_ok_sem_wait:
  assumes ok: "kernel_ok k" and ne: "queues k Q_RLIST \<noteq> []" and cnt: "s_cnt k s \<le> 0"
    and k1: "core k1 = core (sem_enqueued s k)"
  shows "kernel_ok (sleeping CH_STATE_WTSEM k1)" "resched_ok (sleeping CH_STATE_WTSEM k1)"
proof -
  note s = kernel_okD(1) [OF ok]
  have un: "r_current k \<notin> set (queues k (Q_SEM s))" using sched_okD(2) [OF s] by (simp add: unqueued_def)
  have "sem_ok (sem_enqueued s k)"
    using kernel_okD(3) [OF ok] cnt by (auto simp: sem_ok_def nat_diff_distrib)
  then have sem: "sem_ok k1" by (simp add: sem_ok_def coreD(2,5) [OF k1])
  have "kernel_ok (sleeping (qstate (Q_SEM s)) k1)"
    using ok ne un sem apart_distinct [OF sched_okD(1) [OF s]] k1
    by (intro kernel_ok_sleeping_in [where k' = "set_cnt s (s_cnt k s - 1) k" and
          xs = "queues k (Q_SEM s) @ [r_current k]" and q = "Q_SEM s"])
      (auto simp: sem_enqueued_def)
  then show "kernel_ok (sleeping CH_STATE_WTSEM k1)" by simp
  obtain t ts where r: "queues k Q_RLIST = t # ts" using ne by (cases "queues k Q_RLIST") auto
  then have "queues k1 Q_RLIST = t # ts" "\<And>x. prio_of k1 x = prio_of k x"
    by (simp_all add: coreD(1,2) [OF k1] sem_enqueued_def)
  then show "resched_ok (sleeping CH_STATE_WTSEM k1)" using resched_ok_sleeping [OF s r] by blast
qed

lemma chSemWaitS_eq:
  assumes "kernel_ok k" "can_sleep TIME_INFINITE k" "cnt_fits (s_cnt k s - 1)"
  shows "chSemWaitS s k = Some (if 0 < s_cnt k s then (Done MSG_OK, set_cnt s (s_cnt k s - 1) k)
           else (Switched, sleeping CH_STATE_WTSEM (sem_enqueued s k)))"
proof -
  have "chSchGoSleepS CH_STATE_WTSEM (sem_enqueued s k) = Some (sleeping CH_STATE_WTSEM (sem_enqueued s k))"
    using assms(2) by (intro chSchGoSleepS_eq) (auto simp: can_sleep_def)
  then show ?thesis
    using assms sem_ok_consistent [OF kernel_okD(3) [OF assms(1)], of s] cnt_add_fits [of "s_cnt k s" "- 1"]
    by (simp add: chSemWaitS_def can_sleep_class queue_insert_def sem_enqueued_def Let_def)
qed

lemma chSemWaitTimeoutS_block:
  assumes "kernel_ok k" "can_sleep time k" "time \<noteq> TIME_IMMEDIATE" "cnt_fits (s_cnt k s - 1)" "s_cnt k s \<le> 0"
  shows "\<exists>k1. chSemWaitTimeoutS s time k = Some (Switched, sleeping CH_STATE_WTSEM k1) \<and>
           timed time (sem_enqueued s k) k1"
  using assms chSchGoSleepTimeoutS_ok [of time "sem_enqueued s k" CH_STATE_WTSEM]
    sem_ok_consistent [OF kernel_okD(3) [OF assms(1)], of s] cnt_add_fits [of "s_cnt k s" "- 1"]
  by (auto simp: chSemWaitTimeoutS_def can_sleep_class queue_insert_def sem_enqueued_def Let_def)

lemma chSemWaitTimeoutS_free:
  assumes "kernel_ok k" "class_S k" "cnt_fits (s_cnt k s - 1)" "0 < s_cnt k s"
  shows "chSemWaitTimeoutS s time k = Some (Done MSG_OK, set_cnt s (s_cnt k s - 1) k)"
  using assms sem_ok_consistent [OF kernel_okD(3) [OF assms(1)], of s] cnt_add_fits [of "s_cnt k s" "- 1"]
  by (simp add: chSemWaitTimeoutS_def Let_def)

lemma set_cnt_back [simp]: "set_cnt s (s_cnt k s) (set_cnt s n k) = k"
  by (simp add: set_cnt_def)

lemma chSemWaitTimeoutS_immediate:
  assumes "kernel_ok k" "class_S k" "cnt_fits (s_cnt k s - 1)" "cnt_fits (s_cnt k s)" "s_cnt k s \<le> 0"
  shows "chSemWaitTimeoutS s TIME_IMMEDIATE k = Some (Done MSG_TIMEOUT, k)"
  using assms sem_ok_consistent [OF kernel_okD(3) [OF assms(1)], of s]
    cnt_add_fits [of "s_cnt k s" "- 1"] cnt_add_fits [of "s_cnt k s - 1" 1]
  by (simp add: chSemWaitTimeoutS_def Let_def)

lemma kernel_ok_sem_take:
  "kernel_ok k \<Longrightarrow> 0 < s_cnt k s \<Longrightarrow> kernel_ok (set_cnt s (s_cnt k s - 1) k)"
  by (auto simp: kernel_ok_def sem_ok_def)

text \<open>Signalling from a thread: a woken thread of higher priority runs at once.\<close>

definition sem_signalled_S :: "nat \<Rightarrow> ch_system \<Rightarrow> unit outcome \<times> ch_system" where
  "sem_signalled_S s k =
     (case queues k (Q_SEM s) of
        [] \<Rightarrow> (Done (), set_cnt s (s_cnt k s + 1) k)
      | t # ts \<Rightarrow> wakeupS t MSG_OK (set_cnt s (s_cnt k s + 1) k))"

lemma sem_signalled_S_ok:
  assumes "kernel_ok k"
  shows "kernel_ok (snd (sem_signalled_S s k))"
proof (cases "queues k (Q_SEM s)")
  case Nil
  then show ?thesis using sem_signalled_ok [OF assms, of s] by (simp add: sem_signalled_S_def sem_signalled_def)
next
  case (Cons t ts)
  then show ?thesis
    using kernel_ok_timeout(2) [OF assms, of t MSG_OK] sem_head [OF assms Cons] by (simp add: sem_signalled_S_def)
qed

lemma resched_ok_wakeupS:
  assumes "sched_ok k" "resched_ok k" "t \<noteq> r_current k" "state_of k t \<noteq> CH_STATE_READY"
  shows "resched_ok (snd (wakeupS t u k))"
proof -
  have un: "t \<notin> set (queues k Q_RLIST)" using sched_okD(4) [OF assms(1), of t Q_RLIST] assms(4) by auto
  have le: "prio_of k x \<le> prio_of k (r_current k)" if "x \<in> set (queues k Q_RLIST)" for x
    using resched_ok_highest [OF assms(1,2), of x] sched_okD(4) [OF assms(1) that] by simp
  have "prio_of k (hd (prio_insert (prio_of k) y (queues k Q_RLIST))) \<le> p"
    if "prio_of k y \<le> p" "prio_of k (r_current k) \<le> p" for y p
    using le [of "hd (queues k Q_RLIST)"] that by (auto simp: hd_prio_insert)
  then show ?thesis using un by (simp add: wakeupS_def resched_ok_iff unqueue_def)
qed

lemma chSemSignal_eq:
  assumes ok: "kernel_ok k" and th: "class_thread k" and "resched_ok k" "cnt_fits (s_cnt k s + 1)"
  shows "chSemSignal s k = Some (unlocked (sem_signalled_S s (k\<lparr>lock_cnt := 1\<rparr>)))"
    "resched_ok (snd (sem_signalled_S s (k\<lparr>lock_cnt := 1\<rparr>)))"
proof -
  define k0 where "k0 = k\<lparr>lock_cnt := 1\<rparr>"
  have k0: "kernel_ok k0" "resched_ok k0" "class_S k0" "s_cnt k0 = s_cnt k" "queues k0 = queues k"
    using assms by (simp_all add: k0_def class_S_def class_thread_def)
  have con: "sem_consistent s k" using ok by (simp add: kernel_okD sem_ok_consistent)
  have "chSemSignal s k = Some (unlocked (sem_signalled_S s k0)) \<and> resched_ok (snd (sem_signalled_S s k0))"
  proof (cases "queues k (Q_SEM s)")
    case Nil
    then have "0 \<le> s_cnt k s" using sem_ok_queue [OF kernel_okD(3) [OF ok]] by blast
    moreover have "resched_ok (set_cnt s (s_cnt k s + 1) k0)" using k0(2) by (simp add: resched_ok_iff)
    ultimately show ?thesis
      using assms(4) k0 Nil con chSysUnlock_resched [of "set_cnt s (s_cnt k s + 1) k0"]
      by (simp add: chSemSignal_def sem_signalled_S_def Let_def chSysLock_ok [OF th] k0_def [symmetric])
  next
    case (Cons t ts)
    define k1 where "k1 = set_cnt s (s_cnt k s + 1) k0"
    note h = sem_head [OF k0(1), of s t ts]
    have k1: "sched_ok k1" "class_S k1" "t \<noteq> r_current k1" "state_of k1 t = CH_STATE_WTSEM"
      using kernel_okD(1) [OF k0(1)] k0 Cons h by (simp_all add: k1_def)
    have w: "chSchWakeupS t MSG_OK (queue_dequeue t k1) = Some (wakeupS t MSG_OK k1)"
      using k1 by (intro chSchWakeupS_eq) auto
    have r: "resched_ok (snd (wakeupS t MSG_OK k1))"
      using k1 k0(2) by (intro resched_ok_wakeupS) (auto simp: k1_def resched_ok_iff)
    have f: "queue_fifo_remove (Q_SEM s) k1 = Some (t, queue_dequeue t k1)"
      using fifo_remove_sem [OF k0(1)] Cons k0 by (simp add: k1_def)
    have "s_cnt k s < 0" using h Cons k0 by simp
    then show ?thesis
      using assms(4) k0 Cons con w r f chSysUnlock_resched [of "snd (wakeupS t MSG_OK k1)"] k1(2)
      by (simp add: chSemSignal_def sem_signalled_S_def Let_def chSysLock_ok [OF th] k0_def [symmetric]
          k1_def [symmetric]) (auto simp: wakeupS_def)
  qed
  then show "chSemSignal s k = Some (unlocked (sem_signalled_S s (k\<lparr>lock_cnt := 1\<rparr>)))"
    "resched_ok (snd (sem_signalled_S s (k\<lparr>lock_cnt := 1\<rparr>)))"
    by (simp_all add: k0_def)
qed

text \<open>A reset wakes every waiting thread with \<open>MSG_RESET\<close>, the last one first.\<close>

lemma lifo_remove_eq:
  assumes "sched_ok k" "queues k q = ts @ [t]"
  shows "queue_lifo_remove q k = Some (t, queue_dequeue t k)"
  using set_queue_lifo [OF assms] assms(2) by (simp add: queue_lifo_remove_def)

lemma sem_reset_loop_eq:
  assumes "sched_ok k" "class_I k" "queues k (Q_SEM s) = xs" "length xs = nat (- cnt)" "cnt_fits (cnt + 1)"
    "cnt \<ge> - (2 ^ 31)"
  shows "sem_reset_loop s cnt k = Some (woken_all MSG_RESET (rev xs) k)"
  using assms
proof (induction xs arbitrary: cnt k rule: rev_induct)
  case Nil
  then show ?case by (subst sem_reset_loop.simps) simp
next
  case (snoc t xs)
  then have cnt: "cnt < 0" "length xs = nat (- (cnt + 1))" by auto
  have st: "state_of k t = CH_STATE_WTSEM" using sched_okD(4) [OF snoc.prems(1), of t "Q_SEM s"] snoc.prems(3) by simp
  have tx: "t \<notin> set xs" using apart_distinct [OF sched_okD(1) [OF snoc.prems(1)], of "Q_SEM s"] snoc.prems(3) by simp
  have tc: "t \<noteq> r_current k" using sched_okD(3) [OF snoc.prems(1), of t] st by auto
  have "sem_reset_loop s (cnt + 1) (woken t MSG_RESET k) = Some (woken_all MSG_RESET (rev xs) (woken t MSG_RESET k))"
    using snoc.prems cnt tx sched_ok_woken [OF snoc.prems(1) tc]
    by (intro snoc.IH) (auto simp: unqueue_def cnt_fits_def)
  then show ?case
    using snoc.prems(5) cnt st lifo_remove_eq [OF snoc.prems(1,3)]
      ready_then_pu [OF snoc.prems(1,2), of t "\<lambda>k. sem_reset_loop s (cnt + 1) k" MSG_RESET]
    by (subst sem_reset_loop.simps) (simp add: woken_all_Cons)
qed

lemma chSemResetI_eq:
  assumes ok: "kernel_ok k" and "class_I k" "0 \<le> n" "cnt_fits (s_cnt k s + 1)" "cnt_fits (s_cnt k s)"
  shows "chSemResetI s n k = Some (woken_all MSG_RESET (rev (queues k (Q_SEM s))) (set_cnt s n k))"
    "kernel_ok (woken_all MSG_RESET (rev (queues k (Q_SEM s))) (set_cnt s n k))"
proof -
  note sc = kernel_okD(1) [OF ok]
  have len: "length (queues k (Q_SEM s)) = nat (- s_cnt k s)" using kernel_okD(3) [OF ok] by (simp add: sem_ok_def)
  show "chSemResetI s n k = Some (woken_all MSG_RESET (rev (queues k (Q_SEM s))) (set_cnt s n k))"
    using assms len sc sem_ok_consistent [OF kernel_okD(3) [OF ok]]
      sem_reset_loop_eq [of "set_cnt s n k" s "queues k (Q_SEM s)" "s_cnt k s"]
    by (simp add: chSemResetI_def Let_def cnt_fits_def)
  have ws: "t \<in> set (queues k (Q_SEM s)) \<Longrightarrow> state_of k t = CH_STATE_WTSEM" for t
    using sched_okD(4) [OF sc, of t "Q_SEM s"] by simp
  have rc: "r_current k \<notin> set (queues k (Q_SEM s))" using sched_okD(2) [OF sc] by (simp add: unqueued_def)
  have other: "filter (\<lambda>x. x \<notin> set (queues k (Q_SEM s))) (queues k (Q_SEM i)) = queues k (Q_SEM i)" if "i \<noteq> s" for i
    using apart_same [OF sched_okD(1) [OF sc], of _ "Q_SEM i" "Q_SEM s"] that by (auto simp: filter_id_conv)
  have "sem_ok (woken_all MSG_RESET (rev (queues k (Q_SEM s))) (set_cnt s n k))"
    using kernel_okD(3) [OF ok] assms(3) other by (auto simp: sem_ok_def queues_woken_all filter_empty_conv)
  then show "kernel_ok (woken_all MSG_RESET (rev (queues k (Q_SEM s))) (set_cnt s n k))"
    using sc kernel_okD(2) [OF ok] rc ws
    by (auto simp: kernel_ok_def intro!: sched_ok_woken_all wait_ok_woken_all)
qed

lemma chSemSignalWait_eq:
  assumes ok: "kernel_ok k" and th: "class_thread k"
    and fit: "cnt_fits (s_cnt k sps + 1)" "cnt_fits (s_cnt (sem_signalled sps k) spw - 1)"
    and ne: "queues k Q_RLIST \<noteq> []"
  shows "chSemSignalWait sps spw k =
    (let k1 = sem_signalled sps (k\<lparr>lock_cnt := 1\<rparr>)
     in Some (if 0 < s_cnt k1 spw
              then case rescheduled (set_cnt spw (s_cnt k1 spw - 1) k1) of
                     (Done _, k2) \<Rightarrow> (Done MSG_OK, k2\<lparr>lock_cnt := 0\<rparr>) | (Switched, k2) \<Rightarrow> (Switched, k2)
              else (Switched, sleeping CH_STATE_WTSEM (sem_enqueued spw k1))))"
proof -
  define k0 where "k0 = k\<lparr>lock_cnt := 1\<rparr>"
  define k1 where "k1 = sem_signalled sps k0"
  define k2 where "k2 = set_cnt spw (s_cnt k1 spw - 1) k1"
  have k0: "kernel_ok k0" "class_S k0" "class_I k0" "s_cnt k0 = s_cnt k" "queues k0 = queues k"
    using ok th by (simp_all add: k0_def class_S_def class_I_def class_thread_def)
  have con: "sem_consistent s k" for s using ok by (simp add: kernel_okD sem_ok_consistent)
  have k1: "kernel_ok k1" "class_S k1" "s_cnt k1 = (s_cnt k)(sps := s_cnt k sps + 1)"
    using k0 by (simp_all add: k1_def sem_signalled_ok)
  have fit2: "cnt_add (s_cnt k1 spw) (- 1) = Some (s_cnt k1 spw - 1)"
    using fit(2) k1(3) cnt_add_fits [of "s_cnt k1 spw" "- 1"] by simp
  have sig: "(if s_cnt k sps + 1 \<le> 0
       then do { (tp, k) \<leftarrow> queue_fifo_remove (Q_SEM sps) (set_cnt sps (s_cnt k sps + 1) k0);
                 k \<leftarrow> chSchReadyI tp k;
                 Some (set_pu tp (Rdymsg MSG_OK) k) }
       else Some (set_cnt sps (s_cnt k sps + 1) k0)) = Some k1"
    using signal_step [OF k0(1,3), of sps] unfolding k0(4) k1_def .
  have slp: "chSchGoSleepS CH_STATE_WTSEM (sem_enqueued spw k1) =
      Some (sleeping CH_STATE_WTSEM (sem_enqueued spw k1))"
    using k1(2) ne k0(5) by (intro chSchGoSleepS_eq) (auto simp: k1_def sem_signalled_def unqueue_def split: list.splits)
  have enq: "sem_enqueued spw k1 = set_pu (r_current k2) (Wtobjp (Q_SEM spw)) (queue_insert (r_current k2) (Q_SEM spw) k2)"
    by (rule ch_system.equality) (simp_all add: sem_enqueued_def k2_def queue_insert_def fun_eq_iff)
  have res: "chSchRescheduleS k2 = Some (rescheduled k2)" if "0 < s_cnt k1 spw"
    using kernel_okD(1) [OF kernel_ok_sem_take [OF k1(1) that]] k1(2) by (intro chSchRescheduleS_eq) (simp_all add: k2_def)
  have unl: "chSysUnlock k2 = Some (k2\<lparr>lock_cnt := 0\<rparr>)" if "resched_ok k2"
    using k1(2) that by (intro chSysUnlock_resched) (simp_all add: k2_def)
  have head: "chSemSignalWait sps spw k =
      (if s_cnt k2 spw < 0
       then do { k \<leftarrow> chSchGoSleepS CH_STATE_WTSEM (sem_enqueued spw k1); Some (Switched, k) }
       else do { r \<leftarrow> chSchRescheduleS k2;
                 andthen r (\<lambda>_ k. do { k \<leftarrow> chSysUnlock k; Some (Done MSG_OK, k) }) })"
    unfolding chSemSignalWait_def Let_def chSysLock_ok [OF th] k0_def [symmetric] enq
    using con fit(1) fit2 sig by (simp add: k0(4) k2_def cong: if_cong)
  have cnt: "s_cnt k2 spw < 0 \<longleftrightarrow> \<not> 0 < s_cnt k1 spw" by (auto simp: k2_def)
  show ?thesis
    unfolding head cnt k0_def [symmetric] k1_def [symmetric] Let_def k2_def [symmetric]
    using slp res unl by (simp add: rescheduled_def)
qed

subsection \<open>The interface of a semaphore\<close>

text \<open>
  To its clients a semaphore is a number of units and a queue of threads. The abstract operations:
\<close>

type_synonym sem_spec = "nat \<times> tid list"

definition sem_abs :: "ch_system \<Rightarrow> nat \<Rightarrow> sem_spec" where
  "sem_abs k s = (nat (s_cnt k s), queues k (Q_SEM s))"

fun spec_signal :: "sem_spec \<Rightarrow> sem_spec" where
  "spec_signal (n, []) = (n + 1, [])"
| "spec_signal (n, t # ts) = (n, ts)"

fun spec_wait :: "tid \<Rightarrow> sem_spec \<Rightarrow> sem_spec" where
  "spec_wait t (n, q) = (if 0 < n then (n - 1, q) else (n, q @ [t]))"

lemma sem_abs_signalled:
  assumes "kernel_ok k"
  shows "sem_abs (sem_signalled s k) i = (if i = s then spec_signal (sem_abs k s) else sem_abs k i)"
proof (cases "queues k (Q_SEM s)")
  case Nil
  then have "0 \<le> s_cnt k s" using sem_ok_queue [OF kernel_okD(3) [OF assms]] by blast
  then show ?thesis using Nil by (auto simp: sem_abs_def sem_signalled_def)
next
  case (Cons t ts)
  note ap = sched_okD(1) [OF kernel_okD(1) [OF assms]]
  have "i \<noteq> s \<Longrightarrow> t \<notin> set (queues k (Q_SEM i))"
    using apart_same [OF ap, of t "Q_SEM i" "Q_SEM s"] Cons by auto
  moreover have "t \<notin> set ts" using apart_distinct [OF ap, of "Q_SEM s"] Cons by simp
  ultimately show ?thesis
    using Cons sem_head(3) [OF assms Cons] by (auto simp: sem_abs_def sem_signalled_def unqueue_def)
qed

interpretation sem_signal: class_I_op "chSemSignalI s" "\<lambda>k. cnt_fits (s_cnt k s + 1)"
  using chSemSignalI_eq sem_signalled_ok by unfold_locales simp

interpretation sem_reset: class_I_op "chSemResetI s n"
  "\<lambda>k. 0 \<le> n \<and> cnt_fits (s_cnt k s) \<and> cnt_fits (s_cnt k s + 1)"
  using chSemResetI_eq by unfold_locales simp

interpretation sem_add: class_I_op "chSemAddCounterI s n"
  "\<lambda>k. 0 < n \<and> cnt_fits (s_cnt k s) \<and> cnt_fits (s_cnt k s + n)"
proof
  have same: "isr_cnt ((sem_signalled s ^^ m) k) = isr_cnt k \<and> lock_cnt ((sem_signalled s ^^ m) k) = lock_cnt k \<and>
      r_current ((sem_signalled s ^^ m) k) = r_current k" for m k
    by (induction m) auto
  fix k
  assume "kernel_ok k" "class_I k" "0 < n \<and> cnt_fits (s_cnt k s) \<and> cnt_fits (s_cnt k s + n)"
  then show "\<exists>k'. chSemAddCounterI s n k = Some k' \<and> kernel_ok k' \<and> isr_cnt k' = isr_cnt k \<and>
      lock_cnt k' = lock_cnt k \<and> r_current k' = r_current k"
    using chSemAddCounterI_eq [of k s n] funpow_signalled_ok [of k _ s] same by simp
qed

interpretation bsem_signal: class_I_op "chBSemSignalI s" "\<lambda>k. cnt_fits (s_cnt k s)"
proof
  fix k
  assume k: "kernel_ok k" "class_I k" "cnt_fits (s_cnt k s)"
  then have "s_cnt k s < 1 \<Longrightarrow> cnt_fits (s_cnt k s + 1)" by (simp add: cnt_fits_def)
  with k show "\<exists>k'. chBSemSignalI s k = Some k' \<and> kernel_ok k' \<and> isr_cnt k' = isr_cnt k \<and>
      lock_cnt k' = lock_cnt k \<and> r_current k' = r_current k"
    using chSemSignalI_eq [of k s] sem_signalled_ok [of k s]
    by (simp add: chBSemSignalI_def)
qed

subsection \<open>Properties\<close>

text \<open>
  C24. Signalling a semaphore from a critical zone always returns, keeps the kernel invariant and
  implements the abstract semaphore: with no thread waiting one more unit is available, otherwise
  the thread that has waited longest leaves the queue, ready to run with message \<open>MSG_OK\<close>. No other
  semaphore changes.
\<close>

theorem chSemSignalI_refines:
  assumes "kernel_ok k" "class_I k" "cnt_fits (s_cnt k s + 1)"
  shows "\<exists>k'. chSemSignalI s k = Some k' \<and> kernel_ok k' \<and>
           (\<forall>i. sem_abs k' i = (if i = s then spec_signal (sem_abs k s) else sem_abs k i)) \<and>
           (\<forall>t. state_of k' t = (if queues k (Q_SEM s) \<noteq> [] \<and> t = hd (queues k (Q_SEM s))
                                then CH_STATE_READY else state_of k t)) \<and>
           (queues k (Q_SEM s) \<noteq> [] \<longrightarrow> rdymsg_of (hd (queues k (Q_SEM s))) k' = Some MSG_OK)"
proof (intro exI conjI)
  show "chSemSignalI s k = Some (sem_signalled s k)" using assms by (rule chSemSignalI_eq)
  show "kernel_ok (sem_signalled s k)" using assms(1) by (rule sem_signalled_ok)
  show "\<forall>i. sem_abs (sem_signalled s k) i = (if i = s then spec_signal (sem_abs k s) else sem_abs k i)"
    using sem_abs_signalled [OF assms(1)] by blast
qed (auto simp: sem_signalled_def rdymsg_of_def split: list.splits)

text \<open>The main thread waits on semaphore 0 of the freshly started system.\<close>

definition sys_waiting :: ch_system where
  "sys_waiting = sleeping CH_STATE_WTSEM (sem_enqueued 0 (sys0\<lparr>lock_cnt := 1\<rparr>))"

lemma sys_waiting_facts:
  "kernel_ok sys_waiting" "class_S sys_waiting" "queues sys_waiting (Q_SEM 0) = [0]" "s_cnt sys_waiting 0 = - 1"
  "r_current sys_waiting = 1" "state_of sys_waiting 0 = CH_STATE_WTSEM" "sem_abs sys_waiting 0 = (0, [0])"
proof -
  show "kernel_ok sys_waiting" unfolding sys_waiting_def
    by (rule kernel_ok_sem_wait(1) [where k = "sys0\<lparr>lock_cnt := 1\<rparr>" and s = 0])
      (simp_all add: sys0_kernel_ok, simp_all add: sys0_def)
qed (simp_all add: sys_waiting_def class_S_def sem_enqueued_def sem_abs_def, simp_all add: sys0_def)

theorem chSemSignalI_refines_witness:
  "\<exists>k'. chSemSignalI 0 sys_waiting = Some k' \<and> kernel_ok k' \<and> sem_abs k' 0 = (0, []) \<and>
     state_of k' 0 = CH_STATE_READY \<and> rdymsg_of 0 k' = Some MSG_OK"
  using chSemSignalI_refines [of sys_waiting 0] sys_waiting_facts class_S_I [of sys_waiting]
  by (auto simp: cnt_fits_def)

text \<open>
  Waiting with a time-out has exactly three outcomes. With a unit available it takes the unit
  and returns \<open>MSG_OK\<close>. Without one, a time-out of zero returns \<open>MSG_TIMEOUT\<close> and leaves the
  system as it was; any other time-out puts the caller last in the semaphore's queue with its timer
  armed and runs the highest-priority ready thread.
\<close>

theorem chSemWaitTimeoutS_outcomes:
  assumes ok: "kernel_ok k" and sl: "class_S k" "time \<noteq> TIME_IMMEDIATE \<longrightarrow> can_sleep time k"
    and fit: "cnt_fits (s_cnt k s)" "cnt_fits (s_cnt k s - 1)"
  shows "if 0 < s_cnt k s then
           chSemWaitTimeoutS s time k = Some (Done MSG_OK, set_cnt s (s_cnt k s - 1) k) \<and>
           kernel_ok (set_cnt s (s_cnt k s - 1) k)
         else if time = TIME_IMMEDIATE then chSemWaitTimeoutS s time k = Some (Done MSG_TIMEOUT, k)
         else \<exists>k'. chSemWaitTimeoutS s time k = Some (Switched, k') \<and> kernel_ok k' \<and> resched_ok k' \<and>
                sem_abs k' s = spec_wait (r_current k) (sem_abs k s) \<and>
                state_of k' (r_current k) = CH_STATE_WTSEM \<and> r_current k' = hd (queues k Q_RLIST) \<and>
                (time \<noteq> TIME_INFINITE \<longrightarrow> vt_remaining k' =
                   insert_due (Vt_thd (r_current k)) (int (unat (vt_delay time))) (vt_remaining k))"
proof -
  consider "0 < s_cnt k s" | "s_cnt k s \<le> 0" "time = TIME_IMMEDIATE"
    | (blk) "s_cnt k s \<le> 0" "time \<noteq> TIME_IMMEDIATE" by linarith
  then show ?thesis
  proof cases
    case blk
    then obtain k1 where k1: "chSemWaitTimeoutS s time k = Some (Switched, sleeping CH_STATE_WTSEM k1)"
        "timed time (sem_enqueued s k) k1"
      using chSemWaitTimeoutS_block [OF ok _ _ fit(2)] sl by blast
    have ne: "queues k Q_RLIST \<noteq> []" using sl blk by (simp add: can_sleep_def)
    have core: "core k1 = core (sem_enqueued s k)" using k1(2) by (simp add: timed_def)
    note kk = kernel_ok_sem_wait [OF ok ne blk(1) core]
    have rc: "r_current k \<noteq> hd (queues k Q_RLIST)"
      using sched_okD(2) [OF kernel_okD(1) [OF ok]] ne hd_in_set unfolding unqueued_def by metis
    have "sem_abs (sleeping CH_STATE_WTSEM k1) s = spec_wait (r_current k) (sem_abs k s)"
      using blk(1) by (simp add: sem_abs_def coreD(2,5) [OF core])
    moreover have "time \<noteq> TIME_INFINITE \<longrightarrow> vt_remaining (sleeping CH_STATE_WTSEM k1) =
        insert_due (Vt_thd (r_current k)) (int (unat (vt_delay time))) (vt_remaining k)"
      using k1(2) by (simp add: timed_def)
    ultimately show ?thesis
      using kk k1(1) rc blk by (simp add: coreD(2,3) [OF core])
  qed (use assms chSemWaitTimeoutS_free chSemWaitTimeoutS_immediate kernel_ok_sem_take in auto)
qed

theorem chSemWaitTimeoutS_outcomes_witness:
  "\<exists>k'. chSemWaitTimeoutS 0 100 (sys0\<lparr>lock_cnt := 1\<rparr>) = Some (Switched, k') \<and> kernel_ok k' \<and>
     sem_abs k' 0 = (0, [0]) \<and> vt_remaining k' = [(Vt_thd 0, 100)]"
proof -
  let ?k = "sys0\<lparr>lock_cnt := 1\<rparr>"
  have "can_sleep 100 ?k"
    using sys0_facts
    by (simp add: can_sleep_def class_S_def class_thread_def)
      (simp add: sys0_def TIME_IMMEDIATE_def vt_elapsed_def vt_delay_def CH_CFG_ST_TIMEDELTA_def)
  moreover have "vt_remaining ?k = []" "sem_abs ?k 0 = (0, [])" "s_cnt ?k 0 = 0" "r_current ?k = 0"
    by (simp_all add: sys0_def vt_remaining_def sem_abs_def)
  ultimately show ?thesis
    using chSemWaitTimeoutS_outcomes [of ?k 100 0] sys0_kernel_ok
    by (simp add: can_sleep_class cnt_fits_def TIME_IMMEDIATE_def TIME_INFINITE_def vt_delay_def
        CH_CFG_ST_TIMEDELTA_def) blast
qed

text \<open>
  A thread whose wait times out leaves the semaphore exactly as if it had never waited: the
  counter and the queue are what they were before the wait, and the thread is ready with message
  \<open>MSG_TIMEOUT\<close>.
\<close>

theorem sem_timeout_undoes_wait:
  assumes ok: "kernel_ok k" and sl: "can_sleep time k" and t: "time \<noteq> TIME_IMMEDIATE"
    and cnt: "s_cnt k s \<le> 0" "cnts_fit k" "cnt_fits (s_cnt k s - 1)"
    and wait: "chSemWaitTimeoutS s time k = Some (Switched, k1)"
    and isr: "0 < n"
  shows "\<exists>k2. wakeup (r_current k) (k1\<lparr>isr_cnt := n, lock_cnt := 0\<rparr>) = Some k2 \<and> kernel_ok k2 \<and>
           sem_abs k2 s = sem_abs k s \<and> s_cnt k2 s = s_cnt k s \<and>
           state_of k2 (r_current k) = CH_STATE_READY \<and> rdymsg_of (r_current k) k2 = Some MSG_TIMEOUT"
proof -
  obtain k' where k': "k1 = sleeping CH_STATE_WTSEM k'" "timed time (sem_enqueued s k) k'"
    using chSemWaitTimeoutS_block [OF ok sl t cnt(3,1)] wait by auto
  have ne: "queues k Q_RLIST \<noteq> []" using sl by (simp add: can_sleep_def)
  have core: "core k' = core (sem_enqueued s k)" using k'(2) by (simp add: timed_def)
  define ki where "ki = k1\<lparr>isr_cnt := n, lock_cnt := 0\<rparr>"
  have kk: "kernel_ok ki"
    using kernel_ok_sem_wait(1) [OF ok ne cnt(1) core] k'(1)
    by (simp add: ki_def kernel_ok_def sched_ok_def wait_ok_def sem_ok_def)
  have rc: "r_current k \<noteq> hd (queues k Q_RLIST)"
    using sched_okD(2) [OF kernel_okD(1) [OF ok]] ne hd_in_set unfolding unqueued_def by metis
  have un: "r_current k \<notin> set (queues k q)" for q
    using sched_okD(2) [OF kernel_okD(1) [OF ok]] by (simp add: unqueued_def)
  have st: "state_of ki (r_current k) = CH_STATE_WTSEM" "p_u (thd ki (r_current k)) = Wtobjp (Q_SEM s)"
      "s_cnt ki = (s_cnt k)(s := s_cnt k s - 1)" "queues ki (Q_SEM s) = queues k (Q_SEM s) @ [r_current k]"
    using rc by (simp_all add: ki_def k' coreD [OF core]) (simp add: sem_enqueued_def)
  have cf: "cnts_fit ki" using cnt(2,3) st(3) by (simp add: cnts_fit_def)
  have w: "wakeup (r_current k) ki = Some (woken (r_current k) MSG_TIMEOUT (timeout_obj (r_current k) ki))"
    using kk cf isr st by (intro wakeup_timeout) (auto simp: ki_def class_isr_def)
  have obj: "s_cnt (timeout_obj (r_current k) ki) = s_cnt k" using st by (simp add: timeout_obj_def)
  show ?thesis
    unfolding ki_def [symmetric] w
    using kernel_ok_timeout(1) [OF kk, of "r_current k" MSG_TIMEOUT] st obj un
    by (simp add: sem_abs_def unqueue_def rdymsg_of_def)
qed

theorem sem_timeout_undoes_wait_witness:
  "\<exists>k1 k2. chSemWaitTimeoutS 0 100 (sys0\<lparr>lock_cnt := 1\<rparr>) = Some (Switched, k1) \<and>
     wakeup 0 (k1\<lparr>isr_cnt := 1, lock_cnt := 0\<rparr>) = Some k2 \<and> kernel_ok k2 \<and> s_cnt k2 0 = 0 \<and>
     rdymsg_of 0 k2 = Some MSG_TIMEOUT"
proof -
  let ?k = "sys0\<lparr>lock_cnt := 1\<rparr>"
  have sl: "can_sleep 100 ?k"
    using sys0_facts
    by (simp add: can_sleep_def class_S_def class_thread_def)
      (simp add: sys0_def TIME_IMMEDIATE_def vt_elapsed_def vt_delay_def CH_CFG_ST_TIMEDELTA_def)
  have k: "kernel_ok ?k" "s_cnt ?k 0 = 0" "r_current ?k = 0" "cnts_fit ?k"
    using sys0_kernel_ok sys0_facts by (simp_all, simp_all add: sys0_def cnts_fit_def)
  obtain k1 where k1: "chSemWaitTimeoutS 0 100 ?k = Some (Switched, k1)"
    using chSemWaitTimeoutS_block [OF k(1) sl, of 0] k(2) by (auto simp: TIME_IMMEDIATE_def cnt_fits_def)
  show ?thesis
    using sem_timeout_undoes_wait [OF k(1) sl _ _ k(4) _ k1, of 1] k k1
    by (auto simp: TIME_IMMEDIATE_def cnt_fits_def)
qed

fun iterate :: "nat \<Rightarrow> ('s \<Rightarrow> 's option) \<Rightarrow> 's \<Rightarrow> 's option" where
  "iterate 0 f s = Some s"
| "iterate (Suc n) f s = do { s \<leftarrow> f s; iterate n f s }"

lemma iterate_signal:
  assumes "kernel_ok k" "class_I k" "cnt_fits (s_cnt k s)" "cnt_fits (s_cnt k s + int n)"
  shows "iterate n (chSemSignalI s) k = Some ((sem_signalled s ^^ n) k)"
  using assms
proof (induction n arbitrary: k)
  case (Suc n)
  have fit: "cnt_fits (s_cnt k s + 1)" using Suc.prems(3,4) by (simp add: cnt_fits_def)
  have "iterate n (chSemSignalI s) (sem_signalled s k) = Some ((sem_signalled s ^^ n) (sem_signalled s k))"
    using Suc.prems fit by (intro Suc.IH) (auto simp: sem_signalled_ok algebra_simps)
  then show ?case using chSemSignalI_eq [OF Suc.prems(1,2) fit] by (simp add: funpow_swap1)
qed simp

text \<open>
  \<open>chSemAddCounterI\<close> with argument \<open>n\<close> is the same as \<open>n\<close> successive calls of \<open>chSemSignalI\<close>,
  although its loop is written out separately; the kernel invariant holds afterwards.
\<close>

theorem chSemAddCounterI_is_signals:
  assumes "kernel_ok k" "class_I k" "cnt_fits (s_cnt k s)" "0 < n" "cnt_fits (s_cnt k s + n)"
  shows "chSemAddCounterI s n k = iterate (nat n) (chSemSignalI s) k \<and>
         (\<exists>k'. chSemAddCounterI s n k = Some k' \<and> kernel_ok k' \<and> s_cnt k' s = s_cnt k s + n)"
proof -
  have "s_cnt ((sem_signalled s ^^ m) k) s = s_cnt k s + int m" for m by (induction m) auto
  then show ?thesis
    using chSemAddCounterI_eq [OF assms] iterate_signal [OF assms(1-3), of "nat n"] assms(4,5)
      funpow_signalled_ok [OF assms(1)] by simp
qed

theorem chSemAddCounterI_is_signals_witness:
  "chSemAddCounterI 0 3 sys_waiting = iterate 3 (chSemSignalI 0) sys_waiting \<and>
   (\<exists>k'. chSemAddCounterI 0 3 sys_waiting = Some k' \<and> kernel_ok k' \<and> s_cnt k' 0 = 2)"
proof -
  have "class_I sys_waiting" "cnt_fits (s_cnt sys_waiting 0)" "0 < (3::int)" "cnt_fits (s_cnt sys_waiting 0 + 3)"
    using sys_waiting_facts class_S_I [of sys_waiting] by (simp_all add: cnt_fits_def)
  note h = chSemAddCounterI_is_signals [OF sys_waiting_facts(1) this]
  have e: "nat 3 = 3" "s_cnt sys_waiting 0 + 3 = 2" using sys_waiting_facts by simp_all
  show ?thesis using h unfolding e .
qed

text \<open>
  Resetting a semaphore from a thread wakes every waiting thread with \<open>MSG_RESET\<close>, leaves the
  queue empty and the counter at the new value, keeps the kernel invariant, and ends with the
  highest-priority thread running.
\<close>

theorem chSemReset_wakes_all:
  assumes ok: "kernel_ok k" and th: "class_thread k" and n: "0 \<le> n"
    and fit: "cnt_fits (s_cnt k s)" "cnt_fits (s_cnt k s + 1)"
  shows "\<exists>out k'. chSemReset s n k = Some (out, k') \<and> kernel_ok k' \<and> resched_ok k' \<and>
           s_cnt k' s = n \<and> queues k' (Q_SEM s) = [] \<and>
           (\<forall>t \<in> set (queues k (Q_SEM s)).
              runnable k' t \<and> rdymsg_of t k' = Some MSG_RESET)"
proof -
  define k0 where "k0 = k\<lparr>lock_cnt := 1\<rparr>"
  define k1 where "k1 = woken_all MSG_RESET (rev (queues k (Q_SEM s))) (set_cnt s n k0)"
  have "chSemReset s n k = lock_resched (chSemResetI s n) k" by (simp add: chSemReset_def lock_resched_def)
  moreover have "chSemResetI s n k0 = Some k1"
    using chSemResetI_eq(1) [of k0 n s] assms by (simp add: k0_def k1_def class_I_def class_thread_def)
  ultimately have res: "chSemReset s n k = Some (unlocked (rescheduled k1))"
      "kernel_ok (snd (unlocked (rescheduled k1)))" "resched_ok (snd (unlocked (rescheduled k1)))"
    using sem_reset.from_thread [OF ok th, of n s] n fit by (auto simp: k0_def)
  have k1: "s_cnt k1 s = n" "queues k1 (Q_SEM s) = []"
      "t \<in> set (queues k (Q_SEM s)) \<Longrightarrow> runnable k1 t \<and> rdymsg_of t k1 = Some MSG_RESET" for t
    by (simp_all add: k1_def k0_def queues_woken_all runnable_def rdymsg_of_def)
  show ?thesis
    using res k1 by (intro exI [of _ "fst (unlocked (rescheduled k1))"] exI [of _ "snd (unlocked (rescheduled k1))"]) auto
qed

theorem chSemReset_wakes_all_witness:
  "\<exists>out k'. chSemReset 0 5 (sys_waiting\<lparr>lock_cnt := 0\<rparr>) = Some (out, k') \<and> kernel_ok k' \<and> s_cnt k' 0 = 5 \<and>
     rdymsg_of 0 k' = Some MSG_RESET"
  using chSemReset_wakes_all [of "sys_waiting\<lparr>lock_cnt := 0\<rparr>" 5 0] sys_waiting_facts
  by (auto simp: cnt_fits_def class_thread_def class_S_def)

end
