(* ===== verification/ChMtx.thy ===== *)
theory ChMtx
  imports ChSem
begin

text \<open>
  Mutexes with priority inheritance, \<open>chmtx.c\<close> and \<open>chmtx.h\<close> (non-recursive configuration).

  A mutex is a number \<open>m\<close>: \<open>m_owner k m\<close> is its owner and \<open>queues k (Q_MTX m)\<close> its queue, ordered by
  priority. The list of mutexes a thread owns, linked through \<open>m_next\<close> in the code, is the list
  \<open>p_mtxlist\<close>, last acquired first.

  The invariant \<open>mtx_ok\<close> is the priority inheritance protocol: ownership and the owned lists agree,
  and the priority of a thread is the maximum of its own priority and the priorities of the
  threads waiting for a mutex it owns.
\<close>

subsection \<open>The operations\<close>

definition set_owner :: "nat \<Rightarrow> tid option \<Rightarrow> ch_system \<Rightarrow> ch_system" where
  "set_owner mp ow k = k\<lparr>m_owner := (m_owner k)(mp := ow)\<rparr>"

abbreviation "set_mtxlist t ms \<equiv> upd_thd t (\<lambda>x. x\<lparr>p_mtxlist := ms\<rparr>)"

abbreviation mtxlist_of :: "ch_system \<Rightarrow> tid \<Rightarrow> nat list" where
  "mtxlist_of k t \<equiv> p_mtxlist (thd k t)"

definition chMtxObjectInit :: "nat \<Rightarrow> ch_system \<Rightarrow> ch_system" where
  "chMtxObjectInit mp k = set_owner mp None (queue_init (Q_MTX mp) k)"

definition chMtxQueueNotEmptyS :: "nat \<Rightarrow> ch_system \<Rightarrow> bool option" where
  "chMtxQueueNotEmptyS mp k = do { chDbgCheckClassS k; Some (queue_notempty (Q_MTX mp) k) }"

definition chMtxGetNextMutexS :: "ch_system \<Rightarrow> nat option" where
  "chMtxGetNextMutexS k = (case mtxlist_of k (r_current k) of [] \<Rightarrow> None | m # ms \<Rightarrow> Some m)"

text \<open>
  The loop of \<open>chMtxLockS\<close> that raises the owner, the owner of the mutex that owner waits for, and
  so on, to the priority \<open>p\<close> of the caller.
\<close>

partial_function (option) mtx_boost :: "tprio_t \<Rightarrow> tid \<Rightarrow> ch_system \<Rightarrow> ch_system option" where
  "mtx_boost p tp k =
     (if prio_of k tp < p
      then (let k = set_prio tp p k
            in case state_of k tp of
                 CH_STATE_WTMTX \<Rightarrow>
                   (case p_u (thd k tp) of
                      Wtobjp (Q_MTX m) \<Rightarrow>
                        (let k = queue_prio_insert tp (Q_MTX m) (queue_dequeue tp k)
                         in case m_owner k m of Some t \<Rightarrow> mtx_boost p t k | None \<Rightarrow> None)
                    | _ \<Rightarrow> None)
               | CH_STATE_WTCOND \<Rightarrow>
                   (case p_u (thd k tp) of
                      Wtobjp q \<Rightarrow> Some (queue_prio_insert tp q (queue_dequeue tp k))
                    | _ \<Rightarrow> None)
               | CH_STATE_READY \<Rightarrow>
                   chSchReadyI tp (queue_dequeue tp (set_state tp CH_STATE_CURRENT k))
               | _ \<Rightarrow> Some k)
      else Some k)"

definition mtx_take :: "nat \<Rightarrow> tid \<Rightarrow> ch_system \<Rightarrow> ch_system" where
  "mtx_take mp t k = set_mtxlist t (mp # mtxlist_of k t) (set_owner mp (Some t) k)"

definition chMtxLockS :: "nat \<Rightarrow> ch_system \<Rightarrow> (unit outcome \<times> ch_system) option" where
  "chMtxLockS mp k =
     do { let ctp = r_current k;
          chDbgCheckClassS k;
          case m_owner k mp of
            Some tp \<Rightarrow>
              do { k \<leftarrow> mtx_boost (prio_of k ctp) tp k;
                   let k = queue_prio_insert ctp (Q_MTX mp) k;
                   let k = set_pu ctp (Wtobjp (Q_MTX mp)) k;
                   k \<leftarrow> chSchGoSleepS CH_STATE_WTMTX k;
                   Some (Switched, k) }
          | None \<Rightarrow> Some (Done (), mtx_take mp ctp k) }"

definition chMtxLockS_resume :: "nat \<Rightarrow> ch_system \<Rightarrow> unit option" where
  "chMtxLockS_resume mp k =
     do { let ctp = r_current k;
          assert_that (m_owner k mp = Some ctp);
          assert_that (mtxlist_of k ctp \<noteq> [] \<and> hd (mtxlist_of k ctp) = mp) }"

definition chMtxLock :: "nat \<Rightarrow> ch_system \<Rightarrow> (unit outcome \<times> ch_system) option" where
  "chMtxLock mp k =
     do { k \<leftarrow> chSysLock k; r \<leftarrow> chMtxLockS mp k;
          andthen r (\<lambda>_ k. do { k \<leftarrow> chSysUnlock k; Some (Done (), k) }) }"

definition chMtxTryLockS :: "nat \<Rightarrow> ch_system \<Rightarrow> (bool \<times> ch_system) option" where
  "chMtxTryLockS mp k =
     do { chDbgCheckClassS k;
          if m_owner k mp \<noteq> None then Some (False, k)
          else Some (True, mtx_take mp (r_current k) k) }"

definition chMtxTryLock :: "nat \<Rightarrow> ch_system \<Rightarrow> (bool \<times> ch_system) option" where
  "chMtxTryLock mp k =
     do { k \<leftarrow> chSysLock k; (b, k) \<leftarrow> chMtxTryLockS mp k; k \<leftarrow> chSysUnlock k; Some (b, k) }"

text \<open>The loop that recomputes the priority of a thread from the mutexes it still owns.\<close>

fun mtx_newprio :: "ch_system \<Rightarrow> tprio_t \<Rightarrow> nat list \<Rightarrow> tprio_t option" where
  "mtx_newprio k newprio [] = Some newprio"
| "mtx_newprio k newprio (lmp # ms) =
     do { b \<leftarrow> chMtxQueueNotEmptyS lmp k;
          if b \<and> prio_of k (hd (queues k (Q_MTX lmp))) > newprio
          then mtx_newprio k (prio_of k (hd (queues k (Q_MTX lmp)))) ms
          else mtx_newprio k newprio ms }"

definition chMtxUnlockS :: "nat \<Rightarrow> ch_system \<Rightarrow> ch_system option" where
  "chMtxUnlockS mp k =
     do { let ctp = r_current k;
          chDbgCheckClassS k;
          assert_that (mtxlist_of k ctp \<noteq> []);
          assert_that (m_owner k (hd (mtxlist_of k ctp)) = Some ctp);
          assert_that (hd (mtxlist_of k ctp) = mp);
          let k = set_mtxlist ctp (tl (mtxlist_of k ctp)) k;
          b \<leftarrow> chMtxQueueNotEmptyS mp k;
          if b
          then do { newprio \<leftarrow> mtx_newprio k (p_realprio (thd k ctp)) (mtxlist_of k ctp);
                    let k = set_prio ctp newprio k;
                    (tp, k) \<leftarrow> queue_fifo_remove (Q_MTX mp) k;
                    let k = mtx_take mp tp k;
                    chSchReadyI tp k }
          else Some (set_owner mp None k) }"

definition chMtxUnlock :: "nat \<Rightarrow> ch_system \<Rightarrow> (unit outcome \<times> ch_system) option" where
  "chMtxUnlock mp k =
     do { let ctp = r_current k;
          k \<leftarrow> chSysLock k;
          assert_that (mtxlist_of k ctp \<noteq> []);
          assert_that (m_owner k (hd (mtxlist_of k ctp)) = Some ctp);
          assert_that (hd (mtxlist_of k ctp) = mp);
          let k = set_mtxlist ctp (tl (mtxlist_of k ctp)) k;
          b \<leftarrow> chMtxQueueNotEmptyS mp k;
          r \<leftarrow> (if b
                then do { newprio \<leftarrow> mtx_newprio k (p_realprio (thd k ctp)) (mtxlist_of k ctp);
                          let k = set_prio ctp newprio k;
                          (tp, k) \<leftarrow> queue_fifo_remove (Q_MTX mp) k;
                          let k = mtx_take mp tp k;
                          k \<leftarrow> chSchReadyI tp k;
                          chSchRescheduleS k }
                else Some (Done (), set_owner mp None k));
          andthen r (\<lambda>_ k. do { k \<leftarrow> chSysUnlock k; Some (Done (), k) }) }"

text \<open>The loop of \<open>chMtxUnlockAll\<close> over the owned mutexes.\<close>

partial_function (option) mtx_unlock_loop :: "tid \<Rightarrow> ch_system \<Rightarrow> ch_system option" where
  "mtx_unlock_loop ctp k =
     (case mtxlist_of k ctp of
        [] \<Rightarrow> Some k
      | mp # ms \<Rightarrow>
          do { let k = set_mtxlist ctp ms k;
               b \<leftarrow> chMtxQueueNotEmptyS mp k;
               k \<leftarrow> (if b
                     then do { (tp, k) \<leftarrow> queue_fifo_remove (Q_MTX mp) k;
                               let k = mtx_take mp tp k;
                               chSchReadyI tp k }
                     else Some (set_owner mp None k));
               mtx_unlock_loop ctp k })"

definition chMtxUnlockAll :: "ch_system \<Rightarrow> (unit outcome \<times> ch_system) option" where
  "chMtxUnlockAll k =
     do { let ctp = r_current k;
          k \<leftarrow> chSysLock k;
          r \<leftarrow> (if mtxlist_of k ctp \<noteq> []
                then do { k \<leftarrow> mtx_unlock_loop ctp k;
                          let k = set_prio ctp (p_realprio (thd k ctp)) k;
                          chSchRescheduleS k }
                else Some (Done (), k));
          andthen r (\<lambda>_ k. do { k \<leftarrow> chSysUnlock k; Some (Done (), k) }) }"

subsection \<open>The priority inheritance protocol\<close>

definition waits_for :: "ch_system \<Rightarrow> tid \<Rightarrow> tid \<Rightarrow> bool" where
  "waits_for k w t \<longleftrightarrow> (\<exists>m. m_owner k m = Some t \<and> w \<in> set (queues k (Q_MTX m)))"

definition mtx_owned_ok :: "ch_system \<Rightarrow> bool" where
  "mtx_owned_ok k \<longleftrightarrow>
     (\<forall>m t. m_owner k m = Some t \<longleftrightarrow> m \<in> set (mtxlist_of k t)) \<and> (\<forall>t. distinct (mtxlist_of k t)) \<and>
     (\<forall>m. queues k (Q_MTX m) \<noteq> [] \<longrightarrow> m_owner k m \<noteq> None) \<and> (\<forall>t. NOPRIO < p_realprio (thd k t))"

text \<open>A thread runs at its own priority or at that of a thread waiting for it.\<close>

definition tight_at :: "ch_system \<Rightarrow> tid \<Rightarrow> bool" where
  "tight_at k t \<longleftrightarrow>
     prio_of k t = p_realprio (thd k t) \<or> (\<exists>w. waits_for k w t \<and> prio_of k w = prio_of k t)"

definition mtx_ok :: "ch_system \<Rightarrow> bool" where
  "mtx_ok k \<longleftrightarrow>
     mtx_owned_ok k \<and> (\<forall>t. p_realprio (thd k t) \<le> prio_of k t) \<and>
     (\<forall>w t. waits_for k w t \<longrightarrow> prio_of k w \<le> prio_of k t) \<and> (\<forall>t. tight_at k t)"

subsection \<open>Changing the priority of a thread in place\<close>

text \<open>A thread in a priority-ordered queue gets a new priority and is queued again.\<close>

definition reprio :: "tid \<Rightarrow> tprio_t \<Rightarrow> qid \<Rightarrow> ch_system \<Rightarrow> ch_system" where
  "reprio t p q k = queue_prio_insert t q (queue_dequeue t (set_prio t p k))"

lemma reprio_simps [simp]:
  "r_current (reprio t p q k) = r_current k" "s_cnt (reprio t p q k) = s_cnt k"
  "m_owner (reprio t p q k) = m_owner k" "tref (reprio t p q k) = tref k"
  "isr_cnt (reprio t p q k) = isr_cnt k" "lock_cnt (reprio t p q k) = lock_cnt k"
  "state_of (reprio t p q k) x = state_of k x" "p_u (thd (reprio t p q k) x) = p_u (thd k x)"
  "prio_of (reprio t p q k) x = (if x = t then p else prio_of k x)"
  "p_realprio (thd (reprio t p q k) x) = p_realprio (thd k x)"
  "mtxlist_of (reprio t p q k) x = mtxlist_of k x"
  "class_I (reprio t p q k) = class_I k" "class_S (reprio t p q k) = class_S k"
  by (simp_all add: reprio_def queue_prio_insert_def)

lemma prio_set_prio: "prio_of (set_prio t p k) = (prio_of k)(t := p)"
  by (rule ext) simp

lemma prio_reprio: "prio_of (reprio t p q k) = (prio_of k)(t := p)"
  by (rule ext) simp

lemma queues_reprio:
  "queues (reprio t p q k) =
     (unqueue t (queues k))(q := prio_insert ((prio_of k)(t := p)) t (unqueue t (queues k) q))"
  by (simp add: reprio_def queue_prio_insert_def prio_set_prio [symmetric])

lemma set_reprio:
  "set (queues (reprio t p q k) q') = (if q' = q then insert t (set (queues k q)) else set (queues k q') - {t})"
  by (auto simp: reprio_def queue_prio_insert_def unqueue_def)

lemma set_reprio_in:
  assumes "sched_ok k" "t \<in> set (queues k q)"
  shows "set (queues (reprio t p q k) q') = set (queues k q')"
proof -
  have "q' \<noteq> q \<Longrightarrow> t \<notin> set (queues k q')"
    using apart_same [OF sched_okD(1) [OF assms(1)], of t q' q] assms(2) by auto
  then show ?thesis using assms(2) by (auto simp: set_reprio)
qed

lemma queue_reprio_other:
  assumes "sched_ok k" "t \<in> set (queues k q)" "q' \<noteq> q"
  shows "queues (reprio t p q k) q' = queues k q'"
proof -
  have "t \<notin> set (queues k q')"
    using apart_same [OF sched_okD(1) [OF assms(1)], of t q' q] assms(2,3) by auto
  then show ?thesis using assms(3) by (simp add: reprio_def queue_prio_insert_def unqueue_def)
qed

lemma sched_ok_reprio:
  assumes ok: "sched_ok k" and t: "t \<in> set (queues k q)" and q: "by_prio q" and p: "NOPRIO < p"
  shows "sched_ok (reprio t p q k)"
proof -
  note S = set_reprio_in [OF ok t, of p]
  have d: "distinct (queues (reprio t p q k) q')" for q'
    using apart_distinct [OF sched_okD(1) [OF ok]] by (auto simp: reprio_def queue_prio_insert_def unqueue_def)
  have srt: "prio_sorted (prio_of (reprio t p q k)) (queues (reprio t p q k) q')" if "by_prio q'" for q'
  proof -
    define F where "F = (prio_of k)(t := p)"
    have "prio_sorted F (filter (\<lambda>x. x \<noteq> t) (queues k q'))"
      using prio_sorted_remove [OF sched_okD(6) [OF ok that], of "\<lambda>x. x \<noteq> t"]
        prio_sorted_cong [of "filter (\<lambda>x. x \<noteq> t) (queues k q')" F "prio_of k"] by (simp add: F_def)
    then have "prio_sorted F (queues (reprio t p q k) q')"
      unfolding queues_reprio F_def [symmetric] by (auto simp: unqueue_def intro: prio_sorted_insert)
    then show ?thesis
      using prio_sorted_cong [of _ F "prio_of (reprio t p q k)"] by (simp add: F_def)
  qed
  show ?thesis
    unfolding sched_ok_def apart_def unqueued_def S Ball_def
    using d srt sched_okD [OF ok] p apart_same [OF sched_okD(1) [OF ok]] by (auto simp: unqueued_def)
qed

lemma sched_ok_set_prio:
  assumes ok: "sched_ok k" and t: "\<And>q. by_prio q \<Longrightarrow> t \<notin> set (queues k q)" and p: "NOPRIO < p"
  shows "sched_ok (set_prio t p k)"
proof -
  have "prio_sorted (prio_of (set_prio t p k)) (queues k q)" if "by_prio q" for q
    by (rule prio_sorted_cong [of "queues k q" "prio_of k", THEN iffD1])
      (use sched_okD(6) [OF ok that] t [OF that] in auto)
  moreover have "\<forall>x. NOPRIO < prio_of (set_prio t p k) x" using sched_okD(7) [OF ok] p by simp
  ultimately show ?thesis using ok unfolding sched_ok_def by simp
qed

lemma kernel_ok_reprio:
  assumes ok: "kernel_ok k" and t: "t \<in> set (queues k q)" and q: "by_prio q" and p: "NOPRIO < p"
  shows "kernel_ok (reprio t p q k)"
proof -
  note s = kernel_okD(1) [OF ok]
  have "waits_at (queues (reprio t p q k)) (tref k) x (state_of k x) (p_u (thd k x))" for x
    by (rule waits_at_upd [of k]) (use wait_okD(1) [OF kernel_okD(2) [OF ok]] set_reprio_in [OF s t] in auto)
  then have "wait_ok (reprio t p q k)" using kernel_okD(2) [OF ok] by (simp add: wait_ok_def)
  moreover have "sem_ok (reprio t p q k)"
    using kernel_okD(3) [OF ok] queue_reprio_other [OF s t, of "Q_SEM _"] q
    by (cases q) (simp_all add: sem_ok_def)
  ultimately show ?thesis using sched_ok_reprio [OF s t q p] by (simp add: kernel_ok_def)
qed

lemma kernel_ok_set_prio:
  assumes "kernel_ok k" "\<And>q. by_prio q \<Longrightarrow> t \<notin> set (queues k q)" "NOPRIO < p"
  shows "kernel_ok (set_prio t p k)"
  using assms sched_ok_set_prio [OF kernel_okD(1) [OF assms(1)], of t p]
  by (auto simp: kernel_ok_def wait_ok_def sem_ok_def)

text \<open>What one round of the loop in \<open>chMtxLockS\<close> does to the thread it raises.\<close>

definition boosted :: "tid \<Rightarrow> tprio_t \<Rightarrow> ch_system \<Rightarrow> ch_system" where
  "boosted t p k =
     (if state_of k t = CH_STATE_READY then reprio t p Q_RLIST k
      else if state_of k t = CH_STATE_WTMTX \<or> state_of k t = CH_STATE_WTCOND
           then (case p_u (thd k t) of Wtobjp q \<Rightarrow> reprio t p q k | _ \<Rightarrow> k)
      else set_prio t p k)"

text \<open>Only priorities differ, and only by having been raised to \<open>p\<close>.\<close>

definition raised_to :: "tprio_t \<Rightarrow> ch_system \<Rightarrow> ch_system \<Rightarrow> bool" where
  "raised_to p k k' \<longleftrightarrow>
     r_current k' = r_current k \<and> m_owner k' = m_owner k \<and> tref k' = tref k \<and> s_cnt k' = s_cnt k \<and>
     isr_cnt k' = isr_cnt k \<and> lock_cnt k' = lock_cnt k \<and>
     (\<forall>x. state_of k' x = state_of k x \<and> p_u (thd k' x) = p_u (thd k x) \<and>
          p_realprio (thd k' x) = p_realprio (thd k x) \<and> mtxlist_of k' x = mtxlist_of k x \<and>
          (prio_of k' x = prio_of k x \<or> prio_of k x < p \<and> prio_of k' x = p)) \<and>
     (\<forall>q. set (queues k' q) = set (queues k q))"

lemma raised_to_refl [simp]: "raised_to p k k"
  by (simp add: raised_to_def)

lemma raised_to_trans: "raised_to p k k1 \<Longrightarrow> raised_to p k1 k2 \<Longrightarrow> raised_to p k k2"
  unfolding raised_to_def by (auto, metis+)

lemma raised_to_waits: "raised_to p k k' \<Longrightarrow> waits_for k' w t = waits_for k w t"
  by (simp add: raised_to_def waits_for_def)

lemma raised_to_owned: "raised_to p k k' \<Longrightarrow> mtx_owned_ok k' = mtx_owned_ok k"
  unfolding raised_to_def mtx_owned_ok_def by (metis list.set(1) set_empty)

lemma obj_waiter:
  assumes "wait_ok k" "obj_wait (state_of k t)"
  obtains q where "p_u (thd k t) = Wtobjp q" "t \<in> set (queues k q)" "qstate q = state_of k t"
  using wait_okD(1) [OF assms(1), of t] assms(2) by (auto simp: waits_at_def split: p_union.splits)

lemma boost_queue:
  assumes ok: "kernel_ok k"
    and st: "state_of k t = CH_STATE_READY \<or> state_of k t = CH_STATE_WTMTX \<or> state_of k t = CH_STATE_WTCOND"
  obtains q where "boosted t p k = reprio t p q k" "t \<in> set (queues k q)" "by_prio q" "qstate q = state_of k t"
    "state_of k t \<noteq> CH_STATE_READY \<Longrightarrow> p_u (thd k t) = Wtobjp q"
proof (cases "state_of k t = CH_STATE_READY")
  case True
  then show ?thesis using that [of Q_RLIST] sched_okD(5) [OF kernel_okD(1) [OF ok] True] by (simp add: boosted_def)
next
  case False
  then have "obj_wait (state_of k t)" using st by auto
  then obtain q where q: "p_u (thd k t) = Wtobjp q" "t \<in> set (queues k q)" "qstate q = state_of k t"
    using obj_waiter [OF kernel_okD(2) [OF ok]] by metis
  then have "by_prio q" using st False by (cases q) auto
  then show ?thesis using that [of q] q False st by (simp add: boosted_def)
qed

lemma boosted_ok:
  assumes ok: "kernel_ok k" and p: "NOPRIO < p" "prio_of k t < p"
  shows "kernel_ok (boosted t p k)" "raised_to p k (boosted t p k)" "prio_of (boosted t p k) t = p"
proof -
  have "kernel_ok (boosted t p k) \<and> raised_to p k (boosted t p k) \<and> prio_of (boosted t p k) t = p"
  proof (cases "state_of k t = CH_STATE_READY \<or> state_of k t = CH_STATE_WTMTX \<or> state_of k t = CH_STATE_WTCOND")
    case True
    then obtain q where q: "boosted t p k = reprio t p q k" "t \<in> set (queues k q)" "by_prio q"
      using boost_queue [OF ok] by metis
    show ?thesis
      unfolding q(1) using kernel_ok_reprio [OF ok q(2,3) p(1)] set_reprio_in [OF kernel_okD(1) [OF ok] q(2)] p(2)
      by (simp add: raised_to_def)
  next
    case False
    have "t \<notin> set (queues k q)" if "by_prio q" for q
      using sched_okD(4) [OF kernel_okD(1) [OF ok], of t q] False that by (cases q) auto
    then show ?thesis using False kernel_ok_set_prio [OF ok _ p(1), of t] p(2)
      by (simp add: boosted_def raised_to_def)
  qed
  then show "kernel_ok (boosted t p k)" "raised_to p k (boosted t p k)" "prio_of (boosted t p k) t = p"
    by blast+
qed

lemma ready_reprio:
  assumes ok: "sched_ok k" and cl: "class_I k" and st: "state_of k t = CH_STATE_READY" and p: "NOPRIO < p"
  shows "chSchReadyI t (queue_dequeue t (set_state t CH_STATE_CURRENT (set_prio t p k))) =
           Some (reprio t p Q_RLIST k)"
proof -
  define k1 where "k1 = queue_dequeue t (set_state t CH_STATE_CURRENT (set_prio t p k))"
  have "chSchReadyI t k1 = Some (make_ready t k1)"
    using cl p by (intro chSchReadyI_eq) (auto simp: k1_def)
  moreover have "make_ready t k1 = reprio t p Q_RLIST k"
  proof -
    have "(thd k t)\<lparr>p_prio := p, p_state := CH_STATE_READY\<rparr> = (thd k t)\<lparr>p_prio := p\<rparr>"
      by (rule thread_t.equality) (simp_all add: st)
    moreover have pr: "prio_of k1 = (prio_of k)(t := p)" by (rule ext) (simp add: k1_def)
    ultimately show ?thesis
      by (intro ch_system.equality)
        (simp_all add: make_ready_def pr queues_reprio fun_eq_iff,
         simp_all add: k1_def reprio_def queue_prio_insert_def)
  qed
  ultimately show ?thesis by (simp add: k1_def)
qed

text \<open>
  The invariant of the loop: \<open>t\<close> is the thread it looks at, \<open>t0\<close> the owner it started from, whose
  priority the caller, not yet queued, accounts for.
\<close>

definition boost_inv :: "tprio_t \<Rightarrow> tid \<Rightarrow> tid \<Rightarrow> ch_system \<Rightarrow> bool" where
  "boost_inv p t0 t k \<longleftrightarrow>
     kernel_ok k \<and> class_S k \<and> mtx_owned_ok k \<and> prio_of k (r_current k) = p \<and>
     (\<forall>x. p_realprio (thd k x) \<le> prio_of k x) \<and>
     (\<forall>w x. waits_for k w x \<longrightarrow> prio_of k w \<le> prio_of k x \<or> x = t \<and> prio_of k w \<le> p) \<and>
     (\<forall>x. tight_at k x \<or> x = t0 \<and> prio_of k x = p \<or> x = t \<and> prio_of k x < p) \<and>
     (t = t0 \<or> p \<le> prio_of k t0 \<and> (\<exists>w. waits_for k w t \<and> prio_of k w = p))"

lemma waits_for_unique:
  assumes "kernel_ok k" "waits_for k w x" "waits_for k w y"
  shows "x = y"
proof -
  obtain m m' where "m_owner k m = Some x" "w \<in> set (queues k (Q_MTX m))"
      "m_owner k m' = Some y" "w \<in> set (queues k (Q_MTX m'))"
    using assms(2,3) by (auto simp: waits_for_def)
  then show ?thesis
    using apart_same [OF sched_okD(1) [OF kernel_okD(1) [OF assms(1)]], of w "Q_MTX m" "Q_MTX m'"] by simp
qed

text \<open>One round: after raising \<open>t\<close>, either it is the last one or its own owner comes next.\<close>

lemma boost_inv_step:
  assumes inv: "boost_inv p t0 t k" and lt: "prio_of k t < p"
    and nxt: "\<And>y. waits_for k t y \<Longrightarrow> y = t'"
  shows "boost_inv p t0 t' (boosted t p k) \<or> \<not> (\<exists>y. waits_for k t y)"
    and "\<not> (\<exists>y. waits_for k t y) \<Longrightarrow> boost_inv p t0 t0 (boosted t p k) \<and> p \<le> prio_of (boosted t p k) t0"
proof -
  define k' where "k' = boosted t p k"
  have ok: "kernel_ok k" and own: "mtx_owned_ok k" and cur: "prio_of k (r_current k) = p" and S: "class_S k"
    and real: "p_realprio (thd k x) \<le> prio_of k x"
    and le: "waits_for k w x \<Longrightarrow> prio_of k w \<le> prio_of k x \<or> x = t \<and> prio_of k w \<le> p"
    and tight: "tight_at k x \<or> x = t0 \<and> prio_of k x = p \<or> x = t \<and> prio_of k x < p"
    and first: "t = t0 \<or> p \<le> prio_of k t0 \<and> (\<exists>w. waits_for k w t \<and> prio_of k w = p)" for w x
    using inv by (auto simp: boost_inv_def)
  have pos: "NOPRIO < p" using sched_okD(7) [OF kernel_okD(1) [OF ok], of "r_current k"] cur by simp
  note b = boosted_ok [OF ok pos lt, folded k'_def]
  have pr: "prio_of k' x = (if x = t then p else prio_of k x)" for x
  proof -
    have "prio_of (reprio t p q k) x = (if x = t then p else prio_of k x)" for q by simp
    then show ?thesis using lt b(3) unfolding k'_def boosted_def by (auto split: p_union.splits if_splits)
  qed
  have w: "waits_for k' u x = waits_for k u x" for u x using raised_to_waits [OF b(2)] .
  have fr: "r_current k' = r_current k" "class_S k'" "p_realprio (thd k' x) = p_realprio (thd k x)" for x
    using b(2) S by (auto simp: raised_to_def class_S_def)
  have ct: "r_current k \<noteq> t" using cur lt by auto
  have base: "kernel_ok k'" "class_S k'" "mtx_owned_ok k'" "prio_of k' (r_current k') = p"
      "p_realprio (thd k' x) \<le> prio_of k' x" for x
    using b fr own raised_to_owned [OF b(2)] real [of x] lt pr ct cur by (auto intro: less_imp_le order.trans)
  have t0: "p \<le> prio_of k' t0" using first pr by auto
  have le': "prio_of k' u \<le> prio_of k' x \<or> u = t" if "waits_for k u x" for u x
    using le [OF that] lt pr by auto
  have tight': "tight_at k' x \<or> x = t0 \<and> prio_of k' x = p \<or> waits_for k t x \<and> prio_of k' x < p" for x
  proof (cases "x = t")
    case True
    then show ?thesis using first pr w lt unfolding tight_at_def by (metis less_irrefl)
  next
    case False
    then consider "tight_at k x" | "x = t0 \<and> prio_of k x = p" using tight [of x] by auto
    then show ?thesis
    proof cases
      case 1
      then consider "prio_of k x = p_realprio (thd k x)" | u where "waits_for k u x" "prio_of k u = prio_of k x"
        unfolding tight_at_def by blast
      then show ?thesis
      proof cases
        case (2 u)
        then show ?thesis using False pr w lt by (cases "u = t") (auto simp: tight_at_def)
      qed (use False pr fr(3) in \<open>simp add: tight_at_def\<close>)
    qed (use False pr in auto)
  qed
  show "boost_inv p t0 t' (boosted t p k) \<or> \<not> (\<exists>y. waits_for k t y)"
  proof (cases "\<exists>y. waits_for k t y")
    case True
    then have tt': "waits_for k t t'" using nxt by blast
    have 1: "\<forall>u x. waits_for k' u x \<longrightarrow> prio_of k' u \<le> prio_of k' x \<or> x = t' \<and> prio_of k' u \<le> p"
      using le' nxt pr w by (metis order_refl)
    have 2: "\<forall>x. tight_at k' x \<or> x = t0 \<and> prio_of k' x = p \<or> x = t' \<and> prio_of k' x < p"
      using tight' nxt by blast
    have 3: "t' = t0 \<or> p \<le> prio_of k' t0 \<and> (\<exists>w. waits_for k' w t' \<and> prio_of k' w = p)"
      using tt' w pr t0 by auto
    show ?thesis using base 1 2 3 unfolding k'_def [symmetric] boost_inv_def by blast
  qed simp
  assume none: "\<not> (\<exists>y. waits_for k t y)"
  have 1: "\<forall>u x. waits_for k' u x \<longrightarrow> prio_of k' u \<le> prio_of k' x \<or> x = t0 \<and> prio_of k' u \<le> p"
    using le' none w by blast
  have 2: "\<forall>x. tight_at k' x \<or> x = t0 \<and> prio_of k' x = p \<or> x = t0 \<and> prio_of k' x < p"
    using tight' none by blast
  show "boost_inv p t0 t0 (boosted t p k) \<and> p \<le> prio_of (boosted t p k) t0"
    using base 1 2 t0 unfolding k'_def [symmetric] boost_inv_def by blast
qed

lemma mtx_boost_unfold:
  assumes ok: "kernel_ok k" and own: "mtx_owned_ok k" and cl: "class_S k" and lt: "prio_of k t < p"
    and pos: "NOPRIO < p"
  shows "if state_of k t = CH_STATE_WTMTX
         then \<exists>t'. waits_for k t t' \<and> mtx_boost p t k = mtx_boost p t' (boosted t p k)
         else mtx_boost p t k = Some (boosted t p k) \<and> \<not> (\<exists>y. waits_for k t y)"
proof -
  have no: "\<not> (\<exists>y. waits_for k t y)" if "state_of k t \<noteq> CH_STATE_WTMTX"
    using sched_okD(4) [OF kernel_okD(1) [OF ok], of t "Q_MTX _"] that by (auto simp: waits_for_def)
  consider (mtx) "state_of k t = CH_STATE_WTMTX" | (cond) "state_of k t = CH_STATE_WTCOND"
    | (ready) "state_of k t = CH_STATE_READY"
    | (other) "state_of k t \<noteq> CH_STATE_WTMTX" "state_of k t \<noteq> CH_STATE_WTCOND" "state_of k t \<noteq> CH_STATE_READY"
    by blast
  then show ?thesis
  proof cases
    case mtx
    then obtain q where q: "boosted t p k = reprio t p q k" "t \<in> set (queues k q)" "qstate q = CH_STATE_WTMTX"
        "p_u (thd k t) = Wtobjp q"
      using boost_queue [OF ok, of t p] by auto
    then obtain m where m: "q = Q_MTX m" by (cases q) auto
    then have "queues k (Q_MTX m) \<noteq> []" using q(2) by auto
    then obtain t' where t': "m_owner k m = Some t'"
      using own unfolding mtx_owned_ok_def by (metis not_Some_eq)
    have "mtx_boost p t k = mtx_boost p t' (boosted t p k)"
      using mtx q m t' lt by (subst mtx_boost.simps) (simp add: reprio_def queue_prio_insert_def Let_def)
    then show ?thesis using mtx m t' q(2) by (auto simp: waits_for_def)
  next
    case cond
    then obtain q where "boosted t p k = reprio t p q k" "p_u (thd k t) = Wtobjp q"
      using boost_queue [OF ok, of t p] by auto
    then show ?thesis using cond lt no by (subst mtx_boost.simps) (simp add: reprio_def Let_def)
  next
    case ready
    then show ?thesis
      using lt no ready_reprio [OF kernel_okD(1) [OF ok] class_S_I [OF cl] ready pos]
      by (subst mtx_boost.simps) (simp add: boosted_def Let_def)
  next
    case other
    then show ?thesis
      using lt no by (subst mtx_boost.simps) (cases "state_of k t"; simp add: boosted_def Let_def)
  qed
qed

text \<open>The loop ends: each round raises one more of the threads that wait for a mutex.\<close>

lemma mtx_boost_ok:
  assumes "boost_inv p t0 t k" and "finite {x. state_of k x = CH_STATE_WTMTX}"
  shows "\<exists>k'. mtx_boost p t k = Some k' \<and> boost_inv p t0 t0 k' \<and> p \<le> prio_of k' t0 \<and> raised_to p k k'"
  using assms
proof (induction "card {x. state_of k x = CH_STATE_WTMTX \<and> prio_of k x < p}" arbitrary: k t rule: less_induct)
  case less
  have ok: "kernel_ok k" and own: "mtx_owned_ok k" and S: "class_S k" and cur: "prio_of k (r_current k) = p"
    using less.prems(1) by (auto simp: boost_inv_def)
  have pos: "NOPRIO < p" using sched_okD(7) [OF kernel_okD(1) [OF ok], of "r_current k"] cur by simp
  show ?case
  proof (cases "prio_of k t < p")
    case False
    have "mtx_boost p t k = Some k" using False by (subst mtx_boost.simps) simp
    moreover have "boost_inv p t0 t0 k" "p \<le> prio_of k t0"
      using less.prems(1) False unfolding boost_inv_def by (metis le_trans linorder_not_less)+
    ultimately show ?thesis by simp
  next
    case True
    note b = boosted_ok [OF ok pos True]
    note u = mtx_boost_unfold [OF ok own S True pos]
    show ?thesis
    proof (cases "state_of k t = CH_STATE_WTMTX")
      case mtx: True
      then obtain t' where t': "waits_for k t t'" "mtx_boost p t k = mtx_boost p t' (boosted t p k)"
        using u by auto
      have inv: "boost_inv p t0 t' (boosted t p k)"
        using boost_inv_step(1) [OF less.prems(1) True, of t'] waits_for_unique [OF ok t'(1)] t'(1) by metis
      have sub: "{x. state_of (boosted t p k) x = CH_STATE_WTMTX \<and> prio_of (boosted t p k) x < p} \<subset>
          {x. state_of k x = CH_STATE_WTMTX \<and> prio_of k x < p}"
      proof (rule psubsetI)
        show "{x. state_of (boosted t p k) x = CH_STATE_WTMTX \<and> prio_of (boosted t p k) x < p} \<subseteq>
            {x. state_of k x = CH_STATE_WTMTX \<and> prio_of k x < p}"
          using b(2) unfolding raised_to_def by auto (metis less_irrefl)
        have "t \<in> {x. state_of k x = CH_STATE_WTMTX \<and> prio_of k x < p}" using mtx True by simp
        moreover have "t \<notin> {x. state_of (boosted t p k) x = CH_STATE_WTMTX \<and> prio_of (boosted t p k) x < p}"
          using b(3) by simp
        ultimately show "{x. state_of (boosted t p k) x = CH_STATE_WTMTX \<and> prio_of (boosted t p k) x < p} \<noteq>
            {x. state_of k x = CH_STATE_WTMTX \<and> prio_of k x < p}" by blast
      qed
      have fin: "finite {x. state_of k x = CH_STATE_WTMTX \<and> prio_of k x < p}" using less.prems(2) by simp
      have "finite {x. state_of (boosted t p k) x = CH_STATE_WTMTX}"
        using less.prems(2) b(2) by (simp add: raised_to_def)
      from less.hyps [OF psubset_card_mono [OF fin sub] inv this]
      show ?thesis using t'(2) raised_to_trans [OF b(2)] by auto
    next
      case False
      then show ?thesis using u boost_inv_step(2) [OF less.prems(1) True, of t] b(2) by auto
    qed
  qed
qed

subsection \<open>Locking\<close>

lemma set_owner_simps [simp]:
  "thd (set_owner m t k) = thd k" "queues (set_owner m t k) = queues k" "r_current (set_owner m t k) = r_current k"
  "tref (set_owner m t k) = tref k" "s_cnt (set_owner m t k) = s_cnt k"
  "m_owner (set_owner m t k) = (m_owner k)(m := t)" "class_I (set_owner m t k) = class_I k"
  "class_S (set_owner m t k) = class_S k" "lock_cnt (set_owner m t k) = lock_cnt k" "isr_cnt (set_owner m t k) = isr_cnt k"
  by (simp_all add: set_owner_def class_I_def class_S_def)

lemma mtx_take_simps [simp]:
  "queues (mtx_take m t k) = queues k" "r_current (mtx_take m t k) = r_current k" "tref (mtx_take m t k) = tref k"
  "s_cnt (mtx_take m t k) = s_cnt k" "m_owner (mtx_take m t k) = (m_owner k)(m := Some t)"
  "state_of (mtx_take m t k) x = state_of k x" "p_u (thd (mtx_take m t k) x) = p_u (thd k x)"
  "prio_of (mtx_take m t k) x = prio_of k x" "p_realprio (thd (mtx_take m t k) x) = p_realprio (thd k x)"
  "mtxlist_of (mtx_take m t k) x = (if x = t then m # mtxlist_of k t else mtxlist_of k x)"
  "class_I (mtx_take m t k) = class_I k" "class_S (mtx_take m t k) = class_S k"
  "lock_cnt (mtx_take m t k) = lock_cnt k" "isr_cnt (mtx_take m t k) = isr_cnt k"
  by (simp_all add: mtx_take_def)

lemma kernel_ok_take [simp]: "kernel_ok k \<Longrightarrow> kernel_ok (mtx_take m t k)"
  by (rule kernel_ok_cong [of _ k]) simp_all

lemma mtx_owned_okD:
  assumes "mtx_owned_ok k"
  shows "m_owner k m = Some t \<longleftrightarrow> m \<in> set (mtxlist_of k t)" "distinct (mtxlist_of k t)"
    "w \<in> set (queues k (Q_MTX m)) \<Longrightarrow> m_owner k m \<noteq> None" "m_owner k m = None \<Longrightarrow> queues k (Q_MTX m) = []"
    "NOPRIO < p_realprio (thd k t)"
  using assms unfolding mtx_owned_ok_def by (blast, blast, metis empty_iff empty_set, blast, blast)

lemma mtx_okD:
  assumes "mtx_ok k"
  shows "mtx_owned_ok k" "p_realprio (thd k t) \<le> prio_of k t" "waits_for k w t \<Longrightarrow> prio_of k w \<le> prio_of k t"
    "tight_at k t"
  using assms by (auto simp: mtx_ok_def)

lemma mtx_ok_take_free:
  assumes ok: "mtx_ok k" and free: "m_owner k m = None"
  shows "mtx_ok (mtx_take m t k)"
proof -
  note own = mtx_okD(1) [OF ok]
  have q: "queues k (Q_MTX m) = []" using mtx_owned_okD(4) [OF own free] .
  have m: "m \<notin> set (mtxlist_of k x)" for x using mtx_owned_okD(1) [OF own, of m x] free by simp
  have w: "waits_for (mtx_take m t k) u x = waits_for k u x" for u x
    unfolding waits_for_def using q free by (intro iff_exI) auto
  have "mtx_owned_ok (mtx_take m t k)"
    using own m q unfolding mtx_owned_ok_def by (auto simp: free)
  then show ?thesis
    using mtx_okD [OF ok] by (auto simp: mtx_ok_def w tight_at_def)
qed

lemma mtx_ok_blocked:
  assumes inv: "boost_inv p t0 t0 k" and t0: "p \<le> prio_of k t0" and mp: "m_owner k mp = Some t0"
    and q: "\<And>m. set (queues k' (Q_MTX m)) = set (queues k (Q_MTX m)) \<union> (if m = mp then {r_current k} else {})"
    and k': "m_owner k' = m_owner k" "\<And>x. prio_of k' x = prio_of k x"
      "\<And>x. p_realprio (thd k' x) = p_realprio (thd k x)" "\<And>x. mtxlist_of k' x = mtxlist_of k x"
  shows "mtx_ok k'"
proof -
  have w: "waits_for k' u x \<longleftrightarrow> waits_for k u x \<or> u = r_current k \<and> x = t0" for u x
  proof -
    have "waits_for k' u x \<longleftrightarrow>
        (\<exists>m. m_owner k m = Some x \<and> (u \<in> set (queues k (Q_MTX m)) \<or> m = mp \<and> u = r_current k))"
      unfolding waits_for_def k' q by (intro iff_exI) auto
    then show ?thesis using mp unfolding waits_for_def by (metis option.inject)
  qed
  have own: "mtx_owned_ok k" and cur: "prio_of k (r_current k) = p" using inv by (auto simp: boost_inv_def)
  have "m_owner k' m \<noteq> None" if "queues k' (Q_MTX m) \<noteq> []" for m
  proof -
    obtain u where "u \<in> set (queues k' (Q_MTX m))" using \<open>queues k' (Q_MTX m) \<noteq> []\<close> by (cases "queues k' (Q_MTX m)") auto
    then show ?thesis using q [of m] mp mtx_owned_okD(3) [OF own, of u m] by (auto simp: k' split: if_splits)
  qed
  then have "mtx_owned_ok k'" using own by (auto simp: mtx_owned_ok_def k')
  moreover have "prio_of k' u \<le> prio_of k' x" if "waits_for k' u x" for u x
    using that inv t0 cur unfolding boost_inv_def w k' by (metis le_trans)
  moreover have "tight_at k' x" for x
    using inv cur t0 unfolding boost_inv_def tight_at_def w k' by (metis linorder_not_less)
  ultimately show ?thesis using inv by (auto simp: mtx_ok_def boost_inv_def k')
qed

lemma boost_inv_start:
  "kernel_ok k \<Longrightarrow> mtx_ok k \<Longrightarrow> class_S k \<Longrightarrow> boost_inv (prio_of k (r_current k)) t t k"
  by (auto simp: boost_inv_def mtx_ok_def)

lemma mtx_ok_cong:
  assumes "m_owner k' = m_owner k" "\<And>x. prio_of k' x = prio_of k x" "\<And>x. p_realprio (thd k' x) = p_realprio (thd k x)"
    "\<And>x. mtxlist_of k' x = mtxlist_of k x" "\<And>m. queues k' (Q_MTX m) = queues k (Q_MTX m)"
  shows "mtx_ok k' = mtx_ok k"
proof -
  have w: "waits_for k' = waits_for k" by (intro ext) (simp add: waits_for_def assms)
  show ?thesis by (simp add: mtx_ok_def mtx_owned_ok_def tight_at_def assms w)
qed

text \<open>
  \<open>falls_asleep k k2\<close>: the current thread of \<open>k\<close> has put itself on its object, which gives \<open>k2\<close>, and is about to
  sleep; no other thread has changed but for its priority.
\<close>

definition falls_asleep :: "ch_system \<Rightarrow> ch_system \<Rightarrow> bool" where
  "falls_asleep k k2 \<longleftrightarrow>
     class_S k2 \<and> r_current k2 = r_current k \<and> queues k2 Q_RLIST \<noteq> [] \<and> r_current k \<noteq> hd (queues k2 Q_RLIST) \<and>
     state_of k2 (hd (queues k2 Q_RLIST)) = CH_STATE_READY \<and>
     (\<forall>x. state_of k2 x = state_of k x \<and> mtxlist_of k2 x = mtxlist_of k x \<and>
        (x \<noteq> r_current k \<longrightarrow> p_u (thd k2 x) = p_u (thd k x)))"

lemma chMtxLockS_sleeps:
  assumes ok: "kernel_ok k" and mok: "mtx_ok k" and S: "class_S k" and ne: "queues k Q_RLIST \<noteq> []"
    and fin: "finite {x. state_of k x = CH_STATE_WTMTX}" and own: "m_owner k mp = Some t0"
  shows "\<exists>k2. chMtxLockS mp k = Some (Switched, sleeping CH_STATE_WTMTX k2) \<and> falls_asleep k k2 \<and>
           kernel_ok (sleeping CH_STATE_WTMTX k2) \<and> mtx_ok k2 \<and> resched_ok (sleeping CH_STATE_WTMTX k2) \<and>
           p_u (thd k2 (r_current k)) = Wtobjp (Q_MTX mp) \<and> r_current k \<in> set (queues k2 (Q_MTX mp)) \<and>
           m_owner k2 = m_owner k \<and> prio_of k (r_current k) \<le> prio_of k2 t0"
proof -
  define c where "c = r_current k"
  define p where "p = prio_of k c"
  obtain k1 where k1: "mtx_boost p t0 k = Some k1" "boost_inv p t0 t0 k1" "p \<le> prio_of k1 t0" "raised_to p k k1"
    using mtx_boost_ok [OF boost_inv_start [OF ok mok S, of t0] fin] by (auto simp: p_def c_def)
  define xs where "xs = prio_insert (prio_of k1) c (queues k1 (Q_MTX mp))"
  define k2 where "k2 = set_pu c (Wtobjp (Q_MTX mp)) (set_queue (Q_MTX mp) xs k1)"
  have f: "r_current k1 = c" "m_owner k1 = m_owner k" "class_S k1" "kernel_ok k1"
      "queues k1 Q_RLIST \<noteq> []"
    using k1(2,4) ne unfolding raised_to_def boost_inv_def c_def by (auto, metis empty_set set_empty)
  note s1 = kernel_okD(1) [OF f(4)]
  have un: "c \<notin> set (queues k1 q)" for q using sched_okD(2) [OF s1] f(1) by (simp add: unqueued_def)
  have sl: "chSchGoSleepS CH_STATE_WTMTX k2 = Some (sleeping CH_STATE_WTMTX k2)"
    using f by (intro chSchGoSleepS_eq) (auto simp: k2_def)
  have "chMtxLockS mp k = Some (Switched, sleeping CH_STATE_WTMTX k2)"
    using S own k1(1) sl
    by (simp add: chMtxLockS_def Let_def c_def [symmetric] p_def [symmetric] queue_prio_insert_def)
      (simp add: k2_def xs_def)
  moreover have "kernel_ok (sleeping (qstate (Q_MTX mp)) k2)"
  proof (rule kernel_ok_sleeping_in [OF f(4,5), where xs = xs and k' = k1])
    show "set xs = insert (r_current k1) (set (queues k1 (Q_MTX mp)))" "distinct xs"
      using un apart_distinct [OF sched_okD(1) [OF s1]] by (auto simp: xs_def f(1))
    show "prio_sorted (prio_of k1) xs" using sched_okD(6) [OF s1, of "Q_MTX mp"] by (simp add: xs_def prio_sorted_insert)
    show "sem_ok k2" using kernel_okD(3) [OF f(4)] by (simp add: sem_ok_def k2_def)
    show "core k2 = core (set_queue (Q_MTX mp) xs (set_pu (r_current k1) (Wtobjp (Q_MTX mp)) k1))"
      by (rule arg_cong [of _ _ core], rule ch_system.equality) (simp_all add: k2_def f(1) fun_eq_iff)
  qed simp_all
  moreover have "resched_ok (sleeping CH_STATE_WTMTX k2)"
  proof -
    obtain t ts where "queues k1 Q_RLIST = t # ts" using f(5) by (cases "queues k1 Q_RLIST") auto
    then show ?thesis using resched_ok_sleeping [OF s1, of t ts k2] by (simp add: k2_def)
  qed
  moreover have "mtx_ok k2"
    using own f(2) by (intro mtx_ok_blocked [OF k1(2,3)]) (auto simp: k2_def xs_def f(1))
  moreover have "falls_asleep k k2"
  proof -
    have "c \<noteq> hd (queues k1 Q_RLIST)" "state_of k1 (hd (queues k1 Q_RLIST)) = CH_STATE_READY"
      using un [of Q_RLIST] f(5) hd_in_set sched_okD(4) [OF s1, of _ Q_RLIST] by (metis, simp)
    then show ?thesis using f k1(4) by (simp add: falls_asleep_def k2_def c_def raised_to_def)
  qed
  ultimately show ?thesis
    using k1(3) f(1,2) by (intro exI [of _ "k2"]) (auto simp: k2_def xs_def p_def c_def)
qed

lemma chMtxLockS_contended:
  assumes ok: "kernel_ok k" and mok: "mtx_ok k" and S: "class_S k" and ne: "queues k Q_RLIST \<noteq> []"
    and fin: "finite {x. state_of k x = CH_STATE_WTMTX}" and own: "m_owner k mp = Some t0"
  shows "\<exists>k'. chMtxLockS mp k = Some (Switched, k') \<and> kernel_ok k' \<and> mtx_ok k' \<and> resched_ok k' \<and>
           state_of k' (r_current k) = CH_STATE_WTMTX \<and> r_current k \<in> set (queues k' (Q_MTX mp)) \<and>
           m_owner k' = m_owner k \<and> prio_of k (r_current k) \<le> prio_of k' t0"
proof -
  obtain k2 where "chMtxLockS mp k = Some (Switched, sleeping CH_STATE_WTMTX k2)" "falls_asleep k k2"
      "kernel_ok (sleeping CH_STATE_WTMTX k2)" "mtx_ok k2" "resched_ok (sleeping CH_STATE_WTMTX k2)"
      "r_current k \<in> set (queues k2 (Q_MTX mp))" "m_owner k2 = m_owner k" "prio_of k (r_current k) \<le> prio_of k2 t0"
    using chMtxLockS_sleeps [OF assms] by blast
  moreover have "mtx_ok (sleeping CH_STATE_WTMTX k2) = mtx_ok k2" by (rule mtx_ok_cong) simp_all
  ultimately show ?thesis by (auto simp: falls_asleep_def)
qed

subsection \<open>Unlocking\<close>

text \<open>The protocol, except that the priority of \<open>c\<close> may still be too high.\<close>

definition mtx_ok_but :: "tid \<Rightarrow> ch_system \<Rightarrow> bool" where
  "mtx_ok_but c k \<longleftrightarrow>
     mtx_owned_ok k \<and> (\<forall>t. p_realprio (thd k t) \<le> prio_of k t) \<and>
     (\<forall>w t. waits_for k w t \<longrightarrow> prio_of k w \<le> prio_of k t) \<and> (\<forall>t. t \<noteq> c \<longrightarrow> tight_at k t)"

lemma mtx_ok_but: "mtx_ok k \<Longrightarrow> mtx_ok_but c k"
  by (simp add: mtx_ok_def mtx_ok_but_def)

definition readied :: "tid \<Rightarrow> ch_system \<Rightarrow> ch_system" where
  "readied t k = make_ready t (queue_dequeue t k)"

lemma readied_simps [simp]:
  "r_current (readied t k) = r_current k" "s_cnt (readied t k) = s_cnt k" "m_owner (readied t k) = m_owner k"
  "tref (readied t k) = tref k" "isr_cnt (readied t k) = isr_cnt k" "lock_cnt (readied t k) = lock_cnt k"
  "state_of (readied t k) x = (if x = t then CH_STATE_READY else state_of k x)"
  "p_u (thd (readied t k) x) = p_u (thd k x)" "prio_of (readied t k) x = prio_of k x"
  "p_realprio (thd (readied t k) x) = p_realprio (thd k x)" "mtxlist_of (readied t k) x = mtxlist_of k x"
  "class_I (readied t k) = class_I k" "class_S (readied t k) = class_S k"
  "queues (readied t k) = (unqueue t (queues k))
     (Q_RLIST := prio_insert (prio_of k) t (unqueue t (queues k) Q_RLIST))"
  by (simp_all add: readied_def make_ready_def)

lemma kernel_ok_readied:
  assumes "kernel_ok k" "t \<noteq> r_current k" "state_of k t \<noteq> CH_STATE_SUSPENDED" "state_of k t \<noteq> CH_STATE_WTSEM"
  shows "kernel_ok (readied t k)"
proof -
  have "kernel_ok (woken t 0 k)"
    using assms kernel_okD [OF assms(1)] not_sem_queue [OF kernel_okD(1) [OF assms(1)] assms(4)]
    by (intro kernel_ok_woken wait_ok_but sem_ok_dequeue) auto
  then show ?thesis by (rule kernel_ok_cong [rotated -1]) auto
qed

lemma mtx_head:
  assumes "kernel_ok k" "queues k (Q_MTX m) = t # ts"
  shows "state_of k t = CH_STATE_WTMTX" "t \<noteq> r_current k" "t \<notin> set ts" "m' \<noteq> m \<Longrightarrow> t \<notin> set (queues k (Q_MTX m'))"
proof -
  note s = kernel_okD(1) [OF assms(1)]
  show st: "state_of k t = CH_STATE_WTMTX" using sched_okD(4) [OF s, of t "Q_MTX m"] assms(2) by simp
  show "t \<noteq> r_current k" using sched_okD(3) [OF s, of t] st by auto
  show "t \<notin> set ts" using apart_distinct [OF sched_okD(1) [OF s], of "Q_MTX m"] assms(2) by simp
  show "m' \<noteq> m \<Longrightarrow> t \<notin> set (queues k (Q_MTX m'))"
    using apart_same [OF sched_okD(1) [OF s], of t "Q_MTX m'" "Q_MTX m"] assms(2) by auto
qed

text \<open>
  The mutex at the head of the owned list of \<open>c\<close> is given to the first waiting thread, or freed.
\<close>

definition released :: "tid \<Rightarrow> nat \<Rightarrow> ch_system \<Rightarrow> ch_system" where
  "released c mp k =
     (let k1 = set_mtxlist c (tl (mtxlist_of k c)) k
      in case queues k (Q_MTX mp) of
           [] \<Rightarrow> set_owner mp None k1
         | t # ts \<Rightarrow> readied t (mtx_take mp t k1))"

lemma released_frame:
  assumes ok: "kernel_ok k" and c: "c = r_current k" and own: "mtxlist_of k c = mp # ms"
  shows "kernel_ok (released c mp k)" "r_current (released c mp k) = c" "class_S (released c mp k) = class_S k"
    "prio_of (released c mp k) x = prio_of k x" "p_realprio (thd (released c mp k) x) = p_realprio (thd k x)"
    "m_owner (released c mp k) =
       (m_owner k)(mp := (case queues k (Q_MTX mp) of [] \<Rightarrow> None | t # ts \<Rightarrow> Some t))"
    "mtxlist_of (released c mp k) x =
       (if x = c then ms
        else if queues k (Q_MTX mp) \<noteq> [] \<and> x = hd (queues k (Q_MTX mp)) then mp # mtxlist_of k x
        else mtxlist_of k x)"
    "queues (released c mp k) (Q_MTX m) = (if m = mp then tl (queues k (Q_MTX mp)) else queues k (Q_MTX m))"
proof -
  show "kernel_ok (released c mp k)"
  proof (cases "queues k (Q_MTX mp)")
    case Nil
    show ?thesis
      by (rule kernel_ok_cong [of _ k]) (use ok Nil in \<open>simp_all add: released_def Let_def\<close>)
  next
    case (Cons t ts)
    have "kernel_ok (mtx_take mp t (set_mtxlist c (tl (mtxlist_of k c)) k))"
      by (rule kernel_ok_cong [of _ k]) (use ok in auto)
    then show ?thesis using mtx_head(1,2) [OF ok Cons]
      by (auto simp: released_def Let_def Cons intro!: kernel_ok_readied split: if_splits)
  qed
qed (use own c mtx_head [OF ok, of mp] in
     \<open>auto simp: released_def Let_def unqueue_def split: list.splits\<close>)

lemma released_ok:
  assumes ok: "kernel_ok k" and mok: "mtx_ok_but c k" and c: "c = r_current k" and own: "mtxlist_of k c = mp # ms"
  shows "mtx_ok_but c (released c mp k)"
    "waits_for (released c mp k) w c \<longleftrightarrow> (\<exists>m \<in> set ms. w \<in> set (queues k (Q_MTX m)))"
proof -
  define K where "K = released c mp k"
  note K = released_frame [OF ok c own, folded K_def]
  have ow: "mtx_owned_ok k" using mok by (simp add: mtx_ok_but_def)
  note o = mtx_owned_okD [OF ow]
  have mpc: "m_owner k mp = Some c" using o(1) own by simp
  have ms: "mp \<notin> set ms" "distinct ms" using o(2) [of c] own by simp_all
  have wq: "waits_for K w x \<longleftrightarrow>
      (\<exists>m. m \<noteq> mp \<and> m_owner k m = Some x \<and> w \<in> set (queues k (Q_MTX m))) \<or>
      queues k (Q_MTX mp) \<noteq> [] \<and> x = hd (queues k (Q_MTX mp)) \<and> w \<in> set (tl (queues k (Q_MTX mp)))" for w x
  proof -
    have "waits_for K w x \<longleftrightarrow>
        (\<exists>m. m \<noteq> mp \<and> m_owner K m = Some x \<and> w \<in> set (queues K (Q_MTX m))) \<or>
        m_owner K mp = Some x \<and> w \<in> set (queues K (Q_MTX mp))"
      unfolding waits_for_def by (rule ex_split)
    also have "(\<exists>m. m \<noteq> mp \<and> m_owner K m = Some x \<and> w \<in> set (queues K (Q_MTX m))) \<longleftrightarrow>
        (\<exists>m. m \<noteq> mp \<and> m_owner k m = Some x \<and> w \<in> set (queues k (Q_MTX m)))"
      by (intro iff_exI) (simp add: K(6,8))
    finally show ?thesis using K(6,8) by (cases "queues k (Q_MTX mp)") auto
  qed
  have owned: "mtx_owned_ok K"
  proof -
    have "m_owner K m = Some t \<longleftrightarrow> m \<in> set (mtxlist_of K t)" for m t
      using K(6,7) o(1) [of m t] o(1) [of mp t] mpc own ms mtx_head(2) [OF ok, of mp] c
      by (cases "queues k (Q_MTX mp)") auto
    moreover have "distinct (mtxlist_of K t)" for t
      using K(7) o(1) [of mp t] o(2) [of t] mpc ms by auto
    moreover have "m_owner K m \<noteq> None" if "queues K (Q_MTX m) \<noteq> []" for m
      using K(6,8) that o(4) [of m] by (cases "queues k (Q_MTX mp)") (auto split: if_splits)
    ultimately show ?thesis using o(5) by (simp add: mtx_owned_ok_def K(5))
  qed
  have edge: "prio_of K w \<le> prio_of K x" if "waits_for K w x" for w x
  proof -
    have "prio_sorted (prio_of k) (queues k (Q_MTX mp))"
      using sched_okD(6) [OF kernel_okD(1) [OF ok], of "Q_MTX mp"] by simp
    moreover have "waits_for k w x" if "m_owner k m = Some x" "w \<in> set (queues k (Q_MTX m))" for m
      using that by (auto simp: waits_for_def)
    ultimately show ?thesis
      using that [unfolded wq] mok K(4) unfolding mtx_ok_but_def by (cases "queues k (Q_MTX mp)") auto
  qed
  have tight: "tight_at K t" if "t \<noteq> c" for t
  proof -
    have "waits_for K w t" if wf: "waits_for k w t" for w
    proof -
      obtain m where "m_owner k m = Some t" "w \<in> set (queues k (Q_MTX m))" using wf by (auto simp: waits_for_def)
      then show ?thesis using \<open>t \<noteq> c\<close> mpc unfolding wq by force
    qed
    then show ?thesis using mok that K(4,5) unfolding mtx_ok_but_def tight_at_def by metis
  qed
  show "mtx_ok_but c (released c mp k)"
    using owned edge tight mok K(4,5) unfolding K_def [symmetric] mtx_ok_but_def by simp
  show "waits_for (released c mp k) w c \<longleftrightarrow> (\<exists>m \<in> set ms. w \<in> set (queues k (Q_MTX m)))"
  proof -
    have "m \<noteq> mp \<and> m_owner k m = Some c \<longleftrightarrow> m \<in> set ms" for m using o(1) [of m c] own ms by auto
    moreover have "queues k (Q_MTX mp) \<noteq> [] \<Longrightarrow> c \<noteq> hd (queues k (Q_MTX mp))"
      using mtx_head(2) [OF ok, of mp] c by (cases "queues k (Q_MTX mp)") auto
    ultimately show ?thesis using wq [of w c] unfolding K_def [symmetric] by blast
  qed
qed

text \<open>The recomputed priority is the maximum over the mutexes still owned.\<close>

lemma mtx_newprio_spec:
  assumes "class_S k" "\<And>m. prio_sorted (prio_of k) (queues k (Q_MTX m))"
  shows "\<exists>np. mtx_newprio k n ms = Some np \<and> n \<le> np \<and>
           (\<forall>m \<in> set ms. \<forall>w \<in> set (queues k (Q_MTX m)). prio_of k w \<le> np) \<and>
           (np = n \<or> (\<exists>m \<in> set ms. \<exists>w \<in> set (queues k (Q_MTX m)). prio_of k w = np))"
proof (induction ms arbitrary: n)
  case Nil
  show ?case by simp
next
  case (Cons m ms)
  define n' where "n' = (if queues k (Q_MTX m) \<noteq> [] \<and> n < prio_of k (hd (queues k (Q_MTX m)))
    then prio_of k (hd (queues k (Q_MTX m))) else n)"
  obtain np where np: "mtx_newprio k n' ms = Some np" "n' \<le> np"
      "\<forall>m \<in> set ms. \<forall>w \<in> set (queues k (Q_MTX m)). prio_of k w \<le> np"
      "np = n' \<or> (\<exists>m \<in> set ms. \<exists>w \<in> set (queues k (Q_MTX m)). prio_of k w = np)"
    using Cons.IH by blast
  have "mtx_newprio k n (m # ms) = Some np"
    using assms(1) np(1) by (auto simp: chMtxQueueNotEmptyS_def queue_notempty_def n'_def split: if_splits)
  moreover have "n \<le> n'" and "\<And>w. w \<in> set (queues k (Q_MTX m)) \<Longrightarrow> prio_of k w \<le> n'"
    using prio_sorted_hd_max [OF assms(2), of _ m] by (force simp: n'_def)+
  moreover have "n' = n \<or> (\<exists>w \<in> set (queues k (Q_MTX m)). prio_of k w = n')"
    using hd_in_set [of "queues k (Q_MTX m)"] by (auto simp: n'_def)
  ultimately show ?case using np(2-) by (intro exI [of _ np]) (auto intro: le_trans)
qed

lemma mtx_ok_settled:
  assumes ok: "kernel_ok k" and mok: "mtx_ok_but c k" and c: "c = r_current k"
    and np: "p_realprio (thd k c) \<le> np" "\<And>w. waits_for k w c \<Longrightarrow> prio_of k w \<le> np"
      "np = p_realprio (thd k c) \<or> (\<exists>w. waits_for k w c \<and> prio_of k w = np)"
  shows "mtx_ok (set_prio c np k)"
proof -
  have nw: "\<not> waits_for k c x" for x
    using sched_okD(2) [OF kernel_okD(1) [OF ok]] c by (auto simp: waits_for_def unqueued_def)
  have w: "waits_for (set_prio c np k) u x = waits_for k u x" for u x by (simp add: waits_for_def)
  have f: "m_owner (set_prio c np k) = m_owner k" "mtxlist_of (set_prio c np k) x = mtxlist_of k x"
      "p_realprio (thd (set_prio c np k) x) = p_realprio (thd k x)"
      "prio_of (set_prio c np k) x = (if x = c then np else prio_of k x)" for x by simp_all
  have uc: "u \<noteq> c" if "waits_for k u x" for u x using nw that by auto
  have "mtx_owned_ok (set_prio c np k) = mtx_owned_ok k" unfolding mtx_owned_ok_def f by simp
  then have "mtx_owned_ok (set_prio c np k)" using mok by (simp add: mtx_ok_but_def)
  moreover have "prio_of (set_prio c np k) u \<le> prio_of (set_prio c np k) x" if "waits_for k u x" for u x
    unfolding f using that uc [OF that] np(2) mok by (auto simp: mtx_ok_but_def)
  moreover have "tight_at (set_prio c np k) x" for x
  proof (cases "x = c")
    case True
    then show ?thesis using np(3) uc unfolding tight_at_def f w by auto
  next
    case False
    then have "tight_at k x" using mok by (simp add: mtx_ok_but_def)
    then show ?thesis using False uc unfolding tight_at_def f w by auto
  qed
  ultimately show ?thesis
    using np(1) mok unfolding mtx_ok_def w by (auto simp: f mtx_ok_but_def)
qed

lemma kernel_ok_prio_current:
  "kernel_ok k \<Longrightarrow> NOPRIO < np \<Longrightarrow> kernel_ok (set_prio (r_current k) np k)"
  using sched_okD(2) [OF kernel_okD(1), of k] by (intro kernel_ok_set_prio) (auto simp: unqueued_def)

lemma set_prio_same [simp]: "set_prio t (prio_of k t) k = k"
  by (simp add: upd_thd_def)

lemma fifo_remove_mtx:
  assumes "kernel_ok k" "queues k (Q_MTX m) = t # ts" "queues k' = queues k"
  shows "queue_fifo_remove (Q_MTX m) k' = Some (t, queue_dequeue t k')"
  using apart_fifo [OF sched_okD(1) [OF kernel_okD(1) [OF assms(1)]] assms(2)] assms(2,3)
  by (simp add: queue_fifo_remove_def set_queue_def queue_dequeue_def)

lemma ready_taken:
  assumes "kernel_ok k" "class_I k" "queues k (Q_MTX m) = t # ts"
    and k': "queues k' = queues k" "class_I k'" "\<And>x. state_of k' x = state_of k x" "NOPRIO < prio_of k' t"
  shows "do { (tp, k) \<leftarrow> queue_fifo_remove (Q_MTX m) k'; chSchReadyI tp (mtx_take m tp k) } =
           Some (readied t (mtx_take m t k'))"
proof -
  have "mtx_take m t (queue_dequeue t k') = queue_dequeue t (mtx_take m t k')"
    by (rule ch_system.equality) (simp_all add: mtx_take_def set_owner_def upd_thd_def queue_dequeue_def)
  moreover have "chSchReadyI t (queue_dequeue t (mtx_take m t k')) = Some (make_ready t (queue_dequeue t (mtx_take m t k')))"
    using k' mtx_head(1) [OF assms(1,3)] by (intro chSchReadyI_eq) auto
  ultimately show ?thesis
    using fifo_remove_mtx [OF assms(1,3) k'(1)] by (simp add: readied_def)
qed

lemma set_prio_readied:
  assumes "c \<noteq> t" "c \<notin> set (queues k Q_RLIST)"
  shows "readied t (mtx_take m t (set_prio c np k)) = set_prio c np (readied t (mtx_take m t k))"
proof -
  have "prio_insert (prio_of (set_prio c np k)) t xs = prio_insert (prio_of k) t xs" if "c \<notin> set xs" for xs
    using assms(1) that by (intro prio_insert_cong) auto
  then show ?thesis using assms
    by (intro ch_system.equality)
      (simp_all add: fun_eq_iff, simp_all add: readied_def make_ready_def mtx_take_def unqueue_def set_owner_def)
qed

lemma chMtxUnlockS_ok:
  assumes ok: "kernel_ok k" and mok: "mtx_ok k" and S: "class_S k" and own: "mtxlist_of k (r_current k) = mp # ms"
  shows "\<exists>np. chMtxUnlockS mp k = Some (set_prio (r_current k) np (released (r_current k) mp k)) \<and>
           kernel_ok (set_prio (r_current k) np (released (r_current k) mp k)) \<and>
           mtx_ok (set_prio (r_current k) np (released (r_current k) mp k)) \<and> np \<le> prio_of k (r_current k)"
proof -
  define c where "c = r_current k"
  note own' = own [folded c_def]
  note R = released_ok [OF ok mtx_ok_but [OF mok] c_def own'] and F = released_frame [OF ok c_def own']
  define k1 where "k1 = set_mtxlist c ms k"
  have mp: "m_owner k mp = Some c" using mtx_owned_okD(1) [OF mtx_okD(1) [OF mok]] own' by simp
  have k1: "class_S k1" "queues k1 = queues k" "\<And>x. prio_of k1 x = prio_of k x" "mtxlist_of k1 c = ms"
      "p_realprio (thd k1 x) = p_realprio (thd k x)" "\<And>x. state_of k1 x = state_of k x" for x
    using S by (simp_all add: k1_def)
  have srt: "prio_sorted (prio_of k1) (queues k1 (Q_MTX m))" for m
    using sched_okD(6) [OF kernel_okD(1) [OF ok], of "Q_MTX m"] by (simp add: k1)
  obtain np where np: "mtx_newprio k1 (p_realprio (thd k1 c)) ms = Some np" "p_realprio (thd k1 c) \<le> np"
      "\<forall>m \<in> set ms. \<forall>w \<in> set (queues k1 (Q_MTX m)). prio_of k1 w \<le> np"
      "np = p_realprio (thd k1 c) \<or> (\<exists>m \<in> set ms. \<exists>w \<in> set (queues k1 (Q_MTX m)). prio_of k1 w = np)"
    using mtx_newprio_spec [OF k1(1) srt] by blast
  have wf: "waits_for k w c" if "m \<in> set ms" "w \<in> set (queues k (Q_MTX m))" for m w
    using that mtx_owned_okD(1) [OF mtx_okD(1) [OF mok], of m c] own' by (auto simp: waits_for_def)
  have le: "np \<le> prio_of k c"
    using np(4) mtx_okD(2) [OF mok, of c] mtx_okD(3) [OF mok] wf by (auto simp: k1)
  have settled: "mtx_ok (set_prio c np (released c mp k))"
    using np R(2) F by (intro mtx_ok_settled [OF F(1) R(1)]) (auto simp: k1)
  have pos: "NOPRIO < np"
    using mtx_owned_okD(5) [OF mtx_okD(1) [OF mok], of c] np(2) by (simp add: k1)
  have kok: "kernel_ok (set_prio c np (released c mp k))"
    using kernel_ok_prio_current [OF F(1) pos] F(2) by simp
  have head: "chMtxUnlockS mp k =
      (if queues k (Q_MTX mp) \<noteq> []
       then do { (tp, k) \<leftarrow> queue_fifo_remove (Q_MTX mp) (set_prio c np k1); chSchReadyI tp (mtx_take mp tp k) }
       else Some (set_owner mp None k1))"
    using S own' mp np(1) k1(1,4) unfolding chMtxUnlockS_def
    by (simp add: Let_def c_def [symmetric] k1_def [symmetric] chMtxQueueNotEmptyS_def queue_notempty_def k1(2))
  show ?thesis
  proof (cases "queues k (Q_MTX mp)")
    case Nil
    have e: "chMtxUnlockS mp k = Some (released c mp k)" using head Nil own' by (simp add: released_def k1_def)
    have "waits_for k w c \<Longrightarrow> waits_for (released c mp k) w c" for w
      using R(2) [of w] mtx_owned_okD(1) [OF mtx_okD(1) [OF mok], of _ c] own' Nil by (fastforce simp: waits_for_def)
    then have "tight_at (released c mp k) c" using mtx_okD(4) [OF mok, of c] F(4,5) unfolding tight_at_def by metis
    then have "mtx_ok (released c mp k)" using R(1) by (auto simp: mtx_ok_def mtx_ok_but_def)
    moreover have "set_prio c (prio_of k c) (released c mp k) = released c mp k"
      using set_prio_same [of c "released c mp k"] F(4) by simp
    ultimately show ?thesis using e F(1) unfolding c_def [symmetric] by (intro exI [of _ "prio_of k c"]) simp
  next
    case (Cons t ts)
    have "do { (tp, k) \<leftarrow> queue_fifo_remove (Q_MTX mp) (set_prio c np k1); chSchReadyI tp (mtx_take mp tp k) } =
        Some (readied t (mtx_take mp t (set_prio c np k1)))"
      using class_S_I [OF S] class_S_I [OF k1(1)] pos sched_okD(7) [OF kernel_okD(1) [OF ok], of t]
      by (intro ready_taken [OF ok _ Cons]) (auto simp: k1)
    moreover have "readied t (mtx_take mp t (set_prio c np k1)) = set_prio c np (released c mp k)"
      using set_prio_readied [of c t k1 mp np] mtx_head(2) [OF ok Cons] sched_okD(2) [OF kernel_okD(1) [OF ok]] Cons own'
      by (simp add: released_def k1_def c_def unqueued_def)
    ultimately show ?thesis
      using head Cons kok settled le unfolding c_def [symmetric] by (intro exI [of _ np]) simp
  qed
qed

lemma mtx_ok_frame [simp]:
  "mtx_ok (k\<lparr>lock_cnt := n\<rparr>) = mtx_ok k" "mtx_ok (preempted ins k) = mtx_ok k" "mtx_ok (sleeping st k) = mtx_ok k"
  "mtx_ok (snd (rescheduled k)) = mtx_ok k" "mtx_ok (snd (unlocked (rescheduled k))) = mtx_ok k"
  "mtx_ok (set_pu t u k) = mtx_ok k" "mtx_ok (k\<lparr>s_cnt := c\<rparr>) = mtx_ok k" "mtx_ok (k\<lparr>tref := r\<rparr>) = mtx_ok k"
  by (rule mtx_ok_cong; auto simp: rescheduled_def)+

lemma mtx_ok_woken:
  assumes "kernel_ok k" "state_of k t \<noteq> CH_STATE_WTMTX"
  shows "mtx_ok (woken t u k) = mtx_ok k"
proof -
  have "t \<notin> set (queues k (Q_MTX m))" for m
    using sched_okD(4) [OF kernel_okD(1) [OF assms(1)], of t "Q_MTX m"] assms(2) by auto
  then show ?thesis by (intro mtx_ok_cong) (auto simp: unqueue_def)
qed

lemma resched_ok_released_free:
  assumes "queues k (Q_MTX mp) = []" "resched_ok k"
  shows "resched_ok (released c mp k)"
  using assms by (auto simp: released_def Let_def resched_ok_iff)

lemma chMtxUnlock_eq:
  assumes ok: "kernel_ok k" and mok: "mtx_ok k" and th: "class_thread k" and re: "resched_ok k"
    and own: "mtxlist_of k (r_current k) = mp # ms"
  shows "\<exists>K. chMtxUnlock mp k = Some (unlocked (rescheduled K)) \<and> kernel_ok K \<and> mtx_ok K \<and>
           (\<exists>np. K = set_prio (r_current k) np (released (r_current k) mp (k\<lparr>lock_cnt := 1\<rparr>)))"
proof -
  define k0 where "k0 = k\<lparr>lock_cnt := 1\<rparr>"
  define c where "c = r_current k"
  have k0: "kernel_ok k0" "mtx_ok k0" "class_S k0" "resched_ok k0" "mtxlist_of k0 c = mp # ms" "r_current k0 = c"
      "queues k0 = queues k" "m_owner k0 = m_owner k"
    using assms by (simp_all add: k0_def c_def class_S_def class_thread_def)
  obtain np where np: "chMtxUnlockS mp k0 = Some (set_prio c np (released c mp k0))"
      "kernel_ok (set_prio c np (released c mp k0))" "mtx_ok (set_prio c np (released c mp k0))"
    using chMtxUnlockS_ok [OF k0(1-3)] k0(5,6) by auto
  define K where "K = set_prio c np (released c mp k0)"
  have S: "class_S K" using released_frame(3) [OF k0(1) _ k0(5)] k0(3,6) by (simp add: K_def)
  note res = chSchRescheduleS_eq [OF kernel_okD(1) S] and ro = rescheduled_resched_ok [OF kernel_okD(1)]
  have mp: "m_owner k mp = Some c" using mtx_owned_okD(1) [OF mtx_okD(1) [OF mok]] own by (simp add: c_def)
  have "chMtxUnlock mp k = Some (unlocked (rescheduled K))"
  proof (cases "queues k (Q_MTX mp) = []")
    case True
    have e: "released c mp k0 = K" using np(1) k0 mp True own
      by (simp add: chMtxUnlockS_def Let_def chMtxQueueNotEmptyS_def queue_notempty_def K_def released_def)
    have "resched_ok K" using resched_ok_released_free [of k0 mp c] True k0(4,7) e by simp
    then show ?thesis
      using th own mp True k0 e chSysUnlock_resched [OF S]
      by (simp add: chMtxUnlock_def Let_def c_def [symmetric] k0_def [symmetric] chSysLock_ok
          chMtxQueueNotEmptyS_def queue_notempty_def rescheduled_def released_def)
  next
    case False
    have "chMtxUnlock mp k = do { k \<leftarrow> chMtxUnlockS mp k0; r \<leftarrow> chSchRescheduleS k;
        andthen r (\<lambda>_ k. do { k \<leftarrow> chSysUnlock k; Some (Done (), k) }) }"
      using th k0 mp False own unfolding chMtxUnlock_def chMtxUnlockS_def
      by (simp add: Let_def c_def [symmetric] k0_def [symmetric] chSysLock_ok
          chMtxQueueNotEmptyS_def queue_notempty_def case_prod_unfold bind_assoc)
    then show ?thesis
      using np res chSysUnlock_resched [OF S] by (auto simp: K_def [symmetric] rescheduled_def)
  qed
  then show ?thesis using np unfolding c_def [symmetric] k0_def [symmetric] K_def by blast
qed

text \<open>Releasing every owned mutex.\<close>

text \<open>Whatever releasing a mutex keeps, the loop keeps.\<close>

lemma mtx_unlock_loop_ok:
  assumes "kernel_ok k" "mtx_ok_but (r_current k) k" "class_S k" "P k"
    and P: "\<And>k mp ms. kernel_ok k \<Longrightarrow> mtxlist_of k (r_current k) = mp # ms \<Longrightarrow> P k \<Longrightarrow> P (released (r_current k) mp k)"
  shows "\<exists>K. mtx_unlock_loop (r_current k) k = Some K \<and> kernel_ok K \<and> mtx_ok_but (r_current k) K \<and> class_S K \<and>
           r_current K = r_current k \<and> mtxlist_of K (r_current k) = [] \<and>
           (\<forall>x. p_realprio (thd K x) = p_realprio (thd k x)) \<and> P K"
  using assms(1-4)
proof (induction "mtxlist_of k (r_current k)" arbitrary: k)
  case Nil
  then show ?case by (subst mtx_unlock_loop.simps) auto
next
  case (Cons mp ms)
  define c where "c = r_current k"
  define k1 where "k1 = set_mtxlist c ms k"
  note own = Cons.hyps(2) [symmetric, folded c_def]
  note F = released_frame [OF Cons.prems(1) c_def own] and R = released_ok [OF Cons.prems(1) _ c_def own]
  have k1: "class_S k1" "class_I k1" "queues k1 = queues k" "\<And>x. state_of k1 x = state_of k x"
      "\<And>x. prio_of k1 x = prio_of k x"
    using Cons.prems(3) class_S_I [OF Cons.prems(3)] by (simp_all add: k1_def)
  have step: "(if queues k (Q_MTX mp) \<noteq> []
      then do { (tp, k) \<leftarrow> queue_fifo_remove (Q_MTX mp) k1; chSchReadyI tp (mtx_take mp tp k) }
      else Some (set_owner mp None k1)) = Some (released c mp k)"
  proof (cases "queues k (Q_MTX mp)")
    case Nil
    then show ?thesis using own by (simp add: released_def k1_def)
  next
    case (Cons t ts)
    then show ?thesis
      using ready_taken [OF \<open>kernel_ok k\<close> class_S_I [OF \<open>class_S k\<close>] Cons k1(3,2,4)] k1(5) own
        sched_okD(7) [OF kernel_okD(1) [OF \<open>kernel_ok k\<close>], of t]
      by (simp add: released_def k1_def)
  qed
  have "mtx_unlock_loop c k = do { K \<leftarrow> (if queues k (Q_MTX mp) \<noteq> []
      then do { (tp, k) \<leftarrow> queue_fifo_remove (Q_MTX mp) k1; chSchReadyI tp (mtx_take mp tp k) }
      else Some (set_owner mp None k1)); mtx_unlock_loop c K }"
    using own k1(1,3)
    by (subst mtx_unlock_loop.simps)
      (simp add: Let_def k1_def [symmetric] chMtxQueueNotEmptyS_def queue_notempty_def split del: if_split cong: if_cong)
  then have "mtx_unlock_loop c k = mtx_unlock_loop c (released c mp k)" unfolding step by simp
  moreover have "ms = mtxlist_of (released c mp k) (r_current (released c mp k))" using F(2,7) by simp
  from Cons.hyps(1) [OF this] obtain K where
      "mtx_unlock_loop c (released c mp k) = Some K" "kernel_ok K" "mtx_ok_but c K" "class_S K" "r_current K = c"
      "mtxlist_of K c = []" "\<forall>x. p_realprio (thd K x) = p_realprio (thd k x)" "P K"
    using F R(1) Cons.prems P [of k mp ms] own by (auto simp: c_def)
  ultimately show ?case by (auto simp: c_def)
qed

lemma mtx_ok_unlocked_all:
  assumes ok: "kernel_ok K" and mok: "mtx_ok_but c K" and c: "c = r_current K" and none: "mtxlist_of K c = []"
  shows "kernel_ok (set_prio c (p_realprio (thd K c)) K)" "mtx_ok (set_prio c (p_realprio (thd K c)) K)"
proof -
  have own: "mtx_owned_ok K" using mok by (simp add: mtx_ok_but_def)
  have "\<not> waits_for K w c" for w using mtx_owned_okD(1) [OF own, of _ c] none by (auto simp: waits_for_def)
  then show "mtx_ok (set_prio c (p_realprio (thd K c)) K)" by (intro mtx_ok_settled [OF ok mok c]) auto
  show "kernel_ok (set_prio c (p_realprio (thd K c)) K)"
    using kernel_ok_prio_current [OF ok] mtx_owned_okD(5) [OF own] c by simp
qed

subsection \<open>Properties\<close>

text \<open>
  C6. Locking a mutex respects the priority inheritance protocol. A free mutex is taken at once. For
  an owned one the loop that raises priorities along the chain of owners ends, the caller waits in
  priority order in the queue of the mutex, and afterwards, through any depth of nested waiting, no
  thread runs below the priority of a thread it keeps waiting, nor above its own priority and that
  of all threads it keeps waiting. The kernel invariant holds and a highest-priority ready thread
  runs.
\<close>

theorem chMtxLockS_inherits:
  assumes "kernel_ok k" "mtx_ok k" "class_S k" "queues k Q_RLIST \<noteq> []" "finite {x. state_of k x = CH_STATE_WTMTX}"
  shows "case m_owner k mp of
           None \<Rightarrow> chMtxLockS mp k = Some (Done (), mtx_take mp (r_current k) k) \<and>
                   kernel_ok (mtx_take mp (r_current k) k) \<and> mtx_ok (mtx_take mp (r_current k) k)
         | Some t \<Rightarrow> \<exists>k'. chMtxLockS mp k = Some (Switched, k') \<and> kernel_ok k' \<and> mtx_ok k' \<and> resched_ok k' \<and>
                      state_of k' (r_current k) = CH_STATE_WTMTX \<and> r_current k \<in> set (queues k' (Q_MTX mp)) \<and>
                      m_owner k' = m_owner k \<and> prio_of k (r_current k) \<le> prio_of k' t"
proof (cases "m_owner k mp")
  case None
  then show ?thesis using assms mtx_ok_take_free [OF assms(2) None] by (simp add: chMtxLockS_def Let_def)
next
  case (Some t)
  then show ?thesis using chMtxLockS_contended [OF assms Some] by simp
qed

text \<open>The main thread owns mutex 0 and has just been preempted by thread 2, of higher priority.\<close>

lemma sys0_mtx_ok: "mtx_ok sys0"
  by (auto simp: mtx_ok_def mtx_owned_ok_def tight_at_def waits_for_def sys0_def thread0_def NOPRIO_def
      NORMALPRIO_def IDLEPRIO_def)

definition sys_owned :: ch_system where
  "sys_owned = mtx_take 0 0 sys0"

lemma sys_owned_facts:
  "kernel_ok sys_owned" "mtx_ok sys_owned" "class_thread sys_owned" "resched_ok sys_owned"
  "r_current sys_owned = 0" "mtxlist_of sys_owned 0 = [0]" "queues sys_owned (Q_MTX 0) = []"
proof -
  show "kernel_ok sys_owned" using sys0_kernel_ok by (simp add: sys_owned_def)
  show "mtx_ok sys_owned" unfolding sys_owned_def using sys0_mtx_ok
    by (rule mtx_ok_take_free) (simp add: sys0_def)
qed (use sys0_facts in \<open>simp_all add: sys_owned_def class_thread_def resched_ok_iff\<close>,
     simp_all add: sys0_def thread0_def)

definition sys_contended :: ch_system where
  "sys_contended = snd (rescheduled (mtx_take 0 0 sys1))"

lemma sys_contended_facts:
  "kernel_ok sys_contended" "mtx_ok sys_contended" "class_S sys_contended" "m_owner sys_contended 0 = Some 0"
  "r_current sys_contended = 2" "prio_of sys_contended 2 = 65" "queues sys_contended Q_RLIST \<noteq> []"
  "{x. state_of sys_contended x = CH_STATE_WTMTX} = {}"
proof -
  have q: "queues sys1 Q_RLIST = [2, 1]" "r_current sys1 = 0" "prio_of sys1 0 = 64" "prio_of sys1 2 = 65"
    by (simp_all add: sys1_def, simp_all add: sys0_def thread0_def unqueue_def IDLEPRIO_def NORMALPRIO_def)
  have e: "sys_contended = preempted prio_insert_ahead (mtx_take 0 0 sys1)"
    using q by (simp add: sys_contended_def rescheduled_def resched_ok_iff)
  show "kernel_ok sys_contended" using sys1_facts(1) by (simp add: sys_contended_def kernel_ok_rescheduled)
  have "mtx_ok sys1" unfolding sys1_def
    using sys0_mtx_ok mtx_ok_woken [of "sys0\<lparr>lock_cnt := 1\<rparr>" 2 0] sys0_kernel_ok
    by simp (simp add: sys0_def thread0_def)
  then have "mtx_ok (mtx_take 0 0 sys1)" by (rule mtx_ok_take_free) (simp add: sys1_def, simp add: sys0_def)
  then show "mtx_ok sys_contended" by (simp add: e)
  show "class_S sys_contended" using sys1_facts(2) by (simp add: e class_S_def)
  have "state_of sys1 x \<noteq> CH_STATE_WTMTX" for x by (simp add: sys1_def, simp add: sys0_def thread0_def)
  then show "{x. state_of sys_contended x = CH_STATE_WTMTX} = {}" by (auto simp: e)
  show "m_owner sys_contended 0 = Some 0" "r_current sys_contended = 2" "prio_of sys_contended 2 = 65"
      "queues sys_contended Q_RLIST \<noteq> []"
    using q by (simp_all add: e)
qed

theorem chMtxLockS_inherits_witness:
  "\<exists>k'. chMtxLockS 0 sys_contended = Some (Switched, k') \<and> kernel_ok k' \<and> mtx_ok k' \<and> 65 \<le> prio_of k' 0"
  using chMtxLockS_inherits [OF sys_contended_facts(1-3,7), of 0] sys_contended_facts by auto

text \<open>
  C7. Unlocking the last acquired mutex from a thread gives it to the waiting thread of highest
  priority, which becomes runnable, or frees it if none waits; the unlocking thread drops exactly
  to the maximum of its own priority and those of the threads still waiting for its other mutexes
  (the protocol invariant), and the highest-priority thread runs.
\<close>

theorem chMtxUnlock_hands_over:
  assumes ok: "kernel_ok k" "mtx_ok k" "class_thread k" "resched_ok k" and own: "mtxlist_of k (r_current k) = mp # ms"
  shows "\<exists>out k'. chMtxUnlock mp k = Some (out, k') \<and> kernel_ok k' \<and> mtx_ok k' \<and> resched_ok k' \<and>
           mtxlist_of k' (r_current k) = ms \<and>
           (case queues k (Q_MTX mp) of
              [] \<Rightarrow> m_owner k' mp = None
            | t # ts \<Rightarrow> m_owner k' mp = Some t \<and> runnable k' t \<and> queues k' (Q_MTX mp) = ts \<and>
                       (\<forall>x \<in> set ts. prio_of k' x \<le> prio_of k' t))"
proof -
  let ?c = "r_current k" and ?k = "k\<lparr>lock_cnt := 1\<rparr>"
  obtain K np where K: "chMtxUnlock mp k = Some (unlocked (rescheduled K))" "kernel_ok K" "mtx_ok K"
      "K = set_prio ?c np (released ?c mp ?k)"
    using chMtxUnlock_eq [OF ok own] by blast
  have k0: "kernel_ok ?k" "?c = r_current ?k" "mtxlist_of ?k ?c = mp # ms" using ok own by simp_all
  note F = released_frame [OF k0]
  have m: "mtxlist_of K ?c = ms" "m_owner K mp = (case queues k (Q_MTX mp) of [] \<Rightarrow> None | t # ts \<Rightarrow> Some t)"
      "queues K (Q_MTX mp) = tl (queues k (Q_MTX mp))"
    using F(6-8) by (simp_all add: K(4))
  have h: "runnable K t \<and> (\<forall>x \<in> set ts. prio_of K x \<le> prio_of K t)" if q: "queues k (Q_MTX mp) = t # ts" for t ts
  proof -
    have "t \<noteq> ?c" "\<And>x. x \<in> set ts \<Longrightarrow> x \<noteq> ?c"
      using sched_okD(2) [OF kernel_okD(1) [OF ok(1)]] q unfolding unqueued_def by (metis list.set_intros(1,2))+
    moreover have "prio_sorted (prio_of k) (t # ts)"
      using sched_okD(6) [OF kernel_okD(1) [OF ok(1)], of "Q_MTX mp"] q by simp
    ultimately show ?thesis using F(4) by (auto simp: K(4) runnable_def) (simp add: released_def q)
  qed
  have "kernel_ok (snd (unlocked (rescheduled K)))" "resched_ok (snd (unlocked (rescheduled K)))"
    using kernel_ok_rescheduled [OF K(2)] rescheduled_resched_ok [OF kernel_okD(1) [OF K(2)]]
    by (auto simp: rescheduled_def)
  then show ?thesis
    using K(1,3) m h
    by (intro exI [of _ "fst (unlocked (rescheduled K))"] exI [of _ "snd (unlocked (rescheduled K))"])
      (auto split: list.split)
qed

theorem chMtxUnlock_hands_over_witness:
  "\<exists>out k'. chMtxUnlock 0 sys_owned = Some (out, k') \<and> kernel_ok k' \<and> mtx_ok k' \<and> m_owner k' 0 = None"
  using chMtxUnlock_hands_over [OF sys_owned_facts(1-4), of 0 "[]"] sys_owned_facts(5-) by auto

text \<open>
  Releasing all mutexes at once ends, leaves the caller with no mutex and exactly its own
  priority, keeps the protocol and the kernel invariant, and runs the highest-priority thread.
\<close>

theorem chMtxUnlockAll_restores:
  assumes ok: "kernel_ok k" and mok: "mtx_ok k" and th: "class_thread k" and re: "resched_ok k"
  shows "\<exists>out k'. chMtxUnlockAll k = Some (out, k') \<and> kernel_ok k' \<and> mtx_ok k' \<and> resched_ok k' \<and>
           mtxlist_of k' (r_current k) = [] \<and> prio_of k' (r_current k) = p_realprio (thd k (r_current k))"
proof -
  let ?c = "r_current k" and ?k = "k\<lparr>lock_cnt := 1\<rparr>"
  have S: "class_S ?k" using th by (simp add: class_S_def class_thread_def)
  show ?thesis
  proof (cases "mtxlist_of k ?c = []")
    case True
    then have "\<not> waits_for k w ?c" for w
      using mtx_owned_okD(1) [OF mtx_okD(1) [OF mok], of _ ?c] by (auto simp: waits_for_def)
    then have "prio_of k ?c = p_realprio (thd k ?c)" using mtx_okD(4) [OF mok, of ?c] by (auto simp: tight_at_def)
    then show ?thesis
      using True assms chSysUnlock_resched [OF S] by (simp add: chMtxUnlockAll_def Let_def chSysLock_ok)
  next
    case False
    obtain K where K: "mtx_unlock_loop ?c ?k = Some K" "kernel_ok K" "mtx_ok_but ?c K" "class_S K"
        "r_current K = ?c" "mtxlist_of K ?c = []" "\<forall>x. p_realprio (thd K x) = p_realprio (thd k x)"
      using mtx_unlock_loop_ok [of ?k "\<lambda>_. True"] ok mtx_ok_but [OF mok, of ?c] S
      by (auto simp: mtx_ok_but_def mtx_owned_ok_def tight_at_def waits_for_def)
    define K' where "K' = set_prio ?c (p_realprio (thd K ?c)) K"
    note s = mtx_ok_unlocked_all [OF K(2,3) K(5) [symmetric] K(6), folded K'_def]
    have S': "class_S K'" using K(4) by (simp add: K'_def)
    have "chMtxUnlockAll k = Some (unlocked (rescheduled K'))"
      using False K(1) th chSchRescheduleS_eq [OF kernel_okD(1) [OF s(1)] S'] chSysUnlock_resched [OF S']
      by (auto simp: chMtxUnlockAll_def Let_def chSysLock_ok K'_def [symmetric] rescheduled_def)
    moreover have "kernel_ok (snd (unlocked (rescheduled K')))" "resched_ok (snd (unlocked (rescheduled K')))"
      using kernel_ok_rescheduled [OF s(1)] rescheduled_resched_ok [OF kernel_okD(1) [OF s(1)]]
      by (auto simp: rescheduled_def)
    moreover have "mtxlist_of K' ?c = []" "prio_of K' ?c = p_realprio (thd k ?c)" using K by (simp_all add: K'_def)
    ultimately show ?thesis
      using s(2) by (intro exI [of _ "fst (unlocked (rescheduled K'))"] exI [of _ "snd (unlocked (rescheduled K'))"]) auto
  qed
qed

theorem chMtxUnlockAll_restores_witness:
  "\<exists>out k'. chMtxUnlockAll sys_owned = Some (out, k') \<and> kernel_ok k' \<and> mtx_ok k' \<and> mtxlist_of k' 0 = []"
  using chMtxUnlockAll_restores [OF sys_owned_facts(1-4)] sys_owned_facts(5) by auto

end
