(* ===== verification/ChThreads.thy ===== *)
theory ChThreads
  imports ChMtx
begin

text \<open>
  Threads: \<open>chthreads.c\<close>, the inline functions of \<open>chthreads.h\<close> and the registry macros of
  \<open>chregistry.h\<close>. (\<open>chThdWait\<close>, which releases the thread it waited for, is in \<open>ChDynamic\<close>.)

  A thread is named by the address of its \<open>thread_t\<close>, which is also the address of its working
  area. The machine context that \<open>PORT_SETUP_CONTEXT\<close> prepares is not part of the model, and
  neither is the size of an empty working area: \<open>wa_min\<close> stands for the port's
  \<open>THD_WORKING_AREA_SIZE(0)\<close>. The registry is the list \<open>reglist\<close>, oldest thread first.
\<close>

definition CH_FLAG_MODE_MASK :: tmode_t where "CH_FLAG_MODE_MASK = 3"
definition CH_FLAG_MODE_STATIC :: tmode_t where "CH_FLAG_MODE_STATIC = 0"
definition CH_FLAG_MODE_HEAP :: tmode_t where "CH_FLAG_MODE_HEAP = 1"
definition CH_FLAG_MODE_MPOOL :: tmode_t where "CH_FLAG_MODE_MPOOL = 2"
definition CH_FLAG_TERMINATE :: tmode_t where "CH_FLAG_TERMINATE = 4"

subsection \<open>Creating and starting threads\<close>

definition REG_INSERT :: "tid \<Rightarrow> ch_system \<Rightarrow> ch_system" where
  "REG_INSERT tp k = k\<lparr>reglist := reglist k @ [tp]\<rparr>"

definition REG_REMOVE :: "tid \<Rightarrow> ch_system \<Rightarrow> ch_system" where
  "REG_REMOVE tp k = k\<lparr>reglist := filter (\<lambda>t. t \<noteq> tp) (reglist k)\<rparr>"

definition thread_init :: "tid \<Rightarrow> tprio_t \<Rightarrow> ch_system \<Rightarrow> ch_system" where
  "thread_init tp prio k =
     (let k = upd_thd tp (\<lambda>x. x\<lparr>p_prio := prio, p_state := CH_STATE_WTSTART, p_flags := CH_FLAG_MODE_STATIC,
            p_realprio := prio, p_mtxlist := [], p_epending := 0, p_refs := 1, p_name := None\<rparr>) k;
          k = REG_INSERT tp k;
          k = list_init (Q_WAIT tp) k
      in queue_init (Q_MSG tp) k)"

text \<open>The debug fill of a working area, on a byte memory.\<close>

function thread_memfill :: "nat \<Rightarrow> nat \<Rightarrow> 8 word \<Rightarrow> (nat \<Rightarrow> 8 word) \<Rightarrow> (nat \<Rightarrow> 8 word)" where
  "thread_memfill startp endp v m =
     (if startp < endp then thread_memfill (startp + 1) endp v (m(startp := v)) else m)"
  by pat_completeness auto
termination by (relation "measure (\<lambda>(s, e, v, m). e - s)") auto

declare thread_memfill.simps [simp del]

definition chThdCreateI :: "nat \<Rightarrow> tid \<Rightarrow> nat \<Rightarrow> tprio_t \<Rightarrow> ch_system \<Rightarrow> (tid \<times> ch_system) option" where
  "chThdCreateI wa_min wsp sz prio k =
     do { chDbgCheckClassI k;
          assert_that (sz \<ge> wa_min \<and> prio \<le> HIGHPRIO);
          Some (wsp, thread_init wsp prio k) }"

definition chThdCreateStatic ::
  "nat \<Rightarrow> tid \<Rightarrow> nat \<Rightarrow> tprio_t \<Rightarrow> ch_system \<Rightarrow> (tid outcome \<times> ch_system) option" where
  "chThdCreateStatic wa_min wsp sz prio k =
     do { k \<leftarrow> chSysLock k;
          (tp, k) \<leftarrow> chThdCreateI wa_min wsp sz prio k;
          r \<leftarrow> chSchWakeupS tp MSG_OK k;
          andthen r (\<lambda>_ k. do { k \<leftarrow> chSysUnlock k; Some (Done tp, k) }) }"

definition chThdStartI :: "tid \<Rightarrow> ch_system \<Rightarrow> ch_system option" where
  "chThdStartI tp k =
     do { assert_that (state_of k tp = CH_STATE_WTSTART); chSchReadyI tp k }"

definition chThdStart :: "tid \<Rightarrow> ch_system \<Rightarrow> ch_system option" where
  "chThdStart tp k =
     do { k \<leftarrow> chSysLock k; k \<leftarrow> chThdStartI tp k; chSysUnlock k }"

subsection \<open>Priority, termination and yield\<close>

definition chThdGetSelfX :: "ch_system \<Rightarrow> tid" where
  "chThdGetSelfX k = r_current k"

definition chThdGetPriorityX :: "ch_system \<Rightarrow> tprio_t" where
  "chThdGetPriorityX k = prio_of k (chThdGetSelfX k)"

definition chThdTerminatedX :: "tid \<Rightarrow> ch_system \<Rightarrow> bool" where
  "chThdTerminatedX tp k \<longleftrightarrow> state_of k tp = CH_STATE_FINAL"

definition chThdShouldTerminateX :: "ch_system \<Rightarrow> bool" where
  "chThdShouldTerminateX k \<longleftrightarrow> and (p_flags (thd k (chThdGetSelfX k))) CH_FLAG_TERMINATE \<noteq> 0"

definition chThdSetPriority :: "tprio_t \<Rightarrow> ch_system \<Rightarrow> (tprio_t outcome \<times> ch_system) option" where
  "chThdSetPriority newprio k =
     do { assert_that (newprio \<le> HIGHPRIO);
          k \<leftarrow> chSysLock k;
          let c = r_current k;
          let oldprio = p_realprio (thd k c);
          let k = (if prio_of k c = p_realprio (thd k c) \<or> newprio > prio_of k c
                   then set_prio c newprio k else k);
          let k = upd_thd c (\<lambda>x. x\<lparr>p_realprio := newprio\<rparr>) k;
          r \<leftarrow> chSchRescheduleS k;
          andthen r (\<lambda>_ k. do { k \<leftarrow> chSysUnlock k; Some (Done oldprio, k) }) }"

definition chThdTerminate :: "tid \<Rightarrow> ch_system \<Rightarrow> ch_system option" where
  "chThdTerminate tp k =
     do { k \<leftarrow> chSysLock k;
          let k = upd_thd tp (\<lambda>x. x\<lparr>p_flags := or (p_flags x) CH_FLAG_TERMINATE\<rparr>) k;
          chSysUnlock k }"

definition chThdYield :: "ch_system \<Rightarrow> (unit outcome \<times> ch_system) option" where
  "chThdYield k =
     do { k \<leftarrow> chSysLock k; r \<leftarrow> chSchDoYieldS k;
          andthen r (\<lambda>_ k. do { k \<leftarrow> chSysUnlock k; Some (Done (), k) }) }"

subsection \<open>Sleeping\<close>

definition chThdSleepS :: "systime_t \<Rightarrow> ch_system \<Rightarrow> (unit outcome \<times> ch_system) option" where
  "chThdSleepS time k =
     do { assert_that (time \<noteq> TIME_IMMEDIATE);
          k \<leftarrow> chSchGoSleepTimeoutS CH_STATE_SLEEPING time k;
          Some (Switched, k) }"

definition chThdSleep :: "systime_t \<Rightarrow> ch_system \<Rightarrow> (unit outcome \<times> ch_system) option" where
  "chThdSleep time k =
     do { k \<leftarrow> chSysLock k; r \<leftarrow> chThdSleepS time k;
          andthen r (\<lambda>_ k. do { k \<leftarrow> chSysUnlock k; Some (Done (), k) }) }"

text \<open>The rest of the three sleep functions, when the thread runs again.\<close>

definition chThdSleep_resume :: "systime_t \<Rightarrow> ch_system \<Rightarrow> ch_system option" where
  "chThdSleep_resume time k =
     do { (m, k) \<leftarrow> chSchGoSleepTimeoutS_resume time k; chSysUnlock k }"

definition chThdSleepUntil :: "systime_t \<Rightarrow> ch_system \<Rightarrow> (unit outcome \<times> ch_system) option" where
  "chThdSleepUntil time k =
     do { k \<leftarrow> chSysLock k;
          let time = time - chVTGetSystemTimeX k;
          r \<leftarrow> (if time > 0 then chThdSleepS time k else Some (Done (), k));
          andthen r (\<lambda>_ k. do { k \<leftarrow> chSysUnlock k; Some (Done (), k) }) }"

definition chThdSleepUntilWindowed ::
  "systime_t \<Rightarrow> systime_t \<Rightarrow> ch_system \<Rightarrow> (systime_t outcome \<times> ch_system) option" where
  "chThdSleepUntilWindowed prev nxt k =
     do { k \<leftarrow> chSysLock k;
          let time = chVTGetSystemTimeX k;
          r \<leftarrow> (if chVTIsTimeWithinX time prev nxt then chThdSleepS (nxt - time) k else Some (Done (), k));
          andthen r (\<lambda>_ k. do { k \<leftarrow> chSysUnlock k; Some (Done nxt, k) }) }"

subsection \<open>Leaving\<close>

text \<open>The loop of \<open>chThdExitS\<close> that makes the waiting threads ready.\<close>

partial_function (option) exit_loop :: "tid \<Rightarrow> ch_system \<Rightarrow> ch_system option" where
  "exit_loop tp k =
     (if list_notempty (Q_WAIT tp) k
      then do { (w, k) \<leftarrow> list_remove (Q_WAIT tp) k; k \<leftarrow> chSchReadyI w k; exit_loop tp k }
      else Some k)"

text \<open>The thread does not run again: the state is the one in which its successor runs.\<close>

definition chThdExitS :: "msg_t \<Rightarrow> ch_system \<Rightarrow> ch_system option" where
  "chThdExitS msg k =
     do { let tp = r_current k;
          let k = set_pu tp (Rdymsg msg) k;
          k \<leftarrow> exit_loop tp k;
          let k = (if and (p_flags (thd k tp)) CH_FLAG_MODE_MASK = CH_FLAG_MODE_STATIC
                   then REG_REMOVE tp k else k);
          chSchGoSleepS CH_STATE_FINAL k }"

definition chThdExit :: "msg_t \<Rightarrow> ch_system \<Rightarrow> ch_system option" where
  "chThdExit msg k = do { k \<leftarrow> chSysLock k; chThdExitS msg k }"

subsection \<open>Suspending on a thread reference\<close>

definition chThdSuspendS :: "nat \<Rightarrow> ch_system \<Rightarrow> (msg_t outcome \<times> ch_system) option" where
  "chThdSuspendS trp k =
     do { let tp = chThdGetSelfX k;
          assert_that (tref k trp = None);
          let k = k\<lparr>tref := (tref k)(trp := Some tp)\<rparr>;
          let k = set_pu tp (Wttrp trp) k;
          k \<leftarrow> chSchGoSleepS CH_STATE_SUSPENDED k;
          Some (Switched, k) }"

definition chThdSuspendS_resume :: "ch_system \<Rightarrow> (msg_t \<times> ch_system) option" where
  "chThdSuspendS_resume k = do { m \<leftarrow> rdymsg_of (chThdGetSelfX k) k; Some (m, k) }"

definition chThdSuspendTimeoutS :: "nat \<Rightarrow> systime_t \<Rightarrow> ch_system \<Rightarrow> (msg_t outcome \<times> ch_system) option" where
  "chThdSuspendTimeoutS trp timeout k =
     do { let tp = chThdGetSelfX k;
          assert_that (tref k trp = None);
          if TIME_IMMEDIATE = timeout then Some (Done MSG_TIMEOUT, k)
          else do { let k = k\<lparr>tref := (tref k)(trp := Some tp)\<rparr>;
                    let k = set_pu tp (Wttrp trp) k;
                    k \<leftarrow> chSchGoSleepTimeoutS CH_STATE_SUSPENDED timeout k;
                    Some (Switched, k) } }"

definition chThdResumeI :: "nat \<Rightarrow> msg_t \<Rightarrow> ch_system \<Rightarrow> ch_system option" where
  "chThdResumeI trp msg k =
     (case tref k trp of
        None \<Rightarrow> Some k
      | Some tp \<Rightarrow>
          do { assert_that (state_of k tp = CH_STATE_SUSPENDED);
               let k = k\<lparr>tref := (tref k)(trp := None)\<rparr>;
               let k = set_pu tp (Rdymsg msg) k;
               chSchReadyI tp k })"

definition chThdResumeS :: "nat \<Rightarrow> msg_t \<Rightarrow> ch_system \<Rightarrow> (unit outcome \<times> ch_system) option" where
  "chThdResumeS trp msg k =
     (case tref k trp of
        None \<Rightarrow> Some (Done (), k)
      | Some tp \<Rightarrow>
          do { assert_that (state_of k tp = CH_STATE_SUSPENDED);
               let k = k\<lparr>tref := (tref k)(trp := None)\<rparr>;
               chSchWakeupS tp msg k })"

definition chThdResume :: "nat \<Rightarrow> msg_t \<Rightarrow> ch_system \<Rightarrow> (unit outcome \<times> ch_system) option" where
  "chThdResume trp msg k =
     do { k \<leftarrow> chSysLock k; r \<leftarrow> chThdResumeS trp msg k;
          andthen r (\<lambda>_ k. do { k \<leftarrow> chSysUnlock k; Some (Done (), k) }) }"

subsection \<open>Thread queues\<close>

definition chThdQueueObjectInit :: "nat \<Rightarrow> ch_system \<Rightarrow> ch_system" where
  "chThdQueueObjectInit tqp k = queue_init (Q_THD tqp) k"

definition chThdQueueIsEmptyI :: "nat \<Rightarrow> ch_system \<Rightarrow> bool option" where
  "chThdQueueIsEmptyI tqp k = do { chDbgCheckClassI k; Some (queue_isempty (Q_THD tqp) k) }"

definition chThdEnqueueTimeoutS :: "nat \<Rightarrow> systime_t \<Rightarrow> ch_system \<Rightarrow> (msg_t outcome \<times> ch_system) option" where
  "chThdEnqueueTimeoutS tqp timeout k =
     (if TIME_IMMEDIATE = timeout then Some (Done MSG_TIMEOUT, k)
      else do { let k = queue_insert (r_current k) (Q_THD tqp) k;
                k \<leftarrow> chSchGoSleepTimeoutS CH_STATE_QUEUED timeout k;
                Some (Switched, k) })"

definition chThdDoDequeueNextI :: "nat \<Rightarrow> msg_t \<Rightarrow> ch_system \<Rightarrow> ch_system option" where
  "chThdDoDequeueNextI tqp msg k =
     do { assert_that (queue_notempty (Q_THD tqp) k);
          (tp, k) \<leftarrow> queue_fifo_remove (Q_THD tqp) k;
          assert_that (state_of k tp = CH_STATE_QUEUED);
          let k = set_pu tp (Rdymsg msg) k;
          chSchReadyI tp k }"

definition chThdDequeueNextI :: "nat \<Rightarrow> msg_t \<Rightarrow> ch_system \<Rightarrow> ch_system option" where
  "chThdDequeueNextI tqp msg k =
     (if queue_notempty (Q_THD tqp) k then chThdDoDequeueNextI tqp msg k else Some k)"

partial_function (option) chThdDequeueAllI :: "nat \<Rightarrow> msg_t \<Rightarrow> ch_system \<Rightarrow> ch_system option" where
  "chThdDequeueAllI tqp msg k =
     (if queue_notempty (Q_THD tqp) k
      then do { k \<leftarrow> chThdDoDequeueNextI tqp msg k; chThdDequeueAllI tqp msg k }
      else Some k)"

subsection \<open>Creating a thread\<close>

text \<open>An address at which no thread lives: nothing waits for it and it is not registered.\<close>

definition fresh :: "tid \<Rightarrow> ch_system \<Rightarrow> bool" where
  "fresh t k \<longleftrightarrow>
     (state_of k t = CH_STATE_WTSTART \<or> state_of k t = CH_STATE_FINAL) \<and>
     queues k (Q_WAIT t) = [] \<and> queues k (Q_MSG t) = [] \<and> mtxlist_of k t = [] \<and> t \<notin> set (reglist k)"

lemma qstate_live [simp]: "qstate q \<noteq> CH_STATE_WTSTART" "CH_STATE_WTSTART \<noteq> qstate q"
  by (cases q; simp)+

lemma fresh_lock [simp]: "fresh t (k\<lparr>lock_cnt := n\<rparr>) = fresh t k"
  by (simp add: fresh_def)

lemma fresh_unqueued:
  assumes "sched_ok k" "fresh t k"
  shows "unqueued t (queues k)" "t \<noteq> r_current k"
proof -
  show "unqueued t (queues k)" using assms by (intro sched_ok_unqueued) (auto simp: fresh_def)
  show "t \<noteq> r_current k" using sched_okD(3) [OF assms(1), of t] assms(2) by (auto simp: fresh_def)
qed

lemma thread_init_simps [simp]:
  "queues (thread_init t p k) = (queues k)(Q_WAIT t := [], Q_MSG t := [])"
  "r_current (thread_init t p k) = r_current k" "s_cnt (thread_init t p k) = s_cnt k"
  "m_owner (thread_init t p k) = m_owner k" "tref (thread_init t p k) = tref k"
  "reglist (thread_init t p k) = reglist k @ [t]" "vtimer (thread_init t p k) = vtimer k"
  "vtlist (thread_init t p k) = vtlist k" "isr_cnt (thread_init t p k) = isr_cnt k"
  "lock_cnt (thread_init t p k) = lock_cnt k"
  "class_I (thread_init t p k) = class_I k" "class_S (thread_init t p k) = class_S k"
  "state_of (thread_init t p k) x = (if x = t then CH_STATE_WTSTART else state_of k x)"
  "p_u (thd (thread_init t p k) x) = p_u (thd k x)"
  "prio_of (thread_init t p k) x = (if x = t then p else prio_of k x)"
  "p_realprio (thd (thread_init t p k) x) = (if x = t then p else p_realprio (thd k x))"
  "mtxlist_of (thread_init t p k) x = (if x = t then [] else mtxlist_of k x)"
  "p_refs (thd (thread_init t p k) x) = (if x = t then 1 else p_refs (thd k x))"
  "p_flags (thd (thread_init t p k) x) = (if x = t then CH_FLAG_MODE_STATIC else p_flags (thd k x))"
  by (simp_all add: thread_init_def Let_def REG_INSERT_def list_init_def queue_init_def class_I_def class_S_def)

lemma queues_thread_init: "fresh t k \<Longrightarrow> queues (thread_init t p k) = queues k"
  by (rule ext) (simp add: fresh_def)

lemma kernel_ok_thread_init:
  assumes ok: "kernel_ok k" and f: "fresh t k" and p: "NOPRIO < p"
  shows "kernel_ok (thread_init t p k)"
proof -
  note s = kernel_okD(1) [OF ok] and w = kernel_okD(2) [OF ok] and uq = fresh_unqueued [OF kernel_okD(1) [OF ok] f]
  have Q: "queues (thread_init t p k) = queues k" using queues_thread_init [OF f] .
  have sorted: "prio_sorted (prio_of (thread_init t p k)) (queues k q)" if "by_prio q" for q
    using sched_okD(6) [OF s that] uq(1) by (subst prio_sorted_cong [where pr' = "prio_of k"]) (auto simp: unqueued_def)
  have "sched_ok (thread_init t p k)"
    unfolding sched_ok_def Q using s uq p sorted sched_okD(2) [OF s, unfolded unqueued_def]
    by (auto simp del: thread_init_simps(1) dest: sched_okD(4,5) simp: sched_okD(1,2,3,7) unqueued_def)
  moreover have "wait_ok (thread_init t p k)"
    using w f unfolding wait_ok_def Q by (auto simp del: thread_init_simps(1) simp: fresh_def)
  moreover have "sem_ok (thread_init t p k)" using kernel_okD(3) [OF ok] by (simp add: sem_ok_def)
  ultimately show ?thesis by (simp add: kernel_ok_def)
qed

lemma mtx_ok_thread_init:
  assumes ok: "kernel_ok k" and mok: "mtx_ok k" and f: "fresh t k" and p: "NOPRIO < p"
  shows "mtx_ok (thread_init t p k)"
proof -
  have uq: "t \<notin> set (queues k q)" for q using fresh_unqueued(1) [OF kernel_okD(1) [OF ok] f] by (simp add: unqueued_def)
  have own: "m_owner k m \<noteq> Some t" for m using mok f by (auto simp: mtx_ok_def mtx_owned_ok_def fresh_def)
  have wf: "waits_for (thread_init t p k) = waits_for k" by (intro ext) (simp add: waits_for_def)
  have wt: "waits_for k w x \<Longrightarrow> w \<noteq> t \<and> x \<noteq> t" for w x using uq own by (auto simp: waits_for_def)
  have tight: "tight_at (thread_init t p k) x" for x
  proof (cases "x = t")
    case False
    have "tight_at k x" using mok by (simp add: mtx_ok_def)
    then show ?thesis using wt False unfolding tight_at_def wf by (metis thread_init_simps(15,16))
  qed (simp add: tight_at_def)
  have "mtx_owned_ok (thread_init t p k)" using mok own p f by (auto simp: mtx_ok_def mtx_owned_ok_def fresh_def)
  then show ?thesis using mok tight wt by (auto simp: mtx_ok_def wf)
qed

text \<open>What creating a thread amounts to.\<close>

definition created :: "tid \<Rightarrow> tprio_t \<Rightarrow> ch_system \<Rightarrow> unit outcome \<times> ch_system" where
  "created t p k = wakeupS t MSG_OK (thread_init t p k)"

lemma create_wakeup:
  assumes ok: "kernel_ok k" and S: "class_S k" and f: "fresh t k" and p: "NOPRIO < p"
  shows "chSchWakeupS t MSG_OK (thread_init t p k) = Some (created t p k)" "kernel_ok (snd (created t p k))"
proof -
  let ?k = "thread_init t p k"
  have K: "kernel_ok ?k" using kernel_ok_thread_init [OF ok f p] .
  note s = kernel_okD(1) [OF K] and ne = fresh_unqueued [OF kernel_okD(1) [OF ok] f]
  have dq: "queue_dequeue t ?k = ?k"
    using ne(1) queues_thread_init [OF f, of p] by (intro queue_dequeue_unqueued) (simp del: thread_init_simps(1))
  show "chSchWakeupS t MSG_OK ?k = Some (created t p k)"
    using chSchWakeupS_eq [OF s, of t MSG_OK] S ne(2) by (simp add: dq created_def)
  show "kernel_ok (snd (created t p k))" unfolding created_def
  proof (rule kernel_ok_wakeupS [OF s])
    show "wait_ok_but t ?k" using wait_ok_but [OF kernel_okD(2) [OF K]] by simp
    show "sem_ok (queue_dequeue t ?k)" using kernel_okD(3) [OF K] by (simp add: dq)
  qed (use ne in simp)
qed

lemma mtx_ok_wakeupS:
  assumes "kernel_ok k" "state_of k t \<noteq> CH_STATE_WTMTX"
  shows "mtx_ok (snd (wakeupS t u k)) = mtx_ok k"
proof -
  have "t \<notin> set (queues k (Q_MTX m))" for m
    using sched_okD(4) [OF kernel_okD(1) [OF assms(1)], of t "Q_MTX m"] assms(2) by auto
  then show ?thesis by (intro mtx_ok_cong) (auto simp: wakeupS_def unqueue_def)
qed

lemma resched_ok_thread_init:
  assumes "kernel_ok k" "fresh t k" "resched_ok k"
  shows "resched_ok (thread_init t p k)"
proof -
  have "t \<notin> set (queues k Q_RLIST)" "t \<noteq> r_current k"
    using fresh_unqueued [OF kernel_okD(1) [OF assms(1)] assms(2)] by (simp_all add: unqueued_def)
  then show ?thesis using assms(3) by (auto simp: resched_ok_iff) (metis hd_in_set)
qed

lemma chThdCreateStatic_eq:
  assumes ok: "kernel_ok k" and mok: "mtx_ok k" and th: "class_thread k" and re: "resched_ok k"
    and f: "fresh t k" and p: "NOPRIO < p" "p \<le> HIGHPRIO" and sz: "wa_min \<le> sz"
  shows "chThdCreateStatic wa_min t sz p k =
      (if p \<le> prio_of k (r_current k) then Some (Done t, (snd (created t p (k\<lparr>lock_cnt := 1\<rparr>)))\<lparr>lock_cnt := 0\<rparr>)
       else Some (Switched, snd (created t p (k\<lparr>lock_cnt := 1\<rparr>))))" (is ?eq)
    and "kernel_ok (snd (created t p (k\<lparr>lock_cnt := 1\<rparr>)))" "mtx_ok (snd (created t p (k\<lparr>lock_cnt := 1\<rparr>)))"
      "resched_ok (snd (created t p (k\<lparr>lock_cnt := 1\<rparr>)))"
proof -
  define k0 where "k0 = k\<lparr>lock_cnt := 1\<rparr>"
  let ?ki = "thread_init t p k0"
  have k0: "kernel_ok k0" "mtx_ok k0" "class_S k0" "resched_ok k0" "fresh t k0"
    using ok mok th re f by (simp_all add: k0_def class_S_def class_thread_def)
  note C = create_wakeup [OF k0(1,3,5) p(1)]
  have ne: "t \<noteq> r_current k0" using fresh_unqueued [OF kernel_okD(1) [OF k0(1)] k0(5)] by simp
  have Ki: "kernel_ok ?ki" using kernel_ok_thread_init [OF k0(1,5) p(1)] .
  have R: "resched_ok (snd (created t p k0))" unfolding created_def
    using resched_ok_wakeupS [of ?ki t MSG_OK] kernel_okD(1) [OF Ki] resched_ok_thread_init [OF k0(1,5,4), of p] ne by simp
  have M: "mtx_ok (snd (created t p k0))" unfolding created_def
    using mtx_ok_wakeupS [OF Ki, of t MSG_OK] mtx_ok_thread_init [OF k0(1,2,5) p(1)] by simp
  have "chThdCreateStatic wa_min t sz p k =
      (if p \<le> prio_of k (r_current k) then Some (Done t, (snd (created t p k0))\<lparr>lock_cnt := 0\<rparr>)
       else Some (Switched, snd (created t p k0)))"
    using chSysLock_ok [OF th] C(1) k0(3) p(2) sz ne R chSysUnlock_resched [of "snd (created t p k0)"]
    by (auto simp: chThdCreateStatic_def chThdCreateI_def class_S_I created_def wakeupS_def k0_def [symmetric])
      (simp_all add: k0_def)
  then show ?eq by (simp add: k0_def)
  show "kernel_ok (snd (created t p (k\<lparr>lock_cnt := 1\<rparr>)))" "mtx_ok (snd (created t p (k\<lparr>lock_cnt := 1\<rparr>)))"
      "resched_ok (snd (created t p (k\<lparr>lock_cnt := 1\<rparr>)))"
    using C(2) M R by (simp_all add: k0_def)
qed

text \<open>
  Creating a static thread at an address where no thread lives, with a priority above
  \<open>NOPRIO\<close>, always returns to the scheduler with every kernel invariant intact: the thread is
  registered last, has the given priority and one reference, and runs at once if its priority is
  higher than the caller's; otherwise it is ready and the caller goes on.
\<close>

theorem chThdCreateStatic_starts:
  assumes ok: "kernel_ok k" and mok: "mtx_ok k" and th: "class_thread k" and re: "resched_ok k"
    and f: "fresh t k" and p: "NOPRIO < p" "p \<le> HIGHPRIO" and sz: "wa_min \<le> sz"
  shows "\<exists>out k'. chThdCreateStatic wa_min t sz p k = Some (out, k') \<and> kernel_ok k' \<and> mtx_ok k' \<and> resched_ok k' \<and>
           reglist k' = reglist k @ [t] \<and> prio_of k' t = p \<and> p_refs (thd k' t) = 1 \<and>
           (if p \<le> prio_of k (r_current k)
            then out = Done t \<and> r_current k' = r_current k \<and> state_of k' t = CH_STATE_READY \<and> class_thread k'
            else out = Switched \<and> r_current k' = t \<and> state_of k' (r_current k) = CH_STATE_READY)"
proof -
  note E = chThdCreateStatic_eq [OF assms]
  have "t \<noteq> r_current k" using fresh_unqueued [OF kernel_okD(1) [OF ok] f] by simp
  then show ?thesis
    using E(2-4) th unfolding E(1)
    by (auto simp: created_def wakeupS_def class_thread_def class_S_def)
qed

theorem chThdCreateStatic_starts_witness:
  "\<exists>k'. chThdCreateStatic 256 2 1024 65 sys0 = Some (Switched, k') \<and> kernel_ok k' \<and>
     r_current k' = 2 \<and> reglist k' = reglist sys0 @ [2]"
proof -
  have "fresh 2 sys0" "prio_of sys0 (r_current sys0) = 64"
    by (simp_all add: fresh_def sys0_def thread0_def NORMALPRIO_def)
  then show ?thesis
    using chThdCreateStatic_starts [OF sys0_kernel_ok sys0_mtx_ok sys0_facts(1,2), of 2 65 256 1024]
    by (auto simp: NOPRIO_def HIGHPRIO_def)
qed

subsection \<open>Thread references\<close>

definition resumed :: "nat \<Rightarrow> msg_t \<Rightarrow> ch_system \<Rightarrow> ch_system" where
  "resumed r m k =
     (case tref k r of None \<Rightarrow> k | Some t \<Rightarrow> woken t m (k\<lparr>tref := (tref k)(r := None)\<rparr>))"

lemma tref_thread:
  assumes "kernel_ok k" "tref k r = Some t"
  shows "state_of k t = CH_STATE_SUSPENDED" "t \<noteq> r_current k" "queue_dequeue t k = k"
    "timeout_obj t k = k\<lparr>tref := (tref k)(r := None)\<rparr>" "unqueue t (queues k) = queues k"
proof -
  show st: "state_of k t = CH_STATE_SUSPENDED" using wait_okD(2) [OF kernel_okD(2) [OF assms(1)] assms(2)] by simp
  show "t \<noteq> r_current k" using st sched_okD(3) [OF kernel_okD(1) [OF assms(1)], of t] by auto
  show uq: "unqueue t (queues k) = queues k"
    using timed_wait_unqueued [OF kernel_okD(1) [OF assms(1)], of t] st by simp
  then show "queue_dequeue t k = k" by (simp add: queue_dequeue_def)
  show "timeout_obj t k = k\<lparr>tref := (tref k)(r := None)\<rparr>"
    using wait_okD(2) [OF kernel_okD(2) [OF assms(1)] assms(2)] by (simp add: timeout_obj_def)
qed

lemma kernel_ok_resumed:
  assumes "kernel_ok k"
  shows "kernel_ok (resumed r m k)"
proof (cases "tref k r")
  case (Some t)
  then show ?thesis
    using kernel_ok_timeout(1) [OF assms, of t m] tref_thread [OF assms Some] by (simp add: resumed_def)
qed (use assms in \<open>simp add: resumed_def\<close>)

lemma dequeue_tref: "queue_dequeue t (k\<lparr>tref := R\<rparr>) = (queue_dequeue t k)\<lparr>tref := R\<rparr>"
  by (simp add: queue_dequeue_def)

lemma sched_ok_tref [simp]: "sched_ok (k\<lparr>tref := R\<rparr>) = sched_ok k"
  by (simp add: sched_ok_def)

lemma chThdResumeI_eq:
  assumes "kernel_ok k" "class_I k"
  shows "chThdResumeI r m k = Some (resumed r m k)"
proof (cases "tref k r")
  case (Some t)
  note h = tref_thread [OF assms(1) Some]
  have "chSchReadyI t (set_pu t (Rdymsg m) (queue_dequeue t (k\<lparr>tref := (tref k)(r := None)\<rparr>))) =
      Some (woken t m (k\<lparr>tref := (tref k)(r := None)\<rparr>))"
    using kernel_okD(1) [OF assms(1)] assms(2) h(1) by (intro pu_then_ready) auto
  then show ?thesis using Some h by (simp add: chThdResumeI_def resumed_def Let_def dequeue_tref)
qed (simp add: chThdResumeI_def resumed_def)

lemma resumed_same [simp]:
  "isr_cnt (resumed r m k) = isr_cnt k" "lock_cnt (resumed r m k) = lock_cnt k"
  "r_current (resumed r m k) = r_current k" "tref (resumed r m k) = (tref k)(r := None)"
  by (auto simp: resumed_def split: option.splits)

interpretation thd_resume: class_I_op "chThdResumeI r m" "\<lambda>_. True" for r m
  by unfold_locales (simp add: chThdResumeI_eq kernel_ok_resumed)

text \<open>
  Suspending and resuming. A thread that suspends itself on a free reference leaves the
  processor with the reference naming it. In that state, and as long as the reference names it,
  \<open>chThdResumeI\<close> from an interrupt handler makes exactly that thread ready with the given message,
  clears the reference, and a second resume changes nothing; the kernel invariant holds throughout.
\<close>

theorem suspend_resume:
  assumes ok: "kernel_ok k" and S: "class_S k" and ne: "queues k Q_RLIST \<noteq> []" and free: "tref k r = None"
  shows "\<exists>k1. chThdSuspendS r k = Some (Switched, k1) \<and> kernel_ok k1 \<and> tref k1 r = Some (r_current k) \<and>
           (\<forall>k2. kernel_ok k2 \<and> class_I k2 \<and> tref k2 r = Some (r_current k) \<longrightarrow>
              (\<exists>k3. chThdResumeI r m k2 = Some k3 \<and> kernel_ok k3 \<and> tref k3 r = None \<and>
                 rdymsg_of (r_current k) k3 = Some m \<and>
                 (\<forall>x. state_of k3 x = (if x = r_current k then CH_STATE_READY else state_of k2 x)) \<and>
                 chThdResumeI r m k3 = Some k3))"
proof -
  let ?c = "r_current k"
  let ?k = "set_pu ?c (Wttrp r) (k\<lparr>tref := (tref k)(r := Some ?c)\<rparr>)"
  have g: "chThdSuspendS r k = Some (Switched, sleeping CH_STATE_SUSPENDED ?k)"
    using chSchGoSleepS_eq [of ?k CH_STATE_SUSPENDED] S ne free by (simp add: chThdSuspendS_def chThdGetSelfX_def Let_def)
  have "kernel_ok (sleeping CH_STATE_SUSPENDED ?k)"
    using ok ne free by (intro kernel_ok_sleeping [OF ok ne]) (auto simp: waits_at_def)
  moreover have "\<exists>k3. chThdResumeI r m k2 = Some k3 \<and> kernel_ok k3 \<and> tref k3 r = None \<and>
        rdymsg_of ?c k3 = Some m \<and> (\<forall>x. state_of k3 x = (if x = ?c then CH_STATE_READY else state_of k2 x)) \<and>
        chThdResumeI r m k3 = Some k3"
    if h: "kernel_ok k2 \<and> class_I k2 \<and> tref k2 r = Some ?c" for k2
  proof -
    have "chThdResumeI r m k2 = Some (resumed r m k2)" using h chThdResumeI_eq by blast
    moreover have "chThdResumeI r m (resumed r m k2) = Some (resumed r m k2)" by (simp add: chThdResumeI_def)
    moreover have "rdymsg_of ?c (resumed r m k2) = Some m" using h by (simp add: resumed_def rdymsg_of_def)
    moreover have "state_of (resumed r m k2) x = (if x = ?c then CH_STATE_READY else state_of k2 x)" for x
      using h by (simp add: resumed_def)
    ultimately show ?thesis using h kernel_ok_resumed [of k2 r m] by (metis resumed_same(4) fun_upd_same)
  qed
  ultimately show ?thesis using g by (intro exI [of _ "sleeping CH_STATE_SUSPENDED ?k"]) simp
qed

theorem suspend_resume_witness:
  "\<exists>k1 k3. chThdSuspendS 5 (sys0\<lparr>lock_cnt := 1\<rparr>) = Some (Switched, k1) \<and> chThdResumeI 5 7 k1 = Some k3 \<and>
     state_of k3 0 = CH_STATE_READY \<and> rdymsg_of 0 k3 = Some 7"
proof -
  let ?k = "sys0\<lparr>lock_cnt := 1\<rparr>"
  have h: "kernel_ok ?k" "class_S ?k" "queues ?k Q_RLIST \<noteq> []" "tref ?k 5 = None" "r_current ?k = 0"
    using sys0_kernel_ok sys0_facts(1) by (simp_all add: class_S_def class_thread_def) (simp_all add: sys0_def)
  obtain k1 where k1: "chThdSuspendS 5 ?k = Some (Switched, k1)" "kernel_ok k1" "tref k1 5 = Some 0"
      "\<forall>k2. kernel_ok k2 \<and> class_I k2 \<and> tref k2 5 = Some 0 \<longrightarrow>
              (\<exists>k3. chThdResumeI 5 7 k2 = Some k3 \<and> kernel_ok k3 \<and> tref k3 5 = None \<and>
                 rdymsg_of 0 k3 = Some 7 \<and>
                 (\<forall>x. state_of k3 x = (if x = 0 then CH_STATE_READY else state_of k2 x)) \<and>
                 chThdResumeI 5 7 k3 = Some k3)"
    using suspend_resume [OF h(1-4), of 7] unfolding h(5) by auto
  have "class_I k1" using k1(1) h(2,3)
    by (auto simp: chThdSuspendS_def Let_def chThdGetSelfX_def chSchGoSleepS_eq class_I_def class_S_def split: if_splits)
  then show ?thesis using k1 by metis
qed

subsection \<open>Leaving and waking the threads that wait\<close>

lemma kernel_ok_set_pu:
  assumes "kernel_ok k" "\<not> obj_wait (state_of k t)" "state_of k t \<noteq> CH_STATE_SUSPENDED"
    "state_of k t \<noteq> CH_STATE_WTOREVT" "state_of k t \<noteq> CH_STATE_WTANDEVT"
  shows "kernel_ok (set_pu t u k)"
proof -
  have "sched_ok (set_pu t u k)" using kernel_okD(1) [OF assms(1)] by (auto simp: sched_ok_def)
  moreover have "wait_ok (set_pu t u k)"
    using kernel_okD(2) [OF assms(1)] assms(2-5) unfolding wait_ok_def by (auto simp: waits_at_def)
  ultimately show ?thesis using kernel_okD(3) [OF assms(1)] by (simp add: kernel_ok_def sem_ok_def)
qed

definition readied_all :: "tid list \<Rightarrow> ch_system \<Rightarrow> ch_system" where
  "readied_all ts k = fold readied ts k"

lemma readied_all_simps [simp]:
  "readied_all [] k = k" "r_current (readied_all ts k) = r_current k" "class_S (readied_all ts k) = class_S k"
  "s_cnt (readied_all ts k) = s_cnt k" "tref (readied_all ts k) = tref k" "reglist (readied_all ts k) = reglist k"
  "state_of (readied_all ts k) x = (if x \<in> set ts then CH_STATE_READY else state_of k x)"
  "p_u (thd (readied_all ts k) x) = p_u (thd k x)" "prio_of (readied_all ts k) x = prio_of k x"
  "p_flags (thd (readied_all ts k) x) = p_flags (thd k x)" "mtxlist_of (readied_all ts k) x = mtxlist_of k x"
  "m_owner (readied_all ts k) = m_owner k" "p_realprio (thd (readied_all ts k) x) = p_realprio (thd k x)"
proof -
  have a: "reglist (readied t k) = reglist k" "p_flags (thd (readied t k) x) = p_flags (thd k x)" for t k x
    by (simp_all add: readied_def make_ready_def)
  show "readied_all [] k = k" "r_current (readied_all ts k) = r_current k" "class_S (readied_all ts k) = class_S k"
    "s_cnt (readied_all ts k) = s_cnt k" "tref (readied_all ts k) = tref k" "reglist (readied_all ts k) = reglist k"
    "state_of (readied_all ts k) x = (if x \<in> set ts then CH_STATE_READY else state_of k x)"
    "p_u (thd (readied_all ts k) x) = p_u (thd k x)" "prio_of (readied_all ts k) x = prio_of k x"
    "p_flags (thd (readied_all ts k) x) = p_flags (thd k x)" "mtxlist_of (readied_all ts k) x = mtxlist_of k x"
    "m_owner (readied_all ts k) = m_owner k" "p_realprio (thd (readied_all ts k) x) = p_realprio (thd k x)"
    unfolding readied_all_def by (induction ts arbitrary: k) (auto simp: a)
qed

lemma queues_readied_all:
  "q \<noteq> Q_RLIST \<Longrightarrow> queues (readied_all ts k) q = filter (\<lambda>x. x \<notin> set ts) (queues k q)"
proof (induction ts arbitrary: k)
  case (Cons t ts)
  have "readied_all (t # ts) k = readied_all ts (readied t k)" by (simp add: readied_all_def)
  then show ?case using Cons by (auto simp: unqueue_def intro: filter_cong)
qed simp

lemma exit_loop_eq:
  "kernel_ok k \<Longrightarrow> class_I k \<Longrightarrow> queues k (Q_WAIT t) = ws \<Longrightarrow>
   exit_loop t k = Some (readied_all ws k) \<and> kernel_ok (readied_all ws k)"
proof (induction ws arbitrary: k)
  case Nil
  then show ?case by (subst exit_loop.simps) (simp add: list_notempty_def)
next
  case (Cons w ws)
  note s = kernel_okD(1) [OF Cons.prems(1)]
  have w: "state_of k w = CH_STATE_WTEXIT" "w \<noteq> r_current k" "w \<notin> set ws"
    using sched_okD(4) [OF s, of w "Q_WAIT t"] sched_okD(3) [OF s, of w] Cons.prems(3)
      apart_distinct [OF sched_okD(1) [OF s], of "Q_WAIT t"] by auto
  have K: "kernel_ok (readied w k)" using Cons.prems(1) w by (intro kernel_ok_readied) auto
  have rd: "chSchReadyI w (queue_dequeue w k) = Some (readied w k)"
    using chSchReadyI_eq [of "queue_dequeue w k" w] Cons.prems(2) w(1) sched_okD(7) [OF s, of w]
    by (simp add: readied_def)
  have "queues (readied w k) (Q_WAIT t) = ws" using Cons.prems(3) w(3) by (simp add: unqueue_def)
  then have IH: "exit_loop t (readied w k) = Some (readied_all ws (readied w k)) \<and>
      kernel_ok (readied_all ws (readied w k))" using Cons.IH [OF K] Cons.prems(2) by simp
  have rm: "list_remove (Q_WAIT t) k = Some (w, queue_dequeue w k)"
    using set_queue_fifo [OF s Cons.prems(3)] Cons.prems(3) by (simp add: list_remove_def)
  show ?case using IH rd rm Cons.prems(3)
    by (subst exit_loop.simps) (simp add: list_notempty_def readied_all_def)
qed

lemma chThdExitS_sleeps:
  assumes ok: "kernel_ok k" and S: "class_S k" and ne: "queues k Q_RLIST \<noteq> []"
  shows "\<exists>k2. chThdExitS m k = Some (sleeping CH_STATE_FINAL k2) \<and> kernel_ok (sleeping CH_STATE_FINAL k2) \<and>
           resched_ok (sleeping CH_STATE_FINAL k2) \<and> class_S k2 \<and> r_current k2 = r_current k \<and>
           queues k2 Q_RLIST \<noteq> [] \<and> r_current k \<noteq> hd (queues k2 Q_RLIST) \<and> state_of k2 (hd (queues k2 Q_RLIST)) = CH_STATE_READY \<and>
           (\<forall>x. state_of k2 x = (if x \<in> set (queues k (Q_WAIT (r_current k))) then CH_STATE_READY else state_of k x)) \<and>
           (\<forall>x. p_u (thd k2 x) = (if x = r_current k then Rdymsg m else p_u (thd k x))) \<and>
           (\<forall>x. mtxlist_of k2 x = mtxlist_of k x) \<and> mtx_ok k2 = mtx_ok k \<and>
           (\<forall>q. q \<noteq> Q_RLIST \<longrightarrow> queues k2 q = filter (\<lambda>x. x \<notin> set (queues k (Q_WAIT (r_current k)))) (queues k q)) \<and>
           reglist k2 = (if and (p_flags (thd k (r_current k))) CH_FLAG_MODE_MASK = CH_FLAG_MODE_STATIC
                         then filter (\<lambda>t. t \<noteq> r_current k) (reglist k) else reglist k)"
proof -
  let ?c = "r_current k"
  define k1 where "k1 = set_pu ?c (Rdymsg m) k"
  have st: "state_of k ?c = CH_STATE_CURRENT" using sched_okD(3) [OF kernel_okD(1) [OF ok]] by simp
  have k1: "kernel_ok k1" "class_I k1" "queues k1 = queues k" "r_current k1 = ?c"
    using kernel_ok_set_pu [OF ok, of ?c "Rdymsg m"] st S by (simp_all add: k1_def class_S_I)
  define ws where "ws = queues k (Q_WAIT ?c)"
  define k2 where "k2 = readied_all ws k1"
  have k2: "exit_loop ?c k1 = Some k2" "kernel_ok k2" "class_S k2" "r_current k2 = ?c"
    using exit_loop_eq [OF k1(1,2), of ?c ws] S k1 by (simp_all add: k2_def ws_def, simp add: k1_def)
  have rl: "queues k2 Q_RLIST \<noteq> []"
  proof -
    obtain t where "t \<in> set (queues k Q_RLIST)" using ne by (cases "queues k Q_RLIST") auto
    then have "state_of k2 t = CH_STATE_READY"
      using sched_okD(4) [OF kernel_okD(1) [OF ok], of t Q_RLIST] by (auto simp: k2_def k1_def)
    then show ?thesis using sched_okD(5) [OF kernel_okD(1) [OF k2(2)], of t] by auto
  qed
  define k3 where "k3 = (if and (p_flags (thd k2 ?c)) CH_FLAG_MODE_MASK = CH_FLAG_MODE_STATIC
                         then REG_REMOVE ?c k2 else k2)"
  have k3: "thd k3 = thd k2" "queues k3 = queues k2" "r_current k3 = ?c" "tref k3 = tref k2" "s_cnt k3 = s_cnt k2"
    "class_S k3" using k2(3,4) by (auto simp: k3_def REG_REMOVE_def class_S_def)
  have eq: "chThdExitS m k = Some (sleeping CH_STATE_FINAL k3)"
    using k2(1) chSchGoSleepS_eq [OF k3(6), of CH_STATE_FINAL] rl k3(2)
    by (simp add: chThdExitS_def Let_def k1_def [symmetric] k3_def)
  have K: "kernel_ok (sleeping CH_STATE_FINAL k3)"
    using k2(4) by (intro kernel_ok_sleeping [OF k2(2) rl]) (auto simp: k3)
  obtain t ts where r: "queues k2 Q_RLIST = t # ts" using rl by (cases "queues k2 Q_RLIST") auto
  have R: "resched_ok (sleeping CH_STATE_FINAL k3)"
    using resched_ok_sleeping [OF kernel_okD(1) [OF k2(2)] r, of k3] k3 r by simp
  have tc: "t \<noteq> ?c" using rlist_head_not_current [OF kernel_okD(1) [OF k2(2)] r] k2(4) by simp
  have hd: "state_of k2 t = CH_STATE_READY" using sched_okD(4) [OF kernel_okD(1) [OF k2(2)], of t Q_RLIST] r by simp
  have q: "queues k2 q = filter (\<lambda>x. x \<notin> set ws) (queues k q)" if "q \<noteq> Q_RLIST" for q
    using queues_readied_all [OF that, of ws k1] k1(3) by (simp add: k2_def)
  have "filter (\<lambda>x. x \<notin> set ws) (queues k (Q_MTX i)) = queues k (Q_MTX i)" for i
    using apart_same [OF sched_okD(1) [OF kernel_okD(1) [OF ok]], of _ "Q_MTX i" "Q_WAIT ?c"]
    by (auto simp: filter_id_conv ws_def)
  then have mtx: "mtx_ok k3 = mtx_ok k"
    using q [of "Q_MTX _"] by (intro mtx_ok_cong) (simp_all add: k3(1,2) k3_def REG_REMOVE_def k2_def k1_def)
  show ?thesis
    unfolding eq using K R k3 r tc hd mtx q
    by (intro exI [of _ k3]) (auto simp: k2_def k1_def ws_def k3_def REG_REMOVE_def)
qed

text \<open>
  A thread that exits leaves the processor for good: its state is \<open>CH_STATE_FINAL\<close>, its exit
  code is stored, every thread that waited for it can run, nobody is left in its waiting list, a
  static thread leaves the registry (a dynamic one stays until it is released), and the
  highest-priority ready thread runs with the kernel invariant intact. It can never be made ready again.
\<close>

theorem chThdExitS_final:
  assumes ok: "kernel_ok k" and S: "class_S k" and ne: "queues k Q_RLIST \<noteq> []"
  shows "\<exists>k'. chThdExitS m k = Some k' \<and> kernel_ok k' \<and> resched_ok k' \<and>
           state_of k' (r_current k) = CH_STATE_FINAL \<and> rdymsg_of (r_current k) k' = Some m \<and>
           (\<forall>t \<in> set (queues k (Q_WAIT (r_current k))). runnable k' t) \<and> queues k' (Q_WAIT (r_current k)) = [] \<and>
           reglist k' = (if and (p_flags (thd k (r_current k))) CH_FLAG_MODE_MASK = CH_FLAG_MODE_STATIC
                         then filter (\<lambda>t. t \<noteq> r_current k) (reglist k) else reglist k) \<and>
           chSchReadyI (r_current k) k' = None"
proof -
  let ?c = "r_current k"
  obtain k2 where k2: "chThdExitS m k = Some (sleeping CH_STATE_FINAL k2)" "kernel_ok (sleeping CH_STATE_FINAL k2)"
      "resched_ok (sleeping CH_STATE_FINAL k2)" "r_current k2 = ?c" "?c \<noteq> hd (queues k2 Q_RLIST)"
      "\<forall>x. state_of k2 x = (if x \<in> set (queues k (Q_WAIT ?c)) then CH_STATE_READY else state_of k x)"
      "\<forall>x. p_u (thd k2 x) = (if x = ?c then Rdymsg m else p_u (thd k x))"
      "\<forall>q. q \<noteq> Q_RLIST \<longrightarrow> queues k2 q = filter (\<lambda>x. x \<notin> set (queues k (Q_WAIT ?c))) (queues k q)"
      "reglist k2 = (if and (p_flags (thd k ?c)) CH_FLAG_MODE_MASK = CH_FLAG_MODE_STATIC
                     then filter (\<lambda>t. t \<noteq> ?c) (reglist k) else reglist k)"
    using chThdExitS_sleeps [OF assms, of m] by blast
  have fin: "state_of (sleeping CH_STATE_FINAL k2) ?c = CH_STATE_FINAL" using k2(4,5) by simp
  have "chSchReadyI ?c (sleeping CH_STATE_FINAL k2) = None"
    using fin by (cases "chDbgCheckClassI (sleeping CH_STATE_FINAL k2)") (simp_all add: chSchReadyI_def bind_assert_False)
  moreover have "?c \<notin> set (queues k (Q_WAIT ?c))" using sched_okD(2) [OF kernel_okD(1) [OF ok]] by (simp add: unqueued_def)
  ultimately show ?thesis using k2 fin by (auto simp: runnable_def rdymsg_of_def)
qed

theorem chThdExitS_final_witness:
  "\<exists>k'. chThdExitS 3 (sys0\<lparr>lock_cnt := 1\<rparr>) = Some k' \<and> state_of k' 0 = CH_STATE_FINAL \<and> reglist k' = [1]"
proof -
  have h: "kernel_ok (sys0\<lparr>lock_cnt := 1\<rparr>)" "class_S (sys0\<lparr>lock_cnt := 1\<rparr>)" "queues (sys0\<lparr>lock_cnt := 1\<rparr>) Q_RLIST \<noteq> []"
    using sys0_kernel_ok sys0_facts(1) by (simp_all add: class_S_def class_thread_def) (simp_all add: sys0_def)
  have "r_current sys0 = 0" "reglist sys0 = [0, 1]" "p_flags (thd sys0 0) = 0" by (simp_all add: sys0_def thread0_def)
  then show ?thesis using chThdExitS_final [OF h, of 3] by (auto simp: CH_FLAG_MODE_STATIC_def)
qed

subsection \<open>Thread queues\<close>

lemma thd_queue_head:
  assumes "kernel_ok k" "queues k (Q_THD q) = t # ts"
  shows "state_of k t = CH_STATE_QUEUED" "t \<noteq> r_current k" "t \<notin> set ts"
proof -
  note s = kernel_okD(1) [OF assms(1)]
  show st: "state_of k t = CH_STATE_QUEUED" using sched_okD(4) [OF s, of t "Q_THD q"] assms(2) by simp
  show "t \<noteq> r_current k" using sched_okD(3) [OF s, of t] st by auto
  show "t \<notin> set ts" using apart_distinct [OF sched_okD(1) [OF s], of "Q_THD q"] assms(2) by simp
qed

lemma chThdDoDequeueNextI_eq:
  assumes "kernel_ok k" "class_I k" "queues k (Q_THD q) = t # ts"
  shows "chThdDoDequeueNextI q m k = Some (woken t m k)" "kernel_ok (woken t m k)"
proof -
  note s = kernel_okD(1) [OF assms(1)] and h = thd_queue_head [OF assms(1,3)]
  show "chThdDoDequeueNextI q m k = Some (woken t m k)"
    using pu_then_ready [OF s assms(2), of t m] h set_queue_fifo [OF s assms(3)] assms(3)
    by (simp add: chThdDoDequeueNextI_def queue_notempty_def queue_fifo_remove_def Let_def)
  show "kernel_ok (woken t m k)"
    using assms(1) h kernel_okD [OF assms(1)] not_sem_queue [OF s, of t]
    by (intro kernel_ok_woken wait_ok_but sem_ok_dequeue) auto
qed

lemma chThdDequeueAllI_eq:
  "kernel_ok k \<Longrightarrow> class_I k \<Longrightarrow> queues k (Q_THD q) = ts \<Longrightarrow>
   chThdDequeueAllI q m k = Some (woken_all m ts k) \<and> kernel_ok (woken_all m ts k)"
proof (induction ts arbitrary: k)
  case Nil
  then show ?case by (subst chThdDequeueAllI.simps) (simp add: queue_notempty_def)
next
  case (Cons t ts)
  note d = chThdDoDequeueNextI_eq [OF Cons.prems(1-3), of m]
  have "queues (woken t m k) (Q_THD q) = ts"
    using Cons.prems(3) thd_queue_head(3) [OF Cons.prems(1,3)] by (simp add: unqueue_def)
  then show ?case using Cons.IH [OF d(2)] Cons.prems(2,3) d(1)
    by (subst chThdDequeueAllI.simps) (simp add: queue_notempty_def woken_all_Cons)
qed

interpretation thd_dequeue_next: class_I_op "chThdDequeueNextI q m" "\<lambda>_. True" for q m
proof unfold_locales
  fix k
  assume h: "kernel_ok k" "class_I k"
  show "\<exists>k'. chThdDequeueNextI q m k = Some k' \<and> kernel_ok k' \<and> isr_cnt k' = isr_cnt k \<and> lock_cnt k' = lock_cnt k \<and>
      r_current k' = r_current k"
    using h chThdDoDequeueNextI_eq [OF h, of q] 
    by (cases "queues k (Q_THD q)") (simp_all add: chThdDequeueNextI_def queue_notempty_def)
qed

interpretation thd_dequeue_all: class_I_op "chThdDequeueAllI q m" "\<lambda>_. True" for q m
  by unfold_locales (use chThdDequeueAllI_eq in fastforce)

lemma chThdEnqueueTimeoutS_ok:
  assumes ok: "kernel_ok k" and sl: "can_sleep time k"
  shows "\<exists>k'. chThdEnqueueTimeoutS q time k = Some (Switched, k') \<and> kernel_ok k' \<and>
           state_of k' (r_current k) = CH_STATE_QUEUED \<and> queues k' (Q_THD q) = queues k (Q_THD q) @ [r_current k] \<and>
           resched_ok k'"
proof -
  let ?c = "r_current k" and ?k = "queue_insert (r_current k) (Q_THD q) k"
  have ne: "queues k Q_RLIST \<noteq> []" using sl by (simp add: can_sleep_def)
  have "can_sleep time ?k" using sl by (simp add: queue_insert_def)
  then obtain k1 where k1: "chSchGoSleepTimeoutS CH_STATE_QUEUED time ?k = Some (sleeping CH_STATE_QUEUED k1)"
    "timed time ?k k1" using chSchGoSleepTimeoutS_ok by blast
  then have c: "core k1 = core ?k" by (simp add: timed_def)
  note cd = coreD [OF c]
  have nz: "TIME_IMMEDIATE \<noteq> time" using sl by (auto simp: can_sleep_def TIME_IMMEDIATE_def TIME_INFINITE_def)
  have uq: "?c \<notin> set (queues k q')" for q' using sched_okD(2) [OF kernel_okD(1) [OF ok]] by (simp add: unqueued_def)
  have "kernel_ok (sleeping CH_STATE_QUEUED k1)"
    using uq apart_distinct [OF sched_okD(1) [OF kernel_okD(1) [OF ok]]]
    by (intro kernel_ok_sleeping [OF ok ne]) (auto simp: cd queue_insert_def intro!: disjI2 exI [of _ "Q_THD q"])
  moreover obtain t ts where r: "queues k Q_RLIST = t # ts" using ne by (cases "queues k Q_RLIST") auto
  moreover have "resched_ok (sleeping CH_STATE_QUEUED k1)"
    using resched_ok_sleeping [OF kernel_okD(1) [OF ok] r, of k1] r by (simp add: cd queue_insert_def)
  moreover have "t \<noteq> ?c" using uq [of Q_RLIST] r by auto
  ultimately show ?thesis using k1(1) nz
    by (simp add: chThdEnqueueTimeoutS_def Let_def cd queue_insert_def)
qed

text \<open>
  Dequeuing all the threads of a queue from an interrupt handler always ends, makes every
  waiting thread ready with the given message, empties the queue and touches no other thread; among
  threads of one priority the ready list keeps their waiting order.
\<close>

theorem chThdDequeueAllI_wakes:
  assumes ok: "kernel_ok k" and cl: "class_I k"
  shows "\<exists>k'. chThdDequeueAllI q m k = Some k' \<and> kernel_ok k' \<and> queues k' (Q_THD q) = [] \<and>
           (\<forall>t. if t \<in> set (queues k (Q_THD q)) then state_of k' t = CH_STATE_READY \<and> rdymsg_of t k' = Some m
                else state_of k' t = state_of k t \<and> rdymsg_of t k' = rdymsg_of t k) \<and>
           (\<forall>p. filter (\<lambda>t. prio_of k t = p) (queues k' Q_RLIST) =
                filter (\<lambda>t. prio_of k t = p) (queues k Q_RLIST) @ filter (\<lambda>t. prio_of k t = p) (queues k (Q_THD q)))"
proof -
  let ?ts = "queues k (Q_THD q)"
  note s = kernel_okD(1) [OF ok] and e = chThdDequeueAllI_eq [OF ok cl refl, of q m]
  have "set ?ts \<inter> set (queues k Q_RLIST) = {}" "distinct ?ts"
    using apart_same [OF sched_okD(1) [OF s], of _ "Q_THD q" Q_RLIST] apart_distinct [OF sched_okD(1) [OF s]] by auto
  then have "queues (woken_all m ?ts k) Q_RLIST = prio_insert_all (prio_of k) ?ts (queues k Q_RLIST)"
    by (rule rlist_woken_all)
  then show ?thesis
    using e prio_insert_all_stable [OF sched_okD(6) [OF s, of Q_RLIST]] queues_woken_all [of "Q_THD q" m ?ts k]
    by (auto simp: rdymsg_of_def)
qed

text \<open>The main thread waits in queue 3 and the idle thread runs.\<close>

definition sys_queued :: ch_system where
  "sys_queued = sleeping CH_STATE_QUEUED (queue_insert 0 (Q_THD 3) (sys0\<lparr>lock_cnt := 1\<rparr>))"

lemma sys_queued_facts:
  "kernel_ok sys_queued" "class_I sys_queued" "queues sys_queued (Q_THD 3) = [0]"
proof -
  let ?k = "sys0\<lparr>lock_cnt := 1\<rparr>"
  have h: "kernel_ok ?k" "can_sleep TIME_INFINITE ?k" "r_current ?k = 0" "class_S ?k" "queues ?k Q_RLIST \<noteq> []"
    "queues ?k (Q_THD 3) = []"
    using sys0_kernel_ok sys0_facts(1) by (simp_all add: can_sleep_def class_S_def class_thread_def) (simp_all add: sys0_def)
  have "chThdEnqueueTimeoutS 3 TIME_INFINITE ?k = Some (Switched, sys_queued)"
    using h chSchGoSleepS_eq [of "queue_insert 0 (Q_THD 3) ?k" CH_STATE_QUEUED]
    by (simp add: chThdEnqueueTimeoutS_def chSchGoSleepTimeoutS_def sys_queued_def queue_insert_def TIME_IMMEDIATE_def
        TIME_INFINITE_def Let_def)
  then show "kernel_ok sys_queued" "queues sys_queued (Q_THD 3) = [0]"
    using chThdEnqueueTimeoutS_ok [OF h(1,2), of 3] h by auto
  show "class_I sys_queued" using h(4) by (simp add: sys_queued_def queue_insert_def class_I_def class_S_def)
qed

theorem chThdDequeueAllI_wakes_witness:
  "\<exists>k'. chThdDequeueAllI 3 9 sys_queued = Some k' \<and> kernel_ok k' \<and> state_of k' 0 = CH_STATE_READY \<and>
     rdymsg_of 0 k' = Some 9"
  using chThdDequeueAllI_wakes [OF sys_queued_facts(1,2), of 3 9] sys_queued_facts(3)
  by (metis list.set_intros(1))

subsection \<open>Starting a thread and changing priorities\<close>

text \<open>
  \<open>chThdStart\<close> leaves its critical zone without rescheduling. It returns, with the thread
  ready, only if the started thread's priority does not exceed the caller's; for a thread of
  higher priority the check on leaving the zone stops the system.
\<close>

theorem chThdStart_no_reschedule:
  assumes ok: "kernel_ok k" and th: "class_thread k" and re: "resched_ok k" and st: "state_of k t = CH_STATE_WTSTART"
  shows "chThdStart t k = (if prio_of k t \<le> prio_of k (r_current k) then Some (make_ready t k) else None)"
proof -
  let ?k = "k\<lparr>lock_cnt := 1\<rparr>"
  note s = kernel_okD(1) [OF ok]
  have S: "class_S ?k" using th by (simp add: class_S_def class_thread_def)
  have lk: "(make_ready t ?k)\<lparr>lock_cnt := 0\<rparr> = make_ready t k"
    using th by (intro ch_system.equality) (simp_all add: make_ready_def set_queue_def upd_thd_def class_thread_def)
  have r: "chThdStartI t ?k = Some (make_ready t ?k)"
    using st S sched_okD(7) [OF s, of t] chSchReadyI_eq [of ?k t] by (simp add: chThdStartI_def class_S_I)
  have S': "class_S (make_ready t ?k)" using S by (simp add: make_ready_def)
  have p: "prio_of (make_ready t ?k) x = prio_of k x" for x by (simp add: make_ready_def)
  have Q: "queues (make_ready t ?k) Q_RLIST = prio_insert (prio_of k) t (queues k Q_RLIST)"
    "r_current (make_ready t ?k) = r_current k" by (simp_all add: make_ready_def)
  have hd: "prio_of k (hd (prio_insert (prio_of k) t (queues k Q_RLIST))) \<le> prio_of k (r_current k) \<longleftrightarrow>
      prio_of k t \<le> prio_of k (r_current k)"
    using re by (auto simp: hd_prio_insert resched_ok_iff)
  show ?thesis
  proof (cases "prio_of k t \<le> prio_of k (r_current k)")
    case True
    then have "resched_ok (make_ready t ?k)" using hd by (simp add: resched_ok_iff p Q)
    then show ?thesis using True r lk chSysLock_ok [OF th] chSysUnlock_resched [OF S'] by (simp add: chThdStart_def)
  next
    case False
    then have "chSysUnlock (make_ready t ?k) = None"
      using hd by (intro chSysUnlock_missing_reschedule) (simp_all add: p Q)
    then show ?thesis using False r chSysLock_ok [OF th] by (simp add: chThdStart_def)
  qed
qed

theorem chThdStart_no_reschedule_witness:
  "prio_of sys0 2 = 65 \<and> state_of sys0 2 = CH_STATE_WTSTART \<and> chThdStart 2 sys0 = None"
proof -
  have h: "prio_of sys0 2 = 65" "state_of sys0 2 = CH_STATE_WTSTART" "prio_of sys0 (r_current sys0) = 64"
    by (simp_all add: sys0_def thread0_def NORMALPRIO_def)
  then show ?thesis using chThdStart_no_reschedule [OF sys0_kernel_ok sys0_facts(1,2), of 2] by simp
qed

definition repriced :: "tprio_t \<Rightarrow> ch_system \<Rightarrow> ch_system" where
  "repriced p k =
     (let c = r_current k
      in upd_thd c (\<lambda>x. x\<lparr>p_realprio := p\<rparr>)
           (if prio_of k c = p_realprio (thd k c) \<or> p > prio_of k c then set_prio c p k else k))"

lemma repriced_simps [simp]:
  "queues (repriced p k) = queues k" "r_current (repriced p k) = r_current k" "m_owner (repriced p k) = m_owner k"
  "mtxlist_of (repriced p k) x = mtxlist_of k x" "lock_cnt (repriced p k) = lock_cnt k" "isr_cnt (repriced p k) = isr_cnt k"
  "p_realprio (thd (repriced p k) x) = (if x = r_current k then p else p_realprio (thd k x))"
  "prio_of (repriced p k) x =
     (if x = r_current k \<and> (prio_of k x = p_realprio (thd k x) \<or> p > prio_of k x) then p else prio_of k x)"
  by (auto simp: repriced_def Let_def)

lemma kernel_ok_repriced:
  assumes "kernel_ok k" "NOPRIO < p"
  shows "kernel_ok (repriced p k)"
proof -
  have "kernel_ok (set_prio (r_current k) p k)" using kernel_ok_prio_current [OF assms] .
  then show ?thesis unfolding repriced_def Let_def
    by (rule_tac kernel_ok_cong [where k = "if prio_of k (r_current k) = p_realprio (thd k (r_current k)) \<or>
          p > prio_of k (r_current k) then set_prio (r_current k) p k else k"]) (use assms(1) in auto)
qed

lemma mtx_ok_repriced:
  assumes ok: "kernel_ok k" and mok: "mtx_ok k" and p: "NOPRIO < p"
    and w: "\<And>w. prio_of k (r_current k) = p_realprio (thd k (r_current k)) \<Longrightarrow>
      waits_for k w (r_current k) \<Longrightarrow> prio_of k w \<le> p"
  shows "mtx_ok (repriced p k)"
proof -
  let ?c = "r_current k" and ?k = "repriced p k"
  have wf: "waits_for ?k = waits_for k" by (intro ext) (simp add: waits_for_def)
  have nc: "\<not> waits_for k ?c x" for x
    using sched_okD(2) [OF kernel_okD(1) [OF ok]] by (auto simp: waits_for_def unqueued_def)
  have le: "waits_for k w x \<Longrightarrow> prio_of k w \<le> prio_of k x" for w x using mok by (simp add: mtx_ok_def)
  have rp: "p_realprio (thd k x) \<le> prio_of k x" for x using mok by (simp add: mtx_ok_def)
  have ti: "tight_at k x" for x using mok by (simp add: mtx_ok_def)
  have "mtx_owned_ok ?k" using mok p by (auto simp: mtx_ok_def mtx_owned_ok_def)
  moreover have "p_realprio (thd ?k x) \<le> prio_of ?k x" for x using rp by auto
  moreover have "prio_of ?k w \<le> prio_of ?k x" if "waits_for k w x" for w x
    using le [OF that] nc assms(4) that by fastforce
  moreover have "tight_at ?k x" for x
  proof (cases "x = ?c \<and> (prio_of k x = p_realprio (thd k x) \<or> p > prio_of k x)")
    case False
    then show ?thesis using ti [of x] nc unfolding tight_at_def wf by (auto split: if_splits) (metis)+
  qed (auto simp: tight_at_def)
  ultimately show ?thesis by (simp add: mtx_ok_def wf)
qed

text \<open>
  A thread changes its own priority: the call returns or switches to a higher-priority thread,
  reports the old priority, and the kernel invariant and the priority inheritance protocol hold
  afterwards, provided that no thread waiting for a mutex of the caller has a priority above the
  new one (unless the caller is already running at an inherited priority).
\<close>

theorem chThdSetPriority_protocol:
  assumes ok: "kernel_ok k" and mok: "mtx_ok k" and th: "class_thread k" and p: "NOPRIO < p" "p \<le> HIGHPRIO"
    and w: "prio_of k (r_current k) = p_realprio (thd k (r_current k)) \<Longrightarrow>
      \<forall>w. waits_for k w (r_current k) \<longrightarrow> prio_of k w \<le> p"
  shows "\<exists>out k'. chThdSetPriority p k = Some (out, k') \<and> kernel_ok k' \<and> mtx_ok k' \<and> resched_ok k' \<and>
           p_realprio (thd k' (r_current k)) = p \<and>
           (out = Switched \<or> out = Done (p_realprio (thd k (r_current k))) \<and> r_current k' = r_current k)"
proof -
  define k0 where "k0 = repriced p (k\<lparr>lock_cnt := 1\<rparr>)"
  have wf: "waits_for (k\<lparr>lock_cnt := 1\<rparr>) = waits_for k" by (intro ext) (simp add: waits_for_def)
  have K: "kernel_ok k0" "mtx_ok k0" "class_S k0" "r_current k0 = r_current k"
    using kernel_ok_repriced [of "k\<lparr>lock_cnt := 1\<rparr>" p] mtx_ok_repriced [of "k\<lparr>lock_cnt := 1\<rparr>" p] ok mok th p w
    by (simp_all add: k0_def class_S_def class_thread_def wf)
  note s = kernel_okD(1) [OF K(1)]
  have R: "resched_ok (snd (rescheduled k0))" "kernel_ok (snd (rescheduled k0))" "mtx_ok (snd (rescheduled k0))"
    using rescheduled_resched_ok [OF s] kernel_ok_rescheduled [OF K(1)] K(2) by simp_all
  have rp: "p_realprio (thd (snd (rescheduled k0)) (r_current k)) = p" by (simp add: rescheduled_def k0_def)
  have eq: "chThdSetPriority p k =
      (if resched_ok k0 then Some (Done (p_realprio (thd k (r_current k))), k0\<lparr>lock_cnt := 0\<rparr>)
       else Some (Switched, snd (rescheduled k0)))"
    using chSysLock_ok [OF th] p(2) chSchRescheduleS_eq [OF s K(3)] chSysUnlock_resched [OF K(3)]
    by (simp add: chThdSetPriority_def Let_def k0_def repriced_def rescheduled_def cong: if_cong)
  show ?thesis
  proof (cases "resched_ok k0")
    case True
    then show ?thesis using eq R K(4) rp K by (auto simp: rescheduled_def k0_def)
  next
    case False
    then show ?thesis using eq R rp by simp
  qed
qed

theorem chThdSetPriority_protocol_witness:
  "\<exists>out k'. chThdSetPriority 40 sys_owned = Some (out, k') \<and> kernel_ok k' \<and> mtx_ok k' \<and> p_realprio (thd k' 0) = 40"
proof -
  have nw: "\<not> waits_for sys_owned w 0" for w
    by (simp add: waits_for_def sys_owned_def mtx_take_def set_owner_def upd_thd_def) (simp add: sys0_def)
  show ?thesis
    using chThdSetPriority_protocol [OF sys_owned_facts(1-3), of 40] nw sys_owned_facts(5)
    by (auto simp: NOPRIO_def HIGHPRIO_def)
qed

text \<open>
  The main thread, priority 64, owns mutex 0; thread 2, priority 60, waits for it.
\<close>

definition sys_waited :: ch_system where
  "sys_waited = sys0\<lparr>
     thd := (thd sys0)(0 := (thd sys0 0)\<lparr>p_mtxlist := [0]\<rparr>,
                       2 := (thread0 60 CH_STATE_WTMTX)\<lparr>p_u := Wtobjp (Q_MTX 0)\<rparr>),
     queues := (queues sys0)(Q_MTX 0 := [2]), m_owner := (\<lambda>_. None)(0 := Some 0)\<rparr>"

lemma sys_waited_facts: "kernel_ok sys_waited" "mtx_ok sys_waited" "class_thread sys_waited" "resched_ok sys_waited"
proof -
  show "kernel_ok sys_waited"
    by (auto simp: kernel_ok_def sched_ok_def wait_ok_def sem_ok_def waits_at_def apart_def unqueued_def sys_waited_def
        sys0_def thread0_def NOPRIO_def NORMALPRIO_def IDLEPRIO_def split: if_splits)
  show "mtx_ok sys_waited"
    by (auto simp: mtx_ok_def mtx_owned_ok_def tight_at_def waits_for_def sys_waited_def sys0_def thread0_def NOPRIO_def
        NORMALPRIO_def IDLEPRIO_def split: if_splits)
  show "class_thread sys_waited" "resched_ok sys_waited"
    by (simp_all add: class_thread_def resched_ok_iff sys_waited_def sys0_def thread0_def NORMALPRIO_def IDLEPRIO_def)
qed

text \<open>
  C31. The proviso on changing priorities is needed. A mutex owner that runs at its own priority and
  lowers it goes below a thread that waits for its mutex: the code does not look at the waiting
  threads, and the priority inheritance protocol is broken afterwards.
\<close>

theorem chThdSetPriority_breaks_inheritance:
  "\<exists>k k' w. kernel_ok k \<and> mtx_ok k \<and> class_thread k \<and> resched_ok k \<and> chThdSetPriority 50 k = Some (Done 64, k') \<and>
     waits_for k' w (r_current k') \<and> prio_of k' (r_current k') < prio_of k' w \<and> \<not> mtx_ok k'"
proof -
  let ?k = sys_waited
  let ?k1 = "repriced 50 (?k\<lparr>lock_cnt := 1\<rparr>)"
  have v: "p_realprio (thd ?k 0) = 64" "r_current ?k = 0" "prio_of ?k 0 = 64" "prio_of ?k 2 = 60"
    "queues ?k Q_RLIST = [1]" "prio_of ?k 1 = 1" "m_owner ?k 0 = Some 0" "queues ?k (Q_MTX 0) = [2]"
    by (simp_all add: sys_waited_def sys0_def thread0_def NORMALPRIO_def IDLEPRIO_def)
  have s: "sched_ok ?k1" using kernel_ok_repriced [of "?k\<lparr>lock_cnt := 1\<rparr>" 50] sys_waited_facts(1) kernel_okD(1)
    by (auto simp: NOPRIO_def)
  have S: "class_S ?k1" "resched_ok ?k1" using sys_waited_facts(3) v
    by (simp_all add: class_S_def class_thread_def resched_ok_iff)
  have "chThdSetPriority 50 ?k = Some (Done 64, ?k1\<lparr>lock_cnt := 0\<rparr>)"
    using chSysLock_ok [OF sys_waited_facts(3)] chSchRescheduleS_eq [OF s S(1)] chSysUnlock_resched [OF S] S(2) v
    by (simp add: chThdSetPriority_def Let_def repriced_def rescheduled_def HIGHPRIO_def cong: if_cong)
  moreover have w: "waits_for (?k1\<lparr>lock_cnt := 0\<rparr>) 2 (r_current (?k1\<lparr>lock_cnt := 0\<rparr>))" using v
    by (auto simp: waits_for_def)
  moreover have lt: "prio_of (?k1\<lparr>lock_cnt := 0\<rparr>) (r_current (?k1\<lparr>lock_cnt := 0\<rparr>)) < prio_of (?k1\<lparr>lock_cnt := 0\<rparr>) 2"
    using v by simp
  moreover have "\<not> mtx_ok (?k1\<lparr>lock_cnt := 0\<rparr>)" using w lt unfolding mtx_ok_def by (meson not_le)
  ultimately show ?thesis using sys_waited_facts by blast
qed

end
