(* ===== verification/ChCond.thy ===== *)
theory ChCond
  imports ChMtx
begin

text \<open>
  Condition variables, \<open>chcond.c\<close>. A condition variable is a number \<open>c\<close> whose queue
  \<open>queues k (Q_COND c)\<close> is kept in priority order. Waiting gives up the mutex acquired last and
  sleeps in one critical zone; the part that runs when the thread is woken, which locks the
  mutex again, is \<open>chCondWaitS_resume\<close>.
\<close>

subsection \<open>The operations\<close>

definition chCondObjectInit :: "nat \<Rightarrow> ch_system \<Rightarrow> ch_system" where
  "chCondObjectInit cp k = queue_init (Q_COND cp) k"

definition chCondSignal :: "nat \<Rightarrow> ch_system \<Rightarrow> (unit outcome \<times> ch_system) option" where
  "chCondSignal cp k =
     do { k \<leftarrow> chSysLock k;
          r \<leftarrow> (if queue_notempty (Q_COND cp) k
                then do { (tp, k) \<leftarrow> queue_fifo_remove (Q_COND cp) k; chSchWakeupS tp MSG_OK k }
                else Some (Done (), k));
          andthen r (\<lambda>_ k. do { k \<leftarrow> chSysUnlock k; Some (Done (), k) }) }"

definition chCondSignalI :: "nat \<Rightarrow> ch_system \<Rightarrow> ch_system option" where
  "chCondSignalI cp k =
     do { chDbgCheckClassI k;
          if queue_notempty (Q_COND cp) k
          then do { (tp, k) \<leftarrow> queue_fifo_remove (Q_COND cp) k;
                    let k = set_pu tp (Rdymsg MSG_OK) k;
                    chSchReadyI tp k }
          else Some k }"

text \<open>The loop of \<open>chCondBroadcastI\<close>.\<close>

partial_function (option) cond_broadcast_loop :: "nat \<Rightarrow> ch_system \<Rightarrow> ch_system option" where
  "cond_broadcast_loop cp k =
     (if queue_notempty (Q_COND cp) k
      then do { (tp, k) \<leftarrow> queue_fifo_remove (Q_COND cp) k;
                k \<leftarrow> chSchReadyI tp k;
                cond_broadcast_loop cp (set_pu tp (Rdymsg MSG_RESET) k) }
      else Some k)"

definition chCondBroadcastI :: "nat \<Rightarrow> ch_system \<Rightarrow> ch_system option" where
  "chCondBroadcastI cp k = do { chDbgCheckClassI k; cond_broadcast_loop cp k }"

definition chCondBroadcast :: "nat \<Rightarrow> ch_system \<Rightarrow> (unit outcome \<times> ch_system) option" where
  "chCondBroadcast cp k =
     do { k \<leftarrow> chSysLock k; k \<leftarrow> chCondBroadcastI cp k; r \<leftarrow> chSchRescheduleS k;
          andthen r (\<lambda>_ k. do { k \<leftarrow> chSysUnlock k; Some (Done (), k) }) }"

definition chCondWaitS :: "nat \<Rightarrow> ch_system \<Rightarrow> (msg_t outcome \<times> ch_system) option" where
  "chCondWaitS cp k =
     do { let ctp = r_current k;
          chDbgCheckClassS k;
          assert_that (mtxlist_of k ctp \<noteq> []);
          mp \<leftarrow> chMtxGetNextMutexS k;
          k \<leftarrow> chMtxUnlockS mp k;
          let k = set_pu ctp (Wtobjp (Q_COND cp)) k;
          let k = queue_prio_insert ctp (Q_COND cp) k;
          k \<leftarrow> chSchGoSleepS CH_STATE_WTCOND k;
          Some (Switched, k) }"

definition chCondWaitS_resume :: "nat \<Rightarrow> ch_system \<Rightarrow> (msg_t outcome \<times> ch_system) option" where
  "chCondWaitS_resume mp k =
     do { msg \<leftarrow> rdymsg_of (r_current k) k;
          r \<leftarrow> chMtxLockS mp k;
          andthen r (\<lambda>_ k. Some (Done msg, k)) }"

definition chCondWait :: "nat \<Rightarrow> ch_system \<Rightarrow> (msg_t outcome \<times> ch_system) option" where
  "chCondWait cp k =
     do { k \<leftarrow> chSysLock k; r \<leftarrow> chCondWaitS cp k;
          andthen r (\<lambda>msg k. do { k \<leftarrow> chSysUnlock k; Some (Done msg, k) }) }"

definition chCondWaitTimeoutS :: "nat \<Rightarrow> systime_t \<Rightarrow> ch_system \<Rightarrow> (msg_t outcome \<times> ch_system) option" where
  "chCondWaitTimeoutS cp time k =
     do { chDbgCheckClassS k;
          assert_that (time \<noteq> TIME_IMMEDIATE);
          assert_that (mtxlist_of k (r_current k) \<noteq> []);
          mp \<leftarrow> chMtxGetNextMutexS k;
          k \<leftarrow> chMtxUnlockS mp k;
          let k = set_pu (r_current k) (Wtobjp (Q_COND cp)) k;
          let k = queue_prio_insert (r_current k) (Q_COND cp) k;
          k \<leftarrow> chSchGoSleepTimeoutS CH_STATE_WTCOND time k;
          Some (Switched, k) }"

definition chCondWaitTimeoutS_resume :: "nat \<Rightarrow> systime_t \<Rightarrow> ch_system \<Rightarrow> (msg_t outcome \<times> ch_system) option" where
  "chCondWaitTimeoutS_resume mp time k =
     do { (msg, k) \<leftarrow> chSchGoSleepTimeoutS_resume time k;
          if msg \<noteq> MSG_TIMEOUT
          then do { r \<leftarrow> chMtxLockS mp k; andthen r (\<lambda>_ k. Some (Done msg, k)) }
          else Some (Done msg, k) }"

definition chCondWaitTimeout :: "nat \<Rightarrow> systime_t \<Rightarrow> ch_system \<Rightarrow> (msg_t outcome \<times> ch_system) option" where
  "chCondWaitTimeout cp time k =
     do { k \<leftarrow> chSysLock k; r \<leftarrow> chCondWaitTimeoutS cp time k;
          andthen r (\<lambda>msg k. do { k \<leftarrow> chSysUnlock k; Some (Done msg, k) }) }"

subsection \<open>Waking\<close>

lemma cond_head:
  assumes "kernel_ok k" "queues k (Q_COND c) = t # ts"
  shows "state_of k t = CH_STATE_WTCOND" "t \<noteq> r_current k" "t \<notin> set ts"
proof -
  note s = kernel_okD(1) [OF assms(1)]
  show st: "state_of k t = CH_STATE_WTCOND" using sched_okD(4) [OF s, of t "Q_COND c"] assms(2) by simp
  show "t \<noteq> r_current k" using sched_okD(3) [OF s, of t] st by auto
  show "t \<notin> set ts" using apart_distinct [OF sched_okD(1) [OF s], of "Q_COND c"] assms(2) by simp
qed

lemma cond_woken:
  assumes "kernel_ok k" "queues k (Q_COND c) = t # ts"
  shows "kernel_ok (woken t m k)" "queue_fifo_remove (Q_COND c) k = Some (t, queue_dequeue t k)"
    "mtx_ok (woken t m k) = mtx_ok k"
proof -
  note s = kernel_okD(1) [OF assms(1)] and h = cond_head [OF assms]
  show "kernel_ok (woken t m k)"
    using assms(1) h kernel_okD [OF assms(1)] not_sem_queue [OF s, of t]
    by (intro kernel_ok_woken wait_ok_but sem_ok_dequeue) auto
  show "queue_fifo_remove (Q_COND c) k = Some (t, queue_dequeue t k)"
    using set_queue_fifo [OF s assms(2)] assms(2) by (simp add: queue_fifo_remove_def)
  show "mtx_ok (woken t m k) = mtx_ok k" using mtx_ok_woken [OF assms(1), of t m] h(1) by simp
qed

lemma chCondSignalI_eq:
  assumes "kernel_ok k" "class_I k"
  shows "chCondSignalI c k = Some (case queues k (Q_COND c) of [] \<Rightarrow> k | t # ts \<Rightarrow> woken t MSG_OK k)"
proof (cases "queues k (Q_COND c)")
  case (Cons t ts)
  then show ?thesis
    using pu_then_ready [OF kernel_okD(1) [OF assms(1)] assms(2), of t MSG_OK] cond_woken(2) [OF assms(1) Cons]
      cond_head [OF assms(1) Cons] assms(2)
    by (simp add: chCondSignalI_def queue_notempty_def Let_def)
qed (use assms in \<open>simp add: chCondSignalI_def queue_notempty_def\<close>)

interpretation cond_signal: class_I_op "chCondSignalI c" "\<lambda>_. True" for c
  by unfold_locales (auto simp: chCondSignalI_eq cond_woken(1) split: list.splits)

lemma cond_broadcast_loop_eq:
  "kernel_ok k \<Longrightarrow> class_I k \<Longrightarrow> queues k (Q_COND c) = ts \<Longrightarrow>
   cond_broadcast_loop c k = Some (woken_all MSG_RESET ts k) \<and> kernel_ok (woken_all MSG_RESET ts k) \<and>
   mtx_ok (woken_all MSG_RESET ts k) = mtx_ok k"
proof (induction ts arbitrary: k)
  case Nil
  then show ?case by (subst cond_broadcast_loop.simps) (simp add: queue_notempty_def)
next
  case (Cons t ts)
  note h = cond_head [OF Cons.prems(1,3)] and w2 = cond_woken(2) [OF Cons.prems(1,3)]
    and w1 = cond_woken(1) [OF Cons.prems(1,3), of MSG_RESET] and w3 = cond_woken(3) [OF Cons.prems(1,3), of MSG_RESET]
  have "queues (woken t MSG_RESET k) (Q_COND c) = ts" using Cons.prems(3) h(3) by (simp add: unqueue_def)
  moreover have "cond_broadcast_loop c k = cond_broadcast_loop c (woken t MSG_RESET k)"
    using w2 Cons.prems(3) h(1) ready_then_pu [OF kernel_okD(1) [OF Cons.prems(1)] Cons.prems(2), of t]
    by (subst cond_broadcast_loop.simps) (simp add: queue_notempty_def)
  ultimately show ?case using Cons.IH [OF w1] Cons.prems(2) w3 by (simp add: woken_all_Cons)
qed

interpretation cond_broadcast: class_I_op "chCondBroadcastI c" "\<lambda>_. True" for c
  by unfold_locales (use cond_broadcast_loop_eq in \<open>fastforce simp: chCondBroadcastI_def\<close>)

text \<open>
  A broadcast from a thread always ends: every thread waiting on the condition variable can
  run and gets \<open>MSG_RESET\<close>, the queue is empty, the kernel invariant and the priority inheritance
  protocol hold, and the highest-priority thread runs.
\<close>

theorem chCondBroadcast_wakes_all:
  assumes ok: "kernel_ok k" and mok: "mtx_ok k" and th: "class_thread k"
  shows "\<exists>out k'. chCondBroadcast c k = Some (out, k') \<and> kernel_ok k' \<and> mtx_ok k' \<and> resched_ok k' \<and>
           queues k' (Q_COND c) = [] \<and>
           (\<forall>t \<in> set (queues k (Q_COND c)). runnable k' t \<and> rdymsg_of t k' = Some MSG_RESET)"
proof -
  define k0 where "k0 = k\<lparr>lock_cnt := 1\<rparr>"
  define k1 where "k1 = woken_all MSG_RESET (queues k (Q_COND c)) k0"
  have b: "chCondBroadcastI c k0 = Some k1" "mtx_ok k1"
    using cond_broadcast_loop_eq [of k0 c] ok mok th
    by (auto simp: k0_def k1_def chCondBroadcastI_def class_I_def class_thread_def)
  have "chCondBroadcast c k = lock_resched (chCondBroadcastI c) k" by (simp add: chCondBroadcast_def lock_resched_def)
  then have res: "chCondBroadcast c k = Some (unlocked (rescheduled k1))"
      "kernel_ok (snd (unlocked (rescheduled k1)))" "resched_ok (snd (unlocked (rescheduled k1)))"
    using cond_broadcast.from_thread [OF ok th, of c] b(1) by (auto simp: k0_def)
  have k1: "queues k1 (Q_COND c) = []"
      "t \<in> set (queues k (Q_COND c)) \<Longrightarrow> runnable k1 t \<and> rdymsg_of t k1 = Some MSG_RESET" for t
    by (simp_all add: k1_def k0_def queues_woken_all runnable_def rdymsg_of_def)
  show ?thesis
    using res k1 b(2)
    by (intro exI [of _ "fst (unlocked (rescheduled k1))"] exI [of _ "snd (unlocked (rescheduled k1))"]) auto
qed

text \<open>Thread 2 waits on condition variable 4.\<close>

definition sys_cond :: ch_system where
  "sys_cond = sys0\<lparr>
     thd := (thd sys0)(2 := (thread0 60 CH_STATE_WTCOND)\<lparr>p_u := Wtobjp (Q_COND 4)\<rparr>),
     queues := (queues sys0)(Q_COND 4 := [2])\<rparr>"

lemma sys_cond_facts: "kernel_ok sys_cond" "mtx_ok sys_cond" "class_thread sys_cond" "queues sys_cond (Q_COND 4) = [2]"
proof -
  show "kernel_ok sys_cond"
    by (auto simp: kernel_ok_def sched_ok_def wait_ok_def sem_ok_def waits_at_def apart_def unqueued_def sys_cond_def
        sys0_def thread0_def NOPRIO_def NORMALPRIO_def IDLEPRIO_def split: if_splits)
  show "mtx_ok sys_cond"
    by (auto simp: mtx_ok_def mtx_owned_ok_def tight_at_def waits_for_def sys_cond_def sys0_def thread0_def NOPRIO_def
        NORMALPRIO_def IDLEPRIO_def split: if_splits)
  show "class_thread sys_cond" "queues sys_cond (Q_COND 4) = [2]" by (simp_all add: class_thread_def sys_cond_def sys0_def)
qed

theorem chCondBroadcast_wakes_all_witness:
  "\<exists>out k'. chCondBroadcast 4 sys_cond = Some (out, k') \<and> kernel_ok k' \<and> queues k' (Q_COND 4) = [] \<and> runnable k' 2"
  using chCondBroadcast_wakes_all [OF sys_cond_facts(1-3), of 4] sys_cond_facts(4) by auto

subsection \<open>Waiting\<close>

lemma chCondWaitS_sleeps:
  assumes ok: "kernel_ok k" and mok: "mtx_ok k" and S: "class_S k" and ne: "queues k Q_RLIST \<noteq> []"
    and own: "mtxlist_of k (r_current k) = mp # ms"
  shows "\<exists>np k2. chCondWaitS c k = Some (Switched, sleeping CH_STATE_WTCOND k2) \<and>
           falls_asleep (set_prio (r_current k) np (released (r_current k) mp k)) k2 \<and>
           kernel_ok (sleeping CH_STATE_WTCOND k2) \<and> mtx_ok k2 \<and> resched_ok (sleeping CH_STATE_WTCOND k2) \<and>
           set (queues k2 (Q_COND c)) = insert (r_current k) (set (queues k (Q_COND c))) \<and>
           m_owner k2 = (m_owner k)(mp := (case queues k (Q_MTX mp) of [] \<Rightarrow> None | t # ts \<Rightarrow> Some t))"
proof -
  let ?c = "r_current k"
  obtain np where np: "chMtxUnlockS mp k = Some (set_prio ?c np (released ?c mp k))"
      "kernel_ok (set_prio ?c np (released ?c mp k))" "mtx_ok (set_prio ?c np (released ?c mp k))"
    using chMtxUnlockS_ok [OF ok mok S own] by blast
  define K where "K = set_prio ?c np (released ?c mp k)"
  note R = released_frame [OF ok refl own]
  have K: "kernel_ok K" "mtx_ok K" "r_current K = ?c" "class_S K" "mtxlist_of K ?c = ms"
      "m_owner K = (m_owner k)(mp := (case queues k (Q_MTX mp) of [] \<Rightarrow> None | t # ts \<Rightarrow> Some t))"
    using np R S by (simp_all add: K_def)
  note s = kernel_okD(1) [OF K(1)]
  have ready: "queues K Q_RLIST \<noteq> []" "queues K (Q_COND c) = queues k (Q_COND c)"
    using ne mtx_head [OF ok, of mp] sched_okD(4) [OF kernel_okD(1) [OF ok], of _ "Q_COND c"]
    by (auto simp: K_def released_def Let_def unqueue_def filter_id_conv split: list.splits)
  define xs where "xs = prio_insert (prio_of K) ?c (queues K (Q_COND c))"
  define k2 where "k2 = set_queue (Q_COND c) xs (set_pu ?c (Wtobjp (Q_COND c)) K)"
  have uq: "?c \<notin> set (queues K q)" for q using sched_okD(2) [OF s] K(3) by (simp add: unqueued_def)
  have call: "chCondWaitS c k = Some (Switched, sleeping CH_STATE_WTCOND k2)"
    using S own np(1) K(3,4) ready(1) chSchGoSleepS_eq [of k2 CH_STATE_WTCOND]
    by (simp add: chCondWaitS_def chMtxGetNextMutexS_def Let_def K_def [symmetric] k2_def xs_def queue_prio_insert_def)
  have "kernel_ok (sleeping (qstate (Q_COND c)) k2)"
  proof (rule kernel_ok_sleeping_in [OF K(1) ready(1), where xs = xs and k' = K])
    show "sem_ok k2" using kernel_okD(3) [OF K(1)] by (simp add: k2_def sem_ok_def)
  qed (use uq K(3) sched_okD(6) [OF s, of "Q_COND c"] apart_distinct [OF sched_okD(1) [OF s]] in
       \<open>auto simp: xs_def k2_def prio_sorted_insert\<close>)
  moreover have "mtx_ok k2" using K(2) mtx_ok_cong [of k2 K] by (simp add: k2_def)
  moreover obtain t ts where r: "queues K Q_RLIST = t # ts" using ready(1) by (cases "queues K Q_RLIST") auto
  moreover have "resched_ok (sleeping CH_STATE_WTCOND k2)"
    using resched_ok_sleeping [OF s r, of k2] r by (simp add: k2_def)
  moreover have "falls_asleep K k2"
    using uq [of Q_RLIST] r sched_okD(4) [OF s, of t Q_RLIST] K(3,4) by (auto simp: falls_asleep_def k2_def)
  ultimately show ?thesis using call K ready(2)
    by (intro exI [of _ np] exI [of _ k2]) (simp add: K_def [symmetric], simp add: k2_def xs_def)
qed

text \<open>
  C25. Waiting on a condition variable gives up the mutex and goes to sleep without a gap: in the
  state in which the next thread runs, the caller is queued on the condition variable and the
  mutex it acquired last is already handed to its first waiting thread (or free); the kernel
  invariant and the inheritance protocol hold and a highest-priority thread runs.
\<close>

theorem chCondWaitS_atomic:
  assumes ok: "kernel_ok k" and mok: "mtx_ok k" and S: "class_S k" and ne: "queues k Q_RLIST \<noteq> []"
    and own: "mtxlist_of k (r_current k) = mp # ms"
  shows "\<exists>k'. chCondWaitS c k = Some (Switched, k') \<and> kernel_ok k' \<and> mtx_ok k' \<and> resched_ok k' \<and>
           state_of k' (r_current k) = CH_STATE_WTCOND \<and>
           set (queues k' (Q_COND c)) = insert (r_current k) (set (queues k (Q_COND c))) \<and>
           m_owner k' = (m_owner k)(mp := (case queues k (Q_MTX mp) of [] \<Rightarrow> None | t # ts \<Rightarrow> Some t)) \<and>
           mtxlist_of k' (r_current k) = ms"
proof -
  obtain np k2 where k2: "chCondWaitS c k = Some (Switched, sleeping CH_STATE_WTCOND k2)"
      "falls_asleep (set_prio (r_current k) np (released (r_current k) mp k)) k2" "kernel_ok (sleeping CH_STATE_WTCOND k2)"
      "mtx_ok k2" "resched_ok (sleeping CH_STATE_WTCOND k2)"
      "set (queues k2 (Q_COND c)) = insert (r_current k) (set (queues k (Q_COND c)))"
      "m_owner k2 = (m_owner k)(mp := (case queues k (Q_MTX mp) of [] \<Rightarrow> None | t # ts \<Rightarrow> Some t))"
    using chCondWaitS_sleeps [OF assms] by blast
  then show ?thesis
    using released_frame(2,7) [OF ok refl own] by (auto simp: falls_asleep_def)
qed

theorem chCondWaitS_atomic_witness:
  "\<exists>k'. chCondWaitS 4 (sys_owned\<lparr>lock_cnt := 1\<rparr>) = Some (Switched, k') \<and> kernel_ok k' \<and> mtx_ok k' \<and>
     state_of k' 0 = CH_STATE_WTCOND \<and> m_owner k' 0 = None"
proof -
  let ?k = "sys_owned\<lparr>lock_cnt := 1\<rparr>"
  have "class_S ?k" "queues ?k Q_RLIST \<noteq> []" "mtxlist_of ?k (r_current ?k) = [0]" "kernel_ok ?k" "mtx_ok ?k"
    using sys_owned_facts by (simp_all add: class_S_def class_thread_def) (simp add: sys_owned_def, simp add: sys0_def)
  then show ?thesis using chCondWaitS_atomic [of ?k 0 "[]" 4] sys_owned_facts(5,7) by auto
qed

end
