(* ===== verification/ChMsg.thy ===== *)
theory ChMsg
  imports ChThreads
begin

text \<open>
  Synchronous messages, \<open>chmsg.c\<close> and \<open>chmsg.h\<close> (senders are queued in arrival order). A sender
  waits in the queue \<open>Q_MSG t\<close> of the thread \<open>t\<close> it sends to until its message is taken, and then
  until it is released; what runs when it is woken is \<open>chMsgSend_resume\<close>.
\<close>

subsection \<open>The operations\<close>

definition chMsgSend :: "tid \<Rightarrow> msg_t \<Rightarrow> ch_system \<Rightarrow> (msg_t outcome \<times> ch_system) option" where
  "chMsgSend tp msg k =
     do { let ctp = r_current k;
          k \<leftarrow> chSysLock k;
          let k = upd_thd ctp (\<lambda>x. x\<lparr>p_msg := msg\<rparr>) k;
          let k = set_pu ctp (Wtobjp (Q_MSG tp)) k;
          let k = queue_insert ctp (Q_MSG tp) k;
          k \<leftarrow> (if state_of k tp = CH_STATE_WTMSG then chSchReadyI tp k else Some k);
          k \<leftarrow> chSchGoSleepS CH_STATE_SNDMSGQ k;
          Some (Switched, k) }"

definition chMsgSend_resume :: "ch_system \<Rightarrow> (msg_t \<times> ch_system) option" where
  "chMsgSend_resume k =
     do { msg \<leftarrow> rdymsg_of (r_current k) k; k \<leftarrow> chSysUnlock k; Some (msg, k) }"

definition chMsgIsPendingI :: "tid \<Rightarrow> ch_system \<Rightarrow> bool option" where
  "chMsgIsPendingI tp k = do { chDbgCheckClassI k; Some (queues k (Q_MSG tp) \<noteq> []) }"

definition chMsgGet :: "tid \<Rightarrow> ch_system \<Rightarrow> msg_t" where
  "chMsgGet tp k = p_msg (thd k tp)"

text \<open>\<open>chMsgWait_resume\<close> takes the first message; it runs at once if one is pending.\<close>

definition chMsgWait_resume :: "ch_system \<Rightarrow> (tid outcome \<times> ch_system) option" where
  "chMsgWait_resume k =
     do { (tp, k) \<leftarrow> queue_fifo_remove (Q_MSG (r_current k)) k;
          let k = set_state tp CH_STATE_SNDMSG k;
          k \<leftarrow> chSysUnlock k;
          Some (Done tp, k) }"

definition chMsgWait :: "ch_system \<Rightarrow> (tid outcome \<times> ch_system) option" where
  "chMsgWait k =
     do { k \<leftarrow> chSysLock k;
          b \<leftarrow> chMsgIsPendingI (r_current k) k;
          if \<not> b then do { k \<leftarrow> chSchGoSleepS CH_STATE_WTMSG k; Some (Switched, k) }
          else chMsgWait_resume k }"

definition chMsgReleaseS :: "tid \<Rightarrow> msg_t \<Rightarrow> ch_system \<Rightarrow> (unit outcome \<times> ch_system) option" where
  "chMsgReleaseS tp msg k = do { chDbgCheckClassS k; chSchWakeupS tp msg k }"

definition chMsgRelease :: "tid \<Rightarrow> msg_t \<Rightarrow> ch_system \<Rightarrow> (unit outcome \<times> ch_system) option" where
  "chMsgRelease tp msg k =
     do { k \<leftarrow> chSysLock k;
          assert_that (state_of k tp = CH_STATE_SNDMSG);
          r \<leftarrow> chMsgReleaseS tp msg k;
          andthen r (\<lambda>_ k. do { k \<leftarrow> chSysUnlock k; Some (Done (), k) }) }"

subsection \<open>Sending\<close>

lemma waiting_server:
  assumes "kernel_ok k" "state_of k t = CH_STATE_WTMSG"
  shows "queue_dequeue t k = k" "t \<noteq> r_current k"
proof -
  have "qstate q \<noteq> CH_STATE_WTMSG" for q by (cases q) auto
  then have "unqueued t (queues k)" using assms sched_ok_unqueued [OF kernel_okD(1) [OF assms(1)], of t] by metis
  then show "queue_dequeue t k = k" by (rule queue_dequeue_unqueued)
  show "t \<noteq> r_current k" using sched_okD(3) [OF kernel_okD(1) [OF assms(1)], of t] assms(2) by auto
qed

text \<open>The server, if it waits for a message, is made ready.\<close>

definition served :: "tid \<Rightarrow> ch_system \<Rightarrow> ch_system" where
  "served t k = (if state_of k t = CH_STATE_WTMSG then readied t k else k)"

lemma served_ok:
  assumes "kernel_ok k"
  shows "kernel_ok (served t k)" "r_current (served t k) = r_current k" "class_S (served t k) = class_S k"
    "q \<noteq> Q_RLIST \<Longrightarrow> queues (served t k) q = queues k q"
    "state_of (served t k) x = (if x = t \<and> state_of k t = CH_STATE_WTMSG then CH_STATE_READY else state_of k x)"
    "p_msg (thd (served t k) x) = p_msg (thd k x)"
proof -
  have "unqueue t (queues k) = queues k" if "state_of k t = CH_STATE_WTMSG"
    using waiting_server(1) [OF assms that] by (metis queue_dequeue_simps(1))
  then show "q \<noteq> Q_RLIST \<Longrightarrow> queues (served t k) q = queues k q" by (simp add: served_def)
  show "kernel_ok (served t k)"
    using kernel_ok_readied [OF assms, of t] assms waiting_server(2) [OF assms] by (simp add: served_def)
qed (simp_all add: served_def readied_def make_ready_def)

text \<open>
  Sending a message always reaches the scheduler: the message is stored, the sender waits last
  in the queue of the addressed thread, that thread can run if it was waiting for messages, the
  kernel invariant holds and a highest-priority ready thread runs.
\<close>

theorem chMsgSend_queues:
  assumes ok: "kernel_ok k" and th: "class_thread k" and ne: "queues k Q_RLIST \<noteq> []" and other: "tp \<noteq> r_current k"
  shows "\<exists>k'. chMsgSend tp m k = Some (Switched, k') \<and> kernel_ok k' \<and> resched_ok k' \<and>
           queues k' (Q_MSG tp) = queues k (Q_MSG tp) @ [r_current k] \<and> chMsgGet (r_current k) k' = m \<and>
           state_of k' (r_current k) = CH_STATE_SNDMSGQ \<and>
           (state_of k tp = CH_STATE_WTMSG \<longrightarrow> runnable k' tp)"
proof -
  let ?c = "r_current k" and ?xs = "queues k (Q_MSG tp) @ [r_current k]"
  define k0 where "k0 = upd_thd ?c (\<lambda>x. x\<lparr>p_msg := m\<rparr>) (k\<lparr>lock_cnt := 1\<rparr>)"
  define K where "K = served tp k0"
  have k0: "kernel_ok k0" "class_S k0" "r_current k0 = ?c" "queues k0 = queues k" "p_msg (thd k0 ?c) = m"
      "state_of k0 x = state_of k x" for x
    using th ok by (auto simp: k0_def class_S_def class_thread_def intro: kernel_ok_cong [of _ k])
  note K = served_ok [OF k0(1), where t = tp, folded K_def]
  have s: "sched_ok K" using kernel_okD(1) [OF K(1)] .
  have uq: "?c \<notin> set (queues K q)" for q using sched_okD(2) [OF s] K(2) k0(3) by (simp add: unqueued_def)
  have ready: "queues K Q_RLIST \<noteq> []" using ne k0(4) by (simp add: K_def served_def)
  define k2 where "k2 = set_queue (Q_MSG tp) ?xs (set_pu ?c (Wtobjp (Q_MSG tp)) K)"
  have pu: "(if state_of k tp = CH_STATE_WTMSG
      then chSchReadyI tp (queue_insert ?c (Q_MSG tp) (set_pu ?c (Wtobjp (Q_MSG tp)) k0))
      else Some (queue_insert ?c (Q_MSG tp) (set_pu ?c (Wtobjp (Q_MSG tp)) k0))) = Some k2"
  proof (cases "state_of k tp = CH_STATE_WTMSG")
    case True
    let ?k = "queue_insert ?c (Q_MSG tp) (set_pu ?c (Wtobjp (Q_MSG tp)) k0)"
    have dq: "queue_dequeue tp k0 = k0" using waiting_server(1) [OF k0(1), of tp] True k0(6) by simp
    have "chSchReadyI tp ?k = Some (make_ready tp ?k)"
      using k0 True sched_okD(7) [OF kernel_okD(1) [OF k0(1)], of tp] other
      by (intro chSchReadyI_eq) (simp_all add: queue_insert_def class_S_I)
    moreover have "make_ready tp ?k = k2"
      using True k0(4,6) other dq
      by (intro ch_system.equality)
        (simp_all add: k2_def K_def served_def readied_def make_ready_def queue_insert_def fun_eq_iff upd_thd_def set_queue_def)
    ultimately show ?thesis using True by simp
  next
    case False
    then show ?thesis using k0(4,6) by (simp add: k2_def K_def served_def queue_insert_def)
  qed
  have S2: "class_S k2" "queues k2 Q_RLIST \<noteq> []" using K(3) k0(2) ready by (simp_all add: k2_def)
  have call: "chMsgSend tp m k = Some (Switched, sleeping CH_STATE_SNDMSGQ k2)"
    using chSysLock_ok [OF th] pu chSchGoSleepS_eq [OF S2, of CH_STATE_SNDMSGQ] other k0(6)
    by (simp add: chMsgSend_def Let_def k0_def [symmetric] queue_insert_def split: if_splits)
  have "kernel_ok (sleeping (qstate (Q_MSG tp)) k2)"
  proof (rule kernel_ok_sleeping_in [OF K(1) ready, where xs = ?xs and k' = K])
    show "sem_ok k2" using kernel_okD(3) [OF K(1)] by (simp add: k2_def sem_ok_def)
  qed (use uq [of "Q_MSG tp"] K k0 apart_distinct [OF sched_okD(1) [OF s], of "Q_MSG tp"] in \<open>auto simp: k2_def\<close>)
  moreover obtain t ts where r: "queues K Q_RLIST = t # ts" using ready by (cases "queues K Q_RLIST") auto
  moreover have "resched_ok (sleeping CH_STATE_SNDMSGQ k2)"
    using resched_ok_sleeping [OF s r, of k2] r by (simp add: k2_def)
  moreover have "t \<noteq> ?c" using uq [of Q_RLIST] r by auto
  ultimately show ?thesis using call K(2,5,6) k0 other
    by (simp add: k2_def chMsgGet_def runnable_def)
qed

theorem chMsgSend_queues_witness:
  "\<exists>k'. chMsgSend 1 42 sys0 = Some (Switched, k') \<and> kernel_ok k' \<and> queues k' (Q_MSG 1) = [0] \<and> chMsgGet 0 k' = 42"
proof -
  have "queues sys0 Q_RLIST \<noteq> []" "1 \<noteq> r_current sys0" "r_current sys0 = 0" "queues sys0 (Q_MSG 1) = []"
    by (simp_all add: sys0_def)
  then show ?thesis using chMsgSend_queues [OF sys0_kernel_ok sys0_facts(1), of 1 42] by auto
qed

subsection \<open>Receiving and releasing\<close>

text \<open>A sender whose message has been taken.\<close>

definition taken :: "tid \<Rightarrow> ch_system \<Rightarrow> ch_system" where
  "taken t k = set_state t CH_STATE_SNDMSG (queue_dequeue t k)"

lemma kernel_ok_taken:
  assumes ok: "kernel_ok k" and t: "state_of k t = CH_STATE_SNDMSGQ"
  shows "kernel_ok (taken t k)"
proof -
  note s = kernel_okD(1) [OF ok] and w = kernel_okD(2) [OF ok]
  have tc: "t \<noteq> r_current k" using sched_okD(3) [OF s, of t] t by auto
  have q: "t \<in> set (queues k q) \<longleftrightarrow> q = q' \<and> t \<in> set (queues k q)" if "t \<in> set (queues k q')" for q q'
    using apart_same [OF sched_okD(1) [OF s], of t q q'] that by auto
  have "sched_ok (taken t k)" unfolding sched_ok_def
    using s tc by (auto simp: taken_def unqueue_def unqueued_def prio_sorted_remove sched_okD(3,7)
        dest: sched_okD(4,5,6) sched_okD(2) apart_unqueue [OF sched_okD(1)])
  moreover have "wait_ok (taken t k)"
  proof -
    have "waits_at (unqueue t (queues k)) (tref k) x (state_of k x) (p_u (thd k x))" if "x \<noteq> t" for x
      using wait_okD(1) [OF w, of x] that by (rule_tac waits_at_mono) (auto simp: unqueue_def)
    then show ?thesis using t wait_okD(2) [OF w] unfolding wait_ok_def taken_def by auto
  qed
  moreover have "sem_ok (taken t k)"
    using sem_ok_dequeue [OF kernel_okD(3) [OF ok], of t] not_sem_queue [OF s, of t] t
    by (simp add: taken_def sem_ok_def)
  ultimately show ?thesis by (simp add: kernel_ok_def)
qed

text \<open>
  With a message pending, \<open>chMsgWait\<close> returns at once with the sender that has waited longest
  and its message can be read. As long as that sender has not been released, \<open>chMsgRelease\<close> wakes
  exactly it with the answer. The kernel invariant holds after both, and a highest-priority
  thread runs.
\<close>

theorem msg_serve:
  assumes ok: "kernel_ok k" and th: "class_thread k" and re: "resched_ok k"
    and q: "queues k (Q_MSG (r_current k)) = c # cs"
  shows "\<exists>k1. chMsgWait k = Some (Done c, k1) \<and> kernel_ok k1 \<and> resched_ok k1 \<and> class_thread k1 \<and>
           queues k1 (Q_MSG (r_current k)) = cs \<and> chMsgGet c k1 = chMsgGet c k \<and> state_of k1 c = CH_STATE_SNDMSG \<and>
           (\<forall>k2. kernel_ok k2 \<and> class_thread k2 \<and> resched_ok k2 \<and> state_of k2 c = CH_STATE_SNDMSG \<longrightarrow>
              (\<exists>out k3. chMsgRelease c m k2 = Some (out, k3) \<and> kernel_ok k3 \<and> resched_ok k3 \<and>
                 runnable k3 c \<and> rdymsg_of c k3 = Some m \<and>
                 (\<forall>x. x \<noteq> c \<and> x \<noteq> r_current k2 \<longrightarrow> state_of k3 x = state_of k2 x)))"
proof -
  define k0 where "k0 = k\<lparr>lock_cnt := 1\<rparr>"
  note s = kernel_okD(1) [OF ok]
  have c: "state_of k c = CH_STATE_SNDMSGQ" "c \<notin> set cs"
    using sched_okD(4) [OF s, of c "Q_MSG (r_current k)"] q apart_distinct [OF sched_okD(1) [OF s], of "Q_MSG (r_current k)"]
    by auto
  have k0: "kernel_ok k0" "class_S k0" "sched_ok k0" using ok th s by (simp_all add: k0_def class_S_def class_thread_def)
  have nr: "c \<notin> set (queues k Q_RLIST)" using sched_okD(4) [OF s, of c Q_RLIST] c(1) by auto
  have fr: "queue_fifo_remove (Q_MSG (r_current k)) k0 = Some (c, queue_dequeue c k0)"
    using set_queue_fifo [OF k0(3), of "Q_MSG (r_current k)" c cs] q by (simp add: queue_fifo_remove_def k0_def)
  have T: "class_S (taken c k0)" "resched_ok (taken c k0)" "kernel_ok (taken c k0)"
    using kernel_ok_taken [OF k0(1), of c] k0(2) re nr c(1)
    by (simp_all add: taken_def resched_ok_iff unqueue_def k0_def)
  have w: "chMsgWait k = Some (Done c, (taken c k0)\<lparr>lock_cnt := 0\<rparr>)"
    using chSysLock_ok [OF th] k0(2) q fr chSysUnlock_resched [OF T(1,2)]
    by (simp add: chMsgWait_def chMsgIsPendingI_def chMsgWait_resume_def class_S_I k0_def [symmetric] taken_def)
      (simp add: k0_def)
  have rel: "\<exists>out k3. chMsgRelease c m k2 = Some (out, k3) \<and> kernel_ok k3 \<and> resched_ok k3 \<and>
                 runnable k3 c \<and> rdymsg_of c k3 = Some m \<and>
                 (\<forall>x. x \<noteq> c \<and> x \<noteq> r_current k2 \<longrightarrow> state_of k3 x = state_of k2 x)"
    if h: "kernel_ok k2 \<and> class_thread k2 \<and> resched_ok k2 \<and> state_of k2 c = CH_STATE_SNDMSG" for k2
  proof -
    let ?k = "k2\<lparr>lock_cnt := 1\<rparr>"
    have K: "kernel_ok ?k" "class_S ?k" "resched_ok ?k" "state_of ?k c = CH_STATE_SNDMSG"
      using h by (simp_all add: class_S_def class_thread_def)
    have "qstate q \<noteq> CH_STATE_SNDMSG" for q by (cases q) auto
    then have "unqueued c (queues ?k)" using K(4) sched_ok_unqueued [OF kernel_okD(1) [OF K(1)], of c] by metis
    then have dq: "queue_dequeue c ?k = ?k" by (rule queue_dequeue_unqueued)
    have cc: "c \<noteq> r_current ?k" using sched_okD(3) [OF kernel_okD(1) [OF K(1)], of c] K(4) by auto
    have wk: "chSchWakeupS c m ?k = Some (wakeupS c m ?k)"
      using chSchWakeupS_eq [OF kernel_okD(1) [OF K(1)] K(2) cc, of m] K(4) dq by simp
    have W: "kernel_ok (snd (wakeupS c m ?k))" "resched_ok (snd (wakeupS c m ?k))"
      using K cc kernel_okD [OF K(1)] resched_ok_wakeupS [of ?k c m] dq
      by (auto intro!: kernel_ok_wakeupS wait_ok_but)
    have "chMsgRelease c m k2 = Some (unlocked (wakeupS c m ?k))"
      using chSysLock_ok [of k2] h wk K(2,4) chSysUnlock_resched [of "snd (wakeupS c m ?k)"] W(2)
      by (auto simp: chMsgRelease_def chMsgReleaseS_def wakeupS_def)
    then show ?thesis using W cc
      by (auto simp: wakeupS_def runnable_def rdymsg_of_def)
  qed
  show ?thesis using w T rel q c(2)
    by (intro exI [of _ "(taken c k0)\<lparr>lock_cnt := 0\<rparr>"])
      (simp add: class_thread_def class_S_def taken_def chMsgGet_def k0_def unqueue_def)
qed

text \<open>The main thread has sent a message to the idle thread, which runs.\<close>

definition sys_sent :: ch_system where
  "sys_sent = sys0\<lparr>
     thd := (thd sys0)(0 := (thread0 NORMALPRIO CH_STATE_SNDMSGQ)\<lparr>p_u := Wtobjp (Q_MSG 1), p_msg := 42\<rparr>,
                       1 := thread0 IDLEPRIO CH_STATE_CURRENT),
     queues := (\<lambda>_. [])(Q_MSG 1 := [0]), r_current := 1\<rparr>"

theorem msg_serve_witness:
  "\<exists>k1 out k3. chMsgWait sys_sent = Some (Done 0, k1) \<and> chMsgGet 0 k1 = 42 \<and> chMsgRelease 0 5 k1 = Some (out, k3) \<and>
     runnable k3 0 \<and> rdymsg_of 0 k3 = Some 5"
proof -
  have "kernel_ok sys_sent"
    by (auto simp: kernel_ok_def sched_ok_def wait_ok_def sem_ok_def waits_at_def apart_def unqueued_def sys_sent_def
        sys0_def thread0_def NOPRIO_def NORMALPRIO_def IDLEPRIO_def split: if_splits)
  moreover have "class_thread sys_sent" "resched_ok sys_sent" "queues sys_sent (Q_MSG (r_current sys_sent)) = [0]"
      "chMsgGet 0 sys_sent = 42"
    by (simp_all add: sys_sent_def class_thread_def resched_ok_iff sys0_def chMsgGet_def)
  ultimately show ?thesis using msg_serve [of sys_sent 0 "[]" 5] by metis
qed

end
