(* ===== verification/ChEvents.thy ===== *)
theory ChEvents
  imports ChThreads
begin

unbundle bit_operations_syntax

text \<open>
  Event flags, \<open>chevents.c\<close> and \<open>chevents.h\<close>. An event source \<open>e\<close> keeps the list \<open>es_next k e\<close> of its
  listeners, a listener \<open>l\<close> is the record \<open>listener k l\<close>, and each thread has a set \<open>p_epending\<close> of
  pending events. The functions that run when a waiting thread is woken have the suffix \<open>_resume\<close>.
\<close>

subsection \<open>Registration\<close>

abbreviation epending_of :: "ch_system \<Rightarrow> tid \<Rightarrow> eventmask_t" where
  "epending_of k t \<equiv> p_epending (thd k t)"

abbreviation "set_epending t m \<equiv> upd_thd t (\<lambda>x. x\<lparr>p_epending := m\<rparr>)"

definition EVENT_MASK :: "nat \<Rightarrow> eventmask_t" where
  "EVENT_MASK eid = push_bit eid 1"

definition chEvtObjectInit :: "nat \<Rightarrow> ch_system \<Rightarrow> ch_system" where
  "chEvtObjectInit esp k = k\<lparr>es_next := (es_next k)(esp := [])\<rparr>"

definition chEvtRegisterMaskWithFlags ::
  "nat \<Rightarrow> nat \<Rightarrow> eventmask_t \<Rightarrow> eventflags_t \<Rightarrow> ch_system \<Rightarrow> ch_system option" where
  "chEvtRegisterMaskWithFlags esp elp events wflags k =
     do { k \<leftarrow> chSysLock k;
          let k = k\<lparr>es_next := (es_next k)(esp := elp # es_next k esp)\<rparr>;
          let k = k\<lparr>listener := (listener k)(elp :=
                \<lparr>el_listener = r_current k, el_events = events, el_flags = 0, el_wflags = wflags\<rparr>)\<rparr>;
          chSysUnlock k }"

definition chEvtRegisterMask :: "nat \<Rightarrow> nat \<Rightarrow> eventmask_t \<Rightarrow> ch_system \<Rightarrow> ch_system option" where
  "chEvtRegisterMask esp elp events k = chEvtRegisterMaskWithFlags esp elp events (- 1) k"

definition chEvtRegister :: "nat \<Rightarrow> nat \<Rightarrow> nat \<Rightarrow> ch_system \<Rightarrow> ch_system option" where
  "chEvtRegister esp elp event k = chEvtRegisterMask esp elp (EVENT_MASK event) k"

text \<open>The loop of \<open>chEvtUnregister\<close>: the first entry for the listener is unlinked.\<close>

fun unregister_loop :: "nat \<Rightarrow> nat list \<Rightarrow> nat list" where
  "unregister_loop elp [] = []"
| "unregister_loop elp (p # ps) = (if p = elp then ps else p # unregister_loop elp ps)"

definition chEvtUnregister :: "nat \<Rightarrow> nat \<Rightarrow> ch_system \<Rightarrow> ch_system option" where
  "chEvtUnregister esp elp k =
     do { k \<leftarrow> chSysLock k;
          let k = k\<lparr>es_next := (es_next k)(esp := unregister_loop elp (es_next k esp))\<rparr>;
          chSysUnlock k }"

definition chEvtIsListeningI :: "nat \<Rightarrow> ch_system \<Rightarrow> bool" where
  "chEvtIsListeningI esp k \<longleftrightarrow> es_next k esp \<noteq> []"

subsection \<open>Pending events and flags\<close>

definition chEvtGetAndClearEvents :: "eventmask_t \<Rightarrow> ch_system \<Rightarrow> (eventmask_t \<times> ch_system) option" where
  "chEvtGetAndClearEvents events k =
     do { k \<leftarrow> chSysLock k;
          let m = epending_of k (r_current k) AND events;
          let k = set_epending (r_current k) (epending_of k (r_current k) AND NOT events) k;
          k \<leftarrow> chSysUnlock k;
          Some (m, k) }"

definition chEvtAddEvents :: "eventmask_t \<Rightarrow> ch_system \<Rightarrow> (eventmask_t \<times> ch_system) option" where
  "chEvtAddEvents events k =
     do { k \<leftarrow> chSysLock k;
          let k = set_epending (r_current k) (epending_of k (r_current k) OR events) k;
          let events = epending_of k (r_current k);
          k \<leftarrow> chSysUnlock k;
          Some (events, k) }"

definition chEvtGetAndClearFlagsI :: "nat \<Rightarrow> ch_system \<Rightarrow> eventflags_t \<times> ch_system" where
  "chEvtGetAndClearFlagsI elp k =
     (let flags = el_flags (listener k elp)
      in (flags, k\<lparr>listener := (listener k)(elp := (listener k elp)\<lparr>el_flags := 0\<rparr>)\<rparr>))"

definition chEvtGetAndClearFlags :: "nat \<Rightarrow> ch_system \<Rightarrow> (eventflags_t \<times> ch_system) option" where
  "chEvtGetAndClearFlags elp k =
     do { k \<leftarrow> chSysLock k;
          let flags = el_flags (listener k elp);
          let k = k\<lparr>listener := (listener k)(elp := (listener k elp)\<lparr>el_flags := 0\<rparr>)\<rparr>;
          k \<leftarrow> chSysUnlock k;
          Some (flags, k) }"

subsection \<open>Signalling\<close>

text \<open>The condition under which a signalled thread is woken; reads \<open>p_u.ewmask\<close>.\<close>

definition evt_wakes :: "tid \<Rightarrow> ch_system \<Rightarrow> bool option" where
  "evt_wakes tp k =
     (if state_of k tp = CH_STATE_WTOREVT \<or> state_of k tp = CH_STATE_WTANDEVT
      then (case p_u (thd k tp) of
              Ewmask w \<Rightarrow>
                Some (state_of k tp = CH_STATE_WTOREVT \<and> epending_of k tp AND w \<noteq> 0 \<or>
                      state_of k tp = CH_STATE_WTANDEVT \<and> epending_of k tp AND w = w)
            | _ \<Rightarrow> None)
      else Some False)"

definition chEvtSignalI :: "tid \<Rightarrow> eventmask_t \<Rightarrow> ch_system \<Rightarrow> ch_system option" where
  "chEvtSignalI tp events k =
     do { chDbgCheckClassI k;
          let k = set_epending tp (epending_of k tp OR events) k;
          b \<leftarrow> evt_wakes tp k;
          if b then chSchReadyI tp (set_pu tp (Rdymsg MSG_OK) k) else Some k }"

definition chEvtSignal :: "tid \<Rightarrow> eventmask_t \<Rightarrow> ch_system \<Rightarrow> (unit outcome \<times> ch_system) option" where
  "chEvtSignal tp events k =
     do { k \<leftarrow> chSysLock k; k \<leftarrow> chEvtSignalI tp events k; r \<leftarrow> chSchRescheduleS k;
          andthen r (\<lambda>_ k. do { k \<leftarrow> chSysUnlock k; Some (Done (), k) }) }"

text \<open>The loop of \<open>chEvtBroadcastFlagsI\<close> over the listeners.\<close>

fun broadcast_loop :: "eventflags_t \<Rightarrow> nat list \<Rightarrow> ch_system \<Rightarrow> ch_system option" where
  "broadcast_loop flags [] k = Some k"
| "broadcast_loop flags (elp # es) k =
     do { let k = k\<lparr>listener := (listener k)(elp :=
                (listener k elp)\<lparr>el_flags := el_flags (listener k elp) OR flags\<rparr>)\<rparr>;
          k \<leftarrow> (if flags = 0 \<or> el_flags (listener k elp) AND el_wflags (listener k elp) \<noteq> 0
                then chEvtSignalI (el_listener (listener k elp)) (el_events (listener k elp)) k
                else Some k);
          broadcast_loop flags es k }"

definition chEvtBroadcastFlagsI :: "nat \<Rightarrow> eventflags_t \<Rightarrow> ch_system \<Rightarrow> ch_system option" where
  "chEvtBroadcastFlagsI esp flags k =
     do { chDbgCheckClassI k; broadcast_loop flags (es_next k esp) k }"

definition chEvtBroadcastFlags :: "nat \<Rightarrow> eventflags_t \<Rightarrow> ch_system \<Rightarrow> (unit outcome \<times> ch_system) option" where
  "chEvtBroadcastFlags esp flags k =
     do { k \<leftarrow> chSysLock k; k \<leftarrow> chEvtBroadcastFlagsI esp flags k; r \<leftarrow> chSchRescheduleS k;
          andthen r (\<lambda>_ k. do { k \<leftarrow> chSysUnlock k; Some (Done (), k) }) }"

definition chEvtBroadcast :: "nat \<Rightarrow> ch_system \<Rightarrow> (unit outcome \<times> ch_system) option" where
  "chEvtBroadcast esp k = chEvtBroadcastFlags esp 0 k"

definition chEvtBroadcastI :: "nat \<Rightarrow> ch_system \<Rightarrow> ch_system option" where
  "chEvtBroadcastI esp k = chEvtBroadcastFlagsI esp 0 k"

subsection \<open>Dispatching\<close>

text \<open>
  The handlers are application code: \<open>handlers eid\<close> is the effect of the handler on a state of
  any type, or \<open>None\<close> for a null pointer. Shifting by 32 or more has no defined result.
\<close>

function dispatch_loop ::
  "(nat \<Rightarrow> (nat \<Rightarrow> 's \<Rightarrow> 's option) option) \<Rightarrow> nat \<Rightarrow> eventmask_t \<Rightarrow> 's \<Rightarrow> 's option" where
  "dispatch_loop handlers eid events s =
     (if events = 0 then Some s
      else if eid \<ge> 32 then None
      else if events AND EVENT_MASK eid \<noteq> 0
      then do { h \<leftarrow> handlers eid;
                s \<leftarrow> h eid s;
                dispatch_loop handlers (eid + 1) (events AND NOT (EVENT_MASK eid)) s }
      else dispatch_loop handlers (eid + 1) events s)"
  by pat_completeness auto
termination by (relation "measure (\<lambda>(h, eid, e, s). 32 - eid)") auto

declare dispatch_loop.simps [simp del]

definition chEvtDispatch ::
  "(nat \<Rightarrow> (nat \<Rightarrow> 's \<Rightarrow> 's option) option) \<Rightarrow> eventmask_t \<Rightarrow> 's \<Rightarrow> 's option" where
  "chEvtDispatch handlers events s = dispatch_loop handlers 0 events s"

subsection \<open>Waiting\<close>

text \<open>The end of each wait: what is taken from the pending events \<open>m\<close> and returned.\<close>

definition take_events :: "eventmask_t \<Rightarrow> ch_system \<Rightarrow> (eventmask_t outcome \<times> ch_system) option" where
  "take_events m k =
     do { let k = set_epending (r_current k) (epending_of k (r_current k) AND NOT m) k;
          k \<leftarrow> chSysUnlock k;
          Some (Done m, k) }"

definition take_one :: "eventmask_t \<Rightarrow> ch_system \<Rightarrow> (eventmask_t outcome \<times> ch_system) option" where
  "take_one m k = take_events (m XOR (m AND (m - 1))) k"

definition chEvtWaitOne :: "eventmask_t \<Rightarrow> ch_system \<Rightarrow> (eventmask_t outcome \<times> ch_system) option" where
  "chEvtWaitOne events k =
     do { let ctp = r_current k;
          k \<leftarrow> chSysLock k;
          let m = epending_of k ctp AND events;
          if m = 0
          then do { let k = set_pu ctp (Ewmask events) k;
                    k \<leftarrow> chSchGoSleepS CH_STATE_WTOREVT k;
                    Some (Switched, k) }
          else take_one m k }"

definition chEvtWaitOne_resume :: "eventmask_t \<Rightarrow> ch_system \<Rightarrow> (eventmask_t outcome \<times> ch_system) option" where
  "chEvtWaitOne_resume events k = take_one (epending_of k (r_current k) AND events) k"

definition chEvtWaitAny :: "eventmask_t \<Rightarrow> ch_system \<Rightarrow> (eventmask_t outcome \<times> ch_system) option" where
  "chEvtWaitAny events k =
     do { let ctp = r_current k;
          k \<leftarrow> chSysLock k;
          let m = epending_of k ctp AND events;
          if m = 0
          then do { let k = set_pu ctp (Ewmask events) k;
                    k \<leftarrow> chSchGoSleepS CH_STATE_WTOREVT k;
                    Some (Switched, k) }
          else take_events m k }"

definition chEvtWaitAny_resume :: "eventmask_t \<Rightarrow> ch_system \<Rightarrow> (eventmask_t outcome \<times> ch_system) option" where
  "chEvtWaitAny_resume events k = take_events (epending_of k (r_current k) AND events) k"

definition chEvtWaitAll :: "eventmask_t \<Rightarrow> ch_system \<Rightarrow> (eventmask_t outcome \<times> ch_system) option" where
  "chEvtWaitAll events k =
     do { let ctp = r_current k;
          k \<leftarrow> chSysLock k;
          if epending_of k ctp AND events \<noteq> events
          then do { let k = set_pu ctp (Ewmask events) k;
                    k \<leftarrow> chSchGoSleepS CH_STATE_WTANDEVT k;
                    Some (Switched, k) }
          else take_events events k }"

definition chEvtWaitAll_resume :: "eventmask_t \<Rightarrow> ch_system \<Rightarrow> (eventmask_t outcome \<times> ch_system) option" where
  "chEvtWaitAll_resume events k = take_events events k"

definition evt_sleep ::
  "tstate_t \<Rightarrow> eventmask_t \<Rightarrow> systime_t \<Rightarrow> ch_system \<Rightarrow> (eventmask_t outcome \<times> ch_system) option" where
  "evt_sleep st events time k =
     (if TIME_IMMEDIATE = time
      then do { k \<leftarrow> chSysUnlock k; Some (Done 0, k) }
      else do { let k = set_pu (r_current k) (Ewmask events) k;
                k \<leftarrow> chSchGoSleepTimeoutS st time k;
                Some (Switched, k) })"

definition chEvtWaitOneTimeout ::
  "eventmask_t \<Rightarrow> systime_t \<Rightarrow> ch_system \<Rightarrow> (eventmask_t outcome \<times> ch_system) option" where
  "chEvtWaitOneTimeout events time k =
     do { let ctp = r_current k;
          k \<leftarrow> chSysLock k;
          let m = epending_of k ctp AND events;
          if m = 0 then evt_sleep CH_STATE_WTOREVT events time k else take_one m k }"

definition chEvtWaitOneTimeout_resume ::
  "eventmask_t \<Rightarrow> systime_t \<Rightarrow> ch_system \<Rightarrow> (eventmask_t outcome \<times> ch_system) option" where
  "chEvtWaitOneTimeout_resume events time k =
     do { (msg, k) \<leftarrow> chSchGoSleepTimeoutS_resume time k;
          if msg < MSG_OK then do { k \<leftarrow> chSysUnlock k; Some (Done 0, k) }
          else take_one (epending_of k (r_current k) AND events) k }"

definition chEvtWaitAnyTimeout ::
  "eventmask_t \<Rightarrow> systime_t \<Rightarrow> ch_system \<Rightarrow> (eventmask_t outcome \<times> ch_system) option" where
  "chEvtWaitAnyTimeout events time k =
     do { let ctp = r_current k;
          k \<leftarrow> chSysLock k;
          let m = epending_of k ctp AND events;
          if m = 0 then evt_sleep CH_STATE_WTOREVT events time k else take_events m k }"

definition chEvtWaitAnyTimeout_resume ::
  "eventmask_t \<Rightarrow> systime_t \<Rightarrow> ch_system \<Rightarrow> (eventmask_t outcome \<times> ch_system) option" where
  "chEvtWaitAnyTimeout_resume events time k =
     do { (msg, k) \<leftarrow> chSchGoSleepTimeoutS_resume time k;
          if msg < MSG_OK then do { k \<leftarrow> chSysUnlock k; Some (Done 0, k) }
          else take_events (epending_of k (r_current k) AND events) k }"

definition chEvtWaitAllTimeout ::
  "eventmask_t \<Rightarrow> systime_t \<Rightarrow> ch_system \<Rightarrow> (eventmask_t outcome \<times> ch_system) option" where
  "chEvtWaitAllTimeout events time k =
     do { let ctp = r_current k;
          k \<leftarrow> chSysLock k;
          if epending_of k ctp AND events \<noteq> events then evt_sleep CH_STATE_WTANDEVT events time k
          else take_events events k }"

definition chEvtWaitAllTimeout_resume ::
  "eventmask_t \<Rightarrow> systime_t \<Rightarrow> ch_system \<Rightarrow> (eventmask_t outcome \<times> ch_system) option" where
  "chEvtWaitAllTimeout_resume events time k =
     do { (msg, k) \<leftarrow> chSchGoSleepTimeoutS_resume time k;
          if msg < MSG_OK then do { k \<leftarrow> chSysUnlock k; Some (Done 0, k) }
          else take_events events k }"

subsection \<open>No lost wake-ups\<close>

text \<open>
  Every thread that sleeps waiting for events is waiting for something that has not happened yet.
\<close>

definition evt_ok :: "ch_system \<Rightarrow> bool" where
  "evt_ok k \<longleftrightarrow>
     (\<forall>t w. p_u (thd k t) = Ewmask w \<longrightarrow>
        (state_of k t = CH_STATE_WTOREVT \<longrightarrow> epending_of k t AND w = 0) \<and>
        (state_of k t = CH_STATE_WTANDEVT \<longrightarrow> epending_of k t AND w \<noteq> w))"

fun evt_wait :: "tstate_t \<Rightarrow> bool" where
  "evt_wait CH_STATE_WTOREVT \<longleftrightarrow> True"
| "evt_wait CH_STATE_WTANDEVT \<longleftrightarrow> True"
| "evt_wait _ \<longleftrightarrow> False"

lemma evt_wait_iff: "evt_wait st \<longleftrightarrow> st = CH_STATE_WTOREVT \<or> st = CH_STATE_WTANDEVT"
  by (cases st) auto

lemma evt_waiter:
  assumes "kernel_ok k" "evt_wait (state_of k t)"
  obtains w where "p_u (thd k t) = Ewmask w"
proof -
  have "waits_at (queues k) (tref k) t (state_of k t) (p_u (thd k t))"
    using wait_okD(1) [OF kernel_okD(2) [OF assms(1)]] .
  then show ?thesis using assms(2) that by (cases "p_u (thd k t)") (auto simp: waits_at_def evt_wait_iff)
qed

lemma evt_wait_unqueued:
  assumes "kernel_ok k" "evt_wait (state_of k t)"
  shows "queue_dequeue t k = k" "t \<noteq> r_current k" "unqueue t (queues k) = queues k"
proof -
  have "qstate q \<noteq> state_of k t" for q using assms(2) by (cases q) (auto simp: evt_wait_iff)
  then have u: "unqueued t (queues k)" using sched_ok_unqueued [OF kernel_okD(1) [OF assms(1)], of t] by metis
  then show "queue_dequeue t k = k" by (rule queue_dequeue_unqueued)
  show "unqueue t (queues k) = queues k" using u by (rule unqueue_unqueued)
  show "t \<noteq> r_current k" using sched_okD(3) [OF kernel_okD(1) [OF assms(1)], of t] assms(2) by auto
qed

text \<open>What a signal does: the events are added, and the thread is woken if its wait is satisfied.\<close>

definition satisfied :: "tid \<Rightarrow> ch_system \<Rightarrow> bool" where
  "satisfied t k \<longleftrightarrow> evt_wakes t k = Some True"

definition signalled :: "tid \<Rightarrow> eventmask_t \<Rightarrow> ch_system \<Rightarrow> ch_system" where
  "signalled t e k =
     (let k1 = set_epending t (epending_of k t OR e) k
      in if satisfied t k1 then woken t MSG_OK k1 else k1)"

lemma kernel_ok_epending [simp]: "kernel_ok (set_epending t e k) = kernel_ok k"
proof
  show "kernel_ok (set_epending t e k) \<Longrightarrow> kernel_ok k"
    by (rule kernel_ok_cong [of _ "set_epending t e k"]) auto
  show "kernel_ok k \<Longrightarrow> kernel_ok (set_epending t e k)"
    by (rule kernel_ok_cong [of _ k]) auto
qed

lemma evt_wakes_defined:
  assumes "kernel_ok k"
  shows "\<exists>b. evt_wakes t k = Some b"
proof (cases "evt_wait (state_of k t)")
  case True
  obtain w where "p_u (thd k t) = Ewmask w" using evt_waiter [OF assms True] .
  then show ?thesis by (auto simp: evt_wakes_def)
qed (auto simp: evt_wakes_def evt_wait_iff)

lemma satisfied_waits: "satisfied t k \<Longrightarrow> evt_wait (state_of k t)"
  by (auto simp: satisfied_def evt_wakes_def split: if_splits)

lemma kernel_ok_signalled:
  assumes "kernel_ok k"
  shows "kernel_ok (signalled t e k)"
proof -
  define k1 where "k1 = set_epending t (epending_of k t OR e) k"
  have k1: "kernel_ok k1" using assms by (simp add: k1_def)
  have "kernel_ok (woken t MSG_OK k1)" if "satisfied t k1"
  proof -
    have w: "evt_wait (state_of k1 t)" using satisfied_waits [OF that] .
    then show ?thesis
      using kernel_ok_woken [OF kernel_okD(1) [OF k1], of t MSG_OK] wait_ok_but [OF kernel_okD(2) [OF k1], of t]
        evt_wait_unqueued [OF k1 w] kernel_okD(3) [OF k1] by (auto simp: evt_wait_iff)
  qed
  then show ?thesis using k1 by (simp add: signalled_def Let_def k1_def)
qed

lemma chEvtSignalI_eq:
  assumes "kernel_ok k" "class_I k"
  shows "chEvtSignalI t e k = Some (signalled t e k)"
proof -
  define k1 where "k1 = set_epending t (epending_of k t OR e) k"
  have k1: "kernel_ok k1" "class_I k1" using assms by (simp_all add: k1_def)
  obtain b where b: "evt_wakes t k1 = Some b" using evt_wakes_defined [OF k1(1)] by blast
  have "chSchReadyI t (set_pu t (Rdymsg MSG_OK) k1) = Some (woken t MSG_OK k1)" if "b"
  proof -
    have w: "evt_wait (state_of k1 t)" using satisfied_waits [of t k1] b that by (simp add: satisfied_def)
    then show ?thesis
      using pu_then_ready [OF kernel_okD(1) [OF k1(1)] k1(2), of t MSG_OK] evt_wait_unqueued(1) [OF k1(1) w]
      by (auto simp: evt_wait_iff)
  qed
  then show ?thesis using b assms(2)
    by (auto simp: chEvtSignalI_def signalled_def Let_def satisfied_def k1_def)
qed

lemma signalled_simps [simp]:
  "r_current (signalled t e k) = r_current k" "isr_cnt (signalled t e k) = isr_cnt k"
  "lock_cnt (signalled t e k) = lock_cnt k" "class_I (signalled t e k) = class_I k"
  "listener (signalled t e k) = listener k" "es_next (signalled t e k) = es_next k"
  "epending_of (signalled t e k) x = (if x = t then epending_of k t OR e else epending_of k x)"
  by (simp_all add: signalled_def Let_def class_I_def)

lemma evt_ok_signalled:
  assumes "evt_ok k"
  shows "evt_ok (signalled t e k)"
proof -
  define k1 where "k1 = set_epending t (epending_of k t OR e) k"
  have o: "(state_of k1 x = CH_STATE_WTOREVT \<longrightarrow> epending_of k1 x AND w = 0) \<and>
      (state_of k1 x = CH_STATE_WTANDEVT \<longrightarrow> epending_of k1 x AND w \<noteq> w)"
    if "x \<noteq> t \<or> \<not> satisfied t k1" "p_u (thd k1 x) = Ewmask w" for x w
    using that assms unfolding evt_ok_def
    by (cases "x = t") (auto simp: k1_def satisfied_def evt_wakes_def split: if_splits)
  show ?thesis
  proof (cases "satisfied t k1")
    case True
    then show ?thesis using o by (auto simp: evt_ok_def signalled_def Let_def k1_def)
  next
    case False
    then show ?thesis using o unfolding evt_ok_def signalled_def Let_def k1_def [symmetric] by simp
  qed
qed

interpretation evt_signal: class_I_op "chEvtSignalI t e" "\<lambda>_. True" for t e
  by unfold_locales (simp add: chEvtSignalI_eq kernel_ok_signalled)

lemma evt_ok_cong:
  assumes "\<And>x. p_u (thd k' x) = p_u (thd k x)" "\<And>x. epending_of k' x = epending_of k x"
    "\<And>x. evt_wait (state_of k' x) \<Longrightarrow> state_of k' x = state_of k x" "evt_ok k"
  shows "evt_ok k'"
  using assms(4) assms(1-3) unfolding evt_ok_def by (metis evt_wait.simps(1,2))

lemma evt_ok_rescheduled: "evt_ok k \<Longrightarrow> evt_ok (snd (unlocked (rescheduled k)))"
  by (rule evt_ok_cong [of _ k]) (auto simp: rescheduled_def split: if_splits)

lemma evt_ok_lock [simp]: "evt_ok (k\<lparr>lock_cnt := n\<rparr>) = evt_ok k"
  by (simp add: evt_ok_def)

text \<open>
  C26. Signalling events to a thread always ends; the events become pending, and afterwards still no
  thread sleeps on a condition that its pending events fulfil (a waiter whose condition is now
  fulfilled can run), the kernel invariant holds and a highest-priority thread runs.
\<close>

theorem chEvtSignal_no_lost_wakeup:
  assumes ok: "kernel_ok k" and ev: "evt_ok k" and th: "class_thread k"
  shows "\<exists>out k'. chEvtSignal t e k = Some (out, k') \<and> kernel_ok k' \<and> evt_ok k' \<and> resched_ok k' \<and>
           (\<forall>x. epending_of k' x = (if x = t then epending_of k x OR e else epending_of k x)) \<and>
           (\<forall>w. p_u (thd k t) = Ewmask w \<and>
              (state_of k t = CH_STATE_WTOREVT \<and> e AND w \<noteq> 0 \<or>
               state_of k t = CH_STATE_WTANDEVT \<and> (epending_of k t OR e) AND w = w) \<longrightarrow> runnable k' t)"
proof -
  define k0 where "k0 = k\<lparr>lock_cnt := 1\<rparr>"
  have k0: "kernel_ok k0" "class_I k0" "evt_ok k0" using ok th ev by (simp_all add: k0_def class_I_def class_thread_def)
  let ?k1 = "signalled t e k0"
  have "chEvtSignal t e k = lock_resched (chEvtSignalI t e) k" by (simp add: chEvtSignal_def lock_resched_def)
  then have res: "chEvtSignal t e k = Some (unlocked (rescheduled ?k1))"
      "kernel_ok (snd (unlocked (rescheduled ?k1)))" "resched_ok (snd (unlocked (rescheduled ?k1)))"
    using evt_signal.from_thread [OF ok th, of t e] chEvtSignalI_eq [OF k0(1,2), of t e] by (auto simp: k0_def)
  have run: "runnable ?k1 t"
    if w: "p_u (thd k t) = Ewmask w" "state_of k t = CH_STATE_WTOREVT \<and> e AND w \<noteq> 0 \<or>
               state_of k t = CH_STATE_WTANDEVT \<and> (epending_of k t OR e) AND w = w" for w
  proof -
    have "(epending_of k t OR e) AND w \<noteq> 0" if "e AND w \<noteq> 0"
      using that by (metis bit.conj_disj_distrib2 or_eq_0_iff)
    then show ?thesis using w
      by (auto simp: signalled_def Let_def satisfied_def evt_wakes_def runnable_def k0_def)
  qed
  have "\<forall>w. p_u (thd k t) = Ewmask w \<and>
              (state_of k t = CH_STATE_WTOREVT \<and> e AND w \<noteq> 0 \<or>
               state_of k t = CH_STATE_WTANDEVT \<and> (epending_of k t OR e) AND w = w) \<longrightarrow>
          runnable (snd (unlocked (rescheduled ?k1))) t"
    using run by (metis rescheduled_same(17))
  moreover have "evt_ok (snd (unlocked (rescheduled ?k1)))"
    using evt_ok_rescheduled [OF evt_ok_signalled [OF k0(3)]] .
  moreover have "epending_of (snd (unlocked (rescheduled ?k1))) x = (if x = t then epending_of k x OR e else epending_of k x)" for x
    by (simp add: k0_def)
  ultimately show ?thesis using res
    by (intro exI [of _ "fst (unlocked (rescheduled ?k1))"] exI [of _ "snd (unlocked (rescheduled ?k1))"]) simp
qed

text \<open>The main thread waits for event 0 or 3 (mask 9); the idle thread runs.\<close>

definition sys_evt :: ch_system where
  "sys_evt = sys0\<lparr>
     thd := (thd sys0)(0 := (thread0 NORMALPRIO CH_STATE_WTOREVT)\<lparr>p_u := Ewmask 9\<rparr>,
                       1 := thread0 IDLEPRIO CH_STATE_CURRENT),
     queues := (\<lambda>_. []), r_current := 1,
     es_next := (\<lambda>_. [])(7 := [2]),
     listener := (\<lambda>_. \<lparr>el_listener = 0, el_events = 1, el_flags = 0, el_wflags = 6\<rparr>)\<rparr>"

lemma sys_evt_facts: "kernel_ok sys_evt" "evt_ok sys_evt" "class_thread sys_evt"
  "state_of sys_evt 0 = CH_STATE_WTOREVT" "p_u (thd sys_evt 0) = Ewmask 9"
proof -
  show "kernel_ok sys_evt"
    by (auto simp: kernel_ok_def sched_ok_def wait_ok_def sem_ok_def waits_at_def apart_def unqueued_def sys_evt_def
        sys0_def thread0_def NOPRIO_def NORMALPRIO_def IDLEPRIO_def split: if_splits)
  show "evt_ok sys_evt" by (auto simp: evt_ok_def sys_evt_def sys0_def thread0_def)
qed (simp_all add: class_thread_def sys_evt_def sys0_def thread0_def)

theorem chEvtSignal_no_lost_wakeup_witness:
  "\<exists>out k'. chEvtSignal 0 8 sys_evt = Some (out, k') \<and> kernel_ok k' \<and> evt_ok k' \<and> runnable k' 0"
  using chEvtSignal_no_lost_wakeup [OF sys_evt_facts(1-3), of 0 8] sys_evt_facts(4,5) by auto

subsection \<open>Broadcasting\<close>

definition el_fires :: "eventflags_t \<Rightarrow> event_listener_t \<Rightarrow> bool" where
  "el_fires flags l \<longleftrightarrow> flags = 0 \<or> (el_flags l OR flags) AND el_wflags l \<noteq> 0"

text \<open>The events that a broadcast sends to thread \<open>t\<close>.\<close>

fun evts_sent :: "eventflags_t \<Rightarrow> (nat \<Rightarrow> event_listener_t) \<Rightarrow> tid \<Rightarrow> nat list \<Rightarrow> eventmask_t" where
  "evts_sent flags L t [] = 0"
| "evts_sent flags L t (l # ls) =
     (if el_fires flags (L l) \<and> el_listener (L l) = t then el_events (L l) OR evts_sent flags L t ls
      else evts_sent flags L t ls)"

definition flagged :: "eventflags_t \<Rightarrow> event_listener_t \<Rightarrow> event_listener_t" where
  "flagged flags l = l\<lparr>el_flags := el_flags l OR flags\<rparr>"

lemma flagged_simps [simp]:
  "flagged f (flagged f l) = flagged f l" "el_fires f (flagged f l) = el_fires f l"
  "el_listener (flagged f l) = el_listener l" "el_events (flagged f l) = el_events l"
  by (simp_all add: flagged_def el_fires_def or.assoc)

lemma evts_sent_cong:
  "(\<And>l. l \<in> set ls \<Longrightarrow> L' l = L l \<or> L' l = flagged f (L l)) \<Longrightarrow> evts_sent f L' t ls = evts_sent f L t ls"
proof (induction ls)
  case (Cons l ls)
  have l: "L' l = L l \<or> L' l = flagged f (L l)" using Cons.prems by simp
  have ls: "evts_sent f L' t ls = evts_sent f L t ls" using Cons.prems by (intro Cons.IH) simp
  show ?case using l by (rule disjE) (simp_all add: ls)
qed simp

lemma kernel_ok_listener [simp]: "kernel_ok (k\<lparr>listener := L\<rparr>) = kernel_ok k"
  by (simp add: kernel_ok_def sched_ok_def wait_ok_def sem_ok_def)

lemma broadcast_loop_ok:
  "kernel_ok k \<Longrightarrow> class_I k \<Longrightarrow> evt_ok k \<Longrightarrow>
   \<exists>k'. broadcast_loop f ls k = Some k' \<and> kernel_ok k' \<and> evt_ok k' \<and> isr_cnt k' = isr_cnt k \<and>
     lock_cnt k' = lock_cnt k \<and> r_current k' = r_current k \<and> es_next k' = es_next k \<and>
     (\<forall>l. listener k' l = (if l \<in> set ls then flagged f (listener k l) else listener k l)) \<and>
     (\<forall>t. epending_of k' t = epending_of k t OR evts_sent f (listener k) t ls)"
proof (induction ls arbitrary: k)
  case (Cons l ls)
  define k1 where "k1 = k\<lparr>listener := (listener k)(l := flagged f (listener k l))\<rparr>"
  define k2 where "k2 = (if el_fires f (listener k l)
      then signalled (el_listener (listener k l)) (el_events (listener k l)) k1 else k1)"
  have k1: "kernel_ok k1" "class_I k1" "evt_ok k1"
    using Cons.prems by (simp_all add: k1_def class_I_def evt_ok_def)
  have k2: "kernel_ok k2" "class_I k2" "evt_ok k2" "listener k2 = (listener k)(l := flagged f (listener k l))"
      "isr_cnt k2 = isr_cnt k" "lock_cnt k2 = lock_cnt k" "r_current k2 = r_current k" "es_next k2 = es_next k"
    using k1 by (simp_all add: k2_def kernel_ok_signalled evt_ok_signalled, simp_all add: k1_def)
  have step: "broadcast_loop f (l # ls) k = broadcast_loop f ls k2"
    using chEvtSignalI_eq [OF k1(1,2)] by (simp add: Let_def k2_def k1_def flagged_def el_fires_def)
  have sent: "evts_sent f (listener k2) t ls = evts_sent f (listener k) t ls" for t
    unfolding k2(4) by (rule evts_sent_cong) simp
  have pend: "epending_of k2 t = (if el_fires f (listener k l) \<and> el_listener (listener k l) = t
      then epending_of k t OR el_events (listener k l) else epending_of k t)" for t
    by (auto simp: k2_def k1_def)
  obtain k' where k': "broadcast_loop f ls k2 = Some k'" "kernel_ok k'" "evt_ok k'" "isr_cnt k' = isr_cnt k2"
     "lock_cnt k' = lock_cnt k2" "r_current k' = r_current k2" "es_next k' = es_next k2"
     "\<And>l. listener k' l = (if l \<in> set ls then flagged f (listener k2 l) else listener k2 l)"
     "\<And>t. epending_of k' t = epending_of k2 t OR evts_sent f (listener k2) t ls"
    using Cons.IH [OF k2(1-3)] by metis
  have "listener k' x = (if x \<in> set (l # ls) then flagged f (listener k x) else listener k x)" for x
    unfolding k'(8) k2(4) by simp
  moreover have "epending_of k' t = epending_of k t OR evts_sent f (listener k) t (l # ls)" for t
    unfolding k'(9) pend sent by (simp add: or.assoc)
  ultimately show ?case unfolding step using k'(1-7) k2(5-8) by simp
qed simp

lemma chEvtBroadcastFlagsI_ok:
  assumes "kernel_ok k" "class_I k" "evt_ok k"
  shows "\<exists>k'. chEvtBroadcastFlagsI esp f k = Some k' \<and> kernel_ok k' \<and> evt_ok k' \<and> isr_cnt k' = isr_cnt k \<and>
     lock_cnt k' = lock_cnt k \<and> r_current k' = r_current k \<and> es_next k' = es_next k \<and>
     (\<forall>l. listener k' l = (if l \<in> set (es_next k esp) then flagged f (listener k l) else listener k l)) \<and>
     (\<forall>t. epending_of k' t = epending_of k t OR evts_sent f (listener k) t (es_next k esp))"
  using broadcast_loop_ok [OF assms, of f "es_next k esp"] assms(2) by (simp add: chEvtBroadcastFlagsI_def)

interpretation evt_broadcast: class_I_op "chEvtBroadcastFlagsI esp f" evt_ok for esp f
  by unfold_locales (use chEvtBroadcastFlagsI_ok in blast)

text \<open>
  Broadcasting flags on an event source always ends. Every registered listener gets the flags;
  a thread receives exactly the events of its listeners that are interested in one of their
  accumulated flags (all of them if no flags are given); no wake-up is lost, the kernel invariant
  holds and a highest-priority thread runs.
\<close>

theorem chEvtBroadcastFlags_notifies:
  assumes ok: "kernel_ok k" and ev: "evt_ok k" and th: "class_thread k"
  shows "\<exists>out k'. chEvtBroadcastFlags esp f k = Some (out, k') \<and> kernel_ok k' \<and> evt_ok k' \<and> resched_ok k' \<and>
           (\<forall>l. listener k' l = (if l \<in> set (es_next k esp) then flagged f (listener k l) else listener k l)) \<and>
           (\<forall>t. epending_of k' t = epending_of k t OR evts_sent f (listener k) t (es_next k esp))"
proof -
  let ?k0 = "k\<lparr>lock_cnt := 1\<rparr>"
  have k0: "kernel_ok ?k0" "class_I ?k0" "evt_ok ?k0" using ok th ev by (simp_all add: class_I_def class_thread_def)
  obtain k1 where k1: "chEvtBroadcastFlagsI esp f ?k0 = Some k1" "evt_ok k1"
     "\<forall>l. listener k1 l = (if l \<in> set (es_next k esp) then flagged f (listener k l) else listener k l)"
     "\<forall>t. epending_of k1 t = epending_of k t OR evts_sent f (listener k) t (es_next k esp)"
    using chEvtBroadcastFlagsI_ok [OF k0, of esp f] by auto
  have "chEvtBroadcastFlags esp f k = lock_resched (chEvtBroadcastFlagsI esp f) k"
    by (simp add: chEvtBroadcastFlags_def lock_resched_def)
  then have res: "chEvtBroadcastFlags esp f k = Some (unlocked (rescheduled k1))"
      "kernel_ok (snd (unlocked (rescheduled k1)))" "resched_ok (snd (unlocked (rescheduled k1)))"
    using evt_broadcast.from_thread [OF ok th, of esp f] k1(1) k0(3) by auto
  show ?thesis using res evt_ok_rescheduled [OF k1(2)] k1(3,4)
    by (intro exI [of _ "fst (unlocked (rescheduled k1))"] exI [of _ "snd (unlocked (rescheduled k1))"]) simp
qed

theorem chEvtBroadcastFlags_notifies_witness:
  "\<exists>out k'. chEvtBroadcastFlags 7 2 sys_evt = Some (out, k') \<and> el_flags (listener k' 2) = 2 \<and> epending_of k' 0 = 1"
proof -
  have "es_next sys_evt 7 = [2]" "listener sys_evt 2 = \<lparr>el_listener = 0, el_events = 1, el_flags = 0, el_wflags = 6\<rparr>"
      "epending_of sys_evt 0 = 0"
    by (simp_all add: sys_evt_def thread0_def)
  then show ?thesis
    using chEvtBroadcastFlags_notifies [OF sys_evt_facts(1-3), of 7 2] by (auto simp: el_fires_def flagged_def)
qed

subsection \<open>Taking one event\<close>

text \<open>The expression \<open>m ^= m & (m - 1)\<close> leaves the lowest event of \<open>m\<close>.\<close>

definition lowest_event :: "eventmask_t \<Rightarrow> nat" where
  "lowest_event m = (LEAST i. bit m i)"

lemma lowest_event:
  assumes "m \<noteq> 0"
  shows "bit m (lowest_event m)" "i < lowest_event m \<Longrightarrow> \<not> bit m i" "lowest_event m < 32"
proof -
  obtain j where j: "bit m j" using assms by (metis bit_eqI bit_0_eq bot_apply bot_bool_def)
  show "bit m (lowest_event m)" unfolding lowest_event_def using j by (rule LeastI)
  then show "lowest_event m < 32" using bit_imp_le_length by fastforce
  show "i < lowest_event m \<Longrightarrow> \<not> bit m i" unfolding lowest_event_def by (rule not_less_Least)
qed

lemma minus_one_bits:
  assumes "m \<noteq> (0 :: eventmask_t)" "i < 32"
  shows "bit (m - 1) i \<longleftrightarrow> i < lowest_event m \<or> lowest_event m < i \<and> bit m i"
proof -
  define n where "n = lowest_event m"
  note n = lowest_event [OF assms(1), folded n_def]
  define r where "r = m AND NOT (mask (Suc n))"
  have "m = r OR push_bit n 1"
    by (rule bit_word_eqI) (use n in \<open>auto simp: r_def bit_simps less_Suc_eq not_less_eq intro: less_antisym\<close>)
  also have "\<dots> = r + push_bit n 1"
    by (rule disjunctive_add [symmetric]) (auto simp: r_def bit_simps)
  finally have m: "m = r + 2 ^ n" by (simp add: push_bit_of_1)
  have "m - 1 = r + mask n" unfolding m mask_eq_exp_minus_1 by simp
  also have "\<dots> = r OR mask n" by (rule disjunctive_add) (auto simp: r_def bit_simps)
  finally have "bit (m - 1) i \<longleftrightarrow> bit (r OR mask n) i" by simp
  then show ?thesis using assms(2) unfolding n_def [symmetric] by (auto simp: r_def bit_simps)
qed

lemma lowest_bit:
  assumes "m \<noteq> (0 :: eventmask_t)"
  shows "m XOR (m AND (m - 1)) = EVENT_MASK (lowest_event m)"
proof (rule bit_word_eqI)
  fix i assume "i < LENGTH(32)"
  then have i: "i < 32" by simp
  show "bit (m XOR (m AND (m - 1))) i = bit (EVENT_MASK (lowest_event m)) i"
    using lowest_event [OF assms] minus_one_bits [OF assms i] i
    by (auto simp: bit_simps EVENT_MASK_def not_less)
qed

lemma take_events_ok:
  assumes "class_S k" "resched_ok k"
  shows "take_events m k =
    Some (Done m, (set_epending (r_current k) (epending_of k (r_current k) AND NOT m) k)\<lparr>lock_cnt := 0\<rparr>)"
proof -
  have "resched_ok (set_epending t e k)" for t e using assms(2) by (auto simp: resched_ok_iff)
  then show ?thesis using assms(1) chSysUnlock_resched
    by (simp add: take_events_def Let_def)
qed

text \<open>
  Waiting for one event with a time-out, called from a thread. If some of the wanted events
  are pending, the lowest-numbered one is returned and only it is consumed. If none is pending,
  the call returns 0 at once for an immediate time-out; otherwise the thread sleeps (with the
  time-out armed) and no wake-up is lost: the kernel and event invariants hold and a
  highest-priority thread runs.
\<close>

theorem chEvtWaitOneTimeout_outcomes:
  fixes k :: ch_system and events :: eventmask_t
  assumes ok: "kernel_ok k" and ev: "evt_ok k" and th: "class_thread k" and re: "resched_ok k"
    and sl: "time \<noteq> TIME_IMMEDIATE \<Longrightarrow> can_sleep time (k\<lparr>lock_cnt := 1\<rparr>)"
  defines "c \<equiv> r_current k" and "m \<equiv> epending_of k (r_current k) AND events"
  shows "if m \<noteq> 0
         then \<exists>k'. chEvtWaitOneTimeout events time k = Some (Done (EVENT_MASK (lowest_event m)), k') \<and>
                kernel_ok k' \<and> evt_ok k' \<and> r_current k' = c \<and>
                epending_of k' c = epending_of k c AND NOT (EVENT_MASK (lowest_event m))
         else if time = TIME_IMMEDIATE then chEvtWaitOneTimeout events time k = Some (Done 0, k)
         else \<exists>k'. chEvtWaitOneTimeout events time k = Some (Switched, k') \<and> kernel_ok k' \<and> evt_ok k' \<and>
                resched_ok k' \<and> state_of k' c = CH_STATE_WTOREVT \<and> p_u (thd k' c) = Ewmask events"
proof -
  define k0 where "k0 = k\<lparr>lock_cnt := 1\<rparr>"
  have k0: "kernel_ok k0" "class_S k0" "evt_ok k0" "resched_ok k0" "r_current k0 = c"
      "epending_of k0 c AND events = m" "k0\<lparr>lock_cnt := 0\<rparr> = k"
    using ok th ev re by (simp_all add: k0_def class_S_def class_thread_def c_def m_def)
  have call: "chEvtWaitOneTimeout events time k =
      (if m = 0 then evt_sleep CH_STATE_WTOREVT events time k0 else take_one m k0)"
    using chSysLock_ok [OF th] k0(6) by (simp add: chEvtWaitOneTimeout_def Let_def k0_def [symmetric] c_def [symmetric])
  consider "m \<noteq> 0" | "m = 0" "time = TIME_IMMEDIATE" | "m = 0" "time \<noteq> TIME_IMMEDIATE" by blast
  then show ?thesis
  proof cases
    case 1
    define e where "e = EVENT_MASK (lowest_event m)"
    define k' where "k' = (set_epending c (epending_of k0 c AND NOT e) k0)\<lparr>lock_cnt := 0\<rparr>"
    have "take_one m k0 = Some (Done e, k')"
      using take_events_ok [OF k0(2,4), of e] lowest_bit [OF 1] k0(5) by (simp add: take_one_def e_def k'_def)
    moreover have "state_of k0 c = CH_STATE_CURRENT" using sched_okD(3) [OF kernel_okD(1) [OF k0(1)]] k0(5) by simp
    then have "evt_ok k'" using k0(3) by (auto simp: evt_ok_def k'_def)
    moreover have "kernel_ok k'" using k0(1) by (simp add: k'_def)
    ultimately show ?thesis using 1 k0(5) unfolding call e_def [symmetric]
      by (simp add: k'_def) (simp add: k0_def)
  next
    case 2
    then show ?thesis unfolding call using chSysUnlock_resched [OF k0(2,4)] k0(7) by (simp add: evt_sleep_def)
  next
    case 3
    define k1 where "k1 = set_pu c (Ewmask events) k0"
    have ne: "queues k0 Q_RLIST \<noteq> []" using sl [OF 3(2)] by (simp add: can_sleep_def k0_def)
    have "can_sleep time k1" using sl [OF 3(2)] by (simp add: k1_def k0_def)
    then obtain k2 where k2: "chSchGoSleepTimeoutS CH_STATE_WTOREVT time k1 = Some (sleeping CH_STATE_WTOREVT k2)"
      "timed time k1 k2" using chSchGoSleepTimeoutS_ok by blast
    then have "core k2 = core k1" by (simp add: timed_def)
    note cd = coreD [OF this]
    obtain t ts where r: "queues k0 Q_RLIST = t # ts" using ne by (cases "queues k0 Q_RLIST") auto
    have tc: "t \<noteq> c" using rlist_head_not_current [OF kernel_okD(1) [OF k0(1)] r] k0(5) by simp
    have K: "kernel_ok (sleeping CH_STATE_WTOREVT k2)"
      by (intro kernel_ok_sleeping [OF k0(1) ne]) (auto simp: cd k1_def k0(5) waits_at_def)
    have R: "resched_ok (sleeping CH_STATE_WTOREVT k2)"
      using resched_ok_sleeping [OF kernel_okD(1) [OF k0(1)] r, of k2] r by (simp add: cd k1_def)
    have E: "evt_ok (sleeping CH_STATE_WTOREVT k2)"
      using k0(3) 3(1) k0(5,6) by (auto simp: evt_ok_def cd k1_def)
    show ?thesis using 3 K R E k2(1) tc r k0(5)
      by (simp add: call evt_sleep_def Let_def k1_def [symmetric] cd) (simp add: k1_def)
  qed
qed

theorem chEvtWaitOneTimeout_outcomes_witness:
  "\<exists>k'. chEvtWaitOneTimeout 12 TIME_IMMEDIATE (set_epending 0 28 sys0) = Some (Done 4, k') \<and> epending_of k' 0 = 24"
proof -
  let ?k = "set_epending 0 28 sys0"
  have h: "kernel_ok ?k" "class_thread ?k" "r_current ?k = 0" "epending_of ?k (r_current ?k) = 28"
    using sys0_kernel_ok sys0_facts(1) by (simp_all add: class_thread_def) (simp_all add: sys0_def)
  have "evt_ok ?k" "resched_ok ?k"
    using sys0_facts(2) by (auto simp: resched_ok_iff) (auto simp: evt_ok_def sys0_def thread0_def split: if_splits)
  moreover have "lowest_event 12 = 2" unfolding lowest_event_def
    by (rule Least_equality) (auto simp: bit_numeral_rec bit_numeral_simps less_Suc_eq numeral_eq_Suc split: nat.splits)
  moreover have "(28 :: eventmask_t) AND 12 = 12" by simp
  ultimately show ?thesis using chEvtWaitOneTimeout_outcomes [OF h(1) _ h(2), of TIME_IMMEDIATE 12] h(3,4)
    by (auto simp: EVENT_MASK_def)
qed

subsection \<open>Dispatching\<close>

text \<open>Calling the handlers of a list of events, one after the other.\<close>

fun run_handlers :: "(nat \<Rightarrow> (nat \<Rightarrow> 's \<Rightarrow> 's option) option) \<Rightarrow> nat list \<Rightarrow> 's \<Rightarrow> 's option" where
  "run_handlers hs [] s = Some s"
| "run_handlers hs (e # es) s = do { h \<leftarrow> hs e; s \<leftarrow> h e s; run_handlers hs es s }"

lemma and_event_mask: "eid < 32 \<Longrightarrow> events AND EVENT_MASK eid \<noteq> 0 \<longleftrightarrow> bit events eid"
proof
  assume "eid < 32" "bit events eid"
  then have "bit (events AND EVENT_MASK eid) eid" by (simp add: EVENT_MASK_def bit_simps)
  then show "events AND EVENT_MASK eid \<noteq> 0" by auto
next
  assume "events AND EVENT_MASK eid \<noteq> 0"
  then obtain j where "bit (events AND EVENT_MASK eid) j" using lowest_event(1) by blast
  then show "bit events eid" by (auto simp: EVENT_MASK_def bit_simps)
qed

lemma dispatch_loop_eq:
  "(\<And>i. bit events i \<Longrightarrow> n \<le> i) \<Longrightarrow> n \<le> 32 \<Longrightarrow>
   dispatch_loop hs n events s = run_handlers hs (filter (bit events) [n..<32]) s"
proof (induction hs n events s rule: dispatch_loop.induct)
  case (1 hs n events s)
  show ?case
  proof (cases "n < 32")
    case False
    then have "n = 32" using 1(4) by simp
    then have "\<not> bit events i" if "i < 32" for i using 1(3) [of i] that by auto
    then have "events = 0" by (intro bit_word_eqI) simp
    then show ?thesis by (simp add: dispatch_loop.simps)
  next
    case True
    define e' where "e' = events AND NOT (EVENT_MASK n)"
    have up: "[n..<32] = n # [Suc n..<32]" using True by (rule upt_conv_Cons)
    have fe: "filter (bit e') [Suc n..<32] = filter (bit events) [Suc n..<32]"
      by (rule filter_cong) (auto simp: e'_def EVENT_MASK_def bit_simps)
    have z: "events = 0 \<Longrightarrow> filter (bit events) [n..<32] = []" by simp
    show ?thesis
    proof (cases "bit events n")
      case b: True
      then have nz: "events \<noteq> 0" by auto
      have ge: "bit e' i \<Longrightarrow> n + 1 \<le> i" for i
        using 1(3) [of i] by (cases "i = n") (auto simp: e'_def EVENT_MASK_def bit_simps True)
      have IH: "dispatch_loop hs (n + 1) e' s' = run_handlers hs (filter (bit e') [n + 1..<32]) s'"
        if "hs n = Some h" "h n s = Some s'" for h s'
        using 1(1) [OF nz _ _ that, folded e'_def] True and_event_mask [OF True, of events] b ge by auto
      have "dispatch_loop hs n events s =
          do { h \<leftarrow> hs n; s \<leftarrow> h n s; dispatch_loop hs (n + 1) e' s }"
        using nz True and_event_mask [OF True, of events] b
        by (subst dispatch_loop.simps) (simp add: e'_def)
      also have "\<dots> = do { h \<leftarrow> hs n; s \<leftarrow> h n s; run_handlers hs (filter (bit events) [Suc n..<32]) s }"
        using IH fe by (intro Option.bind_cong refl) simp
      finally show ?thesis using b by (simp add: up)
    next
      case nb: False
      show ?thesis
      proof (cases "events = 0")
        case nz: False
        have ge: "bit events i \<Longrightarrow> n + 1 \<le> i" for i using 1(3) [of i] nb by (cases "i = n") auto
        have na: "\<not> (events AND EVENT_MASK n \<noteq> 0)" using nb and_event_mask [OF True, of events] by simp
        have "dispatch_loop hs (n + 1) events s = run_handlers hs (filter (bit events) [n + 1..<32]) s"
          using 1(2) [OF nz _ na ge] True by simp
        then show ?thesis using nz nb True na by (subst dispatch_loop.simps) (simp add: up)
      qed (simp add: dispatch_loop.simps)
    qed
  qed
qed

text \<open>
  \<open>chEvtDispatch\<close> always ends and calls exactly the handlers of the events in the mask, each
  once, in increasing order; it stops with an error at a null handler.
\<close>

theorem chEvtDispatch_in_order:
  "chEvtDispatch handlers events s = run_handlers handlers (filter (bit events) [0..<32]) s"
  unfolding chEvtDispatch_def by (rule dispatch_loop_eq) simp_all

end
