(* ===== verification/ChRing.thy ===== *)
theory ChRing
  imports ChPrelude
begin

text \<open>
  Circular buffers. Mailboxes and I/O queues keep their data in an array with a read and a write
  pointer that wrap from the top of the array to its base. A pointer is the distance from the base.
  The locale \<open>fifo_buffer\<close> is the interface those components rely on: an abstract bounded queue.
\<close>

definition ring_next :: "nat \<Rightarrow> nat \<Rightarrow> nat" where
  "ring_next n p = (if p + 1 \<ge> n then 0 else p + 1)"

definition ring_prev :: "nat \<Rightarrow> nat \<Rightarrow> nat" where
  "ring_prev n p = (if p = 0 then n - 1 else p - 1)"

text \<open>\<open>ring_ok buf rd wr xs\<close>: read from \<open>rd\<close>, the buffer holds \<open>xs\<close>, and \<open>wr\<close> is the next free place.\<close>

definition ring_ok :: "'a list \<Rightarrow> nat \<Rightarrow> nat \<Rightarrow> 'a list \<Rightarrow> bool" where
  "ring_ok buf rd wr xs \<longleftrightarrow>
     rd < length buf \<and> length xs \<le> length buf \<and> wr = (rd + length xs) mod length buf \<and>
     (\<forall>i < length xs. buf ! ((rd + i) mod length buf) = xs ! i)"

lemma ring_next_mod: "p < n \<Longrightarrow> ring_next n p = (p + 1) mod n"
  by (cases "p + 1 = n") (auto simp: ring_next_def)

lemma ring_prev_lt: "p < n \<Longrightarrow> ring_prev n p < n"
  by (auto simp: ring_prev_def)

lemma ring_prev_next: "p < n \<Longrightarrow> (ring_prev n p + Suc i) mod n = (p + i) mod n"
proof (cases "p = 0")
  case True
  assume "p < n"
  then have "n - 1 + Suc i = n + i" by simp
  then show ?thesis using True by (simp add: ring_prev_def)
qed (auto simp: ring_prev_def)

lemma ring_init: "0 < length buf \<Longrightarrow> ring_ok buf 0 0 []"
  by (simp add: ring_ok_def)

lemma ring_okD:
  assumes "ring_ok buf rd wr xs"
  shows "rd < length buf" "wr < length buf" "length xs \<le> length buf" "wr = (rd + length xs) mod length buf"
    "i < length xs \<Longrightarrow> buf ! ((rd + i) mod length buf) = xs ! i" "0 < length buf"
proof -
  show n: "0 < length buf" using assms by (auto simp: ring_ok_def)
  show "wr < length buf" using assms mod_less_divisor [OF n, of "rd + length xs"] by (simp add: ring_ok_def)
qed (use assms in \<open>simp_all add: ring_ok_def\<close>)

lemma mod_add_less:
  assumes "i < j" "j < (n :: nat)"
  shows "(r + j) mod n \<noteq> (r + i) mod n"
proof
  assume "(r + j) mod n = (r + i) mod n"
  then have "n dvd (r + j) - (r + i)" using assms(1) by (subst (asm) mod_eq_dvd_iff_nat) auto
  then show False using assms by (auto dest: dvd_imp_le)
qed

lemma mod_add_inj: "(r + i) mod n = (r + j) mod n \<Longrightarrow> i < n \<Longrightarrow> j < (n :: nat) \<Longrightarrow> i = j"
  using mod_add_less [of i j n r] mod_add_less [of j i n r] by (metis linorder_neqE_nat)

lemma ring_put:
  assumes "ring_ok buf rd wr xs" "length xs < length buf"
  shows "ring_ok (buf[wr := a]) rd (ring_next (length buf) wr) (xs @ [a])"
proof -
  note r = ring_okD [OF assms(1)]
  have ne: "(rd + i) mod length buf \<noteq> wr" if "i < length xs" for i
    using mod_add_inj [of rd i "length buf" "length xs"] that assms(2) r(4) by auto
  have "ring_next (length buf) wr = (rd + length (xs @ [a])) mod length buf"
    using ring_next_mod [OF r(2)] r(4) by (simp add: mod_Suc_eq)
  moreover have "buf[wr := a] ! ((rd + i) mod length buf) = (xs @ [a]) ! i" if "i < length (xs @ [a])" for i
    using that ne [of i] r(2,4,5) by (cases "i < length xs") (auto simp: nth_append less_Suc_eq)
  ultimately show ?thesis using r(1) assms(2) by (simp add: ring_ok_def)
qed

lemma ring_put_ahead:
  assumes "ring_ok buf rd wr xs" "length xs < length buf"
  shows "ring_ok (buf[ring_prev (length buf) rd := a]) (ring_prev (length buf) rd) wr (a # xs)"
proof -
  note r = ring_okD [OF assms(1)]
  let ?n = "length buf" and ?p = "ring_prev (length buf) rd"
  have p: "?p < ?n" using ring_prev_lt [OF r(1)] .
  have ne: "(?p + Suc i) mod ?n \<noteq> ?p" if "i < length xs" for i
    using mod_add_inj [of ?p "Suc i" ?n 0] that assms(2) p r(6) by auto
  have "buf[?p := a] ! ((?p + i) mod ?n) = (a # xs) ! i" if "i < length (a # xs)" for i
  proof (cases i)
    case 0
    then show ?thesis using p by simp
  next
    case (Suc j)
    then have j: "j < length xs" using that by simp
    have "buf[?p := a] ! ((?p + Suc j) mod ?n) = buf ! ((?p + Suc j) mod ?n)" using ne [OF j] by simp
    also have "\<dots> = xs ! j" using ring_prev_next [OF r(1), of j] r(5) [OF j] by simp
    finally show ?thesis using Suc by simp
  qed
  moreover have "(?p + length (a # xs)) mod ?n = wr" using ring_prev_next [OF r(1), of "length xs"] r(4) by simp
  ultimately show ?thesis using p assms(2) by (simp add: ring_ok_def)
qed

lemma ring_get:
  assumes "ring_ok buf rd wr (x # xs)"
  shows "buf ! rd = x" "ring_ok buf (ring_next (length buf) rd) wr xs"
proof -
  note r = ring_okD [OF assms]
  show "buf ! rd = x" using r(5) [of 0] r(1) by simp
  have n: "ring_next (length buf) rd = (rd + 1) mod length buf" using ring_next_mod [OF r(1)] .
  have "buf ! ((ring_next (length buf) rd + i) mod length buf) = xs ! i" if "i < length xs" for i
    using r(5) [of "Suc i"] that n by (simp add: mod_simps)
  moreover have "(ring_next (length buf) rd + length xs) mod length buf = wr" using r(4) n by (simp add: mod_simps)
  moreover have "ring_next (length buf) rd < length buf" using n r(6) by simp
  ultimately show "ring_ok buf (ring_next (length buf) rd) wr xs" using r(3) by (simp add: ring_ok_def)
qed

lemma ring_pointers_meet:
  assumes "ring_ok buf rd wr xs" "wr = rd"
  shows "xs = [] \<or> length xs = length buf"
proof -
  note r = ring_okD [OF assms(1)]
  have "(rd + length xs) mod length buf = (rd + 0) mod length buf" using r(1,4) assms(2) by simp
  then have "length xs < length buf \<Longrightarrow> length xs = 0"
    using mod_add_inj [of rd "length xs" "length buf" 0] r(6) by auto
  then show ?thesis using r(3) by (cases "length xs = length buf") auto
qed

lemma ring_pointers_apart: "ring_ok buf rd wr xs \<Longrightarrow> xs = [] \<or> length xs = length buf \<Longrightarrow> wr = rd"
  by (auto simp: ring_ok_def)

subsection \<open>Bounded queues\<close>

locale fifo_buffer =
  fixes put :: "'a \<Rightarrow> 's \<Rightarrow> 's"
    and get :: "'s \<Rightarrow> 'a \<times> 's"
    and holds :: "'s \<Rightarrow> 'a list \<Rightarrow> bool"
    and capacity :: "'s \<Rightarrow> nat"
  assumes put_holds: "holds s xs \<Longrightarrow> length xs < capacity s \<Longrightarrow> holds (put a s) (xs @ [a])"
    and get_holds: "holds s (x # xs) \<Longrightarrow> fst (get s) = x \<and> holds (snd (get s)) xs"
    and put_capacity [simp]: "capacity (put a s) = capacity s"
    and get_capacity [simp]: "capacity (snd (get s)) = capacity s"
begin

fun put_list :: "'a list \<Rightarrow> 's \<Rightarrow> 's" where
  "put_list [] s = s"
| "put_list (a # as) s = put_list as (put a s)"

fun get_list :: "nat \<Rightarrow> 's \<Rightarrow> 'a list \<times> 's" where
  "get_list 0 s = ([], s)"
| "get_list (Suc n) s = (let (a, s) = get s; (as, s) = get_list n s in (a # as, s))"

lemma put_list_holds:
  "holds s xs \<Longrightarrow> length xs + length as \<le> capacity s \<Longrightarrow> holds (put_list as s) (xs @ as)"
proof (induction as arbitrary: s xs)
  case (Cons a as)
  have "holds (put a s) (xs @ [a])" using Cons.prems by (intro put_holds) auto
  then show ?case using Cons.IH [of "put a s" "xs @ [a]"] Cons.prems by simp
qed simp

lemma get_list_holds:
  "holds s (as @ xs) \<Longrightarrow> fst (get_list (length as) s) = as \<and> holds (snd (get_list (length as) s)) xs"
proof (induction as arbitrary: s)
  case (Cons a as)
  then show ?case using get_holds [of s a "as @ xs"] Cons.IH [of "snd (get s)"]
    by (auto simp: split_beta Let_def)
qed simp

text \<open>Whatever fits comes out again, in order.\<close>

lemma put_get_roundtrip:
  assumes "holds s []" "length as \<le> capacity s"
  shows "fst (get_list (length as) (put_list as s)) = as" "holds (snd (get_list (length as) (put_list as s))) []"
  using get_list_holds [of "put_list as s" as "[]"] put_list_holds [OF assms(1), of as] assms(2) by simp_all

end

end
