(* ===== verification/ChMboxes.thy ===== *)
theory ChMboxes
  imports ChSem ChRing
begin

text \<open>
  Mailboxes, \<open>chmboxes.c\<close> and \<open>chmboxes.h\<close>: a circular buffer of messages guarded by two counting
  semaphores. The buffer from \<open>mb_buffer\<close> to \<open>mb_top\<close> is the list \<open>mb_data\<close>, the pointers are
  distances from \<open>mb_buffer\<close>, the semaphores are numbers. An operation takes the mailbox and the
  kernel state and returns both. After the wait for its semaphore, an operation continues in
  the definition with suffix \<open>_k\<close>, at once or when the waiting thread is woken.
\<close>

record mailbox_t =
  mb_data :: "msg_t list"
  mb_wrptr :: nat
  mb_rdptr :: nat
  mb_fullsem :: nat
  mb_emptysem :: nat

abbreviation mb_top :: "mailbox_t \<Rightarrow> nat" where
  "mb_top mb \<equiv> length (mb_data mb)"

definition andthen_obj ::
  "'o \<Rightarrow> ('a outcome \<times> 's) \<Rightarrow> ('a \<Rightarrow> 's \<Rightarrow> ('b outcome \<times> 'o \<times> 's) option) \<Rightarrow> ('b outcome \<times> 'o \<times> 's) option" where
  "andthen_obj x r f = (case r of (Done a, s) \<Rightarrow> f a s | (Switched, s) \<Rightarrow> Some (Switched, x, s))"

lemma andthen_obj_simps [simp]:
  "andthen_obj x (Done a, s) f = f a s" "andthen_obj x (Switched, s) f = Some (Switched, x, s)"
  by (simp_all add: andthen_obj_def)

subsection \<open>The buffer\<close>

text \<open>\<open>*mb_wrptr++ = msg\<close> with the wrap-around, \<open>--mb_rdptr\<close> with the wrap-around, \<open>*mb_rdptr++\<close>.\<close>

definition mb_store :: "msg_t \<Rightarrow> mailbox_t \<Rightarrow> mailbox_t" where
  "mb_store msg mb =
     (let mb = mb\<lparr>mb_data := (mb_data mb)[mb_wrptr mb := msg], mb_wrptr := mb_wrptr mb + 1\<rparr>
      in if mb_wrptr mb \<ge> mb_top mb then mb\<lparr>mb_wrptr := 0\<rparr> else mb)"

definition mb_store_ahead :: "msg_t \<Rightarrow> mailbox_t \<Rightarrow> mailbox_t" where
  "mb_store_ahead msg mb =
     (let p = int (mb_rdptr mb) - 1;
          mb = mb\<lparr>mb_rdptr := (if p < 0 then mb_top mb - 1 else nat p)\<rparr>
      in mb\<lparr>mb_data := (mb_data mb)[mb_rdptr mb := msg]\<rparr>)"

definition mb_load :: "mailbox_t \<Rightarrow> msg_t \<times> mailbox_t" where
  "mb_load mb =
     (let msg = mb_data mb ! mb_rdptr mb;
          mb = mb\<lparr>mb_rdptr := mb_rdptr mb + 1\<rparr>
      in (msg, if mb_rdptr mb \<ge> mb_top mb then mb\<lparr>mb_rdptr := 0\<rparr> else mb))"

subsection \<open>The operations\<close>

definition chMBObjectInit ::
  "nat \<Rightarrow> nat \<Rightarrow> msg_t list \<Rightarrow> ch_system \<Rightarrow> (mailbox_t \<times> ch_system) option" where
  "chMBObjectInit fs es buf k =
     do { assert_that (int (length buf) > 0);
          let mb = \<lparr>mb_data = buf, mb_wrptr = 0, mb_rdptr = 0, mb_fullsem = fs, mb_emptysem = es\<rparr>;
          k \<leftarrow> chSemObjectInit (mb_emptysem mb) (int (length buf)) k;
          k \<leftarrow> chSemObjectInit (mb_fullsem mb) 0 k;
          Some (mb, k) }"

definition chMBResetI :: "mailbox_t \<Rightarrow> ch_system \<Rightarrow> (mailbox_t \<times> ch_system) option" where
  "chMBResetI mb k =
     do { chDbgCheckClassI k;
          let mb = mb\<lparr>mb_wrptr := 0, mb_rdptr := 0\<rparr>;
          k \<leftarrow> chSemResetI (mb_emptysem mb) (int (mb_top mb)) k;
          k \<leftarrow> chSemResetI (mb_fullsem mb) 0 k;
          Some (mb, k) }"

definition chMBReset :: "mailbox_t \<Rightarrow> ch_system \<Rightarrow> (unit outcome \<times> mailbox_t \<times> ch_system) option" where
  "chMBReset mb k =
     do { k \<leftarrow> chSysLock k;
          (mb, k) \<leftarrow> chMBResetI mb k;
          r \<leftarrow> chSchRescheduleS k;
          andthen_obj mb r (\<lambda>_ k. do { k \<leftarrow> chSysUnlock k; Some (Done (), mb, k) }) }"

definition chMBPostS_k ::
  "msg_t \<Rightarrow> msg_t \<Rightarrow> mailbox_t \<Rightarrow> ch_system \<Rightarrow> (msg_t outcome \<times> mailbox_t \<times> ch_system) option" where
  "chMBPostS_k msg rdymsg mb k =
     (if rdymsg = MSG_OK
      then do { let mb = mb_store msg mb;
                k \<leftarrow> chSemSignalI (mb_fullsem mb) k;
                r \<leftarrow> chSchRescheduleS k;
                andthen_obj mb r (\<lambda>_ k. Some (Done rdymsg, mb, k)) }
      else Some (Done rdymsg, mb, k))"

definition chMBPostS ::
  "msg_t \<Rightarrow> systime_t \<Rightarrow> mailbox_t \<Rightarrow> ch_system \<Rightarrow> (msg_t outcome \<times> mailbox_t \<times> ch_system) option" where
  "chMBPostS msg timeout mb k =
     do { chDbgCheckClassS k;
          r \<leftarrow> chSemWaitTimeoutS (mb_emptysem mb) timeout k;
          andthen_obj mb r (\<lambda>rdymsg k. chMBPostS_k msg rdymsg mb k) }"

definition chMBPost ::
  "msg_t \<Rightarrow> systime_t \<Rightarrow> mailbox_t \<Rightarrow> ch_system \<Rightarrow> (msg_t outcome \<times> mailbox_t \<times> ch_system) option" where
  "chMBPost msg timeout mb k =
     do { k \<leftarrow> chSysLock k;
          (out, mb, k) \<leftarrow> chMBPostS msg timeout mb k;
          andthen_obj mb (out, k) (\<lambda>rdymsg k. do { k \<leftarrow> chSysUnlock k; Some (Done rdymsg, mb, k) }) }"

definition chMBPostI :: "msg_t \<Rightarrow> mailbox_t \<Rightarrow> ch_system \<Rightarrow> (msg_t \<times> mailbox_t \<times> ch_system) option" where
  "chMBPostI msg mb k =
     do { chDbgCheckClassI k;
          c \<leftarrow> chSemGetCounterI (mb_emptysem mb) k;
          if c \<le> 0 then Some (MSG_TIMEOUT, mb, k)
          else do { k \<leftarrow> chSemFastWaitI (mb_emptysem mb) k;
                    let mb = mb_store msg mb;
                    k \<leftarrow> chSemSignalI (mb_fullsem mb) k;
                    Some (MSG_OK, mb, k) } }"

definition chMBPostAheadS_k ::
  "msg_t \<Rightarrow> msg_t \<Rightarrow> mailbox_t \<Rightarrow> ch_system \<Rightarrow> (msg_t outcome \<times> mailbox_t \<times> ch_system) option" where
  "chMBPostAheadS_k msg rdymsg mb k =
     (if rdymsg = MSG_OK
      then do { let mb = mb_store_ahead msg mb;
                k \<leftarrow> chSemSignalI (mb_fullsem mb) k;
                r \<leftarrow> chSchRescheduleS k;
                andthen_obj mb r (\<lambda>_ k. Some (Done rdymsg, mb, k)) }
      else Some (Done rdymsg, mb, k))"

definition chMBPostAheadS ::
  "msg_t \<Rightarrow> systime_t \<Rightarrow> mailbox_t \<Rightarrow> ch_system \<Rightarrow> (msg_t outcome \<times> mailbox_t \<times> ch_system) option" where
  "chMBPostAheadS msg timeout mb k =
     do { chDbgCheckClassS k;
          r \<leftarrow> chSemWaitTimeoutS (mb_emptysem mb) timeout k;
          andthen_obj mb r (\<lambda>rdymsg k. chMBPostAheadS_k msg rdymsg mb k) }"

definition chMBPostAhead ::
  "msg_t \<Rightarrow> systime_t \<Rightarrow> mailbox_t \<Rightarrow> ch_system \<Rightarrow> (msg_t outcome \<times> mailbox_t \<times> ch_system) option" where
  "chMBPostAhead msg timeout mb k =
     do { k \<leftarrow> chSysLock k;
          (out, mb, k) \<leftarrow> chMBPostAheadS msg timeout mb k;
          andthen_obj mb (out, k) (\<lambda>rdymsg k. do { k \<leftarrow> chSysUnlock k; Some (Done rdymsg, mb, k) }) }"

definition chMBPostAheadI :: "msg_t \<Rightarrow> mailbox_t \<Rightarrow> ch_system \<Rightarrow> (msg_t \<times> mailbox_t \<times> ch_system) option" where
  "chMBPostAheadI msg mb k =
     do { chDbgCheckClassI k;
          c \<leftarrow> chSemGetCounterI (mb_emptysem mb) k;
          if c \<le> 0 then Some (MSG_TIMEOUT, mb, k)
          else do { k \<leftarrow> chSemFastWaitI (mb_emptysem mb) k;
                    let mb = mb_store_ahead msg mb;
                    k \<leftarrow> chSemSignalI (mb_fullsem mb) k;
                    Some (MSG_OK, mb, k) } }"

text \<open>Fetching: the message read is \<open>Some\<close> when the return value is \<open>MSG_OK\<close>.\<close>

definition chMBFetchS_k ::
  "msg_t \<Rightarrow> mailbox_t \<Rightarrow> ch_system \<Rightarrow> ((msg_t \<times> msg_t option) outcome \<times> mailbox_t \<times> ch_system) option" where
  "chMBFetchS_k rdymsg mb k =
     (if rdymsg = MSG_OK
      then do { let (msg, mb) = mb_load mb;
                k \<leftarrow> chSemSignalI (mb_emptysem mb) k;
                r \<leftarrow> chSchRescheduleS k;
                andthen_obj mb r (\<lambda>_ k. Some (Done (rdymsg, Some msg), mb, k)) }
      else Some (Done (rdymsg, None), mb, k))"

definition chMBFetchS ::
  "systime_t \<Rightarrow> mailbox_t \<Rightarrow> ch_system \<Rightarrow> ((msg_t \<times> msg_t option) outcome \<times> mailbox_t \<times> ch_system) option" where
  "chMBFetchS timeout mb k =
     do { chDbgCheckClassS k;
          r \<leftarrow> chSemWaitTimeoutS (mb_fullsem mb) timeout k;
          andthen_obj mb r (\<lambda>rdymsg k. chMBFetchS_k rdymsg mb k) }"

definition chMBFetch ::
  "systime_t \<Rightarrow> mailbox_t \<Rightarrow> ch_system \<Rightarrow> ((msg_t \<times> msg_t option) outcome \<times> mailbox_t \<times> ch_system) option" where
  "chMBFetch timeout mb k =
     do { k \<leftarrow> chSysLock k;
          (out, mb, k) \<leftarrow> chMBFetchS timeout mb k;
          andthen_obj mb (out, k) (\<lambda>x k. do { k \<leftarrow> chSysUnlock k; Some (Done x, mb, k) }) }"

definition chMBFetchI :: "mailbox_t \<Rightarrow> ch_system \<Rightarrow> ((msg_t \<times> msg_t option) \<times> mailbox_t \<times> ch_system) option" where
  "chMBFetchI mb k =
     do { chDbgCheckClassI k;
          c \<leftarrow> chSemGetCounterI (mb_fullsem mb) k;
          if c \<le> 0 then Some ((MSG_TIMEOUT, None), mb, k)
          else do { k \<leftarrow> chSemFastWaitI (mb_fullsem mb) k;
                    let (msg, mb) = mb_load mb;
                    k \<leftarrow> chSemSignalI (mb_emptysem mb) k;
                    Some ((MSG_OK, Some msg), mb, k) } }"

definition chMBGetSizeI :: "mailbox_t \<Rightarrow> nat" where
  "chMBGetSizeI mb = mb_top mb"

definition chMBGetFreeCountI :: "mailbox_t \<Rightarrow> ch_system \<Rightarrow> cnt_t option" where
  "chMBGetFreeCountI mb k = do { chDbgCheckClassI k; chSemGetCounterI (mb_emptysem mb) k }"

definition chMBGetUsedCountI :: "mailbox_t \<Rightarrow> ch_system \<Rightarrow> cnt_t option" where
  "chMBGetUsedCountI mb k = do { chDbgCheckClassI k; chSemGetCounterI (mb_fullsem mb) k }"

definition chMBPeekI :: "mailbox_t \<Rightarrow> ch_system \<Rightarrow> msg_t option" where
  "chMBPeekI mb k = do { chDbgCheckClassI k; Some (mb_data mb ! mb_rdptr mb) }"

subsection \<open>The buffer is a bounded queue\<close>

definition mb_holds :: "mailbox_t \<Rightarrow> msg_t list \<Rightarrow> bool" where
  "mb_holds mb xs \<longleftrightarrow> ring_ok (mb_data mb) (mb_rdptr mb) (mb_wrptr mb) xs"

lemma mb_store_ring:
  "mb_store m mb = mb\<lparr>mb_data := (mb_data mb)[mb_wrptr mb := m], mb_wrptr := ring_next (mb_top mb) (mb_wrptr mb)\<rparr>"
  by (simp add: mb_store_def ring_next_def Let_def)

lemma mb_store_ahead_ring:
  "mb_store_ahead m mb =
     mb\<lparr>mb_data := (mb_data mb)[ring_prev (mb_top mb) (mb_rdptr mb) := m], mb_rdptr := ring_prev (mb_top mb) (mb_rdptr mb)\<rparr>"
proof -
  have "nat (int (mb_rdptr mb) - 1) = mb_rdptr mb - 1" by simp
  then show ?thesis by (auto simp: mb_store_ahead_def ring_prev_def Let_def)
qed

lemma mb_load_ring:
  "mb_load mb = (mb_data mb ! mb_rdptr mb, mb\<lparr>mb_rdptr := ring_next (mb_top mb) (mb_rdptr mb)\<rparr>)"
  by (simp add: mb_load_def ring_next_def Let_def)

interpretation mbox: fifo_buffer mb_store mb_load mb_holds mb_top
proof unfold_locales
  fix s xs a
  assume "mb_holds s xs" "length xs < mb_top s"
  then show "mb_holds (mb_store a s) (xs @ [a])" by (simp add: mb_holds_def mb_store_ring ring_put)
next
  fix s x xs
  assume "mb_holds s (x # xs)"
  then show "fst (mb_load s) = x \<and> mb_holds (snd (mb_load s)) xs"
    using ring_get [of "mb_data s" "mb_rdptr s" "mb_wrptr s" x xs] by (simp add: mb_holds_def mb_load_ring)
qed (simp_all add: mb_store_ring mb_load_ring)

lemma mb_store_ahead_holds:
  "mb_holds mb xs \<Longrightarrow> length xs < mb_top mb \<Longrightarrow> mb_holds (mb_store_ahead m mb) (m # xs)"
  by (simp add: mb_holds_def mb_store_ahead_ring ring_put_ahead)

subsection \<open>The semaphores count the buffer\<close>

text \<open>
  \<open>mb_ok mb k xs pf ff\<close>: the mailbox holds \<open>xs\<close>; \<open>pf\<close> threads have been granted a free place and
  \<open>ff\<close> threads a message, but have not run yet to use it. Every place is accounted for: it is free
  (counted by the empty semaphore), granted, or holds a message; every message is counted by the
  full semaphore or granted.
\<close>

definition mb_ok :: "mailbox_t \<Rightarrow> ch_system \<Rightarrow> msg_t list \<Rightarrow> nat \<Rightarrow> nat \<Rightarrow> bool" where
  "mb_ok mb k xs pf ff \<longleftrightarrow>
     mb_holds mb xs \<and> mb_fullsem mb \<noteq> mb_emptysem mb \<and> int (mb_top mb) < 2 ^ 31 - 1 \<and>
     int (length xs) = max 0 (s_cnt k (mb_fullsem mb)) + int ff \<and>
     int (mb_top mb) = int (length xs) + max 0 (s_cnt k (mb_emptysem mb)) + int pf"

lemma mb_fields [simp]:
  "mb_fullsem (mb_store m mb) = mb_fullsem mb" "mb_emptysem (mb_store m mb) = mb_emptysem mb"
  "mb_fullsem (mb_store_ahead m mb) = mb_fullsem mb" "mb_emptysem (mb_store_ahead m mb) = mb_emptysem mb"
  "mb_fullsem (snd (mb_load mb)) = mb_fullsem mb" "mb_emptysem (snd (mb_load mb)) = mb_emptysem mb"
  "mb_top (mb_store m mb) = mb_top mb" "mb_top (mb_store_ahead m mb) = mb_top mb" "mb_top (snd (mb_load mb)) = mb_top mb"
  by (simp_all add: mb_store_ring mb_store_ahead_ring mb_load_ring)

lemma signal_fits:
  assumes "cnts_fit k" "s_cnt k s < 2 ^ 31 - 1"
  shows "cnt_fits (s_cnt k s + 1)"
proof -
  have "cnt_fits (s_cnt k s)" using assms(1) by (simp add: cnts_fit_def)
  then show ?thesis using assms(2) by (auto simp: cnt_fits_def)
qed

text \<open>A granted place is used: the message is in and the full semaphore is signalled.\<close>

lemma mb_use_place:
  assumes ok: "kernel_ok k" and cl: "class_I k" and cf: "cnts_fit k" and mb: "mb_ok mb k xs (Suc pf) ff"
    and mb': "mb_holds mb' xs'" "length xs' = Suc (length xs)" "mb_fullsem mb' = mb_fullsem mb"
      "mb_emptysem mb' = mb_emptysem mb" "mb_top mb' = mb_top mb"
  shows "chSemSignalI (mb_fullsem mb) k = Some (sem_signalled (mb_fullsem mb) k)"
    "mb_ok mb' (sem_signalled (mb_fullsem mb) k) xs' pf (ff + of_bool (s_cnt k (mb_fullsem mb) < 0))"
proof -
  have "s_cnt k (mb_fullsem mb) < 2 ^ 31 - 1" using mb by (auto simp: mb_ok_def)
  then show "chSemSignalI (mb_fullsem mb) k = Some (sem_signalled (mb_fullsem mb) k)"
    using chSemSignalI_eq [OF ok cl] signal_fits [OF cf] by blast
  show "mb_ok mb' (sem_signalled (mb_fullsem mb) k) xs' pf (ff + of_bool (s_cnt k (mb_fullsem mb) < 0))"
    using mb mb' by (auto simp: mb_ok_def)
qed

text \<open>A granted message is taken out and the empty semaphore is signalled.\<close>

lemma mb_use_message:
  assumes ok: "kernel_ok k" and cl: "class_I k" and cf: "cnts_fit k" and mb: "mb_ok mb k xs pf (Suc ff)"
  obtains x xs' where "xs = x # xs'" "fst (mb_load mb) = x"
    "chSemSignalI (mb_emptysem mb) k = Some (sem_signalled (mb_emptysem mb) k)"
    "mb_ok (snd (mb_load mb)) (sem_signalled (mb_emptysem mb) k) xs' (pf + of_bool (s_cnt k (mb_emptysem mb) < 0)) ff"
proof -
  obtain x xs' where xs: "xs = x # xs'" using mb by (cases xs) (auto simp: mb_ok_def)
  have h: "fst (mb_load mb) = x" "mb_holds (snd (mb_load mb)) xs'"
    using mbox.get_holds [of mb x xs'] mb xs by (auto simp: mb_ok_def)
  have "s_cnt k (mb_emptysem mb) < 2 ^ 31 - 1" using mb xs by (auto simp: mb_ok_def)
  then have s: "chSemSignalI (mb_emptysem mb) k = Some (sem_signalled (mb_emptysem mb) k)"
    using chSemSignalI_eq [OF ok cl] signal_fits [OF cf] by blast
  have "mb_ok (snd (mb_load mb)) (sem_signalled (mb_emptysem mb) k) xs' (pf + of_bool (s_cnt k (mb_emptysem mb) < 0)) ff"
    using mb h(2) xs by (auto simp: mb_ok_def)
  then show ?thesis using that xs h(1) s by blast
qed

lemma chSemFastWaitI_ok:
  assumes "class_I k" "cnts_fit k" "0 < s_cnt k s"
  shows "chSemFastWaitI s k = Some (set_cnt s (s_cnt k s - 1) k)"
proof -
  have "cnt_fits (s_cnt k s + - 1)" using assms(2,3) by (auto simp: cnts_fit_def cnt_fits_def dest: spec [of _ s])
  then show ?thesis using assms(1) by (simp add: chSemFastWaitI_def)
qed

lemma cnts_fit_take: "cnts_fit k \<Longrightarrow> 0 < s_cnt k s \<Longrightarrow> cnts_fit (set_cnt s (s_cnt k s - 1) k)"
  by (auto simp: cnts_fit_def cnt_fits_def) (smt (verit))+

lemma mb_grant_place:
  assumes "mb_ok mb k xs pf ff" "0 < s_cnt k (mb_emptysem mb)"
  shows "mb_ok mb (set_cnt (mb_emptysem mb) (s_cnt k (mb_emptysem mb) - 1) k) xs (Suc pf) ff"
  using assms by (auto simp: mb_ok_def)

lemma mb_grant_message:
  assumes "mb_ok mb k xs pf ff" "0 < s_cnt k (mb_fullsem mb)"
  shows "mb_ok mb (set_cnt (mb_fullsem mb) (s_cnt k (mb_fullsem mb) - 1) k) xs pf (Suc ff)"
  using assms by (auto simp: mb_ok_def)

lemma mb_ok_room: "mb_ok mb k xs (Suc pf) ff \<Longrightarrow> length xs < mb_top mb"
  by (auto simp: mb_ok_def)

lemma mb_ok_ne: "mb_ok mb k xs pf ff \<Longrightarrow> mb_fullsem mb \<noteq> mb_emptysem mb"
  by (simp add: mb_ok_def)

lemma mb_post_with:
  assumes ok: "kernel_ok k" and cl: "class_I k" and cf: "cnts_fit k" and mb: "mb_ok mb k xs pf ff"
    and pos: "0 < s_cnt k (mb_emptysem mb)"
    and f: "\<And>mb xs. mb_holds mb xs \<Longrightarrow> length xs < mb_top mb \<Longrightarrow> mb_holds (f mb) (g xs)" "\<And>xs. length (g xs) = Suc (length xs)"
      "\<And>mb. mb_fullsem (f mb) = mb_fullsem mb" "\<And>mb. mb_emptysem (f mb) = mb_emptysem mb" "\<And>mb. mb_top (f mb) = mb_top mb"
  shows "\<exists>k1 k2. chSemFastWaitI (mb_emptysem mb) k = Some k1 \<and> chSemSignalI (mb_fullsem mb) k1 = Some k2 \<and> kernel_ok k2 \<and>
           mb_ok (f mb) k2 (g xs) pf (ff + of_bool (s_cnt k (mb_fullsem mb) < 0))"
proof -
  let ?k1 = "set_cnt (mb_emptysem mb) (s_cnt k (mb_emptysem mb) - 1) k"
  have k1: "kernel_ok ?k1" "class_I ?k1" "cnts_fit ?k1" "mb_ok mb ?k1 xs (Suc pf) ff"
    using kernel_ok_sem_take [OF ok pos] cl cnts_fit_take [OF cf pos] mb_grant_place [OF mb pos] by simp_all
  have h: "mb_holds (f mb) (g xs)" using f(1) k1(4) mb_ok_room [OF k1(4)] by (simp add: mb_ok_def)
  note u = mb_use_place [OF k1 h f(2-5)]
  show ?thesis using chSemFastWaitI_ok [OF cl cf pos] u sem_signalled_ok [OF k1(1)] mb_ok_ne [OF mb] by simp
qed

lemma chMBPostI_ok:
  assumes "kernel_ok k" "class_I k" "cnts_fit k" "mb_ok mb k xs pf ff" "0 < s_cnt k (mb_emptysem mb)"
  shows "\<exists>mb' k'. chMBPostI m mb k = Some (MSG_OK, mb', k') \<and> kernel_ok k' \<and>
           mb_ok mb' k' (xs @ [m]) pf (ff + of_bool (s_cnt k (mb_fullsem mb) < 0))"
proof -
  obtain k1 k2 where "chSemFastWaitI (mb_emptysem mb) k = Some k1" "chSemSignalI (mb_fullsem mb) k1 = Some k2" "kernel_ok k2"
      "mb_ok (mb_store m mb) k2 (xs @ [m]) pf (ff + of_bool (s_cnt k (mb_fullsem mb) < 0))"
    using mb_post_with [OF assms, of "mb_store m" "\<lambda>xs. xs @ [m]"] mbox.put_holds by auto
  then show ?thesis using assms(2,5) by (simp add: chMBPostI_def chSemGetCounterI_def Let_def)
qed

lemma chMBPostAheadI_ok:
  assumes "kernel_ok k" "class_I k" "cnts_fit k" "mb_ok mb k xs pf ff" "0 < s_cnt k (mb_emptysem mb)"
  shows "\<exists>mb' k'. chMBPostAheadI m mb k = Some (MSG_OK, mb', k') \<and> kernel_ok k' \<and>
           mb_ok mb' k' (m # xs) pf (ff + of_bool (s_cnt k (mb_fullsem mb) < 0))"
proof -
  obtain k1 k2 where "chSemFastWaitI (mb_emptysem mb) k = Some k1" "chSemSignalI (mb_fullsem mb) k1 = Some k2" "kernel_ok k2"
      "mb_ok (mb_store_ahead m mb) k2 (m # xs) pf (ff + of_bool (s_cnt k (mb_fullsem mb) < 0))"
    using mb_post_with [OF assms, of "mb_store_ahead m" "\<lambda>xs. m # xs"] mb_store_ahead_holds by auto
  then show ?thesis using assms(2,5) by (simp add: chMBPostAheadI_def chSemGetCounterI_def Let_def)
qed

lemma chMBFetchI_ok:
  assumes ok: "kernel_ok k" and cl: "class_I k" and cf: "cnts_fit k" and mb: "mb_ok mb k xs pf ff"
    and pos: "0 < s_cnt k (mb_fullsem mb)"
  shows "\<exists>x xs' mb' k'. xs = x # xs' \<and> chMBFetchI mb k = Some ((MSG_OK, Some x), mb', k') \<and> kernel_ok k' \<and>
           mb_ok mb' k' xs' (pf + of_bool (s_cnt k (mb_emptysem mb) < 0)) ff"
proof -
  let ?k1 = "set_cnt (mb_fullsem mb) (s_cnt k (mb_fullsem mb) - 1) k"
  have k1: "kernel_ok ?k1" "class_I ?k1" "cnts_fit ?k1" "mb_ok mb ?k1 xs pf (Suc ff)"
    using kernel_ok_sem_take [OF ok pos] cl cnts_fit_take [OF cf pos] mb_grant_message [OF mb pos] by simp_all
  obtain x xs' where "xs = x # xs'" "fst (mb_load mb) = x"
    "chSemSignalI (mb_emptysem mb) ?k1 = Some (sem_signalled (mb_emptysem mb) ?k1)"
    "mb_ok (snd (mb_load mb)) (sem_signalled (mb_emptysem mb) ?k1) xs' (pf + of_bool (s_cnt ?k1 (mb_emptysem mb) < 0)) ff"
    using mb_use_message [OF k1] .
  then show ?thesis
    using chSemFastWaitI_ok [OF cl cf pos] sem_signalled_ok [OF k1(1)] mb_ok_ne [OF mb] cl pos
    by (simp add: chMBFetchI_def chSemGetCounterI_def split_beta)
qed

text \<open>
  C27. The interrupt-level operations implement a bounded queue. When the mailbox holds \<open>xs\<close>, posting
  appends the message, posting ahead puts it in front, fetching removes and returns the first
  message, each exactly when its semaphore says there is a place or a message; otherwise nothing
  changes and \<open>MSG_TIMEOUT\<close> is returned. A thread that waits on the other side is granted what became
  available. The kernel and mailbox invariants hold afterwards.
\<close>

theorem mb_refines_queue:
  assumes ok: "kernel_ok k" and cl: "class_I k" and cf: "cnts_fit k" and mb: "mb_ok mb k xs pf ff"
  shows "(if s_cnt k (mb_emptysem mb) \<le> 0
          then chMBPostI m mb k = Some (MSG_TIMEOUT, mb, k) \<and> chMBPostAheadI m mb k = Some (MSG_TIMEOUT, mb, k)
          else (\<exists>mb' k'. chMBPostI m mb k = Some (MSG_OK, mb', k') \<and> kernel_ok k' \<and>
                  mb_ok mb' k' (xs @ [m]) pf (ff + of_bool (s_cnt k (mb_fullsem mb) < 0))) \<and>
               (\<exists>mb' k'. chMBPostAheadI m mb k = Some (MSG_OK, mb', k') \<and> kernel_ok k' \<and>
                  mb_ok mb' k' (m # xs) pf (ff + of_bool (s_cnt k (mb_fullsem mb) < 0)))) \<and>
         (if s_cnt k (mb_fullsem mb) \<le> 0 then chMBFetchI mb k = Some ((MSG_TIMEOUT, None), mb, k)
          else \<exists>x xs' mb' k'. xs = x # xs' \<and> chMBFetchI mb k = Some ((MSG_OK, Some x), mb', k') \<and> kernel_ok k' \<and>
                 mb_ok mb' k' xs' (pf + of_bool (s_cnt k (mb_emptysem mb) < 0)) ff)"
proof -
  have "s_cnt k (mb_emptysem mb) \<le> 0 \<Longrightarrow>
      chMBPostI m mb k = Some (MSG_TIMEOUT, mb, k) \<and> chMBPostAheadI m mb k = Some (MSG_TIMEOUT, mb, k)"
    "s_cnt k (mb_fullsem mb) \<le> 0 \<Longrightarrow> chMBFetchI mb k = Some ((MSG_TIMEOUT, None), mb, k)"
    using cl by (simp_all add: chMBPostI_def chMBPostAheadI_def chMBFetchI_def chSemGetCounterI_def)
  then show ?thesis
    using chMBPostI_ok [OF assms, of m] chMBPostAheadI_ok [OF assms, of m] chMBFetchI_ok [OF assms] by simp
qed

text \<open>A mailbox of three places, semaphores 1 (full) and 2 (empty), that holds the message 5.\<close>

definition mb1 :: mailbox_t where
  "mb1 = \<lparr>mb_data = [0, 5, 0], mb_wrptr = 2, mb_rdptr = 1, mb_fullsem = 1, mb_emptysem = 2\<rparr>"

definition sys_mb :: ch_system where
  "sys_mb = (set_cnt 2 2 (set_cnt 1 1 sys0))\<lparr>lock_cnt := 1\<rparr>"

lemma sys_mb_facts:
  "kernel_ok sys_mb" "class_I sys_mb" "class_S sys_mb" "cnts_fit sys_mb" "mb_ok mb1 sys_mb [5] 0 0"
proof -
  have "sem_ok (set_cnt 2 2 (set_cnt 1 1 sys0))" by (simp add: sem_ok_def set_cnt_def sys0_def)
  then have "kernel_ok (set_cnt 2 2 (set_cnt 1 1 sys0))" using kernel_okD [OF sys0_kernel_ok] by (simp add: kernel_ok_def)
  then show "kernel_ok sys_mb" by (simp add: sys_mb_def)
  show "class_I sys_mb" "class_S sys_mb" "cnts_fit sys_mb"
    by (simp_all add: sys_mb_def class_I_def class_S_def cnts_fit_def cnt_fits_def set_cnt_def sys0_def)
  show "mb_ok mb1 sys_mb [5] 0 0" by (simp add: mb_ok_def mb_holds_def ring_ok_def mb1_def sys_mb_def)
qed

theorem mb_refines_queue_witness:
  "(\<exists>mb' k'. chMBPostI 7 mb1 sys_mb = Some (MSG_OK, mb', k') \<and> mb_ok mb' k' [5, 7] 0 0) \<and>
   (\<exists>mb' k'. chMBFetchI mb1 sys_mb = Some ((MSG_OK, Some 5), mb', k') \<and> mb_ok mb' k' [] 0 0)"
proof -
  have "s_cnt sys_mb (mb_emptysem mb1) = 2" "s_cnt sys_mb (mb_fullsem mb1) = 1" by (simp_all add: sys_mb_def mb1_def)
  then show ?thesis using mb_refines_queue [OF sys_mb_facts(1,2,4,5), of 7] by auto
qed

subsection \<open>Posting from a thread\<close>

lemma mb_ok_rescheduled: "mb_ok mb (snd (rescheduled k)) xs pf ff = mb_ok mb k xs pf ff"
  by (simp add: mb_ok_def rescheduled_def)

lemma rescheduled_cases: "rescheduled k = (Done (), k) \<or> rescheduled k = (Switched, snd (rescheduled k))"
  by (simp add: rescheduled_def)

text \<open>A thread that has been granted a place stores its message; there is always room.\<close>

lemma chMBPostS_k_ok:
  assumes ok: "kernel_ok k" and S: "class_S k" and cf: "cnts_fit k" and mb: "mb_ok mb k xs (Suc pf) ff"
  shows "\<exists>out k'. chMBPostS_k m MSG_OK mb k = Some (out, mb_store m mb, k') \<and> kernel_ok k' \<and> resched_ok k' \<and>
           mb_ok (mb_store m mb) k' (xs @ [m]) pf (ff + of_bool (s_cnt k (mb_fullsem mb) < 0)) \<and>
           (out = Done MSG_OK \<or> out = Switched)"
proof -
  have h: "mb_holds (mb_store m mb) (xs @ [m])"
    using mbox.put_holds mb mb_ok_room [OF mb] by (simp add: mb_ok_def)
  let ?k1 = "sem_signalled (mb_fullsem mb) k"
  have u: "chSemSignalI (mb_fullsem mb) k = Some ?k1"
      "mb_ok (mb_store m mb) ?k1 (xs @ [m]) pf (ff + of_bool (s_cnt k (mb_fullsem mb) < 0))"
    using mb_use_place [OF ok class_S_I [OF S] cf mb h] by simp_all
  have K: "kernel_ok ?k1" "class_S ?k1" using sem_signalled_ok [OF ok] S by simp_all
  have R: "chSchRescheduleS ?k1 = Some (rescheduled ?k1)" "kernel_ok (snd (rescheduled ?k1))"
      "resched_ok (snd (rescheduled ?k1))"
    using chSchRescheduleS_eq [OF kernel_okD(1) [OF K(1)] K(2)] kernel_ok_rescheduled [OF K(1)]
      rescheduled_resched_ok [OF kernel_okD(1) [OF K(1)]] by simp_all
  show ?thesis using rescheduled_cases [of ?k1]
  proof
    assume e: "rescheduled ?k1 = (Done (), ?k1)"
    then show ?thesis using u R by (simp add: chMBPostS_k_def Let_def)
  next
    assume e: "rescheduled ?k1 = (Switched, snd (rescheduled ?k1))"
    have "chMBPostS_k m MSG_OK mb k = Some (Switched, mb_store m mb, snd (rescheduled ?k1))"
      using u(1) R(1) arg_cong [OF e, of "\<lambda>r. andthen_obj (mb_store m mb) r f" for f]
      by (simp add: chMBPostS_k_def Let_def)
    then show ?thesis using u(2) R(2,3) by (simp add: mb_ok_rescheduled)
  qed
qed

text \<open>
  Posting from a thread has exactly three outcomes. If there is a free place the message is
  appended and a higher-priority reader it wakes runs at once. Otherwise an immediate time-out
  returns \<open>MSG_TIMEOUT\<close> with nothing changed, and any other puts the caller to sleep on the empty
  semaphore with the mailbox unchanged. A caller that is later granted a place always finds room:
  its message is appended and the invariants hold.
\<close>

theorem chMBPostS_outcomes:
  assumes ok: "kernel_ok k" and S: "class_S k" and cf: "cnts_fit k" and mb: "mb_ok mb k xs pf ff"
    and sl: "time \<noteq> TIME_IMMEDIATE \<longrightarrow> can_sleep time k" and fit: "cnt_fits (s_cnt k (mb_emptysem mb) - 1)"
  shows "(if 0 < s_cnt k (mb_emptysem mb)
          then \<exists>out k'. chMBPostS m time mb k = Some (out, mb_store m mb, k') \<and> kernel_ok k' \<and> resched_ok k' \<and>
                 mb_ok (mb_store m mb) k' (xs @ [m]) pf (ff + of_bool (s_cnt k (mb_fullsem mb) < 0)) \<and>
                 (out = Done MSG_OK \<or> out = Switched)
          else if time = TIME_IMMEDIATE then chMBPostS m time mb k = Some (Done MSG_TIMEOUT, mb, k)
          else \<exists>k'. chMBPostS m time mb k = Some (Switched, mb, k') \<and> kernel_ok k' \<and> resched_ok k' \<and>
                 mb_ok mb k' xs pf ff \<and> r_current k \<in> set (queues k' (Q_SEM (mb_emptysem mb)))) \<and>
         (\<forall>k2 xs2 pf2 ff2. kernel_ok k2 \<and> class_S k2 \<and> cnts_fit k2 \<and> mb_ok mb k2 xs2 (Suc pf2) ff2 \<longrightarrow>
            (\<exists>out k'. chMBPostS_k m MSG_OK mb k2 = Some (out, mb_store m mb, k') \<and> kernel_ok k' \<and>
               mb_ok (mb_store m mb) k' (xs2 @ [m]) pf2 (ff2 + of_bool (s_cnt k2 (mb_fullsem mb) < 0))))"
proof -
  let ?e = "mb_emptysem mb"
  consider (free) "0 < s_cnt k ?e" | (imm) "s_cnt k ?e \<le> 0" "time = TIME_IMMEDIATE"
    | (blk) "s_cnt k ?e \<le> 0" "time \<noteq> TIME_IMMEDIATE" by linarith
  then have "if 0 < s_cnt k (mb_emptysem mb)
          then \<exists>out k'. chMBPostS m time mb k = Some (out, mb_store m mb, k') \<and> kernel_ok k' \<and> resched_ok k' \<and>
                 mb_ok (mb_store m mb) k' (xs @ [m]) pf (ff + of_bool (s_cnt k (mb_fullsem mb) < 0)) \<and>
                 (out = Done MSG_OK \<or> out = Switched)
          else if time = TIME_IMMEDIATE then chMBPostS m time mb k = Some (Done MSG_TIMEOUT, mb, k)
          else \<exists>k'. chMBPostS m time mb k = Some (Switched, mb, k') \<and> kernel_ok k' \<and> resched_ok k' \<and>
                 mb_ok mb k' xs pf ff \<and> r_current k \<in> set (queues k' (Q_SEM (mb_emptysem mb)))"
  proof cases
    case free
    let ?k1 = "set_cnt ?e (s_cnt k ?e - 1) k"
    have w: "chMBPostS m time mb k = chMBPostS_k m MSG_OK mb ?k1"
      using chSemWaitTimeoutS_free [OF ok S fit free] S by (simp add: chMBPostS_def)
    have "s_cnt ?k1 (mb_fullsem mb) = s_cnt k (mb_fullsem mb)" using mb_ok_ne [OF mb] by simp
    then show ?thesis
      using free w chMBPostS_k_ok [of ?k1 mb xs pf ff m] kernel_ok_sem_take [OF ok free] S
        cnts_fit_take [OF cf free] mb_grant_place [OF mb free] by simp
  next
    case imm
    then show ?thesis using chSemWaitTimeoutS_immediate [OF ok S fit _ imm(1)] cf S
      by (simp add: chMBPostS_def chMBPostS_k_def cnts_fit_def)
  next
    case blk
    then obtain k1 where k1: "chSemWaitTimeoutS ?e time k = Some (Switched, sleeping CH_STATE_WTSEM k1)"
        "timed time (sem_enqueued ?e k) k1"
      using chSemWaitTimeoutS_block [OF ok _ _ fit] sl by blast
    have ne: "queues k Q_RLIST \<noteq> []" using sl blk by (simp add: can_sleep_def)
    have core: "core k1 = core (sem_enqueued ?e k)" using k1(2) by (simp add: timed_def)
    note kk = kernel_ok_sem_wait [OF ok ne blk(1) core]
    have "mb_ok mb (sleeping CH_STATE_WTSEM k1) xs pf ff"
      using mb blk(1) by (auto simp: mb_ok_def coreD(5) [OF core] sem_enqueued_def)
    then show ?thesis using blk k1(1) kk S
      by (simp add: chMBPostS_def coreD(2) [OF core] sem_enqueued_def)
  qed
  moreover have "\<forall>k2 xs2 pf2 ff2. kernel_ok k2 \<and> class_S k2 \<and> cnts_fit k2 \<and> mb_ok mb k2 xs2 (Suc pf2) ff2 \<longrightarrow>
            (\<exists>out k'. chMBPostS_k m MSG_OK mb k2 = Some (out, mb_store m mb, k') \<and> kernel_ok k' \<and>
               mb_ok (mb_store m mb) k' (xs2 @ [m]) pf2 (ff2 + of_bool (s_cnt k2 (mb_fullsem mb) < 0)))"
    using chMBPostS_k_ok by blast
  ultimately show ?thesis ..
qed

theorem chMBPostS_outcomes_witness:
  "\<exists>out k'. chMBPostS 7 TIME_IMMEDIATE mb1 sys_mb = Some (out, mb_store 7 mb1, k') \<and> kernel_ok k' \<and>
     mb_ok (mb_store 7 mb1) k' [5, 7] 0 0"
proof -
  have "s_cnt sys_mb (mb_emptysem mb1) = 2" "s_cnt sys_mb (mb_fullsem mb1) = 1" by (simp_all add: sys_mb_def mb1_def)
  then show ?thesis
    using chMBPostS_outcomes [OF sys_mb_facts(1,3,4,5), of TIME_IMMEDIATE 7] by (auto simp: cnt_fits_def)
qed

subsection \<open>Resetting\<close>

lemma chMBResetI_ok:
  assumes ok: "kernel_ok k" and cl: "class_I k" and cf: "cnts_fit k" and mb: "mb_ok mb k xs pf ff"
  defines "mb' \<equiv> mb\<lparr>mb_wrptr := 0, mb_rdptr := 0\<rparr>"
  shows "\<exists>k'. chMBResetI mb k = Some (mb', k') \<and> kernel_ok k' \<and> mb_ok mb' k' [] 0 0 \<and> isr_cnt k' = isr_cnt k \<and>
           lock_cnt k' = lock_cnt k \<and> r_current k' = r_current k \<and> cnts_fit k' \<and>
           s_cnt k' (mb_fullsem mb) = 0 \<and> s_cnt k' (mb_emptysem mb) = int (mb_top mb)"
proof -
  let ?e = "mb_emptysem mb" and ?f = "mb_fullsem mb"
  have bnd: "s_cnt k ?e < 2 ^ 31 - 1" "s_cnt k ?f < 2 ^ 31 - 1" "?f \<noteq> ?e" using mb by (auto simp: mb_ok_def)
  have fits: "cnt_fits (s_cnt k ?e)" "cnt_fits (s_cnt k ?f)" "cnt_fits (s_cnt k ?e + 1)" "cnt_fits (s_cnt k ?f + 1)"
    using cf signal_fits [OF cf bnd(1)] signal_fits [OF cf bnd(2)] by (auto simp: cnts_fit_def)
  define k1 where "k1 = woken_all MSG_RESET (rev (queues k (Q_SEM ?e))) (set_cnt ?e (int (mb_top mb)) k)"
  define k2 where "k2 = woken_all MSG_RESET (rev (queues k1 (Q_SEM ?f))) (set_cnt ?f 0 k1)"
  have k1: "chSemResetI ?e (int (mb_top mb)) k = Some k1" "kernel_ok k1"
    using chSemResetI_eq [OF ok cl _ fits(3,1), of "int (mb_top mb)"] by (simp_all add: k1_def)
  have s1: "s_cnt k1 = (s_cnt k)(?e := int (mb_top mb))" "class_I k1" using cl by (simp_all add: k1_def)
  have k2: "chSemResetI ?f 0 k1 = Some k2" "kernel_ok k2"
    using chSemResetI_eq [OF k1(2) s1(2), of 0 ?f] fits(2,4) bnd(3) s1(1) by (simp_all add: k2_def)
  have s2: "s_cnt k2 = (s_cnt k)(?e := int (mb_top mb), ?f := 0)" by (simp add: k2_def s1(1))
  have "0 < mb_top mb" using mb ring_okD(6) by (auto simp: mb_ok_def mb_holds_def)
  then have "mb_ok mb' k2 [] 0 0"
    using mb bnd(3) by (simp add: mb_ok_def mb'_def s2 mb_holds_def ring_init)
  moreover have "cnts_fit k2" using cf mb unfolding cnts_fit_def s2 by (auto simp: cnt_fits_def mb_ok_def)
  ultimately show ?thesis
    using k1(1) k2 cl bnd(3) s2 by (simp add: chMBResetI_def mb'_def Let_def) (simp add: k2_def k1_def)
qed

text \<open>
  Resetting a mailbox forgets the places that were granted before. After a reset every place
  counts as free; a thread that had been granted a place but had not run yet then stores its
  message all the same, and afterwards the free places and the messages together number one more
  than the mailbox has places.
\<close>

theorem chMBReset_overbooks:
  assumes "kernel_ok k" "class_S k" "cnts_fit k" "mb_ok mb k xs (Suc pf) ff"
  shows "\<exists>mb1 k1 out k2. chMBResetI mb k = Some (mb1, k1) \<and>
           chMBPostS_k m MSG_OK mb1 k1 = Some (out, mb_store m mb1, k2) \<and> mb_holds (mb_store m mb1) [m] \<and>
           s_cnt k2 (mb_emptysem mb) = int (mb_top mb) \<and> s_cnt k2 (mb_fullsem mb) = 1"
proof -
  let ?mb = "mb\<lparr>mb_wrptr := 0, mb_rdptr := 0\<rparr>"
  obtain k1 where k1: "chMBResetI mb k = Some (?mb, k1)" "kernel_ok k1" "mb_ok ?mb k1 [] 0 0" "isr_cnt k1 = isr_cnt k"
      "lock_cnt k1 = lock_cnt k" "cnts_fit k1" "s_cnt k1 (mb_fullsem mb) = 0" "s_cnt k1 (mb_emptysem mb) = int (mb_top mb)"
    using chMBResetI_ok [OF assms(1) class_S_I [OF assms(2)] assms(3,4)] by auto
  have S: "class_S k1" using assms(2) k1(4,5) by (simp add: class_S_def)
  let ?k = "sem_signalled (mb_fullsem mb) k1"
  have ne: "mb_fullsem mb \<noteq> mb_emptysem mb" and top: "0 < mb_top mb"
    using mb_ok_ne [OF assms(4)] mb_ok_room [OF assms(4)] by auto
  have sg: "chSemSignalI (mb_fullsem mb) k1 = Some ?k"
    using chSemSignalI_eq [OF k1(2) class_S_I [OF S]] k1(7) by (simp add: cnt_fits_def)
  have K: "sched_ok ?k" "class_S ?k" using kernel_okD(1) [OF sem_signalled_ok [OF k1(2)]] S by simp_all
  have cnt: "s_cnt (snd (rescheduled ?k)) = (s_cnt k1)(mb_fullsem mb := 1)" using k1(7) by (simp add: rescheduled_def)
  have st: "mb_holds (mb_store m ?mb) [m]" using mbox.put_holds [of ?mb "[]" m] k1(3) top by (simp add: mb_ok_def)
  have "\<exists>out. chMBPostS_k m MSG_OK ?mb k1 = Some (out, mb_store m ?mb, snd (rescheduled ?k))"
    using sg chSchRescheduleS_eq [OF K] by (cases "resched_ok ?k") (simp_all add: chMBPostS_k_def Let_def rescheduled_def)
  then show ?thesis using k1 cnt st ne by auto
qed

theorem chMBReset_overbooks_witness:
  "\<exists>mb2 k1 out k2. chMBResetI mb1 (set_cnt 2 1 sys_mb) = Some (mb2, k1) \<and>
     chMBPostS_k 9 MSG_OK mb2 k1 = Some (out, mb_store 9 mb2, k2) \<and> s_cnt k2 2 = 3 \<and> s_cnt k2 1 = 1"
proof -
  let ?k = "set_cnt 2 1 sys_mb"
  have "kernel_ok ?k" "class_S ?k" "cnts_fit ?k" "mb_ok mb1 ?k [5] (Suc 0) 0"
    using kernel_ok_sem_take [OF sys_mb_facts(1), of 2] sys_mb_facts(3,4) cnts_fit_take [OF sys_mb_facts(4), of 2]
      mb_grant_place [OF sys_mb_facts(5)]
    by (simp_all add: sys_mb_def mb1_def)
  then show ?thesis using chMBReset_overbooks [of ?k mb1 "[5]" 0 0 9] by (auto simp: mb1_def)
qed

end
