(* ===== verification/ChIOQueues.thy ===== *)
theory ChIOQueues
  imports ChThreads ChRing
begin

text \<open>
  I/O queues, \<open>chqueues.c\<close> and \<open>chqueues.h\<close>: byte queues between an interrupt handler and threads.
  The buffer from \<open>q_buffer\<close> to \<open>q_top\<close> is the list \<open>q_data\<close> and the pointers are distances from its
  base; \<open>q_waiting\<close> is the number of the thread queue. The notification callback is driver code: it
  is the parameter \<open>nfy\<close>, \<open>None\<close> for a null pointer, otherwise its effect on queue and kernel.
  The link pointer is never read by this code and has no counterpart.

  The loops of the blocking operations may wait again after each wake-up; they are partial functions,
  and what runs when a sleeping thread is woken has the suffix \<open>_resume\<close>.
\<close>

record io_queue =
  q_waiting :: nat
  q_counter :: nat
  q_data :: "8 word list"
  q_wrptr :: nat
  q_rdptr :: nat

type_synonym qnotify_t = "(io_queue \<Rightarrow> ch_system \<Rightarrow> (io_queue \<times> ch_system) option) option"

definition Q_EMPTY :: msg_t where "Q_EMPTY = -3"
definition Q_FULL :: msg_t where "Q_FULL = -4"

abbreviation q_top :: "io_queue \<Rightarrow> nat" where
  "q_top q \<equiv> length (q_data q)"

definition notify :: "qnotify_t \<Rightarrow> io_queue \<Rightarrow> ch_system \<Rightarrow> (io_queue \<times> ch_system) option" where
  "notify nfy q k = (case nfy of None \<Rightarrow> Some (q, k) | Some f \<Rightarrow> f q k)"

subsection \<open>Status\<close>

definition chQSizeX :: "io_queue \<Rightarrow> nat" where
  "chQSizeX q = q_top q"

definition chQSpaceI :: "io_queue \<Rightarrow> nat" where
  "chQSpaceI q = q_counter q"

definition chIQGetFullI :: "io_queue \<Rightarrow> ch_system \<Rightarrow> nat option" where
  "chIQGetFullI q k = do { chDbgCheckClassI k; Some (chQSpaceI q) }"

definition chIQGetEmptyI :: "io_queue \<Rightarrow> ch_system \<Rightarrow> nat option" where
  "chIQGetEmptyI q k = do { chDbgCheckClassI k; Some (chQSizeX q - chQSpaceI q) }"

definition chIQIsEmptyI :: "io_queue \<Rightarrow> ch_system \<Rightarrow> bool option" where
  "chIQIsEmptyI q k = do { chDbgCheckClassI k; Some (chQSpaceI q = 0) }"

definition chIQIsFullI :: "io_queue \<Rightarrow> ch_system \<Rightarrow> bool option" where
  "chIQIsFullI q k = do { chDbgCheckClassI k; Some (q_wrptr q = q_rdptr q \<and> q_counter q \<noteq> 0) }"

definition chOQGetFullI :: "io_queue \<Rightarrow> ch_system \<Rightarrow> nat option" where
  "chOQGetFullI q k = do { chDbgCheckClassI k; Some (chQSizeX q - chQSpaceI q) }"

definition chOQGetEmptyI :: "io_queue \<Rightarrow> ch_system \<Rightarrow> nat option" where
  "chOQGetEmptyI q k = do { chDbgCheckClassI k; Some (chQSpaceI q) }"

definition chOQIsEmptyI :: "io_queue \<Rightarrow> ch_system \<Rightarrow> bool option" where
  "chOQIsEmptyI q k = do { chDbgCheckClassI k; Some (q_wrptr q = q_rdptr q \<and> q_counter q \<noteq> 0) }"

definition chOQIsFullI :: "io_queue \<Rightarrow> ch_system \<Rightarrow> bool option" where
  "chOQIsFullI q k = do { chDbgCheckClassI k; Some (chQSpaceI q = 0) }"

subsection \<open>The buffer\<close>

text \<open>\<open>*q_wrptr++ = b\<close> and \<open>*q_rdptr++\<close> with their wrap-around.\<close>

definition q_store :: "8 word \<Rightarrow> io_queue \<Rightarrow> io_queue" where
  "q_store b q =
     (let q = q\<lparr>q_data := (q_data q)[q_wrptr q := b], q_wrptr := q_wrptr q + 1\<rparr>
      in if q_wrptr q \<ge> q_top q then q\<lparr>q_wrptr := 0\<rparr> else q)"

definition q_load :: "io_queue \<Rightarrow> 8 word \<times> io_queue" where
  "q_load q =
     (let b = q_data q ! q_rdptr q;
          q = q\<lparr>q_rdptr := q_rdptr q + 1\<rparr>
      in (b, if q_rdptr q \<ge> q_top q then q\<lparr>q_rdptr := 0\<rparr> else q))"

subsection \<open>Input queues\<close>

definition chIQObjectInit :: "nat \<Rightarrow> 8 word list \<Rightarrow> ch_system \<Rightarrow> io_queue \<times> ch_system" where
  "chIQObjectInit tq buf k =
     (\<lparr>q_waiting = tq, q_counter = 0, q_data = buf, q_wrptr = 0, q_rdptr = 0\<rparr>, chThdQueueObjectInit tq k)"

definition chIQResetI :: "io_queue \<Rightarrow> ch_system \<Rightarrow> (io_queue \<times> ch_system) option" where
  "chIQResetI q k =
     do { chDbgCheckClassI k;
          let q = q\<lparr>q_rdptr := 0, q_wrptr := 0, q_counter := 0\<rparr>;
          k \<leftarrow> chThdDequeueAllI (q_waiting q) MSG_RESET k;
          Some (q, k) }"

definition chIQPutI :: "8 word \<Rightarrow> io_queue \<Rightarrow> ch_system \<Rightarrow> (msg_t \<times> io_queue \<times> ch_system) option" where
  "chIQPutI b q k =
     do { chDbgCheckClassI k;
          full \<leftarrow> chIQIsFullI q k;
          if full then Some (Q_FULL, q, k)
          else do { let q = q\<lparr>q_counter := q_counter q + 1\<rparr>;
                    let q = q_store b q;
                    k \<leftarrow> chThdDequeueNextI (q_waiting q) MSG_OK k;
                    Some (MSG_OK, q, k) } }"

text \<open>The \<open>while\<close> loop of \<open>chIQGetTimeout\<close> and what follows it.\<close>

partial_function (option) iq_get_loop ::
  "systime_t \<Rightarrow> io_queue \<Rightarrow> ch_system \<Rightarrow> (msg_t outcome \<times> io_queue \<times> ch_system) option" where
  "iq_get_loop timeout q k =
     do { e \<leftarrow> chIQIsEmptyI q k;
          if e
          then do { r \<leftarrow> chThdEnqueueTimeoutS (q_waiting q) timeout k;
                    case r of
                      (Switched, k) \<Rightarrow> Some (Switched, q, k)
                    | (Done msg, k) \<Rightarrow>
                        if msg < MSG_OK then do { k \<leftarrow> chSysUnlock k; Some (Done msg, q, k) }
                        else iq_get_loop timeout q k }
          else do { let q = q\<lparr>q_counter := q_counter q - 1\<rparr>;
                    let (b, q) = q_load q;
                    k \<leftarrow> chSysUnlock k;
                    Some (Done (uint b), q, k) } }"

definition chIQGetTimeout ::
  "qnotify_t \<Rightarrow> systime_t \<Rightarrow> io_queue \<Rightarrow> ch_system \<Rightarrow> (msg_t outcome \<times> io_queue \<times> ch_system) option" where
  "chIQGetTimeout nfy timeout q k =
     do { k \<leftarrow> chSysLock k;
          (q, k) \<leftarrow> notify nfy q k;
          iq_get_loop timeout q k }"

definition chIQGetTimeout_resume ::
  "systime_t \<Rightarrow> io_queue \<Rightarrow> ch_system \<Rightarrow> (msg_t outcome \<times> io_queue \<times> ch_system) option" where
  "chIQGetTimeout_resume timeout q k =
     do { (msg, k) \<leftarrow> chSchGoSleepTimeoutS_resume timeout k;
          if msg < MSG_OK then do { k \<leftarrow> chSysUnlock k; Some (Done msg, q, k) }
          else iq_get_loop timeout q k }"

definition chIQGet :: "qnotify_t \<Rightarrow> io_queue \<Rightarrow> ch_system \<Rightarrow> (msg_t outcome \<times> io_queue \<times> ch_system) option" where
  "chIQGet nfy q k = chIQGetTimeout nfy TIME_INFINITE q k"

text \<open>
  The loop of \<open>chIQReadTimeout\<close>: \<open>n\<close> bytes are still wanted, \<open>acc\<close> are read; \<open>head\<close> says whether the
  outer loop starts again, with its notification.
\<close>

partial_function (option) iq_read_loop ::
  "qnotify_t \<Rightarrow> systime_t \<Rightarrow> bool \<Rightarrow> nat \<Rightarrow> 8 word list \<Rightarrow> io_queue \<Rightarrow> ch_system \<Rightarrow>
   (8 word list outcome \<times> io_queue \<times> ch_system) option" where
  "iq_read_loop nfy timeout head n acc q k =
     do { (q, k) \<leftarrow> (if head then notify nfy q k else Some (q, k));
          e \<leftarrow> chIQIsEmptyI q k;
          if e
          then do { r \<leftarrow> chThdEnqueueTimeoutS (q_waiting q) timeout k;
                    case r of
                      (Switched, k) \<Rightarrow> Some (Switched, q, k)
                    | (Done msg, k) \<Rightarrow>
                        if msg \<noteq> MSG_OK then do { k \<leftarrow> chSysUnlock k; Some (Done acc, q, k) }
                        else iq_read_loop nfy timeout False n acc q k }
          else do { let q = q\<lparr>q_counter := q_counter q - 1\<rparr>;
                    let (b, q) = q_load q;
                    k \<leftarrow> chSysUnlock k;
                    if n - 1 = 0 then Some (Done (acc @ [b]), q, k)
                    else do { k \<leftarrow> chSysLock k;
                              iq_read_loop nfy timeout True (n - 1) (acc @ [b]) q k } } }"

definition chIQReadTimeout ::
  "qnotify_t \<Rightarrow> nat \<Rightarrow> systime_t \<Rightarrow> io_queue \<Rightarrow> ch_system \<Rightarrow> (8 word list outcome \<times> io_queue \<times> ch_system) option" where
  "chIQReadTimeout nfy n timeout q k =
     do { assert_that (n > 0); k \<leftarrow> chSysLock k; iq_read_loop nfy timeout True n [] q k }"

definition chIQReadTimeout_resume ::
  "qnotify_t \<Rightarrow> systime_t \<Rightarrow> nat \<Rightarrow> 8 word list \<Rightarrow> io_queue \<Rightarrow> ch_system \<Rightarrow>
   (8 word list outcome \<times> io_queue \<times> ch_system) option" where
  "chIQReadTimeout_resume nfy timeout n acc q k =
     do { (msg, k) \<leftarrow> chSchGoSleepTimeoutS_resume timeout k;
          if msg \<noteq> MSG_OK then do { k \<leftarrow> chSysUnlock k; Some (Done acc, q, k) }
          else iq_read_loop nfy timeout False n acc q k }"

subsection \<open>Output queues\<close>

definition chOQObjectInit :: "nat \<Rightarrow> 8 word list \<Rightarrow> ch_system \<Rightarrow> io_queue \<times> ch_system" where
  "chOQObjectInit tq buf k =
     (\<lparr>q_waiting = tq, q_counter = length buf, q_data = buf, q_wrptr = 0, q_rdptr = 0\<rparr>, chThdQueueObjectInit tq k)"

definition chOQResetI :: "io_queue \<Rightarrow> ch_system \<Rightarrow> (io_queue \<times> ch_system) option" where
  "chOQResetI q k =
     do { chDbgCheckClassI k;
          let q = q\<lparr>q_rdptr := 0, q_wrptr := 0, q_counter := chQSizeX q\<rparr>;
          k \<leftarrow> chThdDequeueAllI (q_waiting q) MSG_RESET k;
          Some (q, k) }"

partial_function (option) oq_put_loop ::
  "qnotify_t \<Rightarrow> 8 word \<Rightarrow> systime_t \<Rightarrow> io_queue \<Rightarrow> ch_system \<Rightarrow> (msg_t outcome \<times> io_queue \<times> ch_system) option" where
  "oq_put_loop nfy b timeout q k =
     do { f \<leftarrow> chOQIsFullI q k;
          if f
          then do { r \<leftarrow> chThdEnqueueTimeoutS (q_waiting q) timeout k;
                    case r of
                      (Switched, k) \<Rightarrow> Some (Switched, q, k)
                    | (Done msg, k) \<Rightarrow>
                        if msg < MSG_OK then do { k \<leftarrow> chSysUnlock k; Some (Done msg, q, k) }
                        else oq_put_loop nfy b timeout q k }
          else do { let q = q\<lparr>q_counter := q_counter q - 1\<rparr>;
                    let q = q_store b q;
                    (q, k) \<leftarrow> notify nfy q k;
                    k \<leftarrow> chSysUnlock k;
                    Some (Done MSG_OK, q, k) } }"

definition chOQPutTimeout ::
  "qnotify_t \<Rightarrow> 8 word \<Rightarrow> systime_t \<Rightarrow> io_queue \<Rightarrow> ch_system \<Rightarrow> (msg_t outcome \<times> io_queue \<times> ch_system) option" where
  "chOQPutTimeout nfy b timeout q k = do { k \<leftarrow> chSysLock k; oq_put_loop nfy b timeout q k }"

definition chOQPutTimeout_resume ::
  "qnotify_t \<Rightarrow> 8 word \<Rightarrow> systime_t \<Rightarrow> io_queue \<Rightarrow> ch_system \<Rightarrow> (msg_t outcome \<times> io_queue \<times> ch_system) option" where
  "chOQPutTimeout_resume nfy b timeout q k =
     do { (msg, k) \<leftarrow> chSchGoSleepTimeoutS_resume timeout k;
          if msg < MSG_OK then do { k \<leftarrow> chSysUnlock k; Some (Done msg, q, k) }
          else oq_put_loop nfy b timeout q k }"

definition chOQPut :: "qnotify_t \<Rightarrow> 8 word \<Rightarrow> io_queue \<Rightarrow> ch_system \<Rightarrow> (msg_t outcome \<times> io_queue \<times> ch_system) option" where
  "chOQPut nfy b q k = chOQPutTimeout nfy b TIME_INFINITE q k"

definition chOQGetI :: "io_queue \<Rightarrow> ch_system \<Rightarrow> (msg_t \<times> io_queue \<times> ch_system) option" where
  "chOQGetI q k =
     do { chDbgCheckClassI k;
          e \<leftarrow> chOQIsEmptyI q k;
          if e then Some (Q_EMPTY, q, k)
          else do { let q = q\<lparr>q_counter := q_counter q + 1\<rparr>;
                    let (b, q) = q_load q;
                    k \<leftarrow> chThdDequeueNextI (q_waiting q) MSG_OK k;
                    Some (uint b, q, k) } }"

text \<open>The loop of \<open>chOQWriteTimeout\<close>: \<open>bp\<close> is still to be written, \<open>w\<close> bytes are.\<close>

partial_function (option) oq_write_loop ::
  "qnotify_t \<Rightarrow> systime_t \<Rightarrow> 8 word list \<Rightarrow> nat \<Rightarrow> io_queue \<Rightarrow> ch_system \<Rightarrow>
   (nat outcome \<times> io_queue \<times> ch_system) option" where
  "oq_write_loop nfy timeout bp w q k =
     do { f \<leftarrow> chOQIsFullI q k;
          if f
          then do { r \<leftarrow> chThdEnqueueTimeoutS (q_waiting q) timeout k;
                    case r of
                      (Switched, k) \<Rightarrow> Some (Switched, q, k)
                    | (Done msg, k) \<Rightarrow>
                        if msg \<noteq> MSG_OK then do { k \<leftarrow> chSysUnlock k; Some (Done w, q, k) }
                        else oq_write_loop nfy timeout bp w q k }
          else do { let q = q\<lparr>q_counter := q_counter q - 1\<rparr>;
                    let q = q_store (hd bp) q;
                    (q, k) \<leftarrow> notify nfy q k;
                    k \<leftarrow> chSysUnlock k;
                    if tl bp = [] then Some (Done (w + 1), q, k)
                    else do { k \<leftarrow> chSysLock k; oq_write_loop nfy timeout (tl bp) (w + 1) q k } } }"

definition chOQWriteTimeout ::
  "qnotify_t \<Rightarrow> 8 word list \<Rightarrow> systime_t \<Rightarrow> io_queue \<Rightarrow> ch_system \<Rightarrow> (nat outcome \<times> io_queue \<times> ch_system) option" where
  "chOQWriteTimeout nfy bp timeout q k =
     do { assert_that (bp \<noteq> []); k \<leftarrow> chSysLock k; oq_write_loop nfy timeout bp 0 q k }"

definition chOQWriteTimeout_resume ::
  "qnotify_t \<Rightarrow> systime_t \<Rightarrow> 8 word list \<Rightarrow> nat \<Rightarrow> io_queue \<Rightarrow> ch_system \<Rightarrow>
   (nat outcome \<times> io_queue \<times> ch_system) option" where
  "chOQWriteTimeout_resume nfy timeout bp w q k =
     do { (msg, k) \<leftarrow> chSchGoSleepTimeoutS_resume timeout k;
          if msg \<noteq> MSG_OK then do { k \<leftarrow> chSysUnlock k; Some (Done w, q, k) }
          else oq_write_loop nfy timeout bp w q k }"

subsection \<open>The buffer is a bounded queue\<close>

definition q_holds :: "io_queue \<Rightarrow> 8 word list \<Rightarrow> bool" where
  "q_holds q xs \<longleftrightarrow> ring_ok (q_data q) (q_rdptr q) (q_wrptr q) xs"

lemma q_store_ring:
  "q_store b q = q\<lparr>q_data := (q_data q)[q_wrptr q := b], q_wrptr := ring_next (q_top q) (q_wrptr q)\<rparr>"
  by (simp add: q_store_def ring_next_def Let_def)

lemma q_load_ring: "q_load q = (q_data q ! q_rdptr q, q\<lparr>q_rdptr := ring_next (q_top q) (q_rdptr q)\<rparr>)"
  by (simp add: q_load_def ring_next_def Let_def)

interpretation ioq: fifo_buffer q_store q_load q_holds q_top
proof unfold_locales
  fix s xs a
  assume "q_holds s xs" "length xs < q_top s"
  then show "q_holds (q_store a s) (xs @ [a])" by (simp add: q_holds_def q_store_ring ring_put)
next
  fix s x xs
  assume "q_holds s (x # xs)"
  then show "fst (q_load s) = x \<and> q_holds (snd (q_load s)) xs"
    using ring_get [of "q_data s" "q_rdptr s" "q_wrptr s" x xs] by (simp add: q_holds_def q_load_ring)
qed (simp_all add: q_store_ring q_load_ring)

text \<open>An input queue counts its bytes, an output queue its free places.\<close>

definition iq_ok :: "io_queue \<Rightarrow> 8 word list \<Rightarrow> bool" where
  "iq_ok q xs \<longleftrightarrow> q_holds q xs \<and> q_counter q = length xs"

definition oq_ok :: "io_queue \<Rightarrow> 8 word list \<Rightarrow> bool" where
  "oq_ok q xs \<longleftrightarrow> q_holds q xs \<and> q_counter q + length xs = q_top q"

lemma q_holds_counter [simp]: "q_holds (q\<lparr>q_counter := n\<rparr>) xs = q_holds q xs"
  by (simp add: q_holds_def)

lemma q_fields [simp]:
  "q_waiting (q_store b q) = q_waiting q" "q_counter (q_store b q) = q_counter q"
  "q_waiting (snd (q_load q)) = q_waiting q" "q_counter (snd (q_load q)) = q_counter q"
  "q_top (q_store b q) = q_top q" "q_top (snd (q_load q)) = q_top q"
  by (simp_all add: q_store_ring q_load_ring)

lemma q_full: "q_holds q xs \<Longrightarrow> (q_wrptr q = q_rdptr q \<longleftrightarrow> xs = [] \<or> length xs = q_top q) \<and> 0 < q_top q"
  using ring_pointers_meet [of "q_data q" "q_rdptr q" "q_wrptr q" xs]
    ring_pointers_apart [of "q_data q" "q_rdptr q" "q_wrptr q" xs] ring_okD(6)
  by (auto simp: q_holds_def)

lemma iq_put:
  assumes "iq_ok q xs" "length xs < q_top q"
  shows "iq_ok (q_store b (q\<lparr>q_counter := q_counter q + 1\<rparr>)) (xs @ [b])"
  using assms ioq.put_holds [of "q\<lparr>q_counter := q_counter q + 1\<rparr>" xs b] by (simp add: iq_ok_def)

lemma iq_get:
  assumes "iq_ok q (x # xs)"
  shows "fst (q_load (q\<lparr>q_counter := q_counter q - 1\<rparr>)) = x" "iq_ok (snd (q_load (q\<lparr>q_counter := q_counter q - 1\<rparr>))) xs"
  using assms ioq.get_holds [of "q\<lparr>q_counter := q_counter q - 1\<rparr>" x xs] by (auto simp: iq_ok_def)

lemma oq_put:
  assumes "oq_ok q xs" "0 < q_counter q"
  shows "oq_ok (q_store b (q\<lparr>q_counter := q_counter q - 1\<rparr>)) (xs @ [b])"
  using assms ioq.put_holds [of "q\<lparr>q_counter := q_counter q - 1\<rparr>" xs b] by (auto simp: oq_ok_def)

lemma oq_get:
  assumes "oq_ok q (x # xs)"
  shows "fst (q_load (q\<lparr>q_counter := q_counter q + 1\<rparr>)) = x" "oq_ok (snd (q_load (q\<lparr>q_counter := q_counter q + 1\<rparr>))) xs"
  using assms ioq.get_holds [of "q\<lparr>q_counter := q_counter q + 1\<rparr>" x xs] by (auto simp: oq_ok_def)

subsection \<open>The interrupt side\<close>

text \<open>The thread that has waited longest is woken with \<open>Q_OK\<close>, if there is one.\<close>

definition next_woken :: "nat \<Rightarrow> ch_system \<Rightarrow> ch_system" where
  "next_woken tq k = (case queues k (Q_THD tq) of [] \<Rightarrow> k | t # ts \<Rightarrow> woken t MSG_OK k)"

lemma chThdDequeueNextI_eq:
  assumes "kernel_ok k" "class_I k"
  shows "chThdDequeueNextI tq MSG_OK k = Some (next_woken tq k)" "kernel_ok (next_woken tq k)"
  using assms chThdDoDequeueNextI_eq [OF assms, of tq _ _ MSG_OK]
  by (auto simp: chThdDequeueNextI_def next_woken_def queue_notempty_def split: list.splits)

lemma chIQPutI_ok:
  assumes "kernel_ok k" "class_I k" "iq_ok q xs"
  shows "if length xs = q_top q then chIQPutI b q k = Some (Q_FULL, q, k)
    else \<exists>q'. chIQPutI b q k = Some (MSG_OK, q', next_woken (q_waiting q) k) \<and> iq_ok q' (xs @ [b]) \<and> q_top q' = q_top q \<and>
      q_waiting q' = q_waiting q"
proof -
  have f: "(q_wrptr q = q_rdptr q \<and> q_counter q \<noteq> 0) \<longleftrightarrow> length xs = q_top q" "length xs \<le> q_top q"
    using assms(3) q_full [of q xs] ring_okD(3) by (auto simp: iq_ok_def q_holds_def)
  then show ?thesis using iq_put [OF assms(3)] chThdDequeueNextI_eq(1) [OF assms(1,2), of "q_waiting q"] assms(2)
    by (cases "length xs = q_top q") (auto simp: chIQPutI_def chIQIsFullI_def Let_def)
qed

lemma chOQGetI_ok:
  assumes "kernel_ok k" "class_I k" "oq_ok q xs"
  shows "case xs of [] \<Rightarrow> chOQGetI q k = Some (Q_EMPTY, q, k)
    | x # xs' \<Rightarrow> \<exists>q'. chOQGetI q k = Some (uint x, q', next_woken (q_waiting q) k) \<and> oq_ok q' xs'"
proof -
  have f: "(q_wrptr q = q_rdptr q \<and> q_counter q \<noteq> 0) \<longleftrightarrow> xs = []"
    using assms(3) q_full [of q xs] by (auto simp: oq_ok_def)
  show ?thesis
  proof (cases xs)
    case Nil
    then show ?thesis using f assms(2) by (simp add: chOQGetI_def chOQIsEmptyI_def)
  next
    case (Cons x xs')
    then have "fst (q_load (q\<lparr>q_counter := q_counter q + 1\<rparr>)) = x" "oq_ok (snd (q_load (q\<lparr>q_counter := q_counter q + 1\<rparr>))) xs'"
      using assms(3) oq_get by auto
    then show ?thesis using f chThdDequeueNextI_eq(1) [OF assms(1,2), of "q_waiting q"] assms(2) Cons
      by (auto simp: chOQGetI_def chOQIsEmptyI_def Let_def split_beta)
  qed
qed

text \<open>
  The interrupt side of the I/O queues. Putting a byte into an input queue appends it unless
  the queue is full; getting a byte from an output queue removes and returns the oldest unless it
  is empty; full and empty are reported and change nothing. In each successful case the thread
  that has waited longest on the queue, if any, becomes ready with \<open>Q_OK\<close>, and the kernel
  invariant holds.
\<close>

theorem ioq_isr_side:
  assumes ok: "kernel_ok k" and cl: "class_I k"
  shows "(iq_ok q xs \<longrightarrow>
            (if length xs = q_top q then chIQPutI b q k = Some (Q_FULL, q, k)
             else \<exists>q'. chIQPutI b q k = Some (MSG_OK, q', next_woken (q_waiting q) k) \<and> iq_ok q' (xs @ [b]))) \<and>
         (oq_ok q xs \<longrightarrow>
            (case xs of [] \<Rightarrow> chOQGetI q k = Some (Q_EMPTY, q, k)
             | x # xs' \<Rightarrow> \<exists>q'. chOQGetI q k = Some (uint x, q', next_woken (q_waiting q) k) \<and> oq_ok q' xs')) \<and>
         kernel_ok (next_woken (q_waiting q) k)"
  using chIQPutI_ok [OF ok cl, of q xs b] chOQGetI_ok [OF ok cl, of q xs] chThdDequeueNextI_eq(2) [OF ok cl, of "q_waiting q"]
  by (auto split: list.splits if_splits)

text \<open>A queue of two bytes that holds one, thread queue 3.\<close>

definition iq1 :: io_queue where
  "iq1 = \<lparr>q_waiting = 3, q_counter = 1, q_data = [65, 0], q_wrptr = 1, q_rdptr = 0\<rparr>"

lemma iq1_ok: "iq_ok iq1 [65]" "oq_ok iq1 [65]"
  by (simp_all add: iq_ok_def oq_ok_def q_holds_def ring_ok_def iq1_def)

theorem ioq_isr_side_witness:
  "\<exists>q' k'. chIQPutI 66 iq1 sys_queued = Some (MSG_OK, q', k') \<and> kernel_ok k' \<and> iq_ok q' [65, 66] \<and>
     state_of k' 0 = CH_STATE_READY"
proof -
  have "q_top iq1 = 2" "q_waiting iq1 = 3" by (simp_all add: iq1_def)
  moreover have "state_of (next_woken 3 sys_queued) 0 = CH_STATE_READY"
    using sys_queued_facts(3) by (simp add: next_woken_def)
  ultimately show ?thesis
    using ioq_isr_side [OF sys_queued_facts(1,2), of iq1 "[65]" 66] iq1_ok by auto
qed

subsection \<open>The thread side\<close>

lemma iq_get_nonempty:
  assumes "iq_ok q (x # xs)" "class_S k" "resched_ok k"
  shows "\<exists>q'. iq_get_loop time q k = Some (Done (uint x), q', k\<lparr>lock_cnt := 0\<rparr>) \<and> iq_ok q' xs"
proof -
  have "q_counter q \<noteq> 0" using assms(1) by (simp add: iq_ok_def)
  then show ?thesis
    using iq_get [OF assms(1)] chSysUnlock_resched [OF assms(2,3)] assms(2)
    by (subst iq_get_loop.simps) (simp add: chIQIsEmptyI_def chQSpaceI_def class_S_I Let_def split_beta)
qed

text \<open>
  Reading a byte from an input queue. The notification callback, if there is one, has to return
  with the queue and the kernel consistent inside the critical zone; \<open>xs\<close> is what the queue holds
  then. If \<open>xs\<close> is not empty its first byte is removed and returned. If it is empty, an immediate
  time-out returns \<open>Q_TIMEOUT\<close>, and any other puts the caller last in the queue's waiting list
  while a highest-priority thread runs.
\<close>

theorem chIQGetTimeout_outcomes:
  assumes th: "class_thread k" and nf: "notify nfy q (k\<lparr>lock_cnt := 1\<rparr>) = Some (q1, k1)"
    and ok: "kernel_ok k1" "class_S k1" "resched_ok k1" "iq_ok q1 xs"
    and sl: "xs = [] \<Longrightarrow> time \<noteq> TIME_IMMEDIATE \<Longrightarrow> can_sleep time k1"
  shows "case xs of
           x # xs' \<Rightarrow> \<exists>q'. chIQGetTimeout nfy time q k = Some (Done (uint x), q', k1\<lparr>lock_cnt := 0\<rparr>) \<and> iq_ok q' xs'
         | [] \<Rightarrow> (if time = TIME_IMMEDIATE
                  then chIQGetTimeout nfy time q k = Some (Done MSG_TIMEOUT, q1, k1\<lparr>lock_cnt := 0\<rparr>)
                  else \<exists>k'. chIQGetTimeout nfy time q k = Some (Switched, q1, k') \<and> kernel_ok k' \<and> resched_ok k' \<and>
                         queues k' (Q_THD (q_waiting q1)) = queues k1 (Q_THD (q_waiting q1)) @ [r_current k1])"
proof -
  have call: "chIQGetTimeout nfy time q k = iq_get_loop time q1 k1"
    using chSysLock_ok [OF th] nf by (simp add: chIQGetTimeout_def)
  show ?thesis
  proof (cases xs)
    case (Cons x xs')
    then show ?thesis using iq_get_nonempty [of q1 x xs' k1 time] ok by (simp add: call)
  next
    case Nil
    then have e: "chIQIsEmptyI q1 k1 = Some True" using ok by (simp add: iq_ok_def chIQIsEmptyI_def chQSpaceI_def class_S_I)
    show ?thesis
    proof (cases "time = TIME_IMMEDIATE")
      case True
      then show ?thesis using e Nil chSysUnlock_resched [OF ok(2,3)] unfolding call
        by (subst iq_get_loop.simps) (simp add: chThdEnqueueTimeoutS_def)
    next
      case False
      obtain k' where k': "chThdEnqueueTimeoutS (q_waiting q1) time k1 = Some (Switched, k')" "kernel_ok k'"
          "queues k' (Q_THD (q_waiting q1)) = queues k1 (Q_THD (q_waiting q1)) @ [r_current k1]" "resched_ok k'"
        using chThdEnqueueTimeoutS_ok [OF ok(1) sl [OF Nil False]] by blast
      have "iq_get_loop time q1 k1 = Some (Switched, q1, k')" using e k'(1) by (subst iq_get_loop.simps) simp
      then show ?thesis using k' False Nil by (simp add: call)
    qed
  qed
qed

theorem chIQGetTimeout_outcomes_witness:
  "\<exists>q'. chIQGetTimeout None 100 iq1 sys0 = Some (Done 65, q', sys0) \<and> iq_ok q' []"
proof -
  let ?k = "sys0\<lparr>lock_cnt := 1\<rparr>"
  have "kernel_ok ?k" "class_S ?k" "resched_ok ?k" "notify None iq1 ?k = Some (iq1, ?k)" "?k\<lparr>lock_cnt := 0\<rparr> = sys0"
    using sys0_kernel_ok sys0_facts by (simp_all add: class_S_def class_thread_def notify_def)
  then show ?thesis
    using chIQGetTimeout_outcomes [OF sys0_facts(1), of None iq1 iq1 ?k "[65]" 100] iq1_ok(1) by simp
qed

subsection \<open>Block transfers\<close>

text \<open>
  Between two bytes the block operations leave the critical zone and enter it again, at the same
  place: as long as nobody interferes, the kernel state comes back unchanged.
\<close>

lemma relock:
  assumes "class_S k" "resched_ok k"
  shows "do { k \<leftarrow> chSysUnlock k; chSysLock k } = Some k" "chSysUnlock k = Some (k\<lparr>lock_cnt := 0\<rparr>)"
    "chSysLock (k\<lparr>lock_cnt := 0\<rparr>) = Some k"
  using chSysUnlock_resched [OF assms] chSysLock_ok [of "k\<lparr>lock_cnt := 0\<rparr>"] assms(1)
  by (simp_all add: class_S_def class_thread_def)

lemma iq_read_loop_ok:
  assumes k: "class_S k" "resched_ok k"
  shows "0 < n \<Longrightarrow> n \<le> length xs \<or> time = TIME_IMMEDIATE \<Longrightarrow> iq_ok q xs \<Longrightarrow>
     \<exists>q'. iq_read_loop None time True n acc q k = Some (Done (acc @ take n xs), q', k\<lparr>lock_cnt := 0\<rparr>) \<and> iq_ok q' (drop n xs)"
proof (induction xs arbitrary: n acc q)
  case Nil
  then have "q_counter q = 0" "time = TIME_IMMEDIATE" by (auto simp: iq_ok_def)
  then have "iq_read_loop None time True n acc q k = Some (Done acc, q, k\<lparr>lock_cnt := 0\<rparr>)"
    using k(1) relock(2) [OF k]
    by (subst iq_read_loop.simps)
      (simp add: notify_def chIQIsEmptyI_def chQSpaceI_def class_S_I chThdEnqueueTimeoutS_def)
  then show ?case using Nil by simp
next
  case (Cons x xs)
  let ?q = "snd (q_load (q\<lparr>q_counter := q_counter q - 1\<rparr>))"
  note g = iq_get [OF Cons.prems(3)]
  have "q_counter q \<noteq> 0" using Cons.prems(3) by (simp add: iq_ok_def)
  then have step: "iq_read_loop None time True n acc q k =
      (if n = 1 then Some (Done (acc @ [x]), ?q, k\<lparr>lock_cnt := 0\<rparr>)
       else iq_read_loop None time True (n - 1) (acc @ [x]) ?q k)"
    using k(1) relock(2,3) [OF k] g(1) Cons.prems(1)
    by (subst iq_read_loop.simps)
      (auto simp: notify_def chIQIsEmptyI_def chQSpaceI_def class_S_I Let_def split_beta)
  show ?case
  proof (cases "n = 1")
    case True
    then show ?thesis using step g(2) by simp
  next
    case False
    then have "0 < n - 1" "n - 1 \<le> length xs \<or> time = TIME_IMMEDIATE" using Cons.prems by auto
    then obtain q' where "iq_read_loop None time True (n - 1) (acc @ [x]) ?q k =
        Some (Done ((acc @ [x]) @ take (n - 1) xs), q', k\<lparr>lock_cnt := 0\<rparr>)" "iq_ok q' (drop (n - 1) xs)"
      using Cons.IH g(2) by blast
    then show ?thesis using step False Cons.prems(1) by (cases n) auto
  qed
qed

lemma oq_write_loop_ok:
  assumes k: "class_S k" "resched_ok k"
  shows "bs \<noteq> [] \<Longrightarrow> length bs \<le> q_counter q \<or> time = TIME_IMMEDIATE \<Longrightarrow> oq_ok q xs \<Longrightarrow>
     \<exists>q'. oq_write_loop None time bs w q k =
            Some (Done (w + min (length bs) (q_counter q)), q', k\<lparr>lock_cnt := 0\<rparr>) \<and> oq_ok q' (xs @ take (q_counter q) bs)"
proof (induction bs arbitrary: w q xs)
  case (Cons b bs)
  show ?case
  proof (cases "q_counter q = 0")
    case True
    then have "time = TIME_IMMEDIATE" using Cons.prems(2) by auto
    then have "oq_write_loop None time (b # bs) w q k = Some (Done w, q, k\<lparr>lock_cnt := 0\<rparr>)"
      using k(1) relock(2) [OF k] True
      by (subst oq_write_loop.simps) (simp add: chOQIsFullI_def chQSpaceI_def class_S_I chThdEnqueueTimeoutS_def)
    then show ?thesis using Cons.prems True by simp
  next
    case False
    let ?q = "q_store b (q\<lparr>q_counter := q_counter q - 1\<rparr>)"
    have o: "oq_ok ?q (xs @ [b])" using oq_put [OF Cons.prems(3)] False by simp
    have step: "oq_write_loop None time (b # bs) w q k =
        (if bs = [] then Some (Done (w + 1), ?q, k\<lparr>lock_cnt := 0\<rparr>) else oq_write_loop None time bs (w + 1) ?q k)"
      using k(1) relock(2,3) [OF k] False
      by (subst oq_write_loop.simps) (auto simp: chOQIsFullI_def chQSpaceI_def class_S_I notify_def Let_def)
    show ?thesis
    proof (cases "bs = []")
      case True
      then show ?thesis using step o False by simp
    next
      case ne: False
      have "length bs \<le> q_counter ?q \<or> time = TIME_IMMEDIATE" using Cons.prems(2) by auto
      then obtain q' where "oq_write_loop None time bs (w + 1) ?q k =
            Some (Done (w + 1 + min (length bs) (q_counter ?q)), q', k\<lparr>lock_cnt := 0\<rparr>)"
          "oq_ok q' ((xs @ [b]) @ take (q_counter ?q) bs)"
        using Cons.IH [OF ne _ o] by blast
      then show ?thesis using step ne False by (cases "q_counter q") auto
    qed
  qed
qed simp

text \<open>
  Block transfers without a notification callback, when they need not wait: reading \<open>n\<close> bytes
  returns the oldest \<open>n\<close> bytes of the input queue (all of them if there are fewer and the time-out
  is immediate) and leaves the rest; writing a block appends it to the output queue (as much as
  fits, if the time-out is immediate) and returns the number of bytes written. Both loops end and
  the kernel state is unchanged.
\<close>

theorem ioq_block_transfer:
  assumes k: "class_thread k" "resched_ok k"
  shows "(0 < n \<and> (n \<le> length xs \<or> time = TIME_IMMEDIATE) \<and> iq_ok iq xs \<longrightarrow>
            (\<exists>q'. chIQReadTimeout None n time iq k = Some (Done (take n xs), q', k) \<and> iq_ok q' (drop n xs))) \<and>
         (bs \<noteq> [] \<and> (length bs \<le> q_counter oq \<or> time = TIME_IMMEDIATE) \<and> oq_ok oq ys \<longrightarrow>
            (\<exists>q'. chOQWriteTimeout None bs time oq k = Some (Done (min (length bs) (q_counter oq)), q', k) \<and>
               oq_ok q' (ys @ take (q_counter oq) bs)))"
proof -
  let ?k = "k\<lparr>lock_cnt := 1\<rparr>"
  have S: "class_S ?k" "resched_ok ?k" "?k\<lparr>lock_cnt := 0\<rparr> = k" "chSysLock k = Some ?k"
    using k chSysLock_ok by (simp_all add: class_S_def class_thread_def)
  show ?thesis
    using iq_read_loop_ok [OF S(1,2), of n xs time iq "[]"] oq_write_loop_ok [OF S(1,2), of bs oq time ys 0]
    by (simp add: chIQReadTimeout_def chOQWriteTimeout_def S(3,4))
qed

theorem ioq_block_transfer_witness:
  "(\<exists>q'. chIQReadTimeout None 5 TIME_IMMEDIATE iq1 sys0 = Some (Done [65], q', sys0) \<and> iq_ok q' []) \<and>
   (\<exists>q'. chOQWriteTimeout None [1, 2] TIME_IMMEDIATE iq1 sys0 = Some (Done 1, q', sys0) \<and> oq_ok q' [65, 1])"
proof -
  have "q_counter iq1 = 1" by (simp add: iq1_def)
  then show ?thesis
    using ioq_block_transfer [OF sys0_facts(1,2), of 5 "[65]" TIME_IMMEDIATE iq1 "[1, 2]" iq1 "[65]"] iq1_ok by simp
qed

end
