(* ===== verification/ChMem.thy ===== *)
theory ChMem
  imports ChMtx ChRing
begin

text \<open>
  Memory management: the core allocator (\<open>chmemcore.c\<close>), heaps (\<open>chheap.c\<close>) and memory pools
  (\<open>chmempools.c\<close>).

  Addresses and sizes are numbers below \<open>2 ^ 32\<close>; address 0 is \<open>NULL\<close>. \<open>stkalign_t\<close> and the block
  header \<open>union heap_header\<close> both have 8 bytes on the Cortex-M ports. The memory \<open>mem_t\<close> keeps, for each
  address that is used as a block header, its size field and the union \<open>u\<close> (the link of a free block
  or the heap of an allocated one, one storage for both), and for each pooled object its link.
  \<open>size_t\<close> arithmetic that can wrap is written with \<open>mod 2 ^ 32\<close>.
\<close>

record mem_t =
  nextmem :: nat
  endmem :: nat
  h_u :: "nat \<Rightarrow> nat"
  h_size :: "nat \<Rightarrow> nat"
  ph_next :: "nat \<Rightarrow> nat"

type_synonym memgetfunc_t = "nat \<Rightarrow> ch_system \<Rightarrow> mem_t \<Rightarrow> (nat \<times> ch_system \<times> mem_t) option"

record memory_heap_t =
  h_provider :: "memgetfunc_t option"
  h_free :: nat
  h_mtx :: nat

record memory_pool_t =
  mp_next :: nat
  mp_object_size :: nat
  mp_provider :: "memgetfunc_t option"

subsection \<open>The core allocator\<close>

definition MEM_ALIGN_SIZE :: nat where "MEM_ALIGN_SIZE = 8"
definition MEM_ALIGN_MASK :: nat where "MEM_ALIGN_MASK = MEM_ALIGN_SIZE - 1"

text \<open>\<open>p & ~MEM_ALIGN_MASK\<close>, for an alignment that is a power of two.\<close>

definition MEM_ALIGN_PREV :: "nat \<Rightarrow> nat" where
  "MEM_ALIGN_PREV p = p - p mod MEM_ALIGN_SIZE"

definition MEM_ALIGN_NEXT :: "nat \<Rightarrow> nat" where
  "MEM_ALIGN_NEXT p = MEM_ALIGN_PREV ((p + MEM_ALIGN_MASK) mod 2 ^ 32)"

definition MEM_IS_ALIGNED :: "nat \<Rightarrow> bool" where
  "MEM_IS_ALIGNED p \<longleftrightarrow> p mod MEM_ALIGN_SIZE = 0"

text \<open>The bounds of the core region come from the linker.\<close>

definition core_init :: "nat \<Rightarrow> nat \<Rightarrow> mem_t \<Rightarrow> mem_t" where
  "core_init heap_base heap_end m =
     m\<lparr>nextmem := MEM_ALIGN_NEXT heap_base, endmem := MEM_ALIGN_PREV heap_end\<rparr>"

definition chCoreAllocI :: "nat \<Rightarrow> ch_system \<Rightarrow> mem_t \<Rightarrow> (nat \<times> mem_t) option" where
  "chCoreAllocI sz k m =
     do { chDbgCheckClassI k;
          let sz = MEM_ALIGN_NEXT sz;
          if (2 ^ 32 + endmem m - nextmem m) mod 2 ^ 32 < sz then Some (0, m)
          else do { let p = nextmem m;
                    Some (p, m\<lparr>nextmem := nextmem m + sz\<rparr>) } }"

definition chCoreAlloc :: memgetfunc_t where
  "chCoreAlloc sz k m =
     do { k \<leftarrow> chSysLock k; (p, m) \<leftarrow> chCoreAllocI sz k m; k \<leftarrow> chSysUnlock k; Some (p, k, m) }"

definition chCoreGetStatusX :: "mem_t \<Rightarrow> nat" where
  "chCoreGetStatusX m = (2 ^ 32 + endmem m - nextmem m) mod 2 ^ 32"

subsection \<open>Heaps\<close>

definition HDR :: nat where "HDR = 8"

abbreviation "set_u a v m \<equiv> m\<lparr>h_u := (h_u m)(a := v)\<rparr>"
abbreviation "set_size a v m \<equiv> m\<lparr>h_size := (h_size m)(a := v)\<rparr>"

definition LIMIT :: "nat \<Rightarrow> mem_t \<Rightarrow> nat" where
  "LIMIT p m = p + HDR + h_size m p"

definition heap_init :: "nat \<Rightarrow> nat \<Rightarrow> ch_system \<Rightarrow> mem_t \<Rightarrow> memory_heap_t \<times> ch_system \<times> mem_t" where
  "heap_init fr mtx k m =
     (let h = \<lparr>h_provider = Some chCoreAlloc, h_free = fr, h_mtx = mtx\<rparr>;
          m = set_u fr 0 m;
          m = set_size fr 0 m
      in (h, chMtxObjectInit mtx k, m))"

definition chHeapObjectInit ::
  "nat \<Rightarrow> nat \<Rightarrow> nat \<Rightarrow> nat \<Rightarrow> ch_system \<Rightarrow> mem_t \<Rightarrow> (memory_heap_t \<times> ch_system \<times> mem_t) option" where
  "chHeapObjectInit fr mtx buf sz k m =
     do { assert_that (MEM_IS_ALIGNED buf \<and> MEM_IS_ALIGNED sz);
          let h = \<lparr>h_provider = None, h_free = fr, h_mtx = mtx\<rparr>;
          let m = set_u fr buf m;
          let m = set_size fr 0 m;
          let m = set_u buf 0 m;
          let m = set_size buf ((2 ^ 32 + sz - HDR) mod 2 ^ 32) m;
          Some (h, chMtxObjectInit mtx k, m) }"

text \<open>
  The search loop of \<open>chHeapAlloc\<close>, run with the heap locked: the block found, if any. \<open>heapp\<close> is the
  address of the heap object, stored in the header of an allocated block.
\<close>

partial_function (option) heap_search :: "nat \<Rightarrow> nat \<Rightarrow> nat \<Rightarrow> mem_t \<Rightarrow> (nat option \<times> mem_t) option" where
  "heap_search heapp sz qp m =
     (if h_u m qp \<noteq> 0
      then (let hp = h_u m qp
            in if h_size m hp \<ge> sz
               then (let m = (if h_size m hp < (sz + HDR) mod 2 ^ 32
                              then set_u qp (h_u m hp) m
                              else (let fp = hp + HDR + sz;
                                        m = set_u fp (h_u m hp) m;
                                        m = set_size fp (h_size m hp - HDR - sz) m;
                                        m = set_u qp fp m
                                    in set_size hp sz m));
                         m = set_u hp heapp m
                     in Some (Some hp, m))
               else heap_search heapp sz hp m)
      else Some (None, m))"

text \<open>
  \<open>chHeapAlloc\<close>: \<open>chHeapAlloc_k\<close> runs once the heap is locked, \<open>chHeapAlloc_k2\<close> once it is unlocked.
  The result is the address after the header, or 0.
\<close>

definition chHeapAlloc_k2 ::
  "memory_heap_t \<Rightarrow> nat \<Rightarrow> nat \<Rightarrow> nat option \<Rightarrow> mem_t \<Rightarrow> ch_system \<Rightarrow> (nat outcome \<times> mem_t \<times> ch_system) option" where
  "chHeapAlloc_k2 h heapp sz found m k =
     (case found of
        Some hp \<Rightarrow> Some (Done (hp + HDR), m, k)
      | None \<Rightarrow>
          (case h_provider h of
             None \<Rightarrow> Some (Done 0, m, k)
           | Some provider \<Rightarrow>
               do { (hp, k, m) \<leftarrow> provider ((sz + HDR) mod 2 ^ 32) k m;
                    if hp \<noteq> 0
                    then do { let m = set_u hp heapp m;
                              let m = set_size hp sz m;
                              Some (Done (hp + HDR), m, k) }
                    else Some (Done 0, m, k) }))"

definition andthen_mem ::
  "mem_t \<Rightarrow> ('a outcome \<times> ch_system) \<Rightarrow> ('a \<Rightarrow> ch_system \<Rightarrow> ('b outcome \<times> mem_t \<times> ch_system) option) \<Rightarrow>
   ('b outcome \<times> mem_t \<times> ch_system) option" where
  "andthen_mem m r f = (case r of (Done a, k) \<Rightarrow> f a k | (Switched, k) \<Rightarrow> Some (Switched, m, k))"

definition chHeapAlloc_k ::
  "memory_heap_t \<Rightarrow> nat \<Rightarrow> nat \<Rightarrow> mem_t \<Rightarrow> ch_system \<Rightarrow> (nat outcome \<times> mem_t \<times> ch_system) option" where
  "chHeapAlloc_k h heapp sz m k =
     do { (found, m) \<leftarrow> heap_search heapp sz (h_free h) m;
          r \<leftarrow> chMtxUnlock (h_mtx h) k;
          andthen_mem m r (\<lambda>_ k. chHeapAlloc_k2 h heapp sz found m k) }"

definition chHeapAlloc ::
  "memory_heap_t \<Rightarrow> nat \<Rightarrow> nat \<Rightarrow> mem_t \<Rightarrow> ch_system \<Rightarrow> (nat outcome \<times> mem_t \<times> ch_system) option" where
  "chHeapAlloc h heapp sz m k =
     do { let sz = MEM_ALIGN_NEXT sz;
          r \<leftarrow> chMtxLock (h_mtx h) k;
          andthen_mem m r (\<lambda>_ k. chHeapAlloc_k h heapp sz m k) }"

text \<open>The loop of \<open>chHeapFree\<close>, run with the heap locked.\<close>

partial_function (option) heap_release :: "nat \<Rightarrow> nat \<Rightarrow> nat \<Rightarrow> mem_t \<Rightarrow> mem_t option" where
  "heap_release fr hp qp m =
     do { assert_that (hp < qp \<or> hp \<ge> LIMIT qp m);
          if (qp = fr \<or> hp > qp) \<and> (h_u m qp = 0 \<or> hp < h_u m qp)
          then do { let m = set_u hp (h_u m qp) m;
                    let m = set_u qp hp m;
                    let m = (if LIMIT hp m = h_u m hp
                             then (let n = h_u m hp;
                                       m = set_size hp (h_size m hp + (h_size m n + HDR)) m
                                   in set_u hp (h_u m n) m)
                             else m);
                    let m = (if LIMIT qp m = hp
                             then (let m = set_size qp (h_size m qp + (h_size m hp + HDR)) m
                                   in set_u qp (h_u m hp) m)
                             else m);
                    Some m }
          else heap_release fr hp (h_u m qp) m }"

text \<open>\<open>heaps\<close> gives the heap object at an address.\<close>

definition chHeapFree_k ::
  "memory_heap_t \<Rightarrow> nat \<Rightarrow> mem_t \<Rightarrow> ch_system \<Rightarrow> (unit outcome \<times> mem_t \<times> ch_system) option" where
  "chHeapFree_k h hp m k =
     do { m \<leftarrow> heap_release (h_free h) hp (h_free h) m;
          r \<leftarrow> chMtxUnlock (h_mtx h) k;
          andthen_mem m r (\<lambda>_ k. Some (Done (), m, k)) }"

definition chHeapFree ::
  "(nat \<Rightarrow> memory_heap_t) \<Rightarrow> nat \<Rightarrow> mem_t \<Rightarrow> ch_system \<Rightarrow> (unit outcome \<times> mem_t \<times> ch_system) option" where
  "chHeapFree heaps p m k =
     do { assert_that (p \<noteq> 0);
          let hp = p - HDR;
          let h = heaps (h_u m hp);
          r \<leftarrow> chMtxLock (h_mtx h) k;
          andthen_mem m r (\<lambda>_ k. chHeapFree_k h hp m k) }"

text \<open>The loop of \<open>chHeapStatus\<close>: number of free blocks and their total size.\<close>

partial_function (option) heap_status_loop :: "nat \<Rightarrow> nat \<Rightarrow> nat \<Rightarrow> mem_t \<Rightarrow> (nat \<times> nat) option" where
  "heap_status_loop n sz qp m =
     (if h_u m qp \<noteq> 0
      then heap_status_loop (n + 1) ((sz + h_size m (h_u m qp)) mod 2 ^ 32) (h_u m qp) m
      else Some (n, sz))"

definition chHeapStatus ::
  "memory_heap_t \<Rightarrow> mem_t \<Rightarrow> ch_system \<Rightarrow> ((nat \<times> nat) outcome \<times> mem_t \<times> ch_system) option" where
  "chHeapStatus h m k =
     do { r \<leftarrow> chMtxLock (h_mtx h) k;
          andthen_mem m r (\<lambda>_ k.
            do { s \<leftarrow> heap_status_loop 0 0 (h_free h) m;
                 r \<leftarrow> chMtxUnlock (h_mtx h) k;
                 andthen_mem m r (\<lambda>_ k. Some (Done s, m, k)) }) }"

subsection \<open>Memory pools\<close>

definition chPoolObjectInit :: "nat \<Rightarrow> memgetfunc_t option \<Rightarrow> memory_pool_t option" where
  "chPoolObjectInit sz provider =
     do { assert_that (sz \<ge> 4);
          Some \<lparr>mp_next = 0, mp_object_size = sz, mp_provider = provider\<rparr> }"

definition chPoolAllocI ::
  "memory_pool_t \<Rightarrow> mem_t \<Rightarrow> ch_system \<Rightarrow> (nat \<times> memory_pool_t \<times> mem_t \<times> ch_system) option" where
  "chPoolAllocI mp m k =
     do { chDbgCheckClassI k;
          let objp = mp_next mp;
          if objp \<noteq> 0 then Some (objp, mp\<lparr>mp_next := ph_next m (mp_next mp)\<rparr>, m, k)
          else (case mp_provider mp of
                  Some provider \<Rightarrow>
                    do { (objp, k, m) \<leftarrow> provider (mp_object_size mp) k m; Some (objp, mp, m, k) }
                | None \<Rightarrow> Some (objp, mp, m, k)) }"

definition chPoolAlloc ::
  "memory_pool_t \<Rightarrow> mem_t \<Rightarrow> ch_system \<Rightarrow> (nat \<times> memory_pool_t \<times> mem_t \<times> ch_system) option" where
  "chPoolAlloc mp m k =
     do { k \<leftarrow> chSysLock k; (objp, mp, m, k) \<leftarrow> chPoolAllocI mp m k; k \<leftarrow> chSysUnlock k; Some (objp, mp, m, k) }"

definition chPoolFreeI ::
  "nat \<Rightarrow> memory_pool_t \<Rightarrow> mem_t \<Rightarrow> ch_system \<Rightarrow> (memory_pool_t \<times> mem_t) option" where
  "chPoolFreeI objp mp m k =
     do { chDbgCheckClassI k;
          assert_that (objp \<noteq> 0);
          let m = m\<lparr>ph_next := (ph_next m)(objp := mp_next mp)\<rparr>;
          Some (mp\<lparr>mp_next := objp\<rparr>, m) }"

definition chPoolFree ::
  "nat \<Rightarrow> memory_pool_t \<Rightarrow> mem_t \<Rightarrow> ch_system \<Rightarrow> (memory_pool_t \<times> mem_t \<times> ch_system) option" where
  "chPoolFree objp mp m k =
     do { k \<leftarrow> chSysLock k; (mp, m) \<leftarrow> chPoolFreeI objp mp m k; k \<leftarrow> chSysUnlock k; Some (mp, m, k) }"

definition chPoolAdd ::
  "nat \<Rightarrow> memory_pool_t \<Rightarrow> mem_t \<Rightarrow> ch_system \<Rightarrow> (memory_pool_t \<times> mem_t \<times> ch_system) option" where
  "chPoolAdd objp mp m k = chPoolFree objp mp m k"

definition chPoolAddI :: "nat \<Rightarrow> memory_pool_t \<Rightarrow> mem_t \<Rightarrow> ch_system \<Rightarrow> (memory_pool_t \<times> mem_t) option" where
  "chPoolAddI objp mp m k = do { chDbgCheckClassI k; chPoolFreeI objp mp m k }"

text \<open>The loop of \<open>chPoolLoadArray\<close>.\<close>

fun pool_load_loop ::
  "nat \<Rightarrow> nat \<Rightarrow> memory_pool_t \<Rightarrow> mem_t \<Rightarrow> ch_system \<Rightarrow> (memory_pool_t \<times> mem_t \<times> ch_system) option" where
  "pool_load_loop 0 p mp m k = Some (mp, m, k)"
| "pool_load_loop (Suc n) p mp m k =
     do { (mp, m, k) \<leftarrow> chPoolAdd p mp m k; pool_load_loop n (p + mp_object_size mp) mp m k }"

definition chPoolLoadArray ::
  "nat \<Rightarrow> nat \<Rightarrow> memory_pool_t \<Rightarrow> mem_t \<Rightarrow> ch_system \<Rightarrow> (memory_pool_t \<times> mem_t \<times> ch_system) option" where
  "chPoolLoadArray p n mp m k = do { assert_that (n \<noteq> 0); pool_load_loop n p mp m k }"

subsection \<open>Free lists as lists of blocks\<close>

text \<open>
  A block \<open>(a, s)\<close> has its header at \<open>a\<close> and \<open>s\<close> bytes after it. \<open>apart2\<close>: two blocks do not overlap;
  \<open>gap\<close>: the second comes later and does not even touch the first, so they cannot be merged.
\<close>

type_synonym block = "nat \<times> nat"

definition apart2 :: "block \<Rightarrow> block \<Rightarrow> bool" where
  "apart2 x y \<longleftrightarrow> fst x + HDR + snd x \<le> fst y \<or> fst y + HDR + snd y \<le> fst x"

definition gap :: "block \<Rightarrow> block \<Rightarrow> bool" where
  "gap x y \<longleftrightarrow> fst x + HDR + snd x < fst y"

definition outside :: "nat \<Rightarrow> block \<Rightarrow> bool" where
  "outside p x \<longleftrightarrow> p < fst x \<or> fst x + HDR + snd x \<le> p"

text \<open>First fit, splitting the block if the rest can hold a header.\<close>

fun take_first :: "nat \<Rightarrow> block list \<Rightarrow> (block \<times> block list) option" where
  "take_first sz [] = None"
| "take_first sz ((a, s) # fs) =
     (if s \<ge> sz
      then (if s < sz + HDR then Some ((a, s), fs) else Some ((a, sz), (a + HDR + sz, s - HDR - sz) # fs))
      else map_option (\<lambda>(b, gs). (b, (a, s) # gs)) (take_first sz fs))"

text \<open>Insertion in address order, merging with the neighbours that touch.\<close>

fun give_back :: "block \<Rightarrow> block list \<Rightarrow> block list" where
  "give_back (b, t) [] = [(b, t)]"
| "give_back (b, t) ((a, s) # fs) =
     (if b < a
      then (if b + HDR + t = a then (b, t + (s + HDR)) # fs else (b, t) # (a, s) # fs)
      else (case give_back (b, t) fs of
              [] \<Rightarrow> []
            | (c, u) # gs \<Rightarrow> if a + HDR + s = b then (a, s + (u + HDR)) # gs else (a, s) # (c, u) # gs))"

lemma HDR_pos [simp]: "0 < HDR" "HDR \<noteq> 0"
  by (simp_all add: HDR_def)

lemma give_back_hd: "\<forall>x \<in> set fs. b < fst x \<Longrightarrow> fst (hd (give_back (b, t) fs)) = b"
  by (cases fs) (auto split: if_splits)

lemma give_back_ne [simp]: "give_back x fs \<noteq> []"
proof (induction fs)
  case (Cons y fs)
  then show ?case by (cases x; cases y) (auto split: list.splits)
qed (cases x, simp)

text \<open>What was taken and is given back restores the list.\<close>

lemma take_first_give_back:
  assumes "sorted_wrt gap fs" "take_first sz fs = Some (b, gs)"
  shows "give_back b gs = fs"
  using assms
proof (induction fs arbitrary: gs)
  case (Cons x fs)
  obtain a s where x: "x = (a, s)" by (cases x)
  show ?case
  proof (cases "s \<ge> sz")
    case True
    show ?thesis
    proof (cases "s < sz + HDR")
      case small: True
      then have "b = (a, s)" "gs = fs" using Cons.prems(2) True x by auto
      moreover have "\<forall>y \<in> set fs. a + HDR + s < fst y" using Cons.prems(1) x by (auto simp: gap_def)
      ultimately show ?thesis using x by (cases fs) auto
    next
      case False
      then have "b = (a, sz)" "gs = (a + HDR + sz, s - HDR - sz) # fs" using Cons.prems(2) True x by auto
      then show ?thesis using x False by simp
    qed
  next
    case False
    then obtain gs' where g: "take_first sz fs = Some (b, gs')" "gs = (a, s) # gs'"
      using Cons.prems(2) x by (cases "take_first sz fs") auto
    have IH: "give_back b gs' = fs" using Cons.IH Cons.prems(1) g(1) by simp
    obtain c t where b: "b = (c, t)" by (cases b)
    have c: "c \<in> fst ` set fs" using g(1) b
    proof (induction fs arbitrary: gs')
      case (Cons y fs)
      then show ?case by (cases y) (auto split: if_splits option.splits)
    qed simp
    then have "a + HDR + s < c" using Cons.prems(1) x by (auto simp: gap_def)
    then show ?thesis using IH b x g(2) by (auto split: list.splits)
  qed
qed simp

lemma take_first_None: "take_first sz fs = None \<longleftrightarrow> (\<forall>x \<in> set fs. snd x < sz)"
  by (induction sz fs rule: take_first.induct) auto

text \<open>\<open>within y x\<close>: block \<open>y\<close> is a part of block \<open>x\<close>. What first fit takes and what it leaves are parts of the list.\<close>

definition within :: "block \<Rightarrow> block \<Rightarrow> bool" where
  "within y x \<longleftrightarrow> fst x \<le> fst y \<and> fst y + snd y \<le> fst x + snd x"

lemma within_outside: "within y x \<Longrightarrow> outside p x \<Longrightarrow> outside p y"
  by (auto simp: within_def outside_def)

lemma within_gap: "within y x \<Longrightarrow> gap z x \<Longrightarrow> gap z y"
  by (auto simp: within_def gap_def)

lemma within_apart: "within y x \<Longrightarrow> apart2 x z \<Longrightarrow> apart2 y z"
  by (auto simp: within_def apart2_def)

lemma within_refl [simp]: "within x x"
  by (simp add: within_def)

lemma take_first_within:
  "take_first sz fs = Some (b, gs) \<Longrightarrow> (\<exists>x \<in> set fs. within b x \<and> fst b = fst x) \<and> (\<forall>y \<in> set gs. \<exists>x \<in> set fs. within y x)"
proof (induction fs arbitrary: gs)
  case (Cons x fs)
  obtain a s where x: "x = (a, s)" by (cases x)
  have self: "\<forall>y \<in> set fs. \<exists>x \<in> set fs. within y x" by (meson within_refl)
  show ?case
  proof (cases "s \<ge> sz")
    case True
    show ?thesis
    proof (cases "s < sz + HDR")
      case True
      then show ?thesis using Cons.prems x \<open>s \<ge> sz\<close> self by auto
    next
      case False
      then have "b = (a, sz)" "gs = (a + HDR + sz, s - HDR - sz) # fs" using Cons.prems x True by auto
      moreover have "within (a, sz) x" "within (a + HDR + sz, s - HDR - sz) x" using False x by (auto simp: within_def)
      ultimately show ?thesis using x self by auto
    qed
  next
    case False
    then obtain gs' where "take_first sz fs = Some (b, gs')" "gs = x # gs'"
      using Cons.prems x by (cases "take_first sz fs") auto
    then show ?thesis using Cons.IH by (auto intro: bexI [of _ x])
  qed
qed simp

subsection \<open>The linked free list\<close>

text \<open>
  \<open>flist m qp fs\<close>: from the header \<open>qp\<close>, which lies outside all blocks, the links run through the
  blocks \<open>fs\<close>, in address order and never touching.
\<close>

definition flist :: "mem_t \<Rightarrow> nat \<Rightarrow> block list \<Rightarrow> bool" where
  "flist m qp fs \<longleftrightarrow>
     chain (h_u m) qp (map fst fs) 0 \<and> (\<forall>x \<in> set fs. h_size m (fst x) = snd x \<and> 0 < fst x \<and> outside qp x) \<and>
     sorted_wrt gap fs"

lemma flist_Nil: "flist m qp [] \<longleftrightarrow> h_u m qp = 0"
  by (simp add: flist_def)

lemma flist_Cons:
  assumes "flist m qp ((a, s) # fs)"
  shows "h_u m qp = a" "h_size m a = s" "0 < a" "flist m a fs" "outside qp (a, s)" "\<forall>x \<in> set fs. outside qp x \<and> gap (a, s) x"
  using assms by (auto simp: flist_def gap_def outside_def)

lemma flist_ConsI:
  assumes "h_u m qp = a" "h_size m a = s" "0 < a" "flist m a fs" "outside qp (a, s)" "\<forall>x \<in> set fs. outside qp x \<and> gap (a, s) x"
  shows "flist m qp ((a, s) # fs)"
  using assms by (auto simp: flist_def)

lemma flist_move:
  assumes "flist m qp fs" "h_u m' qp' = h_u m qp"
    "\<forall>x \<in> set fs. h_u m' (fst x) = h_u m (fst x) \<and> h_size m' (fst x) = h_size m (fst x) \<and> outside qp' x"
  shows "flist m' qp' fs"
proof -
  have "chain (h_u m') qp' (map fst fs) 0 = chain (h_u m) qp (map fst fs) 0"
  proof (cases fs)
    case (Cons x xs)
    have "chain (h_u m') (fst x) (map fst xs) 0 = chain (h_u m) (fst x) (map fst xs) 0"
      using assms(3) Cons by (intro chain_cong) auto
    then show ?thesis using Cons assms(2) by simp
  qed (use assms(2) in simp)
  then show ?thesis using assms(1,3) by (auto simp: flist_def)
qed

lemma outside_ne: "outside p (a, s) \<Longrightarrow> p \<noteq> a"
  by (auto simp: outside_def)

text \<open>The search loop is first fit on the list of blocks, and touches nothing outside them.\<close>

lemma heap_search_ok:
  assumes "flist m qp fs" "sz + HDR < 2 ^ 32"
  shows "case take_first sz fs of
           None \<Rightarrow> heap_search heapp sz qp m = Some (None, m)
         | Some ((b, t), gs) \<Rightarrow>
             \<exists>m'. heap_search heapp sz qp m = Some (Some b, m') \<and> flist m' qp gs \<and> h_u m' b = heapp \<and> h_size m' b = t \<and>
               (\<forall>x. (\<forall>y \<in> set fs. outside x y) \<longrightarrow> (x \<noteq> qp \<longrightarrow> h_u m' x = h_u m x) \<and> h_size m' x = h_size m x)"
  using assms(1)
proof (induction fs arbitrary: qp)
  case Nil
  then show ?case by (subst heap_search.simps) (simp add: flist_Nil)
next
  case (Cons x fs)
  obtain a s where x: "x = (a, s)" by (cases x)
  note f = flist_Cons [OF Cons.prems [unfolded x]]
  have qa: "qp \<noteq> a" using f(5) by (auto simp: outside_def)
  show ?case
  proof (cases "s \<ge> sz")
    case False
    have step: "heap_search heapp sz qp m = heap_search heapp sz a m"
      using False f(1-3) by (subst heap_search.simps) (simp add: Let_def)
    show ?thesis
    proof (cases "take_first sz fs")
      case None
      then show ?thesis using Cons.IH [OF f(4)] False x step by simp
    next
      case (Some r)
      obtain b t gs where r: "r = ((b, t), gs)" by (cases r) auto
      obtain m' where m': "heap_search heapp sz a m = Some (Some b, m')" "flist m' a gs" "h_u m' b = heapp" "h_size m' b = t"
          "\<And>x. (\<forall>y \<in> set fs. outside x y) \<Longrightarrow> (x \<noteq> a \<longrightarrow> h_u m' x = h_u m x) \<and> h_size m' x = h_size m x"
        using Cons.IH [OF f(4)] Some r by auto
      have g: "\<forall>y \<in> set gs. outside qp y \<and> gap (a, s) y"
        using take_first_within [of sz fs "(b, t)" gs] Some r f(6) within_outside within_gap by (metis (no_types))
      have ao: "\<forall>y \<in> set fs. outside a y" using f(6) by (auto simp: gap_def outside_def)
      have "flist m' qp ((a, s) # gs)"
        using m'(2) m'(5) [of qp] m'(5) [OF ao] f g qa by (intro flist_ConsI) auto
      moreover have "h_u m' y = h_u m y" if "\<forall>z \<in> set (x # fs). outside y z" "y \<noteq> qp" for y
        using m'(5) [of y] that x by (auto dest: outside_ne)
      moreover have "h_size m' y = h_size m y" if "\<forall>z \<in> set (x # fs). outside y z" for y
        using m'(5) [of y] that x by auto
      ultimately show ?thesis using m' step False Some r x f by auto
    qed
  next
    case True
    show ?thesis
    proof (cases "s < sz + HDR")
      case small: True
      define m' where "m' = set_u a heapp (set_u qp (h_u m a) m)"
      have h: "heap_search heapp sz qp m = Some (Some a, m')"
        using True small f(1-3) assms(2) qa by (subst heap_search.simps) (simp add: Let_def m'_def)
      have "flist m' qp fs"
        using f qa by (intro flist_move [OF f(4)]) (auto simp: m'_def gap_def outside_def)
      then show ?thesis using h True small x f qa by (auto simp: m'_def outside_def)
    next
      case big: False
      define fp where "fp = a + HDR + sz"
      define m' where "m' = set_u a heapp (set_size a sz (set_u qp fp (set_size fp (s - HDR - sz) (set_u fp (h_u m a) m))))"
      have fpa: "fp \<noteq> a" and fpq: "fp \<noteq> qp" and io: "\<And>y. outside y (a, s) \<Longrightarrow> y \<noteq> fp \<and> outside y (fp, s - HDR - sz)"
        using big f(5) by (auto simp: fp_def outside_def HDR_def)
      have h: "heap_search heapp sz qp m = Some (Some a, m')"
        using True big f(1-3) assms(2) qa fpa by (subst heap_search.simps) (simp add: Let_def m'_def fp_def)
      have g: "gap (fp, s - HDR - sz) y" "fst y \<noteq> fp \<and> fst y \<noteq> a \<and> fst y \<noteq> qp" "outside fp y" if "y \<in> set fs" for y
        using f(6) that big by (auto simp: fp_def gap_def outside_def HDR_def)
      have "flist m' fp fs"
        using g fpa fpq by (intro flist_move [OF f(4)]) (auto simp: m'_def)
      then have "flist m' qp ((fp, s - HDR - sz) # fs)"
        using f(5,6) io fpa fpq qa g by (intro flist_ConsI) (auto simp: m'_def fp_def)
      moreover have "gap z (a, s) \<Longrightarrow> gap z (fp, s - HDR - sz)" for z by (auto simp: gap_def fp_def)
      ultimately show ?thesis
        using h True big x f io qa fpa by (auto simp: m'_def fp_def dest: outside_ne)
    qed
  qed
qed

subsection \<open>Giving a block back\<close>

lemma gap_pair: "gap (a, s) y \<longleftrightarrow> a + HDR + s < fst y"
  by (simp add: gap_def)

lemma give_back_fst: "y \<in> set (give_back (b, t) fs) \<Longrightarrow> fst y \<in> insert b (fst ` set fs)"
proof (induction fs arbitrary: y)
  case (Cons x fs)
  obtain a s where x: "x = (a, s)" by (cases x)
  obtain c u gs where g: "give_back (b, t) fs = (c, u) # gs"
    by (metis give_back_ne list.exhaust surj_pair)
  then show ?case using Cons.prems Cons.IH [of "(c, u)"] Cons.IH [of y] x by (auto split: if_splits)
qed auto

lemma give_back_first:
  assumes "\<forall>x \<in> set fs. b < fst x"
  obtains u gs where "give_back (b, t) fs = (b, u) # gs"
  using give_back_hd [OF assms, of t] by (cases "give_back (b, t) fs") auto

lemma give_back_sorted:
  assumes "sorted_wrt gap fs" "\<forall>x \<in> set fs. apart2 (b, t) x"
  shows "sorted_wrt gap (give_back (b, t) fs)"
  using assms
proof (induction fs)
  case (Cons x fs)
  obtain a s where x: "x = (a, s)" by (cases x)
  have IH: "sorted_wrt gap (give_back (b, t) fs)" using Cons by simp
  show ?case
  proof (cases "b < a")
    case True
    then show ?thesis using Cons.prems x by (auto simp: gap_def apart2_def)
  next
    case False
    then have ab: "a + HDR + s \<le> b" using Cons.prems x by (auto simp: apart2_def HDR_def)
    obtain c u gs where g: "give_back (b, t) fs = (c, u) # gs"
      by (metis give_back_ne list.exhaust surj_pair)
    have all: "a + HDR + s < fst y \<or> fst y = b" if "y \<in> set ((c, u) # gs)" for y
      using give_back_fst [of y b t fs] that g Cons.prems x by (auto simp: gap_def)
    show ?thesis
    proof (cases "a + HDR + s = b")
      case True
      then have "\<forall>x \<in> set fs. b < fst x" using Cons.prems x by (auto simp: gap_def)
      then have "c = b" using give_back_hd [of fs b t] g by simp
      then show ?thesis using IH g x False True by (auto simp: gap_pair)
    next
      case ne: False
      then have "gap (a, s) y" if "y \<in> set ((c, u) # gs)" for y using all [OF that] ab by (auto simp: gap_def)
      then show ?thesis using IH g x False ne by (auto simp: gap_pair)
    qed
  qed
qed simp

lemma give_back_outside:
  assumes "sorted_wrt gap fs" "outside p (b, t)" "\<forall>x \<in> set fs. outside p x"
  shows "\<forall>y \<in> set (give_back (b, t) fs). outside p y"
  using assms
proof (induction fs)
  case (Cons x fs)
  obtain a s where x: "x = (a, s)" by (cases x)
  show ?case
  proof (cases "b < a")
    case True
    then show ?thesis using Cons.prems x by (auto simp: outside_def)
  next
    case False
    obtain c u gs where g: "give_back (b, t) fs = (c, u) # gs"
      by (metis give_back_ne list.exhaust surj_pair)
    have IH: "\<forall>y \<in> set ((c, u) # gs). outside p y" using Cons g by simp
    have "c = b" if "a + HDR + s = b"
      using give_back_hd [of fs b t] g Cons.prems(1) that x by (auto simp: gap_def)
    then show ?thesis using IH g x False Cons.prems by (auto simp: outside_def)
  qed
qed simp

definition links :: "mem_t \<Rightarrow> nat \<Rightarrow> block list \<Rightarrow> bool" where
  "links m qp fs \<longleftrightarrow> chain (h_u m) qp (map fst fs) 0 \<and> (\<forall>x \<in> set fs. h_size m (fst x) = snd x \<and> 0 < fst x)"

lemma flist_links: "flist m qp fs \<longleftrightarrow> links m qp fs \<and> (\<forall>x \<in> set fs. outside qp x) \<and> sorted_wrt gap fs"
  by (auto simp: flist_def links_def)

lemma links_Cons: "links m qp ((a, s) # fs) \<longleftrightarrow> h_u m qp = a \<and> h_size m a = s \<and> 0 < a \<and> links m a fs"
  by (auto simp: links_def)

lemma links_Nil: "links m qp [] \<longleftrightarrow> h_u m qp = 0"
  by (simp add: links_def)

lemma links_move:
  assumes "links m qp fs" "h_u m' qp' = h_u m qp"
    "\<forall>x \<in> set fs. h_u m' (fst x) = h_u m (fst x) \<and> h_size m' (fst x) = h_size m (fst x)"
  shows "links m' qp' fs"
proof (cases fs)
  case (Cons x xs)
  have "chain (h_u m') (fst x) (map fst xs) 0 = chain (h_u m) (fst x) (map fst xs) 0"
    using assms(3) Cons by (intro chain_cong) auto
  then show ?thesis using Cons assms by (auto simp: links_def)
qed (use assms in \<open>simp add: links_Nil\<close>)

text \<open>The step of the loop that inserts: \<open>b\<close> goes right after \<open>qp\<close>, and merges with the neighbours it touches.\<close>

lemma heap_insert_here:
  assumes l: "links m qp fs" and fs: "\<forall>x \<in> set fs. b + HDR + t \<le> fst x" "sorted_wrt gap fs"
    and b: "h_size m b = t" "0 < b" and q: "h_size m qp = s" "qp \<noteq> b" "qp \<notin> fst ` set fs"
    and pos: "b < qp \<or> qp + HDR + s \<le> b" "qp = fr \<or> qp < b"
  shows "\<exists>m' u gs. heap_release fr b qp m = Some m' \<and> give_back (b, t) fs = (b, u) # gs \<and>
    (\<forall>x. x \<notin> insert qp (insert b (fst ` set fs)) \<longrightarrow> h_u m' x = h_u m x \<and> h_size m' x = h_size m x) \<and>
    (if qp + HDR + s = b then links m' qp gs \<and> h_size m' qp = s + (u + HDR)
     else links m' qp ((b, u) # gs) \<and> h_size m' qp = s)"
proof (cases "fs \<noteq> [] \<and> b + HDR + t = fst (hd fs)")
  case True
  then obtain v fs' where f: "fs = (b + HDR + t, v) # fs'" by (cases fs) auto
  define n where "n = b + HDR + t"
  have n: "h_u m qp = n" "h_size m n = v" "links m n fs'" "qp \<noteq> n" "n \<noteq> b" "0 < n"
    using l q f n_def b by (auto simp: links_Cons HDR_def)
  define m1 where "m1 = set_u b (h_u m n) (set_size b (t + (v + HDR)) (set_u qp b m))"
  define m' where "m' = (if qp + HDR + s = b then set_u qp (h_u m1 b) (set_size qp (s + (t + (v + HDR) + HDR)) m1) else m1)"
  have r: "heap_release fr b qp m = Some m'"
    using pos n b q
    by (subst heap_release.simps) (auto simp: LIMIT_def Let_def m'_def m1_def n_def assert_that_def fun_upd_twist)
  have ne: "fst x \<noteq> b \<and> fst x \<noteq> qp" if "x \<in> set fs'" for x
    using fs f q that by (force simp: HDR_def)
  have "links m' b fs'" if "qp + HDR + s \<noteq> b"
    using that ne q by (intro links_move [OF n(3)]) (auto simp: m'_def m1_def)
  moreover have "links m' qp fs'" if "qp + HDR + s = b"
    using that ne q by (intro links_move [OF n(3)]) (auto simp: m'_def m1_def)
  moreover have "give_back (b, t) fs = (b, t + (v + HDR)) # fs'" using f by (simp add: HDR_def)
  ultimately show ?thesis using r q b by (auto simp: m'_def m1_def links_Cons)
next
  case False
  define m1 where "m1 = set_u qp b (set_u b (h_u m qp) m)"
  define m' where "m' = (if qp + HDR + s = b then set_u qp (h_u m1 b) (set_size qp (s + (t + HDR)) m1) else m1)"
  have hu: "h_u m qp \<noteq> b + HDR + t" "h_u m qp = 0 \<or> b < h_u m qp"
    using False l fs by (cases fs; auto simp: links_def HDR_def)+
  have r: "heap_release fr b qp m = Some m'"
    using pos hu b q
    by (subst heap_release.simps) (auto simp: LIMIT_def Let_def m'_def m1_def assert_that_def fun_upd_twist)
  have ne: "fst x \<noteq> b \<and> fst x \<noteq> qp" if "x \<in> set fs" for x
    using fs q that by (force simp: HDR_def)
  have "links m' b fs" if "qp + HDR + s \<noteq> b"
    using that ne q by (intro links_move [OF l]) (auto simp: m'_def m1_def)
  moreover have "links m' qp fs" if "qp + HDR + s = b"
    using that ne q by (intro links_move [OF l]) (auto simp: m'_def m1_def)
  moreover have "give_back (b, t) fs = (b, t) # fs" using False fs by (cases fs) (auto simp: HDR_def)
  ultimately show ?thesis using r q b by (auto simp: m'_def m1_def links_Cons)
qed

lemma heap_release_links:
  assumes "links m qp fs" "sorted_wrt gap ((qp, s) # fs)" "\<forall>x \<in> set fs. apart2 (b, t) x" "qp + HDR + s \<le> b"
    "h_size m b = t" "h_size m qp = s" "fr \<notin> fst ` set fs"
  shows "\<exists>m' v L. heap_release fr b qp m = Some m' \<and> give_back (b, t) ((qp, s) # fs) = (qp, v) # L \<and>
    links m' qp L \<and> h_size m' qp = v \<and>
    (\<forall>x. x \<notin> insert qp (insert b (fst ` set fs)) \<longrightarrow> h_u m' x = h_u m x \<and> h_size m' x = h_size m x)"
  using assms
proof (induction fs arbitrary: qp s)
  case Nil
  show ?case
    using heap_insert_here [OF Nil.prems(1), of b t s fr] Nil.prems(4-6) by (auto split: if_splits simp: HDR_def)
next
  case (Cons x fs)
  obtain a r where x: "x = (a, r)" by (cases x)
  have l: "h_u m qp = a" "h_size m a = r" "0 < a" "links m a fs" using Cons.prems(1) x by (auto simp: links_Cons)
  have qa: "qp + HDR + s < a" using Cons.prems(2) x by (simp add: gap_def)
  show ?case
  proof (cases "b < a")
    case True
    have far: "\<forall>y \<in> set (x # fs). b + HDR + t \<le> fst y"
      using Cons.prems(2,3) x True by (auto simp: gap_def apart2_def)
    have "\<exists>m' u gs. heap_release fr b qp m = Some m' \<and> give_back (b, t) (x # fs) = (b, u) # gs \<and>
      (\<forall>y. y \<notin> insert qp (insert b (fst ` set (x # fs))) \<longrightarrow> h_u m' y = h_u m y \<and> h_size m' y = h_size m y) \<and>
      (if qp + HDR + s = b then links m' qp gs \<and> h_size m' qp = s + (u + HDR)
       else links m' qp ((b, u) # gs) \<and> h_size m' qp = s)"
      by (rule heap_insert_here [OF Cons.prems(1) far]) (use Cons.prems x in \<open>auto simp: HDR_def gap_pair\<close>)
    moreover have "\<not> b < qp" using Cons.prems(4) by simp
    ultimately show ?thesis by (auto split: if_splits simp del: give_back.simps simp: give_back.simps(2) [of b t qp])
  next
    case False
    have ab: "a + HDR + r \<le> b" using Cons.prems(3) x False by (auto simp: apart2_def HDR_def)
    have rec: "heap_release fr b qp m = heap_release fr b a m"
      using Cons.prems(4,6) l False by (subst heap_release.simps) (auto simp: LIMIT_def assert_that_def)
    obtain m' v L where m': "heap_release fr b a m = Some m'" "give_back (b, t) ((a, r) # fs) = (a, v) # L" "links m' a L"
        "h_size m' a = v" "\<And>x. x \<notin> insert a (insert b (fst ` set fs)) \<Longrightarrow> h_u m' x = h_u m x \<and> h_size m' x = h_size m x"
      using Cons.IH [OF l(4), of r] Cons.prems(2,3,5,7) x ab l(2) by auto
    have q: "qp \<notin> insert a (insert b (fst ` set fs))" using Cons.prems(2,4) x by (auto simp: gap_def HDR_def)
    have "give_back (b, t) ((qp, s) # x # fs) = (qp, s) # (a, v) # L"
      using m'(2) x qa ab by (simp del: give_back.simps(2) add: give_back.simps(2) [of b t qp])
    then show ?thesis using m' q rec l x Cons.prems(6) by (auto simp: links_Cons)
  qed
qed

text \<open>\<open>chHeapFree\<close>'s loop refines \<open>give_back\<close>. The list header \<open>fr\<close> is a field of the heap object, followed by others.\<close>

lemma heap_release_ok:
  assumes f: "flist m fr fs" and b: "\<forall>x \<in> set fs. apart2 (b, t) x" "h_size m b = t" "0 < b"
    and fr: "h_size m fr = 0" "b + HDR + t \<le> fr \<or> fr + HDR < b"
  shows "\<exists>m'. heap_release fr b fr m = Some m' \<and> flist m' fr (give_back (b, t) fs) \<and> h_size m' fr = 0 \<and>
    (\<forall>x. x \<notin> insert fr (insert b (fst ` set fs)) \<longrightarrow> h_u m' x = h_u m x \<and> h_size m' x = h_size m x)"
proof -
  have l: "links m fr fs" "\<forall>x \<in> set fs. outside fr x" "sorted_wrt gap fs" using f by (auto simp: flist_links)
  have "outside fr (b, t)" using fr(2) by (auto simp: outside_def)
  then have abs: "sorted_wrt gap (give_back (b, t) fs)" "\<forall>y \<in> set (give_back (b, t) fs). outside fr y"
    using give_back_sorted [OF l(3) b(1)] give_back_outside [OF l(3) _ l(2)] by auto
  have nb: "fr \<noteq> b" "fr \<notin> fst ` set fs" using fr(2) l(2) by (auto simp: HDR_def outside_def)
  have "\<exists>m'. heap_release fr b fr m = Some m' \<and> links m' fr (give_back (b, t) fs) \<and> h_size m' fr = 0 \<and>
    (\<forall>x. x \<notin> insert fr (insert b (fst ` set fs)) \<longrightarrow> h_u m' x = h_u m x \<and> h_size m' x = h_size m x)"
  proof (cases "\<forall>y \<in> set fs. b + HDR + t \<le> fst y")
    case True
    have "\<exists>m' u gs. heap_release fr b fr m = Some m' \<and> give_back (b, t) fs = (b, u) # gs \<and>
      (\<forall>x. x \<notin> insert fr (insert b (fst ` set fs)) \<longrightarrow> h_u m' x = h_u m x \<and> h_size m' x = h_size m x) \<and>
      (if fr + HDR + 0 = b then links m' fr gs \<and> h_size m' fr = 0 + (u + HDR)
       else links m' fr ((b, u) # gs) \<and> h_size m' fr = 0)"
      by (rule heap_insert_here [OF l(1) True l(3) b(2,3) fr(1)]) (use nb fr(2) in auto)
    then show ?thesis using fr(2) by (auto simp: HDR_def)
  next
    case False
    then obtain a s fs' where fs: "fs = (a, s) # fs'" by (cases fs) auto
    then have ab: "a + HDR + s \<le> b" using False b(1) l(3) by (auto simp: apart2_def gap_def)
    have h: "h_u m fr = a" "h_size m a = s" "links m a fs'" "0 < a" using l(1) fs by (auto simp: links_Cons)
    obtain m' v L where m': "heap_release fr b a m = Some m'" "give_back (b, t) fs = (a, v) # L" "links m' a L"
        "h_size m' a = v" "\<And>x. x \<notin> insert a (insert b (fst ` set fs')) \<Longrightarrow> h_u m' x = h_u m x \<and> h_size m' x = h_size m x"
      using heap_release_links [OF h(3), of s b t fr] l(3) b h(2) ab nb fs by auto
    moreover have "heap_release fr b fr m = heap_release fr b a m"
      using ab fr h(1,4) by (subst heap_release.simps) (auto simp: LIMIT_def assert_that_def HDR_def)
    ultimately show ?thesis using nb fs h(1,4) fr(1) by (auto simp: links_Cons)
  qed
  then show ?thesis using abs by (auto simp: flist_links)
qed

subsection \<open>Heap states\<close>

text \<open>
  \<open>clear fr x\<close>: the block lies clear of the list header \<open>fr\<close> and of the byte after it.
  \<open>heap_ok m fr heapp fs us\<close>: the free blocks are \<open>fs\<close>, in address order and fully merged; the
  allocated ones are \<open>us\<close>, each marked with its heap; no two of all these blocks overlap, and all end below
  \<open>2 ^ 32\<close>, so that sums of their sizes do not wrap.
\<close>

definition clear :: "nat \<Rightarrow> block \<Rightarrow> bool" where
  "clear fr x \<longleftrightarrow> fst x + HDR + snd x \<le> fr \<or> fr + HDR < fst x"

definition heap_ok :: "mem_t \<Rightarrow> nat \<Rightarrow> nat \<Rightarrow> block list \<Rightarrow> block list \<Rightarrow> bool" where
  "heap_ok m fr heapp fs us \<longleftrightarrow>
     flist m fr fs \<and> h_size m fr = 0 \<and>
     (\<forall>x \<in> set us. h_u m (fst x) = heapp \<and> h_size m (fst x) = snd x \<and> 0 < fst x) \<and>
     sorted_wrt apart2 us \<and> (\<forall>x \<in> set us. \<forall>y \<in> set fs. apart2 x y) \<and>
     (\<forall>x \<in> set fs \<union> set us. clear fr x \<and> fst x + HDR + snd x < 2 ^ 32)"

lemma apart2_sym: "apart2 x y \<Longrightarrow> apart2 y x"
  by (auto simp: apart2_def)

lemma clear_iff: "clear fr x \<longleftrightarrow> (\<forall>p. fr \<le> p \<longrightarrow> p \<le> fr + HDR \<longrightarrow> outside p x)"
proof
  assume a: "\<forall>p. fr \<le> p \<longrightarrow> p \<le> fr + HDR \<longrightarrow> outside p x"
  show "clear fr x"
    using a [THEN spec, of fr] a [THEN spec, of "fst x"] by (auto simp: clear_def outside_def HDR_def)
qed (auto simp: clear_def outside_def)

lemma apart2_iff: "apart2 z x \<longleftrightarrow> (\<forall>p. fst z \<le> p \<longrightarrow> p < fst z + HDR + snd z \<longrightarrow> outside p x)"
proof
  assume a: "\<forall>p. fst z \<le> p \<longrightarrow> p < fst z + HDR + snd z \<longrightarrow> outside p x"
  show "apart2 z x"
    using a [THEN spec, of "fst z"] a [THEN spec, of "fst x"] by (auto simp: apart2_def outside_def HDR_def)
qed (auto simp: apart2_def outside_def)

lemma below_iff: "fst x + HDR + snd x < N \<longleftrightarrow> (\<forall>p. N - 1 \<le> p \<longrightarrow> outside p x)" if "0 < N"
proof
  assume a: "\<forall>p. N - 1 \<le> p \<longrightarrow> outside p x"
  show "fst x + HDR + snd x < N"
    using a [THEN spec, of "N - 1"] a [THEN spec, of "max (N - 1) (fst x)"] that
    by (auto simp: outside_def HDR_def max_def split: if_splits)
qed (auto simp: outside_def)

lemma clear_within: "within y x \<Longrightarrow> clear fr x \<Longrightarrow> clear fr y"
  by (auto simp: within_def clear_def)

lemma outside_all: "clear fr x \<Longrightarrow> outside fr x" "apart2 z x \<Longrightarrow> outside (fst z) x"
  by (auto simp: clear_def apart2_def outside_def HDR_def)

lemma apart2_ne: "apart2 x y \<Longrightarrow> fst x \<noteq> fst y"
  by (auto simp: apart2_def HDR_def)

lemma clear_ne: "clear fr x \<Longrightarrow> fst x \<noteq> fr"
  by (auto simp: clear_def HDR_def)

lemma heap_okD:
  assumes "heap_ok m fr heapp fs us"
  shows "flist m fr fs" "h_size m fr = 0" "x \<in> set us \<Longrightarrow> y \<in> set fs \<Longrightarrow> apart2 x y"
    "x \<in> set fs \<union> set us \<Longrightarrow> clear fr x" "x \<in> set fs \<union> set us \<Longrightarrow> fst x + HDR + snd x < 2 ^ 32"
    "x \<in> set us \<Longrightarrow> h_u m (fst x) = heapp \<and> h_size m (fst x) = snd x \<and> 0 < fst x" "sorted_wrt apart2 us"
  using assms unfolding heap_ok_def by auto

lemma take_first_apart:
  assumes "sorted_wrt gap fs" "take_first sz fs = Some (b, gs)"
  shows "\<forall>y \<in> set gs. apart2 b y"
  using assms
proof (induction fs arbitrary: gs)
  case (Cons x fs)
  obtain a s where x: "x = (a, s)" by (cases x)
  show ?case
  proof (cases "s \<ge> sz")
    case True
    have "a + HDR + s < fst y" if "y \<in> set fs" for y using Cons.prems(1) x that by (simp add: gap_def)
    then show ?thesis using Cons.prems(2) x True by (force simp: apart2_def split: if_splits)
  next
    case False
    then obtain gs' where g: "take_first sz fs = Some (b, gs')" "gs = x # gs'"
      using Cons.prems x by (cases "take_first sz fs") auto
    obtain y where "y \<in> set fs" "within b y" using take_first_within [OF g(1)] by blast
    then have "apart2 b x" using Cons.prems(1) by (auto simp: within_def gap_def apart2_def)
    then show ?thesis using Cons g by simp
  qed
qed simp

lemma take_first_size: "take_first sz fs = Some (b, gs) \<Longrightarrow> sz \<le> snd b"
  by (induction fs arbitrary: gs) (auto split: if_splits)

lemma heap_ok_take:
  assumes ok: "heap_ok m fr heapp fs us" and t: "take_first sz fs = Some (b, gs)" and sz: "sz + HDR < 2 ^ 32"
  shows "\<exists>m'. heap_search heapp sz fr m = Some (Some (fst b), m') \<and> heap_ok m' fr heapp gs (b # us)"
proof -
  have f: "flist m fr fs" "\<forall>x \<in> set us. \<forall>y \<in> set fs. apart2 x y" using ok by (auto simp: heap_ok_def)
  obtain m' where m': "heap_search heapp sz fr m = Some (Some (fst b), m')" "flist m' fr gs" "h_u m' (fst b) = heapp"
      "h_size m' (fst b) = snd b"
      "\<And>x. (\<forall>y \<in> set fs. outside x y) \<Longrightarrow> (x \<noteq> fr \<longrightarrow> h_u m' x = h_u m x) \<and> h_size m' x = h_size m x"
    using heap_search_ok [OF f(1) sz, of heapp] t by (cases b) auto
  note w = take_first_within [OF t] and a = take_first_apart [OF _ t]
  obtain x where x: "x \<in> set fs" "within b x" "fst b = fst x" using w by blast
  have us: "h_u m' (fst y) = h_u m (fst y) \<and> h_size m' (fst y) = h_size m (fst y)" if "y \<in> set us" for y
  proof -
    have "\<forall>z \<in> set fs. outside (fst y) z" using f(2) that outside_all(2) by blast
    moreover have "fst y \<noteq> fr" using heap_okD(4) [OF ok, of y] that clear_ne by blast
    ultimately show ?thesis using m'(5) by blast
  qed
  have "apart2 b y" if "y \<in> set us" for y
    using within_apart [OF x(2)] f(2) that x(1) apart2_sym by blast
  moreover have "apart2 y z" if "y \<in> set us" "z \<in> set gs" for y z
    using w that f(2) within_apart apart2_sym by (metis (no_types))
  moreover have "clear fr y \<and> fst y + HDR + snd y < 2 ^ 32" if "y \<in> insert b (set gs)" for y
  proof -
    have "\<exists>z \<in> set fs. within y z" using that w x by (cases "y = b") auto
    then obtain z where "z \<in> set fs" "within y z" by blast
    then show ?thesis using heap_okD(4,5) [OF ok, of z] clear_within by (auto simp: within_def)
  qed
  moreover have "h_size m' fr = 0" "0 < fst b" "\<forall>y \<in> set gs. apart2 b y"
    using m'(5) [of fr] ok f(1) a x by (auto simp: heap_ok_def flist_def)
  ultimately have "heap_ok m' fr heapp gs (b # us)" using m' us ok by (auto simp: heap_ok_def)
  then show ?thesis using m'(1) by blast
qed

lemma heap_ok_give:
  assumes ok: "heap_ok m fr heapp fs (us @ b # vs)"
  shows "\<exists>m'. heap_release fr (fst b) fr m = Some m' \<and> heap_ok m' fr heapp (give_back b fs) (us @ vs)"
proof -
  obtain c t where b: "b = (c, t)" by (cases b)
  have f: "flist m fr fs" "\<forall>x \<in> set fs. apart2 (c, t) x" "h_size m c = t" "0 < c" "h_size m fr = 0" "clear fr (c, t)"
    using ok b by (auto simp: heap_ok_def)
  then obtain m' where m': "heap_release fr c fr m = Some m'" "flist m' fr (give_back (c, t) fs)" "h_size m' fr = 0"
      "\<And>x. x \<notin> insert fr (insert c (fst ` set fs)) \<Longrightarrow> h_u m' x = h_u m x \<and> h_size m' x = h_size m x"
    using heap_release_ok [OF f(1-5)] by (auto simp: clear_def)
  have srt: "sorted_wrt gap fs" using f(1) by (simp add: flist_def)
  have gb: "\<forall>y \<in> set (give_back (c, t) fs). outside p y" if "outside p (c, t)" "\<forall>y \<in> set fs. outside p y" for p
    using give_back_outside [OF srt that] .
  have ap: "apart2 x b" if "x \<in> set (us @ vs)" for x
    using ok that by (auto simp: heap_ok_def sorted_wrt_append intro: apart2_sym)
  have us: "h_u m' (fst y) = h_u m (fst y) \<and> h_size m' (fst y) = h_size m (fst y)" if y: "y \<in> set (us @ vs)" for y
  proof -
    have "fst y \<noteq> fst z" if "z \<in> set fs" for z
      using heap_okD(3) [OF ok, of y z] y that by (auto dest: apart2_ne)
    moreover have "fst y \<noteq> fr" "fst y \<noteq> c"
      using heap_okD(4) [OF ok, of y] y ap [OF y] b by (auto dest: apart2_ne clear_ne)
    ultimately have "fst y \<notin> insert fr (insert c (fst ` set fs))" by fastforce
    then show ?thesis by (rule m'(4))
  qed
  have "apart2 x y" if "x \<in> set (us @ vs)" "y \<in> set (give_back (c, t) fs)" for x y
  proof (unfold apart2_iff, intro allI impI)
    fix p assume p: "fst x \<le> p" "p < fst x + HDR + snd x"
    have "outside p (c, t)" using ap [OF that(1)] b p by (simp add: apart2_iff)
    moreover have "\<forall>z \<in> set fs. outside p z"
      using heap_okD(3) [OF ok, of x] that(1) p by (auto simp: apart2_iff)
    ultimately show "outside p y" using gb that(2) by blast
  qed
  moreover have "clear fr y" if "y \<in> set (give_back (c, t) fs)" for y
  proof (unfold clear_iff, intro allI impI)
    fix p assume p: "fr \<le> p" "p \<le> fr + HDR"
    have "outside p (c, t)" using f(6) p by (simp add: clear_iff)
    moreover have "\<forall>z \<in> set fs. outside p z" using heap_okD(4) [OF ok] p by (auto simp: clear_iff)
    ultimately show "outside p y" using gb that by blast
  qed
  moreover have "fst y + HDR + snd y < 2 ^ 32" if "y \<in> set (give_back (c, t) fs)" for y
  proof -
    have "outside p y" if p: "2 ^ 32 - 1 \<le> p" for p
      using gb [of p] below_iff [of "2 ^ 32" "(c, t)"] below_iff [of "2 ^ 32"] heap_okD(5) [OF ok] b p
        \<open>y \<in> set (give_back (c, t) fs)\<close> by auto
    then show ?thesis using below_iff [of "2 ^ 32" y] by simp
  qed
  ultimately have "heap_ok m' fr heapp (give_back (c, t) fs) (us @ vs)"
    using m'(2,3) us heap_okD(4-7) [OF ok] by (simp add: heap_ok_def sorted_wrt_append ball_Un)
  then show ?thesis using m'(1) b by auto
qed

subsection \<open>The heap operations\<close>

text \<open>A free mutex is taken and released without changing the kernel state.\<close>

definition mtx_idle :: "nat \<Rightarrow> ch_system \<Rightarrow> bool" where
  "mtx_idle mp k \<longleftrightarrow> class_thread k \<and> resched_ok k \<and> m_owner k mp = None \<and> queues k (Q_MTX mp) = []"

lemma mtx_idle_lock:
  assumes "mtx_idle mp k"
  shows "chMtxLock mp k = Some (Done (), mtx_take mp (r_current k) k)"
    and "chMtxUnlock mp (mtx_take mp (r_current k) k) = Some (Done (), k)"
proof -
  have th: "class_thread k" "resched_ok k" "m_owner k mp = None" "queues k (Q_MTX mp) = []"
    using assms by (auto simp: mtx_idle_def)
  have z: "k\<lparr>lock_cnt := 0\<rparr> = k" using th(1) by (intro ch_system.equality) (simp_all add: class_thread_def)
  have S: "chDbgCheckClassS (k\<lparr>lock_cnt := 1\<rparr>) = Some ()" using th(1) by (simp add: chDbgCheckClassS_def class_thread_def)
  show "chMtxLock mp k = Some (Done (), mtx_take mp (r_current k) k)"
    using th by (simp add: chMtxLock_def chSysLock_ok S chMtxLockS_def Let_def chSysUnlock_def dbg_check_unlock_def
        class_thread_def mtx_take_def resched_ok_iff) (intro ch_system.equality; simp add: set_owner_def upd_thd_def)
  show "chMtxUnlock mp (mtx_take mp (r_current k) k) = Some (Done (), k)"
    using th by (simp add: chMtxUnlock_def Let_def chSysLock_def dbg_check_lock_def class_thread_def mtx_take_def
        chMtxQueueNotEmptyS_def chDbgCheckClassS_def queue_notempty_def chSysUnlock_def dbg_check_unlock_def resched_ok_iff)
      (intro ch_system.equality; auto simp: fun_eq_iff set_owner_def upd_thd_def)
qed

lemma andthen_mem_Done [simp]: "andthen_mem m (Done a, k) f = f a k"
  by (simp add: andthen_mem_def)

lemma chHeapAlloc_idle:
  assumes "mtx_idle (h_mtx h) k"
  shows "chHeapAlloc h heapp n m k =
    do { (found, m) \<leftarrow> heap_search heapp (MEM_ALIGN_NEXT n) (h_free h) m;
         chHeapAlloc_k2 h heapp (MEM_ALIGN_NEXT n) found m k }"
  using mtx_idle_lock [OF assms] by (simp add: chHeapAlloc_def chHeapAlloc_k_def Let_def case_prod_unfold)

lemma chHeapFree_idle:
  assumes "mtx_idle (h_mtx h) k" "heaps (h_u m b) = h"
  shows "chHeapFree heaps (b + HDR) m k = do { m \<leftarrow> heap_release (h_free h) b (h_free h) m; Some (Done (), m, k) }"
  using mtx_idle_lock [OF assms(1)] assms(2) by (simp add: chHeapFree_def chHeapFree_k_def)

lemma MEM_ALIGN_NEXT_ge:
  assumes "n + 7 < 2 ^ 32"
  shows "n \<le> MEM_ALIGN_NEXT n" "MEM_ALIGN_NEXT n \<le> n + 7" "MEM_ALIGN_NEXT n mod 8 = 0"
proof -
  have e: "MEM_ALIGN_NEXT n = n + 7 - (n + 7) mod 8"
    using assms by (simp add: MEM_ALIGN_NEXT_def MEM_ALIGN_PREV_def MEM_ALIGN_MASK_def MEM_ALIGN_SIZE_def)
  have "(n + 7) mod 8 < 8" by simp
  then show "n \<le> MEM_ALIGN_NEXT n" "MEM_ALIGN_NEXT n \<le> n + 7" unfolding e by linarith+
  show "MEM_ALIGN_NEXT n mod 8 = 0" unfolding e by (metis dvd_minus_mod mod_0_imp_dvd dvd_imp_mod_0)
qed


text \<open>A heap over a buffer of 64 bytes at address 1000, and the same heap with 8 bytes allocated.\<close>

definition mem0 :: mem_t where
  "mem0 = \<lparr>nextmem = 0, endmem = 0, h_u = \<lambda>_. 0, h_size = \<lambda>_. 0, ph_next = \<lambda>_. 0\<rparr>"

definition heap1 :: memory_heap_t where
  "heap1 = \<lparr>h_provider = None, h_free = 200, h_mtx = 7\<rparr>"

definition mem1 :: mem_t where
  "mem1 = set_size 1000 56 (set_u 200 1000 mem0)"

definition mem2 :: mem_t where
  "mem2 = set_size 1016 40 (set_size 1000 8 (set_u 1000 200 (set_u 200 1016 mem0)))"

lemma heap1_facts:
  "mtx_idle (h_mtx heap1) sys0" "h_provider heap1 = None" "heap_ok mem1 (h_free heap1) 200 [(1000, 56)] []"
  "heap_ok mem2 (h_free heap1) 200 [(1016, 40)] [(1000, 8)]"
  using sys0_facts(1,2)
  by (simp_all add: mtx_idle_def heap1_def mem1_def mem2_def mem0_def heap_ok_def flist_def outside_def clear_def
      apart2_def HDR_def) (simp_all add: sys0_def)

lemma chHeapObjectInit_heap1: "chHeapObjectInit 200 7 1000 64 sys0 mem0 = Some (heap1, chMtxObjectInit 7 sys0, mem1)"
  by (simp add: chHeapObjectInit_def MEM_IS_ALIGNED_def MEM_ALIGN_SIZE_def heap1_def mem1_def mem0_def HDR_def fun_upd_twist)
     (simp add: fun_eq_iff)


text \<open>
  C14. \<open>chHeapFree\<close> of any allocated block returns it to the free list in address order, merged with the
  free blocks it touches, so that the list is again fully merged; the other allocated blocks keep their
  place and content marks. The heap is unlocked again.
\<close>

theorem chHeapFree_coalesces:
  assumes "mtx_idle (h_mtx h) k" "heap_ok m (h_free h) heapp fs (us @ b # vs)" "heaps heapp = h"
  shows "\<exists>m'. chHeapFree heaps (fst b + HDR) m k = Some (Done (), m', k) \<and>
    heap_ok m' (h_free h) heapp (give_back b fs) (us @ vs)"
proof -
  have "heaps (h_u m (fst b)) = h" using heap_okD(6) [OF assms(2), of b] assms(3) by simp
  then show ?thesis using heap_ok_give [OF assms(2)] chHeapFree_idle [OF assms(1)] by fastforce
qed

theorem chHeapFree_coalesces_witness:
  "\<exists>m'. chHeapFree (\<lambda>_. heap1) 1008 mem2 sys0 = Some (Done (), m', sys0) \<and>
     heap_ok m' (h_free heap1) 200 [(1000, 56)] []"
  using chHeapFree_coalesces [OF heap1_facts(1), of mem2 200 "[(1016, 40)]" "[]" "(1000, 8)" "[]" "\<lambda>_. heap1"]
    heap1_facts(4) by (simp add: HDR_def)

text \<open>
  Allocating a block from a heap and freeing it restores the free list exactly: nothing is lost
  to fragmentation or to header bytes.
\<close>

theorem chHeapAlloc_free_roundtrip:
  assumes "mtx_idle (h_mtx h) k" "heap_ok m (h_free h) heapp fs us" "h_provider h = None" "n + 16 < 2 ^ 32"
    "heaps heapp = h" "\<exists>x \<in> set fs. MEM_ALIGN_NEXT n \<le> snd x"
  shows "\<exists>p m1 m2. chHeapAlloc h heapp n m k = Some (Done p, m1, k) \<and> p \<noteq> 0 \<and>
    chHeapFree heaps p m1 k = Some (Done (), m2, k) \<and> heap_ok m2 (h_free h) heapp fs us"
proof -
  obtain b gs where t: "take_first (MEM_ALIGN_NEXT n) fs = Some (b, gs)"
    using assms(6) take_first_None [of "MEM_ALIGN_NEXT n" fs] by (metis not_less option.exhaust surj_pair)
  have sz: "MEM_ALIGN_NEXT n + HDR < 2 ^ 32" using MEM_ALIGN_NEXT_ge(2) [of n] assms(4) by (simp add: HDR_def)
  obtain m1 where m1: "heap_search heapp (MEM_ALIGN_NEXT n) (h_free h) m = Some (Some (fst b), m1)"
      "heap_ok m1 (h_free h) heapp gs (b # us)"
    using heap_ok_take [OF assms(2) t sz] by blast
  obtain m2 where m2: "heap_release (h_free h) (fst b) (h_free h) m1 = Some m2" "heap_ok m2 (h_free h) heapp (give_back b gs) us"
    using heap_ok_give [of m1 "h_free h" heapp gs "[]" b us] m1(2) by auto
  have "give_back b gs = fs" using take_first_give_back [OF _ t] heap_okD(1) [OF assms(2)] by (simp add: flist_def)
  moreover have "heaps (h_u m1 (fst b)) = h" using heap_okD(6) [OF m1(2), of b] assms(5) by simp
  ultimately show ?thesis
    using m1(1) m2 chHeapFree_idle [where b = "fst b", OF assms(1)]
    by (intro exI [of _ "fst b + HDR"] exI [of _ m1] exI [of _ m2])
      (simp add: chHeapAlloc_idle [OF assms(1)] chHeapAlloc_k2_def)
qed

theorem chHeapAlloc_free_roundtrip_witness:
  "\<exists>p m1 m2. chHeapAlloc heap1 200 5 mem1 sys0 = Some (Done p, m1, sys0) \<and> p \<noteq> 0 \<and>
     chHeapFree (\<lambda>_. heap1) p m1 sys0 = Some (Done (), m2, sys0) \<and> heap_ok m2 (h_free heap1) 200 [(1000, 56)] []"
proof -
  have "MEM_ALIGN_NEXT 5 = 8" by (simp add: MEM_ALIGN_NEXT_def MEM_ALIGN_PREV_def MEM_ALIGN_MASK_def MEM_ALIGN_SIZE_def)
  then show ?thesis using chHeapAlloc_free_roundtrip [OF heap1_facts(1,3,2), of 5 "\<lambda>_. heap1"] by simp
qed

subsection \<open>The core allocator hands out disjoint memory\<close>

lemma wrap_diff:
  assumes "n \<le> e" "e < (N :: nat)"
  shows "(N + e - n) mod N = e - n"
proof -
  have "(N + e - n) mod N = (N + (e - n)) mod N" using assms(1) by simp
  also have "\<dots> = e - n" using assms(2) by (simp only: mod_add_self1) simp
  finally show ?thesis .
qed

text \<open>
  The core allocator never hands out memory twice. For a request that rounds up without wrapping, it
  returns \<open>NULL\<close> and changes nothing if fewer bytes are left; otherwise it returns an aligned address such
  that the whole request lies between the old and the new limit of used memory, inside the core region.
\<close>

theorem chCoreAllocI_bounds:
  assumes "class_I k" "nextmem m \<le> endmem m" "endmem m < 2 ^ 32" "MEM_IS_ALIGNED (nextmem m)" "n + 7 < 2 ^ 32"
  shows "\<exists>p m'. chCoreAllocI n k m = Some (p, m') \<and>
    (if chCoreGetStatusX m < MEM_ALIGN_NEXT n then p = 0 \<and> m' = m
     else p = nextmem m \<and> MEM_IS_ALIGNED p \<and> MEM_IS_ALIGNED (nextmem m') \<and> p + n \<le> nextmem m' \<and>
          nextmem m' \<le> endmem m' \<and> endmem m' = endmem m \<and>
          chCoreGetStatusX m' = chCoreGetStatusX m - MEM_ALIGN_NEXT n)"
proof -
  have e': "chCoreGetStatusX (m\<lparr>nextmem := nextmem m + s\<rparr>) = endmem m - nextmem m - s" if "s \<le> endmem m - nextmem m" for s
    using wrap_diff [of "nextmem m + s" "endmem m" "2 ^ 32"] that assms(2,3) by (simp add: chCoreGetStatusX_def)
  have e: "chCoreGetStatusX m = endmem m - nextmem m" using e' [of 0] by simp
  note a = MEM_ALIGN_NEXT_ge [OF assms(5)]
  have al: "MEM_IS_ALIGNED (nextmem m + MEM_ALIGN_NEXT n)"
    using a(3) assms(4) by (simp add: MEM_IS_ALIGNED_def MEM_ALIGN_SIZE_def mod_add_eq [symmetric])
  have c: "chCoreAllocI n k m = (if chCoreGetStatusX m < MEM_ALIGN_NEXT n then Some (0, m)
      else Some (nextmem m, m\<lparr>nextmem := nextmem m + MEM_ALIGN_NEXT n\<rparr>))"
    using assms(1) by (simp add: chCoreAllocI_def Let_def chCoreGetStatusX_def)
  show ?thesis
  proof (cases "chCoreGetStatusX m < MEM_ALIGN_NEXT n")
    case False
    then have f: "MEM_ALIGN_NEXT n \<le> endmem m - nextmem m" using e by simp
    then show ?thesis using False c al a(1) assms(2,4) e e' [OF f] by simp
  qed (use c in simp)
qed

theorem chCoreAllocI_bounds_witness:
  "\<exists>p m'. chCoreAllocI 5 (sys0\<lparr>lock_cnt := 1\<rparr>) (mem0\<lparr>nextmem := 1000, endmem := 1064\<rparr>) = Some (p, m') \<and>
     p = 1000 \<and> chCoreGetStatusX m' = 56"
proof -
  have "MEM_ALIGN_NEXT 5 = 8" by (simp add: MEM_ALIGN_NEXT_def MEM_ALIGN_PREV_def MEM_ALIGN_MASK_def MEM_ALIGN_SIZE_def)
  then show ?thesis
    using chCoreAllocI_bounds [of "sys0\<lparr>lock_cnt := 1\<rparr>" "mem0\<lparr>nextmem := 1000, endmem := 1064\<rparr>" 5]
    by (auto simp: class_I_def MEM_IS_ALIGNED_def MEM_ALIGN_SIZE_def chCoreGetStatusX_def) (auto simp: sys0_def)
qed

text \<open>
  Rounding up wraps around: the largest request is rounded to 0 bytes and succeeds without reserving anything.
\<close>

lemma chCoreAllocI_wraps:
  assumes "class_I k"
  shows "chCoreAllocI (2 ^ 32 - 1) k m = Some (nextmem m, m)"
proof -
  have "MEM_ALIGN_NEXT (2 ^ 32 - 1) = 0"
    by (simp add: MEM_ALIGN_NEXT_def MEM_ALIGN_PREV_def MEM_ALIGN_MASK_def MEM_ALIGN_SIZE_def)
  then show ?thesis using assms by (simp add: chCoreAllocI_def Let_def)
qed

subsection \<open>Memory pools are stacks of objects\<close>

primrec plist :: "(nat \<Rightarrow> nat) \<Rightarrow> nat \<Rightarrow> nat list \<Rightarrow> bool" where
  "plist f p [] \<longleftrightarrow> p = 0"
| "plist f p (x # xs) \<longleftrightarrow> p = x \<and> x \<noteq> 0 \<and> plist f (f x) xs"

definition pool_ok :: "memory_pool_t \<Rightarrow> mem_t \<Rightarrow> nat list \<Rightarrow> bool" where
  "pool_ok mp m xs \<longleftrightarrow> plist (ph_next m) (mp_next mp) xs \<and> distinct xs"

lemma plist_upd [simp]: "x \<notin> set xs \<Longrightarrow> plist (f(x := v)) p xs = plist f p xs"
  by (induction xs arbitrary: p) auto

lemma chPoolObjectInit_ok: "4 \<le> sz \<Longrightarrow> \<exists>mp. chPoolObjectInit sz pr = Some mp \<and> pool_ok mp m [] \<and> mp_object_size mp = sz \<and> mp_provider mp = pr"
  by (simp add: chPoolObjectInit_def pool_ok_def)

fun take_many :: "('s \<Rightarrow> ('a \<times> 's) option) \<Rightarrow> nat \<Rightarrow> 's \<Rightarrow> ('a list \<times> 's) option" where
  "take_many tk 0 s = Some ([], s)"
| "take_many tk (Suc n) s = do { (x, s) \<leftarrow> tk s; (xs, s) \<leftarrow> take_many tk n s; Some (x # xs, s) }"

text \<open>The client's view of a pool: objects are taken from and returned to a stack.\<close>

locale object_stack =
  fixes rep :: "'s \<Rightarrow> 'a list \<Rightarrow> bool" and take :: "'s \<Rightarrow> ('a \<times> 's) option" and give :: "'a \<Rightarrow> 's \<Rightarrow> 's option"
    and null :: 'a
  assumes take_Cons: "rep s (x # xs) \<Longrightarrow> \<exists>s'. take s = Some (x, s') \<and> rep s' xs"
    and take_Nil: "rep s [] \<Longrightarrow> take s = Some (null, s)"
    and give_push: "rep s xs \<Longrightarrow> x \<noteq> null \<Longrightarrow> x \<notin> set xs \<Longrightarrow> \<exists>s'. give x s = Some s' \<and> rep s' (x # xs)"
    and rep_ne: "rep s xs \<Longrightarrow> null \<notin> set xs \<and> distinct xs"
begin

lemma take_many_all: "rep s (xs @ ys) \<Longrightarrow> \<exists>s'. take_many take (length xs) s = Some (xs, s') \<and> rep s' ys"
proof (induction xs arbitrary: s)
  case (Cons x xs)
  then obtain s1 where "take s = Some (x, s1)" "rep s1 (xs @ ys)" using take_Cons by fastforce
  moreover from this obtain s2 where "take_many take (length xs) s1 = Some (xs, s2)" "rep s2 ys" using Cons.IH by blast
  ultimately show ?case by simp
qed simp

lemma give_take:
  assumes "rep s xs" "x \<noteq> null" "x \<notin> set xs"
  shows "\<exists>s' s''. give x s = Some s' \<and> take s' = Some (x, s'') \<and> rep s'' xs"
  using give_push [OF assms] take_Cons by blast

end

text \<open>A pool without a provider, used from a thread.\<close>

definition pool_rep :: "memory_pool_t \<times> mem_t \<times> ch_system \<Rightarrow> nat list \<Rightarrow> bool" where
  "pool_rep = (\<lambda>(mp, m, k) xs. pool_ok mp m xs \<and> mp_provider mp = None \<and> class_thread k \<and> resched_ok k)"

lemma lock_unlock:
  assumes "class_thread k" "resched_ok k"
  shows "chSysLock k = Some (k\<lparr>lock_cnt := 1\<rparr>)" "chSysUnlock (k\<lparr>lock_cnt := 1\<rparr>) = Some k"
    "chDbgCheckClassI (k\<lparr>lock_cnt := 1\<rparr>) = Some ()"
proof -
  have z: "k\<lparr>lock_cnt := 0\<rparr> = k" using assms(1) by (intro ch_system.equality) (simp_all add: class_thread_def)
  show "chSysUnlock (k\<lparr>lock_cnt := 1\<rparr>) = Some k"
    using assms z by (simp add: chSysUnlock_def dbg_check_unlock_def class_thread_def resched_ok_iff)
qed (use assms in \<open>simp_all add: chSysLock_ok chDbgCheckClassI_def class_thread_def\<close>)

lemma chPoolFree_ok:
  assumes "class_thread k" "resched_ok k" "p \<noteq> 0"
  shows "chPoolFree p mp m k = Some (mp\<lparr>mp_next := p\<rparr>, m\<lparr>ph_next := (ph_next m)(p := mp_next mp)\<rparr>, k)"
  using lock_unlock [OF assms(1,2)] assms(3) by (simp add: chPoolFree_def chPoolFreeI_def Let_def)

lemma chPoolAlloc_ok:
  assumes "class_thread k" "resched_ok k" "mp_provider mp = None"
  shows "chPoolAlloc mp m k =
    Some (if mp_next mp \<noteq> 0 then (mp_next mp, mp\<lparr>mp_next := ph_next m (mp_next mp)\<rparr>, m, k) else (0, mp, m, k))"
  using lock_unlock [OF assms(1,2)] assms(3) by (simp add: chPoolAlloc_def chPoolAllocI_def Let_def)

lemma pool_ok_push:
  "pool_ok mp m xs \<Longrightarrow> p \<noteq> 0 \<Longrightarrow> p \<notin> set xs \<Longrightarrow>
   pool_ok (mp\<lparr>mp_next := p\<rparr>) (m\<lparr>ph_next := (ph_next m)(p := mp_next mp)\<rparr>) (p # xs)"
  by (simp add: pool_ok_def)

lemma plist_nonzero: "plist f p xs \<Longrightarrow> 0 \<notin> set xs"
  by (induction xs arbitrary: p) auto

interpretation pool: object_stack pool_rep "\<lambda>(mp, m, k). chPoolAlloc mp m k" "\<lambda>p (mp, m, k). chPoolFree p mp m k" 0
proof
  fix s x xs assume "pool_rep s (x # xs)"
  then show "\<exists>s'. (case s of (mp, m, k) \<Rightarrow> chPoolAlloc mp m k) = Some (x, s') \<and> pool_rep s' xs"
    by (cases s) (simp add: pool_rep_def chPoolAlloc_ok pool_ok_def)
next
  fix s assume "pool_rep s []"
  then show "(case s of (mp, m, k) \<Rightarrow> chPoolAlloc mp m k) = Some (0, s)"
    by (cases s) (simp add: pool_rep_def chPoolAlloc_ok pool_ok_def)
next
  fix s xs x assume "pool_rep s xs" "x \<noteq> 0" "x \<notin> set xs"
  then show "\<exists>s'. (case s of (mp, m, k) \<Rightarrow> chPoolFree x mp m k) = Some s' \<and> pool_rep s' (x # xs)"
    by (cases s) (simp add: pool_rep_def chPoolFree_ok pool_ok_push)
next
  fix s xs assume "pool_rep s xs"
  then show "0 \<notin> set xs \<and> distinct xs" using plist_nonzero by (cases s) (auto simp: pool_rep_def pool_ok_def)
qed

lemma pool_load_loop_ok:
  assumes "pool_rep (mp, m, k) xs" "0 < p" "0 < mp_object_size mp" "\<forall>x \<in> set xs. x < p"
  shows "\<exists>mp' m'. pool_load_loop n p mp m k = Some (mp', m', k) \<and>
    pool_rep (mp', m', k) (rev (map (\<lambda>i. p + i * mp_object_size mp) [0..<n]) @ xs) \<and> mp_object_size mp' = mp_object_size mp"
  using assms
proof (induction n arbitrary: p mp m xs)
  case (Suc n)
  let ?mp = "mp\<lparr>mp_next := p\<rparr>" and ?m = "m\<lparr>ph_next := (ph_next m)(p := mp_next mp)\<rparr>" and ?s = "mp_object_size mp"
  have f: "chPoolAdd p mp m k = Some (?mp, ?m, k)"
    using Suc.prems by (simp add: chPoolAdd_def chPoolFree_ok pool_rep_def)
  have r: "pool_rep (?mp, ?m, k) (p # xs)" using Suc.prems by (auto simp: pool_rep_def intro!: pool_ok_push)
  have b: "\<forall>x \<in> set (p # xs). x < p + ?s" using Suc.prems by auto
  have l: "map (\<lambda>i. p + i * ?s) [0..<Suc n] = p # map (\<lambda>i. p + ?s + i * ?s) [0..<n]"
    by (simp add: map_upt_Suc algebra_simps del: upt_Suc)
  show ?case using Suc.IH [OF r, of "p + ?s"] b Suc.prems(2,3) by (simp add: f l del: upt_Suc)
qed simp

text \<open>
  A pool loaded with an array of \<open>n\<close> objects is a stack of exactly these objects: from any pool
  without a provider, after \<open>chPoolLoadArray\<close> the next \<open>n\<close> allocations return the \<open>n\<close> places of the array, each once,
  the last one first, and leave the objects the pool held before.
\<close>

theorem chPoolLoadArray_alloc:
  assumes "pool_rep (mp, m, k) xs" "0 < p" "0 < mp_object_size mp" "\<forall>x \<in> set xs. x < p" "0 < n"
  shows "\<exists>s s'. chPoolLoadArray p n mp m k = Some s \<and>
    take_many (\<lambda>(mp, m, k). chPoolAlloc mp m k) n s = Some (rev (map (\<lambda>i. p + i * mp_object_size mp) [0..<n]), s') \<and>
    pool_rep s' xs"
proof -
  obtain mp' m' where l: "pool_load_loop n p mp m k = Some (mp', m', k)"
      "pool_rep (mp', m', k) (rev (map (\<lambda>i. p + i * mp_object_size mp) [0..<n]) @ xs)"
    using pool_load_loop_ok [OF assms(1-4)] by blast
  then show ?thesis using pool.take_many_all [OF l(2)] assms(5) by (simp add: chPoolLoadArray_def)
qed

theorem chPoolLoadArray_alloc_witness:
  "\<exists>s s'. chPoolLoadArray 1000 2 \<lparr>mp_next = 0, mp_object_size = 16, mp_provider = None\<rparr> mem0 sys0 = Some s \<and>
     take_many (\<lambda>(mp, m, k). chPoolAlloc mp m k) 2 s = Some ([1016, 1000], s') \<and> pool_rep s' []"
  using chPoolLoadArray_alloc [of "\<lparr>mp_next = 0, mp_object_size = 16, mp_provider = None\<rparr>" mem0 sys0 "[]" 1000 2]
    sys0_facts(1,2) by (simp add: pool_rep_def pool_ok_def numeral_2_eq_2)

end
