(* ===== verification/ChDynamic.thy ===== *)
theory ChDynamic
  imports ChThreads ChMem
begin

text \<open>
  Dynamic threads (\<open>chdynamic.c\<close>), waiting for the end of a thread (\<open>chThdWait\<close>) and the thread registry
  (\<open>chregistry.c\<close> and the inline functions of \<open>chregistry.h\<close>).

  The address of a thread is the address of its working area, so a thread taken from a heap or a pool is
  named by the address the allocator returned. \<open>heaps\<close> and \<open>pools\<close> give the heap and pool objects by
  address. \<open>p_refs\<close> is an 8-bit counter. The debug fill of a fresh working area (\<open>thread_memfill\<close>)
  touches only bytes that are not part of the state.
\<close>

type_synonym pools_t = "nat \<Rightarrow> memory_pool_t"

abbreviation "refs_of k t \<equiv> p_refs (thd k t)"

definition set_refs :: "tid \<Rightarrow> nat \<Rightarrow> ch_system \<Rightarrow> ch_system" where
  "set_refs t n k = upd_thd t (\<lambda>x. x\<lparr>p_refs := n\<rparr>) k"

subsection \<open>References\<close>

definition chThdAddRef :: "tid \<Rightarrow> ch_system \<Rightarrow> (tid \<times> ch_system) option" where
  "chThdAddRef tp k =
     do { k \<leftarrow> chSysLock k;
          assert_that (refs_of k tp < 255);
          let k = set_refs tp (refs_of k tp + 1) k;
          k \<leftarrow> chSysUnlock k;
          Some (tp, k) }"

text \<open>\<open>chThdRelease\<close>; the part after the critical zone is \<open>chThdRelease_k\<close>.\<close>

definition chThdRelease_k ::
  "(nat \<Rightarrow> memory_heap_t) \<Rightarrow> tid \<Rightarrow> nat \<Rightarrow> pools_t \<Rightarrow> mem_t \<Rightarrow> ch_system \<Rightarrow>
   (unit outcome \<times> pools_t \<times> mem_t \<times> ch_system) option" where
  "chThdRelease_k heaps tp refs pools m k =
     (if refs = 0 \<and> state_of k tp = CH_STATE_FINAL
      then (let mode = and (p_flags (thd k tp)) CH_FLAG_MODE_MASK
            in if mode = CH_FLAG_MODE_HEAP
               then do { let k = REG_REMOVE tp k;
                         (r, m, k) \<leftarrow> chHeapFree heaps tp m k;
                         Some (r, pools, m, k) }
               else if mode = CH_FLAG_MODE_MPOOL
               then (case p_mpool (thd k tp) of
                       None \<Rightarrow> None
                     | Some mp \<Rightarrow>
                         do { let k = REG_REMOVE tp k;
                              (pool, m, k) \<leftarrow> chPoolFree tp (pools mp) m k;
                              Some (Done (), pools(mp := pool), m, k) })
               else Some (Done (), pools, m, k))
      else Some (Done (), pools, m, k))"

definition chThdRelease ::
  "(nat \<Rightarrow> memory_heap_t) \<Rightarrow> tid \<Rightarrow> pools_t \<Rightarrow> mem_t \<Rightarrow> ch_system \<Rightarrow>
   (unit outcome \<times> pools_t \<times> mem_t \<times> ch_system) option" where
  "chThdRelease heaps tp pools m k =
     do { k \<leftarrow> chSysLock k;
          assert_that (refs_of k tp > 0);
          let k = set_refs tp (refs_of k tp - 1) k;
          let refs = refs_of k tp;
          k \<leftarrow> chSysUnlock k;
          chThdRelease_k heaps tp refs pools m k }"

subsection \<open>Creating dynamic threads\<close>

definition set_flags :: "tid \<Rightarrow> tmode_t \<Rightarrow> ch_system \<Rightarrow> ch_system" where
  "set_flags t f k = upd_thd t (\<lambda>x. x\<lparr>p_flags := f\<rparr>) k"

text \<open>The part of \<open>chThdCreateFromHeap\<close> after the allocation; 0 is \<open>NULL\<close>.\<close>

definition chThdCreateFromHeap_k ::
  "nat \<Rightarrow> nat \<Rightarrow> tprio_t \<Rightarrow> nat \<Rightarrow> ch_system \<Rightarrow> (tid outcome \<times> ch_system) option" where
  "chThdCreateFromHeap_k wa_min sz prio wsp k =
     (if wsp = 0 then Some (Done 0, k)
      else do { k \<leftarrow> chSysLock k;
                (tp, k) \<leftarrow> chThdCreateI wa_min wsp sz prio k;
                let k = set_flags tp CH_FLAG_MODE_HEAP k;
                r \<leftarrow> chSchWakeupS tp MSG_OK k;
                andthen r (\<lambda>_ k. do { k \<leftarrow> chSysUnlock k; Some (Done tp, k) }) })"

definition chThdCreateFromHeap ::
  "nat \<Rightarrow> memory_heap_t \<Rightarrow> nat \<Rightarrow> nat \<Rightarrow> tprio_t \<Rightarrow> mem_t \<Rightarrow> ch_system \<Rightarrow> (tid outcome \<times> mem_t \<times> ch_system) option" where
  "chThdCreateFromHeap wa_min h heapp sz prio m k =
     do { (r, m, k) \<leftarrow> chHeapAlloc h heapp sz m k;
          case r of
            Switched \<Rightarrow> Some (Switched, m, k)
          | Done wsp \<Rightarrow> do { (r, k) \<leftarrow> chThdCreateFromHeap_k wa_min sz prio wsp k; Some (r, m, k) } }"

definition chThdCreateFromMemoryPool ::
  "nat \<Rightarrow> nat \<Rightarrow> tprio_t \<Rightarrow> pools_t \<Rightarrow> mem_t \<Rightarrow> ch_system \<Rightarrow> (tid outcome \<times> pools_t \<times> mem_t \<times> ch_system) option" where
  "chThdCreateFromMemoryPool wa_min mp prio pools m k =
     do { (wsp, pool, m, k) \<leftarrow> chPoolAlloc (pools mp) m k;
          let pools = pools(mp := pool);
          if wsp = 0 then Some (Done 0, pools, m, k)
          else do { k \<leftarrow> chSysLock k;
                    (tp, k) \<leftarrow> chThdCreateI wa_min wsp (mp_object_size pool) prio k;
                    let k = set_flags tp CH_FLAG_MODE_MPOOL k;
                    let k = upd_thd tp (\<lambda>x. x\<lparr>p_mpool := Some mp\<rparr>) k;
                    r \<leftarrow> chSchWakeupS tp MSG_OK k;
                    (r, k) \<leftarrow> andthen r (\<lambda>_ k. do { k \<leftarrow> chSysUnlock k; Some (Done tp, k) });
                    Some (r, pools, m, k) } }"

subsection \<open>Waiting for a thread\<close>

text \<open>\<open>chThdWait\<close>; the part that runs once the thread has ended is \<open>chThdWait_k\<close>.\<close>

definition chThdWait_k ::
  "(nat \<Rightarrow> memory_heap_t) \<Rightarrow> tid \<Rightarrow> pools_t \<Rightarrow> mem_t \<Rightarrow> ch_system \<Rightarrow> (msg_t outcome \<times> pools_t \<times> mem_t \<times> ch_system) option" where
  "chThdWait_k heaps tp pools m k =
     do { msg \<leftarrow> rdymsg_of tp k;
          k \<leftarrow> chSysUnlock k;
          (r, pools, m, k) \<leftarrow> chThdRelease heaps tp pools m k;
          case r of
            Done _ \<Rightarrow> Some (Done msg, pools, m, k)
          | Switched \<Rightarrow> Some (Switched, pools, m, k) }"

definition chThdWait ::
  "(nat \<Rightarrow> memory_heap_t) \<Rightarrow> tid \<Rightarrow> pools_t \<Rightarrow> mem_t \<Rightarrow> ch_system \<Rightarrow> (msg_t outcome \<times> pools_t \<times> mem_t \<times> ch_system) option" where
  "chThdWait heaps tp pools m k =
     do { k \<leftarrow> chSysLock k;
          assert_that (tp \<noteq> r_current k);
          assert_that (refs_of k tp > 0);
          if state_of k tp \<noteq> CH_STATE_FINAL
          then do { let k = list_insert (r_current k) (Q_WAIT tp) k;
                    k \<leftarrow> chSchGoSleepS CH_STATE_WTEXIT k;
                    Some (Switched, pools, m, k) }
          else chThdWait_k heaps tp pools m k }"

subsection \<open>The registry\<close>

definition chRegSetThreadName :: "string \<Rightarrow> ch_system \<Rightarrow> ch_system" where
  "chRegSetThreadName name k = upd_thd (r_current k) (\<lambda>x. x\<lparr>p_name := Some name\<rparr>) k"

definition chRegGetThreadNameX :: "tid \<Rightarrow> ch_system \<Rightarrow> string option" where
  "chRegGetThreadNameX tp k = p_name (thd k tp)"

definition chRegSetThreadNameX :: "tid \<Rightarrow> string \<Rightarrow> ch_system \<Rightarrow> ch_system" where
  "chRegSetThreadNameX tp name k = upd_thd tp (\<lambda>x. x\<lparr>p_name := Some name\<rparr>) k"

text \<open>The thread after \<open>tp\<close> in the registry: \<open>None\<close> if \<open>tp\<close> is not in it, \<open>Some None\<close> if \<open>tp\<close> is the newest.\<close>

fun p_newer :: "tid \<Rightarrow> tid list \<Rightarrow> tid option option" where
  "p_newer tp [] = None"
| "p_newer tp (t # ts) = (if t = tp then Some (case ts of [] \<Rightarrow> None | u # us \<Rightarrow> Some u) else p_newer tp ts)"

definition chRegFirstThread :: "ch_system \<Rightarrow> (tid \<times> ch_system) option" where
  "chRegFirstThread k =
     do { k \<leftarrow> chSysLock k;
          tp \<leftarrow> (case reglist k of [] \<Rightarrow> None | t # ts \<Rightarrow> Some t);
          let k = set_refs tp ((refs_of k tp + 1) mod 256) k;
          k \<leftarrow> chSysUnlock k;
          Some (tp, k) }"

definition chRegNextThread ::
  "(nat \<Rightarrow> memory_heap_t) \<Rightarrow> tid \<Rightarrow> pools_t \<Rightarrow> mem_t \<Rightarrow> ch_system \<Rightarrow>
   (tid option outcome \<times> pools_t \<times> mem_t \<times> ch_system) option" where
  "chRegNextThread heaps tp pools m k =
     do { k \<leftarrow> chSysLock k;
          ntp \<leftarrow> p_newer tp (reglist k);
          k \<leftarrow> (case ntp of
                  None \<Rightarrow> Some k
                | Some t \<Rightarrow> do { assert_that (refs_of k t < 255); Some (set_refs t (refs_of k t + 1) k) });
          k \<leftarrow> chSysUnlock k;
          (r, pools, m, k) \<leftarrow> chThdRelease heaps tp pools m k;
          case r of
            Done _ \<Rightarrow> Some (Done ntp, pools, m, k)
          | Switched \<Rightarrow> Some (Switched, pools, m, k) }"

subsection \<open>Lemmas\<close>

lemma set_refs_simps [simp]:
  "queues (set_refs t n k) = queues k" "r_current (set_refs t n k) = r_current k" "reglist (set_refs t n k) = reglist k"
  "m_owner (set_refs t n k) = m_owner k" "lock_cnt (set_refs t n k) = lock_cnt k" "isr_cnt (set_refs t n k) = isr_cnt k"
  "state_of (set_refs t n k) x = state_of k x" "prio_of (set_refs t n k) x = prio_of k x"
  "p_flags (thd (set_refs t n k) x) = p_flags (thd k x)" "p_mpool (thd (set_refs t n k) x) = p_mpool (thd k x)"
  "p_u (thd (set_refs t n k) x) = p_u (thd k x)"
  "refs_of (set_refs t n k) x = (if x = t then n else refs_of k x)"
  "set_refs t n (k\<lparr>lock_cnt := l\<rparr>) = (set_refs t n k)\<lparr>lock_cnt := l\<rparr>"
  by (simp_all add: set_refs_def upd_thd_def)

lemma set_refs_class [simp]:
  "class_thread (set_refs t n k) = class_thread k" "resched_ok (set_refs t n k) = resched_ok k"
  "mtx_idle mp (set_refs t n k) = mtx_idle mp k"
  by (simp_all add: class_thread_def resched_ok_iff mtx_idle_def)

lemma set_refs_same: "set_refs t (refs_of k t) k = k"
  by (intro ch_system.equality) (auto simp: set_refs_def upd_thd_def)

lemma set_refs_again [simp]: "set_refs t n (set_refs t n' k) = set_refs t n k"
  by (intro ch_system.equality) (auto simp: set_refs_def upd_thd_def)

lemma set_refs_commute: "t \<noteq> u \<Longrightarrow> set_refs t n (set_refs u n' k) = set_refs u n' (set_refs t n k)"
  by (intro ch_system.equality) (auto simp: set_refs_def upd_thd_def fun_upd_twist)

lemma REG_REMOVE_idle [simp]: "mtx_idle mp (REG_REMOVE t k) = mtx_idle mp k"
  by (simp add: mtx_idle_def REG_REMOVE_def class_thread_def resched_ok_iff)

text \<open>The critical zone of \<open>chThdRelease\<close>.\<close>

lemma chThdRelease_eq:
  assumes "class_thread k" "resched_ok k" "0 < refs_of k tp"
  shows "chThdRelease heaps tp pools m k =
    chThdRelease_k heaps tp (refs_of k tp - 1) pools m (set_refs tp (refs_of k tp - 1) k)"
  using lock_unlock [OF assms(1,2)] lock_unlock [of "set_refs tp (refs_of k tp - 1) k"] assms
  by (simp add: chThdRelease_def Let_def)

lemma chThdRelease_keep:
  assumes "class_thread k" "resched_ok k" "0 < refs_of k tp" "refs_of k tp \<noteq> 1 \<or> state_of k tp \<noteq> CH_STATE_FINAL"
  shows "chThdRelease heaps tp pools m k = Some (Done (), pools, m, set_refs tp (refs_of k tp - 1) k)"
  using assms by (auto simp: chThdRelease_eq chThdRelease_k_def)

lemma chThdRelease_heap:
  assumes idle: "mtx_idle (h_mtx h) k" and ok: "heap_ok m (h_free h) heapp fs (us @ b # vs)" and h: "heaps heapp = h"
    and t: "state_of k (fst b + HDR) = CH_STATE_FINAL" "refs_of k (fst b + HDR) = 1"
      "and (p_flags (thd k (fst b + HDR))) CH_FLAG_MODE_MASK = CH_FLAG_MODE_HEAP"
  shows "\<exists>m'. chThdRelease heaps (fst b + HDR) pools m k =
      Some (Done (), pools, m', REG_REMOVE (fst b + HDR) (set_refs (fst b + HDR) 0 k)) \<and>
    heap_ok m' (h_free h) heapp (give_back b fs) (us @ vs)"
proof -
  let ?t = "fst b + HDR" and ?k = "REG_REMOVE (fst b + HDR) (set_refs (fst b + HDR) 0 k)"
  have th: "class_thread k" "resched_ok k" using idle by (auto simp: mtx_idle_def)
  have "heaps (h_u m (fst b)) = h" using heap_okD(6) [OF ok, of b] h by simp
  moreover have "mtx_idle (h_mtx h) ?k" using idle by simp
  ultimately have "chHeapFree heaps ?t m ?k = do { m \<leftarrow> heap_release (h_free h) (fst b) (h_free h) m; Some (Done (), m, ?k) }"
    using chHeapFree_idle [of h ?k heaps m "fst b"] by blast
  then show ?thesis
    using heap_ok_give [OF ok] t th by (auto simp: chThdRelease_eq chThdRelease_k_def)
qed

subsection \<open>Properties\<close>

text \<open>
  Waiting for a thread. If the thread has ended, its exit code is returned at once and the reference of
  the caller is dropped; with the last reference the memory of a thread that was created from a heap goes
  back to that heap, merged with its neighbours, and the thread leaves the registry. If the thread still
  runs, the caller sleeps in its waiting list, and the kernel invariants hold for the thread that runs instead.
\<close>

theorem chThdWait_collects:
  assumes ok: "kernel_ok k" "mtx_idle (h_mtx h) k" "queues k Q_RLIST \<noteq> []"
    and heap: "heap_ok m (h_free h) heapp fs (us @ b # vs)" "heaps heapp = h"
    and t: "tp = fst b + HDR" "0 < refs_of k tp" "tp \<noteq> r_current k"
      "and (p_flags (thd k tp)) CH_FLAG_MODE_MASK = CH_FLAG_MODE_HEAP"
      "state_of k tp = CH_STATE_FINAL \<Longrightarrow> p_u (thd k tp) = Rdymsg msg"
  shows "\<exists>out m' k'. chThdWait heaps tp pools m k = Some (out, pools, m', k') \<and>
    (if state_of k tp = CH_STATE_FINAL
     then out = Done msg \<and> refs_of k' tp = refs_of k tp - 1 \<and>
       (if refs_of k tp = 1
        then heap_ok m' (h_free h) heapp (give_back b fs) (us @ vs) \<and> reglist k' = filter (\<lambda>x. x \<noteq> tp) (reglist k)
        else m' = m \<and> reglist k' = reglist k)
     else out = Switched \<and> m' = m \<and> kernel_ok k' \<and> resched_ok k' \<and> state_of k' (r_current k) = CH_STATE_WTEXIT \<and>
       queues k' (Q_WAIT tp) = r_current k # queues k (Q_WAIT tp))"
proof -
  have th: "class_thread k" "resched_ok k" using ok(2) by (auto simp: mtx_idle_def)
  note lu = lock_unlock [OF th]
  show ?thesis
  proof (cases "state_of k tp = CH_STATE_FINAL")
    case True
    have w: "chThdWait heaps tp pools m k = do { (r, pools, m, k) \<leftarrow> chThdRelease heaps tp pools m k;
        case r of Done _ \<Rightarrow> Some (Done msg, pools, m, k) | Switched \<Rightarrow> Some (Switched, pools, m, k) }"
      using lu t True by (simp add: chThdWait_def chThdWait_k_def rdymsg_of_def)
    show ?thesis
    proof (cases "refs_of k tp = 1")
      case one: True
      obtain m' where "chThdRelease heaps tp pools m k = Some (Done (), pools, m', REG_REMOVE tp (set_refs tp 0 k))"
          "heap_ok m' (h_free h) heapp (give_back b fs) (us @ vs)"
        using chThdRelease_heap [where heaps = heaps, OF ok(2) heap, of pools] t True one by auto
      then show ?thesis using w True one by (simp add: REG_REMOVE_def)
    next
      case False
      then show ?thesis using w True chThdRelease_keep [OF th t(2), of heaps pools m] by simp
    qed
  next
    case False
    let ?c = "r_current k" and ?k = "list_insert (r_current k) (Q_WAIT tp) (k\<lparr>lock_cnt := 1\<rparr>)"
    have S: "class_S ?k" using th(1) by (simp add: class_S_def class_thread_def list_insert_def)
    have uq: "?c \<notin> set (queues k q)" for q using sched_okD(2) [OF kernel_okD(1) [OF ok(1)]] by (simp add: unqueued_def)
    have e: "chThdWait heaps tp pools m k = Some (Switched, pools, m, sleeping CH_STATE_WTEXIT ?k)"
      using lu t False chSchGoSleepS_eq [OF S, of CH_STATE_WTEXIT] ok(3) by (simp add: chThdWait_def Let_def list_insert_def)
    have "kernel_ok (sleeping CH_STATE_WTEXIT ?k)"
      using uq apart_distinct [OF sched_okD(1) [OF kernel_okD(1) [OF ok(1)]]]
      by (intro kernel_ok_sleeping [OF ok(1,3)]) (auto simp: list_insert_def intro!: disjI2 exI [of _ "Q_WAIT tp"])
    moreover obtain x xs where r: "queues k Q_RLIST = x # xs" using ok(3) by (cases "queues k Q_RLIST") auto
    moreover have "resched_ok (sleeping CH_STATE_WTEXIT ?k)"
      using resched_ok_sleeping [OF kernel_okD(1) [OF ok(1)] r, of ?k] r by (simp add: list_insert_def)
    moreover have "x \<noteq> ?c" using uq [of Q_RLIST] r by auto
    ultimately show ?thesis using e False by (simp add: list_insert_def)
  qed
qed

definition pools0 :: pools_t where
  "pools0 = (\<lambda>_. \<lparr>mp_next = 0, mp_object_size = 16, mp_provider = None\<rparr>)"

text \<open>The main thread waits for thread 1008, which has ended; its working area is the block at 1000 of \<open>heap1\<close>.\<close>

definition sys_ended :: ch_system where
  "sys_ended = upd_thd 1008 (\<lambda>x. (thread0 NORMALPRIO CH_STATE_FINAL)\<lparr>p_flags := CH_FLAG_MODE_HEAP, p_u := Rdymsg 5\<rparr>)
     (sys0\<lparr>reglist := [0, 1, 1008]\<rparr>)"

lemma sys_ended_facts:
  "kernel_ok sys_ended" "mtx_idle (h_mtx heap1) sys_ended" "queues sys_ended Q_RLIST \<noteq> []"
proof -
  have "sched_ok sys_ended"
    unfolding sched_ok_def apart_def unqueued_def sys_ended_def
    by (auto simp: sys0_def thread0_def upd_thd_def NORMALPRIO_def IDLEPRIO_def NOPRIO_def)
  moreover have "wait_ok sys_ended" by (simp add: wait_ok_def sys_ended_def sys0_def thread0_def upd_thd_def)
  moreover have "sem_ok sys_ended" by (simp add: sem_ok_def sys_ended_def sys0_def)
  ultimately show "kernel_ok sys_ended" by (simp add: kernel_ok_def)
  show "mtx_idle (h_mtx heap1) sys_ended"
    by (simp add: mtx_idle_def sys_ended_def class_thread_def resched_ok_iff sys0_def thread0_def upd_thd_def NORMALPRIO_def IDLEPRIO_def)
qed (simp add: sys_ended_def sys0_def)

theorem chThdWait_collects_witness:
  "\<exists>m' k'. chThdWait (\<lambda>_. heap1) 1008 pools0 mem2 sys_ended = Some (Done 5, pools0, m', k') \<and>
     heap_ok m' (h_free heap1) 200 [(1000, 56)] [] \<and> reglist k' = [0, 1]"
proof -
  have t: "state_of sys_ended 1008 = CH_STATE_FINAL" "refs_of sys_ended 1008 = 1" "1008 \<noteq> r_current sys_ended"
      "p_u (thd sys_ended 1008) = Rdymsg 5" "reglist sys_ended = [0, 1, 1008]"
      "and (p_flags (thd sys_ended 1008)) CH_FLAG_MODE_MASK = CH_FLAG_MODE_HEAP"
    by (simp_all add: sys_ended_def thread0_def upd_thd_def CH_FLAG_MODE_MASK_def CH_FLAG_MODE_HEAP_def) (simp add: sys0_def)
  have u: "heap_ok mem2 (h_free heap1) 200 [(1016, 40)] ([] @ (1000, 8) # [])" using heap1_facts(4) by simp
  show ?thesis
    using chThdWait_collects [where heaps = "\<lambda>_. heap1" and tp = 1008 and msg = 5 and pools = pools0, OF sys_ended_facts u] t
    by (auto simp: HDR_def)
qed

text \<open>
  The loop of a client that lists all threads, as \<open>regfind\<close> does in the test suite:
  it visits \<open>tp\<close>, asks for the next thread and goes on until there is none.
\<close>

partial_function (option) reg_walk ::
  "(nat \<Rightarrow> memory_heap_t) \<Rightarrow> tid list \<Rightarrow> tid \<Rightarrow> pools_t \<Rightarrow> mem_t \<Rightarrow> ch_system \<Rightarrow> (tid list \<times> pools_t \<times> mem_t \<times> ch_system) option" where
  "reg_walk heaps seen tp pools m k =
     do { (r, pools, m, k) \<leftarrow> chRegNextThread heaps tp pools m k;
          case r of
            Switched \<Rightarrow> None
          | Done ntp \<Rightarrow>
              (case ntp of None \<Rightarrow> Some (seen @ [tp], pools, m, k)
               | Some t \<Rightarrow> reg_walk heaps (seen @ [tp]) t pools m k) }"

definition registry_threads ::
  "(nat \<Rightarrow> memory_heap_t) \<Rightarrow> pools_t \<Rightarrow> mem_t \<Rightarrow> ch_system \<Rightarrow> (tid list \<times> pools_t \<times> mem_t \<times> ch_system) option" where
  "registry_threads heaps pools m k = do { (tp, k) \<leftarrow> chRegFirstThread k; reg_walk heaps [] tp pools m k }"

lemma p_newer_split: "tp \<notin> set as \<Longrightarrow> p_newer tp (as @ tp # bs) = Some (case bs of [] \<Rightarrow> None | u # us \<Rightarrow> Some u)"
  by (induction as) auto

text \<open>One step of the walk: the reference moves from \<open>tp\<close> to the next thread.\<close>

lemma chRegNextThread_step:
  assumes th: "class_thread k" "resched_ok k" and reg: "reglist k = as @ tp # bs" "distinct (reglist k)"
    and refs: "\<forall>t \<in> set (reglist k). refs_of k t < 255 \<and> (0 < refs_of k t \<or> state_of k t \<noteq> CH_STATE_FINAL)"
  shows "chRegNextThread heaps tp pools m (set_refs tp (refs_of k tp + 1) k) =
    Some (case bs of [] \<Rightarrow> (Done None, pools, m, k)
          | t # ts \<Rightarrow> (Done (Some t), pools, m, set_refs t (refs_of k t + 1) k))"
proof -
  let ?k = "set_refs tp (refs_of k tp + 1) k"
  note lu = lock_unlock [of ?k]
  have nx: "p_newer tp (reglist ?k) = Some (case bs of [] \<Rightarrow> None | u # us \<Rightarrow> Some u)"
    using reg p_newer_split [of tp as bs] by simp
  have tp: "refs_of k tp + 1 \<noteq> 1 \<or> state_of k tp \<noteq> CH_STATE_FINAL" using refs reg(1) by auto
  show ?thesis
  proof (cases bs)
    case Nil
    then show ?thesis
      using lu th nx tp chThdRelease_keep [of ?k tp heaps pools m] by (simp add: chRegNextThread_def set_refs_same)
  next
    case (Cons t ts)
    let ?k2 = "set_refs t (refs_of k t + 1) ?k"
    have t: "t \<noteq> tp" "refs_of k t < 255" using reg refs Cons by auto
    have "set_refs tp (refs_of k tp) ?k2 = set_refs t (refs_of k t + 1) k"
      using t(1) by (metis set_refs_again set_refs_commute set_refs_same)
    then have "chThdRelease heaps tp pools m ?k2 = Some (Done (), pools, m, set_refs t (refs_of k t + 1) k)"
      using chThdRelease_keep [of ?k2 tp heaps pools m] th tp t(1) by simp
    then show ?thesis using lu lock_unlock [of ?k2] th nx t Cons by (simp add: chRegNextThread_def)
  qed
qed

lemma reg_walk_ok:
  assumes th: "class_thread k" "resched_ok k" and reg: "reglist k = as @ tp # bs" "distinct (reglist k)"
    and refs: "\<forall>t \<in> set (reglist k). refs_of k t < 255 \<and> (0 < refs_of k t \<or> state_of k t \<noteq> CH_STATE_FINAL)"
  shows "reg_walk heaps as tp pools m (set_refs tp (refs_of k tp + 1) k) = Some (as @ tp # bs, pools, m, k)"
  using reg(1)
proof (induction bs arbitrary: as tp)
  case Nil
  then show ?case
    using chRegNextThread_step [OF th Nil reg(2) refs] by (subst reg_walk.simps) simp
next
  case (Cons t ts)
  then show ?case
    using chRegNextThread_step [OF th Cons.prems reg(2) refs] Cons.IH [of "as @ [tp]" t] by (subst reg_walk.simps) simp
qed

text \<open>
  Walking the registry with \<open>chRegFirstThread\<close> and \<open>chRegNextThread\<close> ends, visits every registered
  thread exactly once, oldest first, and leaves all reference counters, the memory and the rest of the
  state as they were: no reference is leaked and no thread is freed on the way.
\<close>

theorem registry_walk:
  assumes "class_thread k" "resched_ok k" "reglist k \<noteq> []" "distinct (reglist k)"
    "\<forall>t \<in> set (reglist k). refs_of k t < 255 \<and> (0 < refs_of k t \<or> state_of k t \<noteq> CH_STATE_FINAL)"
  shows "registry_threads heaps pools m k = Some (reglist k, pools, m, k)"
proof -
  obtain t ts where r: "reglist k = t # ts" using assms(3) by (cases "reglist k") auto
  let ?k = "set_refs t (refs_of k t + 1) k"
  have "chRegFirstThread k = Some (t, ?k)"
    using lock_unlock [OF assms(1,2)] lock_unlock [of ?k] assms r by (simp add: chRegFirstThread_def Let_def)
  then show ?thesis using reg_walk_ok [OF assms(1,2), of "[]" t ts heaps pools m] assms r by (simp add: registry_threads_def)
qed

theorem registry_walk_witness:
  "registry_threads (\<lambda>_. heap1) pools0 mem2 sys_ended = Some ([0, 1, 1008], pools0, mem2, sys_ended)"
proof -
  have e: "reglist sys_ended = [0, 1, 1008]" "refs_of sys_ended t = 1" for t
    by (simp_all add: sys_ended_def upd_thd_def) (simp_all add: sys0_def thread0_def)
  have "class_thread sys_ended" "resched_ok sys_ended" using sys_ended_facts(2) by (auto simp: mtx_idle_def)
  then show ?thesis using registry_walk [of sys_ended "\<lambda>_. heap1" pools0 mem2] e by simp
qed

end
