(* ===== verification/ChTick.thy ===== *)
theory ChTick
  imports ChSched
begin

text \<open>
  The timer interrupt: \<open>chVTDoTickI\<close> of \<open>chvt.h\<close> in the tickless configuration and \<open>chSysTimerHandlerI\<close>
  of \<open>chsys.c\<close>, which the system timer driver calls from its interrupt handler.

  A timer's callback is called with the system unlocked; \<open>call\<close> says what calling the function of a timer
  does. \<open>vt_call cb\<close> calls the kernel's own \<open>wakeup\<close> for time-outs and \<open>cb\<close> for the timers of the application.
  The locale \<open>timer_calls\<close> is the contract between the timer list and the callbacks.
\<close>

definition vt_call :: "(nat \<Rightarrow> nat \<Rightarrow> ch_system \<Rightarrow> ch_system option) \<Rightarrow> vtfunc_t \<Rightarrow> nat \<Rightarrow> ch_system \<Rightarrow> ch_system option" where
  "vt_call cb fn par k = (case fn of Vt_wakeup \<Rightarrow> wakeup par k | Vt_user n \<Rightarrow> cb n par k)"

text \<open>
  The loop of \<open>chVTDoTickI\<close>. When the list is empty the loop looks at its header, whose delta is the
  largest value; if that much time has passed it takes the header for a timer, which has no meaning.
\<close>

partial_function (option) tick_loop ::
  "(vtfunc_t \<Rightarrow> nat \<Rightarrow> ch_system \<Rightarrow> ch_system option) \<Rightarrow> ch_system \<Rightarrow> ch_system option" where
  "tick_loop call k =
     (case vtlist k of
        [] \<Rightarrow> if vtl_delta k \<le> chVTGetSystemTimeX k - vtl_lasttime k then None else Some k
      | vtp # vs \<Rightarrow>
          if vdelta k vtp \<le> chVTGetSystemTimeX k - vtl_lasttime k
          then do { let k = k\<lparr>vtl_lasttime := vtl_lasttime k + vdelta k vtp\<rparr>;
                    let k = k\<lparr>vtlist := vs\<rparr>;
                    fn \<leftarrow> vt_func (vtimer k vtp);
                    let k = set_vfunc vtp None k;
                    let k = (if vtlist k = [] then stStopAlarm k else k);
                    k \<leftarrow> chSysUnlockFromISR k;
                    k \<leftarrow> call fn (vt_par (vtimer k vtp)) k;
                    k \<leftarrow> chSysLockFromISR k;
                    tick_loop call k }
          else Some k)"

definition chVTDoTickI :: "(vtfunc_t \<Rightarrow> nat \<Rightarrow> ch_system \<Rightarrow> ch_system option) \<Rightarrow> ch_system \<Rightarrow> ch_system option" where
  "chVTDoTickI call k =
     do { chDbgCheckClassI k;
          k \<leftarrow> tick_loop call k;
          if vtlist k = [] then Some k
          else do { let now = chVTGetSystemTimeX k;
                    let delta = vtl_lasttime k + vdelta k (hd (vtlist k)) - now;
                    let delta = (if delta < CH_CFG_ST_TIMEDELTA then CH_CFG_ST_TIMEDELTA else delta);
                    k \<leftarrow> stSetAlarm (now + delta) k;
                    assert_that (chVTGetSystemTimeX k - vtl_lasttime k \<le> now + delta - vtl_lasttime k);
                    Some k } }"

text \<open>The application leaves the tick hook empty.\<close>

definition chSysTimerHandlerI :: "(vtfunc_t \<Rightarrow> nat \<Rightarrow> ch_system \<Rightarrow> ch_system option) \<Rightarrow> ch_system \<Rightarrow> ch_system option" where
  "chSysTimerHandlerI call k = do { chDbgCheckClassI k; chVTDoTickI call k }"

subsection \<open>The contract of the callbacks\<close>

definition same_vt :: "ch_system \<Rightarrow> ch_system \<Rightarrow> bool" where
  "same_vt k k' \<longleftrightarrow>
     vtimer k' = vtimer k \<and> vtlist k' = vtlist k \<and> vtl_delta k' = vtl_delta k \<and> vtl_lasttime k' = vtl_lasttime k \<and>
     port_time k' = port_time k \<and> port_alarm k' = port_alarm k \<and> isr_cnt k' = isr_cnt k"

text \<open>The part of the state that neither timers nor the lock state belong to.\<close>

definition body :: "ch_system \<Rightarrow> ch_system" where
  "body k = core (k\<lparr>lock_cnt := 0\<rparr>)"

lemma core_lock: "core (k\<lparr>lock_cnt := n\<rparr>) = (core k)\<lparr>lock_cnt := n\<rparr>"
  by (simp add: core_def)

lemma body_simps [simp]:
  "body (set_vdelta v x k) = body k" "body (set_vfunc v f k) = body k"
  "body (k\<lparr>vtlist := vs\<rparr>) = body k" "body (k\<lparr>vtl_lasttime := d\<rparr>) = body k"
  "body (k\<lparr>port_alarm := a\<rparr>) = body k" "body (k\<lparr>lock_cnt := n\<rparr>) = body k" "body (stStopAlarm k) = body k"
  by (simp_all add: body_def core_def set_vdelta_def set_vfunc_def stStopAlarm_def)

lemma bodyD:
  assumes "body k = body k'"
  shows "thd k = thd k'" "queues k = queues k'" "r_current k = r_current k'" "s_cnt k = s_cnt k'" "tref k = tref k'"
  using arg_cong [OF assms, of thd] arg_cong [OF assms, of queues] arg_cong [OF assms, of r_current]
    arg_cong [OF assms, of s_cnt] arg_cong [OF assms, of tref]
  by (simp_all add: body_def core_def)

text \<open>The timers that are due, and those that are not.\<close>

lemma vt_remaining_pop:
  assumes "vtlist k = v # vs" "unat (vdelta k v) \<le> vt_elapsed k"
    "vtlist k' = vs" "vtl_lasttime k' = vtl_lasttime k + vdelta k v" "port_time k' = port_time k"
    "\<And>w. w \<in> set vs \<Longrightarrow> vdelta k' w = vdelta k w"
  shows "vt_remaining k = (v, int (unat (vdelta k v)) - int (vt_elapsed k)) # vt_remaining k'"
    and "vt_elapsed k' = vt_elapsed k - unat (vdelta k v)"
proof -
  let ?d = "unat (vdelta k v)"
  have "vdelta k v \<le> port_time k - vtl_lasttime k"
    using assms(2) by (simp add: vt_elapsed_def word_le_nat_alt)
  then have "unat (port_time k - vtl_lasttime k - vdelta k v) = unat (port_time k - vtl_lasttime k) - ?d"
    by (rule unat_diff_le)
  moreover have "port_time k' - vtl_lasttime k' = port_time k - vtl_lasttime k - vdelta k v" using assms(4,5) by simp
  ultimately show e: "vt_elapsed k' = vt_elapsed k - ?d" by (simp add: vt_elapsed_def)
  have shift: "vt_offsets d (a + b) ws = map (\<lambda>(w, n). (w, n + b)) (vt_offsets d a ws)" for d a b ws
  proof (induction ws arbitrary: a)
    case (Cons w ws)
    show ?case using Cons.IH [of "a + unat (d w)"] by (simp add: ac_simps)
  qed simp
  have "vt_offsets (vdelta k) 0 (v # vs) = (v, ?d) # map (\<lambda>(w, n). (w, n + ?d)) (vt_offsets (vdelta k) 0 vs)"
    using shift [of "vdelta k" 0 ?d vs] by simp
  moreover have "vt_offsets (vdelta k') 0 vs = vt_offsets (vdelta k) 0 vs" using assms(6) by (rule vt_offsets_cong)
  ultimately show "vt_remaining k = (v, int ?d - int (vt_elapsed k)) # vt_remaining k'"
    unfolding vt_remaining_def assms(1,3) e using assms(2) by (auto simp: case_prod_unfold)
qed

lemma vt_remaining_ge:
  assumes "(w, r) \<in> set (vt_remaining k)" "vtlist k = v # vs"
  shows "int (unat (vdelta k v)) - int (vt_elapsed k) \<le> r"
proof -
  obtain n where n: "(w, n) \<in> set (vt_offsets (vdelta k) 0 (v # vs))" "r = int n - int (vt_elapsed k)"
    using assms by (auto simp: vt_remaining_def simp del: vt_offsets.simps)
  then have "unat (vdelta k v) \<le> n" using vt_offsets_ge [of w n "vdelta k" "unat (vdelta k v)" vs] by auto
  then show ?thesis using n(2) by linarith
qed

lemma vt_remaining_vtlist: "map fst (vt_remaining k) = vtlist k"
  by (simp add: vt_remaining_def comp_def case_prod_unfold)

definition due :: "vtid \<times> int \<Rightarrow> bool" where
  "due x \<longleftrightarrow> snd x \<le> 0"

locale timer_calls =
  fixes call :: "vtfunc_t \<Rightarrow> nat \<Rightarrow> ch_system \<Rightarrow> ch_system option"
    and inv :: "ch_system \<Rightarrow> bool"
    and can_fire :: "ch_system \<Rightarrow> vtid \<Rightarrow> vtfunc_t \<Rightarrow> nat \<Rightarrow> bool"
    and fired :: "ch_system \<Rightarrow> vtid \<Rightarrow> bool"
  assumes inv_body: "body k = body k' \<Longrightarrow> inv k = inv k'"
    and can_fire_body: "body k = body k' \<Longrightarrow> can_fire k v f p = can_fire k' v f p"
    and fired_body: "body k = body k' \<Longrightarrow> fired k v = fired k' v"
    and call_ok: "class_isr k \<Longrightarrow> inv k \<Longrightarrow> can_fire k v f p \<Longrightarrow>
      \<exists>k'. call f p k = Some k' \<and> class_isr k' \<and> inv k' \<and> same_vt k k' \<and> fired k' v \<and>
        (\<forall>w g q. w \<noteq> v \<longrightarrow> can_fire k w g q \<longrightarrow> can_fire k' w g q) \<and> (\<forall>w. w \<noteq> v \<longrightarrow> fired k w \<longrightarrow> fired k' w)"
begin

definition armed_ok :: "ch_system \<Rightarrow> bool" where
  "armed_ok k \<longleftrightarrow> (\<forall>v \<in> set (vtlist k). \<exists>f. vt_func (vtimer k v) = Some f \<and> can_fire k v f (vt_par (vtimer k v)))"

text \<open>One round of the loop.\<close>

lemma tick_step:
  assumes "vtlist k = v # vs" "unat (vdelta k v) \<le> vt_elapsed k" "vt_ok k" "class_I k" "0 < isr_cnt k" "inv k" "armed_ok k"
  shows "\<exists>k'. tick_loop call k = tick_loop call k' \<and> vtlist k' = vs \<and> vtl_lasttime k' = vtl_lasttime k + vdelta k v \<and>
    port_time k' = port_time k \<and> (\<forall>w. vdelta k' w = vdelta k w) \<and> vt_ok k' \<and> class_I k' \<and> 0 < isr_cnt k' \<and> inv k' \<and>
    armed_ok k' \<and> fired k' v \<and> (\<forall>w. w \<noteq> v \<longrightarrow> fired k w \<longrightarrow> fired k' w)"
proof -
  obtain f where f: "vt_func (vtimer k v) = Some f" "can_fire k v f (vt_par (vtimer k v))"
    using assms(1,7) by (auto simp: armed_ok_def)
  define k0 where "k0 = k\<lparr>vtl_lasttime := vtl_lasttime k + vdelta k v\<rparr>"
  define k1 where "k1 = set_vfunc v None (k0\<lparr>vtlist := vs\<rparr>)"
  define k2 where "k2 = (if vs = [] then stStopAlarm k1 else k1)\<lparr>lock_cnt := 0\<rparr>"
  have b: "body k2 = body k" by (simp add: k2_def k1_def k0_def)
  have i: "class_isr k2" using assms(5) by (simp add: k2_def k1_def k0_def class_isr_def set_vfunc_def stStopAlarm_def)
  have vt2: "vt_par (vtimer k2 v) = vt_par (vtimer k v)" "vtlist k2 = vs" "vtl_lasttime k2 = vtl_lasttime k + vdelta k v"
      "port_time k2 = port_time k" "\<And>w. vdelta k2 w = vdelta k w" "vtl_delta k2 = vtl_delta k"
      "\<And>w. vt_func (vtimer k2 w) = (if w = v then None else vt_func (vtimer k w))"
      "\<And>w. vt_par (vtimer k2 w) = vt_par (vtimer k w)"
      "port_alarm k2 = (if vs = [] then None else port_alarm k)" "isr_cnt k2 = isr_cnt k"
    by (simp_all add: k2_def k1_def k0_def stStopAlarm_def set_vfunc_def)
  obtain k3 where k3: "call f (vt_par (vtimer k v)) k2 = Some k3" "class_isr k3" "inv k3" "same_vt k2 k3" "fired k3 v"
      "\<And>w g q. w \<noteq> v \<Longrightarrow> can_fire k2 w g q \<Longrightarrow> can_fire k3 w g q" "\<And>w. w \<noteq> v \<Longrightarrow> fired k2 w \<Longrightarrow> fired k3 w"
    using call_ok [OF i, of v f "vt_par (vtimer k v)"] inv_body [OF b] can_fire_body [OF b] assms(6) f(2) by blast
  define k4 where "k4 = k3\<lparr>lock_cnt := 1\<rparr>"
  have b4: "body k4 = body k3" by (simp add: k4_def)
  have le: "vdelta k v \<le> chVTGetSystemTimeX k - vtl_lasttime k"
    using assms(2) by (simp add: vt_elapsed_def chVTGetSystemTimeX_def word_le_nat_alt)
  have "chSysUnlockFromISR (if vs = [] then stStopAlarm k1 else k1) = Some k2"
    using assms(4,5) unfolding k2_def
    by (intro chSysUnlockFromISR_ok) (simp_all add: k1_def k0_def class_I_def set_vfunc_def stStopAlarm_def)
  then have "tick_loop call k = tick_loop call k4"
    using assms(1) le f(1) k3(1) vt2(1) chSysLockFromISR_ok [OF k3(2)]
    by (subst tick_loop.simps) (simp add: k0_def [symmetric] k1_def [symmetric] k4_def, simp add: k1_def k0_def)
  moreover have s: "vtlist k4 = vs" "vtimer k4 = vtimer k2" "vtl_lasttime k4 = vtl_lasttime k2" "port_time k4 = port_time k"
      "vtl_delta k4 = vtl_delta k2" "port_alarm k4 = port_alarm k2" "isr_cnt k4 = isr_cnt k"
    using k3(4) vt2 by (simp_all add: k4_def same_vt_def)
  moreover have "vt_ok k4"
  proof -
    have "vt_total (vdelta k4) vs = vt_total (vdelta k) vs" using s(2) vt2(5) by (intro vt_total_cong) simp
    then show ?thesis
      using assms(1) vt_okD [OF assms(3)] s vt2 unfolding vt_ok_def by auto
  qed
  moreover have "armed_ok k4" unfolding armed_ok_def
  proof
    fix w assume w: "w \<in> set (vtlist k4)"
    then have ne: "w \<noteq> v" "w \<in> set (vtlist k)" using vt_okD(1) [OF assms(3)] assms(1) s(1) by auto
    then obtain g where "vt_func (vtimer k w) = Some g" "can_fire k w g (vt_par (vtimer k w))"
      using assms(7) by (auto simp: armed_ok_def)
    then show "\<exists>f. vt_func (vtimer k4 w) = Some f \<and> can_fire k4 w f (vt_par (vtimer k4 w))"
      using k3(6) [OF ne(1)] can_fire_body [OF b] can_fire_body [OF b4] ne(1) s(2) vt2(7,8) by simp
  qed
  ultimately show ?thesis
    using k3 vt2 assms(5) inv_body [OF b4] fired_body [OF b4] fired_body [OF b]
    by (intro exI [of _ k4]) (auto simp: k4_def class_I_def class_isr_def)
qed

lemma tick_loop_fires:
  assumes "vt_ok k" "class_I k" "0 < isr_cnt k" "inv k" "armed_ok k" "vt_elapsed k < 2 ^ 32 - 1"
  shows "\<exists>k'. tick_loop call k = Some k' \<and> vt_ok k' \<and> class_I k' \<and> 0 < isr_cnt k' \<and> inv k' \<and> armed_ok k' \<and>
    port_time k' = port_time k \<and> vt_elapsed k' \<le> vt_elapsed k \<and>
    vt_remaining k' = filter (\<lambda>x. \<not> due x) (vt_remaining k) \<and>
    (vtlist k' \<noteq> [] \<longrightarrow> vt_elapsed k' < unat (vdelta k' (hd (vtlist k')))) \<and>
    (\<forall>x \<in> set (vt_remaining k). due x \<longrightarrow> fired k' (fst x)) \<and> (\<forall>w. w \<notin> set (vtlist k) \<longrightarrow> fired k w \<longrightarrow> fired k' w)"
  using assms
proof (induction "vtlist k" arbitrary: k)
  case Nil
  have "vt_elapsed k < unat (- 1 :: systime_t)" using Nil.prems(6) by (simp add: unsigned_minus_1_eq_mask mask_eq_exp_minus_1)
  then have "tick_loop call k = Some k"
    using Nil.hyps [symmetric] vt_okD(3) [OF Nil.prems(1)]
    by (subst tick_loop.simps) (simp add: chVTGetSystemTimeX_def vt_elapsed_def word_le_nat_alt not_le)
  then show ?case using Nil by (simp add: vt_remaining_empty)
next
  case (Cons v vs)
  note vl = Cons.hyps(2) [symmetric]
  show ?case
  proof (cases "unat (vdelta k v) \<le> vt_elapsed k")
    case False
    have "\<not> due x" if "x \<in> set (vt_remaining k)" for x
    proof -
      have "(fst x, snd x) \<in> set (vt_remaining k)" using that by simp
      from vt_remaining_ge [OF this vl] show ?thesis unfolding due_def using False by linarith
    qed
    then have "filter (\<lambda>x. \<not> due x) (vt_remaining k) = vt_remaining k" by simp
    moreover have "tick_loop call k = Some k"
      using False vl by (subst tick_loop.simps) (simp add: chVTGetSystemTimeX_def vt_elapsed_def word_le_nat_alt)
    ultimately show ?thesis using Cons.prems vl False \<open>\<And>x. x \<in> set (vt_remaining k) \<Longrightarrow> \<not> due x\<close> by auto
  next
    case True
    obtain k1 where k1: "tick_loop call k = tick_loop call k1" "vtlist k1 = vs" "vtl_lasttime k1 = vtl_lasttime k + vdelta k v"
        "port_time k1 = port_time k" "\<And>w. vdelta k1 w = vdelta k w" "vt_ok k1" "class_I k1" "0 < isr_cnt k1" "inv k1"
        "armed_ok k1" "fired k1 v" "\<And>w. w \<noteq> v \<Longrightarrow> fired k w \<Longrightarrow> fired k1 w"
      using tick_step [OF vl True Cons.prems(1-5)] by blast
    note pop = vt_remaining_pop [OF vl True k1(2-4) k1(5)]
    have el: "vt_elapsed k1 < 2 ^ 32 - 1" using pop(2) Cons.prems(6) by simp
    obtain k' where k': "tick_loop call k1 = Some k'" "vt_ok k'" "class_I k'" "0 < isr_cnt k'" "inv k'" "armed_ok k'"
        "port_time k' = port_time k1" "vt_elapsed k' \<le> vt_elapsed k1"
        "vt_remaining k' = filter (\<lambda>x. \<not> due x) (vt_remaining k1)"
        "vtlist k' \<noteq> [] \<longrightarrow> vt_elapsed k' < unat (vdelta k' (hd (vtlist k')))"
        "\<forall>x \<in> set (vt_remaining k1). due x \<longrightarrow> fired k' (fst x)" "\<And>w. w \<notin> set vs \<Longrightarrow> fired k1 w \<Longrightarrow> fired k' w"
      using Cons.hyps(1) [of k1] k1(2,6-10) el by blast
    have v: "v \<notin> set vs" using vt_okD(1) [OF Cons.prems(1)] vl by simp
    have "due (v, int (unat (vdelta k v)) - int (vt_elapsed k))" unfolding due_def snd_conv using True by linarith
    then have "vt_remaining k' = filter (\<lambda>x. \<not> due x) (vt_remaining k)" using k'(9) pop(1) by simp
    moreover have "\<forall>x \<in> set (vt_remaining k). due x \<longrightarrow> fired k' (fst x)"
      using k'(11,12) k1(11) v pop(1) by auto
    moreover have "fired k' w" if "w \<notin> set (vtlist k)" "fired k w" for w
      using that k1(12) k'(12) vl by auto
    ultimately show ?thesis using k' k1(1,4) pop(2) by auto
  qed
qed

text \<open>The alarm that the tick sets for the first timer left.\<close>

lemma tick_fires:
  assumes ok: "vt_ok k" "class_I k" "0 < isr_cnt k" "inv k" "armed_ok k" and el: "vt_elapsed k < 2 ^ 32 - 2"
  shows "\<exists>k'. chVTDoTickI call k = Some k' \<and> vt_ok k' \<and> class_I k' \<and> inv k' \<and> armed_ok k' \<and>
    vt_remaining k' = filter (\<lambda>x. \<not> due x) (vt_remaining k) \<and> (\<forall>x \<in> set (vt_remaining k). due x \<longrightarrow> fired k' (fst x)) \<and>
    port_alarm k' = (case vt_remaining k' of [] \<Rightarrow> None | x # xs \<Rightarrow> Some (port_time k + word_of_int (max 2 (snd x))))"
proof -
  obtain k1 where k1: "tick_loop call k = Some k1" "vt_ok k1" "class_I k1" "inv k1" "armed_ok k1"
      "port_time k1 = port_time k" "vt_elapsed k1 \<le> vt_elapsed k" "vt_remaining k1 = filter (\<lambda>x. \<not> due x) (vt_remaining k)"
      "vtlist k1 \<noteq> [] \<longrightarrow> vt_elapsed k1 < unat (vdelta k1 (hd (vtlist k1)))"
      "\<forall>x \<in> set (vt_remaining k). due x \<longrightarrow> fired k1 (fst x)"
    using tick_loop_fires [OF ok] el by auto
  show ?thesis
  proof (cases "vtlist k1")
    case Nil
    then have "vt_remaining k1 = []" "port_alarm k1 = None" using vt_okD(4) [OF k1(2)] by (simp_all add: vt_remaining_empty)
    then show ?thesis using k1 Nil ok(2) by (simp add: chVTDoTickI_def)
  next
    case (Cons v vs)
    let ?d = "vdelta k1 v" and ?e = "port_time k1 - vtl_lasttime k1"
    define dl where "dl = (if ?d - ?e < 2 then 2 else ?d - ?e)"
    have lt: "unat ?e < unat ?d" using k1(9) Cons by (simp add: vt_elapsed_def)
    then have dif: "unat (?d - ?e) = unat ?d - unat ?e" by (intro unat_diff_le) (simp add: word_le_nat_alt)
    have u2: "unat (2 :: systime_t) = 2" by simp
    have gen: "int x = max 2 (int a - int b)" if "b < a" "x = max 2 (a - b)" for a b x :: nat using that by auto
    have udl: "unat dl = max 2 (unat ?d - unat ?e)"
      using dif u2 by (auto simp: dl_def word_less_nat_alt max_def)
    have "unat ?e + unat dl < 2 ^ 32"
      using udl lt k1(7) el unat32_lt [of ?d] by (auto simp: vt_elapsed_def max_def)
    then have "unat (?e + dl) = unat ?e + unat dl" by (simp add: unat_word_ariths)
    moreover have "port_time k1 + dl - vtl_lasttime k1 = ?e + dl" by simp
    ultimately have le: "?e \<le> port_time k1 + dl - vtl_lasttime k1" unfolding word_le_nat_alt by (metis le_add1)
    have dlt: "vtl_lasttime k1 + ?d - port_time k1 = ?d - ?e" by (simp add: algebra_simps)
    have dl': "(if vtl_lasttime k1 + ?d - port_time k1 < CH_CFG_ST_TIMEDELTA then CH_CFG_ST_TIMEDELTA
        else vtl_lasttime k1 + ?d - port_time k1) = dl"
      by (simp only: dlt dl_def CH_CFG_ST_TIMEDELTA_def)
    have r: "vt_remaining k1 = (v, int (unat ?d) - int (unat ?e)) # tl (vt_remaining k1)"
      using Cons by (simp add: vt_remaining_def vt_elapsed_def)
    have "int (unat dl) = max 2 (int (unat ?d) - int (unat ?e))" using gen [OF lt udl] .
    then have al: "word_of_int (max 2 (int (unat ?d) - int (unat ?e))) = dl" by (metis word_of_int_uint uint_nat)
    define k' where "k' = k1\<lparr>port_alarm := Some (port_time k1 + dl)\<rparr>"
    have "port_alarm k1 \<noteq> None" using vt_okD(4) [OF k1(2)] Cons by simp
    then have "chVTDoTickI call k = Some k'"
      using k1(1) ok(2) Cons le
      by (simp add: chVTDoTickI_def Let_def chVTGetSystemTimeX_def stSetAlarm_def dl' k'_def split del: if_split)
    moreover have b: "body k' = body k1" by (simp add: k'_def)
    moreover have "vt_ok k'" using k1(2) Cons by (simp add: vt_ok_def k'_def)
    moreover have "vt_remaining k' = vt_remaining k1" by (simp add: k'_def vt_remaining_def vt_elapsed_def)
    moreover have "armed_ok k'" using k1(5) can_fire_body [OF b] by (simp add: armed_ok_def k'_def)
    moreover have "port_alarm k' = (case vt_remaining k1 of [] \<Rightarrow> None | x # xs \<Rightarrow> Some (port_time k + word_of_int (max 2 (snd x))))"
      by (subst r) (simp only: list.case snd_conv al, simp add: k'_def k1(6))
    ultimately show ?thesis using k1(3,4,8,10) inv_body [OF b] fired_body [OF b] by (auto simp: k'_def class_I_def)
  qed
qed

end

subsection \<open>Time-outs of the kernel\<close>

lemma cnts_fit_timeout:
  assumes "cnts_fit k" "kernel_ok k" "timed_wait (state_of k t)"
  shows "cnts_fit (woken t m (timeout_obj t k))"
proof (cases "state_of k t = CH_STATE_WTSEM")
  case True
  then obtain i where "p_u (thd k t) = Wtobjp (Q_SEM i)" "s_cnt k i < 0" using sem_waiter [OF assms(2)] by metis
  moreover have "cnt_fits (s_cnt k j)" for j using assms(1) by (simp add: cnts_fit_def)
  ultimately show ?thesis using True by (auto simp: cnts_fit_def timeout_obj_def cnt_fits_def) (smt (verit))
next
  case False
  then have "s_cnt (timeout_obj t k) = s_cnt k" by (auto simp: timeout_obj_def split: p_union.splits qid.splits)
  then show ?thesis using assms(1) by (simp add: cnts_fit_def)
qed

text \<open>A timer that wakes a thread may fire while the thread is in a wait with time-out.\<close>

definition timeout_can :: "ch_system \<Rightarrow> vtid \<Rightarrow> vtfunc_t \<Rightarrow> nat \<Rightarrow> bool" where
  "timeout_can k v f p \<longleftrightarrow> f = Vt_wakeup \<and> v = Vt_thd p \<and> timed_wait (state_of k p)"

definition timeout_done :: "ch_system \<Rightarrow> vtid \<Rightarrow> bool" where
  "timeout_done k v \<longleftrightarrow> (\<exists>t. v = Vt_thd t \<and> state_of k t = CH_STATE_READY \<and> rdymsg_of t k = Some MSG_TIMEOUT)"

interpretation kernel_timers: timer_calls "vt_call cb" "\<lambda>k. kernel_ok k \<and> cnts_fit k" timeout_can timeout_done for cb
proof
  fix k k' :: ch_system
  assume b: "body k = body k'"
  note d = bodyD [OF b]
  show "(kernel_ok k \<and> cnts_fit k) = (kernel_ok k' \<and> cnts_fit k')"
    using d by (auto simp: cnts_fit_def kernel_ok_def sched_ok_def wait_ok_def sem_ok_def)
  show "timeout_can k v f p = timeout_can k' v f p" for v f p using d by (simp add: timeout_can_def)
  show "timeout_done k v = timeout_done k' v" for v using d by (simp add: timeout_done_def rdymsg_of_def)
next
  fix k v f p
  assume a: "class_isr k" "kernel_ok k \<and> cnts_fit k" "timeout_can k v f p"
  let ?k = "woken p MSG_TIMEOUT (timeout_obj p k)"
  have t: "timed_wait (state_of k p)" "f = Vt_wakeup" "v = Vt_thd p" using a(3) by (auto simp: timeout_can_def)
  have "vt_call cb f p k = Some ?k" using wakeup_timeout [OF _ _ a(1) t(1)] a(2) t(2) by (simp add: vt_call_def)
  moreover have "kernel_ok ?k" using kernel_ok_timeout [OF _ t(1)] a(2) by blast
  moreover have "cnts_fit ?k" using cnts_fit_timeout [OF _ _ t(1)] a(2) by blast
  moreover have "same_vt k ?k" "class_isr ?k" using a(1) by (simp_all add: same_vt_def class_isr_def timeout_obj_def split: p_union.splits qid.splits)
  moreover have "timeout_done ?k v" using t(3) by (simp add: timeout_done_def rdymsg_of_def)
  moreover have "timeout_can ?k w g q" if "w \<noteq> v" "timeout_can k w g q" for w g q
    using that t(3) by (auto simp: timeout_can_def)
  moreover have "timeout_done ?k w" if "w \<noteq> v" "timeout_done k w" for w
    using that t(3) by (auto simp: timeout_done_def rdymsg_of_def)
  ultimately show "\<exists>k'. vt_call cb f p k = Some k' \<and> class_isr k' \<and> (kernel_ok k' \<and> cnts_fit k') \<and> same_vt k k' \<and>
      timeout_done k' v \<and> (\<forall>w g q. w \<noteq> v \<longrightarrow> timeout_can k w g q \<longrightarrow> timeout_can k' w g q) \<and>
      (\<forall>w. w \<noteq> v \<longrightarrow> timeout_done k w \<longrightarrow> timeout_done k' w)"
    by blast
qed

subsection \<open>Properties\<close>


text \<open>The main thread sleeps with its time-out 7 ticks past; thread 2 sleeps for 5 ticks more.\<close>

definition sys_timers :: ch_system where
  "sys_timers = upd_thd 2 (\<lambda>x. x\<lparr>p_state := CH_STATE_SLEEPING\<rparr>) sys_asleep
     \<lparr>lock_cnt := 1, vtlist := [Vt_thd 0, Vt_thd 2], port_alarm := Some 3, port_time := 10,
      vtimer := (\<lambda>v. \<lparr>vt_delta = (if v = Vt_thd 0 then 3 else 12),
        vt_func = (if v = Vt_thd 0 \<or> v = Vt_thd 2 then Some Vt_wakeup else None),
        vt_par = (if v = Vt_thd 0 then 0 else 2)\<rparr>)\<rparr>"

lemma sys_timers_facts:
  "kernel_ok sys_timers" "cnts_fit sys_timers" "vt_ok sys_timers" "class_I sys_timers" "0 < isr_cnt sys_timers"
  "vt_remaining sys_timers = [(Vt_thd 0, - 7), (Vt_thd 2, 5)]" "vt_elapsed sys_timers = 10" "port_time sys_timers = 10"
proof -
  have e: "vtl_delta sys_asleep = - 1" "vtl_lasttime sys_asleep = 0" "isr_cnt sys_asleep = 1"
    "s_cnt sys_asleep = s_cnt sys0" "queues sys_asleep Q_RLIST = []" "r_current sys_asleep = 1"
    by (simp_all add: sys_asleep_def) (simp_all add: sys0_def)
  have st: "state_of sys_asleep 2 = CH_STATE_WTSTART" by (simp add: sys_asleep_def) (simp add: sys0_def thread0_def)
  have q: "qstate q \<noteq> CH_STATE_WTSTART" for q by (cases q) simp_all
  have "sched_ok sys_timers"
    using kernel_okD(1) [OF sys_asleep_facts(1)] st unfolding sched_ok_def apart_def unqueued_def sys_timers_def
    by (auto simp: e q)
  then show "kernel_ok sys_timers"
    using kernel_okD(2,3) [OF sys_asleep_facts(1)] st by (auto simp: kernel_ok_def wait_ok_def sem_ok_def sys_timers_def)
  show "cnts_fit sys_timers" using sys_asleep_facts(2) by (simp add: cnts_fit_def sys_timers_def)
  show "vt_ok sys_timers" by (auto simp: vt_ok_def sys_timers_def e)
  show "class_I sys_timers" "0 < isr_cnt sys_timers" by (simp_all add: class_I_def sys_timers_def e)
  show "vt_elapsed sys_timers = 10" by (simp add: vt_elapsed_def sys_timers_def e)
  then show "vt_remaining sys_timers = [(Vt_thd 0, - 7), (Vt_thd 2, 5)]" by (simp add: vt_remaining_def) (simp add: sys_timers_def)
qed (simp add: sys_timers_def)


end
