(* ===== verification/ChSys.thy ===== *)
theory ChSys
  imports ChDynamic ChTick
begin

text \<open>
  System services: \<open>chsys.c\<close> and the inline functions of \<open>chsys.h\<close>, time measurement (\<open>chtm.c\<close>), kernel
  statistics (\<open>chstats.c\<close>), the trace buffer of \<open>chdebug.c\<close> and the time conversion macros of \<open>chvt.h\<close>.

  The realtime counter is read through the port, so a function that reads it takes the value read.
  Interrupts are enabled exactly when the lock counter is 0, and the processor is in interrupt context
  exactly when the interrupt counter is positive. \<open>rtcnt_t\<close> and \<open>ucnt_t\<close> have 32 bits, \<open>rttime_t\<close> 64.
\<close>

subsection \<open>Status of the lock\<close>

datatype syssts_t = Sts_enabled | Sts_disabled

definition port_get_irq_status :: "ch_system \<Rightarrow> syssts_t" where
  "port_get_irq_status k = (if lock_cnt k = 0 then Sts_enabled else Sts_disabled)"

definition port_irq_enabled :: "syssts_t \<Rightarrow> bool" where
  "port_irq_enabled sts \<longleftrightarrow> sts = Sts_enabled"

definition port_is_isr_context :: "ch_system \<Rightarrow> bool" where
  "port_is_isr_context k \<longleftrightarrow> isr_cnt k > 0"

definition chSysGetStatusAndLockX :: "ch_system \<Rightarrow> (syssts_t \<times> ch_system) option" where
  "chSysGetStatusAndLockX k =
     do { let sts = port_get_irq_status k;
          k \<leftarrow> (if port_irq_enabled sts
                then (if port_is_isr_context k then chSysLockFromISR k else chSysLock k)
                else Some k);
          Some (sts, k) }"

text \<open>The part after the reschedule is \<open>chSysUnlock\<close> in the thread that runs then.\<close>

definition chSysRestoreStatusX :: "syssts_t \<Rightarrow> ch_system \<Rightarrow> (unit outcome \<times> ch_system) option" where
  "chSysRestoreStatusX sts k =
     (if port_irq_enabled sts
      then (if port_is_isr_context k
            then do { k \<leftarrow> chSysUnlockFromISR k; Some (Done (), k) }
            else do { r \<leftarrow> chSchRescheduleS k;
                      andthen r (\<lambda>_ k. do { k \<leftarrow> chSysUnlock k; Some (Done (), k) }) })
      else Some (Done (), k))"

definition chSysUnconditionalLock :: "ch_system \<Rightarrow> ch_system option" where
  "chSysUnconditionalLock k = (if port_irq_enabled (port_get_irq_status k) then chSysLock k else Some k)"

definition chSysUnconditionalUnlock :: "ch_system \<Rightarrow> ch_system option" where
  "chSysUnconditionalUnlock k = (if \<not> port_irq_enabled (port_get_irq_status k) then chSysUnlock k else Some k)"

definition chSysGetIdleThreadX :: "ch_system \<Rightarrow> tid option" where
  "chSysGetIdleThreadX k = (case queues k Q_RLIST of [] \<Rightarrow> None | t # ts \<Rightarrow> Some (last (t # ts)))"

subsection \<open>Start-up\<close>

text \<open>
  \<open>chSysInit\<close>, on the kernel state: \<open>mainthread\<close> and \<open>idle_wa\<close> are the addresses of the two static
  threads. \<open>core_init\<close> and \<open>heap_init\<close>, which it also calls, work on the memory and are separate.
\<close>

definition chSysInit :: "nat \<Rightarrow> tid \<Rightarrow> tid \<Rightarrow> nat \<Rightarrow> ch_system \<Rightarrow> (unit outcome \<times> ch_system) option" where
  "chSysInit wa_min mainthread idle_wa idle_size k =
     do { let k = scheduler_init k;
          let k = vt_init k;
          let k = thread_init mainthread NORMALPRIO k;
          let k = k\<lparr>r_current := mainthread\<rparr>;
          let k = set_state mainthread CH_STATE_CURRENT k;
          chSysEnable k;
          let k = chRegSetThreadName ''main'' k;
          r \<leftarrow> chThdCreateStatic wa_min idle_wa idle_size IDLEPRIO k;
          andthen r (\<lambda>tp k. Some (Done (), chRegSetThreadNameX tp ''idle'' k)) }"

subsection \<open>Integrity check\<close>

text \<open>
  The check walks each list forwards, counting up, and backwards, counting down. A list is given by its
  link functions and its header; \<open>count_loop\<close> is one such walk.
\<close>

record 'n dlist =
  d_next :: "'n \<Rightarrow> 'n"
  d_prev :: "'n \<Rightarrow> 'n"
  d_hdr :: 'n

definition CH_INTEGRITY_RLIST :: "32 word" where "CH_INTEGRITY_RLIST = 1"
definition CH_INTEGRITY_VTLIST :: "32 word" where "CH_INTEGRITY_VTLIST = 2"
definition CH_INTEGRITY_REGISTRY :: "32 word" where "CH_INTEGRITY_REGISTRY = 4"

partial_function (option) count_loop :: "('n \<Rightarrow> 'n) \<Rightarrow> 'n \<Rightarrow> cnt_t \<Rightarrow> cnt_t \<Rightarrow> 'n \<Rightarrow> cnt_t option" where
  "count_loop f hdr step n x =
     (if x \<noteq> hdr then do { n \<leftarrow> cnt_add n step; count_loop f hdr step n (f x) } else Some n)"

definition list_broken :: "'n dlist \<Rightarrow> bool option" where
  "list_broken l =
     do { n \<leftarrow> count_loop (d_next l) (d_hdr l) 1 0 (d_next l (d_hdr l));
          n \<leftarrow> count_loop (d_prev l) (d_hdr l) (- 1) n (d_prev l (d_hdr l));
          Some (n \<noteq> 0) }"

definition chSysIntegrityCheckI ::
  "32 word \<Rightarrow> 'a dlist \<Rightarrow> 'b dlist \<Rightarrow> 'c dlist \<Rightarrow> ch_system \<Rightarrow> bool option" where
  "chSysIntegrityCheckI testmask rlist vtl reg k =
     do { chDbgCheckClassI k;
          b \<leftarrow> (if and testmask CH_INTEGRITY_RLIST \<noteq> 0 then list_broken rlist else Some False);
          if b then Some True
          else do { b \<leftarrow> (if and testmask CH_INTEGRITY_VTLIST \<noteq> 0 then list_broken vtl else Some False);
                    if b then Some True
                    else do { b \<leftarrow> (if and testmask CH_INTEGRITY_REGISTRY \<noteq> 0 then list_broken reg else Some False);
                              if b then Some True else Some False } } }"

subsection \<open>The realtime counter\<close>

type_synonym rtcnt_t = "32 word"

definition chSysIsCounterWithinX :: "rtcnt_t \<Rightarrow> rtcnt_t \<Rightarrow> rtcnt_t \<Rightarrow> bool" where
  "chSysIsCounterWithinX cnt start end' \<longleftrightarrow> cnt - start < end' - start"

text \<open>\<open>rt i\<close> is the value of the counter at its \<open>i\<close>-th reading; the loop gives the number of readings.\<close>

partial_function (option) polled_loop :: "(nat \<Rightarrow> rtcnt_t) \<Rightarrow> rtcnt_t \<Rightarrow> rtcnt_t \<Rightarrow> nat \<Rightarrow> nat option" where
  "polled_loop rt start end' i =
     (if chSysIsCounterWithinX (rt i) start end' then polled_loop rt start end' (i + 1) else Some (i + 1))"

definition chSysPolledDelayX :: "(nat \<Rightarrow> rtcnt_t) \<Rightarrow> rtcnt_t \<Rightarrow> nat option" where
  "chSysPolledDelayX rt cycles =
     (let start = rt 0; end' = start + cycles in polled_loop rt start end' 1)"

subsection \<open>Time measurement\<close>

record time_measurement_t =
  best :: rtcnt_t
  worst :: rtcnt_t
  tm_last :: rtcnt_t
  tm_n :: "32 word"
  cumulative :: "64 word"

definition tm_stop :: "time_measurement_t \<Rightarrow> rtcnt_t \<Rightarrow> rtcnt_t \<Rightarrow> time_measurement_t" where
  "tm_stop tmp now offset =
     (let tmp = tmp\<lparr>tm_n := tm_n tmp + 1\<rparr>;
          tmp = tmp\<lparr>tm_last := (now - tm_last tmp) - offset\<rparr>;
          tmp = tmp\<lparr>cumulative := cumulative tmp + ucast (tm_last tmp)\<rparr>
      in if tm_last tmp > worst tmp then tmp\<lparr>worst := tm_last tmp\<rparr>
         else if tm_last tmp < best tmp then tmp\<lparr>best := tm_last tmp\<rparr>
         else tmp)"

definition chTMObjectInit :: time_measurement_t where
  "chTMObjectInit = \<lparr>best = - 1, worst = 0, tm_last = 0, tm_n = 0, cumulative = 0\<rparr>"

definition chTMStartMeasurementX :: "rtcnt_t \<Rightarrow> time_measurement_t \<Rightarrow> time_measurement_t" where
  "chTMStartMeasurementX now tmp = tmp\<lparr>tm_last := now\<rparr>"

definition chTMStopMeasurementX :: "rtcnt_t \<Rightarrow> rtcnt_t \<Rightarrow> time_measurement_t \<Rightarrow> time_measurement_t" where
  "chTMStopMeasurementX offset now tmp = tm_stop tmp now offset"

definition chTMChainMeasurementToX ::
  "rtcnt_t \<Rightarrow> time_measurement_t \<Rightarrow> time_measurement_t \<Rightarrow> time_measurement_t \<times> time_measurement_t" where
  "chTMChainMeasurementToX now tmp1 tmp2 =
     (let tmp2 = tmp2\<lparr>tm_last := now\<rparr>; tmp1 = tm_stop tmp1 (tm_last tmp2) 0 in (tmp1, tmp2))"

text \<open>The calibration: the offset is what measuring nothing takes, from the readings \<open>t0\<close> and \<open>t1\<close>.\<close>

definition tm_init :: "rtcnt_t \<Rightarrow> rtcnt_t \<Rightarrow> rtcnt_t" where
  "tm_init t0 t1 = tm_last (chTMStopMeasurementX 0 t1 (chTMStartMeasurementX t0 chTMObjectInit))"

subsection \<open>Statistics\<close>

record kernel_stats_t =
  n_irq :: "32 word"
  n_ctxswc :: "32 word"
  m_crit_thd :: time_measurement_t
  m_crit_isr :: time_measurement_t

definition stats_init :: kernel_stats_t where
  "stats_init = \<lparr>n_irq = 0, n_ctxswc = 0, m_crit_thd = chTMObjectInit, m_crit_isr = chTMObjectInit\<rparr>"

definition stats_increase_irq :: "kernel_stats_t \<Rightarrow> kernel_stats_t" where
  "stats_increase_irq s = s\<lparr>n_irq := n_irq s + 1\<rparr>"

text \<open>\<open>ps\<close> gives the measurement \<open>p_stats\<close> of each thread.\<close>

definition stats_ctxswc ::
  "rtcnt_t \<Rightarrow> tid \<Rightarrow> tid \<Rightarrow> kernel_stats_t \<Rightarrow> (tid \<Rightarrow> time_measurement_t) \<Rightarrow> kernel_stats_t \<times> (tid \<Rightarrow> time_measurement_t)" where
  "stats_ctxswc now ntp otp s ps =
     (let s = s\<lparr>n_ctxswc := n_ctxswc s + 1\<rparr>;
          (o', n') = chTMChainMeasurementToX now (ps otp) (ps ntp)
      in (s, ps(ntp := n', otp := o')))"

definition stats_start_measure_crit_thd :: "rtcnt_t \<Rightarrow> kernel_stats_t \<Rightarrow> kernel_stats_t" where
  "stats_start_measure_crit_thd now s = s\<lparr>m_crit_thd := chTMStartMeasurementX now (m_crit_thd s)\<rparr>"

definition stats_stop_measure_crit_thd :: "rtcnt_t \<Rightarrow> rtcnt_t \<Rightarrow> kernel_stats_t \<Rightarrow> kernel_stats_t" where
  "stats_stop_measure_crit_thd offset now s = s\<lparr>m_crit_thd := chTMStopMeasurementX offset now (m_crit_thd s)\<rparr>"

definition stats_start_measure_crit_isr :: "rtcnt_t \<Rightarrow> kernel_stats_t \<Rightarrow> kernel_stats_t" where
  "stats_start_measure_crit_isr now s = s\<lparr>m_crit_isr := chTMStartMeasurementX now (m_crit_isr s)\<rparr>"

definition stats_stop_measure_crit_isr :: "rtcnt_t \<Rightarrow> rtcnt_t \<Rightarrow> kernel_stats_t \<Rightarrow> kernel_stats_t" where
  "stats_stop_measure_crit_isr offset now s = s\<lparr>m_crit_isr := chTMStopMeasurementX offset now (m_crit_isr s)\<rparr>"

subsection \<open>The trace buffer\<close>

record ch_swc_event_t =
  se_time :: systime_t
  se_tp :: tid
  se_wtobjp :: p_union
  se_state :: tstate_t

record ch_trace_buffer_t =
  tb_size :: nat
  tb_ptr :: nat
  tb_buffer :: "ch_swc_event_t list"

definition CH_DBG_TRACE_BUFFER_SIZE :: nat where "CH_DBG_TRACE_BUFFER_SIZE = 64"

definition dbg_trace_init :: "ch_trace_buffer_t \<Rightarrow> ch_trace_buffer_t" where
  "dbg_trace_init tb = tb\<lparr>tb_size := CH_DBG_TRACE_BUFFER_SIZE, tb_ptr := 0\<rparr>"

definition dbg_trace :: "tid \<Rightarrow> ch_system \<Rightarrow> ch_trace_buffer_t \<Rightarrow> ch_trace_buffer_t" where
  "dbg_trace otp k tb =
     (let e = \<lparr>se_time = chVTGetSystemTimeX k, se_tp = r_current k, se_wtobjp = p_u (thd k otp), se_state = state_of k otp\<rparr>;
          tb = tb\<lparr>tb_buffer := (tb_buffer tb)[tb_ptr tb := e]\<rparr>;
          tb = tb\<lparr>tb_ptr := tb_ptr tb + 1\<rparr>
      in if tb_ptr tb \<ge> CH_DBG_TRACE_BUFFER_SIZE then tb\<lparr>tb_ptr := 0\<rparr> else tb)"

subsection \<open>Time conversion\<close>

text \<open>\<open>freq\<close> is \<open>CH_CFG_ST_FREQUENCY\<close>; arguments are converted to 32 bits and the product wraps.\<close>

definition S2ST :: "32 word \<Rightarrow> 32 word \<Rightarrow> systime_t" where
  "S2ST freq sec = sec * freq"

definition MS2ST :: "32 word \<Rightarrow> 32 word \<Rightarrow> systime_t" where
  "MS2ST freq msec = (msec * freq + 999) div 1000"

definition US2ST :: "32 word \<Rightarrow> 32 word \<Rightarrow> systime_t" where
  "US2ST freq usec = (usec * freq + 999999) div 1000000"

definition ST2S :: "32 word \<Rightarrow> systime_t \<Rightarrow> 32 word" where
  "ST2S freq n = (n + freq - 1) div freq"

definition ST2MS :: "32 word \<Rightarrow> systime_t \<Rightarrow> 32 word" where
  "ST2MS freq n = (n * 1000 + freq - 1) div freq"

definition ST2US :: "32 word \<Rightarrow> systime_t \<Rightarrow> 32 word" where
  "ST2US freq n = (n * 1000000 + freq - 1) div freq"

subsection \<open>Lemmas\<close>

definition boot_ok :: "ch_system \<Rightarrow> bool" where
  "boot_ok k \<longleftrightarrow>
     class_thread k \<and> (\<forall>q. queues k q = []) \<and> (\<forall>m. m_owner k m = None) \<and> (\<forall>r. tref k r = None) \<and>
     (\<forall>s. 0 \<le> s_cnt k s) \<and> (\<forall>v. vt_func (vtimer k v) = None) \<and> port_alarm k = None \<and>
     (\<forall>t. state_of k t = CH_STATE_WTSTART \<and> NOPRIO < prio_of k t \<and> NOPRIO < p_realprio (thd k t) \<and> mtxlist_of k t = [] \<and>
        prio_of k t = p_realprio (thd k t))"

text \<open>The state of \<open>chSysInit\<close> before it creates the idle thread.\<close>

definition booted :: "tid \<Rightarrow> ch_system \<Rightarrow> ch_system" where
  "booted main k = chRegSetThreadName ''main''
     (set_state main CH_STATE_CURRENT ((thread_init main NORMALPRIO (vt_init (scheduler_init k)))\<lparr>r_current := main\<rparr>))"

lemma booted_simps [simp]:
  "boot_ok k \<Longrightarrow> queues (booted main k) q = []" "r_current (booted main k) = main" "reglist (booted main k) = [main]"
  "s_cnt (booted main k) = s_cnt k" "m_owner (booted main k) = m_owner k" "tref (booted main k) = tref k"
  "vtimer (booted main k) = vtimer k" "vtlist (booted main k) = []" "vtl_delta (booted main k) = - 1"
  "port_alarm (booted main k) = port_alarm k" "isr_cnt (booted main k) = isr_cnt k" "lock_cnt (booted main k) = lock_cnt k"
  "state_of (booted main k) x = (if x = main then CH_STATE_CURRENT else state_of k x)"
  "prio_of (booted main k) x = (if x = main then NORMALPRIO else prio_of k x)"
  "p_realprio (thd (booted main k) x) = (if x = main then NORMALPRIO else p_realprio (thd k x))"
  "mtxlist_of (booted main k) x = (if x = main then [] else mtxlist_of k x)"
  "p_u (thd (booted main k) x) = p_u (thd k x)"
  by (simp_all add: booted_def chRegSetThreadName_def vt_init_def scheduler_init_def thread_init_def Let_def REG_INSERT_def
      list_init_def queue_init_def boot_ok_def upd_thd_def set_queue_def)

lemma booted_ok:
  assumes "boot_ok k"
  shows "kernel_ok (booted main k)" "mtx_ok (booted main k)" "vt_ok (booted main k)" "class_thread (booted main k)"
    "resched_ok (booted main k)" "idle \<noteq> main \<Longrightarrow> fresh idle (booted main k)"
proof -
  note b = assms [unfolded boot_ok_def]
  have "sched_ok (booted main k)"
    using b by (auto simp: sched_ok_def apart_def unqueued_def assms NORMALPRIO_def NOPRIO_def)
  moreover have "wait_ok (booted main k)" using b by (simp add: wait_ok_def)
  moreover have "sem_ok (booted main k)" using b by (simp add: sem_ok_def assms)
  ultimately show "kernel_ok (booted main k)" by (simp add: kernel_ok_def)
  show "mtx_ok (booted main k)"
    using b by (auto simp: mtx_ok_def mtx_owned_ok_def tight_at_def waits_for_def assms NORMALPRIO_def NOPRIO_def)
  show "vt_ok (booted main k)" using b by (simp add: vt_ok_def)
  show "class_thread (booted main k)" using b by (simp add: class_thread_def)
  show "resched_ok (booted main k)" by (simp add: resched_ok_iff assms)
  show "fresh idle (booted main k)" if "idle \<noteq> main" using b that by (simp add: fresh_def assms)
qed

text \<open>Setting a thread's name changes nothing the invariants speak of.\<close>

lemma chRegSetThreadNameX_simps [simp]:
  "queues (chRegSetThreadNameX t n k) = queues k" "r_current (chRegSetThreadNameX t n k) = r_current k"
  "reglist (chRegSetThreadNameX t n k) = reglist k" "s_cnt (chRegSetThreadNameX t n k) = s_cnt k"
  "m_owner (chRegSetThreadNameX t n k) = m_owner k" "tref (chRegSetThreadNameX t n k) = tref k"
  "vtimer (chRegSetThreadNameX t n k) = vtimer k" "vtlist (chRegSetThreadNameX t n k) = vtlist k"
  "vtl_delta (chRegSetThreadNameX t n k) = vtl_delta k" "port_alarm (chRegSetThreadNameX t n k) = port_alarm k"
  "isr_cnt (chRegSetThreadNameX t n k) = isr_cnt k" "lock_cnt (chRegSetThreadNameX t n k) = lock_cnt k"
  "state_of (chRegSetThreadNameX t n k) x = state_of k x" "prio_of (chRegSetThreadNameX t n k) x = prio_of k x"
  "p_realprio (thd (chRegSetThreadNameX t n k) x) = p_realprio (thd k x)"
  "mtxlist_of (chRegSetThreadNameX t n k) x = mtxlist_of k x" "p_u (thd (chRegSetThreadNameX t n k) x) = p_u (thd k x)"
  by (simp_all add: chRegSetThreadNameX_def upd_thd_def)

lemma chRegSetThreadNameX_ok [simp]:
  "kernel_ok (chRegSetThreadNameX t n k) = kernel_ok k" "mtx_ok (chRegSetThreadNameX t n k) = mtx_ok k"
  "vt_ok (chRegSetThreadNameX t n k) = vt_ok k" "resched_ok (chRegSetThreadNameX t n k) = resched_ok k"
  "class_thread (chRegSetThreadNameX t n k) = class_thread k"
  by (simp_all add: kernel_ok_def sched_ok_def wait_ok_def sem_ok_def mtx_ok_def mtx_owned_ok_def
      tight_at_def waits_for_def vt_ok_def resched_ok_iff class_thread_def)

lemma chSysInit_ok:
  assumes boot: "boot_ok k" and ne: "idle \<noteq> main" and sz: "wa_min \<le> sz"
  shows "\<exists>k'. chSysInit wa_min main idle sz k = Some (Done (), k') \<and> kernel_ok k' \<and> mtx_ok k' \<and> vt_ok k' \<and> resched_ok k' \<and>
    class_thread k' \<and> r_current k' = main \<and> queues k' Q_RLIST = [idle] \<and> reglist k' = [main, idle] \<and>
    (\<forall>x. state_of k' x \<noteq> CH_STATE_WTMTX)"
proof -
  let ?k = "booted main k" and ?c = "created idle IDLEPRIO (booted main k\<lparr>lock_cnt := 1\<rparr>)"
  note B = booted_ok [OF boot]
  have p: "NOPRIO < IDLEPRIO" "IDLEPRIO \<le> HIGHPRIO" "IDLEPRIO \<le> NORMALPRIO"
    by (simp_all add: NOPRIO_def IDLEPRIO_def HIGHPRIO_def NORMALPRIO_def)
  note E = chThdCreateStatic_eq [OF B(1,2,4,5) B(6) [OF ne] p(1,2) sz]
  have en: "chSysEnable (set_state main CH_STATE_CURRENT ((thread_init main NORMALPRIO (vt_init (scheduler_init k)))\<lparr>r_current := main\<rparr>)) = Some ()"
    using boot by (simp add: chSysEnable_def dbg_check_enable_def vt_init_def scheduler_init_def boot_ok_def class_thread_def queue_init_def set_queue_def)
  have "chSysInit wa_min main idle sz k = Some (Done (), chRegSetThreadNameX idle ''idle'' ((snd ?c)\<lparr>lock_cnt := 0\<rparr>))"
    using en E(1) p(3) by (simp add: chSysInit_def Let_def booted_def [symmetric])
  moreover have "vt_ok ((snd ?c)\<lparr>lock_cnt := 0\<rparr>)"
    using B(3) ne by (auto simp: vt_ok_def created_def wakeupS_def thread_init_def Let_def REG_INSERT_def list_init_def queue_init_def)
  moreover have "queues (snd ?c) Q_RLIST = [idle]" "reglist (snd ?c) = [main, idle]" "r_current (snd ?c) = main"
      "isr_cnt (snd ?c) = 0"
    using ne p(3) B(4) by (simp_all add: created_def wakeupS_def boot unqueue_def class_thread_def)
  moreover have "state_of (snd ?c) x \<noteq> CH_STATE_WTMTX" for x
    using boot p(3) by (auto simp: created_def wakeupS_def boot_ok_def split: if_splits)
  ultimately show ?thesis using E(2-4) by (simp add: class_thread_def)
qed

subsection \<open>Properties\<close>


definition bss :: ch_system where
  "bss = sys0\<lparr>thd := (\<lambda>_. thread0 IDLEPRIO CH_STATE_WTSTART), queues := (\<lambda>_. []), reglist := []\<rparr>"


text \<open>
  Saving the lock status and locking, then restoring it, works in every context: from a thread, from an
  interrupt handler or inside a critical zone, the code in between runs locked and afterwards the
  system is exactly as before.
\<close>

theorem chSysStatus_roundtrip:
  assumes "class_thread k \<and> resched_ok k \<or> class_isr k \<or> class_I k"
    and "sched_ok k"
  shows "\<exists>sts k1. chSysGetStatusAndLockX k = Some (sts, k1) \<and> class_I k1 \<and> chSysRestoreStatusX sts k1 = Some (Done (), k)"
proof -
  have z: "k\<lparr>lock_cnt := 0\<rparr> = k" if "lock_cnt k = 0" using that by (intro ch_system.equality) simp_all
  consider (thd) "class_thread k" "resched_ok k" | (isr) "class_isr k" | (locked) "class_I k" using assms(1) by blast
  then show ?thesis
  proof cases
    case thd
    let ?k = "k\<lparr>lock_cnt := 1\<rparr>"
    have S: "class_S ?k" "sched_ok ?k" "resched_ok ?k"
      using thd assms(2) by (simp_all add: class_S_def class_thread_def)
    have "chSchRescheduleS ?k = Some (Done (), ?k)" using chSchRescheduleS_eq [OF S(2,1)] S(3) by (simp add: rescheduled_def)
    then show ?thesis using thd lock_unlock [OF thd] class_S_I [OF S(1)]
      by (simp add: chSysGetStatusAndLockX_def chSysRestoreStatusX_def port_get_irq_status_def port_irq_enabled_def
          port_is_isr_context_def class_thread_def)
  next
    case isr
    then show ?thesis using z chSysLockFromISR_ok [OF isr]
      by (simp add: chSysGetStatusAndLockX_def chSysRestoreStatusX_def port_get_irq_status_def port_irq_enabled_def
          port_is_isr_context_def class_isr_def class_I_def chSysUnlockFromISR_ok)
  next
    case locked
    then show ?thesis
      by (simp add: chSysGetStatusAndLockX_def chSysRestoreStatusX_def port_get_irq_status_def port_irq_enabled_def class_I_def)
  qed
qed

theorem chSysStatus_roundtrip_witness:
  "\<exists>sts k1. chSysGetStatusAndLockX sys_asleep = Some (sts, k1) \<and> class_I k1 \<and> chSysRestoreStatusX sts k1 = Some (Done (), sys_asleep)"
  using chSysStatus_roundtrip [of sys_asleep] sys_asleep_facts(1,3) kernel_okD(1) by blast

text \<open>What the integrity check can see of a list: its nodes forwards and backwards.\<close>

definition dlist_walks :: "'n dlist \<Rightarrow> 'n list \<Rightarrow> 'n list \<Rightarrow> bool" where
  "dlist_walks l xs ys \<longleftrightarrow>
     chain (d_next l) (d_hdr l) xs (d_hdr l) \<and> chain (d_prev l) (d_hdr l) ys (d_hdr l) \<and>
     d_hdr l \<notin> set xs \<and> d_hdr l \<notin> set ys \<and> length xs < 2 ^ 31 \<and> length ys < 2 ^ 31"

lemma count_loop_chain:
  assumes "chain f x xs hdr" "hdr \<notin> set xs" "\<And>i. i \<le> length xs \<Longrightarrow> cnt_fits (n + int i * step)"
  shows "count_loop f hdr step n (f x) = Some (n + int (length xs) * step)"
  using assms
proof (induction xs arbitrary: x n)
  case Nil
  then show ?case by (subst count_loop.simps) simp
next
  case (Cons a as)
  have "cnt_fits (n + step + int i * step)" if "i \<le> length as" for i
    using Cons.prems(3) [of "Suc i"] that by (simp add: algebra_simps)
  then have "count_loop f hdr step (n + step) (f a) = Some (n + step + int (length as) * step)"
    using Cons.prems(1,2) by (intro Cons.IH) auto
  moreover have "cnt_fits (n + step)" using Cons.prems(3) [of 1] by simp
  ultimately show ?case using Cons.prems(1,2) by (subst count_loop.simps) (auto simp: algebra_simps)
qed

lemma list_broken_walks:
  assumes "dlist_walks l xs ys"
  shows "list_broken l = Some (length xs \<noteq> length ys)"
proof -
  have "count_loop (d_next l) (d_hdr l) 1 0 (d_next l (d_hdr l)) = Some (0 + int (length xs) * 1)"
    using assms by (intro count_loop_chain) (auto simp: dlist_walks_def cnt_fits_def)
  moreover have "count_loop (d_prev l) (d_hdr l) (- 1) (int (length xs)) (d_prev l (d_hdr l)) =
      Some (int (length xs) + int (length ys) * (- 1))"
    using assms by (intro count_loop_chain) (auto simp: dlist_walks_def cnt_fits_def)
  ultimately show ?thesis by (simp add: list_broken_def)
qed

text \<open>
  The integrity check ends on any lists whose links lead back to the header, and reports an error exactly
  when one of the lists selected by the mask has different lengths forwards and backwards; in particular it
  never reports one for well-formed lists.
\<close>

theorem chSysIntegrityCheckI_exact:
  assumes "class_I k" "dlist_walks rl xs xs'" "dlist_walks vtl ys ys'" "dlist_walks reg zs zs'"
  shows "chSysIntegrityCheckI testmask rl vtl reg k = Some
    (and testmask CH_INTEGRITY_RLIST \<noteq> 0 \<and> length xs \<noteq> length xs' \<or> and testmask CH_INTEGRITY_VTLIST \<noteq> 0 \<and> length ys \<noteq> length ys' \<or>
     and testmask CH_INTEGRITY_REGISTRY \<noteq> 0 \<and> length zs \<noteq> length zs')"
  using assms(1) by (simp add: chSysIntegrityCheckI_def list_broken_walks [OF assms(2)] list_broken_walks [OF assms(3)]
      list_broken_walks [OF assms(4)])

theorem chSysIntegrityCheckI_exact_witness:
  "chSysIntegrityCheckI 7
     \<lparr>d_next = (\<lambda>n. if n = 0 then 1 else 0), d_prev = (\<lambda>n. if n = 0 then 1 else 0), d_hdr = 0 :: nat\<rparr>
     \<lparr>d_next = (\<lambda>n. if n = 0 then 1 else 0), d_prev = id, d_hdr = 0 :: nat\<rparr>
     \<lparr>d_next = id, d_prev = id, d_hdr = 0 :: nat\<rparr> (sys0\<lparr>lock_cnt := 1\<rparr>) = Some True"
proof -
  have c: "class_I (sys0\<lparr>lock_cnt := 1\<rparr>)" by (simp add: class_I_def sys0_def)
  have d: "dlist_walks \<lparr>d_next = (\<lambda>n. if n = 0 then 1 else 0), d_prev = (\<lambda>n. if n = 0 then 1 else 0), d_hdr = 0 :: nat\<rparr> [1] [1]"
    "dlist_walks \<lparr>d_next = (\<lambda>n. if n = 0 then 1 else 0), d_prev = id, d_hdr = 0 :: nat\<rparr> [1] []"
    "dlist_walks \<lparr>d_next = id, d_prev = id, d_hdr = 0 :: nat\<rparr> [] []"
    by (simp_all add: dlist_walks_def)
  show ?thesis using chSysIntegrityCheckI_exact [OF c d, of 7] by (simp add: CH_INTEGRITY_VTLIST_def)
qed

subsection \<open>Time measurement, trace and time conversion\<close>

definition measure_tm :: "rtcnt_t \<Rightarrow> time_measurement_t \<Rightarrow> time_measurement_t" where
  "measure_tm d tm = chTMStopMeasurementX 0 d (chTMStartMeasurementX 0 tm)"

lemma measure_tm_simps [simp]:
  "worst (measure_tm d tm) = max (worst tm) d" "tm_n (measure_tm d tm) = tm_n tm + 1"
  "cumulative (measure_tm d tm) = cumulative tm + ucast d" "tm_last (measure_tm d tm) = d"
  "best (measure_tm d tm) = (if worst tm < d then best tm else min (best tm) d)"
  by (auto simp: measure_tm_def chTMStopMeasurementX_def chTMStartMeasurementX_def tm_stop_def Let_def max_def min_def)

text \<open>The worst time, the number and the sum of a series of measurements are right.\<close>

lemma measure_tm_worst:
  "worst (fold measure_tm ds tm) = fold max ds (worst tm)" "tm_n (fold measure_tm ds tm) = tm_n tm + of_nat (length ds)"
  "cumulative (fold measure_tm ds tm) = cumulative tm + sum_list (map ucast ds)"
proof (induction ds arbitrary: tm)
  case (Cons d ds)
  case 1 show ?case using Cons(1) by (simp add: max.commute)
  case 2 show ?case using Cons(2) by simp
  case 3 show ?case using Cons(3) by (simp add: ac_simps)
qed simp_all

text \<open>
  The best time is not the smallest measured one: a measurement that sets a new worst time is not
  considered for the best time, so after a series of growing measurements the best time is still its
  initial value, the largest number.
\<close>

theorem tm_best_not_minimum:
  assumes "sorted_wrt (<) (0 # ds)"
  shows "best (fold measure_tm ds chTMObjectInit) = - 1"
proof -
  have "best (fold measure_tm ds tm) = best tm" if "sorted_wrt (<) (worst tm # ds)" for tm
    using that
  proof (induction ds arbitrary: tm)
    case (Cons d ds)
    then have "best (fold measure_tm ds (measure_tm d tm)) = best (measure_tm d tm)" by (intro Cons.IH) (simp add: max_def)
    then show ?case using Cons.prems by simp
  qed simp
  from this [of chTMObjectInit] show ?thesis using assms by (simp add: chTMObjectInit_def)
qed

theorem tm_best_not_minimum_witness: "best (fold measure_tm [5, 10] chTMObjectInit) = 4294967295"
  using tm_best_not_minimum [of "[5, 10]"] by simp

text \<open>The trace buffer keeps the last events: the newest is written at the pointer, which wraps.\<close>

lemma dbg_trace_ptr:
  assumes "tb_ptr tb < 64" "length (tb_buffer tb) = 64"
  shows "tb_ptr (dbg_trace otp k tb) = (tb_ptr tb + 1) mod 64" "length (tb_buffer (dbg_trace otp k tb)) = 64"
    "tb_buffer (dbg_trace otp k tb) ! tb_ptr tb =
       \<lparr>se_time = port_time k, se_tp = r_current k, se_wtobjp = p_u (thd k otp), se_state = state_of k otp\<rparr>"
    "\<And>i. i < 64 \<Longrightarrow> i \<noteq> tb_ptr tb \<Longrightarrow> tb_buffer (dbg_trace otp k tb) ! i = tb_buffer tb ! i"
proof -
  have "tb_ptr tb = 63 \<or> tb_ptr tb + 1 < 64" using assms(1) by linarith
  then show "tb_ptr (dbg_trace otp k tb) = (tb_ptr tb + 1) mod 64"
    by (auto simp: dbg_trace_def Let_def CH_DBG_TRACE_BUFFER_SIZE_def)
qed (use assms in \<open>simp_all add: dbg_trace_def Let_def CH_DBG_TRACE_BUFFER_SIZE_def chVTGetSystemTimeX_def\<close>)

text \<open>As long as the product fits in 32 bits, a time in milliseconds is converted to ticks rounding up.\<close>

lemma MS2ST_rounds_up:
  assumes "unat msec * unat freq + 999 < 2 ^ 32"
  shows "unat (MS2ST freq msec) = (unat msec * unat freq + 999) div 1000"
proof -
  have "unat (msec * freq) = unat msec * unat freq" using assms by (simp add: unat_word_ariths)
  then have "unat (msec * freq + 999) = unat msec * unat freq + 999" using assms by (simp add: unat_word_ariths)
  then show ?thesis by (simp add: MS2ST_def unat_div)
qed

end
