(* ===== verification/ChSystem.thy ===== *)
theory ChSystem
  imports ChCond ChSys
begin

text \<open>
  The kernel as a whole: any number of threads run, each at its own pace, and call the kernel. A state of the system is
  the state of the kernel together with what each thread has left to do when it is switched in again. The steps are
  a call of a kernel service by the running thread, and the running thread finishing a call that had been switched out.
  \<open>keeps\<close> says what a step may do to a thread that does not run, \<open>goes_on\<close> is the contract every service fulfils, and the
  locale \<open>kernel_call\<close> shows once and for all that a service with this contract keeps the system well-formed.
\<close>

subsection \<open>Steps\<close>

text \<open>What a thread has left to do when it is switched in: leave the critical zone, after what its call does there.\<close>

datatype rest = Rest_unlock | Rest_sem | Rest_lock nat | Rest_cond nat

definition unlock_void :: "ch_system \<Rightarrow> (unit outcome \<times> ch_system) option" where
  "unlock_void k = do { k \<leftarrow> chSysUnlock k; Some (Done (), k) }"

fun finish :: "rest \<Rightarrow> ch_system \<Rightarrow> (unit outcome \<times> ch_system) option" where
  "finish Rest_unlock k = unlock_void k"
| "finish Rest_sem k = do { (msg, k) \<leftarrow> chSemWaitS_resume k; unlock_void k }"
| "finish (Rest_lock m) k = do { chMtxLockS_resume m k; unlock_void k }"
| "finish (Rest_cond m) k = do { r \<leftarrow> chCondWaitS_resume m k; andthen r (\<lambda>_. unlock_void) }"

text \<open>Re-acquiring the mutex after a condition variable may put the thread to sleep once more.\<close>

fun then_rest :: "rest \<Rightarrow> rest" where
  "then_rest (Rest_cond m) = Rest_lock m"
| "then_rest r = r"

datatype sys_call =
    Sem_wait nat | Sem_signal nat | Mtx_lock nat | Mtx_unlock nat | Mtx_unlock_all
  | Cond_wait nat | Cond_signal nat | Cond_broadcast nat | Thd_yield | Thd_create tid tprio_t | Thd_exit msg_t

definition void :: "('a outcome \<times> ch_system) option \<Rightarrow> (unit outcome \<times> ch_system) option" where
  "void r = do { (out, k) \<leftarrow> r; Some (map_outcome (\<lambda>_. ()) out, k) }"

text \<open>The working area of a new thread always has the minimal size.\<close>

fun do_call :: "sys_call \<Rightarrow> ch_system \<Rightarrow> (unit outcome \<times> ch_system) option" where
  "do_call (Sem_wait s) k = void (chSemWait s k)"
| "do_call (Sem_signal s) k = chSemSignal s k"
| "do_call (Mtx_lock m) k = chMtxLock m k"
| "do_call (Mtx_unlock m) k = chMtxUnlock m k"
| "do_call Mtx_unlock_all k = chMtxUnlockAll k"
| "do_call (Cond_wait c) k = void (chCondWait c k)"
| "do_call (Cond_signal c) k = chCondSignal c k"
| "do_call (Cond_broadcast c) k = chCondBroadcast c k"
| "do_call Thd_yield k = chThdYield k"
| "do_call (Thd_create t p) k = void (chThdCreateStatic 0 t 0 p k)"
| "do_call (Thd_exit msg) k = do { k \<leftarrow> chThdExit msg k; Some (Switched, k) }"

fun rest_of :: "sys_call \<Rightarrow> ch_system \<Rightarrow> rest" where
  "rest_of (Sem_wait s) k = Rest_sem"
| "rest_of (Mtx_lock m) k = Rest_lock m"
| "rest_of (Cond_wait c) k = Rest_cond (hd (mtxlist_of k (r_current k)))"
| "rest_of c k = Rest_unlock"

text \<open>
  What the kernel asks of its callers: the idle thread never blocks nor exits, a semaphore counter does not overflow,
  mutexes are unlocked in the reverse order, a thread that waits on a condition variable owns a mutex, a new thread is
  made in memory not in use, with a legal priority.
\<close>

fun may_call :: "tid \<Rightarrow> sys_call \<Rightarrow> ch_system \<Rightarrow> bool" where
  "may_call idle (Sem_wait s) k \<longleftrightarrow> r_current k \<noteq> idle \<and> cnt_fits (s_cnt k s - 1)"
| "may_call idle (Sem_signal s) k \<longleftrightarrow> cnt_fits (s_cnt k s + 1)"
| "may_call idle (Mtx_lock m) k \<longleftrightarrow> r_current k \<noteq> idle"
| "may_call idle (Mtx_unlock m) k \<longleftrightarrow> mtxlist_of k (r_current k) \<noteq> [] \<and> hd (mtxlist_of k (r_current k)) = m"
| "may_call idle Mtx_unlock_all k \<longleftrightarrow> True"
| "may_call idle (Cond_wait c) k \<longleftrightarrow> r_current k \<noteq> idle \<and> mtxlist_of k (r_current k) \<noteq> []"
| "may_call idle (Cond_signal c) k \<longleftrightarrow> True"
| "may_call idle (Cond_broadcast c) k \<longleftrightarrow> True"
| "may_call idle Thd_yield k \<longleftrightarrow> True"
| "may_call idle (Thd_create t p) k \<longleftrightarrow> fresh t k \<and> NOPRIO < p \<and> p \<le> HIGHPRIO"
| "may_call idle (Thd_exit msg) k \<longleftrightarrow> r_current k \<noteq> idle"

type_synonym system = "ch_system \<times> (tid \<Rightarrow> rest)"

text \<open>The rest of the calling thread is recorded when it is switched out.\<close>

definition next_system :: "rest \<Rightarrow> system \<Rightarrow> unit outcome \<times> ch_system \<Rightarrow> system" where
  "next_system a s r = (snd r, if fst r = Switched then (snd s)(r_current (fst s) := a) else snd s)"

inductive reachable :: "tid \<Rightarrow> system \<Rightarrow> bool" for idle where
  boot: "boot_ok k0 \<Longrightarrow> idle \<noteq> main \<Longrightarrow> chSysInit 0 main idle 0 k0 = Some (Done (), k) \<Longrightarrow>
    reachable idle (k, \<lambda>_. Rest_unlock)"
| call: "reachable idle s \<Longrightarrow> class_thread (fst s) \<Longrightarrow> may_call idle c (fst s) \<Longrightarrow> do_call c (fst s) = Some r \<Longrightarrow>
    reachable idle (next_system (rest_of c (fst s)) s r)"
| resume: "reachable idle s \<Longrightarrow> class_S (fst s) \<Longrightarrow> finish (snd s (r_current (fst s))) (fst s) = Some r \<Longrightarrow>
    reachable idle (next_system (then_rest (snd s (r_current (fst s)))) s r)"

subsection \<open>Threads that do not run\<close>

text \<open>
  A thread that does not run \<open>stays\<close> as it is, up to being switched in or out, or it \<open>gets_ready\<close>, with a message if it
  waited for one, or it \<open>gets_mutex\<close>, the one it waited for.
\<close>

definition stays :: "ch_system \<Rightarrow> ch_system \<Rightarrow> tid \<Rightarrow> bool" where
  "stays k k' t \<longleftrightarrow>
     mtxlist_of k' t = mtxlist_of k t \<and> p_u (thd k' t) = p_u (thd k t) \<and>
     (state_of k' t = state_of k t \<or> runnable k t \<and> runnable k' t)"

definition gets_ready :: "ch_system \<Rightarrow> ch_system \<Rightarrow> tid \<Rightarrow> bool" where
  "gets_ready k k' t \<longleftrightarrow>
     mtxlist_of k' t = mtxlist_of k t \<and> \<not> runnable k t \<and> state_of k t \<noteq> CH_STATE_WTMTX \<and> runnable k' t \<and>
     (state_of k t = CH_STATE_WTSEM \<or> state_of k t = CH_STATE_WTCOND \<longrightarrow> rdymsg_of t k' \<noteq> None)"

definition gets_mutex :: "ch_system \<Rightarrow> ch_system \<Rightarrow> tid \<Rightarrow> bool" where
  "gets_mutex k k' t \<longleftrightarrow>
     state_of k t = CH_STATE_WTMTX \<and> runnable k' t \<and>
     (\<exists>m. p_u (thd k t) = Wtobjp (Q_MTX m) \<and> mtxlist_of k' t = m # mtxlist_of k t)"

definition keeps :: "ch_system \<Rightarrow> ch_system \<Rightarrow> tid \<Rightarrow> bool" where
  "keeps k k' t \<longleftrightarrow> stays k k' t \<or> gets_ready k k' t \<or> gets_mutex k k' t"

lemmas keeps_defs = keeps_def stays_def gets_ready_def gets_mutex_def

text \<open>What the rest of a thread relies on.\<close>

fun rest_ok :: "ch_system \<Rightarrow> tid \<Rightarrow> rest \<Rightarrow> bool" where
  "rest_ok k t Rest_unlock \<longleftrightarrow> True"
| "rest_ok k t Rest_sem \<longleftrightarrow> state_of k t = CH_STATE_WTSEM \<or> runnable k t \<and> rdymsg_of t k \<noteq> None"
| "rest_ok k t (Rest_lock m) \<longleftrightarrow>
     state_of k t = CH_STATE_WTMTX \<and> p_u (thd k t) = Wtobjp (Q_MTX m) \<or>
     runnable k t \<and> mtxlist_of k t \<noteq> [] \<and> hd (mtxlist_of k t) = m"
| "rest_ok k t (Rest_cond m) \<longleftrightarrow> state_of k t = CH_STATE_WTCOND \<or> runnable k t \<and> rdymsg_of t k \<noteq> None"

lemma runnable_states [simp]:
  "runnable k t \<Longrightarrow> state_of k t \<noteq> CH_STATE_WTSEM" "runnable k t \<Longrightarrow> state_of k t \<noteq> CH_STATE_WTMTX"
  "runnable k t \<Longrightarrow> state_of k t \<noteq> CH_STATE_WTCOND"
  by (auto simp: runnable_def)

lemma rest_ok_keeps: "keeps k k' t \<Longrightarrow> rest_ok k t a \<Longrightarrow> rest_ok k' t a"
  by (cases a) (auto simp: keeps_defs rdymsg_of_def runnable_def)

lemma keeps_refl [simp]: "keeps k k t"
  by (simp add: keeps_defs)

lemma keeps_runnable: "keeps k k' t \<Longrightarrow> runnable k t \<Longrightarrow> runnable k' t"
  by (auto simp: keeps_defs runnable_def)

lemma keeps_mtx: "keeps k k' t \<Longrightarrow> state_of k' t = CH_STATE_WTMTX \<Longrightarrow> state_of k t = CH_STATE_WTMTX"
  by (auto simp: keeps_defs)

text \<open>Switching between threads that can run changes nothing else.\<close>

lemma keeps_swap:
  assumes "keeps k k1 t" "mtxlist_of k2 t = mtxlist_of k1 t" "p_u (thd k2 t) = p_u (thd k1 t)"
    "state_of k2 t = state_of k1 t \<or> runnable k1 t \<and> runnable k2 t"
  shows "keeps k k2 t"
  using assms by (auto simp: keeps_defs rdymsg_of_def runnable_def)

lemma keeps_trans:
  assumes "keeps k k1 t" "keeps k1 k2 t"
  shows "keeps k k2 t"
proof -
  have ready: "stays k1 k2 t" if "runnable k1 t" using assms(2) that by (auto simp: keeps_def gets_ready_def gets_mutex_def)
  consider (stays) "stays k k1 t" | (ready) "gets_ready k k1 t" | (mutex) "gets_mutex k k1 t"
    using assms(1) by (auto simp: keeps_def)
  then show ?thesis
  proof cases
    case stays
    then show ?thesis using assms(2) by (auto simp: keeps_defs runnable_def)
  next
    case ready
    then have "runnable k1 t" by (simp add: gets_ready_def)
    then have "gets_ready k k2 t" using ready \<open>runnable k1 t \<Longrightarrow> stays k1 k2 t\<close>
      by (auto simp: gets_ready_def stays_def rdymsg_of_def runnable_def)
    then show ?thesis by (simp add: keeps_def)
  next
    case mutex
    then have "runnable k1 t" by (simp add: gets_mutex_def)
    then have "gets_mutex k k2 t" using mutex \<open>runnable k1 t \<Longrightarrow> stays k1 k2 t\<close>
      by (auto simp: gets_mutex_def stays_def runnable_def)
    then show ?thesis by (simp add: keeps_def)
  qed
qed

lemma keeps_set_prio [simp]: "keeps k (set_prio c p K) t = keeps k K t"
  by (simp add: keeps_defs runnable_def rdymsg_of_def)

lemma finite_keeps:
  assumes "finite {x. state_of k x = CH_STATE_WTMTX}" "\<And>t. t \<noteq> c \<Longrightarrow> keeps k k' t"
  shows "finite {x. state_of k' x = CH_STATE_WTMTX}"
  by (rule finite_subset [of _ "insert c {x. state_of k x = CH_STATE_WTMTX}"]) (use assms keeps_mtx in auto)

subsection \<open>The contract of a kernel service\<close>

definition goes_on :: "tid \<Rightarrow> rest \<Rightarrow> ch_system \<Rightarrow> unit outcome \<times> ch_system \<Rightarrow> bool" where
  "goes_on idle a k r \<longleftrightarrow>
     (let k' = snd r
      in kernel_ok k' \<and> mtx_ok k' \<and> resched_ok k' \<and> runnable k' idle \<and> (\<forall>t. t \<noteq> r_current k \<longrightarrow> keeps k k' t) \<and>
         (if fst r = Switched then class_S k' \<and> rest_ok k' (r_current k) a \<and> (r_current k = idle \<longrightarrow> a = Rest_unlock)
          else class_thread k' \<and> r_current k' = r_current k))"

definition sys_ok :: "tid \<Rightarrow> system \<Rightarrow> bool" where
  "sys_ok idle s \<longleftrightarrow>
     (let k = fst s
      in kernel_ok k \<and> mtx_ok k \<and> resched_ok k \<and> runnable k idle \<and> snd s idle = Rest_unlock \<and>
         finite {x. state_of k x = CH_STATE_WTMTX} \<and> (class_thread k \<or> class_S k) \<and>
         (\<forall>t. class_S k \<or> t \<noteq> r_current k \<longrightarrow> rest_ok k t (snd s t)))"

lemma sys_ok_next:
  assumes ok: "sys_ok idle s" and g: "goes_on idle a (fst s) r"
  shows "sys_ok idle (next_system a s r)"
proof -
  let ?k = "fst s" and ?k' = "snd r" and ?c = "r_current (fst s)"
  have K: "\<And>t. t \<noteq> ?c \<Longrightarrow> keeps ?k ?k' t" using g by (simp add: goes_on_def Let_def)
  have R: "rest_ok ?k t (snd s t)" if "t \<noteq> ?c" for t using ok that by (simp add: sys_ok_def Let_def)
  have "finite {x. state_of ?k' x = CH_STATE_WTMTX}"
    using ok finite_keeps [of ?k ?c ?k'] K by (simp add: sys_ok_def Let_def)
  moreover have "rest_ok ?k' t (snd (next_system a s r) t)" if "class_S ?k' \<or> t \<noteq> r_current ?k'" for t
  proof (cases "t = ?c")
    case True
    have "\<not> class_S ?k'" if "class_thread ?k'" using that by (simp add: class_S_def class_thread_def)
    then show ?thesis using g that True by (auto simp: goes_on_def Let_def next_system_def split: if_splits)
  qed (use rest_ok_keeps [OF K R] in \<open>simp add: next_system_def\<close>)
  moreover have "snd s idle = Rest_unlock" using ok by (simp add: sys_ok_def Let_def)
  ultimately show ?thesis using g by (auto simp: sys_ok_def goes_on_def Let_def next_system_def split: if_splits)
qed

locale kernel_call =
  fixes idle :: tid and call :: "ch_system \<Rightarrow> (unit outcome \<times> ch_system) option"
    and pre :: "ch_system \<Rightarrow> bool" and a :: "ch_system \<Rightarrow> rest"
  assumes contract: "kernel_ok k \<Longrightarrow> mtx_ok k \<Longrightarrow> resched_ok k \<Longrightarrow> runnable k idle \<Longrightarrow>
    finite {x. state_of k x = CH_STATE_WTMTX} \<Longrightarrow> class_thread k \<Longrightarrow> pre k \<Longrightarrow>
    \<exists>r. call k = Some r \<and> goes_on idle (a k) k r"
begin

lemma good_step:
  assumes "sys_ok idle s" "class_thread (fst s)" "pre (fst s)"
  shows "\<exists>r. call (fst s) = Some r \<and> sys_ok idle (next_system (a (fst s)) s r)"
proof -
  obtain r where "call (fst s) = Some r" "goes_on idle (a (fst s)) (fst s) r"
    using assms contract [of "fst s"] by (auto simp: sys_ok_def Let_def)
  then show ?thesis using sys_ok_next [OF assms(1)] by blast
qed

end

subsection \<open>How a service ends\<close>

text \<open>It reschedules and leaves the critical zone.\<close>

lemma goes_on_rescheduled:
  assumes K: "kernel_ok K" "mtx_ok K" "class_S K" "r_current K = r_current k"
    and t: "\<And>t. t \<noteq> r_current k \<Longrightarrow> keeps k K t" and i: "runnable k idle"
  shows "goes_on idle Rest_unlock k (unlocked (rescheduled K))"
proof -
  let ?k' = "snd (unlocked (rescheduled K))"
  have c: "runnable K (r_current k)" using sched_okD(3) [OF kernel_okD(1) [OF K(1)]] K(4) by (simp add: runnable_def)
  have "runnable K idle" using c i keeps_runnable [OF t] by (cases "idle = r_current k") auto
  then have "runnable ?k' idle" by simp
  moreover have "keeps k ?k' t" if "t \<noteq> r_current k" for t
  proof (rule keeps_swap [OF t [OF that]])
    have "runnable K (hd (queues K Q_RLIST))" if "\<not> resched_ok K"
      using not_resched_ready [OF that] sched_okD(4) [OF kernel_okD(1) [OF K(1)], of _ Q_RLIST] by (auto simp: runnable_def)
    then show "state_of ?k' t = state_of K t \<or> runnable K t \<and> runnable ?k' t"
      using c K(4) by (auto simp: rescheduled_def runnable_def)
  qed simp_all
  moreover have "kernel_ok ?k'" "resched_ok ?k'" "mtx_ok ?k'"
    using kernel_ok_rescheduled [OF K(1)] rescheduled_resched_ok [OF kernel_okD(1) [OF K(1)]] K(2) by (auto simp: rescheduled_def)
  moreover have "if fst (unlocked (rescheduled K)) = Switched then class_S ?k' else class_thread ?k' \<and> r_current ?k' = r_current k"
    using K(3,4) by (auto simp: rescheduled_def class_S_def class_thread_def)
  ultimately show ?thesis by (simp add: goes_on_def Let_def)
qed

text \<open>It leaves the critical zone without one, when the state is as it was for the scheduler.\<close>

lemma goes_on_unlocked:
  assumes "kernel_ok K" "mtx_ok K" "class_S K" "r_current K = r_current k" "resched_ok K"
    "\<And>t. t \<noteq> r_current k \<Longrightarrow> keeps k K t" "runnable k idle"
  shows "chSysUnlock K = Some (K\<lparr>lock_cnt := 0\<rparr>)" "goes_on idle Rest_unlock k (Done (), K\<lparr>lock_cnt := 0\<rparr>)"
  using chSysUnlock_resched [OF assms(3,5)] goes_on_rescheduled [OF assms(1-4,6,7)] assms(5) by (auto simp: rescheduled_def)

lemma goes_on_done: "goes_on idle a k (Done (), k') \<Longrightarrow> goes_on idle b k (Done (), k')"
  by (simp add: goes_on_def)

text \<open>Its thread falls asleep.\<close>

lemma goes_on_sleeping:
  assumes f: "falls_asleep kp kq" and c: "r_current kp = r_current k" and t: "\<And>t. t \<noteq> r_current k \<Longrightarrow> keeps k kp t"
    and K: "kernel_ok (sleeping st kq)" "mtx_ok kq" "resched_ok (sleeping st kq)"
    and i: "runnable k idle" "idle \<noteq> r_current k" and r: "rest_ok (sleeping st kq) (r_current k) a"
  shows "goes_on idle a k (Switched, sleeping st kq)"
proof -
  have "keeps k (sleeping st kq) t" if "t \<noteq> r_current k" for t
    using f c that by (intro keeps_swap [OF t [OF that]]) (auto simp: falls_asleep_def runnable_def)
  moreover have "class_S (sleeping st kq)" using f by (simp add: falls_asleep_def class_S_def)
  moreover have "mtx_ok (sleeping st kq)" using K(2) by simp
  ultimately show ?thesis using K(1,3) i keeps_runnable [of k "sleeping st kq" idle] r by (simp add: goes_on_def Let_def)
qed

lemma idle_ready:
  assumes "kernel_ok k" "runnable k idle" "r_current k \<noteq> idle"
  shows "queues k Q_RLIST \<noteq> []"
proof -
  have "state_of k idle = CH_STATE_READY" using assms sched_okD(3) [OF kernel_okD(1) [OF assms(1)], of idle] by (auto simp: runnable_def)
  then show ?thesis using sched_okD(5) [OF kernel_okD(1) [OF assms(1)], of idle] by auto
qed

text \<open>The effect of each kind of change on the other threads.\<close>

lemma keeps_woken:
  assumes "state_of k x \<noteq> CH_STATE_WTMTX" "\<not> runnable k x"
  shows "keeps k (woken x u k) t"
  using assms by (auto simp: keeps_defs runnable_def rdymsg_of_def)

lemma keeps_woken_all:
  assumes "\<And>x. x \<in> set ts \<Longrightarrow> state_of k x \<noteq> CH_STATE_WTMTX \<and> \<not> runnable k x"
  shows "keeps k (woken_all u ts k) t"
  using assms [of t] by (auto simp: keeps_defs runnable_def rdymsg_of_def)

lemma keeps_released:
  assumes ok: "kernel_ok k" and c: "c = r_current k" and own: "mtxlist_of k c = mp # ms" and t: "t \<noteq> c"
  shows "keeps k (set_prio c np (released c mp k)) t"
proof (cases "queues k (Q_MTX mp)")
  case Nil
  then show ?thesis using t by (simp add: keeps_defs released_def Let_def)
next
  case (Cons w ws)
  note h = mtx_head [OF ok Cons]
  have "p_u (thd k w) = Wtobjp (Q_MTX mp)"
  proof -
    obtain q where q: "p_u (thd k w) = Wtobjp q" "w \<in> set (queues k q)"
      using obj_waiter [OF kernel_okD(2) [OF ok], of w] h(1) by auto
    then show ?thesis using apart_same [OF sched_okD(1) [OF kernel_okD(1) [OF ok]], of w q "Q_MTX mp"] Cons by simp
  qed
  then show ?thesis using t h(1,2) Cons c by (auto simp: keeps_defs released_def Let_def runnable_def)
qed

lemma keeps_lock [simp]: "keeps (k\<lparr>lock_cnt := n\<rparr>) k' t = keeps k k' t" "keeps k (k'\<lparr>lock_cnt := n\<rparr>) t = keeps k k' t"
  by (simp_all add: keeps_defs runnable_def rdymsg_of_def)

lemma goes_on_lock [simp]: "goes_on idle a (k\<lparr>lock_cnt := n\<rparr>) r = goes_on idle a k r"
  by (simp add: goes_on_def)

lemma ready_head:
  assumes "kernel_ok k" "queues k Q_RLIST \<noteq> []"
  shows "hd (queues k Q_RLIST) \<noteq> r_current k" "state_of k (hd (queues k Q_RLIST)) = CH_STATE_READY"
proof -
  have h: "hd (queues k Q_RLIST) \<in> set (queues k Q_RLIST)" using assms(2) by simp
  show "hd (queues k Q_RLIST) \<noteq> r_current k" using sched_okD(2) [OF kernel_okD(1) [OF assms(1)]] h unfolding unqueued_def by metis
  show "state_of k (hd (queues k Q_RLIST)) = CH_STATE_READY" using sched_okD(4) [OF kernel_okD(1) [OF assms(1)] h] by simp
qed

text \<open>It wakes one thread and hands the processor over if that has a higher priority.\<close>

lemma goes_on_wakeupS:
  assumes K: "kernel_ok (snd (wakeupS w u K))" "mtx_ok (snd (wakeupS w u K))" "resched_ok (snd (wakeupS w u K))" "class_S K"
    and c: "r_current K = r_current k" and r: "runnable K (r_current k)"
    and w: "w \<noteq> r_current k" "state_of k w \<noteq> CH_STATE_WTMTX" "\<not> runnable k w" "mtxlist_of K w = mtxlist_of k w"
    and t: "\<And>t. t \<noteq> r_current k \<Longrightarrow> t \<noteq> w \<Longrightarrow> keeps k K t"
    and i: "runnable k idle"
  shows "goes_on idle Rest_unlock k (unlocked (wakeupS w u K))"
proof -
  let ?k' = "snd (unlocked (wakeupS w u K))"
  have st: "x \<noteq> w \<Longrightarrow> x \<noteq> r_current k \<Longrightarrow> state_of ?k' x = state_of K x" "runnable ?k' w" "runnable ?k' (r_current k)" "mtxlist_of ?k' x = mtxlist_of K x"
      "p_u (thd ?k' x) = (if x = w then Rdymsg u else p_u (thd K x))" for x
    using c r by (auto simp: wakeupS_def runnable_def)
  have "keeps k ?k' x" if "x \<noteq> r_current k" for x
  proof (cases "x = w")
    case True
    have "rdymsg_of x ?k' = Some u" using st(5) True by (simp add: rdymsg_of_def)
    then show ?thesis using st(2) st(4) [of x] True w by (simp add: keeps_def gets_ready_def)
  qed (use st that t [OF that] in \<open>auto intro!: keeps_swap [of k K]\<close>)
  moreover from this have "runnable ?k' idle" using st(3) keeps_runnable i by (cases "idle = r_current k") auto
  moreover have "kernel_ok ?k'" "mtx_ok ?k'" "resched_ok ?k'" using K by (auto simp: wakeupS_def)
  moreover have "if fst (unlocked (wakeupS w u K)) = Switched then class_S ?k' else class_thread ?k' \<and> r_current ?k' = r_current k"
    using K(4) c by (auto simp: wakeupS_def class_S_def class_thread_def)
  ultimately show ?thesis by (simp add: goes_on_def Let_def)
qed

subsection \<open>The services fulfil the contract\<close>

lemma void_simps [simp]:
  "void (Some (Done v, k)) = Some (Done (), k)" "void (Some (Switched, k)) = Some (Switched, k)"
  by (simp_all add: void_def)

text \<open>A locked copy of the state, as every service makes it first.\<close>

lemma locked:
  assumes "kernel_ok k" "mtx_ok k" "resched_ok k" "runnable k idle" "class_thread k"
  defines "k0 \<equiv> k\<lparr>lock_cnt := 1\<rparr>"
  shows "chSysLock k = Some k0" "kernel_ok k0" "mtx_ok k0" "resched_ok k0" "runnable k0 idle" "class_S k0" "class_I k0"
    "r_current k0 = r_current k" "queues k0 = queues k" "state_of k0 (r_current k) = CH_STATE_CURRENT"
  using assms chSysLock_ok [OF assms(5)] sched_okD(3) [OF kernel_okD(1) [OF assms(1)]]
  by (auto simp: k0_def class_S_def class_I_def class_thread_def runnable_def)

interpretation sem_wait: kernel_call idle "do_call (Sem_wait s)" "may_call idle (Sem_wait s)" "rest_of (Sem_wait s)" for idle s
proof
  fix k assume ok: "kernel_ok k" "mtx_ok k" "resched_ok k" "runnable k idle" and cl: "class_thread k"
    and pre: "may_call idle (Sem_wait s) k"
  define k0 where "k0 = k\<lparr>lock_cnt := 1\<rparr>"
  note L = locked [OF ok cl, folded k0_def]
  have ne: "queues k0 Q_RLIST \<noteq> []" using idle_ready [OF ok(1,4)] pre L(9) by simp
  have fit: "cnt_fits (s_cnt k0 s - 1)" using pre by (simp add: k0_def)
  have cs: "can_sleep TIME_INFINITE k0" using L(6) ne by (simp add: can_sleep_def)
  note eq = chSemWaitS_eq [OF L(2) cs fit]
  show "\<exists>r. do_call (Sem_wait s) k = Some r \<and> goes_on idle (rest_of (Sem_wait s) k) k r"
  proof (cases "0 < s_cnt k0 s")
    case True
    let ?K = "set_cnt s (s_cnt k0 s - 1) k0"
    have "goes_on idle Rest_unlock k0 (Done (), ?K\<lparr>lock_cnt := 0\<rparr>) \<and> chSysUnlock ?K = Some (?K\<lparr>lock_cnt := 0\<rparr>)"
      using kernel_ok_sem_take [OF L(2) True] L
      by (intro conjI goes_on_unlocked) (auto simp: keeps_defs resched_ok_iff set_cnt_def)
    then show ?thesis using eq True L(1) goes_on_done [of idle Rest_unlock]
      by (auto simp: chSemWait_def k0_def)
  next
    case False
    let ?k2 = "sem_enqueued s k0"
    have "falls_asleep k0 ?k2"
      using ne L ready_head [OF L(2) ne] by (auto simp: falls_asleep_def sem_enqueued_def)
    moreover have "kernel_ok (sleeping CH_STATE_WTSEM ?k2)" "resched_ok (sleeping CH_STATE_WTSEM ?k2)"
      using kernel_ok_sem_wait [OF L(2) ne, of s ?k2] False by auto
    moreover have "mtx_ok ?k2 = mtx_ok k0" by (rule mtx_ok_cong) (simp_all add: sem_enqueued_def set_cnt_def)
    ultimately have "goes_on idle Rest_sem k0 (Switched, sleeping CH_STATE_WTSEM ?k2)"
      using L pre by (intro goes_on_sleeping [where kp = k0]) (auto simp: falls_asleep_def)
    then show ?thesis using eq False L(1) by (simp add: chSemWait_def k0_def)
  qed
qed

interpretation sem_signal: kernel_call idle "do_call (Sem_signal s)" "may_call idle (Sem_signal s)" "rest_of (Sem_signal s)" for idle s
proof
  fix k assume ok: "kernel_ok k" "mtx_ok k" "resched_ok k" "runnable k idle" and cl: "class_thread k"
    and pre: "may_call idle (Sem_signal s) k"
  define k0 where "k0 = k\<lparr>lock_cnt := 1\<rparr>"
  note L = locked [OF ok cl, folded k0_def]
  have eq: "chSemSignal s k = Some (unlocked (sem_signalled_S s k0))" "resched_ok (snd (sem_signalled_S s k0))"
    using chSemSignal_eq [OF ok(1) cl ok(3), of s] pre by (simp_all add: k0_def)
  let ?K = "set_cnt s (s_cnt k0 s + 1) k0"
  show "\<exists>r. do_call (Sem_signal s) k = Some r \<and> goes_on idle (rest_of (Sem_signal s) k) k r"
  proof (cases "queues k0 (Q_SEM s)")
    case Nil
    then have "goes_on idle Rest_unlock k0 (Done (), ?K\<lparr>lock_cnt := 0\<rparr>)"
      using sem_signalled_S_ok [OF L(2), of s] eq(2) L
      by (intro goes_on_unlocked) (auto simp: keeps_defs sem_signalled_S_def set_cnt_def)
    then show ?thesis using eq(1) Nil by (auto simp: sem_signalled_S_def k0_def)
  next
    case (Cons t ts)
    note h = sem_head [OF L(2) Cons]
    have "kernel_ok (snd (wakeupS t MSG_OK ?K))" "resched_ok (snd (wakeupS t MSG_OK ?K))"
      using sem_signalled_S_ok [OF L(2), of s] eq(2) Cons by (simp_all add: sem_signalled_S_def)
    moreover have "mtx_ok (snd (wakeupS t MSG_OK ?K))"
    proof -
      have "mtx_ok (snd (wakeupS t MSG_OK ?K)) = mtx_ok (snd (wakeupS t MSG_OK k0))"
        by (rule mtx_ok_cong) (auto simp: wakeupS_def set_cnt_def)
      then show ?thesis using mtx_ok_wakeupS [OF L(2), of t] L(3) h(1) by simp
    qed
    ultimately have "goes_on idle Rest_unlock k0 (unlocked (wakeupS t MSG_OK ?K))"
      using h L(5,6,8,10) by (intro goes_on_wakeupS) (simp_all add: keeps_defs runnable_def)
    then show ?thesis using eq(1) Cons by (auto simp: sem_signalled_S_def k0_def)
  qed
qed

text \<open>Locking, from inside a critical zone: at the beginning of \<open>chMtxLock\<close> and after a condition variable.\<close>

lemma lock_goes_on:
  assumes ok: "kernel_ok k" "mtx_ok k" "resched_ok k" "runnable k idle" "class_S k"
    and fin: "finite {x. state_of k x = CH_STATE_WTMTX}" and i: "r_current k \<noteq> idle"
  shows "\<exists>r. do { r \<leftarrow> chMtxLockS m k; andthen r (\<lambda>_. unlock_void) } = Some r \<and> goes_on idle (Rest_lock m) k r"
proof (cases "m_owner k m")
  case None
  let ?K = "mtx_take m (r_current k) k"
  have "chMtxLockS m k = Some (Done (), ?K)" using None ok(5) by (simp add: chMtxLockS_def Let_def)
  moreover have "goes_on idle Rest_unlock k (Done (), ?K\<lparr>lock_cnt := 0\<rparr>) \<and> chSysUnlock ?K = Some (?K\<lparr>lock_cnt := 0\<rparr>)"
    using mtx_ok_take_free [OF ok(2) None] ok by (intro conjI goes_on_unlocked) (auto simp: keeps_defs resched_ok_iff)
  ultimately show ?thesis using goes_on_done [of idle Rest_unlock] by (auto simp: unlock_void_def)
next
  case (Some t)
  note ne = idle_ready [OF ok(1,4) i]
  obtain k2 where k2: "chMtxLockS m k = Some (Switched, sleeping CH_STATE_WTMTX k2)" "falls_asleep k k2"
      "kernel_ok (sleeping CH_STATE_WTMTX k2)" "mtx_ok k2" "resched_ok (sleeping CH_STATE_WTMTX k2)"
      "p_u (thd k2 (r_current k)) = Wtobjp (Q_MTX m)"
    using chMtxLockS_sleeps [OF ok(1,2,5) ne fin Some] by blast
  have "goes_on idle (Rest_lock m) k (Switched, sleeping CH_STATE_WTMTX k2)"
    using k2 ok i by (intro goes_on_sleeping [where kp = k]) (auto simp: falls_asleep_def)
  then show ?thesis using k2(1) by simp
qed

interpretation mtx_lock: kernel_call idle "do_call (Mtx_lock m)" "may_call idle (Mtx_lock m)" "rest_of (Mtx_lock m)" for idle m
proof
  fix k assume ok: "kernel_ok k" "mtx_ok k" "resched_ok k" "runnable k idle" and fin: "finite {x. state_of k x = CH_STATE_WTMTX}"
    and cl: "class_thread k" and pre: "may_call idle (Mtx_lock m) k"
  define k0 where "k0 = k\<lparr>lock_cnt := 1\<rparr>"
  note L = locked [OF ok cl, folded k0_def]
  show "\<exists>r. do_call (Mtx_lock m) k = Some r \<and> goes_on idle (rest_of (Mtx_lock m) k) k r"
    using lock_goes_on [OF L(2-6), of m] fin pre L(1) by (simp add: chMtxLock_def k0_def unlock_void_def [abs_def])
qed

interpretation mtx_unlock: kernel_call idle "do_call (Mtx_unlock m)" "may_call idle (Mtx_unlock m)" "rest_of (Mtx_unlock m)" for idle m
proof
  fix k assume ok: "kernel_ok k" "mtx_ok k" "resched_ok k" "runnable k idle" and cl: "class_thread k"
    and pre: "may_call idle (Mtx_unlock m) k"
  define k0 where "k0 = k\<lparr>lock_cnt := 1\<rparr>"
  note L = locked [OF ok cl, folded k0_def]
  obtain ms where own: "mtxlist_of k (r_current k) = m # ms" using pre by (cases "mtxlist_of k (r_current k)") auto
  then have own0: "mtxlist_of k0 (r_current k) = m # ms" by (simp add: k0_def)
  obtain K np where K: "chMtxUnlock m k = Some (unlocked (rescheduled K))" "kernel_ok K" "mtx_ok K"
      "K = set_prio (r_current k) np (released (r_current k) m k0)"
    using chMtxUnlock_eq [OF ok(1,2) cl ok(3) own] by (auto simp: k0_def)
  have "goes_on idle Rest_unlock k0 (unlocked (rescheduled K))"
    using K(2,3) keeps_released [OF L(2) L(8) [symmetric] own0] released_frame(2,3) [OF L(2) L(8) [symmetric] own0] L
    by (intro goes_on_rescheduled) (simp_all add: K(4))
  then show "\<exists>r. do_call (Mtx_unlock m) k = Some r \<and> goes_on idle (rest_of (Mtx_unlock m) k) k r"
    using K(1) by (simp add: k0_def)
qed

interpretation mtx_unlock_all: kernel_call idle "do_call Mtx_unlock_all" "may_call idle Mtx_unlock_all" "rest_of Mtx_unlock_all" for idle
proof
  fix k assume ok: "kernel_ok k" "mtx_ok k" "resched_ok k" "runnable k idle" and cl: "class_thread k"
  define k0 c where "k0 = k\<lparr>lock_cnt := 1\<rparr>" and "c = r_current k"
  note L = locked [OF ok cl, folded k0_def, folded c_def]
  show "\<exists>r. do_call Mtx_unlock_all k = Some r \<and> goes_on idle (rest_of Mtx_unlock_all k) k r"
  proof (cases "mtxlist_of k0 c = []")
    case True
    have "goes_on idle Rest_unlock k0 (Done (), k0\<lparr>lock_cnt := 0\<rparr>) \<and> chSysUnlock k0 = Some (k0\<lparr>lock_cnt := 0\<rparr>)"
      using L by (intro conjI goes_on_unlocked) auto
    then show ?thesis using True L(1) by (simp add: chMtxUnlockAll_def Let_def k0_def c_def)
  next
    case False
    define P where "P = (\<lambda>K. r_current K = c \<and> (\<forall>t. t \<noteq> c \<longrightarrow> keeps k0 K t))"
    have "P (released (r_current K) mp K)" if "kernel_ok K" "mtxlist_of K (r_current K) = mp # ms" "P K" for K mp ms
    proof -
      have "keeps K (released c mp K) t" if "t \<noteq> c" for t
        using keeps_released [of K c mp ms t "prio_of (released c mp K) c"] that \<open>kernel_ok K\<close> \<open>mtxlist_of K (r_current K) = mp # ms\<close> \<open>P K\<close>
        by (simp add: P_def set_prio_same)
      then show ?thesis using that released_frame(2) [OF that(1) refl that(2)] keeps_trans [of k0 K] unfolding P_def by auto
    qed
    then obtain K where K: "mtx_unlock_loop c k0 = Some K" "kernel_ok K" "mtx_ok_but c K" "class_S K" "r_current K = c"
        "mtxlist_of K c = []" "P K"
      using mtx_unlock_loop_ok [of k0 P] L mtx_ok_but [OF L(3)] by (auto simp: P_def)
    define K' where "K' = set_prio c (p_realprio (thd K c)) K"
    note s = mtx_ok_unlocked_all [OF K(2,3) K(5) [symmetric] K(6), folded K'_def]
    have S: "class_S K'" using K(4) by (simp add: K'_def)
    have "goes_on idle Rest_unlock k0 (unlocked (rescheduled K'))"
      using s S K(5,7) L by (intro goes_on_rescheduled) (auto simp: K'_def P_def)
    moreover have "chMtxUnlockAll k = Some (unlocked (rescheduled K'))"
      using False K(1) L(1) chSchRescheduleS_eq [OF kernel_okD(1) [OF s(1)] S] chSysUnlock_resched [OF S]
      by (auto simp: chMtxUnlockAll_def Let_def c_def [symmetric] K'_def [symmetric] rescheduled_def)
    ultimately show ?thesis by (simp add: k0_def)
  qed
qed

interpretation cond_wait: kernel_call idle "do_call (Cond_wait c)" "may_call idle (Cond_wait c)" "rest_of (Cond_wait c)" for idle c
proof
  fix k assume ok: "kernel_ok k" "mtx_ok k" "resched_ok k" "runnable k idle" and cl: "class_thread k"
    and pre: "may_call idle (Cond_wait c) k"
  define k0 where "k0 = k\<lparr>lock_cnt := 1\<rparr>"
  note L = locked [OF ok cl, folded k0_def]
  have ne: "queues k0 Q_RLIST \<noteq> []" using idle_ready [OF ok(1,4)] pre L(9) by simp
  obtain mp ms where own: "mtxlist_of k0 (r_current k0) = mp # ms"
    using pre by (cases "mtxlist_of k (r_current k)") (auto simp: k0_def)
  obtain np k2 where k2: "chCondWaitS c k0 = Some (Switched, sleeping CH_STATE_WTCOND k2)"
      "falls_asleep (set_prio (r_current k0) np (released (r_current k0) mp k0)) k2" "kernel_ok (sleeping CH_STATE_WTCOND k2)"
      "mtx_ok k2" "resched_ok (sleeping CH_STATE_WTCOND k2)"
    using chCondWaitS_sleeps [OF L(2,3,6) ne own] by blast
  have c: "r_current (released (r_current k0) mp k0) = r_current k0" using released_frame(2) [OF L(2) refl own] .
  have "goes_on idle (Rest_cond mp) k0 (Switched, sleeping CH_STATE_WTCOND k2)"
  proof (rule goes_on_sleeping [OF k2(2) _ _ k2(3-5) L(5)])
    show "rest_ok (sleeping CH_STATE_WTCOND k2) (r_current k0) (Rest_cond mp)" using k2(2) c by (simp add: falls_asleep_def)
  qed (use keeps_released [OF L(2) refl own] c pre L(8) in simp_all)
  then show "\<exists>r. do_call (Cond_wait c) k = Some r \<and> goes_on idle (rest_of (Cond_wait c) k) k r"
    using k2(1) L(1) own by (simp add: chCondWait_def k0_def)
qed

interpretation cond_signal: kernel_call idle "do_call (Cond_signal c)" "may_call idle (Cond_signal c)" "rest_of (Cond_signal c)" for idle c
proof
  fix k assume ok: "kernel_ok k" "mtx_ok k" "resched_ok k" "runnable k idle" and cl: "class_thread k"
  define k0 where "k0 = k\<lparr>lock_cnt := 1\<rparr>"
  note L = locked [OF ok cl, folded k0_def]
  show "\<exists>r. do_call (Cond_signal c) k = Some r \<and> goes_on idle (rest_of (Cond_signal c) k) k r"
  proof (cases "queues k0 (Q_COND c)")
    case Nil
    have "goes_on idle Rest_unlock k0 (Done (), k0\<lparr>lock_cnt := 0\<rparr>) \<and> chSysUnlock k0 = Some (k0\<lparr>lock_cnt := 0\<rparr>)"
      using L by (intro conjI goes_on_unlocked) auto
    then show ?thesis using Nil L(1) by (simp add: chCondSignal_def queue_notempty_def k0_def)
  next
    case (Cons t ts)
    note h = cond_head [OF L(2) Cons] and s = kernel_okD(1) [OF L(2)]
    have W: "kernel_ok (snd (wakeupS t MSG_OK k0))" "resched_ok (snd (wakeupS t MSG_OK k0))" "mtx_ok (snd (wakeupS t MSG_OK k0))"
      using h L wait_ok_but [OF kernel_okD(2) [OF L(2)], of t] kernel_okD(3) [OF L(2)] not_sem_queue [OF s, of t]
        mtx_ok_wakeupS [OF L(2), of t]
      by (auto intro!: kernel_ok_wakeupS resched_ok_wakeupS sem_ok_dequeue s)
    have "chSchWakeupS t MSG_OK (queue_dequeue t k0) = Some (wakeupS t MSG_OK k0)"
      using h L(6) s by (intro chSchWakeupS_eq) auto
    then have "chCondSignal c k = Some (unlocked (wakeupS t MSG_OK k0))"
      using cond_woken(2) [OF L(2) Cons] L(1) Cons chSysUnlock_resched [of "snd (wakeupS t MSG_OK k0)"] W(2) L(6)
      by (auto simp: chCondSignal_def queue_notempty_def wakeupS_def)
    moreover have "goes_on idle Rest_unlock k0 (unlocked (wakeupS t MSG_OK k0))"
      using h W L(5,6,8,10) by (intro goes_on_wakeupS) (simp_all add: runnable_def)
    ultimately show ?thesis by (simp add: k0_def)
  qed
qed

interpretation cond_broadcast: kernel_call idle "do_call (Cond_broadcast c)" "may_call idle (Cond_broadcast c)" "rest_of (Cond_broadcast c)" for idle c
proof
  fix k assume ok: "kernel_ok k" "mtx_ok k" "resched_ok k" "runnable k idle" and cl: "class_thread k"
  define k0 where "k0 = k\<lparr>lock_cnt := 1\<rparr>"
  note L = locked [OF ok cl, folded k0_def]
  define K where "K = woken_all MSG_RESET (queues k0 (Q_COND c)) k0"
  have K: "chCondBroadcastI c k0 = Some K" "kernel_ok K" "mtx_ok K"
    using cond_broadcast_loop_eq [OF L(2,7) refl, of c] L(3,7) by (auto simp: K_def chCondBroadcastI_def)
  have S: "class_S K" "r_current K = r_current k0" using L(6) by (simp_all add: K_def)
  have "keeps k0 K t" for t
    unfolding K_def using sched_okD(4) [OF kernel_okD(1) [OF L(2)], of _ "Q_COND c"]
    by (intro keeps_woken_all) (auto simp: runnable_def)
  then have "goes_on idle Rest_unlock k0 (unlocked (rescheduled K))" using K(2,3) S L(5) by (intro goes_on_rescheduled) auto
  moreover have "chCondBroadcast c k = Some (unlocked (rescheduled K))"
    using K L(1) chSchRescheduleS_eq [OF kernel_okD(1) [OF K(2)] S(1)] chSysUnlock_resched [OF S(1)]
    by (auto simp: chCondBroadcast_def rescheduled_def)
  ultimately show "\<exists>r. do_call (Cond_broadcast c) k = Some r \<and> goes_on idle (rest_of (Cond_broadcast c) k) k r"
    by (simp add: k0_def)
qed

interpretation thd_yield: kernel_call idle "do_call Thd_yield" "may_call idle Thd_yield" "rest_of Thd_yield" for idle
proof
  fix k assume ok: "kernel_ok k" "mtx_ok k" "resched_ok k" "runnable k idle" and cl: "class_thread k"
  define k0 c where "k0 = k\<lparr>lock_cnt := 1\<rparr>" and "c = r_current k"
  note L = locked [OF ok cl, folded k0_def, folded c_def]
  note y = chSchDoYieldS_eq [OF L(2,6)]
  let ?y = "queues k0 Q_RLIST \<noteq> [] \<and> prio_of k0 (r_current k0) \<le> prio_of k0 (hd (queues k0 Q_RLIST))"
  show "\<exists>r. do_call Thd_yield k = Some r \<and> goes_on idle (rest_of Thd_yield k) k r"
  proof (cases ?y)
    case True
    let ?k' = "preempted prio_insert k0"
    note h = ready_head [OF L(2)]
    have "prio_of k0 x \<le> prio_of k0 (hd (queues k0 Q_RLIST))" if "x = c \<or> x \<in> set (tl (queues k0 Q_RLIST))" for x
      using True that L(8) sched_okD(6) [OF kernel_okD(1) [OF L(2)], of Q_RLIST] by (cases "queues k0 Q_RLIST") auto
    then have "resched_ok ?k'" using hd_in_set [of "prio_insert (prio_of k0) c (tl (queues k0 Q_RLIST))"] L(8)
      by (simp add: resched_ok_iff)
    moreover have st: "stays k0 ?k' t" for t using h True L(8,10) by (auto simp: stays_def runnable_def)
    moreover have "class_S ?k'" using L(6) by (simp add: class_S_def)
    ultimately have "goes_on idle Rest_unlock k0 (Switched, ?k')"
      using y(2) True L(3,5) keeps_runnable [of k0 ?k' idle] by (simp add: goes_on_def keeps_def)
    then show ?thesis using y(1) True L(1) by (simp add: chThdYield_def k0_def)
  next
    case False
    have "goes_on idle Rest_unlock k0 (Done (), k0\<lparr>lock_cnt := 0\<rparr>) \<and> chSysUnlock k0 = Some (k0\<lparr>lock_cnt := 0\<rparr>)"
      using L by (intro conjI goes_on_unlocked) (auto simp: c_def)
    moreover have "chSchDoYieldS k0 = Some (Done (), k0)" using y(1) False by (simp only: if_False)
    ultimately show ?thesis using L(1) by (simp add: chThdYield_def k0_def)
  qed
qed

interpretation thd_create: kernel_call idle "do_call (Thd_create t p)" "may_call idle (Thd_create t p)" "rest_of (Thd_create t p)" for idle t p
proof
  fix k assume ok: "kernel_ok k" "mtx_ok k" "resched_ok k" "runnable k idle" and cl: "class_thread k"
    and pre: "may_call idle (Thd_create t p) k"
  define k0 where "k0 = k\<lparr>lock_cnt := 1\<rparr>"
  note L = locked [OF ok cl, folded k0_def]
  have f: "fresh t k" "fresh t k0" "NOPRIO < p" "p \<le> HIGHPRIO" using pre by (simp_all add: k0_def)
  note E = chThdCreateStatic_eq [OF ok(1,2) cl ok(3) f(1,3,4), of 0 0, folded k0_def, simplified]
  let ?K = "thread_init t p k0"
  have tc: "t \<noteq> r_current k0" using fresh_unqueued [OF kernel_okD(1) [OF L(2)] f(2)] by simp
  have "goes_on idle Rest_unlock k0 (unlocked (wakeupS t MSG_OK ?K))"
    using E(2-4) f(2) L(5,6,8,10) tc by (intro goes_on_wakeupS) (auto simp: created_def runnable_def fresh_def keeps_defs)
  moreover have "void (chThdCreateStatic 0 t 0 p k) = Some (unlocked (wakeupS t MSG_OK ?K))"
    using E(1) tc by (auto simp: created_def wakeupS_def k0_def)
  ultimately show "\<exists>r. do_call (Thd_create t p) k = Some r \<and> goes_on idle (rest_of (Thd_create t p) k) k r"
    by (simp add: k0_def)
qed

interpretation thd_exit: kernel_call idle "do_call (Thd_exit m)" "may_call idle (Thd_exit m)" "rest_of (Thd_exit m)" for idle m
proof
  fix k assume ok: "kernel_ok k" "mtx_ok k" "resched_ok k" "runnable k idle" and cl: "class_thread k"
    and pre: "may_call idle (Thd_exit m) k"
  define k0 c where "k0 = k\<lparr>lock_cnt := 1\<rparr>" and "c = r_current k"
  note L = locked [OF ok cl, folded k0_def, folded c_def]
  have ne: "queues k0 Q_RLIST \<noteq> []" using idle_ready [OF ok(1,4)] pre L(9) by simp
  obtain k2 where k2: "chThdExitS m k0 = Some (sleeping CH_STATE_FINAL k2)" "kernel_ok (sleeping CH_STATE_FINAL k2)"
      "resched_ok (sleeping CH_STATE_FINAL k2)" "class_S k2" "r_current k2 = c" "queues k2 Q_RLIST \<noteq> []"
      "c \<noteq> hd (queues k2 Q_RLIST)" "state_of k2 (hd (queues k2 Q_RLIST)) = CH_STATE_READY"
      "\<forall>x. state_of k2 x = (if x \<in> set (queues k0 (Q_WAIT c)) then CH_STATE_READY else state_of k0 x)"
      "\<forall>x. p_u (thd k2 x) = (if x = c then Rdymsg m else p_u (thd k0 x))" "\<forall>x. mtxlist_of k2 x = mtxlist_of k0 x"
      "mtx_ok k2 = mtx_ok k0"
    using chThdExitS_sleeps [OF L(2,6) ne, of m] L(8) by auto
  have "keeps k0 k2 t" if "t \<noteq> c" for t
    using that k2(9-11) sched_okD(4) [OF kernel_okD(1) [OF L(2)], of t "Q_WAIT c"]
    by (auto simp: keeps_defs runnable_def)
  moreover have "falls_asleep k2 k2" using k2(4-8) by (simp add: falls_asleep_def)
  ultimately have "goes_on idle Rest_unlock k0 (Switched, sleeping CH_STATE_FINAL k2)"
    using k2 L pre by (intro goes_on_sleeping [where kp = k2]) (auto simp: c_def)
  then show "\<exists>r. do_call (Thd_exit m) k = Some r \<and> goes_on idle (rest_of (Thd_exit m) k) k r"
    using k2(1) L(1) by (simp add: chThdExit_def k0_def)
qed

text \<open>Finishing a call that had been switched out.\<close>

lemma finish_goes_on:
  assumes ok: "sys_ok idle s" and S: "class_S (fst s)"
  defines "a \<equiv> snd s (r_current (fst s))"
  shows "\<exists>r. finish a (fst s) = Some r \<and> goes_on idle (then_rest a) (fst s) r"
proof -
  let ?k = "fst s" and ?c = "r_current (fst s)"
  have k: "kernel_ok ?k" "mtx_ok ?k" "resched_ok ?k" "runnable ?k idle" "finite {x. state_of ?k x = CH_STATE_WTMTX}"
      "snd s idle = Rest_unlock" "rest_ok ?k ?c a"
    using ok S by (auto simp: sys_ok_def Let_def a_def)
  have "state_of ?k ?c = CH_STATE_CURRENT" using sched_okD(3) [OF kernel_okD(1) [OF k(1)]] by simp
  have u: "unlock_void ?k = Some (Done (), ?k\<lparr>lock_cnt := 0\<rparr>)" "goes_on idle b ?k (Done (), ?k\<lparr>lock_cnt := 0\<rparr>)" for b
    using goes_on_unlocked [OF k(1,2) S refl k(3) _ k(4)] goes_on_done by (auto simp: unlock_void_def)
  show ?thesis
  proof (cases a)
    case Rest_sem
    then have "rdymsg_of ?c ?k \<noteq> None" using k(7) \<open>state_of ?k ?c = CH_STATE_CURRENT\<close> by auto
    then show ?thesis using u Rest_sem by (auto simp: chSemWaitS_resume_def)
  next
    case (Rest_lock m)
    then have m: "mtxlist_of ?k ?c \<noteq> []" "hd (mtxlist_of ?k ?c) = m"
      using k(7) \<open>state_of ?k ?c = CH_STATE_CURRENT\<close> by auto
    then have "m_owner ?k m = Some ?c" using mtx_owned_okD(1) [OF mtx_okD(1) [OF k(2)], of m ?c] hd_in_set by metis
    then show ?thesis using u Rest_lock m by (auto simp: chMtxLockS_resume_def Let_def)
  next
    case (Rest_cond m)
    then have "rdymsg_of ?c ?k \<noteq> None" "?c \<noteq> idle" using k(6,7) \<open>state_of ?k ?c = CH_STATE_CURRENT\<close> by (auto simp: a_def)
    moreover obtain r where "do { r \<leftarrow> chMtxLockS m ?k; andthen r (\<lambda>_. unlock_void) } = Some r" "goes_on idle (Rest_lock m) ?k r"
      using lock_goes_on [OF k(1-4) S k(5), of m] calculation(2) by blast
    moreover have "do { r \<leftarrow> andthen q (\<lambda>_ k. Some (Done v, k)); andthen r (\<lambda>_. unlock_void) } = andthen q (\<lambda>_. unlock_void)"
      for q :: "unit outcome \<times> ch_system" and v :: msg_t
      by (cases q; cases "fst q") auto
    ultimately show ?thesis using Rest_cond by (cases r) (auto simp: chCondWaitS_resume_def)
  qed (use u in auto)
qed

subsection \<open>Every reachable state\<close>

lemmas good_steps = sem_wait.good_step sem_signal.good_step mtx_lock.good_step mtx_unlock.good_step mtx_unlock_all.good_step
  cond_wait.good_step cond_signal.good_step cond_broadcast.good_step thd_yield.good_step thd_create.good_step thd_exit.good_step

lemma call_goes_on:
  assumes "sys_ok idle s" "class_thread (fst s)" "may_call idle c (fst s)"
  shows "\<exists>r. do_call c (fst s) = Some r \<and> sys_ok idle (next_system (rest_of c (fst s)) s r)"
  using assms by (cases c) (simp_all only: good_steps)

lemma reachable_ok: "reachable idle s \<Longrightarrow> sys_ok idle s"
proof (induction rule: reachable.induct)
  case (boot k0 main k)
  from chSysInit_ok [OF boot(1,2), of 0 0]
  obtain k' where k': "chSysInit 0 main idle 0 k0 = Some (Done (), k')" "kernel_ok k'" "mtx_ok k'" "resched_ok k'"
      "class_thread k'" "queues k' Q_RLIST = [idle]" "\<forall>x. state_of k' x \<noteq> CH_STATE_WTMTX"
    by blast
  then have "state_of k' idle = CH_STATE_READY" using sched_okD(4) [OF kernel_okD(1) [OF k'(2)], of idle Q_RLIST] by simp
  then show ?case using boot(3) k' by (simp add: sys_ok_def runnable_def)
next
  case (call s c r)
  then show ?case using call_goes_on [of idle s c] by auto
next
  case (resume s r)
  then show ?case using finish_goes_on [of idle s] sys_ok_next [of idle s] by fastforce
qed


text \<open>A state after start-up, and the one after its main thread has locked a mutex.\<close>

definition sys_boot :: ch_system where
  "sys_boot = snd (the (chSysInit 0 100 200 0 bss))"

lemma sys_boot_reachable:
  "reachable 200 (sys_boot, \<lambda>_. Rest_unlock)" "class_thread sys_boot" "r_current sys_boot = 100"
proof -
  have b: "boot_ok bss" by (simp add: boot_ok_def bss_def sys0_def thread0_def class_thread_def IDLEPRIO_def NOPRIO_def)
  obtain k where k: "chSysInit 0 100 200 0 bss = Some (Done (), k)" "class_thread k" "r_current k = 100"
    using chSysInit_ok [OF b, of 200 100 0 0] by auto
  then show "reachable 200 (sys_boot, \<lambda>_. Rest_unlock)" using reachable.boot [OF b, of 200 100 k] by (simp add: sys_boot_def)
  show "class_thread sys_boot" "r_current sys_boot = 100" using k by (simp_all add: sys_boot_def)
qed




end
