(* ===== verification/ChPrintf.thy ===== *)
theory ChPrintf
  imports ChPrelude "HOL-Library.Word"
begin

text \<open>
  Formatted output: \<open>chprintf.c\<close> with floating-point support, and the memory stream of \<open>memstreams.c\<close>.

  A format is the list of its bytes with the terminating zero, the place in it is what is left of it; reading past the
  zero is undefined behaviour and the model returns \<open>None\<close>, as it does for an argument of the wrong type, a signed
  overflow and an access outside \<open>tmpbuf\<close>. \<open>long\<close>, \<open>int\<close> and \<open>unsigned\<close> have 32 bits and \<open>char\<close> is unsigned, as on
  the ARM; a \<open>long\<close> divided by an \<open>unsigned\<close> is divided as an unsigned number. The floating-point
  operations are parameters, and so is the stream: its state and what putting a byte does to it. The number of bytes
  written is not bounded by the range of \<open>int\<close>.
\<close>

type_synonym byte = "8 word"

abbreviation asc :: "char \<Rightarrow> byte" where
  "asc c \<equiv> of_char c"

text \<open>The arguments after the format. Strings may be the null pointer; they end before a zero byte.\<close>

datatype 'f va_arg = Va_int "32 word" | Va_double 'f | Va_str "byte list option"

record 'f cfloat =
  f_is_neg :: "'f \<Rightarrow> bool"
  f_negate :: "'f \<Rightarrow> 'f"
  f_to_long :: "'f \<Rightarrow> 32 word option"
  f_minus_long :: "'f \<Rightarrow> 32 word \<Rightarrow> 'f"
  f_times_ulong :: "'f \<Rightarrow> 32 word \<Rightarrow> 'f"

definition MAX_FILLER :: nat where "MAX_FILLER = 11"
definition FLOAT_PRECISION :: int where "FLOAT_PRECISION = 9"
definition TMPBUF_SIZE :: nat where "TMPBUF_SIZE = 2 * MAX_FILLER + 1"

definition buf_set :: "nat \<Rightarrow> byte \<Rightarrow> byte list \<Rightarrow> byte list option" where
  "buf_set i b buf = (if i < length buf then Some (buf[i := b]) else None)"

definition buf_get :: "nat \<Rightarrow> byte list \<Rightarrow> byte option" where
  "buf_get i buf = (if i < length buf then Some (buf ! i) else None)"

subsection \<open>Numbers\<close>

definition digit_char :: "32 word \<Rightarrow> byte" where
  "digit_char i = (let i = ucast i + asc CHR ''0'' in if i > asc CHR ''9'' then i + (asc CHR ''A'' - asc CHR ''0'' - 10) else i)"

text \<open>The two loops of \<open>long_to_string_with_divisor\<close>. \<open>q\<close> counts down from \<open>p + MAX_FILLER\<close>.\<close>

partial_function (option) digits_loop ::
  "32 word \<Rightarrow> 32 word \<Rightarrow> 32 word \<Rightarrow> nat \<Rightarrow> byte list \<Rightarrow> (nat \<times> byte list) option" where
  "digits_loop radix l ll q buf =
     (if radix = 0 \<or> q = 0 then None
      else do { let i = l mod radix;
                let q = q - 1;
                buf \<leftarrow> buf_set q (digit_char i) buf;
                let l = l div radix;
                let ll = ll div radix;
                if ll \<noteq> 0 then digits_loop radix l ll q buf else Some (q, buf) })"

fun move_down :: "nat \<Rightarrow> nat \<Rightarrow> nat \<Rightarrow> byte list \<Rightarrow> (nat \<times> byte list) option" where
  "move_down 0 p q buf = None"
| "move_down (Suc i) p q buf =
     do { b \<leftarrow> buf_get q buf; buf \<leftarrow> buf_set p b buf;
          if i \<noteq> 0 then move_down i (p + 1) (q + 1) buf else Some (p + 1, buf) }"

definition long_to_string_with_divisor ::
  "nat \<Rightarrow> 32 word \<Rightarrow> 32 word \<Rightarrow> 32 word \<Rightarrow> byte list \<Rightarrow> (nat \<times> byte list) option" where
  "long_to_string_with_divisor p num radix divisor buf =
     do { let l = num;
          let ll = (if divisor = 0 then num else divisor);
          (q, buf) \<leftarrow> digits_loop radix l ll (p + MAX_FILLER) buf;
          move_down (p + MAX_FILLER - q) p q buf }"

definition ch_ltoa :: "nat \<Rightarrow> 32 word \<Rightarrow> 32 word \<Rightarrow> byte list \<Rightarrow> (nat \<times> byte list) option" where
  "ch_ltoa p num radix buf = long_to_string_with_divisor p num radix 0 buf"

definition pow10 :: "32 word list" where
  "pow10 = [10, 100, 1000, 10000, 100000, 1000000, 10000000, 100000000, 1000000000]"

definition ftoa :: "'f cfloat \<Rightarrow> nat \<Rightarrow> 'f \<Rightarrow> int \<Rightarrow> byte list \<Rightarrow> (nat \<times> byte list) option" where
  "ftoa F p num precision buf =
     do { let precision = (if precision = 0 \<or> precision > FLOAT_PRECISION then FLOAT_PRECISION else precision);
          let precision = pow10 ! nat (precision - 1);
          l \<leftarrow> f_to_long F num;
          (p, buf) \<leftarrow> long_to_string_with_divisor p l 10 0 buf;
          buf \<leftarrow> buf_set p (asc CHR ''.'') buf;
          l \<leftarrow> f_to_long F (f_times_ulong F (f_minus_long F num l) precision);
          long_to_string_with_divisor (p + 1) l 10 (precision div 10) buf }"

subsection \<open>Directives\<close>

text \<open>The loops that read the width and the precision; an argument given by \<open>*\<close> is cut to a \<open>char\<close>.\<close>

definition add_digit :: "int \<Rightarrow> byte \<Rightarrow> int option" where
  "add_digit w c = (if w * 10 + uint c < 2 ^ 31 then Some (w * 10 + uint c) else None)"

fun scan_number :: "int \<Rightarrow> byte list \<Rightarrow> 'f va_arg list \<Rightarrow> (byte \<times> int \<times> byte list \<times> 'f va_arg list) option" where
  "scan_number w [] ap = None"
| "scan_number w (c # fmt) ap =
     (if asc CHR ''0'' \<le> c \<and> c \<le> asc CHR ''9''
      then do { w \<leftarrow> add_digit w (c - asc CHR ''0''); scan_number w fmt ap }
      else if c = asc CHR ''*''
      then (case ap of
              Va_int v # ap \<Rightarrow> do { w \<leftarrow> add_digit w (ucast v); scan_number w fmt ap }
            | _ \<Rightarrow> None)
      else Some (c, w, fmt, ap))"

record directive =
  d_left_align :: bool
  d_filler :: byte
  d_width :: int
  d_precision :: int
  d_is_long :: bool

text \<open>An optional flag character; the long modifier; from behind the percent sign up to the command character.\<close>

definition scan_flag :: "byte \<Rightarrow> byte list \<Rightarrow> (bool \<times> byte list) option" where
  "scan_flag flag fmt = do { x \<leftarrow> buf_get 0 fmt; Some (if x = flag then (True, tl fmt) else (False, fmt)) }"

definition scan_long :: "byte \<Rightarrow> byte list \<Rightarrow> (bool \<times> byte \<times> byte list) option" where
  "scan_long c fmt =
     (if c = asc CHR ''l'' \<or> c = asc CHR ''L''
      then do { x \<leftarrow> buf_get 0 fmt; Some (True, if x \<noteq> 0 then (x, tl fmt) else (c, fmt)) }
      else Some (asc CHR ''A'' \<le> c \<and> c \<le> asc CHR ''Z'', c, fmt))"

definition scan_directive ::
  "byte list \<Rightarrow> 'f va_arg list \<Rightarrow> (byte \<times> directive \<times> byte list \<times> 'f va_arg list) option" where
  "scan_directive fmt ap =
     do { (left_align, fmt) \<leftarrow> scan_flag (asc CHR ''-'') fmt;
          (zero, fmt) \<leftarrow> scan_flag (asc CHR ''0'') fmt;
          let filler = (if zero then asc CHR ''0'' else asc CHR '' '');
          (c, width, fmt, ap) \<leftarrow> scan_number 0 fmt ap;
          (c, precision, fmt, ap) \<leftarrow> (if c = asc CHR ''.'' then scan_number 0 fmt ap else Some (c, 0, fmt, ap));
          (is_long, c, fmt) \<leftarrow> scan_long c fmt;
          Some (c, \<lparr>d_left_align = left_align, d_filler = filler, d_width = width, d_precision = precision, d_is_long = is_long\<rparr>,
            fmt, ap) }"

text \<open>\<open>for (p = s; *p && (--precision >= 0); p++)\<close>: the bytes of the string that are printed.\<close>

fun str_part :: "int \<Rightarrow> byte list \<Rightarrow> byte list" where
  "str_part precision [] = []"
| "str_part precision (b # s) =
     (if b = 0 then [] else if precision - 1 \<ge> 0 then b # str_part (precision - 1) s else [])"

definition null_str :: "byte list" where
  "null_str = map asc ''(null)''"

text \<open>
  Decoding of the command: the bytes from \<open>s\<close> to \<open>p\<close>, the filler and the arguments left. \<open>tmpbuf\<close> holds
  anything at first.
\<close>

definition num_text :: "(nat \<times> byte list) option \<Rightarrow> byte list option" where
  "num_text r = do { (p, buf) \<leftarrow> r; Some (take p buf) }"

definition unsigned_common :: "32 word \<Rightarrow> byte list \<Rightarrow> 'f va_arg list \<Rightarrow> (byte list \<times> 'f va_arg list) option" where
  "unsigned_common radix tmpbuf ap =
     (case ap of Va_int v # ap \<Rightarrow> do { t \<leftarrow> num_text (ch_ltoa 0 v radix tmpbuf); Some (t, ap) } | _ \<Rightarrow> None)"

definition command ::
  "'f cfloat \<Rightarrow> byte list \<Rightarrow> byte \<Rightarrow> directive \<Rightarrow> 'f va_arg list \<Rightarrow> (byte list \<times> byte \<times> 'f va_arg list) option" where
  "command F tmpbuf c d ap =
     (if c = asc CHR ''c''
      then (case ap of
              Va_int v # ap \<Rightarrow> do { t \<leftarrow> buf_set 0 (ucast v) tmpbuf; Some (take 1 t, asc CHR '' '', ap) }
            | _ \<Rightarrow> None)
      else if c = asc CHR ''s''
      then (case ap of
              Va_str s # ap \<Rightarrow>
                do { let s = (case s of None \<Rightarrow> null_str | Some s \<Rightarrow> s);
                     let precision = (if d_precision d = 0 then 32767 else d_precision d);
                     Some (str_part precision s, asc CHR '' '', ap) }
            | _ \<Rightarrow> None)
      else if c \<in> {asc CHR ''D'', asc CHR ''d'', asc CHR ''I'', asc CHR ''i''}
      then (case ap of
              Va_int l # ap \<Rightarrow>
                do { t \<leftarrow> (if sint l < 0
                           then (if l = 0x80000000 then None
                                 else do { t \<leftarrow> buf_set 0 (asc CHR ''-'') tmpbuf; num_text (ch_ltoa 1 (- l) 10 t) })
                           else num_text (ch_ltoa 0 l 10 tmpbuf));
                     Some (t, d_filler d, ap) }
            | _ \<Rightarrow> None)
      else if c = asc CHR ''f''
      then (case ap of
              Va_double f # ap \<Rightarrow>
                do { t \<leftarrow> (if f_is_neg F f
                           then do { t \<leftarrow> buf_set 0 (asc CHR ''-'') tmpbuf; num_text (ftoa F 1 (f_negate F f) (d_precision d) t) }
                           else num_text (ftoa F 0 f (d_precision d) tmpbuf));
                     Some (t, d_filler d, ap) }
            | _ \<Rightarrow> None)
      else if c \<in> {asc CHR ''X'', asc CHR ''x''} then do { (t, ap) \<leftarrow> unsigned_common 16 tmpbuf ap; Some (t, d_filler d, ap) }
      else if c \<in> {asc CHR ''U'', asc CHR ''u''} then do { (t, ap) \<leftarrow> unsigned_common 10 tmpbuf ap; Some (t, d_filler d, ap) }
      else if c \<in> {asc CHR ''O'', asc CHR ''o''} then do { (t, ap) \<leftarrow> unsigned_common 8 tmpbuf ap; Some (t, d_filler d, ap) }
      else do { t \<leftarrow> buf_set 0 c tmpbuf; Some (take 1 t, d_filler d, ap) })"

subsection \<open>Output\<close>

text \<open>The loops that put the bytes and the filler.\<close>

fun put_bytes :: "('s \<Rightarrow> byte \<Rightarrow> 's) \<Rightarrow> byte list \<Rightarrow> int \<Rightarrow> 's \<Rightarrow> int \<times> 's" where
  "put_bytes put [] n chp = (n, chp)"
| "put_bytes put (b # bs) n chp = put_bytes put bs (n + 1) (put chp b)"

fun put_filler :: "('s \<Rightarrow> byte \<Rightarrow> 's) \<Rightarrow> byte \<Rightarrow> nat \<Rightarrow> int \<Rightarrow> 's \<Rightarrow> int \<times> 's" where
  "put_filler put b 0 n chp = (n, chp)"
| "put_filler put b (Suc w) n chp = put_filler put b w (n + 1) (put chp b)"

definition put_field ::
  "('s \<Rightarrow> byte \<Rightarrow> 's) \<Rightarrow> byte list \<Rightarrow> byte \<Rightarrow> directive \<Rightarrow> int \<Rightarrow> 's \<Rightarrow> int \<times> 's" where
  "put_field put s filler d n chp =
     (let i = int (length s);
          width = (if d_width d - i < 0 then 0 else d_width d - i);
          width = (if d_left_align d then width else - width);
          (s, width, n, chp) =
            (if width < 0
             then (let (s, n, chp) =
                         (if s \<noteq> [] \<and> hd s = asc CHR ''-'' \<and> filler = asc CHR ''0''
                          then (tl s, n + 1, put chp (hd s)) else (s, n, chp));
                       (n, chp) = put_filler put filler (nat (- width)) n chp
                   in (s, 0, n, chp))
             else (s, width, n, chp));
          (n, chp) = put_bytes put s n chp
      in put_filler put filler (nat width) n chp)"

lemma scan_number_shorter: "scan_number w fmt ap = Some (c, v, fmt', ap') \<Longrightarrow> length fmt' < length fmt"
  by (induction w fmt ap rule: scan_number.induct)
    (fastforce split: if_splits list.splits va_arg.splits simp: bind_eq_Some_conv)+

lemma scan_flag_shorter: "scan_flag x fmt = Some (b, fmt') \<Longrightarrow> length fmt' \<le> length fmt"
  by (auto simp: scan_flag_def bind_eq_Some_conv split: if_splits)

lemma scan_long_shorter: "scan_long c fmt = Some (b, c', fmt') \<Longrightarrow> length fmt' \<le> length fmt"
  by (auto simp: scan_long_def bind_eq_Some_conv split: if_splits simp del: of_char_eq_iff)

lemma scan_directive_shorter:
  assumes "scan_directive fmt ap = Some (c, d, fmt', ap')"
  shows "length fmt' < length fmt"
proof -
  obtain la f1 z f2 c2 w f3 ap3 c3 pr f4 ap4 il where *: "scan_flag (asc CHR ''-'') fmt = Some (la, f1)"
      "scan_flag (asc CHR ''0'') f1 = Some (z, f2)" "scan_number 0 f2 ap = Some (c2, w, f3, ap3)"
      "(if c2 = asc CHR ''.'' then scan_number 0 f3 ap3 else Some (c2, 0, f3, ap3)) = Some (c3, pr, f4, ap4)"
      "scan_long c3 f4 = Some (il, c, fmt')"
    using assms by (clarsimp simp: scan_directive_def Let_def bind_eq_Some_conv split del: if_split)
  have "length f4 \<le> length f3" using *(4) scan_number_shorter by (fastforce split: if_splits)
  then show ?thesis
    using scan_flag_shorter [OF *(1)] scan_flag_shorter [OF *(2)] scan_number_shorter [OF *(3)] scan_long_shorter [OF *(5)]
    by linarith
qed

function chvprintf_loop ::
  "'f cfloat \<Rightarrow> byte list \<Rightarrow> ('s \<Rightarrow> byte \<Rightarrow> 's) \<Rightarrow> byte list \<Rightarrow> 'f va_arg list \<Rightarrow> int \<Rightarrow> 's \<Rightarrow> (int \<times> 's) option" where
  "chvprintf_loop F tmpbuf put fmt ap n chp =
     (case fmt of
        [] \<Rightarrow> None
      | c # fmt \<Rightarrow>
          if c = 0 then Some (n, chp)
          else if c \<noteq> asc CHR ''%'' then chvprintf_loop F tmpbuf put fmt ap (n + 1) (put chp c)
          else do { (c, d, fmt, ap) \<leftarrow> scan_directive fmt ap;
                    (s, filler, ap) \<leftarrow> command F tmpbuf c d ap;
                    let (n, chp) = put_field put s filler d n chp;
                    chvprintf_loop F tmpbuf put fmt ap n chp })"
  by pat_completeness auto
termination
  by (relation "measure (\<lambda>(F, tmpbuf, put, fmt, _). length fmt)") (auto dest!: scan_directive_shorter)

declare chvprintf_loop.simps [simp del] digits_loop.simps [code]

text \<open>
  \<open>junk\<close> is what \<open>tmpbuf\<close> holds before a directive writes to it. Each directive starts at its beginning and prints only
  what it has written itself.
\<close>

definition chvprintf ::
  "'f cfloat \<Rightarrow> byte list \<Rightarrow> ('s \<Rightarrow> byte \<Rightarrow> 's) \<Rightarrow> 's \<Rightarrow> byte list \<Rightarrow> 'f va_arg list \<Rightarrow> (int \<times> 's) option" where
  "chvprintf F junk put chp fmt ap = chvprintf_loop F junk put fmt ap 0 chp"

subsection \<open>Digits\<close>

text \<open>The reference: a number in a radix without leading zeros, and with a fixed number of digits.\<close>

definition hex_digit :: "nat \<Rightarrow> byte" where
  "hex_digit i = asc (''0123456789ABCDEF'' ! i)"

fun nat_text :: "nat \<Rightarrow> nat \<Rightarrow> byte list" where
  "nat_text r n = (if n < r \<or> r < 2 then [hex_digit n] else nat_text r (n div r) @ [hex_digit (n mod r)])"

primrec digs :: "nat \<Rightarrow> nat \<Rightarrow> nat \<Rightarrow> byte list" where
  "digs r 0 n = []"
| "digs r (Suc k) n = digs r k (n div r) @ [hex_digit (n mod r)]"

fun ndigits :: "nat \<Rightarrow> nat \<Rightarrow> nat" where
  "ndigits r n = (if n < r \<or> r < 2 then 1 else Suc (ndigits r (n div r)))"

declare nat_text.simps [simp del] ndigits.simps [simp del]

lemma length_digs [simp]: "length (digs r k n) = k"
  by (induction k arbitrary: n) simp_all

lemma nat_text_digs: "2 \<le> r \<Longrightarrow> nat_text r n = digs r (ndigits r n) n"
proof (induction r n rule: nat_text.induct)
  case (1 r n)
  then show ?case by (cases "n < r") (simp_all add: nat_text.simps [of r n] ndigits.simps [of r n])
qed

lemma ndigits_le:
  assumes "2 \<le> r" "n < r ^ k" "0 < k"
  shows "ndigits r n \<le> k"
  using assms
proof (induction k arbitrary: n)
  case (Suc k)
  show ?case
  proof (cases "n < r")
    case True
    then show ?thesis by (simp add: ndigits.simps [of r n])
  next
    case False
    have "n div r < r ^ k" using Suc.prems(1,2) by (simp add: less_mult_imp_div_less mult.commute)
    moreover from this have "0 < k" using False Suc.prems(2) by (cases k) auto
    ultimately have "ndigits r (n div r) \<le> k" using Suc.IH Suc.prems(1) by blast
    then show ?thesis using False Suc.prems(1) by (simp add: ndigits.simps [of r n])
  qed
qed simp

text \<open>What holds for all digits is shown by going through them.\<close>

lemma all_digits:
  assumes "list_all P [0..<16]" "i < 16"
  shows "P i"
  using assms by (auto simp: list_all_iff)

lemma digit_char_hex:
  assumes "i < 16" "unat x = i"
  shows "digit_char x = hex_digit i"
proof -
  have "x = of_nat i" using assms(2) by (metis of_nat_unat ucast_id)
  moreover have "list_all (\<lambda>i. digit_char (of_nat i) = hex_digit i) [0..<16]"
    by (simp add: upt_rec digit_char_def hex_digit_def)
  ultimately show ?thesis using all_digits [OF _ assms(1)] by blast
qed

lemma ndigits_pos [simp]: "0 < ndigits r n"
  by (simp add: ndigits.simps [of r n])

subsection \<open>The buffer\<close>

lemma buf_step:
  assumes "0 < q" "q \<le> length buf"
  shows "buf_set (q - 1) b buf = Some (take (q - 1) buf @ b # drop q buf)"
  using assms by (simp add: buf_set_def upd_conv_take_nth_drop)

lemma digits_loop_ok:
  assumes r: "2 \<le> unat radix" "unat radix \<le> 16" and "ndigits (unat radix) (unat ll) \<le> q" "q \<le> length buf"
  shows "digits_loop radix l ll q buf =
    (let n = ndigits (unat radix) (unat ll)
     in Some (q - n, take (q - n) buf @ digs (unat radix) n (unat l) @ drop q buf))"
  using assms(3,4)
proof (induction "unat ll" arbitrary: l ll q buf rule: less_induct)
  case less
  let ?r = "unat radix" and ?h = "hex_digit (unat l mod unat radix)"
  have q: "0 < q" "radix \<noteq> 0" using less_le_trans [OF ndigits_pos less.prems(1)] r(1) by auto
  have "unat l mod ?r < 16" using r mod_less_divisor [of ?r "unat l"] by linarith
  then have d: "digit_char (l mod radix) = ?h" by (intro digit_char_hex) (simp_all add: unat_mod)
  define buf1 where "buf1 = take (q - 1) buf @ ?h # drop q buf"
  have step: "digits_loop radix l ll q buf =
      (if ll div radix \<noteq> 0 then digits_loop radix (l div radix) (ll div radix) (q - 1) buf1 else Some (q - 1, buf1))"
    using q d buf_step [OF q(1) less.prems(2)] by (subst digits_loop.simps) (simp add: buf1_def Let_def)
  have z: "ll div radix = 0 \<longleftrightarrow> unat ll < ?r"
    using r(1) by (simp add: unat_eq_zero [symmetric] unat_div div_eq_0_iff)
  show ?case
  proof (cases "unat ll < ?r")
    case True
    then show ?thesis using step z by (simp add: buf1_def ndigits.simps [of _ "unat ll"])
  next
    case False
    define n where "n = ndigits ?r (unat ll div ?r)"
    have n: "ndigits ?r (unat ll) = Suc n" using False r(1) by (simp add: n_def ndigits.simps [of _ "unat ll"])
    have lt: "unat (ll div radix) < unat ll" using False r(1) by (simp add: unat_div)
    have "digits_loop radix (l div radix) (ll div radix) (q - 1) buf1 =
        Some (q - 1 - n, take (q - 1 - n) buf1 @ digs ?r n (unat l div ?r) @ drop (q - 1) buf1)"
      using less.hyps [OF lt, of "q - 1" buf1] less.prems n by (simp add: buf1_def unat_div n_def [symmetric] Let_def)
    then show ?thesis using step z False n less.prems q(1) by (simp add: buf1_def)
  qed
qed

lemma move_down_ok:
  "0 < i \<Longrightarrow> p \<le> q \<Longrightarrow> q + i \<le> length buf \<Longrightarrow>
   move_down i p q buf = Some (p + i, take p buf @ take i (drop q buf) @ drop (p + i) buf)"
proof (induction i arbitrary: p q buf)
  case (Suc i)
  have l: "p < length buf" "q < length buf" using Suc.prems by auto
  have t: "take (Suc i) (drop q buf) = buf ! q # take i (drop (q + 1) buf)" using l(2) by (simp add: Cons_nth_drop_Suc [symmetric])
  show ?case
  proof (cases "i = 0")
    case True
    then show ?thesis using l t by (simp add: buf_get_def buf_set_def upd_conv_take_nth_drop)
  next
    case False
    define b1 where "b1 = buf[p := buf ! q]"
    have "move_down i (p + 1) (q + 1) b1 = Some (p + 1 + i, take (p + 1) b1 @ take i (drop (q + 1) b1) @ drop (p + 1 + i) b1)"
      using Suc.prems False by (intro Suc.IH) (auto simp: b1_def)
    moreover have "take (p + 1) b1 = take p buf @ [buf ! q]" "drop (p + 1 + i) b1 = drop (p + 1 + i) buf"
      "drop (q + 1) b1 = drop (q + 1) buf"
      using l(1) Suc.prems(2) by (simp_all add: b1_def take_Suc_conv_app_nth)
    moreover have "move_down (Suc i) p q buf = move_down i (p + 1) (q + 1) b1"
      using l False by (simp add: buf_get_def buf_set_def b1_def)
    ultimately show ?thesis unfolding t by simp
  qed
qed simp

lemma long_to_string_ok:
  assumes r: "2 \<le> unat radix" "unat radix \<le> 16" and p: "p + 11 \<le> length buf"
    and n: "n = ndigits (unat radix) (unat (if divisor = 0 then num else divisor))" "n \<le> 11"
  shows "\<exists>buf'. long_to_string_with_divisor p num radix divisor buf = Some (p + n, buf') \<and> length buf' = length buf \<and>
    take (p + n) buf' = take p buf @ digs (unat radix) n (unat num)"
proof -
  define q where "q = p + 11 - n"
  define ds where "ds = digs (unat radix) n (unat num)"
  define ll where "ll = (if divisor = 0 then num else divisor)"
  define b1 where "b1 = take q buf @ ds @ drop (p + 11) buf"
  have q: "p \<le> q" "q + n = p + 11" "q \<le> length buf" using n(2) p by (auto simp: q_def)
  have ds: "length ds = n" by (simp add: ds_def)
  have nl: "ndigits (unat radix) (unat ll) = n" using n(1) by (simp add: ll_def)
  have "ndigits (unat radix) (unat ll) \<le> p + 11" using n(2) nl by simp
  from digits_loop_ok [OF r this p, of num]
  have 1: "digits_loop radix num ll (p + 11) buf = Some (q, b1)"
    unfolding nl Let_def q_def [symmetric] b1_def ds_def .
  have "0 < n" using nl ndigits_pos by metis
  moreover have lb: "length b1 = length buf" using q p ds by (simp add: b1_def)
  ultimately have 2: "move_down n p q b1 = Some (p + n, take p b1 @ take n (drop q b1) @ drop (p + n) b1)"
    using q p by (intro move_down_ok) auto
  have 3: "take p b1 = take p buf" "take n (drop q b1) = ds" using q p ds by (simp_all add: b1_def)
  have "p + 11 - q = n" using q by simp
  then have "long_to_string_with_divisor p num radix divisor buf = move_down n p q b1"
    using 1 by (simp add: long_to_string_with_divisor_def MAX_FILLER_def Let_def ll_def [symmetric])
  then show ?thesis using 2 3 lb ds q p unfolding ds_def [symmetric] by simp
qed

subsection \<open>What a format means\<close>

text \<open>
  The reference: the bytes a format stands for, without buffers, pointers and output loops. An unsigned number is its
  text in the radix, a floating-point number its integer part and as many digits of the fraction as the precision says.
\<close>

definition float_text :: "'f cfloat \<Rightarrow> 'f \<Rightarrow> int \<Rightarrow> byte list option" where
  "float_text F f precision =
     (let digits = (if precision = 0 \<or> precision > 9 then 9 else nat precision)
      in do { l \<leftarrow> f_to_long F f;
              m \<leftarrow> f_to_long F (f_times_ulong F (f_minus_long F f l) (10 ^ digits));
              Some (nat_text 10 (unat l) @ asc CHR ''.'' # digs 10 digits (unat m)) })"

definition string_text :: "byte list \<Rightarrow> int \<Rightarrow> byte list" where
  "string_text s precision = takeWhile (\<lambda>b. b \<noteq> 0) (take (if precision = 0 then 32767 else nat precision) s)"

fun command_text :: "'f cfloat \<Rightarrow> byte \<Rightarrow> directive \<Rightarrow> 'f va_arg list \<Rightarrow> (byte list \<times> byte \<times> 'f va_arg list) option" where
  "command_text F c d ap =
     (let num = (\<lambda>r. case ap of Va_int v # ap \<Rightarrow> Some (nat_text r (unat v), d_filler d, ap) | _ \<Rightarrow> None)
      in if c = asc CHR ''c'' then (case ap of Va_int v # ap \<Rightarrow> Some ([ucast v], asc CHR '' '', ap) | _ \<Rightarrow> None)
         else if c = asc CHR ''s''
         then (case ap of
                 Va_str s # ap \<Rightarrow>
                   Some (string_text (case s of None \<Rightarrow> map asc ''(null)'' | Some s \<Rightarrow> s) (d_precision d), asc CHR '' '', ap)
               | _ \<Rightarrow> None)
         else if c \<in> asc ` {CHR ''D'', CHR ''d'', CHR ''I'', CHR ''i''}
         then (case ap of
                 Va_int v # ap \<Rightarrow>
                   if sint v = - (2 ^ 31) then None
                   else Some ((if sint v < 0 then [asc CHR ''-''] else []) @ nat_text 10 (nat \<bar>sint v\<bar>), d_filler d, ap)
               | _ \<Rightarrow> None)
         else if c = asc CHR ''f''
         then (case ap of
                 Va_double f # ap \<Rightarrow>
                   if f_is_neg F f
                   then map_option (\<lambda>t. (asc CHR ''-'' # t, d_filler d, ap)) (float_text F (f_negate F f) (d_precision d))
                   else map_option (\<lambda>t. (t, d_filler d, ap)) (float_text F f (d_precision d))
               | _ \<Rightarrow> None)
         else if c \<in> asc ` {CHR ''X'', CHR ''x''} then num 16
         else if c \<in> asc ` {CHR ''U'', CHR ''u''} then num 10
         else if c \<in> asc ` {CHR ''O'', CHR ''o''} then num 8
         else Some ([c], d_filler d, ap))"

text \<open>A text in a field: the filler goes to its left, behind a sign if the filler is 0, or to its right.\<close>

definition field_text :: "byte list \<Rightarrow> byte \<Rightarrow> directive \<Rightarrow> byte list" where
  "field_text s filler d =
     (let pad = replicate (nat (d_width d) - length s) filler
      in if d_left_align d then s @ pad
         else if s \<noteq> [] \<and> hd s = asc CHR ''-'' \<and> filler = asc CHR ''0'' then hd s # pad @ tl s
         else pad @ s)"

function printf_text :: "'f cfloat \<Rightarrow> byte list \<Rightarrow> 'f va_arg list \<Rightarrow> byte list option" where
  "printf_text F fmt ap =
     (case fmt of
        [] \<Rightarrow> None
      | c # fmt \<Rightarrow>
          if c = 0 then Some []
          else if c \<noteq> asc CHR ''%'' then map_option (Cons c) (printf_text F fmt ap)
          else do { (c, d, fmt, ap) \<leftarrow> scan_directive fmt ap;
                    (s, filler, ap) \<leftarrow> command_text F c d ap;
                    map_option (append (field_text s filler d)) (printf_text F fmt ap) })"
  by pat_completeness auto
termination
  by (relation "measure (\<lambda>(F, fmt, _). length fmt)") (auto dest!: scan_directive_shorter)

declare printf_text.simps [simp del] command_text.simps [simp del]

subsection \<open>The numbers fit\<close>

lemma word_digits:
  fixes v :: "32 word"
  shows "ndigits 16 (unat v) \<le> 8" "ndigits 10 (unat v) \<le> 10" "ndigits 8 (unat v) \<le> 11"
proof -
  have "unat v < 2 ^ 32" using unsigned_less [of v] by simp
  then show "ndigits 16 (unat v) \<le> 8" "ndigits 10 (unat v) \<le> 10" "ndigits 8 (unat v) \<le> 11" by (auto intro!: ndigits_le)
qed

lemma ch_ltoa_ok:
  assumes r: "radix \<in> {8, 10, 16}" and p: "p + 11 \<le> length buf"
  shows "\<exists>buf'. ch_ltoa p v radix buf = Some (p + length (nat_text (unat radix) (unat v)), buf') \<and> length buf' = length buf \<and>
    take (p + length (nat_text (unat radix) (unat v))) buf' = take p buf @ nat_text (unat radix) (unat v)"
proof -
  have u: "unat radix \<in> {8, 10, 16}" using r by auto
  then have "ndigits (unat radix) (unat v) \<le> 11" using word_digits [of v] by auto
  then show ?thesis
    using long_to_string_ok [OF _ _ p, of radix _ 0 v] u nat_text_digs [of "unat radix" "unat v"] by (auto simp: ch_ltoa_def)
qed

lemma num_text_ok:
  assumes "radix \<in> {8, 10, 16}" "p + 11 \<le> length buf"
  shows "num_text (ch_ltoa p v radix buf) = Some (take p buf @ nat_text (unat radix) (unat v))"
  using ch_ltoa_ok [OF assms, of v] by (auto simp: num_text_def)

lemma ndigits_pow10: "ndigits 10 (10 ^ k) = Suc k"
  by (induction k) (simp_all add: ndigits.simps [of 10])

lemma pow10_nth:
  assumes "i < 9"
  shows "pow10 ! i = 10 ^ Suc i" "unat (pow10 ! i div 10) = 10 ^ i"
proof -
  have "list_all (\<lambda>i. i < 9 \<longrightarrow> pow10 ! i = 10 ^ Suc i \<and> unat (pow10 ! i div 10) = 10 ^ i) [0..<16]"
    by (simp add: upt_rec pow10_def)
  then have "pow10 ! i = 10 ^ Suc i \<and> unat (pow10 ! i div 10) = 10 ^ i" using all_digits [of _ i] assms by fastforce
  then show "pow10 ! i = 10 ^ Suc i" "unat (pow10 ! i div 10) = 10 ^ i" by blast+
qed

lemma ftoa_ok:
  assumes p: "p \<le> 1" "length buf = TMPBUF_SIZE" and pr: "0 \<le> precision"
  shows "num_text (ftoa F p f precision buf) = map_option (append (take p buf)) (float_text F f precision)"
proof -
  define i where "i = (if precision = 0 \<or> precision > 9 then 8 else nat precision - 1)"
  have i: "i < 9" "nat ((if precision = 0 \<or> precision > FLOAT_PRECISION then FLOAT_PRECISION else precision) - 1) = i"
      "(if precision = 0 \<or> precision > 9 then 9 else nat precision) = Suc i"
    using pr by (auto simp: i_def FLOAT_PRECISION_def)
  have "ftoa F p f precision buf =
    do { l \<leftarrow> f_to_long F f;
         (p, buf) \<leftarrow> long_to_string_with_divisor p l 10 0 buf;
         buf \<leftarrow> buf_set p (asc CHR ''.'') buf;
         l \<leftarrow> f_to_long F (f_times_ulong F (f_minus_long F f l) (pow10 ! i));
         long_to_string_with_divisor (p + 1) l 10 (pow10 ! i div 10) buf }"
    by (simp only: ftoa_def Let_def i(2))
  moreover have "num_text (do { (p, buf) \<leftarrow> long_to_string_with_divisor p l 10 0 buf;
         buf \<leftarrow> buf_set p (asc CHR ''.'') buf;
         l \<leftarrow> f_to_long F (f_times_ulong F (f_minus_long F f l) (pow10 ! i));
         long_to_string_with_divisor (p + 1) l 10 (pow10 ! i div 10) buf }) =
       map_option (\<lambda>m. take p buf @ nat_text 10 (unat l) @ asc CHR ''.'' # digs 10 (Suc i) (unat m))
         (f_to_long F (f_times_ulong F (f_minus_long F f l) (pow10 ! i)))" for l
  proof -
    define t where "t = nat_text 10 (unat l)"
    obtain b1 where b1: "long_to_string_with_divisor p l 10 0 buf = Some (p + length t, b1)" "length b1 = length buf"
        "take (p + length t) b1 = take p buf @ t"
      using ch_ltoa_ok [of 10 p buf l] p by (auto simp: ch_ltoa_def TMPBUF_SIZE_def MAX_FILLER_def t_def)
    have lt: "length t \<le> 10" using word_digits(2) [of l] by (simp add: t_def nat_text_digs)
    define q where "q = p + length t"
    define b2 where "b2 = b1[q := asc CHR ''.'']"
    have q: "q < length b1" "q + 1 + 11 \<le> length b2" using p b1(2) lt by (auto simp: q_def b2_def TMPBUF_SIZE_def MAX_FILLER_def)
    have t2: "take (q + 1) b2 = take p buf @ t @ [asc CHR ''.'']"
      using q(1) b1(3) by (simp add: b2_def take_Suc_conv_app_nth q_def [symmetric])
    have "pow10 ! i div 10 \<noteq> 0" using pow10_nth(2) [OF i(1)] by (metis power_eq_0_iff unat_0 zero_neq_numeral)
    then have n: "Suc i = ndigits (unat (10 :: 32 word)) (unat (if pow10 ! i div 10 = 0 then m else pow10 ! i div 10))" for m
      using pow10_nth(2) [OF i(1)] ndigits_pow10 by simp
    have "num_text (long_to_string_with_divisor (q + 1) m 10 (pow10 ! i div 10) b2) =
        Some (take p buf @ t @ asc CHR ''.'' # digs 10 (Suc i) (unat m))" for m
      using long_to_string_ok [OF _ _ q(2) n, of m] i(1) t2 by (auto simp: num_text_def simp del: digs.simps)
    moreover have "b1[q := 46] = b2" by (simp add: b2_def)
    ultimately show ?thesis using b1(1) q(1)
      by (cases "f_to_long F (f_times_ulong F (f_minus_long F f l) (pow10 ! i))")
        (simp_all add: q_def [symmetric] buf_set_def t_def [symmetric] num_text_def del: digs.simps)
  qed
  ultimately show ?thesis
    unfolding float_text_def Let_def i(3) pow10_nth(1) [OF i(1)]
    by (cases "f_to_long F f") (auto simp: num_text_def map_option_case simp del: digs.simps split: option.splits)
qed

lemma str_part_take: "str_part k s = takeWhile (\<lambda>b. b \<noteq> 0) (take (nat k) s)"
proof (induction k s rule: str_part.induct)
  case (2 k b s)
  show ?case
  proof (cases "k \<le> 0")
    case False
    then have "nat k = Suc (nat (k - 1))" by simp
    then show ?thesis using 2 False by simp
  qed simp
qed simp

lemma sint_neg_unat:
  fixes v :: "32 word"
  shows "sint v < 0 \<Longrightarrow> unat (- v) = nat \<bar>sint v\<bar>" "0 \<le> sint v \<Longrightarrow> unat v = nat \<bar>sint v\<bar>"
    "v = 0x80000000 \<longleftrightarrow> sint v = - (2 ^ 31)"
proof -
  have b: "- (2 ^ 31) \<le> sint v" "sint v < 2 ^ 31" using sint_ge [of v] sint_lt [of v] by simp_all
  have "- v = word_of_int (- sint v)" by simp
  then have "uint (- v) = (- sint v) mod 2 ^ 32" by (simp only: uint_word_of_int) simp
  then show "sint v < 0 \<Longrightarrow> unat (- v) = nat \<bar>sint v\<bar>" using b by (simp add: unat_eq_nat_uint)
  have "uint v = sint v mod 2 ^ 32" by (simp add: uint_sint take_bit_eq_mod)
  then show "0 \<le> sint v \<Longrightarrow> unat v = nat \<bar>sint v\<bar>" using b by (simp add: unat_eq_nat_uint)
  have "sint (0x80000000 :: 32 word) = - (2 ^ 31)" by simp
  then show "v = 0x80000000 \<longleftrightarrow> sint v = - (2 ^ 31)" using signed_word_eqI by metis
qed

lemma command_ok:
  assumes b: "length junk = TMPBUF_SIZE" and pr: "0 \<le> d_precision d"
  shows "command F junk c d ap = command_text F c d ap"
proof -
  have l: "0 < length junk" "11 \<le> length junk" "1 + 11 \<le> length (junk[0 := x])" "length (junk[0 := x]) = TMPBUF_SIZE"
      "take 1 (junk[0 := x]) = [x]" for x
    using b by (cases junk; simp add: TMPBUF_SIZE_def MAX_FILLER_def)+
  have s: "buf_set 0 x junk = Some (junk[0 := x])" for x using l(1) by (simp add: buf_set_def)
  have u: "unsigned_common r junk ap =
      (case ap of Va_int v # ap \<Rightarrow> Some (nat_text (unat r) (unat v), ap) | _ \<Rightarrow> None)" if "r \<in> {8, 10, 16}" for r
    using num_text_ok [OF that, of 0 junk] l(2) by (auto simp: unsigned_common_def split: list.split va_arg.split)
  have i: "(if sint v < 0 then if v = 0x80000000 then None
         else do { t \<leftarrow> buf_set 0 (asc CHR ''-'') junk; num_text (ch_ltoa 1 (- v) 10 t) }
       else num_text (ch_ltoa 0 v 10 junk)) =
     (if sint v = - (2 ^ 31) then None
      else Some ((if sint v < 0 then [asc CHR ''-''] else []) @ nat_text 10 (nat \<bar>sint v\<bar>)))" for v
    using num_text_ok [of 10 1 "junk[0 := asc CHR ''-'']"] num_text_ok [of 10 0 junk] l sint_neg_unat [of v]
    by (simp add: s)
  have f: "(if f_is_neg F f
        then do { t \<leftarrow> buf_set 0 (asc CHR ''-'') junk; num_text (ftoa F 1 (f_negate F f) (d_precision d) t) }
        else num_text (ftoa F 0 f (d_precision d) junk)) =
      (if f_is_neg F f then map_option (Cons (asc CHR ''-'')) (float_text F (f_negate F f) (d_precision d))
       else float_text F f (d_precision d))" for f
    using ftoa_ok [of 1 "junk[0 := asc CHR ''-'']" "d_precision d" F] ftoa_ok [of 0 junk "d_precision d" F] l b pr
    by (simp add: s option.map_ident fun_eq_iff cong: option.map_cong)
  have m: "x \<bind> (\<lambda>t. Some (g t)) = map_option g x" for x and g :: "byte list \<Rightarrow> byte list \<times> byte \<times> 'a va_arg list"
    by (cases x) simp_all
  show ?thesis
    unfolding command_def command_text.simps i f Let_def string_text_def str_part_take null_str_def
    by (simp add: s l l(5) [simplified] u m insert_iff image_iff comp_def option.map_comp
        split: list.split va_arg.split option.split)
qed

lemma put_bytes_foldl: "put_bytes put bs n chp = (n + int (length bs), foldl put chp bs)"
  by (induction bs arbitrary: n chp) simp_all

lemma put_filler_foldl: "put_filler put b w n chp = (n + int w, foldl put chp (replicate w b))"
  by (induction w arbitrary: n chp) simp_all

lemma put_field_ok:
  "put_field put s filler d n chp = (n + int (length (field_text s filler d)), foldl put chp (field_text s filler d))"
proof -
  define w where "w = nat (d_width d) - length s"
  have "(if d_width d - int (length s) < 0 then 0 else d_width d - int (length s)) = int w" by (auto simp: w_def)
  then show ?thesis
    unfolding put_field_def field_text_def w_def [symmetric] Let_def
    by (cases "w = 0"; cases s) (auto simp: put_bytes_foldl put_filler_foldl)
qed

lemma scan_number_nonneg: "scan_number w fmt ap = Some (c, v, fmt', ap') \<Longrightarrow> 0 \<le> w \<Longrightarrow> 0 \<le> v"
  by (induction w fmt ap rule: scan_number.induct)
    (fastforce split: if_splits list.splits va_arg.splits simp: bind_eq_Some_conv add_digit_def)+

lemma scan_directive_nonneg: "scan_directive fmt ap = Some (c, d, fmt', ap') \<Longrightarrow> 0 \<le> d_precision d"
  by (fastforce simp: scan_directive_def Let_def bind_eq_Some_conv split: if_splits dest: scan_number_nonneg)

lemma chvprintf_loop_ok:
  assumes "length junk = TMPBUF_SIZE"
  shows "chvprintf_loop F junk put fmt ap n chp =
    map_option (\<lambda>bs. (n + int (length bs), foldl put chp bs)) (printf_text F fmt ap)"
proof (induction F fmt ap arbitrary: n chp rule: printf_text.induct)
  case (1 F fmt ap)
  show ?case
  proof (cases fmt)
    case (Cons c fmt')
    show ?thesis
    proof (cases "c = 0 \<or> c \<noteq> asc CHR ''%''")
      case True
      then show ?thesis using 1(1) [OF Cons] Cons
        by (auto simp: chvprintf_loop.simps [of _ _ _ "_ # fmt'"] printf_text.simps [of _ "_ # fmt'"] option.map_comp comp_def algebra_simps)
    next
      case c: False
      show ?thesis
      proof (cases "scan_directive fmt' ap")
        case None
        then show ?thesis using c Cons by (simp add: chvprintf_loop.simps [of _ _ _ "_ # fmt'"] printf_text.simps [of _ "_ # fmt'"])
      next
        case (Some r)
        obtain c1 d f1 a1 where r: "r = (c1, d, f1, a1)" by (metis prod.exhaust)
        have cmd: "command F junk c1 d a1 = command_text F c1 d a1"
          using command_ok [OF assms] scan_directive_nonneg Some r by blast
        then show ?thesis
          using 1(2) [OF Cons, of r] c Cons Some r
          by (cases "command_text F c1 d a1")
            (auto simp: chvprintf_loop.simps [of _ _ _ "_ # fmt'"] printf_text.simps [of _ "_ # fmt'"] put_field_ok option.map_comp
              comp_def algebra_simps)
      qed
    qed
  qed (simp add: chvprintf_loop.simps printf_text.simps)
qed

text \<open>
  C22. Formatted output is right, for every format and all arguments: \<open>chvprintf\<close> ends, puts exactly the bytes the format
  stands for on the stream, in order, and returns their number; it fails exactly where the format itself has no meaning.
  The temporary buffer never overflows, whatever it held before: a signed floating-point number with ten digits before
  the point uses it up to the last byte.
\<close>

theorem chvprintf_format:
  assumes "length junk = TMPBUF_SIZE"
  shows "chvprintf F junk put chp fmt ap =
    map_option (\<lambda>bs. (int (length bs), foldl put chp bs)) (printf_text F fmt ap)"
  using chvprintf_loop_ok [OF assms, of F put fmt ap 0 chp] by (simp add: chvprintf_def)

text \<open>Numbers with three decimal places, as an instance of the floating-point operations.\<close>

definition milli :: "int cfloat" where
  "milli = \<lparr>f_is_neg = (\<lambda>f. f < 0), f_negate = uminus, f_to_long = (\<lambda>f. Some (word_of_int (f div 1000))),
            f_minus_long = (\<lambda>f l. f - 1000 * sint l), f_times_ulong = (\<lambda>f u. f * uint u)\<rparr>"

lemma digs_numeral: "digs r (numeral k) n = digs r (pred_numeral k) (n div r) @ [hex_digit (n mod r)]"
  by (simp add: numeral_eq_Suc)

lemma replicate_numeral: "replicate (numeral k) x = x # replicate (pred_numeral k) x"
  by (simp add: numeral_eq_Suc)

lemmas printf_eval = digs_numeral printf_text.simps [of _ "_ # _"] scan_directive_def scan_flag_def buf_get_def scan_long_def command_text.simps
  field_text_def add_digit_def nat_text.simps hex_digit_def milli_def float_text_def string_text_def

theorem chvprintf_format_witness:
  "chvprintf milli (replicate 23 0) (\<lambda>s b. s @ [b]) [] (map asc ''T=%6.2f %04d'' @ [0]) [Va_double (- 3250), Va_int (- 7)] =
   Some (13, map asc ''T= -3.25 -007'')"
  by (subst chvprintf_format) (simp_all add: TMPBUF_SIZE_def MAX_FILLER_def printf_eval replicate_numeral split del: if_split)

subsection \<open>Reading back\<close>

definition digit_val :: "byte \<Rightarrow> nat" where
  "digit_val b = (if b \<le> asc CHR ''9'' then unat b - 48 else unat b - 55)"

definition read_nat :: "nat \<Rightarrow> byte list \<Rightarrow> nat" where
  "read_nat r bs = foldl (\<lambda>a b. a * r + digit_val b) 0 bs"

definition read_int :: "byte list \<Rightarrow> int" where
  "read_int bs = (if bs \<noteq> [] \<and> hd bs = asc CHR ''-'' then - int (read_nat 10 (tl bs)) else int (read_nat 10 bs))"

lemma hex_digit_simps:
  assumes "i < 16"
  shows "digit_val (hex_digit i) = i" "hex_digit i \<noteq> asc CHR ''-''" "asc CHR ''0'' \<le> hex_digit i"
    "i < 10 \<Longrightarrow> hex_digit i \<le> asc CHR ''9''" "hex_digit i = asc CHR ''0'' \<longleftrightarrow> i = 0" "i < 10 \<Longrightarrow> uint (hex_digit i - asc CHR ''0'') = int i"
proof -
  have "list_all (\<lambda>i. digit_val (hex_digit i) = i \<and> hex_digit i \<noteq> asc CHR ''-'' \<and> asc CHR ''0'' \<le> hex_digit i \<and>
      (i < 10 \<longrightarrow> hex_digit i \<le> asc CHR ''9'') \<and> (hex_digit i = asc CHR ''0'' \<longleftrightarrow> i = 0) \<and>
      (i < 10 \<longrightarrow> uint (hex_digit i - asc CHR ''0'') = int i)) [0..<16]"
    by (simp add: upt_rec digit_val_def hex_digit_def)
  from all_digits [OF this assms]
  show "digit_val (hex_digit i) = i" "hex_digit i \<noteq> asc CHR ''-''" "asc CHR ''0'' \<le> hex_digit i"
    "i < 10 \<Longrightarrow> hex_digit i \<le> asc CHR ''9''" "hex_digit i = asc CHR ''0'' \<longleftrightarrow> i = 0" "i < 10 \<Longrightarrow> uint (hex_digit i - asc CHR ''0'') = int i"
    by blast+
qed

lemma read_nat_text: "2 \<le> r \<Longrightarrow> r \<le> 16 \<Longrightarrow> read_nat r (nat_text r n) = n"
proof (induction r n rule: nat_text.induct)
  case (1 r n)
  have "n mod r < 16" using 1(2,3) mod_less_divisor [of r n] by linarith
  then show ?case using 1
    by (cases "n < r") (simp_all add: nat_text.simps [of r n] read_nat_def hex_digit_simps(1))
qed

lemma nat_text_not_Nil [simp]: "nat_text r n \<noteq> []"
  by (simp add: nat_text.simps)

lemma hd_nat_text: "2 \<le> r \<Longrightarrow> r \<le> 16 \<Longrightarrow> \<exists>i < r. hd (nat_text r n) = hex_digit i \<and> (0 < n \<longrightarrow> 0 < i)"
proof (induction r n rule: nat_text.induct)
  case (1 r n)
  then show ?case by (cases "n < r") (auto simp: nat_text.simps [of r n] hd_append div_greater_zero_iff)
qed



subsection \<open>The syntax of directives\<close>

definition directive_text :: "bool \<Rightarrow> bool \<Rightarrow> nat \<Rightarrow> nat \<Rightarrow> byte list" where
  "directive_text left zero w pr =
     (if left then [asc CHR ''-''] else []) @ (if zero then [asc CHR ''0''] else []) @ (if w = 0 then [] else nat_text 10 w) @
     (if pr = 0 then [] else asc CHR ''.'' # nat_text 10 pr)"

lemma nat_text_decimal:
  "\<exists>ds. nat_text 10 n = map hex_digit ds \<and> (\<forall>d \<in> set ds. d < 10) \<and> foldl (\<lambda>a d. a * 10 + d) 0 ds = n"
proof (induction n rule: less_induct)
  case (less n)
  show ?case
  proof (cases "n < 10")
    case False
    then obtain ds where "nat_text 10 (n div 10) = map hex_digit ds" "\<forall>d \<in> set ds. d < 10"
        "foldl (\<lambda>a d. a * 10 + d) 0 ds = n div 10" using less [of "n div 10"] by auto
    then show ?thesis using False
      by (intro exI [of _ "ds @ [n mod 10]"]) (auto simp: nat_text.simps [of 10 n])
  qed (intro exI [of _ "[n]"], simp add: nat_text.simps)
qed

lemma foldl_decimal_ge: "a \<le> foldl (\<lambda>a d. a * 10 + d) a (ds :: nat list)"
proof (induction ds arbitrary: a)
  case (Cons d ds)
  have "a \<le> a * 10 + d" by simp
  also have "\<dots> \<le> foldl (\<lambda>a d. a * 10 + d) (a * 10 + d) ds" by (rule Cons)
  finally show ?case by simp
qed simp

lemma scan_number_digits:
  assumes "\<forall>d \<in> set ds. d < 10" "foldl (\<lambda>a d. a * 10 + d) a ds < 2 ^ 31"
  shows "scan_number (int a) (map hex_digit ds @ fmt) ap = scan_number (int (foldl (\<lambda>a d. a * 10 + d) a ds)) fmt ap"
  using assms
proof (induction ds arbitrary: a)
  case (Cons d ds)
  have "a * 10 + d < 2 ^ 31" using Cons.prems(2) foldl_decimal_ge [of "a * 10 + d" ds] by simp
  then have "add_digit (int a) (hex_digit d - asc CHR ''0'') = Some (int (a * 10 + d))"
    using Cons.prems(1) hex_digit_simps(6) [of d] by (simp add: add_digit_def)
  then show ?case using Cons.prems Cons.IH [of "a * 10 + d"] hex_digit_simps(3,4) [of d] by simp
qed simp

lemma scan_number_text:
  "n < 2 ^ 31 \<Longrightarrow> scan_number 0 (nat_text 10 n @ fmt) ap = scan_number (int n) fmt ap"
  using nat_text_decimal [of n] scan_number_digits [of _ 0 fmt ap] by force

text \<open>
  Directives are read back as they are written: flags, width, precision and a command letter other than the long
  modifier, in this order, are parsed to exactly these values, whatever follows and without taking an argument.
\<close>

theorem directive_roundtrip:
  assumes "w < 2 ^ 31" "pr < 2 ^ 31" "asc CHR ''A'' \<le> c" "c \<noteq> asc CHR ''l''" "c \<noteq> asc CHR ''L''"
  shows "scan_directive (directive_text left zero w pr @ c # fmt) ap =
    Some (c, \<lparr>d_left_align = left, d_filler = (if zero then asc CHR ''0'' else asc CHR '' ''), d_width = int w,
              d_precision = int pr, d_is_long = c \<le> asc CHR ''Z''\<rparr>, fmt, ap)"
proof -
  define t2 where "t2 = (if pr = 0 then [] else asc CHR ''.'' # nat_text 10 pr) @ c # fmt"
  define t1 where "t1 = (if w = 0 then [] else nat_text 10 w) @ t2"
  have c: "\<not> c \<le> asc CHR ''9''" "c \<noteq> asc CHR ''*''" "c \<noteq> asc CHR ''.''" "c \<noteq> asc CHR ''-''" "c \<noteq> asc CHR ''0''"
    using assms(3) by (auto simp: word_le_nat_alt)
  have n: "scan_number v (c # fmt) ap = Some (c, v, fmt, ap)" for v using c by simp
  have s2: "scan_number v t2 ap = Some (if pr = 0 then (c, v, fmt, ap) else (asc CHR ''.'', v, nat_text 10 pr @ c # fmt, ap))" for v
    using n by (simp add: t2_def)
  have spr: "scan_number 0 (nat_text 10 pr @ c # fmt) ap = Some (c, int pr, fmt, ap)"
    using scan_number_text [OF assms(2), of "c # fmt" ap] n by simp
  have s1: "scan_number 0 t1 ap = scan_number (int w) t2 ap" using scan_number_text [OF assms(1), of t2 ap] by (simp add: t1_def)
  have "t1 \<noteq> [] \<and> hd t1 \<noteq> asc CHR ''-'' \<and> hd t1 \<noteq> asc CHR ''0''"
    using hd_nat_text [of 10 w] hex_digit_simps(2,5) c by (auto simp: t1_def t2_def)
  then obtain x xs where x: "t1 = x # xs" "x \<noteq> asc CHR ''-''" "x \<noteq> asc CHR ''0''" by (cases t1) auto
  define a2 where "a2 = (if zero then [asc CHR ''0''] else []) @ t1"
  define a1 where "a1 = (if left then [asc CHR ''-''] else []) @ a2"
  have f: "scan_flag (asc CHR ''-'') a1 = Some (left, a2)" "scan_flag (asc CHR ''0'') a2 = Some (zero, t1)"
    using x by (simp_all add: scan_flag_def buf_get_def a1_def a2_def)
  have "directive_text left zero w pr @ c # fmt = a1" by (simp add: directive_text_def a1_def a2_def t1_def t2_def)
  moreover have "scan_long c fmt = Some (c \<le> asc CHR ''Z'', c, fmt)" using assms(3-5) by (simp add: scan_long_def)
  ultimately show ?thesis
    unfolding scan_directive_def by (simp add: f [simplified] s1 s2 spr c(3) [simplified])
qed

theorem directive_roundtrip_witness:
  "scan_directive (directive_text True False 8 3 @ asc CHR ''d'' # [0]) ([] :: int va_arg list) =
    Some (asc CHR ''d'', \<lparr>d_left_align = True, d_filler = asc CHR '' '', d_width = 8, d_precision = 3, d_is_long = False\<rparr>, [0], [])"
  using directive_roundtrip [of 8 3 "asc CHR ''d''" True False "[0]" "[]"] by simp

text \<open>
  A format that ends in the middle of a directive has no meaning: the scan passes the terminating zero as if it were
  a command character, and goes on behind it.
\<close>

lemma trailing_percent: "chvprintf F junk put chp [asc CHR ''%'', 0] ap = None"
  by (cases "command F junk 0 \<lparr>d_left_align = False, d_filler = asc CHR '' '', d_width = 0, d_precision = 0, d_is_long = False\<rparr> ap")
    (auto simp: chvprintf_def chvprintf_loop.simps [of _ _ _ "_ # _"] chvprintf_loop.simps [of _ _ _ "[]"] scan_directive_def
      scan_flag_def buf_get_def scan_long_def put_field_ok)

end
