(* ===== verification/ChStreams.thy ===== *)
theory ChStreams
  imports ChTypes ChPrintf
begin

text \<open>
  Streams in memory: \<open>memstreams.c\<close>, the null stream of \<open>nullstreams.c\<close>, and \<open>chsnprintf\<close>, which prints to a memory
  stream. Sizes and offsets have 32 bits and their differences wrap. The buffer is the memory from its first byte on; an
  access behind its end is the value \<open>None\<close>.
\<close>

record memory_stream =
  ms_buffer :: "byte list"
  ms_size :: "32 word"
  ms_eos :: "32 word"
  ms_offset :: "32 word"

subsection \<open>Operations\<close>

definition msObjectInit :: "byte list \<Rightarrow> 32 word \<Rightarrow> 32 word \<Rightarrow> memory_stream" where
  "msObjectInit buffer sz eos = \<lparr>ms_buffer = buffer, ms_size = sz, ms_eos = eos, ms_offset = 0\<rparr>"

text \<open>\<open>memcpy\<close> to and from a place in the buffer.\<close>

definition copy_to :: "nat \<Rightarrow> byte list \<Rightarrow> byte list \<Rightarrow> byte list option" where
  "copy_to i bs buf = (if i + length bs \<le> length buf then Some (take i buf @ bs @ drop (i + length bs) buf) else None)"

definition copy_from :: "nat \<Rightarrow> nat \<Rightarrow> byte list \<Rightarrow> byte list option" where
  "copy_from i n buf = (if i + n \<le> length buf then Some (take n (drop i buf)) else None)"

definition ms_writes :: "memory_stream \<Rightarrow> byte list \<Rightarrow> 32 word \<Rightarrow> (32 word \<times> memory_stream) option" where
  "ms_writes msp bp n =
     do { let n = (if ms_size msp - ms_eos msp < n then ms_size msp - ms_eos msp else n);
          bs \<leftarrow> copy_from 0 (unat n) bp;
          buf \<leftarrow> copy_to (unat (ms_eos msp)) bs (ms_buffer msp);
          Some (n, msp\<lparr>ms_buffer := buf, ms_eos := ms_eos msp + n\<rparr>) }"

definition ms_reads :: "memory_stream \<Rightarrow> 32 word \<Rightarrow> (32 word \<times> byte list \<times> memory_stream) option" where
  "ms_reads msp n =
     do { let n = (if ms_eos msp - ms_offset msp < n then ms_eos msp - ms_offset msp else n);
          bs \<leftarrow> copy_from (unat (ms_offset msp)) (unat n) (ms_buffer msp);
          Some (n, bs, msp\<lparr>ms_offset := ms_offset msp + n\<rparr>) }"

definition ms_put :: "memory_stream \<Rightarrow> byte \<Rightarrow> (msg_t \<times> memory_stream) option" where
  "ms_put msp b =
     (if ms_size msp - ms_eos msp \<le> 0 then Some (MSG_RESET, msp)
      else do { buf \<leftarrow> buf_set (unat (ms_eos msp)) b (ms_buffer msp);
                Some (MSG_OK, msp\<lparr>ms_buffer := buf, ms_eos := ms_eos msp + 1\<rparr>) })"

definition ms_get :: "memory_stream \<Rightarrow> (msg_t \<times> memory_stream) option" where
  "ms_get msp =
     (if ms_eos msp - ms_offset msp \<le> 0 then Some (MSG_RESET, msp)
      else do { b \<leftarrow> buf_get (unat (ms_offset msp)) (ms_buffer msp);
                Some (uint b, msp\<lparr>ms_offset := ms_offset msp + 1\<rparr>) })"

definition null_writes :: "byte list \<Rightarrow> 32 word \<Rightarrow> 32 word" where
  "null_writes bp n = n"

definition null_reads :: "32 word \<Rightarrow> 32 word \<times> byte list" where
  "null_reads n = (0, [])"

definition null_put :: "byte \<Rightarrow> msg_t" where
  "null_put b = MSG_OK"

definition null_get :: msg_t where
  "null_get = 4"

text \<open>Printing puts bytes and ignores what putting returns; a stream that went wrong stays wrong.\<close>

definition ms_out :: "memory_stream option \<Rightarrow> byte \<Rightarrow> memory_stream option" where
  "ms_out s b = do { msp \<leftarrow> s; (_, msp) \<leftarrow> ms_put msp b; Some msp }"

definition chsnprintf ::
  "'f cfloat \<Rightarrow> byte list \<Rightarrow> byte list \<Rightarrow> 32 word \<Rightarrow> byte list \<Rightarrow> 'f va_arg list \<Rightarrow> (int \<times> byte list) option" where
  "chsnprintf F junk str sz fmt ap =
     do { let size_wo_nul = (if sz > 0 then sz - 1 else 0);
          let ms = msObjectInit str size_wo_nul 0;
          (retval, s) \<leftarrow> chvprintf F junk ms_out (Some ms) fmt ap;
          ms \<leftarrow> s;
          str \<leftarrow> (if ms_eos ms < sz then buf_set (unat (ms_eos ms)) 0 (ms_buffer ms) else Some (ms_buffer ms));
          Some (retval, str) }"

subsection \<open>A stream that takes bytes\<close>

text \<open>What printing may rely on: as long as a stream has room, it takes the bytes in order.\<close>

locale out_stream =
  fixes ok :: "'s \<Rightarrow> bool" and put :: "'s \<Rightarrow> 8 word \<Rightarrow> 's" and out :: "'s \<Rightarrow> 8 word list" and room :: "'s \<Rightarrow> nat"
  assumes put_ok: "ok s \<Longrightarrow> 0 < room s \<Longrightarrow> ok (put s b)"
    and put_out: "ok s \<Longrightarrow> 0 < room s \<Longrightarrow> out (put s b) = out s @ [b]"
    and put_room: "ok s \<Longrightarrow> 0 < room s \<Longrightarrow> room (put s b) = room s - 1"
begin

lemma takes_all:
  "ok s \<Longrightarrow> length bs \<le> room s \<Longrightarrow>
   ok (foldl put s bs) \<and> out (foldl put s bs) = out s @ bs \<and> room (foldl put s bs) = room s - length bs"
proof (induction bs arbitrary: s)
  case (Cons b bs)
  then have "0 < room s" by auto
  then show ?case using Cons put_ok put_out put_room by simp
qed simp

lemma prints_fitting:
  assumes "ok s" "length junk = TMPBUF_SIZE" "printf_text F fmt ap = Some bs" "length bs \<le> room s"
  shows "\<exists>s'. chvprintf F junk put s fmt ap = Some (int (length bs), s') \<and> ok s' \<and> out s' = out s @ bs"
  using chvprintf_loop_ok [OF assms(2), of F put fmt ap 0 s] assms(3) takes_all [OF assms(1,4)] by (simp add: chvprintf_def)

end

text \<open>A stream that drops what does not fit.\<close>

locale clipping_stream = out_stream +
  assumes put_full: "ok s \<Longrightarrow> room s = 0 \<Longrightarrow> ok (put s b) \<and> out (put s b) = out s \<and> room (put s b) = 0"
begin

lemma drops_rest: "ok s \<Longrightarrow> room s = 0 \<Longrightarrow> ok (foldl put s bs) \<and> out (foldl put s bs) = out s"
  by (induction bs arbitrary: s) (use put_full in auto)

lemma prints:
  assumes "ok s" "length junk = TMPBUF_SIZE" "printf_text F fmt ap = Some bs"
  shows "\<exists>s'. chvprintf F junk put s fmt ap = Some (int (length bs), s') \<and> ok s' \<and> out s' = out s @ take (room s) bs"
proof -
  define s1 where "s1 = foldl put s (take (room s) bs)"
  have s1: "ok s1" "out s1 = out s @ take (room s) bs" "room s1 = room s - length (take (room s) bs)"
    using takes_all [OF assms(1), of "take (room s) bs"] by (simp_all add: s1_def)
  have "foldl put s bs = foldl put s1 (drop (room s) bs)" unfolding s1_def by (metis append_take_drop_id foldl_append)
  moreover have "ok (foldl put s1 (drop (room s) bs)) \<and> out (foldl put s1 (drop (room s) bs)) = out s1"
    using drops_rest [OF s1(1)] s1 by (cases "room s \<le> length bs") auto
  ultimately show ?thesis using chvprintf_loop_ok [OF assms(2), of F put fmt ap 0 s] assms(3) s1(2) by (simp add: chvprintf_def)
qed

end

text \<open>A memory stream over a given memory: it has changed nothing behind the end of the stream.\<close>

definition ms_ok :: "memory_stream \<Rightarrow> bool" where
  "ms_ok msp \<longleftrightarrow> ms_offset msp \<le> ms_eos msp \<and> ms_eos msp \<le> ms_size msp \<and> unat (ms_size msp) \<le> length (ms_buffer msp)"

definition ms_over :: "byte list \<Rightarrow> 32 word \<Rightarrow> memory_stream option \<Rightarrow> bool" where
  "ms_over mem sz s \<longleftrightarrow>
     (\<exists>msp. s = Some msp \<and> ms_ok msp \<and> ms_size msp = sz \<and> length (ms_buffer msp) = length mem \<and>
        drop (unat (ms_eos msp)) (ms_buffer msp) = drop (unat (ms_eos msp)) mem)"

definition ms_text :: "memory_stream \<Rightarrow> byte list" where
  "ms_text msp = take (unat (ms_eos msp)) (ms_buffer msp)"

definition ms_unread :: "memory_stream \<Rightarrow> byte list" where
  "ms_unread msp = drop (unat (ms_offset msp)) (ms_text msp)"

definition ms_room :: "memory_stream \<Rightarrow> nat" where
  "ms_room msp = unat (ms_size msp) - unat (ms_eos msp)"

lemma ms_okD:
  assumes "ms_ok msp"
  shows "unat (ms_eos msp) + ms_room msp = unat (ms_size msp)" "unat (ms_size msp - ms_eos msp) = ms_room msp"
    "unat (ms_size msp) \<le> length (ms_buffer msp)" "unat (ms_eos msp) \<le> length (ms_buffer msp)"
    "unat (ms_offset msp) \<le> unat (ms_eos msp)" "unat (ms_eos msp - ms_offset msp) = length (ms_unread msp)"
  using assms by (auto simp: ms_ok_def ms_room_def word_le_nat_alt unat_sub ms_unread_def ms_text_def)

lemma ms_put_ok:
  assumes "ms_ok msp"
  shows "ms_put msp b = (if ms_room msp = 0 then Some (MSG_RESET, msp)
    else Some (MSG_OK, msp\<lparr>ms_buffer := (ms_buffer msp)[unat (ms_eos msp) := b], ms_eos := ms_eos msp + 1\<rparr>))"
  using ms_okD [OF assms] by (auto simp: ms_put_def buf_set_def unat_eq_zero [symmetric])

lemma unat_grow:
  assumes "unat (a :: 32 word) + n \<le> unat (c :: 32 word)"
  shows "unat (a + of_nat n) = unat a + n"
proof -
  have "unat c < 2 ^ 32" using unsigned_less [of c] by simp
  then have "unat a + n < 2 ^ 32" using assms by linarith
  then show ?thesis by (simp add: unat_word_ariths unat_of_nat)
qed

text \<open>The reading side.\<close>

lemma word_min:
  fixes a n :: "32 word"
  shows "(if a < n then a else n) = of_nat (min (unat n) (unat a))"
    "unat (of_nat (min (unat n) (unat a)) :: 32 word) = min (unat n) (unat a)"
  by (auto simp: word_less_nat_alt min_def)

lemma ms_writes_ok:
  assumes ok: "ms_ok msp" and bp: "unat n \<le> length bp"
  shows "\<exists>msp'. ms_writes msp bp n = Some (of_nat (min (unat n) (ms_room msp)), msp') \<and> ms_ok msp' \<and>
    ms_unread msp' = ms_unread msp @ take (ms_room msp) (take (unat n) bp)"
proof -
  define k where "k = min (unat n) (ms_room msp)"
  have k: "(if ms_size msp - ms_eos msp < n then ms_size msp - ms_eos msp else n) = of_nat k" "unat (of_nat k :: 32 word) = k"
    using word_min [where a = "ms_size msp - ms_eos msp" and n = n] unfolding ms_okD(2) [OF ok] k_def by blast+
  have kb: "k \<le> length bp" using bp by (simp add: k_def)
  define bs where "bs = take k bp"
  let ?e = "unat (ms_eos msp)"
  have bs: "length bs = k" "?e + k \<le> unat (ms_size msp)" using bp ms_okD(1) [OF ok] by (auto simp: bs_def k_def)
  then have e: "unat (ms_eos msp + of_nat k) = ?e + k" using unat_grow by blast
  have "ms_writes msp bp n = Some (of_nat k, msp\<lparr>ms_buffer := take ?e (ms_buffer msp) @ bs @ drop (?e + k) (ms_buffer msp),
      ms_eos := ms_eos msp + of_nat k\<rparr>)"
    using bs kb ms_okD(3) [OF ok] unfolding ms_writes_def k(1) Let_def
    by (simp add: k(2) copy_from_def copy_to_def bs_def [symmetric])
  moreover have "take (ms_room msp) (take (unat n) bp) = bs" by (simp add: bs_def k_def min.commute)
  ultimately show ?thesis using ms_okD [OF ok] bs e unfolding k_def [symmetric]
    by (simp add: ms_ok_def word_le_nat_alt ms_unread_def ms_text_def)
qed

lemma ms_reads_ok:
  assumes ok: "ms_ok msp"
  shows "\<exists>msp'. ms_reads msp n = Some (of_nat (min (unat n) (length (ms_unread msp))), take (unat n) (ms_unread msp), msp') \<and>
    ms_ok msp' \<and> ms_unread msp' = drop (unat n) (ms_unread msp)"
proof -
  define k where "k = min (unat n) (length (ms_unread msp))"
  have k: "(if ms_eos msp - ms_offset msp < n then ms_eos msp - ms_offset msp else n) = of_nat k" "unat (of_nat k :: 32 word) = k"
    using word_min [where a = "ms_eos msp - ms_offset msp" and n = n] unfolding ms_okD(6) [OF ok] k_def by blast+
  let ?o = "unat (ms_offset msp)"
  have le: "?o + k \<le> unat (ms_eos msp)" using ms_okD(4,5) [OF ok] by (auto simp: k_def ms_unread_def ms_text_def)
  then have e: "unat (ms_offset msp + of_nat k) = ?o + k" using unat_grow by blast
  have t: "take k (ms_unread msp) = take (unat n) (ms_unread msp)" "drop k (ms_unread msp) = drop (unat n) (ms_unread msp)"
    by (auto simp: k_def min_def)
  have "take k (drop ?o (ms_buffer msp)) = take k (ms_unread msp)"
    using le by (simp add: ms_unread_def ms_text_def drop_take)
  then have "ms_reads msp n = Some (of_nat k, take (unat n) (ms_unread msp), msp\<lparr>ms_offset := ms_offset msp + of_nat k\<rparr>)"
    using le ms_okD(4) [OF ok] t unfolding ms_reads_def k(1) Let_def by (simp add: k(2) copy_from_def)
  moreover have "ms_unread (msp\<lparr>ms_offset := ms_offset msp + of_nat k\<rparr>) = drop k (ms_unread msp)"
    using e by (simp add: ms_unread_def ms_text_def add.commute)
  moreover have "ms_ok (msp\<lparr>ms_offset := ms_offset msp + of_nat k\<rparr>)" using ok le e by (simp add: ms_ok_def word_le_nat_alt)
  ultimately show ?thesis unfolding k_def [symmetric] t(2) by blast
qed

lemma ms_put_unread:
  assumes ok: "ms_ok msp"
  shows "\<exists>msp'. ms_put msp b = Some (if ms_room msp = 0 then MSG_RESET else MSG_OK, msp') \<and> ms_ok msp' \<and>
    ms_unread msp' = ms_unread msp @ take (ms_room msp) [b]"
proof (cases "ms_room msp = 0")
  case False
  then have "unat (ms_eos msp + 1) = Suc (unat (ms_eos msp))" "Suc (unat (ms_eos msp)) \<le> unat (ms_size msp)"
    using ms_okD(1) [OF ok] unat_grow [of "ms_eos msp" 1 "ms_size msp"] by auto
  then show ?thesis using False ms_put_ok [OF ok, of b] ms_okD [OF ok]
    by (auto simp: ms_ok_def word_le_nat_alt ms_unread_def ms_text_def take_Suc_conv_app_nth)
qed (use ok ms_put_ok [OF ok] in simp)

lemma ms_get_ok:
  assumes ok: "ms_ok msp"
  shows "\<exists>msp'. ms_get msp = Some (if ms_unread msp = [] then MSG_RESET else uint (hd (ms_unread msp)), msp') \<and> ms_ok msp' \<and>
    ms_unread msp' = tl (ms_unread msp)"
proof (cases "ms_unread msp = []")
  case True
  then have "ms_eos msp - ms_offset msp = 0" using ms_okD(6) [OF ok] by (simp add: unat_eq_zero)
  then show ?thesis using True ok by (simp add: ms_get_def)
next
  case False
  let ?o = "unat (ms_offset msp)"
  have lt: "?o < unat (ms_eos msp)" using False ms_okD(4,5) [OF ok] by (auto simp: ms_unread_def ms_text_def)
  then have o: "unat (ms_offset msp + 1) = Suc ?o" "unat (ms_eos msp - ms_offset msp) \<noteq> 0"
    using unat_grow [of "ms_offset msp" 1 "ms_eos msp"] False ms_okD(6) [OF ok] by auto
  have "hd (ms_unread msp) = ms_buffer msp ! ?o" using lt ms_okD(4) [OF ok] by (simp add: ms_unread_def ms_text_def hd_drop_conv_nth)
  then show ?thesis using False lt o ok ms_okD(4) [OF ok]
    by (auto simp: ms_get_def buf_get_def ms_ok_def word_le_nat_alt ms_unread_def ms_text_def tl_drop drop_Suc [symmetric])
qed

text \<open>
  A memory stream is a bounded first-in first-out store: within its well-formedness, which every operation keeps,
  writing appends as many bytes as there is room for and reading takes the oldest unread ones, both returning how many;
  putting and getting one byte do the same and report a reset when there is no room or nothing to read. No
  operation touches memory outside the buffer.
\<close>

theorem memory_stream_fifo:
  assumes ok: "ms_ok msp" and bp: "unat n \<le> length bp"
  shows "(\<exists>msp'. ms_writes msp bp n = Some (of_nat (min (unat n) (ms_room msp)), msp') \<and> ms_ok msp' \<and>
      ms_unread msp' = ms_unread msp @ take (ms_room msp) (take (unat n) bp)) \<and>
    (\<exists>msp'. ms_reads msp n = Some (of_nat (min (unat n) (length (ms_unread msp))), take (unat n) (ms_unread msp), msp') \<and>
      ms_ok msp' \<and> ms_unread msp' = drop (unat n) (ms_unread msp)) \<and>
    (\<exists>msp'. ms_put msp b = Some (if ms_room msp = 0 then MSG_RESET else MSG_OK, msp') \<and> ms_ok msp' \<and>
      ms_unread msp' = ms_unread msp @ take (ms_room msp) [b]) \<and>
    (\<exists>msp'. ms_get msp = Some (if ms_unread msp = [] then MSG_RESET else uint (hd (ms_unread msp)), msp') \<and> ms_ok msp' \<and>
      ms_unread msp' = tl (ms_unread msp))"
  using ms_writes_ok [OF ok bp] ms_reads_ok [OF ok] ms_put_unread [OF ok] ms_get_ok [OF ok] by blast

theorem memory_stream_fifo_witness:
  "\<exists>m. ms_writes (msObjectInit [0, 0, 0] 3 0) [5, 6] 2 = Some (2, m) \<and> ms_unread m = [5, 6]"
  using memory_stream_fifo [of "msObjectInit [0, 0, 0] 3 0" 2 "[5, 6]"]
  by (auto simp: msObjectInit_def ms_ok_def ms_unread_def ms_text_def ms_room_def)

lemma ms_out_ok:
  assumes "ms_over mem sz s"
  shows "ms_over mem sz (ms_out s b) \<and> ms_text (the (ms_out s b)) = ms_text (the s) @ take (ms_room (the s)) [b] \<and>
    ms_room (the (ms_out s b)) = ms_room (the s) - 1"
proof -
  obtain msp where s: "s = Some msp" and ok: "ms_ok msp" and m: "ms_size msp = sz" "length (ms_buffer msp) = length mem"
      "drop (unat (ms_eos msp)) (ms_buffer msp) = drop (unat (ms_eos msp)) mem"
    using assms by (auto simp: ms_over_def)
  show ?thesis
  proof (cases "ms_room msp = 0")
    case True
    then show ?thesis using assms s ms_put_ok [OF ok] by (simp add: ms_out_def)
  next
    case False
    let ?e = "unat (ms_eos msp)"
    have e: "unat (ms_eos msp + 1) = Suc ?e" "?e < length (ms_buffer msp)" "Suc ?e \<le> unat (ms_size msp)"
      using False ms_okD [OF ok] unat_grow [of "ms_eos msp" 1 "ms_size msp"] by auto
    then have "drop (Suc ?e) (ms_buffer msp) = drop (Suc ?e) mem" using m(3) by (metis drop_Suc tl_drop drop_drop plus_1_eq_Suc)
    then show ?thesis using ms_put_ok [OF ok, of b] False s ok e m ms_okD [OF ok]
      by (simp add: ms_out_def ms_over_def ms_ok_def ms_text_def ms_room_def word_le_nat_alt take_Suc_conv_app_nth)
  qed
qed

interpretation ms: clipping_stream "ms_over mem sz" ms_out "\<lambda>s. ms_text (the s)" "\<lambda>s. ms_room (the s)" for mem sz
proof unfold_locales
  fix s b assume s: "ms_over mem sz s"
  note h = ms_out_ok [OF s, of b]
  show "ms_over mem sz (ms_out s b)" "ms_room (the (ms_out s b)) = ms_room (the s) - 1" using h by blast+
  show "0 < ms_room (the s) \<Longrightarrow> ms_text (the (ms_out s b)) = ms_text (the s) @ [b]" using h by (cases "ms_room (the s)") simp_all
  show "ms_room (the s) = 0 \<Longrightarrow> ms_over mem sz (ms_out s b) \<and> ms_text (the (ms_out s b)) = ms_text (the s) \<and>
      ms_room (the (ms_out s b)) = 0" using h by simp
qed

text \<open>
  C23. \<open>chsnprintf\<close> never writes outside the buffer it is given: of the bytes the format stands for it stores those that fit
  in the size less one, and a zero behind them; all other bytes keep their value, and with size 0 nothing is
  written at all. It returns the number of bytes the whole text has.
\<close>

theorem chsnprintf_bounded:
  assumes "length junk = TMPBUF_SIZE" "unat sz \<le> length str" "printf_text F fmt ap = Some bs"
  shows "chsnprintf F junk str sz fmt ap =
    Some (int (length bs), if sz = 0 then str
      else take (unat sz - 1) bs @ 0 # drop (Suc (min (length bs) (unat sz - 1))) str)"
proof -
  define n where "n = (if sz > 0 then sz - 1 else 0)"
  define ms where "ms = msObjectInit str n 0"
  have n: "unat n = unat sz - 1" by (auto simp: n_def unat_minus_one word_gt_0)
  have "ms_over str n (Some ms)" using n assms(2) by (simp add: ms_over_def ms_def msObjectInit_def ms_ok_def)
  from ms.prints [OF this assms(1,3)] obtain s where
      s: "chvprintf F junk ms_out (Some ms) fmt ap = Some (int (length bs), s)" "ms_over str n s"
      "ms_text (the s) = take (unat n) bs"
    by (auto simp: ms_def msObjectInit_def ms_text_def ms_room_def)
  then obtain m where m: "s = Some m" "ms_ok m" "ms_size m = n" "length (ms_buffer m) = length str"
      "drop (unat (ms_eos m)) (ms_buffer m) = drop (unat (ms_eos m)) str" "take (unat (ms_eos m)) (ms_buffer m) = take (unat n) bs"
    by (auto simp: ms_over_def ms_text_def)
  define e where "e = unat (ms_eos m)"
  have e: "e = min (length bs) (unat sz - 1)" "e \<le> length str"
    using arg_cong [OF m(6), of length] ms_okD(4) [OF m(2)] n m(4) by (auto simp: e_def min.commute)
  have buf: "ms_buffer m = take (unat sz - 1) bs @ drop e str" using m(5,6) n e_def by (metis append_take_drop_id)
  show ?thesis
  proof (cases "sz = 0")
    case True
    then show ?thesis using s(1) m(1) buf e(1) by (simp add: chsnprintf_def Let_def n_def ms_def)
  next
    case False
    then have "0 < unat sz" by (simp add: unat_gt_0)
    then have lt: "ms_eos m < sz" "e < length str" using e(1) assms(2) by (auto simp: word_less_nat_alt e_def [symmetric])
    have "length (take (unat sz - 1) bs) = e" using e(1) by simp
    then have "(ms_buffer m)[e := 0] = take (unat sz - 1) bs @ 0 # drop (Suc e) str"
      using lt(2) unfolding buf by (simp add: list_update_append Cons_nth_drop_Suc [symmetric])
    then show ?thesis using s(1) m(1,4) lt False e(1)
      by (simp add: chsnprintf_def Let_def n_def [symmetric] ms_def [symmetric] buf_set_def e_def [symmetric])
  qed
qed

theorem chsnprintf_bounded_witness:
  "chsnprintf milli (replicate 23 0) [9, 9, 9, 9] 3 (map asc ''abcd'' @ [0]) [] = Some (4, map asc ''ab'' @ [0, 9])"
  by (subst chsnprintf_bounded [where bs = "map asc ''abcd''"])
    (simp_all add: TMPBUF_SIZE_def MAX_FILLER_def printf_text.simps [of _ "_ # _"])

end
