(* ===== verification/HalOsal.thy ===== *)
theory HalOsal
  imports ChEvents ChMtx ChVT
begin

text \<open>
  The operating-system abstraction layer through which the drivers of the HAL use the kernel (\<open>osal/rt/osal.h\<close>): every
  function stands for a kernel service. What interrupt handlers of drivers do to finish an operation is shown here once.
\<close>

abbreviation osalSysLock :: "ch_system \<Rightarrow> ch_system option" where
  "osalSysLock \<equiv> chSysLock"

abbreviation osalSysUnlock :: "ch_system \<Rightarrow> ch_system option" where
  "osalSysUnlock \<equiv> chSysUnlock"

abbreviation osalSysLockFromISR :: "ch_system \<Rightarrow> ch_system option" where
  "osalSysLockFromISR \<equiv> chSysLockFromISR"

abbreviation osalSysUnlockFromISR :: "ch_system \<Rightarrow> ch_system option" where
  "osalSysUnlockFromISR \<equiv> chSysUnlockFromISR"

abbreviation osalOsRescheduleS :: "ch_system \<Rightarrow> (unit outcome \<times> ch_system) option" where
  "osalOsRescheduleS \<equiv> chSchRescheduleS"

abbreviation osalThreadSuspendS :: "nat \<Rightarrow> ch_system \<Rightarrow> (msg_t outcome \<times> ch_system) option" where
  "osalThreadSuspendS \<equiv> chThdSuspendS"

abbreviation osalThreadResumeI :: "nat \<Rightarrow> msg_t \<Rightarrow> ch_system \<Rightarrow> ch_system option" where
  "osalThreadResumeI \<equiv> chThdResumeI"

abbreviation osalThreadResumeS :: "nat \<Rightarrow> msg_t \<Rightarrow> ch_system \<Rightarrow> (unit outcome \<times> ch_system) option" where
  "osalThreadResumeS \<equiv> chThdResumeS"

abbreviation osalEventObjectInit :: "nat \<Rightarrow> ch_system \<Rightarrow> ch_system" where
  "osalEventObjectInit \<equiv> chEvtObjectInit"

abbreviation osalEventBroadcastFlagsI :: "nat \<Rightarrow> eventflags_t \<Rightarrow> ch_system \<Rightarrow> ch_system option" where
  "osalEventBroadcastFlagsI \<equiv> chEvtBroadcastFlagsI"

abbreviation osalMutexObjectInit :: "nat \<Rightarrow> ch_system \<Rightarrow> ch_system" where
  "osalMutexObjectInit \<equiv> chMtxObjectInit"

abbreviation osalMutexLock :: "nat \<Rightarrow> ch_system \<Rightarrow> (unit outcome \<times> ch_system) option" where
  "osalMutexLock \<equiv> chMtxLock"

abbreviation osalMutexUnlock :: "nat \<Rightarrow> ch_system \<Rightarrow> (unit outcome \<times> ch_system) option" where
  "osalMutexUnlock \<equiv> chMtxUnlock"

subsection \<open>Ending an operation from its interrupt handler\<close>

text \<open>
  The macros \<open>_adc_wakeup_isr\<close>, \<open>_adc_timeout_isr\<close>, \<open>_spi_wakeup_isr\<close> and their like: the thread that waits for the
  driver, if any, is resumed from the interrupt handler.
\<close>

definition resume_from_isr :: "nat \<Rightarrow> msg_t \<Rightarrow> ch_system \<Rightarrow> ch_system option" where
  "resume_from_isr trp msg k =
     do { k \<leftarrow> osalSysLockFromISR k; k \<leftarrow> osalThreadResumeI trp msg k; osalSysUnlockFromISR k }"

text \<open>A driver operation that starts the hardware and sleeps until the interrupt; \<open>_resume\<close> is what it does then.\<close>

definition suspend_and_unlock :: "nat \<Rightarrow> ch_system \<Rightarrow> (msg_t outcome \<times> ch_system) option" where
  "suspend_and_unlock trp k =
     do { r \<leftarrow> osalThreadSuspendS trp k;
          andthen r (\<lambda>msg k. do { k \<leftarrow> osalSysUnlock k; Some (Done msg, k) }) }"

definition suspend_and_unlock_resume :: "ch_system \<Rightarrow> (msg_t outcome \<times> ch_system) option" where
  "suspend_and_unlock_resume k =
     do { (msg, k) \<leftarrow> chThdSuspendS_resume k; k \<leftarrow> osalSysUnlock k; Some (Done msg, k) }"

definition isr_resumed :: "nat \<Rightarrow> msg_t \<Rightarrow> ch_system \<Rightarrow> ch_system" where
  "isr_resumed trp msg k = (resumed trp msg (k\<lparr>lock_cnt := 1\<rparr>))\<lparr>lock_cnt := 0\<rparr>"

lemma resume_from_isr_eq:
  assumes "kernel_ok k" "class_isr k"
  shows "resume_from_isr trp msg k = Some (isr_resumed trp msg k)"
proof -
  have "kernel_ok (k\<lparr>lock_cnt := 1\<rparr>)" "class_I (k\<lparr>lock_cnt := 1\<rparr>)"
    using assms by (auto simp: class_I_def class_isr_def)
  from chThdResumeI_eq [OF this] show ?thesis
    using chSysLockFromISR_ok [OF assms(2)] chSysUnlockFromISR_ok [of "resumed trp msg (k\<lparr>lock_cnt := 1\<rparr>)"] assms(2)
    by (simp add: resume_from_isr_def isr_resumed_def class_isr_def)
qed

lemma isr_resumed_ok:
  assumes "kernel_ok k" "class_isr k"
  shows "kernel_ok (isr_resumed trp msg k)" "class_isr (isr_resumed trp msg k)" "tref (isr_resumed trp msg k) trp = None"
    "tref k trp = Some t \<Longrightarrow> rdymsg_of t (isr_resumed trp msg k) = Some msg \<and>
       (\<forall>x. state_of (isr_resumed trp msg k) x = (if x = t then CH_STATE_READY else state_of k x))"
    "tref k trp = None \<Longrightarrow> isr_resumed trp msg k = k"
proof -
  have 1: "kernel_ok (k\<lparr>lock_cnt := 1\<rparr>)" using assms(1) by simp
  show "kernel_ok (isr_resumed trp msg k)" using kernel_ok_resumed [OF 1, of trp msg] by (simp add: isr_resumed_def)
  show "class_isr (isr_resumed trp msg k)" "tref (isr_resumed trp msg k) trp = None"
    using assms(2) by (simp_all add: isr_resumed_def class_isr_def)
  show "tref k trp = Some t \<Longrightarrow> rdymsg_of t (isr_resumed trp msg k) = Some msg \<and>
       (\<forall>x. state_of (isr_resumed trp msg k) x = (if x = t then CH_STATE_READY else state_of k x))"
    by (simp add: isr_resumed_def resumed_def rdymsg_of_def)
  show "tref k trp = None \<Longrightarrow> isr_resumed trp msg k = k"
    using assms(2) by (simp add: isr_resumed_def resumed_def class_isr_def)
qed

text \<open>Suspending: the caller sleeps with the reference naming it, and everything else is as it was.\<close>

lemma suspend_and_unlock_sleeps:
  assumes ok: "kernel_ok k" and S: "class_S k" and ne: "queues k Q_RLIST \<noteq> []" and free: "tref k trp = None"
  shows "\<exists>k'. suspend_and_unlock trp k = Some (Switched, k') \<and> kernel_ok k' \<and> class_S k' \<and> tref k' trp = Some (r_current k) \<and>
    state_of k' (r_current k) = CH_STATE_SUSPENDED"
proof -
  let ?c = "r_current k"
  let ?k = "set_pu ?c (Wttrp trp) (k\<lparr>tref := (tref k)(trp := Some ?c)\<rparr>)"
  have "chThdSuspendS trp k = Some (Switched, sleeping CH_STATE_SUSPENDED ?k)"
    using chSchGoSleepS_eq [of ?k CH_STATE_SUSPENDED] S ne free by (simp add: chThdSuspendS_def chThdGetSelfX_def Let_def)
  moreover have "kernel_ok (sleeping CH_STATE_SUSPENDED ?k)"
    using ok ne free by (intro kernel_ok_sleeping [OF ok ne]) (auto simp: waits_at_def)
  moreover have "r_current k \<noteq> hd (queues k Q_RLIST)"
    using sched_okD(2) [OF kernel_okD(1) [OF ok]] ne by (metis hd_in_set unqueued_def)
  ultimately show ?thesis using S by (simp add: suspend_and_unlock_def class_S_def)
qed

lemma kernel_ok_isr_cnt [simp]: "kernel_ok (k\<lparr>isr_cnt := n\<rparr>) = kernel_ok k"
proof
  assume "kernel_ok (k\<lparr>isr_cnt := n\<rparr>)"
  then show "kernel_ok k" by (rule kernel_ok_cong [rotated 7]) simp_all
next
  assume "kernel_ok k"
  then show "kernel_ok (k\<lparr>isr_cnt := n\<rparr>)" by (rule kernel_ok_cong [rotated 7]) simp_all
qed

text \<open>An idle system, seen from a thread and from an interrupt handler.\<close>

lemma sys0_idle: "kernel_ok sys0" "class_thread sys0" "queues sys0 Q_RLIST \<noteq> []" "tref sys0 r = None" "r_current sys0 = 0"
  using sys0_kernel_ok sys0_facts(1) by simp_all (simp_all add: sys0_def class_thread_def)

lemma sys0_isr: "kernel_ok (sys0\<lparr>isr_cnt := 1\<rparr>)" "class_isr (sys0\<lparr>isr_cnt := 1\<rparr>)"
  using sys0_idle(1,2) by (simp_all add: class_isr_def class_thread_def)

end
