(* ===== verification/HalAdc.thy ===== *)
theory HalAdc
  imports HalOsal
begin

text \<open>
  The analog-to-digital converter driver: \<open>adc.c\<close>, the interrupt macros of \<open>adc.h\<close> and the interrupt handlers of
  the STM32F4 port that use them. The low-level driver works on registers: its functions are the parameter \<open>L\<close> and act on
  the part \<open>a_hw\<close> of the driver only, as those of the port do. Callbacks are application code: a conversion group
  names them by a number and the parameter \<open>cb\<close> says what calling them does to driver and kernel.
\<close>

datatype adcstate_t = ADC_UNINIT | ADC_STOP | ADC_READY | ADC_ACTIVE | ADC_COMPLETE | ADC_ERROR

record adc_group =
  circular :: bool
  num_channels :: nat
  end_cb :: "nat option"
  error_cb :: "nat option"

text \<open>\<open>a_samples\<close> is an address; \<open>a_thread\<close> and \<open>a_mutex\<close> are the thread reference and the mutex in the driver.\<close>

record 'h adc_driver =
  a_state :: adcstate_t
  a_samples :: nat
  a_depth :: nat
  a_grpp :: "adc_group option"
  a_thread :: nat
  a_mutex :: nat
  a_hw :: 'h

record 'h adc_lld =
  adc_lld_start :: "'h adc_driver \<Rightarrow> 'h option"
  adc_lld_stop :: "'h adc_driver \<Rightarrow> 'h"
  adc_lld_start_conversion :: "'h adc_driver \<Rightarrow> 'h"
  adc_lld_stop_conversion :: "'h adc_driver \<Rightarrow> 'h"

text \<open>A call of an end callback passes an address and a number of rows, one of an error callback the error.\<close>

datatype adc_event = Adc_end nat nat | Adc_err nat

type_synonym 'h adc_cb = "nat \<Rightarrow> adc_event \<Rightarrow> 'h adc_driver \<Rightarrow> ch_system \<Rightarrow> ('h adc_driver \<times> ch_system) option"

unbundle bit_operations_syntax

subsection \<open>Operations\<close>

definition adcObjectInit :: "'h adc_driver \<Rightarrow> ch_system \<Rightarrow> 'h adc_driver \<times> ch_system" where
  "adcObjectInit adcp k =
     (adcp\<lparr>a_state := ADC_STOP, a_samples := 0, a_depth := 0, a_grpp := None\<rparr>,
      osalMutexObjectInit (a_mutex adcp) (k\<lparr>tref := (tref k)(a_thread adcp := None)\<rparr>))"

definition adcStart :: "'h adc_lld \<Rightarrow> 'h adc_driver \<Rightarrow> ch_system \<Rightarrow> ('h adc_driver \<times> ch_system) option" where
  "adcStart L adcp k =
     do { k \<leftarrow> osalSysLock k;
          assert_that (a_state adcp = ADC_STOP \<or> a_state adcp = ADC_READY);
          h \<leftarrow> adc_lld_start L adcp;
          let adcp = adcp\<lparr>a_hw := h, a_state := ADC_READY\<rparr>;
          k \<leftarrow> osalSysUnlock k;
          Some (adcp, k) }"

definition adcStop :: "'h adc_lld \<Rightarrow> 'h adc_driver \<Rightarrow> ch_system \<Rightarrow> ('h adc_driver \<times> ch_system) option" where
  "adcStop L adcp k =
     do { k \<leftarrow> osalSysLock k;
          assert_that (a_state adcp = ADC_STOP \<or> a_state adcp = ADC_READY);
          let adcp = adcp\<lparr>a_hw := adc_lld_stop L adcp, a_state := ADC_STOP\<rparr>;
          k \<leftarrow> osalSysUnlock k;
          Some (adcp, k) }"

definition adcStartConversionI ::
  "'h adc_lld \<Rightarrow> adc_group \<Rightarrow> nat \<Rightarrow> nat \<Rightarrow> 'h adc_driver \<Rightarrow> ch_system \<Rightarrow> 'h adc_driver option" where
  "adcStartConversionI L grpp samples depth adcp k =
     do { chDbgCheckClassI k;
          assert_that (depth = 1 \<or> even depth);
          assert_that (a_state adcp = ADC_READY \<or> a_state adcp = ADC_COMPLETE \<or> a_state adcp = ADC_ERROR);
          let adcp = adcp\<lparr>a_samples := samples, a_depth := depth, a_grpp := Some grpp, a_state := ADC_ACTIVE\<rparr>;
          Some (adcp\<lparr>a_hw := adc_lld_start_conversion L adcp\<rparr>) }"

definition adcStartConversion ::
  "'h adc_lld \<Rightarrow> adc_group \<Rightarrow> nat \<Rightarrow> nat \<Rightarrow> 'h adc_driver \<Rightarrow> ch_system \<Rightarrow> ('h adc_driver \<times> ch_system) option" where
  "adcStartConversion L grpp samples depth adcp k =
     do { k \<leftarrow> osalSysLock k;
          adcp \<leftarrow> adcStartConversionI L grpp samples depth adcp k;
          k \<leftarrow> osalSysUnlock k;
          Some (adcp, k) }"

definition adcStopConversion ::
  "'h adc_lld \<Rightarrow> 'h adc_driver \<Rightarrow> ch_system \<Rightarrow> (unit outcome \<times> 'h adc_driver \<times> ch_system) option" where
  "adcStopConversion L adcp k =
     do { k \<leftarrow> osalSysLock k;
          assert_that (a_state adcp = ADC_READY \<or> a_state adcp = ADC_ACTIVE);
          if a_state adcp \<noteq> ADC_READY
          then do { let adcp = adcp\<lparr>a_hw := adc_lld_stop_conversion L adcp, a_grpp := None, a_state := ADC_READY\<rparr>;
                    r \<leftarrow> osalThreadResumeS (a_thread adcp) MSG_RESET k;
                    (out, k) \<leftarrow> andthen r (\<lambda>_ k. do { k \<leftarrow> osalSysUnlock k; Some (Done (), k) });
                    Some (out, adcp, k) }
          else do { k \<leftarrow> osalSysUnlock k; Some (Done (), adcp, k) } }"

definition adcStopConversionI ::
  "'h adc_lld \<Rightarrow> 'h adc_driver \<Rightarrow> ch_system \<Rightarrow> ('h adc_driver \<times> ch_system) option" where
  "adcStopConversionI L adcp k =
     do { chDbgCheckClassI k;
          assert_that (a_state adcp = ADC_READY \<or> a_state adcp = ADC_ACTIVE \<or> a_state adcp = ADC_COMPLETE);
          if a_state adcp \<noteq> ADC_READY
          then do { let adcp = adcp\<lparr>a_hw := adc_lld_stop_conversion L adcp, a_grpp := None, a_state := ADC_READY\<rparr>;
                    k \<leftarrow> osalThreadResumeI (a_thread adcp) MSG_RESET k;
                    Some (adcp, k) }
          else Some (adcp, k) }"

definition adcConvert ::
  "'h adc_lld \<Rightarrow> adc_group \<Rightarrow> nat \<Rightarrow> nat \<Rightarrow> 'h adc_driver \<Rightarrow> ch_system \<Rightarrow> (msg_t outcome \<times> 'h adc_driver \<times> ch_system) option" where
  "adcConvert L grpp samples depth adcp k =
     do { k \<leftarrow> osalSysLock k;
          assert_that (tref k (a_thread adcp) = None);
          adcp \<leftarrow> adcStartConversionI L grpp samples depth adcp k;
          (out, k) \<leftarrow> suspend_and_unlock (a_thread adcp) k;
          Some (out, adcp, k) }"

definition adcAcquireBus :: "'h adc_driver \<Rightarrow> ch_system \<Rightarrow> (unit outcome \<times> ch_system) option" where
  "adcAcquireBus adcp k = osalMutexLock (a_mutex adcp) k"

definition adcReleaseBus :: "'h adc_driver \<Rightarrow> ch_system \<Rightarrow> (unit outcome \<times> ch_system) option" where
  "adcReleaseBus adcp k = osalMutexUnlock (a_mutex adcp) k"

subsection \<open>Interrupts\<close>

definition adc_call :: "'h adc_cb \<Rightarrow> nat option \<Rightarrow> adc_event \<Rightarrow> 'h adc_driver \<Rightarrow> ch_system \<Rightarrow> ('h adc_driver \<times> ch_system) option" where
  "adc_call cb f e adcp k = (case f of None \<Rightarrow> Some (adcp, k) | Some f \<Rightarrow> cb f e adcp k)"

definition adc_isr_half_code :: "'h adc_cb \<Rightarrow> 'h adc_driver \<Rightarrow> ch_system \<Rightarrow> ('h adc_driver \<times> ch_system) option" where
  "adc_isr_half_code cb adcp k =
     do { g \<leftarrow> a_grpp adcp; adc_call cb (end_cb g) (Adc_end (a_samples adcp) (a_depth adcp div 2)) adcp k }"

definition adc_isr_full_code :: "'h adc_lld \<Rightarrow> 'h adc_cb \<Rightarrow> 'h adc_driver \<Rightarrow> ch_system \<Rightarrow> ('h adc_driver \<times> ch_system) option" where
  "adc_isr_full_code L cb adcp k =
     do { g \<leftarrow> a_grpp adcp;
          if circular g
          then (if a_depth adcp > 1
                then (let half = a_depth adcp div 2; half_index = half * num_channels g
                      in adc_call cb (end_cb g) (Adc_end (a_samples adcp + half_index) half) adcp k)
                else adc_call cb (end_cb g) (Adc_end (a_samples adcp) (a_depth adcp)) adcp k)
          else do { let adcp = adcp\<lparr>a_hw := adc_lld_stop_conversion L adcp\<rparr>;
                    (adcp, k) \<leftarrow>
                      (if end_cb g \<noteq> None
                       then do { let adcp = adcp\<lparr>a_state := ADC_COMPLETE\<rparr>;
                                 (adcp, k) \<leftarrow> adc_call cb (end_cb g) (Adc_end (a_samples adcp) (a_depth adcp)) adcp k;
                                 if a_state adcp = ADC_COMPLETE
                                 then Some (adcp\<lparr>a_state := ADC_READY, a_grpp := None\<rparr>, k) else Some (adcp, k) }
                       else Some (adcp\<lparr>a_state := ADC_READY, a_grpp := None\<rparr>, k));
                    k \<leftarrow> resume_from_isr (a_thread adcp) MSG_OK k;
                    Some (adcp, k) } }"

definition adc_isr_error_code ::
  "'h adc_lld \<Rightarrow> 'h adc_cb \<Rightarrow> nat \<Rightarrow> 'h adc_driver \<Rightarrow> ch_system \<Rightarrow> ('h adc_driver \<times> ch_system) option" where
  "adc_isr_error_code L cb err adcp k =
     do { g \<leftarrow> a_grpp adcp;
          let adcp = adcp\<lparr>a_hw := adc_lld_stop_conversion L adcp\<rparr>;
          (adcp, k) \<leftarrow>
            (if error_cb g \<noteq> None
             then do { let adcp = adcp\<lparr>a_state := ADC_ERROR\<rparr>;
                       (adcp, k) \<leftarrow> adc_call cb (error_cb g) (Adc_err err) adcp k;
                       if a_state adcp = ADC_ERROR then Some (adcp\<lparr>a_state := ADC_READY\<rparr>, k) else Some (adcp, k) }
             else Some (adcp, k));
          let adcp = adcp\<lparr>a_grpp := None\<rparr>;
          k \<leftarrow> resume_from_isr (a_thread adcp) MSG_TIMEOUT k;
          Some (adcp, k) }"

text \<open>The flags of the DMA controller and its interrupt handler in the port.\<close>

definition STM32_DMA_ISR_DMEIF :: "32 word" where "STM32_DMA_ISR_DMEIF = 4"
definition STM32_DMA_ISR_TEIF :: "32 word" where "STM32_DMA_ISR_TEIF = 8"
definition STM32_DMA_ISR_HTIF :: "32 word" where "STM32_DMA_ISR_HTIF = 16"
definition STM32_DMA_ISR_TCIF :: "32 word" where "STM32_DMA_ISR_TCIF = 32"
definition ADC_ERR_DMAFAILURE :: nat where "ADC_ERR_DMAFAILURE = 0"

definition adc_lld_serve_rx_interrupt ::
  "'h adc_lld \<Rightarrow> 'h adc_cb \<Rightarrow> 32 word \<Rightarrow> 'h adc_driver \<Rightarrow> ch_system \<Rightarrow> ('h adc_driver \<times> ch_system) option" where
  "adc_lld_serve_rx_interrupt L cb flags adcp k =
     (if flags AND (STM32_DMA_ISR_TEIF OR STM32_DMA_ISR_DMEIF) \<noteq> 0 then adc_isr_error_code L cb ADC_ERR_DMAFAILURE adcp k
      else if a_grpp adcp \<noteq> None
      then (if flags AND STM32_DMA_ISR_TCIF \<noteq> 0 then adc_isr_full_code L cb adcp k
            else if flags AND STM32_DMA_ISR_HTIF \<noteq> 0 then adc_isr_half_code cb adcp k
            else Some (adcp, k))
      else Some (adcp, k))"

lemmas dma_flags = STM32_DMA_ISR_DMEIF_def STM32_DMA_ISR_TEIF_def STM32_DMA_ISR_HTIF_def STM32_DMA_ISR_TCIF_def

subsection \<open>Conversions\<close>

definition converting :: "'h adc_lld \<Rightarrow> adc_group \<Rightarrow> nat \<Rightarrow> nat \<Rightarrow> 'h adc_driver \<Rightarrow> 'h adc_driver" where
  "converting L g samples depth adcp =
     (let adcp = adcp\<lparr>a_samples := samples, a_depth := depth, a_grpp := Some g, a_state := ADC_ACTIVE\<rparr>
      in adcp\<lparr>a_hw := adc_lld_start_conversion L adcp\<rparr>)"

lemma converting_simps [simp]:
  "a_state (converting L g s n d) = ADC_ACTIVE" "a_grpp (converting L g s n d) = Some g" "a_thread (converting L g s n d) = a_thread d"
  "a_samples (converting L g s n d) = s" "a_depth (converting L g s n d) = n"
  by (simp_all add: converting_def Let_def)

lemma adcStartConversionI_eq:
  assumes "class_I k" "n = 1 \<or> even n" "a_state d \<in> {ADC_READY, ADC_COMPLETE, ADC_ERROR}"
  shows "adcStartConversionI L g s n d k = Some (converting L g s n d)"
  using assms by (auto simp: adcStartConversionI_def converting_def Let_def)

lemma adcConvert_sleeps:
  assumes ok: "kernel_ok k" and T: "class_thread k" and ne: "queues k Q_RLIST \<noteq> []" and free: "tref k (a_thread d) = None"
    and n: "n = 1 \<or> even n" and st: "a_state d = ADC_READY"
  shows "\<exists>k1. adcConvert L g s n d k = Some (Switched, converting L g s n d, k1) \<and> kernel_ok k1 \<and> class_S k1 \<and>
    tref k1 (a_thread d) = Some (r_current k) \<and> state_of k1 (r_current k) = CH_STATE_SUSPENDED"
proof -
  let ?k = "k\<lparr>lock_cnt := 1\<rparr>"
  have k: "kernel_ok ?k" "class_S ?k" "queues ?k Q_RLIST \<noteq> []" "tref ?k (a_thread d) = None"
    using ok T ne free by (simp_all add: class_thread_def class_S_def)
  have "adcStartConversionI L g s n d ?k = Some (converting L g s n d)"
    using adcStartConversionI_eq [OF class_S_I [OF k(2)] n, of d L g s] st by simp
  then show ?thesis using suspend_and_unlock_sleeps [OF k] chSysLock_ok [OF T] free by (auto simp: adcConvert_def)
qed


text \<open>
  An error without an error callback leaves the driver unusable. The waiting thread gets \<open>MSG_TIMEOUT\<close>, but the
  driver stays in its active state without a conversion group: starting a conversion, converting and stopping the
  driver all fail their assertion from then on, in every kernel state.
\<close>

theorem adc_error_without_callback:
  assumes "kernel_ok k" "class_isr k" "a_state d = ADC_ACTIVE" "a_grpp d = Some g" "error_cb g = None"
  shows "\<exists>d' k'. adc_lld_serve_rx_interrupt L cb STM32_DMA_ISR_TEIF d k = Some (d', k') \<and> kernel_ok k' \<and>
    a_state d' = ADC_ACTIVE \<and> a_grpp d' = None \<and>
    (\<forall>k g s n. adcStartConversion L g s n d' k = None \<and> adcConvert L g s n d' k = None \<and> adcStop L d' k = None)"
proof -
  let ?d = "d\<lparr>a_hw := adc_lld_stop_conversion L d, a_grpp := None\<rparr>"
  have "adc_lld_serve_rx_interrupt L cb STM32_DMA_ISR_TEIF d k = Some (?d, isr_resumed (a_thread d) MSG_TIMEOUT k)"
    using resume_from_isr_eq [OF assms(1,2)] assms(4,5)
    by (simp add: adc_lld_serve_rx_interrupt_def adc_isr_error_code_def dma_flags Let_def)
  moreover have "adcStartConversionI L g s n ?d k = None" for g s n k
    using assms(3) by (auto simp: adcStartConversionI_def assert_that_def)
  then have "adcStartConversion L g s n ?d k = None \<and> adcConvert L g s n ?d k = None \<and> adcStop L ?d k = None" for g s n k
    using assms(3) by (auto simp: adcStartConversion_def adcConvert_def adcStop_def assert_that_def bind_eq_None_conv)
  ultimately show ?thesis using isr_resumed_ok(1) [OF assms(1,2)] assms(3) by (intro exI [of _ ?d] exI conjI) auto
qed

text \<open>A low-level driver that counts what is asked of it, and an idle driver on it.\<close>

definition adc_lld0 :: "nat adc_lld" where
  "adc_lld0 = \<lparr>adc_lld_start = Some \<circ> a_hw, adc_lld_stop = a_hw, adc_lld_start_conversion = Suc \<circ> a_hw,
               adc_lld_stop_conversion = Suc \<circ> a_hw\<rparr>"

definition adc0 :: "nat adc_driver" where
  "adc0 = \<lparr>a_state = ADC_READY, a_samples = 0, a_depth = 0, a_grpp = None, a_thread = 5, a_mutex = 9, a_hw = 0\<rparr>"

definition adc_group0 :: adc_group where
  "adc_group0 = \<lparr>circular = False, num_channels = 1, end_cb = None, error_cb = None\<rparr>"


theorem adc_error_without_callback_witness:
  "\<exists>d' k'. adc_lld_serve_rx_interrupt adc_lld0 (\<lambda>_ _ _ _. None) STM32_DMA_ISR_TEIF
      (converting adc_lld0 adc_group0 1000 4 adc0) (sys0\<lparr>isr_cnt := 1\<rparr>) = Some (d', k') \<and>
     (\<forall>k. adcConvert adc_lld0 adc_group0 1000 4 d' k = None)"
proof -
  from adc_error_without_callback [OF sys0_isr, of "converting adc_lld0 adc_group0 1000 4 adc0" adc_group0 adc_lld0]
  show ?thesis by (fastforce simp: adc_group0_def)
qed

text \<open>An application callback that starts the next conversion.\<close>

definition restart_cb :: "'h adc_lld \<Rightarrow> adc_group \<Rightarrow> nat \<Rightarrow> nat \<Rightarrow> 'h adc_cb" where
  "restart_cb L g s n f e d k =
     do { k \<leftarrow> osalSysLockFromISR k; d \<leftarrow> adcStartConversionI L g s n d k; k \<leftarrow> osalSysUnlockFromISR k; Some (d, k) }"

lemma restart_cb_eq:
  assumes "class_isr k" "n = 1 \<or> even n" "a_state d \<in> {ADC_READY, ADC_COMPLETE, ADC_ERROR}"
  shows "restart_cb L g s n f e d k = Some (converting L g s n d, k)"
proof -
  have "class_I (k\<lparr>lock_cnt := 1\<rparr>)" using assms(1) by (simp add: class_isr_def class_I_def)
  then show ?thesis
    using adcStartConversionI_eq [OF _ assms(2,3), of _ L g s] chSysLockFromISR_ok [OF assms(1)] chSysUnlockFromISR_ok assms(1)
    by (simp add: restart_cb_def class_isr_def)
qed

text \<open>
  Restarting a conversion from the callbacks. From the end callback it works: the driver is active with the new
  group when the interrupt handler is done. From the error callback, where starting is allowed just the same,
  the handler takes the group away afterwards, and all later interrupts without an error are ignored: the
  restarted conversion never ends.
\<close>

theorem adc_restart_from_callbacks:
  assumes "kernel_ok k" "class_isr k" "a_state d = ADC_ACTIVE" "a_grpp d = Some g" "\<not> circular g"
    and "end_cb g = Some f" "error_cb g = Some f" "n = 1 \<or> even n"
  shows "(\<exists>d' k'. adc_lld_serve_rx_interrupt L (restart_cb L g s n) STM32_DMA_ISR_TCIF d k = Some (d', k') \<and> kernel_ok k' \<and>
      a_state d' = ADC_ACTIVE \<and> a_grpp d' = Some g) \<and>
    (\<exists>d' k'. adc_lld_serve_rx_interrupt L (restart_cb L g s n) STM32_DMA_ISR_TEIF d k = Some (d', k') \<and> kernel_ok k' \<and>
      a_state d' = ADC_ACTIVE \<and> a_grpp d' = None \<and>
      (\<forall>cb flags k. flags AND (STM32_DMA_ISR_TEIF OR STM32_DMA_ISR_DMEIF) = 0 \<longrightarrow>
         adc_lld_serve_rx_interrupt L cb flags d' k = Some (d', k)))"
proof -
  note r = restart_cb_eq [OF assms(2,8)] and w = resume_from_isr_eq [OF assms(1,2)] and ok = isr_resumed_ok(1) [OF assms(1,2)]
  let ?d = "\<lambda>st. converting L g s n (d\<lparr>a_hw := adc_lld_stop_conversion L d, a_state := st\<rparr>)"
  have "adc_lld_serve_rx_interrupt L (restart_cb L g s n) STM32_DMA_ISR_TCIF d k =
      Some (?d ADC_COMPLETE, isr_resumed (a_thread d) MSG_OK k)"
    using assms(4-7) w by (simp add: r adc_lld_serve_rx_interrupt_def adc_isr_full_code_def adc_call_def dma_flags Let_def)
  moreover have "adc_lld_serve_rx_interrupt L (restart_cb L g s n) STM32_DMA_ISR_TEIF d k =
      Some (?d ADC_ERROR\<lparr>a_grpp := None\<rparr>, isr_resumed (a_thread d) MSG_TIMEOUT k)"
    using assms(4-7) w by (simp add: r adc_lld_serve_rx_interrupt_def adc_isr_error_code_def adc_call_def dma_flags Let_def)
  moreover have "adc_lld_serve_rx_interrupt L cb flags (?d ADC_ERROR\<lparr>a_grpp := None\<rparr>) k = Some (?d ADC_ERROR\<lparr>a_grpp := None\<rparr>, k)"
    if "flags AND (STM32_DMA_ISR_TEIF OR STM32_DMA_ISR_DMEIF) = 0" for cb flags k
    using that by (simp add: adc_lld_serve_rx_interrupt_def)
  ultimately show ?thesis using ok by simp
qed

theorem adc_restart_from_callbacks_witness:
  "\<exists>d' k'. adc_lld_serve_rx_interrupt adc_lld0 (restart_cb adc_lld0 (adc_group0\<lparr>end_cb := Some 0, error_cb := Some 0\<rparr>) 1000 4)
      STM32_DMA_ISR_TEIF (converting adc_lld0 (adc_group0\<lparr>end_cb := Some 0, error_cb := Some 0\<rparr>) 1000 4 adc0)
      (sys0\<lparr>isr_cnt := 1\<rparr>) = Some (d', k') \<and> a_state d' = ADC_ACTIVE \<and> a_grpp d' = None"
proof -
  from adc_restart_from_callbacks [OF sys0_isr, of "converting adc_lld0 (adc_group0\<lparr>end_cb := Some 0, error_cb := Some 0\<rparr>) 1000 4 adc0"
      "adc_group0\<lparr>end_cb := Some 0, error_cb := Some 0\<rparr>" 0 4 adc_lld0 1000]
  show ?thesis by (auto simp: adc_group0_def)
qed

end
