(* ===== verification/HalSpi.thy ===== *)
theory HalSpi
  imports HalOsal
begin

text \<open>
  The SPI driver: \<open>spi.c\<close> and the macros of \<open>spi.h\<close>. The low-level driver is the parameter \<open>L\<close>, which works on the part
  \<open>sp_hw\<close> of the driver; buffers are addresses. The end callback is part of the configuration; what calling it does
  is the parameter \<open>cb\<close>.
\<close>

datatype spistate_t = SPI_UNINIT | SPI_STOP | SPI_READY | SPI_ACTIVE | SPI_COMPLETE

record spi_config =
  spi_end_cb :: "nat option"

record 'h spi_driver =
  sp_state :: spistate_t
  sp_config :: "spi_config option"
  sp_thread :: nat
  sp_mutex :: nat
  sp_hw :: 'h

datatype transfer = Spi_ignore nat | Spi_exchange nat nat nat | Spi_send nat nat | Spi_receive nat nat

record 'h spi_lld =
  spi_lld_start :: "'h spi_driver \<Rightarrow> 'h option"
  spi_lld_stop :: "'h spi_driver \<Rightarrow> 'h"
  spi_lld_select :: "'h spi_driver \<Rightarrow> 'h"
  spi_lld_unselect :: "'h spi_driver \<Rightarrow> 'h"
  spi_lld_transfer :: "transfer \<Rightarrow> 'h spi_driver \<Rightarrow> 'h"

type_synonym 'h spi_cb = "nat \<Rightarrow> 'h spi_driver \<Rightarrow> ch_system \<Rightarrow> ('h spi_driver \<times> ch_system) option"

subsection \<open>Operations\<close>

definition spiObjectInit :: "'h spi_driver \<Rightarrow> ch_system \<Rightarrow> 'h spi_driver \<times> ch_system" where
  "spiObjectInit spip k =
     (spip\<lparr>sp_state := SPI_STOP, sp_config := None\<rparr>,
      osalMutexObjectInit (sp_mutex spip) (k\<lparr>tref := (tref k)(sp_thread spip := None)\<rparr>))"

definition spiStart :: "'h spi_lld \<Rightarrow> spi_config \<Rightarrow> 'h spi_driver \<Rightarrow> ch_system \<Rightarrow> ('h spi_driver \<times> ch_system) option" where
  "spiStart L config spip k =
     do { k \<leftarrow> osalSysLock k;
          assert_that (sp_state spip = SPI_STOP \<or> sp_state spip = SPI_READY);
          let spip = spip\<lparr>sp_config := Some config\<rparr>;
          h \<leftarrow> spi_lld_start L spip;
          let spip = spip\<lparr>sp_hw := h, sp_state := SPI_READY\<rparr>;
          k \<leftarrow> osalSysUnlock k;
          Some (spip, k) }"

definition spiStop :: "'h spi_lld \<Rightarrow> 'h spi_driver \<Rightarrow> ch_system \<Rightarrow> ('h spi_driver \<times> ch_system) option" where
  "spiStop L spip k =
     do { k \<leftarrow> osalSysLock k;
          assert_that (sp_state spip = SPI_STOP \<or> sp_state spip = SPI_READY);
          let spip = spip\<lparr>sp_hw := spi_lld_stop L spip, sp_state := SPI_STOP\<rparr>;
          k \<leftarrow> osalSysUnlock k;
          Some (spip, k) }"

definition spiSelect :: "'h spi_lld \<Rightarrow> 'h spi_driver \<Rightarrow> ch_system \<Rightarrow> ('h spi_driver \<times> ch_system) option" where
  "spiSelect L spip k =
     do { k \<leftarrow> osalSysLock k;
          assert_that (sp_state spip = SPI_READY);
          let spip = spip\<lparr>sp_hw := spi_lld_select L spip\<rparr>;
          k \<leftarrow> osalSysUnlock k;
          Some (spip, k) }"

definition spiUnselect :: "'h spi_lld \<Rightarrow> 'h spi_driver \<Rightarrow> ch_system \<Rightarrow> ('h spi_driver \<times> ch_system) option" where
  "spiUnselect L spip k =
     do { k \<leftarrow> osalSysLock k;
          assert_that (sp_state spip = SPI_READY);
          let spip = spip\<lparr>sp_hw := spi_lld_unselect L spip\<rparr>;
          k \<leftarrow> osalSysUnlock k;
          Some (spip, k) }"

text \<open>The macros \<open>spiStartIgnoreI\<close>, \<open>spiStartExchangeI\<close>, \<open>spiStartSendI\<close> and \<open>spiStartReceiveI\<close>.\<close>

definition spiStartI :: "'h spi_lld \<Rightarrow> transfer \<Rightarrow> 'h spi_driver \<Rightarrow> 'h spi_driver" where
  "spiStartI L tr spip =
     (let spip = spip\<lparr>sp_state := SPI_ACTIVE\<rparr> in spip\<lparr>sp_hw := spi_lld_transfer L tr spip\<rparr>)"

definition spi_start :: "'h spi_lld \<Rightarrow> nat \<Rightarrow> transfer \<Rightarrow> 'h spi_driver \<Rightarrow> ch_system \<Rightarrow> ('h spi_driver \<times> ch_system) option" where
  "spi_start L n tr spip k =
     do { assert_that (n > 0);
          k \<leftarrow> osalSysLock k;
          assert_that (sp_state spip = SPI_READY);
          let spip = spiStartI L tr spip;
          k \<leftarrow> osalSysUnlock k;
          Some (spip, k) }"

definition spiStartIgnore :: "'h spi_lld \<Rightarrow> nat \<Rightarrow> 'h spi_driver \<Rightarrow> ch_system \<Rightarrow> ('h spi_driver \<times> ch_system) option" where
  "spiStartIgnore L n = spi_start L n (Spi_ignore n)"

definition spiStartExchange ::
  "'h spi_lld \<Rightarrow> nat \<Rightarrow> nat \<Rightarrow> nat \<Rightarrow> 'h spi_driver \<Rightarrow> ch_system \<Rightarrow> ('h spi_driver \<times> ch_system) option" where
  "spiStartExchange L n txbuf rxbuf = spi_start L n (Spi_exchange n txbuf rxbuf)"

definition spiStartSend :: "'h spi_lld \<Rightarrow> nat \<Rightarrow> nat \<Rightarrow> 'h spi_driver \<Rightarrow> ch_system \<Rightarrow> ('h spi_driver \<times> ch_system) option" where
  "spiStartSend L n txbuf = spi_start L n (Spi_send n txbuf)"

definition spiStartReceive :: "'h spi_lld \<Rightarrow> nat \<Rightarrow> nat \<Rightarrow> 'h spi_driver \<Rightarrow> ch_system \<Rightarrow> ('h spi_driver \<times> ch_system) option" where
  "spiStartReceive L n rxbuf = spi_start L n (Spi_receive n rxbuf)"

text \<open>The blocking forms start the transfer and sleep; they must not be used with an end callback.\<close>

definition spi_run ::
  "'h spi_lld \<Rightarrow> nat \<Rightarrow> transfer \<Rightarrow> 'h spi_driver \<Rightarrow> ch_system \<Rightarrow> (msg_t outcome \<times> 'h spi_driver \<times> ch_system) option" where
  "spi_run L n tr spip k =
     do { assert_that (n > 0);
          k \<leftarrow> osalSysLock k;
          assert_that (sp_state spip = SPI_READY);
          c \<leftarrow> sp_config spip;
          assert_that (spi_end_cb c = None);
          let spip = spiStartI L tr spip;
          (out, k) \<leftarrow> suspend_and_unlock (sp_thread spip) k;
          Some (out, spip, k) }"

definition spiIgnore ::
  "'h spi_lld \<Rightarrow> nat \<Rightarrow> 'h spi_driver \<Rightarrow> ch_system \<Rightarrow> (msg_t outcome \<times> 'h spi_driver \<times> ch_system) option" where
  "spiIgnore L n = spi_run L n (Spi_ignore n)"

definition spiExchange ::
  "'h spi_lld \<Rightarrow> nat \<Rightarrow> nat \<Rightarrow> nat \<Rightarrow> 'h spi_driver \<Rightarrow> ch_system \<Rightarrow> (msg_t outcome \<times> 'h spi_driver \<times> ch_system) option" where
  "spiExchange L n txbuf rxbuf = spi_run L n (Spi_exchange n txbuf rxbuf)"

definition spiSend ::
  "'h spi_lld \<Rightarrow> nat \<Rightarrow> nat \<Rightarrow> 'h spi_driver \<Rightarrow> ch_system \<Rightarrow> (msg_t outcome \<times> 'h spi_driver \<times> ch_system) option" where
  "spiSend L n txbuf = spi_run L n (Spi_send n txbuf)"

definition spiReceive ::
  "'h spi_lld \<Rightarrow> nat \<Rightarrow> nat \<Rightarrow> 'h spi_driver \<Rightarrow> ch_system \<Rightarrow> (msg_t outcome \<times> 'h spi_driver \<times> ch_system) option" where
  "spiReceive L n rxbuf = spi_run L n (Spi_receive n rxbuf)"

definition spiAcquireBus :: "'h spi_driver \<Rightarrow> ch_system \<Rightarrow> (unit outcome \<times> ch_system) option" where
  "spiAcquireBus spip k = osalMutexLock (sp_mutex spip) k"

definition spiReleaseBus :: "'h spi_driver \<Rightarrow> ch_system \<Rightarrow> (unit outcome \<times> ch_system) option" where
  "spiReleaseBus spip k = osalMutexUnlock (sp_mutex spip) k"

definition spi_isr_code :: "'h spi_cb \<Rightarrow> 'h spi_driver \<Rightarrow> ch_system \<Rightarrow> ('h spi_driver \<times> ch_system) option" where
  "spi_isr_code cb spip k =
     do { c \<leftarrow> sp_config spip;
          (spip, k) \<leftarrow>
            (case spi_end_cb c of
               Some f \<Rightarrow>
                 do { let spip = spip\<lparr>sp_state := SPI_COMPLETE\<rparr>;
                      (spip, k) \<leftarrow> cb f spip k;
                      Some (if sp_state spip = SPI_COMPLETE then spip\<lparr>sp_state := SPI_READY\<rparr> else spip, k) }
             | None \<Rightarrow> Some (spip\<lparr>sp_state := SPI_READY\<rparr>, k));
          k \<leftarrow> resume_from_isr (sp_thread spip) MSG_OK k;
          Some (spip, k) }"

subsection \<open>Transfers\<close>

text \<open>
  A blocking transfer runs to its end: it starts the hardware with exactly this transfer and puts the caller to sleep;
  the end-of-transfer interrupt makes the driver ready again and exactly the caller ready.
\<close>

theorem spi_transfer_completes:
  assumes ok: "kernel_ok k" and T: "class_thread k" and ne: "queues k Q_RLIST \<noteq> []" and free: "tref k (sp_thread d) = None"
    and st: "sp_state d = SPI_READY" and c: "sp_config d = Some c" "spi_end_cb c = None" and n: "0 < n"
  shows "\<exists>d1 k1. spi_run L n tr d k = Some (Switched, d1, k1) \<and> kernel_ok k1 \<and> sp_state d1 = SPI_ACTIVE \<and>
    sp_hw d1 = spi_lld_transfer L tr (d\<lparr>sp_state := SPI_ACTIVE\<rparr>) \<and> tref k1 (sp_thread d) = Some (r_current k) \<and>
    (\<forall>k2. kernel_ok k2 \<and> class_isr k2 \<and> tref k2 (sp_thread d) = Some (r_current k) \<longrightarrow>
       (\<exists>k3. spi_isr_code cb d1 k2 = Some (d1\<lparr>sp_state := SPI_READY\<rparr>, k3) \<and> kernel_ok k3 \<and> tref k3 (sp_thread d) = None \<and>
         rdymsg_of (r_current k) k3 = Some MSG_OK \<and>
         (\<forall>x. state_of k3 x = (if x = r_current k then CH_STATE_READY else state_of k2 x))))"
proof -
  let ?k = "k\<lparr>lock_cnt := 1\<rparr>" and ?d = "spiStartI L tr d"
  have k: "kernel_ok ?k" "class_S ?k" "queues ?k Q_RLIST \<noteq> []" "tref ?k (sp_thread d) = None"
    using ok T ne free by (simp_all add: class_thread_def class_S_def)
  obtain k1 where k1: "suspend_and_unlock (sp_thread d) ?k = Some (Switched, k1)" "kernel_ok k1" "tref k1 (sp_thread d) = Some (r_current k)"
    using suspend_and_unlock_sleeps [OF k] by auto
  have "spi_run L n tr d k = Some (Switched, ?d, k1)"
    using k1(1) chSysLock_ok [OF T] st c n by (simp add: spi_run_def spiStartI_def Let_def)
  moreover have "\<exists>k3. spi_isr_code cb ?d k2 = Some (?d\<lparr>sp_state := SPI_READY\<rparr>, k3) \<and> kernel_ok k3 \<and> tref k3 (sp_thread d) = None \<and>
         rdymsg_of (r_current k) k3 = Some MSG_OK \<and>
         (\<forall>x. state_of k3 x = (if x = r_current k then CH_STATE_READY else state_of k2 x))"
    if h: "kernel_ok k2" "class_isr k2" "tref k2 (sp_thread d) = Some (r_current k)" for k2
    using resume_from_isr_eq [OF h(1,2)] isr_resumed_ok [OF h(1,2), where trp = "sp_thread d" and msg = MSG_OK] h(3) c
    by (simp add: spi_isr_code_def spiStartI_def Let_def)
  moreover have "sp_state ?d = SPI_ACTIVE" "sp_hw ?d = spi_lld_transfer L tr (d\<lparr>sp_state := SPI_ACTIVE\<rparr>)"
    by (simp_all add: spiStartI_def Let_def)
  ultimately show ?thesis using k1(2,3) by blast
qed

end
