(* ===== verification/HalSerial.thy ===== *)
theory HalSerial
  imports HalOsal ChIOQueues
begin

text \<open>
  The serial driver: \<open>serial.c\<close> and the macros of \<open>serial.h\<close>, over the I/O queues and the events of the kernel. The
  low-level driver is the parameter \<open>L\<close>, working on the part \<open>sd_hw\<close>; the notification callbacks of the queues are the
  parameters \<open>inotify\<close> and \<open>onotify\<close>.
\<close>

datatype sdstate_t = SD_UNINIT | SD_STOP | SD_READY

record 'h serial_driver =
  sd_state :: sdstate_t
  sd_event :: nat
  sd_iqueue :: io_queue
  sd_oqueue :: io_queue
  sd_hw :: 'h

record 'h serial_lld =
  sd_lld_start :: "'h serial_driver \<Rightarrow> 'h"
  sd_lld_stop :: "'h serial_driver \<Rightarrow> 'h"

definition SERIAL_BUFFERS_SIZE :: nat where "SERIAL_BUFFERS_SIZE = 4096"
definition CHN_INPUT_AVAILABLE :: eventflags_t where "CHN_INPUT_AVAILABLE = 4"
definition CHN_OUTPUT_EMPTY :: eventflags_t where "CHN_OUTPUT_EMPTY = 8"
definition SD_OVERRUN_ERROR :: eventflags_t where "SD_OVERRUN_ERROR = 128"

unbundle bit_operations_syntax

subsection \<open>Operations\<close>

definition chnAddFlagsI :: "'h serial_driver \<Rightarrow> eventflags_t \<Rightarrow> ch_system \<Rightarrow> ch_system option" where
  "chnAddFlagsI ip flags k = osalEventBroadcastFlagsI (sd_event ip) flags k"

text \<open>\<open>tqi\<close> and \<open>tqo\<close> are the thread queues inside the two queues, \<open>ib\<close> and \<open>ob\<close> what the buffers hold before.\<close>

definition sdObjectInit ::
  "nat \<Rightarrow> nat \<Rightarrow> 8 word list \<Rightarrow> 8 word list \<Rightarrow> 'h serial_driver \<Rightarrow> ch_system \<Rightarrow> ('h serial_driver \<times> ch_system) option" where
  "sdObjectInit tqi tqo ib ob sdp k =
     do { assert_that (length ib = SERIAL_BUFFERS_SIZE \<and> length ob = SERIAL_BUFFERS_SIZE);
          let k = osalEventObjectInit (sd_event sdp) k;
          let (iq, k) = chIQObjectInit tqi ib k;
          let (oq, k) = chOQObjectInit tqo ob k;
          Some (sdp\<lparr>sd_state := SD_STOP, sd_iqueue := iq, sd_oqueue := oq\<rparr>, k) }"

definition sdStart :: "'h serial_lld \<Rightarrow> 'h serial_driver \<Rightarrow> ch_system \<Rightarrow> ('h serial_driver \<times> ch_system) option" where
  "sdStart L sdp k =
     do { k \<leftarrow> osalSysLock k;
          assert_that (sd_state sdp = SD_STOP \<or> sd_state sdp = SD_READY);
          let sdp = sdp\<lparr>sd_hw := sd_lld_start L sdp, sd_state := SD_READY\<rparr>;
          k \<leftarrow> osalSysUnlock k;
          Some (sdp, k) }"

definition sdStop ::
  "'h serial_lld \<Rightarrow> 'h serial_driver \<Rightarrow> ch_system \<Rightarrow> (unit outcome \<times> 'h serial_driver \<times> ch_system) option" where
  "sdStop L sdp k =
     do { k \<leftarrow> osalSysLock k;
          assert_that (sd_state sdp = SD_STOP \<or> sd_state sdp = SD_READY);
          let sdp = sdp\<lparr>sd_hw := sd_lld_stop L sdp, sd_state := SD_STOP\<rparr>;
          (oq, k) \<leftarrow> chOQResetI (sd_oqueue sdp) k;
          (iq, k) \<leftarrow> chIQResetI (sd_iqueue sdp) k;
          r \<leftarrow> osalOsRescheduleS k;
          (out, k) \<leftarrow> andthen r (\<lambda>_ k. do { k \<leftarrow> osalSysUnlock k; Some (Done (), k) });
          Some (out, sdp\<lparr>sd_oqueue := oq, sd_iqueue := iq\<rparr>, k) }"

definition sdIncomingDataI :: "8 word \<Rightarrow> 'h serial_driver \<Rightarrow> ch_system \<Rightarrow> ('h serial_driver \<times> ch_system) option" where
  "sdIncomingDataI b sdp k =
     do { chDbgCheckClassI k;
          e \<leftarrow> chIQIsEmptyI (sd_iqueue sdp) k;
          k \<leftarrow> (if e then chnAddFlagsI sdp CHN_INPUT_AVAILABLE k else Some k);
          (msg, iq, k) \<leftarrow> chIQPutI b (sd_iqueue sdp) k;
          let sdp = sdp\<lparr>sd_iqueue := iq\<rparr>;
          k \<leftarrow> (if msg < MSG_OK then chnAddFlagsI sdp SD_OVERRUN_ERROR k else Some k);
          Some (sdp, k) }"

definition sdRequestDataI :: "'h serial_driver \<Rightarrow> ch_system \<Rightarrow> (msg_t \<times> 'h serial_driver \<times> ch_system) option" where
  "sdRequestDataI sdp k =
     do { chDbgCheckClassI k;
          (b, oq, k) \<leftarrow> chOQGetI (sd_oqueue sdp) k;
          let sdp = sdp\<lparr>sd_oqueue := oq\<rparr>;
          k \<leftarrow> (if b < MSG_OK then chnAddFlagsI sdp CHN_OUTPUT_EMPTY k else Some k);
          Some (b, sdp, k) }"

text \<open>The stream and channel interface of the driver, and the macros with the same meaning.\<close>

definition with_iq :: "'h serial_driver \<Rightarrow> ('a \<times> io_queue \<times> ch_system) option \<Rightarrow> ('a \<times> 'h serial_driver \<times> ch_system) option" where
  "with_iq sdp r = do { (x, q, k) \<leftarrow> r; Some (x, sdp\<lparr>sd_iqueue := q\<rparr>, k) }"

definition with_oq :: "'h serial_driver \<Rightarrow> ('a \<times> io_queue \<times> ch_system) option \<Rightarrow> ('a \<times> 'h serial_driver \<times> ch_system) option" where
  "with_oq sdp r = do { (x, q, k) \<leftarrow> r; Some (x, sdp\<lparr>sd_oqueue := q\<rparr>, k) }"

definition sd_writet ::
  "qnotify_t \<Rightarrow> 8 word list \<Rightarrow> systime_t \<Rightarrow> 'h serial_driver \<Rightarrow> ch_system \<Rightarrow> (nat outcome \<times> 'h serial_driver \<times> ch_system) option" where
  "sd_writet onotify bp timeout sdp k = with_oq sdp (chOQWriteTimeout onotify bp timeout (sd_oqueue sdp) k)"

definition sd_readt ::
  "qnotify_t \<Rightarrow> nat \<Rightarrow> systime_t \<Rightarrow> 'h serial_driver \<Rightarrow> ch_system \<Rightarrow> (8 word list outcome \<times> 'h serial_driver \<times> ch_system) option" where
  "sd_readt inotify n timeout sdp k = with_iq sdp (chIQReadTimeout inotify n timeout (sd_iqueue sdp) k)"

definition sd_putt ::
  "qnotify_t \<Rightarrow> 8 word \<Rightarrow> systime_t \<Rightarrow> 'h serial_driver \<Rightarrow> ch_system \<Rightarrow> (msg_t outcome \<times> 'h serial_driver \<times> ch_system) option" where
  "sd_putt onotify b timeout sdp k = with_oq sdp (chOQPutTimeout onotify b timeout (sd_oqueue sdp) k)"

definition sd_gett ::
  "qnotify_t \<Rightarrow> systime_t \<Rightarrow> 'h serial_driver \<Rightarrow> ch_system \<Rightarrow> (msg_t outcome \<times> 'h serial_driver \<times> ch_system) option" where
  "sd_gett inotify timeout sdp k = with_iq sdp (chIQGetTimeout inotify timeout (sd_iqueue sdp) k)"

definition sd_write where "sd_write onotify bp sdp k = sd_writet onotify bp TIME_INFINITE sdp k"
definition sd_read where "sd_read inotify n sdp k = sd_readt inotify n TIME_INFINITE sdp k"
definition sd_put where "sd_put onotify b sdp k = sd_putt onotify b TIME_INFINITE sdp k"
definition sd_get where "sd_get inotify sdp k = sd_gett inotify TIME_INFINITE sdp k"

definition sdAsynchronousWrite where "sdAsynchronousWrite onotify bp sdp k = sd_writet onotify bp TIME_IMMEDIATE sdp k"
definition sdAsynchronousRead where "sdAsynchronousRead inotify n sdp k = sd_readt inotify n TIME_IMMEDIATE sdp k"

definition sdPutWouldBlock :: "'h serial_driver \<Rightarrow> ch_system \<Rightarrow> bool option" where
  "sdPutWouldBlock sdp k = chOQIsFullI (sd_oqueue sdp) k"

definition sdGetWouldBlock :: "'h serial_driver \<Rightarrow> ch_system \<Rightarrow> bool option" where
  "sdGetWouldBlock sdp k = chIQIsEmptyI (sd_iqueue sdp) k"

subsection \<open>Receiving\<close>

lemma evt_ok_next_woken: "evt_ok k \<Longrightarrow> evt_ok (next_woken tq k)"
  by (auto simp: next_woken_def evt_ok_def split: list.splits)

text \<open>The flags a listener gets when a byte comes in and \<open>n\<close> bytes are in the queue of size \<open>m\<close>.\<close>

definition rx_flags :: "nat \<Rightarrow> nat \<Rightarrow> eventflags_t" where
  "rx_flags m n = (if n = 0 then CHN_INPUT_AVAILABLE else if n = m then SD_OVERRUN_ERROR else 0)"

lemma sdIncomingDataI_ok:
  assumes ok: "kernel_ok k" "class_I k" "evt_ok k" and q: "iq_ok (sd_iqueue d) xs"
  shows "\<exists>q' k'. sdIncomingDataI b d k = Some (d\<lparr>sd_iqueue := q'\<rparr>, k') \<and> kernel_ok k' \<and> class_I k' \<and> evt_ok k' \<and> es_next k' = es_next k \<and>
    q_top q' = q_top (sd_iqueue d) \<and> iq_ok q' (take (q_top q') (xs @ [b])) \<and>
    (\<forall>l \<in> set (es_next k (sd_event d)). el_flags (listener k' l) = el_flags (listener k l) OR rx_flags (q_top q') (length xs))"
proof -
  let ?q = "sd_iqueue d" and ?L = "set (es_next k (sd_event d))"
  have le: "length xs \<le> q_top ?q" "0 < q_top ?q" "q_counter ?q = length xs"
    using q q_full [of ?q xs] ring_okD(3) by (auto simp: iq_ok_def q_holds_def)
  have e: "chIQIsEmptyI ?q k = Some (xs = [])" using ok(2) le(3) by (simp add: chIQIsEmptyI_def chQSpaceI_def)
  obtain k1 where k1: "(if xs = [] then chnAddFlagsI d CHN_INPUT_AVAILABLE k else Some k) = Some k1" "kernel_ok k1" "class_I k1"
      "evt_ok k1" "es_next k1 = es_next k"
      "\<forall>l \<in> ?L. el_flags (listener k1 l) = el_flags (listener k l) OR (if xs = [] then CHN_INPUT_AVAILABLE else 0)"
    using ok chEvtBroadcastFlagsI_ok [OF ok, of "sd_event d" CHN_INPUT_AVAILABLE]
    by (cases "xs = []") (auto simp: chnAddFlagsI_def flagged_def class_I_def)
  show ?thesis
  proof (cases "length xs = q_top ?q")
    case True
    then have "xs \<noteq> []" "take (q_top ?q) (xs @ [b]) = xs" using le(2) by auto
    moreover obtain k2 where "chnAddFlagsI d SD_OVERRUN_ERROR k1 = Some k2" "kernel_ok k2" "class_I k2"
        "evt_ok k2" "es_next k2 = es_next k" "\<forall>l \<in> ?L. el_flags (listener k2 l) = el_flags (listener k1 l) OR SD_OVERRUN_ERROR"
      using chEvtBroadcastFlagsI_ok [OF k1(2,3,4), of "sd_event d" SD_OVERRUN_ERROR] k1(3,5)
      by (auto simp: chnAddFlagsI_def flagged_def class_I_def)
    moreover have "Q_FULL < MSG_OK" by (simp add: Q_FULL_def MSG_OK_def)
    ultimately show ?thesis using True e k1 q ok(2) le(2) chIQPutI_ok [OF k1(2,3) q, of b]
      by (intro exI [of _ ?q] exI [of _ k2]) (simp add: sdIncomingDataI_def rx_flags_def chnAddFlagsI_def)
  next
    case False
    then obtain q' where q': "chIQPutI b ?q k1 = Some (MSG_OK, q', next_woken (q_waiting ?q) k1)" "iq_ok q' (xs @ [b])" "q_top q' = q_top ?q"
      using chIQPutI_ok [OF k1(2,3) q, of b] by auto
    have "take (q_top ?q) (xs @ [b]) = xs @ [b]" using False le(1) by simp
    then show ?thesis using False e k1 q' ok(2) chThdDequeueNextI_eq(2) [OF k1(2,3)] evt_ok_next_woken [OF k1(4)]
      by (intro exI [of _ q'] exI [of _ "next_woken (q_waiting ?q) k1"])
        (auto simp: sdIncomingDataI_def rx_flags_def next_woken_def class_I_def split: list.splits)
  qed
qed

text \<open>Bytes that come in one after the other.\<close>

primrec sd_receive :: "8 word list \<Rightarrow> 'h serial_driver \<Rightarrow> ch_system \<Rightarrow> ('h serial_driver \<times> ch_system) option" where
  "sd_receive [] sdp k = Some (sdp, k)"
| "sd_receive (b # bs) sdp k = do { (sdp, k) \<leftarrow> sdIncomingDataI b sdp k; sd_receive bs sdp k }"

lemma sd_receive_ok:
  assumes "kernel_ok k" "class_I k" "evt_ok k" "iq_ok (sd_iqueue d) xs"
  shows "\<exists>q' k'. sd_receive bs d k = Some (d\<lparr>sd_iqueue := q'\<rparr>, k') \<and> kernel_ok k' \<and> evt_ok k' \<and>
    iq_ok q' (take (q_top (sd_iqueue d)) (xs @ bs)) \<and>
    (\<forall>l \<in> set (es_next k (sd_event d)).
       (\<forall>i. bit (el_flags (listener k l)) i \<longrightarrow> bit (el_flags (listener k' l)) i) \<and>
       (xs = [] \<and> bs \<noteq> [] \<longrightarrow> bit (el_flags (listener k' l)) 2) \<and>
       (q_top (sd_iqueue d) < length (xs @ bs) \<longrightarrow> bit (el_flags (listener k' l)) 7))"
  using assms
proof (induction bs arbitrary: d k xs)
  case Nil
  then have "length xs \<le> q_top (sd_iqueue d)" using ring_okD(3) by (auto simp: iq_ok_def q_holds_def)
  then show ?case using Nil by (intro exI [of _ "sd_iqueue d"] exI [of _ k]) simp
next
  case (Cons b bs)
  let ?m = "q_top (sd_iqueue d)"
  have le: "length xs \<le> ?m" "0 < ?m" using Cons.prems(4) q_full [of "sd_iqueue d" xs] ring_okD(3) by (auto simp: iq_ok_def q_holds_def)
  obtain q1 k1 where 1: "sdIncomingDataI b d k = Some (d\<lparr>sd_iqueue := q1\<rparr>, k1)" "kernel_ok k1" "class_I k1" "evt_ok k1"
      "es_next k1 = es_next k" "q_top q1 = ?m" "iq_ok q1 (take ?m (xs @ [b]))"
      "\<forall>l \<in> set (es_next k (sd_event d)). el_flags (listener k1 l) = el_flags (listener k l) OR rx_flags ?m (length xs)"
    using sdIncomingDataI_ok [OF Cons.prems, of b] by metis
  obtain q' k' where 2: "sd_receive bs (d\<lparr>sd_iqueue := q1\<rparr>) k1 = Some (d\<lparr>sd_iqueue := q'\<rparr>, k')" "kernel_ok k'" "evt_ok k'"
      "iq_ok q' (take ?m (take ?m (xs @ [b]) @ bs))"
      "\<forall>l \<in> set (es_next k (sd_event d)).
         (\<forall>i. bit (el_flags (listener k1 l)) i \<longrightarrow> bit (el_flags (listener k' l)) i) \<and>
         (?m < length (take ?m (xs @ [b]) @ bs) \<longrightarrow> bit (el_flags (listener k' l)) 7)"
    using Cons.IH [of k1 "d\<lparr>sd_iqueue := q1\<rparr>", OF 1(2,3,4)] 1(5,6,7) by fastforce
  have t: "take ?m (take ?m (xs @ [b]) @ bs) = take ?m (xs @ b # bs)" using le(1) by (cases "length xs = ?m") auto
  have flags: "bit (rx_flags ?m (length xs)) 2 = (xs = [])" "bit (rx_flags ?m (length xs)) 7 = (length xs = ?m)"
    using le(2) by (auto simp: rx_flags_def CHN_INPUT_AVAILABLE_def SD_OVERRUN_ERROR_def bit_numeral_rec)
  have long: "length xs = ?m \<or> ?m < length (take ?m (xs @ [b]) @ bs)" if "?m < length (xs @ b # bs)" using that le(1) by auto
  have "(\<forall>i. bit (el_flags (listener k l)) i \<longrightarrow> bit (el_flags (listener k' l)) i) \<and>
       (xs = [] \<and> b # bs \<noteq> [] \<longrightarrow> bit (el_flags (listener k' l)) 2) \<and>
       (?m < length (xs @ b # bs) \<longrightarrow> bit (el_flags (listener k' l)) 7)" if l: "l \<in> set (es_next k (sd_event d))" for l
    using bspec [OF 1(8) l] bspec [OF 2(5) l] flags long by (metis bit_or_iff)
  then show ?case using 1(1) 2 unfolding t by (intro exI [of _ q'] exI [of _ k']) simp
qed

text \<open>
  C34. What is received is read. When bytes come in from the interrupt handler while the input queue is empty, the driver
  stores as many as its buffer takes, in order, and drops the others; then reading any number of the stored bytes, from
  a thread in whatever state the kernel is by then, returns exactly these. Every listener of the driver's event source
  gets the input-available flag, and the overrun flag if bytes were dropped; the kernel invariants hold.
\<close>

theorem serial_receive_read:
  assumes "kernel_ok k" "class_I k" "evt_ok k" "iq_ok (sd_iqueue d) []"
  shows "\<exists>d' k'. sd_receive bs d k = Some (d', k') \<and> kernel_ok k' \<and> evt_ok k' \<and>
    (\<forall>n k2. 0 < n \<and> n \<le> length bs \<and> n \<le> q_top (sd_iqueue d) \<and> class_thread k2 \<and> resched_ok k2 \<longrightarrow>
       (\<exists>d''. sd_read None n d' k2 = Some (Done (take n bs), d'', k2))) \<and>
    (\<forall>l \<in> set (es_next k (sd_event d)).
       (bs \<noteq> [] \<longrightarrow> el_flags (listener k' l) AND CHN_INPUT_AVAILABLE \<noteq> 0) \<and>
       (q_top (sd_iqueue d) < length bs \<longrightarrow> el_flags (listener k' l) AND SD_OVERRUN_ERROR \<noteq> 0))"
proof -
  let ?m = "q_top (sd_iqueue d)"
  obtain q' k' where 1: "sd_receive bs d k = Some (d\<lparr>sd_iqueue := q'\<rparr>, k')" "kernel_ok k'" "evt_ok k'" "iq_ok q' (take ?m bs)"
      "\<forall>l \<in> set (es_next k (sd_event d)). (bs \<noteq> [] \<longrightarrow> bit (el_flags (listener k' l)) 2) \<and>
         (?m < length bs \<longrightarrow> bit (el_flags (listener k' l)) 7)"
    using sd_receive_ok [OF assms, of bs] by fastforce
  have "\<exists>d''. sd_read None n (d\<lparr>sd_iqueue := q'\<rparr>) k2 = Some (Done (take n bs), d'', k2)"
    if n: "0 < n" "n \<le> length bs" "n \<le> ?m" "class_thread k2" "resched_ok k2" for n k2
  proof -
    let ?k = "k2\<lparr>lock_cnt := 1\<rparr>"
    have S: "class_S ?k" "resched_ok ?k" "?k\<lparr>lock_cnt := 0\<rparr> = k2" "chSysLock k2 = Some ?k"
      using n(4,5) chSysLock_ok by (simp_all add: class_S_def class_thread_def)
    obtain q where "iq_read_loop None TIME_INFINITE True n [] q' ?k = Some (Done (take n (take ?m bs)), q, k2)"
      using iq_read_loop_ok [OF S(1,2) n(1) _ 1(4), of TIME_INFINITE "[]"] n(2,3) S(3) by auto
    then show ?thesis using n S(4) by (simp add: sd_read_def sd_readt_def with_iq_def chIQReadTimeout_def min_absorb1)
  qed
  moreover have "x AND CHN_INPUT_AVAILABLE \<noteq> 0 \<longleftrightarrow> bit x 2" "x AND SD_OVERRUN_ERROR \<noteq> 0 \<longleftrightarrow> bit x 7" for x
    using and_event_mask [of 2 x] and_event_mask [of 7 x]
    by (simp_all add: EVENT_MASK_def CHN_INPUT_AVAILABLE_def SD_OVERRUN_ERROR_def)
  ultimately show ?thesis using 1 by blast
qed

definition serial0 :: "unit serial_driver" where
  "serial0 = \<lparr>sd_state = SD_READY, sd_event = 7, sd_iqueue = iq1\<lparr>q_counter := 0, q_wrptr := 0\<rparr>, sd_oqueue = iq1\<lparr>q_counter := 2, q_wrptr := 0\<rparr>, sd_hw = ()\<rparr>"

lemma serial0_ok: "iq_ok (sd_iqueue serial0) []" "oq_ok (sd_oqueue serial0) []" "q_top (sd_iqueue serial0) = 2"
  by (simp_all add: iq_ok_def oq_ok_def q_holds_def ring_ok_def iq1_def serial0_def)

theorem serial_receive_read_witness:
  "\<exists>d' k'. sd_receive [1, 2, 3] serial0 (sys_evt\<lparr>lock_cnt := 1\<rparr>) = Some (d', k') \<and>
     (\<exists>d''. sd_read None 2 d' sys0 = Some (Done [1, 2], d'', sys0)) \<and> el_flags (listener k' 2) AND SD_OVERRUN_ERROR \<noteq> 0"
proof -
  let ?k = "sys_evt\<lparr>lock_cnt := 1\<rparr>"
  have k: "kernel_ok ?k" "class_I ?k" "evt_ok ?k" "es_next ?k 7 = [2]"
    using sys_evt_facts by (simp_all add: class_I_def class_thread_def) (simp add: sys_evt_def)
  have "resched_ok sys0" "class_thread sys0" using sys0_facts by (simp_all add: sys0_def)
  moreover obtain d' k' where r: "sd_receive [1, 2, 3] serial0 ?k = Some (d', k')"
      "\<forall>n k2. 0 < n \<and> n \<le> length [1, 2, 3 :: 8 word] \<and> n \<le> 2 \<and> class_thread k2 \<and> resched_ok k2 \<longrightarrow>
         (\<exists>d''. sd_read None n d' k2 = Some (Done (take n [1, 2, 3]), d'', k2))"
      "\<forall>l \<in> {2}. 2 < length [1, 2, 3 :: 8 word] \<longrightarrow> el_flags (listener k' l) AND SD_OVERRUN_ERROR \<noteq> 0"
    using serial_receive_read [OF k(1-3) serial0_ok(1), of "[1, 2, 3]"] k(4) unfolding serial0_ok(3) by (auto simp: serial0_def)
  ultimately have "\<exists>d''. sd_read None 2 d' sys0 = Some (Done [1, 2], d'', sys0)"
    using r(2) [THEN spec [of _ 2], THEN spec [of _ sys0]] by simp
  then show ?thesis using r(1,3) by simp
qed

end
