(* ===== verification/HalPrint.thy ===== *)
theory HalPrint
  imports HalSerial ChStreams
begin

text \<open>
  Printing to the serial line: \<open>chprintf\<close> on the stream interface of the serial driver, down to the bytes that the
  transmit interrupt hands to the hardware. A driver with room in its output queue fulfils the contract of the
  locale \<open>out_stream\<close>.
\<close>

text \<open>
  Putting a byte through the stream interface, as printing does; a thread that has to wait does not go on. The
  notification callback of the output queue only enables the transmit interrupt.
\<close>

definition sd_out :: "qnotify_t \<Rightarrow> ('h serial_driver \<times> ch_system) option \<Rightarrow> 8 word \<Rightarrow> ('h serial_driver \<times> ch_system) option" where
  "sd_out nfy s b =
     do { (d, k) \<leftarrow> s;
          (out, d, k) \<leftarrow> sd_put nfy b d k;
          case out of Done _ \<Rightarrow> Some (d, k) | Switched \<Rightarrow> None }"

text \<open>The bytes in an output queue, oldest first.\<close>

definition oq_held :: "io_queue \<Rightarrow> 8 word list" where
  "oq_held q = map (\<lambda>i. q_data q ! ((q_rdptr q + i) mod q_top q)) [0..<q_top q - q_counter q]"

lemma oq_held_eq: "oq_ok q xs \<Longrightarrow> oq_held q = xs"
  by (auto simp: oq_ok_def q_holds_def ring_ok_def oq_held_def intro!: nth_equalityI)

lemma chOQPutTimeout_room:
  assumes nfy: "\<And>q k. notify nfy q k = Some (q, k)" and "oq_ok q xs" "0 < q_counter q" "class_thread k" "resched_ok k"
  shows "\<exists>q'. chOQPutTimeout nfy b time q k = Some (Done MSG_OK, q', k) \<and> oq_ok q' (xs @ [b]) \<and> q_counter q' = q_counter q - 1"
proof -
  let ?k = "k\<lparr>lock_cnt := 1\<rparr>"
  have S: "class_S ?k" "resched_ok ?k" "?k\<lparr>lock_cnt := 0\<rparr> = k" "chSysLock k = Some ?k"
    using assms(4,5) chSysLock_ok by (simp_all add: class_S_def class_thread_def)
  have "oq_put_loop nfy b time q ?k = Some (Done MSG_OK, q_store b (q\<lparr>q_counter := q_counter q - 1\<rparr>), k)"
    using relock(2) [OF S(1,2)] S(1,3) assms(3)
    by (subst oq_put_loop.simps) (simp add: chOQIsFullI_def chQSpaceI_def class_S_I nfy Let_def)
  then show ?thesis using oq_put [OF assms(2,3)] S(4) by (simp add: chOQPutTimeout_def)
qed

text \<open>A driver that differs from \<open>d\<close> in its output queue only, with the kernel as it was.\<close>

definition sd_over :: "qnotify_t \<Rightarrow> 'h serial_driver \<Rightarrow> ch_system \<Rightarrow> ('h serial_driver \<times> ch_system) option \<Rightarrow> bool" where
  "sd_over nfy d k s \<longleftrightarrow>
     (\<forall>q k. notify nfy q k = Some (q, k)) \<and> class_thread k \<and> resched_ok k \<and>
     (\<exists>q. s = Some (d\<lparr>sd_oqueue := q\<rparr>, k) \<and> oq_ok q (oq_held q))"

lemma sd_out_ok:
  assumes "sd_over nfy d k s" "0 < q_counter (sd_oqueue (fst (the s)))"
  shows "sd_over nfy d k (sd_out nfy s b) \<and>
    oq_held (sd_oqueue (fst (the (sd_out nfy s b)))) = oq_held (sd_oqueue (fst (the s))) @ [b] \<and>
    q_counter (sd_oqueue (fst (the (sd_out nfy s b)))) = q_counter (sd_oqueue (fst (the s))) - 1"
proof -
  obtain q where s: "s = Some (d\<lparr>sd_oqueue := q\<rparr>, k)" "oq_ok q (oq_held q)" and n: "\<And>q k. notify nfy q k = Some (q, k)"
      and k: "class_thread k" "resched_ok k"
    using assms(1) by (auto simp: sd_over_def)
  obtain q' where "chOQPutTimeout nfy b TIME_INFINITE q k = Some (Done MSG_OK, q', k)" "oq_ok q' (oq_held q @ [b])"
      "q_counter q' = q_counter q - 1"
    using chOQPutTimeout_room [OF n s(2) _ k, of b TIME_INFINITE] assms(2) s(1) by auto
  then show ?thesis using s n k oq_held_eq [of q' "oq_held q @ [b]"]
    by (auto simp: sd_out_def sd_put_def sd_putt_def with_oq_def sd_over_def intro!: exI [of _ q'])
qed

interpretation sd: out_stream "sd_over nfy d k" "sd_out nfy" "\<lambda>s. oq_held (sd_oqueue (fst (the s)))"
  "\<lambda>s. q_counter (sd_oqueue (fst (the s)))" for nfy d k
  by unfold_locales (use sd_out_ok in blast)+

subsection \<open>Transmission\<close>

text \<open>The transmit interrupts: the next \<open>n\<close> bytes that go to the hardware.\<close>

primrec sd_transmit :: "nat \<Rightarrow> 'h serial_driver \<Rightarrow> ch_system \<Rightarrow> (msg_t list \<times> 'h serial_driver \<times> ch_system) option" where
  "sd_transmit 0 sdp k = Some ([], sdp, k)"
| "sd_transmit (Suc n) sdp k =
     do { (b, sdp, k) \<leftarrow> sdRequestDataI sdp k; (bs, sdp, k) \<leftarrow> sd_transmit n sdp k; Some (b # bs, sdp, k) }"

lemma sdRequestDataI_ok:
  assumes "kernel_ok k" "class_I k" "evt_ok k" "oq_ok (sd_oqueue d) xs"
  shows "\<exists>q' k'. sdRequestDataI d k = Some (if xs = [] then Q_EMPTY else uint (hd xs), d\<lparr>sd_oqueue := q'\<rparr>, k') \<and>
    kernel_ok k' \<and> class_I k' \<and> evt_ok k' \<and> oq_ok q' (tl xs)"
proof (cases xs)
  case Nil
  obtain k' where "chnAddFlagsI (d\<lparr>sd_oqueue := sd_oqueue d\<rparr>) CHN_OUTPUT_EMPTY k = Some k'" "kernel_ok k'" "class_I k'" "evt_ok k'"
    using chEvtBroadcastFlagsI_ok [OF assms(1-3), of "sd_event d" CHN_OUTPUT_EMPTY] assms(2)
    by (auto simp: chnAddFlagsI_def class_I_def)
  then show ?thesis using Nil chOQGetI_ok [OF assms(1,2,4)] assms(2,4)
    by (intro exI [of _ "sd_oqueue d"] exI [of _ k']) (auto simp: sdRequestDataI_def Q_EMPTY_def MSG_OK_def)
next
  case (Cons x xs')
  then obtain q' where "chOQGetI (sd_oqueue d) k = Some (uint x, q', next_woken (q_waiting (sd_oqueue d)) k)" "oq_ok q' xs'"
    using chOQGetI_ok [OF assms(1,2,4)] by auto
  moreover have "class_I (next_woken tq k)" for tq using assms(2) by (auto simp: next_woken_def class_I_def split: list.splits)
  moreover have "\<not> uint x < MSG_OK" by (simp add: MSG_OK_def)
  ultimately show ?thesis using Cons assms(2) chThdDequeueNextI_eq(2) [OF assms(1,2)] evt_ok_next_woken [OF assms(3)]
    by (auto simp: sdRequestDataI_def intro!: exI [of _ q'])
qed

lemma sd_transmit_ok:
  assumes "kernel_ok k" "class_I k" "evt_ok k" "oq_ok (sd_oqueue d) xs" "n \<le> length xs"
  shows "\<exists>d' k'. sd_transmit n d k = Some (map uint (take n xs), d', k') \<and> kernel_ok k' \<and> class_I k' \<and> evt_ok k' \<and>
    oq_ok (sd_oqueue d') (drop n xs)"
  using assms
proof (induction n arbitrary: d k xs)
  case (Suc n)
  then obtain x xs' where xs: "xs = x # xs'" by (cases xs) auto
  obtain q1 k1 where 1: "sdRequestDataI d k = Some (uint x, d\<lparr>sd_oqueue := q1\<rparr>, k1)" "kernel_ok k1" "class_I k1" "evt_ok k1" "oq_ok q1 xs'"
    using sdRequestDataI_ok [OF Suc.prems(1-4)] xs by auto
  then show ?case using Suc.IH [of k1 "d\<lparr>sd_oqueue := q1\<rparr>" xs'] Suc.prems(5) xs by fastforce
qed simp

end
