(* ===== verification/HalOtgFifo.thy ===== *)
theory HalOtgFifo
  imports HalOsal ChIOQueues
begin

text \<open>
  The copy routines of the USB OTG driver (\<open>OTGv1/usb_lld.c\<close>): bytes of a linear buffer or of an I/O queue go into a
  transmit FIFO as 32-bit words, least significant byte first, and words of the receive FIFO come back as bytes. A FIFO
  is the list of its words. Memory is a function from addresses to bytes, as a word access may touch bytes next to
  a buffer.
\<close>

unbundle bit_operations_syntax

subsection \<open>Words and bytes\<close>

text \<open>The unaligned word access \<open>*((PACKED_VAR uint32_t *)buf)\<close> of a little-endian machine, and its bytes.\<close>

definition word_at :: "(nat \<Rightarrow> 8 word) \<Rightarrow> nat \<Rightarrow> 32 word" where
  "word_at m a = ucast (m a) OR push_bit 8 (ucast (m (a + 1))) OR push_bit 16 (ucast (m (a + 2))) OR push_bit 24 (ucast (m (a + 3)))"

definition byte_of :: "32 word \<Rightarrow> nat \<Rightarrow> 8 word" where
  "byte_of w i = ucast (drop_bit (i * 8) w)"

definition word_bytes :: "32 word \<Rightarrow> 8 word list" where
  "word_bytes w = map (byte_of w) [0..<4]"

definition put_word :: "nat \<Rightarrow> 32 word \<Rightarrow> (nat \<Rightarrow> 8 word) \<Rightarrow> nat \<Rightarrow> 8 word" where
  "put_word a w m = m(a := byte_of w 0, a + 1 := byte_of w 1, a + 2 := byte_of w 2, a + 3 := byte_of w 3)"

lemma byte_of_word_at: "i < 4 \<Longrightarrow> byte_of (word_at m a) i = m (a + i)"
proof -
  assume "i < 4"
  then consider "i = 0" | "i = 1" | "i = 2" | "i = 3" by linarith
  then show ?thesis
    by cases (rule bit_word_eqI; auto simp: byte_of_def word_at_def bit_simps dest: bit_imp_le_length)+
qed

subsection \<open>Linear buffers\<close>

text \<open>The loop of \<open>otg_do_push\<close>: \<open>n\<close> words from address \<open>a\<close> on; the address after them is returned.\<close>

fun otg_do_push :: "(nat \<Rightarrow> 8 word) \<Rightarrow> 32 word list \<Rightarrow> nat \<Rightarrow> nat \<Rightarrow> 32 word list \<times> nat" where
  "otg_do_push m fifop buf 0 = (fifop, buf)"
| "otg_do_push m fifop buf (Suc n) = otg_do_push m (fifop @ [word_at m buf]) (buf + 4) n"

definition otg_fifo_write_from_buffer :: "(nat \<Rightarrow> 8 word) \<Rightarrow> 32 word list \<Rightarrow> nat \<Rightarrow> nat \<Rightarrow> 32 word list" where
  "otg_fifo_write_from_buffer m fifop buf n = fst (otg_do_push m fifop buf ((n + 3) div 4))"

text \<open>Reading the FIFO register takes the first word; an empty FIFO has nothing to give.\<close>

fun fifo_pop :: "32 word list \<Rightarrow> (32 word \<times> 32 word list) option" where
  "fifo_pop [] = None"
| "fifo_pop (w # ws) = Some (w, ws)"

fun otg_do_pop :: "32 word list \<Rightarrow> (nat \<Rightarrow> 8 word) \<Rightarrow> nat \<Rightarrow> nat \<Rightarrow> (32 word list \<times> (nat \<Rightarrow> 8 word) \<times> nat) option" where
  "otg_do_pop fifop m buf 0 = Some (fifop, m, buf)"
| "otg_do_pop fifop m buf (Suc n) =
     do { (w, fifop) \<leftarrow> fifo_pop fifop; otg_do_pop fifop (put_word buf w m) (buf + 4) n }"

fun read_words :: "32 word list \<Rightarrow> (nat \<Rightarrow> 8 word) \<Rightarrow> nat \<Rightarrow> nat \<Rightarrow> nat \<Rightarrow> (32 word list \<times> (nat \<Rightarrow> 8 word)) option" where
  "read_words fifop m buf 0 mx = Some (fifop, m)"
| "read_words fifop m buf (Suc n) mx =
     do { (w, fifop) \<leftarrow> fifo_pop fifop;
          if mx \<noteq> 0 then read_words fifop (put_word buf w m) (buf + 4) n (mx - 1)
          else read_words fifop m buf n mx }"

definition otg_fifo_read_to_buffer ::
  "32 word list \<Rightarrow> (nat \<Rightarrow> 8 word) \<Rightarrow> nat \<Rightarrow> nat \<Rightarrow> nat \<Rightarrow> (32 word list \<times> (nat \<Rightarrow> 8 word)) option" where
  "otg_fifo_read_to_buffer fifop m buf n mx = read_words fifop m buf ((n + 3) div 4) ((mx + 3) mod 2 ^ 32 div 4)"

subsection \<open>Queues\<close>

text \<open>
  \<open>otg_fifo_write_from_queue\<close>: whole words up to the end of the buffer, then a word gathered byte by byte when it
  lies across the end or is the last one. A queue whose read pointer is not inside its buffer has no defined result.
\<close>

function otg_gather :: "nat \<Rightarrow> nat \<Rightarrow> 32 word \<Rightarrow> io_queue \<Rightarrow> 32 word \<times> nat \<times> io_queue" where
  "otg_gather i ntogo w q =
     (if ntogo > 0 \<and> i < 4
      then let (b, q) = q_load q in otg_gather (i + 1) (ntogo - 1) (w OR push_bit (i * 8) (ucast b)) q
      else (w, ntogo, q))"
  by pat_completeness auto
termination by (relation "measure (\<lambda>(i, n, w, q). n)") auto

lemma otg_gather_le: "fst (snd (otg_gather i n w q)) \<le> n" "0 < n \<Longrightarrow> i < 4 \<Longrightarrow> fst (snd (otg_gather i n w q)) < n"
proof (induction i n w q rule: otg_gather.induct)
  case (1 i n w q)
  { case 1 show ?case using "1.IH"(1) by (subst otg_gather.simps) (auto simp: split_beta intro: le_trans) }
  { case 2 then show ?case using "1.IH"(1) by (subst otg_gather.simps) (fastforce simp: split_beta Let_def) }
qed

declare otg_gather.simps [simp del]

lemma otg_do_push_end: "snd (otg_do_push m f b n) = b + 4 * n"
  by (induction n arbitrary: f b) auto

function otg_write_loop :: "nat \<Rightarrow> io_queue \<Rightarrow> 32 word list \<Rightarrow> (io_queue \<times> 32 word list) option" where
  "otg_write_loop ntogo q fifop =
     (if ntogo = 0 then Some (q, fifop)
      else if q_rdptr q \<ge> q_top q then None
      else
        let nw = ntogo div 4;
            nw2end = (q_top q - q_rdptr q) div 4;
            streak = (if nw \<le> nw2end then nw else nw2end);
            rest = (if nw > 0 then ntogo - streak * 4 else ntogo);
            (fifop, rdptr) = (if nw > 0 then otg_do_push ((!) (q_data q)) fifop (q_rdptr q) streak else (fifop, q_rdptr q))
        in if nw > 0 \<and> rdptr \<ge> q_top q then otg_write_loop rest (q\<lparr>q_rdptr := 0\<rparr>) fifop
           else if rest = 0 then Some (q\<lparr>q_rdptr := rdptr\<rparr>, fifop)
           else let (w, rest, q) = otg_gather 0 rest 0 (q\<lparr>q_rdptr := rdptr\<rparr>)
                in otg_write_loop rest q (fifop @ [w]))"
  by pat_completeness auto
termination
proof (relation "measure fst", goal_cases)
  case 1
  then show ?case by simp
next
  case (2 n q f nw nw2end streak rest p f' rd)
  have "rd = q_rdptr q + 4 * streak" using 2 otg_do_push_end by (metis snd_conv)
  then have "0 < streak" using 2(2,9) by (cases streak) auto
  then show ?case using 2 by auto
next
  case (3 n q f nw nw2end streak rest p f' rd p2 w p3 r q')
  then have "r < rest" using otg_gather_le(2) [of rest 0 0 "q\<lparr>q_rdptr := rd\<rparr>"] by (metis fst_conv gr0I snd_conv zero_less_numeral)
  moreover have "rest \<le> n" using 3 by auto
  ultimately show ?case by simp
qed

text \<open>The end of \<open>otg_fifo_write_from_queue\<close> and of \<open>otg_fifo_read_to_queue\<close>, run by the pump thread.\<close>

definition otg_queue_update :: "nat \<Rightarrow> io_queue \<Rightarrow> ch_system \<Rightarrow> (unit outcome \<times> io_queue \<times> ch_system) option" where
  "otg_queue_update n q k =
     do { (out, k) \<leftarrow> lock_resched (chThdDequeueAllI (q_waiting q) MSG_OK) k;
          Some (out, q\<lparr>q_counter := q_counter q + n\<rparr>, k) }"

definition otg_fifo_write_from_queue ::
  "32 word list \<Rightarrow> io_queue \<Rightarrow> nat \<Rightarrow> ch_system \<Rightarrow> (unit outcome \<times> io_queue \<times> 32 word list \<times> ch_system) option" where
  "otg_fifo_write_from_queue fifop oqp n k =
     do { (oqp, fifop) \<leftarrow> otg_write_loop n oqp fifop;
          (out, oqp, k) \<leftarrow> otg_queue_update n oqp k;
          Some (out, oqp, fifop, k) }"

text \<open>
  \<open>otg_fifo_read_to_queue\<close> has the same shape, but the distance to the end of the buffer is computed as
  \<open>q_wrptr - q_wrptr\<close>.
\<close>

function otg_scatter :: "nat \<Rightarrow> nat \<Rightarrow> 32 word \<Rightarrow> io_queue \<Rightarrow> nat \<times> io_queue" where
  "otg_scatter i ntogo w q =
     (if ntogo > 0 \<and> i < 4 then otg_scatter (i + 1) (ntogo - 1) w (q_store (byte_of w i) q) else (ntogo, q))"
  by pat_completeness auto
termination by (relation "measure (\<lambda>(i, n, w, q). n)") auto

declare otg_scatter.simps [simp del]

lemma otg_scatter_le: "fst (otg_scatter i n w q) \<le> n" "0 < n \<Longrightarrow> i < 4 \<Longrightarrow> fst (otg_scatter i n w q) < n"
proof (induction i n w q rule: otg_scatter.induct)
  case (1 i n w q)
  { case 1 show ?case using "1.IH"(1) by (subst otg_scatter.simps) (auto intro: le_trans) }
  { case 2 then show ?case using "1.IH"(1) by (subst otg_scatter.simps) fastforce }
qed

function otg_read_loop :: "nat \<Rightarrow> io_queue \<Rightarrow> 32 word list \<Rightarrow> (io_queue \<times> 32 word list) option" where
  "otg_read_loop ntogo q fifop =
     (if ntogo = 0 then Some (q, fifop)
      else if q_wrptr q \<ge> q_top q then None
      else
        let nw = ntogo div 4;
            nw2end = (q_wrptr q - q_wrptr q) div 4;
            streak = (if nw \<le> nw2end then nw else nw2end);
            rest = (if nw > 0 then ntogo - streak * 4 else ntogo)
        in do {
          (fifop, m, wrptr) \<leftarrow>
            (if nw > 0 then otg_do_pop fifop ((!) (q_data q)) (q_wrptr q) streak else Some (fifop, (!) (q_data q), q_wrptr q));
          if nw > 0 \<and> wrptr \<ge> q_top q
          then otg_read_loop rest (q\<lparr>q_data := map m [0..<q_top q], q_wrptr := 0\<rparr>) fifop
          else if rest = 0 then Some (q\<lparr>q_data := map m [0..<q_top q], q_wrptr := wrptr\<rparr>, fifop)
          else do {
            (w, fifop) \<leftarrow> fifo_pop fifop;
            let (rest, q) = otg_scatter 0 rest w (q\<lparr>q_data := map m [0..<q_top q], q_wrptr := wrptr\<rparr>)
            in otg_read_loop rest q fifop } })"
  by pat_completeness auto
termination
proof (relation "measure fst", goal_cases)
  case 1
  then show ?case by simp
next
  case (2 n q f nw nw2end streak rest p f' p' m wr)
  then show ?case by (auto split: if_splits)
next
  case (3 n q f nw nw2end streak rest p f' p' m wr p2 w f2 p3 r q')
  then have "r < rest" using otg_scatter_le(2) [of rest 0 w "q\<lparr>q_data := map m [0..<q_top q], q_wrptr := wr\<rparr>"]
    by (metis fst_conv gr0I zero_less_numeral)
  moreover have "rest \<le> n" using 3 by auto
  ultimately show ?case by simp
qed

definition otg_fifo_read_to_queue ::
  "32 word list \<Rightarrow> io_queue \<Rightarrow> nat \<Rightarrow> ch_system \<Rightarrow> (unit outcome \<times> io_queue \<times> 32 word list \<times> ch_system) option" where
  "otg_fifo_read_to_queue fifop iqp n k =
     do { (iqp, fifop) \<leftarrow> otg_read_loop n iqp fifop;
          (out, iqp, k) \<leftarrow> otg_queue_update n iqp k;
          Some (out, iqp, fifop, k) }"

declare otg_write_loop.simps [simp del] otg_read_loop.simps [simp del]

subsection \<open>What the words of a packet are\<close>

text \<open>The reference: the bytes of a packet by four, the last word filled up with zeros.\<close>

definition nth0 :: "8 word list \<Rightarrow> nat \<Rightarrow> 8 word" where
  "nth0 xs i = (if i < length xs then xs ! i else 0)"

definition pack :: "8 word list \<Rightarrow> 32 word list" where
  "pack xs = map (\<lambda>j. word_at (nth0 xs) (4 * j)) [0..<(length xs + 3) div 4]"

lemma pack_Nil [simp]: "pack [] = []"
  by (simp add: pack_def)

lemma word_at_cong: "(\<And>i. i < 4 \<Longrightarrow> m (a + i) = m' (b + i)) \<Longrightarrow> word_at m a = word_at m' b"
proof -
  assume "\<And>i. i < 4 \<Longrightarrow> m (a + i) = m' (b + i)"
  from this [of 0] this [of 1] this [of 2] this [of 3] show ?thesis by (simp add: word_at_def)
qed

lemma pack_append: "4 dvd length xs \<Longrightarrow> pack (xs @ ys) = pack xs @ pack ys"
proof -
  assume "4 dvd length xs"
  then obtain n where n: "length xs = 4 * n" by auto
  have "(length (xs @ ys) + 3) div 4 = n + (length ys + 3) div 4" using n by simp
  moreover have "(length xs + 3) div 4 = n" using n by simp
  moreover have "word_at (nth0 (xs @ ys)) (4 * j) = word_at (nth0 xs) (4 * j)" if "j < n" for j
    using that n by (intro word_at_cong) (auto simp: nth0_def nth_append)
  moreover have "word_at (nth0 (xs @ ys)) (4 * j) = word_at (nth0 ys) (4 * (j - n))" if "n \<le> j" for j
    using n that by (intro word_at_cong) (auto simp: nth0_def nth_append diff_mult_distrib2)
  ultimately show ?thesis
    by (auto simp: pack_def nth_append not_less less_diff_conv2 intro!: nth_equalityI)
qed

lemma pack_word: "0 < length xs \<Longrightarrow> length xs \<le> 4 \<Longrightarrow> pack xs = [word_at (nth0 xs) 0]"
proof -
  assume "0 < length xs" "length xs \<le> 4"
  then have "(length xs + 3) div 4 = 1" by presburger
  then show ?thesis by (simp add: pack_def)
qed

text \<open>The bytes of a packet are the first bytes of its words.\<close>

definition unpack :: "nat \<Rightarrow> 32 word list \<Rightarrow> 8 word list" where
  "unpack n ws = take n (concat (map word_bytes ws))"

lemma word_bytes_length [simp]: "length (word_bytes w) = 4"
  by (simp add: word_bytes_def)

lemma words_nth: "i < 4 * length ws \<Longrightarrow> concat (map word_bytes ws) ! i = byte_of (ws ! (i div 4)) (i mod 4)"
proof (induction ws arbitrary: i)
  case (Cons w ws)
  show ?case
  proof (cases "i < 4")
    case True
    then show ?thesis by (simp add: nth_append) (simp add: word_bytes_def)
  next
    case False
    then have "i div 4 = Suc ((i - 4) div 4)" "i mod 4 = (i - 4) mod 4" by (simp_all add: le_div_geq le_mod_geq)
    then show ?thesis using False Cons.IH [of "i - 4"] Cons.prems by (simp add: nth_append)
  qed
qed simp

lemma words_length [simp]: "length (concat (map word_bytes ws)) = 4 * length ws"
  by (induction ws) simp_all

lemma unpack_words:
  assumes "\<And>j. j < length ws \<Longrightarrow> ws ! j = word_at m (a + 4 * j)" "n \<le> 4 * length ws"
  shows "unpack n ws = map m [a..<a + n]"
proof (rule nth_equalityI)
  show "length (unpack n ws) = length (map m [a..<a + n])" using assms(2) by (simp add: unpack_def)
next
  fix i
  assume "i < length (unpack n ws)"
  then have i: "i < n" "i div 4 < length ws" using assms(2) by (auto simp: unpack_def)
  have "a + 4 * (i div 4) + i mod 4 = a + i" by presburger
  then show "unpack n ws ! i = map m [a..<a + n] ! i"
    using i assms by (simp add: unpack_def words_nth byte_of_word_at add.commute)
qed

lemma unpack_pack: "unpack (length xs) (pack xs @ ws) = xs"
proof -
  have "unpack (length xs) (pack xs) = map (nth0 xs) [0..<0 + length xs]"
    by (rule unpack_words) (auto simp: pack_def)
  also have "\<dots> = xs" by (rule nth_equalityI) (auto simp: nth0_def)
  finally have "unpack (length xs) (pack xs) = xs" .
  moreover have "length xs \<le> 4 * length (pack xs)" by (simp add: pack_def)
  ultimately show ?thesis by (simp add: unpack_def)
qed

subsection \<open>The routines copy the packet\<close>

lemma otg_do_push_eq: "otg_do_push m f b n = (f @ map (\<lambda>j. word_at m (b + 4 * j)) [0..<n], b + 4 * n)"
proof (induction n arbitrary: f b)
  case (Suc n)
  have "[0..<Suc n] = 0 # map Suc [0..<n]" by (simp add: upt_conv_Cons map_Suc_upt del: upt_Suc)
  then show ?case using Suc by (simp add: o_def add.assoc del: upt_Suc)
qed simp

lemma otg_write_from_buffer_sends:
  "\<exists>ws. otg_fifo_write_from_buffer m f b n = f @ ws \<and> length ws = (n + 3) div 4 \<and> unpack n ws = map m [b..<b + n]"
  using unpack_words [of "map (\<lambda>j. word_at m (b + 4 * j)) [0..<(n + 3) div 4]" m b n]
  by (auto simp: otg_fifo_write_from_buffer_def otg_do_push_eq)

text \<open>Queues: the read pointer may move on over the oldest bytes.\<close>

lemma q_skip:
  assumes "q_holds q (ys @ zs)"
  shows "q_holds (q\<lparr>q_rdptr := (q_rdptr q + length ys) mod q_top q\<rparr>) zs"
    "i < length ys \<Longrightarrow> q_rdptr q + i < q_top q \<Longrightarrow> q_data q ! (q_rdptr q + i) = ys ! i" "q_rdptr q < q_top q"
proof -
  note r = ring_okD [OF assms [unfolded q_holds_def]]
  show "q_rdptr q < q_top q" using r(1) .
  show "i < length ys \<Longrightarrow> q_rdptr q + i < q_top q \<Longrightarrow> q_data q ! (q_rdptr q + i) = ys ! i"
    using r(5) [of i] by (simp add: nth_append)
  have "q_data q ! ((q_rdptr q + length ys + i) mod q_top q) = zs ! i" if "i < length zs" for i
    using r(5) [of "length ys + i"] that by (simp add: add.assoc)
  then show "q_holds (q\<lparr>q_rdptr := (q_rdptr q + length ys) mod q_top q\<rparr>) zs"
    using r by (simp add: q_holds_def ring_ok_def mod_simps add.assoc)
qed

fun gathered :: "nat \<Rightarrow> 8 word list \<Rightarrow> 32 word" where
  "gathered i [] = 0"
| "gathered i (y # ys) = push_bit (i * 8) (ucast y) OR gathered (i + 1) ys"

lemma gathered_word: "length ys \<le> 4 \<Longrightarrow> gathered 0 ys = word_at (nth0 ys) 0"
proof -
  assume "length ys \<le> 4"
  then consider "ys = []" | a where "ys = [a]" | a b where "ys = [a, b]" | a b c where "ys = [a, b, c]" |
      a b c d where "ys = [a, b, c, d]"
    by (cases ys; cases "tl ys"; cases "tl (tl ys)"; cases "tl (tl (tl ys))"; cases "tl (tl (tl (tl ys)))") auto
  then show ?thesis by cases (simp_all add: word_at_def nth0_def)
qed

lemma pack_next: "0 < length d \<Longrightarrow> pack d = gathered 0 (take 4 d) # pack (drop 4 d)"
proof -
  assume d: "0 < length d"
  have w: "pack (take 4 d) = [gathered 0 (take 4 d)]"
    using d pack_word [of "take 4 d"] gathered_word [of "take 4 d"] by simp
  show ?thesis
  proof (cases "length d \<le> 4")
    case False
    then have "pack (take 4 d @ drop 4 d) = pack (take 4 d) @ pack (drop 4 d)" by (intro pack_append) simp
    then show ?thesis using w by simp
  qed (use w in simp)
qed

lemma otg_gather_eq:
  "q_holds q (ys @ zs) \<Longrightarrow> length ys + i \<le> 4 \<Longrightarrow> length ys \<le> n \<Longrightarrow> length ys = n \<or> length ys + i = 4 \<Longrightarrow>
   \<exists>r. otg_gather i n w q = (w OR gathered i ys, n - length ys, q\<lparr>q_rdptr := r\<rparr>) \<and> q_holds (q\<lparr>q_rdptr := r\<rparr>) zs"
proof (induction ys arbitrary: i n w q)
  case Nil
  then show ?case by (auto simp: otg_gather.simps intro!: exI [of _ "q_rdptr q"])
next
  case (Cons y ys)
  have l: "fst (q_load q) = y" "q_holds (snd (q_load q)) (ys @ zs)" using ioq.get_holds [of q y "ys @ zs"] Cons.prems(1) by auto
  obtain r where "otg_gather (i + 1) (n - 1) (w OR push_bit (i * 8) (ucast y)) (snd (q_load q)) =
        ((w OR push_bit (i * 8) (ucast y)) OR gathered (i + 1) ys, n - 1 - length ys, (snd (q_load q))\<lparr>q_rdptr := r\<rparr>)"
      "q_holds ((snd (q_load q))\<lparr>q_rdptr := r\<rparr>) zs"
    using Cons.IH [OF l(2), of "i + 1" "n - 1"] Cons.prems by fastforce
  moreover have "(snd (q_load q))\<lparr>q_rdptr := r\<rparr> = q\<lparr>q_rdptr := r\<rparr>" by (simp add: q_load_ring)
  ultimately show ?case using Cons.prems l(1)
    by (subst otg_gather.simps) (auto simp: split_beta or.assoc)
qed

text \<open>One round of the loop: \<open>st\<close> words from the buffer, then, unless the end of the buffer is reached, a gathered word.\<close>

lemma otg_push_held:
  assumes "q_holds q (as @ zs)" "length as = 4 * st" "4 * st \<le> q_top q - q_rdptr q"
  shows "otg_do_push ((!) (q_data q)) f (q_rdptr q) st = (f @ pack as, q_rdptr q + 4 * st)"
proof -
  note s = q_skip [OF assms(1)]
  have "word_at ((!) (q_data q)) (q_rdptr q + 4 * j) = word_at (nth0 as) (4 * j)" if "j < st" for j
    using that s(2,3) assms(2,3) by (intro word_at_cong) (auto simp: nth0_def add.assoc)
  then show ?thesis using assms(2) by (simp add: otg_do_push_eq pack_def)
qed

lemma otg_write_round:
  assumes "q_holds q (as @ zs)" "length as = 4 * st" "st = min (n div 4) ((q_top q - q_rdptr q) div 4)" "0 < n"
    and "q1 = q\<lparr>q_rdptr := (q_rdptr q + 4 * st) mod q_top q\<rparr>"
  shows "otg_write_loop n q f =
    (if n div 4 > 0 \<and> q_rdptr q + 4 * st \<ge> q_top q then otg_write_loop (n - 4 * st) q1 (f @ pack as)
     else if n - 4 * st = 0 then Some (q1, f @ pack as)
     else let (w, rest, q) = otg_gather 0 (n - 4 * st) 0 q1 in otg_write_loop rest q (f @ pack as @ [w]))"
proof -
  have sk: "q_rdptr q < q_top q" using q_skip(3) [OF assms(1)] .
  have le: "4 * st \<le> q_top q - q_rdptr q" using assms(3) by simp
  note push = otg_push_held [OF assms(1,2) le, of f]
  have "n div 4 = 0 \<Longrightarrow> st = 0" using assms(3) by simp
  moreover have "(if n div 4 \<le> (q_top q - q_rdptr q) div 4 then n div 4 else (q_top q - q_rdptr q) div 4) = st"
    using assms(3) by (simp add: min_def)
  moreover have "q_rdptr q + 4 * st \<ge> q_top q \<Longrightarrow> q_rdptr q + 4 * st = q_top q" using le sk by simp
  moreover have "as = []" if "st = 0" using that assms(2) by simp
  ultimately show ?thesis using assms(4,5) sk push
    by (subst otg_write_loop.simps) (auto simp: Let_def mult.commute)
qed

lemma otg_write_loop_eq:
  "q_holds q (ys @ zs) \<Longrightarrow> length ys = n \<Longrightarrow>
   \<exists>r. otg_write_loop n q f = Some (q\<lparr>q_rdptr := r\<rparr>, f @ pack ys) \<and> q_holds (q\<lparr>q_rdptr := r\<rparr>) zs"
proof (induction n arbitrary: q ys f rule: less_induct)
  case (less n)
  show ?case
  proof (cases "n = 0")
    case True
    then show ?thesis using less.prems by (auto simp: otg_write_loop.simps intro!: exI [of _ "q_rdptr q"])
  next
    case False
    define st where "st = min (n div 4) ((q_top q - q_rdptr q) div 4)"
    define q1 where "q1 = q\<lparr>q_rdptr := (q_rdptr q + 4 * st) mod q_top q\<rparr>"
    let ?a = "take (4 * st) ys" and ?d = "drop (4 * st) ys"
    have st: "4 * st \<le> n" by (simp add: st_def)
    have la: "length ?a = 4 * st" using less.prems(2) st by simp
    have q: "q_holds q (?a @ ?d @ zs)" using less.prems(1) by (metis append.assoc append_take_drop_id)
    have h1: "q_holds q1 (?d @ zs)" using q_skip(1) [OF q] la by (simp add: q1_def)
    have pk: "pack ys = pack ?a @ pack ?d" using pack_append [of ?a ?d] la by simp
    note step = otg_write_round [OF q la st_def _ q1_def, of f]
    show ?thesis
    proof (cases "n div 4 > 0 \<and> q_rdptr q + 4 * st \<ge> q_top q")
      case True
      then have "0 < st" using q_skip(3) [OF q] by (cases st) auto
      then have lt: "n - 4 * st < n" "length ?d = n - 4 * st" using False less.prems(2) by simp_all
      obtain r where "otg_write_loop (n - 4 * st) q1 (f @ pack ?a) = Some (q1\<lparr>q_rdptr := r\<rparr>, (f @ pack ?a) @ pack ?d)"
          "q_holds (q1\<lparr>q_rdptr := r\<rparr>) zs"
        using less.IH [OF lt(1) h1 lt(2), of "f @ pack ?a"] by blast
      then show ?thesis using step True pk by (auto simp: q1_def)
    next
      case F: False
      show ?thesis
      proof (cases "n - 4 * st = 0")
        case True
        then have "?d = []" using less.prems(2) by simp
        then have "pack ys = pack ?a" "q_holds q1 zs" using pk h1 by simp_all
        moreover have "otg_write_loop n q f = Some (q1, f @ pack ?a)" using step False F True by simp
        ultimately show ?thesis unfolding q1_def by auto
      next
        case G: False
        let ?b = "take 4 ?d" and ?e = "drop 4 ?d"
        have lb: "0 < length ?b" "length ?b \<le> 4" "length ?b = n - 4 * st \<or> length ?b = 4" "length ?b \<le> n - 4 * st"
          using G less.prems(2) by auto
        have "q_holds q1 (?b @ ?e @ zs)" using h1 by (metis append.assoc append_take_drop_id)
        from otg_gather_eq [OF this, of 0 "n - 4 * st" 0] obtain r where
            r: "otg_gather 0 (n - 4 * st) 0 q1 = (gathered 0 ?b, n - 4 * st - length ?b, q1\<lparr>q_rdptr := r\<rparr>)"
              "q_holds (q1\<lparr>q_rdptr := r\<rparr>) (?e @ zs)"
          using lb(2-4) by fastforce
        have lt: "n - 4 * st - length ?b < n" "length ?e = n - 4 * st - length ?b" using G lb(1) less.prems(2) by auto
        obtain r' where "otg_write_loop (n - 4 * st - length ?b) (q1\<lparr>q_rdptr := r\<rparr>) (f @ pack ?a @ [gathered 0 ?b]) =
            Some (q1\<lparr>q_rdptr := r'\<rparr>, (f @ pack ?a @ [gathered 0 ?b]) @ pack ?e)" "q_holds (q1\<lparr>q_rdptr := r'\<rparr>) zs"
          using less.IH [OF lt(1) r(2) lt(2), of "f @ pack ?a @ [gathered 0 ?b]"] by auto
        moreover have "pack ?d = [gathered 0 ?b] @ pack ?e" using pack_next [of ?d] lb(1) by simp
        ultimately show ?thesis using step F G r pk by (auto simp: q1_def)
      qed
    qed
  qed
qed

subsection \<open>Receiving into a queue\<close>

text \<open>The slip in the distance makes every word go byte by byte; what is received is right all the same.\<close>

lemma otg_scatter_eq:
  "length bs + i \<le> 4 \<Longrightarrow> length bs \<le> n \<Longrightarrow> length bs = n \<or> length bs + i = 4 \<Longrightarrow> bs = map (byte_of w) [i..<i + length bs] \<Longrightarrow>
   otg_scatter i n w q = (n - length bs, ioq.put_list bs q)"
proof (induction bs arbitrary: i n q)
  case Nil
  then show ?case by (auto simp: otg_scatter.simps)
next
  case (Cons b bs)
  have "[i..<i + length (b # bs)] = i # [i + 1..<(i + 1) + length bs]" by (simp add: upt_conv_Cons del: upt_Suc)
  then have b: "b = byte_of w i" "bs = map (byte_of w) [i + 1..<(i + 1) + length bs]" using Cons.prems(4) by simp_all
  show ?case using Cons.IH [OF _ _ _ b(2), of "n - 1" "q_store b q"] Cons.prems(1-3) b(1)
    by (subst otg_scatter.simps) auto
qed

lemma put_list_frame:
  "q_top (ioq.put_list bs q) = q_top q" "q_counter (ioq.put_list bs q) = q_counter q" "q_waiting (ioq.put_list bs q) = q_waiting q"
  by (induction bs arbitrary: q) simp_all

lemma put_list_append: "ioq.put_list (as @ bs) q = ioq.put_list bs (ioq.put_list as q)"
  by (induction as arbitrary: q) simp_all

lemma put_list_wrptr: "q_wrptr q < q_top q \<Longrightarrow> q_wrptr (ioq.put_list bs q) < q_top q"
proof (induction bs arbitrary: q)
  case (Cons b bs)
  have "q_wrptr (q_store b q) < q_top (q_store b q)" using Cons.prems by (auto simp: q_store_ring ring_next_def)
  then show ?case using Cons.IH [of "q_store b q"] by simp
qed simp

lemma otg_read_round:
  assumes "0 < n" "q_wrptr q < q_top q"
  shows "otg_read_loop n q (w # f) = (let (rest, q) = otg_scatter 0 n w q in otg_read_loop rest q f)"
  using assms by (subst otg_read_loop.simps) (simp add: map_nth Let_def)

lemma words_less:
  assumes "Suc l = (n + 3) div 4"
  shows "l = (n - min n 4 + 3) div 4"
proof (cases "n \<le> 4")
  case True
  then have "(n + 3) div 4 \<le> 1" by simp
  then show ?thesis using assms True by simp
next
  case False
  then have "n + 3 = (n - min n 4 + 3) + 4" by simp
  then show ?thesis using assms by (metis Suc_eq_plus1 add_right_imp_eq div_add_self2 zero_neq_numeral)
qed

lemma otg_read_loop_eq:
  "q_wrptr q < q_top q \<Longrightarrow> length ws = (n + 3) div 4 \<Longrightarrow>
   otg_read_loop n q (ws @ f) = Some (ioq.put_list (unpack n ws) q, f)"
proof (induction ws arbitrary: n q)
  case Nil
  then have "n = 0" by simp
  then show ?case by (simp add: otg_read_loop.simps [of 0] unpack_def)
next
  case (Cons w ws)
  let ?bs = "take n (word_bytes w)" and ?m = "min n 4"
  have n: "0 < n" using Cons.prems(2) by (cases n) auto
  have m: "length ws = (n - ?m + 3) div 4" using Cons.prems(2) by (intro words_less) simp
  have "otg_scatter 0 n w q = (n - ?m, ioq.put_list ?bs q)"
    using otg_scatter_eq [of ?bs 0 n w q] n by (auto simp: word_bytes_def take_map min_def)
  moreover have "unpack n (w # ws) = ?bs @ unpack (n - ?m) ws" by (simp add: unpack_def min_def)
  ultimately show ?case
    using Cons.IH [of "ioq.put_list ?bs q" "n - ?m"] m Cons.prems(1) n put_list_wrptr [of q ?bs] otg_read_round [of n q w "ws @ f"]
    by (simp add: put_list_frame put_list_append)
qed

lemma otg_queue_update_ok:
  assumes "kernel_ok k" "class_thread k"
  shows "\<exists>out k'. otg_queue_update n q k = Some (out, q\<lparr>q_counter := q_counter q + n\<rparr>, k') \<and> kernel_ok k' \<and> resched_ok k' \<and>
    queues k' (Q_THD (q_waiting q)) = []"
proof -
  let ?op = "chThdDequeueAllI (q_waiting q) MSG_OK"
  have I: "kernel_ok (k\<lparr>lock_cnt := 1\<rparr>)" "class_I (k\<lparr>lock_cnt := 1\<rparr>)"
    using assms by (simp_all add: class_I_def class_thread_def)
  obtain k1 where k1: "?op (k\<lparr>lock_cnt := 1\<rparr>) = Some k1" "lock_resched ?op k = Some (unlocked (rescheduled k1))"
      "kernel_ok (snd (unlocked (rescheduled k1)))" "resched_ok (snd (unlocked (rescheduled k1)))"
    using thd_dequeue_all.from_thread [OF assms] by auto
  have "queues k1 (Q_THD (q_waiting q)) = []"
    using chThdDequeueAllI_eq [OF I refl, of "q_waiting q" MSG_OK] k1(1) queues_woken_all [of "Q_THD (q_waiting q)" MSG_OK] by auto
  then have "queues (snd (unlocked (rescheduled k1))) (Q_THD (q_waiting q)) = []" by simp
  then show ?thesis using k1 by (cases "unlocked (rescheduled k1)") (auto simp: otg_queue_update_def)
qed

text \<open>
  C20. Sending from and receiving into queues. From an output queue that holds the packet the transmit FIFO gets
  exactly the words of the packet wherever the packet lies in the circular buffer: the hardware, which takes the
  length of the packet in bytes, sends the bytes of the queue. The words of a received packet put its bytes into an
  input queue with room for them, though the routine computes a wrong distance to the end of the buffer. Either way the
  queue stays well-formed, the counter is brought up to date and every thread that waits for the queue is made ready.
\<close>

theorem otg_queue_transfer:
  assumes ok: "kernel_ok k" "class_thread k" and oq: "oq_ok oq (bs @ rest)"
    and iq: "iq_ok iq held" "length held + length bs \<le> q_top iq"
  shows "(\<exists>out q' ws k'. otg_fifo_write_from_queue f oq (length bs) k = Some (out, q', f @ ws, k') \<and> unpack (length bs) ws = bs \<and>
           oq_ok q' rest \<and> kernel_ok k' \<and> resched_ok k' \<and> queues k' (Q_THD (q_waiting oq)) = []) \<and>
         (\<exists>out q' k'. otg_fifo_read_to_queue (pack bs @ f) iq (length bs) k = Some (out, q', f, k') \<and>
           iq_ok q' (held @ bs) \<and> kernel_ok k' \<and> resched_ok k' \<and> queues k' (Q_THD (q_waiting iq)) = [])"
proof -
  obtain r where r: "otg_write_loop (length bs) oq f = Some (oq\<lparr>q_rdptr := r\<rparr>, f @ pack bs)" "q_holds (oq\<lparr>q_rdptr := r\<rparr>) rest"
    using otg_write_loop_eq [of oq bs rest] oq by (auto simp: oq_ok_def)
  have w: "otg_read_loop (length bs) iq (pack bs @ f) = Some (ioq.put_list bs iq, f)"
    using otg_read_loop_eq [of iq "pack bs" "length bs" f] ring_okD(2) unpack_pack [of bs "[]"] iq(1)
    by (auto simp: iq_ok_def q_holds_def pack_def)
  have "oq_ok (oq\<lparr>q_rdptr := r, q_counter := q_counter oq + length bs\<rparr>) rest"
    using r(2) oq by (simp add: oq_ok_def q_holds_def)
  moreover have "iq_ok ((ioq.put_list bs iq)\<lparr>q_counter := q_counter iq + length bs\<rparr>) (held @ bs)"
    using iq ioq.put_list_holds [of iq held bs] by (simp add: iq_ok_def)
  ultimately show ?thesis
    using r(1) w otg_queue_update_ok [OF ok, of "length bs" "oq\<lparr>q_rdptr := r\<rparr>"]
      otg_queue_update_ok [OF ok, of "length bs" "ioq.put_list bs iq"] unpack_pack [of bs "[]"]
    by (fastforce simp: otg_fifo_write_from_queue_def otg_fifo_read_to_queue_def put_list_frame)
qed

theorem otg_queue_transfer_witness:
  "\<exists>out q' ws k'. otg_fifo_write_from_queue [] iq1 1 sys0 = Some (out, q', ws, k') \<and> unpack 1 ws = [65] \<and> oq_ok q' [] \<and> kernel_ok k'"
  using otg_queue_transfer [OF sys0_idle(1,2), of iq1 "[65]" "[]" iq1 "[65]" "[]"] iq1_ok by (auto simp: iq1_def)

end
