(* ===== verification/HalOtg.thy ===== *)
theory HalOtg
  imports HalOtgFifo
begin

text \<open>
  The data of the USB driver (\<open>usb.h\<close>, \<open>OTGv1/usb_lld.h\<close>) and the functions of the OTG low-level driver that act on endpoints,
  registers and the FIFO memory (\<open>OTGv1/usb_lld.c\<close>). A register holds what was last written to it; the loops that wait for
  the peripheral end. The configurations of endpoints point to their state structures: \<open>ep_states\<close> is the
  store of those structures, so that two pointers to one structure are one address. Callbacks are named, as a structure
  of the driver cannot hold functions on the driver; \<open>App_cb\<close> are those of the application.
\<close>

unbundle bit_operations_syntax

subsection \<open>Data\<close>

datatype usbstate_t = USB_UNINIT | USB_STOP | USB_READY | USB_SELECTED | USB_ACTIVE

datatype usbepstatus_t = EP_STATUS_DISABLED | EP_STATUS_STALLED | EP_STATUS_ACTIVE

datatype usbep0state_t =
  USB_EP0_WAITING_SETUP | USB_EP0_TX | USB_EP0_WAITING_TX0 | USB_EP0_WAITING_STS | USB_EP0_RX | USB_EP0_SENDING_STS | USB_EP0_ERROR

datatype usbevent_t =
  USB_EVENT_RESET | USB_EVENT_ADDRESS | USB_EVENT_CONFIGURED | USB_EVENT_SUSPEND | USB_EVENT_WAKEUP | USB_EVENT_STALLED

text \<open>
  A pointer to bytes is an object and an offset. \<open>Driver_fields\<close> are the adjacent fields \<open>status\<close> (two bytes),
  \<open>address\<close> and \<open>configuration\<close> of the driver, to which requests of the host take pointers; the status words are the constants
  of \<open>usb.c\<close>; \<open>Ram\<close> is all other memory.
\<close>

datatype usb_obj = Null_obj | Driver_fields | Zero_status | Active_status | Halted_status | Ep0setup_buffer | Ram

type_synonym uptr = "usb_obj \<times> nat"

datatype usbepcallback_t = Usb_ep0setup | Usb_ep0in | Usb_ep0out | App_cb nat

text \<open>
  \<open>USBInEndpointState\<close> and \<open>USBOutEndpointState\<close> have the same layout, and the union \<open>ep0_state\<close> makes use of it. The flag
  \<open>txqueued\<close> or \<open>rxqueued\<close> and the union it selects from are one value.
\<close>

datatype usb_mode = Linear uptr | Queue nat

record usb_ep_state =
  x_size :: nat
  x_cnt :: nat
  x_mode :: usb_mode
  x_totsize :: nat

record usb_ep_config =
  ep_mode :: "32 word"
  setup_cb :: "usbepcallback_t option"
  in_cb :: "usbepcallback_t option"
  out_cb :: "usbepcallback_t option"
  in_maxsize :: nat
  out_maxsize :: nat
  in_state :: "nat option"
  out_state :: "nat option"
  in_multiplier :: nat
  setup_buf :: uptr

record otg_params =
  rx_fifo_size :: nat
  otg_ram_size :: nat
  num_endpoints :: nat

record stm32_otg =
  DIEPCTL :: "nat \<Rightarrow> 32 word"
  DIEPTSIZ :: "nat \<Rightarrow> 32 word"
  DOEPCTL :: "nat \<Rightarrow> 32 word"
  DOEPTSIZ :: "nat \<Rightarrow> 32 word"
  DIEPTXF0 :: "32 word"
  DIEPTXF :: "nat \<Rightarrow> 32 word"
  DIEPEMPMSK :: "32 word"
  DAINTMSK :: "32 word"
  DIEPMSK :: "32 word"
  DOEPMSK :: "32 word"
  GINTMSK :: "32 word"
  GRXFSIZ :: "32 word"
  GAHBCFG :: "32 word"
  GCCFG :: "32 word"
  DCFG :: "32 word"
  TXFIFO :: "nat \<Rightarrow> 32 word list"
  RXFIFO :: "32 word list"

text \<open>\<open>wait\<close> is the thread reference of the pump thread; \<open>pump\<close> says that the thread has been created.\<close>

record usb_driver =
  u_state :: usbstate_t
  u_config :: bool
  transmitting :: "16 word"
  receiving :: "16 word"
  epc :: "nat \<Rightarrow> usb_ep_config option"
  in_params :: "nat \<Rightarrow> nat option"
  out_params :: "nat \<Rightarrow> nat option"
  ep0state :: usbep0state_t
  ep0next :: uptr
  ep0n :: nat
  ep0endcb :: "nat option"
  setup_pkt :: "8 word list"
  status :: "16 word"
  address :: "8 word"
  configuration :: "8 word"
  otg :: stm32_otg
  otgparams :: otg_params
  pmnext :: nat
  txpending :: "32 word"
  u_wait :: nat
  pump :: bool
  ep_states :: "nat \<Rightarrow> usb_ep_state"
  u_queues :: "nat \<Rightarrow> io_queue"
  u_mem :: "usb_obj \<Rightarrow> nat \<Rightarrow> 8 word"

definition USB_MAX_ENDPOINTS :: nat where "USB_MAX_ENDPOINTS = 5"
definition EP0_MAX_INSIZE :: nat where "EP0_MAX_INSIZE = 64"
definition EP0_MAX_OUTSIZE :: nat where "EP0_MAX_OUTSIZE = 64"

abbreviation "DIEPCTL_EPENA \<equiv> 0x80000000 :: 32 word"
abbreviation "DIEPCTL_EPDIS \<equiv> 0x40000000 :: 32 word"
abbreviation "DIEPCTL_SD0PID \<equiv> 0x10000000 :: 32 word"
abbreviation "DIEPCTL_SNAK \<equiv> 0x08000000 :: 32 word"
abbreviation "DIEPCTL_CNAK \<equiv> 0x04000000 :: 32 word"
abbreviation "DIEPCTL_STALL \<equiv> 0x00200000 :: 32 word"
abbreviation "DIEPCTL_USBAEP \<equiv> 0x00008000 :: 32 word"
abbreviation "GINTMSK_RXFLVLM \<equiv> 0x10 :: 32 word"
definition GAHBCFG_GINTMSK :: "32 word" where "GAHBCFG_GINTMSK = 1"

definition DIEPCTL_TXFNUM :: "nat \<Rightarrow> 32 word" where "DIEPCTL_TXFNUM n = push_bit 22 (of_nat n)"
definition DIEPCTL_EPTYP :: "nat \<Rightarrow> 32 word" where "DIEPCTL_EPTYP n = push_bit 18 (of_nat n)"
definition DIEPTXF_INEPTXFD :: "nat \<Rightarrow> 32 word" where "DIEPTXF_INEPTXFD n = push_bit 16 (of_nat n)"
definition DIEPTXF_INEPTXSA :: "nat \<Rightarrow> 32 word" where "DIEPTXF_INEPTXSA n = of_nat n"
definition DIEPTSIZ_PKTCNT :: "nat \<Rightarrow> 32 word" where "DIEPTSIZ_PKTCNT n = push_bit 19 (of_nat n)"
definition DOEPTSIZ_STUPCNT :: "nat \<Rightarrow> 32 word" where "DOEPTSIZ_STUPCNT n = push_bit 29 (of_nat n)"
definition DAINTMSK_OEPM :: "nat \<Rightarrow> 32 word" where "DAINTMSK_OEPM n = push_bit (16 + n) 1"
definition DAINTMSK_IEPM :: "nat \<Rightarrow> 32 word" where "DAINTMSK_IEPM n = push_bit n 1"

text \<open>The configuration of endpoint 0; its two state pointers are one structure, at address 0.\<close>

definition ep0config :: usb_ep_config where
  "ep0config = \<lparr>ep_mode = 0, setup_cb = Some Usb_ep0setup, in_cb = Some Usb_ep0in, out_cb = Some Usb_ep0out,
     in_maxsize = 0x40, out_maxsize = 0x40, in_state = Some 0, out_state = Some 0, in_multiplier = 1,
     setup_buf = (Ep0setup_buffer, 0)\<rparr>"

text \<open>Memory as the processor sees it, and what a store into an object changes; constants cannot be stored to.\<close>

definition usb_view :: "usb_driver \<Rightarrow> usb_obj \<Rightarrow> nat \<Rightarrow> 8 word" where
  "usb_view d ob i = (case ob of
      Driver_fields \<Rightarrow> (if i = 0 then ucast (status d) else if i = 1 then ucast (drop_bit 8 (status d))
        else if i = 2 then address d else if i = 3 then configuration d else u_mem d ob i)
    | Zero_status \<Rightarrow> (if i < 2 then 0 else u_mem d ob i)
    | Active_status \<Rightarrow> (if i < 2 then 0 else u_mem d ob i)
    | Halted_status \<Rightarrow> (if i = 0 then 1 else if i = 1 then 0 else u_mem d ob i)
    | _ \<Rightarrow> u_mem d ob i)"

definition usb_store :: "usb_obj \<Rightarrow> (nat \<Rightarrow> 8 word) \<Rightarrow> usb_driver \<Rightarrow> usb_driver option" where
  "usb_store ob m d = (case ob of
      Driver_fields \<Rightarrow> Some (d\<lparr>status := ucast (m 0) OR push_bit 8 (ucast (m 1)), address := m 2, configuration := m 3,
        u_mem := (u_mem d)(ob := m)\<rparr>)
    | Ep0setup_buffer \<Rightarrow> Some (d\<lparr>u_mem := (u_mem d)(ob := m)\<rparr>)
    | Ram \<Rightarrow> Some (d\<lparr>u_mem := (u_mem d)(ob := m)\<rparr>)
    | _ \<Rightarrow> None)"

subsection \<open>FIFO memory and endpoints\<close>

abbreviation upd_otg :: "(stm32_otg \<Rightarrow> stm32_otg) \<Rightarrow> usb_driver \<Rightarrow> usb_driver" where
  "upd_otg f d \<equiv> d\<lparr>otg := f (otg d)\<rparr>"

definition otg_disable_ep :: "usb_driver \<Rightarrow> usb_driver" where
  "otg_disable_ep usbp = upd_otg (\<lambda>r. let n = num_endpoints (otgparams usbp) in r\<lparr>
     DIEPCTL := (\<lambda>i. if i \<le> n then (if DIEPCTL r i AND DIEPCTL_EPENA \<noteq> 0 then DIEPCTL_EPDIS else 0) else DIEPCTL r i),
     DIEPTSIZ := (\<lambda>i. if i \<le> n then 0 else DIEPTSIZ r i),
     DOEPCTL := (\<lambda>i. if i \<le> n then (if DOEPCTL r i AND DIEPCTL_EPENA \<noteq> 0 then DIEPCTL_EPDIS else 0) else DOEPCTL r i),
     DOEPTSIZ := (\<lambda>i. if i \<le> n then 0 else DOEPTSIZ r i),
     DAINTMSK := DAINTMSK_OEPM 0 OR DAINTMSK_IEPM 0\<rparr>) usbp"

definition otg_rxfifo_flush :: "usb_driver \<Rightarrow> usb_driver" where
  "otg_rxfifo_flush usbp = upd_otg (\<lambda>r. r\<lparr>RXFIFO := []\<rparr>) usbp"

definition otg_txfifo_flush :: "nat \<Rightarrow> usb_driver \<Rightarrow> usb_driver" where
  "otg_txfifo_flush fifo usbp = upd_otg (\<lambda>r. r\<lparr>TXFIFO := (TXFIFO r)(fifo := [])\<rparr>) usbp"

definition otg_ram_reset :: "usb_driver \<Rightarrow> usb_driver" where
  "otg_ram_reset usbp = usbp\<lparr>pmnext := rx_fifo_size (otgparams usbp)\<rparr>"

definition otg_ram_alloc :: "nat \<Rightarrow> usb_driver \<Rightarrow> (nat \<times> usb_driver) option" where
  "otg_ram_alloc sz usbp =
     do { let next = pmnext usbp;
          let usbp = usbp\<lparr>pmnext := pmnext usbp + sz\<rparr>;
          assert_that (pmnext usbp \<le> otg_ram_size (otgparams usbp));
          Some (next, usbp) }"

definition usb_lld_reset :: "usb_driver \<Rightarrow> usb_driver option" where
  "usb_lld_reset usbp =
     do { let usbp = otg_txfifo_flush 0 usbp;
          let n = num_endpoints (otgparams usbp);
          let usbp = upd_otg (\<lambda>r. r\<lparr>
            DIEPCTL := (\<lambda>i. if i \<le> n then DIEPCTL_SNAK else DIEPCTL r i),
            DOEPCTL := (\<lambda>i. if i \<le> n then DIEPCTL_SNAK else DOEPCTL r i),
            DAINTMSK := DAINTMSK_OEPM 0 OR DAINTMSK_IEPM 0\<rparr>) usbp;
          let usbp = otg_ram_reset usbp;
          let usbp = upd_otg (\<lambda>r. r\<lparr>GRXFSIZ := of_nat (rx_fifo_size (otgparams usbp))\<rparr>) usbp;
          let usbp = otg_rxfifo_flush usbp;
          let usbp = upd_otg (\<lambda>r. r\<lparr>
            DCFG := DCFG r AND NOT 0x7F0,
            GINTMSK := GINTMSK r OR 0xC0010,
            DIEPMSK := 0x9,
            DOEPMSK := 0x9\<rparr>) usbp;
          let usbp = usbp\<lparr>epc := (epc usbp)(0 := Some ep0config)\<rparr>;
          let usbp = upd_otg (\<lambda>r. r\<lparr>
            DOEPTSIZ := (DOEPTSIZ r)(0 := 0),
            DOEPCTL := (DOEPCTL r)(0 := DIEPCTL_SD0PID OR DIEPCTL_USBAEP OR DIEPCTL_EPTYP 0 OR of_nat (out_maxsize ep0config)),
            DIEPTSIZ := (DIEPTSIZ r)(0 := 0),
            DIEPCTL := (DIEPCTL r)(0 := DIEPCTL_SD0PID OR DIEPCTL_USBAEP OR DIEPCTL_EPTYP 0 OR DIEPCTL_TXFNUM 0 OR
              of_nat (in_maxsize ep0config))\<rparr>) usbp;
          (next, usbp) \<leftarrow> otg_ram_alloc (in_maxsize ep0config div 4) usbp;
          Some (upd_otg (\<lambda>r. r\<lparr>DIEPTXF0 := DIEPTXF_INEPTXFD (in_maxsize ep0config div 4) OR DIEPTXF_INEPTXSA next\<rparr>) usbp) }"

definition usb_lld_set_address :: "usb_driver \<Rightarrow> usb_driver" where
  "usb_lld_set_address usbp = upd_otg (\<lambda>r. r\<lparr>DCFG := (DCFG r AND NOT 0x7F0) OR push_bit 4 (ucast (address usbp))\<rparr>) usbp"

text \<open>The two halves of \<open>usb_lld_init_endpoint\<close>; the mask of the endpoint type leaves no other value than the four of the switch.\<close>

definition init_out :: "nat \<Rightarrow> usb_ep_config \<Rightarrow> 32 word \<Rightarrow> usb_driver \<Rightarrow> usb_driver" where
  "init_out ep c ctl usbp = upd_otg (\<lambda>r.
     if out_cb c \<noteq> None
     then r\<lparr>DOEPTSIZ := (DOEPTSIZ r)(ep := 0), DOEPCTL := (DOEPCTL r)(ep := ctl OR of_nat (out_maxsize c)),
            DAINTMSK := DAINTMSK r OR DAINTMSK_OEPM ep\<rparr>
     else r\<lparr>DOEPTSIZ := (DOEPTSIZ r)(ep := 0), DOEPCTL := (DOEPCTL r)(ep := DOEPCTL r ep AND NOT DIEPCTL_USBAEP),
            DAINTMSK := DAINTMSK r AND NOT (DAINTMSK_OEPM ep)\<rparr>) usbp"

definition init_in :: "nat \<Rightarrow> usb_ep_config \<Rightarrow> 32 word \<Rightarrow> usb_driver \<Rightarrow> usb_driver option" where
  "init_in ep c ctl usbp =
     (if in_cb c \<noteq> None
      then do {
        let fsize = in_maxsize c div 4;
        let fsize = (if in_multiplier c > 1 then fsize * in_multiplier c else fsize);
        (next, usbp) \<leftarrow> otg_ram_alloc fsize usbp;
        let usbp = upd_otg (\<lambda>r. r\<lparr>DIEPTSIZ := (DIEPTSIZ r)(ep := 0),
          DIEPTXF := (DIEPTXF r)(ep - 1 := DIEPTXF_INEPTXFD fsize OR DIEPTXF_INEPTXSA next)\<rparr>) usbp;
        let usbp = otg_txfifo_flush ep usbp;
        Some (upd_otg (\<lambda>r. r\<lparr>DIEPCTL := (DIEPCTL r)(ep := ctl OR DIEPCTL_TXFNUM ep OR of_nat (in_maxsize c)),
          DAINTMSK := DAINTMSK r OR DAINTMSK_IEPM ep\<rparr>) usbp) }
      else do {
        let usbp = upd_otg (\<lambda>r. r\<lparr>DIEPTSIZ := (DIEPTSIZ r)(ep := 0), DIEPTXF := (DIEPTXF r)(ep - 1 := 0x02000400)\<rparr>) usbp;
        let usbp = otg_txfifo_flush ep usbp;
        Some (upd_otg (\<lambda>r. r\<lparr>DIEPCTL := (DIEPCTL r)(ep := DIEPCTL r ep AND NOT DIEPCTL_USBAEP),
          DAINTMSK := DAINTMSK r AND NOT (DAINTMSK_IEPM ep)\<rparr>) usbp) })"

definition usb_lld_init_endpoint :: "nat \<Rightarrow> usb_driver \<Rightarrow> usb_driver option" where
  "usb_lld_init_endpoint ep usbp =
     do { c \<leftarrow> epc usbp ep;
          assert_that (0 < ep);
          let ctl = DIEPCTL_SD0PID OR DIEPCTL_USBAEP OR DIEPCTL_EPTYP (unat (ep_mode c AND 3));
          init_in ep c ctl (init_out ep c ctl usbp) }"

definition usb_lld_disable_endpoints :: "usb_driver \<Rightarrow> usb_driver" where
  "usb_lld_disable_endpoints usbp = otg_disable_ep (otg_ram_reset usbp)"

definition usb_lld_get_status_out :: "nat \<Rightarrow> usb_driver \<Rightarrow> usbepstatus_t" where
  "usb_lld_get_status_out ep usbp =
     (let ctl = DOEPCTL (otg usbp) ep
      in if \<not> ctl AND DIEPCTL_USBAEP \<noteq> 0 then EP_STATUS_DISABLED
         else if ctl AND DIEPCTL_STALL \<noteq> 0 then EP_STATUS_STALLED else EP_STATUS_ACTIVE)"

definition usb_lld_get_status_in :: "nat \<Rightarrow> usb_driver \<Rightarrow> usbepstatus_t" where
  "usb_lld_get_status_in ep usbp =
     (let ctl = DIEPCTL (otg usbp) ep
      in if \<not> ctl AND DIEPCTL_USBAEP \<noteq> 0 then EP_STATUS_DISABLED
         else if ctl AND DIEPCTL_STALL \<noteq> 0 then EP_STATUS_STALLED else EP_STATUS_ACTIVE)"

definition usb_lld_stall_out :: "nat \<Rightarrow> usb_driver \<Rightarrow> usb_driver" where
  "usb_lld_stall_out ep usbp = upd_otg (\<lambda>r. r\<lparr>DOEPCTL := (DOEPCTL r)(ep := DOEPCTL r ep OR DIEPCTL_STALL)\<rparr>) usbp"

definition usb_lld_stall_in :: "nat \<Rightarrow> usb_driver \<Rightarrow> usb_driver" where
  "usb_lld_stall_in ep usbp = upd_otg (\<lambda>r. r\<lparr>DIEPCTL := (DIEPCTL r)(ep := DIEPCTL r ep OR DIEPCTL_STALL)\<rparr>) usbp"

definition usb_lld_clear_out :: "nat \<Rightarrow> usb_driver \<Rightarrow> usb_driver" where
  "usb_lld_clear_out ep usbp = upd_otg (\<lambda>r. r\<lparr>DOEPCTL := (DOEPCTL r)(ep := DOEPCTL r ep AND NOT DIEPCTL_STALL)\<rparr>) usbp"

definition usb_lld_clear_in :: "nat \<Rightarrow> usb_driver \<Rightarrow> usb_driver" where
  "usb_lld_clear_in ep usbp = upd_otg (\<lambda>r. r\<lparr>DIEPCTL := (DIEPCTL r)(ep := DIEPCTL r ep AND NOT DIEPCTL_STALL)\<rparr>) usbp"

definition usb_lld_read_setup :: "nat \<Rightarrow> usb_driver \<Rightarrow> (8 word list) option" where
  "usb_lld_read_setup ep usbp =
     do { c \<leftarrow> epc usbp ep;
          let (ob, i) = setup_buf c;
          assert_that (ob \<noteq> Null_obj);
          Some (map (usb_view usbp ob) [i..<i + 8]) }"

subsection \<open>Transfers\<close>

text \<open>The state structure of an endpoint, found through the pointers of its configuration.\<close>

definition in_ep :: "nat \<Rightarrow> usb_driver \<Rightarrow> (usb_ep_config \<times> nat) option" where
  "in_ep ep usbp = do { c \<leftarrow> epc usbp ep; a \<leftarrow> in_state c; Some (c, a) }"

definition out_ep :: "nat \<Rightarrow> usb_driver \<Rightarrow> (usb_ep_config \<times> nat) option" where
  "out_ep ep usbp = do { c \<leftarrow> epc usbp ep; a \<leftarrow> out_state c; Some (c, a) }"

abbreviation upd_ep :: "nat \<Rightarrow> (usb_ep_state \<Rightarrow> usb_ep_state) \<Rightarrow> usb_driver \<Rightarrow> usb_driver" where
  "upd_ep a f d \<equiv> d\<lparr>ep_states := (ep_states d)(a := f (ep_states d a))\<rparr>"

definition usb_lld_prepare_receive :: "nat \<Rightarrow> usb_driver \<Rightarrow> usb_driver option" where
  "usb_lld_prepare_receive ep usbp =
     do { (c, a) \<leftarrow> out_ep ep usbp;
          let n = x_size (ep_states usbp a);
          let m = (if ep = 0 \<and> n > EP0_MAX_OUTSIZE then EP0_MAX_OUTSIZE else n);
          let usbp = upd_ep a (\<lambda>s. s\<lparr>x_totsize := n, x_size := m\<rparr>) usbp;
          assert_that (out_maxsize c \<noteq> 0);
          let pcnt = (m + out_maxsize c - 1) div out_maxsize c;
          Some (upd_otg (\<lambda>r. r\<lparr>DOEPTSIZ := (DOEPTSIZ r)(ep := DOEPTSIZ_STUPCNT 3 OR DIEPTSIZ_PKTCNT pcnt OR of_nat m)\<rparr>) usbp) }"

definition usb_lld_prepare_transmit :: "nat \<Rightarrow> usb_driver \<Rightarrow> usb_driver option" where
  "usb_lld_prepare_transmit ep usbp =
     do { (c, a) \<leftarrow> in_ep ep usbp;
          let n = x_size (ep_states usbp a);
          if n = 0
          then Some (upd_otg (\<lambda>r. r\<lparr>DIEPTSIZ := (DIEPTSIZ r)(ep := DIEPTSIZ_PKTCNT 1)\<rparr>) (upd_ep a (\<lambda>s. s\<lparr>x_totsize := n\<rparr>) usbp))
          else do {
            let m = (if ep = 0 \<and> n > EP0_MAX_INSIZE then EP0_MAX_INSIZE else n);
            let usbp = upd_ep a (\<lambda>s. s\<lparr>x_totsize := n, x_size := m\<rparr>) usbp;
            assert_that (in_maxsize c \<noteq> 0);
            let pcnt = (m + in_maxsize c - 1) div in_maxsize c;
            Some (upd_otg (\<lambda>r. r\<lparr>DIEPTSIZ := (DIEPTSIZ r)(ep := DIEPTSIZ_PKTCNT pcnt OR of_nat m)\<rparr>) usbp) } }"

definition usb_lld_start_out :: "nat \<Rightarrow> usb_driver \<Rightarrow> usb_driver" where
  "usb_lld_start_out ep usbp = upd_otg (\<lambda>r. r\<lparr>DOEPCTL := (DOEPCTL r)(ep := DOEPCTL r ep OR DIEPCTL_CNAK)\<rparr>) usbp"

definition usb_lld_start_in :: "nat \<Rightarrow> usb_driver \<Rightarrow> usb_driver" where
  "usb_lld_start_in ep usbp = upd_otg (\<lambda>r. r\<lparr>DIEPCTL := (DIEPCTL r)(ep := DIEPCTL r ep OR DIEPCTL_EPENA OR DIEPCTL_CNAK),
     DIEPEMPMSK := DIEPEMPMSK r OR push_bit ep 1\<rparr>) usbp"

definition usb_lld_get_transaction_size :: "nat \<Rightarrow> usb_driver \<Rightarrow> nat option" where
  "usb_lld_get_transaction_size ep usbp = do { (c, a) \<leftarrow> out_ep ep usbp; Some (x_cnt (ep_states usbp a)) }"

text \<open>
  \<open>otg_txfifo_handler\<close>, run by the pump thread. \<open>free\<close> is the number of free words the peripheral reports when \<open>txcnt\<close>
  bytes are written. Copying from a queue may switch to a thread it has woken; \<open>_resume\<close> is what follows.
\<close>

definition tx_next :: "nat \<Rightarrow> usb_driver \<Rightarrow> (usb_ep_state \<times> nat \<times> nat) option" where
  "tx_next ep usbp =
     do { (c, a) \<leftarrow> in_ep ep usbp;
          let s = ep_states usbp a;
          let n = x_size s - x_cnt s;
          Some (s, a, if n > in_maxsize c then in_maxsize c else n) }"

partial_function (option) otg_txfifo_handler ::
  "(nat \<Rightarrow> nat) \<Rightarrow> nat \<Rightarrow> usb_driver \<Rightarrow> ch_system \<Rightarrow> (bool outcome \<times> usb_driver \<times> ch_system) option" where
  "otg_txfifo_handler free ep usbp k =
     do { (s, a, n) \<leftarrow> tx_next ep usbp;
          if x_cnt s \<ge> x_size s then Some (Done True, usbp, k)
          else if free (x_cnt s) * 4 < n then Some (Done False, usbp, k)
          else (case x_mode s of
            Queue q \<Rightarrow> do {
              (out, oqp, f, k) \<leftarrow> otg_fifo_write_from_queue (TXFIFO (otg usbp) ep) (u_queues usbp q) n k;
              let usbp = upd_otg (\<lambda>r. r\<lparr>TXFIFO := (TXFIFO r)(ep := f)\<rparr>) (usbp\<lparr>u_queues := (u_queues usbp)(q := oqp)\<rparr>);
              (case out of
                Done _ \<Rightarrow> otg_txfifo_handler free ep (upd_ep a (\<lambda>s. s\<lparr>x_cnt := x_cnt s + n\<rparr>) usbp) k
              | Switched \<Rightarrow> Some (Switched, usbp, k)) }
          | Linear (ob, i) \<Rightarrow>
              let f = otg_fifo_write_from_buffer (usb_view usbp ob) (TXFIFO (otg usbp) ep) i n;
                  usbp = upd_otg (\<lambda>r. r\<lparr>TXFIFO := (TXFIFO r)(ep := f)\<rparr>) usbp
              in otg_txfifo_handler free ep (upd_ep a (\<lambda>s. s\<lparr>x_mode := Linear (ob, i + n), x_cnt := x_cnt s + n\<rparr>) usbp) k) }"

definition otg_txfifo_handler_resume ::
  "(nat \<Rightarrow> nat) \<Rightarrow> nat \<Rightarrow> nat \<Rightarrow> usb_driver \<Rightarrow> ch_system \<Rightarrow> (bool outcome \<times> usb_driver \<times> ch_system) option" where
  "otg_txfifo_handler_resume free ep n usbp k =
     do { k \<leftarrow> osalSysUnlock k;
          (c, a) \<leftarrow> in_ep ep usbp;
          otg_txfifo_handler free ep (upd_ep a (\<lambda>s. s\<lparr>x_cnt := x_cnt s + n\<rparr>) usbp) k }"

text \<open>
  \<open>otg_rxfifo_handler\<close> for the status word \<open>sts\<close> popped from the receive FIFO. The space left in a linear buffer is
  an unsigned difference of 32 bits.
\<close>

definition rx_to_buffer :: "uptr \<Rightarrow> nat \<Rightarrow> nat \<Rightarrow> usb_driver \<Rightarrow> usb_driver option" where
  "rx_to_buffer p cnt mx usbp =
     do { (f, m) \<leftarrow> otg_fifo_read_to_buffer (RXFIFO (otg usbp)) (usb_view usbp (fst p)) (snd p) cnt mx;
          let usbp = upd_otg (\<lambda>r. r\<lparr>RXFIFO := f\<rparr>) usbp;
          if cnt = 0 \<or> (mx + 3) mod 2 ^ 32 < 4 then Some usbp else usb_store (fst p) m usbp }"

definition otg_rxfifo_handler :: "32 word \<Rightarrow> usb_driver \<Rightarrow> ch_system \<Rightarrow> (unit outcome \<times> usb_driver \<times> ch_system) option" where
  "otg_rxfifo_handler sts usbp k =
     (let pktsts = unat (drop_bit 17 sts AND 15);
          cnt = unat (drop_bit 4 sts AND 0x7FF);
          ep = unat (sts AND 15)
      in if pktsts = 6 then do {
           c \<leftarrow> epc usbp ep;
           usbp \<leftarrow> rx_to_buffer (setup_buf c) cnt 8 usbp;
           Some (Done (), usbp, k) }
         else if pktsts = 2 then do {
           (c, a) \<leftarrow> out_ep ep usbp;
           let s = ep_states usbp a;
           let count = upd_ep a (\<lambda>s. s\<lparr>x_cnt := x_cnt s + cnt\<rparr>);
           (case x_mode s of
             Queue q \<Rightarrow> do {
               (out, iqp, f, k) \<leftarrow> otg_fifo_read_to_queue (RXFIFO (otg usbp)) (u_queues usbp q) cnt k;
               let usbp = upd_otg (\<lambda>r. r\<lparr>RXFIFO := f\<rparr>) (usbp\<lparr>u_queues := (u_queues usbp)(q := iqp)\<rparr>);
               Some (out, case out of Done _ \<Rightarrow> count usbp | Switched \<Rightarrow> usbp, k) }
           | Linear (ob, i) \<Rightarrow> do {
               usbp \<leftarrow> rx_to_buffer (ob, i) cnt ((x_size s + 2 ^ 32 - x_cnt s) mod 2 ^ 32) usbp;
               Some (Done (), count (upd_ep a (\<lambda>s. s\<lparr>x_mode := Linear (ob, i + cnt)\<rparr>) usbp), k) }) }
         else Some (Done (), usbp, k))"

definition otg_rxfifo_handler_resume :: "nat \<Rightarrow> nat \<Rightarrow> usb_driver \<Rightarrow> ch_system \<Rightarrow> (unit outcome \<times> usb_driver \<times> ch_system) option" where
  "otg_rxfifo_handler_resume ep cnt usbp k =
     do { k \<leftarrow> osalSysUnlock k;
          (c, a) \<leftarrow> out_ep ep usbp;
          Some (Done (), upd_ep a (\<lambda>s. s\<lparr>x_cnt := x_cnt s + cnt\<rparr>) usbp, k) }"

end
