(* ===== verification/HalUsb.thy ===== *)
theory HalUsb
  imports HalOtg
begin

text \<open>
  The USB driver, \<open>usb.c\<close> and the macros of \<open>usb.h\<close>, with the interrupt handlers of the OTG port. The configuration of
  the driver is a structure of functions of the application: it is the parameter \<open>C\<close>, and \<open>u_config\<close> says that the driver
  points to it. The options of the port: the status stage of a control transfer is done by software, the address is set
  early and acknowledged by software.
\<close>

unbundle bit_operations_syntax

type_synonym usb_action = "usb_driver \<Rightarrow> ch_system \<Rightarrow> (usb_driver \<times> ch_system) option"

text \<open>\<open>ep_calls\<close> and \<open>end_calls\<close> are the endpoint callbacks and the end callbacks of control transfers, by their numbers.\<close>

record usb_config =
  event_cb :: "(usbevent_t \<Rightarrow> usb_action) option"
  get_descriptor_cb :: "8 word \<Rightarrow> 8 word \<Rightarrow> 16 word \<Rightarrow> usb_driver \<Rightarrow> (uptr \<times> nat) option"
  requests_hook_cb :: "(usb_driver \<Rightarrow> ch_system \<Rightarrow> (bool \<times> usb_driver \<times> ch_system) option) option"
  sof_cb :: "usb_action option"
  ep_calls :: "nat \<Rightarrow> nat \<Rightarrow> usb_action"
  end_calls :: "nat \<Rightarrow> usb_action"

subsection \<open>Macros\<close>

definition usbGetTransmitStatusI :: "nat \<Rightarrow> usb_driver \<Rightarrow> bool" where
  "usbGetTransmitStatusI ep usbp \<longleftrightarrow> transmitting usbp AND push_bit ep 1 \<noteq> 0"

definition usbGetReceiveStatusI :: "nat \<Rightarrow> usb_driver \<Rightarrow> bool" where
  "usbGetReceiveStatusI ep usbp \<longleftrightarrow> receiving usbp AND push_bit ep 1 \<noteq> 0"

definition usbSetupTransfer :: "uptr \<Rightarrow> nat \<Rightarrow> nat option \<Rightarrow> usb_driver \<Rightarrow> usb_driver" where
  "usbSetupTransfer buf n endcb usbp = usbp\<lparr>ep0next := buf, ep0n := n, ep0endcb := endcb\<rparr>"

definition usb_isr_invoke_event_cb :: "usb_config \<Rightarrow> usbevent_t \<Rightarrow> usb_action" where
  "usb_isr_invoke_event_cb C evt usbp k =
     do { assert_that (u_config usbp); case event_cb C of None \<Rightarrow> Some (usbp, k) | Some f \<Rightarrow> f evt usbp k }"

definition usb_isr_invoke_sof_cb :: "usb_config \<Rightarrow> usb_action" where
  "usb_isr_invoke_sof_cb C usbp k =
     do { assert_that (u_config usbp); case sof_cb C of None \<Rightarrow> Some (usbp, k) | Some f \<Rightarrow> f usbp k }"

definition usb_null :: uptr where "usb_null = (Null_obj, 0)"

subsection \<open>Endpoint operations\<close>

definition usbPrepareReceive :: "nat \<Rightarrow> uptr \<Rightarrow> nat \<Rightarrow> usb_driver \<Rightarrow> usb_driver option" where
  "usbPrepareReceive ep buf n usbp =
     do { (c, a) \<leftarrow> out_ep ep usbp;
          usb_lld_prepare_receive ep (upd_ep a (\<lambda>s. s\<lparr>x_mode := Linear buf, x_size := n, x_cnt := 0\<rparr>) usbp) }"

definition usbPrepareTransmit :: "nat \<Rightarrow> uptr \<Rightarrow> nat \<Rightarrow> usb_driver \<Rightarrow> usb_driver option" where
  "usbPrepareTransmit ep buf n usbp =
     do { (c, a) \<leftarrow> in_ep ep usbp;
          usb_lld_prepare_transmit ep (upd_ep a (\<lambda>s. s\<lparr>x_mode := Linear buf, x_size := n, x_cnt := 0\<rparr>) usbp) }"

definition usbPrepareQueuedReceive :: "nat \<Rightarrow> nat \<Rightarrow> nat \<Rightarrow> usb_driver \<Rightarrow> usb_driver option" where
  "usbPrepareQueuedReceive ep iqp n usbp =
     do { (c, a) \<leftarrow> out_ep ep usbp;
          usb_lld_prepare_receive ep (upd_ep a (\<lambda>s. s\<lparr>x_mode := Queue iqp, x_size := n, x_cnt := 0\<rparr>) usbp) }"

definition usbPrepareQueuedTransmit :: "nat \<Rightarrow> nat \<Rightarrow> nat \<Rightarrow> usb_driver \<Rightarrow> usb_driver option" where
  "usbPrepareQueuedTransmit ep oqp n usbp =
     do { (c, a) \<leftarrow> in_ep ep usbp;
          usb_lld_prepare_transmit ep (upd_ep a (\<lambda>s. s\<lparr>x_mode := Queue oqp, x_size := n, x_cnt := 0\<rparr>) usbp) }"

definition usbStartReceiveI :: "nat \<Rightarrow> usb_driver \<Rightarrow> ch_system \<Rightarrow> (bool \<times> usb_driver) option" where
  "usbStartReceiveI ep usbp k =
     do { chDbgCheckClassI k;
          if usbGetReceiveStatusI ep usbp then Some (True, usbp)
          else Some (False, usb_lld_start_out ep (usbp\<lparr>receiving := receiving usbp OR push_bit ep 1\<rparr>)) }"

definition usbStartTransmitI :: "nat \<Rightarrow> usb_driver \<Rightarrow> ch_system \<Rightarrow> (bool \<times> usb_driver) option" where
  "usbStartTransmitI ep usbp k =
     do { chDbgCheckClassI k;
          if usbGetTransmitStatusI ep usbp then Some (True, usbp)
          else Some (False, usb_lld_start_in ep (usbp\<lparr>transmitting := transmitting usbp OR push_bit ep 1\<rparr>)) }"

definition usbStallReceiveI :: "nat \<Rightarrow> usb_driver \<Rightarrow> ch_system \<Rightarrow> (bool \<times> usb_driver) option" where
  "usbStallReceiveI ep usbp k =
     do { chDbgCheckClassI k;
          if usbGetReceiveStatusI ep usbp then Some (True, usbp) else Some (False, usb_lld_stall_out ep usbp) }"

definition usbStallTransmitI :: "nat \<Rightarrow> usb_driver \<Rightarrow> ch_system \<Rightarrow> (bool \<times> usb_driver) option" where
  "usbStallTransmitI ep usbp k =
     do { chDbgCheckClassI k;
          if usbGetTransmitStatusI ep usbp then Some (True, usbp) else Some (False, usb_lld_stall_in ep usbp) }"

subsection \<open>Configuration\<close>

definition usbObjectInit :: "usb_driver \<Rightarrow> usb_driver" where
  "usbObjectInit usbp = usbp\<lparr>u_state := USB_STOP, u_config := False,
     in_params := (\<lambda>i. if i < USB_MAX_ENDPOINTS then None else in_params usbp i),
     out_params := (\<lambda>i. if i < USB_MAX_ENDPOINTS then None else out_params usbp i),
     transmitting := 0, receiving := 0\<rparr>"

definition usbInitEndpointI :: "nat \<Rightarrow> usb_ep_config \<Rightarrow> usb_driver \<Rightarrow> ch_system \<Rightarrow> usb_driver option" where
  "usbInitEndpointI ep epcp usbp k =
     do { chDbgCheckClassI k;
          assert_that (u_state usbp = USB_ACTIVE);
          assert_that (ep \<le> USB_MAX_ENDPOINTS);
          assert_that (epc usbp ep = None);
          let zero = \<lparr>x_size = 0, x_cnt = 0, x_mode = Linear usb_null, x_totsize = 0\<rparr>;
          let clear = (\<lambda>p usbp. case p of None \<Rightarrow> usbp | Some a \<Rightarrow> upd_ep a (\<lambda>_. zero) usbp);
          let usbp = clear (out_state epcp) (clear (in_state epcp) usbp);
          usb_lld_init_endpoint ep (usbp\<lparr>epc := (epc usbp)(ep \<mapsto> epcp)\<rparr>) }"

definition usbDisableEndpointsI :: "usb_driver \<Rightarrow> ch_system \<Rightarrow> usb_driver option" where
  "usbDisableEndpointsI usbp k =
     do { chDbgCheckClassI k;
          assert_that (u_state usbp = USB_SELECTED);
          let usbp = usbp\<lparr>transmitting := transmitting usbp AND NOT 1, receiving := receiving usbp AND NOT 1,
            epc := (\<lambda>i. if 1 \<le> i \<and> i \<le> USB_MAX_ENDPOINTS then None else epc usbp i)\<rparr>;
          Some (usb_lld_disable_endpoints usbp) }"

definition usb_reset :: "usb_driver \<Rightarrow> usb_driver option" where
  "usb_reset usbp = usb_lld_reset (usbp\<lparr>u_state := USB_READY, status := 0, address := 0, configuration := 0,
     transmitting := 0, receiving := 0, epc := (\<lambda>i. if i \<le> USB_MAX_ENDPOINTS then None else epc usbp i),
     ep0state := USB_EP0_WAITING_SETUP\<rparr>)"

subsection \<open>Requests\<close>

definition get_hword :: "8 word list \<Rightarrow> nat \<Rightarrow> 16 word" where
  "get_hword p i = ucast (p ! i) OR push_bit 8 (ucast (p ! (i + 1)))"

definition set_address :: "usb_config \<Rightarrow> usb_action" where
  "set_address C usbp k =
     do { let usbp = usb_lld_set_address (usbp\<lparr>address := setup_pkt usbp ! 2\<rparr>);
          (usbp, k) \<leftarrow> usb_isr_invoke_event_cb C USB_EVENT_ADDRESS usbp k;
          Some (usbp\<lparr>u_state := USB_SELECTED\<rparr>, k) }"

text \<open>The request that the switch of \<open>default_handler\<close> decodes: recipient and type without the direction, and the code.\<close>

definition usb_request :: "usb_driver \<Rightarrow> nat \<times> nat" where
  "usb_request usbp = (unat (setup_pkt usbp ! 0 AND 0x7F), unat (setup_pkt usbp ! 1))"

definition USB_REQ_GET_STATUS :: nat where "USB_REQ_GET_STATUS = 0"
definition USB_REQ_CLEAR_FEATURE :: nat where "USB_REQ_CLEAR_FEATURE = 1"
definition USB_REQ_SET_FEATURE :: nat where "USB_REQ_SET_FEATURE = 3"
definition USB_REQ_SET_ADDRESS :: nat where "USB_REQ_SET_ADDRESS = 5"
definition USB_REQ_GET_DESCRIPTOR :: nat where "USB_REQ_GET_DESCRIPTOR = 6"
definition USB_REQ_GET_CONFIGURATION :: nat where "USB_REQ_GET_CONFIGURATION = 8"
definition USB_REQ_SET_CONFIGURATION :: nat where "USB_REQ_SET_CONFIGURATION = 9"
definition USB_REQ_SYNCH_FRAME :: nat where "USB_REQ_SYNCH_FRAME = 12"
definition RECIPIENT_DEVICE :: nat where "RECIPIENT_DEVICE = 0"
definition RECIPIENT_INTERFACE :: nat where "RECIPIENT_INTERFACE = 1"
definition RECIPIENT_ENDPOINT :: nat where "RECIPIENT_ENDPOINT = 2"

lemmas usb_codes = USB_REQ_GET_STATUS_def USB_REQ_CLEAR_FEATURE_def USB_REQ_SET_FEATURE_def USB_REQ_SET_ADDRESS_def
  USB_REQ_GET_DESCRIPTOR_def USB_REQ_GET_CONFIGURATION_def USB_REQ_SET_CONFIGURATION_def USB_REQ_SYNCH_FRAME_def
  RECIPIENT_DEVICE_def RECIPIENT_INTERFACE_def RECIPIENT_ENDPOINT_def

definition ep_status_reply :: "usbepstatus_t \<Rightarrow> usb_driver \<Rightarrow> bool \<times> usb_driver" where
  "ep_status_reply st usbp = (case st of
      EP_STATUS_STALLED \<Rightarrow> (True, usbSetupTransfer (Halted_status, 0) 2 None usbp)
    | EP_STATUS_ACTIVE \<Rightarrow> (True, usbSetupTransfer (Active_status, 0) 2 None usbp)
    | EP_STATUS_DISABLED \<Rightarrow> (False, usbp))"

definition remote_wakeup :: "(16 word \<Rightarrow> 16 word) \<Rightarrow> usb_driver \<Rightarrow> bool \<times> usb_driver" where
  "remote_wakeup f usbp =
     (if setup_pkt usbp ! 2 = 1 then (True, usbSetupTransfer usb_null 0 None (usbp\<lparr>status := f (status usbp)\<rparr>)) else (False, usbp))"

text \<open>The four endpoint requests with a feature: only \<open>ENDPOINT_HALT\<close>, and not for endpoint 0.\<close>

definition ep_halt :: "(nat \<Rightarrow> usb_driver \<Rightarrow> usb_driver) \<Rightarrow> (nat \<Rightarrow> usb_driver \<Rightarrow> usb_driver) \<Rightarrow> usb_driver \<Rightarrow> bool \<times> usb_driver" where
  "ep_halt f_in f_out usbp =
     (let w = setup_pkt usbp ! 4; ep = unat (w AND 0x0F)
      in if setup_pkt usbp ! 2 \<noteq> 0 then (False, usbp)
         else (True, usbSetupTransfer usb_null 0 None
           (if ep \<noteq> 0 then (if w AND 0x80 \<noteq> 0 then f_in ep usbp else f_out ep usbp) else usbp)))"

definition default_handler :: "usb_config \<Rightarrow> usb_driver \<Rightarrow> ch_system \<Rightarrow> (bool \<times> usb_driver \<times> ch_system) option" where
  "default_handler C usbp k =
     (let (rt, rq) = usb_request usbp; s = setup_pkt usbp; pure = (\<lambda>(b, usbp). Some (b, usbp, k))
      in if rt = RECIPIENT_DEVICE \<and> rq = USB_REQ_GET_STATUS
         then pure (True, usbSetupTransfer (Driver_fields, 0) 2 None usbp)
         else if rt = RECIPIENT_DEVICE \<and> rq = USB_REQ_CLEAR_FEATURE then pure (remote_wakeup (\<lambda>st. st AND NOT 2) usbp)
         else if rt = RECIPIENT_DEVICE \<and> rq = USB_REQ_SET_FEATURE then pure (remote_wakeup (\<lambda>st. st OR 2) usbp)
         else if rt = RECIPIENT_DEVICE \<and> rq = USB_REQ_SET_ADDRESS
         then do { (usbp, k) \<leftarrow> (if s ! 0 = 0 \<and> unat (s ! 1) = USB_REQ_SET_ADDRESS then set_address C usbp k else Some (usbp, k));
                   Some (True, usbSetupTransfer usb_null 0 None usbp, k) }
         else if rt = RECIPIENT_DEVICE \<and> rq = USB_REQ_GET_DESCRIPTOR
         then do { assert_that (u_config usbp);
                   (case get_descriptor_cb C (s ! 3) (s ! 2) (get_hword s 4) usbp of
                      None \<Rightarrow> pure (False, usbp)
                    | Some (ud_string, ud_size) \<Rightarrow> pure (True, usbSetupTransfer ud_string ud_size None usbp)) }
         else if rt = RECIPIENT_DEVICE \<and> rq = USB_REQ_GET_CONFIGURATION
         then pure (True, usbSetupTransfer (Driver_fields, 3) 1 None usbp)
         else if rt = RECIPIENT_DEVICE \<and> rq = USB_REQ_SET_CONFIGURATION
         then do { let usbp = usbp\<lparr>configuration := s ! 2\<rparr>;
                   let usbp = usbp\<lparr>u_state := (if configuration usbp = 0 then USB_SELECTED else USB_ACTIVE)\<rparr>;
                   (usbp, k) \<leftarrow> usb_isr_invoke_event_cb C USB_EVENT_CONFIGURED usbp k;
                   Some (True, usbSetupTransfer usb_null 0 None usbp, k) }
         else if rt = RECIPIENT_INTERFACE \<and> rq = USB_REQ_GET_STATUS \<or> rt = RECIPIENT_ENDPOINT \<and> rq = USB_REQ_SYNCH_FRAME
         then pure (True, usbSetupTransfer (Zero_status, 0) 2 None usbp)
         else if rt = RECIPIENT_ENDPOINT \<and> rq = USB_REQ_GET_STATUS
         then pure (ep_status_reply (if s ! 4 AND 0x80 \<noteq> 0 then usb_lld_get_status_in (unat (s ! 4 AND 0x0F)) usbp
                                     else usb_lld_get_status_out (unat (s ! 4 AND 0x0F)) usbp) usbp)
         else if rt = RECIPIENT_ENDPOINT \<and> rq = USB_REQ_CLEAR_FEATURE then pure (ep_halt usb_lld_clear_in usb_lld_clear_out usbp)
         else if rt = RECIPIENT_ENDPOINT \<and> rq = USB_REQ_SET_FEATURE then pure (ep_halt usb_lld_stall_in usb_lld_stall_out usbp)
         else pure (False, usbp))"

subsection \<open>Endpoint 0\<close>

text \<open>Preparing and starting a transfer on endpoint 0 from an interrupt handler; the result of starting it is ignored.\<close>

definition ep0_transmit :: "uptr \<Rightarrow> nat \<Rightarrow> usb_action" where
  "ep0_transmit buf n usbp k =
     do { usbp \<leftarrow> usbPrepareTransmit 0 buf n usbp;
          k \<leftarrow> osalSysLockFromISR k;
          (_, usbp) \<leftarrow> usbStartTransmitI 0 usbp k;
          k \<leftarrow> osalSysUnlockFromISR k;
          Some (usbp, k) }"

definition ep0_receive :: "uptr \<Rightarrow> nat \<Rightarrow> usb_action" where
  "ep0_receive buf n usbp k =
     do { usbp \<leftarrow> usbPrepareReceive 0 buf n usbp;
          k \<leftarrow> osalSysLockFromISR k;
          (_, usbp) \<leftarrow> usbStartReceiveI 0 usbp k;
          k \<leftarrow> osalSysUnlockFromISR k;
          Some (usbp, k) }"

definition ep0_error :: "usb_config \<Rightarrow> usb_action" where
  "ep0_error C usbp k =
     do { (usbp, k) \<leftarrow> usb_isr_invoke_event_cb C USB_EVENT_STALLED (usb_lld_stall_out 0 (usb_lld_stall_in 0 usbp)) k;
          Some (usbp\<lparr>ep0state := USB_EP0_ERROR\<rparr>, k) }"

definition ep0_end :: "usb_config \<Rightarrow> usb_action" where
  "ep0_end C usbp k =
     do { (usbp, k) \<leftarrow> (case ep0endcb usbp of None \<Rightarrow> Some (usbp, k) | Some f \<Rightarrow> end_calls C f usbp k);
          Some (usbp\<lparr>ep0state := USB_EP0_WAITING_SETUP\<rparr>, k) }"

text \<open>The end of \<open>_usb_ep0setup\<close>, for a request that is handled: the first stage after the setup stage.\<close>

definition ep0_data_stage :: usb_action where
  "ep0_data_stage usbp k =
     (let mx = unat (get_hword (setup_pkt usbp) 6);
          usbp = (if ep0n usbp > mx then usbp\<lparr>ep0n := mx\<rparr> else usbp)
      in if setup_pkt usbp ! 0 AND 0x80 = 0x80
         then (if ep0n usbp \<noteq> 0 then ep0_transmit (ep0next usbp) (ep0n usbp) (usbp\<lparr>ep0state := USB_EP0_TX\<rparr>) k
               else ep0_receive usb_null 0 (usbp\<lparr>ep0state := USB_EP0_WAITING_STS\<rparr>) k)
         else (if ep0n usbp \<noteq> 0 then ep0_receive (ep0next usbp) (ep0n usbp) (usbp\<lparr>ep0state := USB_EP0_RX\<rparr>) k
               else ep0_transmit usb_null 0 (usbp\<lparr>ep0state := USB_EP0_SENDING_STS\<rparr>) k))"

definition usb_ep0setup :: "usb_config \<Rightarrow> nat \<Rightarrow> usb_action" where
  "usb_ep0setup C ep usbp k =
     do { let usbp = usbp\<lparr>ep0state := USB_EP0_WAITING_SETUP\<rparr>;
          pkt \<leftarrow> usb_lld_read_setup ep usbp;
          let usbp = usbp\<lparr>setup_pkt := pkt\<rparr>;
          assert_that (u_config usbp);
          (handled, usbp, k) \<leftarrow> (case requests_hook_cb C of None \<Rightarrow> Some (False, usbp, k) | Some f \<Rightarrow> f usbp k);
          (handled, usbp, k) \<leftarrow>
            (if handled then Some (True, usbp, k)
             else if setup_pkt usbp ! 0 AND 0x60 \<noteq> 0 then Some (False, usbp, k)
             else default_handler C usbp k);
          if \<not> handled then ep0_error C usbp k
          else ep0_data_stage usbp k }"

definition usb_ep0in :: "usb_config \<Rightarrow> usb_action" where
  "usb_ep0in C usbp k =
     (case ep0state usbp of
        USB_EP0_TX \<Rightarrow> do {
          let mx = unat (get_hword (setup_pkt usbp) 6);
          c \<leftarrow> epc usbp 0;
          assert_that (in_maxsize c \<noteq> 0);
          if ep0n usbp < mx \<and> ep0n usbp mod in_maxsize c = 0
          then do { (usbp, k) \<leftarrow> ep0_transmit usb_null 0 usbp k; Some (usbp\<lparr>ep0state := USB_EP0_WAITING_TX0\<rparr>, k) }
          else ep0_receive usb_null 0 (usbp\<lparr>ep0state := USB_EP0_WAITING_STS\<rparr>) k }
      | USB_EP0_WAITING_TX0 \<Rightarrow> ep0_receive usb_null 0 (usbp\<lparr>ep0state := USB_EP0_WAITING_STS\<rparr>) k
      | USB_EP0_SENDING_STS \<Rightarrow> ep0_end C usbp k
      | USB_EP0_ERROR \<Rightarrow> ep0_error C usbp k
      | _ \<Rightarrow> None)"

definition usb_ep0out :: "usb_config \<Rightarrow> usb_action" where
  "usb_ep0out C usbp k =
     (case ep0state usbp of
        USB_EP0_RX \<Rightarrow> ep0_transmit usb_null 0 (usbp\<lparr>ep0state := USB_EP0_SENDING_STS\<rparr>) k
      | USB_EP0_WAITING_STS \<Rightarrow> do {
          n \<leftarrow> usb_lld_get_transaction_size 0 usbp;
          if n \<noteq> 0 then Some (usbp, k) else ep0_end C usbp k }
      | USB_EP0_ERROR \<Rightarrow> ep0_error C usbp k
      | _ \<Rightarrow> None)"

subsection \<open>Interrupts\<close>

fun usb_ep_call :: "usb_config \<Rightarrow> usbepcallback_t option \<Rightarrow> nat \<Rightarrow> usb_action" where
  "usb_ep_call C (Some Usb_ep0setup) ep usbp k = usb_ep0setup C ep usbp k"
| "usb_ep_call C (Some Usb_ep0in) ep usbp k = usb_ep0in C usbp k"
| "usb_ep_call C (Some Usb_ep0out) ep usbp k = usb_ep0out C usbp k"
| "usb_ep_call C (Some (App_cb f)) ep usbp k = ep_calls C f ep usbp k"
| "usb_ep_call C None ep usbp k = None"

definition usb_isr_invoke_setup_cb :: "usb_config \<Rightarrow> nat \<Rightarrow> usb_action" where
  "usb_isr_invoke_setup_cb C ep usbp k = do { c \<leftarrow> epc usbp ep; usb_ep_call C (setup_cb c) ep usbp k }"

definition usb_isr_invoke_in_cb :: "usb_config \<Rightarrow> nat \<Rightarrow> usb_action" where
  "usb_isr_invoke_in_cb C ep usbp k =
     do { c \<leftarrow> epc usbp ep;
          usb_ep_call C (in_cb c) ep (usbp\<lparr>transmitting := transmitting usbp AND NOT (push_bit ep 1)\<rparr>) k }"

definition usb_isr_invoke_out_cb :: "usb_config \<Rightarrow> nat \<Rightarrow> usb_action" where
  "usb_isr_invoke_out_cb C ep usbp k =
     do { c \<leftarrow> epc usbp ep;
          usb_ep_call C (out_cb c) ep (usbp\<lparr>receiving := receiving usbp AND NOT (push_bit ep 1)\<rparr>) k }"

text \<open>A transfer larger than the peripheral takes at once goes on with its remaining part.\<close>

definition in_xfrc :: "usb_config \<Rightarrow> nat \<Rightarrow> usb_action" where
  "in_xfrc C ep usbp k =
     do { (c, a) \<leftarrow> in_ep ep usbp;
          let s = ep_states usbp a;
          if x_size s < x_totsize s
          then do { usbp \<leftarrow> usb_lld_prepare_transmit ep (upd_ep a (\<lambda>s. s\<lparr>x_size := x_totsize s - x_size s, x_cnt := 0\<rparr>) usbp);
                    k \<leftarrow> osalSysLockFromISR k;
                    let usbp = usb_lld_start_in ep usbp;
                    k \<leftarrow> osalSysUnlockFromISR k;
                    Some (usbp, k) }
          else usb_isr_invoke_in_cb C ep usbp k }"

definition out_xfrc :: "usb_config \<Rightarrow> nat \<Rightarrow> usb_action" where
  "out_xfrc C ep usbp k =
     do { (c, a) \<leftarrow> out_ep ep usbp;
          let s = ep_states usbp a;
          if x_size s < x_totsize s
          then do { usbp \<leftarrow> usb_lld_prepare_receive ep (upd_ep a (\<lambda>s. s\<lparr>x_size := x_totsize s - x_size s, x_cnt := 0\<rparr>) usbp);
                    k \<leftarrow> osalSysLockFromISR k;
                    let usbp = usb_lld_start_out ep usbp;
                    k \<leftarrow> osalSysUnlockFromISR k;
                    Some (usbp, k) }
          else usb_isr_invoke_out_cb C ep usbp k }"

text \<open>\<open>epint\<close> is the value of the interrupt register of the endpoint.\<close>

definition otg_epin_handler :: "usb_config \<Rightarrow> nat \<Rightarrow> 32 word \<Rightarrow> usb_action" where
  "otg_epin_handler C ep epint usbp k =
     do { (usbp, k) \<leftarrow> (if epint AND 1 \<noteq> 0 \<and> DIEPMSK (otg usbp) AND 1 \<noteq> 0 then in_xfrc C ep usbp k else Some (usbp, k));
          if epint AND 0x80 \<noteq> 0 \<and> DIEPEMPMSK (otg usbp) AND push_bit ep 1 \<noteq> 0
          then do { k \<leftarrow> resume_from_isr (u_wait usbp) MSG_OK k;
                    Some (upd_otg (\<lambda>r. r\<lparr>DIEPEMPMSK := DIEPEMPMSK r AND NOT (push_bit ep 1)\<rparr>)
                      (usbp\<lparr>txpending := txpending usbp OR push_bit ep 1\<rparr>), k) }
          else Some (usbp, k) }"

definition otg_epout_handler :: "usb_config \<Rightarrow> nat \<Rightarrow> 32 word \<Rightarrow> usb_action" where
  "otg_epout_handler C ep epint usbp k =
     do { (usbp, k) \<leftarrow> (if epint AND 8 \<noteq> 0 \<and> DOEPMSK (otg usbp) AND 8 \<noteq> 0 then usb_isr_invoke_setup_cb C ep usbp k else Some (usbp, k));
          if epint AND 1 \<noteq> 0 \<and> DOEPMSK (otg usbp) AND 1 \<noteq> 0 then out_xfrc C ep usbp k else Some (usbp, k) }"

fun for_endpoints :: "(nat \<Rightarrow> bool) \<Rightarrow> (nat \<Rightarrow> usb_action) \<Rightarrow> nat list \<Rightarrow> usb_action" where
  "for_endpoints P f [] usbp k = Some (usbp, k)"
| "for_endpoints P f (ep # eps) usbp k =
     do { (usbp, k) \<leftarrow> (if P ep then f ep usbp k else Some (usbp, k)); for_endpoints P f eps usbp k }"

text \<open>The interrupt: \<open>sts\<close>, \<open>src\<close>, \<open>ie\<close> and \<open>oe\<close> are the values of \<open>GINTSTS\<close>, \<open>DAINT\<close>, \<open>DIEPINT\<close> and \<open>DOEPINT\<close>.\<close>

definition usb_lld_serve_interrupt :: "usb_config \<Rightarrow> 32 word \<Rightarrow> 32 word \<Rightarrow> (nat \<Rightarrow> 32 word) \<Rightarrow> (nat \<Rightarrow> 32 word) \<Rightarrow> usb_action" where
  "usb_lld_serve_interrupt C sts src ie oe usbp k =
     do { let sts = sts AND GINTMSK (otg usbp);
          (usbp, k) \<leftarrow> (if sts AND 0x1000 \<noteq> 0
                        then do { usbp \<leftarrow> usb_reset usbp; usb_isr_invoke_event_cb C USB_EVENT_RESET usbp k }
                        else Some (usbp, k));
          (usbp, k) \<leftarrow> (if sts AND 8 \<noteq> 0 then usb_isr_invoke_sof_cb C usbp k else Some (usbp, k));
          (usbp, k) \<leftarrow> (if sts AND 0x10 \<noteq> 0
                        then do { k \<leftarrow> resume_from_isr (u_wait usbp) MSG_OK k;
                                  Some (upd_otg (\<lambda>r. r\<lparr>GINTMSK := GINTMSK r AND NOT GINTMSK_RXFLVLM\<rparr>) usbp, k) }
                        else Some (usbp, k));
          (usbp, k) \<leftarrow> (if sts AND 0x40000 \<noteq> 0
                        then for_endpoints (bit src) (\<lambda>ep. otg_epin_handler C ep (ie ep)) [0..<6] usbp k
                        else Some (usbp, k));
          if sts AND 0x80000 \<noteq> 0
          then for_endpoints (\<lambda>ep. bit src (16 + ep)) (\<lambda>ep. otg_epout_handler C ep (oe ep)) [0..<6] usbp k
          else Some (usbp, k) }"

subsection \<open>Starting, stopping, the pump thread\<close>

text \<open>
  \<open>usb_lld_start\<close> sets the registers of the core and creates the pump thread when it is called first, in a working area of
  \<open>sz\<close> bytes, of which a thread needs \<open>wa_min\<close>; it may give the processor away. \<open>usb_lld_stop\<close> disables the endpoints.
\<close>

definition STM32_USB_OTG_THREAD_PRIO :: tprio_t where "STM32_USB_OTG_THREAD_PRIO = LOWPRIO"

definition start_pump :: "nat \<Rightarrow> nat \<Rightarrow> tid \<Rightarrow> ch_system \<Rightarrow> (unit outcome \<times> ch_system) option" where
  "start_pump wa_min sz wa k =
     do { (tr, k) \<leftarrow> chThdCreateI wa_min wa sz STM32_USB_OTG_THREAD_PRIO k;
          k \<leftarrow> chThdStartI tr k;
          chSchRescheduleS k }"

definition usb_lld_start :: "usb_config \<Rightarrow> nat \<Rightarrow> nat \<Rightarrow> tid \<Rightarrow> usb_driver \<Rightarrow> ch_system \<Rightarrow>
    (unit outcome \<times> usb_driver \<times> ch_system) option" where
  "usb_lld_start C wa_min sz wa usbp k =
     (if u_state usbp = USB_STOP
      then do {
        let usbp = otg_disable_ep (upd_otg (\<lambda>r. r\<lparr>GCCFG := 0xD0000, DCFG := 0x02200003, GAHBCFG := 0\<rparr>) (usbp\<lparr>txpending := 0\<rparr>));
        let usbp = upd_otg (\<lambda>r. r\<lparr>DIEPMSK := 0, DOEPMSK := 0, DAINTMSK := 0,
          GINTMSK := (if sof_cb C = None then 0x3000 else 0x3008)\<rparr>) usbp;
        (out, usbp, k) \<leftarrow> (if pump usbp then Some (Done (), usbp, k)
                           else do { (out, k) \<leftarrow> start_pump wa_min sz wa k; Some (out, usbp\<lparr>pump := True\<rparr>, k) });
        Some (out, case out of Done _ \<Rightarrow> upd_otg (\<lambda>r. r\<lparr>GAHBCFG := GAHBCFG r OR GAHBCFG_GINTMSK\<rparr>) usbp | Switched \<Rightarrow> usbp, k) }
      else Some (Done (), usbp, k))"

definition usbStart :: "usb_config \<Rightarrow> nat \<Rightarrow> nat \<Rightarrow> tid \<Rightarrow> usb_driver \<Rightarrow> ch_system \<Rightarrow>
    (unit outcome \<times> usb_driver \<times> ch_system) option" where
  "usbStart C wa_min sz wa usbp k =
     do { k \<leftarrow> osalSysLock k;
          assert_that (u_state usbp = USB_STOP \<or> u_state usbp = USB_READY);
          let usbp = usbp\<lparr>u_config := True, epc := (\<lambda>i. if i \<le> USB_MAX_ENDPOINTS then None else epc usbp i)\<rparr>;
          (out, usbp, k) \<leftarrow> usb_lld_start C wa_min sz wa usbp k;
          (case out of
             Done _ \<Rightarrow> do { k \<leftarrow> osalSysUnlock k; Some (Done (), usbp\<lparr>u_state := USB_READY\<rparr>, k) }
           | Switched \<Rightarrow> Some (Switched, usbp, k)) }"

definition usbStart_resume :: "usb_driver \<Rightarrow> ch_system \<Rightarrow> (unit outcome \<times> usb_driver \<times> ch_system) option" where
  "usbStart_resume usbp k =
     do { let usbp = upd_otg (\<lambda>r. r\<lparr>GAHBCFG := GAHBCFG r OR GAHBCFG_GINTMSK\<rparr>) usbp;
          k \<leftarrow> osalSysUnlock k;
          Some (Done (), usbp\<lparr>u_state := USB_READY\<rparr>, k) }"

definition usb_lld_stop :: "usb_driver \<Rightarrow> usb_driver" where
  "usb_lld_stop usbp =
     (if u_state usbp \<noteq> USB_STOP
      then upd_otg (\<lambda>r. r\<lparr>DAINTMSK := 0, GAHBCFG := 0, GCCFG := 0\<rparr>) ((otg_disable_ep usbp)\<lparr>txpending := 0\<rparr>)
      else usbp)"

definition usbStop :: "usb_driver \<Rightarrow> ch_system \<Rightarrow> (usb_driver \<times> ch_system) option" where
  "usbStop usbp k =
     do { k \<leftarrow> osalSysLock k;
          assert_that (u_state usbp = USB_STOP \<or> u_state usbp = USB_READY \<or> u_state usbp = USB_SELECTED \<or> u_state usbp = USB_ACTIVE);
          let usbp = (usb_lld_stop usbp)\<lparr>u_state := USB_STOP\<rparr>;
          k \<leftarrow> osalSysUnlock k;
          Some (usbp, k) }"

text \<open>What the pump thread does for a transmit FIFO that has asked for data.\<close>

definition pump_transmit :: "(nat \<Rightarrow> nat) \<Rightarrow> nat \<Rightarrow> usb_driver \<Rightarrow> ch_system \<Rightarrow> (unit outcome \<times> usb_driver \<times> ch_system) option" where
  "pump_transmit free ep usbp k =
     (if txpending usbp AND push_bit ep 1 \<noteq> 0
      then do {
        k \<leftarrow> osalSysLock k;
        let usbp = upd_otg (\<lambda>r. r\<lparr>GAHBCFG := GAHBCFG r AND NOT GAHBCFG_GINTMSK\<rparr>)
          (usbp\<lparr>txpending := txpending usbp AND NOT (push_bit ep 1)\<rparr>);
        k \<leftarrow> osalSysUnlock k;
        (out, usbp, k) \<leftarrow> otg_txfifo_handler free ep usbp k;
        (case out of
           Switched \<Rightarrow> Some (Switched, usbp, k)
         | Done done \<Rightarrow> do {
             k \<leftarrow> osalSysLock k;
             let usbp = upd_otg (\<lambda>r. r\<lparr>GAHBCFG := GAHBCFG r OR GAHBCFG_GINTMSK,
               DIEPEMPMSK := (if done then DIEPEMPMSK r else DIEPEMPMSK r OR push_bit ep 1)\<rparr>) usbp;
             k \<leftarrow> osalSysUnlock k;
             Some (Done (), usbp, k) }) }
      else Some (Done (), usbp, k))"

text \<open>
  One turn of the loop of the pump thread, entered with the kernel locked: \<open>rxflvl\<close> is whether the peripheral reports
  received data, \<open>rx ep\<close> are the status words it gives when endpoint \<open>ep\<close> has its turn, \<open>free ep\<close> the space it reports for its FIFO.
\<close>

fun pump_receive :: "32 word list \<Rightarrow> usb_driver \<Rightarrow> ch_system \<Rightarrow> (unit outcome \<times> usb_driver \<times> ch_system) option" where
  "pump_receive [] usbp k = Some (Done (), usbp, k)"
| "pump_receive (sts # stss) usbp k =
     do { (out, usbp, k) \<leftarrow> otg_rxfifo_handler sts usbp k;
          (case out of Done _ \<Rightarrow> pump_receive stss usbp k | Switched \<Rightarrow> Some (Switched, usbp, k)) }"

fun pump_endpoints ::
  "(nat \<Rightarrow> nat \<Rightarrow> nat) \<Rightarrow> (nat \<Rightarrow> 32 word list) \<Rightarrow> nat list \<Rightarrow> usb_driver \<Rightarrow> ch_system \<Rightarrow> (unit outcome \<times> usb_driver \<times> ch_system) option" where
  "pump_endpoints free rx [] usbp k = Some (Done (), usbp, k)"
| "pump_endpoints free rx (ep # eps) usbp k =
     do { (out, usbp, k) \<leftarrow> pump_receive (rx ep) usbp k;
          (case out of
             Switched \<Rightarrow> Some (Switched, usbp, k)
           | Done _ \<Rightarrow> do {
               (out, usbp, k) \<leftarrow> pump_transmit (free ep) ep usbp k;
               (case out of Switched \<Rightarrow> Some (Switched, usbp, k) | Done _ \<Rightarrow> pump_endpoints free rx eps usbp k) }) }"

definition pump_work :: "(nat \<Rightarrow> nat \<Rightarrow> nat) \<Rightarrow> (nat \<Rightarrow> 32 word list) \<Rightarrow> usb_driver \<Rightarrow> ch_system \<Rightarrow> (unit outcome \<times> usb_driver \<times> ch_system) option" where
  "pump_work free rx usbp k =
     do { k \<leftarrow> osalSysUnlock k;
          (out, usbp, k) \<leftarrow> pump_endpoints free rx [0..<num_endpoints (otgparams usbp) + 1] usbp k;
          (case out of
             Switched \<Rightarrow> Some (Switched, usbp, k)
           | Done _ \<Rightarrow> do { k \<leftarrow> osalSysLock k; Some (Done (), usbp, k) }) }"

definition usb_lld_pump ::
  "(nat \<Rightarrow> nat \<Rightarrow> nat) \<Rightarrow> bool \<Rightarrow> (nat \<Rightarrow> 32 word list) \<Rightarrow> usb_driver \<Rightarrow> ch_system \<Rightarrow> (unit outcome \<times> usb_driver \<times> ch_system) option" where
  "usb_lld_pump free rxflvl rx usbp k =
     (if u_state usbp = USB_STOP \<or> txpending usbp = 0 \<and> \<not> rxflvl
      then do { (_, k) \<leftarrow> osalThreadSuspendS (u_wait usbp) k;
                Some (Switched, upd_otg (\<lambda>r. r\<lparr>GINTMSK := GINTMSK r OR GINTMSK_RXFLVLM\<rparr>) usbp, k) }
      else pump_work free rx usbp k)"

definition usb_lld_pump_resume ::
  "(nat \<Rightarrow> nat \<Rightarrow> nat) \<Rightarrow> (nat \<Rightarrow> 32 word list) \<Rightarrow> usb_driver \<Rightarrow> ch_system \<Rightarrow> (unit outcome \<times> usb_driver \<times> ch_system) option" where
  "usb_lld_pump_resume free rx usbp k = do { (_, k) \<leftarrow> chThdSuspendS_resume k; pump_work free rx usbp k }"

subsection \<open>Transfers of endpoint 0\<close>

abbreviation ep_xfer :: "uptr \<Rightarrow> nat \<Rightarrow> usb_ep_state" where
  "ep_xfer p n \<equiv> \<lparr>x_size = min n 64, x_cnt = 0, x_mode = Linear p, x_totsize = n\<rparr>"

text \<open>The size register for a transfer of at most one packet, and what the peripheral reads from it.\<close>

definition tsiz :: "nat \<Rightarrow> 32 word" where
  "tsiz m = DIEPTSIZ_PKTCNT 1 OR of_nat m"

definition xfrsiz :: "32 word \<Rightarrow> nat" where
  "xfrsiz w = unat (w AND 0x7FFFF)"

lemma xfrsiz_tsiz: "m \<le> 64 \<Longrightarrow> xfrsiz (tsiz m) = m"
proof -
  assume m: "m \<le> 64"
  have "(0x7FFFF :: 32 word) = mask 19" by (simp add: mask_eq_exp_minus_1)
  then have "xfrsiz (tsiz m) = unat (take_bit 19 (push_bit 19 1 OR of_nat m :: 32 word))"
    by (simp only: xfrsiz_def tsiz_def DIEPTSIZ_PKTCNT_def of_nat_1 take_bit_eq_mask)
  also have "take_bit 19 (push_bit 19 1 OR of_nat m :: 32 word) = take_bit 19 (of_nat m)"
    by (simp add: take_bit_push_bit)
  also have "unat (take_bit 19 (of_nat m :: 32 word)) = m"
    using m by (simp add: unsigned_take_bit_eq take_bit_nat_eq_self unat_of_nat)
  finally show ?thesis .
qed

lemma isr_lock:
  assumes "class_isr k"
  shows "osalSysLockFromISR k = Some (k\<lparr>lock_cnt := 1\<rparr>)" "chDbgCheckClassI (k\<lparr>lock_cnt := 1\<rparr>) = Some ()"
    "osalSysUnlockFromISR (k\<lparr>lock_cnt := 1\<rparr>) = Some k"
  using assms chSysLockFromISR_ok [OF assms] chSysUnlockFromISR_ok [of "k\<lparr>lock_cnt := 1\<rparr>"]
  by (simp_all add: class_isr_def class_I_def)

lemma one_packet: "0 < m \<Longrightarrow> m \<le> 64 \<Longrightarrow> (m + 64 - 1) div 64 = (1 :: nat)"
  by (rule div_nat_eqI) simp_all

lemma prepare_transmit_0:
  assumes "epc d 0 = Some ep0config" "x_size (ep_states d 0) = n"
  shows "usb_lld_prepare_transmit 0 d = Some (d\<lparr>ep_states := (ep_states d)(0 := (ep_states d 0)\<lparr>x_totsize := n, x_size := min n 64\<rparr>),
     otg := (otg d)\<lparr>DIEPTSIZ := (DIEPTSIZ (otg d))(0 := tsiz (min n 64))\<rparr>\<rparr>)"
proof (cases "n = 0")
  case True
  then show ?thesis using assms
    by (cases "ep_states d 0") (simp add: usb_lld_prepare_transmit_def in_ep_def ep0config_def tsiz_def)
next
  case False
  then show ?thesis using assms one_packet [of "min n 64"]
    by (auto simp: usb_lld_prepare_transmit_def in_ep_def ep0config_def EP0_MAX_INSIZE_def tsiz_def min_def Let_def)
qed

lemma epena_set: "(w OR DIEPCTL_EPENA OR DIEPCTL_CNAK) AND DIEPCTL_EPENA \<noteq> 0"
proof -
  have "(w OR a OR b) AND a = a" for a b :: "32 word" by (rule bit_word_eqI) (auto simp: bit_simps)
  from this [of DIEPCTL_EPENA DIEPCTL_CNAK] show ?thesis by simp
qed

lemma ep0_transmit_eq:
  assumes "class_isr k" "epc d 0 = Some ep0config"
  shows "\<exists>b c. ep0_transmit p n d k = Some (d\<lparr>ep_states := (ep_states d)(0 := ep_xfer p n), transmitting := transmitting d OR 1,
      otg := (otg d)\<lparr>DIEPTSIZ := (DIEPTSIZ (otg d))(0 := tsiz (min n 64)), DIEPCTL := b, DIEPEMPMSK := c\<rparr>\<rparr>, k) \<and>
      (\<not> bit (transmitting d) 0 \<longrightarrow> b 0 AND DIEPCTL_EPENA \<noteq> 0)"
proof -
  let ?d = "d\<lparr>ep_states := (ep_states d)(0 := (ep_states d 0)\<lparr>x_mode := Linear p, x_size := n, x_cnt := 0\<rparr>)\<rparr>"
  have "usb_lld_prepare_transmit 0 ?d = Some (d\<lparr>ep_states := (ep_states d)(0 := ep_xfer p n),
      otg := (otg d)\<lparr>DIEPTSIZ := (DIEPTSIZ (otg d))(0 := tsiz (min n 64))\<rparr>\<rparr>)"
    using prepare_transmit_0 [of ?d n] assms(2) by (cases "ep_states d 0") simp
  then have 1: "usbPrepareTransmit 0 p n d = Some (d\<lparr>ep_states := (ep_states d)(0 := ep_xfer p n),
      otg := (otg d)\<lparr>DIEPTSIZ := (DIEPTSIZ (otg d))(0 := tsiz (min n 64))\<rparr>\<rparr>)"
    using assms(2) by (simp add: usbPrepareTransmit_def in_ep_def ep0config_def)
  show ?thesis
  proof (cases "bit (transmitting d) 0")
    case True
    then have "transmitting d OR 1 = transmitting d" by (intro bit_word_eqI) (auto simp: bit_simps)
    then have "ep0_transmit p n d k = Some (d\<lparr>ep_states := (ep_states d)(0 := ep_xfer p n), transmitting := transmitting d OR 1,
        otg := (otg d)\<lparr>DIEPTSIZ := (DIEPTSIZ (otg d))(0 := tsiz (min n 64)), DIEPCTL := DIEPCTL (otg d),
          DIEPEMPMSK := DIEPEMPMSK (otg d)\<rparr>\<rparr>, k)"
      using 1 True isr_lock [OF assms(1)]
      by (simp add: ep0_transmit_def usbStartTransmitI_def usbGetTransmitStatusI_def bit_iff_and_push_bit_not_eq_0 [of _ 0, simplified])
    then show ?thesis using True by blast
  next
    case False
    have "ep0_transmit p n d k = Some (d\<lparr>ep_states := (ep_states d)(0 := ep_xfer p n), transmitting := transmitting d OR 1,
        otg := (otg d)\<lparr>DIEPTSIZ := (DIEPTSIZ (otg d))(0 := tsiz (min n 64)),
          DIEPCTL := (DIEPCTL (otg d))(0 := DIEPCTL (otg d) 0 OR DIEPCTL_EPENA OR DIEPCTL_CNAK),
          DIEPEMPMSK := DIEPEMPMSK (otg d) OR push_bit 0 1\<rparr>\<rparr>, k)"
      using 1 False isr_lock [OF assms(1)]
      by (simp add: ep0_transmit_def usbStartTransmitI_def usbGetTransmitStatusI_def usb_lld_start_in_def
        bit_iff_and_push_bit_not_eq_0 [of _ 0, simplified])
    then show ?thesis using epena_set [of "DIEPCTL (otg d) 0"] by auto
  qed
qed

lemma prepare_receive_0:
  assumes "epc d 0 = Some ep0config" "x_size (ep_states d 0) = n"
  shows "\<exists>w. usb_lld_prepare_receive 0 d = Some (d\<lparr>ep_states := (ep_states d)(0 := (ep_states d 0)\<lparr>x_totsize := n, x_size := min n 64\<rparr>),
     otg := (otg d)\<lparr>DOEPTSIZ := (DOEPTSIZ (otg d))(0 := w)\<rparr>\<rparr>)"
  using assms by (auto simp: usb_lld_prepare_receive_def out_ep_def ep0config_def EP0_MAX_OUTSIZE_def min_def Let_def)

lemma ep0_receive_eq:
  assumes "class_isr k" "epc d 0 = Some ep0config"
  shows "\<exists>a b. ep0_receive p n d k = Some (d\<lparr>ep_states := (ep_states d)(0 := ep_xfer p n), receiving := receiving d OR 1,
      otg := (otg d)\<lparr>DOEPTSIZ := a, DOEPCTL := b\<rparr>\<rparr>, k)"
proof -
  let ?d = "d\<lparr>ep_states := (ep_states d)(0 := (ep_states d 0)\<lparr>x_mode := Linear p, x_size := n, x_cnt := 0\<rparr>)\<rparr>"
  obtain w where "usb_lld_prepare_receive 0 ?d = Some (d\<lparr>ep_states := (ep_states d)(0 := ep_xfer p n),
      otg := (otg d)\<lparr>DOEPTSIZ := (DOEPTSIZ (otg d))(0 := w)\<rparr>\<rparr>)"
    using prepare_receive_0 [of ?d n] assms(2) by (cases "ep_states d 0") auto
  then have 1: "usbPrepareReceive 0 p n d = Some (d\<lparr>ep_states := (ep_states d)(0 := ep_xfer p n),
      otg := (otg d)\<lparr>DOEPTSIZ := (DOEPTSIZ (otg d))(0 := w)\<rparr>\<rparr>)"
    using assms(2) by (simp add: usbPrepareReceive_def out_ep_def ep0config_def)
  show ?thesis
  proof (cases "bit (receiving d) 0")
    case True
    then have "receiving d OR 1 = receiving d" by (intro bit_word_eqI) (auto simp: bit_simps)
    then have "ep0_receive p n d k = Some (d\<lparr>ep_states := (ep_states d)(0 := ep_xfer p n), receiving := receiving d OR 1,
        otg := (otg d)\<lparr>DOEPTSIZ := (DOEPTSIZ (otg d))(0 := w), DOEPCTL := DOEPCTL (otg d)\<rparr>\<rparr>, k)"
      using 1 True isr_lock [OF assms(1)]
      by (simp add: ep0_receive_def usbStartReceiveI_def usbGetReceiveStatusI_def bit_iff_and_push_bit_not_eq_0 [of _ 0, simplified])
    then show ?thesis by blast
  next
    case False
    have "ep0_receive p n d k = Some (d\<lparr>ep_states := (ep_states d)(0 := ep_xfer p n), receiving := receiving d OR 1,
        otg := (otg d)\<lparr>DOEPTSIZ := (DOEPTSIZ (otg d))(0 := w), DOEPCTL := (DOEPCTL (otg d))(0 := DOEPCTL (otg d) 0 OR DIEPCTL_CNAK)\<rparr>\<rparr>, k)"
      using 1 False isr_lock [OF assms(1)]
      by (simp add: ep0_receive_def usbStartReceiveI_def usbGetReceiveStatusI_def usb_lld_start_out_def
        bit_iff_and_push_bit_not_eq_0 [of _ 0, simplified])
    then show ?thesis by blast
  qed
qed

subsection \<open>The protocol of endpoint 0\<close>

text \<open>In which states a transfer of endpoint 0 may be under way.\<close>

fun ep0_sending :: "usbep0state_t \<Rightarrow> bool" where
  "ep0_sending USB_EP0_TX = True"
| "ep0_sending USB_EP0_WAITING_TX0 = True"
| "ep0_sending USB_EP0_SENDING_STS = True"
| "ep0_sending _ = False"

fun ep0_receiving :: "usbep0state_t \<Rightarrow> bool" where
  "ep0_receiving USB_EP0_RX = True"
| "ep0_receiving USB_EP0_WAITING_STS = True"
| "ep0_receiving _ = False"

definition ep0_ok :: "usb_driver \<Rightarrow> bool" where
  "ep0_ok d \<longleftrightarrow> u_config d \<and> epc d 0 = Some ep0config \<and>
     (bit (transmitting d) 0 \<longleftrightarrow> ep0_sending (ep0state d)) \<and> (bit (receiving d) 0 \<longrightarrow> ep0_receiving (ep0state d))"

definition isr_ctx :: "ch_system \<Rightarrow> bool" where
  "isr_ctx k \<longleftrightarrow> kernel_ok k \<and> evt_ok k \<and> class_isr k"

text \<open>What a callback must leave alone: endpoint 0 and the setup packet.\<close>

definition ep0_kept :: "usb_driver \<Rightarrow> usb_driver \<Rightarrow> bool" where
  "ep0_kept d d' \<longleftrightarrow> u_config d' = u_config d \<and> epc d' 0 = epc d 0 \<and> ep0state d' = ep0state d \<and> setup_pkt d' = setup_pkt d \<and>
     bit (transmitting d') 0 = bit (transmitting d) 0 \<and> bit (receiving d') 0 = bit (receiving d) 0"

lemma ep0_kept_refl [simp]: "ep0_kept d d"
  by (simp add: ep0_kept_def)

lemma usbSetupTransfer_kept [simp]: "ep0_kept d (usbSetupTransfer p n f d') = ep0_kept d d'"
  by (simp add: ep0_kept_def usbSetupTransfer_def)

lemma handlers_kept [simp]:
  "ep0_kept d (snd (remote_wakeup f d))" "ep0_kept d (snd (ep_status_reply st d))"
  "ep0_kept d (snd (ep_halt usb_lld_clear_in usb_lld_clear_out d))" "ep0_kept d (snd (ep_halt usb_lld_stall_in usb_lld_stall_out d))"
  by (simp_all add: remote_wakeup_def ep_status_reply_def ep_halt_def Let_def usb_lld_clear_in_def usb_lld_clear_out_def
    usb_lld_stall_in_def usb_lld_stall_out_def split: usbepstatus_t.splits) (simp_all add: ep0_kept_def)

text \<open>Starting a stage of a control transfer when no transfer of endpoint 0 is under way.\<close>

lemma ep0_stage_ok:
  assumes "class_isr k" "u_config d" "epc d 0 = Some ep0config" "\<not> bit (transmitting d) 0" "\<not> bit (receiving d) 0"
  shows "ep0_sending (ep0state d) \<Longrightarrow> \<exists>d'. ep0_transmit p n d k = Some (d', k) \<and> ep0_ok d'"
    "ep0_receiving (ep0state d) \<Longrightarrow> \<exists>d'. ep0_receive p n d k = Some (d', k) \<and> ep0_ok d'"
proof -
  have "bit (w OR 1) 0" for w :: "16 word" by (simp add: bit_simps)
  moreover have "ep0_sending st \<Longrightarrow> \<not> ep0_receiving st" for st by (cases st) auto
  ultimately show "ep0_sending (ep0state d) \<Longrightarrow> \<exists>d'. ep0_transmit p n d k = Some (d', k) \<and> ep0_ok d'"
    "ep0_receiving (ep0state d) \<Longrightarrow> \<exists>d'. ep0_receive p n d k = Some (d', k) \<and> ep0_ok d'"
    using ep0_transmit_eq [OF assms(1,3), of p n] ep0_receive_eq [OF assms(1,3), of p n] assms
    by (fastforce simp: ep0_ok_def)+
qed

lemma ep0_data_stage_ok:
  assumes "class_isr k" "u_config d" "epc d 0 = Some ep0config" "\<not> bit (transmitting d) 0" "\<not> bit (receiving d) 0"
  shows "\<exists>d'. ep0_data_stage d k = Some (d', k) \<and> ep0_ok d'"
proof -
  define d1 where "d1 = (if ep0n d > unat (get_hword (setup_pkt d) 6) then d\<lparr>ep0n := unat (get_hword (setup_pkt d) 6)\<rparr> else d)"
  have t: "\<exists>d'. ep0_transmit p n (d1\<lparr>ep0state := st\<rparr>) k = Some (d', k) \<and> ep0_ok d'" if "ep0_sending st" for p n st
    using ep0_stage_ok(1) [of k "d1\<lparr>ep0state := st\<rparr>" p n] assms that by (simp add: d1_def)
  have r: "\<exists>d'. ep0_receive p n (d1\<lparr>ep0state := st\<rparr>) k = Some (d', k) \<and> ep0_ok d'" if "ep0_receiving st" for p n st
    using ep0_stage_ok(2) [of k "d1\<lparr>ep0state := st\<rparr>" p n] assms that by (simp add: d1_def)
  show ?thesis unfolding ep0_data_stage_def Let_def d1_def [symmetric]
    by (auto intro!: t r)
qed

text \<open>The completion of a packet: the transfer or the protocol goes on, or the control transfer ends.\<close>

definition tx_done :: "usb_driver \<Rightarrow> usb_driver" where
  "tx_done d = d\<lparr>transmitting := transmitting d AND NOT 1\<rparr>"

definition rx_done :: "usb_driver \<Rightarrow> usb_driver" where
  "rx_done d = d\<lparr>receiving := receiving d AND NOT 1\<rparr>"

lemma bit_cleared [simp]: "\<not> bit (w AND NOT 1) 0" for w :: "16 word"
  by (simp add: bit_simps)

lemma bit_started [simp]: "bit (w OR 1) 0" for w :: "16 word"
  by (simp add: bit_simps)

lemma ep0in_cases:
  assumes "class_isr k" "u_config d" "epc d 0 = Some ep0config" "\<not> bit (transmitting d) 0" "\<not> bit (receiving d) 0"
    and "ep0_sending (ep0state d)"
  shows "(\<exists>d'. usb_ep0in C d k = Some (d', k) \<and> ep0_ok d') \<or> usb_ep0in C d k = ep0_end C d k"
proof -
  let ?r = "ep0_receive usb_null 0 (d\<lparr>ep0state := USB_EP0_WAITING_STS\<rparr>) k"
  have r: "\<exists>d'. ?r = Some (d', k) \<and> ep0_ok d'"
    using ep0_stage_ok(2) [of k "d\<lparr>ep0state := USB_EP0_WAITING_STS\<rparr>" usb_null 0] assms by simp
  have t: "\<exists>d'. ep0_transmit usb_null 0 d k = Some (d', k) \<and> ep0_ok (d'\<lparr>ep0state := USB_EP0_WAITING_TX0\<rparr>)"
    using ep0_transmit_eq [OF assms(1,3), of usb_null 0] assms by (auto simp: ep0_ok_def)
  have "in_maxsize ep0config = 64" by (simp add: ep0config_def)
  then show ?thesis using assms(3,6) r t by (cases "ep0state d") (auto simp: usb_ep0in_def)
qed

lemma ep0out_cases:
  assumes "class_isr k" "u_config d" "epc d 0 = Some ep0config" "\<not> bit (transmitting d) 0" "\<not> bit (receiving d) 0"
    and "ep0_receiving (ep0state d)"
  shows "(\<exists>d'. usb_ep0out C d k = Some (d', k) \<and> ep0_ok d') \<or> usb_ep0out C d k = ep0_end C d k"
proof -
  have "\<exists>d'. ep0_transmit usb_null 0 (d\<lparr>ep0state := USB_EP0_SENDING_STS\<rparr>) k = Some (d', k) \<and> ep0_ok d'"
    using ep0_stage_ok(1) [of k "d\<lparr>ep0state := USB_EP0_SENDING_STS\<rparr>" usb_null 0] assms by simp
  moreover have "usb_lld_get_transaction_size 0 d = Some (x_cnt (ep_states d 0))"
    using assms(3) by (simp add: usb_lld_get_transaction_size_def out_ep_def ep0config_def)
  ultimately show ?thesis using assms by (cases "ep0state d") (auto simp: usb_ep0out_def ep0_ok_def)
qed

lemma in_xfrc_cases:
  assumes "class_isr k" "ep0_ok d"
  shows "(\<exists>d'. in_xfrc C 0 d k = Some (d', k) \<and> ep0_ok d') \<or> in_xfrc C 0 d k = usb_ep0in C (tx_done d) k"
proof -
  have e: "in_ep 0 d = Some (ep0config, 0)" "epc d 0 = Some ep0config" "in_cb ep0config = Some Usb_ep0in"
    using assms(2) by (simp_all add: in_ep_def ep0_ok_def ep0config_def)
  let ?s = "ep_states d 0"
  let ?d = "d\<lparr>ep_states := (ep_states d)(0 := ?s\<lparr>x_size := x_totsize ?s - x_size ?s, x_cnt := 0\<rparr>)\<rparr>"
  obtain d' where d': "usb_lld_prepare_transmit 0 ?d = Some d'" "ep0_ok d'"
    using prepare_transmit_0 [of ?d "x_totsize ?s - x_size ?s"] assms(2) by (simp add: ep0_ok_def)
  show ?thesis
  proof (cases "x_size ?s < x_totsize ?s")
    case True
    then have "in_xfrc C 0 d k = Some (usb_lld_start_in 0 d', k)"
      using e(1) d'(1) isr_lock [OF assms(1)] by (simp add: in_xfrc_def Let_def)
    then show ?thesis using d'(2) by (simp add: ep0_ok_def usb_lld_start_in_def)
  next
    case False
    then show ?thesis using e by (simp add: in_xfrc_def usb_isr_invoke_in_cb_def tx_done_def)
  qed
qed

lemma out_xfrc_cases:
  assumes "class_isr k" "ep0_ok d"
  shows "(\<exists>d'. out_xfrc C 0 d k = Some (d', k) \<and> ep0_ok d') \<or> out_xfrc C 0 d k = usb_ep0out C (rx_done d) k"
proof -
  have e: "out_ep 0 d = Some (ep0config, 0)" "epc d 0 = Some ep0config" "out_cb ep0config = Some Usb_ep0out"
    using assms(2) by (simp_all add: out_ep_def ep0_ok_def ep0config_def)
  let ?s = "ep_states d 0"
  let ?d = "d\<lparr>ep_states := (ep_states d)(0 := ?s\<lparr>x_size := x_totsize ?s - x_size ?s, x_cnt := 0\<rparr>)\<rparr>"
  obtain d' where d': "usb_lld_prepare_receive 0 ?d = Some d'" "ep0_ok d'"
    using prepare_receive_0 [of ?d "x_totsize ?s - x_size ?s"] assms(2) by (auto simp: ep0_ok_def)
  show ?thesis
  proof (cases "x_size ?s < x_totsize ?s")
    case True
    then have "out_xfrc C 0 d k = Some (usb_lld_start_out 0 d', k)"
      using e(1) d'(1) isr_lock [OF assms(1)] by (simp add: out_xfrc_def Let_def)
    then show ?thesis using d'(2) by (simp add: ep0_ok_def usb_lld_start_out_def)
  next
    case False
    then show ?thesis using e by (simp add: out_xfrc_def usb_isr_invoke_out_cb_def rx_done_def)
  qed
qed

text \<open>What remains of the state when a packet of endpoint 0 is through.\<close>

lemma done_idle:
  assumes "ep0_ok d"
  shows "bit (transmitting d) 0 \<Longrightarrow> \<not> bit (transmitting (tx_done d)) 0 \<and> \<not> bit (receiving (tx_done d)) 0 \<and> ep0_sending (ep0state d)"
    "bit (receiving d) 0 \<Longrightarrow> \<not> bit (transmitting (rx_done d)) 0 \<and> \<not> bit (receiving (rx_done d)) 0 \<and> ep0_receiving (ep0state d)"
proof -
  have 1: "\<not> bit (transmitting (tx_done d)) 0" "\<not> bit (receiving (rx_done d)) 0"
    using bit_cleared [of "transmitting d"] bit_cleared [of "receiving d"] by (simp_all add: tx_done_def rx_done_def)
  have 2: "receiving (tx_done d) = receiving d" "transmitting (rx_done d) = transmitting d" by (simp_all add: tx_done_def rx_done_def)
  have 3: "ep0_sending st \<Longrightarrow> \<not> ep0_receiving st" for st by (cases st) simp_all
  show "bit (transmitting d) 0 \<Longrightarrow> \<not> bit (transmitting (tx_done d)) 0 \<and> \<not> bit (receiving (tx_done d)) 0 \<and> ep0_sending (ep0state d)"
    "bit (receiving d) 0 \<Longrightarrow> \<not> bit (transmitting (rx_done d)) 0 \<and> \<not> bit (receiving (rx_done d)) 0 \<and> ep0_receiving (ep0state d)"
    using assms 1 3 unfolding ep0_ok_def 2 by blast+
qed

lemma ep0_end_fails: "ep0_end C d k = None \<Longrightarrow> \<exists>f. ep0endcb d = Some f \<and> end_calls C f d k = None"
  by (auto simp: ep0_end_def split: option.splits bind_splits)

lemma in_xfrc_fails:
  assumes "class_isr k" "ep0_ok d" "bit (transmitting d) 0" "in_xfrc C 0 d k = None"
  shows "\<exists>f. ep0endcb d = Some f \<and> end_calls C f (tx_done d) k = None"
proof -
  note i = done_idle(1) [OF assms(2,3)]
  have c: "u_config (tx_done d)" "epc (tx_done d) 0 = Some ep0config" "ep0_sending (ep0state (tx_done d))"
      "ep0endcb (tx_done d) = ep0endcb d"
    using assms(2) i by (simp_all add: ep0_ok_def tx_done_def)
  have "usb_ep0in C (tx_done d) k = None" using in_xfrc_cases [OF assms(1,2), of C] assms(4) by auto
  then have "ep0_end C (tx_done d) k = None" using ep0in_cases [OF assms(1) c(1,2), of C] i c(3) by auto
  then show ?thesis using ep0_end_fails c(4) by metis
qed

lemma out_xfrc_fails:
  assumes "class_isr k" "ep0_ok d" "bit (receiving d) 0" "out_xfrc C 0 d k = None"
  shows "\<exists>f. ep0endcb d = Some f \<and> end_calls C f (rx_done d) k = None"
proof -
  note i = done_idle(2) [OF assms(2,3)]
  have c: "u_config (rx_done d)" "epc (rx_done d) 0 = Some ep0config" "ep0_receiving (ep0state (rx_done d))"
      "ep0endcb (rx_done d) = ep0endcb d"
    using assms(2) i by (simp_all add: ep0_ok_def rx_done_def)
  have "usb_ep0out C (rx_done d) k = None" using out_xfrc_cases [OF assms(1,2), of C] assms(4) by auto
  then have "ep0_end C (rx_done d) k = None" using ep0out_cases [OF assms(1) c(1,2), of C] i c(3) by auto
  then show ?thesis using ep0_end_fails c(4) by metis
qed

locale usb_application =
  fixes C :: usb_config
  assumes event_keeps: "event_cb C = Some f \<Longrightarrow> f e d k = Some (d', k') \<Longrightarrow> epc d 0 = Some ep0config \<Longrightarrow> isr_ctx k \<Longrightarrow>
      ep0_kept d d' \<and> isr_ctx k'"
    and hook_keeps: "requests_hook_cb C = Some h \<Longrightarrow> h d k = Some (b, d', k') \<Longrightarrow> epc d 0 = Some ep0config \<Longrightarrow> isr_ctx k \<Longrightarrow>
      ep0_kept d d' \<and> isr_ctx k'"
    and end_keeps: "end_calls C i d k = Some (d', k') \<Longrightarrow> epc d 0 = Some ep0config \<Longrightarrow> isr_ctx k \<Longrightarrow> ep0_kept d d' \<and> isr_ctx k'"
begin

lemma event_kept:
  assumes "usb_isr_invoke_event_cb C e d k = Some (d', k')" "epc d 0 = Some ep0config" "isr_ctx k"
  shows "ep0_kept d d'" "isr_ctx k'"
  using assms event_keeps by (auto simp: usb_isr_invoke_event_cb_def ep0_kept_def split: option.splits)

lemma set_address_kept:
  assumes "set_address C d k = Some (d', k')" "epc d 0 = Some ep0config" "isr_ctx k"
  shows "ep0_kept d d'" "isr_ctx k'"
proof -
  obtain d1 where d1: "usb_isr_invoke_event_cb C USB_EVENT_ADDRESS (usb_lld_set_address (d\<lparr>address := setup_pkt d ! 2\<rparr>)) k = Some (d1, k')"
      "d' = d1\<lparr>u_state := USB_SELECTED\<rparr>"
    using assms(1) by (auto simp: set_address_def Let_def bind_eq_Some_conv)
  note e = event_kept [OF d1(1) _ assms(3)]
  show "ep0_kept d d'" "isr_ctx k'" using e assms(2) d1(2) by (simp_all add: usb_lld_set_address_def ep0_kept_def)
qed

lemma default_handler_kept:
  assumes "default_handler C d k = Some (b, d', k')" "epc d 0 = Some ep0config" "isr_ctx k"
  shows "ep0_kept d d' \<and> isr_ctx k'"
proof -
  have addr: "ep0_kept d d1 \<and> isr_ctx k1" if "set_address C d k = Some (d1, k1)" for d1 k1
    using set_address_kept [OF that assms(2,3)] by blast
  have conf: "ep0_kept d d1 \<and> isr_ctx k1"
    if "usb_isr_invoke_event_cb C USB_EVENT_CONFIGURED (d\<lparr>configuration := c, u_state := st\<rparr>) k = Some (d1, k1)" for c st d1 k1
    using event_kept [OF that _ assms(3)] assms(2) by (simp add: ep0_kept_def)
  show ?thesis using assms(1,3) unfolding default_handler_def Let_def split_beta
    by (simp add: bind_eq_Some_conv split: if_split_asm option.splits) (clarsimp; (erule addr | erule conf)?)+
qed

lemma ep0_error_ok:
  assumes "ep0_error C d k = Some (d', k')" "u_config d" "epc d 0 = Some ep0config" "isr_ctx k"
    "\<not> bit (transmitting d) 0" "\<not> bit (receiving d) 0"
  shows "ep0_ok d' \<and> isr_ctx k'"
proof -
  obtain d1 where d1: "usb_isr_invoke_event_cb C USB_EVENT_STALLED (usb_lld_stall_out 0 (usb_lld_stall_in 0 d)) k = Some (d1, k')"
      "d' = d1\<lparr>ep0state := USB_EP0_ERROR\<rparr>"
    using assms(1) by (auto simp: ep0_error_def bind_eq_Some_conv)
  show ?thesis using event_kept [OF d1(1) _ assms(4)] assms d1(2)
    by (simp add: usb_lld_stall_out_def usb_lld_stall_in_def ep0_kept_def ep0_ok_def)
qed

lemma ep0_end_ok:
  assumes "ep0_end C d k = Some (d', k')" "u_config d" "epc d 0 = Some ep0config" "isr_ctx k"
    "\<not> bit (transmitting d) 0" "\<not> bit (receiving d) 0"
  shows "ep0_ok d' \<and> isr_ctx k'"
proof -
  obtain d1 where d1: "(case ep0endcb d of None \<Rightarrow> Some (d, k) | Some f \<Rightarrow> end_calls C f d k) = Some (d1, k')"
      "d' = d1\<lparr>ep0state := USB_EP0_WAITING_SETUP\<rparr>"
    using assms(1) by (auto simp: ep0_end_def bind_eq_Some_conv)
  have "ep0_kept d d1 \<and> isr_ctx k'" using d1(1) end_keeps assms(3,4) by (cases "ep0endcb d") auto
  then show ?thesis using assms d1(2) by (simp add: ep0_kept_def ep0_ok_def)
qed

lemma ep0setup_ok:
  assumes "usb_ep0setup C 0 d k = Some (d', k')" "epc d 0 = Some ep0config" "isr_ctx k"
    "\<not> bit (transmitting d) 0" "\<not> bit (receiving d) 0"
  shows "ep0_ok d' \<and> isr_ctx k'"
proof -
  obtain pkt where pkt: "usb_lld_read_setup 0 (d\<lparr>ep0state := USB_EP0_WAITING_SETUP\<rparr>) = Some pkt"
    using assms(1) by (auto simp: usb_ep0setup_def Let_def bind_eq_Some_conv)
  let ?d = "d\<lparr>ep0state := USB_EP0_WAITING_SETUP, setup_pkt := pkt\<rparr>"
  obtain h d1 k1 where 1: "(case requests_hook_cb C of None \<Rightarrow> Some (False, ?d, k) | Some f \<Rightarrow> f ?d k) = Some (h, d1, k1)"
      "u_config d"
    using assms(1) pkt by (auto simp: usb_ep0setup_def Let_def bind_eq_Some_conv)
  have k1: "ep0_kept ?d d1 \<and> isr_ctx k1"
    using 1(1) hook_keeps assms(2,3) by (cases "requests_hook_cb C") auto
  obtain h2 d2 k2 where 2: "(if h then Some (True, d1, k1) else if setup_pkt d1 ! 0 AND 0x60 \<noteq> 0 then Some (False, d1, k1)
      else default_handler C d1 k1) = Some (h2, d2, k2)"
    using assms(1) pkt 1 by (auto simp: usb_ep0setup_def Let_def bind_eq_Some_conv simp del: if_split_eq1)
  have k2: "ep0_kept d1 d2 \<and> isr_ctx k2"
    using 2 default_handler_kept [of d1 k1 h2 d2 k2] k1 assms(2) by (auto simp: ep0_kept_def split: if_splits)
  have s: "u_config d2" "epc d2 0 = Some ep0config" "\<not> bit (transmitting d2) 0" "\<not> bit (receiving d2) 0" "class_isr k2"
    using k1 k2 1(2) assms by (simp_all add: ep0_kept_def isr_ctx_def)
  show ?thesis
  proof (cases h2)
    case False
    then have "ep0_error C d2 k2 = Some (d', k')"
      using assms(1) pkt 1 2 by (simp add: usb_ep0setup_def Let_def)
    then show ?thesis using ep0_error_ok [of d2 k2 d' k'] s k2 by blast
  next
    case True
    then have "ep0_data_stage d2 k2 = Some (d', k')"
      using assms(1) pkt 1 2 by (simp add: usb_ep0setup_def Let_def)
    then show ?thesis using ep0_data_stage_ok [of k2 d2] s k2 by auto
  qed
qed

lemma in_xfrc_ok:
  assumes "in_xfrc C 0 d k = Some (d', k')" "ep0_ok d" "isr_ctx k" "bit (transmitting d) 0"
  shows "ep0_ok d' \<and> isr_ctx k'"
proof -
  note i = done_idle(1) [OF assms(2,4)]
  have c: "class_isr k" "u_config (tx_done d)" "epc (tx_done d) 0 = Some ep0config" "ep0_sending (ep0state (tx_done d))"
    using assms(2,3) i by (simp_all add: isr_ctx_def ep0_ok_def tx_done_def)
  show ?thesis
    using in_xfrc_cases [OF c(1) assms(2), of C] ep0in_cases [OF c(1-3), of C] ep0_end_ok [of "tx_done d" k d' k'] assms(1,3) c i
    by fastforce
qed

lemma out_xfrc_ok:
  assumes "out_xfrc C 0 d k = Some (d', k')" "ep0_ok d" "isr_ctx k" "bit (receiving d) 0"
  shows "ep0_ok d' \<and> isr_ctx k'"
proof -
  note i = done_idle(2) [OF assms(2,4)]
  have c: "class_isr k" "u_config (rx_done d)" "epc (rx_done d) 0 = Some ep0config" "ep0_receiving (ep0state (rx_done d))"
    using assms(2,3) i by (simp_all add: isr_ctx_def ep0_ok_def rx_done_def)
  show ?thesis
    using out_xfrc_cases [OF c(1) assms(2), of C] ep0out_cases [OF c(1-3), of C] ep0_end_ok [of "rx_done d" k d' k'] assms(1,3) c i
    by fastforce
qed

lemma reset_ok:
  assumes "usb_reset d = Some d1" "usb_isr_invoke_event_cb C USB_EVENT_RESET d1 k = Some (d', k')" "isr_ctx k"
  shows "ep0_ok d' \<and> isr_ctx k'"
proof -
  have 1: "epc d1 0 = Some ep0config" "ep0state d1 = USB_EP0_WAITING_SETUP" "transmitting d1 = 0" "receiving d1 = 0"
    using assms(1) by (auto simp: usb_reset_def usb_lld_reset_def Let_def bind_eq_Some_conv otg_ram_alloc_def otg_txfifo_flush_def
      otg_rxfifo_flush_def otg_ram_reset_def)
  have "u_config d1" using assms(2) by (auto simp: usb_isr_invoke_event_cb_def bind_eq_Some_conv)
  then show ?thesis using event_kept [OF assms(2) 1(1) assms(3)] 1 by (simp add: ep0_kept_def ep0_ok_def)
qed

end

text \<open>
  What may happen: a bus reset; a setup packet \<open>m\<close> when no transfer of endpoint 0 is under way; the end of an IN
  or OUT packet of endpoint 0, an OUT packet of \<open>n\<close> bytes; anything else that leaves endpoint 0 alone (other endpoints, threads).
\<close>

inductive usb_step :: "usb_config \<Rightarrow> usb_driver \<times> ch_system \<Rightarrow> usb_driver \<times> ch_system \<Rightarrow> bool" for C where
  step_reset: "usb_reset d = Some d1 \<Longrightarrow> usb_isr_invoke_event_cb C USB_EVENT_RESET d1 k = Some (d', k') \<Longrightarrow>
    usb_step C (d, k) (d', k')"
| step_setup: "\<not> bit (transmitting d) 0 \<Longrightarrow> \<not> bit (receiving d) 0 \<Longrightarrow>
    usb_isr_invoke_setup_cb C 0 (d\<lparr>u_mem := (u_mem d)(Ep0setup_buffer := m)\<rparr>) k = Some (d', k') \<Longrightarrow> usb_step C (d, k) (d', k')"
| step_in: "bit (transmitting d) 0 \<Longrightarrow> in_xfrc C 0 d k = Some (d', k') \<Longrightarrow> usb_step C (d, k) (d', k')"
| step_out: "bit (receiving d) 0 \<Longrightarrow> out_xfrc C 0 (upd_ep 0 (\<lambda>s. s\<lparr>x_cnt := n\<rparr>) d) k = Some (d', k') \<Longrightarrow> usb_step C (d, k) (d', k')"
| step_other: "ep0_kept d d' \<Longrightarrow> isr_ctx k' \<Longrightarrow> usb_step C (d, k) (d', k')"


subsection \<open>A control transfer to the host\<close>

text \<open>
  One IN packet of endpoint 0: the pump thread fills the FIFO, which has room for a packet; the peripheral, if the endpoint is
  enabled, sends as many bytes as the size register says and disables the endpoint; the interrupt handler learns that the
  packet is through.
\<close>

definition packet_sent :: "usb_driver \<Rightarrow> usb_driver" where
  "packet_sent d = upd_otg (\<lambda>r. r\<lparr>TXFIFO := (TXFIFO r)(0 := []), DIEPCTL := (DIEPCTL r)(0 := DIEPCTL r 0 AND NOT DIEPCTL_EPENA)\<rparr>) d"

definition usb_in_packet :: "usb_config \<Rightarrow> usb_driver \<Rightarrow> ch_system \<Rightarrow> (8 word list \<times> usb_driver \<times> ch_system) option" where
  "usb_in_packet C d k =
     do { (_, d, k) \<leftarrow> otg_txfifo_handler (\<lambda>_. 16) 0 d k;
          assert_that (DIEPCTL (otg d) 0 AND DIEPCTL_EPENA \<noteq> 0);
          let pkt = unpack (xfrsiz (DIEPTSIZ (otg d) 0)) (TXFIFO (otg d) 0);
          (d, k) \<leftarrow> otg_epin_handler C 0 1 (packet_sent d) k;
          Some (pkt, d, k) }"

fun usb_in_packets :: "nat \<Rightarrow> usb_config \<Rightarrow> usb_driver \<Rightarrow> ch_system \<Rightarrow> (8 word list list \<times> usb_driver \<times> ch_system) option" where
  "usb_in_packets 0 C d k = Some ([], d, k)"
| "usb_in_packets (Suc n) C d k =
     do { (pkt, d, k) \<leftarrow> usb_in_packet C d k; (pkts, d, k) \<leftarrow> usb_in_packets n C d k; Some (pkt # pkts, d, k) }"

text \<open>\<open>n\<close> bytes from \<open>p\<close> on are still to be sent.\<close>

definition in_data :: "usb_driver \<Rightarrow> uptr \<Rightarrow> nat \<Rightarrow> bool" where
  "in_data d p n \<longleftrightarrow> epc d 0 = Some ep0config \<and> ep_states d 0 = ep_xfer p n \<and> DIEPTSIZ (otg d) 0 = tsiz (min n 64) \<and>
     TXFIFO (otg d) 0 = [] \<and> DIEPMSK (otg d) AND 1 \<noteq> 0 \<and> DIEPCTL (otg d) 0 AND DIEPCTL_EPENA \<noteq> 0"

definition in_frame :: "usb_driver \<Rightarrow> usb_driver \<Rightarrow> bool" where
  "in_frame d d' \<longleftrightarrow> usb_view d' = usb_view d \<and> u_config d' = u_config d \<and> epc d' 0 = epc d 0 \<and> ep0endcb d' = ep0endcb d \<and>
     setup_pkt d' = setup_pkt d \<and> ep0n d' = ep0n d"

lemma in_frame_trans: "in_frame d d1 \<Longrightarrow> in_frame d1 d2 \<Longrightarrow> in_frame d d2"
  by (simp add: in_frame_def)

lemma view_cong:
  "status d' = status d \<Longrightarrow> address d' = address d \<Longrightarrow> configuration d' = configuration d \<Longrightarrow> u_mem d' = u_mem d \<Longrightarrow>
   usb_view d' = usb_view d"
  by (intro ext) (simp add: usb_view_def split: usb_obj.splits)

text \<open>The state when the FIFO is filled, and when the packet has gone out.\<close>

definition filled :: "uptr \<Rightarrow> nat \<Rightarrow> usb_driver \<Rightarrow> usb_driver" where
  "filled p n d = d\<lparr>ep_states := (ep_states d)(0 := (ep_xfer p n)\<lparr>x_cnt := min n 64, x_mode := Linear (fst p, snd p + min n 64)\<rparr>)\<rparr>"

definition packet_out :: "uptr \<Rightarrow> nat \<Rightarrow> usb_driver \<Rightarrow> usb_driver" where
  "packet_out p n d = packet_sent (filled p n d)"

lemmas packet_out_defs = packet_out_def packet_sent_def filled_def

lemma txfifo_filled:
  assumes "in_data d p n"
  shows "\<exists>ws. otg_txfifo_handler (\<lambda>_. 16) 0 d k = Some (Done True, filled p n (upd_otg (\<lambda>r. r\<lparr>TXFIFO := (TXFIFO r)(0 := ws)\<rparr>) d), k) \<and>
    unpack (min n 64) ws = map (usb_view d (fst p)) [snd p..<snd p + min n 64]"
proof (cases "n = 0")
  case True
  then have "otg_txfifo_handler (\<lambda>_. 16) 0 d k = Some (Done True, d, k)"
    using assms by (subst otg_txfifo_handler.simps) (simp add: tx_next_def in_ep_def in_data_def ep0config_def)
  moreover have "filled p n (upd_otg (\<lambda>r. r\<lparr>TXFIFO := (TXFIFO r)(0 := [])\<rparr>) d) = d"
    using assms True by (intro usb_driver.equality) (auto simp: filled_def in_data_def fun_upd_idem)
  ultimately show ?thesis using True by (intro exI [of _ "[]"]) (simp add: unpack_def)
next
  case False
  let ?m = "min n 64"
  have m: "?m \<noteq> 0" "?m \<le> 64" using False by simp_all
  obtain ob i where p: "p = (ob, i)" by (cases p)
  obtain ws where ws: "otg_fifo_write_from_buffer (usb_view d ob) [] i ?m = ws" "unpack ?m ws = map (usb_view d ob) [i..<i + ?m]"
    using otg_write_from_buffer_sends [of "usb_view d ob" "[]" i ?m] by auto
  let ?d = "filled p n (upd_otg (\<lambda>r. r\<lparr>TXFIFO := (TXFIFO r)(0 := ws)\<rparr>) d)"
  have "otg_txfifo_handler (\<lambda>_. 16) 0 ?d k = Some (Done True, ?d, k)"
    using assms by (subst otg_txfifo_handler.simps) (simp add: tx_next_def in_ep_def in_data_def ep0config_def filled_def)
  moreover have "otg_txfifo_handler (\<lambda>_. 16) 0 d k = otg_txfifo_handler (\<lambda>_. 16) 0 ?d k"
    using assms ws(1) m
    by (subst otg_txfifo_handler.simps) (simp add: tx_next_def in_ep_def in_data_def ep0config_def filled_def p Let_def, simp add: min_def)
  ultimately show ?thesis using ws(2) p by auto
qed

lemma in_packet_eq:
  assumes "in_data d p n"
  shows "usb_in_packet C d k = do { (d', k') \<leftarrow> in_xfrc C 0 (packet_out p n d) k;
    Some (map (usb_view d (fst p)) [snd p..<snd p + min n 64], d', k') }"
proof -
  obtain ws where ws: "otg_txfifo_handler (\<lambda>_. 16) 0 d k = Some (Done True, filled p n (upd_otg (\<lambda>r. r\<lparr>TXFIFO := (TXFIFO r)(0 := ws)\<rparr>) d), k)"
      "unpack (min n 64) ws = map (usb_view d (fst p)) [snd p..<snd p + min n 64]"
    using txfifo_filled [OF assms] by blast
  have "packet_sent (filled p n (upd_otg (\<lambda>r. r\<lparr>TXFIFO := (TXFIFO r)(0 := ws)\<rparr>) d)) = packet_out p n d"
    by (simp add: packet_out_defs)
  moreover have "xfrsiz (DIEPTSIZ (otg d) 0) = min n 64" "DIEPMSK (otg d) AND 1 \<noteq> 0"
    using assms xfrsiz_tsiz [of "min n 64"] by (simp_all add: in_data_def)
  ultimately show ?thesis using ws
    using assms by (simp add: usb_in_packet_def otg_epin_handler_def packet_out_defs in_data_def split_beta)
qed

lemma in_packet_more:
  assumes "in_data d p n" "64 < n" "class_isr k"
  shows "\<exists>d'. usb_in_packet C d k = Some (map (usb_view d (fst p)) [snd p..<snd p + 64], d', k) \<and>
    in_data d' (fst p, snd p + 64) (n - 64) \<and> in_frame d d' \<and> ep0state d' = ep0state d"
proof -
  let ?d = "packet_out p n d"
  let ?e = "?d\<lparr>ep_states := (ep_states ?d)(0 := (ep_states ?d 0)\<lparr>x_size := n - 64, x_cnt := 0\<rparr>)\<rparr>"
  have c: "epc d 0 = Some ep0config" using assms(1) by (simp add: in_data_def)
  have "usb_lld_prepare_transmit 0 ?e = Some (?e\<lparr>ep_states := (ep_states ?e)(0 := ep_xfer (fst p, snd p + 64) (n - 64)),
      otg := (otg ?e)\<lparr>DIEPTSIZ := (DIEPTSIZ (otg ?e))(0 := tsiz (min (n - 64) 64))\<rparr>\<rparr>)"
    using prepare_transmit_0 [of ?e "n - 64"] c assms(2) by (simp add: packet_out_defs)
  moreover define d' where "d' = usb_lld_start_in 0 (?e\<lparr>ep_states := (ep_states ?e)(0 := ep_xfer (fst p, snd p + 64) (n - 64)),
      otg := (otg ?e)\<lparr>DIEPTSIZ := (DIEPTSIZ (otg ?e))(0 := tsiz (min (n - 64) 64))\<rparr>\<rparr>)"
  ultimately have "in_xfrc C 0 ?d k = Some (d', k)"
    using c assms(2) isr_lock [OF assms(3)] by (simp add: in_xfrc_def in_ep_def ep0config_def packet_out_defs)
  moreover have "in_data d' (fst p, snd p + 64) (n - 64)" "ep0state d' = ep0state d"
    using assms(1) epena_set [of "DIEPCTL (otg d) 0 AND NOT DIEPCTL_EPENA"]
    by (simp_all add: d'_def in_data_def usb_lld_start_in_def packet_out_defs)
  moreover have "in_frame d d'"
    unfolding in_frame_def by (intro conjI view_cong) (simp_all add: d'_def usb_lld_start_in_def packet_out_defs)
  ultimately show ?thesis using in_packet_eq [OF assms(1), of C k] assms(2) by simp
qed

lemma in_packet_last:
  assumes "in_data d p n" "n \<le> 64"
  shows "usb_in_packet C d k = do { (d', k') \<leftarrow> usb_ep0in C (tx_done (packet_out p n d)) k;
    Some (map (usb_view d (fst p)) [snd p..<snd p + n], d', k') }"
proof -
  have "in_xfrc C 0 (packet_out p n d) k = usb_ep0in C (tx_done (packet_out p n d)) k"
    using assms by (simp add: in_data_def in_xfrc_def in_ep_def ep0config_def packet_out_defs usb_isr_invoke_in_cb_def tx_done_def)
  then show ?thesis using in_packet_eq [OF assms(1), of C k] assms(2) by simp
qed

text \<open>The status stage: an empty OUT packet is awaited.\<close>

definition status_awaited :: "usb_driver \<Rightarrow> bool" where
  "status_awaited d \<longleftrightarrow> ep0state d = USB_EP0_WAITING_STS \<and> bit (receiving d) 0 \<and> ep_states d 0 = ep_xfer usb_null 0"

definition zlp_due :: "usb_driver \<Rightarrow> bool" where
  "zlp_due d \<longleftrightarrow> ep0n d < unat (get_hword (setup_pkt d) 6) \<and> ep0n d mod 64 = 0"

lemma out_frame: "in_frame d (tx_done (packet_out p n d))" "epc (tx_done (packet_out p n d)) 0 = epc d 0"
    "ep0state (tx_done (packet_out p n d)) = ep0state d" "TXFIFO (otg d) 0 = [] \<Longrightarrow> TXFIFO (otg (tx_done (packet_out p n d))) 0 = []"
    "DIEPMSK (otg (tx_done (packet_out p n d))) = DIEPMSK (otg d)" "\<not> bit (transmitting (tx_done (packet_out p n d))) 0" "zlp_due (tx_done (packet_out p n d)) = zlp_due d"
proof -
  show "in_frame d (tx_done (packet_out p n d))"
    unfolding in_frame_def by (intro conjI view_cong) (simp_all add: tx_done_def packet_out_defs)
next
  show "\<not> bit (transmitting (tx_done (packet_out p n d))) 0"
    using bit_cleared [of "transmitting (packet_out p n d)"] by (simp add: tx_done_def)
qed (simp_all add: tx_done_def packet_out_defs zlp_due_def)

lemma to_status_stage:
  assumes "class_isr k" "epc d 0 = Some ep0config"
  shows "\<exists>d'. ep0_receive usb_null 0 (d\<lparr>ep0state := USB_EP0_WAITING_STS\<rparr>) k = Some (d', k) \<and> status_awaited d' \<and> in_frame d d'"
proof -
  obtain a b where "ep0_receive usb_null 0 (d\<lparr>ep0state := USB_EP0_WAITING_STS\<rparr>) k =
      Some (d\<lparr>ep0state := USB_EP0_WAITING_STS, ep_states := (ep_states d)(0 := ep_xfer usb_null 0), receiving := receiving d OR 1,
        otg := (otg d)\<lparr>DOEPTSIZ := a, DOEPCTL := b\<rparr>\<rparr>, k)"
    using ep0_receive_eq [of k "d\<lparr>ep0state := USB_EP0_WAITING_STS\<rparr>" usb_null 0] assms by auto
  moreover have "in_frame d (d\<lparr>ep0state := USB_EP0_WAITING_STS, ep_states := (ep_states d)(0 := ep_xfer usb_null 0),
      receiving := receiving d OR 1, otg := (otg d)\<lparr>DOEPTSIZ := a, DOEPCTL := b\<rparr>\<rparr>)"
    unfolding in_frame_def by (intro conjI view_cong) simp_all
  ultimately show ?thesis using bit_started [of "receiving d"] by (auto simp: status_awaited_def)
qed

lemma to_zero_packet:
  assumes "class_isr k" "epc d 0 = Some ep0config" "TXFIFO (otg d) 0 = []" "DIEPMSK (otg d) AND 1 \<noteq> 0" "\<not> bit (transmitting d) 0"
  shows "\<exists>d'. ep0_transmit usb_null 0 d k = Some (d', k) \<and> in_data d' usb_null 0 \<and> in_frame d d'"
proof -
  obtain b c where "ep0_transmit usb_null 0 d k = Some (d\<lparr>ep_states := (ep_states d)(0 := ep_xfer usb_null 0),
      transmitting := transmitting d OR 1, otg := (otg d)\<lparr>DIEPTSIZ := (DIEPTSIZ (otg d))(0 := tsiz (min 0 64)), DIEPCTL := b, DIEPEMPMSK := c\<rparr>\<rparr>, k)"
      "b 0 AND DIEPCTL_EPENA \<noteq> 0"
    using ep0_transmit_eq [OF assms(1,2), of usb_null 0] assms(5) by auto
  moreover have "in_frame d (d\<lparr>ep_states := (ep_states d)(0 := ep_xfer usb_null 0),
      transmitting := transmitting d OR 1, otg := (otg d)\<lparr>DIEPTSIZ := (DIEPTSIZ (otg d))(0 := tsiz (min 0 64)), DIEPCTL := b, DIEPEMPMSK := c\<rparr>\<rparr>)"
    unfolding in_frame_def by (intro conjI view_cong) simp_all
  ultimately show ?thesis using assms by (auto simp: in_data_def)
qed

lemma in_packet_final:
  assumes "in_data d p n" "n \<le> 64" "class_isr k"
  shows "ep0state d = USB_EP0_WAITING_TX0 \<or> ep0state d = USB_EP0_TX \<and> \<not> zlp_due d \<Longrightarrow>
      \<exists>d'. usb_in_packet C d k = Some (map (usb_view d (fst p)) [snd p..<snd p + n], d', k) \<and> status_awaited d' \<and> in_frame d d'"
    and "ep0state d = USB_EP0_TX \<and> zlp_due d \<Longrightarrow>
      \<exists>d'. usb_in_packet C d k = Some (map (usb_view d (fst p)) [snd p..<snd p + n], d', k) \<and> in_data d' usb_null 0 \<and>
        ep0state d' = USB_EP0_WAITING_TX0 \<and> in_frame d d'"
proof -
  let ?d = "tx_done (packet_out p n d)"
  have e: "epc ?d 0 = Some ep0config" "in_maxsize ep0config = 64" "TXFIFO (otg ?d) 0 = []" "DIEPMSK (otg ?d) AND 1 \<noteq> 0" "\<not> bit (transmitting ?d) 0"
    using assms(1) out_frame [where d = d and p = p and n = n] by (simp_all add: in_data_def ep0config_def)
  note pk = in_packet_last [OF assms(1,2), of C k] and tr = in_frame_trans [OF out_frame(1)]
  show "\<exists>d'. usb_in_packet C d k = Some (map (usb_view d (fst p)) [snd p..<snd p + n], d', k) \<and> status_awaited d' \<and> in_frame d d'"
    if "ep0state d = USB_EP0_WAITING_TX0 \<or> ep0state d = USB_EP0_TX \<and> \<not> zlp_due d"
  proof -
    have "usb_ep0in C ?d k = ep0_receive usb_null 0 (?d\<lparr>ep0state := USB_EP0_WAITING_STS\<rparr>) k"
      using that e(1,2) out_frame [where d = d and p = p and n = n] by (auto simp: usb_ep0in_def zlp_due_def)
    then show ?thesis using to_status_stage [OF assms(3) e(1)] pk tr by fastforce
  qed
  show "\<exists>d'. usb_in_packet C d k = Some (map (usb_view d (fst p)) [snd p..<snd p + n], d', k) \<and> in_data d' usb_null 0 \<and>
        ep0state d' = USB_EP0_WAITING_TX0 \<and> in_frame d d'" if "ep0state d = USB_EP0_TX \<and> zlp_due d"
  proof -
    obtain d' where d': "ep0_transmit usb_null 0 ?d k = Some (d', k)" "in_data d' usb_null 0" "in_frame ?d d'"
      using to_zero_packet [OF assms(3) e(1,3,4,5)] by blast
    then have "usb_ep0in C ?d k = Some (d'\<lparr>ep0state := USB_EP0_WAITING_TX0\<rparr>, k)"
      using that e(1,2) out_frame [where d = d and p = p and n = n] by (simp add: usb_ep0in_def zlp_due_def)
    moreover have "in_data (d'\<lparr>ep0state := USB_EP0_WAITING_TX0\<rparr>) usb_null 0" using d'(2) by (simp add: in_data_def)
    moreover have "in_frame d' (d'\<lparr>ep0state := USB_EP0_WAITING_TX0\<rparr>)" unfolding in_frame_def by (intro conjI view_cong) simp_all
    ultimately show ?thesis using pk tr in_frame_trans [OF d'(3)] by fastforce
  qed
qed

text \<open>The packets of a transfer: all full but the last.\<close>

function packets :: "'a list \<Rightarrow> 'a list list" where
  "packets xs = (if length xs \<le> 64 then [xs] else take 64 xs # packets (drop 64 xs))"
  by pat_completeness auto
termination by (relation "measure length") auto

declare packets.simps [simp del]

lemma packets_facts: "concat (packets xs) = xs" "\<forall>p \<in> set (packets xs). length p \<le> 64"
  "p \<in> set (butlast (packets xs)) \<Longrightarrow> length p = 64"
proof (induction xs rule: packets.induct)
  case (1 xs)
  { case 1 show ?case using "1.IH"(1) by (subst packets.simps) auto }
  { case 2 show ?case using "1.IH"(2) by (subst packets.simps) auto }
  { case 3 
    moreover have "packets ys \<noteq> []" for ys :: "'a list" by (subst packets.simps) simp
    ultimately show ?case using "1.IH"(3) by (cases "length xs \<le> 64") (auto simp: packets.simps [of xs] split: if_splits) }
qed

lemma in_packets_sent:
  "in_data d p n \<Longrightarrow> ep0state d = USB_EP0_TX \<Longrightarrow> class_isr k \<Longrightarrow>
   ps = packets (map (usb_view d (fst p)) [snd p..<snd p + n]) @ (if zlp_due d then [[]] else []) \<Longrightarrow>
   \<exists>d'. usb_in_packets (length ps) C d k = Some (ps, d', k) \<and> status_awaited d' \<and> in_frame d d'"
proof (induction n arbitrary: d p ps rule: less_induct)
  case (less n)
  let ?xs = "map (usb_view d (fst p)) [snd p..<snd p + n]"
  show ?case
  proof (cases "n \<le> 64")
    case True
    then have pk: "packets ?xs = [?xs]" by (subst packets.simps) simp
    show ?thesis
    proof (cases "zlp_due d")
      case False
      then show ?thesis using in_packet_final(1) [OF less.prems(1) True less.prems(3), of C] less.prems(2,4) pk by auto
    next
      case z: True
      then obtain d' where d': "usb_in_packet C d k = Some (?xs, d', k)" "in_data d' usb_null 0" "ep0state d' = USB_EP0_WAITING_TX0" "in_frame d d'"
        using in_packet_final(2) [OF less.prems(1) True less.prems(3), of C] less.prems(2) by blast
      obtain d2 where "usb_in_packet C d' k = Some ([], d2, k)" "status_awaited d2" "in_frame d' d2"
        using in_packet_final(1) [OF d'(2) _ less.prems(3), of C] d'(3) by auto
      then show ?thesis using d'(1,4) z less.prems(4) pk in_frame_trans by fastforce
    qed
  next
    case False
    then obtain d' where d': "usb_in_packet C d k = Some (map (usb_view d (fst p)) [snd p..<snd p + 64], d', k)"
        "in_data d' (fst p, snd p + 64) (n - 64)" "in_frame d d'" "ep0state d' = ep0state d"
      using in_packet_more [OF less.prems(1) _ less.prems(3), of C] by auto
    define ps' where "ps' = packets (map (usb_view d' (fst p)) [snd p + 64..<snd p + n]) @ (if zlp_due d' then [[]] else [])"
    have "snd p + 64 + (n - 64) = snd p + n" using False by simp
    then obtain d2 where d2: "usb_in_packets (length ps') C d' k = Some (ps', d2, k)" "status_awaited d2" "in_frame d' d2"
      using less.IH [OF _ d'(2) _ less.prems(3), of ps'] False less.prems(2) d'(4) by (auto simp: ps'_def)
    have "zlp_due d' = zlp_due d" "usb_view d' = usb_view d" using d'(3) by (simp_all add: in_frame_def zlp_due_def)
    then have "ps = map (usb_view d (fst p)) [snd p..<snd p + 64] # ps'"
      using less.prems(4) False unfolding ps'_def by (subst (asm) packets.simps) (simp add: take_map drop_map)
    then show ?thesis using d'(1,3) d2 in_frame_trans by fastforce
  qed
qed

lemma status_received:
  assumes "status_awaited d" "epc d 0 = Some ep0config" "ep0endcb d = None"
  shows "\<exists>d'. out_xfrc C 0 d k = Some (d', k) \<and> ep0state d' = USB_EP0_WAITING_SETUP"
  using assms by (simp add: status_awaited_def out_xfrc_def out_ep_def ep0config_def usb_isr_invoke_out_cb_def usb_ep0out_def
    usb_lld_get_transaction_size_def ep0_end_def)

text \<open>The data stage of any request that sends data.\<close>

lemma in_stage_sends:
  assumes d: "epc d 0 = Some ep0config" "class_isr k" "TXFIFO (otg d) 0 = []" "DIEPMSK (otg d) AND 1 \<noteq> 0" "\<not> bit (transmitting d) 0"
    and s: "setup_pkt d ! 0 AND 0x80 = 0x80" "ep0endcb d = None"
    and n: "n = min (ep0n d) (unat (get_hword (setup_pkt d) 6))" "0 < n"
    and ps: "ps = packets (map (usb_view d (fst (ep0next d))) [snd (ep0next d)..<snd (ep0next d) + n]) @
      (if n < unat (get_hword (setup_pkt d) 6) \<and> n mod 64 = 0 then [[]] else [])"
  shows "\<exists>d1 d2 d3. ep0_data_stage d k = Some (d1, k) \<and> usb_in_packets (length ps) C d1 k = Some (ps, d2, k) \<and>
    out_xfrc C 0 d2 k = Some (d3, k) \<and> ep0state d3 = USB_EP0_WAITING_SETUP"
proof -
  let ?d = "d\<lparr>ep0n := n, ep0state := USB_EP0_TX\<rparr>" and ?p = "ep0next d"
  have dn: "(if ep0n d > unat (get_hword (setup_pkt d) 6) then d\<lparr>ep0n := unat (get_hword (setup_pkt d) 6)\<rparr> else d) = d\<lparr>ep0n := n\<rparr>"
    using n by (simp add: min_def)
  have st: "ep0_data_stage d k = ep0_transmit ?p n ?d k"
    unfolding ep0_data_stage_def Let_def dn using s(1) n(2) by simp
  obtain b c where t: "ep0_transmit ?p n ?d k = Some (?d\<lparr>ep_states := (ep_states d)(0 := ep_xfer ?p n), transmitting := transmitting d OR 1,
      otg := (otg d)\<lparr>DIEPTSIZ := (DIEPTSIZ (otg d))(0 := tsiz (min n 64)), DIEPCTL := b, DIEPEMPMSK := c\<rparr>\<rparr>, k)"
      "b 0 AND DIEPCTL_EPENA \<noteq> 0"
    using ep0_transmit_eq [OF d(2), of ?d ?p n] d(1,5) by auto
  define d1 where "d1 = ?d\<lparr>ep_states := (ep_states d)(0 := ep_xfer ?p n), transmitting := transmitting d OR 1,
      otg := (otg d)\<lparr>DIEPTSIZ := (DIEPTSIZ (otg d))(0 := tsiz (min n 64)), DIEPCTL := b, DIEPEMPMSK := c\<rparr>\<rparr>"
  have "in_data d1 ?p n" "ep0state d1 = USB_EP0_TX" using d t(2) by (simp_all add: d1_def in_data_def)
  moreover have "usb_view d1 = usb_view d" by (rule view_cong) (simp_all add: d1_def)
  moreover have "zlp_due d1 \<longleftrightarrow> n < unat (get_hword (setup_pkt d) 6) \<and> n mod 64 = 0" by (simp add: zlp_due_def d1_def)
  ultimately obtain d2 where d2: "usb_in_packets (length ps) C d1 k = Some (ps, d2, k)" "status_awaited d2" "in_frame d1 d2"
    using in_packets_sent [of d1 ?p n k ps C] d(2) ps by auto
  then have "epc d2 0 = Some ep0config" "ep0endcb d2 = None" using d(1) s(2) by (simp_all add: in_frame_def d1_def)
  from status_received [OF d2(2) this, of C k] show ?thesis using st t(1) d2(1) by (auto simp: d1_def)
qed

text \<open>A standard request that the application leaves to the driver and the driver handles.\<close>

lemma read_setup_0:
  assumes "epc d 0 = Some ep0config"
  shows "usb_lld_read_setup 0 (d\<lparr>ep0state := st\<rparr>) = Some (map (u_mem d Ep0setup_buffer) [0..<8])"
proof -
  have "usb_view (d\<lparr>ep0state := st\<rparr>) Ep0setup_buffer = u_mem d Ep0setup_buffer" by (rule ext) (simp add: usb_view_def)
  then show ?thesis using assms by (simp add: usb_lld_read_setup_def ep0config_def)
qed

lemma standard_request:
  assumes d: "epc d 0 = Some ep0config" "u_config d"
    and pkt: "pkt = map (u_mem d Ep0setup_buffer) [0..<8]" "pkt ! 0 AND 0x60 = 0"
    and app: "d0 = d\<lparr>ep0state := USB_EP0_WAITING_SETUP, setup_pkt := pkt\<rparr>"
      "\<forall>h. requests_hook_cb C = Some h \<longrightarrow> h d0 k = Some (False, d0, k)"
    and h: "default_handler C d0 k = Some (True, d', k')"
  shows "usb_ep0setup C 0 d k = ep0_data_stage d' k'"
proof -
  have f: "u_config d0" "setup_pkt d0 ! 0 AND 0x60 = 0" using pkt(2) d(2) by (simp_all add: app(1))
  have "usb_lld_read_setup 0 (d\<lparr>ep0state := USB_EP0_WAITING_SETUP\<rparr>) = Some pkt"
    using read_setup_0 [OF d(1)] pkt(1) by simp
  moreover have "(case requests_hook_cb C of None \<Rightarrow> Some (False, d0, k) | Some f \<Rightarrow> f d0 k) = Some (False, d0, k)"
    using app(2) by (cases "requests_hook_cb C") auto
  ultimately show ?thesis using f h unfolding app(1) usb_ep0setup_def Let_def by simp
qed

text \<open>
  C19. The host gets its descriptor. A GET_DESCRIPTOR request that arrives when endpoint 0 is not sending, and that the hook of
  the application leaves to the driver, is answered in packets of 64 bytes, the last one shorter or equal, that
  together are the first bytes of the descriptor, as many as the host asked for or the descriptor has. An empty packet
  follows exactly when the answer is shorter than what was asked for and its size is a multiple of 64; after the status
  packet of the host the device waits for the next request. This covers the driver, the size and control
  registers, the pump thread and the words in the FIFO.
\<close>

theorem usb_get_descriptor:
  assumes d: "epc d 0 = Some ep0config" "u_config d" "class_isr k" "TXFIFO (otg d) 0 = []" "DIEPMSK (otg d) AND 1 \<noteq> 0" "\<not> bit (transmitting d) 0"
    and pkt: "pkt = map (u_mem d Ep0setup_buffer) [0..<8]" "pkt ! 0 = 0x80" "pkt ! 1 = 6"
    and app: "d0 = d\<lparr>ep0state := USB_EP0_WAITING_SETUP, setup_pkt := pkt\<rparr>"
      "\<forall>h. requests_hook_cb C = Some h \<longrightarrow> h d0 k = Some (False, d0, k)"
      "get_descriptor_cb C (pkt ! 3) (pkt ! 2) (get_hword pkt 4) d0 = Some ((ob, i), sz)"
    and n: "n = min sz (unat (get_hword pkt 6))" "0 < n"
    and ps: "ps = packets (map (usb_view d ob) [i..<i + n]) @ (if n < unat (get_hword pkt 6) \<and> n mod 64 = 0 then [[]] else [])"
  shows "concat ps = map (usb_view d ob) [i..<i + n] \<and> (\<forall>p \<in> set ps. length p \<le> 64) \<and>
    (\<exists>d1 d2 d3. usb_ep0setup C 0 d k = Some (d1, k) \<and> usb_in_packets (length ps) C d1 k = Some (ps, d2, k) \<and>
       out_xfrc C 0 d2 k = Some (d3, k) \<and> ep0state d3 = USB_EP0_WAITING_SETUP)"
proof -
  let ?d = "usbSetupTransfer (ob, i) sz None d0"
  have "default_handler C d0 k = Some (True, ?d, k)"
  proof -
    have "usb_request d0 = (RECIPIENT_DEVICE, USB_REQ_GET_DESCRIPTOR)" using pkt(2,3) app(1) by (simp add: usb_request_def usb_codes)
    then show ?thesis using app(1,3) d(2) by (simp add: default_handler_def usb_codes)
  qed
  then have st: "usb_ep0setup C 0 d k = ep0_data_stage ?d k" using standard_request [OF d(1,2) pkt(1) _ app(1,2)] pkt(2) by simp
  have v: "usb_view ?d = usb_view d" by (rule view_cong) (simp_all add: app(1) usbSetupTransfer_def)
  have "\<exists>d1 d2 d3. ep0_data_stage ?d k = Some (d1, k) \<and> usb_in_packets (length ps) C d1 k = Some (ps, d2, k) \<and>
      out_xfrc C 0 d2 k = Some (d3, k) \<and> ep0state d3 = USB_EP0_WAITING_SETUP"
    using d pkt(2) n ps v by (intro in_stage_sends [where n = n]) (simp_all add: app(1) usbSetupTransfer_def)
  then show ?thesis using st packets_facts(1,2) [of "map (usb_view d ob) [i..<i + n]"] ps by (auto simp del: packets.simps)
qed

end
