(* ===== verification/HalUsbEndpoints.thy ===== *)
theory HalUsbEndpoints
  imports HalUsb
begin

text \<open>
  Properties of the USB driver beyond endpoint 0: the division of the FIFO memory between endpoints, what is left of it and
  of the endpoints when a host changes the configuration, and what a host can do to the memory of the device.
\<close>

unbundle bit_operations_syntax

subsection \<open>The FIFO memory\<close>

text \<open>The transmit FIFO of an endpoint as its register describes it: words from \<open>fifo_start\<close> on.\<close>

definition tx_fifo :: "usb_driver \<Rightarrow> nat \<Rightarrow> 32 word" where
  "tx_fifo d ep = (if ep = 0 then DIEPTXF0 (otg d) else DIEPTXF (otg d) (ep - 1))"

definition fifo_region :: "32 word \<Rightarrow> nat set" where
  "fifo_region w = {unat (take_bit 16 w) ..< unat (take_bit 16 w) + unat (drop_bit 16 w)}"

definition in_active :: "usb_driver \<Rightarrow> nat \<Rightarrow> bool" where
  "in_active d ep = (case epc d ep of None \<Rightarrow> False | Some c \<Rightarrow> in_cb c \<noteq> None)"

definition fifos_ok :: "usb_driver \<Rightarrow> bool" where
  "fifos_ok d \<longleftrightarrow> rx_fifo_size (otgparams d) \<le> pmnext d \<and> pmnext d \<le> otg_ram_size (otgparams d) \<and> otg_ram_size (otgparams d) < 2 ^ 16 \<and>
     (\<forall>ep. in_active d ep \<longrightarrow> fifo_region (tx_fifo d ep) \<subseteq> {rx_fifo_size (otgparams d) ..< pmnext d} \<and>
        (\<forall>ep'. in_active d ep' \<longrightarrow> ep \<noteq> ep' \<longrightarrow> fifo_region (tx_fifo d ep) \<inter> fifo_region (tx_fifo d ep') = {}))"

lemma fifo_region_alloc:
  assumes "start + n < 2 ^ 16"
  shows "fifo_region (DIEPTXF_INEPTXFD n OR DIEPTXF_INEPTXSA start) = {start ..< start + n}"
proof -
  let ?w = "push_bit 16 (of_nat n) OR of_nat start :: 32 word"
  have lt: "start < 2 ^ 16" "n < 2 ^ 16" using assms by auto
  have b: "bit m i \<Longrightarrow> i < 16" if "m < 2 ^ 16" for m i :: nat
    using that by (metis bit_take_bit_iff take_bit_nat_eq_self)
  have "drop_bit 16 ?w = of_nat n" using b [OF lt(1)] b [OF lt(2)]
    by (intro bit_word_eqI) (auto simp: bit_simps)
  then have "unat (drop_bit 16 ?w) = n" using lt(2) by (simp add: unat_of_nat)
  moreover have "take_bit 16 ?w = of_nat start" using b [OF lt(1)] by (intro bit_word_eqI) (auto simp: bit_simps)
  then have "unat (take_bit 16 ?w) = start" using lt(1) by (simp add: unat_of_nat)
  ultimately show ?thesis by (simp add: fifo_region_def DIEPTXF_INEPTXFD_def DIEPTXF_INEPTXSA_def)
qed

lemma usb_reset_eq:
  assumes "rx_fifo_size (otgparams d) + 16 \<le> otg_ram_size (otgparams d)"
  shows "\<exists>d'. usb_reset d = Some d' \<and> epc d' = (\<lambda>i. if i = 0 then Some ep0config else if i \<le> USB_MAX_ENDPOINTS then None else epc d i) \<and>
    pmnext d' = rx_fifo_size (otgparams d) + 16 \<and> otgparams d' = otgparams d \<and>
    DIEPTXF0 (otg d') = DIEPTXF_INEPTXFD 16 OR DIEPTXF_INEPTXSA (rx_fifo_size (otgparams d)) \<and>
    u_state d' = USB_READY \<and> transmitting d' = 0 \<and> receiving d' = 0 \<and> u_config d' = u_config d \<and> ep0state d' = USB_EP0_WAITING_SETUP"
  using assms by (simp add: usb_reset_def usb_lld_reset_def Let_def otg_ram_alloc_def otg_txfifo_flush_def otg_rxfifo_flush_def
    otg_ram_reset_def ep0config_def USB_MAX_ENDPOINTS_def fun_eq_iff)

text \<open>What initialising an endpoint does to the division of the FIFO memory.\<close>

lemma usbInitEndpointI_fifo:
  assumes "usbInitEndpointI ep c d k = Some d'"
  shows "0 < ep \<and> epc d ep = None \<and> epc d' = (epc d)(ep \<mapsto> c) \<and> otgparams d' = otgparams d \<and> DIEPTXF0 (otg d') = DIEPTXF0 (otg d) \<and>
    (\<forall>i. i \<noteq> ep - 1 \<longrightarrow> DIEPTXF (otg d') i = DIEPTXF (otg d) i) \<and>
    (in_cb c = None \<and> pmnext d' = pmnext d \<or>
     in_cb c \<noteq> None \<and> pmnext d \<le> pmnext d' \<and> pmnext d' \<le> otg_ram_size (otgparams d) \<and>
       DIEPTXF (otg d') (ep - 1) = DIEPTXF_INEPTXFD (pmnext d' - pmnext d) OR DIEPTXF_INEPTXSA (pmnext d))"
proof -
  define d1 where "d1 = (\<lambda>usbp. case out_state c of None \<Rightarrow> usbp | Some a \<Rightarrow> upd_ep a (\<lambda>_. \<lparr>x_size = 0, x_cnt = 0, x_mode = Linear usb_null, x_totsize = 0\<rparr>) usbp)
    ((\<lambda>usbp. case in_state c of None \<Rightarrow> usbp | Some a \<Rightarrow> upd_ep a (\<lambda>_. \<lparr>x_size = 0, x_cnt = 0, x_mode = Linear usb_null, x_totsize = 0\<rparr>) usbp) d)"
  have s: "epc d1 = epc d" "otg d1 = otg d" "otgparams d1 = otgparams d" "pmnext d1 = pmnext d"
    by (simp_all add: d1_def split: option.splits)
  have "epc d ep = None" "usb_lld_init_endpoint ep (d1\<lparr>epc := (epc d1)(ep \<mapsto> c)\<rparr>) = Some d'"
    using assms by (auto simp: usbInitEndpointI_def Let_def bind_eq_Some_conv d1_def)
  then show ?thesis using s
    by (cases "in_cb c") (auto simp: usb_lld_init_endpoint_def init_in_def init_out_def otg_ram_alloc_def Let_def otg_txfifo_flush_def
      bind_eq_Some_conv)
qed

lemma fifos_ok_init:
  assumes ok: "fifos_ok d" and i: "usbInitEndpointI ep c d k = Some d'"
  shows "fifos_ok d'"
proof -
  note f = usbInitEndpointI_fifo [OF i]
  have old: "in_active d' e \<longleftrightarrow> in_active d e" "tx_fifo d' e = tx_fifo d e" if "e \<noteq> ep" for e
    using f that by (auto simp: in_active_def tx_fifo_def)
  have idle: "\<not> in_active d ep" using f by (simp add: in_active_def)
  show ?thesis
  proof (cases "in_cb c = None")
    case True
    then have "\<not> in_active d' ep" using f by (simp add: in_active_def)
    then show ?thesis using ok old f True unfolding fifos_ok_def by (metis (no_types, lifting))
  next
    case False
    then have p: "pmnext d \<le> pmnext d'" "pmnext d' \<le> otg_ram_size (otgparams d)" "otgparams d' = otgparams d" using f by auto
    have "tx_fifo d' ep = DIEPTXF_INEPTXFD (pmnext d' - pmnext d) OR DIEPTXF_INEPTXSA (pmnext d)" using f False by (simp add: tx_fifo_def)
    then have new: "fifo_region (tx_fifo d' ep) = {pmnext d ..< pmnext d'}"
      using fifo_region_alloc [of "pmnext d" "pmnext d' - pmnext d"] p ok by (simp add: fifos_ok_def)
    have o: "fifo_region (tx_fifo d' e) \<subseteq> {rx_fifo_size (otgparams d) ..< pmnext d}" if "e \<noteq> ep" "in_active d' e" for e
      using ok old that by (simp add: fifos_ok_def)
    have "fifo_region (tx_fifo d' e) \<inter> fifo_region (tx_fifo d' ep) = {}" if "e \<noteq> ep" "in_active d' e" for e
      using o [OF that] new by fastforce
    moreover have "fifo_region (tx_fifo d' e) \<inter> fifo_region (tx_fifo d' e') = {}"
      if "e \<noteq> ep" "in_active d' e" "e' \<noteq> ep" "in_active d' e'" "e \<noteq> e'" for e e'
      using ok old that by (simp add: fifos_ok_def)
    ultimately have disj: "fifo_region (tx_fifo d' e) \<inter> fifo_region (tx_fifo d' e') = {}" if "in_active d' e" "in_active d' e'" "e \<noteq> e'" for e e'
      using that by (cases "e = ep"; cases "e' = ep") blast+
    moreover have "fifo_region (tx_fifo d' e) \<subseteq> {rx_fifo_size (otgparams d') ..< pmnext d'}" if "in_active d' e" for e
      using o [of e] new that p ok by (cases "e = ep") (auto simp: fifos_ok_def)
    ultimately show ?thesis using ok p by (simp add: fifos_ok_def)
  qed
qed

text \<open>Initialising endpoints one after the other, as the configuration callbacks of applications do.\<close>

fun init_endpoints :: "(nat \<times> usb_ep_config) list \<Rightarrow> usb_driver \<Rightarrow> ch_system \<Rightarrow> usb_driver option" where
  "init_endpoints [] d k = Some d"
| "init_endpoints ((ep, c) # es) d k = do { d \<leftarrow> usbInitEndpointI ep c d k; init_endpoints es d k }"

text \<open>
  C21. The FIFO memory is divided without overlap. A bus reset gives endpoint 0 its transmit FIFO behind the receive FIFO, and whatever
  endpoints are initialised afterwards, without the driver stopping for lack of memory: the transmit FIFOs of all
  active endpoints lie behind the receive FIFO and inside the memory, and no two of them share a word.
\<close>

theorem usb_fifos_disjoint:
  assumes "rx_fifo_size (otgparams d) + 16 \<le> otg_ram_size (otgparams d)" "otg_ram_size (otgparams d) < 2 ^ 16"
    and "\<forall>i > USB_MAX_ENDPOINTS. epc d i = None"
  shows "\<exists>d1. usb_reset d = Some d1 \<and> fifos_ok d1 \<and>
    (\<forall>es d2 k st c a. init_endpoints es (d1\<lparr>u_state := st, configuration := c, address := a\<rparr>) k = Some d2 \<longrightarrow> fifos_ok d2)"
proof -
  obtain d1 where d1: "usb_reset d = Some d1" "epc d1 = (\<lambda>i. if i = 0 then Some ep0config else if i \<le> USB_MAX_ENDPOINTS then None else epc d i)"
      "pmnext d1 = rx_fifo_size (otgparams d) + 16" "otgparams d1 = otgparams d"
      "DIEPTXF0 (otg d1) = DIEPTXF_INEPTXFD 16 OR DIEPTXF_INEPTXSA (rx_fifo_size (otgparams d))"
    using usb_reset_eq [OF assms(1)] by blast
  have "in_active d1 e \<Longrightarrow> e = 0" for e
    using d1(2) assms(3) by (cases "e \<le> USB_MAX_ENDPOINTS") (auto simp: in_active_def split: if_splits)
  moreover have "fifo_region (tx_fifo d1 0) = {rx_fifo_size (otgparams d) ..< rx_fifo_size (otgparams d) + 16}"
    using d1(5) fifo_region_alloc [of "rx_fifo_size (otgparams d)" 16] assms(1,2) by (simp add: tx_fifo_def)
  ultimately have "fifos_ok d1" unfolding fifos_ok_def using d1(3,4) assms(1,2) by (metis add.commute le_add1 subset_refl)
  moreover have "fifos_ok d2" if "fifos_ok d0" "init_endpoints es d0 k = Some d2" for es d0 d2 k
    using that by (induction es d0 k rule: init_endpoints.induct) (auto simp: bind_eq_Some_conv intro: fifos_ok_init)
  moreover have "fifos_ok (d1\<lparr>u_state := st, configuration := c, address := a\<rparr>) = fifos_ok d1" for st c a
    by (simp add: fifos_ok_def in_active_def tx_fifo_def)
  ultimately show ?thesis using d1(1) by blast
qed

subsection \<open>Changing the configuration\<close>

text \<open>
  Endpoints do not survive a change of configuration. When the host selects configuration 0 while a transfer on
  an IN endpoint is under way, \<open>usbDisableEndpointsI\<close> clears the busy bits of endpoint 0 instead of those of the
  endpoints it disables, and the allocator forgets the FIFO of endpoint 0. When the endpoint is initialised again, it is
  still busy, so that no transfer on it is ever started, and its FIFO lies over the FIFO of endpoint 0.
\<close>

theorem usb_reconfigure_fails:
  assumes d: "u_state d = USB_SELECTED" "class_I k" "0 < ep" "ep \<le> USB_MAX_ENDPOINTS" "bit (transmitting d) ep"
    and ep0: "DIEPTXF0 (otg d) = DIEPTXF_INEPTXFD 16 OR DIEPTXF_INEPTXSA (rx_fifo_size (otgparams d))"
    and c: "in_cb c \<noteq> None" "in_multiplier c \<le> 1" "4 \<le> in_maxsize c"
    and m: "rx_fifo_size (otgparams d) + 16 < 2 ^ 16" "rx_fifo_size (otgparams d) + in_maxsize c div 4 \<le> otg_ram_size (otgparams d)"
      "otg_ram_size (otgparams d) < 2 ^ 16"
  shows "\<exists>d1 d2. usbDisableEndpointsI d k = Some d1 \<and> usbInitEndpointI ep c (d1\<lparr>u_state := USB_ACTIVE\<rparr>) k = Some d2 \<and>
    usbStartTransmitI ep d2 k = Some (True, d2) \<and> fifo_region (tx_fifo d2 0) \<inter> fifo_region (tx_fifo d2 ep) \<noteq> {}"
proof -
  let ?rx = "rx_fifo_size (otgparams d)"
  obtain d1 where d1: "usbDisableEndpointsI d k = Some d1" "epc d1 ep = None" "pmnext d1 = ?rx" "otgparams d1 = otgparams d"
      "DIEPTXF0 (otg d1) = DIEPTXF0 (otg d)" "transmitting d1 = transmitting d AND NOT 1"
    using d by (simp add: usbDisableEndpointsI_def usb_lld_disable_endpoints_def otg_ram_reset_def otg_disable_ep_def Let_def)
  have d2: "\<exists>d2. usbInitEndpointI ep c (d1\<lparr>u_state := USB_ACTIVE\<rparr>) k = Some d2 \<and> transmitting d2 = transmitting d1 \<and>
      pmnext d2 = ?rx + in_maxsize c div 4"
    using d c m d1
    by (cases "in_state c"; cases "out_state c")
      (auto simp: usbInitEndpointI_def usb_lld_init_endpoint_def init_in_def init_out_def otg_ram_alloc_def Let_def otg_txfifo_flush_def)
  then obtain d2 where d2: "usbInitEndpointI ep c (d1\<lparr>u_state := USB_ACTIVE\<rparr>) k = Some d2" "transmitting d2 = transmitting d1"
      "pmnext d2 = ?rx + in_maxsize c div 4" by blast
  have "bit (transmitting d2) ep" using d2(2) d1(6) d(3-5) by (auto simp: bit_simps USB_MAX_ENDPOINTS_def)
  then have "usbStartTransmitI ep d2 k = Some (True, d2)"
    using d(2) by (simp add: usbStartTransmitI_def usbGetTransmitStatusI_def bit_iff_and_push_bit_not_eq_0)
  moreover have "tx_fifo d2 ep = DIEPTXF_INEPTXFD (in_maxsize c div 4) OR DIEPTXF_INEPTXSA ?rx" "tx_fifo d2 0 = DIEPTXF0 (otg d)"
    using usbInitEndpointI_fifo [OF d2(1)] d1 d2(3) c(1) d(3) by (auto simp: tx_fifo_def)
  then have "?rx \<in> fifo_region (tx_fifo d2 0)" "?rx \<in> fifo_region (tx_fifo d2 ep)"
    using fifo_region_alloc [of ?rx 16] fifo_region_alloc [of ?rx "in_maxsize c div 4"] ep0 m c(3) by auto
  ultimately show ?thesis using d1(1) d2(1) by blast
qed

subsection \<open>Requests with the wrong direction\<close>

text \<open>
  C36. A host can write into the driver. The decoding of standard requests leaves out the direction: a GET_STATUS request sent as
  one with data from the host makes the driver receive into its own status field. The word that comes in overwrites the
  status and, as words are stored whole, the address and the configuration of the device.
\<close>

theorem usb_host_writes_status:
  assumes d: "epc d 0 = Some ep0config" "u_config d" "class_isr k"
    and pkt: "pkt = map (u_mem d Ep0setup_buffer) [0..<8]" "pkt ! 0 = 0" "pkt ! 1 = 0" "get_hword pkt 6 = 2"
    and app: "d0 = d\<lparr>ep0state := USB_EP0_WAITING_SETUP, setup_pkt := pkt\<rparr>"
      "\<forall>h. requests_hook_cb C = Some h \<longrightarrow> h d0 k = Some (False, d0, k)"
  shows "\<exists>d1 d2. usb_ep0setup C 0 d k = Some (d1, k) \<and>
    otg_rxfifo_handler 0x40020 (upd_otg (\<lambda>r. r\<lparr>RXFIFO := [w]\<rparr>) d1) k = Some (Done (), d2, k) \<and>
    status d2 = ucast w \<and> address d2 = byte_of w 2 \<and> configuration d2 = byte_of w 3"
proof -
  let ?d = "usbSetupTransfer (Driver_fields, 0) 2 None d0"
  have "default_handler C d0 k = Some (True, ?d, k)"
    using pkt(2,3) app(1) by (simp add: default_handler_def usb_request_def usb_codes)
  then have st: "usb_ep0setup C 0 d k = ep0_data_stage ?d k" using standard_request [OF d(1,2) pkt(1) _ app] pkt(2) by simp
  have "ep0_data_stage ?d k = ep0_receive (Driver_fields, 0) 2 (?d\<lparr>ep0state := USB_EP0_RX\<rparr>) k"
    using pkt(2,4) by (simp add: ep0_data_stage_def app(1) usbSetupTransfer_def)
  moreover obtain d1 where d1: "ep0_receive (Driver_fields, 0) 2 (?d\<lparr>ep0state := USB_EP0_RX\<rparr>) k = Some (d1, k)"
      "epc d1 0 = Some ep0config" "ep_states d1 0 = ep_xfer (Driver_fields, 0) 2"
    using ep0_receive_eq [OF d(3), of "?d\<lparr>ep0state := USB_EP0_RX\<rparr>" "(Driver_fields, 0)" 2] d(1) by (auto simp: app(1) usbSetupTransfer_def)
  moreover have "ucast (byte_of w 0) OR push_bit 8 (ucast (byte_of w (Suc 0))) = (ucast w :: 16 word)"
    by (rule bit_word_eqI) (auto simp: byte_of_def bit_simps)
  ultimately show ?thesis using st
    by (auto simp: otg_rxfifo_handler_def out_ep_def ep0config_def rx_to_buffer_def otg_fifo_read_to_buffer_def usb_store_def put_word_def
      numeral_2_eq_2 [symmetric] min_def)
qed

end
