(* ===== verification/HalSerialUsb.thy ===== *)
theory HalSerialUsb
  imports HalUsbEndpoints HalSerial
begin

text \<open>
  The serial port over USB, \<open>serial_usb.c\<close>, and the CDC device of \<open>testhal/STM32/STM32F4xx/USB_CDC/main.c\<close> that uses it: the
  configuration with which the USB driver runs. The queues of the port are those of the USB driver with the numbers
  \<open>sdu_iq\<close> and \<open>sdu_oq\<close>, since USB transfers work on them directly. The read and write methods of the port are the queue
  operations of \<open>ChIOQueues\<close>.
\<close>

unbundle bit_operations_syntax

datatype sdustate_t = SDU_UNINIT | SDU_STOP | SDU_READY

text \<open>\<open>sdu_id\<close> stands for the address of the driver object.\<close>

record sdu_driver =
  sdu_id :: nat
  sdu_state :: sdustate_t
  sdu_event :: nat
  sdu_iq :: nat
  sdu_oq :: nat
  bulk_in :: nat
  bulk_out :: nat
  int_in :: nat

definition SERIAL_USB_BUFFERS_SIZE :: nat where "SERIAL_USB_BUFFERS_SIZE = 256"
definition CHN_CONNECTED :: eventflags_t where "CHN_CONNECTED = 1"
definition CHN_DISCONNECTED :: eventflags_t where "CHN_DISCONNECTED = 2"

abbreviation set_uq :: "nat \<Rightarrow> io_queue \<Rightarrow> usb_driver \<Rightarrow> usb_driver" where
  "set_uq i q d \<equiv> d\<lparr>u_queues := (u_queues d)(i := q)\<rparr>"

subsection \<open>The driver\<close>

definition sduObjectInit ::
  "nat \<Rightarrow> nat \<Rightarrow> 8 word list \<Rightarrow> 8 word list \<Rightarrow> sdu_driver \<Rightarrow> usb_driver \<Rightarrow> ch_system \<Rightarrow> (sdu_driver \<times> usb_driver \<times> ch_system) option" where
  "sduObjectInit tqi tqo ib ob sdup usbp k =
     do { assert_that (length ib = SERIAL_USB_BUFFERS_SIZE \<and> length ob = SERIAL_USB_BUFFERS_SIZE);
          let k = osalEventObjectInit (sdu_event sdup) k;
          let (iq, k) = chIQObjectInit tqi ib k;
          let (oq, k) = chOQObjectInit tqo ob k;
          Some (sdup\<lparr>sdu_state := SDU_STOP\<rparr>, set_uq (sdu_oq sdup) oq (set_uq (sdu_iq sdup) iq usbp), k) }"

definition sdu_params :: "nat option \<Rightarrow> sdu_driver \<Rightarrow> usb_driver \<Rightarrow> usb_driver" where
  "sdu_params v sdup usbp =
     (let usbp = usbp\<lparr>in_params := (in_params usbp)(bulk_in sdup - 1 := v), out_params := (out_params usbp)(bulk_out sdup - 1 := v)\<rparr>
      in if int_in sdup > 0 then usbp\<lparr>in_params := (in_params usbp)(int_in sdup - 1 := v)\<rparr> else usbp)"

definition sduStart :: "sdu_driver \<Rightarrow> usb_driver \<Rightarrow> ch_system \<Rightarrow> (sdu_driver \<times> usb_driver \<times> ch_system) option" where
  "sduStart sdup usbp k =
     do { k \<leftarrow> osalSysLock k;
          assert_that (sdu_state sdup = SDU_STOP \<or> sdu_state sdup = SDU_READY);
          let usbp = sdu_params (Some (sdu_id sdup)) sdup usbp;
          k \<leftarrow> osalSysUnlock k;
          Some (sdup\<lparr>sdu_state := SDU_READY\<rparr>, usbp, k) }"

definition sduStop :: "sdu_driver \<Rightarrow> usb_driver \<Rightarrow> ch_system \<Rightarrow> (unit outcome \<times> sdu_driver \<times> usb_driver \<times> ch_system) option" where
  "sduStop sdup usbp k =
     do { k \<leftarrow> osalSysLock k;
          assert_that (sdu_state sdup = SDU_STOP \<or> sdu_state sdup = SDU_READY);
          let usbp = sdu_params None sdup usbp;
          k \<leftarrow> osalEventBroadcastFlagsI (sdu_event sdup) CHN_DISCONNECTED k;
          (iq, k) \<leftarrow> chIQResetI (u_queues usbp (sdu_iq sdup)) k;
          let usbp = set_uq (sdu_iq sdup) iq usbp;
          (oq, k) \<leftarrow> chIQResetI (u_queues usbp (sdu_oq sdup)) k;
          let usbp = set_uq (sdu_oq sdup) oq usbp;
          r \<leftarrow> osalOsRescheduleS k;
          (out, k) \<leftarrow> andthen r (\<lambda>_ k. do { k \<leftarrow> osalSysUnlock k; Some (Done (), k) });
          Some (out, sdup\<lparr>sdu_state := SDU_STOP\<rparr>, usbp, k) }"

definition sduConfigureHookI :: "sdu_driver \<Rightarrow> usb_action" where
  "sduConfigureHookI sdup usbp k =
     do { (iq, k) \<leftarrow> chIQResetI (u_queues usbp (sdu_iq sdup)) k;
          let usbp = set_uq (sdu_iq sdup) iq usbp;
          (oq, k) \<leftarrow> chOQResetI (u_queues usbp (sdu_oq sdup)) k;
          let usbp = set_uq (sdu_oq sdup) oq usbp;
          k \<leftarrow> osalEventBroadcastFlagsI (sdu_event sdup) CHN_CONNECTED k;
          c \<leftarrow> epc usbp (bulk_out sdup);
          usbp \<leftarrow> usbPrepareQueuedReceive (bulk_out sdup) (sdu_iq sdup) (out_maxsize c) usbp;
          (_, usbp) \<leftarrow> usbStartReceiveI (bulk_out sdup) usbp k;
          Some (usbp, k) }"

text \<open>\<open>lc\<close> is the address of the line coding structure, of seven bytes.\<close>

definition sduRequestsHook :: "nat \<Rightarrow> usb_driver \<Rightarrow> ch_system \<Rightarrow> (bool \<times> usb_driver \<times> ch_system) option" where
  "sduRequestsHook lc usbp k =
     (if setup_pkt usbp ! 0 AND 0x60 = 0x20
      then (if setup_pkt usbp ! 1 = 0x21 then Some (True, usbSetupTransfer (Ram, lc) 7 None usbp, k)
            else if setup_pkt usbp ! 1 = 0x20 then Some (True, usbSetupTransfer (Ram, lc) 7 None usbp, k)
            else if setup_pkt usbp ! 1 = 0x22 then Some (True, usbSetupTransfer usb_null 0 None usbp, k)
            else Some (False, usbp, k))
      else Some (False, usbp, k))"

definition sduDataTransmitted :: "sdu_driver \<Rightarrow> nat \<Rightarrow> usb_action" where
  "sduDataTransmitted sdup ep usbp k =
     (if in_params usbp (ep - 1) = None then Some (usbp, k)
      else do {
        k \<leftarrow> osalSysLockFromISR k;
        k \<leftarrow> osalEventBroadcastFlagsI (sdu_event sdup) CHN_OUTPUT_EMPTY k;
        n \<leftarrow> chOQGetFullI (u_queues usbp (sdu_oq sdup)) k;
        (c, a) \<leftarrow> in_ep ep usbp;
        let txsize = (of_nat (x_size (ep_states usbp a)) :: 32 word);
        if n > 0 \<or> (txsize > 0 \<and> txsize AND (of_nat (in_maxsize c) - 1) = 0)
        then do {
          k \<leftarrow> osalSysUnlockFromISR k;
          usbp \<leftarrow> usbPrepareQueuedTransmit ep (sdu_oq sdup) (if n > 0 then n else 0) usbp;
          k \<leftarrow> osalSysLockFromISR k;
          (_, usbp) \<leftarrow> usbStartTransmitI ep usbp k;
          k \<leftarrow> osalSysUnlockFromISR k;
          Some (usbp, k) }
        else do { k \<leftarrow> osalSysUnlockFromISR k; Some (usbp, k) } })"

definition sduDataReceived :: "sdu_driver \<Rightarrow> nat \<Rightarrow> usb_action" where
  "sduDataReceived sdup ep usbp k =
     (if out_params usbp (ep - 1) = None then Some (usbp, k)
      else do {
        k \<leftarrow> osalSysLockFromISR k;
        k \<leftarrow> osalEventBroadcastFlagsI (sdu_event sdup) CHN_INPUT_AVAILABLE k;
        c \<leftarrow> epc usbp ep;
        n \<leftarrow> chIQGetEmptyI (u_queues usbp (sdu_iq sdup)) k;
        if n \<ge> out_maxsize c
        then do {
          k \<leftarrow> osalSysUnlockFromISR k;
          usbp \<leftarrow> usbPrepareQueuedReceive ep (sdu_iq sdup) (n div out_maxsize c * out_maxsize c) usbp;
          k \<leftarrow> osalSysLockFromISR k;
          (_, usbp) \<leftarrow> usbStartReceiveI ep usbp k;
          k \<leftarrow> osalSysUnlockFromISR k;
          Some (usbp, k) }
        else do { k \<leftarrow> osalSysUnlockFromISR k; Some (usbp, k) } })"

definition sduInterruptTransmitted :: "nat \<Rightarrow> usb_action" where
  "sduInterruptTransmitted ep usbp k = Some (usbp, k)"

text \<open>The notifications of the queues, called with the kernel locked.\<close>

definition sdu_inotify :: "sdu_driver \<Rightarrow> usb_action" where
  "sdu_inotify sdup usbp k =
     (if u_state usbp \<noteq> USB_ACTIVE \<or> sdu_state sdup \<noteq> SDU_READY then Some (usbp, k)
      else do {
        c \<leftarrow> epc usbp (bulk_out sdup);
        if usbGetReceiveStatusI (bulk_out sdup) usbp then Some (usbp, k)
        else do {
          n \<leftarrow> chIQGetEmptyI (u_queues usbp (sdu_iq sdup)) k;
          if n \<ge> out_maxsize c
          then do {
            k \<leftarrow> osalSysUnlock k;
            usbp \<leftarrow> usbPrepareQueuedReceive (bulk_out sdup) (sdu_iq sdup) (n div out_maxsize c * out_maxsize c) usbp;
            k \<leftarrow> osalSysLock k;
            (_, usbp) \<leftarrow> usbStartReceiveI (bulk_out sdup) usbp k;
            Some (usbp, k) }
          else Some (usbp, k) } })"

definition sdu_onotify :: "sdu_driver \<Rightarrow> usb_action" where
  "sdu_onotify sdup usbp k =
     (if u_state usbp \<noteq> USB_ACTIVE \<or> sdu_state sdup \<noteq> SDU_READY then Some (usbp, k)
      else if usbGetTransmitStatusI (bulk_in sdup) usbp then Some (usbp, k)
      else do {
        n \<leftarrow> chOQGetFullI (u_queues usbp (sdu_oq sdup)) k;
        if n > 0
        then do {
          k \<leftarrow> osalSysUnlock k;
          usbp \<leftarrow> usbPrepareQueuedTransmit (bulk_in sdup) (sdu_oq sdup) n usbp;
          k \<leftarrow> osalSysLock k;
          (_, usbp) \<leftarrow> usbStartTransmitI (bulk_in sdup) usbp k;
          Some (usbp, k) }
        else Some (usbp, k) })"

subsection \<open>The CDC device\<close>

text \<open>Two bulk endpoints with the number 1 and an interrupt endpoint with the number 2; \<open>App_cb\<close> 0 to 2 are the three callbacks.\<close>

definition ep1config :: usb_ep_config where
  "ep1config = \<lparr>ep_mode = 2, setup_cb = None, in_cb = Some (App_cb 0), out_cb = Some (App_cb 1), in_maxsize = 0x40, out_maxsize = 0x40,
     in_state = Some 1, out_state = Some 2, in_multiplier = 2, setup_buf = usb_null\<rparr>"

definition ep2config :: usb_ep_config where
  "ep2config = \<lparr>ep_mode = 3, setup_cb = None, in_cb = Some (App_cb 2), out_cb = None, in_maxsize = 0x10, out_maxsize = 0,
     in_state = Some 3, out_state = None, in_multiplier = 1, setup_buf = usb_null\<rparr>"

definition SDU2 :: sdu_driver where
  "SDU2 = \<lparr>sdu_id = 1, sdu_state = SDU_READY, sdu_event = 9, sdu_iq = 0, sdu_oq = 1, bulk_in = 1, bulk_out = 1, int_in = 2\<rparr>"

definition usb_event :: "usbevent_t \<Rightarrow> usb_action" where
  "usb_event event usbp k = (case event of
      USB_EVENT_CONFIGURED \<Rightarrow> do {
        k \<leftarrow> chSysLockFromISR k;
        usbp \<leftarrow> usbInitEndpointI 1 ep1config usbp k;
        usbp \<leftarrow> usbInitEndpointI 2 ep2config usbp k;
        (usbp, k) \<leftarrow> sduConfigureHookI SDU2 usbp k;
        k \<leftarrow> chSysUnlockFromISR k;
        Some (usbp, k) }
    | _ \<Rightarrow> Some (usbp, k))"

text \<open>The descriptors are constant data: \<open>dev\<close>, \<open>conf\<close> and \<open>strs\<close> say where they lie and how long they are.\<close>

definition get_descriptor :: "uptr \<times> nat \<Rightarrow> uptr \<times> nat \<Rightarrow> (nat \<Rightarrow> uptr \<times> nat) \<Rightarrow> 8 word \<Rightarrow> 8 word \<Rightarrow> (uptr \<times> nat) option" where
  "get_descriptor dev conf strs dtype dindex =
     (if dtype = 1 then Some dev else if dtype = 2 then Some conf
      else if dtype = 3 \<and> dindex < 4 then Some (strs (unat dindex)) else None)"

definition usbcfg :: "nat \<Rightarrow> uptr \<times> nat \<Rightarrow> uptr \<times> nat \<Rightarrow> (nat \<Rightarrow> uptr \<times> nat) \<Rightarrow> usb_config" where
  "usbcfg lc dev conf strs = \<lparr>event_cb = Some usb_event,
     get_descriptor_cb = (\<lambda>dtype dindex lang usbp. get_descriptor dev conf strs dtype dindex),
     requests_hook_cb = Some (sduRequestsHook lc), sof_cb = None,
     ep_calls = (\<lambda>f ep. if f = 0 then sduDataTransmitted SDU2 ep else if f = 1 then sduDataReceived SDU2 ep else sduInterruptTransmitted ep),
     end_calls = (\<lambda>_ usbp k. None)\<rparr>"

subsection \<open>The device leaves endpoint 0 alone\<close>

lemma usbInitEndpointI_kept:
  assumes "usbInitEndpointI ep c d k = Some d'"
  shows "ep0_kept d d'"
proof -
  have "0 < ep" using usbInitEndpointI_fifo [OF assms] by simp
  then show ?thesis using assms
    by (auto simp: usbInitEndpointI_def Let_def bind_eq_Some_conv usb_lld_init_endpoint_def init_in_def init_out_def otg_ram_alloc_def
      otg_txfifo_flush_def ep0_kept_def split: option.splits if_splits)
qed

lemma chQResetI_ctx:
  assumes "kernel_ok k" "class_I k" "evt_ok k"
  shows "chIQResetI q k = Some (q', k') \<Longrightarrow> kernel_ok k' \<and> class_I k' \<and> evt_ok k' \<and> isr_cnt k' = isr_cnt k"
    "chOQResetI q k = Some (q', k') \<Longrightarrow> kernel_ok k' \<and> class_I k' \<and> evt_ok k' \<and> isr_cnt k' = isr_cnt k"
proof -
  have "evt_ok (woken_all m ts k)" for m ts using assms(3) by (simp add: evt_ok_def)
  then show "chIQResetI q k = Some (q', k') \<Longrightarrow> kernel_ok k' \<and> class_I k' \<and> evt_ok k' \<and> isr_cnt k' = isr_cnt k"
    "chOQResetI q k = Some (q', k') \<Longrightarrow> kernel_ok k' \<and> class_I k' \<and> evt_ok k' \<and> isr_cnt k' = isr_cnt k"
    using chThdDequeueAllI_eq [OF assms(1,2) refl, of "q_waiting q" MSG_RESET] assms(2)
    by (auto simp: chIQResetI_def chOQResetI_def Let_def)
qed

lemma ep0_kept_trans: "ep0_kept d d1 \<Longrightarrow> ep0_kept d1 d2 \<Longrightarrow> ep0_kept d d2"
  by (simp add: ep0_kept_def)

lemma queued_receive_kept:
  assumes "usbPrepareQueuedReceive 1 q n d = Some d1" "usbStartReceiveI 1 d1 k = Some (b, d')"
  shows "ep0_kept d d'"
proof -
  have "ep0_kept d d1" using assms(1)
    by (auto simp: usbPrepareQueuedReceive_def usb_lld_prepare_receive_def out_ep_def ep0_kept_def Let_def bind_eq_Some_conv)
  moreover have "bit (w OR push_bit 1 1) 0 = bit w 0" for w :: "16 word" by (simp only: bit_or_iff bit_push_bit_iff) simp
  then have "ep0_kept d1 (usb_lld_start_out 1 (d1\<lparr>receiving := receiving d1 OR push_bit 1 1\<rparr>))"
    unfolding ep0_kept_def usb_lld_start_out_def by (simp del: push_bit_of_1 One_nat_def)
  then have "ep0_kept d1 d'" using assms(2) by (auto simp: usbStartReceiveI_def bind_eq_Some_conv split: if_splits)
  ultimately show ?thesis by (rule ep0_kept_trans)
qed

lemma sduConfigureHookI_kept:
  assumes "sduConfigureHookI SDU2 d k = Some (d', k')" "kernel_ok k" "class_I k" "evt_ok k"
  shows "ep0_kept d d' \<and> kernel_ok k' \<and> class_I k' \<and> evt_ok k' \<and> isr_cnt k' = isr_cnt k"
proof -
  note defs = sduConfigureHookI_def SDU2_def Let_def bind_eq_Some_conv
  obtain iq k1 where 1: "chIQResetI (u_queues d 0) k = Some (iq, k1)" using assms(1) by (auto simp: defs)
  obtain oq k2 where 2: "chOQResetI (u_queues d 1) k1 = Some (oq, k2)" using assms(1) 1 by (auto simp: defs)
  let ?d = "set_uq 1 oq (set_uq 0 iq d)"
  have 3: "chEvtBroadcastFlagsI 9 CHN_CONNECTED k2 = Some k'" using assms(1) 1 2 by (auto simp: defs)
  obtain n d1 where 4: "usbPrepareQueuedReceive 1 0 n ?d = Some d1" "\<exists>b. usbStartReceiveI 1 d1 k' = Some (b, d')"
    using assms(1) 1 2 3 by (auto simp: defs)
  note k1 = chQResetI_ctx(1) [OF assms(2-4) 1]
  have k2: "kernel_ok k2 \<and> class_I k2 \<and> evt_ok k2 \<and> isr_cnt k2 = isr_cnt k" using chQResetI_ctx(2) [of k1, OF _ _ _ 2] k1 by simp
  have "ep0_kept d (set_uq 1 oq (set_uq 0 iq d))" by (simp add: ep0_kept_def)
  then have "ep0_kept d d'" using 4 queued_receive_kept ep0_kept_trans by blast
  then show ?thesis using chEvtBroadcastFlagsI_ok [of k2 9 CHN_CONNECTED] k2 3 by (auto simp: class_I_def)
qed

lemma usb_event_kept:
  assumes "usb_event e d k = Some (d', k')" "isr_ctx k"
  shows "ep0_kept d d' \<and> isr_ctx k'"
proof (cases "e = USB_EVENT_CONFIGURED")
  case False
  then show ?thesis using assms by (cases e) (auto simp: usb_event_def)
next
  case True
  let ?k = "k\<lparr>lock_cnt := 1\<rparr>"
  have c: "class_isr k" "kernel_ok ?k" "class_I ?k" "evt_ok ?k" using assms(2) by (auto simp: isr_ctx_def class_I_def class_isr_def evt_ok_def)
  obtain d1 d2 k1 where 1: "usbInitEndpointI 1 ep1config d ?k = Some d1" "usbInitEndpointI 2 ep2config d1 ?k = Some d2"
      "sduConfigureHookI SDU2 d2 ?k = Some (d', k1)" "chSysUnlockFromISR k1 = Some k'"
    using assms(1) True chSysLockFromISR_ok [OF c(1)] by (auto simp: usb_event_def bind_eq_Some_conv)
  note s = sduConfigureHookI_kept [OF 1(3) c(2-4)]
  have "k' = k1\<lparr>lock_cnt := 0\<rparr>" using 1(4) chSysUnlockFromISR_ok [of k1] s c(1) by (simp add: class_isr_def class_I_def)
  moreover have "evt_ok (k1\<lparr>lock_cnt := 0\<rparr>)" using s by (simp add: evt_ok_def)
  ultimately have "isr_ctx k'" using s c(1) by (simp add: isr_ctx_def class_isr_def)
  then show ?thesis using usbInitEndpointI_kept [OF 1(1)] usbInitEndpointI_kept [OF 1(2)] s ep0_kept_trans by blast
qed

interpretation cdc: usb_application "usbcfg lc dev conf strs" for lc dev conf strs
proof unfold_locales
  fix f e d k d' k'
  assume "event_cb (usbcfg lc dev conf strs) = Some f" "f e d k = Some (d', k')" "isr_ctx k"
  then show "ep0_kept d d' \<and> isr_ctx k'" using usb_event_kept by (auto simp: usbcfg_def)
next
  fix h d k b d' k'
  assume "requests_hook_cb (usbcfg lc dev conf strs) = Some h" "h d k = Some (b, d', k')" "isr_ctx k"
  then show "ep0_kept d d' \<and> isr_ctx k'" by (auto simp: usbcfg_def sduRequestsHook_def split: if_splits)
qed (simp add: usbcfg_def)

subsection \<open>Selecting the configuration again\<close>

lemma usbInitEndpointI_returns:
  assumes "class_I k" "u_state d = USB_ACTIVE" "0 < ep" "ep \<le> USB_MAX_ENDPOINTS" "epc d ep = None" "in_cb c \<noteq> None"
    "pmnext d + in_maxsize c div 4 * max 1 (in_multiplier c) \<le> otg_ram_size (otgparams d)"
  shows "\<exists>d'. usbInitEndpointI ep c d k = Some d' \<and> u_state d' = USB_ACTIVE \<and> epc d' = (epc d)(ep \<mapsto> c) \<and>
    pmnext d' = pmnext d + in_maxsize c div 4 * max 1 (in_multiplier c) \<and> otgparams d' = otgparams d"
  using assms
  by (cases "in_state c"; cases "out_state c"; cases "in_multiplier c > 1")
    (auto simp: usbInitEndpointI_def usb_lld_init_endpoint_def init_in_def init_out_def otg_ram_alloc_def Let_def otg_txfifo_flush_def
      max_def)

lemma sduConfigureHookI_returns:
  assumes "kernel_ok k" "class_I k" "evt_ok k" "epc d 1 = Some ep1config"
  shows "\<exists>d' k'. sduConfigureHookI SDU2 d k = Some (d', k') \<and> epc d' = epc d \<and> kernel_ok k' \<and> class_I k' \<and> evt_ok k' \<and> isr_cnt k' = isr_cnt k"
proof -
  obtain iq k1 where 1: "chIQResetI (u_queues d 0) k = Some (iq, k1)"
    using chThdDequeueAllI_eq [OF assms(1,2) refl, of "q_waiting (u_queues d 0)" MSG_RESET] assms(2) by (auto simp: chIQResetI_def Let_def)
  note k1 = chQResetI_ctx(1) [OF assms(1-3) 1]
  obtain oq k2 where 2: "chOQResetI (u_queues d 1) k1 = Some (oq, k2)"
    using chThdDequeueAllI_eq [of k1 "q_waiting (u_queues d 1)" _ MSG_RESET] k1 by (auto simp: chOQResetI_def Let_def)
  have k2: "kernel_ok k2 \<and> class_I k2 \<and> evt_ok k2 \<and> isr_cnt k2 = isr_cnt k" using chQResetI_ctx(2) [of k1, OF _ _ _ 2] k1 by simp
  obtain k3 where 3: "chEvtBroadcastFlagsI 9 CHN_CONNECTED k2 = Some k3" "kernel_ok k3" "evt_ok k3" "class_I k3" "isr_cnt k3 = isr_cnt k"
    using chEvtBroadcastFlagsI_ok [of k2 9 CHN_CONNECTED] k2 by (auto simp: class_I_def)
  let ?d = "set_uq 1 oq (set_uq 0 iq d)"
  obtain d1 where 4: "usbPrepareQueuedReceive 1 0 64 ?d = Some d1" "epc d1 = epc d"
    using assms(4) by (simp add: usbPrepareQueuedReceive_def usb_lld_prepare_receive_def out_ep_def ep1config_def Let_def)
  have "\<exists>b d'. usbStartReceiveI 1 d1 k3 = Some (b, d') \<and> epc d' = epc d"
    using 3(4) 4(2) by (cases "usbGetReceiveStatusI 1 d1") (auto simp: usbStartReceiveI_def usb_lld_start_out_def)
  then show ?thesis using 1 2 3 4 assms(4) by (auto simp: sduConfigureHookI_def SDU2_def ep1config_def)
qed

lemma usbInitEndpointI_in_use: "epc d ep \<noteq> None \<Longrightarrow> usbInitEndpointI ep c d k = None"
  by (cases "chDbgCheckClassI k") (auto simp: usbInitEndpointI_def assert_that_def)

lemma ep0_data_stage_epc:
  assumes "ep0_data_stage d k = Some (d', k')" "class_isr k" "epc d 0 = Some ep0config"
  shows "epc d' = epc d"
proof -
  have t: "epc d2 = epc d1" if "ep0_transmit p n d1 k = Some (d2, k')" "epc d1 0 = Some ep0config" for p n d1 d2
    using ep0_transmit_eq [OF assms(2) that(2), of p n] that(1) by auto
  have r: "epc d2 = epc d1" if "ep0_receive p n d1 k = Some (d2, k')" "epc d1 0 = Some ep0config" for p n d1 d2
    using ep0_receive_eq [OF assms(2) that(2), of p n] that(1) by auto
  define d1 where "d1 = (if ep0n d > unat (get_hword (setup_pkt d) 6) then d\<lparr>ep0n := unat (get_hword (setup_pkt d) 6)\<rparr> else d)"
  have "epc d1 = epc d" by (simp add: d1_def)
  then show ?thesis using assms(1,3) unfolding ep0_data_stage_def Let_def d1_def [symmetric]
    by (auto dest!: t r split: if_split_asm)
qed

text \<open>A SET_CONFIGURATION request for a configuration other than 0 in the setup buffer.\<close>

definition set_configuration_in :: "usb_driver \<Rightarrow> bool" where
  "set_configuration_in d \<longleftrightarrow> u_mem d Ep0setup_buffer 0 = 0 \<and> u_mem d Ep0setup_buffer 1 = 9 \<and> u_mem d Ep0setup_buffer 2 \<noteq> 0"

lemma set_configuration_handled:
  assumes d: "epc d 0 = Some ep0config" "u_config d" "set_configuration_in d"
    and pkt: "pkt = map (u_mem d Ep0setup_buffer) [0..<8]"
    and d0: "d0 = d\<lparr>ep0state := USB_EP0_WAITING_SETUP, setup_pkt := pkt\<rparr>" and C: "C = usbcfg lc dev conf strs"
  shows "usb_ep0setup C 0 d k = do { (d, k) \<leftarrow> usb_event USB_EVENT_CONFIGURED (d0\<lparr>configuration := pkt ! 2, u_state := USB_ACTIVE\<rparr>) k;
    ep0_data_stage (usbSetupTransfer usb_null 0 None d) k }"
proof -
  have p: "pkt ! 0 = 0" "pkt ! 1 = 9" "pkt ! 2 \<noteq> 0" using d(3) by (simp_all add: pkt set_configuration_in_def numeral_2_eq_2)
  have "usb_lld_read_setup 0 (d\<lparr>ep0state := USB_EP0_WAITING_SETUP\<rparr>) = Some pkt"
    using read_setup_0 [OF d(1)] pkt by simp
  moreover have "default_handler C d0 k = do { (d, k) \<leftarrow> usb_event USB_EVENT_CONFIGURED (d0\<lparr>configuration := pkt ! 2, u_state := USB_ACTIVE\<rparr>) k;
      Some (True, usbSetupTransfer usb_null 0 None d, k) }"
    using p d(2) by (simp add: default_handler_def usb_request_def usb_codes d0 usb_isr_invoke_event_cb_def C usbcfg_def)
  ultimately show ?thesis using d(2) p
    by (simp add: usb_ep0setup_def C usbcfg_def sduRequestsHook_def d0 case_prod_beta')
qed

text \<open>
  C37. A host stops the device by selecting its configuration twice. The first SET_CONFIGURATION request is served: the
  endpoints of the CDC device are initialised. The standard allows the host to send it again; then the event
  callback initialises endpoints that are in use, which the driver has not disabled, and the check of \<open>usbInitEndpointI\<close> halts the system.
\<close>

theorem usb_configured_twice_halts:
  assumes d: "epc d 0 = Some ep0config" "u_config d" "set_configuration_in d" "isr_ctx k" "\<not> bit (transmitting d) 0" "\<not> bit (receiving d) 0"
      "epc d 1 = None" "epc d 2 = None" "pmnext d + 36 \<le> otg_ram_size (otgparams d)"
    and C: "C = usbcfg lc dev conf strs"
  shows "\<exists>d1 k1. usb_ep0setup C 0 d k = Some (d1, k1) \<and> ep0_ok d1 \<and> isr_ctx k1 \<and>
    (\<forall>d2 k2. ep0_ok d2 \<and> isr_ctx k2 \<and> set_configuration_in d2 \<and> epc d2 1 = epc d1 1 \<longrightarrow> usb_ep0setup C 0 d2 k2 = None)"
proof -
  define pkt where "pkt = map (u_mem d Ep0setup_buffer) [0..<8]"
  let ?d = "d\<lparr>ep0state := USB_EP0_WAITING_SETUP, setup_pkt := pkt, configuration := pkt ! 2, u_state := USB_ACTIVE\<rparr>" and ?k = "k\<lparr>lock_cnt := 1\<rparr>"
  have c: "class_isr k" "kernel_ok ?k" "class_I ?k" "evt_ok ?k" using d(4) by (auto simp: isr_ctx_def class_I_def class_isr_def evt_ok_def)
  obtain d1 where 1: "usbInitEndpointI 1 ep1config ?d ?k = Some d1" "u_state d1 = USB_ACTIVE" "epc d1 = (epc d)(1 \<mapsto> ep1config)"
      "pmnext d1 = pmnext d + 32" "otgparams d1 = otgparams d"
    using usbInitEndpointI_returns [OF c(3), of ?d 1 ep1config] d(7,9) by (auto simp: USB_MAX_ENDPOINTS_def ep1config_def)
  obtain d2 where 2: "usbInitEndpointI 2 ep2config d1 ?k = Some d2" "epc d2 = (epc d)(1 \<mapsto> ep1config, 2 \<mapsto> ep2config)"
    using usbInitEndpointI_returns [OF c(3) 1(2), of 2 ep2config] 1 d(8,9) by (auto simp: USB_MAX_ENDPOINTS_def ep2config_def)
  obtain d3 k3 where 3: "sduConfigureHookI SDU2 d2 ?k = Some (d3, k3)" "epc d3 = epc d2" "class_I k3" "isr_cnt k3 = isr_cnt k"
    using sduConfigureHookI_returns [OF c(2-4), of d2] 2(2) by auto
  have ev: "usb_event USB_EVENT_CONFIGURED ?d k = Some (d3, k3\<lparr>lock_cnt := 0\<rparr>)"
    using 1(1) 2(1) 3 c(1) chSysLockFromISR_ok [OF c(1)] chSysUnlockFromISR_ok [of k3]
    by (simp add: usb_event_def class_isr_def class_I_def)
  note kept = usb_event_kept [OF ev d(4)]
  let ?d3 = "usbSetupTransfer usb_null 0 None d3"
  obtain d4 where d4: "ep0_data_stage ?d3 (k3\<lparr>lock_cnt := 0\<rparr>) = Some (d4, k3\<lparr>lock_cnt := 0\<rparr>)" "ep0_ok d4" "epc d4 = epc d3"
  proof -
    have "class_isr (k3\<lparr>lock_cnt := 0\<rparr>)" "u_config ?d3" "epc ?d3 0 = Some ep0config" "\<not> bit (transmitting ?d3) 0" "\<not> bit (receiving ?d3) 0"
      using kept d(1,2,5,6) by (simp_all add: ep0_kept_def usbSetupTransfer_def isr_ctx_def)
    from ep0_data_stage_ok [OF this] ep0_data_stage_epc [OF _ this(1,3)] show thesis using that by (auto simp: usbSetupTransfer_def)
  qed
  have "usb_ep0setup C 0 d2' k2 = None" if h: "ep0_ok d2' \<and> isr_ctx k2 \<and> set_configuration_in d2' \<and> epc d2' 1 = epc d4 1" for d2' k2
  proof -
    have "epc d2' 1 = Some ep1config" using h d4(3) 3(2) 2(2) by simp
    then have "usbInitEndpointI 1 ep1config (d2'\<lparr>ep0state := st, setup_pkt := p, configuration := x, u_state := y\<rparr>) k' = None" for st p x y k'
      by (intro usbInitEndpointI_in_use) simp
    then have "usb_event USB_EVENT_CONFIGURED (d2'\<lparr>ep0state := st, setup_pkt := p, configuration := x, u_state := y\<rparr>) k2 = None" for st p x y
      using chSysLockFromISR_ok [of k2] h by (simp add: usb_event_def isr_ctx_def)
    then show ?thesis using set_configuration_handled [OF _ _ _ refl refl C, of d2' k2] h by (simp add: ep0_ok_def)
  qed
  moreover have "usb_ep0setup C 0 d k = Some (d4, k3\<lparr>lock_cnt := 0\<rparr>)"
    using set_configuration_handled [OF d(1-3) pkt_def refl C, of k] ev d4(1) by simp
  ultimately show ?thesis using d4(2) kept by blast
qed

subsection \<open>Setting the line coding\<close>

text \<open>A SET_LINE_CODING request of the host, which announces seven bytes.\<close>

definition set_line_coding_in :: "usb_driver \<Rightarrow> bool" where
  "set_line_coding_in d \<longleftrightarrow> map (u_mem d Ep0setup_buffer) [0..<8] = [0x21, 0x20, 0, 0, 0, 0, 7, 0]"

lemma line_coding_request:
  assumes d: "epc d 0 = Some ep0config" "u_config d" "set_line_coding_in d"
  shows "usb_ep0setup (usbcfg lc dev conf strs) 0 d k =
    ep0_data_stage (usbSetupTransfer (Ram, lc) 7 None (d\<lparr>ep0state := USB_EP0_WAITING_SETUP, setup_pkt := [0x21, 0x20, 0, 0, 0, 0, 7, 0]\<rparr>)) k"
proof -
  have "usb_lld_read_setup 0 (d\<lparr>ep0state := USB_EP0_WAITING_SETUP\<rparr>) = Some [0x21, 0x20, 0, 0, 0, 0, 7, 0]"
    using read_setup_0 [OF d(1)] d(3) unfolding set_line_coding_in_def by simp
  then show ?thesis using d(2) by (simp add: usb_ep0setup_def usbcfg_def sduRequestsHook_def)
qed

text \<open>
  Setting the line coding writes a byte too many. The host announces and sends the seven bytes of the line coding, as the
  standard says; the driver accepts the request and receives the packet. It stores the two words in which the bytes arrive
  whole: the seven bytes are right, and the byte of memory behind the structure is overwritten with what
  the last word holds there; no other byte changes.
\<close>

theorem sdu_line_coding_overruns:
  assumes d: "epc d 0 = Some ep0config" "u_config d" "class_isr k" "set_line_coding_in d" and C: "C = usbcfg lc dev conf strs"
  shows "\<exists>d1 d2. usb_ep0setup C 0 d k = Some (d1, k) \<and>
    otg_rxfifo_handler 0x40070 (upd_otg (\<lambda>r. r\<lparr>RXFIFO := [w1, w2]\<rparr>) d1) k = Some (Done (), d2, k) \<and>
    map (u_mem d2 Ram) [lc..<lc + 8] = word_bytes w1 @ word_bytes w2 \<and>
    (\<forall>a. a \<notin> {lc..<lc + 8} \<longrightarrow> u_mem d2 Ram a = u_mem d Ram a)"
proof -
  have view: "usb_view d' Ram = u_mem d' Ram" for d' by (rule ext) (simp add: usb_view_def)
  let ?pkt = "[0x21, 0x20, 0, 0, 0, 0, 7, 0] :: 8 word list"
  let ?d = "usbSetupTransfer (Ram, lc) 7 None (d\<lparr>ep0state := USB_EP0_WAITING_SETUP, setup_pkt := ?pkt\<rparr>)"
  have st: "usb_ep0setup C 0 d k = ep0_data_stage ?d k" unfolding C by (rule line_coding_request [OF d(1,2,4)])
  have "get_hword ?pkt 6 = 7" by (simp add: get_hword_def)
  then have "ep0_data_stage ?d k = ep0_receive (Ram, lc) 7 (?d\<lparr>ep0state := USB_EP0_RX\<rparr>) k"
    by (simp add: ep0_data_stage_def usbSetupTransfer_def)
  moreover obtain d1 where d1: "ep0_receive (Ram, lc) 7 (?d\<lparr>ep0state := USB_EP0_RX\<rparr>) k = Some (d1, k)"
      "epc d1 0 = Some ep0config" "ep_states d1 0 = ep_xfer (Ram, lc) 7" "u_mem d1 = u_mem d"
    using ep0_receive_eq [OF d(3), of "?d\<lparr>ep0state := USB_EP0_RX\<rparr>" "(Ram, lc)" 7] d(1) by (auto simp: usbSetupTransfer_def)
  moreover define d1' where "d1' = upd_otg (\<lambda>r. r\<lparr>RXFIFO := [w1, w2]\<rparr>) d1"
  moreover have "read_words [w1, w2] m lc 2 2 = Some ([], put_word (lc + 4) w2 (put_word lc w1 m))" for m by (simp add: numeral_2_eq_2)
  then have "\<exists>d2. otg_rxfifo_handler 0x40070 d1' k = Some (Done (), d2, k) \<and>
      u_mem d2 Ram = put_word (lc + 4) w2 (put_word lc w1 (u_mem d Ram))"
    using d1 view by (simp add: d1'_def otg_rxfifo_handler_def out_ep_def ep0config_def rx_to_buffer_def otg_fifo_read_to_buffer_def usb_store_def
      min_def)
  moreover have "map (put_word (lc + 4) w2 (put_word lc w1 m)) [lc..<lc + 8] = word_bytes w1 @ word_bytes w2" for m
    by (simp add: put_word_def word_bytes_def upt_rec numeral_2_eq_2 numeral_3_eq_3)
  moreover have "put_word (lc + 4) w2 (put_word lc w1 m) a = m a" if "a \<notin> {lc..<lc + 8}" for m a
    using that by (auto simp: put_word_def)
  ultimately show ?thesis using st by auto
qed

subsection \<open>A device\<close>

text \<open>The full-speed peripheral after a bus reset, with a setup packet in the buffer, and the configuration of the CDC device.\<close>

definition otg0 :: stm32_otg where
  "otg0 = \<lparr>DIEPCTL = (\<lambda>_. 0), DIEPTSIZ = (\<lambda>_. 0), DOEPCTL = (\<lambda>_. 0), DOEPTSIZ = (\<lambda>_. 0),
     DIEPTXF0 = DIEPTXF_INEPTXFD 16 OR DIEPTXF_INEPTXSA 128, DIEPTXF = (\<lambda>_. 0), DIEPEMPMSK = 0, DAINTMSK = 0, DIEPMSK = 9, DOEPMSK = 9,
     GINTMSK = 0, GRXFSIZ = 128, GAHBCFG = 1, GCCFG = 0, DCFG = 0, TXFIFO = (\<lambda>_. []), RXFIFO = []\<rparr>"

definition usb0 :: "8 word list \<Rightarrow> usb_driver" where
  "usb0 pkt = \<lparr>u_state = USB_SELECTED, u_config = True, transmitting = 0, receiving = 0, epc = (\<lambda>i. if i = 0 then Some ep0config else None),
     in_params = (\<lambda>_. None), out_params = (\<lambda>_. None), ep0state = USB_EP0_WAITING_SETUP, ep0next = usb_null, ep0n = 0, ep0endcb = None,
     setup_pkt = [], status = 0, address = 5, configuration = 0, otg = otg0,
     otgparams = \<lparr>rx_fifo_size = 128, otg_ram_size = 320, num_endpoints = 3\<rparr>, pmnext = 144, txpending = 0, u_wait = 0, pump = True,
     ep_states = (\<lambda>_. \<lparr>x_size = 0, x_cnt = 0, x_mode = Linear usb_null, x_totsize = 0\<rparr>), u_queues = (\<lambda>_. iq1),
     u_mem = (\<lambda>ob i. if ob = Ep0setup_buffer then pkt ! i else of_nat i)\<rparr>"

definition cdc0 :: usb_config where
  "cdc0 = usbcfg 200 ((Ram, 0), 18) ((Ram, 32), 67) (\<lambda>_. ((Ram, 100), 4))"

definition isr0 :: ch_system where "isr0 = sys0\<lparr>isr_cnt := 1\<rparr>"

lemma isr0_ctx: "isr_ctx isr0" "class_isr isr0" "class_I (isr0\<lparr>lock_cnt := 1\<rparr>)"
proof -
  show "class_isr isr0" "class_I (isr0\<lparr>lock_cnt := 1\<rparr>)" by (simp_all add: isr0_def class_isr_def class_I_def sys0_def)
  moreover have "kernel_ok isr0" unfolding isr0_def using sys0_kernel_ok by simp
  moreover have "evt_ok isr0" by (simp add: isr0_def evt_ok_def sys0_def thread0_def)
  ultimately show "isr_ctx isr0" by (simp add: isr_ctx_def)
qed

lemma usb0_facts [simp]:
  "epc (usb0 pkt) = (\<lambda>i. if i = 0 then Some ep0config else None)" "u_config (usb0 pkt)" "otg (usb0 pkt) = otg0" "transmitting (usb0 pkt) = 0"
  "receiving (usb0 pkt) = 0" "otgparams (usb0 pkt) = \<lparr>rx_fifo_size = 128, otg_ram_size = 320, num_endpoints = 3\<rparr>" "pmnext (usb0 pkt) = 144"
  "u_mem (usb0 pkt) Ep0setup_buffer = (!) pkt" "u_mem (usb0 pkt) Ram = of_nat" "u_state (usb0 pkt) = USB_SELECTED"
  by (simp_all add: usb0_def fun_eq_iff)

lemma packet_of_8: "length xs = 8 \<Longrightarrow> map ((!) xs) [0..<8] = xs"
  using map_nth [of xs] by simp

lemma cdc0_standard:
  "setup_pkt d ! 0 AND 0x60 = 0 \<Longrightarrow> \<forall>h. requests_hook_cb cdc0 = Some h \<longrightarrow> h d k = Some (False, d, k)"
  by (simp add: cdc0_def usbcfg_def sduRequestsHook_def)


theorem usb_get_descriptor_witness:
  "\<exists>d1 d2 d3. usb_ep0setup cdc0 0 (usb0 [0x80, 6, 0, 1, 0, 0, 64, 0]) isr0 = Some (d1, isr0) \<and>
     usb_in_packets 1 cdc0 d1 isr0 = Some ([map of_nat [0..<18]], d2, isr0) \<and>
     out_xfrc cdc0 0 d2 isr0 = Some (d3, isr0) \<and> ep0state d3 = USB_EP0_WAITING_SETUP"
proof -
  let ?pkt = "[0x80, 6, 0, 1, 0, 0, 64, 0] :: 8 word list"
  let ?d0 = "(usb0 ?pkt)\<lparr>ep0state := USB_EP0_WAITING_SETUP, setup_pkt := ?pkt\<rparr>"
  have v: "usb_view (usb0 ?pkt) Ram = of_nat" by (rule ext) (simp add: usb_view_def)
  have p: "packets (map of_nat [0..<18]) = [map of_nat [0..<18] :: 8 word list]" by (subst packets.simps) simp
  have "get_descriptor_cb cdc0 (?pkt ! 3) (?pkt ! 2) (get_hword ?pkt 4) ?d0 = Some ((Ram, 0), 18)"
    by (simp add: cdc0_def usbcfg_def get_descriptor_def)
  moreover have "get_hword ?pkt 6 = 64" by (simp add: get_hword_def)
  ultimately show ?thesis
    using usb_get_descriptor [where d = "usb0 ?pkt" and k = isr0 and C = cdc0 and pkt = ?pkt and d0 = ?d0 and ob = Ram and i = 0 and sz = 18
      and n = 18 and ps = "packets (map of_nat [0..<18])"] isr0_ctx(2) cdc0_standard [of ?d0] v p packet_of_8 [of ?pkt]
    by (simp add: otg0_def)
qed

theorem usb_fifos_disjoint_witness: "\<exists>d1. usb_reset (usb0 []) = Some d1 \<and> fifos_ok d1"
  using usb_fifos_disjoint [of "usb0 []"] by (auto simp: USB_MAX_ENDPOINTS_def)

theorem usb_reconfigure_fails_witness:
  "\<exists>d1 d2. usbDisableEndpointsI ((usb0 [])\<lparr>transmitting := 2\<rparr>) (isr0\<lparr>lock_cnt := 1\<rparr>) = Some d1 \<and>
     usbInitEndpointI 1 ep2config (d1\<lparr>u_state := USB_ACTIVE\<rparr>) (isr0\<lparr>lock_cnt := 1\<rparr>) = Some d2 \<and>
     usbStartTransmitI 1 d2 (isr0\<lparr>lock_cnt := 1\<rparr>) = Some (True, d2)"
proof -
  have "bit (2 :: 16 word) 1" by (simp add: bit_iff_odd)
  then show ?thesis
    using usb_reconfigure_fails [where d = "(usb0 [])\<lparr>transmitting := 2\<rparr>" and k = "isr0\<lparr>lock_cnt := 1\<rparr>" and ep = 1 and c = ep2config]
      isr0_ctx(3) by (auto simp: otg0_def ep2config_def USB_MAX_ENDPOINTS_def)
qed

theorem usb_host_writes_status_witness:
  "\<exists>d1 d2. usb_ep0setup cdc0 0 (usb0 [0, 0, 0, 0, 0, 0, 2, 0]) isr0 = Some (d1, isr0) \<and>
     otg_rxfifo_handler 0x40020 (upd_otg (\<lambda>r. r\<lparr>RXFIFO := [0x01020304]\<rparr>) d1) isr0 = Some (Done (), d2, isr0) \<and>
     address d2 = 2 \<and> configuration d2 = 1"
proof -
  let ?pkt = "[0, 0, 0, 0, 0, 0, 2, 0] :: 8 word list"
  let ?d0 = "(usb0 ?pkt)\<lparr>ep0state := USB_EP0_WAITING_SETUP, setup_pkt := ?pkt\<rparr>"
  have "byte_of 0x01020304 2 = 2" "byte_of 0x01020304 3 = 1"
    by (simp_all add: byte_of_def)
  then show ?thesis
    using usb_host_writes_status [where d = "usb0 ?pkt" and k = isr0 and C = cdc0 and pkt = ?pkt and d0 = ?d0 and w = "0x01020304"]
      isr0_ctx(2) cdc0_standard [of ?d0] packet_of_8 [of ?pkt] by (auto simp: get_hword_def)
qed

theorem usb_configured_twice_halts_witness:
  "\<exists>d1 k1. usb_ep0setup cdc0 0 (usb0 [0, 9, 1, 0, 0, 0, 0, 0]) isr0 = Some (d1, k1) \<and>
     usb_ep0setup cdc0 0 (d1\<lparr>u_mem := u_mem (usb0 [0, 9, 1, 0, 0, 0, 0, 0])\<rparr>) k1 = None"
proof -
  let ?d = "usb0 [0, 9, 1, 0, 0, 0, 0, 0]"
  have s: "set_configuration_in ?d" "set_configuration_in (d\<lparr>u_mem := u_mem ?d\<rparr>)" for d by (simp_all add: set_configuration_in_def)
  have e: "ep0_ok (d\<lparr>u_mem := m\<rparr>) = ep0_ok d" for d m by (simp add: ep0_ok_def)
  obtain d1 k1 where 1: "usb_ep0setup cdc0 0 ?d isr0 = Some (d1, k1)" "ep0_ok d1" "isr_ctx k1"
      "\<forall>d2 k2. ep0_ok d2 \<and> isr_ctx k2 \<and> set_configuration_in d2 \<and> epc d2 1 = epc d1 1 \<longrightarrow> usb_ep0setup cdc0 0 d2 k2 = None"
    using usb_configured_twice_halts [OF _ _ s(1) isr0_ctx(1) _ _ _ _ _ cdc0_def] by auto
  then have "usb_ep0setup cdc0 0 (d1\<lparr>u_mem := u_mem ?d\<rparr>) k1 = None" using s(2) [of d1] e by simp
  then show ?thesis using 1(1) by blast
qed

theorem sdu_line_coding_overruns_witness:
  "\<exists>d1 d2. usb_ep0setup cdc0 0 (usb0 [0x21, 0x20, 0, 0, 0, 0, 7, 0]) isr0 = Some (d1, isr0) \<and>
     otg_rxfifo_handler 0x40070 (upd_otg (\<lambda>r. r\<lparr>RXFIFO := [0x0001C200, 0xFF080000]\<rparr>) d1) isr0 = Some (Done (), d2, isr0) \<and>
     map (u_mem d2 Ram) [200..<208] = [0, 0xC2, 1, 0, 0, 0, 8, 0xFF] \<and> u_mem d2 Ram 208 = 208"
proof -
  let ?d = "usb0 [0x21, 0x20, 0, 0, 0, 0, 7, 0]"
  have "set_line_coding_in ?d" by (simp add: set_line_coding_in_def packet_of_8)
  moreover have "word_bytes 0x0001C200 @ word_bytes 0xFF080000 = [0, 0xC2, 1, 0, 0, 0, 8, 0xFF]" by (simp add: word_bytes_def byte_of_def upt_rec)
  ultimately show ?thesis
    using sdu_line_coding_overruns [OF _ _ isr0_ctx(2) _ cdc0_def, of ?d "0x0001C200" "0xFF080000"] by fastforce
qed

end
