(* ===== verification/DspFilter.thy ===== *)
theory DspFilter
  imports ChPrelude
begin

text \<open>
  The application: digital filters (\<open>examples/DSP-Library\<close>: \<open>FuntionsMath.cpp\<close>, \<open>DataFilter.cpp\<close>,
  \<open>Filter.cpp\<close>, \<open>FIR.cpp\<close>, \<open>IIR.cpp\<close> and the filter thread of \<open>main.cpp\<close>).

  A \<open>float\<close> is a value of a type with the four operations the code uses, given as a record \<open>fops\<close>; nothing is
  assumed of them, so what is shown about the order of operations holds for floating point. An array is a
  list; an access outside it has no result, and so does the use of memory that could not be allocated.
  \<open>alloc n\<close> is the memory that \<open>chHeapAlloc\<close> returns for \<open>n\<close> floats, if any, with its old contents.
\<close>

record 'a fops =
  f_zero :: 'a
  f_add :: "'a \<Rightarrow> 'a \<Rightarrow> 'a"
  f_sub :: "'a \<Rightarrow> 'a \<Rightarrow> 'a"
  f_mul :: "'a \<Rightarrow> 'a \<Rightarrow> 'a"

definition arr_get :: "'a list \<Rightarrow> int \<Rightarrow> 'a option" where
  "arr_get xs i = (if 0 \<le> i \<and> i < int (length xs) then Some (xs ! nat i) else None)"

definition arr_set :: "'a list \<Rightarrow> int \<Rightarrow> 'a \<Rightarrow> 'a list option" where
  "arr_set xs i v = (if 0 \<le> i \<and> i < int (length xs) then Some (xs[nat i := v]) else None)"

subsection \<open>FuntionsMath\<close>

function sum_loop :: "'a fops \<Rightarrow> int \<Rightarrow> int \<Rightarrow> 'a list \<Rightarrow> 'a list \<Rightarrow> int \<Rightarrow> 'a \<Rightarrow> 'a option" where
  "sum_loop F pUpperLimit Cont pCoefficients pArray pCont Result =
     (if Cont \<le> pUpperLimit
      then do { let PosInitCond = pCont + pUpperLimit;
                c \<leftarrow> arr_get pCoefficients Cont;
                x \<leftarrow> arr_get pArray PosInitCond;
                sum_loop F pUpperLimit (Cont + 1) pCoefficients pArray (pCont - 1) (f_add F Result (f_mul F c x)) }
      else Some Result)"
  by pat_completeness auto
termination by (relation "measure (\<lambda>(F, u, c, _). nat (u + 1 - c))") auto

declare sum_loop.simps [simp del]

definition FM_sum :: "'a fops \<Rightarrow> int \<Rightarrow> int \<Rightarrow> 'a list \<Rightarrow> 'a list \<Rightarrow> int \<Rightarrow> 'a option" where
  "FM_sum F pUpperLimit pLowerLimit pCoefficients pArray pCont =
     sum_loop F pUpperLimit pLowerLimit pCoefficients pArray pCont (f_zero F)"

subsection \<open>DataFilter\<close>

definition BUFFER_SIZE :: int where "BUFFER_SIZE = 10"

record 'a data_filter =
  FilterOrder :: int
  ArrayCoefficientsB :: "'a list"
  ArrayInputsX :: "'a list"
  ArrayCoefficientsA :: "'a list"
  ArrayInputsY :: "'a list"

text \<open>The copy loops: \<open>dst[Cont] = src[Cont + off]\<close> for \<open>Cont < n\<close>.\<close>

function copy_loop :: "int \<Rightarrow> int \<Rightarrow> int \<Rightarrow> 'a list \<Rightarrow> 'a list \<Rightarrow> 'a list option" where
  "copy_loop n off Cont src dst =
     (if Cont < n
      then do { v \<leftarrow> arr_get src (Cont + off); dst \<leftarrow> arr_set dst Cont v; copy_loop n off (Cont + 1) src dst }
      else Some dst)"
  by pat_completeness auto
termination by (relation "measure (\<lambda>(n, off, c, _). nat (n - c))") auto

function move_loop :: "int \<Rightarrow> int \<Rightarrow> 'a list \<Rightarrow> 'a list option" where
  "move_loop n Cont pArray =
     (if Cont < n
      then do { v \<leftarrow> arr_get pArray (Cont + BUFFER_SIZE); pArray \<leftarrow> arr_set pArray Cont v; move_loop n (Cont + 1) pArray }
      else Some pArray)"
  by pat_completeness auto
termination by (relation "measure (\<lambda>(n, c, _). nat (n - c))") auto

declare copy_loop.simps [simp del] move_loop.simps [simp del]

definition setFilterOrder :: "int \<Rightarrow> 'a data_filter \<Rightarrow> 'a data_filter" where
  "setFilterOrder pFilterOrder d = d\<lparr>FilterOrder := pFilterOrder\<rparr>"

definition setArrayCoefficientsB :: "'a list \<Rightarrow> 'a data_filter \<Rightarrow> 'a data_filter option" where
  "setArrayCoefficientsB p d =
     do { b \<leftarrow> copy_loop (FilterOrder d + 1) 0 0 p (ArrayCoefficientsB d); Some (d\<lparr>ArrayCoefficientsB := b\<rparr>) }"

definition setArrayInitialConditionsX :: "'a list \<Rightarrow> 'a data_filter \<Rightarrow> 'a data_filter option" where
  "setArrayInitialConditionsX p d =
     do { x \<leftarrow> copy_loop (FilterOrder d) 0 0 p (ArrayInputsX d); Some (d\<lparr>ArrayInputsX := x\<rparr>) }"

definition setArrayCoefficientsA :: "'a list \<Rightarrow> 'a data_filter \<Rightarrow> 'a data_filter option" where
  "setArrayCoefficientsA p d =
     do { a \<leftarrow> copy_loop (FilterOrder d) 1 0 p (ArrayCoefficientsA d); Some (d\<lparr>ArrayCoefficientsA := a\<rparr>) }"

definition setArrayInitialConditionsY :: "'a list \<Rightarrow> 'a data_filter \<Rightarrow> 'a data_filter option" where
  "setArrayInitialConditionsY p d =
     do { y \<leftarrow> copy_loop (FilterOrder d) 0 0 p (ArrayInputsY d); Some (d\<lparr>ArrayInputsY := y\<rparr>) }"

definition moveArray :: "'a list \<Rightarrow> 'a data_filter \<Rightarrow> 'a list option" where
  "moveArray pArray d = move_loop (FilterOrder d) 0 pArray"

text \<open>The loop of \<open>createArrayAux\<close>, which fills the auxiliary history of direct form II.\<close>

function aux_loop :: "'a fops \<Rightarrow> int \<Rightarrow> int \<Rightarrow> 'a list \<Rightarrow> 'a list \<Rightarrow> 'a list \<Rightarrow> 'a list option" where
  "aux_loop F n Cont a x y =
     (if Cont < n - 1
      then do { NumSum \<leftarrow> FM_sum F Cont 0 a y 0;
                NumX \<leftarrow> arr_get x (Cont + 1);
                y \<leftarrow> arr_set y (Cont + 1) (f_sub F NumX NumSum);
                aux_loop F n (Cont + 1) a x y }
      else Some y)"
  by pat_completeness auto
termination by (relation "measure (\<lambda>(F, n, c, _). nat (n - c))") auto

declare aux_loop.simps [simp del]

definition createArrayAux :: "'a fops \<Rightarrow> 'a data_filter \<Rightarrow> 'a data_filter option" where
  "createArrayAux F d =
     do { x0 \<leftarrow> arr_get (ArrayInputsX d) 0;
          y \<leftarrow> arr_set (ArrayInputsY d) 0 x0;
          y \<leftarrow> aux_loop F (FilterOrder d) 0 (ArrayCoefficientsA d) (ArrayInputsX d) y;
          Some (d\<lparr>ArrayInputsY := y\<rparr>) }"

text \<open>
  The three constructors. \<open>d\<close> is the memory of the object, in which no field has been set: its \<open>FilterOrder\<close>
  is read for the size of the input arrays before it is set.
\<close>

definition newDataFilter_FIR ::
  "(int \<Rightarrow> 'a list option) \<Rightarrow> int \<Rightarrow> 'a list \<Rightarrow> 'a list \<Rightarrow> 'a data_filter \<Rightarrow> 'a data_filter option" where
  "newDataFilter_FIR alloc pFilterOrder pArrayInputsX pArrayCoefficientsB d =
     do { b \<leftarrow> alloc (pFilterOrder + 1);
          x \<leftarrow> alloc (FilterOrder d + BUFFER_SIZE);
          let d = d\<lparr>ArrayCoefficientsB := b, ArrayInputsX := x\<rparr>;
          let d = setFilterOrder pFilterOrder d;
          d \<leftarrow> setArrayInitialConditionsX pArrayInputsX d;
          setArrayCoefficientsB pArrayCoefficientsB d }"

definition newDataFilter_IIR1 ::
  "(int \<Rightarrow> 'a list option) \<Rightarrow> int \<Rightarrow> 'a list \<Rightarrow> 'a list \<Rightarrow> 'a list \<Rightarrow> 'a list \<Rightarrow> 'a data_filter \<Rightarrow> 'a data_filter option" where
  "newDataFilter_IIR1 alloc pFilterOrder pArrayInputsX pArrayCoefficientsB pArrayInputsY pArrayCoefficientsA d =
     do { b \<leftarrow> alloc (pFilterOrder + 1);
          x \<leftarrow> alloc (FilterOrder d + BUFFER_SIZE);
          a \<leftarrow> alloc pFilterOrder;
          y \<leftarrow> alloc (FilterOrder d + BUFFER_SIZE);
          let d = d\<lparr>ArrayCoefficientsB := b, ArrayInputsX := x, ArrayCoefficientsA := a, ArrayInputsY := y\<rparr>;
          let d = setFilterOrder pFilterOrder d;
          d \<leftarrow> setArrayInitialConditionsX pArrayInputsX d;
          d \<leftarrow> setArrayCoefficientsB pArrayCoefficientsB d;
          d \<leftarrow> setArrayInitialConditionsY pArrayInputsY d;
          setArrayCoefficientsA pArrayCoefficientsA d }"

definition newDataFilter_IIR2 ::
  "'a fops \<Rightarrow> (int \<Rightarrow> 'a list option) \<Rightarrow> int \<Rightarrow> 'a list \<Rightarrow> 'a list \<Rightarrow> 'a list \<Rightarrow> 'a data_filter \<Rightarrow> 'a data_filter option" where
  "newDataFilter_IIR2 F alloc pFilterOrder pArrayInputsX pArrayCoefficientsB pArrayCoefficientsA d =
     do { b \<leftarrow> alloc (pFilterOrder + 1);
          x \<leftarrow> alloc (FilterOrder d + BUFFER_SIZE);
          a \<leftarrow> alloc pFilterOrder;
          y \<leftarrow> alloc (FilterOrder d + BUFFER_SIZE);
          let d = d\<lparr>ArrayCoefficientsB := b, ArrayInputsX := x, ArrayCoefficientsA := a, ArrayInputsY := y\<rparr>;
          let d = setFilterOrder pFilterOrder d;
          d \<leftarrow> setArrayInitialConditionsX pArrayInputsX d;
          d \<leftarrow> setArrayCoefficientsB pArrayCoefficientsB d;
          d \<leftarrow> setArrayCoefficientsA pArrayCoefficientsA d;
          createArrayAux F d }"

subsection \<open>Filters\<close>

record 'a filter_state =
  InitialDataFilter :: "'a data_filter"
  ContBuffer :: int

definition setInitialDataFilter :: "'a data_filter \<Rightarrow> 'a filter_state" where
  "setInitialDataFilter d = \<lparr>InitialDataFilter = d, ContBuffer = 0\<rparr>"

definition FIR_directFormI :: "'a fops \<Rightarrow> 'a \<Rightarrow> 'a filter_state \<Rightarrow> ('a \<times> 'a filter_state) option" where
  "FIR_directFormI F pData s =
     do { let d = InitialDataFilter s;
          let n = FilterOrder d;
          (x, cnt) \<leftarrow> (if ContBuffer s = BUFFER_SIZE
                       then do { x \<leftarrow> moveArray (ArrayInputsX d) d; Some (x, 0) }
                       else Some (ArrayInputsX d, ContBuffer s));
          let ContInputData = n + cnt;
          x \<leftarrow> arr_set x ContInputData pData;
          Result \<leftarrow> FM_sum F n 0 (ArrayCoefficientsB d) x cnt;
          Some (Result, \<lparr>InitialDataFilter = d\<lparr>ArrayInputsX := x\<rparr>, ContBuffer = cnt + 1\<rparr>) }"

definition FIR_directFormII :: "'a fops \<Rightarrow> 'a \<Rightarrow> 'a filter_state \<Rightarrow> ('a \<times> 'a filter_state) option" where
  "FIR_directFormII F pData s =
     do { let d = InitialDataFilter s;
          let n = FilterOrder d;
          (x, cnt) \<leftarrow> (if ContBuffer s = BUFFER_SIZE
                       then do { x \<leftarrow> moveArray (ArrayInputsX d) d; Some (x, 0) }
                       else Some (ArrayInputsX d, ContBuffer s));
          let ContInputData = n + cnt;
          x \<leftarrow> arr_set x ContInputData pData;
          Result \<leftarrow> FM_sum F n 0 (ArrayCoefficientsB d) x cnt;
          Some (Result, \<lparr>InitialDataFilter = d\<lparr>ArrayInputsX := x\<rparr>, ContBuffer = cnt + 1\<rparr>) }"

definition IIR_directFormI :: "'a fops \<Rightarrow> 'a \<Rightarrow> 'a filter_state \<Rightarrow> ('a \<times> 'a filter_state) option" where
  "IIR_directFormI F pData s =
     do { let d = InitialDataFilter s;
          let n = FilterOrder d;
          (x, y, cnt) \<leftarrow> (if ContBuffer s = BUFFER_SIZE
                          then do { x \<leftarrow> moveArray (ArrayInputsX d) d; y \<leftarrow> moveArray (ArrayInputsY d) d; Some (x, y, 0) }
                          else Some (ArrayInputsX d, ArrayInputsY d, ContBuffer s));
          let ContInputData = n + cnt;
          x \<leftarrow> arr_set x ContInputData pData;
          ResultX \<leftarrow> FM_sum F n 0 (ArrayCoefficientsB d) x cnt;
          ResultY \<leftarrow> FM_sum F (n - 1) 0 (ArrayCoefficientsA d) y cnt;
          let Result = f_sub F ResultX ResultY;
          y \<leftarrow> arr_set y ContInputData Result;
          Some (Result, \<lparr>InitialDataFilter = d\<lparr>ArrayInputsX := x, ArrayInputsY := y\<rparr>, ContBuffer = cnt + 1\<rparr>) }"

definition IIR_directFormII :: "'a fops \<Rightarrow> 'a \<Rightarrow> 'a filter_state \<Rightarrow> ('a \<times> 'a filter_state) option" where
  "IIR_directFormII F pData s =
     do { let d = InitialDataFilter s;
          let n = FilterOrder d;
          (x, v, cnt) \<leftarrow> (if ContBuffer s = BUFFER_SIZE
                          then do { x \<leftarrow> moveArray (ArrayInputsX d) d; v \<leftarrow> moveArray (ArrayInputsY d) d; Some (x, v, 0) }
                          else Some (ArrayInputsX d, ArrayInputsY d, ContBuffer s));
          let ContInputData = n + cnt;
          x \<leftarrow> arr_set x ContInputData pData;
          SumV \<leftarrow> FM_sum F (n - 1) 0 (ArrayCoefficientsA d) v cnt;
          let ResultV = f_sub F pData SumV;
          v \<leftarrow> arr_set v ContInputData ResultV;
          Result \<leftarrow> FM_sum F n 0 (ArrayCoefficientsB d) v cnt;
          Some (Result, \<lparr>InitialDataFilter = d\<lparr>ArrayInputsX := x, ArrayInputsY := v\<rparr>, ContBuffer = cnt + 1\<rparr>) }"

text \<open>
  The loop of the filter thread over its input samples, with the results it prints. The sleeps, the LED and
  the printing are not part of the model.
\<close>

fun Thread1_loop ::
  "('a \<Rightarrow> 'a filter_state \<Rightarrow> ('a \<times> 'a filter_state) option) \<Rightarrow> 'a list \<Rightarrow> 'a filter_state \<Rightarrow> ('a list \<times> 'a filter_state) option" where
  "Thread1_loop form [] s = Some ([], s)"
| "Thread1_loop form (x # xs) s =
     do { (r, s) \<leftarrow> form x s; (rs, s) \<leftarrow> Thread1_loop form xs s; Some (r # rs, s) }"

definition Thread1 :: "'a fops \<Rightarrow> int \<Rightarrow> 'a list \<Rightarrow> 'a data_filter \<Rightarrow> 'a list option" where
  "Thread1 F TipoFiltro EntradasX DataFilter =
     do { let s = setInitialDataFilter DataFilter;
          (rs, s) \<leftarrow> Thread1_loop
             (if TipoFiltro = 1 then IIR_directFormI F else if TipoFiltro = 0 then FIR_directFormI F else IIR_directFormII F)
             EntradasX s;
          Some rs }"

subsection \<open>Difference equations\<close>

text \<open>
  The reference: histories are lists, the latest value first. \<open>wsum\<close> adds the products in order of
  increasing delay, as the code does.
\<close>

fun wsum :: "'a fops \<Rightarrow> 'a \<Rightarrow> 'a list \<Rightarrow> 'a list \<Rightarrow> 'a" where
  "wsum F acc (c # cs) (y # ys) = wsum F (f_add F acc (f_mul F c y)) cs ys"
| "wsum F acc cs ys = acc"

definition fir_spec :: "'a fops \<Rightarrow> 'a list \<Rightarrow> 'a \<Rightarrow> 'a list \<Rightarrow> 'a \<times> 'a list" where
  "fir_spec F bs x px = (wsum F (f_zero F) bs (x # px), take (length px) (x # px))"

definition iir1_spec :: "'a fops \<Rightarrow> 'a list \<Rightarrow> 'a list \<Rightarrow> 'a \<Rightarrow> 'a list \<times> 'a list \<Rightarrow> 'a \<times> 'a list \<times> 'a list" where
  "iir1_spec F bs as x h =
     (let y = f_sub F (wsum F (f_zero F) bs (x # fst h)) (wsum F (f_zero F) as (snd h))
      in (y, take (length (fst h)) (x # fst h), take (length (snd h)) (y # snd h)))"

definition iir2_spec :: "'a fops \<Rightarrow> 'a list \<Rightarrow> 'a list \<Rightarrow> 'a \<Rightarrow> 'a list \<Rightarrow> 'a \<times> 'a list" where
  "iir2_spec F bs as x pv =
     (let v = f_sub F x (wsum F (f_zero F) as pv) in (wsum F (f_zero F) bs (v # pv), take (length pv) (v # pv)))"

fun spec_run :: "('a \<Rightarrow> 'h \<Rightarrow> 'a \<times> 'h) \<Rightarrow> 'a list \<Rightarrow> 'h \<Rightarrow> 'a list" where
  "spec_run f [] h = []"
| "spec_run f (x # xs) h = fst (f x h) # spec_run f xs (snd (f x h))"

text \<open>What the loops do.\<close>

lemma arr_get_nat [simp]: "i < length xs \<Longrightarrow> arr_get xs (int i) = Some (xs ! i)"
  by (simp add: arr_get_def)

lemma arr_set_nat [simp]: "i < length xs \<Longrightarrow> arr_set xs (int i) v = Some (xs[i := v])"
  by (simp add: arr_set_def)

lemma sum_loop_wsum:
  assumes "length ys = length cs" "int (length cs) = u + 1 - cont"
    "\<And>i. i < length cs \<Longrightarrow> arr_get co (cont + int i) = Some (cs ! i)"
    "\<And>i. i < length cs \<Longrightarrow> arr_get arr (p + u - int i) = Some (ys ! i)"
  shows "sum_loop F u cont co arr p acc = Some (wsum F acc cs ys)"
  using assms
proof (induction cs arbitrary: ys cont p acc)
  case Nil
  then show ?case by (subst sum_loop.simps) simp
next
  case (Cons c cs)
  obtain y ys' where ys: "ys = y # ys'" using Cons.prems(1) by (cases ys) auto
  have g: "arr_get co cont = Some c" "arr_get arr (p + u) = Some y"
    using Cons.prems(3) [of 0] Cons.prems(4) [of 0] ys by simp_all
  have "sum_loop F u (cont + 1) co arr (p - 1) (f_add F acc (f_mul F c y)) = Some (wsum F (f_add F acc (f_mul F c y)) cs ys')"
  proof (rule Cons.IH)
    show "arr_get co (cont + 1 + int i) = Some (cs ! i)" if "i < length cs" for i
      using Cons.prems(3) [of "Suc i"] that by (simp add: ac_simps)
    show "arr_get arr (p - 1 + u - int i) = Some (ys' ! i)" if "i < length cs" for i
      using Cons.prems(4) [of "Suc i"] that ys by (simp add: algebra_simps)
  qed (use Cons.prems ys in auto)
  moreover have "cont \<le> u" using Cons.prems(2) by simp
  ultimately show ?case using g ys by (subst sum_loop.simps) simp
qed

lemma copy_loop_ok:
  assumes "c \<le> n" "n \<le> length dst" "n + off \<le> length src"
  shows "\<exists>dst'. copy_loop (int n) (int off) (int c) src dst = Some dst' \<and> length dst' = length dst \<and>
    (\<forall>i < length dst. dst' ! i = (if c \<le> i \<and> i < n then src ! (i + off) else dst ! i))"
  using assms
proof (induction "n - c" arbitrary: c dst)
  case 0
  then show ?case by (subst copy_loop.simps) auto
next
  case (Suc m)
  have c: "c < n" using Suc.hyps(2) by simp
  have l: "copy_loop (int n) (int off) (int c) src dst = copy_loop (int n) (int off) (int (Suc c)) src (dst[c := src ! (c + off)])"
    using c Suc.prems arr_get_nat [of "c + off" src] by (subst copy_loop.simps) (simp add: ac_simps)
  have "\<exists>dst'. copy_loop (int n) (int off) (int (Suc c)) src (dst[c := src ! (c + off)]) = Some dst' \<and>
      length dst' = length (dst[c := src ! (c + off)]) \<and> (\<forall>i < length (dst[c := src ! (c + off)]).
        dst' ! i = (if Suc c \<le> i \<and> i < n then src ! (i + off) else dst[c := src ! (c + off)] ! i))"
    using Suc.hyps(2) Suc.prems by (intro Suc.hyps(1)) auto
  then obtain d where d: "copy_loop (int n) (int off) (int (Suc c)) src (dst[c := src ! (c + off)]) = Some d" "length d = length dst"
      "\<forall>i < length dst. d ! i = (if Suc c \<le> i \<and> i < n then src ! (i + off) else dst[c := src ! (c + off)] ! i)" by auto
  have "d ! i = (if c \<le> i \<and> i < n then src ! (i + off) else dst ! i)" if "i < length dst" for i
    using d(3) [rule_format, OF that] that c by (cases "i = c") auto
  then show ?case unfolding l using d by blast
qed

lemma move_loop_ok:
  assumes "c \<le> n" "n + 10 \<le> length xs"
  shows "\<exists>ys. move_loop (int n) (int c) xs = Some ys \<and> length ys = length xs \<and>
    (\<forall>i < length xs. ys ! i = (if c \<le> i \<and> i < n then xs ! (i + 10) else xs ! i))"
  using assms
proof (induction "n - c" arbitrary: c xs)
  case 0
  then show ?case by (subst move_loop.simps) auto
next
  case (Suc m)
  have c: "c < n" using Suc.hyps(2) by simp
  let ?xs = "xs[c := xs ! (c + 10)]"
  have l: "move_loop (int n) (int c) xs = move_loop (int n) (int (Suc c)) ?xs"
    using c Suc.prems arr_get_nat [of "c + 10" xs] by (subst move_loop.simps) (simp add: BUFFER_SIZE_def ac_simps)
  have "\<exists>ys. move_loop (int n) (int (Suc c)) ?xs = Some ys \<and> length ys = length ?xs \<and>
      (\<forall>i < length ?xs. ys ! i = (if Suc c \<le> i \<and> i < n then ?xs ! (i + 10) else ?xs ! i))"
    using Suc.hyps(2) Suc.prems by (intro Suc.hyps(1)) auto
  then obtain d where d: "move_loop (int n) (int (Suc c)) ?xs = Some d" "length d = length xs"
      "\<forall>i < length xs. d ! i = (if Suc c \<le> i \<and> i < n then ?xs ! (i + 10) else ?xs ! i)" by auto
  have "d ! i = (if c \<le> i \<and> i < n then xs ! (i + 10) else xs ! i)" if "i < length xs" for i
    using d(3) [rule_format, OF that] that c by (cases "i = c") auto
  then show ?case unfolding l using d by blast
qed

subsection \<open>The sample buffer\<close>

text \<open>\<open>window xs n c ps\<close>: below place \<open>n + c\<close> the array holds the last \<open>n\<close> values \<open>ps\<close>, the latest first.\<close>

definition window :: "'a list \<Rightarrow> nat \<Rightarrow> nat \<Rightarrow> 'a list \<Rightarrow> bool" where
  "window xs n c ps \<longleftrightarrow> length ps = n \<and> n + 10 \<le> length xs \<and> c \<le> 10 \<and> (\<forall>j < n. xs ! (n + c - 1 - j) = ps ! j)"

lemma window_move:
  assumes "window xs n 10 ps" "FilterOrder d = int n"
  shows "\<exists>ys. moveArray xs d = Some ys \<and> window ys n 0 ps"
proof -
  obtain ys where ys: "move_loop (int n) (int 0) xs = Some ys" "length ys = length xs"
      "\<forall>i < length xs. ys ! i = (if 0 \<le> i \<and> i < n then xs ! (i + 10) else xs ! i)"
    using move_loop_ok [of 0 n xs] assms(1) by (auto simp: window_def)
  have "ys ! (n - 1 - j) = ps ! j" if "j < n" for j
  proof -
    have i: "n - 1 - j < length xs" "n - 1 - j < n" "n - 1 - j + 10 = n + 10 - 1 - j"
      using that assms(1) by (auto simp: window_def)
    have "ys ! (n - 1 - j) = xs ! (n - 1 - j + 10)" using ys(3) [rule_format, OF i(1)] i(2) by (simp only: if_True conj_absorb) simp
    then show ?thesis using assms(1) that unfolding window_def i(3) by simp
  qed
  then show ?thesis using ys assms by (auto simp: window_def moveArray_def)
qed

text \<open>The buffer as the filters prepare it for the next sample.\<close>

lemma window_ready:
  assumes "window xs n c ps" "FilterOrder d = int n"
  obtains ys c' where "(if int c = BUFFER_SIZE then do { x \<leftarrow> moveArray xs d; Some (x, 0) } else Some (xs, int c)) = Some (ys, int c')"
    "window ys n c' ps" "c' < 10" "c' = (if c = 10 then 0 else c)"
proof (cases "c = 10")
  case True
  then obtain ys where "moveArray xs d = Some ys" "window ys n 0 ps" using window_move assms by blast
  then show ?thesis using that [of ys 0] True by (simp add: BUFFER_SIZE_def)
next
  case False
  then show ?thesis using that [of xs c] assms(1) by (auto simp: BUFFER_SIZE_def window_def)
qed

lemma window_put:
  assumes "window xs n c ps" "c < 10"
  shows "arr_set xs (int n + int c) v = Some (xs[n + c := v])" "window (xs[n + c := v]) n (c + 1) (take n (v # ps))"
proof -
  have l: "n + c < length xs" "length ps = n" using assms by (auto simp: window_def)
  show "arr_set xs (int n + int c) v = Some (xs[n + c := v])" using arr_set_nat [OF l(1)] by simp
  have "xs[n + c := v] ! (n + (c + 1) - 1 - j) = (v # ps) ! j" if "j < n" for j
  proof (cases j)
    case (Suc i)
    then have "n + c - j \<noteq> n + c" "n + c - j = n + c - 1 - i" "i < n" using that by auto
    then show ?thesis using assms(1) Suc by (simp add: window_def nth_list_update)
  qed (use l in simp)
  then show "window (xs[n + c := v]) n (c + 1) (take n (v # ps))" using assms l(2) by (simp add: window_def)
qed

lemma window_sum:
  assumes "window xs n c ps" "c < 10" "length bs = n + 1"
  shows "FM_sum F (int n) 0 bs (xs[n + c := v]) (int c) = Some (wsum F (f_zero F) bs (v # ps))"
  unfolding FM_sum_def
proof (rule sum_loop_wsum)
  have l: "n + c < length xs" "length ps = n" using assms by (auto simp: window_def)
  show "length (v # ps) = length bs" using l assms(3) by simp
  fix i assume i: "i < length bs"
  show "arr_get bs (0 + int i) = Some (bs ! i)" using i by simp
  have "int c + int n - int i = int (n + c - i)" using i assms(3) by simp
  moreover have "xs[n + c := v] ! (n + c - i) = (v # ps) ! i"
  proof (cases i)
    case (Suc j)
    then have "n + c - i \<noteq> n + c" "n + c - i = n + c - 1 - j" "j < n" using i assms(3) by auto
    then show ?thesis using assms(1) Suc by (simp add: window_def nth_list_update)
  qed (use l in simp)
  ultimately show "arr_get (xs[n + c := v]) (int c + int n - int i) = Some ((v # ps) ! i)"
    using l by (simp only: arr_get_nat length_list_update less_imp_diff_less)
qed (use assms in simp)

lemma window_sum_past:
  assumes "window xs n c ps" "c < 10" "length as = n"
  shows "FM_sum F (int n - 1) 0 as xs (int c) = Some (wsum F (f_zero F) as ps)"
  unfolding FM_sum_def
proof (rule sum_loop_wsum)
  have l: "n + c < length xs" "length ps = n" using assms by (auto simp: window_def)
  show "length ps = length as" using l assms(3) by simp
  fix i assume i: "i < length as"
  show "arr_get as (0 + int i) = Some (as ! i)" using i by simp
  have "int c + (int n - 1) - int i = int (n + c - 1 - i)" using i assms(3) by simp
  moreover have "xs ! (n + c - 1 - i) = ps ! i" using assms i by (simp add: window_def)
  ultimately show "arr_get xs (int c + (int n - 1) - int i) = Some (ps ! i)"
    using l by (simp only: arr_get_nat less_imp_diff_less)
qed (use assms in simp)

subsection \<open>Filters compute their difference equations\<close>

text \<open>The contract the filter thread relies on: a filter form implements a step on histories.\<close>

locale filter_form =
  fixes form :: "'a \<Rightarrow> 'a filter_state \<Rightarrow> ('a \<times> 'a filter_state) option"
    and rep :: "'a filter_state \<Rightarrow> 'h \<Rightarrow> bool"
    and spec :: "'a \<Rightarrow> 'h \<Rightarrow> 'a \<times> 'h"
  assumes form_step: "rep s h \<Longrightarrow> \<exists>s'. form x s = Some (fst (spec x h), s') \<and> rep s' (snd (spec x h))"
begin

lemma run: "rep s h \<Longrightarrow> \<exists>s'. Thread1_loop form xs s = Some (spec_run spec xs h, s')"
proof (induction xs arbitrary: s h)
  case (Cons x xs)
  obtain s1 where s1: "form x s = Some (fst (spec x h), s1)" "rep s1 (snd (spec x h))" using form_step [OF Cons.prems] by blast
  then obtain s2 where "Thread1_loop form xs s1 = Some (spec_run spec xs (snd (spec x h)), s2)" using Cons.IH by blast
  then show ?case using s1 by simp
qed simp

end

definition fir_rep :: "'a list \<Rightarrow> 'a filter_state \<Rightarrow> 'a list \<Rightarrow> bool" where
  "fir_rep bs s px \<longleftrightarrow>
     (let d = InitialDataFilter s; n = length px
      in FilterOrder d = int n \<and> ArrayCoefficientsB d = bs \<and> length bs = n + 1 \<and>
         (\<exists>c. ContBuffer s = int c \<and> window (ArrayInputsX d) n c px))"

definition iir1_rep :: "'a list \<Rightarrow> 'a list \<Rightarrow> 'a filter_state \<Rightarrow> 'a list \<times> 'a list \<Rightarrow> bool" where
  "iir1_rep bs as s h \<longleftrightarrow>
     (let d = InitialDataFilter s; n = length (fst h)
      in FilterOrder d = int n \<and> ArrayCoefficientsB d = bs \<and> length bs = n + 1 \<and> ArrayCoefficientsA d = as \<and> length as = n \<and>
         (\<exists>c. ContBuffer s = int c \<and> window (ArrayInputsX d) n c (fst h) \<and> window (ArrayInputsY d) n c (snd h)))"

definition iir2_rep :: "'a list \<Rightarrow> 'a list \<Rightarrow> 'a filter_state \<Rightarrow> 'a list \<Rightarrow> bool" where
  "iir2_rep bs as s pv \<longleftrightarrow> (\<exists>px. length px = length pv \<and> iir1_rep bs as s (px, pv))"

interpretation fir: filter_form "FIR_directFormI F" "fir_rep bs" "fir_spec F bs" for F :: "'a fops" and bs
proof
  fix s px x assume r: "fir_rep bs s px"
  define d n where "d = InitialDataFilter s" and "n = length px"
  obtain c where c: "FilterOrder d = int n" "ArrayCoefficientsB d = bs" "length bs = n + 1" "ContBuffer s = int c"
      "window (ArrayInputsX d) n c px"
    using r by (auto simp: fir_rep_def Let_def d_def n_def)
  obtain ys c' where y: "(if int c = BUFFER_SIZE then do { x \<leftarrow> moveArray (ArrayInputsX d) d; Some (x, 0) } else Some (ArrayInputsX d, int c)) = Some (ys, int c')"
      "window ys n c' px" "c' < 10"
    using window_ready [OF c(5,1)] by blast
  note put = window_put [OF y(2,3), of x] and sm = window_sum [OF y(2,3) c(3), of F x]
  have "FIR_directFormI F x s = Some (wsum F (f_zero F) bs (x # px), \<lparr>InitialDataFilter = d\<lparr>ArrayInputsX := ys[n + c' := x]\<rparr>, ContBuffer = int c' + 1\<rparr>)"
    unfolding FIR_directFormI_def Let_def d_def [symmetric] c(1,2,4) y(1) using put(1) sm by simp
  moreover have "fir_rep bs \<lparr>InitialDataFilter = d\<lparr>ArrayInputsX := ys[n + c' := x]\<rparr>, ContBuffer = int c' + 1\<rparr> (take n (x # px))"
    using put(2) c n_def by (auto simp: fir_rep_def Let_def intro!: exI [of _ "c' + 1"])
  ultimately show "\<exists>s'. FIR_directFormI F x s = Some (fst (fir_spec F bs x px), s') \<and> fir_rep bs s' (snd (fir_spec F bs x px))"
    by (simp add: fir_spec_def n_def)
qed

lemma two_windows_ready:
  assumes "window xs n c ps" "window ys n c qs" "FilterOrder d = int n"
  obtains xs' ys' c' where
    "(if int c = BUFFER_SIZE then do { x \<leftarrow> moveArray xs d; y \<leftarrow> moveArray ys d; Some (x, y, 0) } else Some (xs, ys, int c)) = Some (xs', ys', int c')"
    "window xs' n c' ps" "window ys' n c' qs" "c' < 10"
proof (cases "c = 10")
  case True
  obtain xs' ys' where "moveArray xs d = Some xs'" "window xs' n 0 ps" "moveArray ys d = Some ys'" "window ys' n 0 qs"
    using window_move assms True by metis
  then show ?thesis using that [of xs' ys' 0] True by (simp add: BUFFER_SIZE_def)
next
  case False
  then show ?thesis using that [of xs ys c] assms by (auto simp: BUFFER_SIZE_def window_def)
qed

interpretation iir1: filter_form "IIR_directFormI F" "iir1_rep bs as" "iir1_spec F bs as" for F :: "'a fops" and bs as
proof
  fix s h x assume r: "iir1_rep bs as s h"
  define d n px py where "d = InitialDataFilter s" and "n = length (fst h)" and "px = fst h" and "py = snd h"
  obtain c where c: "FilterOrder d = int n" "ArrayCoefficientsB d = bs" "length bs = n + 1" "ArrayCoefficientsA d = as"
      "length as = n" "ContBuffer s = int c" "window (ArrayInputsX d) n c px" "window (ArrayInputsY d) n c py"
    using r by (auto simp: iir1_rep_def Let_def d_def n_def px_def py_def)
  obtain xs ys c' where y: "(if int c = BUFFER_SIZE then do { x \<leftarrow> moveArray (ArrayInputsX d) d; y \<leftarrow> moveArray (ArrayInputsY d) d; Some (x, y, 0) }
        else Some (ArrayInputsX d, ArrayInputsY d, int c)) = Some (xs, ys, int c')"
      "window xs n c' px" "window ys n c' py" "c' < 10"
    using two_windows_ready [OF c(7,8,1)] by blast
  define v where "v = f_sub F (wsum F (f_zero F) bs (x # px)) (wsum F (f_zero F) as py)"
  note put = window_put [OF y(2,4), of x] window_put [OF y(3,4), of v]
  have "IIR_directFormI F x s = Some (v, \<lparr>InitialDataFilter = d\<lparr>ArrayInputsX := xs[n + c' := x], ArrayInputsY := ys[n + c' := v]\<rparr>, ContBuffer = int c' + 1\<rparr>)"
    unfolding IIR_directFormI_def Let_def d_def [symmetric] c(1,2,4,6) y(1)
    using put window_sum [OF y(2,4) c(3), of F x] window_sum_past [OF y(3,4) c(5), of F] by (simp add: v_def)
  moreover have "iir1_rep bs as \<lparr>InitialDataFilter = d\<lparr>ArrayInputsX := xs[n + c' := x], ArrayInputsY := ys[n + c' := v]\<rparr>, ContBuffer = int c' + 1\<rparr>
      (take n (x # px), take n (v # py))"
    using put(2,4) c n_def px_def by (auto simp: iir1_rep_def Let_def intro!: exI [of _ "c' + 1"])
  moreover have "length py = n" using c(8) by (simp add: window_def)
  ultimately show "\<exists>s'. IIR_directFormI F x s = Some (fst (iir1_spec F bs as x h), s') \<and> iir1_rep bs as s' (snd (iir1_spec F bs as x h))"
    by (simp add: iir1_spec_def Let_def v_def n_def px_def py_def)
qed

interpretation iir2: filter_form "IIR_directFormII F" "iir2_rep bs as" "iir2_spec F bs as" for F :: "'a fops" and bs as
proof
  fix s pv x assume "iir2_rep bs as s pv"
  then obtain px where r: "iir1_rep bs as s (px, pv)" "length px = length pv" by (auto simp: iir2_rep_def)
  define d n where "d = InitialDataFilter s" and "n = length pv"
  obtain c where c: "FilterOrder d = int n" "ArrayCoefficientsB d = bs" "length bs = n + 1" "ArrayCoefficientsA d = as"
      "length as = n" "ContBuffer s = int c" "window (ArrayInputsX d) n c px" "window (ArrayInputsY d) n c pv"
    using r by (auto simp: iir1_rep_def Let_def d_def n_def)
  obtain xs ys c' where y: "(if int c = BUFFER_SIZE then do { x \<leftarrow> moveArray (ArrayInputsX d) d; y \<leftarrow> moveArray (ArrayInputsY d) d; Some (x, y, 0) }
        else Some (ArrayInputsX d, ArrayInputsY d, int c)) = Some (xs, ys, int c')"
      "window xs n c' px" "window ys n c' pv" "c' < 10"
    using two_windows_ready [OF c(7,8,1)] by blast
  define v where "v = f_sub F x (wsum F (f_zero F) as pv)"
  note put = window_put [OF y(2,4), of x] window_put [OF y(3,4), of v]
  have "IIR_directFormII F x s = Some (wsum F (f_zero F) bs (v # pv),
      \<lparr>InitialDataFilter = d\<lparr>ArrayInputsX := xs[n + c' := x], ArrayInputsY := ys[n + c' := v]\<rparr>, ContBuffer = int c' + 1\<rparr>)"
    unfolding IIR_directFormII_def Let_def d_def [symmetric] c(1,2,4,6) y(1)
    using put window_sum [OF y(3,4) c(3), of F v] window_sum_past [OF y(3,4) c(5), of F] by (simp add: v_def)
  moreover have "iir2_rep bs as \<lparr>InitialDataFilter = d\<lparr>ArrayInputsX := xs[n + c' := x], ArrayInputsY := ys[n + c' := v]\<rparr>, ContBuffer = int c' + 1\<rparr>
      (take n (v # pv))"
    using put(2,4) c n_def r(2)
    by (auto simp: iir2_rep_def iir1_rep_def Let_def intro!: exI [of _ "take n (x # px)"] exI [of _ "c' + 1"])
  ultimately show "\<exists>s'. IIR_directFormII F x s = Some (fst (iir2_spec F bs as x pv), s') \<and> iir2_rep bs as s' (snd (iir2_spec F bs as x pv))"
    by (simp add: iir2_spec_def Let_def v_def n_def)
qed

subsection \<open>Building the filter data\<close>

lemma copy_all:
  assumes "length dst = n" "n + off \<le> length src"
  shows "copy_loop (int n) (int off) 0 src dst = Some (take n (drop off src))"
proof -
  obtain d where d: "copy_loop (int n) (int off) (int 0) src dst = Some d" "length d = length dst"
      "\<forall>i < length dst. d ! i = (if 0 \<le> i \<and> i < n then src ! (i + off) else dst ! i)"
    using copy_loop_ok [of 0 n dst off src] assms by auto
  have "d = take n (drop off src)" by (rule nth_equalityI) (use d assms in \<open>auto simp: ac_simps\<close>)
  then show ?thesis using d(1) by simp
qed

lemma copy_window:
  assumes "n + 10 \<le> length dst" "n \<le> length src"
  shows "\<exists>d. copy_loop (int n) 0 0 src dst = Some d \<and> length d = length dst \<and> window d n 0 (rev (take n src)) \<and> take n d = take n src"
proof -
  obtain d where d: "copy_loop (int n) (int 0) (int 0) src dst = Some d" "length d = length dst"
      "\<forall>i < length dst. d ! i = (if 0 \<le> i \<and> i < n then src ! (i + 0) else dst ! i)"
    using copy_loop_ok [of 0 n dst 0 src] assms by auto
  have e: "take n d = take n src" by (rule nth_equalityI) (use d assms in auto)
  have "d ! (n - 1 - j) = rev (take n src) ! j" if "j < n" for j
    using d(3) assms that by (simp add: rev_nth)
  then show ?thesis using d(1,2) assms e by (auto simp: window_def)
qed

text \<open>\<open>alloc_ok\<close>: memory never runs out and has the size asked for.\<close>

definition alloc_ok :: "(int \<Rightarrow> 'a list option) \<Rightarrow> bool" where
  "alloc_ok alloc \<longleftrightarrow> (\<forall>n \<ge> 0. \<exists>xs. alloc n = Some xs \<and> int (length xs) = n)"

lemma alloc_okD:
  assumes "alloc_ok alloc" "0 \<le> n"
  obtains xs where "alloc n = Some xs" "int (length xs) = n"
  using assms by (auto simp: alloc_ok_def)

lemma newDataFilter_FIR_ok:
  assumes al: "alloc_ok alloc" and g: "int n \<le> FilterOrder d0" and l: "n \<le> length xi" "n + 1 \<le> length b"
  shows "\<exists>d. newDataFilter_FIR alloc (int n) xi b d0 = Some d \<and>
    fir_rep (take (n + 1) b) (setInitialDataFilter d) (rev (take n xi))"
proof -
  obtain bs where bs: "alloc (int n + 1) = Some bs" "int (length bs) = int n + 1" using alloc_okD [OF al, of "int n + 1"] by auto
  obtain x where x: "alloc (FilterOrder d0 + BUFFER_SIZE) = Some x" "int (length x) = FilterOrder d0 + BUFFER_SIZE"
    using alloc_okD [OF al, of "FilterOrder d0 + BUFFER_SIZE"] g by (auto simp: BUFFER_SIZE_def)
  have lx: "n + 10 \<le> length x" using x(2) g by (simp add: BUFFER_SIZE_def)
  obtain x' where x': "copy_loop (int n) 0 0 xi x = Some x'" "window x' n 0 (rev (take n xi))"
    using copy_window [OF lx l(1)] by blast
  have b': "copy_loop (int n + 1) 0 0 b bs = Some (take (n + 1) b)"
    using copy_all [of bs "n + 1" 0 b] bs(2) l(2) by (simp add: add.commute)
  show ?thesis
    using bs(1) x(1) x' b' l
    by (auto simp: newDataFilter_FIR_def Let_def setFilterOrder_def setArrayInitialConditionsX_def setArrayCoefficientsB_def
        fir_rep_def setInitialDataFilter_def)
qed

lemma newDataFilter_IIR1_ok:
  assumes al: "alloc_ok alloc" and g: "int n \<le> FilterOrder d0"
    and l: "n \<le> length xi" "n + 1 \<le> length b" "n \<le> length yi" "n + 1 \<le> length a"
  shows "\<exists>d. newDataFilter_IIR1 alloc (int n) xi b yi a d0 = Some d \<and>
    iir1_rep (take (n + 1) b) (take n (drop 1 a)) (setInitialDataFilter d) (rev (take n xi), rev (take n yi))"
proof -
  obtain bs where bs: "alloc (int n + 1) = Some bs" "int (length bs) = int n + 1" using alloc_okD [OF al, of "int n + 1"] by auto
  obtain as where as: "alloc (int n) = Some as" "length as = n" using alloc_okD [OF al, of "int n"] by auto
  obtain x where x: "alloc (FilterOrder d0 + BUFFER_SIZE) = Some x" "int (length x) = FilterOrder d0 + BUFFER_SIZE"
    using alloc_okD [OF al, of "FilterOrder d0 + BUFFER_SIZE"] g by (auto simp: BUFFER_SIZE_def)
  have lx: "n + 10 \<le> length x" using x(2) g by (simp add: BUFFER_SIZE_def)
  obtain x' y' where x': "copy_loop (int n) 0 0 xi x = Some x'" "window x' n 0 (rev (take n xi))"
      "copy_loop (int n) 0 0 yi x = Some y'" "window y' n 0 (rev (take n yi))"
    using copy_window [OF lx l(1)] copy_window [OF lx l(3)] by blast
  have b': "copy_loop (int n + 1) 0 0 b bs = Some (take (n + 1) b)"
    using copy_all [of bs "n + 1" 0 b] bs(2) l(2) by (simp add: add.commute)
  have a': "copy_loop (int n) 1 0 a as = Some (take n (drop 1 a))" using copy_all [of as n 1 a] as(2) l(4) by simp
  show ?thesis
    using bs(1) as(1) x(1) x' b' a' l
    by (auto simp: newDataFilter_IIR1_def Let_def setFilterOrder_def setArrayInitialConditionsX_def setArrayCoefficientsB_def
        setArrayInitialConditionsY_def setArrayCoefficientsA_def iir1_rep_def setInitialDataFilter_def)
qed

text \<open>The auxiliary history of direct form II, as \<open>createArrayAux\<close> computes it from the inputs before the start.\<close>

fun aux_hist :: "'a fops \<Rightarrow> 'a list \<Rightarrow> 'a list \<Rightarrow> 'a list \<Rightarrow> 'a list" where
  "aux_hist F as h [] = h"
| "aux_hist F as h (x # xs) = aux_hist F as (f_sub F x (wsum F (f_zero F) as h) # h) xs"

lemma wsum_take: "wsum F acc (take (length ys) cs) ys = wsum F acc cs ys"
proof (induction ys arbitrary: acc cs)
  case (Cons y ys)
  then show ?case by (cases cs) simp_all
qed (simp add: wsum.simps)

lemma aux_loop_ok:
  assumes "length h = c + 1" "c < n" "n + 10 \<le> length y" "length as = n" "n \<le> length x" "\<forall>j \<le> c. y ! (c - j) = h ! j"
  shows "\<exists>y'. aux_loop F (int n) (int c) as x y = Some y' \<and> length y' = length y \<and>
    window y' n 0 (aux_hist F as h (take (n - 1 - c) (drop (c + 1) x)))"
  using assms
proof (induction "n - 1 - c" arbitrary: c h y)
  case 0
  have c: "c = n - 1" "length h = n" using "0.hyps" "0.prems"(1,2) by auto
  have "y ! (n - 1 - j) = h ! j" if "j < n" for j using "0.prems"(6) that c(1) by auto
  then show ?case using c "0.prems"(2,3) by (subst aux_loop.simps) (auto simp: window_def)
next
  case (Suc m)
  have c: "c + 1 < n" "c + 1 < length x" "c + 1 < length y" using Suc.hyps(2) Suc.prems(3,5) by auto
  define v where "v = f_sub F (x ! (c + 1)) (wsum F (f_zero F) as h)"
  have s: "FM_sum F (int c) 0 as y 0 = Some (wsum F (f_zero F) as h)"
  proof -
    have "sum_loop F (int c) 0 as y 0 (f_zero F) = Some (wsum F (f_zero F) (take (c + 1) as) h)"
    proof (rule sum_loop_wsum)
      fix i assume i: "i < length (take (c + 1) as)"
      show "arr_get as (0 + int i) = Some (take (c + 1) as ! i)" using i by simp
      have "0 + int c - int i = int (c - i)" "y ! (c - i) = h ! i" using i Suc.prems(6) by auto
      then show "arr_get y (0 + int c - int i) = Some (h ! i)" using c(3) by (simp only: arr_get_nat less_imp_diff_less add_lessD1)
    qed (use Suc.prems c in auto)
    then show ?thesis using wsum_take [of F "f_zero F" h as] Suc.prems(1) by (simp add: FM_sum_def)
  qed
  have "arr_get x (int c + 1) = Some (x ! (c + 1))" "arr_set y (int c + 1) v = Some (y[c + 1 := v])"
    using arr_get_nat [OF c(2)] arr_set_nat [OF c(3)] by (simp_all add: add.commute)
  then have l: "aux_loop F (int n) (int c) as x y = aux_loop F (int n) (int (c + 1)) as x (y[c + 1 := v])"
    using s c(1) by (subst aux_loop.simps) (simp add: v_def add.commute)
  have "\<exists>y'. aux_loop F (int n) (int (c + 1)) as x (y[c + 1 := v]) = Some y' \<and> length y' = length (y[c + 1 := v]) \<and>
      window y' n 0 (aux_hist F as (v # h) (take (n - 1 - (c + 1)) (drop (c + 1 + 1) x)))"
  proof (rule Suc.hyps(1))
    show "\<forall>j \<le> c + 1. y[c + 1 := v] ! (c + 1 - j) = (v # h) ! j"
    proof (intro allI impI)
      fix j assume "j \<le> c + 1"
      then show "y[c + 1 := v] ! (c + 1 - j) = (v # h) ! j"
        using Suc.prems(6) c(3) by (cases j) (auto simp: nth_list_update)
    qed
  qed (use Suc.hyps(2) Suc.prems c in auto)
  moreover have "take (n - 1 - c) (drop (c + 1) x) = x ! (c + 1) # take (n - 1 - (c + 1)) (drop (c + 1 + 1) x)"
  proof -
    have "n - 1 - c = Suc (n - 1 - (c + 1))" using c(1) by simp
    then show ?thesis using Cons_nth_drop_Suc [OF c(2)] by (metis Suc_eq_plus1 take_Suc_Cons)
  qed
  ultimately show ?case unfolding l by (simp add: v_def)
qed

lemma newDataFilter_IIR2_ok:
  assumes al: "alloc_ok alloc" and g: "int n \<le> FilterOrder d0" "0 < n"
    and l: "n \<le> length xi" "n + 1 \<le> length b" "n + 1 \<le> length a"
  shows "\<exists>d. newDataFilter_IIR2 F alloc (int n) xi b a d0 = Some d \<and>
    iir2_rep (take (n + 1) b) (take n (drop 1 a)) (setInitialDataFilter d)
      (aux_hist F (take n (drop 1 a)) [hd xi] (take (n - 1) (drop 1 xi)))"
proof -
  obtain bs where bs: "alloc (int n + 1) = Some bs" "int (length bs) = int n + 1" using alloc_okD [OF al, of "int n + 1"] by auto
  obtain as where as: "alloc (int n) = Some as" "length as = n" using alloc_okD [OF al, of "int n"] by auto
  obtain x where x: "alloc (FilterOrder d0 + BUFFER_SIZE) = Some x" "int (length x) = FilterOrder d0 + BUFFER_SIZE"
    using alloc_okD [OF al, of "FilterOrder d0 + BUFFER_SIZE"] g by (auto simp: BUFFER_SIZE_def)
  have lx: "n + 10 \<le> length x" using x(2) g by (simp add: BUFFER_SIZE_def)
  obtain x' where x': "copy_loop (int n) 0 0 xi x = Some x'" "length x' = length x" "window x' n 0 (rev (take n xi))" "take n x' = take n xi"
    using copy_window [OF lx l(1)] by blast
  have b': "copy_loop (int n + 1) 0 0 b bs = Some (take (n + 1) b)"
    using copy_all [of bs "n + 1" 0 b] bs(2) l(2) by (simp add: add.commute)
  have a': "copy_loop (int n) 1 0 a as = Some (take n (drop 1 a))" using copy_all [of as n 1 a] as(2) l(3) by simp
  have x0: "x' ! 0 = hd xi" using x'(4) g(2) l(1) by (metis hd_conv_nth length_greater_0_conv less_le_trans nth_take)
  have xt: "take (n - 1 - 0) (drop (0 + 1) x') = take (n - 1) (drop 1 xi)"
    using x'(4) by (metis add_0 diff_zero drop_take)
  let ?as = "take n (drop 1 a)" and ?y = "x[0 := hd xi]"
  have y0: "?y ! 0 = hd xi" using lx by (intro nth_list_update_eq) linarith
  obtain y' where y': "aux_loop F (int n) (int 0) ?as x' ?y = Some y'" "length y' = length ?y"
      "window y' n 0 (aux_hist F ?as [hd xi] (take (n - 1 - 0) (drop (0 + 1) x')))"
    using aux_loop_ok [of "[hd xi]" 0 n ?y ?as x' F] y0 g(2) lx l(3) x'(2) by auto
  have len: "length (aux_hist F ?as [hd xi] (take (n - 1) (drop 1 xi))) = n" using y'(3) xt by (simp add: window_def)
  have "0 < length x'" "0 < length x" using lx x'(2) by auto
  then have g0: "arr_get x' 0 = Some (hd xi)" "arr_set x 0 (hd xi) = Some ?y"
    using arr_get_nat [of 0 x'] arr_set_nat [of 0 x] x0 by auto
  have lr: "length (rev (take n xi)) = n" using l(1) by simp
  show ?thesis
    using bs(1) as(1) x(1) x'(1,3) b' a' l g0 y'(1,3) xt len lr
    by (auto simp: newDataFilter_IIR2_def Let_def setFilterOrder_def setArrayInitialConditionsX_def setArrayCoefficientsB_def
        setArrayCoefficientsA_def createArrayAux_def iir2_rep_def iir1_rep_def setInitialDataFilter_def intro!: exI [of _ "rev (take n xi)"])
qed

text \<open>Building the data of each kind of filter and running the thread on it.\<close>

lemma newDataFilter_runs:
  assumes al: "alloc_ok alloc" and g: "int n \<le> FilterOrder d0" "0 < n"
    and l: "n \<le> length xi" "n + 1 \<le> length b" "n \<le> length yi" "n + 1 \<le> length a"
  shows "\<exists>d0' d1 d2. newDataFilter_FIR alloc (int n) xi b d0 = Some d0' \<and> newDataFilter_IIR1 alloc (int n) xi b yi a d0 = Some d1 \<and>
    newDataFilter_IIR2 F alloc (int n) xi b a d0 = Some d2 \<and>
    Thread1 F 0 ins d0' = Some (spec_run (fir_spec F (take (n + 1) b)) ins (rev (take n xi))) \<and>
    Thread1 F 1 ins d1 =
      Some (spec_run (iir1_spec F (take (n + 1) b) (take n (drop 1 a))) ins (rev (take n xi), rev (take n yi))) \<and>
    Thread1 F 2 ins d2 =
      Some (spec_run (iir2_spec F (take (n + 1) b) (take n (drop 1 a))) ins
        (aux_hist F (take n (drop 1 a)) [hd xi] (take (n - 1) (drop 1 xi))))"
proof -
  obtain e0 where e0: "newDataFilter_FIR alloc (int n) xi b d0 = Some e0"
      "fir_rep (take (n + 1) b) (setInitialDataFilter e0) (rev (take n xi))"
    using newDataFilter_FIR_ok [OF al g(1) l(1,2)] by blast
  obtain e1 where e1: "newDataFilter_IIR1 alloc (int n) xi b yi a d0 = Some e1"
      "iir1_rep (take (n + 1) b) (take n (drop 1 a)) (setInitialDataFilter e1) (rev (take n xi), rev (take n yi))"
    using newDataFilter_IIR1_ok [OF al g(1) l] by blast
  obtain e2 where e2: "newDataFilter_IIR2 F alloc (int n) xi b a d0 = Some e2"
      "iir2_rep (take (n + 1) b) (take n (drop 1 a)) (setInitialDataFilter e2)
        (aux_hist F (take n (drop 1 a)) [hd xi] (take (n - 1) (drop 1 xi)))"
    using newDataFilter_IIR2_ok [OF al g l(1,2,4), of F] by blast
  obtain s0 s1 s2 where "Thread1_loop (FIR_directFormI F) ins (setInitialDataFilter e0) = Some (spec_run (fir_spec F (take (n + 1) b)) ins (rev (take n xi)), s0)"
      "Thread1_loop (IIR_directFormI F) ins (setInitialDataFilter e1) =
        Some (spec_run (iir1_spec F (take (n + 1) b) (take n (drop 1 a))) ins (rev (take n xi), rev (take n yi)), s1)"
      "Thread1_loop (IIR_directFormII F) ins (setInitialDataFilter e2) =
        Some (spec_run (iir2_spec F (take (n + 1) b) (take n (drop 1 a))) ins (aux_hist F (take n (drop 1 a)) [hd xi] (take (n - 1) (drop 1 xi))), s2)"
    using fir.run [OF e0(2)] iir1.run [OF e1(2)] iir2.run [OF e2(2)] by blast
  then show ?thesis using e0(1) e1(1) e2(1) by (auto simp: Thread1_def)
qed

subsection \<open>Properties\<close>


text \<open>A first-order filter over the integers, with memory that never runs out.\<close>

definition int_ops :: "int fops" where
  "int_ops = \<lparr>f_zero = 0, f_add = (+), f_sub = (-), f_mul = (*)\<rparr>"

definition alloc0 :: "int \<Rightarrow> int list option" where
  "alloc0 n = Some (replicate (nat n) 0)"

definition raw_data :: "int \<Rightarrow> int data_filter" where
  "raw_data g = \<lparr>FilterOrder = g, ArrayCoefficientsB = [], ArrayInputsX = [], ArrayCoefficientsA = [], ArrayInputsY = []\<rparr>"


text \<open>Each sample advances the buffer by one and keeps the sizes, if it is accepted at all.\<close>

lemma IIR_directFormI_grows:
  assumes "ContBuffer s \<noteq> BUFFER_SIZE" "IIR_directFormI F x s = Some (r, s')"
  shows "FilterOrder (InitialDataFilter s) + ContBuffer s < int (length (ArrayInputsX (InitialDataFilter s)))"
    "length (ArrayInputsX (InitialDataFilter s')) = length (ArrayInputsX (InitialDataFilter s))"
    "FilterOrder (InitialDataFilter s') = FilterOrder (InitialDataFilter s)" "ContBuffer s' = ContBuffer s + 1"
  using assms by (auto simp: IIR_directFormI_def Let_def arr_set_def bind_eq_Some_conv split: if_splits)

text \<open>
  C32. The constructors of the filter data read the order of the filter before they set it. If the object's memory
  holds 0 there, as fresh memory does, the arrays for the samples have only \<open>BUFFER_SIZE\<close> places, and the filter
  thread writes past their end: with a filter of order \<open>n\<close> at the latest at sample \<open>11 - n\<close>.
\<close>

theorem dsp_uninitialised_order_overflow:
  assumes "alloc_ok alloc" "FilterOrder d0 = 0" "newDataFilter_IIR1 alloc (int n) xi b yi a d0 = Some d"
    "1 \<le> n" "n \<le> 10" "11 - n \<le> length ins"
  shows "Thread1 F 1 ins d = None"
proof -
  have d: "length (ArrayInputsX d) = 10" "FilterOrder d = int n"
  proof -
    have len: "length d' = length dst" if "copy_loop k off c src dst = Some d'" for k off c src and dst d' :: "'a list"
      using that by (induction k off c src dst rule: copy_loop.induct)
        (subst (asm) copy_loop.simps, auto simp: arr_set_def bind_eq_Some_conv split: if_splits)
    obtain x where "alloc 10 = Some x" "length x = 10" using alloc_okD [OF assms(1), of 10] by auto
    then show "length (ArrayInputsX d) = 10" "FilterOrder d = int n"
      using assms(2,3) by (auto simp: newDataFilter_IIR1_def Let_def setFilterOrder_def setArrayInitialConditionsX_def
          setArrayCoefficientsB_def setArrayInitialConditionsY_def setArrayCoefficientsA_def BUFFER_SIZE_def bind_eq_Some_conv dest!: len)
  qed
  have "Thread1_loop (IIR_directFormI F) ins s = None"
    if "ContBuffer s = int c" "c \<le> 10 - n" "length (ArrayInputsX (InitialDataFilter s)) = 10"
      "FilterOrder (InitialDataFilter s) = int n" "10 - n < c + length ins" for s c
    using that
  proof (induction ins arbitrary: s c)
    case (Cons x ins)
    show ?case
    proof (cases "IIR_directFormI F x s")
      case (Some rs)
      obtain r s' where rs: "rs = (r, s')" by (cases rs)
      have nb: "ContBuffer s \<noteq> BUFFER_SIZE" using Cons.prems(1,2) assms(4) by (simp add: BUFFER_SIZE_def)
      note g = IIR_directFormI_grows [OF nb Some [unfolded rs]]
      have "c + 1 \<le> 10 - n" using g(1) Cons.prems by simp
      then have "Thread1_loop (IIR_directFormI F) ins s' = None" using g Cons.prems by (intro Cons.IH [of s' "c + 1"]) auto
      then show ?thesis using Some rs by simp
    qed simp
  qed simp
  from this [of "setInitialDataFilter d" 0] show ?thesis
    using d assms(4-6) by (simp add: Thread1_def setInitialDataFilter_def)
qed

theorem dsp_uninitialised_order_overflow_witness:
  "\<exists>d. newDataFilter_IIR1 alloc0 3 [1, 2, 3] [1, 1, 1, 1] [1, 2, 3] [1, 1, 1, 1] (raw_data 0) = Some d \<and>
     Thread1 int_ops 1 (replicate 50 1) d = None"
proof -
  have al: "alloc_ok alloc0" by (simp add: alloc_ok_def alloc0_def)
  have "\<exists>d. newDataFilter_IIR1 alloc0 3 [1, 2, 3] [1, 1, 1, 1] [1, 2, 3] [1, 1, 1, 1] (raw_data 0) = Some d"
    by (simp add: newDataFilter_IIR1_def alloc0_def raw_data_def setFilterOrder_def setArrayInitialConditionsX_def
        setArrayCoefficientsB_def setArrayInitialConditionsY_def setArrayCoefficientsA_def BUFFER_SIZE_def copy_loop.simps
        arr_get_def arr_set_def Let_def eval_nat_numeral)
  then show ?thesis
    using dsp_uninitialised_order_overflow [OF al, of "raw_data 0" 3 _ _ _ _ _ "replicate 50 1" int_ops] by (auto simp: raw_data_def)
qed

subsection \<open>Direct form I and direct form II\<close>

text \<open>Over a commutative ring: the operations, and histories as functions of the delay.\<close>

definition ring_ops :: "'a :: comm_ring_1 fops" where
  "ring_ops = \<lparr>f_zero = 0, f_add = (+), f_sub = (-), f_mul = (*)\<rparr>"

lemma wsum_ring: "length ys = length cs \<Longrightarrow> wsum ring_ops acc cs ys = acc + (\<Sum>i < length cs. cs ! i * ys ! i)"
proof (induction cs arbitrary: ys acc)
  case (Cons c cs)
  then obtain y ys' where ys: "ys = y # ys'" by (cases ys) auto
  have "(\<Sum>i < Suc (length cs). (c # cs) ! i * (y # ys') ! i) = c * y + (\<Sum>i < length cs. cs ! i * ys' ! i)"
    by (simp add: sum.lessThan_Suc_shift del: sum.lessThan_Suc)
  then show ?case using Cons ys by (simp add: ring_ops_def ac_simps del: sum.lessThan_Suc)
qed simp

text \<open>
  \<open>df_hist\<close>: the two histories of direct form I, of inputs and outputs, belong to the history \<open>v\<close> of direct form II:
  inputs are \<open>v\<close> filtered by the poles, outputs \<open>v\<close> filtered by the zeros. \<open>v\<close> is taken far enough into the past.
\<close>

definition df_hist :: "'a :: comm_ring_1 list \<Rightarrow> 'a list \<Rightarrow> 'a list \<Rightarrow> 'a list \<Rightarrow> (nat \<Rightarrow> 'a) \<Rightarrow> bool" where
  "df_hist bs as px py v \<longleftrightarrow>
     length as = length px \<and> length bs = length px + 1 \<and> length py = length px \<and>
     (\<forall>j < length px. px ! j = v j + (\<Sum>k < length px. as ! k * v (j + 1 + k))) \<and>
     (\<forall>j < length px. py ! j = (\<Sum>k < length px + 1. bs ! k * v (j + k)))"

lemma df_step:
  fixes v :: "nat \<Rightarrow> 'a :: comm_ring_1" and x :: 'a
  assumes h: "df_hist bs as px py v" and n: "length px = n" and pv: "length pv = n" "\<forall>j < n. pv ! j = v j"
  defines "w \<equiv> x - (\<Sum>k < n. as ! k * v k)"
  shows "fst (iir1_spec ring_ops bs as x (px, py)) = fst (iir2_spec ring_ops bs as x pv)" (is ?eq)
    and "fst (iir2_spec ring_ops bs as x pv) = (\<Sum>k < n + 1. bs ! k * (case_nat w v) k)" (is ?out)
    and "snd (iir2_spec ring_ops bs as x pv) = take n (w # pv)"
proof -
  have l: "length as = n" "length bs = n + 1" "length py = n" using h n by (auto simp: df_hist_def)
  have px: "px ! j = v j + (\<Sum>k < n. as ! k * v (j + 1 + k))" and py: "py ! j = (\<Sum>k < n + 1. bs ! k * v (j + k))" if "j < n" for j
    using h n that by (auto simp: df_hist_def)
  have wv: "f_sub ring_ops x (wsum ring_ops (f_zero ring_ops) as pv) = w"
    using wsum_ring [of pv as 0] l pv by (simp add: ring_ops_def w_def)
  have nth: "(w # pv) ! k = case_nat w v k" if "k < n + 1" for k using pv that by (cases k) auto
  have "wsum ring_ops 0 bs (w # pv) = (\<Sum>k < n + 1. bs ! k * (w # pv) ! k)" using wsum_ring [of "w # pv" bs 0] l pv(1) by simp
  also have "\<dots> = (\<Sum>k < n + 1. bs ! k * case_nat w v k)" using nth by (intro sum.cong) auto
  finally have o2: "wsum ring_ops 0 bs (w # pv) = (\<Sum>k < n + 1. bs ! k * case_nat w v k)" .
  then show ?out using wv by (simp add: iir2_spec_def Let_def ring_ops_def)
  show "snd (iir2_spec ring_ops bs as x pv) = take n (w # pv)" using wv pv(1) by (simp add: iir2_spec_def Let_def)
  have "(x # px) ! k = case_nat w v k + (\<Sum>i < n. as ! i * v (k + i))" if "k < n + 1" for k
    using px that by (cases k) (simp_all add: w_def)
  then have "(\<Sum>k < n + 1. bs ! k * (x # px) ! k) = (\<Sum>k < n + 1. bs ! k * (case_nat w v k + (\<Sum>i < n. as ! i * v (k + i))))"
    by (intro sum.cong) auto
  with wsum_ring [of "x # px" bs 0] l n
  have "wsum ring_ops 0 bs (x # px) = (\<Sum>k < n + 1. bs ! k * (case_nat w v k + (\<Sum>i < n. as ! i * v (k + i))))"
    by (simp del: sum.lessThan_Suc nth_Cons_Suc)
  also have "\<dots> = (\<Sum>k < n + 1. bs ! k * case_nat w v k) + (\<Sum>k < n + 1. \<Sum>i < n. bs ! k * (as ! i * v (k + i)))"
    by (simp add: distrib_left sum.distrib sum_distrib_left del: sum.lessThan_Suc)
  also have "(\<Sum>k < n + 1. \<Sum>i < n. bs ! k * (as ! i * v (k + i))) = (\<Sum>i < n. \<Sum>k < n + 1. bs ! k * (as ! i * v (k + i)))"
    by (rule sum.swap)
  also have "\<dots> = (\<Sum>i < n. as ! i * py ! i)"
    using py by (intro sum.cong) (auto simp: sum_distrib_left ac_simps simp del: sum.lessThan_Suc)
  finally have "wsum ring_ops 0 bs (x # px) - wsum ring_ops 0 as py = (\<Sum>k < n + 1. bs ! k * case_nat w v k)"
    using wsum_ring [of py as 0] l by simp
  then show ?eq using o2 wv by (simp add: iir1_spec_def iir2_spec_def Let_def ring_ops_def)
qed

lemma df_hist_step:
  fixes v :: "nat \<Rightarrow> 'a :: comm_ring_1" and x :: 'a
  assumes h: "df_hist bs as px py v" and n: "length px = n"
  defines "w \<equiv> x - (\<Sum>k < n. as ! k * v k)"
  defines "y \<equiv> (\<Sum>k < n + 1. bs ! k * (case_nat w v) k)"
  shows "df_hist bs as (take n (x # px)) (take n (y # py)) (case_nat w v)"
proof -
  have l: "length as = n" "length bs = n + 1" "length py = n" using h n by (auto simp: df_hist_def)
  have px: "px ! j = v j + (\<Sum>k < n. as ! k * v (j + 1 + k))" and py: "py ! j = (\<Sum>k < n + 1. bs ! k * v (j + k))" if "j < n" for j
    using h n that by (auto simp: df_hist_def)
  have "(x # px) ! j = case_nat w v j + (\<Sum>k < n. as ! k * case_nat w v (j + 1 + k))" if "j < n" for j
    using px [of "j - 1"] that by (cases j) (simp_all add: w_def)
  moreover have "(y # py) ! j = (\<Sum>k < n + 1. bs ! k * case_nat w v (j + k))" if "j < n" for j
    using py [of "j - 1"] that by (cases j) (simp_all add: y_def del: sum.lessThan_Suc)
  ultimately show ?thesis using l n by (simp add: df_hist_def del: sum.lessThan_Suc)
qed

lemma df_run:
  fixes v :: "nat \<Rightarrow> 'a :: comm_ring_1"
  assumes "df_hist bs as px py v" "pv = map v [0..<length px]"
  shows "spec_run (iir1_spec ring_ops bs as) ins (px, py) = spec_run (iir2_spec ring_ops bs as) ins pv"
  using assms
proof (induction ins arbitrary: px py pv v)
  case (Cons x ins)
  define n where "n = length px"
  define w where "w = x - (\<Sum>k < n. as ! k * v k)"
  define y where "y = (\<Sum>k < n + 1. bs ! k * (case_nat w v) k)"
  have pv: "length pv = n" "\<forall>j < n. pv ! j = v j" using Cons.prems(2) by (auto simp: n_def)
  note st = df_step [OF Cons.prems(1) n_def [symmetric] pv, of x, folded w_def] and
    hs = df_hist_step [OF Cons.prems(1) n_def [symmetric], of x, folded w_def, folded y_def]
  have "length py = n" using Cons.prems(1) by (simp add: df_hist_def n_def)
  moreover have "fst (iir1_spec ring_ops bs as x (px, py)) = y" using st(1,2) by (simp add: y_def)
  ultimately have s1: "snd (iir1_spec ring_ops bs as x (px, py)) = (take n (x # px), take n (y # py))"
    by (simp add: iir1_spec_def Let_def n_def)
  have "take n (w # pv) = map (case_nat w v) [0..<length (take n (x # px))]"
    using pv by (intro nth_equalityI) (auto simp: n_def nth_Cons split: nat.splits)
  then have "spec_run (iir1_spec ring_ops bs as) ins (take n (x # px), take n (y # py)) =
      spec_run (iir2_spec ring_ops bs as) ins (take n (w # pv))"
    using Cons.IH [OF hs] by blast
  then show ?case using st s1 by simp
qed simp

lemma wsum_zeros: "wsum ring_ops 0 cs (replicate m (0 :: 'a :: comm_ring_1)) = 0"
proof (induction m arbitrary: cs)
  case (Suc m)
  then show ?case by (cases cs) (auto simp: ring_ops_def)
qed simp

lemma aux_hist_zeros:
  "aux_hist ring_ops as (replicate m (0 :: 'a :: comm_ring_1)) (replicate k 0) = replicate (m + k) 0"
proof (induction k arbitrary: m)
  case (Suc k)
  from Suc [of "Suc m"] show ?case using wsum_zeros [of as m] by (simp add: ring_ops_def)
qed simp



end
