(* ===== verification/NilKernel.thy ===== *)
theory NilKernel
  imports ChTypes
begin

text \<open>
  The second kernel of the repository, ChibiOS/NIL (\<open>os/nil\<close>): a fixed table of threads whose position is their priority, counting
  semaphores, thread references, events and time-outs, for both timer modes. The table entry behind the last thread is
  the idle thread. Objects are named by their addresses, words of 32 bits, because \<open>u1\<close> is a union of a message, an address and
  an event mask that the code compares without asking which one it holds. Assertions are enabled: a failed one is \<open>None\<close>.
\<close>

unbundle bit_operations_syntax

subsection \<open>Data\<close>

datatype nil_tstate = NIL_STATE_READY | NIL_STATE_SLEEPING | NIL_STATE_SUSP | NIL_STATE_WTSEM | NIL_STATE_WTOREVT

record nil_thread =
  nt_state :: nil_tstate
  u1 :: "32 word"
  timeout :: systime_t
  epmask :: eventmask_t

text \<open>The options \<open>NIL_CFG_NUM_THREADS\<close> and \<open>NIL_CFG_ST_TIMEDELTA\<close>; a delta of 0 is the mode with a periodic tick.\<close>

record nil_config =
  NUM_THREADS :: nat
  TIMEDELTA :: systime_t

text \<open>\<open>n_sem\<close> and \<open>n_ref\<close> are the semaphores and thread references in memory; \<open>n_time\<close> and \<open>n_alarm\<close> the timer of the port.\<close>

record nil_system =
  n_current :: nat
  n_next :: nat
  n_systime :: systime_t
  n_lasttime :: systime_t
  n_nexttime :: systime_t
  threads :: "nat \<Rightarrow> nil_thread"
  n_sem :: "32 word \<Rightarrow> cnt_t"
  n_ref :: "32 word \<Rightarrow> nat option"
  n_locked :: bool
  n_time :: systime_t
  n_alarm :: "systime_t option"

definition NIL_MSG_OK :: "32 word" where "NIL_MSG_OK = 0"
definition NIL_MSG_TIMEOUT :: "32 word" where "NIL_MSG_TIMEOUT = - 1"
definition NIL_MSG_RESET :: "32 word" where "NIL_MSG_RESET = - 2"
definition NIL_TIME_IMMEDIATE :: systime_t where "NIL_TIME_IMMEDIATE = - 1"
definition NIL_TIME_INFINITE :: systime_t where "NIL_TIME_INFINITE = 0"

lemmas nil_consts = NIL_MSG_OK_def NIL_MSG_TIMEOUT_def NIL_MSG_RESET_def NIL_TIME_IMMEDIATE_def NIL_TIME_INFINITE_def

abbreviation nstate :: "nil_system \<Rightarrow> nat \<Rightarrow> nil_tstate" where
  "nstate s t \<equiv> nt_state (threads s t)"

abbreviation upd_nt :: "nat \<Rightarrow> (nil_thread \<Rightarrow> nil_thread) \<Rightarrow> nil_system \<Rightarrow> nil_system" where
  "upd_nt t f s \<equiv> s\<lparr>threads := (threads s)(t := f (threads s t))\<rparr>"

abbreviation set_sem :: "32 word \<Rightarrow> cnt_t \<Rightarrow> nil_system \<Rightarrow> nil_system" where
  "set_sem a n s \<equiv> s\<lparr>n_sem := (n_sem s)(a := n)\<rparr>"

abbreviation set_ref :: "32 word \<Rightarrow> nat option \<Rightarrow> nil_system \<Rightarrow> nil_system" where
  "set_ref a t s \<equiv> s\<lparr>n_ref := (n_ref s)(a := t)\<rparr>"

subsection \<open>Critical zones and time\<close>

text \<open>\<open>port_lock\<close> and \<open>port_unlock\<close> write the interrupt mask, whatever it was before.\<close>

definition nil_chSysLock :: "nil_system \<Rightarrow> nil_system" where "nil_chSysLock s = s\<lparr>n_locked := True\<rparr>"
definition nil_chSysUnlock :: "nil_system \<Rightarrow> nil_system" where "nil_chSysUnlock s = s\<lparr>n_locked := False\<rparr>"

definition nil_chSysUnconditionalLock :: "nil_system \<Rightarrow> nil_system" where
  "nil_chSysUnconditionalLock s = (if \<not> n_locked s then nil_chSysLock s else s)"

definition nil_chSysUnconditionalUnlock :: "nil_system \<Rightarrow> nil_system" where
  "nil_chSysUnconditionalUnlock s = (if n_locked s then nil_chSysUnlock s else s)"

definition nil_chVTGetSystemTimeX :: "nil_config \<Rightarrow> nil_system \<Rightarrow> systime_t" where
  "nil_chVTGetSystemTimeX c s = (if TIMEDELTA c = 0 then n_systime s else n_time s)"

definition nil_chVTTimeElapsedSinceX :: "nil_config \<Rightarrow> systime_t \<Rightarrow> nil_system \<Rightarrow> systime_t" where
  "nil_chVTTimeElapsedSinceX c start s = nil_chVTGetSystemTimeX c s - start"

definition nil_chVTIsTimeWithinX :: "systime_t \<Rightarrow> systime_t \<Rightarrow> systime_t \<Rightarrow> bool" where
  "nil_chVTIsTimeWithinX time start fin \<longleftrightarrow> time - start < fin - start"

definition nil_chSysIsCounterWithinX :: "32 word \<Rightarrow> 32 word \<Rightarrow> 32 word \<Rightarrow> bool" where
  "nil_chSysIsCounterWithinX cnt start fin \<longleftrightarrow> cnt - start < fin - start"

subsection \<open>The scheduler\<close>

definition nil_chSchReadyI :: "nil_config \<Rightarrow> nat \<Rightarrow> 32 word \<Rightarrow> nil_system \<Rightarrow> nil_system option" where
  "nil_chSchReadyI c tp msg s =
     do { assert_that (tp < NUM_THREADS c);
          assert_that (nstate s tp \<noteq> NIL_STATE_READY);
          assert_that (n_next s \<le> n_current s);
          let s = upd_nt tp (\<lambda>t. t\<lparr>u1 := msg, nt_state := NIL_STATE_READY, timeout := 0\<rparr>) s;
          Some (if tp < n_next s then s\<lparr>n_next := tp\<rparr> else s) }"

definition nil_chSchIsRescRequiredI :: "nil_system \<Rightarrow> bool" where
  "nil_chSchIsRescRequiredI s \<longleftrightarrow> n_current s \<noteq> n_next s"

definition nil_chSchRescheduleS :: "nil_system \<Rightarrow> unit outcome \<times> nil_system" where
  "nil_chSchRescheduleS s =
     (if nil_chSchIsRescRequiredI s then (Switched, s\<lparr>n_current := n_next s\<rparr>) else (Done (), s))"

text \<open>The scan of \<open>chSchGoSleepTimeoutS\<close> for the first ready thread.\<close>

function nil_scan :: "nil_config \<Rightarrow> nat \<Rightarrow> nil_system \<Rightarrow> nat option" where
  "nil_scan c ntp s =
     (if nstate s ntp = NIL_STATE_READY then Some ntp
      else if ntp + 1 \<le> NUM_THREADS c then nil_scan c (ntp + 1) s else None)"
  by pat_completeness auto
termination by (relation "measure (\<lambda>(c, i, s). NUM_THREADS c - i)") auto

declare nil_scan.simps [simp del]

text \<open>The time-out settings of \<open>chSchGoSleepTimeoutS\<close>, with and without tick.\<close>

definition nil_set_timeout :: "nil_config \<Rightarrow> nat \<Rightarrow> systime_t \<Rightarrow> nil_system \<Rightarrow> nil_system" where
  "nil_set_timeout c otp tmo s =
     (if TIMEDELTA c > 0
      then (if tmo \<noteq> NIL_TIME_INFINITE
            then let tmo = (if tmo < TIMEDELTA c then TIMEDELTA c else tmo);
                     abstime = nil_chVTGetSystemTimeX c s + tmo;
                     s = (if n_lasttime s = n_nexttime s \<or> nil_chVTIsTimeWithinX abstime (n_lasttime s) (n_nexttime s)
                          then s\<lparr>n_alarm := Some abstime, n_nexttime := abstime\<rparr> else s)
                 in upd_nt otp (\<lambda>t. t\<lparr>timeout := abstime - n_lasttime s\<rparr>) s
            else s)
      else upd_nt otp (\<lambda>t. t\<lparr>timeout := tmo\<rparr>) s)"

text \<open>The caller always sleeps; when it runs again it takes the message from \<open>u1\<close>.\<close>

definition nil_chSchGoSleepTimeoutS :: "nil_config \<Rightarrow> nil_tstate \<Rightarrow> systime_t \<Rightarrow> nil_system \<Rightarrow> nil_system option" where
  "nil_chSchGoSleepTimeoutS c newstate tmo s =
     do { let otp = n_current s;
          assert_that (otp \<noteq> NUM_THREADS c);
          let s = nil_set_timeout c otp tmo (upd_nt otp (\<lambda>t. t\<lparr>nt_state := newstate\<rparr>) s);
          ntp \<leftarrow> nil_scan c 0 s;
          Some (s\<lparr>n_current := ntp, n_next := ntp\<rparr>) }"

definition nil_wakeup_msg :: "nil_system \<Rightarrow> 32 word" where
  "nil_wakeup_msg s = u1 (threads s (n_current s))"

definition nil_chSysRestoreStatusX :: "bool \<Rightarrow> bool \<Rightarrow> nil_system \<Rightarrow> unit outcome \<times> nil_system" where
  "nil_chSysRestoreStatusX isr enabled s =
     (if enabled
      then (if isr then (Done (), nil_chSysUnlock s)
            else (case nil_chSchRescheduleS s of (Done _, s) \<Rightarrow> (Done (), nil_chSysUnlock s) | (Switched, s) \<Rightarrow> (Switched, s)))
      else (Done (), s))"

definition nil_chSysGetStatusAndLockX :: "nil_system \<Rightarrow> bool \<times> nil_system" where
  "nil_chSysGetStatusAndLockX s = (\<not> n_locked s, if \<not> n_locked s then nil_chSysLock s else s)"

text \<open>The start: the structure is zeroed memory, all threads are ready.\<close>

definition nil_zero :: nil_system where
  "nil_zero = \<lparr>n_current = 0, n_next = 0, n_systime = 0, n_lasttime = 0, n_nexttime = 0,
     threads = (\<lambda>_. \<lparr>nt_state = NIL_STATE_READY, u1 = 0, timeout = 0, epmask = 0\<rparr>), n_sem = (\<lambda>_. 0), n_ref = (\<lambda>_. None),
     n_locked = True, n_time = 0, n_alarm = None\<rparr>"

definition nil_chSysInit :: "nil_system \<Rightarrow> nil_system" where
  "nil_chSysInit s = s\<lparr>n_current := 0, n_next := 0\<rparr>"

subsection \<open>The timer interrupt\<close>

text \<open>A time-out gives the semaphore its count back or clears the reference.\<close>

definition nil_timeout :: "nil_config \<Rightarrow> nat \<Rightarrow> nil_system \<Rightarrow> nil_system option" where
  "nil_timeout c tp s =
     do { s \<leftarrow> (if nstate s tp = NIL_STATE_WTSEM
                then do { n \<leftarrow> cnt_add (n_sem s (u1 (threads s tp))) 1; Some (set_sem (u1 (threads s tp)) n s) }
                else if nstate s tp = NIL_STATE_SUSP then Some (set_ref (u1 (threads s tp)) None s) else Some s);
          nil_chSchReadyI c tp NIL_MSG_TIMEOUT s }"

definition nil_tick_thread :: "nil_config \<Rightarrow> nat \<Rightarrow> nil_system \<Rightarrow> nil_system option" where
  "nil_tick_thread c tp s =
     (if timeout (threads s tp) > 0
      then do {
        assert_that (nstate s tp \<noteq> NIL_STATE_READY);
        let s = upd_nt tp (\<lambda>t. t\<lparr>timeout := timeout t - 1\<rparr>) s;
        if timeout (threads s tp) = 0 then nil_timeout c tp s else Some s }
      else Some s)"

definition nil_tickless_thread :: "nil_config \<Rightarrow> nat \<Rightarrow> systime_t \<times> nil_system \<Rightarrow> (systime_t \<times> nil_system) option" where
  "nil_tickless_thread c tp p = (case p of (nxt, s) \<Rightarrow>
     (if timeout (threads s tp) > 0
      then do {
        assert_that (nstate s tp \<noteq> NIL_STATE_READY);
        assert_that (timeout (threads s tp) \<ge> n_nexttime s - n_lasttime s);
        let s = upd_nt tp (\<lambda>t. t\<lparr>timeout := timeout t - (n_nexttime s - n_lasttime s)\<rparr>) s;
        if timeout (threads s tp) = 0 then do { s \<leftarrow> nil_timeout c tp s; Some (nxt, s) }
        else Some (if timeout (threads s tp) \<le> nxt - 1 then timeout (threads s tp) else nxt, s) }
      else Some (nxt, s)))"

text \<open>The lock is released between threads: \<open>isr tp\<close> is what other interrupts do after thread \<open>tp\<close> has been looked at.\<close>

fun nil_tick_loop :: "nil_config \<Rightarrow> (nat \<Rightarrow> nil_system \<Rightarrow> nil_system option) \<Rightarrow> nat list \<Rightarrow> nil_system \<Rightarrow> nil_system option" where
  "nil_tick_loop c isr [] s = Some s"
| "nil_tick_loop c isr (tp # tps) s = do { s \<leftarrow> nil_tick_thread c tp s; s \<leftarrow> isr tp s; nil_tick_loop c isr tps s }"

fun nil_tickless_loop :: "nil_config \<Rightarrow> (nat \<Rightarrow> nil_system \<Rightarrow> nil_system option) \<Rightarrow> nat list \<Rightarrow> systime_t \<times> nil_system \<Rightarrow>
    (systime_t \<times> nil_system) option" where
  "nil_tickless_loop c isr [] p = Some p"
| "nil_tickless_loop c isr (tp # tps) p =
     do { (nxt, s) \<leftarrow> nil_tickless_thread c tp p; s \<leftarrow> isr tp s; nil_tickless_loop c isr tps (nxt, s) }"

definition nil_chSysTimerHandlerI :: "nil_config \<Rightarrow> (nat \<Rightarrow> nil_system \<Rightarrow> nil_system option) \<Rightarrow> nil_system \<Rightarrow> nil_system option" where
  "nil_chSysTimerHandlerI c isr s =
     (if TIMEDELTA c = 0 then nil_tick_loop c isr [0..<NUM_THREADS c] (s\<lparr>n_systime := n_systime s + 1\<rparr>)
      else do {
        assert_that (n_alarm s = Some (n_nexttime s));
        (nxt, s) \<leftarrow> nil_tickless_loop c isr [0..<NUM_THREADS c] (0, s);
        let s = s\<lparr>n_lasttime := n_nexttime s\<rparr>;
        Some (if nxt > 0 then s\<lparr>n_nexttime := n_nexttime s + nxt, n_alarm := Some (n_nexttime s + nxt)\<rparr> else s\<lparr>n_alarm := None\<rparr>) })"

subsection \<open>Threads\<close>

definition nil_chThdSuspendTimeoutS :: "nil_config \<Rightarrow> 32 word \<Rightarrow> systime_t \<Rightarrow> nil_system \<Rightarrow> nil_system option" where
  "nil_chThdSuspendTimeoutS c trp tmo s =
     do { assert_that (n_ref s trp = None);
          let s = set_ref trp (Some (n_current s)) s;
          let s = upd_nt (n_current s) (\<lambda>t. t\<lparr>u1 := trp\<rparr>) s;
          nil_chSchGoSleepTimeoutS c NIL_STATE_SUSP tmo s }"

definition nil_chThdResumeI :: "nil_config \<Rightarrow> 32 word \<Rightarrow> 32 word \<Rightarrow> nil_system \<Rightarrow> nil_system option" where
  "nil_chThdResumeI c trp msg s =
     (case n_ref s trp of
        None \<Rightarrow> Some s
      | Some tr \<Rightarrow> do {
          assert_that (nstate s tr = NIL_STATE_SUSP);
          nil_chSchReadyI c tr msg (set_ref trp None s) })"

definition nil_chThdSleepS :: "nil_config \<Rightarrow> systime_t \<Rightarrow> nil_system \<Rightarrow> nil_system option" where
  "nil_chThdSleepS c tmo s = nil_chSchGoSleepTimeoutS c NIL_STATE_SLEEPING tmo s"

definition nil_chThdSleep :: "nil_config \<Rightarrow> systime_t \<Rightarrow> nil_system \<Rightarrow> nil_system option" where
  "nil_chThdSleep c tmo s = nil_chThdSleepS c tmo (nil_chSysLock s)"

definition nil_chThdSleepUntil :: "nil_config \<Rightarrow> systime_t \<Rightarrow> nil_system \<Rightarrow> nil_system option" where
  "nil_chThdSleepUntil c abstime s =
     (let s = nil_chSysLock s in nil_chThdSleepS c (abstime - nil_chVTGetSystemTimeX c s) s)"

subsection \<open>Semaphores\<close>

definition nil_chSemObjectInit :: "32 word \<Rightarrow> cnt_t \<Rightarrow> nil_system \<Rightarrow> nil_system" where "nil_chSemObjectInit sp n s = set_sem sp n s"
definition nil_chSemGetCounterI :: "32 word \<Rightarrow> nil_system \<Rightarrow> cnt_t" where "nil_chSemGetCounterI sp s = n_sem s sp"

definition nil_chSemWaitTimeoutS :: "nil_config \<Rightarrow> 32 word \<Rightarrow> systime_t \<Rightarrow> nil_system \<Rightarrow> (32 word outcome \<times> nil_system) option" where
  "nil_chSemWaitTimeoutS c sp tmo s =
     (let cnt = n_sem s sp
      in if cnt \<le> 0
         then (if NIL_TIME_IMMEDIATE = tmo then Some (Done NIL_MSG_TIMEOUT, s)
               else do {
                 n \<leftarrow> cnt_add cnt (- 1);
                 let s = upd_nt (n_current s) (\<lambda>t. t\<lparr>u1 := sp\<rparr>) (set_sem sp n s);
                 s \<leftarrow> nil_chSchGoSleepTimeoutS c NIL_STATE_WTSEM tmo s;
                 Some (Switched, s) })
         else Some (Done NIL_MSG_OK, set_sem sp (cnt - 1) s))"

definition nil_chSemWaitTimeout :: "nil_config \<Rightarrow> 32 word \<Rightarrow> systime_t \<Rightarrow> nil_system \<Rightarrow> (32 word outcome \<times> nil_system) option" where
  "nil_chSemWaitTimeout c sp tmo s =
     do { (out, s) \<leftarrow> nil_chSemWaitTimeoutS c sp tmo (nil_chSysLock s);
          (case out of Done m \<Rightarrow> Some (Done m, nil_chSysUnlock s) | Switched \<Rightarrow> Some (Switched, s)) }"

text \<open>The search for a thread that waits on the semaphore.\<close>

function nil_sem_find :: "nil_config \<Rightarrow> 32 word \<Rightarrow> nat \<Rightarrow> nil_system \<Rightarrow> nat option" where
  "nil_sem_find c sp tr s =
     (if u1 (threads s tr) = sp then do { assert_that (nstate s tr = NIL_STATE_WTSEM); Some tr }
      else if tr + 1 < NUM_THREADS c then nil_sem_find c sp (tr + 1) s else None)"
  by pat_completeness auto
termination by (relation "measure (\<lambda>(c, sp, i, s). NUM_THREADS c - i)") auto

declare nil_sem_find.simps [simp del]

definition nil_chSemSignalI :: "nil_config \<Rightarrow> 32 word \<Rightarrow> nil_system \<Rightarrow> nil_system option" where
  "nil_chSemSignalI c sp s =
     do { n \<leftarrow> cnt_add (n_sem s sp) 1;
          let s = set_sem sp n s;
          if n \<le> 0 then do { tr \<leftarrow> nil_sem_find c sp 0 s; nil_chSchReadyI c tr NIL_MSG_OK s } else Some s }"

text \<open>The thread-level forms: the critical zone, the operation, a reschedule.\<close>

definition nil_locked :: "(nil_system \<Rightarrow> nil_system option) \<Rightarrow> nil_system \<Rightarrow> (unit outcome \<times> nil_system) option" where
  "nil_locked f s =
     do { s \<leftarrow> f (nil_chSysLock s);
          (case nil_chSchRescheduleS s of (Done _, s) \<Rightarrow> Some (Done (), nil_chSysUnlock s) | (Switched, s) \<Rightarrow> Some (Switched, s)) }"

definition nil_chSemSignal :: "nil_config \<Rightarrow> 32 word \<Rightarrow> nil_system \<Rightarrow> (unit outcome \<times> nil_system) option" where
  "nil_chSemSignal c sp = nil_locked (nil_chSemSignalI c sp)"

function nil_sem_reset_loop :: "nil_config \<Rightarrow> 32 word \<Rightarrow> cnt_t \<Rightarrow> nat \<Rightarrow> nil_system \<Rightarrow> nil_system option" where
  "nil_sem_reset_loop c sp cnt tp s =
     (if cnt < 0
      then (if tp < NUM_THREADS c
            then (if u1 (threads s tp) = sp
                  then do {
                    assert_that (nstate s tp = NIL_STATE_WTSEM);
                    s \<leftarrow> nil_chSchReadyI c tp NIL_MSG_RESET s;
                    nil_sem_reset_loop c sp (cnt + 1) (tp + 1) s }
                  else nil_sem_reset_loop c sp cnt (tp + 1) s)
            else None)
      else Some s)"
  by pat_completeness auto
termination by (relation "measure (\<lambda>(c, sp, n, i, s). NUM_THREADS c - i)") auto

declare nil_sem_reset_loop.simps [simp del]

definition nil_chSemResetI :: "nil_config \<Rightarrow> 32 word \<Rightarrow> cnt_t \<Rightarrow> nil_system \<Rightarrow> nil_system option" where
  "nil_chSemResetI c sp n s = nil_sem_reset_loop c sp (n_sem s sp) 0 (set_sem sp n s)"

definition nil_chSemReset :: "nil_config \<Rightarrow> 32 word \<Rightarrow> cnt_t \<Rightarrow> nil_system \<Rightarrow> (unit outcome \<times> nil_system) option" where
  "nil_chSemReset c sp n = nil_locked (nil_chSemResetI c sp n)"

subsection \<open>Events\<close>

definition nil_chEvtSignalI :: "nil_config \<Rightarrow> nat \<Rightarrow> eventmask_t \<Rightarrow> nil_system \<Rightarrow> nil_system option" where
  "nil_chEvtSignalI c tp em s =
     (let s = upd_nt tp (\<lambda>t. t\<lparr>epmask := epmask t OR em\<rparr>) s
      in if nstate s tp = NIL_STATE_WTOREVT \<and> epmask (threads s tp) AND u1 (threads s tp) \<noteq> 0
         then nil_chSchReadyI c tp NIL_MSG_OK s else Some s)"

definition nil_chEvtSignal :: "nil_config \<Rightarrow> nat \<Rightarrow> eventmask_t \<Rightarrow> nil_system \<Rightarrow> (unit outcome \<times> nil_system) option" where
  "nil_chEvtSignal c tp em = nil_locked (nil_chEvtSignalI c tp em)"

text \<open>The branches that find no event leave the critical zone, although the caller entered it.\<close>

definition nil_take_events :: "nat \<Rightarrow> eventmask_t \<Rightarrow> nil_system \<Rightarrow> eventmask_t outcome \<times> nil_system" where
  "nil_take_events ctp em s =
     (let m = epmask (threads s ctp) AND em in (Done m, upd_nt ctp (\<lambda>t. t\<lparr>epmask := epmask t AND NOT m\<rparr>) s))"

definition nil_chEvtWaitAnyTimeoutS ::
  "nil_config \<Rightarrow> eventmask_t \<Rightarrow> systime_t \<Rightarrow> nil_system \<Rightarrow> (eventmask_t outcome \<times> nil_system) option" where
  "nil_chEvtWaitAnyTimeoutS c em tmo s =
     (if epmask (threads s (n_current s)) AND em = 0
      then (if NIL_TIME_IMMEDIATE = tmo then Some (Done 0, nil_chSysUnlock s)
            else do {
              s \<leftarrow> nil_chSchGoSleepTimeoutS c NIL_STATE_WTOREVT tmo (upd_nt (n_current s) (\<lambda>t. t\<lparr>u1 := em\<rparr>) s);
              Some (Switched, s) })
      else Some (nil_take_events (n_current s) em s))"

definition nil_chEvtWaitAnyTimeoutS_resume :: "eventmask_t \<Rightarrow> nil_system \<Rightarrow> eventmask_t outcome \<times> nil_system" where
  "nil_chEvtWaitAnyTimeoutS_resume em s =
     (if sint (nil_wakeup_msg s) < 0 then (Done 0, nil_chSysUnlock s) else nil_take_events (n_current s) em s)"

definition nil_chEvtWaitAnyTimeout ::
  "nil_config \<Rightarrow> eventmask_t \<Rightarrow> systime_t \<Rightarrow> nil_system \<Rightarrow> (eventmask_t outcome \<times> nil_system) option" where
  "nil_chEvtWaitAnyTimeout c em tmo s =
     do { (out, s) \<leftarrow> nil_chEvtWaitAnyTimeoutS c em tmo (nil_chSysLock s);
          (case out of Done m \<Rightarrow> Some (Done m, nil_chSysUnlock s) | Switched \<Rightarrow> Some (Switched, s)) }"

subsection \<open>Invariants\<close>

text \<open>
  \<open>S\<close> is the set of addresses of semaphores. The scheduler: \<open>next\<close> is the first ready thread and not behind the running one. The objects: a
  thread waits on a semaphore exactly when its \<open>u1\<close> is the address of one, as many as \<open>w\<close> says; references and suspended
  threads point at each other; nobody sleeps on events that are pending. The timer: no time-out is due before the alarm.
\<close>

definition nil_sched :: "nil_config \<Rightarrow> nil_system \<Rightarrow> bool" where
  "nil_sched c s \<longleftrightarrow> n_next s \<le> n_current s \<and> n_current s \<le> NUM_THREADS c \<and> nstate s (n_next s) = NIL_STATE_READY \<and>
     (\<forall>t < n_next s. nstate s t \<noteq> NIL_STATE_READY) \<and> nstate s (n_current s) = NIL_STATE_READY \<and>
     nstate s (NUM_THREADS c) = NIL_STATE_READY \<and> (\<forall>t. nstate s t = NIL_STATE_READY \<longrightarrow> timeout (threads s t) = 0)"

definition waiters :: "nil_config \<Rightarrow> nil_system \<Rightarrow> 32 word \<Rightarrow> nat set" where
  "waiters c s a = {t. t < NUM_THREADS c \<and> nstate s t = NIL_STATE_WTSEM \<and> u1 (threads s t) = a}"

definition nil_objs :: "nil_config \<Rightarrow> 32 word set \<Rightarrow> (32 word \<Rightarrow> nat) \<Rightarrow> nil_system \<Rightarrow> bool" where
  "nil_objs c S w s \<longleftrightarrow> (\<forall>a \<in> S. card (waiters c s a) = w a) \<and>
     (\<forall>t < NUM_THREADS c. nstate s t = NIL_STATE_WTSEM \<longleftrightarrow> u1 (threads s t) \<in> S) \<and>
     (\<forall>a t. n_ref s a = Some t \<longrightarrow> t < NUM_THREADS c \<and> nstate s t = NIL_STATE_SUSP \<and> u1 (threads s t) = a) \<and>
     (\<forall>t < NUM_THREADS c. nstate s t = NIL_STATE_SUSP \<longrightarrow> n_ref s (u1 (threads s t)) = Some t) \<and>
     (\<forall>t < NUM_THREADS c. nstate s t = NIL_STATE_WTOREVT \<longrightarrow> epmask (threads s t) AND u1 (threads s t) = 0)"

definition nil_core :: "nil_config \<Rightarrow> 32 word set \<Rightarrow> nil_system \<Rightarrow> bool" where
  "nil_core c S s \<longleftrightarrow> nil_sched c s \<and> nil_objs c S (\<lambda>a. nat (- n_sem s a)) s \<and> (\<forall>a \<in> S. cnt_fits (n_sem s a))"

definition nil_timers :: "nil_config \<Rightarrow> nil_system \<Rightarrow> bool" where
  "nil_timers c s \<longleftrightarrow> TIMEDELTA c = 0 \<or>
     (\<forall>t < NUM_THREADS c. timeout (threads s t) > 0 \<longrightarrow> n_nexttime s - n_lasttime s \<le> timeout (threads s t) \<and> n_nexttime s \<noteq> n_lasttime s) \<and>
     n_alarm s = (if n_nexttime s = n_lasttime s then None else Some (n_nexttime s))"

lemma finite_waiters [simp]: "finite (waiters c s a)"
  by (simp add: waiters_def)

lemma nil_objs_cong:
  assumes "nil_objs c S w s" "\<And>t. t < NUM_THREADS c \<Longrightarrow> nstate s' t = nstate s t \<and> u1 (threads s' t) = u1 (threads s t) \<and> epmask (threads s' t) = epmask (threads s t)"
    and "n_ref s' = n_ref s" "\<And>a. a \<in> S \<Longrightarrow> w' a = w a"
  shows "nil_objs c S w' s'"
proof -
  have "waiters c s' a = waiters c s a" for a using assms(2) by (auto simp: waiters_def)
  then show ?thesis using assms unfolding nil_objs_def by simp
qed

lemma nil_core_cong:
  assumes "nil_core c S s" "\<And>t. nstate s' t = nstate s t \<and> u1 (threads s' t) = u1 (threads s t) \<and> epmask (threads s' t) = epmask (threads s t)"
    and "\<And>t. nstate s t = NIL_STATE_READY \<Longrightarrow> timeout (threads s' t) = 0"
    and "n_ref s' = n_ref s" "n_sem s' = n_sem s" "n_current s' = n_current s" "n_next s' = n_next s"
  shows "nil_core c S s'"
  using assms nil_objs_cong [of c S "\<lambda>a. nat (- n_sem s a)" s s'] unfolding nil_core_def by (simp add: nil_sched_def)

subsection \<open>Making a thread ready\<close>

definition nil_woken :: "nat \<Rightarrow> 32 word \<Rightarrow> nil_system \<Rightarrow> nil_system" where
  "nil_woken t m s = (upd_nt t (\<lambda>t. t\<lparr>u1 := m, nt_state := NIL_STATE_READY, timeout := 0\<rparr>) s)\<lparr>n_next := min t (n_next s)\<rparr>"

lemma nil_woken_simps [simp]:
  "threads (nil_woken t m s) = (threads s)(t := (threads s t)\<lparr>u1 := m, nt_state := NIL_STATE_READY, timeout := 0\<rparr>)"
  "n_next (nil_woken t m s) = min t (n_next s)" "n_current (nil_woken t m s) = n_current s" "n_sem (nil_woken t m s) = n_sem s"
  "n_ref (nil_woken t m s) = n_ref s" "n_nexttime (nil_woken t m s) = n_nexttime s" "n_lasttime (nil_woken t m s) = n_lasttime s"
  "n_alarm (nil_woken t m s) = n_alarm s" "n_systime (nil_woken t m s) = n_systime s" "n_time (nil_woken t m s) = n_time s"
  "n_locked (nil_woken t m s) = n_locked s"
  by (simp_all add: nil_woken_def)

lemma nil_chSchReadyI_eq:
  "t < NUM_THREADS c \<Longrightarrow> nstate s t \<noteq> NIL_STATE_READY \<Longrightarrow> n_next s \<le> n_current s \<Longrightarrow> nil_chSchReadyI c t m s = Some (nil_woken t m s)"
  by (auto simp: nil_chSchReadyI_def nil_woken_def min_def Let_def)

lemma nil_sched_woken:
  assumes "nil_sched c s" "t < NUM_THREADS c"
  shows "nil_sched c (nil_woken t m s)"
  using assms by (auto simp: nil_sched_def min_def)

text \<open>What waking a thread takes from the objects it waits on.\<close>

definition nil_release :: "nat \<Rightarrow> nil_system \<Rightarrow> nil_system" where
  "nil_release t s =
     (if nstate s t = NIL_STATE_WTSEM then set_sem (u1 (threads s t)) (n_sem s (u1 (threads s t)) + 1) s
      else if nstate s t = NIL_STATE_SUSP then set_ref (u1 (threads s t)) None s else s)"

lemma nil_release_simps [simp]:
  "threads (nil_release t s) = threads s" "n_next (nil_release t s) = n_next s" "n_current (nil_release t s) = n_current s"
  "n_nexttime (nil_release t s) = n_nexttime s" "n_lasttime (nil_release t s) = n_lasttime s" "n_alarm (nil_release t s) = n_alarm s"
  "n_systime (nil_release t s) = n_systime s" "n_time (nil_release t s) = n_time s" "n_locked (nil_release t s) = n_locked s"
  by (simp_all add: nil_release_def)

lemma waiters_woken:
  "waiters c (nil_woken t m s) a = waiters c s a - {t}"
  by (auto simp: waiters_def)

lemma nil_wtsem:
  assumes "nil_objs c S w s" "t < NUM_THREADS c" "nstate s t = NIL_STATE_WTSEM"
  shows "u1 (threads s t) \<in> S \<and> 0 < w (u1 (threads s t))"
proof -
  have a: "u1 (threads s t) \<in> S" using assms by (simp add: nil_objs_def)
  moreover have "t \<in> waiters c s (u1 (threads s t))" using assms(2,3) by (simp add: waiters_def)
  then have "0 < card (waiters c s (u1 (threads s t)))" by (metis card_gt_0_iff empty_iff finite_waiters)
  ultimately show ?thesis using assms(1) by (simp add: nil_objs_def)
qed

lemma nil_core_wtsem:
  assumes "nil_core c S s" "t < NUM_THREADS c" "nstate s t = NIL_STATE_WTSEM"
  shows "u1 (threads s t) \<in> S" "n_sem s (u1 (threads s t)) < 0" "cnt_fits (n_sem s (u1 (threads s t)) + 1)"
  using nil_wtsem [OF _ assms(2,3), of S "\<lambda>a. nat (- n_sem s a)"] assms(1) by (auto simp: nil_core_def cnt_fits_def)

lemma nil_objs_woken_sem:
  assumes o: "nil_objs c S w s" and t: "t < NUM_THREADS c" "nstate s t = NIL_STATE_WTSEM" and m: "m \<notin> S"
  shows "nil_objs c S (w(u1 (threads s t) := w (u1 (threads s t)) - 1)) (nil_woken t m s)"
proof -
  have "card (waiters c s a - {t}) = (if a = u1 (threads s t) then w a - 1 else w a)" if "a \<in> S" for a
    using o that t by (auto simp: nil_objs_def waiters_def card_Diff_singleton)
  moreover have "n_ref s a \<noteq> Some t" for a using o t(2) unfolding nil_objs_def by fastforce
  ultimately show ?thesis using o t m by (auto simp: nil_objs_def waiters_woken)
qed

lemma nil_objs_woken_other:
  assumes o: "nil_objs c S w s" and t: "t < NUM_THREADS c" "nstate s t \<noteq> NIL_STATE_WTSEM" and m: "m \<notin> S"
  shows "nil_objs c S w (nil_woken t m (nil_release t s))"
proof -
  let ?s = "nil_release t s"
  have w: "waiters c (nil_woken t m ?s) a = waiters c s a" for a
    using t(2) by (auto simp: waiters_def)
  have r: "n_ref ?s a = (if nstate s t = NIL_STATE_SUSP \<and> a = u1 (threads s t) then None else n_ref s a)" for a
    using t(2) by (simp add: nil_release_def)
  have in_ref: "t' < NUM_THREADS c \<and> nstate s t' = NIL_STATE_SUSP \<and> u1 (threads s t') = a" if "n_ref s a = Some t'" for a t'
    using o that by (simp add: nil_objs_def)
  have of_ref: "n_ref s (u1 (threads s t')) = Some t'" if "t' < NUM_THREADS c" "nstate s t' = NIL_STATE_SUSP" for t'
    using o that by (simp add: nil_objs_def)
  have "n_ref ?s a = Some t' \<Longrightarrow> t' \<noteq> t \<and> n_ref s a = Some t'" for a t' using r [of a] in_ref [of a t'] by (auto split: if_splits)
  then have 1: "n_ref ?s a = Some t' \<longrightarrow> t' < NUM_THREADS c \<and> t' \<noteq> t \<and> nstate s t' = NIL_STATE_SUSP \<and> u1 (threads s t') = a" for a t'
    using in_ref by blast
  have 2: "n_ref ?s (u1 (threads s t')) = Some t'" if "t' \<noteq> t" "t' < NUM_THREADS c" "nstate s t' = NIL_STATE_SUSP" for t'
    using of_ref [OF that(2,3)] of_ref [OF t(1)] r [of "u1 (threads s t')"] that(1) by auto
  show ?thesis unfolding nil_objs_def
  proof (intro conjI)
    show "\<forall>a \<in> S. card (waiters c (nil_woken t m ?s) a) = w a" using o w by (simp add: nil_objs_def)
    show "\<forall>x < NUM_THREADS c. (nstate (nil_woken t m ?s) x = NIL_STATE_WTSEM) = (u1 (threads (nil_woken t m ?s) x) \<in> S)"
      using o m by (simp add: nil_objs_def)
    show "\<forall>x < NUM_THREADS c. nstate (nil_woken t m ?s) x = NIL_STATE_WTOREVT \<longrightarrow>
        epmask (threads (nil_woken t m ?s) x) AND u1 (threads (nil_woken t m ?s) x) = 0" using o by (simp add: nil_objs_def)
  qed (use 1 2 in auto)
qed

lemma nil_core_woken:
  assumes s: "nil_core c S s" and t: "t < NUM_THREADS c" "nstate s t \<noteq> NIL_STATE_READY" and m: "m \<notin> S"
  shows "nil_core c S (nil_woken t m (nil_release t s))"
proof -
  have sc: "nil_sched c (nil_woken t m (nil_release t s))"
    using nil_sched_woken [of c "nil_release t s"] s t(1) by (simp add: nil_core_def nil_sched_def)
  show ?thesis
  proof (cases "nstate s t = NIL_STATE_WTSEM")
    case False
    then have "n_sem (nil_release t s) = n_sem s" by (simp add: nil_release_def)
    then show ?thesis using sc nil_objs_woken_other [OF _ t(1) False m] s by (simp add: nil_core_def)
  next
    case True
    let ?a = "u1 (threads s t)"
    have o: "nil_objs c S (\<lambda>a. nat (- n_sem s a)) s" using s by (simp add: nil_core_def)
    have "nat (- (n_sem s ?a + 1)) = nat (- n_sem s ?a) - 1" "cnt_fits (n_sem s ?a + 1)"
      using nil_core_wtsem [OF s t(1) True] by auto
    moreover have "nil_objs c S ((\<lambda>a. nat (- n_sem s a))(?a := nat (- n_sem s ?a) - 1)) (nil_woken t m s)"
      using nil_objs_woken_sem [OF o t(1) True m] by simp
    then have "nil_objs c S (\<lambda>a. nat (- n_sem (nil_woken t m (nil_release t s)) a)) (nil_woken t m (nil_release t s))"
      using calculation(1) by (elim nil_objs_cong) (simp_all add: nil_release_def True)
    ultimately show ?thesis using sc s by (simp add: nil_core_def nil_release_def True)
  qed
qed

lemma nil_timeout_eq:
  assumes s: "nil_core c S s" and t: "t < NUM_THREADS c" "nstate s t \<noteq> NIL_STATE_READY"
  shows "nil_timeout c t s = Some (nil_woken t NIL_MSG_TIMEOUT (nil_release t s))"
proof -
  have "n_next s \<le> n_current s" using s by (simp add: nil_core_def nil_sched_def)
  then have r: "nil_chSchReadyI c t NIL_MSG_TIMEOUT (nil_release t s) = Some (nil_woken t NIL_MSG_TIMEOUT (nil_release t s))"
    using t by (intro nil_chSchReadyI_eq) simp_all
  show ?thesis
  proof (cases "nstate s t = NIL_STATE_WTSEM")
    case True
    then show ?thesis using r nil_core_wtsem(3) [OF s t(1) True] by (simp add: nil_timeout_def nil_release_def)
  next
    case False
    then show ?thesis using r by (cases "nstate s t = NIL_STATE_SUSP") (simp_all add: nil_timeout_def nil_release_def)
  qed
qed

subsection \<open>Interrupt-level operations\<close>

text \<open>What they have in common: they keep the invariants, do not change the running thread or the clock, and at most end time-outs.\<close>

definition nil_calms :: "nil_system \<Rightarrow> nil_system \<Rightarrow> bool" where
  "nil_calms s s' \<longleftrightarrow> n_current s' = n_current s \<and> n_nexttime s' = n_nexttime s \<and> n_lasttime s' = n_lasttime s \<and> n_alarm s' = n_alarm s \<and>
     n_time s' = n_time s \<and> n_systime s' = n_systime s \<and> (\<forall>t. timeout (threads s' t) = timeout (threads s t) \<or> timeout (threads s' t) = 0)"

lemma nil_calms_refl [simp]: "nil_calms s s"
  by (simp add: nil_calms_def)

lemma nil_calms_trans: "nil_calms s s1 \<Longrightarrow> nil_calms s1 s2 \<Longrightarrow> nil_calms s s2"
  unfolding nil_calms_def by metis

lemma nil_calms_woken [simp]: "nil_calms s (nil_woken t m (nil_release t s))"
  by (simp add: nil_calms_def)

text \<open>Between calls the running thread is the first ready one.\<close>

definition nil_ok :: "nil_config \<Rightarrow> 32 word set \<Rightarrow> nil_system \<Rightarrow> bool" where
  "nil_ok c S s \<longleftrightarrow> nil_core c S s \<and> nil_timers c s \<and> n_current s = n_next s"

text \<open>The clock: since the last alarm no more time has passed than until the next one.\<close>

definition nil_clock :: "nil_config \<Rightarrow> nil_system \<Rightarrow> bool" where
  "nil_clock c s \<longleftrightarrow> TIMEDELTA c = 0 \<or> n_nexttime s = n_lasttime s \<or> n_time s - n_lasttime s \<le> n_nexttime s - n_lasttime s"

text \<open>The state the kernel is in between two calls.\<close>

definition nil_inv :: "nil_config \<Rightarrow> 32 word set \<Rightarrow> nil_system \<Rightarrow> bool" where
  "nil_inv c S s \<longleftrightarrow> nil_ok c S s \<and> nil_clock c s"

lemma nil_lock_simps [simp]:
  "nil_core c S (nil_chSysLock s) = nil_core c S s" "nil_core c S (nil_chSysUnlock s) = nil_core c S s"
  "nil_timers c (nil_chSysLock s) = nil_timers c s" "nil_timers c (nil_chSysUnlock s) = nil_timers c s"
  "threads (nil_chSysLock s) = threads s" "threads (nil_chSysUnlock s) = threads s" "n_sem (nil_chSysLock s) = n_sem s"
  "n_sem (nil_chSysUnlock s) = n_sem s" "n_ref (nil_chSysLock s) = n_ref s" "n_ref (nil_chSysUnlock s) = n_ref s"
  "n_current (nil_chSysLock s) = n_current s" "n_current (nil_chSysUnlock s) = n_current s"
  "n_next (nil_chSysLock s) = n_next s" "n_next (nil_chSysUnlock s) = n_next s"
  "nil_calms (nil_chSysLock s) s' = nil_calms s s'" "nil_clock c (nil_chSysLock s) = nil_clock c s" "nil_clock c (nil_chSysUnlock s) = nil_clock c s"
  by (simp_all add: nil_chSysLock_def nil_chSysUnlock_def nil_core_def nil_clock_def nil_timers_def nil_sched_def nil_objs_def waiters_def nil_calms_def)

lemma nil_inv_lock [simp]: "nil_inv c S (nil_chSysLock s) = nil_inv c S s" "nil_inv c S (nil_chSysUnlock s) = nil_inv c S s"
  by (simp_all add: nil_inv_def nil_ok_def)

lemma nil_timers_calms: "nil_timers c s \<Longrightarrow> nil_calms s s' \<Longrightarrow> nil_timers c s'"
  unfolding nil_timers_def nil_calms_def by (metis word_gt_0)

lemma nil_ok_resched:
  assumes "nil_core c S s" "nil_timers c s"
  shows "nil_ok c S (snd (nil_chSchRescheduleS s))"
  using assms nil_objs_cong [of c S "\<lambda>a. nat (- n_sem s a)" s "s\<lparr>n_current := n_next s\<rparr>" "\<lambda>a. nat (- n_sem s a)"]
  by (auto simp: nil_ok_def nil_chSchRescheduleS_def nil_chSchIsRescRequiredI_def nil_core_def nil_sched_def nil_timers_def)

lemma nil_inv_resched:
  assumes "nil_core c S s'" "nil_inv c S s" "nil_calms s s'"
  shows "nil_inv c S (snd (nil_chSchRescheduleS s'))"
proof -
  have "nil_clock c (snd (nil_chSchRescheduleS s'))"
    using assms by (auto simp: nil_inv_def nil_chSchRescheduleS_def nil_clock_def nil_calms_def)
  then show ?thesis using nil_ok_resched [OF assms(1)] nil_timers_calms assms by (auto simp: nil_inv_def nil_ok_def)
qed

text \<open>The contract of an operation of the interrupt level, and what follows for its use in a handler and in its thread-level form.\<close>

locale nil_iop =
  fixes c :: nil_config and S :: "32 word set" and pre :: "nil_system \<Rightarrow> bool" and f :: "nil_system \<Rightarrow> nil_system option"
  assumes returns: "nil_core c S s \<Longrightarrow> pre s \<Longrightarrow> \<exists>s'. f s = Some s' \<and> nil_core c S s' \<and> nil_calms s s'"
begin

lemma thread_level:
  assumes "nil_inv c S s" "pre (nil_chSysLock s)"
  shows "\<exists>out s'. nil_locked f s = Some (out, s') \<and> nil_inv c S s'"
proof -
  obtain s' where s': "f (nil_chSysLock s) = Some s'" "nil_core c S s'" "nil_calms s s'"
    using returns [of "nil_chSysLock s"] assms by (auto simp: nil_inv_def nil_ok_def)
  then have "nil_inv c S (snd (nil_chSchRescheduleS s'))" using nil_inv_resched assms(1) by blast
  then show ?thesis using s'(1) by (auto simp: nil_locked_def split: outcome.splits prod.splits)
qed

lemma interrupt_level:
  assumes "nil_inv c S s" "pre s"
  shows "\<exists>s'. f s = Some s' \<and> nil_inv c S (snd (nil_chSchRescheduleS s'))"
  using returns [of s] assms nil_inv_resched by (auto simp: nil_inv_def nil_ok_def)

end

lemma nil_sem_find_eq:
  "i \<le> t \<Longrightarrow> t < NUM_THREADS c \<Longrightarrow> u1 (threads s t) = sp \<Longrightarrow> nstate s t = NIL_STATE_WTSEM \<Longrightarrow> \<forall>j. i \<le> j \<and> j < t \<longrightarrow> u1 (threads s j) \<noteq> sp \<Longrightarrow>
   nil_sem_find c sp i s = Some t"
proof (induction "t - i" arbitrary: i)
  case 0
  then show ?case by (subst nil_sem_find.simps) simp
next
  case (Suc n)
  then have "nil_sem_find c sp (i + 1) s = Some t" by simp
  then show ?case using Suc by (subst nil_sem_find.simps) auto
qed

text \<open>A signal wakes the first, that is most urgent, thread that waits.\<close>

lemma nil_chSemSignalI_eq:
  assumes s: "nil_core c S s" and a: "sp \<in> S" "cnt_fits (n_sem s sp + 1)"
  shows "n_sem s sp \<ge> 0 \<Longrightarrow> nil_chSemSignalI c sp s = Some (set_sem sp (n_sem s sp + 1) s)"
    and "n_sem s sp < 0 \<Longrightarrow> t = Min (waiters c s sp) \<Longrightarrow>
      t \<in> waiters c s sp \<and> nil_chSemSignalI c sp s = Some (nil_woken t NIL_MSG_OK (nil_release t s))"
proof -
  show "n_sem s sp \<ge> 0 \<Longrightarrow> nil_chSemSignalI c sp s = Some (set_sem sp (n_sem s sp + 1) s)"
    using a(2) by (simp add: nil_chSemSignalI_def)
  assume n: "n_sem s sp < 0" and t: "t = Min (waiters c s sp)"
  let ?s = "set_sem sp (n_sem s sp + 1) s"
  have o: "nil_objs c S (\<lambda>a. nat (- n_sem s a)) s" "n_next s \<le> n_current s" using s by (simp_all add: nil_core_def nil_sched_def)
  then have "card (waiters c s sp) > 0" using a(1) n by (simp add: nil_objs_def)
  then have tw: "t \<in> waiters c s sp" using t by (metis Min_in card_gt_0_iff)
  then have tf: "t < NUM_THREADS c" "nstate s t = NIL_STATE_WTSEM" "u1 (threads s t) = sp" by (auto simp: waiters_def)
  have "u1 (threads s j) \<noteq> sp" if "j < t" for j
  proof
    assume "u1 (threads s j) = sp"
    then have "j \<in> waiters c s sp" using o(1) a(1) that tf(1) by (auto simp: waiters_def nil_objs_def)
    then have "Min (waiters c s sp) \<le> j" by simp
    then show False using that t by simp
  qed
  then have "nil_sem_find c sp 0 ?s = Some t" using tf by (intro nil_sem_find_eq) simp_all
  moreover have "nil_chSchReadyI c t NIL_MSG_OK ?s = Some (nil_woken t NIL_MSG_OK ?s)" using tf o(2) by (intro nil_chSchReadyI_eq) simp_all
  moreover have "nil_release t s = ?s" using tf by (simp add: nil_release_def)
  ultimately show "t \<in> waiters c s sp \<and> nil_chSemSignalI c sp s = Some (nil_woken t NIL_MSG_OK (nil_release t s))"
    using tw n a(2) by (simp add: nil_chSemSignalI_def)
qed

lemma nil_core_set_sem:
  assumes "nil_core c S s" "nat (- n) = nat (- n_sem s sp)" "cnt_fits n"
  shows "nil_core c S (set_sem sp n s)"
  using assms nil_objs_cong [of c S "\<lambda>a. nat (- n_sem s a)" s "set_sem sp n s" "\<lambda>a. nat (- n_sem (set_sem sp n s) a)"]
  by (auto simp: nil_core_def nil_sched_def)

text \<open>The addresses of semaphores are not among the messages of the kernel.\<close>

definition nil_addrs :: "32 word set \<Rightarrow> bool" where
  "nil_addrs S \<longleftrightarrow> NIL_MSG_OK \<notin> S \<and> NIL_MSG_TIMEOUT \<notin> S \<and> NIL_MSG_RESET \<notin> S"

lemma nil_signal_returns:
  assumes "nil_addrs S" "sp \<in> S" "nil_core c S s" "cnt_fits (n_sem s sp + 1)"
  shows "\<exists>s'. nil_chSemSignalI c sp s = Some s' \<and> nil_core c S s' \<and> nil_calms s s'"
proof (cases "n_sem s sp < 0")
  case True
  then show ?thesis using nil_chSemSignalI_eq(2) [OF assms(3,2,4) True refl] nil_core_woken [OF assms(3), of "Min (waiters c s sp)" NIL_MSG_OK] assms(1)
    by (auto simp: waiters_def nil_addrs_def)
next
  case False
  then show ?thesis using nil_chSemSignalI_eq(1) [OF assms(3,2,4)] nil_core_set_sem [OF assms(3), of "n_sem s sp + 1" sp] assms(4)
    by (simp add: nil_calms_def)
qed

lemma nil_resume_returns:
  assumes "msg \<notin> S" "nil_core c S s"
  shows "\<exists>s'. nil_chThdResumeI c trp msg s = Some s' \<and> nil_core c S s' \<and> nil_calms s s'"
proof (cases "n_ref s trp")
  case (Some t)
  then have t: "t < NUM_THREADS c" "nstate s t = NIL_STATE_SUSP" "u1 (threads s t) = trp" "n_next s \<le> n_current s"
    using assms(2) by (auto simp: nil_core_def nil_objs_def nil_sched_def)
  then have "nil_chThdResumeI c trp msg s = Some (nil_woken t msg (nil_release t s))"
    using Some by (simp add: nil_chThdResumeI_def nil_chSchReadyI_eq nil_release_def)
  then show ?thesis using nil_core_woken [OF assms(2) t(1) _ assms(1)] t(2) by simp
qed (use assms(2) in \<open>simp add: nil_chThdResumeI_def\<close>)

lemma nil_core_epmask:
  assumes "nil_core c S s" "nstate s tp = NIL_STATE_WTOREVT \<longrightarrow> e AND u1 (threads s tp) = 0"
  shows "nil_core c S (upd_nt tp (\<lambda>t. t\<lparr>epmask := e\<rparr>) s)"
proof -
  let ?s = "upd_nt tp (\<lambda>t. t\<lparr>epmask := e\<rparr>) s"
  have e: "nstate ?s t = nstate s t" "u1 (threads ?s t) = u1 (threads s t)" "timeout (threads ?s t) = timeout (threads s t)" for t by simp_all
  have "waiters c ?s a = waiters c s a" for a unfolding waiters_def e by simp
  then have "nil_objs c S (\<lambda>a. nat (- n_sem s a)) ?s"
    using assms unfolding nil_core_def nil_objs_def e by (simp del: fun_upd_apply) (simp add: fun_upd_apply)
  moreover have "nil_sched c ?s" using assms(1) unfolding nil_core_def nil_sched_def e by simp
  ultimately show ?thesis using assms(1) by (simp add: nil_core_def)
qed

lemma nil_evt_returns:
  assumes "nil_addrs S" "tp < NUM_THREADS c" "nil_core c S s"
  shows "\<exists>s'. nil_chEvtSignalI c tp em s = Some s' \<and> nil_core c S s' \<and> nil_calms s s'"
proof -
  let ?s = "upd_nt tp (\<lambda>t. t\<lparr>epmask := epmask t OR em\<rparr>) s"
  show ?thesis
  proof (cases "nstate s tp = NIL_STATE_WTOREVT \<and> (epmask (threads s tp) OR em) AND u1 (threads s tp) \<noteq> 0")
    case True
    have "n_next s \<le> n_current s" using assms(3) by (simp add: nil_core_def nil_sched_def)
    then have ev: "nil_chEvtSignalI c tp em s = Some (nil_woken tp NIL_MSG_OK ?s)"
      using True assms(2) by (simp add: nil_chEvtSignalI_def nil_chSchReadyI_eq)
    have "nil_core c S (nil_woken tp NIL_MSG_OK s)"
      using nil_core_woken [OF assms(3,2), of NIL_MSG_OK] True assms(1) by (simp add: nil_release_def nil_addrs_def)
    moreover have "nil_woken tp NIL_MSG_OK ?s = upd_nt tp (\<lambda>t. t\<lparr>epmask := epmask (threads s tp) OR em\<rparr>) (nil_woken tp NIL_MSG_OK s)"
      by (rule nil_system.equality) (auto simp: nil_woken_def intro: nil_thread.equality)
    ultimately have "nil_core c S (nil_woken tp NIL_MSG_OK ?s)" using nil_core_epmask [of c S "nil_woken tp NIL_MSG_OK s" tp] by simp
    then show ?thesis using ev by (simp add: nil_calms_def)
  next
    case False
    then have "nil_chEvtSignalI c tp em s = Some ?s" by (auto simp: nil_chEvtSignalI_def)
    moreover have "nil_core c S ?s" using nil_core_epmask [OF assms(3)] False by simp
    ultimately show ?thesis by (simp add: nil_calms_def)
  qed
qed

lemma nil_sem_reset_loop_ok:
  assumes "nil_sched c s" "nil_objs c S w s" "sp \<in> S" "w sp = nat (- cnt)" "\<forall>t < tp. u1 (threads s t) \<noteq> sp" "NIL_MSG_RESET \<notin> S"
  shows "\<exists>s'. nil_sem_reset_loop c sp cnt tp s = Some s' \<and> nil_sched c s' \<and> nil_objs c S (w(sp := 0)) s' \<and> nil_calms s s' \<and> n_sem s' = n_sem s"
  using assms
proof (induction c sp cnt tp s arbitrary: w rule: nil_sem_reset_loop.induct)
  case (1 c sp cnt tp s)
  show ?case
  proof (cases "cnt < 0")
    case False
    then have "w(sp := 0) = w" using 1(6) by auto
    then show ?thesis using False 1(3,4) by (subst nil_sem_reset_loop.simps) simp
  next
    case True
    then have "card (waiters c s sp) > 0" using 1(4-6) by (simp add: nil_objs_def)
    then obtain t where "t \<in> waiters c s sp" by (metis card_gt_0_iff ex_in_conv)
    then have "tp < NUM_THREADS c" using 1(7) by (metis (mono_tags, lifting) mem_Collect_eq not_le order_less_le_trans waiters_def)
    show ?thesis
    proof (cases "u1 (threads s tp) = sp")
      case F: False
      then have "\<forall>t < tp + 1. u1 (threads s t) \<noteq> sp" using 1(7) by (auto simp: less_Suc_eq)
      from 1(2) [OF True \<open>tp < NUM_THREADS c\<close> F 1(3-6) this 1(8)]
      show ?thesis using True F \<open>tp < NUM_THREADS c\<close> by (subst nil_sem_reset_loop.simps) (simp add: fun_upd_def)
    next
      case T: True
      have st: "nstate s tp = NIL_STATE_WTSEM" using T 1(4,5) \<open>tp < NUM_THREADS c\<close> by (auto simp: nil_objs_def)
      let ?s = "nil_woken tp NIL_MSG_RESET s"
      have r: "nil_chSchReadyI c tp NIL_MSG_RESET s = Some ?s"
        using st \<open>tp < NUM_THREADS c\<close> 1(3) by (intro nil_chSchReadyI_eq) (simp_all add: nil_sched_def)
      have o: "nil_objs c S (w(sp := w sp - 1)) ?s" using nil_objs_woken_sem [OF 1(4) \<open>tp < NUM_THREADS c\<close> st 1(8)] T by simp
      have u: "\<forall>t < tp + 1. u1 (threads ?s t) \<noteq> sp" using 1(5,7,8) by (auto simp: less_Suc_eq)
      have w: "(w(sp := w sp - 1)) sp = nat (- (cnt + 1))" using 1(6) True by simp
      have w0: "(w(sp := w sp - 1))(sp := 0) = w(sp := 0)" by simp
      from 1(1) [OF True \<open>tp < NUM_THREADS c\<close> T _ r nil_sched_woken [OF 1(3) \<open>tp < NUM_THREADS c\<close>] o 1(5) w u 1(8), of "()"] st
      have "\<exists>s'. nil_sem_reset_loop c sp (cnt + 1) (tp + 1) ?s = Some s' \<and> nil_sched c s' \<and> nil_objs c S (w(sp := 0)) s' \<and>
        nil_calms ?s s' \<and> n_sem s' = n_sem ?s" unfolding w0 by (simp del: fun_upd_apply)
      then obtain s' where s': "nil_sem_reset_loop c sp (cnt + 1) (tp + 1) ?s = Some s'" "nil_sched c s'" "nil_objs c S (w(sp := 0)) s'"
        "nil_calms ?s s'" "n_sem s' = n_sem s" by auto
      have "nil_calms s ?s" by (simp add: nil_calms_def)
      then show ?thesis using s' nil_calms_trans True T \<open>tp < NUM_THREADS c\<close> st r by (subst nil_sem_reset_loop.simps) auto
    qed
  qed
qed

lemma nil_reset_returns:
  assumes "nil_addrs S" "sp \<in> S" "0 \<le> n" "cnt_fits n" "nil_core c S s"
  shows "\<exists>s'. nil_chSemResetI c sp n s = Some s' \<and> nil_core c S s' \<and> nil_calms s s' \<and> n_sem s' sp = n"
proof -
  let ?s = "set_sem sp n s"
  have "nil_sched c ?s" "nil_objs c S (\<lambda>a. nat (- n_sem s a)) ?s"
    using assms(5) nil_objs_cong [of c S "\<lambda>a. nat (- n_sem s a)" s ?s] by (auto simp: nil_core_def nil_sched_def)
  then obtain s' where s': "nil_sem_reset_loop c sp (n_sem s sp) 0 ?s = Some s'" "nil_sched c s'"
      "nil_objs c S ((\<lambda>a. nat (- n_sem s a))(sp := 0)) s'" "nil_calms ?s s'" "n_sem s' = n_sem ?s"
    using nil_sem_reset_loop_ok [of c ?s S _ sp "n_sem s sp" 0] assms(1,2) by (auto simp: nil_addrs_def)
  have "nil_objs c S (\<lambda>a. nat (- n_sem s' a)) s'" using s'(3,5) assms(3) by (elim nil_objs_cong) auto
  then show ?thesis using s' assms by (auto simp: nil_core_def nil_chSemResetI_def nil_calms_def)
qed

interpretation sem_signal: nil_iop c S "\<lambda>s. nil_addrs S \<and> sp \<in> S \<and> cnt_fits (n_sem s sp + 1)" "nil_chSemSignalI c sp" for c S sp
  by unfold_locales (use nil_signal_returns in blast)

interpretation sem_reset: nil_iop c S "\<lambda>s. nil_addrs S \<and> sp \<in> S \<and> 0 \<le> n \<and> cnt_fits n" "nil_chSemResetI c sp n" for c S sp n
  by unfold_locales (use nil_reset_returns in blast)

interpretation thd_resume: nil_iop c S "\<lambda>s. msg \<notin> S" "nil_chThdResumeI c trp msg" for c S trp msg
  by unfold_locales (use nil_resume_returns in blast)

interpretation evt_signal: nil_iop c S "\<lambda>s. nil_addrs S \<and> tp < NUM_THREADS c" "nil_chEvtSignalI c tp em" for c S tp em
  by unfold_locales (use nil_evt_returns in blast)

subsection \<open>Going to sleep\<close>

lemma nil_scan_eq:
  "i \<le> n \<Longrightarrow> n \<le> NUM_THREADS c \<Longrightarrow> nstate s n = NIL_STATE_READY \<Longrightarrow> \<forall>j. i \<le> j \<and> j < n \<longrightarrow> nstate s j \<noteq> NIL_STATE_READY \<Longrightarrow>
   nil_scan c i s = Some n"
proof (induction "n - i" arbitrary: i)
  case 0
  then show ?case by (subst nil_scan.simps) simp
next
  case (Suc k)
  then have "nil_scan c (i + 1) s = Some n" by simp
  then show ?case using Suc by (subst nil_scan.simps) auto
qed

lemma nil_scan_first:
  assumes "nstate s (NUM_THREADS c) = NIL_STATE_READY"
  shows "\<exists>n \<le> NUM_THREADS c. nil_scan c 0 s = Some n \<and> nstate s n = NIL_STATE_READY \<and> (\<forall>j < n. nstate s j \<noteq> NIL_STATE_READY)"
proof -
  obtain n where n: "nstate s n = NIL_STATE_READY" "\<forall>j < n. nstate s j \<noteq> NIL_STATE_READY"
    using exists_least_iff [of "\<lambda>n. nstate s n = NIL_STATE_READY"] assms by blast
  then have "n \<le> NUM_THREADS c" using assms not_le by blast
  then show ?thesis using nil_scan_eq [of 0 n c s] n by auto
qed

text \<open>
  In tickless mode the delay and the time since the last alarm must not add up to more than the clock holds.
\<close>

definition nil_delay :: "nil_config \<Rightarrow> systime_t \<Rightarrow> nil_system \<Rightarrow> systime_t" where
  "nil_delay c tmo s = (n_time s - n_lasttime s) + (if tmo < TIMEDELTA c then TIMEDELTA c else tmo)"

definition nil_fits :: "nil_config \<Rightarrow> systime_t \<Rightarrow> nil_system \<Rightarrow> bool" where
  "nil_fits c tmo s \<longleftrightarrow> TIMEDELTA c = 0 \<or> tmo = NIL_TIME_INFINITE \<or>
     unat (n_time s - n_lasttime s) + unat (if tmo < TIMEDELTA c then TIMEDELTA c else tmo) < 2 ^ 32"

lemma nil_set_timeout_frame:
  "\<exists>x. threads (nil_set_timeout c t tmo s) = (threads s)(t := (threads s t)\<lparr>timeout := x\<rparr>)"
  "n_sem (nil_set_timeout c t tmo s) = n_sem s" "n_ref (nil_set_timeout c t tmo s) = n_ref s"
  "n_current (nil_set_timeout c t tmo s) = n_current s" "n_next (nil_set_timeout c t tmo s) = n_next s"
proof -
  show "\<exists>x. threads (nil_set_timeout c t tmo s) = (threads s)(t := (threads s t)\<lparr>timeout := x\<rparr>)"
  proof (cases "TIMEDELTA c > 0 \<and> tmo = NIL_TIME_INFINITE")
    case True
    then show ?thesis by (intro exI [of _ "timeout (threads s t)"]) (simp add: nil_set_timeout_def)
  next
    case False
    then show ?thesis by (auto simp: nil_set_timeout_def Let_def)
  qed
qed (simp_all add: nil_set_timeout_def Let_def)

lemma nil_set_timeout_timers:
  assumes "nil_timers c s" "nil_fits c tmo s" "timeout (threads s t) = 0"
  shows "nil_timers c (nil_set_timeout c t tmo s)"
proof (cases "TIMEDELTA c = 0 \<or> tmo = NIL_TIME_INFINITE")
  case True
  then show ?thesis using assms(1) by (auto simp: nil_set_timeout_def nil_timers_def nil_consts word_gt_0)
next
  case False
  define T where "T = (if tmo < TIMEDELTA c then TIMEDELTA c else tmo)"
  define e where "e = nil_delay c tmo s"
  have "unat e = unat (n_time s - n_lasttime s) + unat T"
    using assms(2) False unat_add_lem [of "n_time s - n_lasttime s" T] unfolding e_def nil_delay_def nil_fits_def T_def [symmetric] by simp
  moreover have "T \<noteq> 0" using False by (auto simp: T_def nil_consts)
  ultimately have e0: "e \<noteq> 0" by (metis add_is_0 unat_0 unat_eq_zero)
  have ab: "n_time s + T = n_lasttime s + e" by (simp add: e_def nil_delay_def T_def)
  define s' where "s' = (if n_lasttime s = n_nexttime s \<or> e < n_nexttime s - n_lasttime s
      then s\<lparr>n_alarm := Some (n_lasttime s + e), n_nexttime := n_lasttime s + e\<rparr> else s)"
  have "nil_set_timeout c t tmo s = upd_nt t (\<lambda>t. t\<lparr>timeout := e\<rparr>) s'"
    using False by (simp add: nil_set_timeout_def Let_def T_def [symmetric] nil_chVTGetSystemTimeX_def ab nil_chVTIsTimeWithinX_def s'_def
      word_gt_0)
  moreover have "nil_timers c (upd_nt t (\<lambda>t. t\<lparr>timeout := e\<rparr>) s')"
    using assms(1,3) False e0 by (auto simp: s'_def nil_timers_def not_less intro: order.strict_implies_order order_trans less_imp_le)
  ultimately show ?thesis by simp
qed

end
