(* ===== verification/NilSystem.thy ===== *)
theory NilSystem
  imports NilKernel
begin

text \<open>
  The blocking operations of ChibiOS/NIL, its timer interrupt in both modes, and the whole kernel as a transition system:
  the running thread calls, interrupts call, the clock moves. In every reachable state the first ready thread runs and no assertion fails.
\<close>

unbundle bit_operations_syntax

subsection \<open>The caller goes to sleep\<close>

text \<open>What a thread may wait for: a semaphore, a free reference, events that are not pending, or nothing.\<close>

definition nil_may_wait :: "32 word set \<Rightarrow> nil_tstate \<Rightarrow> 32 word \<Rightarrow> nil_system \<Rightarrow> bool" where
  "nil_may_wait S st a s \<longleftrightarrow> st \<noteq> NIL_STATE_READY \<and> (st = NIL_STATE_WTSEM \<longleftrightarrow> a \<in> S) \<and> (st = NIL_STATE_SUSP \<longrightarrow> n_ref s a = None) \<and>
     (st = NIL_STATE_WTOREVT \<longrightarrow> epmask (threads s (n_current s)) AND a = 0)"

lemma nil_objs_slept:
  assumes o: "nil_objs c S w s" and k: "k < NUM_THREADS c" "nstate s k = NIL_STATE_READY" "k = n_current s" and st: "nil_may_wait S st a s"
    and th: "threads s' = (threads s)(k := (threads s k)\<lparr>u1 := a, nt_state := st, timeout := x\<rparr>)"
    and r: "n_ref s' = (if st = NIL_STATE_SUSP then (n_ref s)(a := Some k) else n_ref s)"
    and w: "\<And>b. b \<in> S \<Longrightarrow> w' b = (if st = NIL_STATE_WTSEM \<and> b = a then w b + 1 else w b)"
  shows "nil_objs c S w' s'"
proof -
  have in_ref: "t < NUM_THREADS c \<and> nstate s t = NIL_STATE_SUSP \<and> u1 (threads s t) = b" if "n_ref s b = Some t" for b t
    using o that by (simp add: nil_objs_def)
  have nk: "n_ref s b \<noteq> Some k" for b using in_ref [of b k] k(2) by auto
  have wt: "waiters c s' b = (if st = NIL_STATE_WTSEM \<and> b = a then insert k (waiters c s b) else waiters c s b)" for b
    using k(1,2) by (auto simp: waiters_def th)
  have "k \<notin> waiters c s b" for b using k(2) by (simp add: waiters_def)
  then have "\<forall>b \<in> S. card (waiters c s' b) = w' b" using o w by (auto simp: wt nil_objs_def)
  moreover have "\<forall>t < NUM_THREADS c. nstate s' t = NIL_STATE_WTSEM \<longleftrightarrow> u1 (threads s' t) \<in> S" using o st by (simp add: nil_objs_def th nil_may_wait_def)
  moreover have "\<forall>b t. n_ref s' b = Some t \<longrightarrow> t < NUM_THREADS c \<and> nstate s' t = NIL_STATE_SUSP \<and> u1 (threads s' t) = b"
    using in_ref nk k(1) by (auto simp: r th split: if_splits)
  moreover have "\<forall>t < NUM_THREADS c. nstate s' t = NIL_STATE_SUSP \<longrightarrow> n_ref s' (u1 (threads s' t)) = Some t"
    using o st by (auto simp: nil_objs_def r th nil_may_wait_def)
  moreover have "\<forall>t < NUM_THREADS c. nstate s' t = NIL_STATE_WTOREVT \<longrightarrow> epmask (threads s' t) AND u1 (threads s' t) = 0"
    using o st k(3) by (auto simp: nil_objs_def th nil_may_wait_def)
  ultimately show ?thesis unfolding nil_objs_def by blast
qed

lemma nil_timers_cong:
  "nil_timers c s \<Longrightarrow> \<forall>t < NUM_THREADS c. timeout (threads s' t) = timeout (threads s t) \<Longrightarrow> n_nexttime s' = n_nexttime s \<Longrightarrow>
   n_lasttime s' = n_lasttime s \<Longrightarrow> n_alarm s' = n_alarm s \<Longrightarrow> nil_timers c s'"
  unfolding nil_timers_def by auto

lemma nil_go_sleep:
  assumes s: "nil_core c S s" "nil_timers c s" and k: "n_current s < NUM_THREADS c" and st: "nil_may_wait S st a s"
    and f: "nil_fits c tmo s"
    and r: "r = (if st = NIL_STATE_SUSP then (n_ref s)(a := Some (n_current s)) else n_ref s)"
    and m: "m = (if st = NIL_STATE_WTSEM then (n_sem s)(a := n_sem s a - 1) else n_sem s)"
    and n: "st = NIL_STATE_WTSEM \<longrightarrow> n_sem s a \<le> 0 \<and> cnt_fits (n_sem s a - 1)"
    and s1: "s1 = (upd_nt (n_current s) (\<lambda>t. t\<lparr>u1 := a\<rparr>) s)\<lparr>n_ref := r, n_sem := m\<rparr>"
  shows "\<exists>s'. nil_chSchGoSleepTimeoutS c st tmo s1 = Some s' \<and> nil_ok c S s' \<and> n_sem s' = m \<and> n_ref s' = r"
proof -
  let ?k = "n_current s"
  define s2 where "s2 = upd_nt ?k (\<lambda>t. t\<lparr>nt_state := st\<rparr>) s1"
  define s3 where "s3 = nil_set_timeout c ?k tmo s2"
  have sch: "nil_sched c s" "nil_objs c S (\<lambda>a. nat (- n_sem s a)) s" using s(1) by (simp_all add: nil_core_def)
  have t0: "timeout (threads s ?k) = 0" "nstate s ?k = NIL_STATE_READY" using sch(1) by (simp_all add: nil_sched_def)
  have e: "n_sem s3 = m" "n_ref s3 = r" "n_current s3 = ?k" by (simp_all add: s3_def s2_def s1 nil_set_timeout_frame)
  obtain x where x: "threads s3 = (threads s)(?k := (threads s ?k)\<lparr>u1 := a, nt_state := st, timeout := x\<rparr>)"
    using nil_set_timeout_frame(1) [of c ?k tmo s2] by (auto simp: s3_def s2_def s1)
  have "nil_timers c s2" using s(2) by (rule nil_timers_cong) (simp_all add: s2_def s1)
  moreover have "nil_fits c tmo s2" using f by (simp add: nil_fits_def s2_def s1)
  ultimately have ti: "nil_timers c s3" using t0 unfolding s3_def by (intro nil_set_timeout_timers) (simp_all add: s2_def s1)
  have ob: "nil_objs c S (\<lambda>a. nat (- m a)) s3" using e(2) n
    by (intro nil_objs_slept [OF sch(2) k t0(2) refl st x]) (auto simp: r m)
  have "nstate s3 (NUM_THREADS c) = NIL_STATE_READY" using sch(1) k by (simp add: x nil_sched_def)
  from nil_scan_first [OF this] obtain i where i: "i \<le> NUM_THREADS c" "nil_scan c 0 s3 = Some i" "nstate s3 i = NIL_STATE_READY"
    "\<forall>j < i. nstate s3 j \<noteq> NIL_STATE_READY" by blast
  let ?s = "s3\<lparr>n_current := i, n_next := i\<rparr>"
  have "nil_chSchGoSleepTimeoutS c st tmo s1 = Some ?s"
    using i(2) k s2_def s3_def by (simp add: nil_chSchGoSleepTimeoutS_def Let_def s1)
  moreover have "nil_sched c ?s" using i sch(1) k st by (auto simp: nil_sched_def x nil_may_wait_def split: if_splits)
  moreover have "nil_objs c S (\<lambda>a. nat (- m a)) ?s" using ob by (rule nil_objs_cong) simp_all
  moreover have "nil_timers c ?s" using ti by (rule nil_timers_cong) simp_all
  moreover have "\<forall>a \<in> S. cnt_fits (m a)" using s(1) n by (auto simp: m nil_core_def)
  ultimately show ?thesis using e by (simp add: nil_ok_def nil_core_def)
qed

text \<open>A call of the running thread or of an interrupt handler, a reschedule included.\<close>

datatype nil_call =
    NSleep systime_t
  | NSleepUntil systime_t
  | NSuspend "32 word" systime_t
  | NResume "32 word" "32 word"
  | NInit "32 word" cnt_t
  | NWait "32 word" systime_t
  | NSignal "32 word"
  | NReset "32 word" cnt_t
  | NEvtSignal nat eventmask_t
  | NEvtWait eventmask_t systime_t

fun nil_exec :: "nil_config \<Rightarrow> nil_call \<Rightarrow> nil_system \<Rightarrow> nil_system option" where
  "nil_exec c (NSleep tmo) s = nil_chThdSleep c tmo s"
| "nil_exec c (NSleepUntil t) s = nil_chThdSleepUntil c t s"
| "nil_exec c (NSuspend trp tmo) s = nil_chThdSuspendTimeoutS c trp tmo (nil_chSysLock s)"
| "nil_exec c (NResume trp msg) s = map_option snd (nil_locked (nil_chThdResumeI c trp msg) s)"
| "nil_exec c (NInit sp n) s = Some (nil_chSemObjectInit sp n s)"
| "nil_exec c (NWait sp tmo) s = map_option snd (nil_chSemWaitTimeout c sp tmo s)"
| "nil_exec c (NSignal sp) s = map_option snd (nil_chSemSignal c sp s)"
| "nil_exec c (NReset sp n) s = map_option snd (nil_chSemReset c sp n s)"
| "nil_exec c (NEvtSignal tp em) s = map_option snd (nil_chEvtSignal c tp em s)"
| "nil_exec c (NEvtWait em tmo) s = map_option snd (nil_chEvtWaitAnyTimeout c em tmo s)"

text \<open>
  What the callers owe. Counters must not overflow; a reference is used by one thread at a time; messages, event masks and
  references are not addresses of semaphores; the idle thread does not block; a delay fits into the clock.
\<close>

fun nil_pre :: "nil_config \<Rightarrow> 32 word set \<Rightarrow> nil_call \<Rightarrow> nil_system \<Rightarrow> bool" where
  "nil_pre c S (NSleep tmo) s = (n_current s < NUM_THREADS c \<and> nil_fits c tmo s)"
| "nil_pre c S (NSleepUntil t) s = (n_current s < NUM_THREADS c \<and> nil_fits c (t - nil_chVTGetSystemTimeX c s) s)"
| "nil_pre c S (NSuspend trp tmo) s = (n_current s < NUM_THREADS c \<and> nil_fits c tmo s \<and> trp \<notin> S \<and> n_ref s trp = None)"
| "nil_pre c S (NResume trp msg) s = (msg \<notin> S)"
| "nil_pre c S (NInit sp n) s = (0 \<le> n_sem s sp \<and> 0 \<le> n \<and> cnt_fits n)"
| "nil_pre c S (NWait sp tmo) s =
     (sp \<in> S \<and> (n_sem s sp \<le> 0 \<and> tmo \<noteq> NIL_TIME_IMMEDIATE \<longrightarrow> n_current s < NUM_THREADS c \<and> cnt_fits (n_sem s sp - 1) \<and> nil_fits c tmo s))"
| "nil_pre c S (NSignal sp) s = (sp \<in> S \<and> cnt_fits (n_sem s sp + 1))"
| "nil_pre c S (NReset sp n) s = (sp \<in> S \<and> 0 \<le> n \<and> cnt_fits n)"
| "nil_pre c S (NEvtSignal tp em) s = (tp < NUM_THREADS c)"
| "nil_pre c S (NEvtWait em tmo) s = (n_current s < NUM_THREADS c \<and> em \<notin> S \<and> (tmo \<noteq> NIL_TIME_IMMEDIATE \<longrightarrow> nil_fits c tmo s))"

lemma nil_fits_lock [simp]:
  "nil_fits c tmo (nil_chSysLock s) = nil_fits c tmo s" "nil_chVTGetSystemTimeX c (nil_chSysLock s) = nil_chVTGetSystemTimeX c s"
  by (simp_all add: nil_fits_def nil_chVTGetSystemTimeX_def nil_chSysLock_def)

lemma nil_set_timeout_clock:
  assumes "nil_clock c s" "nil_fits c tmo s"
  shows "nil_clock c (nil_set_timeout c t tmo s)"
proof (cases "TIMEDELTA c = 0 \<or> tmo = NIL_TIME_INFINITE")
  case True
  then show ?thesis using assms(1) by (auto simp: nil_set_timeout_def nil_clock_def)
next
  case False
  define T where "T = (if tmo < TIMEDELTA c then TIMEDELTA c else tmo)"
  have "unat (n_time s - n_lasttime s) + unat T < 2 ^ 32" using False assms(2) by (simp add: nil_fits_def T_def)
  then have "unat ((n_time s - n_lasttime s) + T) = unat (n_time s - n_lasttime s) + unat T"
    using unat_add_lem [of "n_time s - n_lasttime s" T] by simp
  moreover have "n_time s + T - n_lasttime s = (n_time s - n_lasttime s) + T" by simp
  ultimately have le: "n_time s - n_lasttime s \<le> n_time s + T - n_lasttime s" by (simp only: word_le_nat_alt)
  let ?s = "nil_set_timeout c t tmo s"
  have "n_time ?s = n_time s" "n_lasttime ?s = n_lasttime s" "n_nexttime ?s \<in> {n_time s + T, n_nexttime s}"
    "n_lasttime s = n_nexttime s \<longrightarrow> n_nexttime ?s = n_time s + T"
    using False by (simp_all add: nil_set_timeout_def Let_def T_def [symmetric] nil_chVTGetSystemTimeX_def word_gt_0)
  then show ?thesis using assms(1) False le unfolding nil_clock_def by auto
qed

lemma nil_clock_sleep:
  assumes "nil_clock c s" "nil_fits c tmo s" "nil_chSchGoSleepTimeoutS c st tmo s = Some s'"
  shows "nil_clock c s'"
proof -
  let ?s = "upd_nt (n_current s) (\<lambda>t. t\<lparr>nt_state := st\<rparr>) s"
  have "nil_clock c (nil_set_timeout c (n_current s) tmo ?s)"
    using assms(1,2) by (intro nil_set_timeout_clock) (simp_all add: nil_clock_def nil_fits_def)
  then show ?thesis using assms(3) by (auto simp: nil_chSchGoSleepTimeoutS_def Let_def nil_clock_def split: bind_splits)
qed

lemma nil_sleeping:
  assumes s: "nil_inv c S s" and k: "n_current s < NUM_THREADS c" and f: "nil_fits c tmo s" and st: "nil_may_wait S st a s"
    and r: "r = (if st = NIL_STATE_SUSP then (n_ref s)(a := Some (n_current s)) else n_ref s)"
    and m: "m = (if st = NIL_STATE_WTSEM then (n_sem s)(a := n_sem s a - 1) else n_sem s)"
    and n: "st = NIL_STATE_WTSEM \<longrightarrow> n_sem s a \<le> 0 \<and> cnt_fits (n_sem s a - 1)"
    and s1: "s1 = (upd_nt (n_current s) (\<lambda>t. t\<lparr>u1 := a\<rparr>) s)\<lparr>n_ref := r, n_sem := m\<rparr>"
  shows "\<exists>s'. nil_chSchGoSleepTimeoutS c st tmo s1 = Some s' \<and> nil_inv c S s'"
proof -
  obtain s' where s': "nil_chSchGoSleepTimeoutS c st tmo s1 = Some s'" "nil_ok c S s'"
    using nil_go_sleep [OF _ _ k st f r m n s1] s by (auto simp: nil_inv_def nil_ok_def)
  have "nil_clock c s1" "nil_fits c tmo s1" using s f by (simp_all add: s1 nil_inv_def nil_clock_def nil_fits_def)
  then show ?thesis using s' nil_clock_sleep by (auto simp: nil_inv_def)
qed

lemma nil_sleep_returns:
  assumes "nil_inv c S s" "nil_pre c S (NSleep tmo) s"
  shows "\<exists>s'. nil_chSchGoSleepTimeoutS c NIL_STATE_SLEEPING tmo s = Some s' \<and> nil_inv c S s'"
proof (rule nil_sleeping [where a = "u1 (threads s (n_current s))" and r = "n_ref s" and m = "n_sem s"])
  have "nstate s (n_current s) = NIL_STATE_READY" using assms(1) by (simp add: nil_inv_def nil_ok_def nil_core_def nil_sched_def)
  then show "nil_may_wait S NIL_STATE_SLEEPING (u1 (threads s (n_current s))) s"
    using assms by (auto simp: nil_may_wait_def nil_inv_def nil_ok_def nil_core_def nil_objs_def)
qed (use assms in simp_all)

lemma nil_suspend_returns:
  assumes "nil_inv c S s" "nil_pre c S (NSuspend trp tmo) s"
  shows "\<exists>s'. nil_chThdSuspendTimeoutS c trp tmo s = Some s' \<and> nil_inv c S s'"
proof -
  have "\<exists>s'. nil_chSchGoSleepTimeoutS c NIL_STATE_SUSP tmo (upd_nt (n_current s) (\<lambda>t. t\<lparr>u1 := trp\<rparr>) (set_ref trp (Some (n_current s)) s)) = Some s' \<and>
      nil_inv c S s'"
    by (rule nil_sleeping [OF assms(1) _ _ _ refl refl, where a = trp]) (use assms(2) in \<open>simp_all add: nil_may_wait_def\<close>)
  then show ?thesis using assms(2) by (simp add: nil_chThdSuspendTimeoutS_def)
qed

lemma nil_wait_returns:
  assumes "nil_inv c S s" "nil_pre c S (NWait sp tmo) s"
  shows "\<exists>out s'. nil_chSemWaitTimeoutS c sp tmo s = Some (out, s') \<and> nil_inv c S s'"
proof (cases "n_sem s sp \<le> 0 \<and> tmo \<noteq> NIL_TIME_IMMEDIATE")
  case True
  have "\<exists>s'. nil_chSchGoSleepTimeoutS c NIL_STATE_WTSEM tmo (upd_nt (n_current s) (\<lambda>t. t\<lparr>u1 := sp\<rparr>) (set_sem sp (n_sem s sp - 1) s)) = Some s' \<and>
      nil_inv c S s'"
    by (rule nil_sleeping [OF assms(1) _ _ _ refl refl, where a = sp]) (use True assms(2) in \<open>simp_all add: nil_may_wait_def\<close>)
  then show ?thesis using True assms(2) by (auto simp: nil_chSemWaitTimeoutS_def)
next
  case False
  then consider "n_sem s sp \<le> 0" "tmo = NIL_TIME_IMMEDIATE" | "n_sem s sp > 0" by fastforce
  then show ?thesis
  proof cases
    case 2
    then have "nil_core c S (set_sem sp (n_sem s sp - 1) s)"
      using assms by (intro nil_core_set_sem) (auto simp: nil_inv_def nil_ok_def nil_core_def cnt_fits_def)
    then show ?thesis using 2 assms(1) by (auto simp: nil_chSemWaitTimeoutS_def nil_inv_def nil_ok_def nil_clock_def nil_timers_def)
  qed (use assms(1) in \<open>simp add: nil_chSemWaitTimeoutS_def\<close>)
qed

lemma nil_take_events_inv:
  assumes "nil_inv c S s"
  shows "nil_inv c S (snd (nil_take_events (n_current s) em s))"
proof -
  have "nstate s (n_current s) = NIL_STATE_READY" using assms by (simp add: nil_inv_def nil_ok_def nil_core_def nil_sched_def)
  then show ?thesis using assms nil_core_epmask [of c S s "n_current s"]
    by (auto simp: nil_take_events_def Let_def nil_inv_def nil_ok_def nil_clock_def nil_timers_def)
qed

lemma nil_evt_wait_returns:
  assumes "nil_inv c S s" "nil_pre c S (NEvtWait em tmo) s"
  shows "\<exists>out s'. nil_chEvtWaitAnyTimeoutS c em tmo s = Some (out, s') \<and> nil_inv c S s'"
proof (cases "epmask (threads s (n_current s)) AND em = 0")
  case True
  have "\<exists>s'. nil_chSchGoSleepTimeoutS c NIL_STATE_WTOREVT tmo (upd_nt (n_current s) (\<lambda>t. t\<lparr>u1 := em\<rparr>) s) = Some s' \<and> nil_inv c S s'"
    if "tmo \<noteq> NIL_TIME_IMMEDIATE"
    by (rule nil_sleeping [OF assms(1) _ _ _ refl refl, where a = em]) (use True assms(2) that in \<open>simp_all add: nil_may_wait_def\<close>)
  then show ?thesis using True assms(1) by (cases "tmo = NIL_TIME_IMMEDIATE") (auto simp: nil_chEvtWaitAnyTimeoutS_def)
next
  case False
  then show ?thesis using nil_take_events_inv [OF assms(1), of em] by (cases "nil_take_events (n_current s) em s") (simp add: nil_chEvtWaitAnyTimeoutS_def)
qed

subsection \<open>The timer interrupt\<close>

text \<open>Interrupts that preempt the handler between two threads keep the invariants and put no thread to sleep.\<close>

definition nil_nested :: "nil_config \<Rightarrow> 32 word set \<Rightarrow> (nat \<Rightarrow> nil_system \<Rightarrow> nil_system option) \<Rightarrow> bool" where
  "nil_nested c S isr \<longleftrightarrow> (\<forall>t s. nil_core c S s \<longrightarrow> (\<exists>s'. isr t s = Some s' \<and> nil_core c S s' \<and> nil_calms s s'))"

text \<open>Thread \<open>t\<close> after \<open>d\<close> more ticks.\<close>

definition nil_elapsed :: "nat \<Rightarrow> systime_t \<Rightarrow> nil_system \<Rightarrow> nil_system" where
  "nil_elapsed t d s =
     (if timeout (threads s t) = 0 then s
      else if timeout (threads s t) = d then nil_woken t NIL_MSG_TIMEOUT (nil_release t s)
      else upd_nt t (\<lambda>t. t\<lparr>timeout := timeout t - d\<rparr>) s)"

lemma nil_core_timeout:
  assumes "nil_core c S s" "nstate s t \<noteq> NIL_STATE_READY"
  shows "nil_core c S (upd_nt t (\<lambda>t. t\<lparr>timeout := x\<rparr>) s)"
  using assms(1) by (rule nil_core_cong) (use assms in \<open>auto simp: nil_core_def nil_sched_def\<close>)

lemma nil_core_elapsed:
  assumes "nil_core c S s" "t < NUM_THREADS c" "NIL_MSG_TIMEOUT \<notin> S"
  shows "nil_core c S (nil_elapsed t d s)"
proof (cases "timeout (threads s t) = 0")
  case False
  then have "nstate s t \<noteq> NIL_STATE_READY" using assms(1) by (auto simp: nil_core_def nil_sched_def)
  then show ?thesis using nil_core_woken [OF assms(1,2) _ assms(3)] nil_core_timeout [OF assms(1)] assms(1) by (simp add: nil_elapsed_def)
qed (use assms(1) in \<open>simp add: nil_elapsed_def\<close>)

lemma nil_timeout_expired:
  assumes "nil_core c S s" "t < NUM_THREADS c" "nstate s t \<noteq> NIL_STATE_READY"
  shows "nil_timeout c t (upd_nt t (\<lambda>t. t\<lparr>timeout := x\<rparr>) s) = Some (nil_woken t NIL_MSG_TIMEOUT (nil_release t s))"
proof -
  let ?s = "upd_nt t (\<lambda>t. t\<lparr>timeout := x\<rparr>) s"
  have "nil_timeout c t ?s = Some (nil_woken t NIL_MSG_TIMEOUT (nil_release t ?s))"
    using nil_core_timeout [OF assms(1,3)] assms(2,3) by (intro nil_timeout_eq) simp_all
  moreover have "nil_woken t NIL_MSG_TIMEOUT (nil_release t ?s) = nil_woken t NIL_MSG_TIMEOUT (nil_release t s)"
    by (rule nil_system.equality) (auto simp: nil_release_def)
  ultimately show ?thesis by simp
qed

lemma nil_tick_thread_eq:
  assumes "nil_core c S s" "t < NUM_THREADS c"
  shows "nil_tick_thread c t s = Some (nil_elapsed t 1 s)"
proof (cases "timeout (threads s t) = 0")
  case False
  then have r: "nstate s t \<noteq> NIL_STATE_READY" using assms(1) by (auto simp: nil_core_def nil_sched_def)
  have "timeout (threads s t) - 1 = 0 \<longleftrightarrow> timeout (threads s t) = 1" by (rule right_minus_eq)
  then show ?thesis using False r nil_timeout_expired [OF assms r, of "timeout (threads s t) - 1"]
    by (auto simp: nil_tick_thread_def nil_elapsed_def word_gt_0 Let_def)
qed (simp add: nil_tick_thread_def nil_elapsed_def)

lemma nil_elapsed_frame:
  "n_current (nil_elapsed t d s) = n_current s" "n_nexttime (nil_elapsed t d s) = n_nexttime s" "n_lasttime (nil_elapsed t d s) = n_lasttime s"
  "n_alarm (nil_elapsed t d s) = n_alarm s" "n_time (nil_elapsed t d s) = n_time s" "n_systime (nil_elapsed t d s) = n_systime s"
  "t' \<noteq> t \<Longrightarrow> threads (nil_elapsed t d s) t' = threads s t'"
  "timeout (threads (nil_elapsed t d s) t) = (if timeout (threads s t) = 0 then 0 else timeout (threads s t) - d)"
  by (simp_all add: nil_elapsed_def)

lemma nil_tick_loop_ok:
  assumes "nil_nested c S isr" "NIL_MSG_TIMEOUT \<notin> S" "nil_core c S s" "set ts \<subseteq> {..<NUM_THREADS c}"
  shows "\<exists>s'. nil_tick_loop c isr ts s = Some s' \<and> nil_core c S s' \<and> n_systime s' = n_systime s"
  using assms(3,4)
proof (induction ts arbitrary: s)
  case (Cons t ts)
  then have t: "t < NUM_THREADS c" by simp
  have "nil_core c S (nil_elapsed t 1 s)" using nil_core_elapsed [OF Cons.prems(1) t assms(2)] .
  then obtain s1 where s1: "isr t (nil_elapsed t 1 s) = Some s1" "nil_core c S s1" "nil_calms (nil_elapsed t 1 s) s1"
    using assms(1) unfolding nil_nested_def by blast
  then show ?case using Cons.IH [OF s1(2)] Cons.prems nil_tick_thread_eq [OF Cons.prems(1) t] by (auto simp: nil_calms_def nil_elapsed_frame)
qed simp

lemma nil_tickless_thread_eq:
  assumes "nil_core c S s" "t < NUM_THREADS c" "timeout (threads s t) > 0 \<longrightarrow> d \<le> timeout (threads s t)" "d = n_nexttime s - n_lasttime s"
  shows "nil_tickless_thread c t (nxt, s) =
    Some (if timeout (threads s t) > 0 \<and> timeout (threads s t) \<noteq> d \<and> timeout (threads s t) - d \<le> nxt - 1 then timeout (threads s t) - d else nxt,
      nil_elapsed t d s)"
proof (cases "timeout (threads s t) = 0")
  case False
  then have r: "nstate s t \<noteq> NIL_STATE_READY" using assms(1) by (auto simp: nil_core_def nil_sched_def)
  have "timeout (threads s t) - d = 0 \<longleftrightarrow> timeout (threads s t) = d" by (rule right_minus_eq)
  then show ?thesis using False r nil_timeout_expired [OF assms(1,2) r, of "timeout (threads s t) - d"] assms(3,4)
    by (auto simp: nil_tickless_thread_def nil_elapsed_def word_gt_0 Let_def)
qed (simp add: nil_tickless_thread_def nil_elapsed_def)

text \<open>Of the threads looked at so far, none is due before \<open>nxt\<close>; the others have waited for the alarm.\<close>

definition nil_due :: "nil_config \<Rightarrow> nat set \<Rightarrow> systime_t \<Rightarrow> nil_system \<Rightarrow> bool" where
  "nil_due c A nxt s \<longleftrightarrow> (\<forall>t < NUM_THREADS c. timeout (threads s t) > 0 \<longrightarrow>
     (if t \<in> A then nxt > 0 \<and> nxt \<le> timeout (threads s t) else n_nexttime s - n_lasttime s \<le> timeout (threads s t)))"

lemma word_le_pred: "(n :: systime_t) \<noteq> 0 \<Longrightarrow> x \<le> n - 1 \<longleftrightarrow> x < n"
  by (simp add: word_le_nat_alt word_less_nat_alt unat_minus_one) (metis Suc_pred less_Suc_eq_le unat_gt_0)

lemma nil_due_step:
  assumes "nil_due c A nxt s" "t < NUM_THREADS c" "d = n_nexttime s - n_lasttime s" "t \<notin> A"
    and n: "nxt' = (if timeout (threads s t) > 0 \<and> timeout (threads s t) \<noteq> d \<and> timeout (threads s t) - d \<le> nxt - 1 then timeout (threads s t) - d else nxt)"
  shows "nil_due c (insert t A) nxt' (nil_elapsed t d s)"
  unfolding nil_due_def
proof (intro allI impI)
  let ?s = "nil_elapsed t d s" and ?x = "timeout (threads s t) - d"
  fix u assume u: "u < NUM_THREADS c" "0 < timeout (threads ?s u)"
  have le: "nxt > 0 \<longrightarrow> nxt' > 0 \<and> nxt' \<le> nxt" using n word_le_pred [of nxt ?x] by (auto simp: word_gt_0)
  show "if u \<in> insert t A then 0 < nxt' \<and> nxt' \<le> timeout (threads ?s u) else n_nexttime ?s - n_lasttime ?s \<le> timeout (threads ?s u)"
  proof (cases "u = t")
    case True
    then have x: "timeout (threads s t) \<noteq> 0" "timeout (threads ?s u) = ?x" "?x \<noteq> 0" using u(2) by (auto simp: nil_elapsed_frame split: if_splits)
    have "nxt' \<le> ?x \<and> 0 < nxt'"
    proof (cases "?x \<le> nxt - 1")
      case False
      then have "nxt \<noteq> 0" by (auto simp: word_order.extremum)
      then show ?thesis using False n word_le_pred [of nxt ?x] by (simp add: word_gt_0)
    qed (use n x in \<open>auto simp: word_gt_0\<close>)
    then show ?thesis using True x by simp
  next
    case False
    then show ?thesis using assms(1) u le by (auto simp: nil_due_def nil_elapsed_frame word_gt_0 intro: order_trans)
  qed
qed

lemma nil_due_calms: "nil_due c A nxt s \<Longrightarrow> nil_calms s s' \<Longrightarrow> nil_due c A nxt s'"
  unfolding nil_due_def nil_calms_def by (metis word_gt_0)

text \<open>What the loop of the handler leaves alone.\<close>

definition nil_same_times :: "nil_system \<Rightarrow> nil_system \<Rightarrow> bool" where
  "nil_same_times s s' \<longleftrightarrow> n_current s' = n_current s \<and> n_nexttime s' = n_nexttime s \<and> n_lasttime s' = n_lasttime s \<and> n_alarm s' = n_alarm s \<and>
     n_time s' = n_time s"

lemma nil_tickless_loop_ok:
  assumes "nil_nested c S isr" "NIL_MSG_TIMEOUT \<notin> S" "nil_core c S s" "set ts \<subseteq> {..<NUM_THREADS c}" "distinct ts" "A \<inter> set ts = {}" "nil_due c A nxt s"
  shows "\<exists>nxt' s'. nil_tickless_loop c isr ts (nxt, s) = Some (nxt', s') \<and> nil_core c S s' \<and> nil_due c (A \<union> set ts) nxt' s' \<and> nil_same_times s s'"
  using assms(3-)
proof (induction ts arbitrary: A nxt s)
  case (Cons t ts)
  define d where "d = n_nexttime s - n_lasttime s"
  define n where "n = (if timeout (threads s t) > 0 \<and> timeout (threads s t) \<noteq> d \<and> timeout (threads s t) - d \<le> nxt - 1 then timeout (threads s t) - d else nxt)"
  let ?s = "nil_elapsed t d s"
  have t: "t < NUM_THREADS c" "t \<notin> A" using Cons.prems by auto
  have e: "nil_tickless_thread c t (nxt, s) = Some (n, ?s)" unfolding n_def
    using Cons.prems(1,5) t by (intro nil_tickless_thread_eq) (auto simp: nil_due_def d_def)
  have "nil_core c S ?s" using nil_core_elapsed [OF Cons.prems(1) t(1) assms(2)] .
  then obtain s1 where s1: "isr t ?s = Some s1" "nil_core c S s1" "nil_calms ?s s1" using assms(1) unfolding nil_nested_def by blast
  have "nil_due c (insert t A) n s1" using nil_due_calms [OF nil_due_step [OF Cons.prems(5) t(1) d_def t(2) n_def] s1(3)] .
  then obtain n' s' where "nil_tickless_loop c isr ts (n, s1) = Some (n', s')" "nil_core c S s'" "nil_due c (insert t A \<union> set ts) n' s'" "nil_same_times s1 s'"
    using Cons.IH [OF s1(2), of "insert t A" n] Cons.prems by auto
  moreover have "nil_same_times s s'" using calculation(4) s1(3) by (simp add: nil_same_times_def nil_calms_def nil_elapsed_frame)
  ultimately show ?case using e s1(1) by simp
qed (simp add: nil_same_times_def)

text \<open>The interrupt comes with every tick, or when the clock reaches the alarm.\<close>

definition nil_irq :: "nil_config \<Rightarrow> nil_system \<Rightarrow> bool" where
  "nil_irq c s \<longleftrightarrow> TIMEDELTA c = 0 \<or> n_alarm s = Some (n_time s)"

lemma nil_irq_time:
  assumes "nil_inv c S s" "nil_irq c s" "TIMEDELTA c \<noteq> 0"
  shows "n_alarm s = Some (n_nexttime s)" "n_time s = n_nexttime s" "n_nexttime s \<noteq> n_lasttime s"
  using assms by (auto simp: nil_inv_def nil_ok_def nil_timers_def nil_irq_def split: if_splits)

lemma nil_handler_ok:
  assumes "nil_nested c S isr" "NIL_MSG_TIMEOUT \<notin> S" "nil_inv c S s" "nil_irq c s"
  shows "\<exists>s'. nil_chSysTimerHandlerI c isr s = Some s' \<and> nil_inv c S (snd (nil_chSchRescheduleS s'))"
proof -
  have co: "nil_core c S s" "nil_timers c s" using assms(3) by (simp_all add: nil_inv_def nil_ok_def)
  have "\<exists>s'. nil_chSysTimerHandlerI c isr s = Some s' \<and> nil_core c S s' \<and> nil_timers c s' \<and> nil_clock c s'"
  proof (cases "TIMEDELTA c = 0")
    case True
    have "nil_core c S (s\<lparr>n_systime := n_systime s + 1\<rparr>)" using co(1) by (rule nil_core_cong) (use co in \<open>auto simp: nil_core_def nil_sched_def\<close>)
    from nil_tick_loop_ok [OF assms(1,2) this, of "[0..<NUM_THREADS c]"]
    show ?thesis using True by (auto simp: nil_chSysTimerHandlerI_def nil_timers_def nil_clock_def atLeast0LessThan)
  next
    case False
    note tm = nil_irq_time [OF assms(3,4) False]
    have "nil_due c {} 0 s" using co(2) False by (simp add: nil_due_def nil_timers_def)
    then obtain n s' where l: "nil_tickless_loop c isr [0..<NUM_THREADS c] (0, s) = Some (n, s')" "nil_core c S s'"
        "nil_due c {..<NUM_THREADS c} n s'" "nil_same_times s s'"
      using nil_tickless_loop_ok [OF assms(1,2) co(1), of "[0..<NUM_THREADS c]" "{}" 0] by (auto simp: atLeast0LessThan)
    define s'' where "s'' = (let s = s'\<lparr>n_lasttime := n_nexttime s'\<rparr> in
        if n > 0 then s\<lparr>n_nexttime := n_nexttime s + n, n_alarm := Some (n_nexttime s + n)\<rparr> else s\<lparr>n_alarm := None\<rparr>)"
    have "nil_chSysTimerHandlerI c isr s = Some s''"
      using False tm(1) l(1) by (simp add: nil_chSysTimerHandlerI_def s''_def Let_def)
    moreover have "nil_core c S s''" using l(2) by (rule nil_core_cong) (use l(2) in \<open>auto simp: s''_def Let_def nil_core_def nil_sched_def\<close>)
    moreover have "nil_timers c s''" using l(3) by (auto simp: s''_def Let_def nil_timers_def nil_due_def word_gt_0)
    moreover have "nil_clock c s''" using l(4) tm by (auto simp: s''_def Let_def nil_clock_def nil_same_times_def)
    ultimately show ?thesis by blast
  qed
  then obtain s' where s': "nil_chSysTimerHandlerI c isr s = Some s'" "nil_core c S s'" "nil_timers c s'" "nil_clock c s'" by blast
  moreover have "nil_clock c (snd (nil_chSchRescheduleS s'))" using s'(4) by (simp add: nil_chSchRescheduleS_def nil_clock_def)
  ultimately show ?thesis using nil_ok_resched by (auto simp: nil_inv_def)
qed

text \<open>Without nested interrupts the loops are folds, so that their effect is known for every thread, semaphore and reference.\<close>

definition nil_elapsed_thread :: "systime_t \<Rightarrow> nil_thread \<Rightarrow> nil_thread" where
  "nil_elapsed_thread d th =
     (if timeout th = 0 then th
      else if timeout th = d then th\<lparr>u1 := NIL_MSG_TIMEOUT, nt_state := NIL_STATE_READY, timeout := 0\<rparr>
      else th\<lparr>timeout := timeout th - d\<rparr>)"

lemma nil_elapsed_threads: "threads (nil_elapsed t d s) = (threads s)(t := nil_elapsed_thread d (threads s t))"
  by (simp add: nil_elapsed_def nil_elapsed_thread_def fun_eq_iff)

lemma nil_tick_loop_fold:
  assumes "NIL_MSG_TIMEOUT \<notin> S" "nil_core c S s" "set ts \<subseteq> {..<NUM_THREADS c}"
  shows "nil_tick_loop c (\<lambda>_. Some) ts s = Some (fold (\<lambda>t. nil_elapsed t 1) ts s)"
  using assms(2,3)
proof (induction ts arbitrary: s)
  case (Cons t ts)
  then have t: "t < NUM_THREADS c" by simp
  show ?case using Cons.IH [OF nil_core_elapsed [OF Cons.prems(1) t assms(1)]] Cons.prems nil_tick_thread_eq [OF Cons.prems(1) t] by simp
qed simp

lemma nil_tickless_loop_fold:
  assumes "NIL_MSG_TIMEOUT \<notin> S" "nil_core c S s" "set ts \<subseteq> {..<NUM_THREADS c}" "distinct ts" "A \<inter> set ts = {}" "nil_due c A nxt s"
    "d = n_nexttime s - n_lasttime s"
  shows "\<exists>nxt'. nil_tickless_loop c (\<lambda>_. Some) ts (nxt, s) = Some (nxt', fold (\<lambda>t. nil_elapsed t d) ts s)"
  using assms(2-)
proof (induction ts arbitrary: A nxt s)
  case (Cons t ts)
  define n where "n = (if timeout (threads s t) > 0 \<and> timeout (threads s t) \<noteq> d \<and> timeout (threads s t) - d \<le> nxt - 1 then timeout (threads s t) - d else nxt)"
  let ?s = "nil_elapsed t d s"
  have t: "t < NUM_THREADS c" "t \<notin> A" using Cons.prems by auto
  have e: "nil_tickless_thread c t (nxt, s) = Some (n, ?s)" unfolding n_def
    using Cons.prems(1,5,6) t by (intro nil_tickless_thread_eq) (auto simp: nil_due_def)
  have "nil_due c (insert t A) n ?s" using nil_due_step [OF Cons.prems(5) t(1) Cons.prems(6) t(2) n_def] .
  then show ?case using Cons.IH [OF nil_core_elapsed [OF Cons.prems(1) t(1) assms(1), of d], of "insert t A" n] Cons.prems e
    by (auto simp: nil_elapsed_frame)
qed simp

lemma nil_fold_threads:
  "distinct ts \<Longrightarrow> threads (fold (\<lambda>t. nil_elapsed t d) ts s) t = (if t \<in> set ts then nil_elapsed_thread d (threads s t) else threads s t)"
  by (induction ts arbitrary: s) (auto simp: nil_elapsed_threads)

lemma nil_fold_sem:
  "distinct ts \<Longrightarrow> d \<noteq> 0 \<Longrightarrow> n_sem (fold (\<lambda>t. nil_elapsed t d) ts s) a =
     n_sem s a + int (card {t \<in> set ts. nstate s t = NIL_STATE_WTSEM \<and> u1 (threads s t) = a \<and> timeout (threads s t) = d})"
proof (induction ts arbitrary: s)
  case (Cons t ts)
  let ?P = "\<lambda>s t. nstate s t = NIL_STATE_WTSEM \<and> u1 (threads s t) = a \<and> timeout (threads s t) = d"
  have "{u \<in> set ts. ?P (nil_elapsed t d s) u} = {u \<in> set ts. ?P s u}" using Cons.prems by (auto simp: nil_elapsed_threads)
  moreover have "{u \<in> set (t # ts). ?P s u} = (if ?P s t then insert t {u \<in> set ts. ?P s u} else {u \<in> set ts. ?P s u})" by auto
  moreover have "n_sem (nil_elapsed t d s) a = n_sem s a + (if ?P s t then 1 else 0)" using Cons.prems by (auto simp: nil_elapsed_def nil_release_def)
  ultimately show ?case using Cons by simp
qed simp

lemma nil_fold_ref:
  "distinct ts \<Longrightarrow> d \<noteq> 0 \<Longrightarrow> n_ref (fold (\<lambda>t. nil_elapsed t d) ts s) a =
     (if \<exists>t \<in> set ts. nstate s t = NIL_STATE_SUSP \<and> u1 (threads s t) = a \<and> timeout (threads s t) = d then None else n_ref s a)"
proof (induction ts arbitrary: s)
  case (Cons t ts)
  have "\<forall>u \<in> set ts. threads (nil_elapsed t d s) u = threads s u" using Cons.prems by (auto simp: nil_elapsed_threads)
  moreover have "n_ref (nil_elapsed t d s) a = (if nstate s t = NIL_STATE_SUSP \<and> u1 (threads s t) = a \<and> timeout (threads s t) = d then None else n_ref s a)"
    using Cons.prems by (auto simp: nil_elapsed_def nil_release_def)
  ultimately show ?case using Cons by auto
qed simp

subsection \<open>The kernel as a transition system\<close>

text \<open>Interrupt handlers call the operations of the interrupt level; the epilogue of the port reschedules.\<close>

fun nil_isr :: "nil_config \<Rightarrow> nil_call \<Rightarrow> nil_system \<Rightarrow> nil_system option" where
  "nil_isr c (NResume trp msg) s = nil_chThdResumeI c trp msg s"
| "nil_isr c (NSignal sp) s = nil_chSemSignalI c sp s"
| "nil_isr c (NReset sp n) s = nil_chSemResetI c sp n s"
| "nil_isr c (NEvtSignal tp em) s = nil_chEvtSignalI c tp em s"
| "nil_isr c _ s = None"

fun nil_iclass :: "nil_call \<Rightarrow> bool" where
  "nil_iclass (NResume trp msg) = True"
| "nil_iclass (NSignal sp) = True"
| "nil_iclass (NReset sp n) = True"
| "nil_iclass (NEvtSignal tp em) = True"
| "nil_iclass _ = False"

inductive nil_step :: "nil_config \<Rightarrow> 32 word set \<Rightarrow> nil_system \<Rightarrow> nil_system \<Rightarrow> bool" for c S where
  call: "nil_pre c S k s \<Longrightarrow> nil_exec c k s = Some s' \<Longrightarrow> nil_step c S s s'"
| woken: "nil_step c S s (nil_chSysUnlock s)"
| evt_woken: "nil_step c S s (nil_chSysUnlock (snd (nil_chEvtWaitAnyTimeoutS_resume em s)))"
| irq: "nil_iclass k \<Longrightarrow> nil_pre c S k s \<Longrightarrow> nil_isr c k s = Some s' \<Longrightarrow> nil_step c S s (snd (nil_chSchRescheduleS s'))"
| timer: "nil_irq c s \<Longrightarrow> nil_nested c S isr \<Longrightarrow> nil_chSysTimerHandlerI c isr s = Some s' \<Longrightarrow> nil_step c S s (snd (nil_chSchRescheduleS s'))"
| clock: "n_alarm s \<noteq> Some (n_time s) \<Longrightarrow> nil_step c S s (s\<lparr>n_time := n_time s + 1\<rparr>)"

text \<open>Before the start the semaphores may have static initializers.\<close>

inductive nil_reach :: "nil_config \<Rightarrow> 32 word set \<Rightarrow> nil_system \<Rightarrow> bool" for c S where
  init: "\<forall>a \<in> S. 0 \<le> m a \<and> cnt_fits (m a) \<Longrightarrow> nil_reach c S (nil_chSysInit (nil_zero\<lparr>n_sem := m\<rparr>))"
| step: "nil_reach c S s \<Longrightarrow> nil_step c S s s' \<Longrightarrow> nil_reach c S s'"

lemma nil_isr_returns:
  assumes "nil_addrs S" "nil_iclass k" "nil_pre c S k s" "nil_inv c S s"
  shows "\<exists>s'. nil_isr c k s = Some s' \<and> nil_inv c S (snd (nil_chSchRescheduleS s'))"
  using assms thd_resume.interrupt_level sem_signal.interrupt_level sem_reset.interrupt_level evt_signal.interrupt_level by (cases k) auto

lemma nil_pre_lock [simp]: "nil_pre c S k (nil_chSysLock s) = nil_pre c S k s"
  by (cases k) simp_all

lemma nil_locked_returns:
  assumes "nil_addrs S" "nil_iclass k" "nil_pre c S k s" "nil_inv c S s"
  shows "\<exists>s'. nil_exec c k s = Some s' \<and> nil_inv c S s'"
  using assms thd_resume.thread_level sem_signal.thread_level sem_reset.thread_level evt_signal.thread_level
  by (cases k) (fastforce simp: nil_chSemSignal_def nil_chSemReset_def nil_chEvtSignal_def)+

lemma nil_inv_init:
  assumes "nil_inv c S s" "nil_pre c S (NInit sp n) s"
  shows "nil_inv c S (nil_chSemObjectInit sp n s)"
  using assms nil_core_set_sem [of c S s n sp] by (auto simp: nil_chSemObjectInit_def nil_inv_def nil_ok_def nil_clock_def nil_timers_def)

lemma nil_exec_returns:
  assumes "nil_addrs S" "nil_inv c S s" "nil_pre c S k s"
  shows "\<exists>s'. nil_exec c k s = Some s' \<and> nil_inv c S s'"
proof (cases "nil_iclass k")
  case True
  then show ?thesis using nil_locked_returns [OF assms(1) True assms(3,2)] by simp
next
  case False
  let ?s = "nil_chSysLock s"
  have l: "nil_inv c S ?s" "\<And>k. nil_pre c S k ?s = nil_pre c S k s" using assms(2) by simp_all
  show ?thesis
  proof (cases k)
    case (NSleep tmo)
    then show ?thesis using nil_sleep_returns [OF l(1), of tmo] assms(3) by (simp add: nil_chThdSleep_def nil_chThdSleepS_def)
  next
    case (NSleepUntil t)
    then show ?thesis using nil_sleep_returns [OF l(1), of "t - nil_chVTGetSystemTimeX c s"] assms(3)
      by (simp add: nil_chThdSleepUntil_def nil_chThdSleepS_def)
  next
    case (NSuspend trp tmo)
    then show ?thesis using nil_suspend_returns [OF l(1), of trp tmo] assms(3) by simp
  next
    case (NInit sp n)
    then show ?thesis using nil_inv_init [OF assms(2)] assms(3) by simp
  next
    case (NWait sp tmo)
    then obtain out s' where "nil_chSemWaitTimeoutS c sp tmo ?s = Some (out, s')" "nil_inv c S s'"
      using nil_wait_returns [OF l(1), of sp tmo] assms(3) by auto
    then show ?thesis using NWait by (cases out) (simp_all add: nil_chSemWaitTimeout_def)
  next
    case (NEvtWait em tmo)
    then obtain out s' where "nil_chEvtWaitAnyTimeoutS c em tmo ?s = Some (out, s')" "nil_inv c S s'"
      using nil_evt_wait_returns [OF l(1), of em tmo] assms(3) by auto
    then show ?thesis using NEvtWait by (cases out) (simp_all add: nil_chEvtWaitAnyTimeout_def)
  qed (use False in simp_all)
qed

lemma nil_clock_tick:
  assumes "nil_inv c S s" "n_alarm s \<noteq> Some (n_time s)"
  shows "nil_inv c S (s\<lparr>n_time := n_time s + 1\<rparr>)"
proof -
  have "nil_clock c (s\<lparr>n_time := n_time s + 1\<rparr>)"
  proof (cases "TIMEDELTA c = 0 \<or> n_nexttime s = n_lasttime s")
    case False
    let ?x = "n_time s - n_lasttime s" and ?y = "n_nexttime s - n_lasttime s"
    have "n_time s \<noteq> n_nexttime s" "?x \<le> ?y"
      using assms False by (auto simp: nil_inv_def nil_ok_def nil_timers_def nil_clock_def)
    then have "?x < ?y" by (simp add: order.strict_iff_order)
    then have "?x + 1 \<le> ?y" by (simp add: inc_le)
    moreover have "n_time s + 1 - n_lasttime s = ?x + 1" by simp
    ultimately have "n_time s + 1 - n_lasttime s \<le> ?y" by (simp only:)
    then show ?thesis by (simp add: nil_clock_def)
  qed (auto simp: nil_clock_def)
  moreover have "nil_core c S (s\<lparr>n_time := n_time s + 1\<rparr>)"
    by (rule nil_core_cong [of c S s]) (use assms(1) in \<open>simp_all add: nil_inv_def nil_ok_def nil_core_def nil_sched_def\<close>)
  moreover have "nil_timers c (s\<lparr>n_time := n_time s + 1\<rparr>)"
    by (rule nil_timers_cong [of c s]) (use assms(1) in \<open>simp_all add: nil_inv_def nil_ok_def\<close>)
  ultimately show ?thesis using assms(1) by (simp add: nil_inv_def nil_ok_def)
qed

lemma nil_step_inv:
  assumes "nil_step c S s s'" "nil_addrs S" "nil_inv c S s"
  shows "nil_inv c S s'"
  using assms
proof (induction rule: nil_step.induct)
  case (call k s s')
  then show ?case using nil_exec_returns [of S c s k] by auto
next
  case (evt_woken s em)
  then show ?case using nil_take_events_inv by (auto simp: nil_chEvtWaitAnyTimeoutS_resume_def)
next
  case (irq k s s')
  then show ?case using nil_isr_returns [of S k c s] by auto
next
  case (timer s isr s')
  then show ?case using nil_handler_ok [of c S isr s] by (auto simp: nil_addrs_def)
next
  case (clock s)
  then show ?case using nil_clock_tick by blast
qed simp

lemma nil_reach_inv:
  assumes "nil_reach c S s" "nil_addrs S"
  shows "nil_inv c S s"
  using assms
proof (induction rule: nil_reach.induct)
  case (init m)
  then show ?case by (auto simp: nil_inv_def nil_ok_def nil_core_def nil_sched_def nil_objs_def waiters_def nil_timers_def nil_clock_def nil_chSysInit_def
      nil_zero_def nil_addrs_def nil_consts)
qed (rule nil_step_inv)

subsection \<open>Theorems\<close>

text \<open>
  C3. In every reachable state of ChibiOS/NIL the running thread is the first ready one, as many threads wait on a semaphore
  as its negative counter says, and without a tick no thread is past its deadline.
\<close>

theorem nil_reachable_ok:
  assumes "nil_reach c S s" "nil_addrs S"
  shows "nstate s (n_current s) = NIL_STATE_READY \<and> (\<forall>t < n_current s. nstate s t \<noteq> NIL_STATE_READY) \<and>
    (\<forall>a \<in> S. int (card (waiters c s a)) = max 0 (- n_sem s a)) \<and>
    (\<forall>t < NUM_THREADS c. TIMEDELTA c \<noteq> 0 \<and> timeout (threads s t) \<noteq> 0 \<longrightarrow> n_time s - n_lasttime s \<le> timeout (threads s t))"
proof -
  have i: "nil_inv c S s" using nil_reach_inv [OF assms] .
  have "n_time s - n_lasttime s \<le> timeout (threads s t)" if "t < NUM_THREADS c" "TIMEDELTA c \<noteq> 0" "timeout (threads s t) \<noteq> 0" for t
  proof -
    have "n_nexttime s - n_lasttime s \<le> timeout (threads s t)" "n_nexttime s \<noteq> n_lasttime s"
      using i that by (simp_all add: nil_inv_def nil_ok_def nil_timers_def word_gt_0)
    then show ?thesis using i that(2) by (auto simp: nil_inv_def nil_clock_def intro: order_trans)
  qed
  moreover have "\<forall>a \<in> S. int (card (waiters c s a)) = max 0 (- n_sem s a)" using i by (auto simp: nil_inv_def nil_ok_def nil_core_def nil_objs_def)
  ultimately show ?thesis using i by (simp add: nil_inv_def nil_ok_def nil_core_def nil_sched_def)
qed

text \<open>
  C4. No assertion of the kernel fails in a reachable state: every call whose caller meets its obligations returns, from a thread and
  from an interrupt handler, and so does the timer interrupt, whatever permitted interrupts nest in it.
\<close>

theorem nil_no_assertion_fails:
  assumes "nil_reach c S s" "nil_addrs S"
  shows "(nil_pre c S k s \<longrightarrow> (\<exists>s'. nil_exec c k s = Some s' \<and> nil_reach c S s')) \<and>
    (nil_iclass k \<and> nil_pre c S k s \<longrightarrow> (\<exists>s'. nil_isr c k s = Some s')) \<and>
    (nil_irq c s \<and> nil_nested c S isr \<longrightarrow> (\<exists>s'. nil_chSysTimerHandlerI c isr s = Some s'))"
proof -
  have i: "nil_inv c S s" using nil_reach_inv [OF assms] .
  have "NIL_MSG_TIMEOUT \<notin> S" using assms(2) by (simp add: nil_addrs_def)
  then have "nil_irq c s \<and> nil_nested c S isr \<longrightarrow> (\<exists>s'. nil_chSysTimerHandlerI c isr s = Some s')" using nil_handler_ok i by blast
  moreover have "nil_pre c S k s \<longrightarrow> (\<exists>s'. nil_exec c k s = Some s' \<and> nil_reach c S s')"
    using nil_exec_returns [OF assms(2) i] nil_step.call nil_reach.step [OF assms(1)] by blast
  ultimately show ?thesis using nil_isr_returns [OF assms(2) _ _ i] by blast
qed

text \<open>
  C9. The timer interrupt, with a tick or without: exactly the threads whose time-out has elapsed become ready with the message
  of a time-out, the others have that much less to wait; a semaphore gets one count back for each of its waiters that timed out, and the
  reference of a thread that timed out is cleared.
\<close>

theorem nil_timer_exact:
  assumes "nil_inv c S s" "nil_irq c s" "NIL_MSG_TIMEOUT \<notin> S" "d = (if TIMEDELTA c = 0 then 1 else n_nexttime s - n_lasttime s)"
  shows "\<exists>s'. nil_chSysTimerHandlerI c (\<lambda>_. Some) s = Some s' \<and>
    (\<forall>t < NUM_THREADS c. threads s' t = nil_elapsed_thread d (threads s t)) \<and>
    (\<forall>a. n_sem s' a = n_sem s a + int (card {t \<in> waiters c s a. timeout (threads s t) = d})) \<and>
    (\<forall>a. n_ref s' a = (case n_ref s a of None \<Rightarrow> None | Some t \<Rightarrow> if timeout (threads s t) = d then None else Some t))"
proof -
  let ?ts = "[0..<NUM_THREADS c]"
  have co: "nil_core c S s" "nil_timers c s" using assms(1) by (simp_all add: nil_inv_def nil_ok_def)
  have d: "d \<noteq> 0" using assms(4) nil_irq_time(3) [OF assms(1,2)] by auto
  obtain s1 s' where s': "nil_chSysTimerHandlerI c (\<lambda>_. Some) s = Some s'" "threads s1 = threads s" "n_sem s1 = n_sem s" "n_ref s1 = n_ref s"
    and e: "threads s' = threads (fold (\<lambda>t. nil_elapsed t d) ?ts s1)" "n_sem s' = n_sem (fold (\<lambda>t. nil_elapsed t d) ?ts s1)"
      "n_ref s' = n_ref (fold (\<lambda>t. nil_elapsed t d) ?ts s1)"
  proof (cases "TIMEDELTA c = 0")
    case True
    let ?s = "s\<lparr>n_systime := n_systime s + 1\<rparr>"
    have "nil_core c S ?s" by (rule nil_core_cong [OF co(1)]) (use co(1) in \<open>simp_all add: nil_core_def nil_sched_def\<close>)
    from nil_tick_loop_fold [OF assms(3) this, of ?ts] show ?thesis
      using that [of _ ?s] True assms(4) by (auto simp: nil_chSysTimerHandlerI_def atLeast0LessThan)
  next
    case False
    have "nil_due c {} 0 s" using co(2) False by (simp add: nil_due_def nil_timers_def)
    then obtain n where "nil_tickless_loop c (\<lambda>_. Some) ?ts (0, s) = Some (n, fold (\<lambda>t. nil_elapsed t d) ?ts s)"
      using nil_tickless_loop_fold [OF assms(3) co(1), of ?ts "{}" 0 d] assms(4) False by (auto simp: atLeast0LessThan)
    then show ?thesis using that [of _ s] False nil_irq_time(1) [OF assms(1,2) False]
      by (cases "n > 0") (simp_all add: nil_chSysTimerHandlerI_def)
  qed
  have "{t \<in> set ?ts. nstate s t = NIL_STATE_WTSEM \<and> u1 (threads s t) = a \<and> timeout (threads s t) = d} = {t \<in> waiters c s a. timeout (threads s t) = d}" for a
    by (auto simp: waiters_def)
  then have "n_sem s' a = n_sem s a + int (card {t \<in> waiters c s a. timeout (threads s t) = d})" for a
    using nil_fold_sem [of ?ts d s1 a] d s' e by simp
  moreover have "n_ref s' a = (case n_ref s a of None \<Rightarrow> None | Some t \<Rightarrow> if timeout (threads s t) = d then None else Some t)" for a
    using nil_fold_ref [of ?ts d s1 a] d s' e co(1) by (auto simp: nil_core_def nil_objs_def split: option.splits)
  ultimately show ?thesis using s' e nil_fold_threads [of ?ts d s1] by auto
qed

definition nil_lost :: "nat \<Rightarrow> nil_system option \<Rightarrow> bool" where
  "nil_lost t r \<longleftrightarrow> (\<exists>s'. r = Some s' \<and> nstate s' t = NIL_STATE_SLEEPING \<and> timeout (threads s' t) = 0 \<and>
     (\<forall>d. nil_elapsed_thread d (threads s' t) = threads s' t))"

lemma nil_sleep_zero:
  assumes "nil_inv c S s" "n_current s < NUM_THREADS c" and k: "k = n_current s"
    and s1: "s1 = nil_set_timeout c k tmo (upd_nt k (\<lambda>t. t\<lparr>nt_state := NIL_STATE_SLEEPING\<rparr>) (nil_chSysLock s))"
    and zero: "timeout (threads s1 k) = 0"
  shows "nil_lost k (nil_chThdSleepS c tmo (nil_chSysLock s))"
proof -
  obtain x where x: "threads s1 = (threads s)(k := (threads s k)\<lparr>nt_state := NIL_STATE_SLEEPING, timeout := x\<rparr>)"
    using nil_set_timeout_frame(1) [of c k tmo "upd_nt k (\<lambda>t. t\<lparr>nt_state := NIL_STATE_SLEEPING\<rparr>) (nil_chSysLock s)"] by (auto simp: s1)
  have "nstate s1 (NUM_THREADS c) = NIL_STATE_READY"
    using assms(1,2) k by (simp add: x nil_inv_def nil_ok_def nil_core_def nil_sched_def)
  from nil_scan_first [OF this] obtain n where "nil_scan c 0 s1 = Some n" by blast
  then have "nil_chThdSleepS c tmo (nil_chSysLock s) = Some (s1\<lparr>n_current := n, n_next := n\<rparr>)"
    using assms(2) s1 k by (simp add: nil_chThdSleepS_def nil_chSchGoSleepTimeoutS_def Let_def)
  then show ?thesis using zero x by (simp add: nil_lost_def nil_elapsed_thread_def)
qed

text \<open>
  C38. Sleeping threads that no alarm will wake. Without a tick, the deadline is counted from \<open>lasttime\<close>, the time of the last alarm,
  which may be long ago: when that makes a whole turn of the clock, the time-out that is stored is zero, that is none. And, in
  both modes, sleeping until the present moment is sleeping without a time-out.
\<close>

theorem nil_sleep_lost:
  assumes "nil_inv c S s" "n_current s < NUM_THREADS c"
  shows "(TIMEDELTA c \<noteq> 0 \<and> tmo \<noteq> NIL_TIME_INFINITE \<and> n_time s + (if tmo < TIMEDELTA c then TIMEDELTA c else tmo) = n_lasttime s \<longrightarrow>
      nil_lost (n_current s) (nil_chThdSleep c tmo s)) \<and>
    nil_lost (n_current s) (nil_chThdSleepUntil c (nil_chVTGetSystemTimeX c s) s)"
proof (intro conjI impI)
  assume "TIMEDELTA c \<noteq> 0 \<and> tmo \<noteq> NIL_TIME_INFINITE \<and> n_time s + (if tmo < TIMEDELTA c then TIMEDELTA c else tmo) = n_lasttime s"
  then show "nil_lost (n_current s) (nil_chThdSleep c tmo s)" unfolding nil_chThdSleep_def
    by (intro nil_sleep_zero [OF assms refl refl]) (simp add: nil_set_timeout_def Let_def nil_chVTGetSystemTimeX_def nil_chSysLock_def word_gt_0)
next
  have "timeout (threads s (n_current s)) = 0" using assms(1) by (simp add: nil_inv_def nil_ok_def nil_core_def nil_sched_def)
  then show "nil_lost (n_current s) (nil_chThdSleepUntil c (nil_chVTGetSystemTimeX c s) s)" unfolding nil_chThdSleepUntil_def Let_def nil_fits_lock
    by (intro nil_sleep_zero [OF assms refl refl]) (simp add: nil_set_timeout_def nil_consts)
qed

subsection \<open>Instances\<close>

definition nil_demo :: "systime_t \<Rightarrow> nil_config" where "nil_demo delta = \<lparr>NUM_THREADS = 2, TIMEDELTA = delta\<rparr>"
definition nil_demo_start :: nil_system where "nil_demo_start = nil_chSysInit (nil_zero\<lparr>n_sem := \<lambda>_. 0\<rparr>)"

lemma nil_demo_simps [simp]: "NUM_THREADS (nil_demo delta) = 2" "TIMEDELTA (nil_demo delta) = delta"
  by (simp_all add: nil_demo_def)

lemma nil_demo_addrs: "nil_addrs {4}"
  by (simp add: nil_addrs_def nil_consts)

lemma nil_demo_reach: "nil_reach (nil_demo delta) {4} nil_demo_start"
  unfolding nil_demo_start_def by (rule nil_reach.init) (simp add: cnt_fits_def)

lemma nil_demo_fields [simp]:
  "threads nil_demo_start t = \<lparr>nt_state = NIL_STATE_READY, u1 = 0, timeout = 0, epmask = 0\<rparr>" "n_current nil_demo_start = 0"
  "n_sem nil_demo_start a = 0" "n_time nil_demo_start = 0" "n_lasttime nil_demo_start = 0" "n_nexttime nil_demo_start = 0"
  by (simp_all add: nil_demo_start_def nil_chSysInit_def nil_zero_def)

text \<open>The first of two threads waits on the semaphore at address 4: the second one runs.\<close>

lemma nil_demo_wait:
  "\<exists>s. nil_exec (nil_demo 0) (NWait 4 1) nil_demo_start = Some s \<and> nil_reach (nil_demo 0) {4} s \<and> n_current s = 1 \<and> n_sem s 4 = - 1 \<and>
     threads s 0 = \<lparr>nt_state = NIL_STATE_WTSEM, u1 = 4, timeout = 1, epmask = 0\<rparr>"
proof -
  have "\<exists>s. nil_exec (nil_demo 0) (NWait 4 1) nil_demo_start = Some s \<and> n_current s = 1 \<and> n_sem s 4 = - 1 \<and>
     threads s 0 = \<lparr>nt_state = NIL_STATE_WTSEM, u1 = 4, timeout = 1, epmask = 0\<rparr>"
    by (simp add: nil_chSemWaitTimeout_def nil_chSemWaitTimeoutS_def nil_consts nil_chSchGoSleepTimeoutS_def nil_set_timeout_def Let_def
      nil_scan.simps cnt_add_def cnt_fits_def)
  moreover have "nil_pre (nil_demo 0) {4} (NWait 4 1) nil_demo_start" by (simp add: nil_fits_def cnt_fits_def)
  ultimately show ?thesis using nil_reach.step [OF nil_demo_reach nil_step.call] by blast
qed

theorem nil_reachable_ok_witness:
  "\<exists>s. nil_reach (nil_demo 0) {4} s \<and> n_current s = 1 \<and> nstate s 0 \<noteq> NIL_STATE_READY \<and> int (card (waiters (nil_demo 0) s 4)) = 1"
proof -
  obtain s where s: "nil_reach (nil_demo 0) {4} s" "n_current s = 1" "n_sem s 4 = - 1" using nil_demo_wait by blast
  then show ?thesis using nil_reachable_ok [OF s(1) nil_demo_addrs] by auto
qed

theorem nil_no_assertion_fails_witness:
  "\<exists>s. nil_reach (nil_demo 0) {4} s \<and> (\<exists>s'. nil_exec (nil_demo 0) (NSignal 4) s = Some s') \<and> (\<exists>s'. nil_isr (nil_demo 0) (NSignal 4) s = Some s') \<and>
     (\<exists>s'. nil_chSysTimerHandlerI (nil_demo 0) (\<lambda>_. Some) s = Some s')"
proof -
  obtain s where s: "nil_reach (nil_demo 0) {4} s" "n_sem s 4 = - 1" using nil_demo_wait by blast
  have "nil_irq (nil_demo 0) s" "nil_nested (nil_demo 0) {4} (\<lambda>_. Some)" "nil_pre (nil_demo 0) {4} (NSignal 4) s"
    by (simp_all add: nil_irq_def nil_nested_def s(2) cnt_fits_def)
  then show ?thesis using nil_no_assertion_fails [OF s(1) nil_demo_addrs, of "NSignal 4" "\<lambda>_. Some"] s(1) by auto
qed

theorem nil_timer_exact_witness:
  "\<exists>s s'. nstate s 0 = NIL_STATE_WTSEM \<and> n_sem s 4 = - 1 \<and> nil_chSysTimerHandlerI (nil_demo 0) (\<lambda>_. Some) s = Some s' \<and>
     nstate s' 0 = NIL_STATE_READY \<and> u1 (threads s' 0) = NIL_MSG_TIMEOUT \<and> n_sem s' 4 = 0"
proof -
  obtain s where s: "nil_reach (nil_demo 0) {4} s" "n_sem s 4 = - 1"
    "threads s 0 = \<lparr>nt_state = NIL_STATE_WTSEM, u1 = 4, timeout = 1, epmask = 0\<rparr>" using nil_demo_wait by blast
  have i: "nil_inv (nil_demo 0) {4} s" using nil_reach_inv [OF s(1) nil_demo_addrs] .
  then have w: "card (waiters (nil_demo 0) s 4) = 1" using s(2) by (simp add: nil_inv_def nil_ok_def nil_core_def nil_objs_def)
  moreover have "0 \<in> waiters (nil_demo 0) s 4" using s(3) by (simp add: waiters_def)
  ultimately have "waiters (nil_demo 0) s 4 = {0}" by (metis card_1_singletonE singletonD)
  moreover have "timeout (threads s 0) = 1" using s(3) by simp
  ultimately have c: "{t \<in> waiters (nil_demo 0) s 4. timeout (threads s t) = 1} = {0}" by blast
  have "nil_irq (nil_demo 0) s" "NIL_MSG_TIMEOUT \<notin> {4}" "1 = (if TIMEDELTA (nil_demo 0) = 0 then 1 else n_nexttime s - n_lasttime s)"
    "0 < NUM_THREADS (nil_demo 0)" by (simp_all add: nil_irq_def nil_consts)
  with nil_timer_exact [OF i this(1-3)] obtain s' where s': "nil_chSysTimerHandlerI (nil_demo 0) (\<lambda>_. Some) s = Some s'"
    "threads s' 0 = nil_elapsed_thread 1 (threads s 0)"
    "n_sem s' 4 = n_sem s 4 + int (card {t \<in> waiters (nil_demo 0) s 4. timeout (threads s t) = 1})"
    by blast
  show ?thesis using s' s(2,3) unfolding c
    by (intro exI [of _ s] exI [of _ s']) (simp add: nil_elapsed_thread_def)
qed

text \<open>Ten ticks before the clock turns over a thread sleeps for ten ticks, with nothing else having slept since the start.\<close>

theorem nil_sleep_lost_witness:
  "nil_lost 0 (nil_chThdSleep (nil_demo 2) 10 (nil_demo_start\<lparr>n_time := - 10\<rparr>)) \<and>
   nil_lost 0 (nil_chThdSleepUntil (nil_demo 2) (- 10) (nil_demo_start\<lparr>n_time := - 10\<rparr>))"
proof -
  let ?s = "nil_demo_start\<lparr>n_time := - 10\<rparr>"
  have i: "nil_inv (nil_demo 2) {4} nil_demo_start" using nil_reach_inv [OF nil_demo_reach nil_demo_addrs] .
  have "nil_core (nil_demo 2) {4} ?s" by (rule nil_core_cong [of _ _ nil_demo_start]) (use i in \<open>simp_all add: nil_inv_def nil_ok_def\<close>)
  then have "nil_inv (nil_demo 2) {4} ?s" using i by (simp add: nil_inv_def nil_ok_def nil_clock_def nil_timers_def)
  from nil_sleep_lost [OF this, of 10] show ?thesis by (simp add: nil_consts nil_chVTGetSystemTimeX_def)
qed

end
