(* ===== verification/HalMmcsd.thy ===== *)
theory HalMmcsd
  imports ChPrelude "HOL-Library.Word"
begin

text \<open>
  The part of \<open>os/hal\<close> that decodes the registers of memory cards (\<open>hal_mmcsd.h\<close>, \<open>hal_mmcsd.c\<close>): the CID and the CSD are 128 bits in four words,
  and their fields are slices of bits. A shift of a 32-bit value by 32 or more has no defined result in C; what the compiled code computes
  there is the parameter \<open>ov\<close>. On ARM, where a register shift by 32 gives 0, it is \<open>arm_shl\<close>.
\<close>

unbundle bit_operations_syntax

type_synonym overshift = "32 word \<Rightarrow> nat \<Rightarrow> 32 word"

definition c_shl :: "overshift \<Rightarrow> 32 word \<Rightarrow> nat \<Rightarrow> 32 word" where
  "c_shl ov x n = (if n < 32 then push_bit n x else ov x n)"

text \<open>The shift of ARM takes the amount from the lowest byte of a register.\<close>

definition arm_shl :: overshift where
  "arm_shl x n = push_bit (n mod 256) x"

section \<open>Slices\<close>

named_theorems mmcsd_slices \<open>positions of the fields\<close>

definition MMCSD_CSD_MMC_CSD_STRUCTURE_SLICE :: "nat \<times> nat" where [mmcsd_slices]: "MMCSD_CSD_MMC_CSD_STRUCTURE_SLICE = (127, 126)"
definition MMCSD_CSD_MMC_SPEC_VERS_SLICE :: "nat \<times> nat" where [mmcsd_slices]: "MMCSD_CSD_MMC_SPEC_VERS_SLICE = (125, 122)"
definition MMCSD_CSD_MMC_TAAC_SLICE :: "nat \<times> nat" where [mmcsd_slices]: "MMCSD_CSD_MMC_TAAC_SLICE = (119, 112)"
definition MMCSD_CSD_MMC_NSAC_SLICE :: "nat \<times> nat" where [mmcsd_slices]: "MMCSD_CSD_MMC_NSAC_SLICE = (111, 104)"
definition MMCSD_CSD_MMC_TRAN_SPEED_SLICE :: "nat \<times> nat" where [mmcsd_slices]: "MMCSD_CSD_MMC_TRAN_SPEED_SLICE = (103, 96)"
definition MMCSD_CSD_MMC_CCC_SLICE :: "nat \<times> nat" where [mmcsd_slices]: "MMCSD_CSD_MMC_CCC_SLICE = (95, 84)"
definition MMCSD_CSD_MMC_READ_BL_LEN_SLICE :: "nat \<times> nat" where [mmcsd_slices]: "MMCSD_CSD_MMC_READ_BL_LEN_SLICE = (83, 80)"
definition MMCSD_CSD_MMC_READ_BL_PARTIAL_SLICE :: "nat \<times> nat" where [mmcsd_slices]: "MMCSD_CSD_MMC_READ_BL_PARTIAL_SLICE = (79, 79)"
definition MMCSD_CSD_MMC_WRITE_BLK_MISALIGN_SLICE :: "nat \<times> nat" where [mmcsd_slices]: "MMCSD_CSD_MMC_WRITE_BLK_MISALIGN_SLICE = (78, 78)"
definition MMCSD_CSD_MMC_READ_BLK_MISALIGN_SLICE :: "nat \<times> nat" where [mmcsd_slices]: "MMCSD_CSD_MMC_READ_BLK_MISALIGN_SLICE = (77, 77)"
definition MMCSD_CSD_MMC_DSR_IMP_SLICE :: "nat \<times> nat" where [mmcsd_slices]: "MMCSD_CSD_MMC_DSR_IMP_SLICE = (76, 76)"
definition MMCSD_CSD_MMC_C_SIZE_SLICE :: "nat \<times> nat" where [mmcsd_slices]: "MMCSD_CSD_MMC_C_SIZE_SLICE = (73, 62)"
definition MMCSD_CSD_MMC_VDD_R_CURR_MIN_SLICE :: "nat \<times> nat" where [mmcsd_slices]: "MMCSD_CSD_MMC_VDD_R_CURR_MIN_SLICE = (61, 59)"
definition MMCSD_CSD_MMC_VDD_R_CURR_MAX_SLICE :: "nat \<times> nat" where [mmcsd_slices]: "MMCSD_CSD_MMC_VDD_R_CURR_MAX_SLICE = (58, 56)"
definition MMCSD_CSD_MMC_VDD_W_CURR_MIN_SLICE :: "nat \<times> nat" where [mmcsd_slices]: "MMCSD_CSD_MMC_VDD_W_CURR_MIN_SLICE = (55, 53)"
definition MMCSD_CSD_MMC_VDD_W_CURR_MAX_SLICE :: "nat \<times> nat" where [mmcsd_slices]: "MMCSD_CSD_MMC_VDD_W_CURR_MAX_SLICE = (52, 50)"
definition MMCSD_CSD_MMC_C_SIZE_MULT_SLICE :: "nat \<times> nat" where [mmcsd_slices]: "MMCSD_CSD_MMC_C_SIZE_MULT_SLICE = (49, 47)"
definition MMCSD_CSD_MMC_ERASE_GRP_SIZE_SLICE :: "nat \<times> nat" where [mmcsd_slices]: "MMCSD_CSD_MMC_ERASE_GRP_SIZE_SLICE = (46, 42)"
definition MMCSD_CSD_MMC_ERASE_GRP_MULT_SLICE :: "nat \<times> nat" where [mmcsd_slices]: "MMCSD_CSD_MMC_ERASE_GRP_MULT_SLICE = (41, 37)"
definition MMCSD_CSD_MMC_WP_GRP_SIZE_SLICE :: "nat \<times> nat" where [mmcsd_slices]: "MMCSD_CSD_MMC_WP_GRP_SIZE_SLICE = (36, 32)"
definition MMCSD_CSD_MMC_WP_GRP_ENABLE_SLICE :: "nat \<times> nat" where [mmcsd_slices]: "MMCSD_CSD_MMC_WP_GRP_ENABLE_SLICE = (31, 31)"
definition MMCSD_CSD_MMC_DEFAULT_ECC_SLICE :: "nat \<times> nat" where [mmcsd_slices]: "MMCSD_CSD_MMC_DEFAULT_ECC_SLICE = (30, 29)"
definition MMCSD_CSD_MMC_R2W_FACTOR_SLICE :: "nat \<times> nat" where [mmcsd_slices]: "MMCSD_CSD_MMC_R2W_FACTOR_SLICE = (28, 26)"
definition MMCSD_CSD_MMC_WRITE_BL_LEN_SLICE :: "nat \<times> nat" where [mmcsd_slices]: "MMCSD_CSD_MMC_WRITE_BL_LEN_SLICE = (25, 22)"
definition MMCSD_CSD_MMC_WRITE_BL_PARTIAL_SLICE :: "nat \<times> nat" where [mmcsd_slices]: "MMCSD_CSD_MMC_WRITE_BL_PARTIAL_SLICE = (21, 21)"
definition MMCSD_CSD_MMC_CONTENT_PROT_APP_SLICE :: "nat \<times> nat" where [mmcsd_slices]: "MMCSD_CSD_MMC_CONTENT_PROT_APP_SLICE = (16, 16)"
definition MMCSD_CSD_MMC_FILE_FORMAT_GRP_SLICE :: "nat \<times> nat" where [mmcsd_slices]: "MMCSD_CSD_MMC_FILE_FORMAT_GRP_SLICE = (15, 15)"
definition MMCSD_CSD_MMC_COPY_SLICE :: "nat \<times> nat" where [mmcsd_slices]: "MMCSD_CSD_MMC_COPY_SLICE = (14, 14)"
definition MMCSD_CSD_MMC_PERM_WRITE_PROTECT_SLICE :: "nat \<times> nat" where [mmcsd_slices]: "MMCSD_CSD_MMC_PERM_WRITE_PROTECT_SLICE = (13, 13)"
definition MMCSD_CSD_MMC_TMP_WRITE_PROTECT_SLICE :: "nat \<times> nat" where [mmcsd_slices]: "MMCSD_CSD_MMC_TMP_WRITE_PROTECT_SLICE = (12, 12)"
definition MMCSD_CSD_MMC_FILE_FORMAT_SLICE :: "nat \<times> nat" where [mmcsd_slices]: "MMCSD_CSD_MMC_FILE_FORMAT_SLICE = (11, 10)"
definition MMCSD_CSD_MMC_ECC_SLICE :: "nat \<times> nat" where [mmcsd_slices]: "MMCSD_CSD_MMC_ECC_SLICE = (9, 8)"
definition MMCSD_CSD_MMC_CRC_SLICE :: "nat \<times> nat" where [mmcsd_slices]: "MMCSD_CSD_MMC_CRC_SLICE = (7, 1)"
definition MMCSD_CSD_20_CRC_SLICE :: "nat \<times> nat" where [mmcsd_slices]: "MMCSD_CSD_20_CRC_SLICE = (7, 1)"
definition MMCSD_CSD_20_FILE_FORMAT_SLICE :: "nat \<times> nat" where [mmcsd_slices]: "MMCSD_CSD_20_FILE_FORMAT_SLICE = (11, 10)"
definition MMCSD_CSD_20_TMP_WRITE_PROTECT_SLICE :: "nat \<times> nat" where [mmcsd_slices]: "MMCSD_CSD_20_TMP_WRITE_PROTECT_SLICE = (12, 12)"
definition MMCSD_CSD_20_PERM_WRITE_PROTECT_SLICE :: "nat \<times> nat" where [mmcsd_slices]: "MMCSD_CSD_20_PERM_WRITE_PROTECT_SLICE = (13, 13)"
definition MMCSD_CSD_20_COPY_SLICE :: "nat \<times> nat" where [mmcsd_slices]: "MMCSD_CSD_20_COPY_SLICE = (14, 14)"
definition MMCSD_CSD_20_FILE_FORMAT_GRP_SLICE :: "nat \<times> nat" where [mmcsd_slices]: "MMCSD_CSD_20_FILE_FORMAT_GRP_SLICE = (15, 15)"
definition MMCSD_CSD_20_WRITE_BL_PARTIAL_SLICE :: "nat \<times> nat" where [mmcsd_slices]: "MMCSD_CSD_20_WRITE_BL_PARTIAL_SLICE = (21, 21)"
definition MMCSD_CSD_20_WRITE_BL_LEN_SLICE :: "nat \<times> nat" where [mmcsd_slices]: "MMCSD_CSD_20_WRITE_BL_LEN_SLICE = (25, 12)"
definition MMCSD_CSD_20_R2W_FACTOR_SLICE :: "nat \<times> nat" where [mmcsd_slices]: "MMCSD_CSD_20_R2W_FACTOR_SLICE = (28, 26)"
definition MMCSD_CSD_20_WP_GRP_ENABLE_SLICE :: "nat \<times> nat" where [mmcsd_slices]: "MMCSD_CSD_20_WP_GRP_ENABLE_SLICE = (31, 31)"
definition MMCSD_CSD_20_WP_GRP_SIZE_SLICE :: "nat \<times> nat" where [mmcsd_slices]: "MMCSD_CSD_20_WP_GRP_SIZE_SLICE = (38, 32)"
definition MMCSD_CSD_20_ERASE_SECTOR_SIZE_SLICE :: "nat \<times> nat" where [mmcsd_slices]: "MMCSD_CSD_20_ERASE_SECTOR_SIZE_SLICE = (45, 39)"
definition MMCSD_CSD_20_ERASE_BLK_EN_SLICE :: "nat \<times> nat" where [mmcsd_slices]: "MMCSD_CSD_20_ERASE_BLK_EN_SLICE = (46, 46)"
definition MMCSD_CSD_20_C_SIZE_SLICE :: "nat \<times> nat" where [mmcsd_slices]: "MMCSD_CSD_20_C_SIZE_SLICE = (69, 48)"
definition MMCSD_CSD_20_DSR_IMP_SLICE :: "nat \<times> nat" where [mmcsd_slices]: "MMCSD_CSD_20_DSR_IMP_SLICE = (76, 76)"
definition MMCSD_CSD_20_READ_BLK_MISALIGN_SLICE :: "nat \<times> nat" where [mmcsd_slices]: "MMCSD_CSD_20_READ_BLK_MISALIGN_SLICE = (77, 77)"
definition MMCSD_CSD_20_WRITE_BLK_MISALIGN_SLICE :: "nat \<times> nat" where [mmcsd_slices]: "MMCSD_CSD_20_WRITE_BLK_MISALIGN_SLICE = (78, 78)"
definition MMCSD_CSD_20_READ_BL_PARTIAL_SLICE :: "nat \<times> nat" where [mmcsd_slices]: "MMCSD_CSD_20_READ_BL_PARTIAL_SLICE = (79, 79)"
definition MMCSD_CSD_20_READ_BL_LEN_SLICE :: "nat \<times> nat" where [mmcsd_slices]: "MMCSD_CSD_20_READ_BL_LEN_SLICE = (83, 80)"
definition MMCSD_CSD_20_CCC_SLICE :: "nat \<times> nat" where [mmcsd_slices]: "MMCSD_CSD_20_CCC_SLICE = (95, 84)"
definition MMCSD_CSD_20_TRANS_SPEED_SLICE :: "nat \<times> nat" where [mmcsd_slices]: "MMCSD_CSD_20_TRANS_SPEED_SLICE = (103, 96)"
definition MMCSD_CSD_20_NSAC_SLICE :: "nat \<times> nat" where [mmcsd_slices]: "MMCSD_CSD_20_NSAC_SLICE = (111, 104)"
definition MMCSD_CSD_20_TAAC_SLICE :: "nat \<times> nat" where [mmcsd_slices]: "MMCSD_CSD_20_TAAC_SLICE = (119, 112)"
definition MMCSD_CSD_20_CSD_STRUCTURE_SLICE :: "nat \<times> nat" where [mmcsd_slices]: "MMCSD_CSD_20_CSD_STRUCTURE_SLICE = (127, 126)"
definition MMCSD_CSD_10_CRC_SLICE :: "nat \<times> nat" where [mmcsd_slices]: "MMCSD_CSD_10_CRC_SLICE = MMCSD_CSD_20_CRC_SLICE"
definition MMCSD_CSD_10_FILE_FORMAT_SLICE :: "nat \<times> nat" where [mmcsd_slices]: "MMCSD_CSD_10_FILE_FORMAT_SLICE = MMCSD_CSD_20_FILE_FORMAT_SLICE"
definition MMCSD_CSD_10_TMP_WRITE_PROTECT_SLICE :: "nat \<times> nat" where [mmcsd_slices]: "MMCSD_CSD_10_TMP_WRITE_PROTECT_SLICE = MMCSD_CSD_20_TMP_WRITE_PROTECT_SLICE"
definition MMCSD_CSD_10_PERM_WRITE_PROTECT_SLICE :: "nat \<times> nat" where [mmcsd_slices]: "MMCSD_CSD_10_PERM_WRITE_PROTECT_SLICE = MMCSD_CSD_20_PERM_WRITE_PROTECT_SLICE"
definition MMCSD_CSD_10_COPY_SLICE :: "nat \<times> nat" where [mmcsd_slices]: "MMCSD_CSD_10_COPY_SLICE = MMCSD_CSD_20_COPY_SLICE"
definition MMCSD_CSD_10_FILE_FORMAT_GRP_SLICE :: "nat \<times> nat" where [mmcsd_slices]: "MMCSD_CSD_10_FILE_FORMAT_GRP_SLICE = MMCSD_CSD_20_FILE_FORMAT_GRP_SLICE"
definition MMCSD_CSD_10_WRITE_BL_PARTIAL_SLICE :: "nat \<times> nat" where [mmcsd_slices]: "MMCSD_CSD_10_WRITE_BL_PARTIAL_SLICE = MMCSD_CSD_20_WRITE_BL_PARTIAL_SLICE"
definition MMCSD_CSD_10_WRITE_BL_LEN_SLICE :: "nat \<times> nat" where [mmcsd_slices]: "MMCSD_CSD_10_WRITE_BL_LEN_SLICE = MMCSD_CSD_20_WRITE_BL_LEN_SLICE"
definition MMCSD_CSD_10_R2W_FACTOR_SLICE :: "nat \<times> nat" where [mmcsd_slices]: "MMCSD_CSD_10_R2W_FACTOR_SLICE = MMCSD_CSD_20_R2W_FACTOR_SLICE"
definition MMCSD_CSD_10_WP_GRP_ENABLE_SLICE :: "nat \<times> nat" where [mmcsd_slices]: "MMCSD_CSD_10_WP_GRP_ENABLE_SLICE = MMCSD_CSD_20_WP_GRP_ENABLE_SLICE"
definition MMCSD_CSD_10_WP_GRP_SIZE_SLICE :: "nat \<times> nat" where [mmcsd_slices]: "MMCSD_CSD_10_WP_GRP_SIZE_SLICE = MMCSD_CSD_20_WP_GRP_SIZE_SLICE"
definition MMCSD_CSD_10_ERASE_SECTOR_SIZE_SLICE :: "nat \<times> nat" where [mmcsd_slices]: "MMCSD_CSD_10_ERASE_SECTOR_SIZE_SLICE = MMCSD_CSD_20_ERASE_SECTOR_SIZE_SLICE"
definition MMCSD_CSD_10_ERASE_BLK_EN_SLICE :: "nat \<times> nat" where [mmcsd_slices]: "MMCSD_CSD_10_ERASE_BLK_EN_SLICE = MMCSD_CSD_20_ERASE_BLK_EN_SLICE"
definition MMCSD_CSD_10_C_SIZE_MULT_SLICE :: "nat \<times> nat" where [mmcsd_slices]: "MMCSD_CSD_10_C_SIZE_MULT_SLICE = (49, 47)"
definition MMCSD_CSD_10_VDD_W_CURR_MAX_SLICE :: "nat \<times> nat" where [mmcsd_slices]: "MMCSD_CSD_10_VDD_W_CURR_MAX_SLICE = (52, 50)"
definition MMCSD_CSD_10_VDD_W_CURR_MIN_SLICE :: "nat \<times> nat" where [mmcsd_slices]: "MMCSD_CSD_10_VDD_W_CURR_MIN_SLICE = (55, 53)"
definition MMCSD_CSD_10_VDD_R_CURR_MAX_SLICE :: "nat \<times> nat" where [mmcsd_slices]: "MMCSD_CSD_10_VDD_R_CURR_MAX_SLICE = (58, 56)"
definition MMCSD_CSD_10_VDD_R_CURR_MIX_SLICE :: "nat \<times> nat" where [mmcsd_slices]: "MMCSD_CSD_10_VDD_R_CURR_MIX_SLICE = (61, 59)"
definition MMCSD_CSD_10_C_SIZE_SLICE :: "nat \<times> nat" where [mmcsd_slices]: "MMCSD_CSD_10_C_SIZE_SLICE = (73, 62)"
definition MMCSD_CSD_10_DSR_IMP_SLICE :: "nat \<times> nat" where [mmcsd_slices]: "MMCSD_CSD_10_DSR_IMP_SLICE = MMCSD_CSD_20_DSR_IMP_SLICE"
definition MMCSD_CSD_10_READ_BLK_MISALIGN_SLICE :: "nat \<times> nat" where [mmcsd_slices]: "MMCSD_CSD_10_READ_BLK_MISALIGN_SLICE = MMCSD_CSD_20_READ_BLK_MISALIGN_SLICE"
definition MMCSD_CSD_10_WRITE_BLK_MISALIGN_SLICE :: "nat \<times> nat" where [mmcsd_slices]: "MMCSD_CSD_10_WRITE_BLK_MISALIGN_SLICE = MMCSD_CSD_20_WRITE_BLK_MISALIGN_SLICE"
definition MMCSD_CSD_10_READ_BL_PARTIAL_SLICE :: "nat \<times> nat" where [mmcsd_slices]: "MMCSD_CSD_10_READ_BL_PARTIAL_SLICE = MMCSD_CSD_20_READ_BL_PARTIAL_SLICE"
definition MMCSD_CSD_10_READ_BL_LEN_SLICE :: "nat \<times> nat" where [mmcsd_slices]: "MMCSD_CSD_10_READ_BL_LEN_SLICE = (83, 80)"
definition MMCSD_CSD_10_CCC_SLICE :: "nat \<times> nat" where [mmcsd_slices]: "MMCSD_CSD_10_CCC_SLICE = MMCSD_CSD_20_CCC_SLICE"
definition MMCSD_CSD_10_TRANS_SPEED_SLICE :: "nat \<times> nat" where [mmcsd_slices]: "MMCSD_CSD_10_TRANS_SPEED_SLICE = MMCSD_CSD_20_TRANS_SPEED_SLICE"
definition MMCSD_CSD_10_NSAC_SLICE :: "nat \<times> nat" where [mmcsd_slices]: "MMCSD_CSD_10_NSAC_SLICE = MMCSD_CSD_20_NSAC_SLICE"
definition MMCSD_CSD_10_TAAC_SLICE :: "nat \<times> nat" where [mmcsd_slices]: "MMCSD_CSD_10_TAAC_SLICE = MMCSD_CSD_20_TAAC_SLICE"
definition MMCSD_CSD_10_CSD_STRUCTURE_SLICE :: "nat \<times> nat" where [mmcsd_slices]: "MMCSD_CSD_10_CSD_STRUCTURE_SLICE = MMCSD_CSD_20_CSD_STRUCTURE_SLICE"
definition MMCSD_CID_SDC_CRC_SLICE :: "nat \<times> nat" where [mmcsd_slices]: "MMCSD_CID_SDC_CRC_SLICE = (7, 1)"
definition MMCSD_CID_SDC_MDT_M_SLICE :: "nat \<times> nat" where [mmcsd_slices]: "MMCSD_CID_SDC_MDT_M_SLICE = (11, 8)"
definition MMCSD_CID_SDC_MDT_Y_SLICE :: "nat \<times> nat" where [mmcsd_slices]: "MMCSD_CID_SDC_MDT_Y_SLICE = (19, 12)"
definition MMCSD_CID_SDC_PSN_SLICE :: "nat \<times> nat" where [mmcsd_slices]: "MMCSD_CID_SDC_PSN_SLICE = (55, 24)"
definition MMCSD_CID_SDC_PRV_M_SLICE :: "nat \<times> nat" where [mmcsd_slices]: "MMCSD_CID_SDC_PRV_M_SLICE = (59, 56)"
definition MMCSD_CID_SDC_PRV_N_SLICE :: "nat \<times> nat" where [mmcsd_slices]: "MMCSD_CID_SDC_PRV_N_SLICE = (63, 60)"
definition MMCSD_CID_SDC_PNM0_SLICE :: "nat \<times> nat" where [mmcsd_slices]: "MMCSD_CID_SDC_PNM0_SLICE = (71, 64)"
definition MMCSD_CID_SDC_PNM1_SLICE :: "nat \<times> nat" where [mmcsd_slices]: "MMCSD_CID_SDC_PNM1_SLICE = (79, 72)"
definition MMCSD_CID_SDC_PNM2_SLICE :: "nat \<times> nat" where [mmcsd_slices]: "MMCSD_CID_SDC_PNM2_SLICE = (87, 80)"
definition MMCSD_CID_SDC_PNM3_SLICE :: "nat \<times> nat" where [mmcsd_slices]: "MMCSD_CID_SDC_PNM3_SLICE = (95, 88)"
definition MMCSD_CID_SDC_PNM4_SLICE :: "nat \<times> nat" where [mmcsd_slices]: "MMCSD_CID_SDC_PNM4_SLICE = (103, 96)"
definition MMCSD_CID_SDC_OID_SLICE :: "nat \<times> nat" where [mmcsd_slices]: "MMCSD_CID_SDC_OID_SLICE = (119, 104)"
definition MMCSD_CID_SDC_MID_SLICE :: "nat \<times> nat" where [mmcsd_slices]: "MMCSD_CID_SDC_MID_SLICE = (127, 120)"
definition MMCSD_CID_MMC_CRC_SLICE :: "nat \<times> nat" where [mmcsd_slices]: "MMCSD_CID_MMC_CRC_SLICE = (7, 1)"
definition MMCSD_CID_MMC_MDT_Y_SLICE :: "nat \<times> nat" where [mmcsd_slices]: "MMCSD_CID_MMC_MDT_Y_SLICE = (11, 8)"
definition MMCSD_CID_MMC_MDT_M_SLICE :: "nat \<times> nat" where [mmcsd_slices]: "MMCSD_CID_MMC_MDT_M_SLICE = (15, 12)"
definition MMCSD_CID_MMC_PSN_SLICE :: "nat \<times> nat" where [mmcsd_slices]: "MMCSD_CID_MMC_PSN_SLICE = (47, 16)"
definition MMCSD_CID_MMC_PRV_M_SLICE :: "nat \<times> nat" where [mmcsd_slices]: "MMCSD_CID_MMC_PRV_M_SLICE = (51, 48)"
definition MMCSD_CID_MMC_PRV_N_SLICE :: "nat \<times> nat" where [mmcsd_slices]: "MMCSD_CID_MMC_PRV_N_SLICE = (55, 52)"
definition MMCSD_CID_MMC_PNM0_SLICE :: "nat \<times> nat" where [mmcsd_slices]: "MMCSD_CID_MMC_PNM0_SLICE = (63, 56)"
definition MMCSD_CID_MMC_PNM1_SLICE :: "nat \<times> nat" where [mmcsd_slices]: "MMCSD_CID_MMC_PNM1_SLICE = (71, 64)"
definition MMCSD_CID_MMC_PNM2_SLICE :: "nat \<times> nat" where [mmcsd_slices]: "MMCSD_CID_MMC_PNM2_SLICE = (79, 72)"
definition MMCSD_CID_MMC_PNM3_SLICE :: "nat \<times> nat" where [mmcsd_slices]: "MMCSD_CID_MMC_PNM3_SLICE = (87, 80)"
definition MMCSD_CID_MMC_PNM4_SLICE :: "nat \<times> nat" where [mmcsd_slices]: "MMCSD_CID_MMC_PNM4_SLICE = (95, 88)"
definition MMCSD_CID_MMC_PNM5_SLICE :: "nat \<times> nat" where [mmcsd_slices]: "MMCSD_CID_MMC_PNM5_SLICE = (103, 96)"
definition MMCSD_CID_MMC_OID_SLICE :: "nat \<times> nat" where [mmcsd_slices]: "MMCSD_CID_MMC_OID_SLICE = (119, 104)"
definition MMCSD_CID_MMC_MID_SLICE :: "nat \<times> nat" where [mmcsd_slices]: "MMCSD_CID_MMC_MID_SLICE = (127, 120)"

definition mmcsd_slice :: "overshift \<Rightarrow> 32 word list \<Rightarrow> nat \<times> nat \<Rightarrow> 32 word" where
  "mmcsd_slice ov data sl = (case sl of (e, s) \<Rightarrow>
     let startidx = s div 32; startoff = s mod 32; endidx = e div 32; endmask = c_shl ov 1 (e mod 32 + 1) - 1
     in if startidx < endidx
        then drop_bit startoff (data ! startidx) OR c_shl ov (data ! endidx AND endmask) (32 - startoff)
        else drop_bit startoff (data ! startidx AND endmask))"

definition mmcsd_slice_check :: "nat \<times> nat \<Rightarrow> bool" where
  "mmcsd_slice_check sl \<longleftrightarrow> (case sl of (e, s) \<Rightarrow> e \<ge> s \<and> e - s < 32)"

definition mmcsd_get_slice :: "overshift \<Rightarrow> 32 word list \<Rightarrow> nat \<times> nat \<Rightarrow> 32 word option" where
  "mmcsd_get_slice ov data sl = do { assert_that (mmcsd_slice_check sl); Some (mmcsd_slice ov data sl) }"

text \<open>The fixed slices above pass the check, so the functions below use the value at once.\<close>

lemma mmcsd_slices_pass:
  "mmcsd_slice_check sl" if "sl \<in> {MMCSD_CID_MMC_CRC_SLICE, MMCSD_CID_MMC_MDT_M_SLICE, MMCSD_CID_MMC_MDT_Y_SLICE, MMCSD_CID_MMC_MID_SLICE,
    MMCSD_CID_MMC_OID_SLICE, MMCSD_CID_MMC_PNM0_SLICE, MMCSD_CID_MMC_PNM1_SLICE, MMCSD_CID_MMC_PNM2_SLICE,
    MMCSD_CID_MMC_PNM3_SLICE, MMCSD_CID_MMC_PNM4_SLICE, MMCSD_CID_MMC_PNM5_SLICE, MMCSD_CID_MMC_PRV_M_SLICE,
    MMCSD_CID_MMC_PRV_N_SLICE, MMCSD_CID_MMC_PSN_SLICE, MMCSD_CID_SDC_CRC_SLICE, MMCSD_CID_SDC_MDT_M_SLICE,
    MMCSD_CID_SDC_MDT_Y_SLICE, MMCSD_CID_SDC_MID_SLICE, MMCSD_CID_SDC_OID_SLICE, MMCSD_CID_SDC_PNM0_SLICE,
    MMCSD_CID_SDC_PNM1_SLICE, MMCSD_CID_SDC_PNM2_SLICE, MMCSD_CID_SDC_PNM3_SLICE, MMCSD_CID_SDC_PNM4_SLICE,
    MMCSD_CID_SDC_PRV_M_SLICE, MMCSD_CID_SDC_PRV_N_SLICE, MMCSD_CID_SDC_PSN_SLICE, MMCSD_CSD_10_CCC_SLICE,
    MMCSD_CSD_10_COPY_SLICE, MMCSD_CSD_10_CRC_SLICE, MMCSD_CSD_10_CSD_STRUCTURE_SLICE, MMCSD_CSD_10_C_SIZE_MULT_SLICE,
    MMCSD_CSD_10_C_SIZE_SLICE, MMCSD_CSD_10_DSR_IMP_SLICE, MMCSD_CSD_10_ERASE_BLK_EN_SLICE,
    MMCSD_CSD_10_ERASE_SECTOR_SIZE_SLICE, MMCSD_CSD_10_FILE_FORMAT_GRP_SLICE, MMCSD_CSD_10_FILE_FORMAT_SLICE,
    MMCSD_CSD_10_NSAC_SLICE, MMCSD_CSD_10_PERM_WRITE_PROTECT_SLICE, MMCSD_CSD_10_R2W_FACTOR_SLICE,
    MMCSD_CSD_10_READ_BLK_MISALIGN_SLICE, MMCSD_CSD_10_READ_BL_LEN_SLICE, MMCSD_CSD_10_READ_BL_PARTIAL_SLICE,
    MMCSD_CSD_10_TAAC_SLICE, MMCSD_CSD_10_TMP_WRITE_PROTECT_SLICE, MMCSD_CSD_10_TRANS_SPEED_SLICE,
    MMCSD_CSD_10_WP_GRP_ENABLE_SLICE, MMCSD_CSD_10_WP_GRP_SIZE_SLICE, MMCSD_CSD_10_WRITE_BLK_MISALIGN_SLICE,
    MMCSD_CSD_10_WRITE_BL_LEN_SLICE, MMCSD_CSD_10_WRITE_BL_PARTIAL_SLICE, MMCSD_CSD_20_CCC_SLICE, MMCSD_CSD_20_COPY_SLICE,
    MMCSD_CSD_20_CRC_SLICE, MMCSD_CSD_20_CSD_STRUCTURE_SLICE, MMCSD_CSD_20_C_SIZE_SLICE, MMCSD_CSD_20_DSR_IMP_SLICE,
    MMCSD_CSD_20_ERASE_BLK_EN_SLICE, MMCSD_CSD_20_ERASE_SECTOR_SIZE_SLICE, MMCSD_CSD_20_FILE_FORMAT_GRP_SLICE,
    MMCSD_CSD_20_FILE_FORMAT_SLICE, MMCSD_CSD_20_NSAC_SLICE, MMCSD_CSD_20_PERM_WRITE_PROTECT_SLICE,
    MMCSD_CSD_20_R2W_FACTOR_SLICE, MMCSD_CSD_20_READ_BLK_MISALIGN_SLICE, MMCSD_CSD_20_READ_BL_LEN_SLICE,
    MMCSD_CSD_20_READ_BL_PARTIAL_SLICE, MMCSD_CSD_20_TAAC_SLICE, MMCSD_CSD_20_TMP_WRITE_PROTECT_SLICE,
    MMCSD_CSD_20_TRANS_SPEED_SLICE, MMCSD_CSD_20_WP_GRP_ENABLE_SLICE, MMCSD_CSD_20_WP_GRP_SIZE_SLICE,
    MMCSD_CSD_20_WRITE_BLK_MISALIGN_SLICE, MMCSD_CSD_20_WRITE_BL_LEN_SLICE, MMCSD_CSD_20_WRITE_BL_PARTIAL_SLICE,
    MMCSD_CSD_MMC_CCC_SLICE, MMCSD_CSD_MMC_COPY_SLICE, MMCSD_CSD_MMC_CRC_SLICE, MMCSD_CSD_MMC_CSD_STRUCTURE_SLICE,
    MMCSD_CSD_MMC_C_SIZE_MULT_SLICE, MMCSD_CSD_MMC_C_SIZE_SLICE, MMCSD_CSD_MMC_DSR_IMP_SLICE, MMCSD_CSD_MMC_ECC_SLICE,
    MMCSD_CSD_MMC_ERASE_GRP_MULT_SLICE, MMCSD_CSD_MMC_ERASE_GRP_SIZE_SLICE, MMCSD_CSD_MMC_FILE_FORMAT_GRP_SLICE,
    MMCSD_CSD_MMC_FILE_FORMAT_SLICE, MMCSD_CSD_MMC_NSAC_SLICE, MMCSD_CSD_MMC_PERM_WRITE_PROTECT_SLICE,
    MMCSD_CSD_MMC_R2W_FACTOR_SLICE, MMCSD_CSD_MMC_READ_BLK_MISALIGN_SLICE, MMCSD_CSD_MMC_READ_BL_LEN_SLICE,
    MMCSD_CSD_MMC_READ_BL_PARTIAL_SLICE, MMCSD_CSD_MMC_SPEC_VERS_SLICE, MMCSD_CSD_MMC_TAAC_SLICE,
    MMCSD_CSD_MMC_TMP_WRITE_PROTECT_SLICE, MMCSD_CSD_MMC_TRAN_SPEED_SLICE, MMCSD_CSD_MMC_VDD_R_CURR_MAX_SLICE,
    MMCSD_CSD_MMC_VDD_R_CURR_MIN_SLICE, MMCSD_CSD_MMC_VDD_W_CURR_MAX_SLICE, MMCSD_CSD_MMC_VDD_W_CURR_MIN_SLICE,
    MMCSD_CSD_MMC_WP_GRP_ENABLE_SLICE, MMCSD_CSD_MMC_WP_GRP_SIZE_SLICE, MMCSD_CSD_MMC_WRITE_BLK_MISALIGN_SLICE,
    MMCSD_CSD_MMC_WRITE_BL_LEN_SLICE, MMCSD_CSD_MMC_WRITE_BL_PARTIAL_SLICE}" for sl
  using that by (elim insertE emptyE) (simp_all only: mmcsd_slices mmcsd_slice_check_def, simp_all)

section \<open>Unpacked registers\<close>

record unpacked_sdc_cid_t =
  sc_mid :: "8 word"
  sc_oid :: "16 word"
  sc_pnm :: "8 word list"
  sc_prv_n :: "8 word"
  sc_prv_m :: "8 word"
  sc_psn :: "32 word"
  sc_mdt_m :: "8 word"
  sc_mdt_y :: "16 word"
  sc_crc :: "8 word"

record unpacked_mmc_cid_t =
  mc_mid :: "8 word"
  mc_oid :: "16 word"
  mc_pnm :: "8 word list"
  mc_prv_n :: "8 word"
  mc_prv_m :: "8 word"
  mc_psn :: "32 word"
  mc_mdt_m :: "8 word"
  mc_mdt_y :: "16 word"
  mc_crc :: "8 word"

record unpacked_sdc_csd_10_t =
  c10_csd_structure :: "8 word"
  c10_taac :: "8 word"
  c10_nsac :: "8 word"
  c10_tran_speed :: "8 word"
  c10_ccc :: "16 word"
  c10_read_bl_len :: "8 word"
  c10_read_bl_partial :: "8 word"
  c10_write_blk_misalign :: "8 word"
  c10_read_blk_misalign :: "8 word"
  c10_dsr_imp :: "8 word"
  c10_c_size :: "16 word"
  c10_vdd_r_curr_min :: "8 word"
  c10_vdd_r_curr_max :: "8 word"
  c10_vdd_w_curr_min :: "8 word"
  c10_vdd_w_curr_max :: "8 word"
  c10_c_size_mult :: "8 word"
  c10_erase_blk_en :: "8 word"
  c10_erase_sector_size :: "8 word"
  c10_wp_grp_size :: "8 word"
  c10_wp_grp_enable :: "8 word"
  c10_r2w_factor :: "8 word"
  c10_write_bl_len :: "8 word"
  c10_write_bl_partial :: "8 word"
  c10_file_format_grp :: "8 word"
  c10_copy :: "8 word"
  c10_perm_write_protect :: "8 word"
  c10_tmp_write_protect :: "8 word"
  c10_file_format :: "8 word"
  c10_crc :: "8 word"

record unpacked_sdc_csd_20_t =
  c20_csd_structure :: "8 word"
  c20_taac :: "8 word"
  c20_nsac :: "8 word"
  c20_tran_speed :: "8 word"
  c20_ccc :: "16 word"
  c20_read_bl_len :: "8 word"
  c20_read_bl_partial :: "8 word"
  c20_write_blk_misalign :: "8 word"
  c20_read_blk_misalign :: "8 word"
  c20_dsr_imp :: "8 word"
  c20_c_size :: "32 word"
  c20_erase_blk_en :: "8 word"
  c20_erase_sector_size :: "8 word"
  c20_wp_grp_size :: "8 word"
  c20_wp_grp_enable :: "8 word"
  c20_r2w_factor :: "8 word"
  c20_write_bl_len :: "8 word"
  c20_write_bl_partial :: "8 word"
  c20_file_format_grp :: "8 word"
  c20_copy :: "8 word"
  c20_perm_write_protect :: "8 word"
  c20_tmp_write_protect :: "8 word"
  c20_file_format :: "8 word"
  c20_crc :: "8 word"

record unpacked_mmc_csd_t =
  cm_csd_structure :: "8 word"
  cm_spec_vers :: "8 word"
  cm_taac :: "8 word"
  cm_nsac :: "8 word"
  cm_tran_speed :: "8 word"
  cm_ccc :: "16 word"
  cm_read_bl_len :: "8 word"
  cm_read_bl_partial :: "8 word"
  cm_write_blk_misalign :: "8 word"
  cm_read_blk_misalign :: "8 word"
  cm_dsr_imp :: "8 word"
  cm_c_size :: "16 word"
  cm_vdd_r_curr_min :: "8 word"
  cm_vdd_r_curr_max :: "8 word"
  cm_vdd_w_curr_min :: "8 word"
  cm_vdd_w_curr_max :: "8 word"
  cm_c_size_mult :: "8 word"
  cm_erase_grp_size :: "8 word"
  cm_erase_grp_mult :: "8 word"
  cm_wp_grp_size :: "8 word"
  cm_wp_grp_enable :: "8 word"
  cm_default_ecc :: "8 word"
  cm_r2w_factor :: "8 word"
  cm_write_bl_len :: "8 word"
  cm_write_bl_partial :: "8 word"
  cm_content_prot_app :: "8 word"
  cm_file_format_grp :: "8 word"
  cm_copy :: "8 word"
  cm_perm_write_protect :: "8 word"
  cm_tmp_write_protect :: "8 word"
  cm_file_format :: "8 word"
  cm_ecc :: "8 word"
  cm_crc :: "8 word"

definition mmcsd_unpack_sdc_cid :: "overshift \<Rightarrow> 32 word list \<Rightarrow> unpacked_sdc_cid_t \<Rightarrow> unpacked_sdc_cid_t" where
  "mmcsd_unpack_sdc_cid ov reg u = u\<lparr>
     sc_crc := ucast (mmcsd_slice ov reg MMCSD_CID_SDC_CRC_SLICE),
     sc_mdt_y := ucast (mmcsd_slice ov reg MMCSD_CID_SDC_MDT_Y_SLICE) + 2000,
     sc_mdt_m := ucast (mmcsd_slice ov reg MMCSD_CID_SDC_MDT_M_SLICE),
     sc_mid := ucast (mmcsd_slice ov reg MMCSD_CID_SDC_MID_SLICE),
     sc_oid := ucast (mmcsd_slice ov reg MMCSD_CID_SDC_OID_SLICE),
     sc_prv_n := ucast (mmcsd_slice ov reg MMCSD_CID_SDC_PRV_N_SLICE),
     sc_prv_m := ucast (mmcsd_slice ov reg MMCSD_CID_SDC_PRV_M_SLICE),
     sc_psn := mmcsd_slice ov reg MMCSD_CID_SDC_PSN_SLICE,
     sc_pnm := [ucast (mmcsd_slice ov reg MMCSD_CID_SDC_PNM4_SLICE),
       ucast (mmcsd_slice ov reg MMCSD_CID_SDC_PNM3_SLICE),
       ucast (mmcsd_slice ov reg MMCSD_CID_SDC_PNM2_SLICE),
       ucast (mmcsd_slice ov reg MMCSD_CID_SDC_PNM1_SLICE),
       ucast (mmcsd_slice ov reg MMCSD_CID_SDC_PNM0_SLICE)]\<rparr>"

definition mmcsd_unpack_mmc_cid :: "overshift \<Rightarrow> 32 word list \<Rightarrow> unpacked_mmc_cid_t \<Rightarrow> unpacked_mmc_cid_t" where
  "mmcsd_unpack_mmc_cid ov reg u = u\<lparr>
     mc_crc := ucast (mmcsd_slice ov reg MMCSD_CID_MMC_CRC_SLICE),
     mc_mdt_y := ucast (mmcsd_slice ov reg MMCSD_CID_MMC_MDT_Y_SLICE) + 1997,
     mc_mdt_m := ucast (mmcsd_slice ov reg MMCSD_CID_MMC_MDT_M_SLICE),
     mc_mid := ucast (mmcsd_slice ov reg MMCSD_CID_MMC_MID_SLICE),
     mc_oid := ucast (mmcsd_slice ov reg MMCSD_CID_MMC_OID_SLICE),
     mc_prv_n := ucast (mmcsd_slice ov reg MMCSD_CID_MMC_PRV_N_SLICE),
     mc_prv_m := ucast (mmcsd_slice ov reg MMCSD_CID_MMC_PRV_M_SLICE),
     mc_psn := mmcsd_slice ov reg MMCSD_CID_MMC_PSN_SLICE,
     mc_pnm := [ucast (mmcsd_slice ov reg MMCSD_CID_MMC_PNM5_SLICE),
       ucast (mmcsd_slice ov reg MMCSD_CID_MMC_PNM4_SLICE),
       ucast (mmcsd_slice ov reg MMCSD_CID_MMC_PNM3_SLICE),
       ucast (mmcsd_slice ov reg MMCSD_CID_MMC_PNM2_SLICE),
       ucast (mmcsd_slice ov reg MMCSD_CID_MMC_PNM1_SLICE),
       ucast (mmcsd_slice ov reg MMCSD_CID_MMC_PNM0_SLICE)]\<rparr>"

definition mmcsd_unpack_csd_mmc :: "overshift \<Rightarrow> 32 word list \<Rightarrow> unpacked_mmc_csd_t \<Rightarrow> unpacked_mmc_csd_t" where
  "mmcsd_unpack_csd_mmc ov reg u = u\<lparr>
     cm_c_size := ucast (mmcsd_slice ov reg MMCSD_CSD_MMC_C_SIZE_SLICE),
     cm_c_size_mult := ucast (mmcsd_slice ov reg MMCSD_CSD_MMC_C_SIZE_MULT_SLICE),
     cm_ccc := ucast (mmcsd_slice ov reg MMCSD_CSD_MMC_CCC_SLICE),
     cm_copy := ucast (mmcsd_slice ov reg MMCSD_CSD_MMC_COPY_SLICE),
     cm_crc := ucast (mmcsd_slice ov reg MMCSD_CSD_MMC_CRC_SLICE),
     cm_csd_structure := ucast (mmcsd_slice ov reg MMCSD_CSD_MMC_CSD_STRUCTURE_SLICE),
     cm_dsr_imp := ucast (mmcsd_slice ov reg MMCSD_CSD_MMC_DSR_IMP_SLICE),
     cm_ecc := ucast (mmcsd_slice ov reg MMCSD_CSD_MMC_ECC_SLICE),
     cm_erase_grp_mult := ucast (mmcsd_slice ov reg MMCSD_CSD_MMC_ERASE_GRP_MULT_SLICE),
     cm_erase_grp_size := ucast (mmcsd_slice ov reg MMCSD_CSD_MMC_ERASE_GRP_SIZE_SLICE),
     cm_file_format := ucast (mmcsd_slice ov reg MMCSD_CSD_MMC_FILE_FORMAT_SLICE),
     cm_file_format_grp := ucast (mmcsd_slice ov reg MMCSD_CSD_MMC_FILE_FORMAT_GRP_SLICE),
     cm_nsac := ucast (mmcsd_slice ov reg MMCSD_CSD_MMC_NSAC_SLICE),
     cm_perm_write_protect := ucast (mmcsd_slice ov reg MMCSD_CSD_MMC_PERM_WRITE_PROTECT_SLICE),
     cm_r2w_factor := ucast (mmcsd_slice ov reg MMCSD_CSD_MMC_R2W_FACTOR_SLICE),
     cm_read_bl_len := ucast (mmcsd_slice ov reg MMCSD_CSD_MMC_READ_BL_LEN_SLICE),
     cm_read_bl_partial := ucast (mmcsd_slice ov reg MMCSD_CSD_MMC_READ_BL_PARTIAL_SLICE),
     cm_read_blk_misalign := ucast (mmcsd_slice ov reg MMCSD_CSD_MMC_READ_BLK_MISALIGN_SLICE),
     cm_spec_vers := ucast (mmcsd_slice ov reg MMCSD_CSD_MMC_SPEC_VERS_SLICE),
     cm_taac := ucast (mmcsd_slice ov reg MMCSD_CSD_MMC_TAAC_SLICE),
     cm_tmp_write_protect := ucast (mmcsd_slice ov reg MMCSD_CSD_MMC_TMP_WRITE_PROTECT_SLICE),
     cm_tran_speed := ucast (mmcsd_slice ov reg MMCSD_CSD_MMC_TRAN_SPEED_SLICE),
     cm_vdd_r_curr_max := ucast (mmcsd_slice ov reg MMCSD_CSD_MMC_VDD_R_CURR_MAX_SLICE),
     cm_vdd_r_curr_min := ucast (mmcsd_slice ov reg MMCSD_CSD_MMC_VDD_R_CURR_MIN_SLICE),
     cm_vdd_w_curr_max := ucast (mmcsd_slice ov reg MMCSD_CSD_MMC_VDD_W_CURR_MAX_SLICE),
     cm_vdd_w_curr_min := ucast (mmcsd_slice ov reg MMCSD_CSD_MMC_VDD_W_CURR_MIN_SLICE),
     cm_wp_grp_enable := ucast (mmcsd_slice ov reg MMCSD_CSD_MMC_WP_GRP_ENABLE_SLICE),
     cm_wp_grp_size := ucast (mmcsd_slice ov reg MMCSD_CSD_MMC_WP_GRP_SIZE_SLICE),
     cm_write_bl_len := ucast (mmcsd_slice ov reg MMCSD_CSD_MMC_WRITE_BL_LEN_SLICE),
     cm_write_bl_partial := ucast (mmcsd_slice ov reg MMCSD_CSD_MMC_WRITE_BL_PARTIAL_SLICE),
     cm_write_blk_misalign := ucast (mmcsd_slice ov reg MMCSD_CSD_MMC_WRITE_BLK_MISALIGN_SLICE)\<rparr>"

definition mmcsd_unpack_csd_v10 :: "overshift \<Rightarrow> 32 word list \<Rightarrow> unpacked_sdc_csd_10_t \<Rightarrow> unpacked_sdc_csd_10_t" where
  "mmcsd_unpack_csd_v10 ov reg u = u\<lparr>
     c10_c_size := ucast (mmcsd_slice ov reg MMCSD_CSD_10_C_SIZE_SLICE),
     c10_c_size_mult := ucast (mmcsd_slice ov reg MMCSD_CSD_10_C_SIZE_MULT_SLICE),
     c10_ccc := ucast (mmcsd_slice ov reg MMCSD_CSD_10_CCC_SLICE),
     c10_copy := ucast (mmcsd_slice ov reg MMCSD_CSD_10_COPY_SLICE),
     c10_crc := ucast (mmcsd_slice ov reg MMCSD_CSD_10_CRC_SLICE),
     c10_csd_structure := ucast (mmcsd_slice ov reg MMCSD_CSD_10_CSD_STRUCTURE_SLICE),
     c10_dsr_imp := ucast (mmcsd_slice ov reg MMCSD_CSD_10_DSR_IMP_SLICE),
     c10_erase_blk_en := ucast (mmcsd_slice ov reg MMCSD_CSD_10_ERASE_BLK_EN_SLICE),
     c10_erase_sector_size := ucast (mmcsd_slice ov reg MMCSD_CSD_10_ERASE_SECTOR_SIZE_SLICE),
     c10_file_format := ucast (mmcsd_slice ov reg MMCSD_CSD_10_FILE_FORMAT_SLICE),
     c10_file_format_grp := ucast (mmcsd_slice ov reg MMCSD_CSD_10_FILE_FORMAT_GRP_SLICE),
     c10_nsac := ucast (mmcsd_slice ov reg MMCSD_CSD_10_NSAC_SLICE),
     c10_perm_write_protect := ucast (mmcsd_slice ov reg MMCSD_CSD_10_PERM_WRITE_PROTECT_SLICE),
     c10_r2w_factor := ucast (mmcsd_slice ov reg MMCSD_CSD_10_R2W_FACTOR_SLICE),
     c10_read_bl_len := ucast (mmcsd_slice ov reg MMCSD_CSD_10_READ_BL_LEN_SLICE),
     c10_read_bl_partial := ucast (mmcsd_slice ov reg MMCSD_CSD_10_READ_BL_PARTIAL_SLICE),
     c10_read_blk_misalign := ucast (mmcsd_slice ov reg MMCSD_CSD_10_READ_BLK_MISALIGN_SLICE),
     c10_taac := ucast (mmcsd_slice ov reg MMCSD_CSD_10_TAAC_SLICE),
     c10_tmp_write_protect := ucast (mmcsd_slice ov reg MMCSD_CSD_10_TMP_WRITE_PROTECT_SLICE),
     c10_tran_speed := ucast (mmcsd_slice ov reg MMCSD_CSD_10_TRANS_SPEED_SLICE),
     c10_wp_grp_enable := ucast (mmcsd_slice ov reg MMCSD_CSD_10_WP_GRP_ENABLE_SLICE),
     c10_wp_grp_size := ucast (mmcsd_slice ov reg MMCSD_CSD_10_WP_GRP_SIZE_SLICE),
     c10_write_bl_len := ucast (mmcsd_slice ov reg MMCSD_CSD_10_WRITE_BL_LEN_SLICE),
     c10_write_bl_partial := ucast (mmcsd_slice ov reg MMCSD_CSD_10_WRITE_BL_PARTIAL_SLICE),
     c10_write_blk_misalign := ucast (mmcsd_slice ov reg MMCSD_CSD_10_WRITE_BLK_MISALIGN_SLICE)\<rparr>"

definition mmcsd_unpack_csd_v20 :: "overshift \<Rightarrow> 32 word list \<Rightarrow> unpacked_sdc_csd_20_t \<Rightarrow> unpacked_sdc_csd_20_t" where
  "mmcsd_unpack_csd_v20 ov reg u = u\<lparr>
     c20_c_size := mmcsd_slice ov reg MMCSD_CSD_20_C_SIZE_SLICE,
     c20_crc := ucast (mmcsd_slice ov reg MMCSD_CSD_20_CRC_SLICE),
     c20_ccc := ucast (mmcsd_slice ov reg MMCSD_CSD_20_CCC_SLICE),
     c20_copy := ucast (mmcsd_slice ov reg MMCSD_CSD_20_COPY_SLICE),
     c20_csd_structure := ucast (mmcsd_slice ov reg MMCSD_CSD_20_CSD_STRUCTURE_SLICE),
     c20_dsr_imp := ucast (mmcsd_slice ov reg MMCSD_CSD_20_DSR_IMP_SLICE),
     c20_erase_blk_en := ucast (mmcsd_slice ov reg MMCSD_CSD_20_ERASE_BLK_EN_SLICE),
     c20_file_format := ucast (mmcsd_slice ov reg MMCSD_CSD_20_FILE_FORMAT_SLICE),
     c20_file_format_grp := ucast (mmcsd_slice ov reg MMCSD_CSD_20_FILE_FORMAT_GRP_SLICE),
     c20_nsac := ucast (mmcsd_slice ov reg MMCSD_CSD_20_NSAC_SLICE),
     c20_perm_write_protect := ucast (mmcsd_slice ov reg MMCSD_CSD_20_PERM_WRITE_PROTECT_SLICE),
     c20_r2w_factor := ucast (mmcsd_slice ov reg MMCSD_CSD_20_R2W_FACTOR_SLICE),
     c20_read_bl_len := ucast (mmcsd_slice ov reg MMCSD_CSD_20_READ_BL_LEN_SLICE),
     c20_read_bl_partial := ucast (mmcsd_slice ov reg MMCSD_CSD_20_READ_BL_PARTIAL_SLICE),
     c20_read_blk_misalign := ucast (mmcsd_slice ov reg MMCSD_CSD_20_READ_BLK_MISALIGN_SLICE),
     c20_erase_sector_size := ucast (mmcsd_slice ov reg MMCSD_CSD_20_ERASE_SECTOR_SIZE_SLICE),
     c20_taac := ucast (mmcsd_slice ov reg MMCSD_CSD_20_TAAC_SLICE),
     c20_tmp_write_protect := ucast (mmcsd_slice ov reg MMCSD_CSD_20_TMP_WRITE_PROTECT_SLICE),
     c20_tran_speed := ucast (mmcsd_slice ov reg MMCSD_CSD_20_TRANS_SPEED_SLICE),
     c20_wp_grp_enable := ucast (mmcsd_slice ov reg MMCSD_CSD_20_WP_GRP_ENABLE_SLICE),
     c20_wp_grp_size := ucast (mmcsd_slice ov reg MMCSD_CSD_20_WP_GRP_SIZE_SLICE),
     c20_write_bl_len := ucast (mmcsd_slice ov reg MMCSD_CSD_20_WRITE_BL_LEN_SLICE),
     c20_write_bl_partial := ucast (mmcsd_slice ov reg MMCSD_CSD_20_WRITE_BL_PARTIAL_SLICE),
     c20_write_blk_misalign := ucast (mmcsd_slice ov reg MMCSD_CSD_20_WRITE_BLK_MISALIGN_SLICE)\<rparr>"

definition mmcsd_get_capacity :: "overshift \<Rightarrow> 32 word list \<Rightarrow> 32 word" where
  "mmcsd_get_capacity ov csd =
     (let v = mmcsd_slice ov csd MMCSD_CSD_10_CSD_STRUCTURE_SLICE
      in if v = 0
         then (let a = mmcsd_slice ov csd MMCSD_CSD_10_C_SIZE_SLICE;
                   b = mmcsd_slice ov csd MMCSD_CSD_10_C_SIZE_MULT_SLICE;
                   c = mmcsd_slice ov csd MMCSD_CSD_10_READ_BL_LEN_SLICE
               in c_shl ov (c_shl ov (a + 1) (unat (b + 2))) (unat (c - 9)))
         else if v = 1 then 1024 * (mmcsd_slice ov csd MMCSD_CSD_20_C_SIZE_SLICE + 1)
         else 0)"

definition mmcsd_get_capacity_ext :: "8 word list \<Rightarrow> 32 word" where
  "mmcsd_get_capacity_ext ext_csd =
     push_bit 24 (ucast (ext_csd ! 215)) + push_bit 16 (ucast (ext_csd ! 214)) + push_bit 8 (ucast (ext_csd ! 213)) + ucast (ext_csd ! 212)"

section \<open>Theorems\<close>

text \<open>Bit \<open>n\<close> of a register of words, and the number its bits from \<open>e\<close> down to \<open>s\<close> stand for.\<close>

definition reg_bit :: "32 word list \<Rightarrow> nat \<Rightarrow> bool" where
  "reg_bit data n \<longleftrightarrow> bit (data ! (n div 32)) (n mod 32)"

definition reg_field :: "32 word list \<Rightarrow> nat \<times> nat \<Rightarrow> nat" where
  "reg_field data sl = (case sl of (e, s) \<Rightarrow> (\<Sum>i \<le> e - s. if reg_bit data (s + i) then 2 ^ i else 0))"

lemma endmask_bits:
  assumes "e mod 32 = 31 \<longrightarrow> ov 1 32 = 0"
  shows "bit (c_shl ov 1 (e mod 32 + 1) - 1) i \<longleftrightarrow> i \<le> e mod 32"
proof (cases "e mod 32 = 31")
  case True
  then show ?thesis using assms by (simp add: c_shl_def) (auto simp: bit_simps dest: bit_imp_le_length)
next
  case False
  then have "e mod 32 + 1 < 32" using mod_less_divisor [of 32 e] by linarith
  then have "c_shl ov 1 (e mod 32 + 1) - 1 = mask (e mod 32 + 1)" by (simp add: c_shl_def mask_eq_exp_minus_1 push_bit_eq_mult)
  then show ?thesis using False mod_less_divisor [of 32 e] by (auto simp: bit_mask_iff less_Suc_eq_le)
qed

lemma reg_bit_at: "j < 32 \<Longrightarrow> reg_bit data (32 * k + j) \<longleftrightarrow> bit (data ! k) j"
  by (simp add: reg_bit_def)

lemma bit_32: "bit (w :: 32 word) j \<Longrightarrow> j < 32"
  using bit_imp_le_length by fastforce

lemma mmcsd_slice_bit:
  assumes sl: "mmcsd_slice_check (e, s)" and ov: "e mod 32 = 31 \<longrightarrow> ov 1 32 = 0"
  shows "bit (mmcsd_slice ov data (e, s)) i \<longleftrightarrow> i \<le> e - s \<and> reg_bit data (s + i)"
proof -
  define m where "m = c_shl ov 1 (e mod 32 + 1) - 1"
  have m: "bit m j \<longleftrightarrow> j \<le> e mod 32" for j unfolding m_def using ov by (rule endmask_bits)
  have es: "s \<le> e" "e < s + 32" using sl by (auto simp: mmcsd_slice_check_def)
  define k so eo where "k = s div 32" and "so = s mod 32" and "eo = e mod 32"
  have s: "s = 32 * k + so" "so < 32" "eo < 32" by (simp_all add: k_def so_def eo_def)
  show ?thesis
  proof (cases "s div 32 < e div 32")
    case True
    have "e < (k + 2) * 32" using s es by simp
    then have "e div 32 < k + 2" by (rule less_mult_imp_div_less)
    then have "e div 32 = k + 1" using True by (simp add: k_def)
    then have e: "e = 32 * (k + 1) + eo" using div_mult_mod_eq [of e 32] by (simp add: eo_def)
    then have eo: "eo < so" using es s by simp
    have v: "mmcsd_slice ov data (e, s) = drop_bit so (data ! k) OR push_bit (32 - so) (data ! (k + 1) AND m)"
      using True eo \<open>e div 32 = k + 1\<close> by (simp add: mmcsd_slice_def Let_def so_def m_def c_shl_def) (simp add: k_def)
    show ?thesis
    proof (cases "so + i < 32")
      case i: True
      then have "reg_bit data (s + i) \<longleftrightarrow> bit (data ! k) (so + i)" using reg_bit_at [of "so + i" data k] s(1) by (simp add: add.assoc)
      moreover have "i \<le> e - s" using i e s(1) by simp
      ultimately show ?thesis using i unfolding v by (auto simp: bit_simps)
    next
      case i: False
      define j where "j = so + i - 32"
      have "i - (32 - so) = j" using i s(2) by (simp add: j_def)
      then have "bit (mmcsd_slice ov data (e, s)) i \<longleftrightarrow> i < 32 \<and> bit (data ! (k + 1)) j \<and> j \<le> eo"
        using i m bit_32 [of "data ! k" "so + i"] unfolding v eo_def by (auto simp: bit_simps)
      moreover have "i \<le> e - s \<longleftrightarrow> j \<le> eo" using i e s eo by (auto simp: j_def)
      moreover have "j < 32 \<Longrightarrow> reg_bit data (s + i) \<longleftrightarrow> bit (data ! (k + 1)) j"
        using reg_bit_at [of j data "k + 1"] i s(1) by (simp add: j_def add.assoc)
      moreover have "j \<le> eo \<Longrightarrow> j < 32 \<and> i < 32" using i eo s by (simp add: j_def)
      ultimately show ?thesis by auto
    qed
  next
    case False
    have ek: "e div 32 = k" using False div_le_mono [OF es(1), of 32] by (simp add: k_def)
    then have e: "e = 32 * k + eo" using div_mult_mod_eq [of e 32] by (simp add: eo_def)
    have "mmcsd_slice ov data (e, s) = drop_bit so (data ! k AND m)" using False by (simp add: mmcsd_slice_def Let_def k_def so_def m_def)
    then have "bit (mmcsd_slice ov data (e, s)) i \<longleftrightarrow> bit (data ! k) (so + i) \<and> so + i \<le> eo" using m by (simp add: bit_simps eo_def)
    moreover have "i \<le> e - s \<longleftrightarrow> so + i \<le> eo" using e s(1) es(1) by auto
    moreover have "so + i \<le> eo \<Longrightarrow> reg_bit data (s + i) \<longleftrightarrow> bit (data ! k) (so + i)"
      using reg_bit_at [of "so + i" data k] s by (simp add: add.assoc)
    ultimately show ?thesis by blast
  qed
qed

lemma unat_bits: "unat (w :: 32 word) = (\<Sum>i < 32. if bit w i then 2 ^ i else 0)"
proof -
  have "unat w = take_bit 32 (unat w)" by (rule sym, rule take_bit_nat_eq_self) (use unsigned_less [of w] in simp)
  also have "\<dots> = (\<Sum>i = 0..<32. push_bit i (of_bool (bit (unat w) i)))" by (rule take_bit_sum)
  also have "\<dots> = (\<Sum>i < 32. if bit w i then 2 ^ i else 0)"
    unfolding atLeast0LessThan by (rule sum.cong) (auto simp: bit_unsigned_iff push_bit_eq_mult)
  finally show ?thesis .
qed

lemma mmcsd_slice_field:
  assumes "mmcsd_slice_check (e, s)" "e mod 32 = 31 \<longrightarrow> ov 1 32 = 0"
  shows "unat (mmcsd_slice ov data (e, s)) = reg_field data (e, s)"
proof -
  have "unat (mmcsd_slice ov data (e, s)) = (\<Sum>i < 32. if i \<le> e - s \<and> reg_bit data (s + i) then 2 ^ i else 0)"
    by (simp only: unat_bits mmcsd_slice_bit [where ov = ov, OF assms])
  also have "\<dots> = (\<Sum>i \<le> e - s. if reg_bit data (s + i) then 2 ^ i else 0)"
    using assms(1) by (intro sum.mono_neutral_cong_right) (auto simp: mmcsd_slice_check_def)
  finally show ?thesis by (simp add: reg_field_def)
qed

text \<open>
  Reading a field of a card register: for a slice the check lets through, and where the machine shifts 1 by 32 to 0 if the slice ends
  with a word, the code returns the number that the bits from the end of the slice down to its start stand for, also when
  they lie in two words.
\<close>

theorem mmcsd_get_slice_correct:
  assumes "s \<le> e" "e - s < 32" "e mod 32 = 31 \<longrightarrow> ov 1 32 = 0"
  shows "\<exists>w. mmcsd_get_slice ov data (e, s) = Some w \<and> unat w = reg_field data (e, s)"
  using mmcsd_slice_field [of e s ov data] assms by (simp add: mmcsd_get_slice_def mmcsd_slice_check_def)

theorem mmcsd_get_slice_correct_witness:
  "\<exists>w. mmcsd_get_slice arm_shl [0, 0xC0000000, 0x3F3, 0x40000000] (73, 62) = Some w \<and> unat w = reg_field [0, 0xC0000000, 0x3F3, 0x40000000] (73, 62) \<and>
     reg_field [0, 0xC0000000, 0x3F3, 0x40000000] (73, 62) = 4047"
proof -
  have "reg_field [0, 0xC0000000, 0x3F3, 0x40000000] (73, 62) = 4047" by code_simp
  then show ?thesis using mmcsd_get_slice_correct [of 62 73 arm_shl "[0, 0xC0000000, 0x3F3, 0x40000000]"] by simp
qed

lemma reg_field_less: "reg_field data (e, s) < 2 ^ (e - s + 1)"
proof -
  have "reg_field data (e, s) \<le> (\<Sum>i \<le> e - s. 2 ^ i)" unfolding reg_field_def prod.case by (rule sum_mono) simp
  also have "(\<Sum>i \<le> n. 2 ^ i) < (2 :: nat) ^ (n + 1)" for n by (induction n) simp_all
  finally show ?thesis .
qed

lemma mmcsd_field_word:
  assumes "ov 1 32 = 0" "mmcsd_slice_check (e, s)"
  shows "unat (mmcsd_slice ov data (e, s)) = reg_field data (e, s)" "unat (mmcsd_slice ov data (e, s)) < 2 ^ (e - s + 1)"
  using mmcsd_slice_field [of e s ov data] reg_field_less [of data e s] assms by simp_all

lemma unat_push_bit: "unat (x :: 32 word) * 2 ^ n < 2 ^ 32 \<Longrightarrow> unat (push_bit n x) = unat x * 2 ^ n"
  by (simp only: unsigned_push_bit_eq) (simp add: push_bit_eq_mult take_bit_nat_eq_self)

lemma unat_plus_small: "unat (x :: 32 word) + unat y < 2 ^ 32 \<Longrightarrow> unat (x + y) = unat x + unat y"
  using unat_add_lem [of x y] by simp

text \<open>
  C39. The capacity of a card. For a CSD of version 1.0 with a block length of 512, 1024 or 2048 bytes, and for one of version 2.0 with less
  than the greatest size, the number of blocks times 512 is the number of bytes that the fields stand for; for the reserved versions it is 0,
  and at the greatest size of version 2.0 the computation overflows to 0.
\<close>

theorem mmcsd_capacity_bytes:
  assumes ov: "ov 1 32 = 0" and v: "v = reg_field csd (127, 126)"
  shows "(v = 0 \<and> 9 \<le> reg_field csd (83, 80) \<and> reg_field csd (83, 80) \<le> 11 \<longrightarrow>
      512 * unat (mmcsd_get_capacity ov csd) = (reg_field csd (73, 62) + 1) * 2 ^ (reg_field csd (49, 47) + 2) * 2 ^ reg_field csd (83, 80)) \<and>
    (v = 1 \<and> reg_field csd (69, 48) < 2 ^ 22 - 1 \<longrightarrow> 512 * unat (mmcsd_get_capacity ov csd) = (reg_field csd (69, 48) + 1) * 512 * 1024) \<and>
    (v = 1 \<and> reg_field csd (69, 48) = 2 ^ 22 - 1 \<longrightarrow> mmcsd_get_capacity ov csd = 0) \<and>
    (v \<noteq> 0 \<and> v \<noteq> 1 \<longrightarrow> mmcsd_get_capacity ov csd = 0)"
proof -
  define V A B C D where "V = mmcsd_slice ov csd (127, 126)" and "A = mmcsd_slice ov csd (73, 62)" and "B = mmcsd_slice ov csd (49, 47)"
    and "C = mmcsd_slice ov csd (83, 80)" and "D = mmcsd_slice ov csd (69, 48)"
  have f: "unat V = v" "unat A = reg_field csd (73, 62)" "unat B = reg_field csd (49, 47)" "unat C = reg_field csd (83, 80)" "unat D = reg_field csd (69, 48)"
    "unat A < 4096" "unat B < 8" "unat D < 4194304"
    using mmcsd_field_word [where ov = ov, OF ov, of 127 126 csd] mmcsd_field_word [where ov = ov, OF ov, of 73 62 csd]
      mmcsd_field_word [where ov = ov, OF ov, of 49 47 csd] mmcsd_field_word [where ov = ov, OF ov, of 83 80 csd]
      mmcsd_field_word [where ov = ov, OF ov, of 69 48 csd] v by (simp_all add: mmcsd_slice_check_def V_def A_def B_def C_def D_def)
  have cap: "mmcsd_get_capacity ov csd = (if V = 0 then c_shl ov (c_shl ov (A + 1) (unat (B + 2))) (unat (C - 9)) else if V = 1 then 1024 * (D + 1) else 0)"
    by (simp add: mmcsd_get_capacity_def mmcsd_slices Let_def V_def A_def B_def C_def D_def)
  have V: "V = 0 \<longleftrightarrow> v = 0" "V = 1 \<longleftrightarrow> v = 1" using f(1) by (auto simp: word_unat_eq_iff)
  have 1: "512 * unat (mmcsd_get_capacity ov csd) = (unat A + 1) * 2 ^ (unat B + 2) * 2 ^ unat C" if "v = 0" "9 \<le> unat C" "unat C \<le> 11"
  proof -
    have "unat (A + 1) = unat A + 1" "unat (B + 2) = unat B + 2" "unat (C - 9) = unat C - 9"
      using f(6,7) that(2) unat_plus_small [of A 1] unat_plus_small [of B 2] unat_sub [of 9 C] by (simp_all add: word_le_nat_alt)
    moreover have "(unat A + 1) * 2 ^ (unat B + 2) \<le> 4096 * 2 ^ 9" using f(6,7) by (intro mult_le_mono power_increasing) auto
    moreover have "(unat A + 1) * 2 ^ (unat B + 2) * 2 ^ (unat C - 9) \<le> (4096 * 2 ^ 9) * 2 ^ 2"
      by (rule mult_le_mono [OF calculation(4) power_increasing]) (use that(3) in simp_all)
    moreover have "unat C - 9 < 32" using that(3) by simp
    ultimately have "unat (mmcsd_get_capacity ov csd) = (unat A + 1) * 2 ^ (unat B + 2) * 2 ^ (unat C - 9)"
      using that(1,3) V(1) f(7) unat_push_bit [of "A + 1" "unat B + 2"] unat_push_bit [of "push_bit (unat B + 2) (A + 1)" "unat C - 9"]
      by (simp add: cap c_shl_def)
    moreover have "(2 :: nat) ^ unat C = 2 ^ (unat C - 9) * 512" using that(2) power_add [of "2 :: nat" "unat C - 9" 9] by simp
    ultimately show ?thesis by simp
  qed
  have 2: "unat (D + 1) = unat D + 1" using f(8) unat_plus_small [of D 1] by simp
  have 3: "512 * unat (mmcsd_get_capacity ov csd) = (unat D + 1) * 512 * 1024" if "v = 1" "unat D < 2 ^ 22 - 1"
  proof -
    have "unat (1024 * (D + 1)) = 1024 * unat (D + 1)" using that(2) 2 unat_mult_lem [of 1024 "D + 1"] by simp
    then show ?thesis using that(1) V 2 by (simp add: cap)
  qed
  have 4: "mmcsd_get_capacity ov csd = 0" if "v = 1" "unat D = 2 ^ 22 - 1"
  proof -
    have "D = 0x3FFFFF" using that(2) by (simp add: word_unat_eq_iff)
    then show ?thesis using that(1) V by (simp add: cap)
  qed
  show ?thesis using 1 3 4 V cap f by auto
qed

theorem mmcsd_capacity_bytes_witness:
  "512 * unat (mmcsd_get_capacity arm_shl [0, 0x10000, 0, 0x40000000]) = 2 * 512 * 1024"
proof -
  have "reg_field [0, 0x10000, 0, 0x40000000] (127, 126) = 1" "reg_field [0, 0x10000, 0, 0x40000000] (69, 48) = 1" by code_simp+
  then show ?thesis using mmcsd_capacity_bytes [of arm_shl _ "[0, 0x10000, 0, 0x40000000]"] by (simp add: arm_shl_def)
qed

text \<open>
  The field \<open>WRITE_BL_LEN\<close> of a version 2.0 CSD is in bits 22 to 25, but its slice starts at bit 12. The number unpacked for it consists of
  bits 12 to 19, among them the flags for copy and write protection, and does not depend on the field at all.
\<close>

theorem csd_v20_write_bl_len_wrong:
  "(bit (c20_write_bl_len (mmcsd_unpack_csd_v20 ov csd u)) i \<longleftrightarrow> i < 8 \<and> reg_bit csd (12 + i)) \<and>
   (\<exists>csd. reg_field csd (25, 22) = 9 \<and> c20_write_bl_len (mmcsd_unpack_csd_v20 ov csd u) = 0)"
proof -
  have f: "c20_write_bl_len (mmcsd_unpack_csd_v20 ov csd u) = ucast (mmcsd_slice ov csd (25, 12))" for csd
    by (simp add: mmcsd_unpack_csd_v20_def mmcsd_slices)
  have b: "bit (c20_write_bl_len (mmcsd_unpack_csd_v20 ov csd u)) i \<longleftrightarrow> i < 8 \<and> reg_bit csd (12 + i)" for csd i
    using mmcsd_slice_bit [of 25 12 ov csd i] unfolding f by (auto simp: bit_ucast_iff mmcsd_slice_check_def)
  let ?csd = "[0x2400000, 0, 0, 0x40000000]"
  have "\<not> reg_bit ?csd 12" "\<not> reg_bit ?csd 13" "\<not> reg_bit ?csd 14" "\<not> reg_bit ?csd 15" "\<not> reg_bit ?csd 16" "\<not> reg_bit ?csd 17"
    "\<not> reg_bit ?csd 18" "\<not> reg_bit ?csd 19" "reg_field ?csd (25, 22) = 9" by code_simp+
  then have "reg_field ?csd (25, 22) = 9 \<and> c20_write_bl_len (mmcsd_unpack_csd_v20 ov ?csd u) = 0"
    by (auto intro!: bit_word_eqI simp: b less_Suc_eq numeral_eq_Suc)
  then show ?thesis using b by blast
qed

end
