(* ===== verification/HalMmcSpi.thy ===== *)
theory HalMmcSpi
  imports HalMmcsd
begin

text \<open>
  The driver for memory cards on an SPI bus, \<open>os/hal/src/mmc_spi.c\<close>. The thread that uses the driver sees the bus as a stream of received bytes \<open>rx\<close>,
  whatever the card sends, and the driver leaves a trace of what it did on the bus, \<open>events\<close>. The operations of \<open>spi.c\<close> are used in their
  synchronous form: they fail an assertion when the SPI driver is not started, otherwise they return after the transfer.
\<close>

unbundle bit_operations_syntax

section \<open>The bus\<close>

datatype blkstate_t = BLK_UNINIT | BLK_STOP | BLK_ACTIVE | BLK_CONNECTING | BLK_DISCONNECTING | BLK_READY | BLK_READING | BLK_WRITING | BLK_SYNCING

datatype spi_config = Lscfg | Hscfg

datatype spi_event =
    SpiStart spi_config
  | SpiStop
  | SpiSelect
  | SpiUnselect
  | SpiSend "8 word list"
  | SpiReceive nat
  | SpiIgnore nat
  | SleepMilliseconds nat

record mmc_driver =
  m_state :: blkstate_t
  m_config :: bool
  block_addresses :: bool
  m_cid :: "32 word list"
  m_csd :: "32 word list"
  m_capacity :: "32 word"
  spi_ready :: bool
  rx :: "nat \<Rightarrow> 8 word"
  events :: "spi_event list"

definition HAL_SUCCESS :: bool where "HAL_SUCCESS = False"
definition HAL_FAILED :: bool where "HAL_FAILED = True"

abbreviation emit :: "spi_event \<Rightarrow> mmc_driver \<Rightarrow> mmc_driver" where
  "emit e s \<equiv> s\<lparr>events := events s @ [e]\<rparr>"

text \<open>The SPI driver is reached through the configuration of the MMC driver, which must be set.\<close>

definition spi_start :: "spi_config \<Rightarrow> mmc_driver \<Rightarrow> (unit \<times> mmc_driver) option" where
  "spi_start v s = do { assert_that (m_config s); Some ((), emit (SpiStart v) (s\<lparr>spi_ready := True\<rparr>)) }"

definition spi_stop :: "mmc_driver \<Rightarrow> (unit \<times> mmc_driver) option" where
  "spi_stop s = do { assert_that (m_config s); Some ((), emit SpiStop (s\<lparr>spi_ready := False\<rparr>)) }"

definition spi_do :: "spi_event \<Rightarrow> mmc_driver \<Rightarrow> (unit \<times> mmc_driver) option" where
  "spi_do e s = do { assert_that (m_config s \<and> spi_ready s); Some ((), emit e s) }"

definition spi_select :: "mmc_driver \<Rightarrow> (unit \<times> mmc_driver) option" where "spi_select = spi_do SpiSelect"
definition spi_unselect :: "mmc_driver \<Rightarrow> (unit \<times> mmc_driver) option" where "spi_unselect = spi_do SpiUnselect"
definition spi_send :: "8 word list \<Rightarrow> mmc_driver \<Rightarrow> (unit \<times> mmc_driver) option" where "spi_send bs = spi_do (SpiSend bs)"

definition spi_take :: "nat \<Rightarrow> mmc_driver \<Rightarrow> mmc_driver" where
  "spi_take n s = s\<lparr>rx := \<lambda>i. rx s (n + i)\<rparr>"

definition spi_ignore :: "nat \<Rightarrow> mmc_driver \<Rightarrow> (unit \<times> mmc_driver) option" where
  "spi_ignore n s = spi_do (SpiIgnore n) (spi_take n s)"

definition spi_receive :: "nat \<Rightarrow> mmc_driver \<Rightarrow> (8 word list \<times> mmc_driver) option" where
  "spi_receive n s = do { (_, s') \<leftarrow> spi_do (SpiReceive n) (spi_take n s); Some (map (rx s) [0..<n], s') }"

definition osalThreadSleepMilliseconds :: "nat \<Rightarrow> mmc_driver \<Rightarrow> (unit \<times> mmc_driver) option" where
  "osalThreadSleepMilliseconds n s = Some ((), emit (SleepMilliseconds n) s)"

section \<open>The driver\<close>

definition crc7_lookup_table :: "8 word list" where
  "crc7_lookup_table = [
     0x00, 0x09, 0x12, 0x1b, 0x24, 0x2d, 0x36, 0x3f, 0x48, 0x41, 0x5a, 0x53,
     0x6c, 0x65, 0x7e, 0x77, 0x19, 0x10, 0x0b, 0x02, 0x3d, 0x34, 0x2f, 0x26,
     0x51, 0x58, 0x43, 0x4a, 0x75, 0x7c, 0x67, 0x6e, 0x32, 0x3b, 0x20, 0x29,
     0x16, 0x1f, 0x04, 0x0d, 0x7a, 0x73, 0x68, 0x61, 0x5e, 0x57, 0x4c, 0x45,
     0x2b, 0x22, 0x39, 0x30, 0x0f, 0x06, 0x1d, 0x14, 0x63, 0x6a, 0x71, 0x78,
     0x47, 0x4e, 0x55, 0x5c, 0x64, 0x6d, 0x76, 0x7f, 0x40, 0x49, 0x52, 0x5b,
     0x2c, 0x25, 0x3e, 0x37, 0x08, 0x01, 0x1a, 0x13, 0x7d, 0x74, 0x6f, 0x66,
     0x59, 0x50, 0x4b, 0x42, 0x35, 0x3c, 0x27, 0x2e, 0x11, 0x18, 0x03, 0x0a,
     0x56, 0x5f, 0x44, 0x4d, 0x72, 0x7b, 0x60, 0x69, 0x1e, 0x17, 0x0c, 0x05,
     0x3a, 0x33, 0x28, 0x21, 0x4f, 0x46, 0x5d, 0x54, 0x6b, 0x62, 0x79, 0x70,
     0x07, 0x0e, 0x15, 0x1c, 0x23, 0x2a, 0x31, 0x38, 0x41, 0x48, 0x53, 0x5a,
     0x65, 0x6c, 0x77, 0x7e, 0x09, 0x00, 0x1b, 0x12, 0x2d, 0x24, 0x3f, 0x36,
     0x58, 0x51, 0x4a, 0x43, 0x7c, 0x75, 0x6e, 0x67, 0x10, 0x19, 0x02, 0x0b,
     0x34, 0x3d, 0x26, 0x2f, 0x73, 0x7a, 0x61, 0x68, 0x57, 0x5e, 0x45, 0x4c,
     0x3b, 0x32, 0x29, 0x20, 0x1f, 0x16, 0x0d, 0x04, 0x6a, 0x63, 0x78, 0x71,
     0x4e, 0x47, 0x5c, 0x55, 0x22, 0x2b, 0x30, 0x39, 0x06, 0x0f, 0x14, 0x1d,
     0x25, 0x2c, 0x37, 0x3e, 0x01, 0x08, 0x13, 0x1a, 0x6d, 0x64, 0x7f, 0x76,
     0x49, 0x40, 0x5b, 0x52, 0x3c, 0x35, 0x2e, 0x27, 0x18, 0x11, 0x0a, 0x03,
     0x74, 0x7d, 0x66, 0x6f, 0x50, 0x59, 0x42, 0x4b, 0x17, 0x1e, 0x05, 0x0c,
     0x33, 0x3a, 0x21, 0x28, 0x5f, 0x56, 0x4d, 0x44, 0x7b, 0x72, 0x69, 0x60,
     0x0e, 0x07, 0x1c, 0x15, 0x2a, 0x23, 0x38, 0x31, 0x46, 0x4f, 0x54, 0x5d,
     0x62, 0x6b, 0x70, 0x79]"

text \<open>An index outside of the table is \<open>None\<close>.\<close>

fun crc7 :: "8 word \<Rightarrow> 8 word list \<Rightarrow> 8 word option" where
  "crc7 crc [] = Some crc"
| "crc7 crc (b # bs) =
     (let i = (unat crc * 2) XOR unat b in if i < 256 then crc7 (crc7_lookup_table ! i) bs else None)"

text \<open>\<open>wait\<close>: sixteen attempts at once, then with a pause after each.\<close>

fun mmc_wait_short :: "nat \<Rightarrow> mmc_driver \<Rightarrow> (bool \<times> mmc_driver) option" where
  "mmc_wait_short 0 s = Some (False, s)"
| "mmc_wait_short (Suc n) s =
     do { (buf, s) \<leftarrow> spi_receive 1 s; if buf ! 0 = 0xFF then Some (True, s) else mmc_wait_short n s }"

partial_function (option) mmc_idle_loop :: "mmc_driver \<Rightarrow> (unit \<times> mmc_driver) option" where
  "mmc_idle_loop s =
     do { (buf, s) \<leftarrow> spi_receive 1 s;
          if buf ! 0 = 0xFF then Some ((), s)
          else do { (_, s) \<leftarrow> osalThreadSleepMilliseconds 1 s; mmc_idle_loop s } }"

definition mmc_wait :: "mmc_driver \<Rightarrow> (unit \<times> mmc_driver) option" where
  "mmc_wait s = do { (idle, s) \<leftarrow> mmc_wait_short 16 s; if idle then Some ((), s) else mmc_idle_loop s }"

definition mmc_hdr :: "8 word \<Rightarrow> 32 word \<Rightarrow> 8 word list" where
  "mmc_hdr cmd arg = [0x40 OR cmd, ucast (drop_bit 24 arg), ucast (drop_bit 16 arg), ucast (drop_bit 8 arg), ucast arg]"

definition send_hdr :: "8 word \<Rightarrow> 32 word \<Rightarrow> mmc_driver \<Rightarrow> (unit \<times> mmc_driver) option" where
  "send_hdr cmd arg s =
     do { (_, s) \<leftarrow> mmc_wait s;
          let buf = mmc_hdr cmd arg;
          crc \<leftarrow> crc7 0 buf;
          spi_send (buf @ [push_bit 1 (crc AND 0x7F) OR 1]) s }"

fun recvr1_loop :: "nat \<Rightarrow> mmc_driver \<Rightarrow> (8 word \<times> mmc_driver) option" where
  "recvr1_loop 0 s = Some (0xFF, s)"
| "recvr1_loop (Suc n) s = do { (r1, s) \<leftarrow> spi_receive 1 s; if r1 ! 0 \<noteq> 0xFF then Some (r1 ! 0, s) else recvr1_loop n s }"

definition recvr1 :: "mmc_driver \<Rightarrow> (8 word \<times> mmc_driver) option" where
  "recvr1 = recvr1_loop 9"

definition recvr3 :: "mmc_driver \<Rightarrow> ((8 word \<times> 8 word list) \<times> mmc_driver) option" where
  "recvr3 s = do { (r1, s) \<leftarrow> recvr1 s; (buffer, s) \<leftarrow> spi_receive 4 s; Some ((r1, buffer), s) }"

definition send_command_R1 :: "8 word \<Rightarrow> 32 word \<Rightarrow> mmc_driver \<Rightarrow> (8 word \<times> mmc_driver) option" where
  "send_command_R1 cmd arg s =
     do { (_, s) \<leftarrow> spi_select s; (_, s) \<leftarrow> send_hdr cmd arg s; (r1, s) \<leftarrow> recvr1 s; (_, s) \<leftarrow> spi_unselect s; Some (r1, s) }"

definition send_command_R3 :: "8 word \<Rightarrow> 32 word \<Rightarrow> mmc_driver \<Rightarrow> ((8 word \<times> 8 word list) \<times> mmc_driver) option" where
  "send_command_R3 cmd arg s =
     do { (_, s) \<leftarrow> spi_select s; (_, s) \<leftarrow> send_hdr cmd arg s; (r, s) \<leftarrow> recvr3 s; (_, s) \<leftarrow> spi_unselect s; Some (r, s) }"

text \<open>Polling for the start of data; the last byte polled is returned too.\<close>

definition MMC_WAIT_DATA :: nat where "MMC_WAIT_DATA = 10000"

fun wait_data :: "nat \<Rightarrow> 8 word \<Rightarrow> mmc_driver \<Rightarrow> ((bool \<times> 8 word) \<times> mmc_driver) option" where
  "wait_data 0 b s = Some ((False, b), s)"
| "wait_data (Suc n) b s = do { (buf, s) \<leftarrow> spi_receive 1 s; if buf ! 0 = 0xFE then Some ((True, buf ! 0), s) else wait_data n (buf ! 0) s }"

definition cxd_word :: "8 word list \<Rightarrow> 32 word" where
  "cxd_word bp = push_bit 24 (ucast (bp ! 0)) OR push_bit 16 (ucast (bp ! 1)) OR push_bit 8 (ucast (bp ! 2)) OR ucast (bp ! 3)"

text \<open>The bytes fill the words of the register from the last to the first; \<open>None\<close> as register when the read failed.\<close>

definition read_CxD :: "8 word \<Rightarrow> mmc_driver \<Rightarrow> (32 word list option \<times> mmc_driver) option" where
  "read_CxD cmd s =
     do { (_, s) \<leftarrow> spi_select s;
          (_, s) \<leftarrow> send_hdr cmd 0 s;
          (r1, s) \<leftarrow> recvr1 s;
          if r1 \<noteq> 0 then do { (_, s) \<leftarrow> spi_unselect s; Some (None, s) }
          else do {
            ((ok, _), s) \<leftarrow> wait_data MMC_WAIT_DATA 0 s;
            if \<not> ok then Some (None, s)
            else do {
              (buf, s) \<leftarrow> spi_receive 16 s;
              let cxd = [cxd_word (drop 12 buf), cxd_word (drop 8 buf), cxd_word (drop 4 buf), cxd_word buf];
              (_, s) \<leftarrow> spi_ignore 2 s;
              (_, s) \<leftarrow> spi_unselect s;
              Some (Some cxd, s) } } }"

definition mmc_sync :: "mmc_driver \<Rightarrow> (unit \<times> mmc_driver) option" where
  "mmc_sync s = do { (_, s) \<leftarrow> spi_select s; (_, s) \<leftarrow> mmc_idle_loop s; spi_unselect s }"

section \<open>Operations\<close>

definition mmcObjectInit :: "mmc_driver \<Rightarrow> mmc_driver" where
  "mmcObjectInit s = s\<lparr>m_state := BLK_STOP, m_config := False, block_addresses := False\<rparr>"

definition mmcStart :: "mmc_driver \<Rightarrow> mmc_driver option" where
  "mmcStart s = do { assert_that (m_state s = BLK_STOP \<or> m_state s = BLK_ACTIVE); Some (s\<lparr>m_config := True, m_state := BLK_ACTIVE\<rparr>) }"

definition mmcStop :: "mmc_driver \<Rightarrow> mmc_driver option" where
  "mmcStop s =
     do { assert_that (m_state s = BLK_STOP \<or> m_state s = BLK_ACTIVE);
          (_, s) \<leftarrow> spi_stop s;
          Some (s\<lparr>m_state := BLK_STOP\<rparr>) }"

text \<open>The retries of \<open>mmcConnect\<close>: how many attempts are left; the result says whether the command was accepted.\<close>

fun mmc_go_idle :: "nat \<Rightarrow> mmc_driver \<Rightarrow> (bool \<times> mmc_driver) option" where
  "mmc_go_idle 0 s = Some (False, s)"
| "mmc_go_idle (Suc n) s =
     do { (r1, s) \<leftarrow> send_command_R1 0 0 s;
          if r1 = 1 then Some (True, s)
          else if n = 0 then Some (False, s)
          else do { (_, s) \<leftarrow> osalThreadSleepMilliseconds 10 s; mmc_go_idle n s } }"

fun mmc_op_cond :: "nat \<Rightarrow> mmc_driver \<Rightarrow> (bool \<times> mmc_driver) option" where
  "mmc_op_cond 0 s = Some (False, s)"
| "mmc_op_cond (Suc n) s =
     do { (r1, s) \<leftarrow> send_command_R1 55 0 s;
          (ok, s) \<leftarrow> (if r1 = 1 then do { (r, s) \<leftarrow> send_command_R3 41 0x400001AA s; Some (fst r = 0, s) } else Some (False, s));
          if ok then Some (True, s)
          else if n = 0 then Some (False, s)
          else do { (_, s) \<leftarrow> osalThreadSleepMilliseconds 10 s; mmc_op_cond n s } }"

fun mmc_init_card :: "nat \<Rightarrow> mmc_driver \<Rightarrow> (bool \<times> mmc_driver) option" where
  "mmc_init_card 0 s = Some (False, s)"
| "mmc_init_card (Suc n) s =
     do { (b, s) \<leftarrow> send_command_R1 1 0 s;
          if b = 0 then Some (True, s)
          else if b \<noteq> 1 then Some (False, s)
          else if n = 0 then Some (False, s)
          else do { (_, s) \<leftarrow> osalThreadSleepMilliseconds 10 s; mmc_init_card n s } }"

definition MMC_CMD0_RETRY :: nat where "MMC_CMD0_RETRY = 10"
definition MMC_CMD1_RETRY :: nat where "MMC_CMD1_RETRY = 100"
definition MMC_ACMD41_RETRY :: nat where "MMC_ACMD41_RETRY = 100"
definition MMCSD_BLOCK_SIZE :: nat where "MMCSD_BLOCK_SIZE = 512"

definition mmc_failed :: "mmc_driver \<Rightarrow> (bool \<times> mmc_driver) option" where
  "mmc_failed s = do { (_, s) \<leftarrow> spi_stop s; Some (HAL_FAILED, s\<lparr>m_state := BLK_ACTIVE\<rparr>) }"

text \<open>High capacity: switch to block addresses. The result says whether to go on.\<close>

definition mmc_detect :: "mmc_driver \<Rightarrow> (bool \<times> mmc_driver) option" where
  "mmc_detect s =
     do { (r, s) \<leftarrow> send_command_R3 8 0x1AA s;
          if fst r = 5 then Some (True, s)
          else do {
            (ok, s) \<leftarrow> mmc_op_cond MMC_ACMD41_RETRY s;
            if \<not> ok then Some (False, s)
            else do {
              (r, s) \<leftarrow> send_command_R3 58 0 s;
              Some (True, if snd r ! 0 AND 0x40 \<noteq> 0 then s\<lparr>block_addresses := True\<rparr> else s) } } }"

text \<open>Full speed, block size, capacity and identification.\<close>

definition mmc_identify :: "overshift \<Rightarrow> mmc_driver \<Rightarrow> (bool \<times> mmc_driver) option" where
  "mmc_identify ov s =
     do { (_, s) \<leftarrow> spi_start Hscfg s;
          (r1, s) \<leftarrow> send_command_R1 16 512 s;
          if r1 \<noteq> 0 then mmc_failed s
          else do {
            (csd, s) \<leftarrow> read_CxD 9 s;
            (case csd of
               None \<Rightarrow> mmc_failed s
             | Some csd \<Rightarrow>
                 let s = s\<lparr>m_csd := csd, m_capacity := mmcsd_get_capacity ov csd\<rparr>
                 in if m_capacity s = 0 then mmc_failed s
                    else do {
                      (cid, s) \<leftarrow> read_CxD 10 s;
                      (case cid of None \<Rightarrow> mmc_failed s | Some cid \<Rightarrow> Some (HAL_SUCCESS, s\<lparr>m_cid := cid, m_state := BLK_READY\<rparr>)) }) } }"

definition mmcConnect :: "overshift \<Rightarrow> mmc_driver \<Rightarrow> (bool \<times> mmc_driver) option" where
  "mmcConnect ov s =
     do { assert_that (m_state s = BLK_ACTIVE \<or> m_state s = BLK_READY);
          let s = s\<lparr>m_state := BLK_CONNECTING, block_addresses := False\<rparr>;
          (_, s) \<leftarrow> spi_start Lscfg s;
          (_, s) \<leftarrow> spi_ignore 16 s;
          (ok, s) \<leftarrow> mmc_go_idle MMC_CMD0_RETRY s;
          if \<not> ok then mmc_failed s
          else do {
            (ok, s) \<leftarrow> mmc_detect s;
            if \<not> ok then mmc_failed s
            else do {
              (ok, s) \<leftarrow> mmc_init_card MMC_CMD1_RETRY s;
              if \<not> ok then mmc_failed s else mmc_identify ov s } } }"

definition mmcDisconnect :: "mmc_driver \<Rightarrow> (bool \<times> mmc_driver) option" where
  "mmcDisconnect s =
     do { assert_that (m_state s = BLK_ACTIVE \<or> m_state s = BLK_READY);
          if m_state s = BLK_ACTIVE then Some (HAL_SUCCESS, s)
          else do {
            (_, s) \<leftarrow> spi_start Hscfg (s\<lparr>m_state := BLK_DISCONNECTING\<rparr>);
            (_, s) \<leftarrow> mmc_sync s;
            (_, s) \<leftarrow> spi_stop s;
            Some (HAL_SUCCESS, s\<lparr>m_state := BLK_ACTIVE\<rparr>) } }"

text \<open>The multiplication by the block size wraps.\<close>

definition mmc_address :: "32 word \<Rightarrow> mmc_driver \<Rightarrow> 32 word" where
  "mmc_address startblk s = (if block_addresses s then startblk else startblk * 512)"

definition mmc_start_transfer :: "blkstate_t \<Rightarrow> 8 word \<Rightarrow> 32 word \<Rightarrow> mmc_driver \<Rightarrow> (bool \<times> mmc_driver) option" where
  "mmc_start_transfer st cmd startblk s =
     do { assert_that (m_state s = BLK_READY);
          (_, s) \<leftarrow> spi_start Hscfg (s\<lparr>m_state := st\<rparr>);
          (_, s) \<leftarrow> spi_select s;
          (_, s) \<leftarrow> send_hdr cmd (mmc_address startblk s) s;
          (r1, s) \<leftarrow> recvr1 s;
          if r1 \<noteq> 0 then do { (_, s) \<leftarrow> spi_stop s; Some (HAL_FAILED, s\<lparr>m_state := BLK_READY\<rparr>) }
          else Some (HAL_SUCCESS, s) }"

definition mmcStartSequentialRead :: "32 word \<Rightarrow> mmc_driver \<Rightarrow> (bool \<times> mmc_driver) option" where
  "mmcStartSequentialRead = mmc_start_transfer BLK_READING 18"

text \<open>The end of a transfer that failed.\<close>

definition mmc_abort :: "'a \<Rightarrow> mmc_driver \<Rightarrow> ('a \<times> mmc_driver) option" where
  "mmc_abort r s = do { (_, s) \<leftarrow> spi_unselect s; (_, s) \<leftarrow> spi_stop s; Some (r, s\<lparr>m_state := BLK_READY\<rparr>) }"

text \<open>What is written to the buffer: the block, or the last byte polled; nothing in a wrong state.\<close>

definition mmcSequentialRead :: "mmc_driver \<Rightarrow> ((bool \<times> 8 word list) \<times> mmc_driver) option" where
  "mmcSequentialRead s =
     (if m_state s \<noteq> BLK_READING then Some ((HAL_FAILED, []), s)
      else do {
        ((ok, b), s) \<leftarrow> wait_data MMC_WAIT_DATA 0 s;
        if ok then do { (buffer, s) \<leftarrow> spi_receive MMCSD_BLOCK_SIZE s; (_, s) \<leftarrow> spi_ignore 2 s; Some ((HAL_SUCCESS, buffer), s) }
        else mmc_abort (HAL_FAILED, [b]) s })"

definition mmcStopSequentialRead :: "mmc_driver \<Rightarrow> (bool \<times> mmc_driver) option" where
  "mmcStopSequentialRead s =
     (if m_state s \<noteq> BLK_READING then Some (HAL_FAILED, s)
      else do {
        (_, s) \<leftarrow> spi_send [0x4C, 0, 0, 0, 0, 1, 0xFF] s;
        (_, s) \<leftarrow> recvr1 s;
        (_, s) \<leftarrow> spi_unselect s;
        Some (HAL_SUCCESS, s\<lparr>m_state := BLK_READY\<rparr>) })"

definition mmcStartSequentialWrite :: "32 word \<Rightarrow> mmc_driver \<Rightarrow> (bool \<times> mmc_driver) option" where
  "mmcStartSequentialWrite = mmc_start_transfer BLK_WRITING 25"

definition mmcSequentialWrite :: "8 word list \<Rightarrow> mmc_driver \<Rightarrow> (bool \<times> mmc_driver) option" where
  "mmcSequentialWrite buffer s =
     (if m_state s \<noteq> BLK_WRITING then Some (HAL_FAILED, s)
      else do {
        (_, s) \<leftarrow> spi_send [0xFF, 0xFC] s;
        (_, s) \<leftarrow> spi_send (take MMCSD_BLOCK_SIZE buffer) s;
        (_, s) \<leftarrow> spi_ignore 2 s;
        (b, s) \<leftarrow> spi_receive 1 s;
        if b ! 0 AND 0x1F = 5 then do { (_, s) \<leftarrow> mmc_wait s; Some (HAL_SUCCESS, s) }
        else mmc_abort HAL_FAILED s })"

definition mmcStopSequentialWrite :: "mmc_driver \<Rightarrow> (bool \<times> mmc_driver) option" where
  "mmcStopSequentialWrite s =
     (if m_state s \<noteq> BLK_WRITING then Some (HAL_FAILED, s)
      else do { (_, s) \<leftarrow> spi_send [0xFD, 0xFF] s; (_, s) \<leftarrow> spi_unselect s; Some (HAL_SUCCESS, s\<lparr>m_state := BLK_READY\<rparr>) })"

definition mmcSync :: "mmc_driver \<Rightarrow> (bool \<times> mmc_driver) option" where
  "mmcSync s =
     (if m_state s \<noteq> BLK_READY then Some (HAL_FAILED, s)
      else do {
        (_, s) \<leftarrow> spi_start Hscfg (s\<lparr>m_state := BLK_SYNCING\<rparr>);
        (_, s) \<leftarrow> mmc_sync s;
        Some (HAL_SUCCESS, s\<lparr>m_state := BLK_READY\<rparr>) })"

text \<open>Number and size of the blocks; \<open>None\<close> is the result \<open>HAL_FAILED\<close>.\<close>

definition mmcGetInfo :: "mmc_driver \<Rightarrow> (32 word \<times> nat) option" where
  "mmcGetInfo s = (if m_state s \<noteq> BLK_READY then None else Some (m_capacity s, MMCSD_BLOCK_SIZE))"

text \<open>Erasing has no check of the state and does not start the SPI driver.\<close>

definition mmcErase :: "32 word \<Rightarrow> 32 word \<Rightarrow> mmc_driver \<Rightarrow> (bool \<times> mmc_driver) option" where
  "mmcErase startblk endblk s =
     do { let s = s\<lparr>m_state := BLK_WRITING\<rparr>;
          let failed = (\<lambda>s. do { (_, s) \<leftarrow> spi_stop s; Some (HAL_FAILED, s\<lparr>m_state := BLK_READY\<rparr>) });
          (r1, s) \<leftarrow> send_command_R1 32 (mmc_address startblk s) s;
          if r1 \<noteq> 0 then failed s
          else do {
            (r1, s) \<leftarrow> send_command_R1 33 (mmc_address endblk s) s;
            if r1 \<noteq> 0 then failed s
            else do {
              (r1, s) \<leftarrow> send_command_R1 38 0 s;
              if r1 \<noteq> 0 then failed s else Some (HAL_SUCCESS, s\<lparr>m_state := BLK_READY\<rparr>) } } }"

text \<open>The methods of the block device: a number of blocks read into or written from a buffer.\<close>

fun mmc_read_loop :: "nat \<Rightarrow> mmc_driver \<Rightarrow> ((bool \<times> 8 word list) \<times> mmc_driver) option" where
  "mmc_read_loop 0 s = Some ((HAL_SUCCESS, []), s)"
| "mmc_read_loop (Suc n) s =
     do { ((f, b), s) \<leftarrow> mmcSequentialRead s;
          if f then Some ((HAL_FAILED, b), s)
          else do { ((f, bs), s) \<leftarrow> mmc_read_loop n s; Some ((f, b @ bs), s) } }"

definition mmc_read :: "32 word \<Rightarrow> nat \<Rightarrow> mmc_driver \<Rightarrow> ((bool \<times> 8 word list) \<times> mmc_driver) option" where
  "mmc_read startblk n s =
     do { (f, s) \<leftarrow> mmcStartSequentialRead startblk s;
          if f then Some ((HAL_FAILED, []), s)
          else do {
            ((f, buffer), s) \<leftarrow> mmc_read_loop n s;
            if f then Some ((HAL_FAILED, buffer), s)
            else do { (f, s) \<leftarrow> mmcStopSequentialRead s; Some ((f, buffer), s) } } }"

fun mmc_write_loop :: "nat \<Rightarrow> 8 word list \<Rightarrow> mmc_driver \<Rightarrow> (bool \<times> mmc_driver) option" where
  "mmc_write_loop 0 buffer s = Some (HAL_SUCCESS, s)"
| "mmc_write_loop (Suc n) buffer s =
     do { (f, s) \<leftarrow> mmcSequentialWrite buffer s;
          if f then Some (HAL_FAILED, s) else mmc_write_loop n (drop MMCSD_BLOCK_SIZE buffer) s }"

definition mmc_write :: "32 word \<Rightarrow> 8 word list \<Rightarrow> nat \<Rightarrow> mmc_driver \<Rightarrow> (bool \<times> mmc_driver) option" where
  "mmc_write startblk buffer n s =
     do { (f, s) \<leftarrow> mmcStartSequentialWrite startblk s;
          if f then Some (HAL_FAILED, s)
          else do {
            (f, s) \<leftarrow> mmc_write_loop n buffer s;
            if f then Some (HAL_FAILED, s) else mmcStopSequentialWrite s } }"

section \<open>Work on the bus\<close>

text \<open>A card that is not busy for ever: from any point on, an idle byte comes.\<close>

definition idles :: "mmc_driver \<Rightarrow> bool" where
  "idles s \<longleftrightarrow> (\<forall>i. \<exists>j \<ge> i. rx s j = 0xFF)"

text \<open>What only uses the bus changes nothing but the position in the stream of bytes and the trace.\<close>

definition adv :: "nat \<Rightarrow> spi_event list \<Rightarrow> mmc_driver \<Rightarrow> mmc_driver" where
  "adv n es s = s\<lparr>rx := \<lambda>i. rx s (n + i), events := events s @ es\<rparr>"

definition on_bus :: "mmc_driver \<Rightarrow> mmc_driver \<Rightarrow> bool" where
  "on_bus s s' \<longleftrightarrow> (\<exists>n es. s' = adv n es s)"

definition started :: "mmc_driver \<Rightarrow> bool" where
  "started s \<longleftrightarrow> m_config s \<and> spi_ready s \<and> idles s"

lemma adv_simps [simp]:
  "adv n es (adv m fs s) = adv (m + n) (fs @ es) s" "adv 0 [] s = s"
  "m_state (adv n es s) = m_state s" "m_config (adv n es s) = m_config s" "block_addresses (adv n es s) = block_addresses s"
  "m_cid (adv n es s) = m_cid s" "m_csd (adv n es s) = m_csd s" "m_capacity (adv n es s) = m_capacity s" "spi_ready (adv n es s) = spi_ready s"
  "rx (adv n es s) i = rx s (n + i)" "events (adv n es s) = events s @ es"
  by (simp_all add: adv_def add.assoc)

lemma on_bus_refl: "on_bus s s"
  unfolding on_bus_def by (intro exI [of _ 0] exI [of _ "[]"]) simp

lemma on_bus_trans: "on_bus s s1 \<Longrightarrow> on_bus s1 s2 \<Longrightarrow> on_bus s s2"
  unfolding on_bus_def by (metis adv_simps(1))

lemma on_bus_fields:
  assumes "on_bus s s'"
  shows "m_state s' = m_state s" "m_config s' = m_config s" "block_addresses s' = block_addresses s" "m_cid s' = m_cid s" "m_csd s' = m_csd s"
    "m_capacity s' = m_capacity s" "spi_ready s' = spi_ready s"
  using assms by (auto simp: on_bus_def)

lemma on_bus_idles:
  assumes "on_bus s s'" "idles s"
  shows "idles s'"
proof -
  obtain n where n: "rx s' = (\<lambda>i. rx s (n + i))" using assms(1) by (auto simp: on_bus_def adv_def)
  have "\<exists>j \<ge> i. rx s' j = 0xFF" for i
  proof -
    obtain j where "j \<ge> n + i" "rx s j = 0xFF" using assms(2) unfolding idles_def by blast
    then show ?thesis using n by (intro exI [of _ "j - n"]) auto
  qed
  then show ?thesis by (simp add: idles_def)
qed

lemma on_bus_started: "on_bus s s' \<Longrightarrow> started s \<Longrightarrow> started s'"
  using on_bus_idles on_bus_fields(2,7) unfolding started_def by blast

definition bus_op :: "(mmc_driver \<Rightarrow> ('a \<times> mmc_driver) option) \<Rightarrow> bool" where
  "bus_op f \<longleftrightarrow> (\<forall>s. started s \<longrightarrow> (\<exists>r s'. f s = Some (r, s') \<and> on_bus s s'))"

lemma bus_opE:
  assumes "bus_op f" "started s"
  obtains r s' where "f s = Some (r, s')" "on_bus s s'" "started s'"
  using assms on_bus_started unfolding bus_op_def by blast

lemma bus_op_bind:
  assumes "bus_op f" "\<And>r. bus_op (g r)"
  shows "bus_op (\<lambda>s. f s \<bind> (\<lambda>(r, s). g r s))"
  unfolding bus_op_def
proof (intro allI impI)
  fix s assume "started s"
  then obtain r s1 where 1: "f s = Some (r, s1)" "on_bus s s1" "started s1" using assms(1) by (blast elim: bus_opE)
  then obtain r' s2 where "g r s1 = Some (r', s2)" "on_bus s1 s2" using assms(2) by (blast elim: bus_opE)
  then show "\<exists>r s'. f s \<bind> (\<lambda>(r, s). g r s) = Some (r, s') \<and> on_bus s s'" using 1 on_bus_trans by auto
qed

lemma bus_op_return: "bus_op (\<lambda>s. Some (r, s))"
  by (simp add: bus_op_def on_bus_refl)

lemma bus_op_if: "(b \<Longrightarrow> bus_op f) \<Longrightarrow> (\<not> b \<Longrightarrow> bus_op g) \<Longrightarrow> bus_op (\<lambda>s. if b then f s else g s)"
  by (cases b) simp_all

lemma spi_eqs:
  "started s \<or> m_config s \<and> spi_ready s \<Longrightarrow> spi_select s = Some ((), adv 0 [SpiSelect] s)"
  "started s \<or> m_config s \<and> spi_ready s \<Longrightarrow> spi_unselect s = Some ((), adv 0 [SpiUnselect] s)"
  "started s \<or> m_config s \<and> spi_ready s \<Longrightarrow> spi_send bs s = Some ((), adv 0 [SpiSend bs] s)"
  "started s \<or> m_config s \<and> spi_ready s \<Longrightarrow> spi_ignore n s = Some ((), adv n [SpiIgnore n] s)"
  "started s \<or> m_config s \<and> spi_ready s \<Longrightarrow> spi_receive n s = Some (map (rx s) [0..<n], adv n [SpiReceive n] s)"
  "osalThreadSleepMilliseconds n s = Some ((), adv 0 [SleepMilliseconds n] s)"
  by (auto simp: started_def spi_select_def spi_unselect_def spi_send_def spi_ignore_def spi_receive_def osalThreadSleepMilliseconds_def spi_do_def
    spi_take_def adv_def)

lemma bus_op_spi:
  "bus_op spi_select" "bus_op spi_unselect" "bus_op (spi_send bs)" "bus_op (spi_ignore n)" "bus_op (spi_receive n)" "bus_op (osalThreadSleepMilliseconds n)"
  by (auto simp: bus_op_def spi_eqs on_bus_def)

lemmas bus_op_intros = bus_op_bind bus_op_return bus_op_if bus_op_spi

lemma bus_op_cong: "(\<And>s. f s = g s) \<Longrightarrow> bus_op g \<Longrightarrow> bus_op f"
  by (simp add: bus_op_def)

text \<open>What was sent, and the bytes that come next.\<close>

definition sends :: "spi_event list \<Rightarrow> 8 word list list" where
  "sends es = concat (map (\<lambda>e. case e of SpiSend bs \<Rightarrow> [bs] | _ \<Rightarrow> []) es)"

definition gets :: "mmc_driver \<Rightarrow> 8 word list \<Rightarrow> bool" where
  "gets s bs \<longleftrightarrow> map (rx s) [0..<length bs] = bs"

lemma sends_simps [simp]:
  "sends [] = []" "sends (es @ fs) = sends es @ sends fs" "sends (SpiSend bs # es) = bs # sends es" "sends (SpiReceive n # es) = sends es"
  "sends (SpiIgnore n # es) = sends es" "sends (SpiSelect # es) = sends es" "sends (SpiUnselect # es) = sends es" "sends (SpiStart v # es) = sends es"
  "sends (SpiStop # es) = sends es" "sends (SleepMilliseconds n # es) = sends es"
  by (simp_all add: sends_def)

lemma gets_append: "gets s (xs @ ys) \<longleftrightarrow> gets s xs \<and> gets (adv (length xs) es s) ys"
proof -
  have "map (rx s) [0..<m + n] = map (rx s) [0..<m] @ map (\<lambda>i. rx s (m + i)) [0..<n]" for m n
    by (induction n) simp_all
  then show ?thesis by (simp add: gets_def adv_def)
qed

lemma gets_simps [simp]: "gets s []" "gets s (b # bs) \<longleftrightarrow> rx s 0 = b \<and> gets (adv 1 [] s) bs"
proof -
  show "gets s (b # bs) \<longleftrightarrow> rx s 0 = b \<and> gets (adv 1 [] s) bs"
    using gets_append [of s "[b]" bs "[]"] by (simp add: gets_def)
qed (simp add: gets_def)

lemma gets_received: "gets s bs \<Longrightarrow> map (rx s) [0..<length bs] = bs"
  by (simp add: gets_def)

abbreviation ready_on :: "mmc_driver \<Rightarrow> bool" where
  "ready_on s \<equiv> m_config s \<and> spi_ready s"

lemma mmc_wait_short_eq:
  assumes "ready_on s" "gets s (busy @ [0xFF])" "0xFF \<notin> set busy"
  shows "\<exists>es. sends es = [] \<and> mmc_wait_short n s =
    Some (if length busy < n then (True, adv (length busy + 1) es s) else (False, adv n es s))"
  using assms
proof (induction n arbitrary: s busy)
  case (Suc n)
  show ?case
  proof (cases busy)
    case Nil
    then show ?thesis using Suc.prems by (intro exI [of _ "[SpiReceive 1]"]) (simp add: spi_eqs)
  next
    case (Cons b bs)
    let ?s = "adv 1 [SpiReceive 1] s"
    have "gets ?s (bs @ [0xFF])" using Suc.prems(2) gets_append [of s "[b]" "bs @ [0xFF]" "[SpiReceive 1]"] Cons by simp
    then obtain es where "sends es = []" "mmc_wait_short n ?s = Some (if length bs < n then (True, adv (length bs + 1) es ?s) else (False, adv n es ?s))"
      using Suc.IH [of ?s bs] Suc.prems Cons by auto
    then show ?thesis using Suc.prems Cons by (intro exI [of _ "SpiReceive 1 # es"]) (auto simp: spi_eqs)
  qed
qed (auto intro: exI [of _ "[]"])

lemma mmc_idle_loop_eq:
  assumes "ready_on s" "gets s (busy @ [0xFF])" "0xFF \<notin> set busy"
  shows "\<exists>es. sends es = [] \<and> mmc_idle_loop s = Some ((), adv (length busy + 1) es s)"
  using assms
proof (induction busy arbitrary: s)
  case Nil
  then show ?case by (intro exI [of _ "[SpiReceive 1]"], subst mmc_idle_loop.simps) (simp add: spi_eqs)
next
  case (Cons b bs)
  let ?es = "[SpiReceive 1, SleepMilliseconds 1]"
  let ?s = "adv 1 ?es s"
  have "gets ?s (bs @ [0xFF])" using Cons.prems(2) gets_append [of s "[b]" "bs @ [0xFF]" ?es] by simp
  then obtain es where "sends es = []" "mmc_idle_loop ?s = Some ((), adv (length bs + 1) es ?s)"
    using Cons.IH [of ?s] Cons.prems by auto
  then show ?case using Cons.prems by (intro exI [of _ "?es @ es"], subst mmc_idle_loop.simps) (auto simp: spi_eqs)
qed

lemma mmc_wait_eq:
  assumes "ready_on s" "gets s (busy @ [0xFF])" "0xFF \<notin> set busy"
  shows "\<exists>es. sends es = [] \<and> mmc_wait s = Some ((), adv (length busy + 1) es s)"
proof -
  obtain es where es: "sends es = []" "mmc_wait_short 16 s = Some (if length busy < 16 then (True, adv (length busy + 1) es s) else (False, adv 16 es s))"
    using mmc_wait_short_eq [OF assms, of 16] by blast
  show ?thesis
  proof (cases "length busy < 16")
    case True
    then show ?thesis using es by (auto simp: mmc_wait_def)
  next
    case False
    then have b: "busy = take 16 busy @ drop 16 busy" "length (take 16 busy) = 16" by simp_all
    let ?s = "adv 16 es s"
    have "gets s (take 16 busy @ drop 16 busy @ [0xFF])" using assms(2) b(1) by (metis append.assoc)
    then have "gets ?s (drop 16 busy @ [0xFF])" using gets_append [of s "take 16 busy" _ es] b(2) by simp
    moreover have "0xFF \<notin> set (drop 16 busy)" using assms(3) in_set_dropD by metis
    ultimately obtain fs where "sends fs = []" "mmc_idle_loop ?s = Some ((), adv (length (drop 16 busy) + 1) fs ?s)"
      using mmc_idle_loop_eq [of ?s "drop 16 busy"] assms(1) by auto
    then show ?thesis using es False by (intro exI [of _ "es @ fs"]) (simp add: mmc_wait_def)
  qed
qed

lemma recvr1_loop_returns:
  assumes "ready_on s"
  shows "\<exists>r m es. sends es = [] \<and> recvr1_loop n s = Some (r, adv m es s)"
  using assms
proof (induction n arbitrary: s)
  case 0
  then show ?case by (intro exI [of _ "0xFF"] exI [of _ 0] exI [of _ "[]"]) simp
next
  case (Suc n)
  let ?s = "adv 1 [SpiReceive 1] s"
  obtain r m es where "sends es = []" "recvr1_loop n ?s = Some (r, adv m es ?s)" using Suc.IH [of ?s] Suc.prems by auto
  then show ?case using Suc.prems
    by (cases "rx s 0 = 0xFF") (force simp: spi_eqs intro: exI [of _ "SpiReceive 1 # es"] exI [of _ "[SpiReceive 1]"])+
qed

lemma recvr1_loop_eq:
  assumes "ready_on s" "gets s (replicate k 0xFF @ [b])" "b \<noteq> 0xFF" "k < n"
  shows "\<exists>es. sends es = [] \<and> recvr1_loop n s = Some (b, adv (k + 1) es s)"
  using assms
proof (induction n arbitrary: s k)
  case (Suc n)
  let ?s = "adv 1 [SpiReceive 1] s"
  show ?case
  proof (cases k)
    case 0
    then show ?thesis using Suc.prems by (intro exI [of _ "[SpiReceive 1]"]) (simp add: spi_eqs)
  next
    case (Suc j)
    have "gets ?s (replicate j 0xFF @ [b])" using Suc.prems(2) gets_append [of s "[0xFF]" "replicate j 0xFF @ [b]" "[SpiReceive 1]"] Suc by simp
    then obtain es where "sends es = []" "recvr1_loop n ?s = Some (b, adv (j + 1) es ?s)" using Suc.IH [of ?s j] Suc.prems Suc by auto
    then show ?thesis using Suc.prems Suc by (intro exI [of _ "SpiReceive 1 # es"]) (simp add: spi_eqs)
  qed
qed simp

lemma wait_data_eq:
  assumes "ready_on s" "gets s (pre @ [0xFE])" "0xFE \<notin> set pre" "length pre < n"
  shows "\<exists>es. sends es = [] \<and> wait_data n b s = Some ((True, 0xFE), adv (length pre + 1) es s)"
  using assms
proof (induction n arbitrary: s pre b)
  case (Suc n)
  let ?s = "adv 1 [SpiReceive 1] s"
  show ?case
  proof (cases pre)
    case Nil
    then show ?thesis using Suc.prems by (intro exI [of _ "[SpiReceive 1]"]) (simp add: spi_eqs)
  next
    case (Cons x xs)
    have "gets ?s (xs @ [0xFE])" using Suc.prems(2) gets_append [of s "[x]" "xs @ [0xFE]" "[SpiReceive 1]"] Cons by simp
    then obtain es where "sends es = []" "wait_data n x ?s = Some ((True, 0xFE), adv (length xs + 1) es ?s)"
      using Suc.IH [of ?s xs x] Suc.prems Cons by auto
    then show ?thesis using Suc.prems Cons by (intro exI [of _ "SpiReceive 1 # es"]) (auto simp: spi_eqs)
  qed
qed simp

section \<open>The checksum\<close>

text \<open>
  The reference: the shift register with seven flip-flops that divides by the polynomial x^7 + x^3 + 1, most significant bits first.
\<close>

fun crc7_step :: "bool list \<Rightarrow> bool \<Rightarrow> bool list" where
  "crc7_step [c6, c5, c4, c3, c2, c1, c0] b = (let f = (c6 \<noteq> b) in [c5, c4, c3, c2 \<noteq> f, c1, c0, f])"
| "crc7_step _ _ = []"

definition crc7_register :: "bool list \<Rightarrow> bool list" where
  "crc7_register bs = foldl crc7_step (replicate 7 False) bs"

definition bits_val :: "bool list \<Rightarrow> nat" where
  "bits_val bs = horner_sum of_bool 2 (rev bs)"

definition byte_bits :: "8 word \<Rightarrow> bool list" where
  "byte_bits b = map (bit b) (rev [0..<8])"

primrec all_bits :: "nat \<Rightarrow> bool list list" where
  "all_bits 0 = [[]]"
| "all_bits (Suc n) = map (Cons False) (all_bits n) @ map (Cons True) (all_bits n)"

lemma crc7_table_bits: "map (\<lambda>bs. bits_val (crc7_register bs)) (all_bits 8) =
   [0, 9, 18, 27, 36, 45, 54, 63, 72, 65, 90, 83, 108, 101, 126, 119, 25, 16, 11, 2, 61, 52, 47, 38, 81, 88, 67, 74, 117, 124, 103, 110,
    50, 59, 32, 41, 22, 31, 4, 13, 122, 115, 104, 97, 94, 87, 76, 69, 43, 34, 57, 48, 15, 6, 29, 20, 99, 106, 113, 120, 71, 78, 85, 92,
    100, 109, 118, 127, 64, 73, 82, 91, 44, 37, 62, 55, 8, 1, 26, 19, 125, 116, 111, 102, 89, 80, 75, 66, 53, 60, 39, 46, 17, 24, 3, 10,
    86, 95, 68, 77, 114, 123, 96, 105, 30, 23, 12, 5, 58, 51, 40, 33, 79, 70, 93, 84, 107, 98, 121, 112, 7, 14, 21, 28, 35, 42, 49, 56,
    65, 72, 83, 90, 101, 108, 119, 126, 9, 0, 27, 18, 45, 36, 63, 54, 88, 81, 74, 67, 124, 117, 110, 103, 16, 25, 2, 11, 52, 61, 38, 47,
    115, 122, 97, 104, 87, 94, 69, 76, 59, 50, 41, 32, 31, 22, 13, 4, 106, 99, 120, 113, 78, 71, 92, 85, 34, 43, 48, 57, 6, 15, 20, 29,
    37, 44, 55, 62, 1, 8, 19, 26, 109, 100, 127, 118, 73, 64, 91, 82, 60, 53, 46, 39, 24, 17, 10, 3, 116, 125, 102, 111, 80, 89, 66, 75,
    23, 30, 5, 12, 51, 58, 33, 40, 95, 86, 77, 68, 123, 114, 105, 96, 14, 7, 28, 21, 42, 35, 56, 49, 70, 79, 84, 93, 98, 107, 112, 121]"
  by code_simp

lemma crc7_table_eq: "crc7_lookup_table = map (\<lambda>bs. word_of_nat (bits_val (crc7_register bs))) (all_bits 8)"
proof -
  have "map (\<lambda>bs. word_of_nat (bits_val (crc7_register bs)) :: 8 word) (all_bits 8) = map word_of_nat (map (\<lambda>bs. bits_val (crc7_register bs)) (all_bits 8))"
    by (simp only: map_map o_def)
  then show ?thesis unfolding crc7_table_bits by (simp add: crc7_lookup_table_def)
qed

lemma bits_val_Cons: "bits_val (b # bs) = (if b then 2 ^ length bs else 0) + bits_val bs"
  by (simp add: bits_val_def horner_sum_append)

lemma all_bits_nth: "bits_val bs < 2 ^ length bs \<and> length (all_bits (length bs)) = 2 ^ length bs \<and> all_bits (length bs) ! bits_val bs = bs"
proof (induction bs)
  case Nil
  then show ?case by (simp add: bits_val_def)
next
  case (Cons b bs)
  then show ?case by (cases b) (simp_all add: bits_val_Cons nth_append)
qed

lemma unat_byte_bits: "unat b = bits_val (byte_bits b)"
proof -
  have "unat b = take_bit 8 (unat b)" by (rule sym, rule take_bit_nat_eq_self) (use unsigned_less [of b] in simp)
  also have "\<dots> = horner_sum of_bool 2 (map (bit (unat b)) [0..<8])" by (simp only: horner_sum_bit_eq_take_bit)
  also have "map (bit (unat b)) [0..<8] = rev (byte_bits b)" by (simp add: byte_bits_def rev_map bit_unsigned_iff)
  finally show ?thesis by (simp add: bits_val_def)
qed

lemma bits_val_xor: "length as = length bs \<Longrightarrow> bits_val as XOR bits_val bs = bits_val (map2 (\<noteq>) as bs)"
  by (rule bit_eqI) (auto simp: bits_val_def bit_xor_iff bit_horner_sum_bit_iff rev_nth)

lemma list7: "length r = 7 \<longleftrightarrow> (\<exists>a b c d e f g. r = [a, b, c, d, e, f, g])"
  by (auto simp: numeral_eq_Suc length_Suc_conv)

lemma crc7_step_xor:
  "length r = 7 \<Longrightarrow> length s = 7 \<Longrightarrow> crc7_step (map2 (\<noteq>) r s) (a \<noteq> b) = map2 (\<noteq>) (crc7_step r a) (crc7_step s b)"
  unfolding list7 by (elim exE) (simp add: Let_def, blast)

lemma crc7_step_length: "length r = 7 \<Longrightarrow> length (crc7_step r b) = 7"
  unfolding list7 by (elim exE) (simp add: Let_def)

lemma crc7_steps_length: "length r = 7 \<Longrightarrow> length (foldl crc7_step r bs) = 7"
  by (induction bs arbitrary: r) (simp_all add: crc7_step_length)

lemma crc7_steps_xor:
  "length as = length bs \<Longrightarrow> length r = 7 \<Longrightarrow> length s = 7 \<Longrightarrow>
   foldl crc7_step (map2 (\<noteq>) r s) (map2 (\<noteq>) as bs) = map2 (\<noteq>) (foldl crc7_step r as) (foldl crc7_step s bs)"
proof (induction as bs arbitrary: r s rule: list_induct2)
  case (Cons a as b bs)
  show ?case using Cons.IH [of "crc7_step r a" "crc7_step s b"] Cons.prems crc7_step_xor [OF Cons.prems, of a b]
    by (simp add: crc7_step_length del: not_iff)
qed simp

lemma crc7_own_bits: "length r = 7 \<Longrightarrow> foldl crc7_step r (r @ [False]) = replicate 7 False"
  unfolding list7 by (elim exE) (simp add: Let_def numeral_eq_Suc)

lemma crc7_remainder: "length r = 7 \<Longrightarrow> foldl crc7_step r r = replicate 7 False"
  unfolding list7 by (elim exE) (simp add: Let_def numeral_eq_Suc)

text \<open>One lookup is eight steps of the register.\<close>

lemma crc7_byte:
  assumes "length r = 7" "length bs = 8"
  shows "foldl crc7_step r bs = crc7_register (map2 (\<noteq>) (r @ [False]) bs)"
proof -
  let ?z = "replicate 7 False"
  have z: "map2 (\<noteq>) xs (replicate (length xs) False) = xs" "map2 (\<noteq>) (replicate (length xs) False) xs = xs" for xs :: "bool list"
    by (induction xs) simp_all
  have x: "map2 (\<noteq>) xs (map2 (\<noteq>) xs ys) = ys" if "length xs = length ys" for xs ys :: "bool list"
    using that by (induction xs ys rule: list_induct2) auto
  have "foldl crc7_step (map2 (\<noteq>) r ?z) (map2 (\<noteq>) (r @ [False]) (map2 (\<noteq>) (r @ [False]) bs)) =
      map2 (\<noteq>) (foldl crc7_step r (r @ [False])) (crc7_register (map2 (\<noteq>) (r @ [False]) bs))"
    unfolding crc7_register_def using assms by (intro crc7_steps_xor) simp_all
  moreover have "map2 (\<noteq>) r ?z = r" using z(1) [of r] assms(1) by simp
  moreover have "length (crc7_register (map2 (\<noteq>) (r @ [False]) bs)) = 7" unfolding crc7_register_def by (rule crc7_steps_length) simp
  ultimately show ?thesis
    using x [of "r @ [False]" bs] z(2) [of "crc7_register (map2 (\<noteq>) (r @ [False]) bs)"] assms by (simp add: crc7_own_bits del: not_iff foldl_append)
qed

lemma crc7_eq:
  assumes "length r = 7"
  shows "crc7 (word_of_nat (bits_val r)) bs = Some (word_of_nat (bits_val (foldl crc7_step r (concat (map byte_bits bs)))))"
  using assms
proof (induction bs arbitrary: r)
  case (Cons b bs)
  define x where "x = map2 (\<noteq>) (r @ [False]) (byte_bits b)"
  have lb: "length (byte_bits b) = 8" by (simp add: byte_bits_def)
  then have lx: "length x = 8" using Cons.prems by (simp add: x_def)
  have v: "bits_val r < 128" using all_bits_nth [of r] Cons.prems by simp
  then have "unat (word_of_nat (bits_val r) :: 8 word) * 2 = bits_val (r @ [False])" by (simp add: unat_of_nat bits_val_def)
  then have i: "(unat (word_of_nat (bits_val r) :: 8 word) * 2) XOR unat b = bits_val x"
    unfolding unat_byte_bits [of b] using bits_val_xor [of "r @ [False]" "byte_bits b"] Cons.prems lb by (simp add: x_def)
  have "bits_val x < 256" "all_bits 8 ! bits_val x = x" "length (all_bits 8) = 256" using all_bits_nth [of x] lx by simp_all
  then have "crc7_lookup_table ! bits_val x = word_of_nat (bits_val (crc7_register x))" by (simp add: crc7_table_eq)
  then have "crc7_lookup_table ! bits_val x = word_of_nat (bits_val (foldl crc7_step r (byte_bits b)))"
    using crc7_byte [OF Cons.prems lb] by (simp add: x_def)
  then show ?case using Cons.IH [of "foldl crc7_step r (byte_bits b)"] crc7_steps_length [OF Cons.prems] i \<open>bits_val x < 256\<close>
    by (simp add: Let_def)
qed simp

lemma crc7_register_eq: "crc7 0 bs = Some (word_of_nat (bits_val (crc7_register (concat (map byte_bits bs)))))"
  using crc7_eq [of "replicate 7 False" bs] by (simp add: crc7_register_def bits_val_def numeral_eq_Suc)

text \<open>The six bytes of a command: five bytes and the checksum, which ends with a one.\<close>

definition mmc_frame :: "8 word \<Rightarrow> 32 word \<Rightarrow> 8 word list" where
  "mmc_frame cmd arg = mmc_hdr cmd arg @ [word_of_nat (2 * bits_val (crc7_register (concat (map byte_bits (mmc_hdr cmd arg)))) + 1)]"

lemma bits_val_inj: "length as = length bs \<Longrightarrow> bits_val as = bits_val bs \<Longrightarrow> as = bs"
  by (metis all_bits_nth)

lemma crc7_register_small: "length (crc7_register bs) = 7 \<and> bits_val (crc7_register bs) < 128"
  using all_bits_nth [of "crc7_register bs"] crc7_steps_length [of "replicate 7 False" bs] by (simp add: crc7_register_def)

text \<open>
  C12. The checksum by table lookup is the remainder of the division of the bits by x^7 + x^3 + 1: it never reads outside of the table,
  it is what the shift register holds after all bits, and with its seven bits appended the remainder is zero.
\<close>

theorem crc7_is_division:
  "\<exists>c. crc7 0 bs = Some c \<and> unat c = bits_val (crc7_register (concat (map byte_bits bs))) \<and>
     crc7_register (concat (map byte_bits bs) @ drop 1 (byte_bits c)) = replicate 7 False"
proof -
  define r where "r = crc7_register (concat (map byte_bits bs))"
  define c :: "8 word" where "c = word_of_nat (bits_val r)"
  have r: "length r = 7" "bits_val r < 128" using crc7_register_small by (simp_all add: r_def)
  then have u: "unat c = bits_val r" by (simp add: c_def unat_of_nat)
  have "byte_bits c = False # r"
    by (rule bits_val_inj) (use r u unat_byte_bits [of c] in \<open>simp_all add: byte_bits_def bits_val_Cons\<close>)
  moreover have "crc7_register (concat (map byte_bits bs) @ r) = replicate 7 False"
    using crc7_remainder [OF r(1)] by (simp add: crc7_register_def r_def)
  ultimately show ?thesis using u crc7_register_eq [of bs] by (intro exI [of _ c]) (simp add: c_def r_def)
qed

lemma crc7_last_byte:
  assumes "v < 128"
  shows "push_bit 1 (word_of_nat v AND 0x7F) OR 1 = (word_of_nat (2 * v + 1) :: 8 word)"
proof -
  have "word_of_nat v AND 0x7F = (take_bit 7 (word_of_nat v) :: 8 word)" by (simp add: take_bit_eq_mask mask_eq_exp_minus_1)
  also have "\<dots> = word_of_nat v" using assms by (simp add: take_bit_of_nat take_bit_nat_eq_self)
  finally have "push_bit 1 (word_of_nat v AND 0x7F) = (2 * word_of_nat v :: 8 word)" by (simp add: push_bit_eq_mult)
  moreover have "(2 * x) OR 1 = 2 * x + (1 :: 8 word)" for x
    by (rule disjunctive_add [symmetric]) (auto simp: bit_simps)
  ultimately show ?thesis by simp
qed

lemma send_hdr_eq:
  assumes "ready_on s" "gets s (busy @ [0xFF])" "0xFF \<notin> set busy"
  shows "\<exists>es. sends es = [mmc_frame cmd arg] \<and> send_hdr cmd arg s = Some ((), adv (length busy + 1) es s)"
proof -
  obtain es where es: "sends es = []" "mmc_wait s = Some ((), adv (length busy + 1) es s)" using mmc_wait_eq [OF assms] by blast
  let ?v = "bits_val (crc7_register (concat (map byte_bits (mmc_hdr cmd arg))))"
  have "push_bit 1 (word_of_nat ?v AND 0x7F) OR 1 = (word_of_nat (2 * ?v + 1) :: 8 word)"
    using crc7_last_byte crc7_register_small by blast
  then show ?thesis using es crc7_register_eq [of "mmc_hdr cmd arg"] assms(1)
    by (intro exI [of _ "es @ [SpiSend (mmc_frame cmd arg)]"]) (simp add: send_hdr_def mmc_frame_def spi_eqs Let_def)
qed

section \<open>Transfers\<close>

lemma spi_start_eq: "m_config s \<Longrightarrow> spi_start v s = Some ((), adv 0 [SpiStart v] (s\<lparr>spi_ready := True\<rparr>))"
  by (simp add: spi_start_def adv_def)

lemma gets_cong: "rx s' = rx s \<Longrightarrow> gets s' bs = gets s bs"
  by (simp add: gets_def)

lemma mmc_start_transfer_eq:
  assumes "m_state s = BLK_READY" "m_config s" "gets s (busy @ [0xFF] @ replicate k 0xFF @ [0])" "0xFF \<notin> set busy" "k < 9"
  shows "\<exists>es. sends es = [mmc_frame cmd (mmc_address startblk s)] \<and>
    mmc_start_transfer st cmd startblk s = Some (HAL_SUCCESS, adv (length busy + k + 2) es (s\<lparr>m_state := st, spi_ready := True\<rparr>))"
proof -
  let ?s0 = "s\<lparr>m_state := st, spi_ready := True\<rparr>"
  let ?s = "adv 0 [SpiStart Hscfg, SpiSelect] ?s0"
  have rxs: "rx ?s = rx s" by (simp add: adv_def)
  have "gets ?s ((busy @ [0xFF]) @ replicate k 0xFF @ [0])" using assms(3) gets_cong [OF rxs] by simp
  then have g: "gets ?s (busy @ [0xFF])" "\<And>es. gets (adv (length (busy @ [0xFF])) es ?s) (replicate k 0xFF @ [0])"
    using gets_append [of ?s "busy @ [0xFF]"] by blast+
  obtain es where es: "sends es = [mmc_frame cmd (mmc_address startblk s)]"
      "send_hdr cmd (mmc_address startblk s) ?s = Some ((), adv (length busy + 1) es ?s)"
    using send_hdr_eq [OF _ g(1) assms(4), of cmd "mmc_address startblk s"] assms(2) by auto
  obtain fs where fs: "sends fs = []" "recvr1 (adv (length busy + 1) es ?s) = Some (0, adv (k + 1) fs (adv (length busy + 1) es ?s))"
    using recvr1_loop_eq [of "adv (length busy + 1) es ?s" k 0 9] g(2) [of es] assms(2,5) by (auto simp: recvr1_def)
  show ?thesis
    using assms(1,2) es fs by (intro exI [of _ "[SpiStart Hscfg, SpiSelect] @ es @ fs"])
      (simp add: mmc_start_transfer_def spi_start_eq spi_eqs mmc_address_def)
qed

text \<open>A block as the card sends it: some other bytes, the start token, the data and two bytes of checksum.\<close>

definition card_block :: "8 word list \<times> 8 word list \<times> 8 word list \<Rightarrow> 8 word list" where
  "card_block seg = (case seg of (pre, blk, c) \<Rightarrow> pre @ [0xFE] @ blk @ c)"

definition card_data :: "8 word list \<times> 8 word list \<times> 8 word list \<Rightarrow> 8 word list" where
  "card_data seg = fst (snd seg)"

lemma card_data_eq [simp]: "card_data (pre, blk, c) = blk"
  by (simp add: card_data_def)

definition card_block_ok :: "8 word list \<times> 8 word list \<times> 8 word list \<Rightarrow> bool" where
  "card_block_ok seg \<longleftrightarrow> (case seg of (pre, blk, c) \<Rightarrow> 0xFE \<notin> set pre \<and> length pre < MMC_WAIT_DATA \<and> length blk = MMCSD_BLOCK_SIZE \<and> length c = 2)"

lemma mmcSequentialRead_eq:
  assumes "m_state s = BLK_READING" "ready_on s" "gets s (card_block (pre, blk, c))" "card_block_ok (pre, blk, c)"
  shows "\<exists>es. sends es = [] \<and> mmcSequentialRead s = Some ((HAL_SUCCESS, blk), adv (length (card_block (pre, blk, c))) es s)"
proof -
  have "gets s ((pre @ [0xFE]) @ blk @ c)" using assms(3) by (simp add: card_block_def)
  then have g: "gets s (pre @ [0xFE])" "\<And>es. gets (adv (length (pre @ [0xFE])) es s) (blk @ c)" using gets_append [of s "pre @ [0xFE]"] by blast+
  obtain es where es: "sends es = []" "wait_data MMC_WAIT_DATA 0 s = Some ((True, 0xFE), adv (length pre + 1) es s)"
    using wait_data_eq [OF assms(2) g(1), of MMC_WAIT_DATA 0] assms(4) by (auto simp: card_block_ok_def)
  let ?s = "adv (length pre + 1) es s"
  have "gets ?s blk" using g(2) [of es] gets_append [of ?s blk c] by simp
  then have "map (rx ?s) [0..<MMCSD_BLOCK_SIZE] = blk" using gets_received [of ?s blk] assms(4) by (simp add: card_block_ok_def)
  then show ?thesis using assms(1,2,4) es
    by (intro exI [of _ "es @ [SpiReceive MMCSD_BLOCK_SIZE, SpiIgnore 2]"])
      (simp add: mmcSequentialRead_def spi_eqs card_block_ok_def card_block_def HAL_SUCCESS_def)
qed

lemma mmc_read_loop_eq:
  assumes "m_state s = BLK_READING" "ready_on s" "gets s (concat (map card_block segs))" "list_all card_block_ok segs"
  shows "\<exists>es. sends es = [] \<and> mmc_read_loop (length segs) s =
    Some ((HAL_SUCCESS, concat (map card_data segs)), adv (length (concat (map card_block segs))) es s)"
  using assms
proof (induction segs arbitrary: s)
  case Nil
  then show ?case by (intro exI [of _ "[]"]) simp
next
  case (Cons seg segs)
  obtain pre blk c where seg: "seg = (pre, blk, c)" by (cases seg) auto
  let ?n = "length (card_block seg)"
  have g: "gets s (card_block seg)" "\<And>es. gets (adv ?n es s) (concat (map card_block segs))"
    using Cons.prems(3) gets_append [of s "card_block seg" "concat (map card_block segs)"] by auto
  obtain es where es: "sends es = []" "mmcSequentialRead s = Some ((HAL_SUCCESS, blk), adv ?n es s)"
    using mmcSequentialRead_eq [of s pre blk c] Cons.prems g(1) seg by auto
  obtain fs where "sends fs = []" "mmc_read_loop (length segs) (adv ?n es s) =
      Some ((HAL_SUCCESS, concat (map card_data segs)), adv (length (concat (map card_block segs))) fs (adv ?n es s))"
    using Cons.IH [of "adv ?n es s"] g(2) [of es] Cons.prems by auto
  then show ?case using es seg by (intro exI [of _ "es @ fs"]) (simp add: HAL_SUCCESS_def)
qed

text \<open>
  C10. Reading blocks: from a driver that is ready, when the card is idle after a while, accepts the command within nine bytes and then sends
  the blocks, each behind its start token, the method of the block device returns success with exactly the data of the
  blocks, in order. On the bus it sent the read command with the address of the first block and its checksum, and the stop
  command; the driver is ready again.
\<close>

theorem mmc_read_blocks:
  assumes "m_state s = BLK_READY" "m_config s" "0xFF \<notin> set busy" "k < 9" "list_all card_block_ok segs"
    and "gets s ((busy @ [0xFF] @ replicate k 0xFF @ [0]) @ concat (map card_block segs))"
  shows "\<exists>s'. mmc_read startblk (length segs) s = Some ((HAL_SUCCESS, concat (map card_data segs)), s') \<and> m_state s' = BLK_READY \<and>
    sends (drop (length (events s)) (events s')) = [mmc_frame 18 (mmc_address startblk s), [0x4C, 0, 0, 0, 0, 1, 0xFF]]"
proof -
  let ?h = "busy @ [0xFF] @ replicate k 0xFF @ [0]" and ?s0 = "s\<lparr>m_state := BLK_READING, spi_ready := True\<rparr>"
  have g: "gets s ?h" "\<And>es. gets (adv (length ?h) es s) (concat (map card_block segs))" using assms(6) gets_append [of s ?h] by blast+
  obtain es where es: "sends es = [mmc_frame 18 (mmc_address startblk s)]"
      "mmcStartSequentialRead startblk s = Some (HAL_SUCCESS, adv (length busy + k + 2) es ?s0)"
    using mmc_start_transfer_eq [OF assms(1,2) g(1) assms(3,4), of 18 startblk BLK_READING] by (auto simp: mmcStartSequentialRead_def)
  let ?s1 = "adv (length busy + k + 2) es ?s0"
  have "rx ?s1 = rx (adv (length ?h) es s)" by (simp add: adv_def fun_eq_iff)
  then have g1: "gets ?s1 (concat (map card_block segs))" using g(2) [of es] gets_cong by blast
  obtain fs where fs: "sends fs = []" "mmc_read_loop (length segs) ?s1 =
      Some ((HAL_SUCCESS, concat (map card_data segs)), adv (length (concat (map card_block segs))) fs ?s1)"
    using mmc_read_loop_eq [OF _ _ g1 assms(5)] assms(2) by auto
  let ?s2 = "adv (length (concat (map card_block segs))) fs ?s1"
  let ?stop = "[0x4C, 0, 0, 0, 0, 1, 0xFF] :: 8 word list"
  obtain r m ds where ds: "sends ds = []" "recvr1 (adv 0 [SpiSend ?stop] ?s2) = Some (r, adv m ds (adv 0 [SpiSend ?stop] ?s2))"
    using recvr1_loop_returns [of "adv 0 [SpiSend ?stop] ?s2" 9] assms(2) by (auto simp: recvr1_def)
  have "mmcStopSequentialRead ?s2 = Some (HAL_SUCCESS, (adv 0 [SpiUnselect] (adv m ds (adv 0 [SpiSend ?stop] ?s2)))\<lparr>m_state := BLK_READY\<rparr>)"
    using ds(2) assms(2) by (simp add: mmcStopSequentialRead_def spi_eqs)
  then show ?thesis using es fs ds(1) by (simp add: mmc_read_def HAL_SUCCESS_def)
qed

text \<open>The answer of the card to a block: two bytes that are ignored, a response that says accepted, and then it is busy for a while.\<close>

definition card_answer :: "8 word list \<times> 8 word \<times> 8 word list \<Rightarrow> 8 word list" where
  "card_answer a = (case a of (ig, r, busy) \<Rightarrow> ig @ [r] @ busy @ [0xFF])"

definition card_answer_ok :: "8 word list \<times> 8 word \<times> 8 word list \<Rightarrow> bool" where
  "card_answer_ok a \<longleftrightarrow> (case a of (ig, r, busy) \<Rightarrow> length ig = 2 \<and> r AND 0x1F = 5 \<and> 0xFF \<notin> set busy)"

lemma mmcSequentialWrite_eq:
  assumes "m_state s = BLK_WRITING" "ready_on s" "gets s (card_answer (ig, r, busy))" "card_answer_ok (ig, r, busy)"
  shows "\<exists>es. sends es = [[0xFF, 0xFC], take MMCSD_BLOCK_SIZE buffer] \<and>
    mmcSequentialWrite buffer s = Some (HAL_SUCCESS, adv (length (card_answer (ig, r, busy))) es s)"
proof -
  let ?es = "[SpiSend [0xFF, 0xFC], SpiSend (take MMCSD_BLOCK_SIZE buffer), SpiIgnore 2, SpiReceive 1]"
  let ?s = "adv 3 ?es s"
  have l: "length ig = 2" using assms(4) by (simp add: card_answer_ok_def)
  have "gets s ((ig @ [r]) @ busy @ [0xFF])" using assms(3) by (simp add: card_answer_def)
  then have g: "gets s (ig @ [r])" "gets ?s (busy @ [0xFF])" using gets_append [of s "ig @ [r]" "busy @ [0xFF]" ?es] l by simp_all
  have "rx s 2 = r" using g(1) gets_append [of s ig "[r]" "[]"] l by simp
  moreover obtain fs where fs: "sends fs = []" "mmc_wait ?s = Some ((), adv (length busy + 1) fs ?s)"
    using mmc_wait_eq [OF _ g(2)] assms(2,4) by (auto simp: card_answer_ok_def)
  ultimately show ?thesis using assms(1,2,4) l
    by (intro exI [of _ "?es @ fs"]) (simp add: mmcSequentialWrite_def spi_eqs card_answer_def card_answer_ok_def numeral_3_eq_3 numeral_2_eq_2)
qed

lemma mmc_write_loop_eq:
  assumes "m_state s = BLK_WRITING" "ready_on s" "gets s (concat (map card_answer as))" "list_all card_answer_ok as"
    and "length blocks = length as" "list_all (\<lambda>b. length b = MMCSD_BLOCK_SIZE) blocks"
  shows "\<exists>es. sends es = concat (map (\<lambda>b. [[0xFF, 0xFC], b]) blocks) \<and>
    mmc_write_loop (length as) (concat blocks) s = Some (HAL_SUCCESS, adv (length (concat (map card_answer as))) es s)"
  using assms
proof (induction as arbitrary: s blocks)
  case Nil
  then show ?case by (intro exI [of _ "[]"]) simp
next
  case (Cons a as)
  obtain ig r busy where a: "a = (ig, r, busy)" by (cases a) auto
  obtain b bs where b: "blocks = b # bs" "length b = MMCSD_BLOCK_SIZE" using Cons.prems(5,6) by (cases blocks) auto
  let ?n = "length (card_answer a)"
  have g: "gets s (card_answer a)" "\<And>es. gets (adv ?n es s) (concat (map card_answer as))"
    using Cons.prems(3) gets_append [of s "card_answer a" "concat (map card_answer as)"] by auto
  obtain es where es: "sends es = [[0xFF, 0xFC], b]" "mmcSequentialWrite (concat blocks) s = Some (HAL_SUCCESS, adv ?n es s)"
    using mmcSequentialWrite_eq [of s ig r busy "concat blocks"] Cons.prems g(1) a b by auto
  obtain fs where "sends fs = concat (map (\<lambda>b. [[0xFF, 0xFC], b]) bs)"
      "mmc_write_loop (length as) (concat bs) (adv ?n es s) = Some (HAL_SUCCESS, adv (length (concat (map card_answer as))) fs (adv ?n es s))"
    using Cons.IH [of "adv ?n es s" bs] g(2) [of es] Cons.prems b by auto
  then show ?case using es b by (intro exI [of _ "es @ fs"]) (simp add: HAL_SUCCESS_def)
qed

text \<open>
  Writing blocks: when the card accepts the command and every block, the method of the block device returns success, and what it sent is
  exactly the write command with address and checksum, every block behind its start token, in order, and the stop
  token; the driver is ready again.
\<close>

theorem mmc_write_blocks:
  assumes "m_state s = BLK_READY" "m_config s" "0xFF \<notin> set busy" "k < 9" "list_all card_answer_ok as"
    and "length blocks = length as" "list_all (\<lambda>b. length b = MMCSD_BLOCK_SIZE) blocks"
    and "gets s ((busy @ [0xFF] @ replicate k 0xFF @ [0]) @ concat (map card_answer as))"
  shows "\<exists>s'. mmc_write startblk (concat blocks) (length blocks) s = Some (HAL_SUCCESS, s') \<and> m_state s' = BLK_READY \<and>
    sends (drop (length (events s)) (events s')) =
      [mmc_frame 25 (mmc_address startblk s)] @ concat (map (\<lambda>b. [[0xFF, 0xFC], b]) blocks) @ [[0xFD, 0xFF]]"
proof -
  let ?h = "busy @ [0xFF] @ replicate k 0xFF @ [0]" and ?s0 = "s\<lparr>m_state := BLK_WRITING, spi_ready := True\<rparr>"
  have g: "gets s ?h" "\<And>es. gets (adv (length ?h) es s) (concat (map card_answer as))" using assms(8) gets_append [of s ?h] by blast+
  obtain es where es: "sends es = [mmc_frame 25 (mmc_address startblk s)]"
      "mmcStartSequentialWrite startblk s = Some (HAL_SUCCESS, adv (length busy + k + 2) es ?s0)"
    using mmc_start_transfer_eq [OF assms(1,2) g(1) assms(3,4), of 25 startblk BLK_WRITING] by (auto simp: mmcStartSequentialWrite_def)
  let ?s1 = "adv (length busy + k + 2) es ?s0"
  have "rx ?s1 = rx (adv (length ?h) es s)" by (simp add: adv_def fun_eq_iff)
  then have g1: "gets ?s1 (concat (map card_answer as))" using g(2) [of es] gets_cong by blast
  obtain fs where fs: "sends fs = concat (map (\<lambda>b. [[0xFF, 0xFC], b]) blocks)"
      "mmc_write_loop (length as) (concat blocks) ?s1 = Some (HAL_SUCCESS, adv (length (concat (map card_answer as))) fs ?s1)"
    using mmc_write_loop_eq [OF _ _ g1 assms(5-7)] assms(2) by auto
  then show ?thesis using es assms(2,6) by (simp add: mmc_write_def mmcStopSequentialWrite_def spi_eqs HAL_SUCCESS_def)
qed

section \<open>Every operation returns\<close>

lemma idle_prefix:
  assumes "idles s"
  shows "\<exists>busy. 0xFF \<notin> set busy \<and> gets s (busy @ [0xFF])"
proof -
  obtain j where j: "rx s j = 0xFF" "\<forall>i < j. rx s i \<noteq> 0xFF"
    using assms exists_least_iff [of "\<lambda>j. rx s j = 0xFF"] unfolding idles_def by blast
  then have "0xFF \<notin> set (map (rx s) [0..<j])" by auto
  moreover have "gets s (map (rx s) [0..<j] @ [0xFF])" using j(1) by (simp add: gets_def)
  ultimately show ?thesis by blast
qed

lemma bus_op_idle: "bus_op mmc_idle_loop" "bus_op mmc_wait" "bus_op (send_hdr cmd arg)" "bus_op (recvr1_loop n)"
proof -
  have *: "\<exists>busy. ready_on s \<and> gets s (busy @ [0xFF]) \<and> 0xFF \<notin> set busy" if "started s" for s
    using idle_prefix that unfolding started_def by blast
  show "bus_op mmc_idle_loop" unfolding bus_op_def on_bus_def using * mmc_idle_loop_eq by blast
  show "bus_op mmc_wait" unfolding bus_op_def on_bus_def using * mmc_wait_eq by blast
  show "bus_op (send_hdr cmd arg)" unfolding bus_op_def on_bus_def using * send_hdr_eq by blast
  show "bus_op (recvr1_loop n)" unfolding bus_op_def on_bus_def started_def using recvr1_loop_returns by blast
qed

lemma bus_op_wait_data: "bus_op (wait_data n b)"
proof (induction n arbitrary: b)
  case 0
  show ?case by (rule bus_op_cong [OF wait_data.simps(1)]) (rule bus_op_return)
next
  case (Suc n)
  show ?case by (rule bus_op_cong [OF wait_data.simps(2)]) (intro bus_op_intros Suc)
qed

lemma bus_op_commands: "bus_op recvr1" "bus_op recvr3" "bus_op (send_command_R1 cmd arg)" "bus_op (send_command_R3 cmd arg)" "bus_op mmc_sync"
proof -
  show 1: "bus_op recvr1" unfolding recvr1_def by (rule bus_op_idle)
  show 3: "bus_op recvr3" by (rule bus_op_cong [OF recvr3_def]) (intro bus_op_intros 1)
  show "bus_op (send_command_R1 cmd arg)" by (rule bus_op_cong [OF send_command_R1_def]) (intro bus_op_intros bus_op_idle 1)
  show "bus_op (send_command_R3 cmd arg)" by (rule bus_op_cong [OF send_command_R3_def]) (intro bus_op_intros bus_op_idle 3)
  show "bus_op mmc_sync" by (rule bus_op_cong [OF mmc_sync_def]) (intro bus_op_intros bus_op_idle)
qed

lemmas bus_op_all = bus_op_intros bus_op_idle bus_op_wait_data bus_op_commands

lemma bus_op_pair: "(\<And>a b. r = (a, b) \<Longrightarrow> bus_op (f a b)) \<Longrightarrow> bus_op (\<lambda>s. (case r of (a, b) \<Rightarrow> f a b) s)"
  by (cases r) simp

lemma bus_op_read_CxD: "bus_op (read_CxD cmd)"
  unfolding bus_op_def
proof (intro allI impI)
  fix s assume s: "started s"
  obtain s1 where 1: "spi_select s = Some ((), s1)" "on_bus s s1" "started s1" using bus_op_spi(1) s by (metis (full_types) bus_opE unit.exhaust)
  obtain s2 where 2: "send_hdr cmd 0 s1 = Some ((), s2)" "on_bus s1 s2" "started s2" using bus_op_idle(3) 1(3) by (metis (full_types) bus_opE unit.exhaust)
  obtain r s3 where 3: "recvr1 s2 = Some (r, s3)" "on_bus s2 s3" "started s3" using bus_op_commands(1) 2(3) by (metis bus_opE)
  obtain x s4 where 4: "wait_data MMC_WAIT_DATA 0 s3 = Some (x, s4)" "on_bus s3 s4" "started s4" using bus_op_wait_data 3(3) by (metis bus_opE)
  have b: "on_bus s s3" "on_bus s s4" using 1 2 3 4 on_bus_trans by blast+
  show "\<exists>r s'. read_CxD cmd s = Some (r, s') \<and> on_bus s s'"
  proof (cases "r = 0 \<and> fst x")
    case True
    have "on_bus s4 (adv 18 [SpiReceive 16, SpiIgnore 2, SpiUnselect] s4)" unfolding on_bus_def by blast
    then show ?thesis using True 1(1) 2(1) 3(1) 4 b(2) on_bus_trans by (cases x) (auto simp: read_CxD_def spi_eqs started_def)
  next
    case False
    have "on_bus s3 (adv 0 [SpiUnselect] s3)" unfolding on_bus_def by blast
    then show ?thesis using False 1(1) 2(1) 3 4(1) b on_bus_trans by (cases x) (auto simp: read_CxD_def spi_eqs)
  qed
qed

lemma bus_op_retries: "bus_op (mmc_go_idle n)" "bus_op (mmc_op_cond n)" "bus_op (mmc_init_card n)"
proof -
  show "bus_op (mmc_go_idle n)"
  proof (induction n)
    case 0
    show ?case by (rule bus_op_cong [OF mmc_go_idle.simps(1)]) (rule bus_op_return)
  next
    case (Suc n)
    show ?case by (rule bus_op_cong [OF mmc_go_idle.simps(2)]) (intro bus_op_all Suc)
  qed
  show "bus_op (mmc_op_cond n)"
  proof (induction n)
    case 0
    show ?case by (rule bus_op_cong [OF mmc_op_cond.simps(1)]) (rule bus_op_return)
  next
    case (Suc n)
    show ?case by (rule bus_op_cong [OF mmc_op_cond.simps(2)]) (intro bus_op_all Suc)
  qed
  show "bus_op (mmc_init_card n)"
  proof (induction n)
    case 0
    show ?case by (rule bus_op_cong [OF mmc_init_card.simps(1)]) (rule bus_op_return)
  next
    case (Suc n)
    show ?case by (rule bus_op_cong [OF mmc_init_card.simps(2)]) (intro bus_op_all Suc)
  qed
qed

text \<open>The result of an operation, and a driver that is configured with a card that idles.\<close>

definition leaves :: "('a \<Rightarrow> mmc_driver \<Rightarrow> bool) \<Rightarrow> ('a \<times> mmc_driver) option \<Rightarrow> bool" where
  "leaves P m \<longleftrightarrow> (\<exists>r s'. m = Some (r, s') \<and> m_config s' \<and> idles s' \<and> P r s')"

lemma idles_upd [simp]: "idles (s\<lparr>m_state := st\<rparr>) = idles s" "idles (s\<lparr>spi_ready := b\<rparr>) = idles s" "idles (s\<lparr>block_addresses := b\<rparr>) = idles s"
  "idles (s\<lparr>m_csd := x\<rparr>) = idles s" "idles (s\<lparr>m_cid := x\<rparr>) = idles s" "idles (s\<lparr>m_capacity := c\<rparr>) = idles s" "idles (s\<lparr>events := es\<rparr>) = idles s"
  by (simp_all add: idles_def)

lemma leaves_bus:
  assumes "bus_op f" "started s" "\<And>r s'. on_bus s s' \<Longrightarrow> started s' \<Longrightarrow> leaves P (g r s')"
  shows "leaves P (f s \<bind> (\<lambda>(r, s). g r s))"
proof -
  obtain r s' where "f s = Some (r, s')" "on_bus s s'" "started s'" using bus_opE [OF assms(1,2)] by blast
  then show ?thesis using assms(3) by simp
qed

lemma leaves_bind:
  assumes "leaves Q m" "\<And>r s'. m_config s' \<Longrightarrow> idles s' \<Longrightarrow> Q r s' \<Longrightarrow> leaves P (g r s')"
  shows "leaves P (m \<bind> (\<lambda>(r, s). g r s))"
  using assms unfolding leaves_def by force

lemma leaves_Some [simp]: "leaves P (Some (r, s)) \<longleftrightarrow> m_config s \<and> idles s \<and> P r s"
  by (simp add: leaves_def)

lemma leaves_mono: "leaves P m \<Longrightarrow> (\<And>r s. P r s \<Longrightarrow> Q r s) \<Longrightarrow> leaves Q m"
  unfolding leaves_def by blast

lemma leaves_if: "(b \<Longrightarrow> leaves P x) \<Longrightarrow> (\<not> b \<Longrightarrow> leaves P y) \<Longrightarrow> leaves P (if b then x else y)"
  by simp

lemma leaves_start: "m_config s \<Longrightarrow> idles s \<Longrightarrow> leaves (\<lambda>_ s'. started s' \<and> m_state s' = m_state s \<and> block_addresses s' = block_addresses s) (spi_start v s)"
  by (simp add: spi_start_def started_def)

lemma leaves_stop: "m_config s \<Longrightarrow> idles s \<Longrightarrow> leaves (\<lambda>_ s'. \<not> spi_ready s' \<and> m_state s' = m_state s) (spi_stop s)"
  by (simp add: spi_stop_def)

lemma leaves_failed: "m_config s \<Longrightarrow> idles s \<Longrightarrow> leaves (\<lambda>f s'. m_state s' = (if f then BLK_ACTIVE else BLK_READY)) (mmc_failed s)"
  unfolding mmc_failed_def by (rule leaves_bind [OF leaves_stop]) (simp_all add: HAL_FAILED_def)

lemma startedD: "started s \<Longrightarrow> m_config s" "started s \<Longrightarrow> idles s" "started s \<Longrightarrow> spi_ready s"
  by (simp_all add: started_def)

lemma leaves_detect: "started s \<Longrightarrow> leaves (\<lambda>_. started) (mmc_detect s)"
  unfolding mmc_detect_def
  by (intro leaves_bus [OF bus_op_commands(4)] leaves_if leaves_bus [OF bus_op_retries(2)]) (auto simp: started_def)

lemma leaves_identify:
  assumes "m_config s" "idles s"
  shows "leaves (\<lambda>f s'. m_state s' = (if f then BLK_ACTIVE else BLK_READY)) (mmc_identify ov s)"
  unfolding mmc_identify_def
proof (intro leaves_bind [OF leaves_start [OF assms]] leaves_bus [OF bus_op_commands(3)] leaves_if leaves_bus [OF bus_op_read_CxD])
  fix csd s' assume "started s'"
  then show "leaves (\<lambda>f s'. m_state s' = (if f then BLK_ACTIVE else BLK_READY)) (case csd of None \<Rightarrow> mmc_failed s'
     | Some csd \<Rightarrow> let s = s'\<lparr>m_csd := csd, m_capacity := mmcsd_get_capacity ov csd\<rparr>
         in if m_capacity s = 0 then mmc_failed s
            else do { (cid, s) \<leftarrow> read_CxD 10 s;
              (case cid of None \<Rightarrow> mmc_failed s | Some cid \<Rightarrow> Some (HAL_SUCCESS, s\<lparr>m_cid := cid, m_state := BLK_READY\<rparr>)) })"
    by (auto simp: Let_def started_def HAL_SUCCESS_def intro!: leaves_failed leaves_bus [OF bus_op_read_CxD] split: option.splits)
qed (auto simp: startedD intro: leaves_failed)

lemma leaves_connect:
  assumes "m_config s" "idles s" "m_state s = BLK_ACTIVE \<or> m_state s = BLK_READY"
  shows "leaves (\<lambda>f s'. m_state s' = (if f then BLK_ACTIVE else BLK_READY)) (mmcConnect ov s)"
proof -
  let ?s = "s\<lparr>m_state := BLK_CONNECTING, block_addresses := False\<rparr>"
  have "m_config ?s" "idles ?s" using assms by simp_all
  then show ?thesis using assms(3) unfolding mmcConnect_def
    by (simp add: bind_assert_True Let_def)
      (intro leaves_bind [OF leaves_start] leaves_bus [OF bus_op_spi(4)] leaves_if leaves_bus [OF bus_op_retries(1)] leaves_bus [OF bus_op_retries(3)]
        leaves_bind [OF leaves_detect], auto simp: startedD intro: leaves_failed leaves_identify)
qed

text \<open>A transfer that failed is over, with the SPI driver stopped; otherwise it goes on.\<close>

definition going :: "blkstate_t \<Rightarrow> bool \<Rightarrow> mmc_driver \<Rightarrow> bool" where
  "going st f s \<longleftrightarrow> (if f then m_state s = BLK_READY \<and> \<not> spi_ready s else m_state s = st \<and> spi_ready s)"

lemma leaves_start_transfer:
  assumes "m_config s" "idles s" "m_state s = BLK_READY"
  shows "leaves (going st) (mmc_start_transfer st cmd startblk s)"
proof -
  have c: "m_config (s\<lparr>m_state := st\<rparr>)" "idles (s\<lparr>m_state := st\<rparr>)" using assms by simp_all
  have "leaves (going st) (do { (r1, s) \<leftarrow> recvr1 s'; if r1 \<noteq> 0 then do { (_, s) \<leftarrow> spi_stop s; Some (HAL_FAILED, s\<lparr>m_state := BLK_READY\<rparr>) }
      else Some (HAL_SUCCESS, s) })" if "started s'" "m_state s' = st" for s'
  proof (rule leaves_bus [OF bus_op_commands(1) that(1)])
    fix r1 s2 assume s2: "on_bus s' s2" "started s2"
    then have "m_state s2 = st" using that(2) on_bus_fields(1) by metis
    then show "leaves (going st) (if r1 \<noteq> 0 then do { (_, s) \<leftarrow> spi_stop s2; Some (HAL_FAILED, s\<lparr>m_state := BLK_READY\<rparr>) } else Some (HAL_SUCCESS, s2))"
      using s2(2) by (auto simp: started_def going_def HAL_SUCCESS_def HAL_FAILED_def spi_stop_def)
  qed
  then show ?thesis using assms(3) unfolding mmc_start_transfer_def
    by (simp add: bind_assert_True)
      (rule leaves_bind [OF leaves_start [OF c]], intro leaves_bus [OF bus_op_spi(1)] leaves_bus [OF bus_op_idle(3)], auto dest!: on_bus_fields(1))
qed

lemma leaves_abort: "started s \<Longrightarrow> leaves (\<lambda>r' s'. r' = r \<and> m_state s' = BLK_READY \<and> \<not> spi_ready s') (mmc_abort r s)"
  by (simp add: mmc_abort_def spi_eqs spi_stop_def started_def) (use on_bus_idles [of s "adv 0 [SpiUnselect] s"] in \<open>auto simp: on_bus_def\<close>)

lemma leaves_sequential_read:
  assumes "started s" "m_state s = BLK_READING"
  shows "leaves (\<lambda>r. going BLK_READING (fst r)) (mmcSequentialRead s)"
proof -
  obtain x s1 where 1: "wait_data MMC_WAIT_DATA 0 s = Some (x, s1)" "on_bus s s1" "started s1" using bus_op_wait_data assms(1) by (metis bus_opE)
  show ?thesis
  proof (cases "fst x")
    case True
    let ?s = "adv (MMCSD_BLOCK_SIZE + 2) [SpiReceive MMCSD_BLOCK_SIZE, SpiIgnore 2] s1"
    have "on_bus s1 ?s" unfolding on_bus_def by blast
    then have "started ?s" "m_state ?s = BLK_READING" using 1 assms(2) on_bus_started on_bus_fields(1) by metis+
    then show ?thesis using True 1 assms(2) by (cases x) (simp add: mmcSequentialRead_def spi_eqs going_def HAL_SUCCESS_def started_def)
  next
    case False
    then obtain b where b: "x = (False, b)" by (cases x) auto
    have "leaves (\<lambda>r. going BLK_READING (fst r)) (mmc_abort (HAL_FAILED, [b]) s1)"
      by (rule leaves_mono [OF leaves_abort [OF 1(3)]]) (simp add: going_def HAL_FAILED_def)
    then show ?thesis using 1(1) assms(2) b by (simp add: mmcSequentialRead_def)
  qed
qed

lemma leaves_read_loop:
  "started s \<Longrightarrow> m_state s = BLK_READING \<Longrightarrow> leaves (\<lambda>r. going BLK_READING (fst r)) (mmc_read_loop n s)"
proof (induction n arbitrary: s)
  case 0
  then show ?case by (simp add: going_def HAL_SUCCESS_def started_def)
next
  case (Suc n)
  obtain f b s1 where 1: "mmcSequentialRead s = Some ((f, b), s1)" "m_config s1" "idles s1" "going BLK_READING f s1"
    using leaves_sequential_read [OF Suc.prems] by (auto simp: leaves_def)
  show ?case
  proof (cases f)
    case False
    then have "started s1" "m_state s1 = BLK_READING" using 1 by (simp_all add: going_def started_def)
    from Suc.IH [OF this] show ?thesis using 1 False by (auto simp: leaves_def)
  qed (use 1 in \<open>auto simp: going_def HAL_FAILED_def\<close>)
qed

lemma leaves_read:
  assumes "m_config s" "idles s" "m_state s = BLK_READY"
  shows "leaves (\<lambda>r s'. m_state s' = BLK_READY \<and> (fst r \<longrightarrow> \<not> spi_ready s')) (mmc_read startblk n s)"
proof -
  obtain f s1 where 1: "mmcStartSequentialRead startblk s = Some (f, s1)" "m_config s1" "idles s1" "going BLK_READING f s1"
    using leaves_start_transfer [OF assms, of BLK_READING 18 startblk] by (auto simp: leaves_def mmcStartSequentialRead_def)
  show ?thesis
  proof (cases f)
    case False
    then have s1: "started s1" "m_state s1 = BLK_READING" using 1 by (simp_all add: going_def started_def)
    obtain g b s2 where 2: "mmc_read_loop n s1 = Some ((g, b), s2)" "m_config s2" "idles s2" "going BLK_READING g s2"
      using leaves_read_loop [OF s1, of n] by (auto simp: leaves_def)
    show ?thesis
    proof (cases g)
      case F: False
      then have s2: "started s2" "m_state s2 = BLK_READING" using 2 by (simp_all add: going_def started_def)
      have "leaves (\<lambda>f s'. m_state s' = BLK_READY \<and> \<not> f) (mmcStopSequentialRead s2)"
        using s2 unfolding mmcStopSequentialRead_def
        by simp (intro leaves_bus [OF bus_op_spi(3)] leaves_bus [OF bus_op_commands(1)] leaves_bus [OF bus_op_spi(2)], auto simp: HAL_SUCCESS_def startedD)
      then show ?thesis using 1 2 False F by (auto simp: mmc_read_def leaves_def)
    qed (use 1 2 False in \<open>auto simp: mmc_read_def going_def\<close>)
  qed (use 1 in \<open>auto simp: mmc_read_def going_def\<close>)
qed

lemma leaves_sequential_write:
  assumes "started s" "m_state s = BLK_WRITING"
  shows "leaves (going BLK_WRITING) (mmcSequentialWrite buffer s)"
proof -
  let ?s = "adv 3 [SpiSend [0xFF, 0xFC], SpiSend (take MMCSD_BLOCK_SIZE buffer), SpiIgnore 2, SpiReceive 1] s"
  have "on_bus s ?s" unfolding on_bus_def by blast
  then have s: "started ?s" "m_state ?s = BLK_WRITING" using assms on_bus_started [of s ?s] by simp_all
  have e: "mmcSequentialWrite buffer s = (if rx s 2 AND 0x1F = 5 then do { (_, s) \<leftarrow> mmc_wait ?s; Some (HAL_SUCCESS, s) } else mmc_abort HAL_FAILED ?s)"
    using assms by (simp add: mmcSequentialWrite_def spi_eqs started_def numeral_3_eq_3 numeral_2_eq_2)
  have "leaves (going BLK_WRITING) (do { (_, s) \<leftarrow> mmc_wait ?s; Some (HAL_SUCCESS, s) })"
    by (rule leaves_bus [OF bus_op_idle(2) s(1)]) (use s(2) in \<open>auto simp: going_def HAL_SUCCESS_def started_def dest!: on_bus_fields(1)\<close>)
  moreover have "leaves (going BLK_WRITING) (mmc_abort HAL_FAILED ?s)"
    by (rule leaves_mono [OF leaves_abort [OF s(1)]]) (simp add: going_def HAL_FAILED_def)
  ultimately show ?thesis unfolding e by (rule leaves_if)
qed

lemma leaves_write_loop:
  "started s \<Longrightarrow> m_state s = BLK_WRITING \<Longrightarrow> leaves (going BLK_WRITING) (mmc_write_loop n buffer s)"
proof (induction n arbitrary: s buffer)
  case 0
  then show ?case by (simp add: going_def HAL_SUCCESS_def started_def)
next
  case (Suc n)
  obtain f s1 where 1: "mmcSequentialWrite buffer s = Some (f, s1)" "m_config s1" "idles s1" "going BLK_WRITING f s1"
    using leaves_sequential_write [OF Suc.prems, of buffer] by (auto simp: leaves_def)
  show ?case
  proof (cases f)
    case False
    then have "started s1" "m_state s1 = BLK_WRITING" using 1 by (simp_all add: going_def started_def)
    from Suc.IH [OF this] show ?thesis using 1 False by auto
  qed (use 1 in \<open>auto simp: going_def HAL_FAILED_def\<close>)
qed

lemma leaves_write:
  assumes "m_config s" "idles s" "m_state s = BLK_READY"
  shows "leaves (\<lambda>f s'. m_state s' = BLK_READY \<and> (f \<longrightarrow> \<not> spi_ready s')) (mmc_write startblk buffer n s)"
proof -
  obtain f s1 where 1: "mmcStartSequentialWrite startblk s = Some (f, s1)" "m_config s1" "idles s1" "going BLK_WRITING f s1"
    using leaves_start_transfer [OF assms, of BLK_WRITING 25 startblk] by (auto simp: leaves_def mmcStartSequentialWrite_def)
  show ?thesis
  proof (cases f)
    case False
    then have s1: "started s1" "m_state s1 = BLK_WRITING" using 1 by (simp_all add: going_def started_def)
    obtain g s2 where 2: "mmc_write_loop n buffer s1 = Some (g, s2)" "m_config s2" "idles s2" "going BLK_WRITING g s2"
      using leaves_write_loop [OF s1, of n buffer] by (auto simp: leaves_def)
    show ?thesis
    proof (cases g)
      case F: False
      then have s2: "started s2" "m_state s2 = BLK_WRITING" using 2 by (simp_all add: going_def started_def)
      have "leaves (\<lambda>f s'. m_state s' = BLK_READY \<and> \<not> f) (mmcStopSequentialWrite s2)"
        using s2 unfolding mmcStopSequentialWrite_def
        by simp (intro leaves_bus [OF bus_op_spi(3)] leaves_bus [OF bus_op_spi(2)], auto simp: HAL_SUCCESS_def startedD)
      then show ?thesis using 1 2 False F by (auto simp: mmc_write_def leaves_def)
    qed (use 1 2 False in \<open>auto simp: mmc_write_def going_def\<close>)
  qed (use 1 in \<open>auto simp: mmc_write_def going_def\<close>)
qed

lemma leaves_sync: "m_config s \<Longrightarrow> idles s \<Longrightarrow> m_state s = BLK_READY \<Longrightarrow> leaves (\<lambda>_ s'. m_state s' = BLK_READY) (mmcSync s)"
  unfolding mmcSync_def
  by simp (rule leaves_bind [OF leaves_start], simp, simp, rule leaves_bus [OF bus_op_commands(5)], auto simp: startedD)

lemma leaves_disconnect:
  assumes "m_config s" "idles s" "m_state s = BLK_ACTIVE \<or> m_state s = BLK_READY"
  shows "leaves (\<lambda>_ s'. m_state s' = BLK_ACTIVE) (mmcDisconnect s)"
proof (cases "m_state s = BLK_ACTIVE")
  case False
  then have "mmcDisconnect s = do { (_, s) \<leftarrow> spi_start Hscfg (s\<lparr>m_state := BLK_DISCONNECTING\<rparr>); (_, s) \<leftarrow> mmc_sync s; (_, s) \<leftarrow> spi_stop s;
      Some (HAL_SUCCESS, s\<lparr>m_state := BLK_ACTIVE\<rparr>) }" using assms(3) by (simp add: mmcDisconnect_def)
  moreover have "leaves (\<lambda>_ s'. m_state s' = BLK_ACTIVE) \<dots>"
    by (rule leaves_bind [OF leaves_start], use assms in simp, use assms in simp, rule leaves_bus [OF bus_op_commands(5)], simp, rule leaves_bind [OF leaves_stop])
      (auto simp: startedD)
  ultimately show ?thesis by simp
qed (use assms in \<open>simp add: mmcDisconnect_def\<close>)

text \<open>
  An application calls the operations one after the other, those that check the state only in the states they are made for.
\<close>

datatype mmc_call =
    MStart
  | MStop
  | MConnect
  | MDisconnect
  | MSync
  | MRead "32 word" nat
  | MWrite "32 word" "8 word list" nat

fun mmc_exec :: "overshift \<Rightarrow> mmc_call \<Rightarrow> mmc_driver \<Rightarrow> mmc_driver option" where
  "mmc_exec ov MStart s = mmcStart s"
| "mmc_exec ov MStop s = mmcStop s"
| "mmc_exec ov MConnect s = map_option snd (mmcConnect ov s)"
| "mmc_exec ov MDisconnect s = map_option snd (mmcDisconnect s)"
| "mmc_exec ov MSync s = map_option snd (mmcSync s)"
| "mmc_exec ov (MRead b n) s = map_option snd (mmc_read b n s)"
| "mmc_exec ov (MWrite b buf n) s = map_option snd (mmc_write b buf n s)"

fun mmc_allowed :: "mmc_call \<Rightarrow> mmc_driver \<Rightarrow> bool" where
  "mmc_allowed MStart s \<longleftrightarrow> m_state s \<in> {BLK_STOP, BLK_ACTIVE}"
| "mmc_allowed MStop s \<longleftrightarrow> m_state s \<in> {BLK_STOP, BLK_ACTIVE}"
| "mmc_allowed MConnect s \<longleftrightarrow> m_state s \<in> {BLK_ACTIVE, BLK_READY}"
| "mmc_allowed MDisconnect s \<longleftrightarrow> m_state s \<in> {BLK_ACTIVE, BLK_READY}"
| "mmc_allowed MSync s \<longleftrightarrow> True"
| "mmc_allowed (MRead b n) s \<longleftrightarrow> m_state s = BLK_READY"
| "mmc_allowed (MWrite b buf n) s \<longleftrightarrow> m_state s = BLK_READY"

fun mmc_run :: "overshift \<Rightarrow> mmc_call list \<Rightarrow> mmc_driver \<Rightarrow> mmc_driver option" where
  "mmc_run ov [] s = Some s"
| "mmc_run ov (c # cs) s = do { s \<leftarrow> (if mmc_allowed c s then mmc_exec ov c s else Some s); mmc_run ov cs s }"

definition mmc_ok :: "mmc_driver \<Rightarrow> bool" where
  "mmc_ok s \<longleftrightarrow> m_config s \<and> idles s \<and> m_state s \<in> {BLK_STOP, BLK_ACTIVE, BLK_READY}"

lemma leaves_exec:
  "leaves (\<lambda>r s'. m_state s' \<in> {BLK_STOP, BLK_ACTIVE, BLK_READY}) m \<Longrightarrow> \<exists>s'. map_option snd m = Some s' \<and> mmc_ok s'"
  by (auto simp: leaves_def mmc_ok_def)

lemma mmc_exec_ok:
  assumes s: "mmc_ok s" and a: "mmc_allowed c s"
  shows "\<exists>s'. mmc_exec ov c s = Some s' \<and> mmc_ok s'"
proof -
  have i: "m_config s" "idles s" using s by (simp_all add: mmc_ok_def)
  show ?thesis
  proof (cases c)
    case MStop
    then show ?thesis using a i by (auto simp: mmcStop_def spi_stop_def mmc_ok_def)
  next
    case MStart
    then show ?thesis using a i by (auto simp: mmcStart_def mmc_ok_def) (simp_all add: idles_def)
  next
    case MConnect
    then show ?thesis using a leaves_exec [OF leaves_mono [OF leaves_connect [OF i]]] by (auto split: if_splits)
  next
    case MDisconnect
    then show ?thesis using a leaves_exec [OF leaves_mono [OF leaves_disconnect [OF i]]] by auto
  next
    case MSync
    then show ?thesis using s leaves_exec [OF leaves_mono [OF leaves_sync [OF i]]]
      by (cases "m_state s = BLK_READY") (auto simp: mmcSync_def)
  next
    case (MRead b n)
    then show ?thesis using a leaves_exec [OF leaves_mono [OF leaves_read [OF i]]] by auto
  next
    case (MWrite b buf n)
    then show ?thesis using a leaves_exec [OF leaves_mono [OF leaves_write [OF i]]] by auto
  qed
qed


text \<open>
  C40. \<open>mmcErase\<close> does not start the SPI driver. After a read that failed the driver reports that it is ready, but the SPI driver has been stopped,
  and erasing then fails an assertion: the system halts.
\<close>

theorem mmc_erase_after_failure:
  assumes "mmc_ok s" "m_state s = BLK_READY" "mmc_read startblk n s = Some ((HAL_FAILED, buf), s')"
  shows "m_state s' = BLK_READY \<and> mmcErase b e s' = None"
proof -
  have "m_state s' = BLK_READY" "\<not> spi_ready s'"
    using leaves_read [of s startblk n] assms by (auto simp: mmc_ok_def leaves_def HAL_FAILED_def)
  then show ?thesis by (simp add: mmcErase_def send_command_R1_def spi_select_def spi_do_def assert_that_def)
qed

section \<open>Instances\<close>

text \<open>A driver that is ready, on a bus with the given bytes and then idle.\<close>

definition mmc_demo :: "8 word list \<Rightarrow> mmc_driver" where
  "mmc_demo bs = \<lparr>m_state = BLK_READY, m_config = True, block_addresses = False, m_cid = [0, 0, 0, 0], m_csd = [0, 0, 0, 0], m_capacity = 4096, spi_ready = False,
     rx = (\<lambda>i. if i < length bs then bs ! i else 0xFF), events = []\<rparr>"

lemma mmc_demo_gets: "gets (mmc_demo bs) bs"
  by (auto simp: gets_def mmc_demo_def intro: nth_equalityI)

lemma mmc_demo_fields [simp]: "m_state (mmc_demo bs) = BLK_READY" "m_config (mmc_demo bs)" "events (mmc_demo bs) = []"
  by (simp_all add: mmc_demo_def)

lemma mmc_demo_ok: "mmc_ok (mmc_demo bs)"
proof -
  have "\<exists>j \<ge> i. rx (mmc_demo bs) j = 0xFF" for i by (intro exI [of _ "i + length bs"]) (simp add: mmc_demo_def)
  then show ?thesis by (simp add: mmc_ok_def idles_def)
qed

theorem mmc_read_blocks_witness:
  "\<exists>s'. mmc_read 3 1 (mmc_demo ([0, 0xFF, 0] @ card_block ([0xFF], replicate 512 0xAB, [1, 2]))) = Some ((HAL_SUCCESS, replicate 512 0xAB), s') \<and> m_state s' = BLK_READY"
proof -
  let ?seg = "([0xFF], replicate 512 0xAB, [1, 2]) :: 8 word list \<times> 8 word list \<times> 8 word list"
  have "card_block_ok ?seg" by (simp add: card_block_ok_def MMC_WAIT_DATA_def MMCSD_BLOCK_SIZE_def)
  then show ?thesis using mmc_read_blocks [of "mmc_demo ([0, 0xFF, 0] @ card_block ?seg)" "[0]" 0 "[?seg]" 3] mmc_demo_gets [of "[0, 0xFF, 0] @ card_block ?seg"]
    by (auto simp del: gets_simps)
qed

theorem mmc_write_blocks_witness:
  "\<exists>s'. mmc_write 3 (replicate 512 0xAB) 1 (mmc_demo ([0, 0xFF, 0] @ card_answer ([0, 0], 0xE5, [0]))) = Some (HAL_SUCCESS, s') \<and> m_state s' = BLK_READY"
proof -
  let ?a = "([0, 0], 0xE5, [0]) :: 8 word list \<times> 8 word \<times> 8 word list"
  have "card_answer_ok ?a" by (simp add: card_answer_ok_def)
  then show ?thesis
    using mmc_write_blocks [of "mmc_demo ([0, 0xFF, 0] @ card_answer ?a)" "[0]" 0 "[?a]" "[replicate 512 0xAB]" 3] mmc_demo_gets [of "[0, 0xFF, 0] @ card_answer ?a"]
    by (auto simp: MMCSD_BLOCK_SIZE_def simp del: gets_simps)
qed


lemma recvr1_loop_silent: "ready_on s \<Longrightarrow> (\<And>i. rx s i = 0xFF) \<Longrightarrow> \<exists>s'. recvr1_loop n s = Some (0xFF, s') \<and> ready_on s'"
proof (induction n arbitrary: s)
  case (Suc n)
  then show ?case using Suc.IH [of "adv 1 [SpiReceive 1] s"] by (simp add: spi_eqs)
qed simp

lemma mmc_read_silent: "\<exists>s'. mmc_read b n (mmc_demo []) = Some ((HAL_FAILED, []), s')"
proof -
  let ?s = "adv 0 [SpiStart Hscfg, SpiSelect] (mmc_demo []\<lparr>m_state := BLK_READING, spi_ready := True\<rparr>)"
  have "gets ?s ([] @ [0xFF])" by (simp add: mmc_demo_def)
  then obtain es where es: "send_hdr 18 (mmc_address b (mmc_demo [])) ?s = Some ((), adv 1 es ?s)"
    using send_hdr_eq [of ?s "[]" 18 "mmc_address b (mmc_demo [])"] by auto
  obtain s' where "recvr1 (adv 1 es ?s) = Some (0xFF, s')" "ready_on s'"
    using recvr1_loop_silent [of "adv 1 es ?s" 9] by (auto simp: recvr1_def mmc_demo_def)
  then show ?thesis using es
    by (simp add: mmc_read_def mmcStartSequentialRead_def mmc_start_transfer_def spi_start_eq spi_eqs mmc_address_def spi_stop_def HAL_FAILED_def)
qed

theorem mmc_erase_after_failure_witness:
  "\<exists>s'. mmc_read 0 1 (mmc_demo []) = Some ((HAL_FAILED, []), s') \<and> m_state s' = BLK_READY \<and> mmcErase 0 7 s' = None"
  using mmc_read_silent [of 0 1] mmc_erase_after_failure [OF mmc_demo_ok, of "[]" 0 1 "[]" _ 0 7] by auto

end
