(* ===== verification/OsShell.thy ===== *)
theory OsShell
  imports ChPrintf
begin

text \<open>
  The command shell, \<open>os/various/shell.c\<close>: the line editor, the splitting of a line into command and arguments by a destructive
  \<open>strtok\<close> on the line buffer, and the loop of the shell thread. The channel is a list of keys still to come (its end is a
  channel reset, where a read returns 0) and the bytes put on it. The commands of the application are functions on the state
  of the shell with a part of their own, of any type.
\<close>

section \<open>The line editor\<close>

record 'w shell =
  sh_in :: "byte list"
  sh_out :: "byte list"
  sh_world :: 'w

definition sh_put :: "byte list \<Rightarrow> 'w shell \<Rightarrow> 'w shell" where
  "sh_put bs s = s\<lparr>sh_out := sh_out s @ bs\<rparr>"

abbreviation ascii :: "string \<Rightarrow> byte list" where
  "ascii cs \<equiv> map asc cs"

definition CRLF :: "byte list" where "CRLF = [13, 10]"

definition SHELL_MAX_LINE_LENGTH :: nat where "SHELL_MAX_LINE_LENGTH = 64"
definition SHELL_MAX_ARGUMENTS :: nat where "SHELL_MAX_ARGUMENTS = 4"

text \<open>Whether \<open>char\<close> is signed is up to the machine; the comparison of a key with 0x20 depends on it.\<close>

definition sh_control :: "bool \<Rightarrow> byte \<Rightarrow> bool" where
  "sh_control sg c \<longleftrightarrow> (if sg then sint c < 0x20 else unat c < 0x20)"

text \<open>The buffer \<open>line\<close> and the index \<open>p\<close> of the next key; a write behind the buffer is \<open>None\<close>.\<close>

definition sh_store :: "nat \<Rightarrow> byte \<Rightarrow> byte list \<Rightarrow> byte list option" where
  "sh_store p c line = do { assert_that (p < length line); Some (line[p := c]) }"

function shellGetLine_loop :: "bool \<Rightarrow> nat \<Rightarrow> nat \<Rightarrow> byte list \<Rightarrow> 'w shell \<Rightarrow> (bool \<times> byte list \<times> 'w shell) option" where
  "shellGetLine_loop sg sz p line s =
     (case sh_in s of
        [] \<Rightarrow> Some (True, line, s)
      | c # cs \<Rightarrow>
          let s = s\<lparr>sh_in := cs\<rparr>
          in if c = 4 then Some (True, line, sh_put (ascii ''^D'') s)
             else if c = 8 \<or> c = 127 then
               (if p \<noteq> 0 then shellGetLine_loop sg sz (p - 1) line (sh_put [c, 0x20, c] s) else shellGetLine_loop sg sz p line s)
             else if c = 13 then do { line \<leftarrow> sh_store p 0 line; Some (False, line, sh_put CRLF s) }
             else if sh_control sg c then shellGetLine_loop sg sz p line s
             else if p < sz - 1 then do { line \<leftarrow> sh_store p c line; shellGetLine_loop sg sz (p + 1) line (sh_put [c] s) }
             else shellGetLine_loop sg sz p line s)"
  by pat_completeness auto
termination
  by (relation "measure (\<lambda>(sg, sz, p, line, s). length (sh_in s))") (auto simp: sh_put_def)

declare shellGetLine_loop.simps [simp del]

definition shellGetLine :: "bool \<Rightarrow> byte list \<Rightarrow> 'w shell \<Rightarrow> (bool \<times> byte list \<times> 'w shell) option" where
  "shellGetLine sg line s = shellGetLine_loop sg (length line) 0 line s"

section \<open>Splitting a line\<close>

text \<open>A C string in the buffer, from a position to the zero byte.\<close>

definition c_string :: "byte list \<Rightarrow> nat \<Rightarrow> byte list" where
  "c_string buf p = takeWhile (\<lambda>c. c \<noteq> 0) (drop p buf)"

definition blank :: "byte \<Rightarrow> bool" where
  "blank c \<longleftrightarrow> c = 0x20 \<or> c = 9"

definition strspn :: "byte list \<Rightarrow> nat \<Rightarrow> nat" where
  "strspn buf p = length (takeWhile blank (c_string buf p))"

definition strpbrk :: "byte list \<Rightarrow> nat \<Rightarrow> nat option" where
  "strpbrk buf p =
     (let n = length (takeWhile (\<lambda>c. \<not> blank c) (c_string buf p)) in if n < length (c_string buf p) then Some (p + n) else None)"

text \<open>\<open>_strtok\<close> with the blanks as delimiters: the token, the place to go on, and the buffer in which the end of the token is now a zero.\<close>

definition strtok :: "nat option \<Rightarrow> nat option \<Rightarrow> byte list \<Rightarrow> nat option \<times> nat option \<times> byte list" where
  "strtok str saveptr buf =
     (case (case str of Some p \<Rightarrow> Some p | None \<Rightarrow> saveptr) of
        None \<Rightarrow> (None, None, buf)
      | Some token \<Rightarrow>
          let token = token + strspn buf token
          in case strpbrk buf token of
               None \<Rightarrow> (if buf ! token \<noteq> 0 then Some token else None, None, buf)
             | Some q \<Rightarrow> let buf = buf[q := 0] in (if buf ! token \<noteq> 0 then Some token else None, Some (q + 1), buf))"

text \<open>The loop over the arguments; \<open>n\<close> of them are already there. The result says whether there are too many.\<close>

function shell_args :: "nat list \<Rightarrow> nat option \<Rightarrow> byte list \<Rightarrow> bool \<times> nat list \<times> byte list" where
  "shell_args args saveptr buf =
     (case strtok None saveptr buf of
        (None, saveptr, buf) \<Rightarrow> (False, args, buf)
      | (Some lp, saveptr, buf) \<Rightarrow>
          if length args \<ge> SHELL_MAX_ARGUMENTS then (True, args, buf) else shell_args (args @ [lp]) saveptr buf)"
  by pat_completeness auto
termination
  by (relation "measure (\<lambda>(args, saveptr, buf). SHELL_MAX_ARGUMENTS - length args)") auto

declare shell_args.simps [simp del]

text \<open>The command and its arguments, as positions in the buffer.\<close>

definition shell_parse :: "byte list \<Rightarrow> nat option \<times> bool \<times> nat list \<times> byte list" where
  "shell_parse buf =
     (case strtok (Some 0) None buf of (cmd, saveptr, buf) \<Rightarrow>
        case shell_args [] saveptr buf of (many, args, buf) \<Rightarrow> (if many then None else cmd, many, args, buf))"

section \<open>The shell thread\<close>

type_synonym 'w command = "byte list \<times> (byte list list \<Rightarrow> 'w shell \<Rightarrow> 'w shell option)"

definition tolower_byte :: "byte \<Rightarrow> byte" where
  "tolower_byte c = (if 65 \<le> c \<and> c \<le> 90 then c + 32 else c)"

definition strcaseeq :: "byte list \<Rightarrow> byte list \<Rightarrow> bool" where
  "strcaseeq a b \<longleftrightarrow> map tolower_byte a = map tolower_byte b"

definition usage :: "byte list \<Rightarrow> 'w shell \<Rightarrow> 'w shell" where
  "usage p = sh_put (ascii ''Usage: '' @ p @ CRLF)"

definition list_commands :: "'w command list \<Rightarrow> 'w shell \<Rightarrow> 'w shell" where
  "list_commands scp = sh_put (concat (map (\<lambda>c. fst c @ ascii '' '') scp))"

text \<open>What \<open>info\<close> prints is fixed by the build, the time by the kernel: both are parameters.\<close>

definition cmd_info :: "byte list \<Rightarrow> byte list list \<Rightarrow> 'w shell \<Rightarrow> 'w shell option" where
  "cmd_info info args s = Some (if args \<noteq> [] then usage (ascii ''info'') s else sh_put info s)"

definition cmd_systime :: "('w \<Rightarrow> byte list) \<Rightarrow> byte list list \<Rightarrow> 'w shell \<Rightarrow> 'w shell option" where
  "cmd_systime now args s = Some (if args \<noteq> [] then usage (ascii ''systime'') s else sh_put (now (sh_world s) @ CRLF) s)"

definition local_commands :: "byte list \<Rightarrow> ('w \<Rightarrow> byte list) \<Rightarrow> 'w command list" where
  "local_commands info now = [(ascii ''info'', cmd_info info), (ascii ''systime'', cmd_systime now)]"

text \<open>The result \<open>True\<close> means that the command is not in the table.\<close>

fun cmdexec :: "'w command list \<Rightarrow> byte list \<Rightarrow> byte list list \<Rightarrow> 'w shell \<Rightarrow> (bool \<times> 'w shell) option" where
  "cmdexec [] name args s = Some (True, s)"
| "cmdexec (c # cs) name args s =
     (if strcaseeq (fst c) name then do { s \<leftarrow> snd c args s; Some (False, s) } else cmdexec cs name args s)"

text \<open>The dispatch of a command: whether the shell ends, and its state. \<open>loc\<close> and \<open>scp\<close> are the two tables, the second one optional.\<close>

definition shell_command ::
  "'w command list \<Rightarrow> 'w command list option \<Rightarrow> byte list \<Rightarrow> byte list list \<Rightarrow> 'w shell \<Rightarrow> (bool \<times> 'w shell) option" where
  "shell_command loc scp name argv s =
     (if strcaseeq name (ascii ''exit'') then Some (if argv \<noteq> [] then (False, usage (ascii ''exit'') s) else (True, s))
      else if strcaseeq name (ascii ''help'')
      then Some (False,
        if argv \<noteq> [] then usage (ascii ''help'') s
        else sh_put CRLF ((case scp of None \<Rightarrow> id | Some scp \<Rightarrow> list_commands scp) (list_commands loc (sh_put (ascii ''Commands: help exit '') s))))
      else do {
        (f, s) \<leftarrow> cmdexec loc name argv s;
        (f, s) \<leftarrow> (if f then (case scp of None \<Rightarrow> Some (True, s) | Some scp \<Rightarrow> cmdexec scp name argv s) else Some (False, s));
        Some (False, if f then sh_put (ascii '' ?'' @ CRLF) (sh_put name s) else s) })"

text \<open>One line; the result has the buffer too, with the zeros that splitting wrote to it.\<close>

definition shell_line ::
  "'w command list \<Rightarrow> 'w command list option \<Rightarrow> byte list \<Rightarrow> 'w shell \<Rightarrow> (bool \<times> byte list \<times> 'w shell) option" where
  "shell_line loc scp line s =
     (case shell_parse line of (cmd, many, args, buf) \<Rightarrow>
        let s = (if many then sh_put (ascii ''too many arguments'' @ CRLF) s else s)
        in case cmd of
             None \<Rightarrow> Some (False, buf, s)
           | Some cmd \<Rightarrow> do { (fin, s) \<leftarrow> shell_command loc scp (c_string buf cmd) (map (c_string buf) args) s; Some (fin, buf, s) })"

partial_function (option) shell_loop ::
  "bool \<Rightarrow> 'w command list \<Rightarrow> 'w command list option \<Rightarrow> byte list \<Rightarrow> 'w shell \<Rightarrow> 'w shell option" where
  "shell_loop sg loc scp line s =
     do { (eof, line, s) \<leftarrow> shellGetLine sg line (sh_put (ascii ''ch> '') s);
          if eof then Some (sh_put (CRLF @ ascii ''logout'') s)
          else do { (fin, line, s) \<leftarrow> shell_line loc scp line s; if fin then Some s else shell_loop sg loc scp line s } }"

text \<open>The thread up to its call of \<open>shellExit\<close>; what the line buffer holds at the start is arbitrary.\<close>

definition shell_thread ::
  "bool \<Rightarrow> byte list \<Rightarrow> ('w \<Rightarrow> byte list) \<Rightarrow> 'w command list option \<Rightarrow> byte list \<Rightarrow> 'w shell \<Rightarrow> 'w shell option" where
  "shell_thread sg info now scp line s = shell_loop sg (local_commands info now) scp line (sh_put (CRLF @ ascii ''ChibiOS/RT Shell'' @ CRLF) s)"

section \<open>Lines\<close>

text \<open>The reference for the editor: what a key does to the line typed so far.\<close>

definition edit_key :: "bool \<Rightarrow> nat \<Rightarrow> byte list \<Rightarrow> byte \<Rightarrow> byte list" where
  "edit_key sg sz l c = (if c = 8 \<or> c = 127 then butlast l else if sh_control sg c \<or> length l \<ge> sz - 1 then l else l @ [c])"

definition echo_key :: "bool \<Rightarrow> nat \<Rightarrow> byte list \<Rightarrow> byte \<Rightarrow> byte list" where
  "echo_key sg sz l c = (if c = 8 \<or> c = 127 then (if l = [] then [] else [c, 0x20, c]) else if sh_control sg c \<or> length l \<ge> sz - 1 then [] else [c])"

fun echoes :: "bool \<Rightarrow> nat \<Rightarrow> byte list \<Rightarrow> byte list \<Rightarrow> byte list" where
  "echoes sg sz l [] = []"
| "echoes sg sz l (c # cs) = echo_key sg sz l c @ echoes sg sz (edit_key sg sz l c) cs"

lemma c_string_prefix: "0 \<notin> set l \<Longrightarrow> drop p buf = l @ 0 # r \<Longrightarrow> c_string buf p = l"
  unfolding c_string_def by (simp, subst takeWhile_append2) auto

lemma sh_zero_control: "sh_control sg 0"
  by (simp add: sh_control_def)

lemma list_update_at: "take n xs = l \<Longrightarrow> length l = n \<Longrightarrow> n < length xs \<Longrightarrow> xs[n := x] = l @ x # drop (n + 1) xs"
  by (metis Suc_eq_plus1 upd_conv_take_nth_drop)

text \<open>What the editor leaves: the line in the buffer, ended by a zero.\<close>

definition line_read :: "byte list \<Rightarrow> nat \<Rightarrow> byte list \<Rightarrow> bool" where
  "line_read l sz line \<longleftrightarrow> length line = sz \<and> 0 \<notin> set l \<and> length l < sz \<and> (\<exists>r. line = l @ 0 # r)"

lemma shellGetLine_key:
  assumes "sh_in s = c # cs" "c \<noteq> 4" "c \<noteq> 13" "length line = sz" "length l < sz" "take (length l) line = l" "0 \<notin> set l"
  shows "\<exists>line'. shellGetLine_loop sg sz (length l) line s =
      shellGetLine_loop sg sz (length (edit_key sg sz l c)) line' (s\<lparr>sh_in := cs, sh_out := sh_out s @ echo_key sg sz l c\<rparr>) \<and>
    length line' = sz \<and> length (edit_key sg sz l c) < sz \<and> take (length (edit_key sg sz l c)) line' = edit_key sg sz l c \<and>
    0 \<notin> set (edit_key sg sz l c)"
proof -
  let ?s = "s\<lparr>sh_in := cs\<rparr>" and ?p = "length l"
  have eq: "shellGetLine_loop sg sz ?p line s =
      (if c = 8 \<or> c = 127 then (if ?p \<noteq> 0 then shellGetLine_loop sg sz (?p - 1) line (sh_put [c, 0x20, c] ?s) else shellGetLine_loop sg sz ?p line ?s)
       else if sh_control sg c then shellGetLine_loop sg sz ?p line ?s
       else if ?p < sz - 1 then shellGetLine_loop sg sz (?p + 1) (line[?p := c]) (sh_put [c] ?s) else shellGetLine_loop sg sz ?p line ?s)"
    using assms by (subst shellGetLine_loop.simps) (simp add: sh_store_def Let_def)
  consider "c = 8 \<or> c = 127" "l \<noteq> []" | "if c = 8 \<or> c = 127 then l = [] else sh_control sg c \<or> sz - 1 \<le> ?p"
    | "c \<noteq> 8" "c \<noteq> 127" "\<not> sh_control sg c" "?p < sz - 1" using not_le by metis
  then show ?thesis
  proof cases
    case 1
    have "take (length (butlast l)) line = take (length (butlast l)) (take ?p line)" by simp
    then have "take (length (butlast l)) line = butlast l" unfolding assms(6) by (simp add: butlast_conv_take)
    moreover have "0 \<notin> set (butlast l)" using assms(7) in_set_butlastD by fast
    moreover have "edit_key sg sz l c = butlast l" "echo_key sg sz l c = [c, 0x20, c]" using 1 by (auto simp: edit_key_def echo_key_def)
    ultimately show ?thesis using 1 eq assms(4,5) by (auto simp: sh_put_def intro!: exI [of _ line])
  next
    case 2
    then have "edit_key sg sz l c = l" "echo_key sg sz l c = []" by (auto simp: edit_key_def echo_key_def split: if_splits)
    moreover have "shellGetLine_loop sg sz ?p line s = shellGetLine_loop sg sz ?p line ?s" using 2 eq by (auto split: if_splits)
    ultimately show ?thesis using assms(4-7) by (auto intro!: exI [of _ line])
  next
    case 3
    have "edit_key sg sz l c = l @ [c]" "echo_key sg sz l c = [c]" using 3 by (auto simp: edit_key_def echo_key_def)
    moreover have "take (?p + 1) (line[?p := c]) = l @ [c]" using list_update_at [of ?p line l c] assms by simp
    moreover have "c \<noteq> 0" using 3(3) sh_zero_control by metis
    ultimately show ?thesis using 3 eq assms(4,7) by (auto simp: sh_put_def intro!: exI [of _ "line[?p := c]"])
  qed
qed

lemma shellGetLine_keys:
  assumes "sh_in s = keys @ rest" "4 \<notin> set keys" "13 \<notin> set keys" "length line = sz" "length l < sz" "take (length l) line = l" "0 \<notin> set l"
  shows "\<exists>line' l'. l' = foldl (edit_key sg sz) l keys \<and> shellGetLine_loop sg sz (length l) line s =
      shellGetLine_loop sg sz (length l') line' (s\<lparr>sh_in := rest, sh_out := sh_out s @ echoes sg sz l keys\<rparr>) \<and>
    length line' = sz \<and> length l' < sz \<and> take (length l') line' = l' \<and> 0 \<notin> set l'"
  using assms
proof (induction keys arbitrary: s l line)
  case (Cons c keys)
  from Cons.prems obtain line1 where 1: "shellGetLine_loop sg sz (length l) line s =
      shellGetLine_loop sg sz (length (edit_key sg sz l c)) line1 (s\<lparr>sh_in := keys @ rest, sh_out := sh_out s @ echo_key sg sz l c\<rparr>)"
    "length line1 = sz" "length (edit_key sg sz l c) < sz" "take (length (edit_key sg sz l c)) line1 = edit_key sg sz l c"
    "0 \<notin> set (edit_key sg sz l c)" using shellGetLine_key [of s c "keys @ rest" line sz l sg] by auto
  from Cons.IH [of "s\<lparr>sh_in := keys @ rest, sh_out := sh_out s @ echo_key sg sz l c\<rparr>" line1 "edit_key sg sz l c"] 1(2-) Cons.prems(2,3)
  show ?case unfolding 1(1) by simp
qed auto

text \<open>A line ended by return, and the end of the channel or control-D behind an unfinished one.\<close>

lemma shellGetLine_line:
  assumes "sh_in s = keys @ 13 # rest" "4 \<notin> set keys" "13 \<notin> set keys" "line \<noteq> []"
  shows "\<exists>line'. shellGetLine sg line s = Some (False, line', s\<lparr>sh_in := rest, sh_out := sh_out s @ echoes sg (length line) [] keys @ CRLF\<rparr>) \<and>
    line_read (foldl (edit_key sg (length line)) [] keys) (length line) line'"
proof -
  define l where "l = foldl (edit_key sg (length line)) [] keys"
  obtain line1 where 1: "shellGetLine_loop sg (length line) 0 line s =
      shellGetLine_loop sg (length line) (length l) line1 (s\<lparr>sh_in := 13 # rest, sh_out := sh_out s @ echoes sg (length line) [] keys\<rparr>)"
    "length line1 = length line" "length l < length line" "take (length l) line1 = l" "0 \<notin> set l"
    using shellGetLine_keys [OF assms(1-3), of line "length line" "[]" sg] assms(4) by (auto simp: l_def)
  have "line1[length l := 0] = l @ 0 # drop (length l + 1) line1" using 1 by (intro list_update_at) simp_all
  then have "line_read l (length line) (line1[length l := 0])" using 1 by (auto simp: line_read_def)
  moreover have "shellGetLine sg line s =
      Some (False, line1[length l := 0], s\<lparr>sh_in := rest, sh_out := sh_out s @ echoes sg (length line) [] keys @ CRLF\<rparr>)"
    unfolding shellGetLine_def 1(1) using 1(2,3) by (subst shellGetLine_loop.simps) (simp add: sh_store_def sh_put_def)
  ultimately show ?thesis unfolding l_def by blast
qed

lemma shellGetLine_end:
  assumes "sh_in s = keys @ rest" "4 \<notin> set keys" "13 \<notin> set keys" "line \<noteq> []" "rest = [] \<or> hd rest = 4"
  shows "\<exists>line'. shellGetLine sg line s = Some (True, line',
    s\<lparr>sh_in := tl rest, sh_out := sh_out s @ echoes sg (length line) [] keys @ (if rest = [] then [] else ascii ''^D'')\<rparr>)"
proof -
  from shellGetLine_keys [OF assms(1-3), of line "length line" "[]" sg] assms(4) obtain n line1 where 1: "shellGetLine sg line s =
      shellGetLine_loop sg (length line) n line1 (s\<lparr>sh_in := rest, sh_out := sh_out s @ echoes sg (length line) [] keys\<rparr>)"
    by (auto simp: shellGetLine_def)
  then show ?thesis unfolding 1 using assms(5) by (cases rest; subst shellGetLine_loop.simps) (auto simp: sh_put_def)
qed

section \<open>Words\<close>

function tokens :: "byte list \<Rightarrow> byte list list" where
  "tokens l = (let l' = dropWhile blank l in if l' = [] then [] else takeWhile (\<lambda>c. \<not> blank c) l' # tokens (dropWhile (\<lambda>c. \<not> blank c) l'))"
  by pat_completeness auto
termination
proof (relation "measure length")
  fix l l' :: "byte list"
  assume l': "l' = dropWhile blank l" "l' \<noteq> []"
  then have "\<not> blank (hd l')" using hd_dropWhile by blast
  then have "length (dropWhile (\<lambda>c. \<not> blank c) l') < length l'" using l'(2) by (cases l') (simp_all add: length_dropWhile_le le_imp_less_Suc)
  then show "(dropWhile (\<lambda>c. \<not> blank c) l', l) \<in> measure length" using length_dropWhile_le [of blank l] l'(1) by simp
qed simp

declare tokens.simps [simp del]

lemma tokens_blank: "blank b \<Longrightarrow> tokens (b # l) = tokens l"
  by (subst tokens.simps, subst (2) tokens.simps) simp

lemma tokens_cases:
  shows "tokens l = [] \<Longrightarrow> \<forall>c \<in> set l. blank c"
    and "tokens l = w # ws \<Longrightarrow> \<exists>bl rest. l = bl @ w @ rest \<and> (\<forall>c \<in> set bl. blank c) \<and> w \<noteq> [] \<and> (\<forall>c \<in> set w. \<not> blank c) \<and>
      (rest = [] \<and> ws = [] \<or> (\<exists>b l'. rest = b # l' \<and> blank b \<and> tokens l' = ws))"
proof -
  show "tokens l = [] \<Longrightarrow> \<forall>c \<in> set l. blank c" by (subst (asm) tokens.simps) (auto simp: Let_def dropWhile_eq_Nil_conv split: if_splits)
  assume t: "tokens l = w # ws"
  define l1 where "l1 = dropWhile blank l"
  define rest where "rest = dropWhile (\<lambda>c. \<not> blank c) l1"
  have 1: "l1 \<noteq> []" "w = takeWhile (\<lambda>c. \<not> blank c) l1" "ws = tokens rest"
    using t by (subst (asm) tokens.simps, simp add: Let_def l1_def rest_def split: if_splits)+
  have h: "\<not> blank (hd l1)" using 1(1) hd_dropWhile unfolding l1_def by blast
  have "l = takeWhile blank l @ w @ rest" by (simp add: 1(2) rest_def l1_def)
  moreover have "w \<noteq> []" using 1(1,2) h by (cases l1) auto
  moreover have "rest = [] \<and> ws = [] \<or> (\<exists>b l'. rest = b # l' \<and> blank b \<and> tokens l' = ws)"
  proof (cases rest)
    case Nil
    then show ?thesis using 1(3) by (simp add: tokens.simps)
  next
    case (Cons b l')
    then have "blank b" using hd_dropWhile [of "\<lambda>c. \<not> blank c" l1] by (simp add: rest_def)
    then show ?thesis using Cons 1(3) tokens_blank by simp
  qed
  ultimately show "\<exists>bl rest. l = bl @ w @ rest \<and> (\<forall>c \<in> set bl. blank c) \<and> w \<noteq> [] \<and> (\<forall>c \<in> set w. \<not> blank c) \<and>
      (rest = [] \<and> ws = [] \<or> (\<exists>b l'. rest = b # l' \<and> blank b \<and> tokens l' = ws))"
    using 1(2) by (intro exI [of _ "takeWhile blank l"] exI [of _ rest]) (auto dest: set_takeWhileD)
qed

text \<open>A word that stands, ended by a zero, below position \<open>t\<close>; and the words still to be found from a saved position.\<close>

definition word_at :: "byte list \<Rightarrow> nat \<Rightarrow> nat \<Rightarrow> byte list \<Rightarrow> bool" where
  "word_at buf t p w \<longleftrightarrow> 0 \<notin> set w \<and> p + length w + 1 \<le> t \<and> drop p (take (p + length w + 1) buf) = w @ [0]"

definition words_from :: "nat option \<Rightarrow> nat \<Rightarrow> byte list \<Rightarrow> byte list list \<Rightarrow> bool" where
  "words_from saveptr t buf ws \<longleftrightarrow>
     saveptr = None \<and> ws = [] \<or> saveptr = Some t \<and> (\<exists>l r. drop t buf = l @ 0 # r \<and> 0 \<notin> set l \<and> tokens l = ws)"

lemma word_at_c_string: "word_at buf t p w \<Longrightarrow> c_string buf p = w"
proof -
  assume w: "word_at buf t p w"
  have "drop p buf = take (length w + 1) (drop p buf) @ drop (length w + 1) (drop p buf)" by (rule append_take_drop_id [symmetric])
  also have "take (length w + 1) (drop p buf) = w @ [0]" using w by (simp add: word_at_def drop_take)
  finally show ?thesis using w c_string_prefix [of w p buf] by (simp add: word_at_def)
qed

lemma word_at_mono: "word_at buf t p w \<Longrightarrow> take t buf' = take t buf \<Longrightarrow> t \<le> t' \<Longrightarrow> word_at buf' t' p w"
  unfolding word_at_def by (metis le_trans min.absorb1 take_take)

lemma word_at_here: "drop p buf = w @ 0 # r \<Longrightarrow> 0 \<notin> set w \<Longrightarrow> word_at buf (p + length w + 1) p w"
  by (simp add: word_at_def drop_take)

lemma strspn_eq: "drop t buf = bl @ x # r \<Longrightarrow> \<forall>c \<in> set bl. blank c \<Longrightarrow> \<not> blank x \<Longrightarrow> strspn buf t = length bl"
proof -
  assume a: "drop t buf = bl @ x # r" "\<forall>c \<in> set bl. blank c" "\<not> blank x"
  then have "\<forall>c \<in> set bl. c \<noteq> 0" by (auto simp: blank_def)
  then have "c_string buf t = bl @ takeWhile (\<lambda>c. c \<noteq> 0) (x # r)" unfolding c_string_def a(1) by (subst takeWhile_append2) auto
  then show ?thesis using a(2,3) by (simp add: strspn_def takeWhile_append2)
qed

lemma strpbrk_eq:
  assumes "drop t buf = w @ b # r" "\<forall>c \<in> set w. \<not> blank c" "0 \<notin> set w"
  shows "b = 0 \<Longrightarrow> strpbrk buf t = None" "blank b \<Longrightarrow> strpbrk buf t = Some (t + length w)"
proof -
  have c: "c_string buf t = w @ takeWhile (\<lambda>c. c \<noteq> 0) (b # r)" unfolding c_string_def assms(1) using assms(3) by (subst takeWhile_append2) auto
  have all: "takeWhile (\<lambda>c. \<not> blank c) w = w" using assms(2) by (simp add: takeWhile_eq_all_conv)
  show "b = 0 \<Longrightarrow> strpbrk buf t = None" by (simp add: strpbrk_def c all del: takeWhile_eq_all_conv)
  show "blank b \<Longrightarrow> strpbrk buf t = Some (t + length w)"
    using c assms(2) takeWhile_append2 [of w "\<lambda>c. \<not> blank c"] by (auto simp: strpbrk_def blank_def)
qed

lemma drop_more: "drop t buf = xs @ ys \<Longrightarrow> drop (t + length xs) buf = ys"
  by (metis add.commute append_eq_conv_conj drop_drop)

lemma strtok_none: "words_from sv t buf [] \<Longrightarrow> strtok None sv buf = (None, None, buf)"
proof (cases sv)
  case (Some t')
  assume "words_from sv t buf []"
  with Some obtain l r where l: "t' = t" "drop t buf = l @ 0 # r" "tokens l = []" by (auto simp: words_from_def)
  have bl: "\<forall>c \<in> set l. blank c" using tokens_cases(1) [OF l(3)] .
  then have n: "strspn buf t = length l" using strspn_eq [OF l(2)] by (simp add: blank_def)
  have d: "drop (t + length l) buf = 0 # r" using drop_more [OF l(2)] .
  then have "strpbrk buf (t + length l) = None" using strpbrk_eq(1) [of "t + length l" buf "[]"] by simp
  moreover have "buf ! (t + length l) = 0" using d by (metis nth_via_drop)
  ultimately show ?thesis using Some l(1) n by (simp add: strtok_def)
qed (simp add: strtok_def)

lemma strtok_some:
  assumes "words_from sv t buf (w # ws)"
  shows "\<exists>p sv' buf'. strtok None sv buf = (Some p, sv', buf') \<and> length buf' = length buf \<and> t \<le> p \<and> take t buf' = take t buf \<and>
    word_at buf' (p + length w + 1) p w \<and> words_from sv' (p + length w + 1) buf' ws"
proof -
  obtain l r where l: "sv = Some t" "drop t buf = l @ 0 # r" "0 \<notin> set l" "tokens l = w # ws" using assms by (auto simp: words_from_def)
  obtain bl rest where t: "l = bl @ w @ rest" "\<forall>c \<in> set bl. blank c" "w \<noteq> []" "\<forall>c \<in> set w. \<not> blank c"
    "rest = [] \<and> ws = [] \<or> (\<exists>b l'. rest = b # l' \<and> blank b \<and> tokens l' = ws)" using tokens_cases(2) [OF l(4)] by blast
  define p where "p = t + length bl"
  have d: "drop p buf = w @ rest @ 0 # r" using drop_more [of t buf bl] l(2) t(1) by (simp add: p_def)
  obtain x w' where x: "w = x # w'" "\<not> blank x" "x \<noteq> 0" using t(1,3,4) l(3) by (cases w) auto
  have n: "t + strspn buf t = p" using strspn_eq [of t buf bl x] l(2) t(1,2) x by (simp add: p_def)
  have w0: "0 \<notin> set w" using l(3) t(1) by simp
  have px: "buf ! p = x" using d x(1) by (metis append_Cons nth_via_drop)
  have len: "p + length w < length buf" using arg_cong [OF d, of length] by simp
  from t(5) show ?thesis
  proof
    assume e: "rest = [] \<and> ws = []"
    then have "strpbrk buf p = None" using strpbrk_eq(1) [of p buf w 0 r] d t(4) w0 by simp
    then have "strtok None sv buf = (Some p, None, buf)" using l(1) n px x(3) by (simp add: strtok_def)
    moreover have "word_at buf (p + length w + 1) p w" using word_at_here d e w0 by simp
    ultimately show ?thesis using e by (simp add: words_from_def p_def)
  next
    assume "\<exists>b l'. rest = b # l' \<and> blank b \<and> tokens l' = ws"
    then obtain b l' where b: "rest = b # l'" "blank b" "tokens l' = ws" by blast
    define buf' where "buf' = buf[p + length w := 0]"
    have "strpbrk buf p = Some (p + length w)" using strpbrk_eq(2) [of p buf w b] d t(4) w0 b by simp
    moreover have "buf' ! p = x" using px x(1) by (simp add: buf'_def)
    ultimately have 1: "strtok None sv buf = (Some p, Some (p + length w + 1), buf')"
      using l(1) n x(3) by (simp add: strtok_def buf'_def Let_def)
    have d': "drop p buf' = w @ 0 # l' @ 0 # r" using d b(1) by (simp add: buf'_def drop_update_swap list_update_append)
    then have 2: "word_at buf' (p + length w + 1) p w" using word_at_here w0 by blast
    have "drop (p + length w + 1) buf' = l' @ 0 # r" using drop_more [of p buf' "w @ [0]"] d' by simp
    then have 3: "words_from (Some (p + length w + 1)) (p + length w + 1) buf' ws" using b l(3) t(1) by (auto simp: words_from_def)
    show ?thesis using 1 2 3 by (simp add: buf'_def p_def)
  qed
qed

text \<open>The loop over the arguments collects the words in their order, and no later zero damages a word found before.\<close>

lemma shell_args_words:
  assumes "words_from sv t buf ws" "list_all2 (word_at buf t) args ds" "length args \<le> SHELL_MAX_ARGUMENTS"
  shows "\<exists>args' buf'. shell_args args sv buf = (SHELL_MAX_ARGUMENTS < length args + length ws, args', buf') \<and> length buf' = length buf \<and>
    take t buf' = take t buf \<and>
    (length args + length ws \<le> SHELL_MAX_ARGUMENTS \<longrightarrow> map (c_string buf') args' = ds @ ws)"
  using assms
proof (induction ws arbitrary: sv t buf args ds)
  case Nil
  have "map (c_string buf) args = ds" using Nil.prems(2) by (induction rule: list_all2_induct) (auto dest: word_at_c_string)
  then show ?case using Nil.prems(3) strtok_none [OF Nil.prems(1)] by (simp add: shell_args.simps)
next
  case (Cons w ws)
  obtain p sv' buf1 where st: "strtok None sv buf = (Some p, sv', buf1)" "length buf1 = length buf" "t \<le> p" "take t buf1 = take t buf"
    "word_at buf1 (p + length w + 1) p w" "words_from sv' (p + length w + 1) buf1 ws" using strtok_some [OF Cons.prems(1)] by blast
  show ?case
  proof (cases "length args < SHELL_MAX_ARGUMENTS")
    case False
    then show ?thesis using st Cons.prems(3) by (simp add: shell_args.simps)
  next
    case True
    let ?t = "p + length w + 1"
    have "list_all2 (word_at buf1 ?t) args ds" using Cons.prems(2) word_at_mono [OF _ st(4), of _ _ ?t] st(3) by (auto elim!: list_all2_mono)
    then have "list_all2 (word_at buf1 ?t) (args @ [p]) (ds @ [w])" using st(5) by (simp add: list_all2_appendI)
    from Cons.IH [OF st(6) this] True obtain args' buf' where
      IH: "shell_args (args @ [p]) sv' buf1 = (SHELL_MAX_ARGUMENTS < length args + length (w # ws), args', buf')" "length buf' = length buf1"
      "take ?t buf' = take ?t buf1" "length args + length (w # ws) \<le> SHELL_MAX_ARGUMENTS \<longrightarrow> map (c_string buf') args' = ds @ w # ws" by auto
    have "take t buf' = take t buf1" using arg_cong [OF IH(3), of "take t"] st(3) by (simp add: min_absorb1)
    moreover have "shell_args args sv buf = shell_args (args @ [p]) sv' buf1" using True st(1) by (subst shell_args.simps) simp
    ultimately show ?thesis using IH st(2,4) by simp
  qed
qed

text \<open>Splitting a line: the command and at most four arguments are the words of the line, otherwise there are too many.\<close>

lemma shell_parse_words:
  assumes "line_read l sz line"
  shows "case tokens l of
      [] \<Rightarrow> shell_parse line = (None, False, [], line)
    | w # ws \<Rightarrow>
        \<exists>p args buf. length buf = sz \<and>
          shell_parse line = (if SHELL_MAX_ARGUMENTS < length ws then None else Some p, SHELL_MAX_ARGUMENTS < length ws, args, buf) \<and>
          (length ws \<le> SHELL_MAX_ARGUMENTS \<longrightarrow> c_string buf p = w \<and> map (c_string buf) args = ws)"
proof -
  have first: "strtok (Some 0) None line = strtok None (Some 0) line" by (simp add: strtok_def)
  have wf: "words_from (Some 0) 0 line (tokens l)" using assms by (auto simp: words_from_def line_read_def)
  show ?thesis
  proof (cases "tokens l")
    case Nil
    then have "strtok (Some 0) None line = (None, None, line)" "strtok None None line = (None, None, line)"
      using strtok_none [of "Some 0" 0 line] wf first by (simp_all add: strtok_def)
    then show ?thesis using Nil by (simp add: shell_parse_def shell_args.simps)
  next
    case (Cons w ws)
    obtain p sv buf where st: "strtok None (Some 0) line = (Some p, sv, buf)" "length buf = length line"
      "word_at buf (p + length w + 1) p w" "words_from sv (p + length w + 1) buf ws" using strtok_some wf Cons by metis
    obtain args buf' where a: "shell_args [] sv buf = (SHELL_MAX_ARGUMENTS < length ws, args, buf')" "length buf' = length buf"
      "take (p + length w + 1) buf' = take (p + length w + 1) buf"
      "length ws \<le> SHELL_MAX_ARGUMENTS \<longrightarrow> map (c_string buf') args = ws" using shell_args_words [OF st(4), of "[]" "[]"] by auto
    have "c_string buf' p = w" using word_at_c_string word_at_mono [OF st(3) a(3)] by blast
    then show ?thesis using Cons a st(1,2) first assms by (simp add: shell_parse_def line_read_def)
  qed
qed

section \<open>The shell as a line interpreter\<close>

text \<open>The reference: a line is its words, the first of them a command.\<close>

definition interpret_line ::
  "'w command list \<Rightarrow> 'w command list option \<Rightarrow> byte list \<Rightarrow> 'w shell \<Rightarrow> (bool \<times> 'w shell) option" where
  "interpret_line loc scp l s =
     (case tokens l of
        [] \<Rightarrow> Some (False, s)
      | w # ws \<Rightarrow>
          if SHELL_MAX_ARGUMENTS < length ws then Some (False, sh_put (ascii ''too many arguments'' @ CRLF) s) else shell_command loc scp w ws s)"

lemma shell_line_interprets:
  assumes "line_read l sz line"
  shows "\<exists>line'. length line' = sz \<and> shell_line loc scp line s = map_option (\<lambda>(fin, s). (fin, line', s)) (interpret_line loc scp l s)"
proof (cases "tokens l")
  case Nil
  then show ?thesis using shell_parse_words [OF assms] assms by (simp add: shell_line_def interpret_line_def line_read_def)
next
  case (Cons w ws)
  then obtain p args buf where p: "length buf = sz"
    "shell_parse line = (if SHELL_MAX_ARGUMENTS < length ws then None else Some p, SHELL_MAX_ARGUMENTS < length ws, args, buf)"
    "length ws \<le> SHELL_MAX_ARGUMENTS \<longrightarrow> c_string buf p = w \<and> map (c_string buf) args = ws" using shell_parse_words [OF assms] by auto
  show ?thesis
  proof (cases "SHELL_MAX_ARGUMENTS < length ws")
    case True
    then show ?thesis using p Cons by (auto simp: shell_line_def interpret_line_def)
  next
    case False
    then have "shell_line loc scp line s = map_option (\<lambda>(fin, s). (fin, buf, s)) (shell_command loc scp w ws s)"
      using p by (cases "shell_command loc scp w ws s") (auto simp: shell_line_def)
    then show ?thesis using False p(1) Cons by (auto simp: interpret_line_def)
  qed
qed

text \<open>
  A session: the lines typed, each ended by return, then the keys of an unfinished line, then the end of the channel or control-D
  (\<open>rest\<close>). The reference shows the prompt and the echo, interprets the line and goes on unless the line says \<open>exit\<close>.
\<close>

definition typed :: "byte list list \<Rightarrow> byte list \<Rightarrow> byte list" where
  "typed ls rest = concat (map (\<lambda>keys. keys @ [13]) ls) @ rest"

fun shell_session ::
  "bool \<Rightarrow> nat \<Rightarrow> 'w command list \<Rightarrow> 'w command list option \<Rightarrow> byte list list \<Rightarrow> byte list \<Rightarrow> byte list \<Rightarrow> 'w shell \<Rightarrow> 'w shell option" where
  "shell_session sg sz loc scp [] part rest s =
     Some (s\<lparr>sh_in := tl rest,
       sh_out := sh_out s @ ascii ''ch> '' @ echoes sg sz [] part @ (if rest = [] then [] else ascii ''^D'') @ CRLF @ ascii ''logout''\<rparr>)"
| "shell_session sg sz loc scp (keys # ls) part rest s =
     do { (fin, s) \<leftarrow> interpret_line loc scp (foldl (edit_key sg sz) [] keys)
            (s\<lparr>sh_in := typed ls (part @ rest), sh_out := sh_out s @ ascii ''ch> '' @ echoes sg sz [] keys @ CRLF\<rparr>);
          if fin then Some s else shell_session sg sz loc scp ls part rest s }"

text \<open>The commands leave the keys of the next lines alone.\<close>

definition input_kept :: "'w command list \<Rightarrow> bool" where
  "input_kept cs \<longleftrightarrow> (\<forall>c \<in> set cs. \<forall>args s s'. snd c args s = Some s' \<longrightarrow> sh_in s' = sh_in s)"

definition commands_return :: "'w command list \<Rightarrow> bool" where
  "commands_return cs \<longleftrightarrow> (\<forall>c \<in> set cs. \<forall>args s. \<exists>s'. snd c args s = Some s')"

abbreviation opt_table :: "'w command list option \<Rightarrow> 'w command list" where
  "opt_table scp \<equiv> (case scp of None \<Rightarrow> [] | Some cs \<Rightarrow> cs)"

lemma sh_put_in [simp]: "sh_in (sh_put bs s) = sh_in s"
  by (simp add: sh_put_def)

lemma list_commands_in [simp]: "sh_in (list_commands cs s) = sh_in s" "sh_in (usage p s) = sh_in s"
  by (simp_all add: list_commands_def usage_def)

lemma cmdexec_in: "cmdexec cs name args s = Some (f, s') \<Longrightarrow> input_kept cs \<Longrightarrow> sh_in s' = sh_in s"
  by (induction cs name args s rule: cmdexec.induct) (auto simp: input_kept_def split: if_splits bind_splits)

lemma cmdexec_returns: "commands_return cs \<Longrightarrow> \<exists>f s'. cmdexec cs name args s = Some (f, s')"
proof (induction cs)
  case (Cons c cs)
  obtain s1 where "snd c args s = Some s1" using Cons.prems unfolding commands_return_def by (metis list.set_intros(1))
  then show ?case using Cons by (auto simp: commands_return_def)
qed auto

lemma shell_command_in:
  assumes "shell_command loc scp name args s = Some (fin, s')" "input_kept loc" "input_kept (opt_table scp)"
  shows "sh_in s' = sh_in s"
proof (cases "strcaseeq name (ascii ''exit'') \<or> strcaseeq name (ascii ''help'')")
  case True
  then show ?thesis using assms(1) by (auto simp: shell_command_def split: if_splits option.splits)
next
  case False
  then obtain f s1 f2 s2 where 1: "cmdexec loc name args s = Some (f, s1)"
    "(if f then (case scp of None \<Rightarrow> Some (True, s1) | Some scp \<Rightarrow> cmdexec scp name args s1) else Some (False, s1)) = Some (f2, s2)"
    "s' = (if f2 then sh_put (ascii '' ?'' @ CRLF) (sh_put name s2) else s2)"
    using assms(1) by (auto simp: shell_command_def split: bind_splits)
  have "sh_in s2 = sh_in s1" using 1(2) assms(3) by (auto dest: cmdexec_in split: if_splits option.splits)
  then show ?thesis using 1(3) cmdexec_in [OF 1(1) assms(2)] by simp
qed

lemma shell_command_returns:
  assumes "commands_return loc" "commands_return (opt_table scp)"
  shows "\<exists>fin s'. shell_command loc scp name args s = Some (fin, s')"
proof -
  obtain f s1 where 1: "cmdexec loc name args s = Some (f, s1)" using cmdexec_returns [OF assms(1)] by blast
  have "\<exists>f2 s2. (if f then (case scp of None \<Rightarrow> Some (True, s1) | Some scp \<Rightarrow> cmdexec scp name args s1) else Some (False, s1)) = Some (f2, s2)"
    using cmdexec_returns [OF assms(2)] by (auto split: option.splits)
  then show ?thesis using 1 by (auto simp: shell_command_def)
qed

lemma interpret_line_in:
  "interpret_line loc scp l s = Some (fin, s') \<Longrightarrow> input_kept loc \<Longrightarrow> input_kept (opt_table scp) \<Longrightarrow> sh_in s' = sh_in s"
  by (auto simp: interpret_line_def dest: shell_command_in split: list.splits if_splits)

lemma shell_session_returns:
  assumes "commands_return loc" "commands_return (opt_table scp)"
  shows "\<exists>s'. shell_session sg sz loc scp ls part rest s = Some s'"
proof (induction ls arbitrary: s)
  case (Cons keys ls)
  have "\<exists>fin s'. interpret_line loc scp l s = Some (fin, s')" for l s
    using shell_command_returns [OF assms] by (auto simp: interpret_line_def split: list.splits)
  then show ?case using Cons.IH by (fastforce split: bind_splits)
qed simp

definition no_end_key :: "byte list \<Rightarrow> bool" where
  "no_end_key keys \<longleftrightarrow> 4 \<notin> set keys \<and> 13 \<notin> set keys"

lemma shell_loop_session:
  assumes "list_all no_end_key ls" "no_end_key part" "rest = [] \<or> hd rest = 4" "input_kept loc" "input_kept (opt_table scp)"
    and "sh_in s = typed ls (part @ rest)" "line \<noteq> []"
  shows "shell_loop sg loc scp line s = shell_session sg (length line) loc scp ls part rest s"
  using assms(1,6,7)
proof (induction ls arbitrary: s line)
  case Nil
  from shellGetLine_end [of "sh_put (ascii ''ch> '') s" part rest line sg] Nil assms(2,3) obtain line' where
    "shellGetLine sg line (sh_put (ascii ''ch> '') s) = Some (True, line', (sh_put (ascii ''ch> '') s)
      \<lparr>sh_in := tl rest, sh_out := sh_out (sh_put (ascii ''ch> '') s) @ echoes sg (length line) [] part @ (if rest = [] then [] else ascii ''^D'')\<rparr>)"
    by (auto simp: typed_def no_end_key_def)
  then show ?case by (subst shell_loop.simps) (simp add: sh_put_def)
next
  case (Cons keys ls)
  let ?l = "foldl (edit_key sg (length line)) [] keys"
  let ?s = "s\<lparr>sh_in := typed ls (part @ rest), sh_out := sh_out s @ ascii ''ch> '' @ echoes sg (length line) [] keys @ CRLF\<rparr>"
  from shellGetLine_line [of "sh_put (ascii ''ch> '') s" keys "typed ls (part @ rest)" line sg] Cons.prems obtain line1 where
    1: "shellGetLine sg line (sh_put (ascii ''ch> '') s) = Some (False, line1, ?s)" "line_read ?l (length line) line1"
    by (auto simp: typed_def no_end_key_def sh_put_def)
  obtain line2 where 2: "length line2 = length line"
    "shell_line loc scp line1 ?s = map_option (\<lambda>(fin, s). (fin, line2, s)) (interpret_line loc scp ?l ?s)"
    using shell_line_interprets [OF 1(2)] by blast
  have ne: "line2 \<noteq> []" using 2(1) Cons.prems(3) by auto
  show ?case
  proof (cases "interpret_line loc scp ?l ?s")
    case None
    then show ?thesis using 1(1) 2(2) by (subst shell_loop.simps) simp
  next
    case (Some r)
    obtain fin s2 where r: "r = (fin, s2)" by (cases r)
    have "sh_in s2 = typed ls (part @ rest)" using interpret_line_in [OF Some [unfolded r] assms(4,5)] by simp
    then have "shell_loop sg loc scp line2 s2 = shell_session sg (length line) loc scp ls part rest s2"
      using Cons.IH [of s2 line2] Cons.prems(1) 2(1) ne by simp
    then show ?thesis using Some r 1(1) 2(2) by (subst shell_loop.simps) simp
  qed
qed

lemma local_commands_ok: "input_kept (local_commands info now)" "commands_return (local_commands info now)"
  by (auto simp: input_kept_def commands_return_def local_commands_def cmd_info_def cmd_systime_def)

text \<open>
  C16. The shell thread carries out its session. Whatever is typed, over any line buffer, with erased, ignored and surplus keys: each line is what the
  editing keys leave of it, its words separated by blanks are the command and its arguments (more than four are refused), and the thread
  does exactly what the reference session does, with the same output, until \<open>exit\<close>, control-D or the end of the channel. Splitting the
  line in place never damages a word found before, and no byte is written outside the buffer. When the commands return, the thread
  reaches its end.
\<close>

theorem shell_thread_session:
  assumes "list_all no_end_key ls" "no_end_key part" "rest = [] \<or> hd rest = 4" "sh_in s = typed ls (part @ rest)"
    and "length line = SHELL_MAX_LINE_LENGTH" "input_kept (opt_table scp)"
  shows "shell_thread sg info now scp line s =
      shell_session sg SHELL_MAX_LINE_LENGTH (local_commands info now) scp ls part rest (sh_put (CRLF @ ascii ''ChibiOS/RT Shell'' @ CRLF) s) \<and>
    (commands_return (opt_table scp) \<longrightarrow> (\<exists>s'. shell_thread sg info now scp line s = Some s'))"
proof -
  have "line \<noteq> []" using assms(5) by (auto simp: SHELL_MAX_LINE_LENGTH_def)
  then have 1: "shell_thread sg info now scp line s =
      shell_session sg SHELL_MAX_LINE_LENGTH (local_commands info now) scp ls part rest (sh_put (CRLF @ ascii ''ChibiOS/RT Shell'' @ CRLF) s)"
    using shell_loop_session [OF assms(1-3) local_commands_ok(1) assms(6)] assms(4,5) by (simp add: shell_thread_def)
  then show ?thesis using shell_session_returns [OF local_commands_ok(2)] by metis
qed

text \<open>
  The hypotheses hold for a session with a mistyped and corrected \<open>exit\<close> command and a line of blanks before it, on a shell with a command table
  of its own; the shell ends at \<open>exit\<close>, and the keys behind it are left.
\<close>

theorem shell_thread_session_witness:
  "\<exists>out. shell_thread True [] (\<lambda>_. []) (Some [(ascii ''nop'', \<lambda>args s. Some s)]) (replicate 64 0)
      \<lparr>sh_in = typed [ascii ''  '', ascii ''nop  1'', ascii ''exx'' @ [8] @ ascii ''it ''] (ascii ''ab'' @ [4]), sh_out = [], sh_world = ()\<rparr> =
    Some \<lparr>sh_in = ascii ''ab'' @ [4], sh_out = out, sh_world = ()\<rparr>"
  using shell_thread_session [of "[ascii ''  '', ascii ''nop  1'', ascii ''exx'' @ [8] @ ascii ''it '']" "ascii ''ab''" "[4]"
      "\<lparr>sh_in = typed [ascii ''  '', ascii ''nop  1'', ascii ''exx'' @ [8] @ ascii ''it ''] (ascii ''ab'' @ [4]), sh_out = [], sh_world = ()\<rparr>"
      "replicate 64 0" "Some [(ascii ''nop'', \<lambda>args s. Some s)]" True "[]" "\<lambda>_. []"]
  by (simp add: no_end_key_def SHELL_MAX_LINE_LENGTH_def SHELL_MAX_ARGUMENTS_def input_kept_def interpret_line_def tokens.simps blank_def edit_key_def sh_control_def
      shell_command_def strcaseeq_def tolower_byte_def local_commands_def sh_put_def typed_def)

end
