(* ===== verification/OsEvtimer.thy ===== *)
theory OsEvtimer
  imports ChTick ChEvents ChDynamic OsShell
begin

text \<open>
  Periodic event timers, \<open>os/various/evtimer.c\<close>, over the virtual timers and events of the kernel; and the operations of
  \<open>shell.c\<close> that create and end the thread of a shell. The event timers are named by numbers; \<open>ets\<close> gives their structures, whose fields do not change
  after the initialisation, and \<open>fn\<close> is the name of \<open>tmrcb\<close> among the callbacks of timers.
\<close>

section \<open>Event timers\<close>

record event_timer_t =
  et_vt :: vtid
  et_es :: nat
  et_interval :: systime_t

definition tmrcb :: "nat \<Rightarrow> (nat \<Rightarrow> event_timer_t) \<Rightarrow> nat \<Rightarrow> ch_system \<Rightarrow> ch_system option" where
  "tmrcb fn ets p k =
     do { let etp = ets p;
          k \<leftarrow> chSysLockFromISR k;
          k \<leftarrow> chEvtBroadcastI (et_es etp) k;
          k \<leftarrow> chVTDoSetI (et_vt etp) (et_interval etp) (Vt_user fn) p k;
          chSysUnlockFromISR k }"

definition evtObjectInit :: "nat \<Rightarrow> systime_t \<Rightarrow> (nat \<Rightarrow> event_timer_t) \<Rightarrow> ch_system \<Rightarrow> (nat \<Rightarrow> event_timer_t) \<times> ch_system" where
  "evtObjectInit p time ets k =
     (let k = chEvtObjectInit (et_es (ets p)) k;
          k = chVTObjectInit (et_vt (ets p)) k
      in (ets(p := (ets p)\<lparr>et_interval := time\<rparr>), k))"

definition evtStart :: "nat \<Rightarrow> (nat \<Rightarrow> event_timer_t) \<Rightarrow> nat \<Rightarrow> ch_system \<Rightarrow> ch_system option" where
  "evtStart fn ets p k = chVTSet (et_vt (ets p)) (et_interval (ets p)) (Vt_user fn) p k"

section \<open>The thread of a shell\<close>

definition shellInit :: "nat \<Rightarrow> ch_system \<Rightarrow> ch_system" where
  "shellInit shell_terminated k = chEvtObjectInit shell_terminated k"

definition shellExit :: "nat \<Rightarrow> msg_t \<Rightarrow> ch_system \<Rightarrow> ch_system option" where
  "shellExit shell_terminated msg k =
     do { k \<leftarrow> chSysLock k; k \<leftarrow> chEvtBroadcastI shell_terminated k; chThdExitS msg k }"

definition shellCreate ::
  "nat \<Rightarrow> memory_heap_t \<Rightarrow> nat \<Rightarrow> nat \<Rightarrow> tprio_t \<Rightarrow> mem_t \<Rightarrow> ch_system \<Rightarrow> (tid outcome \<times> mem_t \<times> ch_system) option" where
  "shellCreate wa_min h heapp sz prio m k = chThdCreateFromHeap wa_min h heapp sz prio m k"

definition shellCreateStatic :: "nat \<Rightarrow> tid \<Rightarrow> nat \<Rightarrow> tprio_t \<Rightarrow> ch_system \<Rightarrow> (tid outcome \<times> ch_system) option" where
  "shellCreateStatic wa_min wsp sz prio k = chThdCreateStatic wa_min wsp sz prio k"

section \<open>Broadcasting and the timers\<close>

text \<open>A broadcast touches no timer.\<close>

lemma same_vt_refl [simp]: "same_vt k k"
  by (simp add: same_vt_def)

lemma same_vt_trans: "same_vt k k1 \<Longrightarrow> same_vt k1 k2 \<Longrightarrow> same_vt k k2"
  by (simp add: same_vt_def)

lemma same_vt_ready: "chSchReadyI t k = Some k' \<Longrightarrow> same_vt k k'"
  by (auto simp: chSchReadyI_def same_vt_def Let_def split: bind_splits)

lemma same_vt_signal: "chEvtSignalI t e k = Some k' \<Longrightarrow> same_vt k k'"
  by (auto simp: chEvtSignalI_def Let_def split: bind_splits if_splits dest!: same_vt_ready) (simp_all add: same_vt_def)

lemma same_vt_broadcast_loop: "broadcast_loop f ls k = Some k' \<Longrightarrow> same_vt k k'"
proof (induction ls arbitrary: k)
  case (Cons l ls)
  define k1 where "k1 = k\<lparr>listener := (listener k)(l := (listener k l)\<lparr>el_flags := el_flags (listener k l) OR f\<rparr>)\<rparr>"
  have "same_vt k k1" by (simp add: k1_def same_vt_def)
  moreover obtain k2 where "same_vt k1 k2" "broadcast_loop f ls k2 = Some k'"
    using Cons.prems unfolding broadcast_loop.simps Let_def k1_def [symmetric]
    by (auto split: bind_splits if_splits dest: same_vt_signal intro: same_vt_refl)
  ultimately show ?case using Cons.IH same_vt_trans by blast
qed simp

lemma same_vt_broadcast: "chEvtBroadcastI esp k = Some k' \<Longrightarrow> same_vt k k'"
  by (auto simp: chEvtBroadcastI_def chEvtBroadcastFlagsI_def dest: same_vt_broadcast_loop split: bind_splits)

lemma same_vt_facts:
  "same_vt k k' \<Longrightarrow> vt_ok k' = vt_ok k" "same_vt k k' \<Longrightarrow> vt_remaining k' = vt_remaining k" "same_vt k k' \<Longrightarrow> vt_elapsed k' = vt_elapsed k"
  "same_vt k k' \<Longrightarrow> vtlist k' = vtlist k"
  by (simp_all add: same_vt_def vt_ok_def vt_remaining_def vt_elapsed_def)

lemma evt_ok_core: "core k' = core k \<Longrightarrow> evt_ok k' = evt_ok k"
  using coreD(1) [of k' k] by (simp add: evt_ok_def)

section \<open>Periodic events\<close>

text \<open>
  Each time an event timer expires, its callback gives every listener of its source the events registered for it, wakes who waits for them, and
  arms the timer again for the whole interval; no other timer changes its due time, and the invariants of the kernel hold.
\<close>

theorem tmrcb_periodic:
  assumes "kernel_ok k" "evt_ok k" "vt_ok k" "class_isr k"
    and "et_vt (ets p) \<notin> set (vtlist k)" "et_interval (ets p) \<noteq> TIME_IMMEDIATE"
    and "vt_elapsed k + unat (vt_delay (et_interval (ets p))) < 2 ^ 32"
  shows "\<exists>k'. tmrcb fn ets p k = Some k' \<and> kernel_ok k' \<and> evt_ok k' \<and> vt_ok k' \<and> class_isr k' \<and>
    vt_func (vtimer k' (et_vt (ets p))) = Some (Vt_user fn) \<and> vt_par (vtimer k' (et_vt (ets p))) = p \<and>
    vt_remaining k' = insert_due (et_vt (ets p)) (int (unat (vt_delay (et_interval (ets p))))) (vt_remaining k) \<and>
    (\<forall>t. epending_of k' t = epending_of k t OR evts_sent 0 (listener k) t (es_next k (et_es (ets p))))"
proof -
  let ?k0 = "k\<lparr>lock_cnt := 1\<rparr>"
  have k0: "kernel_ok ?k0" "class_I ?k0" "evt_ok ?k0" using assms(1,2,4) by (simp_all add: class_I_def class_isr_def)
  obtain k1 where k1: "chEvtBroadcastI (et_es (ets p)) ?k0 = Some k1" "kernel_ok k1" "evt_ok k1" "isr_cnt k1 = isr_cnt k" "lock_cnt k1 = 1"
    "\<forall>t. epending_of k1 t = epending_of k t OR evts_sent 0 (listener k) t (es_next k (et_es (ets p)))"
    using chEvtBroadcastFlagsI_ok [OF k0, of "et_es (ets p)" 0] by (auto simp: chEvtBroadcastI_def)
  have "same_vt k ?k0" by (simp add: same_vt_def)
  then have vt: "same_vt k k1" using same_vt_trans same_vt_broadcast [OF k1(1)] by blast
  have I: "class_I k1" using k1(4,5) assms(4) by (simp add: class_I_def class_isr_def)
  obtain k2 where k2: "chVTDoSetI (et_vt (ets p)) (et_interval (ets p)) (Vt_user fn) p k1 = Some k2" "vt_ok k2" "core k2 = core k1"
    "vt_func (vtimer k2 (et_vt (ets p))) = Some (Vt_user fn)" "vt_par (vtimer k2 (et_vt (ets p))) = p"
    "vt_remaining k2 = insert_due (et_vt (ets p)) (int (unat (vt_delay (et_interval (ets p))))) (vt_remaining k)"
    using chVTDoSetI_ok [of k1 "et_interval (ets p)" "et_vt (ets p)" "Vt_user fn" p] assms(3,5-7) I same_vt_facts [OF vt] by auto
  note cD = coreD [OF k2(3)]
  have "chSysUnlockFromISR k2 = Some (k2\<lparr>lock_cnt := 0\<rparr>)" using chSysUnlockFromISR_ok cD(10,11) k1(4,5) assms(4) by (simp add: class_isr_def)
  then have "tmrcb fn ets p k = Some (k2\<lparr>lock_cnt := 0\<rparr>)" using assms(4) k1(1) k2(1) by (simp add: tmrcb_def chSysLockFromISR_ok)
  moreover have "kernel_ok k2" "evt_ok k2" using kernel_ok_core [OF k2(3)] evt_ok_core [OF k2(3)] k1(2,3) by simp_all
  moreover have "vt_remaining (k2\<lparr>lock_cnt := 0\<rparr>) = vt_remaining k2" by (simp add: vt_remaining_def vt_elapsed_def)
  ultimately show ?thesis using k1(4,6) k2 cD(1,10) assms(4) by (simp add: class_isr_def)
qed

text \<open>
  Starting an event timer arms it for the whole interval; one that was running already starts its interval again.
\<close>

lemma chVTDoResetI_lasttime: "chVTDoResetI v k = Some k' \<Longrightarrow> vtl_lasttime k' = vtl_lasttime k"
  by (auto simp: chVTDoResetI_def Let_def stStopAlarm_def stSetAlarm_def split: bind_splits if_splits)

theorem evtStart_restarts:
  assumes "kernel_ok k" "vt_ok k" "class_thread k" "resched_ok k" "et_interval (ets p) \<noteq> TIME_IMMEDIATE"
    and "vt_elapsed k + unat (vt_delay (et_interval (ets p))) < 2 ^ 32"
  shows "\<exists>k'. evtStart fn ets p k = Some k' \<and> kernel_ok k' \<and> vt_ok k' \<and> class_thread k' \<and>
    vt_func (vtimer k' (et_vt (ets p))) = Some (Vt_user fn) \<and>
    vt_remaining k' =
      insert_due (et_vt (ets p)) (int (unat (vt_delay (et_interval (ets p))))) (filter (\<lambda>(w, n). w \<noteq> et_vt (ets p)) (vt_remaining k))"
proof -
  let ?k0 = "k\<lparr>lock_cnt := 1\<rparr>" and ?v = "et_vt (ets p)"
  have I: "class_I ?k0" "vt_ok ?k0" "vt_remaining ?k0 = vt_remaining k" using assms(2,3)
    by (simp_all add: class_I_def class_thread_def vt_remaining_def vt_elapsed_def)
  have "\<exists>k1. chVTResetI ?v ?k0 = Some k1 \<and> vt_ok k1 \<and> core k1 = core ?k0 \<and> ?v \<notin> set (vtlist k1) \<and> vt_elapsed k1 = vt_elapsed k \<and>
      vt_remaining k1 = filter (\<lambda>(w, n). w \<noteq> ?v) (vt_remaining k)"
  proof (cases "?v \<in> set (vtlist k)")
    case True
    then obtain k1 where k1: "chVTDoResetI ?v ?k0 = Some k1" "vt_ok k1" "core k1 = core ?k0" "vt_func (vtimer k1 ?v) = None"
      "vt_remaining k1 = filter (\<lambda>(w, n). w \<noteq> ?v) (vt_remaining k)" using chVTDoResetI_ok [OF I(2,1), of ?v] I(3) by auto
    have "vt_elapsed k1 = vt_elapsed k" using chVTDoResetI_lasttime [OF k1(1)] coreD(12) [OF k1(3)] by (simp add: vt_elapsed_def)
    then show ?thesis using k1 vt_okD(2) [OF assms(2), of ?v] vt_okD(2) [OF k1(2), of ?v] True I(1) by (simp add: chVTResetI_def chVTIsArmedI_def)
  next
    case False
    then have "filter (\<lambda>(w, n). w \<noteq> ?v) (vt_remaining k) = vt_remaining k"
      using vt_remaining_vtlist [of k] by (auto simp: filter_id_conv) (metis fst_conv image_eqI list.set_map)
    then show ?thesis using vt_okD(2) [OF assms(2), of ?v] False I by (simp add: chVTResetI_def chVTIsArmedI_def vt_elapsed_def)
  qed
  then obtain k1 where k1: "chVTResetI ?v ?k0 = Some k1" "vt_ok k1" "core k1 = core ?k0" "?v \<notin> set (vtlist k1)" "vt_elapsed k1 = vt_elapsed k"
    "vt_remaining k1 = filter (\<lambda>(w, n). w \<noteq> ?v) (vt_remaining k)" by blast
  obtain k2 where k2: "chVTDoSetI ?v (et_interval (ets p)) (Vt_user fn) p k1 = Some k2" "vt_ok k2" "core k2 = core k1"
    "vt_func (vtimer k2 ?v) = Some (Vt_user fn)"
    "vt_remaining k2 = insert_due ?v (int (unat (vt_delay (et_interval (ets p))))) (vt_remaining k1)"
    using chVTDoSetI_ok [of k1 "et_interval (ets p)" ?v "Vt_user fn" p] assms(5,6) k1(2,4,5) class_core(1) [OF k1(3)] I(1) by auto
  have c: "core k2 = core ?k0" using k2(3) k1(3) by simp
  have "class_S k2" "resched_ok k2" using class_core(2) [OF c] assms(3,4) coreD(1-3) [OF c]
    by (simp_all add: class_S_def class_thread_def resched_ok_iff)
  then have "evtStart fn ets p k = Some (k2\<lparr>lock_cnt := 0\<rparr>)"
    using assms(3) k1(1) k2(1) by (simp add: evtStart_def chVTSet_def chVTSetI_def chSysLock_ok chSysUnlock_resched)
  moreover have "kernel_ok k2" using kernel_ok_core [OF c] assms(1) by simp
  moreover have "vt_remaining (k2\<lparr>lock_cnt := 0\<rparr>) = vt_remaining k2" by (simp add: vt_remaining_def vt_elapsed_def)
  moreover have "class_thread (k2\<lparr>lock_cnt := 0\<rparr>)" using coreD(10) [OF c] assms(3) by (simp add: class_thread_def)
  ultimately show ?thesis using k2 k1(6) by simp
qed

section \<open>The end of a shell\<close>

text \<open>
  \<open>shellExit\<close> tells the listeners of \<open>shell_terminated\<close> and ends the thread in one critical zone: when it lets another thread run, the events are
  already set and the thread is final, with the exit code for whoever waits for it.
\<close>

lemma epending_readied_all [simp]: "epending_of (readied_all ts k) t = epending_of k t"
  unfolding readied_all_def by (induction ts arbitrary: k) (auto simp: readied_def make_ready_def)

lemma queue_fifo_remove_thd: "queue_fifo_remove q k = Some (t, k') \<Longrightarrow> thd k' = thd k"
  by (auto simp: queue_fifo_remove_def split: list.splits)

lemma chThdExitS_epending:
  assumes "kernel_ok k" "class_S k" "chThdExitS m k = Some k'"
  shows "epending_of k' t = epending_of k t"
proof -
  let ?c = "r_current k"
  let ?k1 = "set_pu ?c (Rdymsg m) k"
  have "state_of k ?c = CH_STATE_CURRENT" using sched_okD(3) [OF kernel_okD(1) [OF assms(1)]] by simp
  then have "kernel_ok ?k1" using kernel_ok_set_pu [OF assms(1), of ?c "Rdymsg m"] by simp
  then have "exit_loop ?c ?k1 = Some (readied_all (queues ?k1 (Q_WAIT ?c)) ?k1)" using exit_loop_eq assms(2) by (simp add: class_S_I)
  then show ?thesis using assms(3)
    by (auto simp: chThdExitS_def Let_def REG_REMOVE_def chSchGoSleepS_def dest!: queue_fifo_remove_thd split: bind_splits if_splits)
qed

lemma broadcast_keeps_ready: "broadcast_loop f ls k = Some k' \<Longrightarrow> state_of k x = CH_STATE_READY \<Longrightarrow> state_of k' x = CH_STATE_READY"
proof (induction ls arbitrary: k)
  case (Cons l ls)
  have step: "chEvtSignalI t e k = Some k2 \<Longrightarrow> state_of k x = CH_STATE_READY \<Longrightarrow> state_of k2 x = CH_STATE_READY" for t e k k2
    by (auto simp: chEvtSignalI_def chSchReadyI_def Let_def split: bind_splits if_splits)
  show ?case using Cons.prems by (auto simp: Let_def split: bind_splits if_splits dest!: step intro: Cons.IH)
qed simp

theorem shellExit_announces:
  assumes "kernel_ok k" "evt_ok k" "class_thread k" "queues k Q_RLIST \<noteq> []"
  shows "\<exists>k'. shellExit es msg k = Some k' \<and> kernel_ok k' \<and> resched_ok k' \<and> state_of k' (r_current k) = CH_STATE_FINAL \<and>
    rdymsg_of (r_current k) k' = Some msg \<and> (\<forall>t. epending_of k' t = epending_of k t OR evts_sent 0 (listener k) t (es_next k es))"
proof -
  let ?k0 = "k\<lparr>lock_cnt := 1\<rparr>"
  have k0: "kernel_ok ?k0" "class_I ?k0" "evt_ok ?k0" using assms(1-3) by (simp_all add: class_I_def class_thread_def)
  obtain k1 where k1: "chEvtBroadcastI es ?k0 = Some k1" "kernel_ok k1" "isr_cnt k1 = isr_cnt k" "lock_cnt k1 = 1" "r_current k1 = r_current k"
    "\<forall>t. epending_of k1 t = epending_of k t OR evts_sent 0 (listener k) t (es_next k es)"
    using chEvtBroadcastFlagsI_ok [OF k0, of es 0] by (auto simp: chEvtBroadcastI_def)
  have S: "class_S k1" using k1(3,4) assms(3) by (simp add: class_S_def class_thread_def)
  obtain t where "t \<in> set (queues k Q_RLIST)" using assms(4) by (cases "queues k Q_RLIST") auto
  then have "state_of ?k0 t = CH_STATE_READY" using sched_okD(4) [OF kernel_okD(1) [OF assms(1)], of t Q_RLIST] by simp
  then have "state_of k1 t = CH_STATE_READY"
    using k1(1) k0(2) broadcast_keeps_ready [of 0 "es_next k es" ?k0 k1 t] by (simp add: chEvtBroadcastI_def chEvtBroadcastFlagsI_def)
  then have ne: "queues k1 Q_RLIST \<noteq> []" using sched_okD(5) [OF kernel_okD(1) [OF k1(2)], of t] by auto
  obtain k2 where k2: "chThdExitS msg k1 = Some (sleeping CH_STATE_FINAL k2)" "kernel_ok (sleeping CH_STATE_FINAL k2)"
    "resched_ok (sleeping CH_STATE_FINAL k2)" "r_current k2 = r_current k1" "r_current k1 \<noteq> hd (queues k2 Q_RLIST)"
    "\<forall>x. p_u (thd k2 x) = (if x = r_current k1 then Rdymsg msg else p_u (thd k1 x))"
    using chThdExitS_sleeps [OF k1(2) S ne, of msg] by blast
  have "shellExit es msg k = Some (sleeping CH_STATE_FINAL k2)" using assms(3) k1(1) k2(1) by (simp add: shellExit_def chSysLock_ok)
  moreover have "epending_of (sleeping CH_STATE_FINAL k2) t = epending_of k1 t" for t using chThdExitS_epending [OF k1(2) S k2(1)] .
  ultimately show ?thesis using k1(5,6) k2(2-6) by (simp add: rdymsg_of_def)
qed

end
