(* ===== verification/Spec2Isabelle.thy ===== *)
theory Spec2Isabelle
  imports ChQueues ChVT ChSched ChSem ChMtx ChThreads ChCond ChMsg ChEvents ChMboxes ChIOQueues ChMem ChDynamic ChTick ChSys
    ChSystem ChStreams HalAdc HalSpi HalSerial HalPrint HalSerialUsb DspFilter NilSystem HalMmcSpi OsEvtimer
begin

text \<open>
  \<^bold>\<open>Verification of the DSP application and of its operating system, ChibiOS/RT 3.0\<close>

  \<^bold>\<open>The program.\<close> \<open>src/examples/DSP-Library\<close> is a digital-filter library with an application thread that filters samples.
  It runs on the real-time kernel \<open>src/ChibiOS/os/rt\<close>: a fixed-priority preemptive scheduler with virtual timers, threads,
  semaphores, mutexes with priority inheritance, condition variables, messages, events, mailboxes, byte queues, a heap and
  memory pools. The filter objects come from the kernel heap, the filter runs in a kernel thread, results go out through
  the formatted output of \<open>os/hal/lib/streams\<close>. The hardware abstraction layer \<open>os/hal\<close> has a driver per kind of
  peripheral: operations called by threads and callbacks called by interrupts, which meet in the state of the driver and in
  kernel objects.

  \<^bold>\<open>Configuration.\<close> The one of \<open>examples/DSP-Library/chconf.h\<close>: 32-bit system time, tickless mode with a minimal
  delta of 2, no round-robin quantum, non-recursive mutexes, first-come first-served semaphores and messages, all checks,
  assertions, statistics and the trace buffer enabled.

  \<^bold>\<open>Conventions.\<close> The kernel state is the record \<open>ch_system\<close> of \<open>ChTypes\<close> (the C global \<open>ch\<close> together with all
  objects it links); an operation takes and returns it. \<open>None\<close> is the value of a run that does not come back: \<open>chSysHalt\<close>
  after a failed check, undefined behaviour, or an endless loop (loops that need not end are partial functions). An
  operation that may block returns an outcome: \<open>Done x\<close>, or \<open>Switched\<close> when another thread runs in its place;
  what the blocked thread does when it is switched in again is a definition of its own, named \<open>_resume\<close> or \<open>_k\<close>. Checks that
  pointers are not NULL have no counterpart, since objects are named by numbers. Machine integers are words or carry their
  bounds.

  \<^bold>\<open>Theories.\<close>
  \<^item> \<open>ChPrelude\<close>, \<open>ChTypes\<close>: shared lemmas; the data model of \<open>chschd.h\<close>, \<open>chsystypes.h\<close> and the object headers.
  \<^item> \<open>ChQueues\<close>: \<open>queue_insert\<close>, \<open>queue_dequeue\<close>, \<open>list_insert\<close> and the insertion loops of the ready list over the links
    \<open>p_next\<close> and \<open>p_prev\<close> themselves. They are shown to implement the operations on lists that all later theories
    use (locale \<open>thread_queues\<close>).
  \<^item> \<open>ChDebug\<close>: critical zones and the checker of \<open>chdebug.c\<close>.
  \<^item> \<open>ChVT\<close>, \<open>ChTick\<close>: the delta list of timers, arming and disarming; the timer interrupt, for any time-out
    callback with the contract of the locale \<open>timer_calls\<close>.
  \<^item> \<open>ChSched\<close>: the scheduler. \<open>sched_ok\<close> (the ready list is ordered and holds exactly the ready threads), \<open>wait_ok\<close>,
    \<open>sem_ok\<close> and \<open>kernel_ok\<close> are the invariants; the locale \<open>class_I_op\<close> turns an interrupt-level operation into its
    thread-level form.
  \<^item> \<open>ChSem\<close>, \<open>ChMtx\<close>, \<open>ChCond\<close>, \<open>ChMsg\<close>, \<open>ChEvents\<close>, \<open>ChThreads\<close>, \<open>ChDynamic\<close>: the synchronisation objects, threads and the
    registry; \<open>mtx_ok\<close> is the priority inheritance protocol (every thread has exactly the priority its own and its
    waiters' priorities prescribe).
  \<^item> \<open>ChRing\<close>, \<open>ChMboxes\<close>, \<open>ChIOQueues\<close>: circular buffers as bounded queues (locale \<open>fifo_buffer\<close>).
  \<^item> \<open>ChMem\<close>: core memory, heap and pools on a memory of block headers.
  \<^item> \<open>ChSys\<close>: start-up, integrity check, time measurement, statistics, tracing.
  \<^item> \<open>ChSystem\<close>: the kernel as a transition system of any number of threads. What is shown for single services is put
    together here: from start-up on, in any interleaving, the invariants hold and the kernel does not halt.
  \<^item> \<open>ChPrintf\<close>, \<open>ChStreams\<close>: formatted output and the streams in memory.
  \<^item> \<open>HalOsal\<close>: the layer \<open>osal/rt\<close> between drivers and kernel. \<open>HalAdc\<close>, \<open>HalSpi\<close>, \<open>HalSerial\<close>: the drivers \<open>adc.c\<close> with the
    DMA interrupt of its port, \<open>spi.c\<close> and \<open>serial.c\<close>; the register access of their ports is a parameter. \<open>HalPrint\<close>: formatted output
    to the serial driver.
  \<^item> \<open>HalOtgFifo\<close>, \<open>HalOtg\<close>, \<open>HalUsb\<close>: the USB driver \<open>usb.c\<close> with the port \<open>OTGv1/usb_lld.c\<close> on a record of its registers: copying
    between queues, buffers and FIFOs of words; endpoints and FIFO memory; control transfers, interrupts and the
    pump thread. The callbacks of an application are a structure of functions with the contract of the locale \<open>usb_application\<close>.
    \<open>HalUsbEndpoints\<close>: configuration of endpoints. \<open>HalSerialUsb\<close>: \<open>serial_usb.c\<close> and the CDC device of
    \<open>testhal/STM32/STM32F4xx/USB_CDC\<close>, which fulfils the contract.
  \<^item> \<open>HalMmcsd\<close>, \<open>HalMmcSpi\<close>: memory cards, \<open>hal_mmcsd.c\<close> and \<open>mmc_spi.c\<close>: bit fields of the registers, the checksum against its shift
    register, and the driver over the stream of bytes it receives, for all such streams; \<open>spi.c\<close> appears as its synchronous calls do to the thread.
  \<^item> \<open>OsShell\<close>, \<open>OsEvtimer\<close>: the utilities of \<open>os/various\<close>: the command shell on its line buffer, against a reference session on words; periodic event
    timers and the end of a shell thread over the kernel.
  \<^item> \<open>NilKernel\<close>, \<open>NilSystem\<close>: the small kernel \<open>os/nil\<close>, the alternative to RT for the same ports: a table of threads in which position is
    priority. The first holds the operations and what those of the interrupt level keep (locale \<open>nil_iop\<close>), the second the blocking operations,
    the timer interrupt with and without tick, and the kernel as a transition system.
  \<^item> \<open>DspFilter\<close>: the filter classes and the filter thread, over any arithmetic of the samples; floating-point rounding
    is part of that arithmetic.

  \<^bold>\<open>What the theorems show.\<close> Of each component: that its operations keep the invariants, what they do on every
  branch, that its loops end; of the pointer structures and buffers, that they implement lists and queues; of the memory
  managers, that blocks never overlap; of the filters, that the thread computes the difference equation of the filter; of
  the drivers, that what threads hand over goes out and what comes in is handed to them, and that the protocol of USB control
  transfers is kept.
  The theorems of kind \<open>error\<close> prove misbehaviours of the code.

  \<^bold>\<open>Not modelled.\<close> The machine context (stack contents, the exchange of registers in \<open>port_switch\<close>) and the fill patterns
  of the stack check; the bodies of threads other than the filter thread; tick mode (of RT), round robin and the other branches of
  the configuration; the other drivers of \<open>os/hal\<close>, clocks and register access of the ports, boards and CMSIS headers;
  that the loops which wait for a register bit of the peripheral end; the
  vendored libraries under \<open>ext\<close> and the bindings to them in \<open>os/various\<close>; the test suites.
\<close>

section \<open>Printing to the serial line\<close>



end
